(* ===== verification/Prelude.thy ===== *)
theory Prelude
  imports Complex_Main "HOL-Library.List_Lexorder" "HOL-Library.Product_Lexorder" "HOL-Library.Char_ord" "HOL-Library.Multiset"
begin

text \<open>
  What every component shares: results as sums, Python's list and dictionary idioms
  (first maximum, stable sort, first-occurrence de-duplication, slices of sixteen,
  insertion-ordered dictionaries), Python's rounding to even, decimal rendering of
  integers, and the collections of rewrite rules the component proofs use.

  Computations over a state that may fail: the state is kept when they fail.  The dialogue with the
  model, the search and the handlers of the API are written in it.
\<close>

named_theorems spec_simps \<open>unfolding rules of the model's operations\<close>
named_theorems ident_simps \<open>what an operation leaves unchanged\<close>

section \<open>Results: \<open>Inl\<close> is a raised exception, \<open>Inr\<close> a returned value\<close>

fun bindE :: "'e + 'a \<Rightarrow> ('a \<Rightarrow> 'e + 'b) \<Rightarrow> 'e + 'b" where
  "bindE (Inl e) f = Inl e"
| "bindE (Inr x) f = f x"

definition ensure :: "bool \<Rightarrow> 'e \<Rightarrow> 'e + unit" where
  "ensure b e = (if b then Inr () else Inl e)"

fun mapE :: "('a \<Rightarrow> 'e + 'b) \<Rightarrow> 'a list \<Rightarrow> 'e + 'b list" where
  "mapE f [] = Inr []"
| "mapE f (x # xs) = bindE (f x) (\<lambda>y. bindE (mapE f xs) (\<lambda>ys. Inr (y # ys)))"

fun foldE :: "('a \<Rightarrow> 's \<Rightarrow> 'e + 's) \<Rightarrow> 'a list \<Rightarrow> 's \<Rightarrow> 'e + 's" where
  "foldE f [] s = Inr s"
| "foldE f (x # xs) s = bindE (f x s) (foldE f xs)"

lemma bindE_Inr_conv [simp]:
  "bindE m f = Inr y \<longleftrightarrow> (\<exists>x. m = Inr x \<and> f x = Inr y)"
  by (cases m) auto

lemma bindE_Inl_conv:
  "bindE m f = Inl e \<longleftrightarrow> m = Inl e \<or> (\<exists>x. m = Inr x \<and> f x = Inl e)"
  by (cases m) auto

lemma ensure_Inr [simp]: "ensure b e = Inr u \<longleftrightarrow> b"
  by (simp add: ensure_def)

lemma ensure_Inl [simp]: "ensure b e = Inl e' \<longleftrightarrow> \<not> b \<and> e' = e"
  by (auto simp: ensure_def)

lemma ensure_True [simp]: "ensure True e = Inr ()"
  by (simp add: ensure_def)

lemma mapE_Inr: "mapE f xs = Inr ys \<longleftrightarrow> list_all2 (\<lambda>x y. f x = Inr y) xs ys"
proof (induction xs arbitrary: ys)
  case Nil
  then show ?case by auto
next
  case (Cons x xs)
  then show ?case by (cases ys) auto
qed

lemma mapE_length: "mapE f xs = Inr ys \<Longrightarrow> length ys = length xs"
  by (auto simp: mapE_Inr dest: list_all2_lengthD)

lemma foldE_append: "foldE f (xs @ ys) s = bindE (foldE f xs s) (foldE f ys)"
proof (induction xs arbitrary: s)
  case (Cons x xs)
  then show ?case by (cases "f x s") auto
qed simp

lemma foldE_invariant:
  assumes "foldE f xs s = Inr t" and "P s"
    and "\<And>x s s'. x \<in> set xs \<Longrightarrow> f x s = Inr s' \<Longrightarrow> P s \<Longrightarrow> P s'"
  shows "P t"
  using assms
proof (induction xs arbitrary: s)
  case (Cons x xs)
  then obtain s' where "f x s = Inr s'" "foldE f xs s' = Inr t" by auto
  with Cons show ?case by (metis list.set_intros(1) list.set_intros(2))
qed auto

text \<open>All values, if none is missing.\<close>

fun all_some :: "'a option list \<Rightarrow> 'a list option" where
  "all_some [] = Some []"
| "all_some (x # xs) = (case (x, all_some xs) of (Some y, Some ys) \<Rightarrow> Some (y # ys) | _ \<Rightarrow> None)"

section \<open>Python's list idioms\<close>

text \<open>\<open>max(xs, key=f)\<close>, \<open>min(xs, key=f)\<close> and \<open>np.argmax\<close> return the first extremal element.\<close>

fun max_key :: "('a \<Rightarrow> 'b::linorder) \<Rightarrow> 'a \<Rightarrow> 'a list \<Rightarrow> 'a" where
  "max_key f x [] = x"
| "max_key f x (y # ys) = max_key f (if f x < f y then y else x) ys"

fun min_key :: "('a \<Rightarrow> 'b::linorder) \<Rightarrow> 'a \<Rightarrow> 'a list \<Rightarrow> 'a" where
  "min_key f x [] = x"
| "min_key f x (y # ys) = min_key f (if f y < f x then y else x) ys"

lemma max_key_mem: "max_key f x ys \<in> set (x # ys)"
  by (induction f x ys rule: max_key.induct) auto

lemma max_key_ge: "y \<in> set (x # ys) \<Longrightarrow> f y \<le> f (max_key f x ys)"
proof (induction f x ys arbitrary: y rule: max_key.induct)
  case (2 f x z zs)
  have "f x \<le> f (if f x < f z then z else x)" "f z \<le> f (if f x < f z then z else x)"
    by auto
  with 2 show ?case
    by (metis (no_types, lifting) list.set_intros(1,2) max_key.simps(2) order_trans set_ConsD)
qed simp

lemma min_key_mem: "min_key f x ys \<in> set (x # ys)"
  by (induction f x ys rule: min_key.induct) auto

lemma min_key_le: "y \<in> set (x # ys) \<Longrightarrow> f (min_key f x ys) \<le> f y"
proof (induction f x ys arbitrary: y rule: min_key.induct)
  case (2 f x z zs)
  have "f (if f z < f x then z else x) \<le> f x" "f (if f z < f x then z else x) \<le> f z"
    by auto
  with 2 show ?case
    by (metis (no_types, lifting) list.set_intros(1,2) min_key.simps(2) order_trans set_ConsD)
qed simp

text \<open>\<open>list(dict.fromkeys(xs))\<close>: first occurrences, in order.\<close>

fun dedup :: "'a list \<Rightarrow> 'a list" where
  "dedup [] = []"
| "dedup (x # xs) = x # filter (\<lambda>y. y \<noteq> x) (dedup xs)"

lemma set_dedup [simp]: "set (dedup xs) = set xs"
  by (induction xs) auto

lemma distinct_dedup [simp]: "distinct (dedup xs)"
  by (induction xs) auto

lemma dedup_distinct: "distinct xs \<Longrightarrow> dedup xs = xs"
  by (induction xs) (auto intro: filter_True)

lemma dedup_Nil [simp]: "dedup xs = [] \<longleftrightarrow> xs = []"
  by (cases xs) auto

text \<open>\<open>for start in range(0, len(xs), 16)\<close> over the slices \<open>xs[start:start + 16]\<close>.\<close>

fun chunks :: "nat \<Rightarrow> 'a list \<Rightarrow> 'a list list" where
  "chunks n [] = []"
| "chunks n (x # xs) = take (Suc n) (x # xs) # chunks n (drop n xs)"

abbreviation chunks16 :: "'a list \<Rightarrow> 'a list list" where
  "chunks16 \<equiv> chunks 15"

lemma concat_chunks [simp]: "concat (chunks n xs) = xs"
  by (induction n xs rule: chunks.induct) auto

lemma chunks_length: "c \<in> set (chunks n xs) \<Longrightarrow> 0 < length c \<and> length c \<le> Suc n"
  by (induction n xs rule: chunks.induct) auto

lemma chunks_subset: "c \<in> set (chunks n xs) \<Longrightarrow> set c \<subseteq> set xs"
  by (metis UN_upper concat_chunks set_concat)

text \<open>\<open>str.split(d)\<close>, and \<open>str.join\<close> back.\<close>

fun split_at :: "'a \<Rightarrow> 'a list \<Rightarrow> 'a list list" where
  "split_at d [] = [[]]"
| "split_at d (c # u) =
     (if c = d then [] # split_at d u
      else case split_at d u of [] \<Rightarrow> [[c]] | w # ws \<Rightarrow> (c # w) # ws)"

fun join_with :: "'a \<Rightarrow> 'a list list \<Rightarrow> 'a list" where
  "join_with d [] = []"
| "join_with d [w] = w"
| "join_with d (w # ws) = w @ d # join_with d ws"

lemma split_at_Cons: "\<exists>w ws. split_at d u = w # ws"
proof (induction u)
  case (Cons c u)
  then show ?case by (auto split: list.split)
qed simp

lemma split_at_plain: "d \<notin> set w \<Longrightarrow> split_at d w = [w]"
  by (induction w) auto

lemma split_at_append: "d \<notin> set w \<Longrightarrow> split_at d (w @ d # u) = w # split_at d u"
  by (induction w) auto

lemma split_join: "ws \<noteq> [] \<Longrightarrow> \<forall>w \<in> set ws. d \<notin> set w \<Longrightarrow> split_at d (join_with d ws) = ws"
  by (induction d ws rule: join_with.induct) (auto simp: split_at_plain split_at_append)

lemma join_split: "join_with d (split_at d u) = u"
proof (induction u)
  case (Cons c u)
  obtain w ws where "split_at d u = w # ws" using split_at_Cons[of d u] by blast
  with Cons show ?case by (cases ws) auto
qed simp

lemma split_no_sep: "w \<in> set (split_at d u) \<Longrightarrow> d \<notin> set w"
proof (induction u arbitrary: w)
  case (Cons c u)
  obtain v vs where "split_at d u = v # vs" using split_at_Cons[of d u] by blast
  with Cons show ?case by (auto split: if_splits)
qed simp

section \<open>Insertion-ordered dictionaries\<close>

type_synonym ('k, 'v) pydict = "('k \<times> 'v) list"

fun dict_set :: "'k \<Rightarrow> 'v \<Rightarrow> ('k, 'v) pydict \<Rightarrow> ('k, 'v) pydict" where
  "dict_set k v [] = [(k, v)]"
| "dict_set k v ((k', v') # d) = (if k' = k then (k, v) # d else (k', v') # dict_set k v d)"

text \<open>\<open>groups[k].append(v)\<close> on a \<open>defaultdict(list)\<close>.\<close>

fun dict_append :: "'k \<Rightarrow> 'v \<Rightarrow> ('k, 'v list) pydict \<Rightarrow> ('k, 'v list) pydict" where
  "dict_append k v [] = [(k, [v])]"
| "dict_append k v ((k', vs) # d) =
     (if k' = k then (k', vs @ [v]) # d else (k', vs) # dict_append k v d)"

definition group_by :: "('a \<Rightarrow> 'k) \<Rightarrow> 'a list \<Rightarrow> ('k, 'a list) pydict" where
  "group_by f xs = fold (\<lambda>x. dict_append (f x) x) xs []"

definition dict_get :: "'v \<Rightarrow> ('k, 'v) pydict \<Rightarrow> 'k \<Rightarrow> 'v" where
  "dict_get dflt d k = (case map_of d k of Some v \<Rightarrow> v | None \<Rightarrow> dflt)"

lemma map_of_dict_set [simp]: "map_of (dict_set k v d) = (map_of d)(k \<mapsto> v)"
  by (induction k v d rule: dict_set.induct) (auto simp: fun_eq_iff)

lemma dom_dict_set: "fst ` set (dict_set k v d) = insert k (fst ` set d)"
  by (induction k v d rule: dict_set.induct) auto

lemma set_fst_dict_set: "set (map fst (dict_set k v d)) = insert k (set (map fst d))"
  using dom_dict_set[of k v d] by simp

lemma distinct_dict_set: "distinct (map fst d) \<Longrightarrow> distinct (map fst (dict_set k v d))"
proof (induction k v d rule: dict_set.induct)
  case (2 k v k' v' d)
  then show ?case using set_fst_dict_set[of k v d] by auto
qed simp

lemma map_of_dict_append:
  "map_of (dict_append k v d) =
     (map_of d)(k \<mapsto> (case map_of d k of None \<Rightarrow> [v] | Some vs \<Rightarrow> vs @ [v]))"
  by (induction k v d rule: dict_append.induct) (auto simp: fun_eq_iff)

lemma fold_group:
  "map_of (fold (\<lambda>x. dict_append (f x) x) xs d) k =
     (case map_of d k of
        None \<Rightarrow> if filter (\<lambda>x. f x = k) xs = [] then None else Some (filter (\<lambda>x. f x = k) xs)
      | Some vs \<Rightarrow> Some (vs @ filter (\<lambda>x. f x = k) xs))"
  by (induction xs arbitrary: d) (auto simp: map_of_dict_append split: option.splits)

lemma map_of_group_by:
  "map_of (group_by f xs) k =
     (if filter (\<lambda>x. f x = k) xs = [] then None else Some (filter (\<lambda>x. f x = k) xs))"
  by (simp add: group_by_def fold_group)

lemma distinct_dict_append:
  "distinct (map fst d) \<Longrightarrow> distinct (map fst (dict_append k v d))"
proof (induction k v d rule: dict_append.induct)
  case (2 k v k' vs d)
  have "fst ` set (dict_append k v d) = insert k (fst ` set d)" for d
    by (induction k v d rule: dict_append.induct) auto
  with 2 show ?case by auto
qed simp

lemma distinct_group_by: "distinct (map fst (group_by f xs))"
proof -
  have "distinct (map fst d) \<Longrightarrow> distinct (map fst (fold (\<lambda>x. dict_append (f x) x) xs d))" for d
    by (induction xs arbitrary: d) (auto simp: distinct_dict_append)
  then show ?thesis by (simp add: group_by_def)
qed

lemma group_by_members:
  assumes "(k, vs) \<in> set (group_by f xs)"
  shows "vs = filter (\<lambda>x. f x = k) xs \<and> vs \<noteq> []"
proof -
  have "map_of (group_by f xs) k = Some vs"
    by (rule map_of_is_SomeI[OF distinct_group_by assms])
  then show ?thesis by (auto simp: map_of_group_by split: if_splits)
qed

lemma group_by_keys: "fst ` set (group_by f xs) = f ` set xs"
proof (intro set_eqI)
  fix k
  have "k \<in> fst ` set (group_by f xs) \<longleftrightarrow> map_of (group_by f xs) k \<noteq> None"
    by (simp add: map_of_eq_None_iff)
  also have "\<dots> \<longleftrightarrow> k \<in> f ` set xs"
    by (auto simp: map_of_group_by filter_empty_conv)
  finally show "k \<in> fst ` set (group_by f xs) \<longleftrightarrow> k \<in> f ` set xs" .
qed

lemma mset_dict_append: "mset (concat (map snd (dict_append k v d))) = add_mset v (mset (concat (map snd d)))"
  by (induction k v d rule: dict_append.induct) auto

lemma mset_group_by: "mset (concat (map snd (group_by f xs))) = mset xs"
proof -
  have "mset (concat (map snd (fold (\<lambda>x. dict_append (f x) x) xs d))) = mset xs + mset (concat (map snd d))"
    for d by (induction xs arbitrary: d) (auto simp: mset_dict_append)
  then show ?thesis by (simp add: group_by_def)
qed

section \<open>Numbers\<close>

text \<open>Python's \<open>round\<close>: to the nearest integer, ties to even.\<close>

definition py_round :: "rat \<Rightarrow> int" where
  "py_round x =
     (let f = \<lfloor>x\<rfloor>; d = x - of_int f
      in if d < 1/2 then f else if 1/2 < d then f + 1 else if even f then f else f + 1)"

lemma py_round_nearest: "\<bar>x - of_int (py_round x)\<bar> \<le> 1/2"
proof -
  have "of_int \<lfloor>x\<rfloor> \<le> x" "x < of_int \<lfloor>x\<rfloor> + 1" by linarith+
  then show ?thesis
    unfolding py_round_def Let_def by (simp add: abs_if) linarith
qed

lemma py_round_mono_bounds:
  assumes "of_int a \<le> x" "x \<le> of_int b"
  shows "a \<le> py_round x \<and> py_round x \<le> b"
proof -
  have "of_int a - (1/2 :: rat) \<le> of_int (py_round x)" "of_int (py_round x) \<le> of_int b + (1/2 :: rat)"
    using py_round_nearest[of x] assms by linarith+
  then show ?thesis by linarith
qed

text \<open>\<open>str(n)\<close> for an integer and \<open>int(s)\<close> back.\<close>

definition digit_char :: "nat \<Rightarrow> char" where
  "digit_char d = char_of (48 + d)"

function nat_str :: "nat \<Rightarrow> string" where
  "nat_str n = (if n < 10 then [digit_char n] else nat_str (n div 10) @ [digit_char (n mod 10)])"
  by pat_completeness auto
termination by (relation "measure id") auto

declare nat_str.simps [simp del]

definition int_str :: "int \<Rightarrow> string" where
  "int_str i = (if i < 0 then CHR ''-'' # nat_str (nat (- i)) else nat_str (nat i))"

definition is_digit :: "char \<Rightarrow> bool" where
  "is_digit c \<longleftrightarrow> 48 \<le> (of_char c :: nat) \<and> (of_char c :: nat) \<le> 57"

definition digits_value :: "string \<Rightarrow> nat" where
  "digits_value s = foldl (\<lambda>acc c. 10 * acc + (of_char c - 48)) 0 s"

definition str_nat :: "string \<Rightarrow> nat option" where
  "str_nat s = (if s \<noteq> [] \<and> list_all is_digit s then Some (digits_value s) else None)"

definition str_int :: "string \<Rightarrow> int option" where
  "str_int s =
     (case s of
        [] \<Rightarrow> None
      | c # cs \<Rightarrow>
          if c = CHR ''-'' then map_option (\<lambda>n. - int n) (str_nat cs)
          else map_option int (str_nat s))"

lemma of_char_digit: "d < 10 \<Longrightarrow> (of_char (digit_char d) :: nat) = 48 + d"
  by (simp add: digit_char_def)

lemma is_digit_char: "d < 10 \<Longrightarrow> is_digit (digit_char d)"
  by (simp add: is_digit_def of_char_digit)

lemma nat_str_nonempty [simp]: "nat_str n \<noteq> []"
  by (subst nat_str.simps) simp

lemma nat_str_digits: "list_all is_digit (nat_str n)"
proof (induction n rule: nat_str.induct)
  case (1 n)
  then show ?case by (subst nat_str.simps) (simp add: is_digit_char)
qed

lemma digits_value_snoc: "digits_value (s @ [c]) = 10 * digits_value s + (of_char c - 48)"
  by (simp add: digits_value_def)

lemma digits_value_nat_str: "digits_value (nat_str n) = n"
proof (induction n rule: nat_str.induct)
  case (1 n)
  show ?case
  proof (cases "n < 10")
    case True
    then show ?thesis
      by (subst nat_str.simps) (simp add: digits_value_def of_char_digit)
  next
    case False
    with 1 show ?thesis
      by (subst nat_str.simps) (simp add: digits_value_snoc of_char_digit)
  qed
qed

lemma str_nat_nat_str [simp]: "str_nat (nat_str n) = Some n"
  by (simp add: str_nat_def nat_str_digits digits_value_nat_str)

lemma nat_str_inject [simp]: "nat_str m = nat_str n \<longleftrightarrow> m = n"
  by (metis digits_value_nat_str)

lemma nat_str_no_minus: "nat_str n \<noteq> CHR ''-'' # cs"
proof
  assume "nat_str n = CHR ''-'' # cs"
  with nat_str_digits[of n] have "is_digit (CHR ''-'')" by simp
  then show False by (simp add: is_digit_def)
qed

lemma str_int_int_str [simp]: "str_int (int_str i) = Some i"
proof (cases "i < 0")
  case True
  then show ?thesis by (simp add: str_int_def int_str_def)
next
  case False
  then show ?thesis
    using nat_str_no_minus[of "nat i"]
    by (auto simp: str_int_def int_str_def split: list.splits)
       (metis nat_str_nonempty str_nat_nat_str option.map(2) nat_0_le not_less)+
qed

lemma int_str_inject [simp]: "int_str i = int_str j \<longleftrightarrow> i = j"
  by (metis option.inject str_int_int_str)

lemma int_str_chars: "c \<in> set (int_str i) \<Longrightarrow> is_digit c \<or> c = CHR ''-''"
  using nat_str_digits by (auto simp: int_str_def list_all_iff split: if_splits)

text \<open>The parts around a separator that neither first part contains.\<close>

lemma append_sep_inject:
  "c \<notin> set a \<Longrightarrow> c \<notin> set b \<Longrightarrow> a @ c # x = b @ c # y \<longleftrightarrow> a = b \<and> x = y"
  by (induction a arbitrary: b) (case_tac b; auto)+

text \<open>The regular expression \<open>[0-9a-f]{16}\<close>.\<close>

definition hex16 :: "string \<Rightarrow> bool" where
  "hex16 p \<longleftrightarrow> length p = 16 \<and>
     list_all (\<lambda>c. is_digit c \<or> (97 \<le> (of_char c :: nat) \<and> (of_char c :: nat) \<le> 102)) p"

type_synonym ('s, 'e, 'a) sem = "'s \<Rightarrow> ('e + 'a) \<times> 's"

definition retS :: "'a \<Rightarrow> ('s, 'e, 'a) sem" where
  "retS x s = (Inr x, s)"

definition failS :: "'e \<Rightarrow> ('s, 'e, 'a) sem" where
  "failS e s = (Inl e, s)"

definition bindS :: "('s, 'e, 'a) sem \<Rightarrow> ('a \<Rightarrow> ('s, 'e, 'b) sem) \<Rightarrow> ('s, 'e, 'b) sem" where
  "bindS m f s = (case m s of (Inl e, t) \<Rightarrow> (Inl e, t) | (Inr x, t) \<Rightarrow> f x t)"

definition getS :: "('s \<Rightarrow> 'a) \<Rightarrow> ('s, 'e, 'a) sem" where
  "getS f s = (Inr (f s), s)"

definition modS :: "('s \<Rightarrow> 's) \<Rightarrow> ('s, 'e, unit) sem" where
  "modS f s = (Inr (), f s)"

definition liftS :: "'e + 'a \<Rightarrow> ('s, 'e, 'a) sem" where
  "liftS r s = (r, s)"

fun mapS :: "('a \<Rightarrow> ('s, 'e, 'b) sem) \<Rightarrow> 'a list \<Rightarrow> ('s, 'e, 'b list) sem" where
  "mapS f [] = retS []"
| "mapS f (x # xs) = bindS (f x) (\<lambda>y. bindS (mapS f xs) (\<lambda>ys. retS (y # ys)))"

lemma bindS_Inr: "bindS m f s = (Inr y, u) \<longleftrightarrow> (\<exists>x t. m s = (Inr x, t) \<and> f x t = (Inr y, u))"
  by (auto simp: bindS_def split: prod.split sum.split)

lemma bindS_Inl:
  "bindS m f s = (Inl e, u) \<longleftrightarrow> m s = (Inl e, u) \<or> (\<exists>x t. m s = (Inr x, t) \<and> f x t = (Inl e, u))"
  by (auto simp: bindS_def split: prod.split sum.split)

lemma sem_Inr [simp]:
  "retS x s = (Inr y, t) \<longleftrightarrow> y = x \<and> t = s" "failS e s \<noteq> (Inr y, t)"
  "getS f s = (Inr y, t) \<longleftrightarrow> y = f s \<and> t = s" "modS g s = (Inr u, t) \<longleftrightarrow> t = g s"
  "liftS r s = (Inr y, t) \<longleftrightarrow> r = Inr y \<and> t = s"
  by (auto simp: retS_def failS_def getS_def modS_def liftS_def)

lemma sem_Inl [simp]:
  "retS x s \<noteq> (Inl e, t)" "failS e' s = (Inl e, t) \<longleftrightarrow> e = e' \<and> t = s"
  "getS f s \<noteq> (Inl e, t)" "modS g s \<noteq> (Inl e, t)" "liftS r s = (Inl e, t) \<longleftrightarrow> r = Inl e \<and> t = s"
  by (auto simp: retS_def failS_def getS_def modS_def liftS_def)

text \<open>\<open>always P m\<close>: \<open>m\<close> keeps the invariant \<open>P\<close> of the state, whether it fails or not.\<close>

definition always :: "('s \<Rightarrow> bool) \<Rightarrow> ('s, 'e, 'a) sem \<Rightarrow> bool" where
  "always P m \<longleftrightarrow> (\<forall>s. P s \<longrightarrow> P (snd (m s)))"

named_theorems always_intro

lemma always_ret [always_intro]: "always P (retS x)"
  by (simp add: always_def retS_def)

lemma always_fail [always_intro]: "always P (failS e)"
  by (simp add: always_def failS_def)

lemma always_get [always_intro]: "always P (getS f)"
  by (simp add: always_def getS_def)

lemma always_lift [always_intro]: "always P (liftS r)"
  by (simp add: always_def liftS_def)

lemma always_mod: "(\<And>s. P s \<Longrightarrow> P (f s)) \<Longrightarrow> always P (modS f)"
  by (simp add: always_def modS_def)

lemma always_bind [always_intro]: "always P m \<Longrightarrow> (\<And>x. always P (f x)) \<Longrightarrow> always P (bindS m f)"
  unfolding always_def bindS_def by (auto split: prod.split sum.split)

lemma always_if [always_intro]: "always P m \<Longrightarrow> always P n \<Longrightarrow> always P (if b then m else n)"
  by simp

lemma always_case_option [always_intro]:
  "always P m \<Longrightarrow> (\<And>x. always P (f x)) \<Longrightarrow> always P (case r of None \<Rightarrow> m | Some x \<Rightarrow> f x)"
  by (simp split: option.split)

lemma always_case_sum [always_intro]:
  "(\<And>e. always P (g e)) \<Longrightarrow> (\<And>x. always P (f x)) \<Longrightarrow> always P (case r of Inl e \<Rightarrow> g e | Inr x \<Rightarrow> f x)"
  by (simp split: sum.split)

lemma always_case_prod [always_intro]: "(\<And>x y. always P (f x y)) \<Longrightarrow> always P (case r of (x, y) \<Rightarrow> f x y)"
  by (simp split: prod.split)

lemma always_mapS: "(\<And>x. x \<in> set xs \<Longrightarrow> always P (f x)) \<Longrightarrow> always P (mapS f xs)"
  by (induction xs) (auto intro!: always_intro)

lemma alwaysD: "always P m \<Longrightarrow> m s = (r, t) \<Longrightarrow> P s \<Longrightarrow> P t"
  unfolding always_def by (metis snd_conv)

end
