(* ===== verification/Errors.thy ===== *)
theory Errors
  imports Prelude
begin

text \<open>
  \<open>src/app/core/errors.py\<close>: the error codes, their HTTP statuses, and the exceptions the
  program raises.  Message texts are not modelled; codes, statuses and details are.
  JSON values (\<open>dict[str, Any]\<close>) are the datatype \<open>json\<close>; text is a list of code points.
\<close>

type_synonym utext = "nat list"

datatype json =
  JNull | JBool bool | JInt int | JNum rat | JStr utext | JArr "json list"
| JObj "(string \<times> json) list"

datatype error_code =
  INVALID_REQUEST | UNAUTHORIZED | DUPLICATE_TASK | TASK_NOT_CANCELABLE | TASK_NOT_FOUND
| RATE_LIMITED | MODEL_NOT_READY | VLM_UNAVAILABLE | DOWNLOAD_FAILED | WORKER_DEAD | TIMEOUT
| INTERNAL_ERROR | RESULT_TOO_LARGE | CODE_CANCELED | CODE_DECODE_FAILED | WORKER_BUSY

fun http_status :: "error_code \<Rightarrow> nat option" where
  "http_status INVALID_REQUEST = Some 422"
| "http_status UNAUTHORIZED = Some 401"
| "http_status DUPLICATE_TASK = Some 409"
| "http_status TASK_NOT_CANCELABLE = Some 409"
| "http_status TASK_NOT_FOUND = Some 404"
| "http_status RATE_LIMITED = Some 429"
| "http_status MODEL_NOT_READY = Some 503"
| "http_status INTERNAL_ERROR = Some 500"
| "http_status WORKER_BUSY = Some 409"
| "http_status _ = None"

record app_error =
  ae_code :: error_code
  ae_detail :: "(string \<times> json) list"
  ae_http_status :: nat

text \<open>\<open>http_status or HTTP_STATUS.get(code, 500)\<close>: an override of 0 counts as absent.\<close>

definition mk_app_error ::
  "error_code \<Rightarrow> (string \<times> json) list option \<Rightarrow> nat option \<Rightarrow> app_error" where
  "mk_app_error c d st =
     \<lparr>ae_code = c,
      ae_detail = (case d of Some x \<Rightarrow> x | None \<Rightarrow> []),
      ae_http_status =
        (case st of
           Some (Suc n) \<Rightarrow> Suc n
         | _ \<Rightarrow> (case http_status c of Some n \<Rightarrow> n | None \<Rightarrow> 500))\<rparr>"

lemma mk_app_error_status:
  "ae_http_status (mk_app_error c d None) \<in> {401, 404, 409, 422, 429, 500, 503}"
  by (cases c) (simp_all add: mk_app_error_def)

text \<open>
  The \<open>PipelineError\<close> family.  The class fixes the code; \<open>PipelineFailure c\<close> is a
  \<open>PipelineError\<close> whose \<open>code\<close> was set on the instance (\<open>story.selection.failure\<close>,
  \<open>process_handler._failure\<close>), so \<open>PipelineFailure INTERNAL_ERROR\<close> is the plain one.
\<close>

datatype pipeline_error =
  PipelineFailure error_code
| PipelineCancelled
| DownloadFailed "string list"
| DecodeFailed "int list"

fun pe_code :: "pipeline_error \<Rightarrow> error_code" where
  "pe_code (PipelineFailure c) = c"
| "pe_code PipelineCancelled = CODE_CANCELED"
| "pe_code (DownloadFailed ks) = DOWNLOAD_FAILED"
| "pe_code (DecodeFailed ids) = CODE_DECODE_FAILED"

abbreviation pipeline_error_default :: pipeline_error where
  "pipeline_error_default \<equiv> PipelineFailure INTERNAL_ERROR"

end
