(* ===== verification/JobModels.thy ===== *)
theory JobModels
  imports Errors
begin

text \<open>
  \<open>src/app/jobs/models.py\<close>, \<open>src/app/jobs/config.py\<close> and the task types of
  \<open>src/app/schemas/task.py\<close>: job records, result events, staged photo batches, settings.
  Redis and Kafka times are rationals (seconds).  \<open>jobs_env\<close> holds the settings and what the
  code takes from outside \<open>src/\<close>: SHA-256, the byte size of a serialised model, and the
  pydantic validation of a result dictionary (\<open>None\<close> is a raised \<open>ValidationError\<close>).
\<close>

section \<open>Task states\<close>

datatype task_status = QUEUED | PROCESSING | COMPLETED | FAILED | CANCELED

definition terminal :: "task_status \<Rightarrow> bool" where
  "terminal st \<longleftrightarrow> st = COMPLETED \<or> st = FAILED \<or> st = CANCELED"

lemma terminal_simps [simp]:
  "terminal COMPLETED" "terminal FAILED" "terminal CANCELED"
  "\<not> terminal QUEUED" "\<not> terminal PROCESSING"
  by (simp_all add: terminal_def)

lemma not_terminal: "\<not> terminal st \<longleftrightarrow> st = QUEUED \<or> st = PROCESSING"
  by (cases st) simp_all

datatype job_kind = Process | Story

definition kind_name :: "job_kind \<Rightarrow> string" where
  "kind_name k = (case k of Process \<Rightarrow> ''process'' | Story \<Rightarrow> ''story'')"

record progress =
  pr_done :: int
  pr_total :: int

record error_body =
  eb_code :: error_code
  eb_detail :: "(string \<times> json) list"

section \<open>Staged photo batches\<close>

record ready_attachment =
  ra_id :: int
  ra_key :: string

record photos_ready =
  rm_trip :: int
  rm_exec :: utext
  rm_batch :: int
  rm_attachments :: "ready_attachment list"

text \<open>Field constraints and validators of \<open>ReadyAttachment\<close> and \<open>PhotosReadyMessage\<close>.\<close>

definition valid_ready_attachment :: "ready_attachment \<Rightarrow> bool" where
  "valid_ready_attachment a \<longleftrightarrow> 0 < ra_id a \<and> 1 \<le> length (ra_key a) \<and> length (ra_key a) \<le> 1024"

definition valid_photos_ready :: "photos_ready \<Rightarrow> bool" where
  "valid_photos_ready m \<longleftrightarrow>
     0 < rm_trip m \<and> 1 \<le> length (rm_exec m) \<and> length (rm_exec m) \<le> 128 \<and> 0 < rm_batch m \<and>
     1 \<le> length (rm_attachments m) \<and> length (rm_attachments m) \<le> 16 \<and>
     list_all valid_ready_attachment (rm_attachments m) \<and>
     distinct (map ra_id (rm_attachments m))"

record photo_buffer =
  pb_topic :: string
  pb_batches :: "(string, ready_attachment list) pydict"

record photo_metrics_record =
  pm_variance :: rat
  pm_phash :: string
  pm_fingerprint :: "int list option"

section \<open>Result events and job records\<close>

record result_event =
  ev_kind :: job_kind
  ev_trip :: int
  ev_exec :: utext
  ev_status :: task_status
  ev_result :: "json option"
  ev_error :: "error_body option"

record job =
  j_trip :: int
  j_kind :: job_kind
  j_exec :: utext
  j_request :: json
  j_request_topic :: string
  j_result_topic :: string
  j_created :: rat
  j_status :: task_status
  j_progress :: progress
  j_step :: "string option"
  j_owner :: "string option"
  j_heartbeat :: "rat option"
  j_started :: "rat option"
  j_cancel :: bool
  j_event :: "result_event option"
  j_pub_owner :: "string option"
  j_pub_until :: rat
  j_published :: bool

datatype job_exn = ValidationErr | ValueErr | TypeErr | KeyErr | AppErr error_code

section \<open>Settings\<close>

record jobs_cfg =
  cfg_prefix :: string
  cfg_heartbeat :: rat
  cfg_lease :: rat
  cfg_timeout :: rat
  cfg_process_timeout :: rat
  cfg_publish_lease :: rat
  cfg_photos_ttl :: rat
  cfg_story_concurrency :: nat
  cfg_generation_inflight :: nat
  cfg_agent_enabled :: bool
  cfg_agent_budget :: rat
  cfg_agent_concurrency :: nat
  cfg_topics :: "string list"

definition MAX_STORY_CONCURRENCY :: nat where
  "MAX_STORY_CONCURRENCY = 4"

text \<open>
  The field bounds of \<open>JobsSettings\<close> the store uses and \<open>check_jobs_settings\<close>; the topic
  list is the six fields whose name ends in \<open>_TOPIC\<close>, \<open>str.strip\<close> is emptiness of the
  non-blank characters.  The place-index checks (regular expressions on URIs) are not modelled.
\<close>

definition blank :: "string \<Rightarrow> bool" where
  "blank s \<longleftrightarrow> list_all (\<lambda>c. c \<in> {CHR '' '', CHR 0x09, CHR 0x0A, CHR 0x0D}) s"

definition check_jobs_settings :: "jobs_cfg \<Rightarrow> bool" where
  "check_jobs_settings c \<longleftrightarrow>
     0 < cfg_heartbeat c \<and> 0 < cfg_lease c \<and> 0 < cfg_timeout c \<and> 0 < cfg_process_timeout c \<and>
     0 < cfg_publish_lease c \<and> 0 < cfg_photos_ttl c \<and>
     1 \<le> cfg_story_concurrency c \<and> cfg_story_concurrency c \<le> MAX_STORY_CONCURRENCY \<and>
     \<not> (cfg_heartbeat c * 3 \<ge> cfg_lease c) \<and>
     card (set (cfg_topics c)) = 6 \<and> \<not> list_ex blank (cfg_topics c) \<and>
     (cfg_agent_enabled c \<longrightarrow>
        \<not> (cfg_agent_budget c \<ge> cfg_process_timeout c) \<and>
        \<not> (cfg_agent_concurrency c > cfg_generation_inflight c))"

definition job_timeout :: "jobs_cfg \<Rightarrow> job_kind \<Rightarrow> rat" where
  "job_timeout c k = (if k = Process then cfg_process_timeout c else cfg_timeout c)"

record jobs_env =
  env_cfg :: jobs_cfg
  sha256_hex :: "utext \<Rightarrow> string"
  event_bytes :: "result_event \<Rightarrow> int"
  buffer_bytes :: "photo_buffer \<Rightarrow> int"
  result_schema :: "job_kind \<Rightarrow> json \<Rightarrow> json option"

definition RESULT_MAX_BYTES :: int where
  "RESULT_MAX_BYTES = 512 * 1024"

definition PHOTOS_READY_MAX_BYTES :: int where
  "PHOTOS_READY_MAX_BYTES = 2 * 1024 * 1024"

section \<open>Identities\<close>

definition identity :: "jobs_env \<Rightarrow> int \<Rightarrow> job_kind \<Rightarrow> utext \<Rightarrow> string" where
  "identity E trip k ex = kind_name k @ '':'' @ int_str trip @ '':'' @ sha256_hex E ex"

definition job_identity :: "jobs_env \<Rightarrow> job \<Rightarrow> string" where
  "job_identity E j = identity E (j_trip j) (j_kind j) (j_exec j)"

definition photos_ready_identity :: "jobs_env \<Rightarrow> photos_ready \<Rightarrow> string" where
  "photos_ready_identity E m = identity E (rm_trip m) Process (rm_exec m)"

section \<open>\<open>JobResultEvent\<close>: payload check and size limit\<close>

definition check_payload :: "jobs_env \<Rightarrow> result_event \<Rightarrow> job_exn + result_event" where
  "check_payload E e =
     (if (ev_status e = COMPLETED) \<noteq> (ev_result e \<noteq> None) then Inl ValidationErr
      else if (ev_status e = FAILED) \<noteq> (ev_error e \<noteq> None) then Inl ValidationErr
      else (case ev_result e of
              None \<Rightarrow> Inr e
            | Some r \<Rightarrow>
                (case result_schema E (ev_kind e) r of
                   None \<Rightarrow> Inl ValidationErr
                 | Some r' \<Rightarrow> Inr (e\<lparr>ev_result := Some r'\<rparr>))))"

definition enforce_size_limit :: "jobs_env \<Rightarrow> result_event \<Rightarrow> job_exn + result_event" where
  "enforce_size_limit E e =
     (let size = event_bytes E e
      in if size \<le> RESULT_MAX_BYTES then Inr e
         else check_payload E
           \<lparr>ev_kind = ev_kind e, ev_trip = ev_trip e, ev_exec = ev_exec e, ev_status = FAILED,
            ev_result = None,
            ev_error = Some \<lparr>eb_code = RESULT_TOO_LARGE,
              eb_detail = [(''max_bytes'', JInt RESULT_MAX_BYTES), (''actual_bytes'', JInt size)]\<rparr>\<rparr>)"

definition event_consistent :: "result_event \<Rightarrow> bool" where
  "event_consistent e \<longleftrightarrow>
     terminal (ev_status e) \<and> (ev_status e = COMPLETED \<longleftrightarrow> ev_result e \<noteq> None) \<and>
     (ev_status e = FAILED \<longleftrightarrow> ev_error e \<noteq> None)"

lemma check_payload_consistent:
  "check_payload E e = Inr e' \<Longrightarrow> terminal (ev_status e) \<Longrightarrow>
   event_consistent e' \<and> ev_kind e' = ev_kind e \<and> ev_trip e' = ev_trip e \<and>
   ev_exec e' = ev_exec e \<and> ev_status e' = ev_status e"
  by (auto simp: check_payload_def event_consistent_def split: if_splits option.splits)

lemma enforce_size_limit_total: "event_consistent e \<Longrightarrow> \<exists>e'. enforce_size_limit E e = Inr e'"
  by (auto simp: enforce_size_limit_def check_payload_def Let_def)

lemma enforce_size_limit_consistent:
  "enforce_size_limit E e = Inr e' \<Longrightarrow> event_consistent e \<Longrightarrow>
   event_consistent e' \<and> ev_kind e' = ev_kind e \<and> ev_trip e' = ev_trip e \<and> ev_exec e' = ev_exec e \<and>
   (ev_status e' = ev_status e \<or> ev_status e' = FAILED)"
  by (auto simp: enforce_size_limit_def check_payload_def event_consistent_def Let_def
      split: if_splits)

section \<open>Parsing identities back\<close>

text \<open>\<open>s.split(c)\<close> at its second field, and \<open>s.rsplit(c, 1)\<close>.\<close>

definition after :: "char \<Rightarrow> string \<Rightarrow> string option" where
  "after c s = (case dropWhile (\<lambda>x. x \<noteq> c) s of [] \<Rightarrow> None | _ # r \<Rightarrow> Some r)"

definition second_field :: "char \<Rightarrow> string \<Rightarrow> string option" where
  "second_field c s = map_option (takeWhile (\<lambda>x. x \<noteq> c)) (after c s)"

definition rsplit1 :: "char \<Rightarrow> string \<Rightarrow> (string \<times> string) option" where
  "rsplit1 c s =
     (case dropWhile (\<lambda>x. x \<noteq> c) (rev s) of
        [] \<Rightarrow> None
      | _ # r \<Rightarrow> Some (rev r, rev (takeWhile (\<lambda>x. x \<noteq> c) (rev s))))"

lemma takeWhile_sep: "c \<notin> set p \<Longrightarrow> takeWhile (\<lambda>x. x \<noteq> c) (p @ c # r) = p"
  by (induction p) auto

lemma dropWhile_sep: "c \<notin> set p \<Longrightarrow> dropWhile (\<lambda>x. x \<noteq> c) (p @ c # r) = c # r"
  by (induction p) auto

lemma after_append: "c \<notin> set p \<Longrightarrow> after c (p @ c # r) = Some r"
  by (simp add: after_def dropWhile_sep)

lemma second_field_append:
  "c \<notin> set p \<Longrightarrow> c \<notin> set q \<Longrightarrow> second_field c (p @ c # q @ c # r) = Some q"
  by (simp add: second_field_def after_append takeWhile_sep)

lemma rsplit1_append: "c \<notin> set q \<Longrightarrow> rsplit1 c (p @ c # q) = Some (p, q)"
  using takeWhile_sep[of c "rev q" "rev p"] dropWhile_sep[of c "rev q" "rev p"]
  by (simp add: rsplit1_def)

lemma int_str_no_colon: "CHR '':'' \<notin> set (int_str i)" "CHR ''#'' \<notin> set (int_str i)"
  using int_str_chars[of _ i] by (fastforce simp: is_digit_def)+

lemma kind_name_no_colon: "CHR '':'' \<notin> set (kind_name k)"
  by (cases k) (simp_all add: kind_name_def)

lemma kind_name_inject [simp]: "kind_name k = kind_name k' \<longleftrightarrow> k = k'"
  by (cases k; cases k') (simp_all add: kind_name_def)

lemma second_field_identity:
  "second_field (CHR '':'') (identity E trip k ex) = Some (int_str trip)"
  unfolding identity_def
  using second_field_append[OF kind_name_no_colon int_str_no_colon(1)] by simp

lemma identity_inject:
  assumes "identity E trip k ex = identity E trip' k' ex'"
  shows "trip = trip' \<and> k = k' \<and> sha256_hex E ex = sha256_hex E ex'"
proof -
  have 1: "kind_name k @ CHR '':'' # (int_str trip @ CHR '':'' # sha256_hex E ex) =
        kind_name k' @ CHR '':'' # (int_str trip' @ CHR '':'' # sha256_hex E ex')"
    using assms by (simp add: identity_def)
  note 2 = append_sep_inject[OF kind_name_no_colon kind_name_no_colon, THEN iffD1, OF 1]
  then have "int_str trip @ CHR '':'' # sha256_hex E ex = int_str trip' @ CHR '':'' # sha256_hex E ex'"
    by simp
  from append_sep_inject[OF int_str_no_colon(1) int_str_no_colon(1), THEN iffD1, OF this] 2
  show ?thesis by simp
qed

end
