(* ===== verification/RedisCore.thy ===== *)
theory RedisCore
  imports JobModels
begin

text \<open>
  The Redis database the v2 job service shares, as explicit state: typed keys, the values
  under them, the write commands the service queues between \<open>MULTI\<close> and \<open>EXEC\<close>, and the
  optimistic \<open>WATCH\<close> loop every operation of \<open>src/app/jobs/redis_store.py\<close> is written in.
  Sorted sets are ascending lists of (score, member), ties by member bytes, as Redis orders them.
  The locale \<open>watched_txn\<close> is the interface between an operation's read phase and \<open>EXEC\<close>.
\<close>

section \<open>Keys\<close>

datatype rkey =
  KJob string | KIgnored string | KLatest job_kind int | KSequence
| KBatches string | KBatchQueue | KPhoto int
| KQueue job_kind | KSlot job_kind nat | KRunning | KPending
| KInvalid string | KGate string | KMetrics string

fun key_name :: "rkey \<Rightarrow> string" where
  "key_name (KJob i) = ''job:'' @ i"
| "key_name (KIgnored i) = ''ignored:'' @ i"
| "key_name (KLatest k t) = ''latest:'' @ kind_name k @ '':'' @ int_str t"
| "key_name KSequence = ''enqueue_sequence''"
| "key_name (KBatches i) = ''photo_batches:'' @ i"
| "key_name KBatchQueue = ''queue:photo_batch''"
| "key_name (KPhoto p) = ''photo:'' @ int_str p"
| "key_name (KQueue k) = ''queue:'' @ kind_name k"
| "key_name (KSlot k n) =
     ''slot:'' @ kind_name k @ (if n = 0 then [] else '':'' @ nat_str n)"
| "key_name KRunning = ''running''"
| "key_name KPending = ''pending''"
| "key_name (KInvalid h) = ''invalid:'' @ h"
| "key_name (KGate g) = ''gpu:'' @ g"
| "key_name (KMetrics m) = ''metrics:'' @ m"

definition redis_key :: "jobs_env \<Rightarrow> rkey \<Rightarrow> string" where
  "redis_key E k = cfg_prefix (env_cfg E) @ key_name k"

definition key_tag :: "rkey \<Rightarrow> string" where
  "key_tag k = takeWhile (\<lambda>c. c \<noteq> CHR '':'') (key_name k)"

lemma key_tag_simps [simp]:
  "key_tag (KJob i) = ''job''" "key_tag (KIgnored i) = ''ignored''"
  "key_tag (KLatest k t) = ''latest''" "key_tag KSequence = ''enqueue_sequence''"
  "key_tag (KBatches i) = ''photo_batches''" "key_tag KBatchQueue = ''queue''"
  "key_tag (KPhoto p) = ''photo''" "key_tag (KQueue k) = ''queue''"
  "key_tag (KSlot k n) = ''slot''" "key_tag KRunning = ''running''"
  "key_tag KPending = ''pending''" "key_tag (KInvalid h) = ''invalid''"
  "key_tag (KGate g) = ''gpu''" "key_tag (KMetrics m) = ''metrics''"
  by (simp_all add: key_tag_def)

lemma slot_name_inject:
  assumes "key_name (KSlot k n) = key_name (KSlot k' n')"
  shows "k = k' \<and> n = n'"
  using assms by (cases k; cases k') (auto simp: kind_name_def split: if_splits)

lemma latest_name_inject:
  assumes "key_name (KLatest k t) = key_name (KLatest k' t')"
  shows "k = k' \<and> t = t'"
  using assms by (cases k; cases k') (auto simp: kind_name_def)

lemma key_name_inject: "key_name k = key_name k' \<Longrightarrow> k = k'"
proof -
  assume eq: "key_name k = key_name k'"
  then have tag: "key_tag k = key_tag k'" by (simp add: key_tag_def)
  show "k = k'"
  proof (cases k)
    case (KSlot a n)
    with tag obtain b m where "k' = KSlot b m" by (cases k') auto
    with KSlot eq slot_name_inject show ?thesis by blast
  next
    case (KLatest a n)
    with tag obtain b m where "k' = KLatest b m" by (cases k') auto
    with KLatest eq latest_name_inject show ?thesis by blast
  next
    case (KQueue a)
    with tag eq show ?thesis by (cases k'; cases a) (auto simp: kind_name_def split: job_kind.splits)
  next
    case KBatchQueue
    with tag eq show ?thesis by (cases k') (auto simp: kind_name_def split: job_kind.splits)
  qed (use tag eq in \<open>cases k'; simp\<close>)+
qed

section \<open>Values and commands\<close>

type_synonym zset = "(rat \<times> string) list"

definition zrem :: "string \<Rightarrow> zset \<Rightarrow> zset" where
  "zrem m z = filter (\<lambda>(s, m'). m' \<noteq> m) z"

definition zadd :: "string \<Rightarrow> rat \<Rightarrow> zset \<Rightarrow> zset" where
  "zadd m sc z = insort (sc, m) (zrem m z)"

definition zset_ok :: "zset \<Rightarrow> bool" where
  "zset_ok z \<longleftrightarrow> sorted z \<and> distinct (map snd z)"

definition zmembers :: "zset \<Rightarrow> string set" where
  "zmembers z = snd ` set z"

lemma zmembers_zrem [simp]: "zmembers (zrem m z) = zmembers z - {m}"
  by (auto simp: zmembers_def zrem_def)

lemma zmembers_zadd [simp]: "zmembers (zadd m sc z) = insert m (zmembers z)"
  by (auto simp: zmembers_def zadd_def zrem_def set_insort_key image_iff)

lemma zmembers_Nil [simp]: "zmembers [] = {}"
  by (simp add: zmembers_def)

lemma zset_ok_Nil [simp]: "zset_ok []"
  by (simp add: zset_ok_def)

lemma zset_ok_zrem [simp]: "zset_ok z \<Longrightarrow> zset_ok (zrem m z)"
  unfolding zset_ok_def zrem_def by (simp add: sorted_wrt_filter distinct_map_filter)

lemma distinct_insort_snd:
  "distinct (map snd z) \<Longrightarrow> m \<notin> snd ` set z \<Longrightarrow> distinct (map snd (insort (sc, m) z))"
proof -
  assume "distinct (map snd z)" "m \<notin> snd ` set z"
  then have "distinct (map snd ((sc, m) # z))" by simp
  moreover have "mset (map snd (insort (sc, m) z)) = mset (map snd ((sc, m) # z))" by simp
  ultimately show ?thesis by (metis mset_eq_imp_distinct_iff)
qed

lemma zset_ok_zadd [simp]: "zset_ok z \<Longrightarrow> zset_ok (zadd m sc z)"
proof -
  assume z: "zset_ok z"
  then have "zset_ok (zrem m z)" by simp
  moreover have "m \<notin> snd ` set (zrem m z)" by (auto simp: zrem_def)
  ultimately show ?thesis
    by (simp add: zset_ok_def zadd_def sorted_insort distinct_insort_snd)
qed

datatype rval =
  VJob job | VStr string | VInt int | VBuffer photo_buffer | VMetrics photo_metrics_record
| VZset zset | VHash "(string \<times> rat) list"

type_synonym redis = "rkey \<Rightarrow> rval option"

definition get_job :: "redis \<Rightarrow> string \<Rightarrow> job option" where
  "get_job s i = (case s (KJob i) of Some (VJob j) \<Rightarrow> Some j | _ \<Rightarrow> None)"

definition get_str :: "redis \<Rightarrow> rkey \<Rightarrow> string option" where
  "get_str s k = (case s k of Some (VStr x) \<Rightarrow> Some x | _ \<Rightarrow> None)"

definition get_int :: "redis \<Rightarrow> rkey \<Rightarrow> int" where
  "get_int s k = (case s k of Some (VInt n) \<Rightarrow> n | _ \<Rightarrow> 0)"

definition get_zset :: "redis \<Rightarrow> rkey \<Rightarrow> zset" where
  "get_zset s k = (case s k of Some (VZset z) \<Rightarrow> z | _ \<Rightarrow> [])"

definition get_buffer :: "redis \<Rightarrow> string \<Rightarrow> photo_buffer option" where
  "get_buffer s i = (case s (KBatches i) of Some (VBuffer b) \<Rightarrow> Some b | _ \<Rightarrow> None)"

definition get_hash :: "redis \<Rightarrow> rkey \<Rightarrow> (string \<times> rat) list" where
  "get_hash s k = (case s k of Some (VHash h) \<Rightarrow> h | _ \<Rightarrow> [])"

definition key_exists :: "redis \<Rightarrow> rkey \<Rightarrow> bool" where
  "key_exists s k \<longleftrightarrow> s k \<noteq> None"

datatype rcmd =
  SETc rkey rval | DELc rkey | ZADDc rkey string rat | ZREMc rkey string
| ZREMRANGEc rkey rat | HINCRc rkey string rat | HSETc rkey string rat

fun exec1 :: "rcmd \<Rightarrow> redis \<Rightarrow> redis" where
  "exec1 (SETc k v) s = s(k \<mapsto> v)"
| "exec1 (DELc k) s = s(k := None)"
| "exec1 (ZADDc k m sc) s = s(k \<mapsto> VZset (zadd m sc (get_zset s k)))"
| "exec1 (ZREMc k m) s = s(k \<mapsto> VZset (zrem m (get_zset s k)))"
| "exec1 (ZREMRANGEc k hi) s = s(k \<mapsto> VZset (filter (\<lambda>(sc, m). hi < sc) (get_zset s k)))"
| "exec1 (HINCRc k f d) s =
     s(k \<mapsto> VHash (dict_set f (dict_get 0 (get_hash s k) f + d) (get_hash s k)))"
| "exec1 (HSETc k f v) s = s(k \<mapsto> VHash (dict_set f v (get_hash s k)))"

fun exec :: "rcmd list \<Rightarrow> redis \<Rightarrow> redis" where
  "exec [] s = s"
| "exec (c # cs) s = exec cs (exec1 c s)"

lemma exec_append [simp]: "exec (as @ bs) s = exec bs (exec as s)"
  by (induction as arbitrary: s) auto

fun cmd_key :: "rcmd \<Rightarrow> rkey" where
  "cmd_key (SETc k v) = k"
| "cmd_key (DELc k) = k"
| "cmd_key (ZADDc k m sc) = k"
| "cmd_key (ZREMc k m) = k"
| "cmd_key (ZREMRANGEc k hi) = k"
| "cmd_key (HINCRc k f d) = k"
| "cmd_key (HSETc k f v) = k"

lemma exec1_other: "k \<noteq> cmd_key c \<Longrightarrow> exec1 c s k = s k"
  by (cases c) auto

lemma exec_other: "k \<notin> cmd_key ` set cs \<Longrightarrow> exec cs s k = s k"
  by (induction cs arbitrary: s) (auto simp: exec1_other)

section \<open>Optimistic transactions\<close>

text \<open>
  One pass of a \<open>while True\<close> body over the values read: \<open>Done o cs\<close> returns \<open>o\<close> after
  \<open>EXEC\<close> of \<open>cs\<close> (no \<open>EXEC\<close> when empty), \<open>Again cs\<close> executes \<open>cs\<close> and loops.
\<close>

datatype 'o attempt = Done 'o "rcmd list" | Again "rcmd list"

fun attempt_cmds :: "'o attempt \<Rightarrow> rcmd list" where
  "attempt_cmds (Done x cs) = cs"
| "attempt_cmds (Again cs) = cs"

definition agree :: "rkey list \<Rightarrow> redis \<Rightarrow> redis \<Rightarrow> bool" where
  "agree ks s s' \<longleftrightarrow> (\<forall>k \<in> set ks. s k = s' k)"

lemma agree_refl [simp]: "agree ks s s"
  by (simp add: agree_def)

lemma agree_append [simp]: "agree (ks @ ls) s s' \<longleftrightarrow> agree ks s s' \<and> agree ls s s'"
  by (auto simp: agree_def)

lemma agree_Cons [simp]: "agree (k # ks) s s' \<longleftrightarrow> s k = s' k \<and> agree ks s s'"
  by (auto simp: agree_def)

lemma agree_Nil [simp]: "agree [] s s'"
  by (simp add: agree_def)

text \<open>
  \<open>watch_exec w a s s'\<close>: a pass that read \<open>s\<close> reaches \<open>EXEC\<close> when the database is \<open>s'\<close>.
  \<open>EXEC\<close> fails (\<open>WatchError\<close>, \<open>None\<close>) when a watched key changed in between; a pass that
  queues nothing returns without \<open>EXEC\<close>.
\<close>

definition watch_exec ::
  "(redis \<Rightarrow> rkey list) \<Rightarrow> (redis \<Rightarrow> 'o attempt) \<Rightarrow> redis \<Rightarrow> redis \<Rightarrow> ('o attempt \<times> redis) option" where
  "watch_exec w a s s' =
     (if attempt_cmds (a s) = [] then Some (a s, s')
      else if agree (w s) s s' then Some (a s, exec (attempt_cmds (a s)) s')
      else None)"

text \<open>The loop against a list of (read state, state at \<open>EXEC\<close>) pairs: the first that commits.\<close>

fun watch_loop ::
  "(redis \<Rightarrow> rkey list) \<Rightarrow> (redis \<Rightarrow> 'o attempt) \<Rightarrow> (redis \<times> redis) list
    \<Rightarrow> ('o attempt \<times> redis) option" where
  "watch_loop w a [] = None"
| "watch_loop w a ((s, s') # tries) =
     (case watch_exec w a s s' of None \<Rightarrow> watch_loop w a tries | Some r \<Rightarrow> Some r)"

locale watched_txn =
  fixes watched :: "redis \<Rightarrow> rkey list" and attempt :: "redis \<Rightarrow> 'o attempt"
  assumes covers: "agree (watched s) s s' \<Longrightarrow> attempt s' = attempt s"
begin

lemma commit_atomic:
  assumes "watch_exec watched attempt s s' = Some (r, t)" and "attempt_cmds r \<noteq> []"
  shows "r = attempt s' \<and> t = exec (attempt_cmds (attempt s')) s'"
  using assms covers[of s s'] by (auto simp: watch_exec_def split: if_splits)

lemma loop_atomic:
  assumes "watch_loop watched attempt tries = Some (r, t)" and "attempt_cmds r \<noteq> []"
  shows "\<exists>s'. s' \<in> snd ` set tries \<and> r = attempt s' \<and> t = exec (attempt_cmds (attempt s')) s'"
  using assms
proof (induction tries)
  case (Cons p tries)
  obtain s s' where p: "p = (s, s')" by (cases p)
  show ?case
  proof (cases "watch_exec watched attempt s s'")
    case None
    with Cons p show ?thesis by auto
  next
    case (Some q)
    with Cons.prems p have "watch_exec watched attempt s s' = Some (r, t)" by simp
    with commit_atomic Cons.prems(2) have "r = attempt s' \<and> t = exec (attempt_cmds (attempt s')) s'"
      by blast
    with p show ?thesis by auto
  qed
qed simp

end

end
