(* ===== verification/RedisStore.thy ===== *)
theory RedisStore
  imports RedisCore
begin

text \<open>
  \<open>src/app/jobs/redis_store.py\<close>, operation by operation.  An operation written as a
  \<open>WATCH\<close>/\<open>MULTI\<close>/\<open>EXEC\<close> loop is its read phase: a function of the database read (and of
  Redis' clock, the uuid drawn, the stop flag) to an \<open>attempt\<close>; next to it stands the list
  of keys it watches.  \<open>run_attempt\<close> executes the queued commands.
\<close>

definition run_attempt :: "'o attempt \<Rightarrow> redis \<Rightarrow> redis" where
  "run_attempt a s = exec (attempt_cmds a) s"

definition slot_keys :: "job_kind \<Rightarrow> rkey list" where
  "slot_keys k = KSlot k 0 #
     (if k = Story then map (KSlot k) [1..<MAX_STORY_CONCURRENCY] else [])"

definition claim_limit :: "jobs_env \<Rightarrow> job_kind \<Rightarrow> nat" where
  "claim_limit E k = (if k = Story then cfg_story_concurrency (env_cfg E) else 1)"

section \<open>Metrics commands (\<open>src/app/observability/metrics.py\<close>)\<close>

definition BUCKETS :: "(string \<times> rat option) list" where
  "BUCKETS = [(''0.1'', Some (1/10)), (''0.5'', Some (1/2)), (''1'', Some 1), (''2'', Some 2),
     (''5'', Some 5), (''10'', Some 10), (''30'', Some 30), (''60'', Some 60),
     (''120'', Some 120), (''300'', Some 300), (''600'', Some 600), (''inf'', None)]"

definition in_bucket :: "rat \<Rightarrow> rat option \<Rightarrow> bool" where
  "in_bucket x b = (case b of Some u \<Rightarrow> x \<le> u | None \<Rightarrow> True)"

definition observe_commands ::
  "rkey \<Rightarrow> string \<Rightarrow> string \<Rightarrow> string \<Rightarrow> rat \<Rightarrow> rcmd list" where
  "observe_commands key operation outcome phase seconds =
     (let prefix = operation @ ''|'' @ outcome @ ''|'' @ phase @ ''|''; x = max 0 seconds
      in [HINCRc key (prefix @ ''count'') 1, HINCRc key (prefix @ ''sum'') x] @
         map (\<lambda>(nm, b). HINCRc key (prefix @ nm) 1) (filter (\<lambda>(nm, b). in_bucket x b) BUCKETS))"

fun status_name :: "task_status \<Rightarrow> string" where
  "status_name QUEUED = ''QUEUED''"
| "status_name PROCESSING = ''PROCESSING''"
| "status_name COMPLETED = ''COMPLETED''"
| "status_name FAILED = ''FAILED''"
| "status_name CANCELED = ''CANCELED''"

fun jget :: "string \<Rightarrow> json \<Rightarrow> job_exn + json" where
  "jget f (JObj kvs) = (case map_of kvs f of Some v \<Rightarrow> Inr v | None \<Rightarrow> Inl KeyErr)"
| "jget f _ = Inl TypeErr"

fun jlen :: "json \<Rightarrow> job_exn + nat" where
  "jlen (JArr xs) = Inr (length xs)"
| "jlen (JObj kvs) = Inr (length kvs)"
| "jlen (JStr t) = Inr (length t)"
| "jlen _ = Inl TypeErr"

fun jitems :: "json \<Rightarrow> job_exn + json list" where
  "jitems (JArr xs) = Inr xs"
| "jitems _ = Inl TypeErr"

definition result_commands :: "rkey \<Rightarrow> job_kind \<Rightarrow> json \<Rightarrow> job_exn + rcmd list" where
  "result_commands key k r =
     (if k = Process then
        bindE (jget ''places'' r) (\<lambda>ps. bindE (jitems ps) (\<lambda>places.
        bindE (mapE (\<lambda>p. bindE (jget ''attachments'' p) jlen) places) (\<lambda>ns.
        bindE (jget ''unclassified'' r) (\<lambda>us. bindE (jlen us) (\<lambda>u.
          Inr [HINCRc key ''photos|classified'' (of_nat (sum_list ns)),
               HINCRc key ''photos|unclassified'' (of_nat u)])))))
      else
        bindE (jget ''blocks'' r) (\<lambda>bs. bindE (jlen bs) (\<lambda>b.
          Inr [HINCRc key ''story|blocks'' (of_nat b)])))"

text \<open>Python truthiness: an absent or zero \<open>started_at\<close> counts as not started.\<close>

definition started_or :: "rat \<Rightarrow> rat option \<Rightarrow> rat" where
  "started_or d st = (case st of Some t \<Rightarrow> if t = 0 then d else t | None \<Rightarrow> d)"

definition terminal_commands :: "job \<Rightarrow> rat \<Rightarrow> job_exn + rcmd list" where
  "terminal_commands r now =
     (let key = KMetrics ''operations''; op = kind_name (j_kind r);
          outcome = status_name (j_status r);
          base = observe_commands key op outcome ''total'' (now - j_created r) @
                 observe_commands key op outcome ''queue'' (started_or now (j_started r) - j_created r) @
                 observe_commands key op outcome ''execution'' (now - started_or now (j_started r));
          result = (case j_event r of Some e \<Rightarrow> ev_result e | None \<Rightarrow> None)
      in if j_status r = COMPLETED then
           (case result of
              Some res \<Rightarrow>
                if res = JObj [] then Inr base
                else bindE (result_commands key (j_kind r) res) (\<lambda>cs. Inr (base @ cs))
            | None \<Rightarrow> Inr base)
         else Inr base)"

section \<open>Ownership and termination of a record\<close>

text \<open>\<open>owns\<close>: comparing with an absent time raises \<open>TypeError\<close>, after the two cheap checks.\<close>

definition owns :: "jobs_env \<Rightarrow> job \<Rightarrow> string \<Rightarrow> rat \<Rightarrow> job_exn + bool" where
  "owns E r owner now =
     (if j_status r = PROCESSING \<and> j_owner r = Some owner then
        (case j_heartbeat r of
           None \<Rightarrow> Inl TypeErr
         | Some h \<Rightarrow>
             if now < h + cfg_lease (env_cfg E) then
               (case j_started r of
                  None \<Rightarrow> Inl TypeErr
                | Some st \<Rightarrow> Inr (now < st + job_timeout (env_cfg E) (j_kind r)))
             else Inr False)
      else Inr False)"

definition terminate ::
  "jobs_env \<Rightarrow> job \<Rightarrow> task_status \<Rightarrow> json option \<Rightarrow> error_body option \<Rightarrow> job_exn + job" where
  "terminate E r st result err =
     bindE (check_payload E
              \<lparr>ev_kind = j_kind r, ev_trip = j_trip r, ev_exec = j_exec r, ev_status = st,
               ev_result = result, ev_error = err\<rparr>) (\<lambda>e0.
     bindE (enforce_size_limit E e0) (\<lambda>e.
       let r' = r\<lparr>j_event := Some e, j_status := ev_status e, j_step := None\<rparr>
       in Inr (if j_status r' = COMPLETED
               then r'\<lparr>j_progress := (j_progress r')\<lparr>pr_done := pr_total (j_progress r')\<rparr>\<rparr>
               else r')))"

section \<open>\<open>change\<close>: a conditional update of one record\<close>

type_synonym update = "job \<Rightarrow> rat \<Rightarrow> job_exn + job option"

definition change_commands ::
  "jobs_env \<Rightarrow> string \<Rightarrow> task_status \<Rightarrow> job \<Rightarrow> rat option \<Rightarrow> rat \<Rightarrow> redis \<Rightarrow> job_exn + rcmd list" where
  "change_commands E i old r score now s =
     (let owned = map DELc (filter (\<lambda>k. get_str s k = Some i) (slot_keys (j_kind r)))
      in if terminal (j_status r) then
           bindE (if terminal old then Inr [] else terminal_commands r now) (\<lambda>ms.
             Inr (SETc (KJob i) (VJob r) # ms @
                  [ZREMc (KQueue (j_kind r)) i, ZREMc KRunning i] @ owned @
                  (if j_published r then [] else [ZADDc KPending i (max now (j_pub_until r))])))
         else if j_status r = PROCESSING then
           (case (j_heartbeat r, j_started r) of
              (Some h, Some st) \<Rightarrow>
                Inr [SETc (KJob i) (VJob r),
                     ZADDc KRunning i (min (h + cfg_lease (env_cfg E))
                                           (st + job_timeout (env_cfg E) (j_kind r)))]
            | _ \<Rightarrow> Inl TypeErr)
         else
           (case score of
              Some q \<Rightarrow> Inr (SETc (KJob i) (VJob r) # ZREMc KRunning i # owned @
                              [ZADDc (KQueue (j_kind r)) i q])
            | None \<Rightarrow> Inr [SETc (KJob i) (VJob r)]))"

definition change_attempt ::
  "jobs_env \<Rightarrow> string \<Rightarrow> update \<Rightarrow> rat option \<Rightarrow> rat \<Rightarrow> redis \<Rightarrow> (job_exn + job option) attempt" where
  "change_attempt E i upd score now s =
     (case get_job s i of
        None \<Rightarrow> Done (Inr None) []
      | Some r \<Rightarrow>
          (case upd r now of
             Inl e \<Rightarrow> Done (Inl e) []
           | Inr None \<Rightarrow> Done (Inr None) []
           | Inr (Some r') \<Rightarrow>
               (case change_commands E i (j_status r) r' score now s of
                  Inl e \<Rightarrow> Done (Inl e) []
                | Inr cs \<Rightarrow> Done (Inr (Some r')) cs)))"

definition change_watch :: "string \<Rightarrow> update \<Rightarrow> rat \<Rightarrow> redis \<Rightarrow> rkey list" where
  "change_watch i upd now s =
     KJob i #
     (case get_job s i of
        None \<Rightarrow> []
      | Some r \<Rightarrow> (case upd r now of Inr (Some r') \<Rightarrow> slot_keys (j_kind r') | _ \<Rightarrow> []))"

section \<open>The updates\<close>

definition heartbeat_update :: "jobs_env \<Rightarrow> string \<Rightarrow> update" where
  "heartbeat_update E owner r now =
     bindE (owns E r owner now) (\<lambda>b.
       Inr (if b then Some (r\<lparr>j_heartbeat := Some now\<rparr>) else None))"

definition allowed_steps :: "job_kind \<Rightarrow> string list" where
  "allowed_steps k =
     (if k = Process then
        [''DOWNLOADING'', ''EMBEDDING'', ''CLOCK'', ''LOCATING'', ''CLUSTERING'', ''FILTERING'',
         ''FINALIZING'']
      else [''SELECTING'', ''CAPTIONING'', ''WRITING'', ''VERIFYING''])"

definition progress_update :: "jobs_env \<Rightarrow> string \<Rightarrow> string \<Rightarrow> int \<Rightarrow> int \<Rightarrow> update" where
  "progress_update E owner step dn tot r now =
     bindE (owns E r owner now) (\<lambda>b.
       if \<not> b \<or> j_cancel r then Inr None
       else if step \<notin> set (allowed_steps (j_kind r)) \<or> tot \<noteq> pr_total (j_progress r) \<or>
               \<not> (0 \<le> dn \<and> dn \<le> tot)
         then Inl ValueErr
       else Inr (Some (r\<lparr>j_step := Some step, j_progress := \<lparr>pr_done = dn, pr_total = tot\<rparr>\<rparr>)))"

definition finish_update ::
  "jobs_env \<Rightarrow> string \<Rightarrow> task_status \<Rightarrow> json option \<Rightarrow> error_body option \<Rightarrow> update" where
  "finish_update E owner st result err r now =
     bindE (owns E r owner now) (\<lambda>b.
       if \<not> b then Inr None
       else bindE (if j_cancel r then terminate E r CANCELED None None
                   else terminate E r st result err) (\<lambda>r'. Inr (Some r')))"

definition cancel_update :: "jobs_env \<Rightarrow> update" where
  "cancel_update E r now =
     (if terminal (j_status r) then Inl (AppErr TASK_NOT_CANCELABLE)
      else let r' = r\<lparr>j_cancel := True\<rparr>
           in if j_status r' = QUEUED
              then bindE (terminate E r' CANCELED None None) (\<lambda>r''. Inr (Some r''))
              else Inr (Some r'))"

definition return_update :: "jobs_env \<Rightarrow> string \<Rightarrow> update" where
  "return_update E owner r now =
     bindE (owns E r owner now) (\<lambda>b.
       if \<not> b then Inr None
       else if j_cancel r then bindE (terminate E r CANCELED None None) (\<lambda>r'. Inr (Some r'))
       else Inr (Some (r\<lparr>j_status := QUEUED, j_owner := None, j_started := None,
                         j_heartbeat := None\<rparr>)))"

definition recover_update :: "jobs_env \<Rightarrow> update" where
  "recover_update E r now =
     (if j_status r \<noteq> PROCESSING then Inr None
      else
        (case (j_started r, j_heartbeat r) of
           (Some st, Some h) \<Rightarrow>
             let timed_out = (now \<ge> st + job_timeout (env_cfg E) (j_kind r));
                 dead = (now \<ge> h + cfg_lease (env_cfg E))
             in if \<not> timed_out \<and> \<not> dead then Inr None
                else bindE (terminate E r FAILED None
                       (Some \<lparr>eb_code = (if timed_out then TIMEOUT else WORKER_DEAD),
                              eb_detail = []\<rparr>)) (\<lambda>r'. Inr (Some r'))
         | _ \<Rightarrow> Inl TypeErr))"

definition claim_result_update :: "jobs_env \<Rightarrow> string \<Rightarrow> update" where
  "claim_result_update E publisher r now =
     Inr (if j_event r = None \<or> j_published r \<or> j_pub_until r > now then None
          else Some (r\<lparr>j_pub_owner := Some publisher,
                       j_pub_until := now + cfg_publish_lease (env_cfg E)\<rparr>))"

section \<open>The operations built on \<open>change\<close>\<close>

definition heartbeat where
  "heartbeat E i owner = change_attempt E i (heartbeat_update E owner) None"

definition progress_op where
  "progress_op E i owner step dn tot =
     change_attempt E i (progress_update E owner step dn tot) None"

definition finish where
  "finish E i owner st result err = change_attempt E i (finish_update E owner st result err) None"

definition return_unstarted where
  "return_unstarted E claimed score =
     change_attempt E (job_identity E claimed)
       (case j_owner claimed of Some w \<Rightarrow> return_update E w | None \<Rightarrow> (\<lambda>r now. Inr None))
       (Some score)"

definition claim_result where
  "claim_result E i publisher = change_attempt E i (claim_result_update E publisher) None"

definition latest :: "jobs_env \<Rightarrow> int \<Rightarrow> job_kind \<Rightarrow> redis \<Rightarrow> job_exn + job" where
  "latest E trip k s =
     (case get_str s (KLatest k trip) of
        None \<Rightarrow> Inl (AppErr TASK_NOT_FOUND)
      | Some i \<Rightarrow>
          (case get_job s i of None \<Rightarrow> Inl (AppErr TASK_NOT_FOUND) | Some r \<Rightarrow> Inr r))"

text \<open>\<open>cancel\<close> reads \<open>latest\<close> first, in state \<open>s0\<close>; the change runs later, in \<open>s\<close>.\<close>

definition cancel ::
  "jobs_env \<Rightarrow> int \<Rightarrow> job_kind \<Rightarrow> rat \<Rightarrow> redis \<Rightarrow> redis \<Rightarrow> (job_exn + job) attempt" where
  "cancel E trip k now s0 s =
     (case latest E trip k s0 of
        Inl e \<Rightarrow> Done (Inl e) []
      | Inr target \<Rightarrow>
          (case change_attempt E (job_identity E target) (cancel_update E) None now s of
             Done (Inl e) cs \<Rightarrow> Done (Inl e) cs
           | Done (Inr None) cs \<Rightarrow> Done (Inl (AppErr TASK_NOT_FOUND)) cs
           | Done (Inr (Some r)) cs \<Rightarrow> Done (Inr r) cs
           | Again cs \<Rightarrow> Again cs))"

definition zrange_upto :: "rat \<Rightarrow> zset \<Rightarrow> string list" where
  "zrange_upto hi z = take 100 (map snd (filter (\<lambda>(sc, m). sc \<le> hi) z))"

text \<open>\<open>recover\<close>: the members are read once; each is changed at its own clock reading.\<close>

fun recover_from :: "jobs_env \<Rightarrow> string list \<Rightarrow> rat list \<Rightarrow> redis \<Rightarrow> redis" where
  "recover_from E (i # is) (t # ts) s =
     recover_from E is ts (run_attempt (change_attempt E i (recover_update E) None t s) s)"
| "recover_from E _ _ s = s"

definition recover :: "jobs_env \<Rightarrow> rat \<Rightarrow> rat list \<Rightarrow> redis \<Rightarrow> redis" where
  "recover E now clock s = recover_from E (zrange_upto now (get_zset s KRunning)) clock s"

definition pending :: "rat \<Rightarrow> redis \<Rightarrow> string list" where
  "pending now s = zrange_upto now (get_zset s KPending)"

definition acknowledge_attempt :: "string \<Rightarrow> string \<Rightarrow> redis \<Rightarrow> unit attempt" where
  "acknowledge_attempt i publisher s =
     (case get_job s i of
        None \<Rightarrow> Done () []
      | Some r \<Rightarrow>
          if j_pub_owner r \<noteq> Some publisher then Done () []
          else Done () [SETc (KJob i) (VJob (r\<lparr>j_published := True\<rparr>)), ZREMc KPending i])"

section \<open>Photo batches\<close>

definition photo_batch_member :: "string \<Rightarrow> int \<Rightarrow> string" where
  "photo_batch_member i no = i @ ''#'' @ int_str no"

definition photo_batch_member_s :: "string \<Rightarrow> string \<Rightarrow> string" where
  "photo_batch_member_s i no = i @ ''#'' @ no"

fun merge_known ::
  "ready_attachment list \<Rightarrow> (int, string) pydict \<Rightarrow> (int, string) pydict option" where
  "merge_known [] known = Some known"
| "merge_known (p # ps) known =
     (case map_of known (ra_id p) of
        Some k \<Rightarrow> if k \<noteq> ra_key p then None else merge_known ps (dict_set (ra_id p) (ra_key p) known)
      | None \<Rightarrow> merge_known ps (dict_set (ra_id p) (ra_key p) known))"

definition known_photos :: "photo_buffer \<Rightarrow> (int, string) pydict" where
  "known_photos b =
     fold (\<lambda>p. dict_set (ra_id p) (ra_key p)) (concat (map snd (pb_batches b))) []"

datatype stage_outcome = Staged | StageDuplicate | StageClosed

definition stage_photos ::
  "jobs_env \<Rightarrow> photos_ready \<Rightarrow> string \<Rightarrow> rat \<Rightarrow> redis \<Rightarrow> (job_exn + stage_outcome) attempt" where
  "stage_photos E m topic now s =
     (let i = photos_ready_identity E m; no = int_str (rm_batch m);
          photos = sort_key ra_id (rm_attachments m)
      in if key_exists s (KJob i) \<or> key_exists s (KIgnored i) then Done (Inr StageClosed) []
         else
           let buffer = (case get_buffer s i of
                           Some b \<Rightarrow> b | None \<Rightarrow> \<lparr>pb_topic = topic, pb_batches = []\<rparr>)
           in if pb_topic buffer \<noteq> topic then Done (Inl ValueErr) []
              else
                (case map_of (pb_batches buffer) no of
                   Some previous \<Rightarrow>
                     if previous \<noteq> photos then Done (Inl ValueErr) []
                     else Done (Inr StageDuplicate) []
                 | None \<Rightarrow>
                     (case merge_known photos (known_photos buffer) of
                        None \<Rightarrow> Done (Inl ValueErr) []
                      | Some known \<Rightarrow>
                          if length known > 200 \<or> length (pb_batches buffer) \<ge> 200
                          then Done (Inl ValueErr) []
                          else
                            let buffer' = buffer\<lparr>pb_batches := dict_set no photos (pb_batches buffer)\<rparr>
                            in if buffer_bytes E buffer' > PHOTOS_READY_MAX_BYTES
                               then Done (Inl ValueErr) []
                               else Done (Inr Staged)
                                 [SETc (KBatches i) (VBuffer buffer'),
                                  ZADDc KBatchQueue (photo_batch_member i (rm_batch m)) now,
                                  ZREMRANGEc KBatchQueue (now - cfg_photos_ttl (env_cfg E))])))"

definition stage_watch :: "jobs_env \<Rightarrow> photos_ready \<Rightarrow> redis \<Rightarrow> rkey list" where
  "stage_watch E m s =
     (let i = photos_ready_identity E m in [KBatches i, KJob i, KIgnored i])"

record photo_batch_claim =
  bc_identity :: string
  bc_batch :: int
  bc_enqueued :: rat

text \<open>\<open>int(self.identity.split(":")[1])\<close>.\<close>

definition claim_trip_id :: "photo_batch_claim \<Rightarrow> int option" where
  "claim_trip_id c =
     (case second_field (CHR '':'') (bc_identity c) of Some f \<Rightarrow> str_int f | None \<Rightarrow> None)"

fun claim_batch_loop :: "zset \<Rightarrow> redis \<Rightarrow> (job_exn + photo_batch_claim option) \<times> redis" where
  "claim_batch_loop [] s = (Inr None, s)"
| "claim_batch_loop ((sc, mem) # rest) s =
     (let s' = s(KBatchQueue \<mapsto> VZset rest)
      in case rsplit1 (CHR ''#'') mem of
           None \<Rightarrow> (Inl ValueErr, s')
         | Some (i, no) \<Rightarrow>
             if key_exists s' (KBatches i) then
               (case str_int no of
                  None \<Rightarrow> (Inl ValueErr, s')
                | Some n \<Rightarrow> (Inr (Some \<lparr>bc_identity = i, bc_batch = n, bc_enqueued = sc\<rparr>), s'))
             else claim_batch_loop rest s')"

definition claim_batch :: "redis \<Rightarrow> (job_exn + photo_batch_claim option) \<times> redis" where
  "claim_batch s = claim_batch_loop (get_zset s KBatchQueue) s"

definition photo_batch :: "string \<Rightarrow> int \<Rightarrow> redis \<Rightarrow> ready_attachment list option" where
  "photo_batch i no s =
     (case get_buffer s i of None \<Rightarrow> None | Some b \<Rightarrow> map_of (pb_batches b) (int_str no))"

section \<open>Photo metrics\<close>

definition valid_metrics :: "photo_metrics_record \<Rightarrow> bool" where
  "valid_metrics m \<longleftrightarrow> 0 \<le> pm_variance m \<and> hex16 (pm_phash m)"

definition save_photo_metrics :: "(int, photo_metrics_record) pydict \<Rightarrow> redis \<Rightarrow> redis" where
  "save_photo_metrics recs s = exec (map (\<lambda>(p, m). SETc (KPhoto p) (VMetrics m)) recs) s"

definition photo_metrics :: "int list \<Rightarrow> redis \<Rightarrow> (int, photo_metrics_record) pydict" where
  "photo_metrics ids s =
     fold (\<lambda>p d. case s (KPhoto p) of
                    Some (VMetrics m) \<Rightarrow> if valid_metrics m then dict_set p m d else d
                  | _ \<Rightarrow> d) ids []"

section \<open>Registration\<close>

datatype register_outcome = Accepted | Duplicate | Busy

definition register ::
  "jobs_env \<Rightarrow> job \<Rightarrow> rat \<Rightarrow> redis \<Rightarrow> (job_exn + register_outcome) attempt" where
  "register E r now s =
     (let i = job_identity E r
      in if key_exists s (KJob i) \<or> key_exists s (KIgnored i) then Done (Inr Duplicate) []
         else
           let members = (case get_buffer s i of
                 Some b \<Rightarrow> map (photo_batch_member_s i \<circ> fst) (pb_batches b) | None \<Rightarrow> []);
               drop_members = map (ZREMc KBatchQueue) members;
               previous = (case get_str s (KLatest (j_kind r) (j_trip r)) of
                             Some p \<Rightarrow> get_job s p | None \<Rightarrow> None)
           in if (case previous of Some p \<Rightarrow> \<not> terminal (j_status p) | None \<Rightarrow> False) then
                Done (Inr Busy)
                  (drop_members @ [SETc (KIgnored i) (VStr ''1''), DELc (KBatches i)])
              else
                let r' = r\<lparr>j_created := now\<rparr>; order = get_int s KSequence + 1
                in (case (case j_event r' of Some _ \<Rightarrow> terminal_commands r' now | None \<Rightarrow> Inr []) of
                      Inl e \<Rightarrow> Done (Inl e) []
                    | Inr ms \<Rightarrow>
                        Done (Inr Accepted)
                          (drop_members @
                           [SETc KSequence (VInt order), SETc (KJob i) (VJob r'),
                            SETc (KLatest (j_kind r) (j_trip r)) (VStr i), DELc (KBatches i),
                            (if j_event r' \<noteq> None then ZADDc KPending i now
                             else ZADDc (KQueue (j_kind r)) i (of_int order))] @ ms)))"

definition register_watch :: "jobs_env \<Rightarrow> job \<Rightarrow> redis \<Rightarrow> rkey list" where
  "register_watch E r s =
     (let i = job_identity E r; lk = KLatest (j_kind r) (j_trip r)
      in [KJob i, KIgnored i, lk, KSequence, KBatches i] @
         (case get_str s lk of Some p \<Rightarrow> [KJob p] | None \<Rightarrow> []))"

section \<open>Writes of the callers\<close>

text \<open>\<open>RequestReceiver.reject\<close> of \<open>kafka.py\<close>: the number of times a message was found invalid, capped
  at three, is shared by the replicas under the digest of its coordinates.\<close>

definition count_invalid :: "string \<Rightarrow> redis \<Rightarrow> int attempt" where
  "count_invalid h s =
     (let attempts = min 3 (get_int s (KInvalid h) + 1)
      in Done attempts [SETc (KInvalid h) (VInt attempts)])"

text \<open>\<open>observe_stages\<close> and \<open>record_peak_memory\<close>: stages are (result, full name, seconds).\<close>

definition observe_stages :: "job_kind \<Rightarrow> (string \<times> string \<times> rat) list \<Rightarrow> rcmd list" where
  "observe_stages k stages =
     concat (map (\<lambda>(result, name, seconds).
       observe_commands (KMetrics ''operations'') (kind_name k) result name seconds) stages)"

definition record_peak_memory :: "job_kind \<Rightarrow> int \<Rightarrow> rcmd list" where
  "record_peak_memory k peak =
     [HSETc (KMetrics ''resources'') (kind_name k @ ''|peak_memory_bytes'') (of_int peak)]"

fun metrics_key :: "rkey \<Rightarrow> bool" where
  "metrics_key (KMetrics m) = True"
| "metrics_key _ = False"

section \<open>Claiming a job\<close>

definition stale_slots :: "job_kind \<Rightarrow> redis \<Rightarrow> rkey list" where
  "stale_slots k s =
     filter (\<lambda>key. case get_str s key of
                      None \<Rightarrow> False
                    | Some i \<Rightarrow> (case get_job s i of Some r \<Rightarrow> terminal (j_status r) | None \<Rightarrow> False))
       (slot_keys k)"

definition occupied_slots :: "job_kind \<Rightarrow> redis \<Rightarrow> rkey list" where
  "occupied_slots k s = filter (\<lambda>key. get_str s key \<noteq> None) (slot_keys k)"

definition claimed_job :: "job \<Rightarrow> string \<Rightarrow> rat \<Rightarrow> job" where
  "claimed_job r owner now =
     r\<lparr>j_status := PROCESSING, j_owner := Some owner, j_started := Some now,
       j_heartbeat := Some now\<rparr>"

text \<open>One pass of \<open>claim\<close>; \<open>owner\<close> is \<open>worker + ":" + uuid4().hex\<close>, \<open>stop\<close> the second poll.\<close>

definition claim_attempt ::
  "jobs_env \<Rightarrow> job_kind \<Rightarrow> string \<Rightarrow> bool \<Rightarrow> rat \<Rightarrow> redis \<Rightarrow> (job_exn + (job \<times> rat) option) attempt" where
  "claim_attempt E k owner stop now s =
     (if stale_slots k s \<noteq> [] then Again (map DELc (stale_slots k s))
      else if length (occupied_slots k s) \<ge> claim_limit E k then Done (Inr None) []
      else
        (case filter (\<lambda>key. get_str s key = None) (slot_keys k) of
           [] \<Rightarrow> Done (Inl ValueErr) []
         | slot # _ \<Rightarrow>
             (case get_zset s (KQueue k) of
                [] \<Rightarrow> Done (Inr None) []
              | (score, i) # _ \<Rightarrow>
                  (case get_job s i of
                     None \<Rightarrow> Again [ZREMc (KQueue k) i]
                   | Some r \<Rightarrow>
                       if j_status r \<noteq> QUEUED then Again [ZREMc (KQueue k) i]
                       else if stop then Done (Inr None) []
                       else Done (Inr (Some (claimed_job r owner now, score)))
                         [ZREMc (KQueue k) i, SETc slot (VStr i),
                          SETc (KJob i) (VJob (claimed_job r owner now)),
                          ZADDc KRunning i
                            (now + min (cfg_lease (env_cfg E)) (job_timeout (env_cfg E) (j_kind r)))]))))"

definition claim_watch :: "job_kind \<Rightarrow> redis \<Rightarrow> rkey list" where
  "claim_watch k s =
     KQueue k # slot_keys k @
     concat (map (\<lambda>key. case get_str s key of Some i \<Rightarrow> [KJob i] | None \<Rightarrow> []) (slot_keys k)) @
     (case get_zset s (KQueue k) of [] \<Rightarrow> [] | (score, i) # _ \<Rightarrow> [KJob i])"

text \<open>
  The loop with its three polls of \<open>should_stop\<close>: before a pass, before \<open>EXEC\<close>, after it (then
  the job is handed back).  \<open>stop n\<close> is the \<open>n\<close>-th poll; \<open>now n\<close> the clock of pass \<open>n\<close>; owners
  are drawn per pass.  Fuel bounds the passes.
\<close>

fun claim_loop ::
  "nat \<Rightarrow> jobs_env \<Rightarrow> job_kind \<Rightarrow> (nat \<Rightarrow> string) \<Rightarrow> (nat \<Rightarrow> bool) \<Rightarrow> (nat \<Rightarrow> rat) \<Rightarrow> nat \<Rightarrow> redis
    \<Rightarrow> ((job_exn + job option) \<times> redis) option" where
  "claim_loop 0 E k owner stop now n s = None"
| "claim_loop (Suc fuel) E k owner stop now n s =
     (if stop (3 * n) then Some (Inr None, s)
      else
        (let a = claim_attempt E k (owner n) (stop (3 * n + 1)) (now n) s; s' = run_attempt a s
         in case a of
              Again cs \<Rightarrow> claim_loop fuel E k owner stop now (Suc n) s'
            | Done (Inl e) cs \<Rightarrow> Some (Inl e, s')
            | Done (Inr None) cs \<Rightarrow> Some (Inr None, s')
            | Done (Inr (Some (r, score))) cs \<Rightarrow>
                if stop (3 * n + 2)
                then (case return_unstarted E r score (now (Suc n)) s' of
                        Done (Inl e) cs' \<Rightarrow> Some (Inl e, s')
                      | b \<Rightarrow> Some (Inr None, run_attempt b s'))
                else Some (Inr (Some r), s')))"

end
