(* ===== verification/StoreInvariant.thy ===== *)
theory StoreInvariant
  imports RedisStore
begin

text \<open>
  How the write commands act on what the job store reads: records, slots, sorted sets and the
  latest/ignored markers.  Commands on observation keys (metrics, photo batches, photo metrics,
  counters) are noise for these views; \<open>core_eq\<close> is equality of the databases without them.

  The invariant of the shared job store and the lemmas that every operation of
  \<open>redis_store.py\<close> keeps it.  \<open>job_update\<close> is the contract between \<open>change\<close> and the update
  functions passed to it; it is interpreted for each of the seven updates.
\<close>

named_theorems view_simps \<open>readers after one write\<close>

lemma get_job_upd [view_simps]:
  "get_job (s(k := v)) i =
     (if k = KJob i then (case v of Some (VJob j) \<Rightarrow> Some j | _ \<Rightarrow> None) else get_job s i)"
  by (auto simp: get_job_def)

lemma get_str_upd [view_simps]:
  "get_str (s(k := v)) k' =
     (if k = k' then (case v of Some (VStr x) \<Rightarrow> Some x | _ \<Rightarrow> None) else get_str s k')"
  by (auto simp: get_str_def)

lemma get_zset_upd [view_simps]:
  "get_zset (s(k := v)) k' =
     (if k = k' then (case v of Some (VZset z) \<Rightarrow> z | _ \<Rightarrow> []) else get_zset s k')"
  by (auto simp: get_zset_def)

lemma get_buffer_upd [view_simps]:
  "get_buffer (s(k := v)) i =
     (if k = KBatches i then (case v of Some (VBuffer b) \<Rightarrow> Some b | _ \<Rightarrow> None) else get_buffer s i)"
  by (auto simp: get_buffer_def)

fun core_key :: "rkey \<Rightarrow> bool" where
  "core_key (KJob i) = True"
| "core_key (KIgnored i) = True"
| "core_key (KLatest k t) = True"
| "core_key (KQueue k) = True"
| "core_key (KSlot k n) = True"
| "core_key KRunning = True"
| "core_key KPending = True"
| "core_key _ = False"

definition core_eq :: "redis \<Rightarrow> redis \<Rightarrow> bool" where
  "core_eq s t \<longleftrightarrow> (\<forall>k. core_key k \<longrightarrow> s k = t k)"

lemma core_eq_refl [simp]: "core_eq s s"
  by (simp add: core_eq_def)

lemma core_eq_sym: "core_eq s t \<Longrightarrow> core_eq t s"
  by (simp add: core_eq_def)

lemma core_eq_trans: "core_eq s t \<Longrightarrow> core_eq t u \<Longrightarrow> core_eq s u"
  by (simp add: core_eq_def)

lemma core_eq_upd: "\<not> core_key k \<Longrightarrow> core_eq (s(k := v)) s"
  by (auto simp: core_eq_def)

lemma core_eq_exec1: "core_eq s t \<Longrightarrow> core_eq (exec1 c s) (exec1 c t)"
  by (cases c) (auto simp: core_eq_def get_zset_def get_hash_def)

lemma core_eq_exec: "core_eq s t \<Longrightarrow> core_eq (exec cs s) (exec cs t)"
  by (induction cs arbitrary: s t) (auto simp: core_eq_exec1)

lemma core_eq_noise: "\<forall>c \<in> set cs. \<not> core_key (cmd_key c) \<Longrightarrow> core_eq (exec cs s) s"
proof (induction cs arbitrary: s)
  case (Cons c cs)
  have "core_eq (exec1 c s) s"
    using Cons.prems by (cases c) (auto simp: core_eq_upd)
  with Cons show ?case by (auto intro: core_eq_trans)
qed simp

lemma core_eq_drop_noise:
  assumes "\<forall>c \<in> set ms. \<not> core_key (cmd_key c)"
  shows "core_eq (exec (as @ ms @ bs) s) (exec (as @ bs) s)"
  using core_eq_exec[OF core_eq_noise[OF assms, of "exec as s"], of bs] by simp

lemma exec_DELs:
  "exec (map DELc ks) s k = (if k \<in> set ks then None else s k)"
  by (induction ks arbitrary: s) auto

lemma core_eq_views:
  assumes "core_eq s t"
  shows "get_job s i = get_job t i" and "s (KJob i) = t (KJob i)" and "s (KIgnored i) = t (KIgnored i)"
    and "get_str s (KLatest k n) = get_str t (KLatest k n)"
    and "get_str s (KSlot k m) = get_str t (KSlot k m)"
    and "get_zset s (KQueue k) = get_zset t (KQueue k)"
    and "get_zset s KRunning = get_zset t KRunning" and "get_zset s KPending = get_zset t KPending"
  using assms by (auto simp: core_eq_def get_job_def get_str_def get_zset_def)

section \<open>Slot keys\<close>

lemma slot_keys_simps:
  "slot_keys Process = [KSlot Process 0]"
  "slot_keys Story = [KSlot Story 0, KSlot Story 1, KSlot Story 2, KSlot Story 3]"
  by (simp_all add: slot_keys_def MAX_STORY_CONCURRENCY_def upt_rec numeral_eq_Suc)

lemma distinct_slot_keys [simp]: "distinct (slot_keys k)"
  by (cases k) (simp_all add: slot_keys_simps)

lemma slot_keys_are_slots: "key \<in> set (slot_keys k) \<Longrightarrow> \<exists>n. key = KSlot k n"
  by (cases k) (auto simp: slot_keys_simps)

lemma slot_key_kind: "KSlot k n \<in> set (slot_keys k') \<Longrightarrow> k = k'"
  using slot_keys_are_slots by blast

lemma length_slot_keys: "length (slot_keys k) = (if k = Story then 4 else 1)"
  by (cases k) (simp_all add: slot_keys_simps)

section \<open>Noise commands\<close>

lemma observe_commands_keys: "c \<in> set (observe_commands key op out ph x) \<Longrightarrow> cmd_key c = key"
  by (auto simp: observe_commands_def Let_def)

lemma result_commands_keys: "result_commands key k r = Inr ms \<Longrightarrow> c \<in> set ms \<Longrightarrow> cmd_key c = key"
  by (auto simp: result_commands_def split: if_splits)

lemma terminal_commands_keys:
  "terminal_commands r now = Inr ms \<Longrightarrow> c \<in> set ms \<Longrightarrow> cmd_key c = KMetrics ''operations''"
  by (auto simp: terminal_commands_def Let_def dest!: observe_commands_keys result_commands_keys
      split: if_splits option.splits)

lemma terminal_commands_noise:
  "terminal_commands r now = Inr ms \<Longrightarrow> \<forall>c \<in> set ms. \<not> core_key (cmd_key c)"
  using terminal_commands_keys by fastforce

section \<open>The readers after each kind of commit\<close>

definition finish_cmds :: "jobs_env \<Rightarrow> string \<Rightarrow> job \<Rightarrow> rat \<Rightarrow> redis \<Rightarrow> rcmd list" where
  "finish_cmds E i r now s =
     SETc (KJob i) (VJob r) # [ZREMc (KQueue (j_kind r)) i, ZREMc KRunning i] @
     map DELc (filter (\<lambda>k. get_str s k = Some i) (slot_keys (j_kind r))) @
     (if j_published r then [] else [ZADDc KPending i (max now (j_pub_until r))])"

definition requeue_cmds :: "jobs_env \<Rightarrow> string \<Rightarrow> job \<Rightarrow> rat \<Rightarrow> redis \<Rightarrow> rcmd list" where
  "requeue_cmds E i r q s =
     SETc (KJob i) (VJob r) # ZREMc KRunning i #
     map DELc (filter (\<lambda>k. get_str s k = Some i) (slot_keys (j_kind r))) @
     [ZADDc (KQueue (j_kind r)) i q]"

lemma DELs_slot_views:
  fixes s :: redis
  assumes "set ks \<subseteq> set (slot_keys k0)"
  shows "get_job (exec (map DELc ks) s) x = get_job s x"
    and "exec (map DELc ks) s (KJob x) = s (KJob x)"
    and "exec (map DELc ks) s (KIgnored x) = s (KIgnored x)"
    and "get_str (exec (map DELc ks) s) (KLatest k t) = get_str s (KLatest k t)"
    and "get_str (exec (map DELc ks) s) (KSlot k n) =
           (if KSlot k n \<in> set ks then None else get_str s (KSlot k n))"
    and "get_zset (exec (map DELc ks) s) (KQueue k) = get_zset s (KQueue k)"
    and "get_zset (exec (map DELc ks) s) KRunning = get_zset s KRunning"
    and "get_zset (exec (map DELc ks) s) KPending = get_zset s KPending"
proof -
  have other: "key \<notin> set ks" if "\<forall>n. key \<noteq> KSlot k0 n" for key
    using that assms slot_keys_are_slots by blast
  show "get_job (exec (map DELc ks) s) x = get_job s x"
    "exec (map DELc ks) s (KJob x) = s (KJob x)"
    "exec (map DELc ks) s (KIgnored x) = s (KIgnored x)"
    "get_str (exec (map DELc ks) s) (KLatest k t) = get_str s (KLatest k t)"
    "get_zset (exec (map DELc ks) s) (KQueue k) = get_zset s (KQueue k)"
    "get_zset (exec (map DELc ks) s) KRunning = get_zset s KRunning"
    "get_zset (exec (map DELc ks) s) KPending = get_zset s KPending"
    by (simp_all add: get_job_def get_str_def get_zset_def exec_DELs other)
  show "get_str (exec (map DELc ks) s) (KSlot k n) =
           (if KSlot k n \<in> set ks then None else get_str s (KSlot k n))"
    by (simp add: get_str_def exec_DELs)
qed

lemma owned_subset: "set (filter P (slot_keys k)) \<subseteq> set (slot_keys k)"
  by auto

lemma finish_views:
  fixes s :: redis
  assumes "s' = exec (finish_cmds E i r now s) s"
  shows "get_job s' x = (if x = i then Some r else get_job s x)"
    and "s' (KJob x) = (if x = i then Some (VJob r) else s (KJob x))"
    and "s' (KIgnored x) = s (KIgnored x)"
    and "get_str s' (KLatest k t) = get_str s (KLatest k t)"
    and "get_str s' (KSlot k n) =
           (if k = j_kind r \<and> KSlot k n \<in> set (slot_keys k) \<and> get_str s (KSlot k n) = Some i
            then None else get_str s (KSlot k n))"
    and "get_zset s' (KQueue k) =
           (if k = j_kind r then zrem i (get_zset s (KQueue k)) else get_zset s (KQueue k))"
    and "get_zset s' KRunning = zrem i (get_zset s KRunning)"
    and "get_zset s' KPending =
           (if j_published r then get_zset s KPending
            else zadd i (max now (j_pub_until r)) (get_zset s KPending))"
  using slot_key_kind[of k n "j_kind r"]
  by (auto simp: assms finish_cmds_def view_simps DELs_slot_views[OF owned_subset])

lemma requeue_views:
  fixes s :: redis
  assumes "s' = exec (requeue_cmds E i r q s) s"
  shows "get_job s' x = (if x = i then Some r else get_job s x)"
    and "s' (KJob x) = (if x = i then Some (VJob r) else s (KJob x))"
    and "s' (KIgnored x) = s (KIgnored x)"
    and "get_str s' (KLatest k t) = get_str s (KLatest k t)"
    and "get_str s' (KSlot k n) =
           (if k = j_kind r \<and> KSlot k n \<in> set (slot_keys k) \<and> get_str s (KSlot k n) = Some i
            then None else get_str s (KSlot k n))"
    and "get_zset s' (KQueue k) =
           (if k = j_kind r then zadd i q (get_zset s (KQueue k)) else get_zset s (KQueue k))"
    and "get_zset s' KRunning = zrem i (get_zset s KRunning)"
    and "get_zset s' KPending = get_zset s KPending"
  using slot_key_kind[of k n "j_kind r"]
  by (auto simp: assms requeue_cmds_def view_simps DELs_slot_views[OF owned_subset])

section \<open>The invariant\<close>

definition event_of :: "result_event \<Rightarrow> job \<Rightarrow> bool" where
  "event_of e j \<longleftrightarrow> event_consistent e \<and> ev_status e = j_status j \<and> ev_kind e = j_kind j \<and>
     ev_trip e = j_trip j \<and> ev_exec e = j_exec j"

definition job_wf :: "jobs_env \<Rightarrow> string \<Rightarrow> job \<Rightarrow> bool" where
  "job_wf E i j \<longleftrightarrow>
     job_identity E j = i \<and>
     (j_status j = PROCESSING \<longrightarrow> j_owner j \<noteq> None \<and> j_heartbeat j \<noteq> None \<and> j_started j \<noteq> None) \<and>
     (case j_event j of None \<Rightarrow> \<not> terminal (j_status j) | Some e \<Rightarrow> event_of e j) \<and>
     (j_published j \<longrightarrow> terminal (j_status j)) \<and>
     (j_pub_owner j \<noteq> None \<longrightarrow> terminal (j_status j)) \<and>
     0 \<le> pr_done (j_progress j) \<and> pr_done (j_progress j) \<le> pr_total (j_progress j) \<and>
     (j_status j = COMPLETED \<longrightarrow> pr_done (j_progress j) = pr_total (j_progress j))"

lemma job_wf_event: "job_wf E i j \<Longrightarrow> j_event j = None \<longleftrightarrow> \<not> terminal (j_status j)"
  by (auto simp: job_wf_def event_of_def event_consistent_def split: option.splits)

definition has_status :: "redis \<Rightarrow> string \<Rightarrow> (job \<Rightarrow> bool) \<Rightarrow> bool" where
  "has_status s i P \<longleftrightarrow> (\<exists>j. get_job s i = Some j \<and> P j)"

definition inv_jobs :: "jobs_env \<Rightarrow> redis \<Rightarrow> bool" where
  "inv_jobs E s \<longleftrightarrow> (\<forall>i. s (KJob i) \<noteq> None \<longrightarrow> has_status s i (job_wf E i))"

definition inv_zsets :: "redis \<Rightarrow> bool" where
  "inv_zsets s \<longleftrightarrow> (\<forall>k. zset_ok (get_zset s (KQueue k))) \<and> zset_ok (get_zset s KRunning) \<and>
     zset_ok (get_zset s KPending)"

definition inv_queue :: "redis \<Rightarrow> bool" where
  "inv_queue s \<longleftrightarrow> (\<forall>k i. i \<in> zmembers (get_zset s (KQueue k)) \<longleftrightarrow>
     has_status s i (\<lambda>j. j_status j = QUEUED \<and> j_kind j = k))"

definition inv_running :: "redis \<Rightarrow> bool" where
  "inv_running s \<longleftrightarrow> (\<forall>i. i \<in> zmembers (get_zset s KRunning) \<longleftrightarrow>
     has_status s i (\<lambda>j. j_status j = PROCESSING))"

definition inv_pending :: "redis \<Rightarrow> bool" where
  "inv_pending s \<longleftrightarrow> (\<forall>i. i \<in> zmembers (get_zset s KPending) \<longleftrightarrow>
     has_status s i (\<lambda>j. terminal (j_status j) \<and> \<not> j_published j))"

definition inv_slots :: "redis \<Rightarrow> bool" where
  "inv_slots s \<longleftrightarrow>
     (\<forall>k n i. KSlot k n \<in> set (slot_keys k) \<and> get_str s (KSlot k n) = Some i \<longrightarrow>
        has_status s i (\<lambda>j. j_status j = PROCESSING \<and> j_kind j = k)) \<and>
     (\<forall>i j. get_job s i = Some j \<and> j_status j = PROCESSING \<longrightarrow>
        (\<exists>n. KSlot (j_kind j) n \<in> set (slot_keys (j_kind j)) \<and>
             get_str s (KSlot (j_kind j) n) = Some i)) \<and>
     (\<forall>k n m i. KSlot k n \<in> set (slot_keys k) \<and> KSlot k m \<in> set (slot_keys k) \<and>
        get_str s (KSlot k n) = Some i \<and> get_str s (KSlot k m) = Some i \<longrightarrow> n = m)"

definition inv_limit :: "jobs_env \<Rightarrow> redis \<Rightarrow> bool" where
  "inv_limit E s \<longleftrightarrow> (\<forall>k. length (occupied_slots k s) \<le> claim_limit E k)"

definition inv_latest :: "redis \<Rightarrow> bool" where
  "inv_latest s \<longleftrightarrow>
     (\<forall>i j. get_job s i = Some j \<and> \<not> terminal (j_status j) \<longrightarrow>
        get_str s (KLatest (j_kind j) (j_trip j)) = Some i) \<and>
     (\<forall>k t i. get_str s (KLatest k t) = Some i \<longrightarrow>
        has_status s i (\<lambda>j. j_kind j = k \<and> j_trip j = t))"

definition inv_ignored :: "redis \<Rightarrow> bool" where
  "inv_ignored s \<longleftrightarrow> (\<forall>i. s (KIgnored i) \<noteq> None \<longrightarrow> s (KJob i) = None)"

definition store_inv :: "jobs_env \<Rightarrow> redis \<Rightarrow> bool" where
  "store_inv E s \<longleftrightarrow>
     inv_jobs E s \<and> inv_zsets s \<and> inv_queue s \<and> inv_running s \<and> inv_pending s \<and> inv_slots s \<and>
     inv_limit E s \<and> inv_latest s \<and> inv_ignored s"

lemmas inv_defs = inv_jobs_def inv_zsets_def inv_queue_def inv_running_def inv_pending_def
  inv_slots_def inv_limit_def inv_latest_def inv_ignored_def has_status_def

lemma occupied_core_eq: "core_eq s t \<Longrightarrow> occupied_slots k s = occupied_slots k t"
  unfolding occupied_slots_def
  by (rule filter_cong[OF refl]) (use core_eq_views(5) slot_keys_are_slots in metis)

lemma store_inv_core_eq: "core_eq s t \<Longrightarrow> store_inv E t \<Longrightarrow> store_inv E s"
  unfolding store_inv_def inv_defs
  by (simp add: core_eq_views[of s t] occupied_core_eq[of s t])

lemma store_inv_empty: "store_inv E Map.empty"
  by (simp add: store_inv_def inv_defs get_job_def get_str_def get_zset_def occupied_slots_def)

lemma get_job_key: "get_job s i = Some j \<Longrightarrow> s (KJob i) = Some (VJob j)"
  by (auto simp: get_job_def split: option.splits rval.splits)

lemma get_job_no_key: "s (KJob i) = None \<Longrightarrow> get_job s i = None"
  by (simp add: get_job_def)

lemma get_job_wf: "store_inv E s \<Longrightarrow> get_job s i = Some j \<Longrightarrow> job_wf E i j"
  by (frule get_job_key) (force simp: store_inv_def inv_jobs_def has_status_def)

lemma job_key_iff: "store_inv E s \<Longrightarrow> s (KJob i) = None \<longleftrightarrow> get_job s i = None"
  by (metis get_job_no_key has_status_def inv_jobs_def option.discI store_inv_def)

lemma occupied_mono:
  assumes "\<And>n. get_str t (KSlot k n) \<noteq> None \<Longrightarrow> get_str s (KSlot k n) \<noteq> None"
  shows "length (occupied_slots k t) \<le> length (occupied_slots k s)"
proof -
  have "filter (\<lambda>key. get_str t key \<noteq> None) (slot_keys k) =
        filter (\<lambda>key. get_str t key \<noteq> None) (filter (\<lambda>key. get_str s key \<noteq> None) (slot_keys k))"
    unfolding filter_filter
    by (rule filter_cong[OF refl]) (use assms slot_keys_are_slots in blast)
  then show ?thesis
    unfolding occupied_slots_def by (metis length_filter_le)
qed

section \<open>Commits that keep the invariant\<close>

lemma inv_after_finish:
  assumes inv: "store_inv E s" and old: "get_job s i = Some r0"
    and wf: "job_wf E i r" and tm: "terminal (j_status r)" and kind: "j_kind r = j_kind r0"
    and trip: "j_trip r = j_trip r0" and pub: "j_published r \<longrightarrow> j_published r0"
  shows "store_inv E (exec (finish_cmds E i r now s) s)"
proof -
  let ?s = "exec (finish_cmds E i r now s) s"
  note v = finish_views[OF refl, of E i r now s]
  have i: "job_identity E r0 = i" using get_job_wf[OF inv old] by (simp add: job_wf_def)
  have "inv_jobs E ?s" "inv_zsets ?s" "inv_running ?s" "inv_ignored ?s"
    using inv wf tm old get_job_key[OF old]
    by (auto simp: store_inv_def inv_defs v)
  moreover have "inv_queue ?s"
    using inv old tm kind by (auto simp: store_inv_def inv_defs v)
  moreover have "inv_pending ?s"
    using inv old tm pub by (auto simp: store_inv_def inv_defs v)
  moreover have "inv_slots ?s"
    using inv old tm kind unfolding store_inv_def inv_slots_def has_status_def
    by (auto simp: v split: option.splits if_splits) (metis option.inject)+
  moreover have "inv_limit E ?s"
    unfolding inv_limit_def
  proof
    fix k
    have "length (occupied_slots k ?s) \<le> length (occupied_slots k s)"
      by (rule occupied_mono) (auto simp: v split: if_splits)
    also have "\<dots> \<le> claim_limit E k"
      using inv by (simp add: store_inv_def inv_limit_def)
    finally show "length (occupied_slots k ?s) \<le> claim_limit E k" .
  qed
  moreover have "inv_latest ?s"
    using inv old tm kind trip unfolding store_inv_def inv_latest_def has_status_def
    by (auto simp: v split: if_splits) (metis option.inject)+
  ultimately show ?thesis by (simp add: store_inv_def)
qed

lemma inv_after_requeue:
  assumes inv: "store_inv E s" and old: "get_job s i = Some r0" and pr: "j_status r0 = PROCESSING"
    and wf: "job_wf E i r" and tm: "j_status r = QUEUED" and kind: "j_kind r = j_kind r0"
    and trip: "j_trip r = j_trip r0"
  shows "store_inv E (exec (requeue_cmds E i r q s) s)"
proof -
  let ?s = "exec (requeue_cmds E i r q s) s"
  note v = requeue_views[OF refl, of E i r q s]
  have "inv_jobs E ?s" "inv_zsets ?s" "inv_running ?s" "inv_ignored ?s"
    using inv wf tm old get_job_key[OF old] by (auto simp: store_inv_def inv_defs v)
  moreover have "inv_queue ?s"
    using inv old tm kind by (auto simp: store_inv_def inv_defs v)
  moreover have "inv_pending ?s"
    using inv old tm pr by (auto simp: store_inv_def inv_defs v)
  moreover have "inv_slots ?s"
    using inv old tm kind unfolding store_inv_def inv_slots_def has_status_def
    by (auto simp: v split: option.splits if_splits) (metis option.inject)+
  moreover have "inv_limit E ?s"
    unfolding inv_limit_def
  proof
    fix k
    have "length (occupied_slots k ?s) \<le> length (occupied_slots k s)"
      by (rule occupied_mono) (auto simp: v split: if_splits)
    also have "\<dots> \<le> claim_limit E k"
      using inv by (simp add: store_inv_def inv_limit_def)
    finally show "length (occupied_slots k ?s) \<le> claim_limit E k" .
  qed
  moreover have "inv_latest ?s"
    using inv old tm kind trip pr unfolding store_inv_def inv_latest_def has_status_def
    by (auto simp: v split: if_splits) (metis option.inject)+
  ultimately show ?thesis by (simp add: store_inv_def)
qed

text \<open>Rewriting a record in place, with the running score of a \<open>PROCESSING\<close> record.\<close>

lemma occupied_job_upd [simp]:
  "occupied_slots k (s(KJob i := v)) = occupied_slots k s"
  "occupied_slots k (s(KRunning := v)) = occupied_slots k s"
  "occupied_slots k (s(KPending := v)) = occupied_slots k s"
  "occupied_slots k (s(KQueue k' := v)) = occupied_slots k s"
  "occupied_slots k (s(KLatest k' t := v)) = occupied_slots k s"
  "occupied_slots k (s(KIgnored i := v)) = occupied_slots k s"
  unfolding occupied_slots_def
  by (rule filter_cong[OF refl], use slot_keys_are_slots[of _ k] in \<open>auto simp: view_simps\<close>)+

lemma inv_after_set:
  assumes inv: "store_inv E s" and old: "get_job s i = Some r0" and wf: "job_wf E i r"
    and st: "j_status r = j_status r0" and kind: "j_kind r = j_kind r0"
    and trip: "j_trip r = j_trip r0" and pub: "j_published r = j_published r0"
  shows "store_inv E (s(KJob i \<mapsto> VJob r))"
proof -
  let ?s = "s(KJob i \<mapsto> VJob r)"
  have "inv_jobs E ?s" "inv_zsets ?s" "inv_running ?s" "inv_ignored ?s" "inv_queue ?s"
    "inv_pending ?s" "inv_limit E ?s"
    using inv wf st old kind pub get_job_key[OF old]
    by (auto simp: store_inv_def inv_defs view_simps)
  moreover have "inv_latest ?s"
    using inv old st kind trip unfolding store_inv_def inv_latest_def has_status_def
    by (auto simp: view_simps) (metis option.inject)+
  moreover have "inv_slots ?s"
    using inv old st kind unfolding store_inv_def inv_slots_def has_status_def
    by (auto simp: view_simps) (metis option.inject)+
  ultimately show ?thesis by (simp add: store_inv_def)
qed

lemma inv_after_rescore:
  assumes inv: "store_inv E s" and mem: "get_job s i = Some r" and st: "j_status r = PROCESSING"
  shows "store_inv E (s(KRunning \<mapsto> VZset (zadd i q (get_zset s KRunning))))"
proof -
  let ?s = "s(KRunning \<mapsto> VZset (zadd i q (get_zset s KRunning)))"
  have "inv_running ?s"
    using inv mem st by (auto simp: store_inv_def inv_defs view_simps)
  moreover have "inv_jobs E ?s" "inv_zsets ?s" "inv_ignored ?s" "inv_queue ?s"
    "inv_pending ?s" "inv_limit E ?s" "inv_latest ?s" "inv_slots ?s"
    using inv unfolding store_inv_def inv_defs by (simp_all add: view_simps)
  ultimately show ?thesis by (simp add: store_inv_def)
qed

section \<open>The contract of an update passed to \<open>change\<close>\<close>

locale job_update =
  fixes E :: jobs_env and upd :: update and requeues :: bool
  assumes keeps_wf: "upd r now = Inr (Some r') \<Longrightarrow> job_wf E i r \<Longrightarrow> job_wf E i r'"
    and keeps_id: "upd r now = Inr (Some r') \<Longrightarrow>
      j_kind r' = j_kind r \<and> j_trip r' = j_trip r \<and> j_exec r' = j_exec r \<and>
      j_published r' = j_published r \<and>
      j_result_topic r' = j_result_topic r \<and> j_request r' = j_request r"
    and keeps_end: "upd r now = Inr (Some r') \<Longrightarrow> terminal (j_status r) \<Longrightarrow>
      j_status r' = j_status r \<and> j_event r' = j_event r"
    and to_queue: "upd r now = Inr (Some r') \<Longrightarrow> job_wf E i r \<Longrightarrow> j_status r' = QUEUED \<Longrightarrow>
      requeues \<and> j_status r = PROCESSING"
    and to_processing: "upd r now = Inr (Some r') \<Longrightarrow> j_status r' = PROCESSING \<Longrightarrow>
      j_status r = PROCESSING"
begin

lemma change_core:
  assumes "change_attempt E i upd score now s = Done x cs" "cs \<noteq> []"
  shows "\<exists>r r'. get_job s i = Some r \<and> upd r now = Inr (Some r') \<and> x = Inr (Some r') \<and>
    change_commands E i (j_status r) r' score now s = Inr cs"
  using assms by (auto simp: change_attempt_def split: option.splits sum.splits)

lemma terminal_case:
  assumes inv: "store_inv E s" and r: "get_job s i = Some r" and u: "upd r now = Inr (Some r')"
    and c: "change_commands E i (j_status r) r' score now s = Inr cs" and wf: "job_wf E i r'"
    and tm: "terminal (j_status r')"
  shows "store_inv E (exec cs s)"
proof -
  from c tm obtain ms where noise: "\<forall>m \<in> set ms. \<not> core_key (cmd_key m)"
    and cs: "cs = [SETc (KJob i) (VJob r')] @ ms @ tl (finish_cmds E i r' now s)"
    by (auto simp: change_commands_def finish_cmds_def dest: terminal_commands_noise split: if_splits)
  have f: "[SETc (KJob i) (VJob r')] @ tl (finish_cmds E i r' now s) = finish_cmds E i r' now s"
    by (simp add: finish_cmds_def)
  have "core_eq (exec cs s) (exec (finish_cmds E i r' now s) s)"
    using core_eq_drop_noise[OF noise] cs f by metis
  moreover have "store_inv E (exec (finish_cmds E i r' now s) s)"
    by (rule inv_after_finish[OF inv r wf tm]) (use keeps_id[OF u] in auto)
  ultimately show ?thesis by (rule store_inv_core_eq)
qed

lemma change_inv:
  assumes inv: "store_inv E s" and score: "requeues \<longrightarrow> score \<noteq> None"
  shows "store_inv E (run_attempt (change_attempt E i upd score now s) s)"
proof (cases "attempt_cmds (change_attempt E i upd score now s) = []")
  case True
  with inv show ?thesis by (simp add: run_attempt_def)
next
  case False
  then obtain x cs where a: "change_attempt E i upd score now s = Done x cs" "cs \<noteq> []"
    by (auto simp: change_attempt_def split: option.splits sum.splits)
  from change_core[OF this] obtain r r' where r: "get_job s i = Some r"
    and u: "upd r now = Inr (Some r')"
    and c: "change_commands E i (j_status r) r' score now s = Inr cs" by blast
  have wf: "job_wf E i r'" using keeps_wf[OF u] get_job_wf[OF inv r] by blast
  note id = keeps_id[OF u]
  have "store_inv E (exec cs s)"
  proof (cases "j_status r'")
    case QUEUED
    with to_queue[OF u get_job_wf[OF inv r]] score obtain q where q: "score = Some q" "j_status r = PROCESSING" by auto
    with c QUEUED have "cs = requeue_cmds E i r' q s"
      by (simp add: change_commands_def requeue_cmds_def)
    with inv_after_requeue[OF inv r q(2) wf QUEUED] id show ?thesis by simp
  next
    case PROCESSING
    with to_processing[OF u] have p: "j_status r = PROCESSING" by simp
    from c PROCESSING obtain q where cs: "cs = [SETc (KJob i) (VJob r'), ZADDc KRunning i q]"
      by (auto simp: change_commands_def split: option.splits)
    have 1: "store_inv E (s(KJob i \<mapsto> VJob r'))"
      by (rule inv_after_set[OF inv r wf]) (use id p PROCESSING in auto)
    show ?thesis
      using inv_after_rescore[OF 1, of i r' q] PROCESSING by (simp add: cs view_simps)
  next
  qed (use terminal_case[OF inv r u c wf] in simp_all)
  with a show ?thesis by (simp add: run_attempt_def)
qed

end

end
