(* ===== verification/StoreOps.thy ===== *)
theory StoreOps
  imports StoreInvariant
begin

text \<open>
  Every operation of the store keeps the invariant: the seven updates interpret \<open>job_update\<close>,
  registration, claiming, acknowledging and staging are proved directly; and every read phase
  is covered by the keys it watches (\<open>watched_txn\<close>), so each operation takes effect atomically.
\<close>

section \<open>The updates meet the contract of \<open>change\<close>\<close>

lemma terminate_spec:
  assumes "terminate E r st res err = Inr r'" and "terminal st"
  shows "(\<exists>e. j_event r' = Some e \<and> event_consistent e \<and> ev_status e = j_status r' \<and>
            ev_kind e = j_kind r \<and> ev_trip e = j_trip r \<and> ev_exec e = j_exec r) \<and>
         (j_status r' = st \<or> j_status r' = FAILED) \<and> j_step r' = None \<and>
         j_kind r' = j_kind r \<and> j_trip r' = j_trip r \<and> j_exec r' = j_exec r \<and>
         j_published r' = j_published r \<and> j_result_topic r' = j_result_topic r \<and> j_request r' = j_request r \<and>
         pr_total (j_progress r') = pr_total (j_progress r) \<and>
         pr_done (j_progress r') =
           (if j_status r' = COMPLETED then pr_total (j_progress r) else pr_done (j_progress r))"
proof -
  from assms obtain e0 e where
    1: "check_payload E \<lparr>ev_kind = j_kind r, ev_trip = j_trip r, ev_exec = j_exec r, ev_status = st,
               ev_result = res, ev_error = err\<rparr> = Inr e0"
    and 2: "enforce_size_limit E e0 = Inr e"
    and r': "r' = (let r' = r\<lparr>j_event := Some e, j_status := ev_status e, j_step := None\<rparr>
       in if j_status r' = COMPLETED
               then r'\<lparr>j_progress := (j_progress r')\<lparr>pr_done := pr_total (j_progress r')\<rparr>\<rparr>
               else r')"
    by (auto simp: terminate_def Let_def)
  from check_payload_consistent[OF 1] assms(2)
  have e0: "event_consistent e0" "ev_kind e0 = j_kind r" "ev_trip e0 = j_trip r"
    "ev_exec e0 = j_exec r" "ev_status e0 = st" by simp_all
  from enforce_size_limit_consistent[OF 2 e0(1)] e0 r' show ?thesis
    by (auto simp: Let_def)
qed

lemma terminate_wf:
  assumes "terminate E r st res err = Inr r'" and "terminal st"
    and "job_identity E r = i" and "0 \<le> pr_done (j_progress r)"
    and "pr_done (j_progress r) \<le> pr_total (j_progress r)"
  shows "job_wf E i r'"
  using terminate_spec[OF assms(1,2)] assms(3-5)
  by (auto simp: job_wf_def event_of_def event_consistent_def job_identity_def)

lemma terminate_terminal: "terminate E r st res err = Inr r' \<Longrightarrow> terminal st \<Longrightarrow> terminal (j_status r')"
  using terminate_spec by fastforce

lemmas update_defs = heartbeat_update_def progress_update_def finish_update_def cancel_update_def
  return_update_def recover_update_def claim_result_update_def

lemma owns_processing: "owns E r owner now = Inr True \<Longrightarrow> j_status r = PROCESSING"
  by (auto simp: owns_def split: if_splits)

interpretation heartbeat_upd: job_update E "heartbeat_update E owner" False for E owner
  by unfold_locales
    (auto simp: heartbeat_update_def job_wf_def event_of_def job_identity_def dest!: owns_processing
      split: if_splits option.splits)

interpretation progress_upd: job_update E "progress_update E owner step dn tot" False
  for E owner step dn tot
  by unfold_locales
    (auto simp: progress_update_def job_wf_def event_of_def job_identity_def dest!: owns_processing
      split: if_splits option.splits)

lemma finish_update_cases:
  assumes "finish_update E owner st res err r now = Inr (Some r')"
  shows "j_status r = PROCESSING \<and>
    (\<exists>st' res' err'. terminate E r st' res' err' = Inr r' \<and> (st' = st \<or> st' = CANCELED))"
  using assms by (auto simp: finish_update_def dest: owns_processing split: if_splits)

lemma finish_upd_contract:
  assumes "terminal st"
  shows "job_update E (finish_update E owner st res err) False"
proof
  fix r now r' i
  assume u: "finish_update E owner st res err r now = Inr (Some r')"
  from finish_update_cases[OF u] obtain st' res' err' where
    p: "j_status r = PROCESSING" and t: "terminate E r st' res' err' = Inr r'"
    and tm: "terminal st'" using assms by auto
  note sp = terminate_spec[OF t tm] and ter = terminate_terminal[OF t tm]
  show "job_wf E i r \<Longrightarrow> job_wf E i r'"
    using terminate_wf[OF t tm, of i] by (auto simp: job_wf_def)
  show "j_kind r' = j_kind r \<and> j_trip r' = j_trip r \<and> j_exec r' = j_exec r \<and>
      j_published r' = j_published r \<and>
      j_result_topic r' = j_result_topic r \<and> j_request r' = j_request r" using sp by simp
  show "terminal (j_status r) \<Longrightarrow> j_status r' = j_status r \<and> j_event r' = j_event r"
    using p by simp
  show "job_wf E i r \<Longrightarrow> j_status r' = QUEUED \<Longrightarrow> False \<and> j_status r = PROCESSING" using ter by simp
  show "j_status r' = PROCESSING \<Longrightarrow> j_status r = PROCESSING" using p by simp
qed

interpretation finish_completed_upd: job_update E "finish_update E owner COMPLETED res err" False
  for E owner res err by (rule finish_upd_contract) simp

interpretation finish_failed_upd: job_update E "finish_update E owner FAILED res err" False
  for E owner res err by (rule finish_upd_contract) simp

interpretation finish_canceled_upd: job_update E "finish_update E owner CANCELED res err" False
  for E owner res err by (rule finish_upd_contract) simp

lemma cancel_terminate:
  "cancel_update E r now = Inr (Some r') \<Longrightarrow>
     (j_status r = QUEUED \<and> terminate E (r\<lparr>j_cancel := True\<rparr>) CANCELED None None = Inr r') \<or>
     (j_status r = PROCESSING \<and> r' = r\<lparr>j_cancel := True\<rparr>)"
  by (cases "j_status r") (auto simp: cancel_update_def)

interpretation cancel_upd: job_update E "cancel_update E" False for E
proof
  fix r now r' i
  assume "cancel_update E r now = Inr (Some r')"
  note c = cancel_terminate[OF this]
  note sp = terminate_spec[of E "r\<lparr>j_cancel := True\<rparr>" CANCELED None None r', simplified]
  show "job_wf E i r'" if wf: "job_wf E i r"
  proof -
    from wf c have "j_event r = None" by (auto simp: job_wf_event)
    with c wf terminate_wf[of E "r\<lparr>j_cancel := True\<rparr>" CANCELED None None r' i] show ?thesis
      by (auto simp: job_wf_def job_identity_def)
  qed
  show "j_kind r' = j_kind r \<and> j_trip r' = j_trip r \<and> j_exec r' = j_exec r \<and>
      j_published r' = j_published r \<and>
      j_result_topic r' = j_result_topic r \<and> j_request r' = j_request r" using c sp by auto
  show "terminal (j_status r) \<Longrightarrow> j_status r' = j_status r \<and> j_event r' = j_event r" using c by auto
  show "job_wf E i r \<Longrightarrow> j_status r' = QUEUED \<Longrightarrow> False \<and> j_status r = PROCESSING" using c sp by auto
  show "j_status r' = PROCESSING \<Longrightarrow> j_status r = PROCESSING" using c sp by auto
qed

lemma return_cases:
  "return_update E owner r now = Inr (Some r') \<Longrightarrow> j_status r = PROCESSING \<and>
     (terminate E r CANCELED None None = Inr r' \<or>
      r' = r\<lparr>j_status := QUEUED, j_owner := None, j_started := None, j_heartbeat := None\<rparr>)"
  by (auto simp: return_update_def dest: owns_processing split: if_splits)

interpretation return_upd: job_update E "return_update E owner" True for E owner
proof
  fix r now r' i
  assume "return_update E owner r now = Inr (Some r')"
  note c = return_cases[OF this]
  note sp = terminate_spec[of E r CANCELED None None r', simplified]
  show "job_wf E i r'" if wf: "job_wf E i r"
  proof -
    from wf c have "j_event r = None" by (simp add: job_wf_event)
    with c wf terminate_wf[of E r CANCELED None None r' i] show ?thesis
      by (auto simp: job_wf_def job_identity_def)
  qed
  show "j_kind r' = j_kind r \<and> j_trip r' = j_trip r \<and> j_exec r' = j_exec r \<and>
      j_published r' = j_published r \<and>
      j_result_topic r' = j_result_topic r \<and> j_request r' = j_request r" using c sp by auto
  show "terminal (j_status r) \<Longrightarrow> j_status r' = j_status r \<and> j_event r' = j_event r" using c by auto
  show "job_wf E i r \<Longrightarrow> j_status r' = QUEUED \<Longrightarrow> True \<and> j_status r = PROCESSING" using c by auto
  show "j_status r' = PROCESSING \<Longrightarrow> j_status r = PROCESSING" using c by auto
qed

lemma recover_cases:
  "recover_update E r now = Inr (Some r') \<Longrightarrow> j_status r = PROCESSING \<and>
     (\<exists>err. terminate E r FAILED None (Some err) = Inr r')"
  by (auto simp: recover_update_def Let_def split: if_splits option.splits)

interpretation recover_upd: job_update E "recover_update E" False for E
proof
  fix r now r' i
  assume "recover_update E r now = Inr (Some r')"
  from recover_cases[OF this] obtain err where
    c: "j_status r = PROCESSING" "terminate E r FAILED None (Some err) = Inr r'" by blast
  note sp = terminate_spec[OF c(2), simplified]
  show "job_wf E i r \<Longrightarrow> job_wf E i r'"
    using terminate_wf[OF c(2), of i] by (auto simp: job_wf_def)
  show "j_kind r' = j_kind r \<and> j_trip r' = j_trip r \<and> j_exec r' = j_exec r \<and>
      j_published r' = j_published r \<and>
      j_result_topic r' = j_result_topic r \<and> j_request r' = j_request r" using sp by auto
  show "terminal (j_status r) \<Longrightarrow> j_status r' = j_status r \<and> j_event r' = j_event r" using c by auto
  show "job_wf E i r \<Longrightarrow> j_status r' = QUEUED \<Longrightarrow> False \<and> j_status r = PROCESSING" using sp by auto
  show "j_status r' = PROCESSING \<Longrightarrow> j_status r = PROCESSING" using c by auto
qed

interpretation claim_result_upd: job_update E "claim_result_update E publisher" False
  for E publisher
proof
  fix r now r' i
  assume "claim_result_update E publisher r now = Inr (Some r')"
  then have c: "j_event r \<noteq> None" "r' = r\<lparr>j_pub_owner := Some publisher,
      j_pub_until := now + cfg_publish_lease (env_cfg E)\<rparr>"
    by (auto simp: claim_result_update_def split: if_splits)
  show "job_wf E i r \<Longrightarrow> job_wf E i r'"
    using c job_wf_event[of E i r]
    by (auto simp: job_wf_def job_identity_def event_of_def split: option.splits)
  show "j_kind r' = j_kind r \<and> j_trip r' = j_trip r \<and> j_exec r' = j_exec r \<and>
      j_published r' = j_published r \<and>
      j_result_topic r' = j_result_topic r \<and> j_request r' = j_request r" using c by simp
  show "terminal (j_status r) \<Longrightarrow> j_status r' = j_status r \<and> j_event r' = j_event r" using c by simp
  show "j_status r' = PROCESSING \<Longrightarrow> j_status r = PROCESSING" using c by simp
  show "job_wf E i r \<Longrightarrow> j_status r' = QUEUED \<Longrightarrow> False \<and> j_status r = PROCESSING"
    using c by (auto simp: job_wf_def event_of_def event_consistent_def split: option.splits)
qed

end
