(* ===== verification/StoreCommits.thy ===== *)
theory StoreCommits
  imports StoreOps
begin

text \<open>
  The operations of the store that are not written with \<open>change\<close> keep the invariant too:
  registration, claiming an execution slot, acknowledging a published result, staging photo
  batches and saving photo metrics.  Commands on observation keys are dropped first
  (\<open>core_eq_filter\<close>), so each proof looks only at the keys the invariant speaks about.
\<close>

section \<open>Dropping the noise of a commit\<close>

lemma core_eq_filter: "core_eq (exec cs s) (exec (filter (\<lambda>c. core_key (cmd_key c)) cs) s)"
proof (induction cs arbitrary: s)
  case (Cons c cs)
  show ?case
  proof (cases "core_key (cmd_key c)")
    case True
    with Cons show ?thesis by simp
  next
    case False
    then have "core_eq (exec1 c s) s"
      using core_eq_noise[of "[c]" s] by simp
    then have "core_eq (exec cs (exec1 c s)) (exec cs s)" by (rule core_eq_exec)
    with False Cons[of s] show ?thesis by (auto intro: core_eq_trans)
  qed
qed simp

lemma inv_exec_filter:
  "store_inv E (exec (filter (\<lambda>c. core_key (cmd_key c)) cs) s) \<Longrightarrow> store_inv E (exec cs s)"
  using store_inv_core_eq[OF core_eq_filter] .

lemma filter_noise: "\<forall>c \<in> set cs. \<not> core_key (cmd_key c) \<Longrightarrow> filter (\<lambda>c. core_key (cmd_key c)) cs = []"
  by (simp add: filter_empty_conv)

lemma filter_drop_members:
  "filter (\<lambda>c. core_key (cmd_key c)) (map (ZREMc KBatchQueue) ms) = []"
  by (rule filter_noise) auto

section \<open>Registration\<close>

definition fresh_job :: "jobs_env \<Rightarrow> job \<Rightarrow> bool" where
  "fresh_job E r \<longleftrightarrow> job_wf E (job_identity E r) r \<and> \<not> j_published r \<and> j_status r \<noteq> PROCESSING"

text \<open>The job of a trip and kind that is queued or running, if any.\<close>

definition active :: "redis \<Rightarrow> job_kind \<Rightarrow> int \<Rightarrow> string \<Rightarrow> bool" where
  "active s k t i \<longleftrightarrow> has_status s i (\<lambda>j. \<not> terminal (j_status j) \<and> j_kind j = k \<and> j_trip j = t)"

lemma active_latest: "store_inv E s \<Longrightarrow> active s k t i \<Longrightarrow> get_str s (KLatest k t) = Some i"
  by (auto simp: active_def has_status_def store_inv_def inv_latest_def)

lemma inv_after_new:
  assumes inv: "store_inv E s" and new: "get_job s i = None" "s (KIgnored i) = None"
    and free: "\<And>x. \<not> active s (j_kind r) (j_trip r) x"
    and wf: "job_wf E i r" and st: "\<not> j_published r" "j_status r \<noteq> PROCESSING"
  shows "store_inv E (exec [SETc (KJob i) (VJob r), SETc (KLatest (j_kind r) (j_trip r)) (VStr i),
     if terminal (j_status r) then ZADDc KPending i q1 else ZADDc (KQueue (j_kind r)) i q2] s)"
    (is "store_inv E ?s")
proof -
  have ns: "get_str s (KSlot k n) \<noteq> Some i" if "KSlot k n \<in> set (slot_keys k)" for k n
    using that inv new unfolding store_inv_def inv_slots_def has_status_def by fastforce
  have "inv_jobs E ?s" "inv_zsets ?s" "inv_running ?s" "inv_ignored ?s" "inv_limit E ?s"
    using inv new wf st by (auto simp: store_inv_def inv_defs view_simps)
  moreover have "inv_queue ?s"
    using inv new st by (auto simp: store_inv_def inv_defs view_simps not_terminal)
  moreover have "inv_pending ?s"
    using inv new st by (auto simp: store_inv_def inv_defs view_simps)
  moreover have "inv_slots ?s"
    using inv new st ns unfolding store_inv_def inv_slots_def has_status_def
    by (auto simp: view_simps)
  moreover have "inv_latest ?s"
  proof -
    have L: "get_str ?s (KLatest k t) =
        (if k = j_kind r \<and> t = j_trip r then Some i else get_str s (KLatest k t))" for k t
      by (simp add: view_simps)
    have J: "get_job ?s x = (if x = i then Some r else get_job s x)" for x
      by (simp add: view_simps)
    show ?thesis
      unfolding inv_latest_def has_status_def L J
      using inv new(1) free unfolding store_inv_def inv_latest_def active_def has_status_def
      by (smt (verit, best) option.inject option.distinct(1))
  qed
  ultimately show ?thesis by (simp add: store_inv_def)
qed

lemma inv_after_ignored:
  assumes inv: "store_inv E s" and new: "s (KJob i) = None"
  shows "store_inv E (s(KIgnored i \<mapsto> VStr ''1''))"
  using inv new unfolding store_inv_def inv_defs by (auto simp: view_simps)

definition previous_active :: "job \<Rightarrow> redis \<Rightarrow> bool" where
  "previous_active r s \<longleftrightarrow> (\<exists>p j. get_str s (KLatest (j_kind r) (j_trip r)) = Some p \<and>
     get_job s p = Some j \<and> \<not> terminal (j_status j))"

lemma register_closed:
  "s (KJob (job_identity E r)) \<noteq> None \<or> s (KIgnored (job_identity E r)) \<noteq> None \<Longrightarrow>
     register E r now s = Done (Inr Duplicate) []"
  by (auto simp: register_def key_exists_def Let_def)

lemma register_busy:
  assumes "s (KJob (job_identity E r)) = None" "s (KIgnored (job_identity E r)) = None"
    and "previous_active r s"
  shows "\<exists>ms. register E r now s = Done (Inr Busy) (map (ZREMc KBatchQueue) ms @
     [SETc (KIgnored (job_identity E r)) (VStr ''1''), DELc (KBatches (job_identity E r))])"
  using assms by (auto simp: register_def key_exists_def Let_def previous_active_def)

lemma register_accepts:
  assumes "s (KJob (job_identity E r)) = None" "s (KIgnored (job_identity E r)) = None"
    and "\<not> previous_active r s"
    and "(case j_event r of Some _ \<Rightarrow> terminal_commands (r\<lparr>j_created := now\<rparr>) now | None \<Rightarrow> Inr []) = Inr ms"
  shows "\<exists>ds. register E r now s = Done (Inr Accepted) (map (ZREMc KBatchQueue) ds @
     [SETc KSequence (VInt (get_int s KSequence + 1)),
      SETc (KJob (job_identity E r)) (VJob (r\<lparr>j_created := now\<rparr>)),
      SETc (KLatest (j_kind r) (j_trip r)) (VStr (job_identity E r)),
      DELc (KBatches (job_identity E r)),
      (if j_event r \<noteq> None then ZADDc KPending (job_identity E r) now
       else ZADDc (KQueue (j_kind r)) (job_identity E r) (of_int (get_int s KSequence + 1)))] @ ms)"
proof -
  have "\<not> (case (case get_str s (KLatest (j_kind r) (j_trip r)) of
             Some p \<Rightarrow> get_job s p | None \<Rightarrow> None) of Some p \<Rightarrow> \<not> terminal (j_status p) | None \<Rightarrow> False)"
    using assms(3) by (auto simp: previous_active_def split: option.splits)
  then show ?thesis
    using assms(1,2,4) by (auto simp: register_def key_exists_def Let_def)
qed

lemma register_raises:
  assumes "s (KJob (job_identity E r)) = None" "s (KIgnored (job_identity E r)) = None"
    and "\<not> previous_active r s"
    and "(case j_event r of Some _ \<Rightarrow> terminal_commands (r\<lparr>j_created := now\<rparr>) now | None \<Rightarrow> Inr []) = Inl e"
  shows "register E r now s = Done (Inl e) []"
proof -
  have "\<not> (case (case get_str s (KLatest (j_kind r) (j_trip r)) of
             Some p \<Rightarrow> get_job s p | None \<Rightarrow> None) of Some p \<Rightarrow> \<not> terminal (j_status p) | None \<Rightarrow> False)"
    using assms(3) by (auto simp: previous_active_def split: option.splits)
  then show ?thesis
    using assms(1,2,4) by (auto simp: register_def key_exists_def Let_def)
qed

lemma register_cases [case_names closed busy raises ok]:
  assumes "s (KJob (job_identity E r)) \<noteq> None \<or> s (KIgnored (job_identity E r)) \<noteq> None \<Longrightarrow> P"
    and "s (KJob (job_identity E r)) = None \<Longrightarrow> s (KIgnored (job_identity E r)) = None \<Longrightarrow>
      previous_active r s \<Longrightarrow> P"
    and "\<And>e. s (KJob (job_identity E r)) = None \<Longrightarrow> s (KIgnored (job_identity E r)) = None \<Longrightarrow>
      \<not> previous_active r s \<Longrightarrow> (case j_event r of Some _ \<Rightarrow>
        terminal_commands (r\<lparr>j_created := now\<rparr>) now | None \<Rightarrow> Inr []) = Inl e \<Longrightarrow> P"
    and "\<And>ms. s (KJob (job_identity E r)) = None \<Longrightarrow> s (KIgnored (job_identity E r)) = None \<Longrightarrow>
      \<not> previous_active r s \<Longrightarrow> (case j_event r of Some _ \<Rightarrow>
        terminal_commands (r\<lparr>j_created := now\<rparr>) now | None \<Rightarrow> Inr []) = Inr ms \<Longrightarrow> P"
  shows P
  using assms
  by (cases "case j_event r of Some _ \<Rightarrow> terminal_commands (r\<lparr>j_created := now\<rparr>) now
        | None \<Rightarrow> Inr []") blast+

lemma register_inv:
  assumes inv: "store_inv E s" and r: "fresh_job E r"
  shows "store_inv E (run_attempt (register E r now s) s)"
proof -
  let ?i = "job_identity E r" and ?r = "r\<lparr>j_created := now\<rparr>"
  show ?thesis
  proof (cases rule: register_cases[of s E r _ now])
    case closed
    from register_closed[OF this] inv show ?thesis by (simp add: run_attempt_def)
  next
    case raises
    from register_raises[OF this] inv show ?thesis by (simp add: run_attempt_def)
  next
    case busy
    from register_busy[OF this, of now] obtain ms where
      a: "attempt_cmds (register E r now s) = map (ZREMc KBatchQueue) ms @
            [SETc (KIgnored ?i) (VStr ''1''), DELc (KBatches ?i)]"
      by auto
    have "store_inv E (exec (attempt_cmds (register E r now s)) s)"
      by (rule inv_exec_filter)
        (simp add: a filter_drop_members inv_after_ignored[OF inv busy(1)])
    then show ?thesis by (simp add: run_attempt_def)
  next
    case (ok ms)
    from register_accepts[OF ok] obtain ds order where
      a: "attempt_cmds (register E r now s) = map (ZREMc KBatchQueue) ds @
            [SETc KSequence (VInt order), SETc (KJob ?i) (VJob ?r),
             SETc (KLatest (j_kind r) (j_trip r)) (VStr ?i), DELc (KBatches ?i),
             (if j_event r \<noteq> None then ZADDc KPending ?i now
              else ZADDc (KQueue (j_kind r)) ?i (of_int order))] @ ms"
      by auto
    have noise: "\<forall>c \<in> set ms. \<not> core_key (cmd_key c)"
      using ok(4) by (auto dest: terminal_commands_noise split: option.splits)
    have ev: "j_event r \<noteq> None \<longleftrightarrow> terminal (j_status r)"
      using r job_wf_event[of E ?i r] by (simp add: fresh_job_def)
    have free: "\<not> active s (j_kind r) (j_trip r) x" for x
    proof
      assume a: "active s (j_kind r) (j_trip r) x"
      with active_latest[OF inv a] ok(3) show False
        by (auto simp: active_def has_status_def previous_active_def)
    qed
    have "store_inv E (exec [SETc (KJob ?i) (VJob ?r),
            SETc (KLatest (j_kind ?r) (j_trip ?r)) (VStr ?i),
            if terminal (j_status ?r) then ZADDc KPending ?i now
            else ZADDc (KQueue (j_kind ?r)) ?i (of_int order)] s)"
    proof (rule inv_after_new[OF inv])
      show "job_wf E ?i ?r"
        using r ev by (auto simp: fresh_job_def job_wf_def job_identity_def event_of_def
            split: option.split)
    qed (use ok(1,2) r free get_job_no_key[of s ?i] in \<open>auto simp: fresh_job_def\<close>)
    moreover have "filter (\<lambda>c. core_key (cmd_key c)) (attempt_cmds (register E r now s)) =
        [SETc (KJob ?i) (VJob ?r), SETc (KLatest (j_kind ?r) (j_trip ?r)) (VStr ?i),
         if terminal (j_status ?r) then ZADDc KPending ?i now
         else ZADDc (KQueue (j_kind ?r)) ?i (of_int order)]"
      by (simp add: a filter_drop_members filter_noise[OF noise] ev[unfolded not_None_eq])
    ultimately have "store_inv E (exec (attempt_cmds (register E r now s)) s)"
      by (metis inv_exec_filter)
    then show ?thesis by (simp add: run_attempt_def)
  qed
qed

section \<open>Claiming an execution slot\<close>

text \<open>Under the invariant no slot is stale and no queue head is anything but \<open>QUEUED\<close>.\<close>

lemma no_stale_slots:
  assumes "store_inv E s"
  shows "stale_slots k s = []"
  unfolding stale_slots_def filter_empty_conv
proof
  fix key assume key: "key \<in> set (slot_keys k)"
  then obtain n where n: "key = KSlot k n" using slot_keys_are_slots by blast
  show "\<not> (case get_str s key of None \<Rightarrow> False
        | Some i \<Rightarrow> (case get_job s i of Some r \<Rightarrow> terminal (j_status r) | None \<Rightarrow> False))"
    using assms key n unfolding store_inv_def inv_slots_def has_status_def
    by (fastforce split: option.splits)
qed

lemma queue_head_queued:
  assumes "store_inv E s" "get_zset s (KQueue k) = (score, i) # z"
  shows "\<exists>r. get_job s i = Some r \<and> j_status r = QUEUED \<and> j_kind r = k"
proof -
  have "i \<in> zmembers (get_zset s (KQueue k))" using assms(2) by (simp add: zmembers_def)
  with assms(1) show ?thesis by (auto simp: store_inv_def inv_queue_def has_status_def)
qed

lemma claim_attempt_done:
  assumes inv: "store_inv E s"
  shows "\<exists>x cs. claim_attempt E k owner stop now s = Done x cs"
proof (cases "get_zset s (KQueue k)")
  case Nil
  then show ?thesis
    by (auto simp: claim_attempt_def no_stale_slots[OF inv] split: list.splits)
next
  case (Cons p z)
  obtain score i where p: "p = (score, i)" by (cases p)
  from queue_head_queued[OF inv] Cons p obtain r where "get_job s i = Some r" "j_status r = QUEUED"
    by blast
  with Cons p show ?thesis
    by (auto simp: claim_attempt_def no_stale_slots[OF inv] split: list.splits)
qed

lemma claim_success:
  assumes "claim_attempt E k owner stop now s = Done x cs" "cs \<noteq> []"
  shows "\<exists>slot r i score z. slot \<in> set (slot_keys k) \<and> get_str s slot = None \<and>
    length (occupied_slots k s) < claim_limit E k \<and> get_zset s (KQueue k) = (score, i) # z \<and>
    get_job s i = Some r \<and> j_status r = QUEUED \<and> \<not> stop \<and>
    x = Inr (Some (claimed_job r owner now, score)) \<and>
    cs = [ZREMc (KQueue k) i, SETc slot (VStr i), SETc (KJob i) (VJob (claimed_job r owner now)),
          ZADDc KRunning i
            (now + min (cfg_lease (env_cfg E)) (job_timeout (env_cfg E) (j_kind r)))]"
  using assms unfolding claim_attempt_def
  by (auto split: if_splits list.splits option.splits prod.splits dest!: filter_eq_ConsD)

lemma occupied_insert:
  assumes "KSlot k n \<in> set (slot_keys k)" "get_str s (KSlot k n) = None"
  shows "length (occupied_slots k (s(KSlot k n \<mapsto> VStr i))) = Suc (length (occupied_slots k s))"
    and "k' \<noteq> k \<Longrightarrow> occupied_slots k' (s(KSlot k n \<mapsto> VStr i)) = occupied_slots k' s"
proof -
  let ?t = "s(KSlot k n \<mapsto> VStr i)"
  have "set (occupied_slots k ?t) = insert (KSlot k n) (set (occupied_slots k s))"
    using assms by (auto simp: occupied_slots_def view_simps)
  moreover have "KSlot k n \<notin> set (occupied_slots k s)"
    using assms by (simp add: occupied_slots_def)
  moreover have "card (set (occupied_slots k u)) = length (occupied_slots k u)" for u
    by (rule distinct_card) (simp add: occupied_slots_def)
  ultimately show "length (occupied_slots k ?t) = Suc (length (occupied_slots k s))"
    by (metis card_insert_disjoint List.finite_set)
  show "occupied_slots k' ?t = occupied_slots k' s" if "k' \<noteq> k"
    unfolding occupied_slots_def
    by (rule filter_cong[OF refl]) (use that slot_keys_are_slots in \<open>fastforce simp: view_simps\<close>)
qed

lemma claimed_job_fields [simp]:
  "j_status (claimed_job r w t) = PROCESSING" "j_kind (claimed_job r w t) = j_kind r"
  "j_trip (claimed_job r w t) = j_trip r" "j_exec (claimed_job r w t) = j_exec r"
  "j_event (claimed_job r w t) = j_event r" "j_published (claimed_job r w t) = j_published r"
  "j_owner (claimed_job r w t) = Some w" "j_started (claimed_job r w t) = Some t"
  "j_heartbeat (claimed_job r w t) = Some t" "j_progress (claimed_job r w t) = j_progress r"
  "j_pub_owner (claimed_job r w t) = j_pub_owner r" "j_request (claimed_job r w t) = j_request r"
  "j_result_topic (claimed_job r w t) = j_result_topic r"
  by (simp_all add: claimed_job_def)

lemma claimed_job_wf: "job_wf E i r \<Longrightarrow> j_status r = QUEUED \<Longrightarrow> job_wf E i (claimed_job r w t)"
  using job_wf_event[of E i r] by (simp add: job_wf_def job_identity_def)

lemma inv_after_claim:
  assumes inv: "store_inv E s" and r: "get_job s i = Some r" "j_status r = QUEUED" "j_kind r = k"
    and slot: "KSlot k n \<in> set (slot_keys k)" "get_str s (KSlot k n) = None"
    and room: "length (occupied_slots k s) < claim_limit E k"
  shows "store_inv E (exec [ZREMc (KQueue k) i, SETc (KSlot k n) (VStr i),
           SETc (KJob i) (VJob (claimed_job r w t)), ZADDc KRunning i q] s)"
    (is "store_inv E ?s")
proof -
  have J: "get_job ?s x = (if x = i then Some (claimed_job r w t) else get_job s x)" for x
    by (simp add: view_simps)
  have S: "get_str ?s (KSlot k' m) = (if k' = k \<and> m = n then Some i else get_str s (KSlot k' m))"
    for k' m by (simp add: view_simps)
  have ns: "get_str s (KSlot k' m) \<noteq> Some i" if "KSlot k' m \<in> set (slot_keys k')" for k' m
    using that inv r unfolding store_inv_def inv_slots_def has_status_def by fastforce
  have "inv_jobs E ?s" "inv_zsets ?s" "inv_running ?s" "inv_ignored ?s"
    using inv r get_job_key[OF r(1)] claimed_job_wf[OF get_job_wf[OF inv r(1)] r(2)]
    by (auto simp: store_inv_def inv_defs view_simps)
  moreover have "inv_queue ?s" "inv_pending ?s"
    using inv r by (auto simp: store_inv_def inv_defs view_simps)
  moreover have "inv_slots ?s"
  proof -
    from inv have a: "\<And>k' m x. KSlot k' m \<in> set (slot_keys k') \<Longrightarrow> get_str s (KSlot k' m) = Some x
        \<Longrightarrow> has_status s x (\<lambda>j. j_status j = PROCESSING \<and> j_kind j = k')"
      and b: "\<And>x j. get_job s x = Some j \<Longrightarrow> j_status j = PROCESSING \<Longrightarrow>
        \<exists>m. KSlot (j_kind j) m \<in> set (slot_keys (j_kind j)) \<and> get_str s (KSlot (j_kind j) m) = Some x"
      and c: "\<And>k' m m' x. KSlot k' m \<in> set (slot_keys k') \<Longrightarrow> KSlot k' m' \<in> set (slot_keys k') \<Longrightarrow>
        get_str s (KSlot k' m) = Some x \<Longrightarrow> get_str s (KSlot k' m') = Some x \<Longrightarrow> m = m'"
      by (simp_all add: store_inv_def inv_slots_def) blast
    show ?thesis
      unfolding inv_slots_def has_status_def J S
    proof (intro conjI allI impI)
      fix k' m x
      assume "KSlot k' m \<in> set (slot_keys k') \<and>
        (if k' = k \<and> m = n then Some i else get_str s (KSlot k' m)) = Some x"
      then show "\<exists>j. (if x = i then Some (claimed_job r w t) else get_job s x) = Some j \<and>
          j_status j = PROCESSING \<and> j_kind j = k'"
        using a[of k' m x] ns[of k' m] r(3) by (auto simp: has_status_def split: if_splits)
    next
      fix x j
      assume h: "(if x = i then Some (claimed_job r w t) else get_job s x) = Some j \<and>
        j_status j = PROCESSING"
      show "\<exists>m. KSlot (j_kind j) m \<in> set (slot_keys (j_kind j)) \<and>
          (if j_kind j = k \<and> m = n then Some i else get_str s (KSlot (j_kind j) m)) = Some x"
      proof (cases "x = i")
        case True
        with h slot r(3) show ?thesis by (intro exI[of _ n]) auto
      next
        case False
        with h b[of x j] obtain m where "KSlot (j_kind j) m \<in> set (slot_keys (j_kind j))"
          "get_str s (KSlot (j_kind j) m) = Some x" by auto
        with slot(2) show ?thesis by (intro exI[of _ m]) auto
      qed
    next
      fix k' m m' x
      assume "KSlot k' m \<in> set (slot_keys k') \<and> KSlot k' m' \<in> set (slot_keys k') \<and>
        (if k' = k \<and> m = n then Some i else get_str s (KSlot k' m)) = Some x \<and>
        (if k' = k \<and> m' = n then Some i else get_str s (KSlot k' m')) = Some x"
      then show "m = m'"
        using c[of k' m m' x] ns[of k' m] ns[of k' m'] by (auto split: if_splits)
    qed
  qed
  moreover have "inv_limit E ?s"
  proof -
    let ?qs = "s(KQueue k \<mapsto> VZset (zrem i (get_zset s (KQueue k))))"
    have "get_str ?qs (KSlot k n) = None" using slot(2) by (simp add: view_simps)
    note o = occupied_insert[OF slot(1) this]
    show ?thesis
      unfolding inv_limit_def
    proof
      fix k'
      let ?u = "?qs(KSlot k n \<mapsto> VStr i)"
      have "occupied_slots k' ?s = occupied_slots k' ?u" by simp
      moreover have "length (occupied_slots k' ?u) \<le> claim_limit E k'"
      proof (cases "k' = k")
        case True
        with room o(1)[of i] show ?thesis by simp
      next
        case False
        with inv o(2)[of k' i] show ?thesis by (simp add: store_inv_def inv_limit_def)
      qed
      ultimately show "length (occupied_slots k' ?s) \<le> claim_limit E k'" by simp
    qed
  qed
  moreover have "inv_latest ?s"
    using inv r unfolding store_inv_def inv_latest_def has_status_def
    by (auto simp: view_simps) (metis option.inject)+
  ultimately show ?thesis by (simp add: store_inv_def)
qed

lemma claim_inv:
  assumes inv: "store_inv E s"
  shows "store_inv E (run_attempt (claim_attempt E k w stop now s) s)"
proof -
  from claim_attempt_done[OF inv] obtain x cs where a: "claim_attempt E k w stop now s = Done x cs"
    by blast
  show ?thesis
  proof (cases "cs = []")
    case True
    with a inv show ?thesis by (simp add: run_attempt_def)
  next
    case False
    from claim_success[OF a False] obtain slot r i score z where
      slot: "slot \<in> set (slot_keys k)" "get_str s slot = None"
      and c: "length (occupied_slots k s) < claim_limit E k" "get_zset s (KQueue k) = (score, i) # z"
      and r: "get_job s i = Some r" "j_status r = QUEUED"
      and cs: "cs = [ZREMc (KQueue k) i, SETc slot (VStr i), SETc (KJob i) (VJob (claimed_job r w now)),
          ZADDc KRunning i
            (now + min (cfg_lease (env_cfg E)) (job_timeout (env_cfg E) (j_kind r)))]" by blast
    obtain n where n: "slot = KSlot k n" using slot slot_keys_are_slots by blast
    have "j_kind r = k" using queue_head_queued[OF inv c(2)] r by simp
    from inv_after_claim[OF inv r this slot[unfolded n] c(1)] a cs n show ?thesis
      by (simp add: run_attempt_def)
  qed
qed

section \<open>Publication and the photo operations\<close>

lemma acknowledge_inv:
  assumes inv: "store_inv E s"
  shows "store_inv E (run_attempt (acknowledge_attempt i publisher s) s)"
proof (cases "\<exists>r. get_job s i = Some r \<and> j_pub_owner r = Some publisher")
  case False
  then have "attempt_cmds (acknowledge_attempt i publisher s) = []"
    by (auto simp: acknowledge_attempt_def split: option.splits)
  with inv show ?thesis by (simp add: run_attempt_def)
next
  case True
  then obtain r where r: "get_job s i = Some r" "j_pub_owner r = Some publisher" by blast
  have tm: "terminal (j_status r)"
    using get_job_wf[OF inv r(1)] r(2) by (simp add: job_wf_def)
  let ?s = "s(KJob i \<mapsto> VJob (r\<lparr>j_published := True\<rparr>), KPending \<mapsto> VZset (zrem i (get_zset s KPending)))"
  have wf: "job_wf E i (r\<lparr>j_published := True\<rparr>)"
    using get_job_wf[OF inv r(1)] tm
    by (simp add: job_wf_def job_identity_def event_of_def split: option.splits)
  have "inv_jobs E ?s" "inv_zsets ?s" "inv_running ?s" "inv_ignored ?s" "inv_queue ?s"
    "inv_pending ?s" "inv_limit E ?s"
    using inv r tm wf get_job_key[OF r(1)]
    by (auto simp: store_inv_def inv_defs view_simps)
  moreover have "inv_latest ?s"
    using inv r tm unfolding store_inv_def inv_latest_def has_status_def
    by (auto simp: view_simps) (metis option.inject)+
  moreover have "inv_slots ?s"
    using inv r tm unfolding store_inv_def inv_slots_def has_status_def
    by (auto simp: view_simps) (metis option.inject terminal_simps(5))+
  ultimately have "store_inv E ?s" by (simp add: store_inv_def)
  with r show ?thesis by (simp add: acknowledge_attempt_def run_attempt_def view_simps)
qed

lemma stage_noise: "\<forall>c \<in> set (attempt_cmds (stage_photos E m topic now s)). \<not> core_key (cmd_key c)"
  by (auto simp: stage_photos_def Let_def split: option.splits)

lemma stage_inv: "store_inv E s \<Longrightarrow> store_inv E (run_attempt (stage_photos E m topic now s) s)"
  unfolding run_attempt_def using core_eq_noise[OF stage_noise] store_inv_core_eq by blast

lemma claim_batch_core: "core_eq (snd (claim_batch_loop z s)) s"
proof (induction z arbitrary: s)
  case (Cons p rest)
  obtain sc mem where p: "p = (sc, mem)" by (cases p)
  let ?t = "s(KBatchQueue \<mapsto> VZset rest)"
  have 1: "core_eq ?t s" by (rule core_eq_upd) simp
  have "snd (claim_batch_loop (p # rest) s) \<in> {?t, snd (claim_batch_loop rest ?t)}"
    by (simp add: p Let_def split: option.split)
  moreover note 1 core_eq_trans[OF Cons[of ?t] 1]
  ultimately show ?case by (elim insertE emptyE; simp del: fun_upd_apply)
qed simp

lemma claim_batch_inv: "store_inv E s \<Longrightarrow> store_inv E (snd (claim_batch s))"
  unfolding claim_batch_def using claim_batch_core store_inv_core_eq by blast

lemma save_metrics_inv: "store_inv E s \<Longrightarrow> store_inv E (save_photo_metrics recs s)"
  unfolding save_photo_metrics_def
  by (rule store_inv_core_eq[OF core_eq_noise]) auto

lemma recover_from_inv: "store_inv E s \<Longrightarrow> store_inv E (recover_from E is ts s)"
  by (induction E "is" ts s rule: recover_from.induct) (auto intro: recover_upd.change_inv)

lemma recover_inv: "store_inv E s \<Longrightarrow> store_inv E (recover E now clock s)"
  unfolding recover_def by (rule recover_from_inv)

end
