(* ===== verification/StoreAtomic.thy ===== *)
theory StoreAtomic
  imports StoreCommits
begin

text \<open>
  Concurrency of the store.  Every \<open>WATCH\<close> pass is an instance of \<open>watched_txn\<close>: the keys it
  watches are the keys its read phase looks at, so a pass that commits behaves as if it ran
  alone at the moment of \<open>EXEC\<close>.  \<open>store_step\<close> is one commit of some client whose reads may
  be arbitrarily old; \<open>reachable\<close> are the databases such interleavings lead to.
\<close>

section \<open>The keys a read phase looks at\<close>

lemma get_str_cong: "s k = (t :: redis) k \<Longrightarrow> get_str s k = get_str t k"
  by (simp add: get_str_def)

lemma get_job_cong: "s (KJob i) = (t :: redis) (KJob i) \<Longrightarrow> get_job s i = get_job t i"
  by (simp add: get_job_def)

lemma get_zset_cong: "s k = (t :: redis) k \<Longrightarrow> get_zset s k = get_zset t k"
  by (simp add: get_zset_def)

lemma agree_filter:
  assumes "agree ks s t"
  shows "filter (\<lambda>k. P (get_str s k)) ks = filter (\<lambda>k. P (get_str t k)) ks"
proof (rule filter_cong[OF refl])
  fix k assume "k \<in> set ks"
  with assms have "get_str s k = get_str t k" by (intro get_str_cong) (simp add: agree_def)
  then show "P (get_str s k) = P (get_str t k)" by simp
qed

interpretation register_txn: watched_txn "register_watch E r" "register E r now" for E r now
proof
  fix s s' :: redis
  let ?i = "job_identity E r" and ?lk = "KLatest (j_kind r) (j_trip r)"
  assume a: "agree (register_watch E r s) s s'"
  then have b: "s (KJob ?i) = s' (KJob ?i)" "s (KIgnored ?i) = s' (KIgnored ?i)" "s ?lk = s' ?lk"
    "s KSequence = s' KSequence" "s (KBatches ?i) = s' (KBatches ?i)"
    by (simp_all add: register_watch_def Let_def)
  have lk: "get_str s ?lk = get_str s' ?lk" by (rule get_str_cong) (rule b(3))
  have p: "(case get_str s ?lk of Some p \<Rightarrow> get_job s p | None \<Rightarrow> None) =
        (case get_str s' ?lk of Some p \<Rightarrow> get_job s' p | None \<Rightarrow> None)"
  proof (cases "get_str s ?lk")
    case None
    with lk show ?thesis by simp
  next
    case (Some p)
    with a have "s (KJob p) = s' (KJob p)" by (simp add: register_watch_def Let_def)
    from get_job_cong[of s p s', OF this] Some lk show ?thesis by simp
  qed
  have v: "key_exists s (KJob ?i) = key_exists s' (KJob ?i)"
    "key_exists s (KIgnored ?i) = key_exists s' (KIgnored ?i)"
    "get_int s KSequence = get_int s' KSequence" "get_buffer s ?i = get_buffer s' ?i"
    using b by (simp_all add: key_exists_def get_int_def get_buffer_def)
  show "register E r now s' = register E r now s"
    unfolding register_def Let_def p v ..
qed

interpretation stage_txn: watched_txn "stage_watch E m" "stage_photos E m topic now" for E m topic now
proof
  fix s s' :: redis
  let ?i = "photos_ready_identity E m"
  assume "agree (stage_watch E m s) s s'"
  then have b: "s (KBatches ?i) = s' (KBatches ?i)" "s (KJob ?i) = s' (KJob ?i)"
    "s (KIgnored ?i) = s' (KIgnored ?i)"
    by (simp_all add: stage_watch_def Let_def)
  then have v: "key_exists s (KJob ?i) = key_exists s' (KJob ?i)"
    "key_exists s (KIgnored ?i) = key_exists s' (KIgnored ?i)" "get_buffer s ?i = get_buffer s' ?i"
    by (simp_all add: key_exists_def get_buffer_def)
  show "stage_photos E m topic now s' = stage_photos E m topic now s"
    unfolding stage_photos_def Let_def v ..
qed

interpretation change_txn: watched_txn "change_watch i upd now" "change_attempt E i upd score now"
  for E i upd score now
proof
  fix s s' :: redis
  assume a: "agree (change_watch i upd now s) s s'"
  then have j: "get_job s i = get_job s' i"
    by (intro get_job_cong) (simp add: change_watch_def)
  show "change_attempt E i upd score now s' = change_attempt E i upd score now s"
  proof (cases "get_job s i")
    case None
    with j show ?thesis by (simp add: change_attempt_def)
  next
    case (Some r)
    show ?thesis
    proof (cases "\<exists>r'. upd r now = Inr (Some r')")
      case False
      with Some j show ?thesis
        by (auto simp: change_attempt_def split: sum.splits option.splits)
    next
      case True
      then obtain r' where u: "upd r now = Inr (Some r')" by blast
      with a Some have "agree (slot_keys (j_kind r')) s s'" by (simp add: change_watch_def)
      note f = agree_filter[OF this, of "\<lambda>x. x = Some i"]
      then have "change_commands E i (j_status r) r' score now s' =
                 change_commands E i (j_status r) r' score now s"
        unfolding change_commands_def Let_def by (simp split: option.split)
      with Some j u show ?thesis by (simp add: change_attempt_def)
    qed
  qed
qed

interpretation acknowledge_txn: watched_txn "\<lambda>s. [KJob i]" "acknowledge_attempt i publisher"
  for i publisher
proof
  fix s s' :: redis
  assume "agree [KJob i] s s'"
  then have "get_job s i = get_job s' i" by (intro get_job_cong) simp
  then show "acknowledge_attempt i publisher s' = acknowledge_attempt i publisher s"
    by (simp add: acknowledge_attempt_def)
qed

interpretation claim_txn: watched_txn "claim_watch k" "claim_attempt E k w stop now"
  for E k w stop now
proof
  fix s s' :: redis
  assume a: "agree (claim_watch k s) s s'"
  then have q: "get_zset s (KQueue k) = get_zset s' (KQueue k)" and sl: "agree (slot_keys k) s s'"
    by (auto simp: claim_watch_def intro: get_zset_cong)
  have occ: "get_job s i = get_job s' i" if "key \<in> set (slot_keys k)" "get_str s key = Some i" for key i
    by (rule get_job_cong) (use a that in \<open>fastforce simp: claim_watch_def agree_def\<close>)
  have hd: "get_job s i = get_job s' i" if "get_zset s (KQueue k) = (score, i) # z" for score i z
    by (rule get_job_cong) (use a that in \<open>simp add: claim_watch_def\<close>)
  have st: "stale_slots k s' = stale_slots k s"
    unfolding stale_slots_def
  proof (rule filter_cong[OF refl])
    fix key assume k: "key \<in> set (slot_keys k)"
    with sl have e: "get_str s key = get_str s' key"
      by (intro get_str_cong) (simp add: agree_def)
    show "(case get_str s' key of None \<Rightarrow> False
          | Some i \<Rightarrow> (case get_job s' i of Some r \<Rightarrow> terminal (j_status r) | None \<Rightarrow> False)) =
          (case get_str s key of None \<Rightarrow> False
          | Some i \<Rightarrow> (case get_job s i of Some r \<Rightarrow> terminal (j_status r) | None \<Rightarrow> False))"
      using occ[OF k] unfolding e by (auto split: option.split)
  qed
  have oc: "occupied_slots k s' = occupied_slots k s"
    unfolding occupied_slots_def
    using agree_filter[OF sl, of "\<lambda>x. x \<noteq> None"] by simp
  have fr: "filter (\<lambda>key. get_str s' key = None) (slot_keys k) =
            filter (\<lambda>key. get_str s key = None) (slot_keys k)"
    using agree_filter[OF sl, of "\<lambda>x. x = None"] by simp
  show "claim_attempt E k w stop now s' = claim_attempt E k w stop now s"
    unfolding claim_attempt_def st oc fr q[symmetric]
    using hd by (auto split: list.split)
qed

interpretation count_txn: watched_txn "\<lambda>s. [KInvalid h]" "count_invalid h" for h
  by unfold_locales (simp add: count_invalid_def get_int_def)

section \<open>Operations, interleavings, reachable databases\<close>

datatype store_op =
  OpRegister job rat
| OpClaim job_kind string bool rat
| OpChange_heartbeat string string rat
| OpChange_progress string string string int int rat
| OpChange_finish string string task_status "json option" "error_body option" rat
| OpChange_cancel string rat
| OpChange_return string string rat rat
| OpChange_recover string rat
| OpChange_claim_result string string rat
| OpAcknowledge string string
| OpStage photos_ready string rat
| OpClaimBatch
| OpSaveMetrics "(int, photo_metrics_record) pydict"
| OpExpire rkey
| OpCount string
| OpMetrics "rcmd list"

text \<open>Which calls the service makes: registered records are fresh, \<open>finish\<close> gets a terminal
  status, staged messages passed their validation.  Keys written with \<open>ex=\<close> (photo batches,
  photo metrics, counters of invalid messages) may expire at any time: Redis deletes them.  The last two
  are the writes of the receiver's counter and of the metrics.\<close>

fun op_ok :: "jobs_env \<Rightarrow> store_op \<Rightarrow> bool" where
  "op_ok E (OpRegister r now) = fresh_job E r"
| "op_ok E (OpChange_finish i w st res err now) = terminal st"
| "op_ok E (OpStage m topic now) = valid_photos_ready m"
| "op_ok E (OpExpire key) = (case key of KBatches i \<Rightarrow> True | KPhoto p \<Rightarrow> True | KInvalid h \<Rightarrow> True | _ \<Rightarrow> False)"
| "op_ok E (OpMetrics cs) = list_all (metrics_key \<circ> cmd_key) cs"
| "op_ok E _ = True"

text \<open>One pass with its outcome forgotten.  The two operations without \<open>WATCH\<close> are single
  Redis commands: they read nothing they would have to protect.\<close>

fun op_pass :: "jobs_env \<Rightarrow> store_op \<Rightarrow> redis \<Rightarrow> rcmd list" where
  "op_pass E (OpRegister r now) s = attempt_cmds (register E r now s)"
| "op_pass E (OpClaim k w stop now) s = attempt_cmds (claim_attempt E k w stop now s)"
| "op_pass E (OpChange_heartbeat i w now) s =
     attempt_cmds (change_attempt E i (heartbeat_update E w) None now s)"
| "op_pass E (OpChange_progress i w step dn tot now) s =
     attempt_cmds (change_attempt E i (progress_update E w step dn tot) None now s)"
| "op_pass E (OpChange_finish i w st res err now) s =
     attempt_cmds (change_attempt E i (finish_update E w st res err) None now s)"
| "op_pass E (OpChange_cancel i now) s = attempt_cmds (change_attempt E i (cancel_update E) None now s)"
| "op_pass E (OpChange_return i w q now) s =
     attempt_cmds (change_attempt E i (return_update E w) (Some q) now s)"
| "op_pass E (OpChange_recover i now) s =
     attempt_cmds (change_attempt E i (recover_update E) None now s)"
| "op_pass E (OpChange_claim_result i p now) s =
     attempt_cmds (change_attempt E i (claim_result_update E p) None now s)"
| "op_pass E (OpAcknowledge i p) s = attempt_cmds (acknowledge_attempt i p s)"
| "op_pass E (OpStage m topic now) s = attempt_cmds (stage_photos E m topic now s)"
| "op_pass E OpClaimBatch s = []"
| "op_pass E (OpSaveMetrics recs) s = map (\<lambda>(p, m). SETc (KPhoto p) (VMetrics m)) recs"
| "op_pass E (OpExpire key) s = [DELc key]"
| "op_pass E (OpCount h) s = attempt_cmds (count_invalid h s)"
| "op_pass E (OpMetrics cs) s = cs"

fun op_watch :: "jobs_env \<Rightarrow> store_op \<Rightarrow> redis \<Rightarrow> rkey list" where
  "op_watch E (OpRegister r now) s = register_watch E r s"
| "op_watch E (OpClaim k w stop now) s = claim_watch k s"
| "op_watch E (OpChange_heartbeat i w now) s = change_watch i (heartbeat_update E w) now s"
| "op_watch E (OpChange_progress i w step dn tot now) s =
     change_watch i (progress_update E w step dn tot) now s"
| "op_watch E (OpChange_finish i w st res err now) s =
     change_watch i (finish_update E w st res err) now s"
| "op_watch E (OpChange_cancel i now) s = change_watch i (cancel_update E) now s"
| "op_watch E (OpChange_return i w q now) s = change_watch i (return_update E w) now s"
| "op_watch E (OpChange_recover i now) s = change_watch i (recover_update E) now s"
| "op_watch E (OpChange_claim_result i p now) s = change_watch i (claim_result_update E p) now s"
| "op_watch E (OpAcknowledge i p) s = [KJob i]"
| "op_watch E (OpStage m topic now) s = stage_watch E m s"
| "op_watch E OpClaimBatch s = []"
| "op_watch E (OpSaveMetrics recs) s = []"
| "op_watch E (OpExpire key) s = []"
| "op_watch E (OpCount h) s = [KInvalid h]"
| "op_watch E (OpMetrics cs) s = []"

fun op_run :: "jobs_env \<Rightarrow> store_op \<Rightarrow> redis \<Rightarrow> redis" where
  "op_run E OpClaimBatch s = snd (claim_batch s)"
| "op_run E op s = exec (op_pass E op s) s"

lemma op_run_pass: "op \<noteq> OpClaimBatch \<Longrightarrow> op_run E op s = exec (op_pass E op s) s"
  by (cases op) simp_all

lemma op_pass_covered:
  assumes "agree (op_watch E op s) s s'"
  shows "op_pass E op s' = op_pass E op s"
proof (cases op)
  case (OpRegister r now)
  with assms show ?thesis by (simp, intro arg_cong[of _ _ attempt_cmds] register_txn.covers)
next
  case (OpClaim k w stop now)
  with assms show ?thesis by (simp, intro arg_cong[of _ _ attempt_cmds] claim_txn.covers)
next
  case (OpChange_heartbeat i w now)
  with assms show ?thesis by (simp, intro arg_cong[of _ _ attempt_cmds] change_txn.covers)
next
  case (OpChange_progress i w step dn tot now)
  with assms show ?thesis by (simp, intro arg_cong[of _ _ attempt_cmds] change_txn.covers)
next
  case (OpChange_finish i w st res err now)
  with assms show ?thesis by (simp, intro arg_cong[of _ _ attempt_cmds] change_txn.covers)
next
  case (OpChange_cancel i now)
  with assms show ?thesis by (simp, intro arg_cong[of _ _ attempt_cmds] change_txn.covers)
next
  case (OpChange_return i w q now)
  with assms show ?thesis by (simp, intro arg_cong[of _ _ attempt_cmds] change_txn.covers)
next
  case (OpChange_recover i now)
  with assms show ?thesis by (simp, intro arg_cong[of _ _ attempt_cmds] change_txn.covers)
next
  case (OpChange_claim_result i p now)
  with assms show ?thesis by (simp, intro arg_cong[of _ _ attempt_cmds] change_txn.covers)
next
  case (OpAcknowledge i p)
  with assms show ?thesis
    by (simp, intro arg_cong[of _ _ attempt_cmds] acknowledge_txn.covers, simp)
next
  case (OpStage m topic now)
  with assms show ?thesis by (simp, intro arg_cong[of _ _ attempt_cmds] stage_txn.covers)
next
  case (OpCount h)
  with assms show ?thesis by (simp, intro arg_cong[of _ _ attempt_cmds] count_txn.covers, simp)
qed simp_all

text \<open>A client read \<open>s0\<close> some time ago; its \<open>EXEC\<close> arrives when the database is \<open>s\<close>.\<close>

inductive store_step :: "jobs_env \<Rightarrow> store_op \<Rightarrow> redis \<Rightarrow> redis \<Rightarrow> bool" for E where
  commit: "op_ok E op \<Longrightarrow> op \<noteq> OpClaimBatch \<Longrightarrow> agree (op_watch E op s0) s0 s \<Longrightarrow>
     store_step E op s (exec (op_pass E op s0) s)"
| pop: "store_step E OpClaimBatch s (snd (claim_batch s))"

inductive_cases store_step_cases: "store_step E op s t"

lemma store_step_run: "store_step E op s t \<Longrightarrow> op_ok E op \<and> t = op_run E op s"
  by (induction rule: store_step.induct) (auto simp: op_run_pass op_pass_covered)

inductive reachable :: "jobs_env \<Rightarrow> redis \<Rightarrow> bool" for E where
  start: "reachable E Map.empty"
| step: "reachable E s \<Longrightarrow> store_step E op s t \<Longrightarrow> reachable E t"

lemma metrics_not_core: "metrics_key k \<Longrightarrow> \<not> core_key k"
  by (cases k) simp_all

lemma op_run_inv:
  assumes "store_inv E s" "op_ok E op"
  shows "store_inv E (op_run E op s)"
proof (cases op)
  case (OpRegister r now)
  with assms register_inv[of E s r now] show ?thesis by (simp add: run_attempt_def)
next
  case (OpClaim k w stop now)
  with assms claim_inv[of E s k w stop now] show ?thesis by (simp add: run_attempt_def)
next
  case (OpChange_heartbeat i w now)
  with assms heartbeat_upd.change_inv[of E s None i w now] show ?thesis by (simp add: run_attempt_def)
next
  case (OpChange_progress i w step dn tot now)
  with assms progress_upd.change_inv[of E s None i w step dn tot now] show ?thesis
    by (simp add: run_attempt_def)
next
  case (OpChange_finish i w st res err now)
  with assms(2) have "job_update E (finish_update E w st res err) False"
    by (simp add: finish_upd_contract)
  from job_update.change_inv[OF this assms(1), of None i now] OpChange_finish show ?thesis
    by (simp add: run_attempt_def)
next
  case (OpChange_cancel i now)
  with assms cancel_upd.change_inv[of E s None i now] show ?thesis by (simp add: run_attempt_def)
next
  case (OpChange_return i w q now)
  with assms return_upd.change_inv[of E s "Some q" i w now] show ?thesis by (simp add: run_attempt_def)
next
  case (OpChange_recover i now)
  with assms recover_upd.change_inv[of E s None i now] show ?thesis by (simp add: run_attempt_def)
next
  case (OpChange_claim_result i p now)
  with assms claim_result_upd.change_inv[of E s None i p now] show ?thesis
    by (simp add: run_attempt_def)
next
  case (OpAcknowledge i p)
  with assms acknowledge_inv[of E s i p] show ?thesis by (simp add: run_attempt_def)
next
  case (OpStage m topic now)
  with assms stage_inv[of E s m topic now] show ?thesis by (simp add: run_attempt_def)
next
  case OpClaimBatch
  with assms claim_batch_inv[of E s] show ?thesis by simp
next
  case (OpSaveMetrics recs)
  with assms save_metrics_inv[of E s recs] show ?thesis by (simp add: save_photo_metrics_def)
next
  case (OpExpire key)
  with assms(2) have "\<not> core_key key" by (cases key) simp_all
  from store_inv_core_eq[OF core_eq_upd[OF this] assms(1)] OpExpire show ?thesis by simp
next
  case (OpCount h)
  have "\<forall>c \<in> set (attempt_cmds (count_invalid h s)). \<not> core_key (cmd_key c)" by (simp add: count_invalid_def Let_def)
  from store_inv_core_eq[OF core_eq_noise[OF this] assms(1)] OpCount show ?thesis by simp
next
  case (OpMetrics cs)
  with assms(2) have "\<forall>c \<in> set cs. \<not> core_key (cmd_key c)" by (auto simp: list_all_iff dest!: metrics_not_core)
  from store_inv_core_eq[OF core_eq_noise[OF this] assms(1)] OpMetrics show ?thesis by simp
qed

lemma reachable_inv: "reachable E s \<Longrightarrow> store_inv E s"
proof (induction rule: reachable.induct)
  case start
  show ?case by (rule store_inv_empty)
next
  case (step s op t)
  with store_step_run op_run_inv show ?case by blast
qed

section \<open>How a record evolves\<close>

definition stays :: "job \<Rightarrow> job \<Rightarrow> bool" where
  "stays j j' \<longleftrightarrow>
     j_kind j' = j_kind j \<and> j_trip j' = j_trip j \<and> j_exec j' = j_exec j \<and>
     j_request j' = j_request j \<and> j_result_topic j' = j_result_topic j \<and>
     (terminal (j_status j) \<longrightarrow> j_status j' = j_status j \<and> j_event j' = j_event j) \<and>
     j_published j' = j_published j"

definition evolves :: "job \<Rightarrow> job \<Rightarrow> bool" where
  "evolves j j' \<longleftrightarrow>
     j_kind j' = j_kind j \<and> j_trip j' = j_trip j \<and> j_exec j' = j_exec j \<and>
     j_request j' = j_request j \<and> j_result_topic j' = j_result_topic j \<and>
     (terminal (j_status j) \<longrightarrow> j_status j' = j_status j \<and> j_event j' = j_event j) \<and>
     (j_published j \<longrightarrow> j_published j')"

lemma stays_refl [simp]: "stays j j"
  by (simp add: stays_def)

lemma stays_evolves: "stays j j' \<Longrightarrow> evolves j j'"
  by (simp add: stays_def evolves_def)

lemma evolves_refl [simp]: "evolves j j"
  by (simp add: evolves_def)

lemma evolves_trans: "evolves a b \<Longrightarrow> evolves b c \<Longrightarrow> evolves a c"
  by (simp add: evolves_def)

lemma get_job_exec_other: "KJob i \<notin> cmd_key ` set cs \<Longrightarrow> get_job (exec cs s) i = get_job s i"
  by (rule get_job_cong) (rule exec_other)

lemma KJob_not_slot [simp]: "KJob x \<notin> set (slot_keys k)"
  using slot_keys_are_slots by blast

lemma KJob_not_stale [simp]: "KJob x \<notin> set (stale_slots k s)"
  by (simp add: stale_slots_def)

fun job_key :: "rkey \<Rightarrow> bool" where
  "job_key (KJob i) = True"
| "job_key _ = False"

lemma slot_not_job: "key \<in> set (slot_keys k) \<Longrightarrow> \<not> job_key key"
  using slot_keys_are_slots by fastforce

lemma terminal_commands_not_job:
  "terminal_commands r now = Inr ms \<Longrightarrow> c \<in> set ms \<Longrightarrow> \<not> job_key (cmd_key c)"
  using terminal_commands_keys by fastforce

lemma change_commands_shape:
  assumes c: "change_commands E i old r' score now s = Inr cs"
  shows "\<exists>ds. cs = SETc (KJob i) (VJob r') # ds \<and> (\<forall>c \<in> set ds. \<not> job_key (cmd_key c))"
proof (cases "terminal (j_status r')")
  case True
  with c obtain ms where "(if terminal old then Inr [] else terminal_commands r' now) = Inr ms"
    "cs = SETc (KJob i) (VJob r') # ms @ tl (finish_cmds E i r' now s)"
    by (auto simp: change_commands_def Let_def finish_cmds_def)
  then show ?thesis
    by (auto simp: finish_cmds_def dest: terminal_commands_not_job slot_not_job split: if_splits)
next
  case False
  with c show ?thesis
    by (auto simp: change_commands_def Let_def dest: slot_not_job split: if_splits option.splits)
qed

lemma not_job_keys: "\<forall>c \<in> set ds. \<not> job_key (cmd_key c) \<Longrightarrow> KJob x \<notin> cmd_key ` set ds"
  by (metis imageE job_key.simps(1))

lemma get_job_after_change:
  "change_commands E i old r' score now s = Inr cs \<Longrightarrow>
   get_job (exec cs s) x = (if x = i then Some r' else get_job s x)"
  by (auto dest!: change_commands_shape simp: get_job_exec_other[OF not_job_keys] view_simps)

context job_update begin

lemma change_stays:
  assumes "get_job s x = Some j"
  shows "\<exists>j'. get_job (exec (attempt_cmds (change_attempt E i upd score now s)) s) x = Some j' \<and>
    stays j j'"
proof (cases "attempt_cmds (change_attempt E i upd score now s) = []")
  case True
  with assms show ?thesis by simp
next
  case False
  then obtain y cs where a: "change_attempt E i upd score now s = Done y cs" "cs \<noteq> []"
    by (auto simp: change_attempt_def split: option.splits sum.splits)
  from change_core[OF this] obtain r r' where r: "get_job s i = Some r"
    and u: "upd r now = Inr (Some r')"
    and c: "change_commands E i (j_status r) r' score now s = Inr cs" by blast
  have "stays r r'"
    using keeps_id[OF u] keeps_end[OF u] by (simp add: stays_def)
  with get_job_after_change[OF c] assms r a(1) show ?thesis by auto
qed

end

lemma claim_stays:
  assumes "get_job s x = Some j"
  shows "\<exists>j'. get_job (exec (attempt_cmds (claim_attempt E k w stop now s)) s) x = Some j' \<and>
    stays j j'"
proof (cases "\<exists>o' cs. claim_attempt E k w stop now s = Done o' cs \<and> cs \<noteq> []")
  case True
  then obtain o' cs where "claim_attempt E k w stop now s = Done o' cs" "cs \<noteq> []" by blast
  from claim_success[OF this] this obtain slot r i q where
    "slot \<in> set (slot_keys k)" "get_job s i = Some r" "j_status r = QUEUED"
    "attempt_cmds (claim_attempt E k w stop now s) = [ZREMc (KQueue k) i, SETc slot (VStr i),
       SETc (KJob i) (VJob (claimed_job r w now)), ZADDc KRunning i q]" by auto
  with assms show ?thesis
    by (auto simp: view_simps stays_def dest!: slot_keys_are_slots)
next
  case False
  have "KJob x \<notin> cmd_key ` set (attempt_cmds (claim_attempt E k w stop now s))"
    using False unfolding claim_attempt_def
    by (auto split: if_splits list.splits option.splits prod.splits)
  with assms show ?thesis by (simp add: get_job_exec_other)
qed

lemma register_stays:
  assumes "get_job s x = Some j"
  shows "get_job (exec (attempt_cmds (register E r now s)) s) x = Some j"
proof (cases "x = job_identity E r")
  case True
  with assms get_job_key[of s x j] have "s (KJob (job_identity E r)) \<noteq> None" by simp
  then have "register E r now s = Done (Inr Duplicate) []" by (intro register_closed disjI1)
  with assms show ?thesis by simp
next
  case False
  have "KJob x \<notin> cmd_key ` set (attempt_cmds (register E r now s))"
  proof (cases rule: register_cases[of s E r _ now])
    case (ok ms)
    then have "\<forall>c \<in> set ms. \<not> job_key (cmd_key c)"
      using terminal_commands_not_job by (cases "j_event r") fastforce+
    note n = not_job_keys[OF this, of x]
    from register_accepts[OF ok] obtain ds order where
      "attempt_cmds (register E r now s) = map (ZREMc KBatchQueue) ds @
         [SETc KSequence (VInt order), SETc (KJob (job_identity E r)) (VJob (r\<lparr>j_created := now\<rparr>)),
          SETc (KLatest (j_kind r) (j_trip r)) (VStr (job_identity E r)),
          DELc (KBatches (job_identity E r)),
          (if j_event r \<noteq> None then ZADDc KPending (job_identity E r) now
           else ZADDc (KQueue (j_kind r)) (job_identity E r) (of_int order))] @ ms"
      by auto
    with n False show ?thesis by (simp add: image_Un image_image) (simp add: image_iff)
  next
    case closed
    from register_closed[OF this] show ?thesis by simp
  next
    case busy
    from register_busy[OF this, of now] show ?thesis by auto
  next
    case raises
    from register_raises[OF this] show ?thesis by simp
  qed
  with assms show ?thesis by (simp add: get_job_exec_other)
qed

lemma stays_noise:
  assumes "\<forall>c \<in> set cs. \<not> core_key (cmd_key c)" "get_job s x = Some j"
  shows "\<exists>j'. get_job (exec cs s) x = Some j' \<and> stays j j'"
  using core_eq_views(1)[OF core_eq_noise[OF assms(1), of s], of x] assms(2) by simp

lemma acknowledge_evolves:
  assumes "get_job s x = Some j"
  shows "\<exists>j'. get_job (exec (attempt_cmds (acknowledge_attempt i p s)) s) x = Some j' \<and> evolves j j'"
  using assms by (auto simp: acknowledge_attempt_def view_simps evolves_def split: option.split)

lemma op_run_stays:
  assumes ok: "op_ok E op" and j: "get_job s x = Some j"
    and no_ack: "\<And>i p. op \<noteq> OpAcknowledge i p"
  shows "\<exists>j'. get_job (op_run E op s) x = Some j' \<and> stays j j'"
proof (cases op)
  case (OpRegister r now)
  with register_stays[OF j] show ?thesis by simp
next
  case (OpClaim k w stop now)
  with claim_stays[OF j] show ?thesis by simp
next
  case (OpChange_heartbeat i w now)
  with heartbeat_upd.change_stays[OF j] show ?thesis by simp
next
  case (OpChange_progress i w step dn tot now)
  with progress_upd.change_stays[OF j] show ?thesis by simp
next
  case (OpChange_finish i w st res err now)
  with ok have "job_update E (finish_update E w st res err) False" by (simp add: finish_upd_contract)
  from job_update.change_stays[OF this j] OpChange_finish show ?thesis by simp
next
  case (OpChange_cancel i now)
  with cancel_upd.change_stays[OF j] show ?thesis by simp
next
  case (OpChange_return i w q now)
  with return_upd.change_stays[OF j] show ?thesis by simp
next
  case (OpChange_recover i now)
  with recover_upd.change_stays[OF j] show ?thesis by simp
next
  case (OpChange_claim_result i p now)
  with claim_result_upd.change_stays[OF j] show ?thesis by simp
next
  case (OpAcknowledge i p)
  with no_ack[of i p] show ?thesis by simp
next
  case (OpStage m topic now)
  with stays_noise[OF stage_noise j] show ?thesis by simp
next
  case OpClaimBatch
  with core_eq_views(1)[OF claim_batch_core, of "get_zset s KBatchQueue" s x] j show ?thesis
    by (simp add: claim_batch_def)
next
  case (OpSaveMetrics recs)
  have "\<forall>c \<in> set (map (\<lambda>(p, m). SETc (KPhoto p) (VMetrics m)) recs). \<not> core_key (cmd_key c)" by auto
  from stays_noise[OF this j] OpSaveMetrics show ?thesis by simp
next
  case (OpExpire key)
  with ok have "\<forall>c \<in> set [DELc key]. \<not> core_key (cmd_key c)" by (cases key) simp_all
  from stays_noise[OF this j] OpExpire show ?thesis by simp
next
  case (OpCount h)
  have "\<forall>c \<in> set (attempt_cmds (count_invalid h s)). \<not> core_key (cmd_key c)" by (simp add: count_invalid_def Let_def)
  from stays_noise[OF this j] OpCount show ?thesis by simp
next
  case (OpMetrics cs)
  with ok have "\<forall>c \<in> set cs. \<not> core_key (cmd_key c)" by (auto simp: list_all_iff dest!: metrics_not_core)
  from stays_noise[OF this j] OpMetrics show ?thesis by simp
qed

lemma op_run_evolves:
  assumes ok: "op_ok E op" and j: "get_job s x = Some j"
  shows "\<exists>j'. get_job (op_run E op s) x = Some j' \<and> evolves j j'"
proof (cases "\<exists>i p. op = OpAcknowledge i p")
  case True
  with acknowledge_evolves[OF j] show ?thesis by auto
next
  case False
  with op_run_stays[OF ok j] show ?thesis using stays_evolves by blast
qed

end
