(* ===== verification/StoreTheorems.thy ===== *)
theory StoreTheorems
  imports StoreAtomic
begin

text \<open>
  What the shared job store guarantees, as properties of the databases reachable by any
  interleaving of its clients, and of single operations.  The example environment and job at
  the top are the concrete inputs of the witnesses.
\<close>

section \<open>A concrete environment, job and database\<close>

definition ex_cfg :: jobs_cfg where
  "ex_cfg = \<lparr>cfg_prefix = ''ai:v2:'', cfg_heartbeat = 10, cfg_lease = 60, cfg_timeout = 900,
     cfg_process_timeout = 1800, cfg_publish_lease = 30, cfg_photos_ttl = 3600,
     cfg_story_concurrency = 2, cfg_generation_inflight = 4, cfg_agent_enabled = False,
     cfg_agent_budget = 120, cfg_agent_concurrency = 1,
     cfg_topics = [''a'', ''b'', ''c'', ''d'', ''e'', ''f'']\<rparr>"

definition ex_env :: jobs_env where
  "ex_env = \<lparr>env_cfg = ex_cfg, sha256_hex = (\<lambda>t. concat (map nat_str t)),
     event_bytes = (\<lambda>e. 100), buffer_bytes = (\<lambda>b. int (length (pb_batches b))),
     result_schema = (\<lambda>k r. Some r)\<rparr>"

definition ex_job :: job where
  "ex_job = \<lparr>j_trip = 7, j_kind = Process, j_exec = [101], j_request = JNull,
     j_request_topic = ''a'', j_result_topic = ''b'', j_created = 0, j_status = QUEUED,
     j_progress = \<lparr>pr_done = 0, pr_total = 3\<rparr>, j_step = None, j_owner = None,
     j_heartbeat = None, j_started = None, j_cancel = False, j_event = None,
     j_pub_owner = None, j_pub_until = 0, j_published = False\<rparr>"

definition ex_id :: string where
  "ex_id = job_identity ex_env ex_job"

text \<open>The empty database, then the job registered at 1, then claimed by a worker at 2.\<close>

definition ex_db1 :: redis where
  "ex_db1 = op_run ex_env (OpRegister ex_job 1) Map.empty"

definition ex_db2 :: redis where
  "ex_db2 = op_run ex_env (OpClaim Process ''w'' False 2) ex_db1"

definition ex_db3 :: redis where
  "ex_db3 = op_run ex_env (OpChange_finish ex_id ''w'' FAILED None
     (Some \<lparr>eb_code = INTERNAL_ERROR, eb_detail = []\<rparr>) 3) ex_db2"

lemma store_step_op_run:
  "op_ok E op \<Longrightarrow> store_step E op s (op_run E op s)"
  using store_step.commit[of E op s s] store_step.pop[of E s]
  by (cases "op = OpClaimBatch") (auto simp: op_run_pass)

lemma ex_env_sel [simp]:
  "cfg_lease (env_cfg ex_env) = 60" "cfg_publish_lease (env_cfg ex_env) = 30"
  "cfg_photos_ttl (env_cfg ex_env) = 3600" "job_timeout (env_cfg ex_env) k = (if k = Process then 1800 else 900)"
  "event_bytes ex_env e = 100" "result_schema ex_env k r = Some r"
  "buffer_bytes ex_env b = int (length (pb_batches b))"
  by (simp_all add: ex_env_def ex_cfg_def job_timeout_def)

lemma ex_fresh: "fresh_job ex_env ex_job"
  by (simp add: fresh_job_def job_wf_def ex_job_def)

lemma ex_reach1: "reachable ex_env ex_db1"
  unfolding ex_db1_def
  by (rule reachable.step[OF reachable.start store_step_op_run]) (simp add: ex_fresh)

lemma ex_reach2: "reachable ex_env ex_db2"
  unfolding ex_db2_def by (rule reachable.step[OF ex_reach1 store_step_op_run]) simp

lemma ex_reach3: "reachable ex_env ex_db3"
  unfolding ex_db3_def by (rule reachable.step[OF ex_reach2 store_step_op_run]) simp

lemmas ex_env_simps = ex_env_def ex_cfg_def ex_job_def

lemma ex_register: "attempt_cmds (register ex_env ex_job 1 Map.empty) =
    [SETc KSequence (VInt 1), SETc (KJob ex_id) (VJob (ex_job\<lparr>j_created := 1\<rparr>)),
     SETc (KLatest Process 7) (VStr ex_id), DELc (KBatches ex_id), ZADDc (KQueue Process) ex_id 1]"
  by (simp add: register_def key_exists_def get_buffer_def get_str_def get_int_def ex_id_def
      Let_def ex_job_def)

lemma ex_db1_views:
  "get_job ex_db1 x = (if x = ex_id then Some (ex_job\<lparr>j_created := 1\<rparr>) else None)"
  "get_zset ex_db1 (KQueue k) = (if k = Process then [(1, ex_id)] else [])"
  "get_str ex_db1 (KSlot k n) = None"
  "get_str ex_db1 (KLatest Process 7) = Some ex_id"
  by (simp_all add: ex_db1_def ex_register get_job_def get_zset_def get_str_def zadd_def zrem_def)

lemma ex_claim: "claim_attempt ex_env Process ''w'' False 2 ex_db1 =
    Done (Inr (Some (claimed_job (ex_job\<lparr>j_created := 1\<rparr>) ''w'' 2, 1)))
      [ZREMc (KQueue Process) ex_id, SETc (KSlot Process 0) (VStr ex_id),
       SETc (KJob ex_id) (VJob (claimed_job (ex_job\<lparr>j_created := 1\<rparr>) ''w'' 2)),
       ZADDc KRunning ex_id 62]"
  by (simp add: claim_attempt_def stale_slots_def occupied_slots_def slot_keys_simps ex_db1_views
      claim_limit_def ex_env_simps job_timeout_def)

definition ex_running :: job where
  "ex_running = claimed_job (ex_job\<lparr>j_created := 1\<rparr>) ''w'' 2"

lemma ex_db2_views:
  "get_job ex_db2 x = (if x = ex_id then Some ex_running else None)"
  "get_str ex_db2 (KSlot k n) = (if k = Process \<and> n = 0 then Some ex_id else None)"
  by (simp_all add: ex_db2_def ex_claim ex_running_def view_simps ex_db1_views)

section \<open>Properties of every reachable database\<close>

text \<open>C1. The store's invariant (records well formed, queue, running set, pending set, slots and
  the per-trip pointer all agree with the records' statuses) holds after any interleaving of
  WATCH passes, however old the values they read.\<close>

theorem reachable_store_inv:
  assumes "reachable E s"
  shows "store_inv E s"
  using assms by (rule reachable_inv)

lemma reachable_store_inv_witness: "store_inv ex_env ex_db3"
  by (rule reachable_store_inv[OF ex_reach3])

text \<open>C2. No more than the configured number of jobs of a kind run at once: one process job, and
  \<open>JOBS_STORY_CONCURRENCY\<close> story jobs.\<close>

theorem running_jobs_bounded:
  assumes "reachable E s"
  shows "finite {i. has_status s i (\<lambda>j. j_status j = PROCESSING \<and> j_kind j = k)} \<and>
    card {i. has_status s i (\<lambda>j. j_status j = PROCESSING \<and> j_kind j = k)} \<le> claim_limit E k"
proof -
  let ?A = "{i. has_status s i (\<lambda>j. j_status j = PROCESSING \<and> j_kind j = k)}"
  let ?f = "\<lambda>key. the (get_str s key)"
  note inv = reachable_inv[OF assms]
  have "?A \<subseteq> ?f ` set (occupied_slots k s)"
  proof
    fix i assume "i \<in> ?A"
    with inv obtain n where "KSlot k n \<in> set (slot_keys k)" "get_str s (KSlot k n) = Some i"
      unfolding store_inv_def inv_slots_def has_status_def by blast
    then show "i \<in> ?f ` set (occupied_slots k s)"
      by (intro image_eqI[of _ _ "KSlot k n"]) (simp_all add: occupied_slots_def)
  qed
  moreover have "card (?f ` set (occupied_slots k s)) \<le> claim_limit E k"
    using card_image_le[of "set (occupied_slots k s)" ?f] card_length[of "occupied_slots k s"] inv
    by (fastforce simp: store_inv_def inv_limit_def intro: order_trans)
  ultimately show ?thesis
    by (meson List.finite_set card_mono finite_imageI finite_subset order_trans)
qed

lemma running_jobs_bounded_witness:
  "card {i. has_status ex_db2 i (\<lambda>j. j_status j = PROCESSING \<and> j_kind j = Process)} \<le> 1"
  using running_jobs_bounded[OF ex_reach2, of Process] by (simp add: claim_limit_def)

text \<open>C4. A trip has at most one queued or running job of each kind.\<close>

theorem one_active_job_per_trip:
  assumes "reachable E s" and "active s k trip i" and "active s k trip i'"
  shows "i = i'"
  using active_latest[OF reachable_inv[OF assms(1)] assms(2)]
    active_latest[OF reachable_inv[OF assms(1)] assms(3)] by simp

lemma one_active_job_per_trip_witness: "{i. active ex_db2 Process 7 i} = {ex_id}"
proof -
  have "active ex_db2 Process 7 ex_id"
    by (simp add: active_def has_status_def ex_db2_views ex_running_def ex_job_def)
  then show ?thesis using one_active_job_per_trip[OF ex_reach2] by blast
qed

text \<open>No job is lost: a queued job is in its queue and nowhere else, a running job is in the
  running set and holds a slot, a finished job has its event and is pending until published.\<close>

theorem every_job_accounted_for:
  assumes "reachable E s" and "get_job s i = Some j"
  shows "(j_status j = QUEUED \<longrightarrow> i \<in> zmembers (get_zset s (KQueue (j_kind j))) \<and>
            i \<notin> zmembers (get_zset s KRunning) \<and> i \<notin> zmembers (get_zset s KPending)) \<and>
         (j_status j = PROCESSING \<longrightarrow> i \<in> zmembers (get_zset s KRunning) \<and>
            (\<forall>k. i \<notin> zmembers (get_zset s (KQueue k))) \<and> i \<notin> zmembers (get_zset s KPending) \<and>
            (\<exists>!n. KSlot (j_kind j) n \<in> set (slot_keys (j_kind j)) \<and>
                  get_str s (KSlot (j_kind j) n) = Some i)) \<and>
         (terminal (j_status j) \<longrightarrow> (\<exists>e. j_event j = Some e \<and> ev_status e = j_status j) \<and>
            (\<forall>k. i \<notin> zmembers (get_zset s (KQueue k))) \<and> i \<notin> zmembers (get_zset s KRunning) \<and>
            (i \<in> zmembers (get_zset s KPending) \<longleftrightarrow> \<not> j_published j))"
proof -
  note inv = reachable_inv[OF assms(1)] and wf = get_job_wf[OF reachable_inv[OF assms(1)] assms(2)]
  have "\<exists>!n. KSlot (j_kind j) n \<in> set (slot_keys (j_kind j)) \<and>
      get_str s (KSlot (j_kind j) n) = Some i" if "j_status j = PROCESSING"
    using inv assms(2) that unfolding store_inv_def inv_slots_def by blast
  moreover have "\<exists>e. j_event j = Some e \<and> ev_status e = j_status j" if "terminal (j_status j)"
    using wf that by (auto simp: job_wf_def event_of_def split: option.splits)
  ultimately show ?thesis
    using inv assms(2)
    by (auto simp: store_inv_def inv_queue_def inv_running_def inv_pending_def has_status_def)
qed

lemma every_job_accounted_for_witness: "ex_id \<in> zmembers (get_zset ex_db2 KRunning)"
  using every_job_accounted_for[OF ex_reach2, of ex_id ex_running]
  by (simp add: ex_db2_views) (simp add: ex_running_def)

text \<open>C8. Records are never deleted and finished jobs are final: whatever operation commits next,
  a record keeps its identity, a terminal status and its event never change, and a published
  result stays published.\<close>

theorem terminal_jobs_are_final:
  assumes "reachable E s" and "store_step E op s t" and "get_job s i = Some j"
  shows "\<exists>j'. get_job t i = Some j' \<and> j_kind j' = j_kind j \<and> j_trip j' = j_trip j \<and>
    j_exec j' = j_exec j \<and> (terminal (j_status j) \<longrightarrow> j_status j' = j_status j \<and> j_event j' = j_event j) \<and>
    (j_published j \<longrightarrow> j_published j')"
  using op_run_evolves[of E op s i j] store_step_run[OF assms(2)] assms(3)
  by (auto simp: evolves_def)

lemma terminal_jobs_are_final_witness: "\<exists>j'. get_job ex_db3 ex_id = Some j' \<and> j_trip j' = 7"
  using terminal_jobs_are_final[OF ex_reach2, of "OpChange_finish ex_id ''w'' FAILED None
     (Some \<lparr>eb_code = INTERNAL_ERROR, eb_detail = []\<rparr>) 3" ex_db3 ex_id ex_running]
    store_step_op_run[of ex_env "OpChange_finish ex_id ''w'' FAILED None
     (Some \<lparr>eb_code = INTERNAL_ERROR, eb_detail = []\<rparr>) 3" ex_db2]
  by (auto simp: ex_db3_def ex_db2_views ex_running_def ex_job_def)

text \<open>C5. Optimistic transactions are atomic: a commit whose reads are arbitrarily old acts on the
  database of the moment of EXEC as the whole operation run there alone.\<close>

theorem commits_are_atomic:
  assumes "agree (op_watch E op s0) s0 s" and "op \<noteq> OpClaimBatch"
  shows "exec (op_pass E op s0) s = op_run E op s"
  using op_pass_covered[OF assms(1)] op_run_pass[OF assms(2)] by simp

lemma commits_are_atomic_witness:
  "exec (op_pass ex_env (OpClaim Process ''w'' False 2) ex_db1) ex_db1 = ex_db2"
  using commits_are_atomic[of ex_env "OpClaim Process ''w'' False 2" ex_db1 ex_db1]
  by (simp add: ex_db2_def)

text \<open>Two different keys of the model never have the same name in Redis, whatever the prefix.\<close>

theorem redis_keys_distinct:
  "redis_key E k = redis_key E k' \<longleftrightarrow> k = k'"
  using key_name_inject by (auto simp: redis_key_def)

end
