(* ===== verification/StoreOpTheorems.thy ===== *)
theory StoreOpTheorems
  imports StoreTheorems
begin

text \<open>
  Properties of single store operations: fencing of lost owners, recovery of dead runs,
  handing a claimed job back, termination of the claim loop, registration exactly once,
  the photo batch buffer and the publication lease.
\<close>

section \<open>Ownership and recovery\<close>

definition holds_lease :: "jobs_env \<Rightarrow> job \<Rightarrow> string \<Rightarrow> rat \<Rightarrow> bool" where
  "holds_lease E r w now \<longleftrightarrow> j_status r = PROCESSING \<and> j_owner r = Some w \<and>
     (\<exists>h st. j_heartbeat r = Some h \<and> j_started r = Some st \<and> now < h + cfg_lease (env_cfg E) \<and>
        now < st + job_timeout (env_cfg E) (j_kind r))"

lemma owns_holds_lease:
  "job_wf E i r \<Longrightarrow> owns E r w now = Inr (holds_lease E r w now)"
  by (auto simp: owns_def holds_lease_def job_wf_def)

text \<open>A worker that lost its lease (job ended, taken by another owner, heartbeat or run time
  exceeded) can no longer change the job: heartbeat, progress and finish write nothing.\<close>

theorem lost_owner_is_fenced:
  assumes "reachable E s" and "get_job s i = Some r" and "\<not> holds_lease E r w now"
  shows "heartbeat E i w now s = Done (Inr None) [] \<and>
    progress_op E i w step dn tot now s = Done (Inr None) [] \<and>
    finish E i w st res err now s = Done (Inr None) []"
  using owns_holds_lease[OF get_job_wf[OF reachable_inv[OF assms(1)] assms(2)], of w now] assms(2,3)
  by (simp add: heartbeat_def progress_op_def finish_def change_attempt_def heartbeat_update_def
      progress_update_def finish_update_def)

lemma lost_owner_is_fenced_witness:
  "heartbeat ex_env ex_id ''other'' 3 ex_db2 = Done (Inr None) []"
  using lost_owner_is_fenced[OF ex_reach2, of ex_id ex_running "''other''" 3]
  by (simp add: ex_db2_views holds_lease_def ex_running_def)

text \<open>A running job whose lease or run time has expired is failed by recovery: its status is
  FAILED, its event says TIMEOUT when the run time was exceeded and WORKER_DEAD otherwise.\<close>

theorem expired_run_is_failed:
  assumes "reachable E s" and "get_job s i = Some r" and "j_status r = PROCESSING"
    and "j_started r = Some st" and "j_heartbeat r = Some h"
    and "st + job_timeout (env_cfg E) (j_kind r) \<le> now \<or> h + cfg_lease (env_cfg E) \<le> now"
    and small: "\<And>e. ev_status e = FAILED \<Longrightarrow> ev_result e = None \<Longrightarrow> event_bytes E e \<le> RESULT_MAX_BYTES"
  shows "\<exists>j e err. get_job (op_run E (OpChange_recover i now) s) i = Some j \<and> j_status j = FAILED \<and>
    j_event j = Some e \<and> ev_error e = Some err \<and>
    eb_code err = (if st + job_timeout (env_cfg E) (j_kind r) \<le> now then TIMEOUT else WORKER_DEAD)"
proof -
  let ?code = "if st + job_timeout (env_cfg E) (j_kind r) \<le> now then TIMEOUT else WORKER_DEAD"
  let ?e = "\<lparr>ev_kind = j_kind r, ev_trip = j_trip r, ev_exec = j_exec r, ev_status = FAILED,
      ev_result = None, ev_error = Some \<lparr>eb_code = ?code, eb_detail = []\<rparr>\<rparr>"
  let ?r = "r\<lparr>j_event := Some ?e, j_status := FAILED, j_step := None\<rparr>"
  have "event_bytes E ?e \<le> RESULT_MAX_BYTES" by (rule small) simp_all
  then have t: "terminate E r FAILED None (Some \<lparr>eb_code = ?code, eb_detail = []\<rparr>) = Inr ?r"
    by (simp add: terminate_def check_payload_def enforce_size_limit_def Let_def)
  have u: "recover_update E r now = Inr (Some ?r)"
    using assms(3-6) t by (auto simp: recover_update_def Let_def)
  have "j_status ?r \<noteq> COMPLETED" by simp
  then have "\<exists>ms. terminal_commands ?r now = Inr ms"
    by (simp add: terminal_commands_def Let_def)
  then obtain cs where c: "change_commands E i (j_status r) ?r None now s = Inr cs"
    using assms(3) by (auto simp: change_commands_def Let_def)
  have "attempt_cmds (change_attempt E i (recover_update E) None now s) = cs"
    using assms(2) u c by (simp add: change_attempt_def)
  with get_job_after_change[OF c, of i] show ?thesis by simp
qed

lemma expired_run_is_failed_witness:
  "\<exists>j. get_job (op_run ex_env (OpChange_recover ex_id 100) ex_db2) ex_id = Some j \<and> j_status j = FAILED"
  using expired_run_is_failed[OF ex_reach2, of ex_id ex_running 2 2 100]
  by (auto simp: ex_db2_views ex_running_def RESULT_MAX_BYTES_def)

section \<open>Claiming\<close>

lemma insort_head: "sorted (x # z) \<Longrightarrow> insort x z = x # z"
  by (cases z) (simp_all)

lemma zadd_head:
  assumes "zset_ok ((sc, i) # z)"
  shows "zadd i sc (zrem i ((sc, i) # z)) = (sc, i) # z"
proof -
  have "zrem i z = z"
    unfolding zrem_def using assms by (force simp: zset_ok_def intro!: filter_True)
  moreover have "sorted ((sc, i) # z)" using assms unfolding zset_ok_def by blast
  ultimately show ?thesis
    by (simp add: zadd_def insort_head zrem_def)
qed

text \<open>C21. A claim takes the job at the head of its queue, and handing it back unstarted (a stop
  signal that arrives with the claim) restores the queue exactly and frees the slots.\<close>

theorem return_restores_queue:
  assumes reach: "reachable E s"
    and claim: "claim_attempt E k w stop now s = Done (Inr (Some (r, sc))) cs"
    and lease: "now' < now + cfg_lease (env_cfg E)" "now' < now + job_timeout (env_cfg E) k"
    and "\<not> j_cancel r" and s1: "s1 = exec cs s"
  shows "get_zset s (KQueue k) = (sc, job_identity E r) # tl (get_zset s (KQueue k)) \<and>
    get_zset (run_attempt (return_unstarted E r sc now' s1) s1) (KQueue k) = get_zset s (KQueue k) \<and>
    (\<forall>n. KSlot k n \<in> set (slot_keys k) \<longrightarrow>
       get_str (run_attempt (return_unstarted E r sc now' s1) s1) (KSlot k n) = get_str s (KSlot k n))"
proof -
  note inv = reachable_inv[OF reach]
  have ne: "cs \<noteq> []"
    using claim by (auto simp: claim_attempt_def split: if_splits list.splits option.splits prod.splits)
  from claim_success[OF claim ne] obtain slot r0 i z where
    slot: "slot \<in> set (slot_keys k)" "get_str s slot = None"
    and q: "get_zset s (KQueue k) = (sc, i) # z" and r0: "get_job s i = Some r0"
    and r: "r = claimed_job r0 w now"
    and cs: "cs = [ZREMc (KQueue k) i, SETc slot (VStr i), SETc (KJob i) (VJob (claimed_job r0 w now)),
       ZADDc KRunning i (now + min (cfg_lease (env_cfg E)) (job_timeout (env_cfg E) (j_kind r0)))]"
    by auto
  obtain n0 where n0: "slot = KSlot k n0" using slot slot_keys_are_slots by blast
  have k: "j_kind r0 = k" using queue_head_queued[OF inv q] r0 by simp
  have id: "job_identity E r = i"
    using get_job_wf[OF inv r0] r by (simp add: job_wf_def job_identity_def)
  let ?r = "r\<lparr>j_status := QUEUED, j_owner := None, j_started := None, j_heartbeat := None\<rparr>"
  have own: "j_owner r = Some w" by (simp add: r)
  have "get_job s1 i = Some r" by (simp add: s1 cs n0 view_simps r)
  moreover have "return_update E w r now' = Inr (Some ?r)"
    using lease assms(5) r k by (simp add: return_update_def owns_def)
  ultimately have a: "attempt_cmds (return_unstarted E r sc now' s1) = requeue_cmds E i ?r sc s1"
    using own by (simp add: return_unstarted_def id change_attempt_def change_commands_def
        requeue_cmds_def)
  note v = requeue_views[OF refl, of E i ?r sc s1]
  have kr: "j_kind ?r = k" using r k by simp
  have "zset_ok (get_zset s (KQueue k))" using inv by (simp add: store_inv_def inv_zsets_def)
  then have "zadd i sc (get_zset s1 (KQueue k)) = get_zset s (KQueue k)"
    using zadd_head[of sc i z] by (simp add: s1 cs n0 view_simps q)
  moreover have "get_str s (KSlot k n) \<noteq> Some i" if "KSlot k n \<in> set (slot_keys k)" for n
    using inv r0 queue_head_queued[OF inv q] that
    unfolding store_inv_def inv_slots_def has_status_def by fastforce
  ultimately show ?thesis
    using slot(2) unfolding run_attempt_def a v(5,6) kr
    by (auto simp: id q s1 cs n0 view_simps)
qed

lemma return_restores_queue_witness:
  "get_zset (run_attempt (return_unstarted ex_env ex_running 1 3 ex_db2) ex_db2) (KQueue Process)
     = [(1, ex_id)]"
proof -
  have e: "ex_db2 = exec (attempt_cmds (claim_attempt ex_env Process ''w'' False 2 ex_db1)) ex_db1"
    by (simp add: ex_db2_def)
  have c: "claim_attempt ex_env Process ''w'' False 2 ex_db1 =
      Done (Inr (Some (ex_running, 1))) (attempt_cmds (claim_attempt ex_env Process ''w'' False 2 ex_db1))"
    by (simp add: ex_claim ex_running_def)
  have "\<not> j_cancel ex_running" by (simp add: ex_running_def claimed_job_def ex_job_def)
  from return_restores_queue[OF ex_reach1 c _ _ this e, of 3]
  have "get_zset (run_attempt (return_unstarted ex_env ex_running 1 3 ex_db2) ex_db2) (KQueue Process)
      = get_zset ex_db1 (KQueue Process)" by simp
  then show ?thesis by (simp add: ex_db1_views)
qed

lemma claim_loop_no_stale:
  assumes "stale_slots k s = []" "length (get_zset s (KQueue k)) < fuel"
  shows "claim_loop fuel E k owner stop now n s \<noteq> None"
  using assms
proof (induction fuel arbitrary: n s)
  case (Suc fuel)
  let ?a = "claim_attempt E k (owner n) (stop (3 * n + 1)) (now n) s"
  show ?case
  proof (cases ?a)
    case (Done x cs)
    then show ?thesis by (auto simp: Let_def split: sum.split option.split prod.split attempt.split)
  next
    case (Again cs)
    with Suc.prems(1) obtain sc i z where q: "get_zset s (KQueue k) = (sc, i) # z"
      and cs: "cs = [ZREMc (KQueue k) i]"
      by (auto simp: claim_attempt_def split: if_splits list.splits option.splits prod.splits)
    let ?s = "exec [ZREMc (KQueue k) i] s"
    have "get_zset ?s (KQueue k) = zrem i z"
      by (simp add: view_simps q zrem_def)
    moreover have "length (zrem i z) \<le> length z" by (simp add: zrem_def)
    ultimately have "length (get_zset ?s (KQueue k)) < fuel" using Suc.prems(2) q by simp
    moreover have "stale_slots k ?s = []"
    proof -
      have j: "get_job ?s = get_job s" by (auto simp: view_simps)
      have "get_str ?s key = get_str s key" if "key \<in> set (slot_keys k)" for key
        using slot_keys_are_slots[OF that] by (auto simp: view_simps)
      then have "stale_slots k ?s = stale_slots k s"
        unfolding stale_slots_def j by (intro filter_cong[OF refl]) simp
      with Suc.prems(1) show ?thesis by simp
    qed
    ultimately have "claim_loop fuel E k owner stop now (Suc n) ?s \<noteq> None" by (rule Suc.IH[rotated])
    with Again show ?thesis by (simp add: Let_def run_attempt_def cs)
  qed
qed simp

text \<open>The claim loop always returns, from any database: besides one pass that removes stale
  slots, every pass that loops removes an entry of the queue.\<close>

theorem claim_loop_returns:
  assumes "length (get_zset s (KQueue k)) + 1 < fuel"
  shows "\<exists>r. claim_loop fuel E k owner stop now n s = Some r"
proof (cases "stale_slots k s = []")
  case True
  with claim_loop_no_stale[OF this, of fuel] assms show ?thesis by auto
next
  case False
  obtain fuel' where f: "fuel = Suc fuel'" using assms by (cases fuel) auto
  let ?s = "exec (map DELc (stale_slots k s)) s"
  have sub: "set (stale_slots k s) \<subseteq> set (slot_keys k)" by (auto simp: stale_slots_def)
  have "stale_slots k ?s = []"
    unfolding stale_slots_def[of k ?s] filter_empty_conv
  proof
    fix key assume key: "key \<in> set (slot_keys k)"
    then obtain m where m: "key = KSlot k m" using slot_keys_are_slots by blast
    show "\<not> (case get_str ?s key of None \<Rightarrow> False
      | Some i \<Rightarrow> (case get_job ?s i of Some r \<Rightarrow> terminal (j_status r) | None \<Rightarrow> False))"
      using key unfolding m DELs_slot_views[OF sub]
      by (auto simp: stale_slots_def split: option.splits)
  qed
  moreover have "get_zset ?s (KQueue k) = get_zset s (KQueue k)" by (rule DELs_slot_views[OF sub])
  ultimately have "claim_loop fuel' E k owner stop now (Suc n) ?s \<noteq> None"
    using assms f by (intro claim_loop_no_stale) simp_all
  moreover have "claim_attempt E k (owner n) (stop (3 * n + 1)) (now n) s =
      Again (map DELc (stale_slots k s))" using False by (simp add: claim_attempt_def)
  ultimately show ?thesis by (auto simp: f Let_def run_attempt_def)
qed

lemma claim_loop_returns_witness:
  "\<exists>r. claim_loop 3 ex_env Process (\<lambda>n. ''w'') (\<lambda>n. False) (\<lambda>n. 2) 0 ex_db1 = Some r"
  by (rule claim_loop_returns) (simp add: ex_db1_views)

section \<open>Registration\<close>

text \<open>A message is registered once: after it was accepted or refused as busy, registering the
  same execution again writes nothing and answers duplicate, so a redelivery never runs it twice.\<close>

theorem registration_is_idempotent:
  assumes "register E r now s = Done (Inr outcome) cs"
    and "job_identity E r' = job_identity E r"
  shows "register E r' now' (run_attempt (register E r now s) s) = Done (Inr Duplicate) []"
proof (rule register_closed)
  let ?i = "job_identity E r"
  let ?t = "run_attempt (register E r now s) s"
  have "?t (KJob ?i) \<noteq> None \<or> ?t (KIgnored ?i) \<noteq> None"
  proof (cases rule: register_cases[of s E r _ now])
    case closed
    with register_closed[OF closed, of now] show ?thesis by (simp add: run_attempt_def)
  next
    case busy
    from register_busy[OF this, of now] show ?thesis by (auto simp: run_attempt_def)
  next
    case (raises e)
    from register_raises[OF this] assms(1) show ?thesis by simp
  next
    case (ok ms)
    then have noise: "\<forall>c \<in> set ms. \<not> core_key (cmd_key c)"
      by (cases "j_event r") (auto dest: terminal_commands_noise)
    from register_accepts[OF ok] obtain ds order where
      a: "attempt_cmds (register E r now s) = map (ZREMc KBatchQueue) ds @
         [SETc KSequence (VInt order), SETc (KJob ?i) (VJob (r\<lparr>j_created := now\<rparr>)),
          SETc (KLatest (j_kind r) (j_trip r)) (VStr ?i), DELc (KBatches ?i),
          (if j_event r \<noteq> None then ZADDc KPending ?i now
           else ZADDc (KQueue (j_kind r)) ?i (of_int order))] @ ms" by auto
    have "core_eq ?t (exec (filter (\<lambda>c. core_key (cmd_key c)) (attempt_cmds (register E r now s))) s)"
      unfolding run_attempt_def by (rule core_eq_filter)
    then have "?t (KJob ?i) = Some (VJob (r\<lparr>j_created := now\<rparr>))"
      unfolding core_eq_def a by (simp add: filter_drop_members filter_noise[OF noise])
    then show ?thesis by simp
  qed
  with assms(2) show "?t (KJob (job_identity E r')) \<noteq> None \<or> ?t (KIgnored (job_identity E r')) \<noteq> None"
    by simp
qed

lemma registration_is_idempotent_witness:
  "register ex_env ex_job 9 ex_db1 = Done (Inr Duplicate) []"
proof -
  have a: "register ex_env ex_job 1 Map.empty = Done (Inr Accepted)
      (attempt_cmds (register ex_env ex_job 1 Map.empty))"
    by (simp add: register_def key_exists_def get_buffer_def get_str_def Let_def ex_job_def)
  show ?thesis
    using registration_is_idempotent[OF a refl, of 9]
    by (simp add: ex_db1_def run_attempt_def)
qed

section \<open>Publication\<close>

text \<open>A result is published under a lease: while one publisher holds it no other can claim it,
  and once that publisher acknowledged it, nobody claims it again.\<close>

theorem publication_is_exclusive:
  assumes claim: "claim_result E i p now s = Done (Inr (Some r)) cs" and s1: "s1 = exec cs s"
  shows "(now' < now + cfg_publish_lease (env_cfg E) \<longrightarrow> claim_result E i q now' s1 = Done (Inr None) []) \<and>
    claim_result E i q now'' (run_attempt (acknowledge_attempt i p s1) s1) = Done (Inr None) []"
proof -
  from claim obtain r0 where r0: "get_job s i = Some r0"
    and u: "claim_result_update E p r0 now = Inr (Some r)"
    and c: "change_commands E i (j_status r0) r None now s = Inr cs"
    by (auto simp: claim_result_def change_attempt_def split: option.splits sum.splits)
  from u have r: "r = r0\<lparr>j_pub_owner := Some p, j_pub_until := now + cfg_publish_lease (env_cfg E)\<rparr>"
    by (auto simp: claim_result_update_def split: if_splits)
  have j: "get_job s1 i = Some r" using get_job_after_change[OF c, of i] s1 by simp
  then have "get_job (run_attempt (acknowledge_attempt i p s1) s1) i = Some (r\<lparr>j_published := True\<rparr>)"
    by (simp add: r acknowledge_attempt_def run_attempt_def view_simps)
  with j show ?thesis
    by (simp add: claim_result_def change_attempt_def claim_result_update_def r)
qed

lemma publication_is_exclusive_witness:
  "claim_result ex_env ex_id ''q'' 5 (exec (attempt_cmds (claim_result ex_env ex_id ''p'' 4 ex_db3)) ex_db3)
     = Done (Inr None) []"
proof -
  let ?r = "ex_running\<lparr>j_event := Some \<lparr>ev_kind = Process, ev_trip = 7, ev_exec = [101],
      ev_status = FAILED, ev_result = None, ev_error = Some \<lparr>eb_code = INTERNAL_ERROR, eb_detail = []\<rparr>\<rparr>,
      j_status := FAILED, j_step := None\<rparr>"
  have run: "j_kind ex_running = Process" "j_trip ex_running = 7" "j_exec ex_running = [101]"
    "j_status ex_running = PROCESSING" "j_cancel ex_running = False"
    "j_pub_until ex_running = 0" "j_published ex_running = False"
    by (simp_all add: ex_running_def claimed_job_def ex_job_def)
  have "terminate ex_env ex_running FAILED None (Some \<lparr>eb_code = INTERNAL_ERROR, eb_detail = []\<rparr>) = Inr ?r"
    by (simp add: terminate_def check_payload_def enforce_size_limit_def Let_def
        RESULT_MAX_BYTES_def run)
  moreover have "owns ex_env ex_running ''w'' 3 = Inr True"
    by (simp add: owns_def run) (simp add: ex_running_def claimed_job_def)
  ultimately have u: "finish_update ex_env ''w'' FAILED None
      (Some \<lparr>eb_code = INTERNAL_ERROR, eb_detail = []\<rparr>) ex_running 3 = Inr (Some ?r)"
    by (simp add: finish_update_def run)
  have "j_status ?r \<noteq> COMPLETED" by simp
  then obtain ms where t: "terminal_commands ?r 3 = Inr ms"
    by (simp add: terminal_commands_def Let_def)
  obtain cs where c: "change_commands ex_env ex_id (j_status ex_running) ?r None 3 ex_db2 = Inr cs"
    by (simp add: change_commands_def Let_def run t)
  have j: "get_job ex_db3 ex_id = Some ?r"
    using get_job_after_change[OF c, of ex_id] u c
    by (simp add: ex_db3_def change_attempt_def ex_db2_views)
  have u4: "claim_result_update ex_env ''p'' ?r 4 =
      Inr (Some (?r\<lparr>j_pub_owner := Some ''p'', j_pub_until := 4 + 30\<rparr>))"
    by (simp add: claim_result_update_def run)
  obtain cs' where c': "change_commands ex_env ex_id FAILED
      (?r\<lparr>j_pub_owner := Some ''p'', j_pub_until := 4 + 30\<rparr>) None 4 ex_db3 = Inr cs'"
    by (simp add: change_commands_def Let_def)
  have "\<exists>r. claim_result ex_env ex_id ''p'' 4 ex_db3 = Done (Inr (Some r)) cs'"
    using u4 c' by (simp add: claim_result_def change_attempt_def j)
  then obtain r where cl: "claim_result ex_env ex_id ''p'' 4 ex_db3 = Done (Inr (Some r)) cs'" ..
  from publication_is_exclusive[OF cl refl, of 5] cl show ?thesis by simp
qed

end
