(* ===== verification/StorePhotos.thy ===== *)
theory StorePhotos
  imports StoreOpTheorems
begin

text \<open>
  The photo batch buffer of an execution: its bounds hold in every reachable database, and a
  staged batch is handed to the batch runner with the trip, number and photos it was staged with.
\<close>

section \<open>The buffer invariant\<close>

definition buffer_ok :: "jobs_env \<Rightarrow> photo_buffer \<Rightarrow> bool" where
  "buffer_ok E b \<longleftrightarrow>
     length (pb_batches b) \<le> 200 \<and> length (known_photos b) \<le> 200 \<and>
     buffer_bytes E b \<le> PHOTOS_READY_MAX_BYTES \<and> distinct (map fst (pb_batches b)) \<and>
     (\<forall>(no, ps) \<in> set (pb_batches b). \<forall>p \<in> set ps.
        map_of (known_photos b) (ra_id p) = Some (ra_key p))"

definition buffers_ok :: "jobs_env \<Rightarrow> redis \<Rightarrow> bool" where
  "buffers_ok E s \<longleftrightarrow> (\<forall>i b. get_buffer s i = Some b \<longrightarrow> buffer_ok E b)"

fun batch_key :: "rkey \<Rightarrow> bool" where
  "batch_key (KBatches i) = True"
| "batch_key _ = False"

definition keeps_buffers :: "rcmd \<Rightarrow> bool" where
  "keeps_buffers c \<longleftrightarrow> batch_key (cmd_key c) \<longrightarrow> (\<exists>k. c = DELc k)"

lemma keeps_buffers_simps [simp]:
  "keeps_buffers (DELc k)" "\<not> batch_key (cmd_key c) \<Longrightarrow> keeps_buffers c"
  by (simp_all add: keeps_buffers_def)

lemma exec1_keeps_buffers:
  assumes "keeps_buffers c" "get_buffer (exec1 c s) i = Some b"
  shows "get_buffer s i = Some b"
  using assms by (cases c) (auto simp: keeps_buffers_def view_simps split: if_splits)

lemma exec_keeps_buffers:
  "list_all keeps_buffers cs \<Longrightarrow> get_buffer (exec cs s) i = Some b \<Longrightarrow> get_buffer s i = Some b"
  by (induction cs arbitrary: s) (auto dest: exec1_keeps_buffers)

lemma keeps_buffers_ok: "list_all keeps_buffers cs \<Longrightarrow> buffers_ok E s \<Longrightarrow> buffers_ok E (exec cs s)"
  by (auto simp: buffers_ok_def dest: exec_keeps_buffers)

lemma metrics_keep: "terminal_commands r now = Inr ms \<Longrightarrow> list_all keeps_buffers ms"
  using terminal_commands_keys by (fastforce simp: list_all_iff)

lemma change_keeps:
  "list_all keeps_buffers (attempt_cmds (change_attempt E i upd score now s))"
proof (cases "attempt_cmds (change_attempt E i upd score now s) = []")
  case False
  then obtain old r' cs where c: "change_commands E i old r' score now s = Inr cs"
    and a: "attempt_cmds (change_attempt E i upd score now s) = cs"
    by (auto simp: change_attempt_def split: option.splits sum.splits)
  show ?thesis
  proof (cases "terminal (j_status r')")
    case True
    with c obtain ms where "(if terminal old then Inr [] else terminal_commands r' now) = Inr ms"
      and cs: "cs = SETc (KJob i) (VJob r') # ms @ tl (finish_cmds E i r' now s)"
      by (auto simp: change_commands_def Let_def finish_cmds_def)
    then have "list_all keeps_buffers ms" using metrics_keep by (auto split: if_splits)
    then show ?thesis by (auto simp: a cs finish_cmds_def list_all_iff)
  next
    case False
    with c show ?thesis
      by (auto simp: a change_commands_def Let_def list_all_iff split: if_splits option.splits)
  qed
qed simp

lemma claim_keeps: "list_all keeps_buffers (attempt_cmds (claim_attempt E k w stop now s))"
proof (cases "\<exists>x cs. claim_attempt E k w stop now s = Done x cs \<and> cs \<noteq> []")
  case True
  then obtain x cs where "claim_attempt E k w stop now s = Done x cs" "cs \<noteq> []" by blast
  from claim_success[OF this] this obtain slot r i q where
    "slot \<in> set (slot_keys k)"
    "attempt_cmds (claim_attempt E k w stop now s) = [ZREMc (KQueue k) i, SETc slot (VStr i),
       SETc (KJob i) (VJob (claimed_job r w now)), ZADDc KRunning i q]" by auto
  then show ?thesis by (auto dest!: slot_keys_are_slots)
next
  case False
  then show ?thesis
    unfolding claim_attempt_def
    by (auto simp: list_all_iff split: if_splits list.splits option.splits prod.splits)
qed

lemma register_keeps: "list_all keeps_buffers (attempt_cmds (register E r now s))"
proof (cases rule: register_cases[of s E r _ now])
  case closed
  from register_closed[OF this] show ?thesis by simp
next
  case busy
  from register_busy[OF this, of now] show ?thesis by (auto simp: list_all_iff)
next
  case (raises e)
  from register_raises[OF this] show ?thesis by simp
next
  case (ok ms)
  then have "list_all keeps_buffers ms" by (cases "j_event r") (auto dest: metrics_keep)
  with register_accepts[OF ok] show ?thesis by (auto simp: list_all_iff)
qed

section \<open>Staging\<close>

lemma merge_known_sound:
  assumes "merge_known ps d = Some d'"
  shows "d' = fold (\<lambda>p. dict_set (ra_id p) (ra_key p)) ps d \<and>
    (\<forall>x k. map_of d x = Some k \<longrightarrow> map_of d' x = Some k) \<and>
    (\<forall>p \<in> set ps. map_of d' (ra_id p) = Some (ra_key p))"
  using assms
proof (induction ps d rule: merge_known.induct)
  case (2 p ps known)
  then have m: "merge_known ps (dict_set (ra_id p) (ra_key p) known) = Some d'"
    and o: "map_of known (ra_id p) = None \<or> map_of known (ra_id p) = Some (ra_key p)"
    by (auto split: option.splits if_splits)
  from 2 m have ih: "d' = fold (\<lambda>p. dict_set (ra_id p) (ra_key p)) ps (dict_set (ra_id p) (ra_key p) known) \<and>
    (\<forall>x k. map_of (dict_set (ra_id p) (ra_key p) known) x = Some k \<longrightarrow> map_of d' x = Some k) \<and>
    (\<forall>p \<in> set ps. map_of d' (ra_id p) = Some (ra_key p))"
    by (cases "map_of known (ra_id p)") (auto split: if_splits)
  then have "map_of (dict_set (ra_id p) (ra_key p) known) (ra_id p) = Some (ra_key p) \<longrightarrow>
      map_of d' (ra_id p) = Some (ra_key p)" by blast
  then have p: "map_of d' (ra_id p) = Some (ra_key p)" by simp
  show ?case
  proof (intro conjI allI impI ballI)
    fix x k assume "map_of known x = Some k"
    with ih o p show "map_of d' x = Some k" by (cases "x = ra_id p") (auto simp del: map_of_dict_set
      simp add: map_of_dict_set[THEN fun_cong])
  qed (use ih p in auto)
qed simp

lemma dict_set_new: "map_of d k = None \<Longrightarrow> dict_set k v d = d @ [(k, v)]"
  by (induction k v d rule: dict_set.induct) (auto split: if_splits)

definition buffer_or_new :: "redis \<Rightarrow> string \<Rightarrow> string \<Rightarrow> photo_buffer" where
  "buffer_or_new s i topic =
     (case get_buffer s i of Some b \<Rightarrow> b | None \<Rightarrow> \<lparr>pb_topic = topic, pb_batches = []\<rparr>)"

lemma stage_shape:
  assumes "attempt_cmds (stage_photos E m topic now s) \<noteq> []"
    and b': "b' = (buffer_or_new s (photos_ready_identity E m) topic)\<lparr>pb_batches :=
      dict_set (int_str (rm_batch m)) (sort_key ra_id (rm_attachments m))
        (pb_batches (buffer_or_new s (photos_ready_identity E m) topic))\<rparr>"
  shows "\<exists>known. map_of (pb_batches (buffer_or_new s (photos_ready_identity E m) topic))
        (int_str (rm_batch m)) = None \<and>
     merge_known (sort_key ra_id (rm_attachments m))
       (known_photos (buffer_or_new s (photos_ready_identity E m) topic)) = Some known \<and>
     length known \<le> 200 \<and> length (pb_batches (buffer_or_new s (photos_ready_identity E m) topic)) < 200 \<and>
     buffer_bytes E b' \<le> PHOTOS_READY_MAX_BYTES \<and>
     attempt_cmds (stage_photos E m topic now s) = [SETc (KBatches (photos_ready_identity E m)) (VBuffer b'),
       ZADDc KBatchQueue (photo_batch_member (photos_ready_identity E m) (rm_batch m)) now,
       ZREMRANGEc KBatchQueue (now - cfg_photos_ttl (env_cfg E))]"
  using assms(1) unfolding stage_photos_def Let_def b' buffer_or_new_def[symmetric]
  by (auto split: if_splits option.splits)

lemma stage_buffer_ok:
  assumes inv: "buffers_ok E s"
  shows "buffers_ok E (exec (attempt_cmds (stage_photos E m topic now s)) s)"
proof (cases "attempt_cmds (stage_photos E m topic now s) = []")
  case True
  with inv show ?thesis by simp
next
  case False
  let ?i = "photos_ready_identity E m" and ?no = "int_str (rm_batch m)"
  let ?ps = "sort_key ra_id (rm_attachments m)"
  define b where b_def: "b = buffer_or_new s ?i topic"
  define b' where b'_def: "b' = b\<lparr>pb_batches := dict_set ?no ?ps (pb_batches b)\<rparr>"
  from stage_shape[OF False b'_def[unfolded b_def]] obtain known where
    new: "map_of (pb_batches b) ?no = None" and k: "merge_known ?ps (known_photos b) = Some known"
    and le: "length known \<le> 200" "length (pb_batches b) < 200"
    and bytes: "buffer_bytes E b' \<le> PHOTOS_READY_MAX_BYTES"
    and cmds: "attempt_cmds (stage_photos E m topic now s) = [SETc (KBatches ?i) (VBuffer b'),
       ZADDc KBatchQueue (photo_batch_member ?i (rm_batch m)) now,
       ZREMRANGEc KBatchQueue (now - cfg_photos_ttl (env_cfg E))]"
    unfolding b_def by blast
  have ok: "distinct (map fst (pb_batches b)) \<and> (\<forall>(no, ps) \<in> set (pb_batches b). \<forall>p \<in> set ps.
        map_of (known_photos b) (ra_id p) = Some (ra_key p))"
    using inv by (auto simp: b_def buffer_or_new_def buffers_ok_def buffer_ok_def split: option.splits)
  note sound = merge_known_sound[OF k]
  have bs: "pb_batches b' = pb_batches b @ [(?no, ?ps)]" by (simp add: b'_def dict_set_new[OF new])
  then have kn: "known_photos b' = known" using sound by (simp add: known_photos_def)
  have "buffer_ok E b'"
    unfolding buffer_ok_def kn
    using bytes le ok sound new distinct_dict_set[of "pb_batches b" ?no ?ps]
    by (auto simp: bs dict_set_new[OF new])
  with inv show ?thesis by (auto simp: cmds buffers_ok_def view_simps)
qed

lemma op_run_buffers:
  assumes "buffers_ok E s" "op_ok E op"
  shows "buffers_ok E (op_run E op s)"
proof (cases op)
  case (OpStage m topic now)
  with stage_buffer_ok[OF assms(1)] show ?thesis by simp
next
  case OpClaimBatch
  have "get_buffer (snd (claim_batch_loop z s)) i = get_buffer s i" for z i s
    by (induction z arbitrary: s)
      (auto simp: Let_def view_simps simp del: fun_upd_apply split: option.split)
  with OpClaimBatch assms show ?thesis by (simp add: claim_batch_def buffers_ok_def)
next
  case (OpAcknowledge i p)
  have "list_all keeps_buffers (attempt_cmds (acknowledge_attempt i p s))"
    by (simp add: acknowledge_attempt_def list_all_iff split: option.split)
  with keeps_buffers_ok[OF _ assms(1)] OpAcknowledge show ?thesis by simp
next
  case (OpSaveMetrics recs)
  then show ?thesis using assms by (auto intro!: keeps_buffers_ok simp: list_all_iff)
next
  case (OpExpire key)
  have "list_all keeps_buffers [DELc key]" by simp
  with keeps_buffers_ok[OF this assms(1)] OpExpire show ?thesis by simp
next
  case (OpMetrics cs)
  with assms(2) have "list_all keeps_buffers cs"
    by (auto simp: list_all_iff keeps_buffers_def elim!: metrics_key.elims)
  with keeps_buffers_ok[OF this assms(1)] OpMetrics show ?thesis by simp
next
  case (OpCount h)
  have "list_all keeps_buffers (attempt_cmds (count_invalid h s))" by (simp add: count_invalid_def Let_def)
  with keeps_buffers_ok[OF this assms(1)] OpCount show ?thesis by simp
qed (use assms in \<open>auto intro!: keeps_buffers_ok change_keeps claim_keeps register_keeps\<close>)

text \<open>The staged photos of an execution are bounded in every reachable database: at most 200
  batches, 200 photos and 2 MiB, and one photo has the same storage key in every batch.\<close>

theorem staged_photos_bounded:
  assumes "reachable E s" and "get_buffer s i = Some b"
  shows "length (pb_batches b) \<le> 200 \<and>
    card (ra_id ` \<Union> ((set \<circ> snd) ` set (pb_batches b))) \<le> 200 \<and>
    buffer_bytes E b \<le> PHOTOS_READY_MAX_BYTES \<and>
    (\<forall>p \<in> \<Union> ((set \<circ> snd) ` set (pb_batches b)). \<forall>q \<in> \<Union> ((set \<circ> snd) ` set (pb_batches b)).
       ra_id p = ra_id q \<longrightarrow> ra_key p = ra_key q)"
proof -
  have "buffers_ok E s"
    using assms(1)
  proof (induction rule: reachable.induct)
    case (step s op t)
    with store_step_run op_run_buffers show ?case by blast
  qed (simp add: buffers_ok_def get_buffer_def)
  with assms(2) have ok: "buffer_ok E b" by (simp add: buffers_ok_def)
  let ?P = "\<Union> ((set \<circ> snd) ` set (pb_batches b))"
  have k: "map_of (known_photos b) (ra_id p) = Some (ra_key p)" if "p \<in> ?P" for p
    using ok that by (fastforce simp: buffer_ok_def)
  have "ra_id ` ?P \<subseteq> set (map fst (known_photos b))"
  proof (rule image_subsetI)
    fix p assume "p \<in> ?P"
    from map_of_SomeD[OF k[OF this]] show "ra_id p \<in> set (map fst (known_photos b))"
      by (metis fst_conv image_eqI set_map)
  qed
  then have "card (ra_id ` ?P) \<le> card (set (map fst (known_photos b)))" by (intro card_mono) simp_all
  also have "\<dots> \<le> length (map fst (known_photos b))" by (rule card_length)
  finally have "card (ra_id ` ?P) \<le> length (known_photos b)" by simp
  moreover have "\<forall>p \<in> ?P. \<forall>q \<in> ?P. ra_id p = ra_id q \<longrightarrow> ra_key p = ra_key q"
  proof (intro ballI impI)
    fix p q assume "p \<in> ?P" "q \<in> ?P" "ra_id p = ra_id q"
    with k[of p] k[of q] show "ra_key p = ra_key q" by (simp del: UN_iff Union_iff)
  qed
  ultimately show ?thesis
    using ok unfolding buffer_ok_def by (intro conjI) (assumption | linarith)+
qed

definition ex_message :: photos_ready where
  "ex_message = \<lparr>rm_trip = 7, rm_exec = [101], rm_batch = 4,
     rm_attachments = [\<lparr>ra_id = 9, ra_key = ''k9''\<rparr>, \<lparr>ra_id = 8, ra_key = ''k8''\<rparr>]\<rparr>"

definition ex_staged :: redis where
  "ex_staged = op_run ex_env (OpStage ex_message ''a'' 1) Map.empty"

lemma ex_message_id: "photos_ready_identity ex_env ex_message = ex_id"
  by (simp add: photos_ready_identity_def ex_id_def job_identity_def ex_message_def ex_job_def)

lemma ex_stage: "stage_photos ex_env ex_message ''a'' 1 Map.empty = Done (Inr Staged)
   [SETc (KBatches ex_id) (VBuffer \<lparr>pb_topic = ''a'', pb_batches = [(int_str 4,
       [\<lparr>ra_id = 8, ra_key = ''k8''\<rparr>, \<lparr>ra_id = 9, ra_key = ''k9''\<rparr>])]\<rparr>),
    ZADDc KBatchQueue (photo_batch_member ex_id 4) 1, ZREMRANGEc KBatchQueue (1 - 3600)]"
  by (simp add: stage_photos_def ex_message_id key_exists_def get_buffer_def known_photos_def Let_def
      PHOTOS_READY_MAX_BYTES_def) (simp add: ex_message_def PHOTOS_READY_MAX_BYTES_def)

lemma staged_photos_bounded_witness:
  "length (pb_batches (the (get_buffer ex_staged ex_id))) \<le> 200"
proof -
  have r: "reachable ex_env ex_staged"
    unfolding ex_staged_def
    by (rule reachable.step[OF reachable.start store_step_op_run])
      (simp add: ex_message_def valid_photos_ready_def valid_ready_attachment_def)
  have "\<exists>b. get_buffer ex_staged ex_id = Some b"
    by (simp add: ex_staged_def ex_stage view_simps)
  then obtain b where "get_buffer ex_staged ex_id = Some b" ..
  with staged_photos_bounded[OF r this] show ?thesis by simp
qed

text \<open>A staged batch comes back as it was staged: the batch runner claims it with its identity,
  number and trip, and finds its photos in the order of their ids.\<close>

theorem staged_batch_round_trip:
  assumes "stage_photos E m topic now s = Done (Inr Staged) cs" and "get_zset s KBatchQueue = []"
    and "0 < cfg_photos_ttl (env_cfg E)"
  shows "\<exists>s'. claim_batch (exec cs s) =
      (Inr (Some \<lparr>bc_identity = photos_ready_identity E m, bc_batch = rm_batch m, bc_enqueued = now\<rparr>), s') \<and>
    photo_batch (photos_ready_identity E m) (rm_batch m) s' = Some (sort_key ra_id (rm_attachments m)) \<and>
    claim_trip_id \<lparr>bc_identity = photos_ready_identity E m, bc_batch = rm_batch m, bc_enqueued = now\<rparr>
      = Some (rm_trip m)"
proof -
  let ?i = "photos_ready_identity E m" and ?no = "int_str (rm_batch m)"
  let ?ps = "sort_key ra_id (rm_attachments m)" and ?mem = "photo_batch_member (photos_ready_identity E m) (rm_batch m)"
  define b where "b = buffer_or_new s ?i topic"
  have "attempt_cmds (stage_photos E m topic now s) \<noteq> []"
    using assms(1) unfolding stage_photos_def Let_def by (auto split: if_splits option.splits)
  from stage_shape[OF this refl] assms(1) have b: "map_of (pb_batches b) ?no = None"
    and cs: "cs = [SETc (KBatches ?i) (VBuffer (b\<lparr>pb_batches := dict_set ?no ?ps (pb_batches b)\<rparr>)),
       ZADDc KBatchQueue ?mem now, ZREMRANGEc KBatchQueue (now - cfg_photos_ttl (env_cfg E))]"
    unfolding b_def by auto
  have q: "get_zset (exec cs s) KBatchQueue = [(now, ?mem)]"
    using assms(2,3) by (simp add: cs view_simps zadd_def zrem_def)
  have buf: "exec cs s (KBatches ?i) = Some (VBuffer (b\<lparr>pb_batches := dict_set ?no ?ps (pb_batches b)\<rparr>))"
    by (simp add: cs)
  have "rsplit1 (CHR ''#'') ?mem = Some (?i, ?no)"
    unfolding photo_batch_member_def using rsplit1_append[OF int_str_no_colon(2), of ?i] by simp
  then have "claim_batch (exec cs s) = (Inr (Some \<lparr>bc_identity = ?i, bc_batch = rm_batch m,
      bc_enqueued = now\<rparr>), (exec cs s)(KBatchQueue \<mapsto> VZset []))"
    using buf by (simp add: claim_batch_def q Let_def key_exists_def)
  moreover have "photo_batch ?i (rm_batch m) ((exec cs s)(KBatchQueue \<mapsto> VZset [])) = Some ?ps"
    using buf by (simp add: photo_batch_def get_buffer_def)
  moreover have "claim_trip_id \<lparr>bc_identity = ?i, bc_batch = rm_batch m, bc_enqueued = now\<rparr> = Some (rm_trip m)"
    by (simp add: claim_trip_id_def photos_ready_identity_def second_field_identity)
  ultimately show ?thesis by blast
qed

lemma staged_batch_round_trip_witness:
  "fst (claim_batch ex_staged) =
     Inr (Some \<lparr>bc_identity = ex_id, bc_batch = 4, bc_enqueued = 1\<rparr>)"
proof -
  have e: "ex_staged = exec (attempt_cmds (stage_photos ex_env ex_message ''a'' 1 Map.empty)) Map.empty"
    by (simp add: ex_staged_def)
  have "get_zset Map.empty KBatchQueue = []" by (simp add: get_zset_def)
  from staged_batch_round_trip[OF ex_stage this] show ?thesis
    by (auto simp: e ex_stage ex_message_id simp del: exec.simps) (simp add: ex_message_def)
qed

end
