(* ===== verification/Photos.thy ===== *)
theory Photos
  imports Errors
begin

text \<open>
  \<open>src/app/pipeline/state.py\<close> and the request and result types of \<open>src/app/schemas/process.py\<close>:
  the photos of one run, their times, vectors and per-stage fields.

  A \<open>datetime\<close> is its local microseconds since the epoch with its UTC offset (\<open>None\<close>: naive);
  numpy's float vectors are rational vectors, so similarity is the exact dot product and
  \<open>isfinite\<close> holds of every value; KST is UTC+9.  Photos are objects the stages mutate in
  place: a stage is a function from the list of photos to the list of updated photos, in the
  same order.  The locale \<open>photo_stage\<close> is what every stage promises to the next.
\<close>

section \<open>Times\<close>

record dtime =
  dt_local :: int
  dt_off :: "int option"

definition instant :: "dtime \<Rightarrow> int" where
  "instant d = dt_local d - (case dt_off d of Some z \<Rightarrow> z | None \<Rightarrow> 0)"

definition DAY_US :: int where
  "DAY_US = 86400 * 1000000"

definition kst_day :: "dtime \<Rightarrow> int" where
  "kst_day d = (instant d + 9 * 3600 * 1000000) div DAY_US"

text \<open>\<open>datetime.min\<close> and \<open>datetime.max\<close>, whose local times bound every datetime.\<close>

definition MIN_LOCAL :: int where
  "MIN_LOCAL = -62135596800 * 1000000"

definition MAX_LOCAL :: int where
  "MAX_LOCAL = 253402300799 * 1000000 + 999999"

record period =
  pd_start :: int
  pd_end :: int

definition in_period_day :: "period \<Rightarrow> dtime \<Rightarrow> bool" where
  "in_period_day pd d \<longleftrightarrow> pd_start pd \<le> kst_day d \<and> kst_day d \<le> pd_end pd"

section \<open>Vectors\<close>

type_synonym vec = "rat list"

definition dot :: "vec \<Rightarrow> vec \<Rightarrow> rat" where
  "dot u v = sum_list (map2 (*) u v)"

definition clip1 :: "rat \<Rightarrow> rat" where
  "clip1 x = max (-1) (min 1 x)"

text \<open>\<open>np.isclose(norm, 1.0, rtol=1e-5, atol=1e-6)\<close> on the squared norm.\<close>

definition unit_vec :: "vec \<Rightarrow> bool" where
  "unit_vec v \<longleftrightarrow> v \<noteq> [] \<and> (1 - 11 / 1000000) ^ 2 \<le> dot v v \<and> dot v v \<le> (1 + 11 / 1000000) ^ 2"

definition argmax :: "rat list \<Rightarrow> nat" where
  "argmax xs = max_key (\<lambda>i. xs ! i) 0 [1..<length xs]"

lemma argmax_less: "xs \<noteq> [] \<Longrightarrow> argmax xs < length xs"
  using max_key_mem[of "\<lambda>i. xs ! i" 0 "[1..<length xs]"] by (auto simp: argmax_def)

lemma argmax_ge: "i < length xs \<Longrightarrow> xs ! i \<le> xs ! argmax xs"
  using max_key_ge[of i 0 "[1..<length xs]" "\<lambda>i. xs ! i"] by (cases i) (auto simp: argmax_def)

lemma dot_commute: "dot u v = dot v u"
proof (induction u arbitrary: v)
  case (Cons x u)
  then show ?case by (cases v) (simp_all add: dot_def mult.commute)
qed (simp add: dot_def)

section \<open>Photos\<close>

datatype time_status = PENDING | ORIGINAL | CORRECTED | UNKNOWN_TIME
datatype region_origin = EXIF | INFERRED | UNKNOWN_REGION
datatype issue = UNCLEAR_LOCATION | BLURRY | DUPLICATED

record attachment =
  at_id :: int
  at_key :: string
  at_taken :: "dtime option"
  at_lat :: "rat option"
  at_lon :: "rat option"
  at_device :: "utext option"

record photo_source =
  ps_id :: int
  ps_key :: string
  ps_taken :: "dtime option"
  ps_lat :: "rat option"
  ps_lon :: "rat option"
  ps_device :: "utext option"

definition has_gps :: "photo_source \<Rightarrow> bool" where
  "has_gps s \<longleftrightarrow> ps_lat s \<noteq> None \<and> ps_lon s \<noteq> None"

record photo =
  ph_src :: photo_source
  ph_taken :: "dtime option"
  ph_time :: time_status
  ph_lat :: "rat option"
  ph_lon :: "rat option"
  ph_origin :: region_origin
  ph_emb :: "vec option"
  ph_place :: "string option"
  ph_issue :: "issue option"
  ph_dup :: "int option"
  ph_eval :: "int option"

abbreviation ph_id :: "photo \<Rightarrow> int" where
  "ph_id p \<equiv> ps_id (ph_src p)"

abbreviation ph_gps :: "photo \<Rightarrow> bool" where
  "ph_gps p \<equiv> has_gps (ph_src p)"

record process_request =
  rq_exec :: "utext option"
  rq_name :: utext
  rq_period :: period
  rq_regions :: "(rat \<times> rat) list"
  rq_attachments :: "attachment list"

definition build_photo_state :: "attachment \<Rightarrow> photo" where
  "build_photo_state a =
     (let s = \<lparr>ps_id = at_id a, ps_key = at_key a, ps_taken = at_taken a, ps_lat = at_lat a,
               ps_lon = at_lon a, ps_device = at_device a\<rparr>;
          p = \<lparr>ph_src = s, ph_taken = None, ph_time = PENDING, ph_lat = None, ph_lon = None,
               ph_origin = UNKNOWN_REGION, ph_emb = None, ph_place = None, ph_issue = None,
               ph_dup = None, ph_eval = None\<rparr>
      in if has_gps s then p\<lparr>ph_lat := ps_lat s, ph_lon := ps_lon s, ph_origin := EXIF\<rparr> else p)"

definition build_photo_states :: "process_request \<Rightarrow> photo list" where
  "build_photo_states r = map build_photo_state (rq_attachments r)"

lemma build_ids: "map ph_id (build_photo_states r) = map at_id (rq_attachments r)"
  by (simp add: build_photo_states_def build_photo_state_def Let_def)

text \<open>The checks on the vectors of several photos: all unit vectors of one dimension.\<close>

definition vectors_ok :: "photo list \<Rightarrow> bool" where
  "vectors_ok ps \<longleftrightarrow>
     list_all (\<lambda>p. case ph_emb p of Some v \<Rightarrow> unit_vec v | None \<Rightarrow> False) ps \<and>
     length (dedup (map (\<lambda>p. length (the (ph_emb p))) ps)) \<le> 1"

definition emb :: "photo \<Rightarrow> vec" where
  "emb p = the (ph_emb p)"

definition sim :: "photo \<Rightarrow> photo \<Rightarrow> rat" where
  "sim p q = dot (emb p) (emb q)"

text \<open>\<open>photo is other\<close> on the photos of a run, whose ids are distinct.\<close>

definition by_id :: "photo list \<Rightarrow> int \<Rightarrow> photo option" where
  "by_id ps i = find (\<lambda>p. ph_id p = i) ps"

definition update_id :: "int \<Rightarrow> (photo \<Rightarrow> photo) \<Rightarrow> photo list \<Rightarrow> photo list" where
  "update_id i f ps = map (\<lambda>p. if ph_id p = i then f p else p) ps"

definition sort_id :: "photo list \<Rightarrow> photo list" where
  "sort_id ps = sort_key ph_id ps"

lemma set_sort_id [simp]: "set (sort_id ps) = set ps"
  by (simp add: sort_id_def)

lemma length_update_id [simp]: "length (update_id i f ps) = length ps"
  by (simp add: update_id_def)

lemma update_id_src [simp]:
  "(\<And>p. ph_src (f p) = ph_src p) \<Longrightarrow> map ph_src (update_id i f ps) = map ph_src ps"
  by (simp add: update_id_def)

lemma by_id_Some: "by_id ps i = Some p \<Longrightarrow> p \<in> set ps \<and> ph_id p = i"
  by (auto simp: by_id_def find_Some_iff)

lemma by_id_None: "by_id ps i = None \<longleftrightarrow> i \<notin> ph_id ` set ps"
  by (auto simp: by_id_def find_None_iff)

lemma by_id_update:
  assumes "\<And>p. ph_id (f p) = ph_id p"
  shows "by_id (update_id i f ps) j = (if j = i then map_option f (by_id ps i) else by_id ps j)"
  using assms by (induction ps) (auto simp: by_id_def update_id_def)

lemma by_id_distinct: "distinct (map ph_id ps) \<Longrightarrow> p \<in> set ps \<Longrightarrow> by_id ps (ph_id p) = Some p"
  by (induction ps) (auto simp: by_id_def)

lemma list_all2_by_id:
  assumes "list_all2 R xs ys" "map ph_id ys = map ph_id xs" "distinct (map ph_id xs)" "x \<in> set xs"
  shows "\<exists>y. by_id ys (ph_id x) = Some y \<and> R x y"
proof -
  from assms(4) obtain k where k: "k < length xs" "xs ! k = x" by (auto simp: in_set_conv_nth)
  with assms(1) have y: "k < length ys" "R x (ys ! k)" by (auto simp: list_all2_conv_all_nth)
  have "ph_id (ys ! k) = ph_id x"
    using arg_cong[OF assms(2), of "\<lambda>l. l ! k"] k y by simp
  moreover have "distinct (map ph_id ys)" using assms(2,3) by simp
  ultimately have "by_id ys (ph_id x) = Some (ys ! k)" using by_id_distinct[of ys "ys ! k"] y by simp
  with y show ?thesis by blast
qed

lemma distinct_sort_id: "distinct (map ph_id (sort_id ps)) \<longleftrightarrow> distinct (map ph_id ps)"
proof -
  have "mset (map ph_id (sort_id ps)) = mset (map ph_id ps)" by (simp add: sort_id_def)
  then show ?thesis using mset_eq_imp_distinct_iff by blast
qed

section \<open>What every stage promises\<close>

text \<open>
  A stage may raise; when it returns, it returns the same photo objects in the same order with
  their source untouched.  The next stage and \<open>run\<close> rely on it.
\<close>

locale photo_stage =
  fixes stage :: "photo list \<Rightarrow> pipeline_error + photo list"
  assumes keeps_src: "stage ps = Inr qs \<Longrightarrow> map ph_src qs = map ph_src ps"
begin

lemma keeps_length: "stage ps = Inr qs \<Longrightarrow> length qs = length ps"
  using keeps_src[of ps qs] by (metis length_map)

lemma keeps_ids: "stage ps = Inr qs \<Longrightarrow> map ph_id qs = map ph_id ps"
  using arg_cong[OF keeps_src, of ps qs "map ps_id"] by (simp add: comp_def)

lemma keeps_id_set: "stage ps = Inr qs \<Longrightarrow> ph_id ` set qs = ph_id ` set ps"
  using arg_cong[OF keeps_ids, of ps qs set] by simp

lemma keeps_distinct: "stage ps = Inr qs \<Longrightarrow> distinct (map ph_id ps) \<Longrightarrow> distinct (map ph_id qs)"
  using keeps_ids[of ps qs] by simp

end

lemma photo_stage_compose:
  assumes "photo_stage f" "photo_stage g"
  shows "photo_stage (\<lambda>ps. bindE (f ps) g)"
  by unfold_locales (auto dest!: photo_stage.keeps_src[OF assms(1)] photo_stage.keeps_src[OF assms(2)])

end
