(* ===== verification/Locating.thy ===== *)
theory Locating
  imports Photos
begin

text \<open>
  \<open>src/app/pipeline/steps/locating.py\<close>: photos outside the trip are separated, GPS photos keep
  their coordinates, the others inherit those of the most similar GPS photo.
\<close>

datatype loc_role = LSkip | LAnchor | LTarget

definition bad_time :: "photo \<Rightarrow> bool" where
  "bad_time p \<longleftrightarrow>
     (case ph_time p of
        PENDING \<Rightarrow> True
      | UNKNOWN_TIME \<Rightarrow> ph_taken p \<noteq> None
      | _ \<Rightarrow> (case ph_taken p of None \<Rightarrow> True | Some d \<Rightarrow> dt_off d = None))"

definition locate_role :: "period \<Rightarrow> photo \<Rightarrow> loc_role \<times> photo" where
  "locate_role pd p =
     (if ph_issue p \<noteq> None then (LSkip, p)
      else if (case ph_taken p of Some d \<Rightarrow> \<not> in_period_day pd d | None \<Rightarrow> False)
        then (LSkip, p\<lparr>ph_issue := Some UNCLEAR_LOCATION\<rparr>)
      else if ph_gps p
        then (LAnchor, p\<lparr>ph_lat := ps_lat (ph_src p), ph_lon := ps_lon (ph_src p), ph_origin := EXIF\<rparr>)
      else (LTarget, p\<lparr>ph_lat := None, ph_lon := None, ph_origin := UNKNOWN_REGION\<rparr>))"

definition nearest_anchor :: "photo list \<Rightarrow> photo \<Rightarrow> photo" where
  "nearest_anchor anchors p = max_key (\<lambda>a. clip1 (sim a p)) (hd anchors) (tl anchors)"

definition inherit :: "photo list \<Rightarrow> rat \<Rightarrow> photo \<Rightarrow> photo" where
  "inherit anchors min_sim p =
     (let a = nearest_anchor anchors p
      in if clip1 (sim a p) < min_sim then p\<lparr>ph_issue := Some UNCLEAR_LOCATION\<rparr>
         else p\<lparr>ph_lat := ps_lat (ph_src a), ph_lon := ps_lon (ph_src a), ph_origin := INFERRED\<rparr>)"

definition locate_photos :: "period \<Rightarrow> rat \<Rightarrow> photo list \<Rightarrow> pipeline_error + photo list" where
  "locate_photos pd min_sim ps =
     (if \<not> (-1 \<le> min_sim \<and> min_sim \<le> 1) then Inl pipeline_error_default
      else if pd_start pd > pd_end pd then Inl pipeline_error_default
      else if list_ex bad_time ps then Inl pipeline_error_default
      else
        let roles = map (locate_role pd) ps;
            anchors = sort_id (map snd (filter (\<lambda>(r, p). r = LAnchor) roles));
            targets = map snd (filter (\<lambda>(r, p). r = LTarget) roles)
        in if targets = [] then Inr (map snd roles)
           else if anchors = [] then
             Inr (map (\<lambda>(r, p). if r = LTarget then p\<lparr>ph_issue := Some UNCLEAR_LOCATION\<rparr> else p) roles)
           else if \<not> vectors_ok (anchors @ targets) then Inl pipeline_error_default
           else Inr (map (\<lambda>(r, p). if r = LTarget then inherit anchors min_sim p else p) roles))"

lemma locate_role_src [simp]: "ph_src (snd (locate_role pd p)) = ph_src p"
  by (simp add: locate_role_def)

lemma locate_role_keeps [simp]:
  "ph_taken (snd (locate_role pd p)) = ph_taken p" "ph_time (snd (locate_role pd p)) = ph_time p"
  "ph_emb (snd (locate_role pd p)) = ph_emb p" "ph_place (snd (locate_role pd p)) = ph_place p"
  "ph_dup (snd (locate_role pd p)) = ph_dup p"
  by (simp_all add: locate_role_def)

lemma inherit_keeps [simp]:
  "ph_src (inherit as m p) = ph_src p" "ph_taken (inherit as m p) = ph_taken p"
  "ph_time (inherit as m p) = ph_time p" "ph_emb (inherit as m p) = ph_emb p"
  "ph_place (inherit as m p) = ph_place p" "ph_dup (inherit as m p) = ph_dup p"
  by (simp_all add: inherit_def Let_def)

text \<open>The per-photo function \<open>locate_photos\<close> maps over the list.\<close>

definition locate_one :: "period \<Rightarrow> rat \<Rightarrow> photo list \<Rightarrow> photo \<Rightarrow> photo" where
  "locate_one pd m anchors p =
     (case locate_role pd p of
        (LTarget, q) \<Rightarrow> if anchors = [] then q\<lparr>ph_issue := Some UNCLEAR_LOCATION\<rparr> else inherit anchors m q
      | (_, q) \<Rightarrow> q)"

definition locate_anchors :: "period \<Rightarrow> photo list \<Rightarrow> photo list" where
  "locate_anchors pd ps = sort_id (map snd (filter (\<lambda>(r, p). r = LAnchor) (map (locate_role pd) ps)))"

lemma locate_photos_map:
  assumes "locate_photos pd m ps = Inr qs"
  shows "qs = map (locate_one pd m (locate_anchors pd ps)) ps \<and> \<not> list_ex bad_time ps \<and>
    pd_start pd \<le> pd_end pd"
proof -
  let ?T = "map snd (filter (\<lambda>(r, p). r = LTarget) (map (locate_role pd) ps))"
  have nt: "fst (locate_role pd p) \<noteq> LTarget" if "?T = []" "p \<in> set ps" for p
    using that by (auto simp: filter_empty_conv)
  have 1: "map snd (map (locate_role pd) ps) = map (locate_one pd m A) ps" if "?T = []" for A
    using nt[OF that] by (force simp: locate_one_def split: prod.splits loc_role.splits)
  have 2: "map (\<lambda>(r, p). if r = LTarget then p\<lparr>ph_issue := Some UNCLEAR_LOCATION\<rparr> else p)
      (map (locate_role pd) ps) = map (locate_one pd m []) ps"
    by (auto simp: locate_one_def split: prod.splits loc_role.splits)
  have 3: "map (\<lambda>(r, p). if r = LTarget then inherit A m p else p) (map (locate_role pd) ps) =
      map (locate_one pd m A) ps" if "A \<noteq> []" for A
    using that by (auto simp: locate_one_def split: prod.splits loc_role.splits)
  show ?thesis
    using assms 1 2 3[of "locate_anchors pd ps"] unfolding locate_photos_def Let_def
    by (fold locate_anchors_def) (auto split: if_splits)
qed

lemma locate_one_src [simp]: "ph_src (locate_one pd m A p) = ph_src p"
  by (simp add: locate_one_def locate_role_def)

lemma locate_one_keeps [simp]:
  "ph_taken (locate_one pd m A p) = ph_taken p" "ph_time (locate_one pd m A p) = ph_time p"
  "ph_emb (locate_one pd m A p) = ph_emb p" "ph_place (locate_one pd m A p) = ph_place p"
  "ph_dup (locate_one pd m A p) = ph_dup p"
  by (simp_all add: locate_one_def locate_role_def)

interpretation locate: photo_stage "locate_photos pd m" for pd m
  by unfold_locales (auto dest!: locate_photos_map)

section \<open>What \<open>locate_photos\<close> establishes\<close>

text \<open>
  A located photo has both coordinates and a known origin: its own (\<open>EXIF\<close>) or those of some
  GPS photo of the trip (\<open>INFERRED\<close>), which is itself located; every other photo has an issue.
\<close>

definition located :: "photo \<Rightarrow> bool" where
  "located p \<longleftrightarrow> ph_lat p \<noteq> None \<and> ph_lon p \<noteq> None \<and>
     (ph_origin p = EXIF \<and> ph_gps p \<and> ph_lat p = ps_lat (ph_src p) \<and> ph_lon p = ps_lon (ph_src p) \<or>
      ph_origin p = INFERRED \<and> \<not> ph_gps p)"

lemma locate_anchors_mem:
  "a \<in> set (locate_anchors pd ps) \<Longrightarrow>
   \<exists>p \<in> set ps. a = locate_one pd m A p \<and> ph_issue a = None \<and> ph_origin a = EXIF \<and> ph_gps a \<and>
     ph_lat a = ps_lat (ph_src a) \<and> ph_lon a = ps_lon (ph_src a)"
  by (fastforce simp: locate_anchors_def locate_one_def locate_role_def split: if_splits)

lemma nearest_anchor_mem: "A \<noteq> [] \<Longrightarrow> nearest_anchor A p \<in> set A"
  using max_key_mem[of "\<lambda>a. clip1 (sim a p)" "hd A" "tl A"] by (simp add: nearest_anchor_def)

lemma nearest_anchor_best: "a \<in> set A \<Longrightarrow> clip1 (sim a p) \<le> clip1 (sim (nearest_anchor A p) p)"
  using max_key_ge[of a "hd A" "tl A" "\<lambda>a. clip1 (sim a p)"]
  by (cases A) (simp_all add: nearest_anchor_def)

lemma locate_one_located:
  assumes "ph_issue (locate_one pd m (locate_anchors pd ps) p) = None"
  shows "located (locate_one pd m (locate_anchors pd ps) p)"
proof -
  let ?A = "locate_anchors pd ps"
  obtain r q where rq: "locate_role pd p = (r, q)" by (cases "locate_role pd p")
  show ?thesis
  proof (cases r)
    case LSkip
    with assms rq show ?thesis by (auto simp: locate_one_def locate_role_def split: if_splits)
  next
    case LAnchor
    with rq show ?thesis
      by (auto simp: locate_one_def locate_role_def located_def has_gps_def split: if_splits)
  next
    case LTarget
    with rq have q: "\<not> ph_gps q"
      by (auto simp: locate_role_def split: if_splits)
    from assms rq LTarget have ne: "?A \<noteq> []" by (auto simp: locate_one_def split: if_splits)
    let ?a = "nearest_anchor ?A q"
    from locate_anchors_mem[OF nearest_anchor_mem[OF ne, of q]] have "ph_gps ?a" by blast
    moreover have one: "locate_one pd m ?A p = inherit ?A m q"
      using rq LTarget ne by (simp add: locate_one_def)
    moreover have "\<not> clip1 (sim ?a q) < m"
      using assms unfolding one by (auto simp: inherit_def Let_def)
    ultimately show ?thesis
      using q by (simp add: inherit_def located_def Let_def) (simp add: has_gps_def)
  qed
qed

lemma locate_inferred_anchor:
  assumes p: "p \<in> set ps" and o: "ph_origin (locate_one pd m (locate_anchors pd ps) p) = INFERRED"
    and i: "ph_issue (locate_one pd m (locate_anchors pd ps) p) = None"
  shows "\<exists>a \<in> set ps. let b = locate_one pd m (locate_anchors pd ps) a in
     ph_issue b = None \<and> ph_origin b = EXIF \<and>
     ph_lat b = ph_lat (locate_one pd m (locate_anchors pd ps) p) \<and>
     ph_lon b = ph_lon (locate_one pd m (locate_anchors pd ps) p)"
proof -
  let ?A = "locate_anchors pd ps"
  obtain r q where rq: "locate_role pd p = (r, q)" by (cases "locate_role pd p")
  have "r = LTarget"
    using o i rq by (cases r) (auto simp: locate_one_def locate_role_def split: if_splits)
  with i rq have ne: "?A \<noteq> []" by (auto simp: locate_one_def split: if_splits)
  let ?a = "nearest_anchor ?A q"
  from locate_anchors_mem[OF nearest_anchor_mem[OF ne, of q], of m ?A] obtain a where
    a: "a \<in> set ps" "?a = locate_one pd m ?A a" "ph_issue ?a = None" "ph_origin ?a = EXIF"
    "ph_lat ?a = ps_lat (ph_src ?a)" "ph_lon ?a = ps_lon (ph_src ?a)" by blast
  have "ph_lat (locate_one pd m ?A p) = ph_lat ?a \<and> ph_lon (locate_one pd m ?A p) = ph_lon ?a"
    using i rq \<open>r = LTarget\<close> ne a by (auto simp: locate_one_def inherit_def Let_def split: if_splits)
  with a show ?thesis by (intro bexI[of _ a]) (simp_all add: Let_def)
qed

end
