(* ===== verification/Clustering.thy ===== *)
theory Clustering
  imports Locating
begin

text \<open>
  \<open>src/app/pipeline/steps/clustering.py\<close> and \<open>assigning.py\<close>: photos with coordinates are grouped
  into places, then photos without a location are put into places by their time and by their
  looks until nothing changes.  scikit-learn's DBSCAN (with \<open>np.radians\<close>) is the parameter
  \<open>dbscan\<close>: from the radius in radians, the minimal count and the coordinates in degrees to one
  label per point, -1 for noise.
\<close>

section \<open>CLUSTERING\<close>

type_synonym dbscan = "rat \<Rightarrow> nat \<Rightarrow> (rat \<times> rat) list \<Rightarrow> int list"

definition EARTH_RADIUS_M :: rat where
  "EARTH_RADIUS_M = 6371000"

definition place_name :: "nat \<Rightarrow> string" where
  "place_name n = CHR ''p'' # nat_str n"

fun label_places :: "int list \<Rightarrow> (int, string) pydict \<Rightarrow> string option list" where
  "label_places [] d = []"
| "label_places (l # ls) d =
     (if l = -1 then None # label_places ls d
      else (case map_of d l of
              Some pl \<Rightarrow> Some pl # label_places ls d
            | None \<Rightarrow> let pl = place_name (length d + 1) in Some pl # label_places ls (d @ [(l, pl)])))"

definition cluster_candidates :: "photo list \<Rightarrow> photo list" where
  "cluster_candidates ps = sort_id (filter (\<lambda>p. ph_issue p = None) ps)"

definition coords :: "photo \<Rightarrow> rat \<times> rat" where
  "coords p = (the (ph_lat p), the (ph_lon p))"

definition put_place :: "string option \<Rightarrow> photo \<Rightarrow> photo" where
  "put_place pl p =
     (case pl of None \<Rightarrow> p\<lparr>ph_place := None, ph_issue := Some UNCLEAR_LOCATION\<rparr>
               | Some x \<Rightarrow> p\<lparr>ph_place := Some x\<rparr>)"

definition cluster_photos ::
  "dbscan \<Rightarrow> rat \<Rightarrow> int \<Rightarrow> photo list \<Rightarrow> pipeline_error + photo list" where
  "cluster_photos dbscan eps_m min_samples ps =
     (if eps_m \<le> 0 then Inl pipeline_error_default
      else if min_samples < 1 then Inl pipeline_error_default
      else
        let cs = cluster_candidates ps
        in if cs = [] then Inr ps
           else if list_ex (\<lambda>p. ph_lat p = None \<or> ph_lon p = None \<or> ph_origin p = UNKNOWN_REGION) cs
             then Inl pipeline_error_default
           else if list_ex (\<lambda>p. \<bar>fst (coords p)\<bar> > 90 \<or> \<bar>snd (coords p)\<bar> > 180) cs
             then Inl pipeline_error_default
           else
             let labels = dbscan (eps_m / EARTH_RADIUS_M) (nat min_samples) (map coords cs)
             in if length labels \<noteq> length cs then Inl pipeline_error_default
                else
                  let placed = zip (map ph_id cs) (label_places labels [])
                  in Inr (map (\<lambda>p. if ph_issue p = None
                                    then (case map_of placed (ph_id p) of
                                            Some pl \<Rightarrow> put_place pl p | None \<Rightarrow> p)
                                    else p) ps))"

section \<open>Assigning unlocated photos\<close>

definition in_period :: "period \<Rightarrow> photo \<Rightarrow> bool" where
  "in_period pd p = (case ph_taken p of None \<Rightarrow> True | Some d \<Rightarrow> in_period_day pd d)"

definition assign_target :: "period \<Rightarrow> photo \<Rightarrow> bool" where
  "assign_target pd p \<longleftrightarrow> ph_issue p = Some UNCLEAR_LOCATION \<and> \<not> ph_gps p \<and> in_period pd p"

definition place_anchors :: "string \<Rightarrow> photo list \<Rightarrow> photo list" where
  "place_anchors pl ps = filter (\<lambda>p. ph_place p = Some pl \<and> ph_origin p = EXIF) ps"

definition placed_at :: "string \<Rightarrow> photo \<Rightarrow> photo \<Rightarrow> photo" where
  "placed_at pl nearest p =
     p\<lparr>ph_place := Some pl, ph_lat := ph_lat nearest, ph_lon := ph_lon nearest,
       ph_origin := INFERRED, ph_issue := None\<rparr>"

text \<open>\<open>_place(photo, place_id, photos)\<close>.\<close>

definition place_photo :: "int \<Rightarrow> string \<Rightarrow> photo list \<Rightarrow> pipeline_error + photo list" where
  "place_photo i pl ps =
     (case place_anchors pl ps of
        [] \<Rightarrow> Inl pipeline_error_default
      | a # as \<Rightarrow>
          (case by_id ps i of
             None \<Rightarrow> Inr ps
           | Some p \<Rightarrow> Inr (update_id i (placed_at pl (max_key (\<lambda>q. sim q p) a as)) ps)))"

type_synonym track = "(int \<times> int \<times> string) list"

definition time_track :: "photo list \<Rightarrow> track" where
  "time_track ps =
     sort (concat (map (\<lambda>p. case (ph_place p, ph_taken p) of
                              (Some pl, Some d) \<Rightarrow> [(instant d, ph_id p, pl)]
                            | _ \<Rightarrow> []) ps))"

definition time_place :: "track \<Rightarrow> rat \<Rightarrow> int \<Rightarrow> string option" where
  "time_place track gap_min t =
     (let earlier = filter (\<lambda>(u, _). u \<le> t) track; later = filter (\<lambda>(u, _). t \<le> u) track
      in if earlier \<noteq> [] \<and> later \<noteq> [] then
           (let (t1, i1, p1) = last earlier; (t2, i2, p2) = hd later
            in if p1 = p2 \<and> of_int (t - t1) \<le> gap_min * 60000000 \<and>
                  of_int (t2 - t) \<le> gap_min * 60000000
               then Some p1 else None)
         else None)"

type_synonym assign_state = "photo list \<times> nat \<times> bool"

definition time_step ::
  "track \<Rightarrow> rat \<Rightarrow> int \<Rightarrow> assign_state \<Rightarrow> pipeline_error + assign_state" where
  "time_step track gap_min i st =
     (let (ps, n, changed) = st
      in case by_id ps i of
           None \<Rightarrow> Inr st
         | Some p \<Rightarrow>
             (case (ph_place p, ph_taken p) of
                (None, Some d) \<Rightarrow>
                  (case time_place track gap_min (instant d) of
                     None \<Rightarrow> Inr st
                   | Some pl \<Rightarrow> bindE (place_photo i pl ps) (\<lambda>qs. Inr (qs, n + 1, True)))
              | _ \<Rightarrow> Inr st))"

definition similar_folders :: "rat \<Rightarrow> photo \<Rightarrow> photo list \<Rightarrow> string list" where
  "similar_folders min_sim p ps =
     dedup (concat (map (\<lambda>q. case ph_place q of
        Some pl \<Rightarrow> if ph_id q \<noteq> ph_id p \<and> min_sim \<le> sim q p then [pl] else [] | None \<Rightarrow> []) ps))"

definition similar_step ::
  "rat \<Rightarrow> int \<Rightarrow> assign_state \<Rightarrow> pipeline_error + assign_state" where
  "similar_step min_sim i st =
     (let (ps, n, changed) = st
      in case by_id ps i of
           None \<Rightarrow> Inr st
         | Some p \<Rightarrow>
             if ph_place p \<noteq> None then Inr st
             else (case similar_folders min_sim p ps of
                     [pl] \<Rightarrow> bindE (place_photo i pl ps) (\<lambda>qs. Inr (qs, n + 1, True))
                   | _ \<Rightarrow> Inr st))"

definition assign_round ::
  "rat \<Rightarrow> rat \<Rightarrow> int list \<Rightarrow> photo list \<times> nat \<Rightarrow> pipeline_error + assign_state" where
  "assign_round min_sim gap_min ids st =
     (let (ps, n) = st
      in bindE (foldE (time_step (time_track ps) gap_min) ids (ps, n, False))
           (foldE (similar_step min_sim) ids))"

text \<open>\<open>while changed\<close>: \<open>None\<close> is out of fuel.\<close>

fun assign_loop ::
  "nat \<Rightarrow> rat \<Rightarrow> rat \<Rightarrow> int list \<Rightarrow> photo list \<times> nat \<Rightarrow> (pipeline_error + (photo list \<times> nat)) option" where
  "assign_loop 0 min_sim gap_min ids st = None"
| "assign_loop (Suc fuel) min_sim gap_min ids st =
     (case assign_round min_sim gap_min ids st of
        Inl e \<Rightarrow> Some (Inl e)
      | Inr (ps, n, changed) \<Rightarrow>
          if changed then assign_loop fuel min_sim gap_min ids (ps, n) else Some (Inr (ps, n)))"

definition assign_ids :: "period \<Rightarrow> photo list \<Rightarrow> int list" where
  "assign_ids pd ps = map ph_id (filter (assign_target pd) (sort_id ps))"

definition assign_unlocated ::
  "period \<Rightarrow> rat \<Rightarrow> rat \<Rightarrow> photo list \<Rightarrow> (pipeline_error + (photo list \<times> nat)) option" where
  "assign_unlocated pd min_sim gap_min ps =
     (if \<not> (-1 \<le> min_sim \<and> min_sim \<le> 1) then Some (Inl pipeline_error_default)
      else if gap_min < 0 then Some (Inl pipeline_error_default)
      else
        let ordered = sort_id ps; ids = assign_ids pd ps
        in if ids = [] then Some (Inr (ps, 0))
           else if list_ex (\<lambda>p. ph_emb p = None \<and> (ph_place p \<noteq> None \<or> ph_id p \<in> set ids)) ordered
             then Some (Inl pipeline_error_default)
           else
             (case assign_loop (length ids + 1) min_sim gap_min ids (ordered, 0) of
                None \<Rightarrow> None
              | Some (Inl e) \<Rightarrow> Some (Inl e)
              | Some (Inr (qs, n)) \<Rightarrow>
                  Some (Inr (map (\<lambda>p. case by_id qs (ph_id p) of Some q \<Rightarrow> q | None \<Rightarrow> p) ps, n))))"

end
