(* ===== verification/Assigning.thy ===== *)
theory Assigning
  imports Clustering
begin

text \<open>
  Lemmas on \<open>Clustering\<close>: clustering numbers its places p1, p2, ... by first photo, assigning
  moves only unplaced targets and always next to a GPS photo of the place it chooses, its loop
  ends, and it never raises once every place holds a GPS photo.
\<close>

section \<open>What placing keeps\<close>

lemma placed_at_simps [simp]:
  "ph_src (placed_at pl a p) = ph_src p" "ph_place (placed_at pl a p) = Some pl"
  "ph_origin (placed_at pl a p) = INFERRED" "ph_issue (placed_at pl a p) = None"
  "ph_lat (placed_at pl a p) = ph_lat a" "ph_lon (placed_at pl a p) = ph_lon a"
  "ph_taken (placed_at pl a p) = ph_taken p" "ph_time (placed_at pl a p) = ph_time p"
  "ph_emb (placed_at pl a p) = ph_emb p" "ph_dup (placed_at pl a p) = ph_dup p"
  by (simp_all add: placed_at_def)

section \<open>What assigning may do to a photo\<close>

text \<open>A photo is left alone, or it was an unplaced target and goes to a place \<open>pl\<close> with the
  coordinates of one of its GPS photos.\<close>

definition moved :: "(string \<Rightarrow> photo list) \<Rightarrow> int list \<Rightarrow> photo \<Rightarrow> photo \<Rightarrow> bool" where
  "moved A ids p q \<longleftrightarrow> q = p \<or> (ph_id p \<in> set ids \<and> ph_place p = None \<and>
     (\<exists>pl. \<exists>a \<in> set (A pl). q = placed_at pl a p))"

lemma moved_refl [simp]: "moved A ids p p"
  by (simp add: moved_def)

lemma moved_trans: "moved A ids p q \<Longrightarrow> moved A ids q r \<Longrightarrow> moved A ids p r"
  by (auto simp: moved_def)

lemma moved_src: "moved A ids p q \<Longrightarrow> ph_src q = ph_src p"
  by (auto simp: moved_def)

lemma moved_list_refl: "list_all2 (moved A ids) ps ps"
  by (simp add: list_all2_same)

lemma moved_list_trans:
  "list_all2 (moved A ids) ps qs \<Longrightarrow> list_all2 (moved A ids) qs rs \<Longrightarrow> list_all2 (moved A ids) ps rs"
  by (rule list_all2_trans[OF moved_trans])

lemma moved_anchors: "list_all2 (moved A ids) ps qs \<Longrightarrow> place_anchors pl qs = place_anchors pl ps"
  by (induction rule: list_all2_induct) (auto simp: place_anchors_def moved_def)

lemma moved_list_src: "list_all2 (moved A ids) ps qs \<Longrightarrow> map ph_src qs = map ph_src ps"
  by (induction rule: list_all2_induct) (auto dest: moved_src)

definition unplaced :: "int list \<Rightarrow> photo list \<Rightarrow> nat" where
  "unplaced ids ps =
     length (filter (\<lambda>i. case by_id ps i of Some p \<Rightarrow> ph_place p = None | None \<Rightarrow> False) ids)"

lemma unplaced_update:
  assumes "by_id ps i = Some p" "ph_place p = None" "i \<in> set ids" "distinct ids"
  shows "Suc (unplaced ids (update_id i (placed_at pl a) ps)) = unplaced ids ps"
proof -
  let ?P = "\<lambda>qs j. case by_id qs j of Some p \<Rightarrow> ph_place p = None | None \<Rightarrow> False"
  have c: "length (filter P ids) = card {j \<in> set ids. P j}" for P
    using distinct_card[of "filter P ids"] assms(4) by simp
  have "{j \<in> set ids. ?P ps j} = insert i {j \<in> set ids. ?P (update_id i (placed_at pl a) ps) j}"
    using assms(1-3) by (auto simp: by_id_update)
  moreover have "i \<notin> {j \<in> set ids. ?P (update_id i (placed_at pl a) ps) j}"
    using assms(1) by (simp add: by_id_update)
  ultimately show ?thesis
    unfolding unplaced_def c by simp
qed

lemma update_moved:
  assumes p: "by_id ps i = Some p" "ph_place p = None" "i \<in> set ids" and a: "a \<in> set (A pl)"
    and same: "\<And>q. q \<in> set ps \<Longrightarrow> ph_id q = i \<Longrightarrow> q = p"
  shows "list_all2 (moved A ids) ps (update_id i (placed_at pl a) ps)"
  unfolding update_id_def list_all2_map2 list_all2_same
  using assms by (auto simp: moved_def)

section \<open>One step, one round, the loop\<close>

text \<open>The invariant of the loop started from \<open>ps0\<close>: photos move as \<open>moved\<close> says, and the number
  of photos put into places is what the unplaced targets lost.\<close>

definition assign_inv :: "photo list \<Rightarrow> int list \<Rightarrow> photo list \<times> nat \<Rightarrow> bool" where
  "assign_inv ps0 ids st \<longleftrightarrow>
     list_all2 (moved (\<lambda>pl. place_anchors pl ps0) ids) ps0 (fst st) \<and>
     snd st + unplaced ids (fst st) = unplaced ids ps0 \<and> distinct (map ph_id (fst st))"

lemma assign_inv_start: "distinct (map ph_id ps) \<Longrightarrow> assign_inv ps ids (ps, 0)"
  by (simp add: assign_inv_def moved_list_refl)

lemma place_photo_inv:
  assumes inv: "assign_inv ps0 ids (ps, n)" and p: "by_id ps i = Some p" "ph_place p = None"
    and i: "i \<in> set ids" and d: "distinct ids" and r: "place_photo i pl ps = Inr qs"
  shows "assign_inv ps0 ids (qs, n + 1)"
proof -
  from r p obtain a as where an: "place_anchors pl ps = a # as"
    and qs: "qs = update_id i (placed_at pl (max_key (\<lambda>q. sim q p) a as)) ps"
    by (auto simp: place_photo_def split: list.splits)
  let ?a = "max_key (\<lambda>q. sim q p) a as" and ?A = "\<lambda>pl. place_anchors pl ps0"
  have m: "list_all2 (moved ?A ids) ps0 ps" and dis: "distinct (map ph_id ps)"
    using inv by (simp_all add: assign_inv_def)
  have "?a \<in> set (a # as)" by (rule max_key_mem)
  then have "?a \<in> set (place_anchors pl ps0)" using moved_anchors[OF m, of pl] an by metis
  moreover have "q = p" if "q \<in> set ps" "ph_id q = i" for q
    using by_id_distinct[OF dis that(1)] that(2) p(1) by simp
  ultimately have "list_all2 (moved ?A ids) ps qs"
    unfolding qs using p i by (intro update_moved) auto
  moreover have "Suc (unplaced ids qs) = unplaced ids ps"
    unfolding qs by (rule unplaced_update[OF p i d])
  moreover have "map ph_id qs = map ph_id ps" unfolding qs by (simp add: update_id_def)
  ultimately show ?thesis
    using inv moved_list_trans[OF m] dis by (simp add: assign_inv_def)
qed

lemma time_step_inv:
  assumes "time_step tr gap i (ps, n, c) = Inr (qs, n', c')" "assign_inv ps0 ids (ps, n)"
    "i \<in> set ids" "distinct ids"
  shows "assign_inv ps0 ids (qs, n') \<and> (c' \<longrightarrow> c \<or> n < n') \<and> n \<le> n' \<and> (\<not> c' \<longrightarrow> (qs, n') = (ps, n))"
  using assms place_photo_inv[OF assms(2) _ _ assms(3,4)]
  by (auto simp: time_step_def split: option.splits)

lemma similar_step_inv:
  assumes "similar_step ms i (ps, n, c) = Inr (qs, n', c')" "assign_inv ps0 ids (ps, n)"
    "i \<in> set ids" "distinct ids"
  shows "assign_inv ps0 ids (qs, n') \<and> (c' \<longrightarrow> c \<or> n < n') \<and> n \<le> n' \<and> (\<not> c' \<longrightarrow> (qs, n') = (ps, n))"
  using assms place_photo_inv[OF assms(2) _ _ assms(3,4)]
  by (auto simp: similar_step_def split: option.splits if_splits list.splits)

definition round_inv :: "photo list \<Rightarrow> int list \<Rightarrow> photo list \<times> nat \<Rightarrow> assign_state \<Rightarrow> bool" where
  "round_inv ps0 ids st st' \<longleftrightarrow>
     (let (qs, n', c) = st' in assign_inv ps0 ids (qs, n') \<and> snd st \<le> n' \<and> (c \<longrightarrow> snd st < n') \<and>
        (\<not> c \<longrightarrow> (qs, n') = st))"

lemma round_inv_step:
  assumes "round_inv ps0 ids st (ps, n, c)"
    and "assign_inv ps0 ids (ps, n) \<Longrightarrow>
      assign_inv ps0 ids (qs, n') \<and> (c' \<longrightarrow> c \<or> n < n') \<and> n \<le> n' \<and> (\<not> c' \<longrightarrow> (qs, n') = (ps, n))"
    and "c \<longrightarrow> c'"
  shows "round_inv ps0 ids st (qs, n', c')"
  using assms by (auto simp: round_inv_def)

lemma time_step_flag: "time_step tr gap i (ps, n, c) = Inr (qs, n', c') \<Longrightarrow> c \<Longrightarrow> c'"
  by (auto simp: time_step_def split: option.splits)

lemma similar_step_flag: "similar_step ms i (ps, n, c) = Inr (qs, n', c') \<Longrightarrow> c \<Longrightarrow> c'"
  by (auto simp: similar_step_def split: option.splits if_splits list.splits)

lemma time_step_round:
  assumes "i \<in> set ids" "distinct ids" "time_step tr gap i s = Inr s'" "round_inv ps0 ids st s"
  shows "round_inv ps0 ids st s'"
proof -
  obtain a m b a' m' b' where e: "s = (a, m, b)" "s' = (a', m', b')" by (cases s; cases s')
  note t = assms(3)[unfolded e]
  show ?thesis
    unfolding e
  proof (rule round_inv_step[OF assms(4)[unfolded e]])
    show "b \<longrightarrow> b'" using time_step_flag[OF t] by simp
  qed (rule time_step_inv[OF t _ assms(1,2)])
qed

lemma similar_step_round:
  assumes "i \<in> set ids" "distinct ids" "similar_step ms i s = Inr s'" "round_inv ps0 ids st s"
  shows "round_inv ps0 ids st s'"
proof -
  obtain a m b a' m' b' where e: "s = (a, m, b)" "s' = (a', m', b')" by (cases s; cases s')
  note t = assms(3)[unfolded e]
  show ?thesis
    unfolding e
  proof (rule round_inv_step[OF assms(4)[unfolded e]])
    show "b \<longrightarrow> b'" using similar_step_flag[OF t] by simp
  qed (rule similar_step_inv[OF t _ assms(1,2)])
qed

lemma assign_round_inv:
  assumes "assign_round ms gap ids st = Inr (qs, n', c)" "assign_inv ps0 ids st" "distinct ids"
  shows "assign_inv ps0 ids (qs, n') \<and> (c \<longrightarrow> snd st < n') \<and> (\<not> c \<longrightarrow> (qs, n') = st)"
proof -
  obtain ps n where st: "st = (ps, n)" by (cases st)
  from assms(1) st obtain mid where
    1: "foldE (time_step (time_track ps) gap) ids (ps, n, False) = Inr mid"
    and 2: "foldE (similar_step ms) ids mid = Inr (qs, n', c)" by (auto simp: assign_round_def)
  have "round_inv ps0 ids st (ps, n, False)" using assms(2) st by (simp add: round_inv_def)
  with 1 have "round_inv ps0 ids st mid"
    by (rule foldE_invariant) (rule time_step_round[OF _ assms(3)])
  with 2 have "round_inv ps0 ids st (qs, n', c)"
    by (rule foldE_invariant) (rule similar_step_round[OF _ assms(3)])
  then show ?thesis by (simp add: round_inv_def)
qed

lemma assign_loop_inv:
  assumes "assign_loop fuel ms gap ids st = Some (Inr st')" "assign_inv ps0 ids st" "distinct ids"
  shows "assign_inv ps0 ids st'"
  using assms
proof (induction fuel arbitrary: st)
  case (Suc fuel)
  then obtain qs n c where r: "assign_round ms gap ids st = Inr (qs, n, c)"
    by (auto split: sum.splits)
  from assign_round_inv[OF r Suc.prems(2,3)] Suc r show ?case by (auto split: if_splits)
qed simp

lemma assign_loop_fuel:
  assumes "unplaced ids (fst st) < fuel" "assign_inv ps0 ids st" "distinct ids"
  shows "assign_loop fuel ms gap ids st \<noteq> None"
  using assms
proof (induction fuel arbitrary: st)
  case (Suc fuel)
  show ?case
  proof (cases "assign_round ms gap ids st")
    case (Inr r)
    obtain qs n c where r: "r = (qs, n, c)" by (cases r)
    note ri = assign_round_inv[OF Inr[unfolded r] Suc.prems(2,3)]
    show ?thesis
    proof (cases c)
      case True
      with ri Suc.prems(2) have "unplaced ids qs < unplaced ids (fst st)"
        by (auto simp: assign_inv_def)
      with Suc.prems(1) have "unplaced ids (fst (qs, n)) < fuel" by simp
      from Suc.IH[OF this _ Suc.prems(3)] ri Inr r True show ?thesis by simp
    qed (use Inr r in simp)
  qed simp
qed simp

lemma unplaced_le: "unplaced ids ps \<le> length ids"
  by (simp add: unplaced_def)

section \<open>No round fails when every place holds a GPS photo\<close>

definition grounded :: "photo list \<Rightarrow> bool" where
  "grounded ps \<longleftrightarrow> (\<forall>p \<in> set ps. \<forall>pl. ph_place p = Some pl \<longrightarrow> place_anchors pl ps \<noteq> [])"

lemma moved_grounded:
  assumes "grounded ps" "list_all2 (moved (\<lambda>pl. place_anchors pl ps) ids) ps qs"
  shows "grounded qs"
  unfolding grounded_def
proof (intro ballI allI impI)
  fix q pl assume q: "q \<in> set qs" "ph_place q = Some pl"
  from q(1) assms(2) obtain p where p: "p \<in> set ps" "moved (\<lambda>pl. place_anchors pl ps) ids p q"
    by (metis in_set_conv_nth list_all2_conv_all_nth)
  then have "place_anchors pl ps \<noteq> []"
    using assms(1) q(2) by (auto simp: moved_def grounded_def)
  with moved_anchors[OF assms(2)] show "place_anchors pl qs \<noteq> []" by simp
qed

lemma assign_inv_grounded: "grounded ps0 \<Longrightarrow> assign_inv ps0 ids st \<Longrightarrow> grounded (fst st)"
  unfolding assign_inv_def using moved_grounded by blast

lemma place_photo_grounded:
  "grounded ps \<Longrightarrow> q \<in> set ps \<Longrightarrow> ph_place q = Some pl \<Longrightarrow> \<exists>qs. place_photo i pl ps = Inr qs"
  by (auto simp: place_photo_def grounded_def split: list.splits option.splits)

lemma time_track_place:
  "(t, i, pl) \<in> set (time_track ps) \<Longrightarrow> \<exists>q \<in> set ps. ph_place q = Some pl"
  by (fastforce simp: time_track_def split: option.splits)

lemma time_place_track:
  "time_place tr gap t = Some pl \<Longrightarrow> \<exists>u i. (u, i, pl) \<in> set tr"
proof -
  let ?b = "filter (\<lambda>(u, _). u \<le> t) tr"
  assume "time_place tr gap t = Some pl"
  then have ne: "?b \<noteq> []" and pl: "pl = snd (snd (last ?b))"
    by (auto simp: time_place_def Let_def split: if_splits prod.splits)
  obtain u i p where l: "last ?b = (u, i, p)" by (cases "last ?b")
  from last_in_set[OF ne] have "last ?b \<in> set tr" by auto
  with l pl show ?thesis by auto
qed

lemma time_step_grounded:
  assumes "assign_inv ps0 ids (fst s, fst (snd s))" "grounded ps0"
    and tr: "\<And>u i pl. (u, i, pl) \<in> set tr \<Longrightarrow> place_anchors pl ps0 \<noteq> []"
  shows "\<exists>s'. time_step tr gap i s = Inr s'"
proof -
  obtain ps n c where s: "s = (ps, n, c)" by (cases s)
  have "place_anchors pl ps = place_anchors pl ps0" for pl
    using assms(1) moved_anchors by (fastforce simp: s assign_inv_def)
  then show ?thesis
    using tr time_place_track[of tr gap]
    by (fastforce simp: s time_step_def place_photo_def split: option.split list.split)
qed

lemma similar_folders_place:
  "pl \<in> set (similar_folders ms p ps) \<Longrightarrow> \<exists>q \<in> set ps. ph_place q = Some pl"
  by (fastforce simp: similar_folders_def split: option.splits if_splits)

lemma similar_step_grounded:
  assumes "assign_inv ps0 ids (fst s, fst (snd s))" "grounded ps0"
  shows "\<exists>s'. similar_step ms i s = Inr s'"
proof -
  obtain ps n c where s: "s = (ps, n, c)" by (cases s)
  have g: "grounded ps" using assign_inv_grounded[OF assms(2,1)] by (simp add: s)
  have "\<exists>qs. place_photo i pl ps = Inr qs" if "similar_folders ms p ps = [pl]" for p pl
    using similar_folders_place[of pl ms p ps] that place_photo_grounded[OF g] by fastforce
  then show ?thesis
    by (fastforce simp: s similar_step_def split: option.split list.split)
qed

lemma foldE_total:
  assumes "P s" "\<And>x s. x \<in> set xs \<Longrightarrow> P s \<Longrightarrow> \<exists>s'. f x s = Inr s' \<and> P s'"
  shows "\<exists>t. foldE f xs s = Inr t \<and> P t"
  using assms
proof (induction xs arbitrary: s)
  case (Cons x xs)
  then obtain s' where "f x s = Inr s'" "P s'" by (meson list.set_intros(1))
  with Cons show ?case by auto
qed simp

lemma assign_round_total:
  assumes inv: "assign_inv ps0 ids (ps, n)" and g: "grounded ps0" and d: "distinct ids"
  shows "\<exists>r. assign_round ms gap ids (ps, n) = Inr r"
proof -
  let ?P = "round_inv ps0 ids (ps, n)"
  have P0: "?P (ps, n, False)" using inv by (simp add: round_inv_def)
  have ai: "assign_inv ps0 ids (fst s, fst (snd s))" if "?P s" for s
    using that by (auto simp: round_inv_def)
  have tr: "place_anchors pl ps0 \<noteq> []" if "(u, i, pl) \<in> set (time_track ps)" for u i pl
    using time_track_place[OF that] assign_inv_grounded[OF g inv] inv moved_anchors
    by (fastforce simp: grounded_def assign_inv_def)
  have "\<exists>t. foldE (time_step (time_track ps) gap) ids (ps, n, False) = Inr t \<and> ?P t"
  proof (rule foldE_total[of ?P, OF P0])
    fix i s assume i: "i \<in> set ids" and Ps: "?P s"
    obtain s' where s': "time_step (time_track ps) gap i s = Inr s'" using time_step_grounded[OF ai[OF Ps] g, of "time_track ps"] tr
      by blast
    with time_step_round[OF i d s' Ps] show "\<exists>s'. time_step (time_track ps) gap i s = Inr s' \<and> ?P s'" by blast
  qed
  then obtain t where t: "foldE (time_step (time_track ps) gap) ids (ps, n, False) = Inr t" "?P t"
    by blast
  have "\<exists>r. foldE (similar_step ms) ids t = Inr r \<and> ?P r"
  proof (rule foldE_total[of ?P, OF t(2)])
    fix i s assume i: "i \<in> set ids" and Ps: "?P s"
    obtain s' where s': "similar_step ms i s = Inr s'" using similar_step_grounded[OF ai[OF Ps] g] by blast
    with similar_step_round[OF i d s' Ps] show "\<exists>s'. similar_step ms i s = Inr s' \<and> ?P s'" by blast
  qed
  with t(1) show ?thesis by (auto simp: assign_round_def)
qed

lemma assign_loop_total:
  assumes "assign_inv ps0 ids st" "grounded ps0" "distinct ids"
  shows "assign_loop fuel ms gap ids st \<noteq> Some (Inl e)"
  using assms
proof (induction fuel arbitrary: st)
  case (Suc fuel)
  obtain ps n where st: "st = (ps, n)" by (cases st)
  from assign_round_total[OF Suc.prems(1)[unfolded st] Suc.prems(2,3)] obtain r where
    r: "assign_round ms gap ids (ps, n) = Inr r" by blast
  obtain qs n' c where e: "r = (qs, n', c)" by (cases r)
  from assign_round_inv[OF r[unfolded e] Suc.prems(1)[unfolded st] Suc.prems(3)] have
    "assign_inv ps0 ids (qs, n')" by simp
  from Suc.IH[OF this Suc.prems(2,3)] show ?case by (simp add: st r e)
qed simp

section \<open>\<open>assign_unlocated\<close>\<close>

lemma assign_ids_distinct: "distinct (map ph_id ps) \<Longrightarrow> distinct (assign_ids pd ps)"
proof -
  assume d: "distinct (map ph_id ps)"
  have "mset (map ph_id (sort_id ps)) = mset (map ph_id ps)" by (simp add: sort_id_def)
  with d have "distinct (map ph_id (sort_id ps))" using mset_eq_imp_distinct_iff by blast
  then show ?thesis by (simp add: assign_ids_def distinct_map_filter)
qed

lemma assign_unlocated_never_out_of_fuel:
  assumes "distinct (map ph_id ps)"
  shows "assign_unlocated pd ms gap ps \<noteq> None"
proof -
  have "assign_loop (length (assign_ids pd ps) + 1) ms gap (assign_ids pd ps) (sort_id ps, 0) \<noteq> None"
    using unplaced_le[of "assign_ids pd ps" "sort_id ps"] assms
    by (intro assign_loop_fuel[of _ _ _ "sort_id ps"] assign_inv_start)
      (simp_all add: distinct_sort_id assign_ids_distinct)
  then show ?thesis by (auto simp: assign_unlocated_def Let_def split: option.splits sum.splits)
qed

lemma place_anchors_sort: "set (place_anchors pl (sort_id ps)) = set (place_anchors pl ps)"
  by (auto simp: place_anchors_def)

lemma assign_unlocated_moves:
  assumes "assign_unlocated pd ms gap ps = Some (Inr (qs, n))" "distinct (map ph_id ps)"
  shows "list_all2 (moved (\<lambda>pl. place_anchors pl ps) (assign_ids pd ps)) ps qs"
proof -
  let ?ids = "assign_ids pd ps" and ?A = "\<lambda>pl. place_anchors pl ps"
  show ?thesis
  proof (cases "qs = ps")
    case True
    then show ?thesis by (simp add: moved_list_refl)
  next
    case False
    with assms(1) obtain rs where
      l: "assign_loop (length ?ids + 1) ms gap ?ids (sort_id ps, 0) = Some (Inr (rs, n))"
      and qs: "qs = map (\<lambda>p. case by_id rs (ph_id p) of Some q \<Rightarrow> q | None \<Rightarrow> p) ps"
      by (auto simp: assign_unlocated_def Let_def split: if_splits option.splits sum.splits)
    have d: "distinct (map ph_id (sort_id ps))" using assms(2) by (simp add: distinct_sort_id)
    from assign_loop_inv[OF l assign_inv_start[OF d] assign_ids_distinct[OF assms(2)]]
    have m: "list_all2 (moved (\<lambda>pl. place_anchors pl (sort_id ps)) ?ids) (sort_id ps) rs"
      by (simp add: assign_inv_def)
    then have ids: "map ph_id rs = map ph_id (sort_id ps)"
      using arg_cong[OF moved_list_src[OF m], of "map ps_id"] by (simp add: comp_def)
    have "moved ?A ?ids p (case by_id rs (ph_id p) of Some q \<Rightarrow> q | None \<Rightarrow> p)" if "p \<in> set ps" for p
      using list_all2_by_id[OF m ids d, of p] that place_anchors_sort
      by (fastforce simp: moved_def)
    then show ?thesis by (simp add: qs list_all2_map2 list_all2_same)
  qed
qed

lemma assign_unlocated_total:
  assumes "grounded ps" "distinct (map ph_id ps)" "-1 \<le> ms" "ms \<le> 1" "0 \<le> gap"
    and "\<forall>p \<in> set ps. ph_emb p \<noteq> None"
  shows "\<exists>qs n. assign_unlocated pd ms gap ps = Some (Inr (qs, n))"
proof -
  let ?ids = "assign_ids pd ps"
  let ?r = "assign_loop (length ?ids + 1) ms gap ?ids (sort_id ps, 0)"
  have d: "distinct (map ph_id (sort_id ps))" using assms(2) by (simp add: distinct_sort_id)
  have g: "grounded (sort_id ps)"
    using assms(1) place_anchors_sort by (simp add: grounded_def) (metis list.set(1) set_empty)
  have "?r \<noteq> Some (Inl e)" for e
    by (rule assign_loop_total[OF assign_inv_start[OF d] g assign_ids_distinct[OF assms(2)]])
  moreover have "?r \<noteq> None"
    using assign_loop_fuel[of ?ids "(sort_id ps, 0)" "length ?ids + 1" "sort_id ps" ms gap]
      unplaced_le[of ?ids "sort_id ps"] assign_inv_start[OF d] assign_ids_distinct[OF assms(2)]
    by simp
  ultimately obtain rs n where "?r = Some (Inr (rs, n))"
    by (metis not_None_eq old.sum.exhaust prod.collapse)
  with assms(3-6) show ?thesis
    by (auto simp: assign_unlocated_def Let_def list_ex_iff simp del: assign_loop.simps)
qed

definition assign_stage :: "period \<Rightarrow> rat \<Rightarrow> rat \<Rightarrow> photo list \<Rightarrow> pipeline_error + photo list" where
  "assign_stage pd ms gap ps =
     (if distinct (map ph_id ps) then
        (case assign_unlocated pd ms gap ps of
           Some (Inr (qs, n)) \<Rightarrow> Inr qs | Some (Inl e) \<Rightarrow> Inl e | None \<Rightarrow> Inl pipeline_error_default)
      else Inl pipeline_error_default)"

interpretation assign: photo_stage "assign_stage pd ms gap" for pd ms gap
  by unfold_locales (auto simp: assign_stage_def dest!: assign_unlocated_moves moved_list_src
      split: if_splits option.splits sum.splits)

end
