(* ===== verification/ClusterLemmas.thy ===== *)
theory ClusterLemmas
  imports Assigning
begin

text \<open>
  What CLUSTERING gives: places are numbered p1, p2, ... without gaps, two photos share a place
  exactly when DBSCAN gives them one label, and after LOCATING every place holds a GPS photo.
\<close>

section \<open>Numbering the labels\<close>

fun label_dict :: "int list \<Rightarrow> (int, string) pydict \<Rightarrow> (int, string) pydict" where
  "label_dict [] d = d"
| "label_dict (l # ls) d =
     (if l = -1 \<or> map_of d l \<noteq> None then label_dict ls d
      else label_dict ls (d @ [(l, place_name (length d + 1))]))"

lemma map_of_snoc: "map_of (d @ [(l, v)]) x = (if x = l \<and> map_of d l = None then Some v else map_of d x)"
  by (auto simp: map_of_append map_add_def split: option.splits)

lemma label_dict_extends: "map_of d l = Some v \<Longrightarrow> map_of (label_dict ls d) l = Some v"
proof (induction ls d rule: label_dict.induct)
  case (2 la ls d)
  then show ?case
    by (cases "l = la") (auto simp: map_of_snoc simp del: map_of_append)
qed simp

lemma label_places_map:
  "label_places ls d = map (\<lambda>l. if l = -1 then None else map_of (label_dict ls d) l) ls"
proof (induction ls d rule: label_places.induct)
  case (2 l ls d)
  show ?case
  proof (cases "l = -1")
    case False
    show ?thesis
    proof (cases "map_of d l")
      case None
      have "map_of (label_dict ls (d @ [(l, place_name (length d + 1))])) l = Some (place_name (length d + 1))"
        by (rule label_dict_extends) (simp add: map_of_snoc None del: map_of_append)
      with 2(2)[OF False None refl] False None show ?thesis by (simp add: Let_def)
    next
      case (Some pl)
      with 2(3)[OF False Some] False label_dict_extends[OF Some, of ls] show ?thesis by simp
    qed
  qed (use 2 in simp)
qed simp

lemma label_dict_names:
  "map snd d = map place_name [1..<length d + 1] \<Longrightarrow>
   map snd (label_dict ls d) = map place_name [1..<length (label_dict ls d) + 1]"
  by (induction ls d rule: label_dict.induct) (auto simp: upt_Suc_append)

lemma label_dict_dom: "l \<in> set ls \<Longrightarrow> l \<noteq> -1 \<Longrightarrow> map_of (label_dict ls d) l \<noteq> None"
proof (induction ls d rule: label_dict.induct)
  case (2 l' ls d)
  show ?case
  proof (cases "l \<in> set ls")
    case True
    with 2 show ?thesis by auto
  next
    case False
    with 2(3) have e: "l = l'" by simp
    show ?thesis
    proof (cases "map_of d l")
      case None
      then have "map_of (label_dict ls (d @ [(l, place_name (length d + 1))])) l \<noteq> None"
        using label_dict_extends[of "d @ [(l, place_name (length d + 1))]" l] by (simp add: map_of_snoc del: map_of_append)
      with None e 2(4) show ?thesis by simp
    next
      case (Some v)
      with label_dict_extends[OF Some, of ls] e show ?thesis by simp
    qed
  qed
qed simp

lemma label_dict_keys: "distinct (map fst d) \<Longrightarrow> distinct (map fst (label_dict ls d))"
  by (induction ls d rule: label_dict.induct) (auto simp: map_of_eq_None_iff)

lemma place_name_inject [simp]: "place_name m = place_name n \<longleftrightarrow> m = n"
  by (simp add: place_name_def)

lemma label_dict_inject:
  assumes "map_of (label_dict ls []) a = Some pl" "map_of (label_dict ls []) b = Some pl"
  shows "a = b"
proof -
  let ?D = "label_dict ls []"
  have names: "map snd ?D = map place_name [1..<length ?D + 1]" by (rule label_dict_names) simp
  then have d: "distinct (map snd ?D)" by (simp add: distinct_map inj_on_def del: upt_Suc)
  from assms have "(a, pl) \<in> set ?D" "(b, pl) \<in> set ?D" by (auto dest: map_of_SomeD)
  with d show ?thesis by (metis distinct_map inj_on_def prod.inject snd_conv)
qed

section \<open>The stage\<close>

lemma put_place_simps [simp]:
  "ph_src (put_place pl p) = ph_src p" "ph_lat (put_place pl p) = ph_lat p"
  "ph_lon (put_place pl p) = ph_lon p" "ph_origin (put_place pl p) = ph_origin p"
  "ph_taken (put_place pl p) = ph_taken p" "ph_time (put_place pl p) = ph_time p"
  "ph_emb (put_place pl p) = ph_emb p" "ph_dup (put_place pl p) = ph_dup p"
  "ph_place (put_place pl p) = pl"
  by (simp_all add: put_place_def split: option.split)

definition cluster_one :: "(int \<times> string option) list \<Rightarrow> photo \<Rightarrow> photo" where
  "cluster_one placed p =
     (if ph_issue p = None
      then (case map_of placed (ph_id p) of Some pl \<Rightarrow> put_place pl p | None \<Rightarrow> p) else p)"

definition cluster_labels :: "dbscan \<Rightarrow> rat \<Rightarrow> int \<Rightarrow> photo list \<Rightarrow> int list" where
  "cluster_labels dbscan eps_m mins ps =
     dbscan (eps_m / EARTH_RADIUS_M) (nat mins) (map coords (cluster_candidates ps))"

definition cluster_table :: "dbscan \<Rightarrow> rat \<Rightarrow> int \<Rightarrow> photo list \<Rightarrow> (int \<times> string option) list" where
  "cluster_table dbscan eps_m mins ps =
     zip (map ph_id (cluster_candidates ps)) (label_places (cluster_labels dbscan eps_m mins ps) [])"

lemma cluster_candidates_Nil: "cluster_candidates ps = [] \<longleftrightarrow> (\<forall>p \<in> set ps. ph_issue p \<noteq> None)"
proof -
  have "cluster_candidates ps = [] \<longleftrightarrow> set (cluster_candidates ps) = {}" by simp
  also have "\<dots> \<longleftrightarrow> (\<forall>p \<in> set ps. ph_issue p \<noteq> None)"
    unfolding cluster_candidates_def set_sort_id by auto
  finally show ?thesis .
qed

lemma cluster_photos_map:
  assumes "cluster_photos dbscan eps mins ps = Inr qs"
  shows "qs = map (cluster_one (cluster_table dbscan eps mins ps)) ps \<and>
    (cluster_candidates ps \<noteq> [] \<longrightarrow>
       length (cluster_labels dbscan eps mins ps) = length (cluster_candidates ps))"
proof (cases "cluster_candidates ps = []")
  case True
  with assms have "qs = ps" by (auto simp: cluster_photos_def Let_def split: if_splits)
  moreover have "map (cluster_one t) ps = ps" for t
    using True unfolding cluster_candidates_Nil by (intro map_idI) (auto simp: cluster_one_def)
  ultimately show ?thesis using True by simp
next
  case False
  with assms show ?thesis
    by (auto simp: cluster_photos_def cluster_one_def cluster_table_def cluster_labels_def Let_def
        split: if_splits)
qed

lemma cluster_one_simps [simp]:
  "ph_src (cluster_one t p) = ph_src p" "ph_lat (cluster_one t p) = ph_lat p"
  "ph_lon (cluster_one t p) = ph_lon p" "ph_origin (cluster_one t p) = ph_origin p"
  "ph_taken (cluster_one t p) = ph_taken p" "ph_time (cluster_one t p) = ph_time p"
  "ph_emb (cluster_one t p) = ph_emb p" "ph_dup (cluster_one t p) = ph_dup p"
  by (simp_all add: cluster_one_def split: option.split)

interpretation cluster: photo_stage "cluster_photos dbscan eps mins" for dbscan eps mins
  by unfold_locales (auto dest!: cluster_photos_map)

text \<open>The place of a candidate is the name of its label.\<close>

lemma cluster_place:
  assumes c: "cluster_photos dbscan eps mins ps = Inr qs" and d: "distinct (map ph_id ps)"
    and p: "p \<in> set ps" "ph_issue p = None"
  shows "\<exists>k < length (cluster_candidates ps). cluster_candidates ps ! k = p \<and>
    ph_place (cluster_one (cluster_table dbscan eps mins ps) p) =
      (let l = cluster_labels dbscan eps mins ps ! k; D = label_dict (cluster_labels dbscan eps mins ps) []
       in if l = -1 then None else map_of D l)"
proof -
  let ?C = "cluster_candidates ps" and ?L = "cluster_labels dbscan eps mins ps"
  have "p \<in> set ?C" using p by (simp add: cluster_candidates_def)
  then obtain k where k: "k < length ?C" "?C ! k = p" by (auto simp: in_set_conv_nth)
  have len: "length ?L = length ?C" using cluster_photos_map[OF c] k by auto
  have "mset (map ph_id ?C) = mset (map ph_id (filter (\<lambda>p. ph_issue p = None) ps))"
    by (simp add: cluster_candidates_def sort_id_def)
  moreover have "distinct (map ph_id (filter (\<lambda>p. ph_issue p = None) ps))"
    using d by (rule distinct_map_filter)
  ultimately have dc: "distinct (map ph_id ?C)" using mset_eq_imp_distinct_iff by blast
  have "map_of (cluster_table dbscan eps mins ps) (ph_id p) = Some (label_places ?L [] ! k)"
    using map_of_zip_nth[of "map ph_id ?C" "label_places ?L []" k] dc k len
    by (simp add: cluster_table_def label_places_map)
  then have "ph_place (cluster_one (cluster_table dbscan eps mins ps) p) = label_places ?L [] ! k"
    using p(2) by (simp add: cluster_one_def)
  also have "\<dots> = (if ?L ! k = -1 then None else map_of (label_dict ?L []) (?L ! k))"
    using k len by (simp add: label_places_map)
  finally show ?thesis using k by (intro exI[of _ k]) (simp add: Let_def)
qed

text \<open>DBSCAN treats equal points alike.\<close>

definition dbscan_uniform :: "dbscan \<Rightarrow> bool" where
  "dbscan_uniform dbscan \<longleftrightarrow>
     (\<forall>eps n pts i j. i < length pts \<and> j < length pts \<and> pts ! i = pts ! j \<longrightarrow>
        dbscan eps n pts ! i = dbscan eps n pts ! j)"

text \<open>Every photo without an issue is located, inherited coordinates are those of a GPS photo.\<close>

definition located_all :: "photo list \<Rightarrow> bool" where
  "located_all ps \<longleftrightarrow> (\<forall>p \<in> set ps. ph_place p = None \<and> (ph_issue p = None \<longrightarrow> located p \<and>
     (ph_origin p = INFERRED \<longrightarrow> (\<exists>a \<in> set ps. ph_issue a = None \<and> ph_origin a = EXIF \<and>
        ph_lat a = ph_lat p \<and> ph_lon a = ph_lon p))))"

lemma locate_establishes:
  assumes "locate_photos pd m ps = Inr qs" "\<forall>p \<in> set ps. ph_place p = None"
  shows "located_all qs"
proof -
  from locate_photos_map[OF assms(1)] have qs: "qs = map (locate_one pd m (locate_anchors pd ps)) ps"
    by blast
  show ?thesis
    unfolding located_all_def qs
  proof (intro ballI conjI impI)
    fix q assume "q \<in> set (map (locate_one pd m (locate_anchors pd ps)) ps)"
    then obtain p where p: "p \<in> set ps" "q = locate_one pd m (locate_anchors pd ps) p" by auto
    show "ph_place q = None" using p assms(2) by simp
    assume i: "ph_issue q = None"
    then show "located q" using locate_one_located p(2) by simp
    assume o: "ph_origin q = INFERRED"
    from locate_inferred_anchor[OF p(1), of pd m] o i p(2) show "\<exists>a \<in> set (map (locate_one pd m
        (locate_anchors pd ps)) ps). ph_issue a = None \<and> ph_origin a = EXIF \<and>
        ph_lat a = ph_lat q \<and> ph_lon a = ph_lon q"
      by (auto simp: Let_def)
  qed
qed

lemma cluster_grounded:
  assumes c: "cluster_photos dbscan eps mins ps = Inr qs" and d: "distinct (map ph_id ps)"
    and l: "located_all ps" and u: "dbscan_uniform dbscan"
  shows "grounded qs"
  unfolding grounded_def
proof (intro ballI allI impI)
  let ?t = "cluster_table dbscan eps mins ps" and ?C = "cluster_candidates ps"
  let ?L = "cluster_labels dbscan eps mins ps"
  from cluster_photos_map[OF c] have qs: "qs = map (cluster_one ?t) ps" by blast
  fix q pl assume "q \<in> set qs" "ph_place q = Some pl"
  then obtain p where p: "p \<in> set ps" "q = cluster_one ?t p" "ph_place (cluster_one ?t p) = Some pl"
    using qs by auto
  have i: "ph_issue p = None"
  proof (rule ccontr)
    assume "ph_issue p \<noteq> None"
    then have "cluster_one ?t p = p" by (auto simp: cluster_one_def)
    with p l show False by (simp add: located_all_def)
  qed
  obtain a where a: "a \<in> set ps" "ph_issue a = None" "ph_origin a = EXIF" "ph_lat a = ph_lat p" "ph_lon a = ph_lon p"
    using l p(1) i by (cases "ph_origin p") (auto simp: located_all_def located_def)
  from cluster_place[OF c d p(1) i] obtain k where
    k: "k < length ?C" "?C ! k = p" "ph_place (cluster_one ?t p) =
      (if ?L ! k = -1 then None else map_of (label_dict ?L []) (?L ! k))" by (auto simp: Let_def)
  from cluster_place[OF c d a(1,2)] obtain j where
    j: "j < length ?C" "?C ! j = a" "ph_place (cluster_one ?t a) =
      (if ?L ! j = -1 then None else map_of (label_dict ?L []) (?L ! j))" by (auto simp: Let_def)
  have "map coords ?C ! j = map coords ?C ! k" using j(1,2) k(1,2) a by (simp add: coords_def)
  then have "?L ! j = ?L ! k" using u j(1) k(1) by (auto simp: dbscan_uniform_def cluster_labels_def)
  with j(3) k(3) p(3) have "ph_place (cluster_one ?t a) = Some pl" by simp
  with a qs show "place_anchors pl qs \<noteq> []"
    by (auto simp: place_anchors_def filter_empty_conv)
qed

end
