(* ===== verification/Filtering.thy ===== *)
theory Filtering
  imports Photos
begin

text \<open>
  \<open>src/app/pipeline/steps/filtering.py\<close> (the judgement; measuring an image with OpenCV and
  imagehash is not in \<open>src/\<close>): per place, blurred photos and near-duplicates of an earlier kept
  photo are marked.  The distance of two perceptual hashes is the parameter \<open>hdist\<close>.
\<close>

record photo_metrics =
  pmt_variance :: rat
  pmt_phash :: string

type_synonym metrics = "(int, photo_metrics) pydict"
type_synonym phash_dist = "string \<Rightarrow> string \<Rightarrow> int"

section \<open>Definitions\<close>

definition inconsistent_time :: "photo \<Rightarrow> bool" where
  "inconsistent_time p \<longleftrightarrow>
     ph_time p = PENDING \<or> ((ph_time p = UNKNOWN_TIME) \<noteq> (ph_taken p = None)) \<or>
     (case ph_taken p of Some d \<Rightarrow> dt_off d = None | None \<Rightarrow> False)"

definition time_order :: "photo \<Rightarrow> bool \<times> int \<times> int" where
  "time_order p =
     (case ph_taken p of None \<Rightarrow> (True, 0, ph_id p) | Some d \<Rightarrow> (False, instant d, ph_id p))"

definition valid_metric :: "photo_metrics \<Rightarrow> bool" where
  "valid_metric m \<longleftrightarrow> 0 \<le> pmt_variance m \<and> hex16 (pmt_phash m)"

definition filter_input_ok :: "metrics \<Rightarrow> photo \<Rightarrow> bool" where
  "filter_input_ok ms p \<longleftrightarrow>
     (case ph_place p of
        None \<Rightarrow> ph_issue p \<noteq> None
      | Some pl \<Rightarrow> pl \<noteq> [] \<and> ph_issue p \<noteq> Some UNCLEAR_LOCATION) \<and>
     \<not> inconsistent_time p \<and>
     (case map_of ms (ph_id p) of Some m \<Rightarrow> valid_metric m | None \<Rightarrow> False)"

definition metric :: "metrics \<Rightarrow> photo \<Rightarrow> photo_metrics" where
  "metric ms p = the (map_of ms (ph_id p))"

definition near :: "phash_dist \<Rightarrow> metrics \<Rightarrow> int \<Rightarrow> photo \<Rightarrow> photo \<Rightarrow> bool" where
  "near hdist ms max_dist p q \<longleftrightarrow> hdist (pmt_phash (metric ms p)) (pmt_phash (metric ms q)) \<le> max_dist"

text \<open>One group, in time order, with the photos kept so far.\<close>

fun filter_group ::
  "phash_dist \<Rightarrow> metrics \<Rightarrow> rat \<Rightarrow> int \<Rightarrow> issue option \<Rightarrow> photo list \<Rightarrow> photo list \<Rightarrow> photo list" where
  "filter_group hdist ms blur max_dist kept retained [] = []"
| "filter_group hdist ms blur max_dist kept retained (p # ps) =
     (if pmt_variance (metric ms p) < blur
      then p\<lparr>ph_issue := Some BLURRY, ph_dup := None\<rparr> # filter_group hdist ms blur max_dist kept retained ps
      else (case find (near hdist ms max_dist p) retained of
              Some original \<Rightarrow>
                p\<lparr>ph_issue := Some DUPLICATED, ph_dup := Some (ph_id original)\<rparr>
                  # filter_group hdist ms blur max_dist kept retained ps
            | None \<Rightarrow>
                p\<lparr>ph_issue := kept, ph_dup := None\<rparr>
                  # filter_group hdist ms blur max_dist kept (retained @ [p]) ps))"

definition kept_issue :: "string option \<Rightarrow> issue option" where
  "kept_issue pl = (if pl = None then Some UNCLEAR_LOCATION else None)"

definition filter_place ::
  "phash_dist \<Rightarrow> metrics \<Rightarrow> rat \<Rightarrow> int \<Rightarrow> string option \<Rightarrow> photo list \<Rightarrow> photo list" where
  "filter_place hdist ms blur max_dist pl grp =
     filter_group hdist ms blur max_dist (kept_issue pl) [] (sort_key time_order grp)"

definition filter_photos ::
  "phash_dist \<Rightarrow> metrics \<Rightarrow> rat \<Rightarrow> int \<Rightarrow> photo list
    \<Rightarrow> pipeline_error + (photo list \<times> (int, rat) pydict)" where
  "filter_photos hdist ms blur max_dist ps =
     (if blur < 0 then Inl pipeline_error_default
      else if \<not> (0 \<le> max_dist \<and> max_dist \<le> 64) then Inl pipeline_error_default
      else if \<not> list_all (filter_input_ok ms) ps \<or> \<not> distinct (map ph_id ps)
        then Inl pipeline_error_default
      else
        let done = concat (map (\<lambda>(pl, grp). filter_place hdist ms blur max_dist pl grp) (group_by ph_place ps))
        in Inr (map (\<lambda>p. case by_id done (ph_id p) of Some q \<Rightarrow> q | None \<Rightarrow> p) ps,
                map (\<lambda>p. (ph_id p, pmt_variance (metric ms p))) ps))"

section \<open>One group\<close>

text \<open>What the judgement changes: the issue and the id of the duplicate's original.\<close>

definition judged :: "photo \<Rightarrow> photo \<Rightarrow> bool" where
  "judged p q \<longleftrightarrow> (\<exists>i d. q = p\<lparr>ph_issue := i, ph_dup := d\<rparr>)"

lemma judged_simps:
  "judged p q \<Longrightarrow> ph_src q = ph_src p" "judged p q \<Longrightarrow> ph_place q = ph_place p"
  "judged p q \<Longrightarrow> ph_taken q = ph_taken p" "judged p q \<Longrightarrow> ph_lat q = ph_lat p"
  "judged p q \<Longrightarrow> ph_lon q = ph_lon p" "judged p q \<Longrightarrow> ph_origin q = ph_origin p"
  "judged p q \<Longrightarrow> ph_time q = ph_time p" "judged p q \<Longrightarrow> ph_emb q = ph_emb p"
  by (auto simp: judged_def)

lemma filter_group_judged:
  "list_all2 judged grp (filter_group hdist ms blur md kept ret grp)"
proof (induction grp arbitrary: ret)
  case (Cons p grp)
  have "judged p (p\<lparr>ph_issue := i, ph_dup := d\<rparr>)" for i d by (auto simp: judged_def)
  with Cons show ?case by (simp split: option.split)
qed simp

text \<open>The kept photos of a run of \<open>filter_group\<close>, besides those it started with.\<close>

fun group_kept :: "phash_dist \<Rightarrow> metrics \<Rightarrow> rat \<Rightarrow> int \<Rightarrow> photo list \<Rightarrow> photo list \<Rightarrow> photo list" where
  "group_kept hdist ms blur md ret [] = ret"
| "group_kept hdist ms blur md ret (p # ps) =
     (if pmt_variance (metric ms p) < blur \<or> find (near hdist ms md p) ret \<noteq> None
      then group_kept hdist ms blur md ret ps else group_kept hdist ms blur md (ret @ [p]) ps)"

lemma group_kept_prefix: "\<exists>more. group_kept hdist ms blur md ret ps = ret @ more \<and> set more \<subseteq> set ps"
proof (induction ps arbitrary: ret)
  case (Cons p ps)
  show ?case
  proof (cases "pmt_variance (metric ms p) < blur \<or> find (near hdist ms md p) ret \<noteq> None")
    case True
    with Cons[of ret] show ?thesis by auto
  next
    case False
    with Cons[of "ret @ [p]"] show ?thesis by auto
  qed
qed simp

text \<open>Judging a photo against the kept photos of the group.\<close>

definition judgement :: "metrics \<Rightarrow> rat \<Rightarrow> phash_dist \<Rightarrow> int \<Rightarrow> issue option \<Rightarrow> photo list \<Rightarrow> photo \<Rightarrow> photo \<Rightarrow> bool" where
  "judgement ms blur hdist md kept K p q \<longleftrightarrow>
     (if pmt_variance (metric ms p) < blur
      then q = p\<lparr>ph_issue := Some BLURRY, ph_dup := None\<rparr> \<and> p \<notin> set K
      else (q = p\<lparr>ph_issue := kept, ph_dup := None\<rparr> \<and> p \<in> set K) \<or>
           (\<exists>o1 \<in> set K. near hdist ms md p o1 \<and> p \<notin> set K \<and>
              q = p\<lparr>ph_issue := Some DUPLICATED, ph_dup := Some (ph_id o1)\<rparr>))"

lemma filter_group_judgement:
  assumes "distinct (ret @ ps)"
  shows "list_all2 (judgement ms blur hdist md kept (group_kept hdist ms blur md ret ps)) ps
     (filter_group hdist ms blur md kept ret ps)"
  using assms
proof (induction ps arbitrary: ret)
  case (Cons p ps)
  let ?K = "group_kept hdist ms blur md ret (p # ps)"
  show ?case
  proof (cases "pmt_variance (metric ms p) < blur")
    case True
    from group_kept_prefix[of hdist ms blur md ret ps] obtain more where
      "group_kept hdist ms blur md ret ps = ret @ more" "set more \<subseteq> set ps" by blast
    with Cons.prems True have "p \<notin> set ?K" by auto
    with True Cons.IH[of ret] Cons.prems show ?thesis by (simp add: judgement_def)
  next
    case False
    show ?thesis
    proof (cases "find (near hdist ms md p) ret")
      case None
      from group_kept_prefix[of hdist ms blur md "ret @ [p]" ps] have "p \<in> set ?K"
        using None False by auto
      with False None Cons.IH[of "ret @ [p]"] Cons.prems show ?thesis by (simp add: judgement_def)
    next
      case (Some o1)
      from group_kept_prefix[of hdist ms blur md ret ps] obtain more where
        "group_kept hdist ms blur md ret ps = ret @ more" "set more \<subseteq> set ps" by blast
      with Cons.prems Some False have "p \<notin> set ?K" "o1 \<in> set ?K" "near hdist ms md p o1"
        by (auto simp: find_Some_iff)
      with False Some Cons.IH[of ret] Cons.prems show ?thesis by (auto simp: judgement_def)
    qed
  qed
qed simp

text \<open>Kept photos are pairwise far apart: each is far from all kept before it.\<close>

lemma group_kept_apart:
  assumes "\<forall>i j. i < j \<and> j < length ret \<longrightarrow> \<not> near hdist ms md (ret ! j) (ret ! i)"
  shows "\<forall>i j. i < j \<and> j < length (group_kept hdist ms blur md ret ps) \<longrightarrow>
     \<not> near hdist ms md (group_kept hdist ms blur md ret ps ! j) (group_kept hdist ms blur md ret ps ! i)"
  using assms
proof (induction ps arbitrary: ret)
  case (Cons p ps)
  show ?case
  proof (cases "pmt_variance (metric ms p) < blur \<or> find (near hdist ms md p) ret \<noteq> None")
    case True
    with Cons show ?thesis by simp
  next
    case False
    then have "\<forall>q \<in> set ret. \<not> near hdist ms md p q" by (auto simp: find_None_iff)
    then have "\<forall>i j. i < j \<and> j < length (ret @ [p]) \<longrightarrow>
        \<not> near hdist ms md ((ret @ [p]) ! j) ((ret @ [p]) ! i)"
      using Cons.prems by (auto simp: nth_append less_Suc_eq)
    from Cons.IH[OF this] False show ?thesis by simp
  qed
qed simp

text \<open>The kept photos are judged sharp, and the first sharp photo of the group is kept.\<close>

lemma group_kept_sharp:
  "\<forall>p \<in> set ret. blur \<le> pmt_variance (metric ms p) \<Longrightarrow>
   \<forall>p \<in> set (group_kept hdist ms blur md ret ps). blur \<le> pmt_variance (metric ms p)"
proof (induction ps arbitrary: ret)
  case (Cons p ps)
  show ?case
  proof (cases "pmt_variance (metric ms p) < blur \<or> find (near hdist ms md p) ret \<noteq> None")
    case True
    with Cons show ?thesis by simp
  next
    case False
    with Cons.prems have "\<forall>q \<in> set (ret @ [p]). blur \<le> pmt_variance (metric ms q)" by auto
    from Cons.IH[OF this] False show ?thesis by simp
  qed
qed simp

lemma group_kept_nonempty:
  assumes "\<exists>p \<in> set ps. blur \<le> pmt_variance (metric ms p)"
  shows "group_kept hdist ms blur md [] ps \<noteq> []"
  using assms
proof (induction ps)
  case (Cons p ps)
  from group_kept_prefix[of hdist ms blur md "[p]" ps] Cons show ?case by auto
qed simp

section \<open>The stage\<close>

definition place_group :: "string option \<Rightarrow> photo list \<Rightarrow> photo list" where
  "place_group pl ps = sort_key time_order (filter (\<lambda>p. ph_place p = pl) ps)"

definition place_kept ::
  "phash_dist \<Rightarrow> metrics \<Rightarrow> rat \<Rightarrow> int \<Rightarrow> string option \<Rightarrow> photo list \<Rightarrow> photo list" where
  "place_kept hdist ms blur md pl ps = group_kept hdist ms blur md [] (place_group pl ps)"

lemma set_place_group [simp]: "set (place_group pl ps) = {p \<in> set ps. ph_place p = pl}"
  by (simp add: place_group_def)

lemma place_kept_subset: "set (place_kept hdist ms blur md pl ps) \<subseteq> {p \<in> set ps. ph_place p = pl}"
  using group_kept_prefix[of hdist ms blur md "[]" "place_group pl ps"]
  by (auto simp: place_kept_def)

definition filter_done :: "phash_dist \<Rightarrow> metrics \<Rightarrow> rat \<Rightarrow> int \<Rightarrow> photo list \<Rightarrow> photo list" where
  "filter_done hdist ms blur md ps =
     concat (map (\<lambda>(pl, grp). filter_place hdist ms blur md pl grp) (group_by ph_place ps))"

lemma filter_place_ids: "mset (map ph_id (filter_place hdist ms blur md pl grp)) = mset (map ph_id grp)"
proof -
  have "map ph_id (filter_place hdist ms blur md pl grp) = map ph_id (sort_key time_order grp)"
    using filter_group_judged[of "sort_key time_order grp" hdist ms blur md "kept_issue pl" "[]"]
    unfolding filter_place_def by (induction rule: list_all2_induct) (simp_all add: judged_simps)
  then show ?thesis by (simp only: mset_map mset_sort)
qed

lemma filter_done_ids: "mset (map ph_id (filter_done hdist ms blur md ps)) = mset (map ph_id ps)"
proof -
  have "mset (map ph_id (concat (map (\<lambda>(pl, grp). filter_place hdist ms blur md pl grp) gs))) =
        mset (map ph_id (concat (map snd gs)))" for gs
  proof (induction gs)
    case (Cons g gs)
    with filter_place_ids[of hdist ms blur md "fst g" "snd g"] show ?case by (cases g) simp
  qed simp
  then show ?thesis
    unfolding filter_done_def using mset_group_by[of ph_place ps] by (simp only: mset_map)
qed

lemma distinct_place_group: "distinct (map ph_id ps) \<Longrightarrow> distinct (place_group pl ps)"
  unfolding place_group_def by (simp add: distinct_map)

lemma filter_done_judgement:
  assumes d: "distinct (map ph_id ps)" and p: "p \<in> set ps"
  shows "\<exists>q. by_id (filter_done hdist ms blur md ps) (ph_id p) = Some q \<and>
    judgement ms blur hdist md (kept_issue (ph_place p)) (place_kept hdist ms blur md (ph_place p) ps) p q"
proof -
  let ?D = "filter_done hdist ms blur md ps" and ?pl = "ph_place p"
  let ?grp = "place_group ?pl ps"
  have m: "map_of (group_by ph_place ps) ?pl = Some (filter (\<lambda>x. ph_place x = ?pl) ps)"
    using p by (auto simp: map_of_group_by filter_empty_conv)
  then have g: "(?pl, filter (\<lambda>x. ph_place x = ?pl) ps) \<in> set (group_by ph_place ps)"
    by (rule map_of_SomeD)
  have fp: "filter_place hdist ms blur md ?pl (filter (\<lambda>x. ph_place x = ?pl) ps) =
      filter_group hdist ms blur md (kept_issue ?pl) [] ?grp"
    by (simp add: filter_place_def place_group_def)
  from filter_group_judgement[of "[]" ?grp] distinct_place_group[OF d] have
    j: "list_all2 (judgement ms blur hdist md (kept_issue ?pl) (place_kept hdist ms blur md ?pl ps)) ?grp
      (filter_group hdist ms blur md (kept_issue ?pl) [] ?grp)" by (simp add: place_kept_def)
  obtain k where k: "k < length ?grp" "?grp ! k = p"
    using p set_place_group[of ?pl ps] by (metis (mono_tags, lifting) in_set_conv_nth mem_Collect_eq)
  let ?q = "filter_group hdist ms blur md (kept_issue ?pl) [] ?grp ! k"
  have jq: "judgement ms blur hdist md (kept_issue ?pl) (place_kept hdist ms blur md ?pl ps) p ?q"
    using j k by (auto simp: list_all2_conv_all_nth)
  then have id: "ph_id ?q = ph_id p" by (auto simp: judgement_def split: if_splits)
  have "?q \<in> set (filter_place hdist ms blur md ?pl (filter (\<lambda>x. ph_place x = ?pl) ps))"
    unfolding fp using j k by (intro nth_mem) (simp add: list_all2_conv_all_nth)
  with g have mem: "?q \<in> set ?D" unfolding filter_done_def by force
  have "distinct (map ph_id ?D)"
    using filter_done_ids[of hdist ms blur md ps] d mset_eq_imp_distinct_iff by blast
  from by_id_distinct[OF this mem] id jq show ?thesis by auto
qed

lemma filter_photos_result:
  assumes "filter_photos hdist ms blur md ps = Inr (qs, vs)"
  shows "list_all2 (\<lambda>p q. judgement ms blur hdist md (kept_issue (ph_place p))
            (place_kept hdist ms blur md (ph_place p) ps) p q) ps qs \<and>
    distinct (map ph_id ps) \<and> list_all (filter_input_ok ms) ps \<and> 0 \<le> md \<and> md \<le> 64 \<and> 0 \<le> blur \<and>
    vs = map (\<lambda>p. (ph_id p, pmt_variance (metric ms p))) ps"
proof -
  from assms have c: "distinct (map ph_id ps)" "list_all (filter_input_ok ms) ps" "0 \<le> md" "md \<le> 64" "0 \<le> blur"
    "vs = map (\<lambda>p. (ph_id p, pmt_variance (metric ms p))) ps"
    and qs: "qs = map (\<lambda>p. case by_id (filter_done hdist ms blur md ps) (ph_id p) of Some q \<Rightarrow> q | None \<Rightarrow> p) ps"
    by (auto simp: filter_photos_def filter_done_def Let_def split: if_splits)
  have "judgement ms blur hdist md (kept_issue (ph_place p)) (place_kept hdist ms blur md (ph_place p) ps) p
     (case by_id (filter_done hdist ms blur md ps) (ph_id p) of Some q \<Rightarrow> q | None \<Rightarrow> p)"
    if "p \<in> set ps" for p
    using filter_done_judgement[OF c(1) that, of hdist ms blur md] by auto
  with c show ?thesis by (simp add: qs list_all2_map2 list_all2_same)
qed

lemma judgement_judged: "judgement ms blur hdist md kept K p q \<Longrightarrow> judged p q"
  by (auto simp: judgement_def judged_def split: if_splits)

interpretation filter: photo_stage "\<lambda>ps. map_sum id fst (filter_photos hdist ms blur md ps)"
  for hdist ms blur md
proof
  fix ps qs
  assume "map_sum id fst (filter_photos hdist ms blur md ps) = Inr qs"
  then obtain vs where "filter_photos hdist ms blur md ps = Inr (qs, vs)"
    by (cases "filter_photos hdist ms blur md ps") auto
  then have "list_all2 judged ps qs"
    using filter_photos_result list_all2_mono judgement_judged by (metis (mono_tags, lifting))
  then show "map ph_src qs = map ph_src ps"
    by (induction rule: list_all2_induct) (simp_all add: judged_simps)
qed

end
