(* ===== verification/Clock.thy ===== *)
theory Clock
  imports Photos "HOL-Library.List_Lexorder"
begin

text \<open>
  \<open>src/app/pipeline/steps/clock.py\<close>: photos of devices without GPS are matched with GPS photos by
  mutual best similarity; a consistent whole-day difference corrects the device's times.
\<close>

definition SECONDS_PER_DAY :: rat where
  "SECONDS_PER_DAY = 86400"

section \<open>Matching and the day difference\<close>

definition row_of :: "photo list \<Rightarrow> photo \<Rightarrow> rat list" where
  "row_of anchors t = map (\<lambda>a. clip1 (sim t a)) anchors"

definition seconds_between :: "photo \<Rightarrow> photo \<Rightarrow> rat" where
  "seconds_between t a =
     of_int (instant (the (ps_taken (ph_src a))) - instant (the (ps_taken (ph_src t)))) / 1000000"

text \<open>\<open>_pair_offsets\<close>: row maximum above the threshold, unique in its row and in its column.\<close>

definition pair_offsets ::
  "photo list \<Rightarrow> photo list \<Rightarrow> rat \<Rightarrow> pipeline_error + rat list" where
  "pair_offsets targets anchors min_sim =
     (if \<not> vectors_ok (targets @ anchors) then Inl pipeline_error_default
      else
        let rows = map (row_of anchors) targets in
        Inr (map (\<lambda>i. seconds_between (targets ! i) (anchors ! argmax (rows ! i)))
          (filter (\<lambda>i.
             let row = rows ! i; best = argmax row; column = map (\<lambda>r. r ! best) rows
             in \<not> row ! best < min_sim \<and> count_list row (row ! best) = 1 \<and>
                argmax column = i \<and> count_list column (column ! i) = 1) [0..<length targets])))"

definition median :: "rat list \<Rightarrow> rat" where
  "median xs =
     (let s = sort xs; n = length xs
      in if odd n then s ! (n div 2) else (s ! (n div 2 - 1) + s ! (n div 2)) / 2)"

definition offset_days :: "rat \<Rightarrow> int" where
  "offset_days seconds = py_round (seconds / SECONDS_PER_DAY)"

definition half_day :: "rat \<Rightarrow> bool" where
  "half_day seconds \<longleftrightarrow>
     \<bar>seconds - of_int (offset_days seconds) * SECONDS_PER_DAY\<bar> = SECONDS_PER_DAY / 2"

definition consistent_days :: "rat list \<Rightarrow> nat \<Rightarrow> rat \<Rightarrow> (int \<times> nat) option" where
  "consistent_days offsets min_pairs tolerance =
     (let groups = group_by offset_days (filter (\<lambda>s. \<not> half_day s) offsets);
          counted = map (\<lambda>(days, values).
             (days, length (filter (\<lambda>v. \<bar>v - median values\<bar> \<le> tolerance) values))) groups;
          candidates = filter (\<lambda>(days, n). n \<ge> min_pairs) counted
      in case candidates of [c] \<Rightarrow> Some c | _ \<Rightarrow> None)"

section \<open>\<open>correct_clocks\<close>\<close>

record clock_offset =
  co_device :: utext
  co_days :: int
  co_pairs :: nat

definition clock_anchor :: "photo \<Rightarrow> bool" where
  "clock_anchor p \<longleftrightarrow> ph_gps p \<and> ps_taken (ph_src p) \<noteq> None"

definition truthy_device :: "photo \<Rightarrow> utext option" where
  "truthy_device p = (case ps_device (ph_src p) of Some (c # d) \<Rightarrow> Some (c # d) | _ \<Rightarrow> None)"

definition reference_devices :: "photo list \<Rightarrow> utext list" where
  "reference_devices ps = concat (map (\<lambda>p. case truthy_device p of Some d \<Rightarrow> [d] | None \<Rightarrow> [])
     (filter clock_anchor ps))"

definition trusted :: "utext list \<Rightarrow> photo \<Rightarrow> bool" where
  "trusted refs p \<longleftrightarrow> ph_gps p \<or> (case ps_device (ph_src p) of Some d \<Rightarrow> d \<in> set refs | None \<Rightarrow> False)"

definition clock_first :: "utext list \<Rightarrow> photo \<Rightarrow> photo" where
  "clock_first refs p =
     (let q = p\<lparr>ph_taken := None, ph_time := UNKNOWN_TIME\<rparr>
      in if ps_taken (ph_src p) = None then q
         else if trusted refs p then q\<lparr>ph_taken := ps_taken (ph_src p), ph_time := ORIGINAL\<rparr>
         else q)"

text \<open>The device whose group a photo joins.\<close>

definition clock_target :: "utext list \<Rightarrow> photo \<Rightarrow> utext option" where
  "clock_target refs p =
     (if ps_taken (ph_src p) = None \<or> trusted refs p then None else truthy_device p)"

definition shift_days :: "int \<Rightarrow> dtime \<Rightarrow> dtime option" where
  "shift_days days d =
     (let l = dt_local d + days * DAY_US
      in if MIN_LOCAL \<le> l \<and> l \<le> MAX_LOCAL then Some (d\<lparr>dt_local := l\<rparr>) else None)"

definition apply_days :: "utext list \<Rightarrow> utext \<Rightarrow> int \<Rightarrow> photo \<Rightarrow> pipeline_error + photo" where
  "apply_days refs device days p =
     (if clock_target refs p \<noteq> Some device then Inr p
      else (case shift_days days (the (ps_taken (ph_src p))) of
              None \<Rightarrow> Inl pipeline_error_default
            | Some d \<Rightarrow> Inr (p\<lparr>ph_taken := Some d,
                              ph_time := (if days = 0 then ORIGINAL else CORRECTED)\<rparr>)))"

definition clock_device ::
  "utext list \<Rightarrow> photo list \<Rightarrow> rat \<Rightarrow> nat \<Rightarrow> rat \<Rightarrow> utext \<Rightarrow> photo list \<times> clock_offset list
    \<Rightarrow> pipeline_error + (photo list \<times> clock_offset list)" where
  "clock_device refs anchors min_sim min_pairs tolerance device st =
     (let (ps, offs) = st;
          grp = sort_id (filter (\<lambda>p. clock_target refs p = Some device) ps)
      in bindE (pair_offsets grp anchors min_sim) (\<lambda>offsets.
         (case consistent_days offsets min_pairs tolerance of
            None \<Rightarrow> Inr (ps, offs)
          | Some (days, n) \<Rightarrow>
              bindE (mapE (apply_days refs device days) ps) (\<lambda>qs.
                Inr (qs, offs @ [\<lparr>co_device = device, co_days = days, co_pairs = n\<rparr>])))))"

definition naive_source :: "photo \<Rightarrow> bool" where
  "naive_source p \<longleftrightarrow> (case ps_taken (ph_src p) of Some d \<Rightarrow> dt_off d = None | None \<Rightarrow> False)"

definition correct_clocks ::
  "rat \<Rightarrow> int \<Rightarrow> rat \<Rightarrow> photo list \<Rightarrow> pipeline_error + (photo list \<times> clock_offset list)" where
  "correct_clocks min_sim min_pairs tolerance ps =
     (if \<not> (-1 \<le> min_sim \<and> min_sim \<le> 1) then Inl pipeline_error_default
      else if min_pairs < 1 then Inl pipeline_error_default
      else if \<not> (0 \<le> tolerance \<and> tolerance < SECONDS_PER_DAY / 2) then Inl pipeline_error_default
      else if list_ex naive_source ps then Inl pipeline_error_default
      else
        let anchors = sort_id (filter clock_anchor ps);
            refs = reference_devices ps;
            qs = map (clock_first refs) ps;
            devices = sort (dedup (concat (map (\<lambda>p. case clock_target refs p of
                        Some d \<Rightarrow> [d] | None \<Rightarrow> []) ps)))
        in if anchors = [] then Inr (qs, [])
           else foldE (clock_device refs anchors min_sim (nat min_pairs) tolerance) devices (qs, []))"

section \<open>What the clock stage keeps and establishes\<close>

lemma clock_first_src [simp]: "ph_src (clock_first refs p) = ph_src p"
  by (simp add: clock_first_def Let_def)

lemma clock_target_src: "ph_src p = ph_src q \<Longrightarrow> clock_target refs p = clock_target refs q"
  by (simp add: clock_target_def trusted_def truthy_device_def)

text \<open>The state between devices: sources kept, times judged, every photo either as after the first
  pass or shifted by the whole days found for its device.\<close>

definition day_shift :: "clock_offset list \<Rightarrow> photo \<Rightarrow> bool" where
  "day_shift offs p \<longleftrightarrow>
     (case ph_taken p of
        None \<Rightarrow> ph_time p = UNKNOWN_TIME
      | Some d \<Rightarrow> (\<exists>t days. ps_taken (ph_src p) = Some t \<and>
          (if days = 0 then d = t else shift_days days t = Some d) \<and>
          ph_time p = (if days = 0 then ORIGINAL else CORRECTED) \<and>
          (days \<noteq> 0 \<longrightarrow> \<not> ph_gps p \<and> (\<exists>o1 \<in> set offs. co_days o1 = days \<and>
             ps_device (ph_src p) = Some (co_device o1)))))"

definition same_but_time :: "photo \<Rightarrow> photo \<Rightarrow> bool" where
  "same_but_time p q \<longleftrightarrow> ph_src q = ph_src p \<and> ph_lat q = ph_lat p \<and> ph_lon q = ph_lon p \<and>
     ph_origin q = ph_origin p \<and> ph_emb q = ph_emb p \<and> ph_place q = ph_place p \<and>
     ph_issue q = ph_issue p \<and> ph_dup q = ph_dup p \<and> ph_eval q = ph_eval p"

lemma same_but_time_trans: "same_but_time p q \<Longrightarrow> same_but_time q r \<Longrightarrow> same_but_time p r"
  by (simp add: same_but_time_def)

lemma shift_days_0: "shift_days 0 d = Some e \<Longrightarrow> e = d"
  by (simp add: shift_days_def Let_def split: if_splits)

lemma clock_first_day_shift:
  "day_shift [] (clock_first refs p) \<and> same_but_time p (clock_first refs p)"
  by (auto simp: clock_first_def day_shift_def same_but_time_def Let_def split: option.splits
      intro!: exI[of _ "0 :: int"])

lemma day_shift_mono: "day_shift offs p \<Longrightarrow> day_shift (offs @ offs') p"
  by (fastforce simp: day_shift_def split: option.splits)

lemma truthy_device_Some: "truthy_device p = Some d \<Longrightarrow> ps_device (ph_src p) = Some d"
  by (auto simp: truthy_device_def split: option.splits list.splits)

lemma apply_days_keeps:
  assumes "apply_days refs device days p = Inr q" "day_shift offs p"
  shows "day_shift (offs @ [\<lparr>co_device = device, co_days = days, co_pairs = n\<rparr>]) q \<and> same_but_time p q"
proof (cases "clock_target refs p = Some device")
  case False
  with assms day_shift_mono show ?thesis by (simp add: apply_days_def same_but_time_def)
next
  case True
  then obtain t where t: "ps_taken (ph_src p) = Some t" and ng: "\<not> ph_gps p"
    and dv: "ps_device (ph_src p) = Some device"
    by (auto simp: clock_target_def trusted_def dest: truthy_device_Some split: if_splits)
  from assms(1) True t obtain d where d: "shift_days days t = Some d"
    and q: "q = p\<lparr>ph_taken := Some d, ph_time := (if days = 0 then ORIGINAL else CORRECTED)\<rparr>"
    by (auto simp: apply_days_def split: option.splits)
  from t d ng dv show ?thesis
    unfolding day_shift_def same_but_time_def q by (auto dest: shift_days_0)
qed

lemma mapE_apply_days:
  assumes "mapE (apply_days refs device days) ps = Inr qs" "list_all (day_shift offs) ps"
  shows "list_all (day_shift (offs @ [\<lparr>co_device = device, co_days = days, co_pairs = n\<rparr>])) qs \<and>
    list_all2 same_but_time ps qs"
  using assms unfolding mapE_Inr
  by (induction rule: list_all2_induct) (auto dest: apply_days_keeps)

lemma clock_device_keeps:
  assumes "clock_device refs anchors ms mp tol device (ps, offs) = Inr (qs, offs')"
    and "list_all (day_shift offs) ps"
  shows "list_all (day_shift offs') qs \<and> list_all2 same_but_time ps qs"
proof -
  from assms(1) obtain offsets where o: "pair_offsets (sort_id (filter (\<lambda>p. clock_target refs p = Some device) ps))
      anchors ms = Inr offsets"
    by (auto simp: clock_device_def)
  show ?thesis
  proof (cases "consistent_days offsets mp tol")
    case None
    with assms o show ?thesis
      by (simp add: clock_device_def same_but_time_def list_all2_same)
  next
    case (Some dn)
    obtain days n where "dn = (days, n)" by (cases dn)
    with assms(1) o Some have "mapE (apply_days refs device days) ps = Inr qs"
      and "offs' = offs @ [\<lparr>co_device = device, co_days = days, co_pairs = n\<rparr>]"
      by (simp_all add: clock_device_def)
    with mapE_apply_days[OF _ assms(2)] show ?thesis by blast
  qed
qed

lemma same_but_time_refl_list: "list_all2 same_but_time ps ps"
  by (simp add: list_all2_same same_but_time_def)

lemma clock_fold_keeps:
  assumes "foldE (clock_device refs anchors ms mp tol) devices (ps, offs) = Inr (qs, offs')"
    and "list_all (day_shift offs) ps"
  shows "list_all (day_shift offs') qs \<and> list_all2 same_but_time ps qs"
  using assms
proof (induction devices arbitrary: ps offs)
  case Nil
  then show ?case by (simp add: same_but_time_refl_list)
next
  case (Cons device devices)
  from Cons.prems(1) obtain rs offs1 where
    1: "clock_device refs anchors ms mp tol device (ps, offs) = Inr (rs, offs1)"
    and 2: "foldE (clock_device refs anchors ms mp tol) devices (rs, offs1) = Inr (qs, offs')" by auto
  from clock_device_keeps[OF 1 Cons.prems(2)] Cons.IH[OF 2] show ?case
    using list_all2_trans[of same_but_time same_but_time same_but_time ps rs qs] same_but_time_trans
    by blast
qed

lemma correct_clocks_keeps:
  assumes "correct_clocks ms mp tol ps = Inr (qs, offs)"
  shows "list_all (day_shift offs) qs \<and> list_all2 same_but_time ps qs"
proof -
  let ?refs = "reference_devices ps"
  have first: "list_all (day_shift []) (map (clock_first ?refs) ps)"
    "list_all2 same_but_time ps (map (clock_first ?refs) ps)"
    using clock_first_day_shift by (auto simp: list_all_iff list_all2_conv_all_nth)
  show ?thesis
  proof (cases "filter clock_anchor ps = []")
    case True
    with assms first show ?thesis
      by (auto simp: correct_clocks_def Let_def sort_id_def split: if_splits)
  next
    case False
    then obtain devices where "foldE (clock_device ?refs (sort_id (filter clock_anchor ps)) ms (nat mp) tol)
        devices (map (clock_first ?refs) ps, []) = Inr (qs, offs)"
      using assms
      by (auto simp: correct_clocks_def Let_def sort_id_def split: if_splits dest: arg_cong[of _ _ length])
    from clock_fold_keeps[OF this first(1)] first(2) show ?thesis
      using list_all2_trans[of same_but_time same_but_time same_but_time] same_but_time_trans by blast
  qed
qed

lemma same_but_time_src: "list_all2 same_but_time ps qs \<Longrightarrow> map ph_src qs = map ph_src ps"
  by (induction rule: list_all2_induct) (simp_all add: same_but_time_def)

interpretation clock: photo_stage "\<lambda>ps. map_sum id fst (correct_clocks ms mp tol ps)" for ms mp tol
proof
  fix ps qs
  assume "map_sum id fst (correct_clocks ms mp tol ps) = Inr qs"
  then obtain offs where "correct_clocks ms mp tol ps = Inr (qs, offs)"
    by (cases "correct_clocks ms mp tol ps") auto
  from correct_clocks_keeps[OF this] show "map ph_src qs = map ph_src ps"
    by (simp add: same_but_time_src)
qed

end
