(* ===== verification/Finalizing.thy ===== *)
theory Finalizing
  imports Filtering Clock
begin

text \<open>
  \<open>src/app/pipeline/steps/finalizing.py\<close> and \<open>represent.py\<close>, with the result models of
  \<open>src/app/schemas/process.py\<close> and their validators.  The spherical mean of the members'
  coordinates (numpy trigonometry) is the parameter \<open>center\<close>; \<open>None\<close> is a vanishing mean vector.
\<close>

section \<open>Quality score and representative\<close>

definition quality_score :: "rat \<Rightarrow> pipeline_error + int" where
  "quality_score v =
     (if v < 0 then Inl pipeline_error_default else Inr (py_round (100 * (v / (v + 100)))))"

definition mean_vec :: "vec list \<Rightarrow> vec" where
  "mean_vec vs =
     map (\<lambda>j. sum_list (map (\<lambda>v. v ! j) vs) / of_nat (length vs)) [0..<length (hd vs)]"

definition select_representative :: "photo list \<Rightarrow> pipeline_error + int" where
  "select_representative ps =
     (if ps = [] then Inl pipeline_error_default
      else
        let ordered = sort_id ps
        in if \<not> vectors_ok ordered then Inl pipeline_error_default
           else let vs = map emb ordered; m = mean_vec vs
                in Inr (ph_id (ordered ! argmax (map (\<lambda>v. dot v m) vs))))"

section \<open>The result models\<close>

record place_attachment =
  pa_id :: int
  pa_taken :: "dtime option"
  pa_lat :: rat
  pa_lon :: rat
  pa_origin :: region_origin
  pa_eval :: int

record place =
  pl_id :: string
  pl_matched :: "int option"
  pl_lat :: rat
  pl_lon :: rat
  pl_first :: "dtime option"
  pl_last :: "dtime option"
  pl_rep :: int
  pl_atts :: "place_attachment list"

record unclassified =
  un_id :: int
  un_issue :: issue
  un_place :: "string option"
  un_dup :: "int option"
  un_taken :: "dtime option"
  un_lat :: "rat option"
  un_lon :: "rat option"
  un_origin :: region_origin
  un_eval :: "int option"

record process_result =
  res_places :: "place list"
  res_unclassified :: "unclassified list"
  res_failed :: "int list"
  res_offsets :: "clock_offset list"

definition valid_place_attachment :: "place_attachment \<Rightarrow> bool" where
  "valid_place_attachment a \<longleftrightarrow> pa_origin a \<noteq> UNKNOWN_REGION \<and> 0 \<le> pa_eval a \<and> pa_eval a \<le> 100"

definition valid_place :: "place \<Rightarrow> bool" where
  "valid_place p \<longleftrightarrow> pl_atts p \<noteq> [] \<and> pl_rep p \<in> set (map pa_id (pl_atts p))"

definition valid_unclassified :: "unclassified \<Rightarrow> bool" where
  "valid_unclassified u \<longleftrightarrow>
     (un_issue u = DUPLICATED \<longrightarrow> un_dup u \<noteq> None) \<and>
     (case un_eval u of Some e \<Rightarrow> 0 \<le> e \<and> e \<le> 100 | None \<Rightarrow> True)"

definition result_ids :: "process_result \<Rightarrow> int list" where
  "result_ids r =
     concat (map (\<lambda>p. map pa_id (pl_atts p)) (res_places r)) @ map un_id (res_unclassified r) @
     res_failed r"

definition valid_result :: "process_result \<Rightarrow> bool" where
  "valid_result r \<longleftrightarrow> distinct (result_ids r)"

section \<open>\<open>finalize_photos\<close>\<close>

definition out_of_range :: "rat option \<Rightarrow> rat \<Rightarrow> bool" where
  "out_of_range v limit \<longleftrightarrow> (case v of Some x \<Rightarrow> \<not> (- limit \<le> x \<and> x \<le> limit) | None \<Rightarrow> False)"

definition validate :: "photo \<Rightarrow> bool" where
  "validate p \<longleftrightarrow>
     \<not> inconsistent_time p \<and> \<not> out_of_range (ph_lat p) 90 \<and> \<not> out_of_range (ph_lon p) 180 \<and>
     (if ph_issue p = Some UNCLEAR_LOCATION then ph_place p = None
      else (case ph_place p of
              None \<Rightarrow> ph_issue p \<noteq> None
            | Some pl \<Rightarrow> pl \<noteq> [] \<and> ph_lat p \<noteq> None \<and> ph_lon p \<noteq> None \<and> ph_origin p \<noteq> UNKNOWN_REGION)) \<and>
     (ph_issue p \<noteq> Some DUPLICATED \<longrightarrow> ph_dup p = None)"

definition original_ok :: "photo list \<Rightarrow> photo \<Rightarrow> bool" where
  "original_ok ps p \<longleftrightarrow>
     (ph_issue p = Some DUPLICATED \<longrightarrow>
        (case ph_dup p of
           None \<Rightarrow> False
         | Some i \<Rightarrow> (case by_id ps i of
              None \<Rightarrow> False
            | Some q \<Rightarrow> ph_issue q = kept_issue (ph_place p) \<and> ph_place q = ph_place p)))"

definition score_of :: "(int, rat) pydict \<Rightarrow> photo \<Rightarrow> pipeline_error + int option" where
  "score_of vs p =
     (if ph_issue p = Some UNCLEAR_LOCATION then Inr None
      else (case map_of vs (ph_id p) of
              None \<Rightarrow> Inl pipeline_error_default
            | Some v \<Rightarrow> bindE (quality_score v) (\<lambda>s. Inr (Some s))))"

definition make_attachment :: "(int, rat) pydict \<Rightarrow> photo \<Rightarrow> pipeline_error + place_attachment" where
  "make_attachment vs p =
     bindE (score_of vs p) (\<lambda>score.
       (case (ph_lat p, ph_lon p, score) of
          (Some la, Some lo, Some s) \<Rightarrow>
            let a = \<lparr>pa_id = ph_id p, pa_taken = ph_taken p, pa_lat = la, pa_lon = lo,
                     pa_origin = ph_origin p, pa_eval = s\<rparr>
            in if valid_place_attachment a then Inr a else Inl pipeline_error_default
        | _ \<Rightarrow> Inl pipeline_error_default))"

definition earliest :: "dtime list \<Rightarrow> dtime option" where
  "earliest ts = (case ts of [] \<Rightarrow> None | t # us \<Rightarrow> Some (min_key instant t us))"

definition latest_time :: "dtime list \<Rightarrow> dtime option" where
  "latest_time ts = (case ts of [] \<Rightarrow> None | t # us \<Rightarrow> Some (max_key instant t us))"

type_synonym center = "(rat \<times> rat) list \<Rightarrow> (rat \<times> rat) option"

definition make_place ::
  "center \<Rightarrow> (int, rat) pydict \<Rightarrow> string \<times> photo list \<Rightarrow> pipeline_error + place" where
  "make_place center vs pg =
     (let (pl, grp) = pg; members = sort_key time_order grp;
          candidates = filter (\<lambda>p. ph_issue p = None) members
      in bindE (select_representative candidates) (\<lambda>rep.
         (case center (map (\<lambda>p. (the (ph_lat p), the (ph_lon p))) members) of
            None \<Rightarrow> Inl pipeline_error_default
          | Some (la, lo) \<Rightarrow>
              bindE (mapE (make_attachment vs) candidates) (\<lambda>atts.
                let times = concat (map (\<lambda>p. case ph_taken p of Some d \<Rightarrow> [d] | None \<Rightarrow> []) candidates);
                    r = \<lparr>pl_id = pl, pl_matched = None, pl_lat = la, pl_lon = lo,
                         pl_first = earliest times, pl_last = latest_time times,
                         pl_rep = rep, pl_atts = atts\<rparr>
                in if valid_place r then Inr r else Inl pipeline_error_default))))"

definition make_unclassified :: "(int, rat) pydict \<Rightarrow> photo \<Rightarrow> pipeline_error + unclassified" where
  "make_unclassified vs p =
     bindE (score_of vs p) (\<lambda>score.
       let u = \<lparr>un_id = ph_id p, un_issue = the (ph_issue p), un_place = ph_place p, un_dup = ph_dup p,
                un_taken = ph_taken p, un_lat = ph_lat p, un_lon = ph_lon p, un_origin = ph_origin p,
                un_eval = score\<rparr>
       in if valid_unclassified u then Inr u else Inl pipeline_error_default)"

definition place_groups :: "photo list \<Rightarrow> (string, photo list) pydict" where
  "place_groups ps =
     sort_key fst (group_by (\<lambda>p. the (ph_place p)) (filter (\<lambda>p. ph_place p \<noteq> None) ps))"

definition finalize_photos ::
  "center \<Rightarrow> photo list \<Rightarrow> (int, rat) pydict \<Rightarrow> clock_offset list \<Rightarrow> pipeline_error + process_result" where
  "finalize_photos center ps vs offsets =
     (if \<not> distinct (map ph_id ps) then Inl pipeline_error_default
      else if \<not> list_all validate ps then Inl pipeline_error_default
      else if \<not> list_all (original_ok ps) ps then Inl pipeline_error_default
      else
        bindE (mapE (score_of vs) ps) (\<lambda>_.
        bindE (mapE (make_place center vs) (place_groups ps)) (\<lambda>places.
        bindE (mapE (make_unclassified vs) (sort_id (filter (\<lambda>p. ph_issue p \<noteq> None) ps))) (\<lambda>un.
          let r = \<lparr>res_places = places, res_unclassified = un, res_failed = [], res_offsets = offsets\<rparr>
          in if valid_result r then Inr r else Inl pipeline_error_default))))"

section \<open>Facts about the parts\<close>

lemma quality_score_range: "quality_score v = Inr s \<Longrightarrow> 0 \<le> s \<and> s \<le> 100"
proof -
  assume "quality_score v = Inr s"
  then have v: "0 \<le> v" and s: "s = py_round (100 * (v / (v + 100)))"
    by (auto simp: quality_score_def not_less split: if_splits)
  have "0 \<le> 100 * (v / (v + 100))" "100 * (v / (v + 100)) \<le> 100"
    using v by (simp_all add: divide_simps)
  with py_round_mono_bounds[of 0 "100 * (v / (v + 100))" 100] s show ?thesis by simp
qed

lemma select_representative_mem:
  assumes "select_representative ps = Inr i"
  shows "i \<in> ph_id ` set ps"
proof -
  from assms have ne: "ps \<noteq> []" and i: "i = ph_id (sort_id ps ! argmax (map (\<lambda>v. dot v
      (mean_vec (map emb (sort_id ps)))) (map emb (sort_id ps))))"
    by (auto simp: select_representative_def Let_def split: if_splits)
  have len: "length (sort_id ps) = length ps" by (simp add: sort_id_def)
  with ne have "sort_id ps \<noteq> []" by (cases "sort_id ps") auto
  with len argmax_less[of "map (\<lambda>v. dot v (mean_vec (map emb (sort_id ps)))) (map emb (sort_id ps))"]
  have "sort_id ps ! argmax (map (\<lambda>v. dot v (mean_vec (map emb (sort_id ps)))) (map emb (sort_id ps)))
      \<in> set (sort_id ps)" by (intro nth_mem) auto
  then show ?thesis using i by simp
qed

lemma make_attachment_id:
  "make_attachment vs p = Inr a \<Longrightarrow> pa_id a = ph_id p \<and> valid_place_attachment a"
proof -
  assume a: "make_attachment vs p = Inr a"
  then obtain sc where "score_of vs p = Inr sc" by (auto simp: make_attachment_def)
  with a show ?thesis
    by (cases "ph_lat p"; cases "ph_lon p"; cases sc)
      (auto simp: make_attachment_def Let_def split: if_splits)
qed

lemma mapE_make_attachment_ids:
  "mapE (make_attachment vs) ps = Inr as \<Longrightarrow>
   map pa_id as = map ph_id ps \<and> list_all valid_place_attachment as"
  unfolding mapE_Inr by (induction rule: list_all2_induct) (simp_all add: make_attachment_id)

lemma make_place_spec:
  assumes "make_place center vs (pl, grp) = Inr r"
  shows "pl_id r = pl \<and> valid_place r \<and> list_all valid_place_attachment (pl_atts r) \<and>
    map pa_id (pl_atts r) = map ph_id (filter (\<lambda>p. ph_issue p = None) (sort_key time_order grp))"
  using assms mapE_make_attachment_ids
  by (fastforce simp: make_place_def Let_def split: option.splits prod.splits if_splits)

lemma make_unclassified_spec:
  "make_unclassified vs p = Inr u \<Longrightarrow> un_id u = ph_id p \<and> un_issue u = the (ph_issue p) \<and>
     un_place u = ph_place p \<and> valid_unclassified u"
  by (auto simp: make_unclassified_def Let_def split: if_splits)

lemma mapE_unclassified_ids:
  "mapE (make_unclassified vs) ps = Inr us \<Longrightarrow> map un_id us = map ph_id ps"
  unfolding mapE_Inr by (induction rule: list_all2_induct) (simp_all add: make_unclassified_spec)

lemma mapE_places_ids:
  assumes "mapE (make_place center vs) gs = Inr places"
  shows "mset (concat (map (\<lambda>p. map pa_id (pl_atts p)) places)) =
    mset (map ph_id (filter (\<lambda>p. ph_issue p = None) (concat (map snd gs))))"
  using assms unfolding mapE_Inr
proof (induction rule: list_all2_induct)
  case (Cons g gs p places)
  obtain pl grp where g: "g = (pl, grp)" by (cases g)
  from make_place_spec[of center vs pl grp p] Cons(1) g have
    "map pa_id (pl_atts p) = map ph_id (filter (\<lambda>p. ph_issue p = None) (sort_key time_order grp))" by simp
  then have "mset (map pa_id (pl_atts p)) = mset (map ph_id (filter (\<lambda>p. ph_issue p = None) grp))"
    by (simp only: mset_map mset_filter mset_sort)
  with Cons g show ?case by simp
qed simp

lemma mset_concat_snd: "mset (concat (map snd xs)) = (\<Sum>g \<in># mset xs. mset (snd g))"
  by (induction xs) simp_all

lemma mset_concat_sort: "mset (concat (map snd (sort_key f gs))) = mset (concat (map snd gs))"
  by (simp only: mset_concat_snd mset_sort)

lemma place_groups_mset: "mset (concat (map snd (place_groups ps))) = mset (filter (\<lambda>p. ph_place p \<noteq> None) ps)"
  by (simp add: place_groups_def mset_concat_sort mset_group_by)

lemma mset_split_issue:
  assumes "\<forall>p \<in> set ps. ph_issue p = None \<longrightarrow> ph_place p \<noteq> None"
  shows "mset (map ph_id (filter (\<lambda>p. ph_issue p = None) (filter (\<lambda>p. ph_place p \<noteq> None) ps))) +
    mset (map ph_id (filter (\<lambda>p. ph_issue p \<noteq> None) ps)) = mset (map ph_id ps)"
  using assms
proof (induction ps)
  case (Cons p ps)
  then show ?case by (cases "ph_issue p"; cases "ph_place p") simp_all
qed simp

lemma finalize_parts:
  assumes "finalize_photos center ps vs offsets = Inr r"
  shows "distinct (map ph_id ps) \<and> list_all validate ps \<and> list_all (original_ok ps) ps \<and>
    mapE (make_place center vs) (place_groups ps) = Inr (res_places r) \<and>
    mapE (make_unclassified vs) (sort_id (filter (\<lambda>p. ph_issue p \<noteq> None) ps)) = Inr (res_unclassified r) \<and>
    res_failed r = [] \<and> res_offsets r = offsets \<and> valid_result r"
  using assms by (auto simp: finalize_photos_def Let_def split: if_splits)

lemma finalize_ids:
  assumes "finalize_photos center ps vs offsets = Inr r"
  shows "mset (result_ids r) = mset (map ph_id ps)"
proof -
  note f = finalize_parts[OF assms]
  have "\<forall>p \<in> set ps. ph_issue p = None \<longrightarrow> ph_place p \<noteq> None"
    using f by (fastforce simp: list_all_iff validate_def split: option.splits)
  note split = mset_split_issue[OF this]
  have "mset (concat (map (\<lambda>p. map pa_id (pl_atts p)) (res_places r))) =
      mset (map ph_id (filter (\<lambda>p. ph_issue p = None) (filter (\<lambda>p. ph_place p \<noteq> None) ps)))"
    using mapE_places_ids[of center vs "place_groups ps" "res_places r"] f place_groups_mset[of ps]
    by (simp only: mset_map mset_filter)
  moreover have "mset (map un_id (res_unclassified r)) = mset (map ph_id (filter (\<lambda>p. ph_issue p \<noteq> None) ps))"
    using mapE_unclassified_ids[of vs "sort_id (filter (\<lambda>p. ph_issue p \<noteq> None) ps)"] f
    by (simp add: sort_id_def)
  ultimately show ?thesis
    using split f by (simp add: result_ids_def)
qed

end
