(* ===== verification/PipelineRun.thy ===== *)
theory PipelineRun
  imports ClusterLemmas Finalizing
begin

text \<open>
  \<open>src/app/pipeline/run.py\<close> (with \<open>steps/download.py\<close>, \<open>steps/embed.py\<close>, and
  \<open>release_unshowable_new_places\<close> of \<open>agent/trip.py\<close>): the seven stages of one run.  The state is the list of
  what the run did so far: its cancellation polls with their answers, its progress reports and the
  pieces of its work.

  \<open>run_env\<close> is the pipeline context: what it takes from outside \<open>src/\<close> (object storage, image
  decoding and measuring, the embedding engine, the vector store, DBSCAN, hash distance, the
  spherical mean) and the agent stage, which is modelled on its own.  \<open>re_faulty\<close> are the pieces of work that
  raise an exception other than the pipeline's own ones.
\<close>

section \<open>Context and state\<close>

datatype process_step =
  DOWNLOADING | EMBEDDING | CLOCK | LOCATING | CLUSTERING | FILTERING | FINALIZING

datatype threshold = TInt int | TFloat rat

type_synonym bytes = "nat list"

text \<open>What the agent stage does besides computing: it polls for cancellation and counts calls.\<close>

datatype agent_event = Poll | Done_count nat

type_synonym agent_run = "agent_event list \<times> (pipeline_error + photo list)"

text \<open>A piece of work of \<open>run\<close>: reading stored vectors, loading or encoding a chunk of photos, storing its
  vectors, one of the stages that judge the photos.\<close>

datatype run_work =
  Fetch "int list" | Load "int list" | Encode "int list" | Upload "(int \<times> vec) list" | Judge process_step

record 'i run_env =
  re_get_many :: "string list \<Rightarrow> pipeline_error + (string, bytes) pydict"
  re_decode :: "bytes \<Rightarrow> 'i option"
  re_measure :: "'i \<Rightarrow> photo_metrics option"
  re_encode :: "bytes list \<Rightarrow> vec list"
  re_dim :: nat
  re_fetch :: "int list \<Rightarrow> (int, vec) pydict"
  re_dbscan :: dbscan
  re_hdist :: phash_dist
  re_center :: center
  re_agent :: "(photo list \<Rightarrow> agent_run) option"
  re_thresholds :: "(string, threshold) pydict"
  re_reuse :: bool
  re_metrics :: metrics
  re_cancelled :: "nat \<Rightarrow> bool"
  re_faulty :: "run_work \<Rightarrow> bool"

datatype run_event = Polled bool | Reported process_step nat | Worked run_work

type_synonym run_state = "run_event list"

fun polls_of :: "run_event list \<Rightarrow> bool list" where
  "polls_of [] = []"
| "polls_of (Polled b # es) = b # polls_of es"
| "polls_of (e # es) = polls_of es"

fun reports_of :: "run_event list \<Rightarrow> (process_step \<times> nat) list" where
  "reports_of [] = []"
| "reports_of (Reported st n # es) = (st, n) # reports_of es"
| "reports_of (e # es) = reports_of es"

fun uploads_of :: "run_event list \<Rightarrow> (int \<times> vec) list" where
  "uploads_of [] = []"
| "uploads_of (Worked (Upload vs) # es) = vs @ uploads_of es"
| "uploads_of (e # es) = uploads_of es"

fun judged_of :: "run_event list \<Rightarrow> process_step list" where
  "judged_of [] = []"
| "judged_of (Worked (Judge st) # es) = st # judged_of es"
| "judged_of (e # es) = judged_of es"

text \<open>What the body of \<open>run\<close> raises: a \<open>PipelineError\<close> or another exception.  What the stages raise themselves
  is named in their theories by what \<open>run\<close> makes of it.\<close>

datatype run_exn = Pipeline_exn pipeline_error | Other_exn

type_synonym 'a runm = "run_state \<Rightarrow> (run_exn + 'a) \<times> run_state"

definition retR :: "'a \<Rightarrow> 'a runm" where
  "retR x s = (Inr x, s)"

definition failR :: "pipeline_error \<Rightarrow> 'a runm" where
  "failR e s = (Inl (Pipeline_exn e), s)"

definition bindR :: "'a runm \<Rightarrow> ('a \<Rightarrow> 'b runm) \<Rightarrow> 'b runm" where
  "bindR m f s = (case m s of (Inl e, t) \<Rightarrow> (Inl e, t) | (Inr x, t) \<Rightarrow> f x t)"

fun raised :: "pipeline_error + 'a \<Rightarrow> run_exn + 'a" where
  "raised (Inl e) = Inl (Pipeline_exn e)"
| "raised (Inr x) = Inr x"

definition liftR :: "pipeline_error + 'a \<Rightarrow> 'a runm" where
  "liftR r s = (raised r, s)"

definition check_cancel :: "'i run_env \<Rightarrow> unit runm" where
  "check_cancel E s =
     (let c = re_cancelled E (length (polls_of s))
      in (if c then Inl (Pipeline_exn PipelineCancelled) else Inr (), s @ [Polled c]))"

definition report :: "process_step \<Rightarrow> nat \<Rightarrow> unit runm" where
  "report st n s = (Inr (), s @ [Reported st n])"

definition do_work :: "'i run_env \<Rightarrow> run_work \<Rightarrow> pipeline_error + 'a \<Rightarrow> 'a runm" where
  "do_work E w r s = (if re_faulty E w then Inl Other_exn else raised r, s @ [Worked w])"

section \<open>DOWNLOADING\<close>

text \<open>\<open>load_images\<close>: the bytes and decoded images of one chunk.\<close>

definition load_images ::
  "'i run_env \<Rightarrow> attachment list \<Rightarrow> pipeline_error + (int, bytes) pydict \<times> (int, 'i) pydict" where
  "load_images E atts =
     bindE (re_get_many E (map at_key atts)) (\<lambda>blobs.
     bindE (mapE (\<lambda>a. case map_of blobs (at_key a) of
                        Some b \<Rightarrow> Inr (at_id a, b) | None \<Rightarrow> Inl pipeline_error_default) atts) (\<lambda>raw.
       let failed = map fst (filter (\<lambda>(i, b). re_decode E b = None) raw)
       in if failed \<noteq> [] then Inl (DecodeFailed failed)
          else Inr (raw, map (\<lambda>(i, b). (i, the (re_decode E b))) raw)))"

type_synonym 'i loaded = "(int, bytes) pydict \<times> (int, 'i) pydict \<times> int list"

definition merge_dict :: "('k, 'v) pydict \<Rightarrow> ('k, 'v) pydict \<Rightarrow> ('k, 'v) pydict" where
  "merge_dict d new = fold (\<lambda>(k, v). dict_set k v) new d"

text \<open>A chunk that cannot be decoded is noted and the loop goes on.\<close>

definition add_chunk :: "'i run_env \<Rightarrow> attachment list \<Rightarrow> 'i loaded \<Rightarrow> pipeline_error + 'i loaded" where
  "add_chunk E chunk acc =
     (case acc of (r, i, f) \<Rightarrow>
        (case load_images E chunk of
           Inr (raw, imgs) \<Rightarrow> Inr (merge_dict r raw, merge_dict i imgs, f)
         | Inl (DecodeFailed ids) \<Rightarrow> Inr (r, i, f @ ids)
         | Inl e \<Rightarrow> Inl e))"

fun download_loop ::
  "'i run_env \<Rightarrow> nat \<Rightarrow> nat \<Rightarrow> attachment list list \<Rightarrow> nat \<Rightarrow> 'i loaded \<Rightarrow> 'i loaded runm" where
  "download_loop E skipped n [] start acc = retR acc"
| "download_loop E skipped n (chunk # rest) start acc =
     bindR (check_cancel E) (\<lambda>_.
     bindR (do_work E (Load (map at_id chunk)) (add_chunk E chunk acc)) (\<lambda>acc'.
     bindR (check_cancel E) (\<lambda>_.
     bindR (report DOWNLOADING (skipped + min (start + 16) n)) (\<lambda>_.
       download_loop E skipped n rest (start + 16) acc'))))"

section \<open>EMBEDDING\<close>

definition encode_checked :: "'i run_env \<Rightarrow> bytes list \<Rightarrow> pipeline_error + vec list" where
  "encode_checked E blobs =
     (let vs = re_encode E blobs
      in if length vs \<noteq> length blobs \<or> \<not> list_all (\<lambda>v. length v = re_dim E \<and> unit_vec v) vs
         then Inl pipeline_error_default else Inr vs)"

definition raw_of :: "(int, bytes) pydict \<Rightarrow> int \<Rightarrow> pipeline_error + bytes" where
  "raw_of raw i = (case map_of raw i of Some b \<Rightarrow> Inr b | None \<Rightarrow> Inl pipeline_error_default)"

definition set_embeddings :: "(int \<times> vec) list \<Rightarrow> photo list \<Rightarrow> photo list" where
  "set_embeddings vs ps =
     map (\<lambda>p. case map_of vs (ph_id p) of Some v \<Rightarrow> p\<lparr>ph_emb := Some v\<rparr> | None \<Rightarrow> p) ps"

fun embed_loop ::
  "'i run_env \<Rightarrow> nat \<Rightarrow> nat \<Rightarrow> (int, bytes) pydict \<Rightarrow> int list list \<Rightarrow> nat \<Rightarrow> photo list \<Rightarrow> photo list runm" where
  "embed_loop E reused n raw [] start ps = retR ps"
| "embed_loop E reused n raw (ids # rest) start ps =
     bindR (check_cancel E) (\<lambda>_.
     bindR (do_work E (Encode ids) (bindE (mapE (raw_of raw) ids) (encode_checked E))) (\<lambda>vectors.
     bindR (check_cancel E) (\<lambda>_.
     bindR (do_work E (Upload (zip ids vectors)) (Inr ())) (\<lambda>_.
     bindR (check_cancel E) (\<lambda>_.
     bindR (report EMBEDDING (reused + min (start + 16) n)) (\<lambda>_.
       embed_loop E reused n raw rest (start + 16) (set_embeddings (zip ids vectors) ps)))))))"

section \<open>The judged stages\<close>

definition stage :: "'i run_env \<Rightarrow> nat \<Rightarrow> process_step \<Rightarrow> 'a runm \<Rightarrow> 'a runm" where
  "stage E tot st op =
     bindR (check_cancel E) (\<lambda>_. bindR (report st 0) (\<lambda>_. bindR (check_cancel E) (\<lambda>_.
     bindR op (\<lambda>v. bindR (check_cancel E) (\<lambda>_. bindR (report st tot) (\<lambda>_. retR v))))))"

definition required :: "string list" where
  "required = [''inherit_min_sim'', ''dbscan_eps_m'', ''min_samples'', ''blur_var_min'',
     ''phash_max_dist'', ''clock_pair_min_sim'', ''clock_min_pairs'',
     ''clock_offset_tolerance_sec'', ''interpolate_max_gap_min'']"

definition th_rat :: "'i run_env \<Rightarrow> string \<Rightarrow> rat" where
  "th_rat E k = (case map_of (re_thresholds E) k of
     Some (TInt i) \<Rightarrow> of_int i | Some (TFloat x) \<Rightarrow> x | None \<Rightarrow> 0)"

definition th_int :: "'i run_env \<Rightarrow> string \<Rightarrow> pipeline_error + int" where
  "th_int E k = (case map_of (re_thresholds E) k of
     Some (TInt i) \<Rightarrow> Inr i | _ \<Rightarrow> Inl pipeline_error_default)"

definition measure_images ::
  "'i run_env \<Rightarrow> (int, 'i) pydict \<Rightarrow> pipeline_error + metrics" where
  "measure_images E imgs =
     mapE (\<lambda>(i, img). case re_measure E img of
                         Some m \<Rightarrow> Inr (i, m) | None \<Rightarrow> Inl pipeline_error_default) imgs"

text \<open>\<open>release_unshowable_new_places\<close>: places with no GPS photo and no photo left to show.\<close>

definition unshowable :: "photo list \<Rightarrow> string \<Rightarrow> bool" where
  "unshowable ps pl \<longleftrightarrow>
     list_all (\<lambda>p. ph_origin p \<noteq> EXIF \<and> ph_issue p \<noteq> None) (filter (\<lambda>p. ph_place p = Some pl) ps)"

definition release_unshowable_new_places :: "photo list \<Rightarrow> photo list" where
  "release_unshowable_new_places ps =
     map (\<lambda>p. case ph_place p of
                Some pl \<Rightarrow> if pl \<noteq> [] \<and> unshowable ps pl
                  then p\<lparr>ph_place := None, ph_lat := None, ph_lon := None, ph_origin := UNKNOWN_REGION\<rparr>
                  else p
              | None \<Rightarrow> p) ps"

text \<open>The agent's events as they reach the reporter and the cancellation check.\<close>

fun agent_events :: "'i run_env \<Rightarrow> nat \<Rightarrow> agent_event list \<Rightarrow> unit runm" where
  "agent_events E tot [] = retR ()"
| "agent_events E tot (Poll # es) = bindR (check_cancel E) (\<lambda>_. agent_events E tot es)"
| "agent_events E tot (Done_count n # es) =
     bindR (report CLUSTERING (min n (tot - 1))) (\<lambda>_. agent_events E tot es)"

definition placing :: "'i run_env \<Rightarrow> period \<Rightarrow> photo list \<Rightarrow> pipeline_error + photo list" where
  "placing E pd ps =
     bindE (th_int E ''min_samples'') (\<lambda>mins.
     bindE (cluster_photos (re_dbscan E) (th_rat E ''dbscan_eps_m'') mins ps) (\<lambda>qs.
       assign_stage pd (th_rat E ''inherit_min_sim'') (th_rat E ''interpolate_max_gap_min'') qs))"

definition clustering_stage :: "'i run_env \<Rightarrow> nat \<Rightarrow> period \<Rightarrow> photo list \<Rightarrow> photo list runm" where
  "clustering_stage E tot pd ps =
     bindR (do_work E (Judge CLUSTERING) (placing E pd ps)) (\<lambda>rs.
       case re_agent E of
         None \<Rightarrow> retR rs
       | Some agent \<Rightarrow> bindR (agent_events E tot (fst (agent rs))) (\<lambda>_. liftR (snd (agent rs))))"

definition judge_stages ::
  "'i run_env \<Rightarrow> period \<Rightarrow> nat \<Rightarrow> (int, 'i) pydict \<Rightarrow> photo list \<Rightarrow> process_result runm" where
  "judge_stages E pd tot imgs ps =
     bindR (stage E tot CLOCK (do_work E (Judge CLOCK) (bindE (th_int E ''clock_min_pairs'') (\<lambda>mp.
       correct_clocks (th_rat E ''clock_pair_min_sim'') mp (th_rat E ''clock_offset_tolerance_sec'') ps))))
       (\<lambda>(ps1, offsets).
     bindR (stage E tot LOCATING (do_work E (Judge LOCATING) (locate_photos pd (th_rat E ''inherit_min_sim'') ps1))) (\<lambda>ps2.
     bindR (stage E tot CLUSTERING (clustering_stage E tot pd ps2)) (\<lambda>ps3.
     bindR (stage E tot FILTERING (do_work E (Judge FILTERING) (bindE (measure_images E imgs) (\<lambda>ms.
       bindE (th_int E ''phash_max_dist'') (\<lambda>md.
       filter_photos (re_hdist E) (merge_dict (re_metrics E) ms) (th_rat E ''blur_var_min'') md ps3)))))
       (\<lambda>(ps4, variances).
     let ps5 = (if re_agent E = None then ps4 else release_unshowable_new_places ps4) in
     bindR (stage E tot FINALIZING (do_work E (Judge FINALIZING) (finalize_photos (re_center E) ps5 variances offsets))) (\<lambda>r.
     bindR (check_cancel E) (\<lambda>_. retR r))))))"

text \<open>DOWNLOADING: the vectors already stored, then the bytes and images of what is missing.\<close>

definition download_stage ::
  "'i run_env \<Rightarrow> nat \<Rightarrow> attachment list \<Rightarrow> ((int, vec) pydict \<times> 'i loaded) runm" where
  "download_stage E tot atts =
     bindR (report DOWNLOADING 0) (\<lambda>_.
     bindR (if re_reuse E then do_work E (Fetch (map at_id atts)) (Inr (re_fetch E (map at_id atts))) else retR []) (\<lambda>stored.
     let downloads = (if re_reuse E
           then filter (\<lambda>a. map_of stored (at_id a) = None \<or> map_of (re_metrics E) (at_id a) = None) atts
           else atts);
         skipped = tot - length downloads in
     bindR (if re_reuse E then check_cancel E else retR ()) (\<lambda>_.
     bindR (if skipped \<noteq> 0 then report DOWNLOADING skipped else retR ()) (\<lambda>_.
     bindR (download_loop E skipped (length downloads) (chunks16 downloads) 0 ([], [], [])) (\<lambda>loaded.
     if snd (snd loaded) \<noteq> [] then failR (DecodeFailed (snd (snd loaded)))
     else retR (stored, loaded))))))"

text \<open>EMBEDDING: stored vectors first, then sixteen photos at a time.\<close>

definition embed_stage ::
  "'i run_env \<Rightarrow> nat \<Rightarrow> (int, vec) pydict \<Rightarrow> (int, bytes) pydict \<Rightarrow> photo list \<Rightarrow> photo list runm" where
  "embed_stage E tot stored raw photos =
     bindR (report EMBEDDING 0) (\<lambda>_.
     let photos1 = (if re_reuse E then map (\<lambda>p. p\<lparr>ph_emb := map_of stored (ph_id p)\<rparr>) photos else photos);
         pending = map ph_id (filter (\<lambda>p. ph_emb p = None) photos1);
         reused = tot - length pending in
     bindR (if reused \<noteq> 0 then report EMBEDDING reused else retR ()) (\<lambda>_.
       embed_loop E reused (length pending) raw (chunks16 pending) 0 photos1))"

text \<open>The body of the \<open>try\<close>, and its translation of exceptions.\<close>

definition run_body :: "'i run_env \<Rightarrow> process_request \<Rightarrow> process_result runm" where
  "run_body E rq =
     (let tot = length (rq_attachments rq); photos = build_photo_states rq; pd = rq_period rq in
     bindR (check_cancel E) (\<lambda>_.
     if length (dedup (map ph_id photos)) \<noteq> tot then failR pipeline_error_default
     else if pd_start pd > pd_end pd then failR pipeline_error_default
     else if list_ex (\<lambda>k. map_of (re_thresholds E) k = None) required then failR pipeline_error_default
     else
     bindR (download_stage E tot (rq_attachments rq)) (\<lambda>(stored, raw, imgs, failed).
     bindR (check_cancel E) (\<lambda>_.
     bindR (embed_stage E tot stored raw photos) (\<lambda>photos2.
       judge_stages E pd tot imgs photos2)))))"

fun translated :: "run_exn + 'a \<Rightarrow> pipeline_error + 'a" where
  "translated (Inl (Pipeline_exn e)) = Inl e"
| "translated (Inl Other_exn) = Inl pipeline_error_default"
| "translated (Inr x) = Inr x"

definition run :: "'i run_env \<Rightarrow> process_request \<Rightarrow> run_state \<Rightarrow> (pipeline_error + process_result) \<times> run_state" where
  "run E rq s = (case run_body E rq s of (r, t) \<Rightarrow> (translated r, t))"

end
