(* ===== verification/RunResults.thy ===== *)
theory RunResults
  imports PipelineRun "HOL-Library.Sublist"
begin

text \<open>
  The three disciplines of \<open>run\<close>, proved once per combinator and then read off the program:
  a returned result went through every stage (\<open>bindR_Inr\<close>), cancellation is polled between any two pieces
  of work and a poll that says cancelled is the last thing a run does (\<open>polled\<close>), and progress reports
  follow the order of the stages and never pass the number of photos (\<open>paced\<close>).

  What \<open>run\<close> does with the photos themselves: every stage keeps them (the interpretations of
  \<open>photo_stage\<close>, composed), EMBEDDING only sets vectors, and the vectors it uploads are checked
  unit vectors of photos that had none.
\<close>

section \<open>Stage order\<close>

fun step_index :: "process_step \<Rightarrow> nat" where
  "step_index DOWNLOADING = 0"
| "step_index EMBEDDING = 1"
| "step_index CLOCK = 2"
| "step_index LOCATING = 3"
| "step_index CLUSTERING = 4"
| "step_index FILTERING = 5"
| "step_index FINALIZING = 6"

lemma step_index_inject: "step_index a = step_index b \<Longrightarrow> a = b"
  by (cases a; cases b) simp_all

instantiation process_step :: linorder
begin

definition less_eq_process_step :: "process_step \<Rightarrow> process_step \<Rightarrow> bool" where
  "less_eq_process_step a b \<longleftrightarrow> step_index a \<le> step_index b"

definition less_process_step :: "process_step \<Rightarrow> process_step \<Rightarrow> bool" where
  "less_process_step a b \<longleftrightarrow> step_index a < step_index b"

instance
  by standard (auto simp: less_eq_process_step_def less_process_step_def dest: step_index_inject)

end

lemmas step_order = less_eq_process_step_def less_process_step_def

section \<open>Returned results\<close>

lemma bindR_Inr:
  "bindR m f s = (Inr y, t) \<longleftrightarrow> (\<exists>x u. m s = (Inr x, u) \<and> f x u = (Inr y, t))"
  by (auto simp: bindR_def split: prod.split sum.split)

lemma retR_Inr [simp]: "retR x s = (Inr y, t) \<longleftrightarrow> y = x \<and> t = s"
  unfolding retR_def by auto

lemma failR_Inr [simp]: "failR e s = (Inr y, t) \<longleftrightarrow> False"
  by (simp add: failR_def)

lemma raised_Inr [simp]: "raised r = Inr y \<longleftrightarrow> r = Inr y"
  by (cases r) simp_all

lemma translated_Inr [simp]: "translated r = Inr y \<longleftrightarrow> r = Inr y"
  by (cases r rule: translated.cases) simp_all

lemma liftR_Inr [simp]: "liftR r s = (Inr y, t) \<longleftrightarrow> r = Inr y \<and> t = s"
  by (auto simp: liftR_def)

lemma do_work_Inr [simp]: "do_work E w r s = (Inr y, t) \<longleftrightarrow> \<not> re_faulty E w \<and> r = Inr y \<and> t = s @ [Worked w]"
  by (auto simp: do_work_def)

lemma polls_of_append [simp]: "polls_of (a @ b) = polls_of a @ polls_of b"
  by (induction a rule: polls_of.induct) simp_all

lemma reports_of_append [simp]: "reports_of (a @ b) = reports_of a @ reports_of b"
  by (induction a rule: reports_of.induct) simp_all

lemma uploads_of_append [simp]: "uploads_of (a @ b) = uploads_of a @ uploads_of b"
  by (induction a rule: uploads_of.induct) simp_all

lemma judged_of_append [simp]: "judged_of (a @ b) = judged_of a @ judged_of b"
  by (induction a rule: judged_of.induct) simp_all

lemma stage_Inr: "stage E n st op s = (Inr v, t) \<Longrightarrow> \<exists>u w. op u = (Inr v, w)"
  by (auto simp: stage_def bindR_Inr)

lemma stage_work_Inr: "stage E n st (do_work E w r) s = (Inr v, t) \<Longrightarrow> r = Inr v"
  by (drule stage_Inr) simp

section \<open>Cancellation\<close>

text \<open>What may directly follow an event of a run.  Nothing follows a poll that says cancelled; a poll follows every
  piece of work, and the start of a stage and every report but the first of DOWNLOADING and EMBEDDING: before work,
  only reading the stored vectors comes without one.\<close>

fun next_ok :: "run_event \<Rightarrow> run_event \<Rightarrow> bool" where
  "next_ok (Polled b) e \<longleftrightarrow> \<not> b"
| "next_ok (Worked w) e \<longleftrightarrow> (\<exists>b. e = Polled b)"
| "next_ok (Reported st k) (Polled b) \<longleftrightarrow> True"
| "next_ok (Reported st k) (Reported st' k') \<longleftrightarrow> st' = st \<and> st \<in> {DOWNLOADING, EMBEDDING}"
| "next_ok (Reported st k) (Worked w) \<longleftrightarrow> (\<exists>ids. w = Fetch ids)"

text \<open>\<open>polled E P Q js m\<close>: after an event of \<open>P\<close>, the events of \<open>m\<close> follow each other so, its polls are answered by
  \<open>re_cancelled\<close> in order, it ends with the cancellation error when a poll says cancelled, and when it returns the
  last event is in \<open>Q\<close> and it did the judging stages \<open>js\<close>.\<close>

definition polled :: "'i run_env \<Rightarrow> (run_event \<Rightarrow> bool) \<Rightarrow> (run_event \<Rightarrow> bool) \<Rightarrow> process_step list \<Rightarrow> 'a runm \<Rightarrow> bool" where
  "polled E P Q js m \<longleftrightarrow> (\<forall>s res t e. m s = (res, t) \<and> P e \<longrightarrow>
     (\<exists>new. t = s @ new \<and> successively next_ok (e # new) \<and>
        polls_of new = map (re_cancelled E) [length (polls_of s) ..< length (polls_of t)] \<and>
        (last (e # new) = Polled True \<longrightarrow> res = Inl (Pipeline_exn PipelineCancelled)) \<and>
        (\<forall>x. res = Inr x \<longrightarrow> Q (last (e # new)) \<and> judged_of new = js)))"

abbreviation clear :: "run_event \<Rightarrow> bool" where
  "clear e \<equiv> e = Polled False"

abbreviation live :: "run_event \<Rightarrow> bool" where
  "live e \<equiv> e \<noteq> Polled True"

abbreviation reported :: "process_step \<Rightarrow> run_event \<Rightarrow> bool" where
  "reported st e \<equiv> \<exists>k. e = Reported st k"

abbreviation worked :: "run_event \<Rightarrow> bool" where
  "worked e \<equiv> \<exists>w. e = Worked w"

lemma polledD:
  assumes "polled E P Q js m" "m s = (res, t)" "P e"
  obtains new where "t = s @ new" "successively next_ok (e # new)"
    "polls_of new = map (re_cancelled E) [length (polls_of s) ..< length (polls_of t)]"
    "last (e # new) = Polled True \<Longrightarrow> res = Inl (Pipeline_exn PipelineCancelled)"
    "\<And>x. res = Inr x \<Longrightarrow> Q (last (e # new)) \<and> judged_of new = js"
proof -
  from assms(1)[unfolded polled_def, THEN spec, THEN spec, THEN spec, THEN spec, THEN mp, OF conjI, OF assms(2,3)]
  obtain new where "t = s @ new \<and> successively next_ok (e # new) \<and>
        polls_of new = map (re_cancelled E) [length (polls_of s) ..< length (polls_of t)] \<and>
        (last (e # new) = Polled True \<longrightarrow> res = Inl (Pipeline_exn PipelineCancelled)) \<and>
        (\<forall>x. res = Inr x \<longrightarrow> Q (last (e # new)) \<and> judged_of new = js)" by (rule exE)
  then show thesis by (elim conjE) (rule that; (assumption | blast))
qed

lemma polled_cons:
  assumes "polled E P Q js m" "\<And>e. P' e \<Longrightarrow> P e" "\<And>e. Q e \<Longrightarrow> Q' e"
  shows "polled E P' Q' js m"
  unfolding polled_def
proof (intro allI impI, elim conjE)
  fix s res t e assume m: "m s = (res, t)" "P' e"
  from polledD[OF assms(1) m(1) assms(2)[OF m(2)]] obtain new where n: "t = s @ new" "successively next_ok (e # new)"
    "polls_of new = map (re_cancelled E) [length (polls_of s) ..< length (polls_of t)]"
    "last (e # new) = Polled True \<Longrightarrow> res = Inl (Pipeline_exn PipelineCancelled)"
    "\<And>x. res = Inr x \<Longrightarrow> Q (last (e # new)) \<and> judged_of new = js" by blast
  with assms(3) show "\<exists>new. t = s @ new \<and> successively next_ok (e # new) \<and>
        polls_of new = map (re_cancelled E) [length (polls_of s) ..< length (polls_of t)] \<and>
        (last (e # new) = Polled True \<longrightarrow> res = Inl (Pipeline_exn PipelineCancelled)) \<and>
        (\<forall>x. res = Inr x \<longrightarrow> Q' (last (e # new)) \<and> judged_of new = js)"
    by (intro exI[of _ new]) blast
qed

lemma polls_split: "a \<le> b \<Longrightarrow> b \<le> c \<Longrightarrow> map f [a..<c] = map f [a..<b] @ map f [b..<c]"
  by (metis le_Suc_ex map_append upt_add_eq_append)

lemma polled_bindR:
  assumes m: "polled E P Q js m" and f: "\<And>x. polled E Q R ks (f x)"
  shows "polled E P R (js @ ks) (bindR m f)"
  unfolding polled_def
proof (intro allI impI, elim conjE)
  fix s res t e
  assume b: "bindR m f s = (res, t)" and e: "P e"
  obtain r u where mu: "m s = (r, u)" by (cases "m s")
  from polledD[OF m mu e] obtain new where n: "u = s @ new" "successively next_ok (e # new)"
    "polls_of new = map (re_cancelled E) [length (polls_of s) ..< length (polls_of u)]"
    "last (e # new) = Polled True \<Longrightarrow> r = Inl (Pipeline_exn PipelineCancelled)"
    "\<And>x. r = Inr x \<Longrightarrow> Q (last (e # new)) \<and> judged_of new = js" by blast
  show "\<exists>new. t = s @ new \<and> successively next_ok (e # new) \<and>
        polls_of new = map (re_cancelled E) [length (polls_of s) ..< length (polls_of t)] \<and>
        (last (e # new) = Polled True \<longrightarrow> res = Inl (Pipeline_exn PipelineCancelled)) \<and>
        (\<forall>x. res = Inr x \<longrightarrow> R (last (e # new)) \<and> judged_of new = js @ ks)"
  proof (cases r)
    case (Inl x)
    with b mu have "t = u" "res = Inl x" by (simp_all add: bindR_def)
    with n Inl show ?thesis by (intro exI[of _ new]) simp
  next
    case (Inr x)
    with b mu have "f x u = (res, t)" by (simp add: bindR_def)
    from polledD[OF f this conjunct1[OF n(5)[OF Inr]]] obtain more where k: "t = u @ more"
      "successively next_ok (last (e # new) # more)"
      "polls_of more = map (re_cancelled E) [length (polls_of u) ..< length (polls_of t)]"
      "last (last (e # new) # more) = Polled True \<Longrightarrow> res = Inl (Pipeline_exn PipelineCancelled)"
      "\<And>x. res = Inr x \<Longrightarrow> R (last (last (e # new) # more)) \<and> judged_of more = ks" by blast
    have l: "last (e # new @ more) = last (last (e # new) # more)" by simp
    have "successively next_ok ((e # new) @ more)"
      using n(2) k(2) unfolding successively_append_iff by (auto simp: successively_Cons)
    moreover have "polls_of (new @ more) = map (re_cancelled E) [length (polls_of s) ..< length (polls_of t)]"
    proof -
      have "polls_of (new @ more) = map (re_cancelled E) [length (polls_of s) ..< length (polls_of u)] @
          map (re_cancelled E) [length (polls_of u) ..< length (polls_of t)]"
        using n(3) k(3) by (simp only: polls_of_append)
      also have "\<dots> = map (re_cancelled E) [length (polls_of s) ..< length (polls_of t)]"
        by (rule polls_split[symmetric]) (simp_all add: n(1) k(1))
      finally show ?thesis .
    qed
    moreover have "t = s @ new @ more" by (simp add: n(1) k(1))
    moreover have "last (e # new @ more) = Polled True \<longrightarrow> res = Inl (Pipeline_exn PipelineCancelled)"
      using k(4) unfolding l by blast
    moreover have "R (last (e # new @ more)) \<and> judged_of (new @ more) = js @ ks" if "res = Inr y" for y
      using k(5)[OF that] n(5)[OF Inr] unfolding l judged_of_append by simp
    ultimately show ?thesis by (intro exI[of _ "new @ more"]) (simp only: append_Cons, blast)
  qed
qed

lemma polled_ret: "(\<And>e. P e \<Longrightarrow> live e) \<Longrightarrow> polled E P P [] (retR x)"
  by (auto simp: polled_def retR_def)

lemma polled_fail: "(\<And>e. P e \<Longrightarrow> live e) \<Longrightarrow> polled E P Q js (failR x)"
  by (auto simp: polled_def failR_def)

lemma polled_lift: "(\<And>e. P e \<Longrightarrow> live e) \<Longrightarrow> polled E P P [] (liftR x)"
  by (auto simp: polled_def liftR_def)

lemma polled_check: "polled E live clear [] (check_cancel E)"
  unfolding polled_def
proof (intro allI impI, elim conjE)
  fix s res t e assume m: "check_cancel E s = (res, t)" "live e"
  let ?c = "re_cancelled E (length (polls_of s))"
  have t: "t = s @ [Polled ?c]" and r: "res = (if ?c then Inl (Pipeline_exn PipelineCancelled) else Inr ())"
    using m(1) by (simp_all add: check_cancel_def Let_def)
  have "next_ok e (Polled ?c)" using m(2) by (cases e) auto
  then show "\<exists>new. t = s @ new \<and> successively next_ok (e # new) \<and>
        polls_of new = map (re_cancelled E) [length (polls_of s) ..< length (polls_of t)] \<and>
        (last (e # new) = Polled True \<longrightarrow> res = Inl (Pipeline_exn PipelineCancelled)) \<and>
        (\<forall>x. res = Inr x \<longrightarrow> clear (last (e # new)) \<and> judged_of new = [])"
    by (intro exI[of _ "[Polled ?c]"]) (auto simp: t r)
qed

lemma polled_report:
  "(\<And>e. P e \<Longrightarrow> next_ok e (Reported st k)) \<Longrightarrow> polled E P (reported st) [] (report st k)"
  by (fastforce simp: polled_def report_def)

lemma polled_work:
  assumes "\<And>e. P e \<Longrightarrow> next_ok e (Worked w)"
  shows "polled E P worked (case w of Judge st \<Rightarrow> [st] | _ \<Rightarrow> []) (do_work E w r)"
  unfolding polled_def
proof (intro allI impI, elim conjE)
  fix s res t e assume m: "do_work E w r s = (res, t)" "P e"
  then have "t = s @ [Worked w]" by (simp add: do_work_def)
  with assms[OF m(2)] show "\<exists>new. t = s @ new \<and> successively next_ok (e # new) \<and>
        polls_of new = map (re_cancelled E) [length (polls_of s) ..< length (polls_of t)] \<and>
        (last (e # new) = Polled True \<longrightarrow> res = Inl (Pipeline_exn PipelineCancelled)) \<and>
        (\<forall>x. res = Inr x \<longrightarrow> worked (last (e # new)) \<and> judged_of new = (case w of Judge st \<Rightarrow> [st] | _ \<Rightarrow> []))"
    by (intro exI[of _ "[Worked w]"]) (simp split: run_work.split)
qed

lemma polled_after: "polled E P Q js m \<Longrightarrow> (\<And>x. polled E Q R [] (f x)) \<Longrightarrow> polled E P R js (bindR m f)"
  using polled_bindR[of E P Q js m R "[]" f] by simp

lemma polled_before: "polled E P Q [] m \<Longrightarrow> (\<And>x. polled E Q R js (f x)) \<Longrightarrow> polled E P R js (bindR m f)"
  using polled_bindR[of E P Q "[]" m R js f] by simp

text \<open>After a poll, and a poll when one may be.\<close>

lemma polled_checked: "(\<And>e. P e \<Longrightarrow> live e) \<Longrightarrow> polled E clear R js (f ()) \<Longrightarrow> polled E P R js (bindR (check_cancel E) f)"
  by (rule polled_before[OF polled_cons[OF polled_check]]) auto

lemma polled_said: "polled E (reported st) R js (f ()) \<Longrightarrow> (\<And>e. P e \<Longrightarrow> next_ok e (Reported st k)) \<Longrightarrow>
    polled E P R js (bindR (report st k) f)"
  by (rule polled_before[OF polled_report]) auto

lemma polled_stage:
  assumes "polled E clear Q js op" "\<And>e. Q e \<Longrightarrow> live e"
  shows "polled E live (reported st) js (stage E n st op)"
  unfolding stage_def
  by (intro polled_checked polled_said polled_after[OF assms(1)] polled_ret) (use assms(2) in auto)

lemma polled_judge: "polled E live (reported st) [st] (stage E n st (do_work E (Judge st) r))"
  by (rule polled_stage, rule polled_work[where w = "Judge st", simplified]) auto

text \<open>The agent: a poll comes first and after every call it counts.\<close>

fun agent_next :: "agent_event \<Rightarrow> agent_event \<Rightarrow> bool" where
  "agent_next Poll e \<longleftrightarrow> True"
| "agent_next (Done_count n) e \<longleftrightarrow> e = Poll"

definition agent_polls :: "agent_event list \<Rightarrow> bool" where
  "agent_polls es \<longleftrightarrow> successively agent_next (Done_count 0 # es)"

lemma polled_agent_events:
  "successively agent_next es \<Longrightarrow> es = [] \<or> hd es = Poll \<or> (\<forall>e. P e \<longrightarrow> clear e) \<Longrightarrow> (\<And>e. P e \<Longrightarrow> live e) \<Longrightarrow>
    polled E P live [] (agent_events E n es)"
proof (induction es arbitrary: P)
  case Nil
  then show ?case unfolding agent_events.simps by (intro polled_cons[OF polled_ret[of P]]) auto
next
  case (Cons e es)
  have s: "successively agent_next es" using Cons.prems(1) by (cases es) simp_all
  show ?case
  proof (cases e)
    case Poll
    have "polled E clear live [] (agent_events E n es)" by (rule Cons.IH[OF s]) auto
    with Poll Cons.prems(3) show ?thesis by (auto intro: polled_checked)
  next
    case (Done_count k)
    have c: "P e \<Longrightarrow> clear e" for e using Cons.prems(2) Done_count by auto
    have "es = [] \<or> hd es = Poll" using Cons.prems(1) Done_count by (auto simp: successively_Cons)
    then have "polled E (reported CLUSTERING) live [] (agent_events E n es)" by (intro Cons.IH[OF s]) auto
    with Done_count show ?thesis by (auto intro!: polled_said dest: c)
  qed
qed

lemma polled_clustering_stage:
  assumes "\<forall>agent ps. re_agent E = Some agent \<longrightarrow> agent_polls (fst (agent ps))"
  shows "polled E clear live [CLUSTERING] (clustering_stage E n pd ps)"
proof -
  have w: "polled E clear worked [CLUSTERING] (do_work E (Judge CLUSTERING) (placing E pd ps))"
    by (rule polled_work[where w = "Judge CLUSTERING", simplified]) auto
  have "polled E worked live [] (case re_agent E of
         None \<Rightarrow> retR rs
       | Some agent \<Rightarrow> bindR (agent_events E n (fst (agent rs))) (\<lambda>_. liftR (snd (agent rs))))" for rs
  proof (cases "re_agent E")
    case None
    then show ?thesis by (simp, intro polled_cons[OF polled_ret[of worked]]) auto
  next
    case (Some agent)
    with assms have a: "agent_polls (fst (agent rs))" by blast
    have "polled E worked live [] (agent_events E n (fst (agent rs)))"
      by (rule polled_agent_events) (use a in \<open>auto simp: agent_polls_def successively_Cons\<close>)
    then show ?thesis using Some by (auto intro: polled_after polled_lift)
  qed
  then show ?thesis unfolding clustering_stage_def by (rule polled_after[OF w])
qed

lemma polled_case_prod: "(\<And>a b. polled E P Q js (f a b)) \<Longrightarrow> polled E P Q js (case p of (a, b) \<Rightarrow> f a b)"
  by (simp split: prod.split)

lemma polled_if: "(c \<Longrightarrow> polled E P Q js a) \<Longrightarrow> (\<not> c \<Longrightarrow> polled E P Q js b) \<Longrightarrow> polled E P Q js (if c then a else b)"
  by simp

lemma polled_next:
  assumes "polled E P Q [j] m" "\<And>e. Q e \<Longrightarrow> Q' e" "\<And>x. polled E Q' R ks (f x)"
  shows "polled E P R (j # ks) (bindR m f)"
  using polled_bindR[OF polled_cons[OF assms(1) _ assms(2)] assms(3)] by simp

definition judging_steps :: "process_step list" where
  "judging_steps = [CLOCK, LOCATING, CLUSTERING, FILTERING, FINALIZING]"

lemma polled_judge_stages:
  assumes "\<forall>agent ps. re_agent E = Some agent \<longrightarrow> agent_polls (fst (agent ps))"
  shows "polled E live clear judging_steps (judge_stages E pd n imgs ps)"
  unfolding judge_stages_def Let_def judging_steps_def
  by (rule polled_next[OF polled_judge, where Q' = live], blast, rule polled_case_prod,
      rule polled_next[OF polled_judge, where Q' = live], blast,
      rule polled_next[OF polled_stage[OF polled_clustering_stage[OF assms]], where Q' = live], assumption, blast,
      rule polled_next[OF polled_judge, where Q' = live], blast, rule polled_case_prod,
      rule polled_next[OF polled_judge, where Q' = live], blast,
      rule polled_checked, assumption, rule polled_ret) auto

lemma polled_download_loop:
  "polled E (\<lambda>e. clear e \<or> reported DOWNLOADING e \<or> worked e) live [] (download_loop E sk n cs start acc)"
proof (induction cs arbitrary: start acc)
  case Nil
  show ?case unfolding download_loop.simps by (rule polled_cons[OF polled_ret]) auto
next
  case (Cons c cs)
  have w: "polled E clear worked [] (do_work E (Load is) r)" for "is" and r :: "pipeline_error + 'b"
    using polled_work[of clear "Load is" E r] by simp
  show ?case unfolding download_loop.simps
    by (rule polled_checked, blast, rule polled_before[OF w], rule polled_checked, blast, rule polled_said,
        rule polled_cons[OF Cons.IH]) auto
qed

lemma polled_embed_loop:
  "polled E (\<lambda>e. clear e \<or> reported EMBEDDING e) live [] (embed_loop E re n raw ids start ps)"
proof (induction ids arbitrary: start ps)
  case Nil
  show ?case unfolding embed_loop.simps by (rule polled_cons[OF polled_ret]) auto
next
  case (Cons c ids)
  have w: "polled E clear worked [] (do_work E (Encode is) r)" for "is" and r :: "pipeline_error + 'b"
    using polled_work[of clear "Encode is" E r] by simp
  have u: "polled E clear worked [] (do_work E (Upload vs) r)" for vs and r :: "pipeline_error + 'b"
    using polled_work[of clear "Upload vs" E r] by simp
  show ?case unfolding embed_loop.simps
    by (rule polled_checked, blast, rule polled_before[OF w], rule polled_checked, blast, rule polled_before[OF u],
        rule polled_checked, blast, rule polled_said, rule polled_cons[OF Cons.IH]) auto
qed

lemma polled_download_stage: "polled E clear live [] (download_stage E n atts)"
proof -
  have f: "polled E (reported DOWNLOADING) worked [] (do_work E (Fetch is) r)" for "is" and r :: "pipeline_error + 'b"
    by (rule polled_work[of _ "Fetch is", simplified]) auto
  have rest: "polled E (\<lambda>e. clear e \<or> reported DOWNLOADING e) live []
      (bindR (if sk \<noteq> 0 then report DOWNLOADING sk else retR ()) (\<lambda>_.
       bindR (download_loop E sk m cs 0 ([], [], [])) (\<lambda>loaded.
       if snd (snd loaded) \<noteq> [] then failR (DecodeFailed (snd (snd loaded))) else retR (stored, loaded))))"
    for sk m cs and stored :: "(int, vec) pydict"
  proof (rule polled_before[where Q = "\<lambda>e. clear e \<or> reported DOWNLOADING e"])
    show "polled E (\<lambda>e. clear e \<or> reported DOWNLOADING e) (\<lambda>e. clear e \<or> reported DOWNLOADING e) []
        (if sk \<noteq> 0 then report DOWNLOADING sk else retR ())"
      by (rule polled_if, rule polled_cons[OF polled_report[where P = "\<lambda>e. clear e \<or> reported DOWNLOADING e"]])
        (auto intro: polled_ret)
    show "polled E (\<lambda>e. clear e \<or> reported DOWNLOADING e) live [] (bindR (download_loop E sk m cs 0 ([], [], []))
        (\<lambda>loaded. if snd (snd loaded) \<noteq> [] then failR (DecodeFailed (snd (snd loaded))) else retR (stored, loaded)))"
      by (rule polled_before[OF polled_cons[OF polled_download_loop, where Q' = live]]) (auto intro!: polled_if polled_fail polled_ret)
  qed
  show ?thesis
  proof (cases "re_reuse E")
    case True
    then show ?thesis unfolding download_stage_def Let_def
      by (simp only: if_True, intro polled_said polled_before[OF f] polled_checked polled_cons[OF rest]) auto
  next
    case False
    then show ?thesis unfolding download_stage_def Let_def
      by (simp only: if_False, intro polled_said polled_before[OF polled_ret[where P = "reported DOWNLOADING"]]
          polled_cons[OF rest]) auto
  qed
qed

lemma polled_embed_stage: "polled E clear live [] (embed_stage E n stored raw ps)"
  unfolding embed_stage_def Let_def
  by (rule polled_said, rule polled_before[where Q = "\<lambda>e. clear e \<or> reported EMBEDDING e"], rule polled_if,
      rule polled_cons[OF polled_report[where P = "reported EMBEDDING"]])
    (auto intro: polled_cons[OF polled_ret[where P = "reported EMBEDDING"]] polled_embed_loop)

lemma run_body_rest:
  assumes "\<forall>agent ps. re_agent E = Some agent \<longrightarrow> agent_polls (fst (agent ps))"
  shows "\<exists>f. run_body E rq = bindR (check_cancel E) f \<and> (\<forall>x. polled E clear clear judging_steps (f x))"
  unfolding run_body_def Let_def
  by (intro exI conjI allI, rule refl, (rule polled_if, rule polled_fail, blast)+,
      rule polled_before[OF polled_download_stage], (rule polled_case_prod)+, rule polled_checked, assumption,
      rule polled_before[OF polled_embed_stage], rule polled_judge_stages[OF assms])

lemma cancelled_last: "successively next_ok new \<Longrightarrow> Polled True \<in> set new \<Longrightarrow> last new = Polled True"
  by (induction new rule: induct_list012) auto

lemma run_polled:
  assumes "run E rq s = (res, t)" "\<forall>agent ps. re_agent E = Some agent \<longrightarrow> agent_polls (fst (agent ps))"
  shows "\<exists>new. t = s @ new \<and> (\<exists>b es. new = Polled b # es) \<and> successively next_ok new \<and>
    polls_of new = map (re_cancelled E) [length (polls_of s) ..< length (polls_of t)] \<and>
    (Polled True \<in> set new \<longrightarrow> last new = Polled True \<and> res = Inl PipelineCancelled) \<and>
    (\<forall>r. res = Inr r \<longrightarrow> last new = Polled False \<and> judged_of new = judging_steps)"
proof -
  let ?e = "Worked (Judge FINALIZING)"
  from run_body_rest[OF assms(2)] obtain f where
    f: "run_body E rq = bindR (check_cancel E) f" "\<And>x. polled E clear clear judging_steps (f x)" by blast
  have p: "polled E live clear judging_steps (run_body E rq)"
    unfolding f(1) using polled_bindR[OF polled_check f(2)] by simp
  obtain y where y: "run_body E rq s = (y, t)" and res: "res = translated y"
    using assms(1) by (auto simp: run_def split: prod.splits)
  from polledD[OF p y, of ?e] obtain new where n: "t = s @ new" "successively next_ok (?e # new)"
    "polls_of new = map (re_cancelled E) [length (polls_of s) ..< length (polls_of t)]"
    "last (?e # new) = Polled True \<Longrightarrow> y = Inl (Pipeline_exn PipelineCancelled)"
    "\<And>x. y = Inr x \<Longrightarrow> clear (last (?e # new)) \<and> judged_of new = judging_steps" by blast
  obtain r u where c: "check_cancel E s = (r, u)" by (cases "check_cancel E s")
  then have u: "\<exists>b. u = s @ [Polled b]" by (auto simp: check_cancel_def Let_def)
  have "\<exists>more. t = u @ more"
  proof (cases r)
    case (Inl e)
    with c y show ?thesis by (simp add: f(1) bindR_def)
  next
    case (Inr x)
    with c y have "f x u = (y, t)" by (simp add: f(1) bindR_def)
    from polledD[OF f(2) this refl] show ?thesis by blast
  qed
  with u n(1) obtain b es where h: "new = Polled b # es" by auto
  have ok: "successively next_ok new" using n(2) h by simp
  have l: "last (?e # new) = last new" using h by simp
  show ?thesis
  proof (intro exI conjI impI allI)
    show "t = s @ new" "new = Polled b # es" "successively next_ok new"
      "polls_of new = map (re_cancelled E) [length (polls_of s) ..< length (polls_of t)]" by fact+
    assume "Polled True \<in> set new"
    from cancelled_last[OF ok this] show "last new = Polled True" .
    with n(4) show "res = Inl PipelineCancelled" unfolding l res by simp
  next
    fix r assume "res = Inr r"
    then have "y = Inr r" by (simp add: res)
    from n(5)[OF this] show "last new = Polled False" "judged_of new = judging_steps" unfolding l by simp_all
  qed
qed

section \<open>Progress reports\<close>

definition paced :: "nat \<Rightarrow> process_step \<Rightarrow> process_step \<Rightarrow> 'a runm \<Rightarrow> bool" where
  "paced n lo hi m \<longleftrightarrow> (\<forall>s res t. m s = (res, t) \<longrightarrow>
     (\<exists>new. reports_of t = reports_of s @ new \<and> sorted (map fst new) \<and>
        (\<forall>(st, k) \<in> set new. lo \<le> st \<and> st \<le> hi \<and> k \<le> n)))"

lemma paced_mono:
  assumes "paced n lo hi m" "lo' \<le> lo" "hi \<le> hi'"
  shows "paced n lo' hi' m"
  unfolding paced_def
proof (intro allI impI)
  fix s res t
  assume "m s = (res, t)"
  from assms(1)[unfolded paced_def, rule_format, OF this] obtain new where
    "reports_of t = reports_of s @ new" "sorted (map fst new)"
    "\<forall>(st, k) \<in> set new. lo \<le> st \<and> st \<le> hi \<and> k \<le> n" by blast
  with assms(2,3) show "\<exists>new. reports_of t = reports_of s @ new \<and> sorted (map fst new) \<and>
      (\<forall>(st, k) \<in> set new. lo' \<le> st \<and> st \<le> hi' \<and> k \<le> n)"
    by (intro exI[of _ new]) force
qed

lemma paced_bindR:
  assumes m: "paced n lo mid m" and f: "\<And>x. paced n mid hi (f x)" and "lo \<le> mid" "mid \<le> hi"
  shows "paced n lo hi (bindR m f)"
  unfolding paced_def
proof (intro allI impI)
  fix s res t
  assume b: "bindR m f s = (res, t)"
  obtain r u where mu: "m s = (r, u)" by (cases "m s")
  from m[unfolded paced_def, rule_format, OF mu] obtain new1 where
    1: "reports_of u = reports_of s @ new1" "sorted (map fst new1)"
    "\<forall>(st, k) \<in> set new1. lo \<le> st \<and> st \<le> mid \<and> k \<le> n" by blast
  show "\<exists>new. reports_of t = reports_of s @ new \<and> sorted (map fst new) \<and>
      (\<forall>(st, k) \<in> set new. lo \<le> st \<and> st \<le> hi \<and> k \<le> n)"
  proof (cases r)
    case (Inl e)
    with b mu have "t = u" by (simp add: bindR_def)
    with 1 assms(4) show ?thesis by (intro exI[of _ new1]) force
  next
    case (Inr x)
    with b mu have "f x u = (res, t)" by (simp add: bindR_def)
    from f[of x, unfolded paced_def, rule_format, OF this] obtain new2 where
      2: "reports_of t = reports_of u @ new2" "sorted (map fst new2)"
      "\<forall>(st, k) \<in> set new2. mid \<le> st \<and> st \<le> hi \<and> k \<le> n" by blast
    have "sorted (map fst (new1 @ new2))"
      using 1 2 by (fastforce simp: sorted_append)
    with 1 2 assms(3,4) show ?thesis by (intro exI[of _ "new1 @ new2"]) force
  qed
qed

lemma paced_quiet:
  "(\<And>s. reports_of (snd (m s)) = reports_of s) \<Longrightarrow> paced n lo hi m"
  unfolding paced_def by (metis append_Nil2 empty_iff empty_set list.simps(8) snd_conv sorted_simps(1))

lemma paced_basic:
  "paced n lo hi (retR x)" "paced n lo hi (failR e)" "paced n lo hi (liftR r)"
  "paced n lo hi (check_cancel E)" "paced n lo hi (do_work E w v)"
  by (rule paced_quiet; simp add: retR_def failR_def liftR_def check_cancel_def Let_def do_work_def)+

lemma paced_report: "k \<le> n \<Longrightarrow> paced n st st (report st k)"
  by (auto simp: paced_def report_def)

lemma paced_seq: "paced n st st m \<Longrightarrow> (\<And>x. paced n st st (f x)) \<Longrightarrow> paced n st st (bindR m f)"
  by (rule paced_bindR[OF _ _ order_refl order_refl])

lemma paced_stage: "paced n st st op \<Longrightarrow> paced n st st (stage E n st op)"
  unfolding stage_def by (intro paced_seq paced_basic paced_report) simp_all

lemmas paced_lifted = paced_stage[OF paced_basic(5)]

lemma paced_agent_events: "paced n CLUSTERING CLUSTERING (agent_events E n es)"
  by (induction E n es rule: agent_events.induct) (auto intro!: paced_seq paced_basic paced_report)

lemma paced_clustering_stage: "paced n CLUSTERING CLUSTERING (clustering_stage E n pd ps)"
  unfolding clustering_stage_def
  by (rule paced_seq, rule paced_basic)
    (auto intro: paced_seq paced_basic paced_agent_events split: option.split)

lemma paced_case_prod:
  "(\<And>a b. paced n lo hi (f a b)) \<Longrightarrow> paced n lo hi (case p of (a, b) \<Rightarrow> f a b)"
  by (simp split: prod.split)

lemma paced_download_loop:
  "sk + len \<le> n \<Longrightarrow> paced n DOWNLOADING DOWNLOADING (download_loop E sk len cs start acc)"
proof (induction cs arbitrary: start acc)
  case Nil
  then show ?case by (simp add: paced_basic)
next
  case (Cons c cs)
  then show ?case by (auto intro!: paced_seq paced_basic paced_report)
qed

lemma paced_embed_loop:
  "re + len \<le> n \<Longrightarrow> paced n EMBEDDING EMBEDDING (embed_loop E re len raw ids start ps)"
  by (induction ids arbitrary: start ps) (auto intro!: paced_seq paced_basic paced_report)

lemma paced_next:
  assumes "paced n a a m" "\<And>x. paced n b hi (f x)" "a \<le> b" "b \<le> hi"
  shows "paced n a hi (bindR m f)"
  using assms by (intro paced_bindR[of n a a]) (auto intro: paced_mono)

lemma paced_judge_stages: "paced n CLOCK FINALIZING (judge_stages E pd n imgs ps)"
  unfolding judge_stages_def Let_def
  by (rule paced_next[OF paced_lifted, where b = LOCATING], rule paced_case_prod,
      rule paced_next[OF paced_lifted, where b = CLUSTERING],
      rule paced_next[OF paced_stage[OF paced_clustering_stage], where b = FILTERING],
      rule paced_next[OF paced_lifted, where b = FINALIZING], rule paced_case_prod,
      rule paced_seq[OF paced_lifted], rule paced_seq, (rule paced_basic)+)
    (simp_all add: step_order)

lemma paced_if: "(c \<Longrightarrow> paced n lo hi a) \<Longrightarrow> (\<not> c \<Longrightarrow> paced n lo hi b) \<Longrightarrow> paced n lo hi (if c then a else b)"
  by simp

lemma paced_download_stage:
  assumes "length atts \<le> n"
  shows "paced n DOWNLOADING DOWNLOADING (download_stage E n atts)"
proof -
  have le: "n - length (filter P atts) + length (filter P atts) \<le> n" for P
    using length_filter_le[of P atts] assms by linarith
  show ?thesis
    unfolding download_stage_def Let_def
    by (intro paced_seq paced_basic paced_report paced_if paced_download_loop)
      (use le assms in auto)
qed

lemma paced_embed_stage:
  assumes "length ps \<le> n"
  shows "paced n EMBEDDING EMBEDDING (embed_stage E n stored raw ps)"
proof -
  have le: "n - length (filter P qs) + length (filter P qs) \<le> n" if "length qs = length ps" for P qs
    using length_filter_le[of P qs] assms that by linarith
  show ?thesis
    unfolding embed_stage_def Let_def
    by (intro paced_seq paced_basic paced_report paced_if paced_embed_loop)
      (use le in auto)
qed

lemma paced_run_body: "paced (length (rq_attachments rq)) DOWNLOADING FINALIZING (run_body E rq)"
proof -
  let ?n = "length (rq_attachments rq)"
  have cc: "paced ?n lo lo (check_cancel E)" for lo by (rule paced_basic)
  have emb: "paced ?n EMBEDDING EMBEDDING (embed_stage E ?n stored raw (build_photo_states rq))"
    for stored raw
    by (rule paced_embed_stage) (simp add: build_photo_states_def)
  have dl: "paced ?n DOWNLOADING DOWNLOADING (download_stage E ?n (rq_attachments rq))"
    by (rule paced_download_stage) simp
  show ?thesis
    unfolding run_body_def Let_def
    by (rule paced_next[OF cc, where b = DOWNLOADING], (rule paced_if, rule paced_basic)+,
        rule paced_next[OF dl, where b = EMBEDDING], (rule paced_case_prod)+,
        rule paced_next[OF cc, where b = EMBEDDING],
        rule paced_next[OF emb, where b = CLOCK], rule paced_judge_stages)
      (simp_all add: step_order)
qed

section \<open>EMBEDDING\<close>

definition same_but_emb :: "photo \<Rightarrow> photo \<Rightarrow> bool" where
  "same_but_emb p q \<longleftrightarrow> (\<exists>v. q = p\<lparr>ph_emb := v\<rparr>)"

lemma same_but_emb_refl [simp]: "same_but_emb p p"
  by (auto simp: same_but_emb_def intro: exI[of _ "ph_emb p"])

lemma same_but_emb_update [simp]: "same_but_emb p (p\<lparr>ph_emb := v\<rparr>)"
  by (auto simp: same_but_emb_def)

lemma same_but_emb_trans: "same_but_emb p q \<Longrightarrow> same_but_emb q r \<Longrightarrow> same_but_emb p r"
  by (auto simp: same_but_emb_def)

lemma set_embeddings_keeps: "list_all2 same_but_emb ps (set_embeddings vs ps)"
  by (auto simp: set_embeddings_def list_all2_map2 list_all2_same split: option.split)

lemma same_but_emb_list_trans:
  "list_all2 same_but_emb ps qs \<Longrightarrow> list_all2 same_but_emb qs rs \<Longrightarrow> list_all2 same_but_emb ps rs"
  by (rule list_all2_trans[OF same_but_emb_trans])

lemma embed_loop_keeps:
  "embed_loop E re n raw ids start ps s = (Inr qs, t) \<Longrightarrow> list_all2 same_but_emb ps qs"
proof (induction ids arbitrary: start ps s)
  case Nil
  then show ?case by (simp add: list_all2_same same_but_emb_refl)
next
  case (Cons c ids)
  from Cons.prems obtain vs start' u where
    "embed_loop E re n raw ids start' (set_embeddings (zip c vs) ps) u = (Inr qs, t)"
    by (auto simp: bindR_Inr)
  from Cons.IH[OF this] set_embeddings_keeps[of ps "zip c vs"] show ?case
    using same_but_emb_list_trans by blast
qed

lemma embed_stage_keeps:
  assumes "embed_stage E n stored raw ps s = (Inr qs, t)"
  shows "list_all2 same_but_emb ps qs"
proof -
  let ?ps1 = "if re_reuse E then map (\<lambda>p. p\<lparr>ph_emb := map_of stored (ph_id p)\<rparr>) ps else ps"
  have "list_all2 same_but_emb ps ?ps1"
    by (simp add: list_all2_map2 list_all2_same)
  moreover from assms obtain re m ids u where "embed_loop E re m raw ids 0 ?ps1 u = (Inr qs, t)"
    by (auto simp: embed_stage_def Let_def bindR_Inr)
  ultimately show ?thesis using embed_loop_keeps same_but_emb_list_trans by blast
qed

lemma same_but_emb_src: "list_all2 same_but_emb ps qs \<Longrightarrow> map ph_src qs = map ph_src ps"
  by (induction rule: list_all2_induct) (auto simp: same_but_emb_def)

section \<open>The judged stages keep the photos\<close>

lemma release_src [simp]: "map ph_src (release_unshowable_new_places ps) = map ph_src ps"
  by (auto simp: release_unshowable_new_places_def split: option.split)

definition agent_ok :: "'i run_env \<Rightarrow> bool" where
  "agent_ok E \<longleftrightarrow> (\<forall>agent ps qs. re_agent E = Some agent \<longrightarrow> distinct (map ph_id ps) \<longrightarrow>
     snd (agent ps) = Inr qs \<longrightarrow> map ph_src qs = map ph_src ps)"

lemma clustering_stage_Inr:
  "clustering_stage E n pd ps s = (Inr qs, t) \<Longrightarrow>
   \<exists>rs. placing E pd ps = Inr rs \<and>
     (case re_agent E of None \<Rightarrow> qs = rs | Some agent \<Rightarrow> snd (agent rs) = Inr qs)"
  by (auto simp: clustering_stage_def bindR_Inr split: option.splits)

lemma ids_of_src: "map ph_src qs = map ph_src ps \<Longrightarrow> map ph_id qs = map ph_id ps"
  by (metis (no_types, lifting) list.map_comp map_eq_conv o_apply)

lemma clustering_stage_src:
  assumes "clustering_stage E n pd ps s = (Inr qs, t)" "agent_ok E" "distinct (map ph_id ps)"
  shows "map ph_src qs = map ph_src ps"
proof -
  from clustering_stage_Inr[OF assms(1)] obtain mins q1 q2 where
    c: "cluster_photos (re_dbscan E) (th_rat E ''dbscan_eps_m'') mins ps = Inr q1"
    and a: "assign_stage pd (th_rat E ''inherit_min_sim'') (th_rat E ''interpolate_max_gap_min'') q1 = Inr q2"
    and g: "case re_agent E of None \<Rightarrow> qs = q2 | Some agent \<Rightarrow> snd (agent q2) = Inr qs"
    by (auto simp: placing_def)
  have src: "map ph_src q2 = map ph_src ps" using cluster.keeps_src[OF c] assign.keeps_src[OF a] by simp
  have "distinct (map ph_id q2)" using assms(3) ids_of_src[OF src] by simp
  then have "map ph_src qs = map ph_src q2"
    using g assms(2) by (auto simp: agent_ok_def split: option.splits)
  with src show ?thesis by simp
qed

text \<open>The chain of stage results behind a returned result.\<close>

lemma judge_stages_chain:
  assumes "judge_stages E pd n imgs ps s = (Inr r, t)"
  shows "\<exists>mp md ms ps1 offsets ps2 ps3 ps4 variances.
    correct_clocks (th_rat E ''clock_pair_min_sim'') mp (th_rat E ''clock_offset_tolerance_sec'') ps
      = Inr (ps1, offsets) \<and>
    locate_photos pd (th_rat E ''inherit_min_sim'') ps1 = Inr ps2 \<and>
    (\<exists>u w. clustering_stage E n pd ps2 u = (Inr ps3, w)) \<and>
    filter_photos (re_hdist E) ms (th_rat E ''blur_var_min'') md ps3 = Inr (ps4, variances) \<and>
    finalize_photos (re_center E)
      (if re_agent E = None then ps4 else release_unshowable_new_places ps4) variances offsets = Inr r"
  using assms unfolding judge_stages_def Let_def
  by (auto simp: bindR_Inr split: prod.splits split del: if_split dest!: stage_work_Inr stage_Inr[of E n CLUSTERING]) blast

lemma map_sum_fst_Inr: "r = Inr (a, b) \<Longrightarrow> map_sum id fst r = Inr a"
  by simp

lemma judge_stages_ids:
  assumes "judge_stages E pd n imgs ps s = (Inr r, t)" "agent_ok E" "distinct (map ph_id ps)"
  shows "mset (result_ids r) = mset (map ph_id ps) \<and> res_failed r = [] \<and> valid_result r"
proof -
  from judge_stages_chain[OF assms(1)] obtain mp md ms ps1 offsets ps2 ps3 ps4 variances u w where
    1: "correct_clocks (th_rat E ''clock_pair_min_sim'') mp (th_rat E ''clock_offset_tolerance_sec'') ps
      = Inr (ps1, offsets)"
    and 2: "locate_photos pd (th_rat E ''inherit_min_sim'') ps1 = Inr ps2"
    and 3: "clustering_stage E n pd ps2 u = (Inr ps3, w)"
    and 4: "filter_photos (re_hdist E) ms (th_rat E ''blur_var_min'') md ps3 = Inr (ps4, variances)"
    and 5: "finalize_photos (re_center E)
      (if re_agent E = None then ps4 else release_unshowable_new_places ps4) variances offsets = Inr r"
    by blast
  let ?ps5 = "if re_agent E = None then ps4 else release_unshowable_new_places ps4"
  have 6: "map ph_src ps2 = map ph_src ps"
    using locate.keeps_src[OF 2] clock.keeps_src[OF map_sum_fst_Inr[OF 1]] by simp
  have "distinct (map ph_id ps2)" using assms(3) ids_of_src[OF 6] by simp
  note 7 = clustering_stage_src[OF 3 assms(2) this]
  have "map ph_src ?ps5 = map ph_src ps4" by simp
  also have "\<dots> = map ph_src ps3" by (rule filter.keeps_src[OF map_sum_fst_Inr[OF 4]])
  also have "\<dots> = map ph_src ps2" by (rule 7)
  also have "\<dots> = map ph_src ps" by (rule 6)
  finally have "map ph_id ?ps5 = map ph_id ps" by (rule ids_of_src)
  with finalize_ids[OF 5] finalize_parts[OF 5] show ?thesis by simp
qed

lemma run_Inr: "run E rq s = (Inr r, t) \<longleftrightarrow> run_body E rq s = (Inr r, t)"
  by (auto simp: run_def split: prod.splits)

lemma run_state: "snd (run E rq s) = snd (run_body E rq s)"
  by (simp add: run_def split: prod.split)

lemma run_parts:
  assumes "run E rq s = (Inr r, t)"
  shows "\<exists>stored raw imgs failed s1 s2 ps s3.
    download_stage E (length (rq_attachments rq)) (rq_attachments rq) s1 = (Inr (stored, raw, imgs, failed), s2) \<and>
    (\<exists>s2'. embed_stage E (length (rq_attachments rq)) stored raw (build_photo_states rq) s2' = (Inr ps, s3)) \<and>
    judge_stages E (rq_period rq) (length (rq_attachments rq)) imgs ps s3 = (Inr r, t)"
proof -
  from assms obtain s1 d s2 s4 ps s3 where
    d: "download_stage E (length (rq_attachments rq)) (rq_attachments rq) s1 = (Inr d, s2)"
    and e: "embed_stage E (length (rq_attachments rq)) (fst d) (fst (snd d)) (build_photo_states rq) s4 = (Inr ps, s3)"
    and j: "judge_stages E (rq_period rq) (length (rq_attachments rq)) (fst (snd (snd d))) ps s3 = (Inr r, t)"
    unfolding run_Inr run_body_def Let_def by (fastforce simp: bindR_Inr split: if_splits prod.splits)
  moreover obtain a b c f where "d = (a, b, c, f)" by (cases d) auto
  ultimately show ?thesis by simp blast
qed

lemma dedup_length_distinct: "length (dedup xs) = length xs \<Longrightarrow> distinct xs"
  by (metis card_distinct distinct_card distinct_dedup set_dedup)

lemma run_distinct:
  assumes "run E rq s = (Inr r, t)" shows "distinct (map ph_id (build_photo_states rq))"
proof -
  have "length (dedup (map ph_id (build_photo_states rq))) = length (rq_attachments rq)"
    using assms unfolding run_Inr run_body_def Let_def by (auto simp: bindR_Inr failR_def split: if_splits)
  then show ?thesis by (intro dedup_length_distinct) (simp add: build_photo_states_def)
qed

text \<open>A run that returns a result accounts for every attachment exactly once.\<close>

lemma run_ids:
  assumes "run E rq s = (Inr r, t)" "agent_ok E"
  shows "mset (result_ids r) = mset (map at_id (rq_attachments rq)) \<and> distinct (result_ids r) \<and>
    res_failed r = []"
proof -
  from run_parts[OF assms(1)] obtain stored raw imgs ps s2 s3 where
    e: "embed_stage E (length (rq_attachments rq)) stored raw (build_photo_states rq) s2 = (Inr ps, s3)"
    and j: "judge_stages E (rq_period rq) (length (rq_attachments rq)) imgs ps s3 = (Inr r, t)" by blast
  have k: "map ph_id ps = map ph_id (build_photo_states rq)"
    by (rule ids_of_src[OF same_but_emb_src[OF embed_stage_keeps[OF e]]])
  have "distinct (map ph_id ps)" using run_distinct[OF assms(1)] by (simp add: k)
  from judge_stages_ids[OF j assms(2) this] show ?thesis
    by (simp add: valid_result_def k build_ids)
qed

section \<open>Uploads\<close>

text \<open>\<open>uploads E ids m\<close>: whatever \<open>m\<close> uploads, however it ends, are checked vectors of photos of \<open>ids\<close>, in that order and each at most once.\<close>

definition good_vec :: "'i run_env \<Rightarrow> vec \<Rightarrow> bool" where
  "good_vec E v \<longleftrightarrow> length v = re_dim E \<and> unit_vec v"

definition uploads :: "'i run_env \<Rightarrow> int list \<Rightarrow> 'a runm \<Rightarrow> bool" where
  "uploads E ids m \<longleftrightarrow> (\<forall>s. \<exists>new. uploads_of (snd (m s)) = uploads_of s @ new \<and>
     list_all (\<lambda>(i, v). good_vec E v) new \<and> subseq (map fst new) ids)"

lemma uploads_mono: "uploads E ids m \<Longrightarrow> subseq ids ids' \<Longrightarrow> uploads E ids' m"
  unfolding uploads_def by (metis subseq_order.order_trans)

lemma uploads_Nil: "uploads E [] m \<longleftrightarrow> (\<forall>s. uploads_of (snd (m s)) = uploads_of s)"
proof -
  have *: "(\<exists>new :: (int \<times> vec) list. u = s @ new \<and> list_all (\<lambda>(i, v). good_vec E v) new \<and>
      subseq (map fst new) []) \<longleftrightarrow> u = s" for u s
    by (auto dest: list_emb_length)
  show ?thesis unfolding uploads_def by (simp only: *)
qed

lemma uploads_quiet: "uploads E [] m \<Longrightarrow> uploads E ids m"
  unfolding uploads_Nil by (auto simp: uploads_def intro!: exI[of _ "[]"])

lemma uploads_bindR:
  assumes "uploads E [] m" "\<And>x. uploads E ids (f x)"
  shows "uploads E ids (bindR m f)"
  unfolding uploads_def
proof
  fix s
  obtain r u where mu: "m s = (r, u)" by (cases "m s")
  with assms(1) have u: "uploads_of u = uploads_of s" by (metis snd_conv uploads_Nil)
  show "\<exists>new. uploads_of (snd (bindR m f s)) = uploads_of s @ new \<and>
      list_all (\<lambda>(i, v). good_vec E v) new \<and> subseq (map fst new) ids"
  proof (cases r)
    case (Inl e)
    with mu u show ?thesis by (intro exI[of _ "[]"]) (auto simp: bindR_def)
  next
    case (Inr x)
    with mu u assms(2)[of x, unfolded uploads_def, rule_format, of u] show ?thesis
      by (simp add: bindR_def)
  qed
qed

lemma uploads_bindR_last:
  assumes "uploads E ids m" "\<And>x. uploads E [] (f x)"
  shows "uploads E ids (bindR m f)"
  unfolding uploads_def
proof
  fix s
  obtain r u where mu: "m s = (r, u)" by (cases "m s")
  have "uploads_of (snd (bindR m f s)) = uploads_of u"
    using mu assms(2) by (cases r) (simp_all add: bindR_def uploads_Nil)
  with assms(1) mu show "\<exists>new. uploads_of (snd (bindR m f s)) = uploads_of s @ new \<and>
      list_all (\<lambda>(i, v). good_vec E v) new \<and> subseq (map fst new) ids"
    by (simp add: uploads_def) (metis snd_conv)
qed

named_theorems uploads_intros \<open>computations that upload nothing, or what is theirs\<close>

lemma uploads_basic [uploads_intros]:
  "uploads E [] (retR x)" "uploads E [] (failR e)" "uploads E [] (liftR r)" "uploads E [] (report st n)"
  "uploads E [] (check_cancel F)" "uploads E [] (do_work F (Fetch is) v)" "uploads E [] (do_work F (Load is) v)"
  "uploads E [] (do_work F (Encode is) v)" "uploads E [] (do_work F (Judge st) v)"
  by (simp_all add: uploads_Nil retR_def failR_def liftR_def report_def check_cancel_def Let_def do_work_def)

lemma uploads_if [uploads_intros]:
  "uploads E ids a \<Longrightarrow> uploads E ids b \<Longrightarrow> uploads E ids (if c then a else b)"
  by simp

lemma uploads_case_prod [uploads_intros]:
  "(\<And>a b. uploads E ids (f a b)) \<Longrightarrow> uploads E ids (case p of (a, b) \<Rightarrow> f a b)"
  by (simp split: prod.split)

lemma uploads_stage [uploads_intros]: "uploads E [] op \<Longrightarrow> uploads E [] (stage F n st op)"
  unfolding stage_def by (intro uploads_bindR uploads_intros)

lemma uploads_agent_events [uploads_intros]: "uploads E [] (agent_events F n es)"
  by (induction F n es rule: agent_events.induct) (simp_all add: uploads_bindR uploads_intros)

lemma uploads_clustering_stage [uploads_intros]: "uploads E [] (clustering_stage F n pd ps)"
  unfolding clustering_stage_def
  by (rule uploads_bindR, rule uploads_intros)
    (auto intro: uploads_bindR uploads_intros split: option.split)

lemma uploads_judge_stages: "uploads E [] (judge_stages F pd n imgs ps)"
  unfolding judge_stages_def Let_def by (intro uploads_bindR uploads_intros)

lemma uploads_download_loop [uploads_intros]: "uploads E [] (download_loop F sk n cs start acc)"
proof (induction cs arbitrary: start acc)
  case (Cons c cs)
  then show ?case by (simp add: uploads_bindR uploads_intros)
qed (simp add: uploads_intros)

lemma uploads_download_stage: "uploads E [] (download_stage F n atts)"
  unfolding download_stage_def Let_def by (intro uploads_bindR uploads_intros)

lemma encode_checked_good:
  "encode_checked E bs = Inr vs \<Longrightarrow> length vs = length bs \<and> list_all (good_vec E) vs"
  by (auto simp: encode_checked_def Let_def good_vec_def list_all_iff split: if_splits)

lemma uploads_upload:
  assumes "length vs = length c" "list_all (good_vec E) vs" "\<And>x. uploads E ids (f x)"
  shows "uploads E (c @ ids) (bindR (do_work F (Upload (zip c vs)) r) f)"
  unfolding uploads_def
proof
  fix s
  let ?w = "Worked (Upload (zip c vs))" and ?rest = "bindR (\<lambda>u. (if re_faulty F (Upload (zip c vs)) then Inl Other_exn else raised r, u)) f"
  have good: "list_all (\<lambda>(i, v). good_vec E v) (zip c vs)"
    using assms(2) by (auto simp: list_all_iff dest: set_zip_rightD)
  have "uploads E ids ?rest"
    using uploads_quiet assms(3) unfolding uploads_def
    by (auto simp: bindR_def split: sum.split intro!: exI[of _ "[]"])
  then obtain new where n: "uploads_of (snd (?rest (s @ [?w]))) = uploads_of (s @ [?w]) @ new"
    "list_all (\<lambda>(i, v). good_vec E v) new" "subseq (map fst new) ids" unfolding uploads_def by blast
  have "bindR (do_work F (Upload (zip c vs)) r) f s = ?rest (s @ [?w])" by (simp add: bindR_def do_work_def)
  then show "\<exists>new. uploads_of (snd (bindR (do_work F (Upload (zip c vs)) r) f s)) = uploads_of s @ new \<and>
      list_all (\<lambda>(i, v). good_vec E v) new \<and> subseq (map fst new) (c @ ids)"
    using n good assms(1) by (intro exI[of _ "zip c vs @ new"]) (simp add: list_emb_append_mono)
qed

lemma uploads_encode:
  assumes "\<And>v. r = Inr v \<Longrightarrow> uploads E ids (f v)"
  shows "uploads E ids (bindR (do_work F (Encode is) r) f)"
proof (cases r)
  case (Inl e)
  have "bindR (do_work F (Encode is) r) f = bindR (do_work F (Encode is) r) (\<lambda>_. failR e)"
    by (rule ext) (simp add: bindR_def do_work_def Inl split: sum.split)
  moreover have "uploads E ids \<dots>" by (intro uploads_bindR uploads_intros uploads_quiet[OF uploads_basic(2)])
  ultimately show ?thesis by simp
next
  case (Inr v)
  have "bindR (do_work F (Encode is) r) f = bindR (do_work F (Encode is) r) (\<lambda>_. f v)"
    by (rule ext) (simp add: bindR_def do_work_def Inr split: sum.split)
  moreover have "uploads E ids \<dots>" by (intro uploads_bindR uploads_intros assms Inr)
  ultimately show ?thesis by simp
qed

lemma uploads_embed_loop: "uploads E (concat ids) (embed_loop E re n raw ids start ps)"
proof (induction ids arbitrary: start ps)
  case (Cons c ids)
  show ?case
    unfolding embed_loop.simps concat.simps
    by (rule uploads_bindR, rule uploads_intros, rule uploads_encode, rule uploads_bindR, rule uploads_intros,
        rule uploads_upload)
      (auto dest!: encode_checked_good mapE_length intro!: uploads_bindR uploads_intros Cons.IH)
qed (simp add: uploads_intros)

lemma uploads_embed_stage: "uploads E (map ph_id ps) (embed_stage E n stored raw ps)"
proof -
  let ?ps1 = "if re_reuse E then map (\<lambda>p. p\<lparr>ph_emb := map_of stored (ph_id p)\<rparr>) ps else ps"
  let ?ids = "map ph_id (filter (\<lambda>p. ph_emb p = None) ?ps1)"
  have same: "map ph_id ?ps1 = map ph_id ps" by (auto simp: comp_def)
  have "subseq ?ids (map ph_id ?ps1)" by (intro subseq_map subseq_filter_left)
  then have "subseq ?ids (map ph_id ps)" by (simp only: same)
  moreover have "uploads E ?ids (embed_stage E n stored raw ps)"
    unfolding embed_stage_def Let_def using uploads_embed_loop[of E "chunks16 ?ids"]
    by (intro uploads_bindR uploads_intros) simp_all
  ultimately show ?thesis by (rule uploads_mono[rotated])
qed

lemma uploads_run_body: "uploads E (map at_id (rq_attachments rq)) (run_body E rq)"
proof -
  have e: "uploads E (map at_id (rq_attachments rq)) (embed_stage E n stored raw (build_photo_states rq))"
    for n stored raw
    using uploads_embed_stage[of E "build_photo_states rq"] by (simp only: build_ids)
  show ?thesis
    unfolding run_body_def Let_def
    by (rule uploads_bindR, rule uploads_basic, (rule uploads_if, rule uploads_quiet, rule uploads_basic)+,
        rule uploads_bindR, rule uploads_download_stage, (rule uploads_case_prod)+,
        rule uploads_bindR, rule uploads_basic, rule uploads_bindR_last, rule e,
        rule uploads_judge_stages)
qed

end
