(* ===== verification/RunExample.thy ===== *)
theory RunExample
  imports RunResults
begin

text \<open>
  A concrete run used by the witnesses: two GPS photos of one device on the first day of the trip,
  through a context whose storage, decoder and engines are small concrete functions.
\<close>

definition pe_metrics :: photo_metrics where
  "pe_metrics = \<lparr>pmt_variance = 100, pmt_phash = ''0123456789abcdef''\<rparr>"

definition pe_env :: "nat run_env" where
  "pe_env = \<lparr>re_get_many = (\<lambda>ks. Inr (map (\<lambda>k. (k, [length k])) ks)), re_decode = (\<lambda>b. Some (hd b)),
     re_measure = (\<lambda>_. Some pe_metrics), re_encode = map (\<lambda>_. [1, 0]), re_dim = 2, re_fetch = (\<lambda>_. []),
     re_dbscan = (\<lambda>_ _ pts. map (\<lambda>_. 0) pts), re_hdist = (\<lambda>_ _. 64), re_center = (\<lambda>pts. Some (hd pts)),
     re_agent = None,
     re_thresholds = [(''inherit_min_sim'', TFloat (4 / 5)), (''dbscan_eps_m'', TInt 100), (''min_samples'', TInt 1),
       (''blur_var_min'', TInt 50), (''phash_max_dist'', TInt 6), (''clock_pair_min_sim'', TFloat (9 / 10)),
       (''clock_min_pairs'', TInt 2), (''clock_offset_tolerance_sec'', TInt 600), (''interpolate_max_gap_min'', TInt 30)],
     re_reuse = False, re_metrics = [], re_cancelled = (\<lambda>_. False), re_faulty = (\<lambda>_. False)\<rparr>"

definition pe_att :: "int \<Rightarrow> attachment" where
  "pe_att i = \<lparr>at_id = i, at_key = ''k'' @ int_str i, at_taken = Some \<lparr>dt_local = i * 1000000, dt_off = Some 0\<rparr>,
     at_lat = Some 37, at_lon = Some 127, at_device = None\<rparr>"

definition pe_rq :: process_request where
  "pe_rq = \<lparr>rq_exec = None, rq_name = [], rq_period = \<lparr>pd_start = 0, pd_end = 1\<rparr>, rq_regions = [],
     rq_attachments = [pe_att 1, pe_att 2]\<rparr>"

definition pe_start :: run_state where
  "pe_start = []"

text \<open>The photos before and after judging, and the result.\<close>

definition pe_photo :: "int \<Rightarrow> time_status \<Rightarrow> dtime option \<Rightarrow> string option \<Rightarrow> photo" where
  "pe_photo i ts d pl = (build_photo_state (pe_att i))\<lparr>ph_time := ts, ph_taken := d, ph_emb := Some [1, 0], ph_place := pl\<rparr>"

definition pe_photos :: "time_status \<Rightarrow> bool \<Rightarrow> string option \<Rightarrow> photo list" where
  "pe_photos ts k pl = map (\<lambda>i. pe_photo i ts (if k then at_taken (pe_att i) else None) pl) [1, 2]"

definition pe_result :: process_result where
  "pe_result = \<lparr>res_places = [\<lparr>pl_id = ''p1'', pl_matched = None, pl_lat = 37, pl_lon = 127,
       pl_first = at_taken (pe_att 1), pl_last = at_taken (pe_att 2), pl_rep = 1,
       pl_atts = map (\<lambda>i. \<lparr>pa_id = i, pa_taken = at_taken (pe_att i), pa_lat = 37, pa_lon = 127,
                             pa_origin = EXIF, pa_eval = 50\<rparr>) [1, 2]\<rparr>],
     res_unclassified = [], res_failed = [], res_offsets = []\<rparr>"

lemma pe_clock: "correct_clocks (9 / 10) 2 600 (pe_photos PENDING False None) =
    Inr (pe_photos ORIGINAL True None, [])"
  by code_simp

lemma pe_locate: "locate_photos (rq_period pe_rq) (4 / 5) (pe_photos ORIGINAL True None) =
    Inr (pe_photos ORIGINAL True None)"
  by code_simp

lemma pe_cluster: "cluster_photos (re_dbscan pe_env) 100 1 (pe_photos ORIGINAL True None) =
    Inr (pe_photos ORIGINAL True (Some ''p1''))"
  by code_simp

lemma pe_assign: "assign_stage (rq_period pe_rq) (4 / 5) 30 (pe_photos ORIGINAL True (Some ''p1'')) =
    Inr (pe_photos ORIGINAL True (Some ''p1''))"
  by code_simp

lemma pe_filter: "filter_photos (re_hdist pe_env) [(1, pe_metrics), (2, pe_metrics)] 50 6
     (pe_photos ORIGINAL True (Some ''p1'')) =
    Inr (pe_photos ORIGINAL True (Some ''p1''), [(1, 100), (2, 100)])"
  by code_simp

lemma pe_finalize: "finalize_photos (re_center pe_env) (pe_photos ORIGINAL True (Some ''p1''))
    [(1, 100), (2, 100)] [] = Inr pe_result"
  by code_simp

definition pe_down :: "run_event list" where
  "pe_down = [Reported DOWNLOADING 0, Polled False, Worked (Load [1, 2]), Polled False, Reported DOWNLOADING 2]"

definition pe_emb :: "run_event list" where
  "pe_emb = [Reported EMBEDDING 0, Polled False, Worked (Encode [1, 2]), Polled False,
     Worked (Upload [(1, [1, 0]), (2, [1, 0])]), Polled False, Reported EMBEDDING 2]"

definition pe_judged :: "process_step \<Rightarrow> nat \<Rightarrow> run_event list" where
  "pe_judged st n = [Polled False, Reported st 0, Polled False, Worked (Judge st), Polled False, Reported st n]"

lemma pe_download: "download_stage pe_env 2 (rq_attachments pe_rq) [Polled False] =
   (Inr ([], [(1, [2]), (2, [2])], [(1, 2), (2, 2)], []), Polled False # pe_down)"
  by code_simp

lemma pe_embed: "embed_stage pe_env 2 [] [(1, [2]), (2, [2])] (build_photo_states pe_rq) (Polled False # pe_down @ [Polled False]) =
   (Inr (pe_photos PENDING False None), Polled False # pe_down @ Polled False # pe_emb)"
  by code_simp

text \<open>The stages put together.\<close>

definition pe_end :: run_state where
  "pe_end = Polled False # pe_down @ Polled False # pe_emb @
     concat (map (\<lambda>st. pe_judged st 2) judging_steps) @ [Polled False]"

lemma bindR_step: "m s = (Inr x, u) \<Longrightarrow> bindR m f s = f x u"
  by (simp add: bindR_def)

lemma pe_check: "check_cancel pe_env s = (Inr (), s @ [Polled False])"
  by (simp add: check_cancel_def pe_env_def)

lemma pe_work: "do_work pe_env w (Inr x) s = (Inr x, s @ [Worked w])"
  by (simp add: do_work_def pe_env_def)

lemma pe_stage: "r = Inr v \<Longrightarrow> stage pe_env n st (do_work pe_env (Judge st) r) s = (Inr v, s @ pe_judged st n)"
  by (simp add: stage_def bindR_def pe_check report_def pe_work retR_def pe_judged_def)

lemma pe_thresholds:
  "th_rat pe_env ''inherit_min_sim'' = 4 / 5" "th_rat pe_env ''dbscan_eps_m'' = 100"
  "th_int pe_env ''min_samples'' = Inr 1" "th_rat pe_env ''blur_var_min'' = 50"
  "th_int pe_env ''phash_max_dist'' = Inr 6" "th_rat pe_env ''clock_pair_min_sim'' = 9 / 10"
  "th_int pe_env ''clock_min_pairs'' = Inr 2" "th_rat pe_env ''clock_offset_tolerance_sec'' = 600"
  "th_rat pe_env ''interpolate_max_gap_min'' = 30"
  "list_ex (\<lambda>k. map_of (re_thresholds pe_env) k = None) required = False"
  by (simp_all add: th_rat_def th_int_def pe_env_def required_def)

lemma pe_clustering: "clustering_stage pe_env n (rq_period pe_rq) (pe_photos ORIGINAL True None) =
    do_work pe_env (Judge CLUSTERING) (Inr (pe_photos ORIGINAL True (Some ''p1'')))"
proof -
  have "re_agent pe_env = None" by (simp add: pe_env_def)
  moreover have "placing pe_env (rq_period pe_rq) (pe_photos ORIGINAL True None) =
      Inr (pe_photos ORIGINAL True (Some ''p1''))"
    unfolding placing_def pe_thresholds bindE.simps pe_cluster pe_assign ..
  ultimately show ?thesis
    by (simp add: clustering_stage_def bindR_def pe_work retR_def fun_eq_iff)
qed

lemma pe_measure: "measure_images pe_env [(1, 2), (2, 2)] = Inr [(1, pe_metrics), (2, pe_metrics)]"
  by (simp add: measure_images_def pe_env_def)

lemma pe_filter_stage: "bindE (measure_images pe_env [(1, 2), (2, 2)]) (\<lambda>ms.
       bindE (th_int pe_env ''phash_max_dist'') (\<lambda>md.
       filter_photos (re_hdist pe_env) (merge_dict (re_metrics pe_env) ms) (th_rat pe_env ''blur_var_min'') md
         (pe_photos ORIGINAL True (Some ''p1'')))) =
    Inr (pe_photos ORIGINAL True (Some ''p1''), [(1, 100), (2, 100)])"
proof -
  have "merge_dict (re_metrics pe_env) [(1, pe_metrics), (2, pe_metrics)] = [(1, pe_metrics), (2, pe_metrics)]"
    by (simp add: merge_dict_def pe_env_def)
  then show ?thesis unfolding pe_measure bindE.simps pe_thresholds by (simp only: pe_filter)
qed

lemma pe_judge: "judge_stages pe_env (rq_period pe_rq) 2 [(1, 2), (2, 2)] (pe_photos PENDING False None) s =
    (Inr pe_result, s @ concat (map (\<lambda>st. pe_judged st 2) judging_steps) @ [Polled False])"
proof -
  have agent: "re_agent pe_env = None" by (simp add: pe_env_def)
  show ?thesis
    unfolding judge_stages_def pe_thresholds bindE.simps pe_clock
    by (simp add: bindR_step[of "stage pe_env n st (do_work pe_env (Judge st) r)" for n st r, OF pe_stage] pe_locate pe_clustering pe_filter_stage[unfolded pe_thresholds bindE.simps]
        agent pe_finalize bindR_step[of "check_cancel pe_env", OF pe_check] retR_def judging_steps_def)
qed

lemma pe_run: "run pe_env pe_rq pe_start = (Inr pe_result, pe_end)"
proof -
  have n: "length (rq_attachments pe_rq) = 2" by (simp add: pe_rq_def)
  have guards: "length (dedup (map ph_id (build_photo_states pe_rq))) = 2"
    "(pd_start (rq_period pe_rq) > pd_end (rq_period pe_rq)) = False" by code_simp+
  have c1: "check_cancel pe_env pe_start = (Inr (), [Polled False])"
    by (simp add: pe_check pe_start_def)
  show ?thesis
    unfolding run_Inr run_body_def Let_def n bindR_step[of "check_cancel pe_env", OF c1] guards pe_thresholds
    by (simp add: bindR_step[of "download_stage pe_env 2 (rq_attachments pe_rq)", OF pe_download] bindR_step[of "check_cancel pe_env", OF pe_check] bindR_step[of "embed_stage pe_env 2 [] [(1, [2]), (2, [2])] (build_photo_states pe_rq)", OF pe_embed] pe_judge pe_end_def
        del: One_nat_def)
qed

end
