(* ===== verification/PipelineTheorems.thy ===== *)
theory PipelineTheorems
  imports RunExample
begin

text \<open>
  The properties of the photo pipeline: of \<open>run\<close> as a whole, then of its stages in order.
\<close>

section \<open>The whole run\<close>

text \<open>C3. A run that returns a result accounts for every attachment of the request exactly once:
  in a place, unclassified or failed, whatever the storage, the engines and DBSCAN answer, as long
  as the agent stage (when configured) keeps the photos it is given.\<close>

theorem run_keeps_every_photo:
  assumes "run E rq s = (Inr r, t)"
    and "\<forall>agent ps qs. re_agent E = Some agent \<longrightarrow> distinct (map ph_id ps) \<longrightarrow>
      snd (agent ps) = Inr qs \<longrightarrow> map ph_src qs = map ph_src ps"
  shows "mset (result_ids r) = mset (map at_id (rq_attachments rq)) \<and> distinct (result_ids r) \<and>
    res_failed r = []"
  by (rule run_ids[OF assms(1)]) (use assms(2) in \<open>simp add: agent_ok_def\<close>)

lemma run_keeps_every_photo_witness:
  "mset (result_ids pe_result) = mset (map at_id (rq_attachments pe_rq)) \<and>
   distinct (result_ids pe_result) \<and> res_failed pe_result = []"
  by (rule run_keeps_every_photo[OF pe_run]) (simp add: pe_env_def)

text \<open>Progress never goes back to an earlier stage and never counts more photos than the
  request has, on every run, also one that fails or is cancelled.\<close>

theorem progress_in_stage_order:
  "\<exists>new. reports_of (snd (run E rq s)) = reports_of s @ new \<and> sorted (map fst new) \<and>
     list_all (\<lambda>(st, k). k \<le> length (rq_attachments rq)) new"
proof -
  obtain res t where "run_body E rq s = (res, t)" by (cases "run_body E rq s")
  moreover from paced_run_body[of rq E, unfolded paced_def, rule_format, OF this] obtain new where
    "reports_of t = reports_of s @ new" "sorted (map fst new)"
    "\<forall>(st, k) \<in> set new. DOWNLOADING \<le> st \<and> st \<le> FINALIZING \<and> k \<le> length (rq_attachments rq)" by blast
  ultimately show ?thesis by (intro exI[of _ new]) (auto simp: list_all_iff run_state)
qed

text \<open>Whatever the engine returns, a run only uploads unit vectors of the configured
  dimension, for photos of the request, each photo at most once and in request order.\<close>

theorem uploads_are_checked_vectors:
  "\<exists>new. uploads_of (snd (run E rq s)) = uploads_of s @ new \<and>
     list_all (\<lambda>(i, v). length v = re_dim E \<and> unit_vec v) new \<and>
     subseq (map fst new) (map at_id (rq_attachments rq))"
  using uploads_run_body[of E rq] unfolding uploads_def good_vec_def run_state by blast

section \<open>CLOCK\<close>

text \<open>Clock correction only sets times. A photo it gives a time had one in its source, and the
  new time is that source time moved by whole days; a move by a non-zero number of days only
  happens to a photo without GPS, whose device has that many days in the reported offsets, and is
  marked corrected. Photos it gives no time are marked unknown.\<close>

theorem clock_moves_whole_days:
  assumes "correct_clocks min_sim min_pairs tolerance ps = Inr (qs, offsets)"
  shows "list_all2 (\<lambda>p q. ph_src q = ph_src p \<and> ph_emb q = ph_emb p \<and> ph_issue q = ph_issue p \<and>
      (case ph_taken q of
         None \<Rightarrow> ph_time q = UNKNOWN_TIME
       | Some d \<Rightarrow> (\<exists>t days. ps_taken (ph_src p) = Some t \<and> dt_off d = dt_off t \<and>
           dt_local d = dt_local t + days * DAY_US \<and>
           (if days = 0 then ph_time q = ORIGINAL
            else ph_time q = CORRECTED \<and> \<not> ph_gps p \<and>
              (\<exists>o1 \<in> set offsets. co_days o1 = days \<and> ps_device (ph_src p) = Some (co_device o1))))))
    ps qs"
proof -
  note k = correct_clocks_keeps[OF assms]
  have shift: "dt_off d = dt_off t \<and> dt_local d = dt_local t + days * DAY_US"
    if "if days = 0 then d = t else shift_days days t = Some d" for d t days
    using that by (auto simp: shift_days_def Let_def split: if_splits)
  show ?thesis
  proof (rule list_all2_all_nthI)
    show "length ps = length qs" using k by (auto dest: list_all2_lengthD)
    fix i assume i: "i < length ps"
    with k have s: "same_but_time (ps ! i) (qs ! i)" and d: "day_shift offsets (qs ! i)"
      by (auto simp: list_all2_conv_all_nth list_all_length)
    have src: "ph_src (qs ! i) = ph_src (ps ! i)" "ph_emb (qs ! i) = ph_emb (ps ! i)"
      "ph_issue (qs ! i) = ph_issue (ps ! i)" using s by (simp_all add: same_but_time_def)
    show "ph_src (qs ! i) = ph_src (ps ! i) \<and> ph_emb (qs ! i) = ph_emb (ps ! i) \<and>
      ph_issue (qs ! i) = ph_issue (ps ! i) \<and>
      (case ph_taken (qs ! i) of
         None \<Rightarrow> ph_time (qs ! i) = UNKNOWN_TIME
       | Some d \<Rightarrow> (\<exists>t days. ps_taken (ph_src (ps ! i)) = Some t \<and> dt_off d = dt_off t \<and>
           dt_local d = dt_local t + days * DAY_US \<and>
           (if days = 0 then ph_time (qs ! i) = ORIGINAL
            else ph_time (qs ! i) = CORRECTED \<and> \<not> ph_gps (ps ! i) \<and>
              (\<exists>o1 \<in> set offsets. co_days o1 = days \<and>
                 ps_device (ph_src (ps ! i)) = Some (co_device o1)))))"
    proof (cases "ph_taken (qs ! i)")
      case None
      with d src show ?thesis by (simp add: day_shift_def)
    next
      case (Some e)
      with d src obtain t days where
        "ps_taken (ph_src (ps ! i)) = Some t" and sh: "if days = 0 then e = t else shift_days days t = Some e"
        and "ph_time (qs ! i) = (if days = 0 then ORIGINAL else CORRECTED)"
        and "days \<noteq> 0 \<longrightarrow> \<not> ph_gps (ps ! i) \<and> (\<exists>o1 \<in> set offsets. co_days o1 = days \<and>
             ps_device (ph_src (ps ! i)) = Some (co_device o1))"
        by (simp add: day_shift_def) blast
      with Some src shift[OF sh] show ?thesis
        by (simp only: option.case simp_thms) (intro exI[of _ t] exI[of _ days], simp)
    qed
  qed
qed

text \<open>Two devices, the one without GPS a day behind.\<close>

definition ce_photo :: "int \<Rightarrow> int \<Rightarrow> bool \<Rightarrow> nat \<Rightarrow> vec \<Rightarrow> photo" where
  "ce_photo i day gps device v =
     (build_photo_state \<lparr>at_id = i, at_key = ''k'', at_taken = Some \<lparr>dt_local = day * DAY_US + i, dt_off = Some 0\<rparr>,
        at_lat = (if gps then Some 37 else None), at_lon = (if gps then Some 127 else None),
        at_device = Some [device]\<rparr>)\<lparr>ph_emb := Some v\<rparr>"

definition ce_photos :: "photo list" where
  "ce_photos = [ce_photo 1 5 True 65 [1, 0], ce_photo 2 5 True 65 [0, 1],
                ce_photo 3 4 False 66 [1, 0], ce_photo 4 4 False 66 [0, 1]]"

definition ce_corrected :: "photo list" where
  "ce_corrected =
     map (\<lambda>p. p\<lparr>ph_taken := ps_taken (ph_src p), ph_time := ORIGINAL\<rparr>) (take 2 ce_photos) @
     map (\<lambda>p. p\<lparr>ph_taken := shift_days 1 (the (ps_taken (ph_src p))), ph_time := CORRECTED\<rparr>) (drop 2 ce_photos)"

definition ce_offsets :: "clock_offset list" where
  "ce_offsets = [\<lparr>co_device = [66], co_days = 1, co_pairs = 2\<rparr>]"

lemma clock_moves_whole_days_witness:
  "list_all2 (\<lambda>p q. ph_src q = ph_src p \<and> ph_emb q = ph_emb p \<and> ph_issue q = ph_issue p \<and>
      (case ph_taken q of
         None \<Rightarrow> ph_time q = UNKNOWN_TIME
       | Some d \<Rightarrow> (\<exists>t days. ps_taken (ph_src p) = Some t \<and> dt_off d = dt_off t \<and>
           dt_local d = dt_local t + days * DAY_US \<and>
           (if days = 0 then ph_time q = ORIGINAL
            else ph_time q = CORRECTED \<and> \<not> ph_gps p \<and>
              (\<exists>o1 \<in> set ce_offsets. co_days o1 = days \<and> ps_device (ph_src p) = Some (co_device o1))))))
    ce_photos ce_corrected"
proof (rule clock_moves_whole_days)
  show "correct_clocks (9 / 10) 2 600 ce_photos = Inr (ce_corrected, ce_offsets)" by code_simp
qed

end
