(* ===== verification/StageTheorems.thy ===== *)
theory StageTheorems
  imports PipelineTheorems
begin

text \<open>
  The properties of the stages after CLOCK: locating, clustering and assigning, filtering and
  finalizing, each on the photos the previous stage hands over.
\<close>

section \<open>LOCATING\<close>

text \<open>After LOCATING every photo without an issue has coordinates: a GPS photo exactly its
  own, every other those of a GPS photo of the trip whose similarity to it reaches the threshold
  and is the highest among the GPS photos of the trip. A photo dated outside the trip has an
  issue.\<close>

theorem locating_places_by_best_anchor:
  assumes "locate_photos pd min_sim ps = Inr qs"
  shows "list_all2 (\<lambda>p q. ph_src q = ph_src p \<and>
      (ph_issue q = None \<longrightarrow>
         (if ph_gps p then ph_origin q = EXIF \<and> ph_lat q = ps_lat (ph_src p) \<and> ph_lon q = ps_lon (ph_src p)
          else ph_origin q = INFERRED \<and>
            (\<exists>a \<in> set (locate_anchors pd ps). ph_gps a \<and> min_sim \<le> clip1 (sim a p) \<and>
               ph_lat q = ps_lat (ph_src a) \<and> ph_lon q = ps_lon (ph_src a) \<and>
               (\<forall>b \<in> set (locate_anchors pd ps). clip1 (sim b p) \<le> clip1 (sim a p))))) \<and>
      (case ph_taken p of Some d \<Rightarrow> \<not> in_period_day pd d \<longrightarrow> ph_issue q \<noteq> None | None \<Rightarrow> True)) ps qs"
proof -
  let ?A = "locate_anchors pd ps"
  have one: "ph_issue (locate_one pd min_sim ?A p) = None \<longrightarrow>
      (if ph_gps p then ph_origin (locate_one pd min_sim ?A p) = EXIF \<and>
         ph_lat (locate_one pd min_sim ?A p) = ps_lat (ph_src p) \<and>
         ph_lon (locate_one pd min_sim ?A p) = ps_lon (ph_src p)
       else ph_origin (locate_one pd min_sim ?A p) = INFERRED \<and>
         (\<exists>a \<in> set ?A. ph_gps a \<and> min_sim \<le> clip1 (sim a p) \<and>
            ph_lat (locate_one pd min_sim ?A p) = ps_lat (ph_src a) \<and>
            ph_lon (locate_one pd min_sim ?A p) = ps_lon (ph_src a) \<and>
            (\<forall>b \<in> set ?A. clip1 (sim b p) \<le> clip1 (sim a p))))" for p
  proof (intro impI)
    assume i: "ph_issue (locate_one pd min_sim ?A p) = None"
    obtain r q where rq: "locate_role pd p = (r, q)" by (cases "locate_role pd p")
    show "(if ph_gps p then ph_origin (locate_one pd min_sim ?A p) = EXIF \<and>
         ph_lat (locate_one pd min_sim ?A p) = ps_lat (ph_src p) \<and>
         ph_lon (locate_one pd min_sim ?A p) = ps_lon (ph_src p)
       else ph_origin (locate_one pd min_sim ?A p) = INFERRED \<and>
         (\<exists>a \<in> set ?A. ph_gps a \<and> min_sim \<le> clip1 (sim a p) \<and>
            ph_lat (locate_one pd min_sim ?A p) = ps_lat (ph_src a) \<and>
            ph_lon (locate_one pd min_sim ?A p) = ps_lon (ph_src a) \<and>
            (\<forall>b \<in> set ?A. clip1 (sim b p) \<le> clip1 (sim a p))))"
    proof (cases "r = LTarget")
      case False
      with i rq show ?thesis
        by (cases r) (auto simp: locate_one_def locate_role_def split: if_splits)
    next
      case True
      with rq have g: "\<not> ph_gps p" and e: "sim a q = sim a p" for a
        by (auto simp: locate_role_def sim_def emb_def split: if_splits)
      from i rq True have ne: "?A \<noteq> []" by (auto simp: locate_one_def split: if_splits)
      let ?a = "nearest_anchor ?A q"
      have one: "locate_one pd min_sim ?A p = inherit ?A min_sim q"
        using rq True ne by (simp add: locate_one_def)
      have low: "\<not> clip1 (sim ?a q) < min_sim"
        using i unfolding one by (auto simp: inherit_def Let_def)
      have mem: "?a \<in> set ?A" by (rule nearest_anchor_mem[OF ne])
      moreover from locate_anchors_mem[OF mem] have "ph_gps ?a" by blast
      moreover have "\<forall>b \<in> set ?A. clip1 (sim b p) \<le> clip1 (sim ?a p)"
        using nearest_anchor_best[of _ ?A q] e by simp
      ultimately show ?thesis
        using g low e[of ?a] unfolding one by (auto simp: inherit_def Let_def)
    qed
  qed
  have out: "case ph_taken p of Some d \<Rightarrow> \<not> in_period_day pd d \<longrightarrow> ph_issue (locate_one pd min_sim A p) \<noteq> None
      | None \<Rightarrow> True" for p A
    by (auto simp: locate_one_def locate_role_def split: option.split)
  show ?thesis
    using locate_photos_map[OF assms] one out by (simp add: list_all2_map2 list_all2_same)
qed

definition le_photos :: "photo list" where
  "le_photos = map (\<lambda>p. p\<lparr>ph_time := ORIGINAL, ph_taken := ps_taken (ph_src p)\<rparr>)
     [ce_photo 1 0 True 65 [1, 0], ce_photo 2 0 True 65 [0, 1], ce_photo 3 0 False 66 [1, 0],
      ce_photo 4 9 False 66 [0, 1]]"

definition le_located :: "photo list" where
  "le_located = map (\<lambda>p. if ph_id p = 3 then p\<lparr>ph_lat := Some 37, ph_lon := Some 127, ph_origin := INFERRED\<rparr>
     else if ph_id p = 4 then p\<lparr>ph_issue := Some UNCLEAR_LOCATION\<rparr> else p) le_photos"

lemma locating_places_by_best_anchor_witness:
  "list_all2 (\<lambda>p q. ph_src q = ph_src p \<and>
      (ph_issue q = None \<longrightarrow>
         (if ph_gps p then ph_origin q = EXIF \<and> ph_lat q = ps_lat (ph_src p) \<and> ph_lon q = ps_lon (ph_src p)
          else ph_origin q = INFERRED \<and>
            (\<exists>a \<in> set (locate_anchors \<lparr>pd_start = 0, pd_end = 1\<rparr> le_photos). ph_gps a \<and> 8 / 10 \<le> clip1 (sim a p) \<and>
               ph_lat q = ps_lat (ph_src a) \<and> ph_lon q = ps_lon (ph_src a) \<and>
               (\<forall>b \<in> set (locate_anchors \<lparr>pd_start = 0, pd_end = 1\<rparr> le_photos).
                  clip1 (sim b p) \<le> clip1 (sim a p))))) \<and>
      (case ph_taken p of Some d \<Rightarrow> \<not> in_period_day \<lparr>pd_start = 0, pd_end = 1\<rparr> d \<longrightarrow> ph_issue q \<noteq> None
         | None \<Rightarrow> True)) le_photos le_located"
proof (rule locating_places_by_best_anchor)
  show "locate_photos \<lparr>pd_start = 0, pd_end = 1\<rparr> (8 / 10) le_photos = Inr le_located" by code_simp
qed

section \<open>CLUSTERING\<close>

text \<open>Clustering follows DBSCAN's labels, whatever they are: with candidate photos numbered in
  id order, two photos end in one place exactly when their labels are equal and not noise, a noise
  photo has no place and an unclear location, and a place name is p1, p2, ....\<close>

theorem places_are_labels:
  assumes "cluster_photos dbscan eps mins ps = Inr qs" "distinct (map ph_id ps)"
    and "i < length (cluster_candidates ps)" "j < length (cluster_candidates ps)"
  shows "\<exists>a b. by_id qs (ph_id (cluster_candidates ps ! i)) = Some a \<and>
    by_id qs (ph_id (cluster_candidates ps ! j)) = Some b \<and>
    (ph_place a \<noteq> None \<and> ph_place a = ph_place b \<longleftrightarrow>
      cluster_labels dbscan eps mins ps ! i \<noteq> -1 \<and>
      cluster_labels dbscan eps mins ps ! i = cluster_labels dbscan eps mins ps ! j) \<and>
    (ph_place a = None \<longleftrightarrow> ph_issue a = Some UNCLEAR_LOCATION) \<and>
    (case ph_place a of Some pl \<Rightarrow> (\<exists>n. pl = place_name n \<and> 0 < n) | None \<Rightarrow> True)"
proof -
  let ?C = "cluster_candidates ps" and ?t = "cluster_table dbscan eps mins ps"
  let ?L = "cluster_labels dbscan eps mins ps"
  let ?D = "label_dict ?L []"
  from cluster_photos_map[OF assms(1)] assms(3) have qs: "qs = map (cluster_one ?t) ps"
    and len: "length ?L = length ?C" by auto
  have dq: "distinct (map ph_id qs)" using cluster.keeps_distinct[OF assms(1,2)] .
  have mset: "mset (map ph_id ?C) = mset (map ph_id (filter (\<lambda>p. ph_issue p = None) ps))"
    by (simp add: cluster_candidates_def sort_id_def)
  then have dC: "distinct (map ph_id ?C)"
    using distinct_map_filter[OF assms(2)] mset_eq_imp_distinct_iff by blast
  have place: "by_id qs (ph_id (?C ! k)) = Some (cluster_one ?t (?C ! k)) \<and>
      ph_place (cluster_one ?t (?C ! k)) = (if ?L ! k = -1 then None else map_of ?D (?L ! k)) \<and>
      ph_issue (?C ! k) = None" if k: "k < length ?C" for k
  proof -
    have "?C ! k \<in> set ?C" using k by simp
    then have m: "?C ! k \<in> set ps" "ph_issue (?C ! k) = None" by (auto simp: cluster_candidates_def)
    from cluster_place[OF assms(1,2) m] obtain k' where
      k': "k' < length ?C" "?C ! k' = ?C ! k" "ph_place (cluster_one ?t (?C ! k)) =
        (if ?L ! k' = -1 then None else map_of ?D (?L ! k'))" by (auto simp: Let_def)
    have "k' = k" using dC k k'(1,2) by (metis distinct_map nth_eq_iff_index_eq)
    with k' by_id_distinct[OF dq, of "cluster_one ?t (?C ! k)"] m qs show ?thesis by simp
  qed
  have some: "map_of ?D (?L ! k) \<noteq> None" if "k < length ?C" "?L ! k \<noteq> -1" for k
    using label_dict_dom[of "?L ! k" ?L "[]"] that len by simp
  let ?a = "cluster_one ?t (?C ! i)" and ?b = "cluster_one ?t (?C ! j)"
  have issue: "ph_place ?a = None \<longleftrightarrow> ph_issue ?a = Some UNCLEAR_LOCATION"
  proof -
    have "?C ! i \<in> set ?C" using assms(3) by simp
    then have "ph_id (?C ! i) \<in> set (map fst ?t)"
      using len by (simp add: cluster_table_def label_places_map)
    then obtain v where v: "map_of ?t (ph_id (?C ! i)) = Some v"
      using map_of_eq_None_iff[of ?t "ph_id (?C ! i)"]
      by (cases "map_of ?t (ph_id (?C ! i))") auto
    then show ?thesis using place[OF assms(3)] by (auto simp: cluster_one_def put_place_def split: option.splits)
  qed
  have name: "case ph_place ?a of Some pl \<Rightarrow> (\<exists>n. pl = place_name n \<and> 0 < n) | None \<Rightarrow> True"
  proof (cases "ph_place ?a")
    case (Some pl)
    with place[OF assms(3)] have "map_of ?D (?L ! i) = Some pl" by (auto split: if_splits)
    then have "pl \<in> set (map snd ?D)" by (force dest: map_of_SomeD)
    moreover have "map snd ?D = map place_name [1..<length ?D + 1]" by (rule label_dict_names) simp
    ultimately show ?thesis using Some by (auto simp del: upt_Suc)
  qed simp
  have same: "ph_place ?a \<noteq> None \<and> ph_place ?a = ph_place ?b \<longleftrightarrow> ?L ! i \<noteq> -1 \<and> ?L ! i = ?L ! j"
    using place[OF assms(3)] place[OF assms(4)] some[OF assms(3)] some[OF assms(4)]
      label_dict_inject[of ?L "?L ! i" _ "?L ! j"] by (auto split: if_splits)
  from place[OF assms(3)] place[OF assms(4)] issue name same show ?thesis
    by (intro exI[of _ ?a] exI[of _ ?b]) blast
qed

definition half_dbscan :: dbscan where
  "half_dbscan eps n pts = map (\<lambda>p. if fst p > 40 then -1 else if fst p > 35 then 1 else 0) pts"

definition cl_photo :: "int \<Rightarrow> rat \<Rightarrow> photo" where
  "cl_photo i la = (ce_photo i 0 True 65 [1, 0])\<lparr>ph_lat := Some la\<rparr>"

definition cl_result :: "photo list" where
  "cl_result = [(cl_photo 1 37)\<lparr>ph_place := Some ''p1''\<rparr>, (cl_photo 2 30)\<lparr>ph_place := Some ''p2''\<rparr>,
     (cl_photo 3 36)\<lparr>ph_place := Some ''p1''\<rparr>, (cl_photo 4 41)\<lparr>ph_issue := Some UNCLEAR_LOCATION\<rparr>]"

lemma places_are_labels_witness:
  "\<exists>a b. by_id cl_result (ph_id (cluster_candidates [cl_photo 1 37, cl_photo 2 30, cl_photo 3 36, cl_photo 4 41] ! 0)) = Some a \<and>
    by_id cl_result (ph_id (cluster_candidates [cl_photo 1 37, cl_photo 2 30, cl_photo 3 36, cl_photo 4 41] ! 2)) = Some b \<and>
    (ph_place a \<noteq> None \<and> ph_place a = ph_place b \<longleftrightarrow>
      cluster_labels half_dbscan 100 1 [cl_photo 1 37, cl_photo 2 30, cl_photo 3 36, cl_photo 4 41] ! 0 \<noteq> -1 \<and>
      cluster_labels half_dbscan 100 1 [cl_photo 1 37, cl_photo 2 30, cl_photo 3 36, cl_photo 4 41] ! 0 =
      cluster_labels half_dbscan 100 1 [cl_photo 1 37, cl_photo 2 30, cl_photo 3 36, cl_photo 4 41] ! 2) \<and>
    (ph_place a = None \<longleftrightarrow> ph_issue a = Some UNCLEAR_LOCATION) \<and>
    (case ph_place a of Some pl \<Rightarrow> (\<exists>n. pl = place_name n \<and> 0 < n) | None \<Rightarrow> True)"
proof (rule places_are_labels)
  show "cluster_photos half_dbscan 100 1 [cl_photo 1 37, cl_photo 2 30, cl_photo 3 36, cl_photo 4 41] = Inr cl_result"
    by code_simp
qed code_simp+

section \<open>Assigning\<close>

text \<open>C18. On photos straight from LOCATING and CLUSTERING, assigning always returns (its loop ends
  within the fuel of one round per target) and never raises, if DBSCAN treats equal points alike;
  it keeps every photo that has a place, and moves a photo without one only next to a GPS photo of
  its new place, whose coordinates it takes.\<close>

theorem assigning_succeeds_after_clustering:
  assumes "locate_photos pd min_sim ps = Inr qs" "cluster_photos dbscan eps mins qs = Inr rs"
    and "distinct (map ph_id ps)" "\<forall>p \<in> set ps. ph_place p = None \<and> ph_emb p \<noteq> None"
    and "\<forall>e n pts i j. i < length pts \<and> j < length pts \<and> pts ! i = pts ! j \<longrightarrow>
           dbscan e n pts ! i = dbscan e n pts ! j"
    and "-1 \<le> ms" "ms \<le> 1" "0 \<le> gap"
  shows "\<exists>us n. assign_unlocated pd ms gap rs = Some (Inr (us, n)) \<and>
    list_all2 (\<lambda>p q. q = p \<or> (ph_place p = None \<and> ph_issue q = None \<and>
      (\<exists>a \<in> set rs. ph_origin a = EXIF \<and> ph_place q = ph_place a \<and> ph_place a \<noteq> None \<and>
         ph_lat q = ph_lat a \<and> ph_lon q = ph_lon a \<and> ph_src q = ph_src p))) rs us"
proof -
  have dq: "distinct (map ph_id qs)" using locate.keeps_distinct[OF assms(1,3)] .
  have dr: "distinct (map ph_id rs)" using cluster.keeps_distinct[OF assms(2) dq] .
  have "located_all qs" using locate_establishes[OF assms(1)] assms(4) by blast
  moreover have "dbscan_uniform dbscan" using assms(5) by (simp add: dbscan_uniform_def)
  ultimately have g: "grounded rs" by (rule cluster_grounded[OF assms(2) dq])
  have "\<forall>p \<in> set rs. ph_emb p \<noteq> None"
    using locate_photos_map[OF assms(1)] cluster_photos_map[OF assms(2)] assms(4) by auto
  from assign_unlocated_total[OF g dr assms(6-8) this] obtain us n where
    u: "assign_unlocated pd ms gap rs = Some (Inr (us, n))" by blast
  have "list_all2 (\<lambda>p q. q = p \<or> (ph_place p = None \<and> ph_issue q = None \<and>
      (\<exists>a \<in> set rs. ph_origin a = EXIF \<and> ph_place q = ph_place a \<and> ph_place a \<noteq> None \<and>
         ph_lat q = ph_lat a \<and> ph_lon q = ph_lon a \<and> ph_src q = ph_src p))) rs us"
    by (rule list_all2_mono[OF assign_unlocated_moves[OF u dr]])
      (fastforce simp: moved_def place_anchors_def)
  with u show ?thesis by blast
qed

text \<open>Two places, and a photo too unlike the GPS photos that lies between two shots of one place.\<close>

definition ae_photo :: "int \<Rightarrow> rat option \<Rightarrow> vec \<Rightarrow> photo" where
  "ae_photo i la v =
     (build_photo_state \<lparr>at_id = i, at_key = ''k'', at_taken = Some \<lparr>dt_local = i * 60000000, dt_off = Some 0\<rparr>,
        at_lat = la, at_lon = map_option (\<lambda>_. 127) la, at_device = None\<rparr>)
      \<lparr>ph_emb := Some v, ph_time := ORIGINAL, ph_taken := Some \<lparr>dt_local = i * 60000000, dt_off = Some 0\<rparr>\<rparr>"

definition ae_photos :: "photo list" where
  "ae_photos = [ae_photo 1 (Some 37) [1, 0], ae_photo 2 None [0, 1], ae_photo 3 (Some 37) [1, 0],
                ae_photo 4 (Some 30) [1, 0]]"

definition ae_located :: "photo list" where
  "ae_located = map (\<lambda>p. if ph_id p = 2 then p\<lparr>ph_issue := Some UNCLEAR_LOCATION\<rparr> else p) ae_photos"

definition ae_clustered :: "photo list" where
  "ae_clustered = map (\<lambda>p. if ph_id p = 2 then p
     else p\<lparr>ph_place := Some (if ph_id p = 4 then ''p2'' else ''p1'')\<rparr>) ae_located"

lemma assigning_succeeds_after_clustering_witness:
  "\<exists>us n. assign_unlocated \<lparr>pd_start = 0, pd_end = 1\<rparr> (8 / 10) 30 ae_clustered = Some (Inr (us, n)) \<and>
    list_all2 (\<lambda>p q. q = p \<or> (ph_place p = None \<and> ph_issue q = None \<and>
      (\<exists>a \<in> set ae_clustered. ph_origin a = EXIF \<and> ph_place q = ph_place a \<and> ph_place a \<noteq> None \<and>
         ph_lat q = ph_lat a \<and> ph_lon q = ph_lon a \<and> ph_src q = ph_src p))) ae_clustered us"
proof (rule assigning_succeeds_after_clustering)
  show "locate_photos \<lparr>pd_start = 0, pd_end = 1\<rparr> (8 / 10) ae_photos = Inr ae_located" by code_simp
  show "cluster_photos half_dbscan 100 1 ae_located = Inr ae_clustered" by code_simp
  show "distinct (map ph_id ae_photos)" by code_simp
  show "\<forall>p \<in> set ae_photos. ph_place p = None \<and> ph_emb p \<noteq> None" by code_simp
  show "\<forall>e n pts i j. i < length pts \<and> j < length pts \<and> pts ! i = pts ! j \<longrightarrow>
           half_dbscan e n pts ! i = half_dbscan e n pts ! j" by (intro allI impI) (elim conjE, simp add: half_dbscan_def)
qed simp_all

section \<open>FILTERING\<close>

text \<open>C19. Within a place the photos judged worth keeping are sharp and pairwise far apart, a blurred
  photo is marked so, and every other sharp photo is a duplicate that names a kept photo of its own
  place within the distance; a place with a sharp photo keeps at least one.\<close>

theorem filtering_keeps_one_of_each:
  assumes "filter_photos hdist ms blur max_dist ps = Inr (qs, vs)"
  shows "list_all2 (\<lambda>p q.
      let K = place_kept hdist ms blur max_dist (ph_place p) ps in
      if pmt_variance (metric ms p) < blur then ph_issue q = Some BLURRY \<and> ph_dup q = None
      else if p \<in> set K then ph_issue q = kept_issue (ph_place p) \<and> ph_dup q = None
      else ph_issue q = Some DUPLICATED \<and>
        (\<exists>o1 \<in> set K. ph_dup q = Some (ph_id o1) \<and> near hdist ms max_dist p o1)) ps qs \<and>
    (\<forall>pl. let K = place_kept hdist ms blur max_dist pl ps in
       set K \<subseteq> {p \<in> set ps. ph_place p = pl \<and> blur \<le> pmt_variance (metric ms p)} \<and>
       (\<forall>i j. i < j \<and> j < length K \<longrightarrow> \<not> near hdist ms max_dist (K ! j) (K ! i)) \<and>
       ((\<exists>p \<in> set ps. ph_place p = pl \<and> blur \<le> pmt_variance (metric ms p)) \<longrightarrow> K \<noteq> []))"
proof
  note r = filter_photos_result[OF assms]
  show "list_all2 (\<lambda>p q.
      let K = place_kept hdist ms blur max_dist (ph_place p) ps in
      if pmt_variance (metric ms p) < blur then ph_issue q = Some BLURRY \<and> ph_dup q = None
      else if p \<in> set K then ph_issue q = kept_issue (ph_place p) \<and> ph_dup q = None
      else ph_issue q = Some DUPLICATED \<and>
        (\<exists>o1 \<in> set K. ph_dup q = Some (ph_id o1) \<and> near hdist ms max_dist p o1)) ps qs"
    by (rule list_all2_mono[OF conjunct1[OF r]]) (auto simp: judgement_def Let_def split: if_splits)
next
  show "\<forall>pl. let K = place_kept hdist ms blur max_dist pl ps in
       set K \<subseteq> {p \<in> set ps. ph_place p = pl \<and> blur \<le> pmt_variance (metric ms p)} \<and>
       (\<forall>i j. i < j \<and> j < length K \<longrightarrow> \<not> near hdist ms max_dist (K ! j) (K ! i)) \<and>
       ((\<exists>p \<in> set ps. ph_place p = pl \<and> blur \<le> pmt_variance (metric ms p)) \<longrightarrow> K \<noteq> [])"
  proof
    fix pl
    let ?K = "place_kept hdist ms blur max_dist pl ps"
    have "set ?K \<subseteq> {p \<in> set ps. ph_place p = pl \<and> blur \<le> pmt_variance (metric ms p)}"
      using place_kept_subset[of hdist ms blur max_dist pl ps]
        group_kept_sharp[of "[]" blur ms hdist max_dist "place_group pl ps"]
      by (auto simp: place_kept_def)
    moreover have "\<forall>i j. i < j \<and> j < length ?K \<longrightarrow> \<not> near hdist ms max_dist (?K ! j) (?K ! i)"
      unfolding place_kept_def by (rule group_kept_apart) simp
    moreover have "(\<exists>p \<in> set ps. ph_place p = pl \<and> blur \<le> pmt_variance (metric ms p)) \<longrightarrow> ?K \<noteq> []"
      using group_kept_nonempty[of "place_group pl ps" blur ms hdist max_dist]
      by (auto simp: place_kept_def)
    ultimately show "let K = ?K in
       set K \<subseteq> {p \<in> set ps. ph_place p = pl \<and> blur \<le> pmt_variance (metric ms p)} \<and>
       (\<forall>i j. i < j \<and> j < length K \<longrightarrow> \<not> near hdist ms max_dist (K ! j) (K ! i)) \<and>
       ((\<exists>p \<in> set ps. ph_place p = pl \<and> blur \<le> pmt_variance (metric ms p)) \<longrightarrow> K \<noteq> [])"
      by (simp add: Let_def)
  qed
qed

definition fe_photos :: "photo list" where
  "fe_photos = map (\<lambda>(i, pl). (ce_photo i 0 True 65 [1, 0])\<lparr>ph_time := UNKNOWN_TIME, ph_place := Some pl\<rparr>)
     [(1, ''p1''), (2, ''p1''), (3, ''p1''), (4, ''p2'')]"

definition fe_metrics :: metrics where
  "fe_metrics = [(1, \<lparr>pmt_variance = 100, pmt_phash = ''0000000000000000''\<rparr>),
     (2, \<lparr>pmt_variance = 100, pmt_phash = ''0000000000000001''\<rparr>),
     (3, \<lparr>pmt_variance = 1, pmt_phash = ''ffffffffffffffff''\<rparr>),
     (4, \<lparr>pmt_variance = 100, pmt_phash = ''0000000000000000''\<rparr>)]"

definition fe_dist :: phash_dist where
  "fe_dist a b = of_nat (length (filter (\<lambda>(x, y). x \<noteq> y) (zip a b)))"

definition fe_judged :: "photo list" where
  "fe_judged = map (\<lambda>p. if ph_id p = 2 then p\<lparr>ph_issue := Some DUPLICATED, ph_dup := Some 1\<rparr>
     else if ph_id p = 3 then p\<lparr>ph_issue := Some BLURRY\<rparr> else p) fe_photos"

definition fe_variances :: "(int, rat) pydict" where
  "fe_variances = [(1, 100), (2, 100), (3, 1), (4, 100)]"

lemma filtering_keeps_one_of_each_witness:
  "list_all2 (\<lambda>p q.
      let K = place_kept fe_dist fe_metrics 50 6 (ph_place p) fe_photos in
      if pmt_variance (metric fe_metrics p) < 50 then ph_issue q = Some BLURRY \<and> ph_dup q = None
      else if p \<in> set K then ph_issue q = kept_issue (ph_place p) \<and> ph_dup q = None
      else ph_issue q = Some DUPLICATED \<and>
        (\<exists>o1 \<in> set K. ph_dup q = Some (ph_id o1) \<and> near fe_dist fe_metrics 6 p o1)) fe_photos fe_judged"
proof -
  have "filter_photos fe_dist fe_metrics 50 6 fe_photos = Inr (fe_judged, fe_variances)" by code_simp
  from conjunct1[OF filtering_keeps_one_of_each[OF this]] show ?thesis .
qed

section \<open>FINALIZING\<close>

lemma place_groups_sorted: "sorted_wrt (<) (map fst (place_groups ps))"
proof -
  let ?g = "group_by (\<lambda>p. the (ph_place p)) (filter (\<lambda>p. ph_place p \<noteq> None) ps)"
  have "sorted (map fst (place_groups ps))" by (simp add: place_groups_def)
  moreover have "mset (map fst (place_groups ps)) = mset (map fst ?g)"
    by (simp only: place_groups_def mset_map mset_sort)
  then have "distinct (map fst (place_groups ps))"
    using distinct_group_by mset_eq_imp_distinct_iff by blast
  ultimately show ?thesis by (simp add: strict_sorted_iff)
qed

lemma place_groups_members:
  "(pl, grp) \<in> set (place_groups ps) \<Longrightarrow> sort_key time_order grp = place_group (Some pl) ps"
proof -
  assume "(pl, grp) \<in> set (place_groups ps)"
  then have "grp = filter (\<lambda>p. the (ph_place p) = pl) (filter (\<lambda>p. ph_place p \<noteq> None) ps)"
    by (auto simp: place_groups_def dest: group_by_members)
  also have "\<dots> = filter (\<lambda>p. ph_place p = Some pl) ps"
    unfolding filter_filter by (rule filter_cong) auto
  finally show ?thesis by (simp add: place_group_def)
qed

text \<open>A finished result lists its places in strictly increasing order of their names; a place
  holds exactly the issue-free photos of that name in time order, is never empty, its
  representative is one of them, and every score lies between 0 and 100. A duplicate that is
  reported names a photo of its own place that is kept.\<close>

theorem finished_places_are_complete:
  assumes "finalize_photos center ps vs offsets = Inr r"
  shows "sorted_wrt (<) (map pl_id (res_places r)) \<and>
    list_all (\<lambda>pl. pl_atts pl \<noteq> [] \<and> pl_rep pl \<in> set (map pa_id (pl_atts pl)) \<and>
      map pa_id (pl_atts pl) =
        map ph_id (filter (\<lambda>p. ph_issue p = None) (place_group (Some (pl_id pl)) ps)) \<and>
      list_all (\<lambda>a. 0 \<le> pa_eval a \<and> pa_eval a \<le> 100) (pl_atts pl)) (res_places r) \<and>
    list_all (\<lambda>p. ph_issue p \<noteq> Some DUPLICATED \<or>
      (\<exists>q \<in> set ps. ph_dup p = Some (ph_id q) \<and> ph_place q = ph_place p \<and>
         ph_issue q = kept_issue (ph_place p))) ps"
proof -
  note f = finalize_parts[OF assms]
  then have m: "list_all2 (\<lambda>g p. make_place center vs g = Inr p) (place_groups ps) (res_places r)"
    by (simp add: mapE_Inr)
  have each: "pl_id p = fst g \<and> valid_place p \<and> list_all valid_place_attachment (pl_atts p) \<and>
      map pa_id (pl_atts p) = map ph_id (filter (\<lambda>p. ph_issue p = None) (place_group (Some (fst g)) ps))"
    if "make_place center vs g = Inr p" "g \<in> set (place_groups ps)" for g p
    using make_place_spec[of center vs "fst g" "snd g" p] place_groups_members[of "fst g" "snd g" ps] that
    by simp
  have "map pl_id (res_places r) = map fst (place_groups ps)"
  proof (rule nth_equalityI)
    show "length (map pl_id (res_places r)) = length (map fst (place_groups ps))"
      using m by (auto dest: list_all2_lengthD)
    fix i assume "i < length (map pl_id (res_places r))"
    with m each[of "place_groups ps ! i" "res_places r ! i"]
    show "map pl_id (res_places r) ! i = map fst (place_groups ps) ! i"
      by (simp add: list_all2_conv_all_nth)
  qed
  moreover have "list_all (\<lambda>pl. pl_atts pl \<noteq> [] \<and> pl_rep pl \<in> set (map pa_id (pl_atts pl)) \<and>
      map pa_id (pl_atts pl) =
        map ph_id (filter (\<lambda>p. ph_issue p = None) (place_group (Some (pl_id pl)) ps)) \<and>
      list_all (\<lambda>a. 0 \<le> pa_eval a \<and> pa_eval a \<le> 100) (pl_atts pl)) (res_places r)"
    unfolding list_all_length
  proof (intro allI impI)
    fix i assume i: "i < length (res_places r)"
    with m have "make_place center vs (place_groups ps ! i) = Inr (res_places r ! i)"
      "place_groups ps ! i \<in> set (place_groups ps)" by (auto simp: list_all2_conv_all_nth)
    note e = each[OF this, unfolded valid_place_def valid_place_attachment_def list_all_length]
    from e[THEN conjunct1, symmetric] e show "pl_atts (res_places r ! i) \<noteq> [] \<and>
      pl_rep (res_places r ! i) \<in> set (map pa_id (pl_atts (res_places r ! i))) \<and>
      map pa_id (pl_atts (res_places r ! i)) = map ph_id (filter (\<lambda>p. ph_issue p = None)
        (place_group (Some (pl_id (res_places r ! i))) ps)) \<and>
      (\<forall>n < length (pl_atts (res_places r ! i)). 0 \<le> pa_eval (pl_atts (res_places r ! i) ! n) \<and>
        pa_eval (pl_atts (res_places r ! i) ! n) \<le> 100)"
      by (elim conjE) (intro conjI allI impI; (assumption | simp only:))
  qed
  moreover have "list_all (\<lambda>p. ph_issue p \<noteq> Some DUPLICATED \<or>
      (\<exists>q \<in> set ps. ph_dup p = Some (ph_id q) \<and> ph_place q = ph_place p \<and>
         ph_issue q = kept_issue (ph_place p))) ps"
    using f by (fastforce simp: list_all_iff original_ok_def dest: by_id_Some split: option.splits)
  ultimately show ?thesis using place_groups_sorted[of ps] by simp
qed

definition fe_result :: process_result where
  "fe_result = (case finalize_photos (\<lambda>pts. Some (hd pts)) fe_judged fe_variances [] of
     Inr r \<Rightarrow> r | Inl _ \<Rightarrow> pe_result)"

lemma finished_places_are_complete_witness:
  "sorted_wrt (<) (map pl_id (res_places fe_result)) \<and>
    list_all (\<lambda>pl. pl_atts pl \<noteq> [] \<and> pl_rep pl \<in> set (map pa_id (pl_atts pl)) \<and>
      map pa_id (pl_atts pl) =
        map ph_id (filter (\<lambda>p. ph_issue p = None) (place_group (Some (pl_id pl)) fe_judged)) \<and>
      list_all (\<lambda>a. 0 \<le> pa_eval a \<and> pa_eval a \<le> 100) (pl_atts pl)) (res_places fe_result) \<and>
    list_all (\<lambda>p. ph_issue p \<noteq> Some DUPLICATED \<or>
      (\<exists>q \<in> set fe_judged. ph_dup p = Some (ph_id q) \<and> ph_place q = ph_place p \<and>
         ph_issue q = kept_issue (ph_place p))) fe_judged"
proof (rule finished_places_are_complete)
  show "finalize_photos (\<lambda>pts. Some (hd pts)) fe_judged fe_variances [] = Inr fe_result" by code_simp
qed

end
