(* ===== verification/AgentTrip.thy ===== *)
theory AgentTrip
  imports Finalizing Clustering
begin

text \<open>
  \<open>src/app/pipeline/agent/trip.py\<close>: the trip as the agent sees it.  \<open>tv_photos\<close> are the photos of
  the trip period in id order (the same objects the pipeline holds; \<open>write_back\<close> returns them to
  the pipeline's list), \<open>tv_new\<close> the places the agent made, \<open>tv_merged\<close> which place was merged
  into which.  \<open>haversine_m\<close> of the place index is the parameter \<open>hav\<close>.
\<close>

record new_place =
  np_name :: utext
  np_lat :: rat
  np_lon :: rat
  np_cand :: string

record trip_view =
  tv_photos :: "photo list"
  tv_new :: "(string, new_place) pydict"
  tv_merged :: "(string, string) pydict"
  tv_fallback :: "rat \<times> rat"

definition agent_in_period :: "period \<Rightarrow> photo \<Rightarrow> bool" where
  "agent_in_period pd p \<longleftrightarrow> (case ph_taken p of None \<Rightarrow> True | Some d \<Rightarrow> in_period_day pd d)"

definition trip_view_of :: "photo list \<Rightarrow> period \<Rightarrow> rat \<times> rat \<Rightarrow> trip_view" where
  "trip_view_of ps pd first =
     \<lparr>tv_photos = sort_id (filter (agent_in_period pd) ps), tv_new = [], tv_merged = [], tv_fallback = first\<rparr>"

section \<open>Places\<close>

text \<open>\<open>canon\<close>: the \<open>while\<close> loop over the merge map; \<open>None\<close> is a loop that has not ended.\<close>

fun canon_loop :: "nat \<Rightarrow> (string, string) pydict \<Rightarrow> string \<Rightarrow> string option" where
  "canon_loop 0 m pl = None"
| "canon_loop (Suc n) m pl = (case map_of m pl of None \<Rightarrow> Some pl | Some q \<Rightarrow> canon_loop n m q)"

definition canon :: "trip_view \<Rightarrow> string \<Rightarrow> string" where
  "canon t pl = (case canon_loop (length (tv_merged t) + 1) (tv_merged t) pl of Some q \<Rightarrow> q | None \<Rightarrow> pl)"

definition place_of :: "trip_view \<Rightarrow> photo \<Rightarrow> string option" where
  "place_of t p = (case ph_place p of None \<Rightarrow> None | Some pl \<Rightarrow> if pl = [] then None else Some (canon t pl))"

definition placed :: "trip_view \<Rightarrow> photo \<Rightarrow> bool" where
  "placed t p \<longleftrightarrow> (case place_of t p of Some pl \<Rightarrow> pl \<noteq> [] | None \<Rightarrow> False)"

definition places :: "trip_view \<Rightarrow> (string, photo list) pydict" where
  "places t = group_by (\<lambda>p. the (place_of t p)) (filter (placed t) (tv_photos t))"

definition members_of :: "trip_view \<Rightarrow> string \<Rightarrow> photo list" where
  "members_of t pl = dict_get [] (places t) pl"

definition gps_photos :: "photo list \<Rightarrow> photo list" where
  "gps_photos ps = filter (\<lambda>p. ph_origin p = EXIF) ps"

definition mean_of :: "rat list \<Rightarrow> rat" where
  "mean_of xs = sum_list xs / of_nat (length xs)"

definition mean_coords :: "photo list \<Rightarrow> rat \<times> rat" where
  "mean_coords ps = (mean_of (map (\<lambda>p. the (ph_lat p)) ps), mean_of (map (\<lambda>p. the (ph_lon p)) ps))"

definition place_center :: "trip_view \<Rightarrow> string \<Rightarrow> (rat \<times> rat) option" where
  "place_center t pl =
     (let gps = gps_photos (members_of t pl)
      in if gps \<noteq> [] then Some (mean_coords gps)
         else map_option (\<lambda>n. (np_lat n, np_lon n)) (map_of (tv_new t) pl))"

definition place_order :: "string \<Rightarrow> string \<times> nat" where
  "place_order pl = (take 1 pl, case str_nat (drop 1 pl) of Some n \<Rightarrow> n | None \<Rightarrow> 0)"

record summary_row =
  sr_place :: string
  sr_new :: bool
  sr_count :: nat
  sr_gps :: nat
  sr_center :: "(rat \<times> rat) option"
  sr_times :: "(dtime \<times> dtime) option"
  sr_name :: "utext option"
  sr_merged :: "string list"

definition round5 :: "rat \<Rightarrow> rat" where
  "round5 x = of_int (py_round (x * 100000)) / 100000"

definition taken_times :: "photo list \<Rightarrow> dtime list" where
  "taken_times ps = concat (map (\<lambda>p. case ph_taken p of Some d \<Rightarrow> [d] | None \<Rightarrow> []) ps)"

definition time_span :: "photo list \<Rightarrow> (dtime \<times> dtime) option" where
  "time_span ps =
     (case taken_times ps of [] \<Rightarrow> None | t # ts \<Rightarrow> Some (min_key instant t ts, max_key instant t ts))"

definition trip_summary :: "trip_view \<Rightarrow> summary_row list" where
  "trip_summary t =
     map (\<lambda>(pl, ms).
       \<lparr>sr_place = pl, sr_new = (map_of (tv_new t) pl \<noteq> None), sr_count = length ms,
        sr_gps = length (gps_photos ms),
        sr_center = map_option (\<lambda>(a, b). (round5 a, round5 b)) (place_center t pl),
        sr_times = time_span ms,
        sr_name = map_option np_name (map_of (tv_new t) pl),
        sr_merged = sort (filter (\<lambda>k. canon t k = pl) (map fst (tv_merged t)))\<rparr>)
     (sort_key (\<lambda>(pl, ms). place_order pl) (places t))"

text \<open>\<open>relations\<close>: centre distance in metres and gap of the time ranges in minutes.\<close>

definition gap_minutes :: "(dtime \<times> dtime) option \<Rightarrow> (dtime \<times> dtime) option \<Rightarrow> int option" where
  "gap_minutes sa sb =
     (case (sa, sb) of
        (Some (a0, a1), Some (b0, b1)) \<Rightarrow>
          Some (if instant a0 \<le> instant b1 \<and> instant b0 \<le> instant a1 then 0
                else py_round (of_int (min \<bar>instant b0 - instant a1\<bar> \<bar>instant a0 - instant b1\<bar>) / 60000000))
      | _ \<Rightarrow> None)"

fun pairs_of :: "'a list \<Rightarrow> ('a \<times> 'a) list" where
  "pairs_of [] = []"
| "pairs_of (x # xs) = map (Pair x) xs @ pairs_of xs"

definition relations ::
  "(rat \<times> rat \<Rightarrow> rat \<times> rat \<Rightarrow> rat) \<Rightarrow> trip_view \<Rightarrow> (string \<times> string \<times> int \<times> int option) list" where
  "relations hav t =
     concat (map (\<lambda>(a, b).
       case (place_center t a, place_center t b) of
         (Some ca, Some cb) \<Rightarrow>
           [(a, b, py_round (hav ca cb), gap_minutes (time_span (members_of t a)) (time_span (members_of t b)))]
       | _ \<Rightarrow> [])
     (pairs_of (sort_key place_order (map fst (places t)))))"

section \<open>Photos\<close>

definition agent_target :: "photo \<Rightarrow> bool" where
  "agent_target p \<longleftrightarrow> ph_place p = None \<and> ph_issue p = Some UNCLEAR_LOCATION \<and> \<not> ph_gps p"

definition targets :: "trip_view \<Rightarrow> photo list" where
  "targets t = filter agent_target (tv_photos t)"

definition neighbors :: "trip_view \<Rightarrow> photo \<Rightarrow> photo option \<times> photo option" where
  "neighbors t p =
     (if ph_taken p = None then (None, None)
      else
        let track = sort_key (\<lambda>q. (instant (the (ph_taken q)), ph_id q))
              (filter (\<lambda>q. ph_taken q \<noteq> None) (tv_photos t));
            earlier = takeWhile (\<lambda>q. ph_id q \<noteq> ph_id p) track;
            later = drop (length earlier + 1) track
        in (if earlier = [] then None else Some (last earlier),
            case later of [] \<Rightarrow> None | q # _ \<Rightarrow> Some q))"

definition best_member :: "photo \<Rightarrow> photo list \<Rightarrow> photo option" where
  "best_member p ms =
     (case filter (\<lambda>q. ph_id q \<noteq> ph_id p) ms of
        [] \<Rightarrow> None | q # qs \<Rightarrow> Some (max_key (\<lambda>r. (sim r p, - ph_id r)) q qs))"

definition best_per_place :: "trip_view \<Rightarrow> photo \<Rightarrow> (string \<times> rat \<times> photo) list" where
  "best_per_place t p =
     sort_key (\<lambda>(pl, s, q). (- s, place_order pl))
       (concat (map (\<lambda>(pl, ms). case best_member p ms of
          Some q \<Rightarrow> [(pl, sim q p, q)] | None \<Rightarrow> []) (places t)))"

definition trip_center :: "trip_view \<Rightarrow> rat \<times> rat" where
  "trip_center t =
     (let gps = gps_photos (tv_photos t) in if gps = [] then tv_fallback t else mean_coords gps)"

definition photo_ref :: "photo \<Rightarrow> string" where
  "photo_ref p = CHR ''S'' # int_str (ph_id p)"

definition by_ref :: "trip_view \<Rightarrow> string \<Rightarrow> photo option" where
  "by_ref t r = find (\<lambda>p. photo_ref p = r) (tv_photos t)"

text \<open>\<open>near\<close> after \<open>strip\<close>; a value that is not text is the empty string.\<close>

definition anchor_of :: "trip_view \<Rightarrow> string \<Rightarrow> rat \<times> rat" where
  "anchor_of t nr =
     (let at_place = (if map_of (places t) nr \<noteq> None \<or> map_of (tv_merged t) nr \<noteq> None
                      then place_center t (canon t nr) else None);
          otherwise = (case at_place of Some c \<Rightarrow> c | None \<Rightarrow> trip_center t)
      in case by_ref t nr of
           None \<Rightarrow> otherwise
         | Some p \<Rightarrow> (case (ph_lat p, ph_lon p) of (Some la, Some lo) \<Rightarrow> (la, lo) | _ \<Rightarrow> otherwise))"

section \<open>Changes\<close>

definition put_photo :: "string \<Rightarrow> rat option \<Rightarrow> rat option \<Rightarrow> photo \<Rightarrow> photo" where
  "put_photo pl la lo p =
     p\<lparr>ph_place := Some pl, ph_lat := la, ph_lon := lo, ph_origin := INFERRED, ph_issue := None\<rparr>"

definition assign_photo :: "trip_view \<Rightarrow> int \<Rightarrow> string \<Rightarrow> pipeline_error + trip_view" where
  "assign_photo t i pl0 =
     (let pl = canon t pl0; anchors = gps_photos (members_of t pl)
      in case by_id (tv_photos t) i of
           None \<Rightarrow> Inl pipeline_error_default
         | Some p \<Rightarrow>
             (case anchors of
                a # as \<Rightarrow>
                  (let n = max_key (\<lambda>q. (sim q p, - ph_id q)) a as
                   in Inr (t\<lparr>tv_photos := update_id i (put_photo pl (ph_lat n) (ph_lon n)) (tv_photos t)\<rparr>))
              | [] \<Rightarrow>
                  (case map_of (tv_new t) pl of
                     Some n \<Rightarrow> Inr (t\<lparr>tv_photos :=
                       update_id i (put_photo pl (Some (np_lat n)) (Some (np_lon n))) (tv_photos t)\<rparr>)
                   | None \<Rightarrow> Inl pipeline_error_default)))"

definition new_name :: "nat \<Rightarrow> string" where
  "new_name n = CHR ''n'' # nat_str n"

definition add_new_place :: "trip_view \<Rightarrow> new_place \<Rightarrow> trip_view \<times> string" where
  "add_new_place t n =
     (case find (\<lambda>(pl, m). np_cand m = np_cand n) (tv_new t) of
        Some (pl, m) \<Rightarrow> (t, canon t pl)
      | None \<Rightarrow>
          (let pl = new_name (length (tv_new t) + 1) in (t\<lparr>tv_new := tv_new t @ [(pl, n)]\<rparr>, pl)))"

definition has_place :: "photo \<Rightarrow> bool" where
  "has_place p \<longleftrightarrow> (case ph_place p of Some pl \<Rightarrow> pl \<noteq> [] | None \<Rightarrow> False)"

definition used_order :: "trip_view \<Rightarrow> string list" where
  "used_order t =
     sort_key (\<lambda>pl. (map_of (tv_new t) pl \<noteq> None, snd (place_order pl)))
       (dedup (map (\<lambda>p. canon t (the (ph_place p))) (filter has_place (tv_photos t))))"

definition finish_trip :: "trip_view \<Rightarrow> trip_view" where
  "finish_trip t =
     (let order = used_order t;
          rename = (\<lambda>pl. case find (\<lambda>(i, q). q = pl) (enumerate 1 order) of
                           Some (i, q) \<Rightarrow> place_name i | None \<Rightarrow> pl)
      in t\<lparr>tv_photos := map (\<lambda>p. if has_place p
            then p\<lparr>ph_place := Some (rename (canon t (the (ph_place p))))\<rparr> else p) (tv_photos t)\<rparr>)"

definition write_back :: "photo list \<Rightarrow> trip_view \<Rightarrow> photo list" where
  "write_back ps t = map (\<lambda>p. case by_id (tv_photos t) (ph_id p) of Some q \<Rightarrow> q | None \<Rightarrow> p) ps"

end
