(* ===== verification/AgentGraph.thy ===== *)
theory AgentGraph
  imports AgentTrip PipelineRun
begin

text \<open>
  \<open>src/app/pipeline/agent/graph.py\<close> and the checks \<open>agent/model.py\<close> makes on the model's answers:
  estimate every target, aggregate the confident proposals, repeat at most five times, merge
  places once, estimate once more.  What the generation server answers (the arguments of the final
  tool call, after \<open>str(...).strip()\<close>) and the outcome of its calls are fields of \<open>agent_env\<close>.
  Completed calls are handled in the order they were submitted, with one poll after each.
\<close>

section \<open>Answers and proposals\<close>

datatype decision = Existing | New_place

datatype confidence = High | Medium | Low

record candidate =
  ca_id :: string
  ca_name :: utext
  ca_lat :: rat
  ca_lon :: rat

record decide_answer =
  da_decision :: "string option"
  da_confidence :: "string option"
  da_place :: string
  da_candidate :: string
  da_name :: utext

record proposal =
  pp_photo :: int
  pp_decision :: "decision option"
  pp_conf :: confidence
  pp_place :: "string option"
  pp_new :: "candidate option"

definition confidence_of :: "string option \<Rightarrow> confidence" where
  "confidence_of c =
     (if c = Some ''high'' then High else if c = Some ''medium'' then Medium else Low)"

text \<open>The end of \<open>model.estimate\<close>: a \<open>decide\<close> answer becomes a proposal.\<close>

definition estimate_proposal ::
  "trip_view \<Rightarrow> (candidate \<Rightarrow> bool) \<Rightarrow> int \<Rightarrow> decide_answer option \<Rightarrow> (string, candidate) pydict \<Rightarrow> proposal" where
  "estimate_proposal t in_region i final candidates =
     (let none = \<lparr>pp_photo = i, pp_decision = None, pp_conf = Low, pp_place = None, pp_new = None\<rparr>
      in case final of
           None \<Rightarrow> none
         | Some f \<Rightarrow>
             let conf = confidence_of (da_confidence f)
             in if da_decision f = Some ''existing'' then
                  let pl = canon t (da_place f)
                  in none\<lparr>pp_decision := Some Existing, pp_place := Some pl,
                          pp_conf := (if map_of (places t) pl = None then Low else conf)\<rparr>
                else if da_decision f = Some ''new'' then
                  (case map_of candidates (da_candidate f) of
                     None \<Rightarrow> none\<lparr>pp_decision := Some New_place, pp_conf := Low\<rparr>
                   | Some c \<Rightarrow>
                       none\<lparr>pp_decision := Some New_place,
                            pp_new := Some (if da_name f = [] then c else c\<lparr>ca_name := da_name f\<rparr>),
                            pp_conf := (if conf = High \<and> \<not> in_region c then Low else conf)\<rparr>)
                else none)"

definition high_proposals :: "proposal list \<Rightarrow> proposal list" where
  "high_proposals ps = filter (\<lambda>p. pp_conf p = High \<and> pp_decision p \<noteq> None) ps"

definition all_digits :: "string \<Rightarrow> bool" where
  "all_digits s \<longleftrightarrow> s \<noteq> [] \<and> list_all (\<lambda>c. c \<in> set ''0123456789'') s"

definition ref_of :: "string \<Rightarrow> string" where
  "ref_of s = (if all_digits s then CHR ''S'' # s else s)"

definition id_ref :: "int \<Rightarrow> string" where
  "id_ref i = CHR ''S'' # int_str i"

text \<open>The end of \<open>model.aggregate\<close>; \<open>accept\<close> is \<open>None\<close> when the answer holds no list.\<close>

definition accepted_proposals :: "proposal list \<Rightarrow> string list option \<Rightarrow> proposal list" where
  "accepted_proposals high accept =
     (let refs = (case accept of Some rs \<Rightarrow> map ref_of rs | None \<Rightarrow> [])
      in filter (\<lambda>p. id_ref (pp_photo p) \<in> set refs) high)"

text \<open>The end of \<open>model.merge\<close>: confident groups of at least two present places.\<close>

definition merge_group :: "trip_view \<Rightarrow> string \<times> string list \<Rightarrow> string list" where
  "merge_group t g =
     (if fst g \<noteq> ''high'' then []
      else filter (\<lambda>x. map_of (places t) x \<noteq> None) (dedup (map (canon t) (snd g))))"

definition merge_groups :: "trip_view \<Rightarrow> (string \<times> string list) list \<Rightarrow> string list list" where
  "merge_groups t raw = filter (\<lambda>g. length g \<ge> 2) (map (merge_group t) raw)"

section \<open>Applying them to the trip\<close>

definition new_key :: "(utext \<Rightarrow> string) \<Rightarrow> candidate \<Rightarrow> string" where
  "new_key norm_text c = (if ca_id c = [] then norm_text (ca_name c) else ca_id c)"

type_synonym accept_state = "trip_view \<times> (string, string) pydict \<times> nat"

definition apply_proposal ::
  "(utext \<Rightarrow> string) \<Rightarrow> proposal \<Rightarrow> accept_state \<Rightarrow> pipeline_error + accept_state" where
  "apply_proposal norm_text p st =
     (let (t, new_ids, changed) = st
      in case by_id (tv_photos t) (pp_photo p) of
           None \<Rightarrow> Inl pipeline_error_default
         | Some photo \<Rightarrow>
             if ph_place photo \<noteq> None then Inr st
             else (case (pp_decision p, pp_place p, pp_new p) of
                     (Some Existing, Some pl, _) \<Rightarrow>
                       bindE (assign_photo t (pp_photo p) pl) (\<lambda>t'. Inr (t', new_ids, changed + 1))
                   | (Some New_place, _, Some c) \<Rightarrow>
                       let key = new_key norm_text c;
                           (t1, ids1, pl) =
                             (case map_of new_ids key of
                                Some pl \<Rightarrow> (t, new_ids, pl)
                              | None \<Rightarrow>
                                  let (t1, pl) = add_new_place t \<lparr>np_name = ca_name c, np_lat = ca_lat c,
                                                     np_lon = ca_lon c, np_cand = key\<rparr>
                                  in (t1, new_ids @ [(key, pl)], pl))
                       in bindE (assign_photo t1 (pp_photo p) pl) (\<lambda>t'. Inr (t', ids1, changed + 1))
                   | _ \<Rightarrow> Inl pipeline_error_default))"

definition apply_proposals ::
  "(utext \<Rightarrow> string) \<Rightarrow> proposal list \<Rightarrow> trip_view \<Rightarrow> pipeline_error + (trip_view \<times> nat)" where
  "apply_proposals norm_text ps t =
     bindE (foldE (apply_proposal norm_text) ps (t, [], 0)) (\<lambda>(t', ids, changed). Inr (t', changed))"

definition merge_into :: "string \<Rightarrow> string \<Rightarrow> trip_view \<Rightarrow> trip_view" where
  "merge_into head0 other t =
     (if other \<noteq> canon t head0
      then t\<lparr>tv_merged := dict_set other (canon t head0) (tv_merged t)\<rparr> else t)"

definition apply_group :: "string list \<Rightarrow> trip_view \<Rightarrow> trip_view" where
  "apply_group g t =
     (case map (canon t) g of [] \<Rightarrow> t | head0 # others \<Rightarrow> fold (merge_into head0) others t)"

definition apply_groups :: "string list list \<Rightarrow> trip_view \<Rightarrow> trip_view" where
  "apply_groups gs t = fold apply_group gs t"

section \<open>Calls\<close>

record agent_env =
  ge_regions :: "pipeline_error + unit"
  ge_decide :: "nat \<Rightarrow> trip_view \<Rightarrow> photo \<Rightarrow> pipeline_error + (decide_answer option \<times> (string, candidate) pydict)"
  ge_in_region :: "candidate \<Rightarrow> bool"
  ge_finalize :: "nat \<Rightarrow> trip_view \<Rightarrow> proposal list \<Rightarrow> pipeline_error + string list option"
  ge_merge :: "trip_view \<Rightarrow> pipeline_error + (string \<times> string list) list"
  ge_normalize :: "utext \<Rightarrow> string"
  ge_expired :: "nat \<Rightarrow> bool"

record agent_log =
  al_ticks :: nat
  al_checks :: nat
  al_events :: "agent_event list"

type_synonym 'a agentm = "agent_log \<Rightarrow> (pipeline_error + 'a) \<times> agent_log"

definition retA :: "'a \<Rightarrow> 'a agentm" where
  "retA x l = (Inr x, l)"

definition bindA :: "'a agentm \<Rightarrow> ('a \<Rightarrow> 'b agentm) \<Rightarrow> 'b agentm" where
  "bindA m f l = (case m l of (Inl e, k) \<Rightarrow> (Inl e, k) | (Inr x, k) \<Rightarrow> f x k)"

definition liftA :: "pipeline_error + 'a \<Rightarrow> 'a agentm" where
  "liftA r l = (r, l)"

text \<open>\<open>_Waiter.check(force=True)\<close>: the time budget, then the cancellation poll.\<close>

definition checkA :: "agent_env \<Rightarrow> unit agentm" where
  "checkA E l =
     (let l' = l\<lparr>al_checks := al_checks l + 1\<rparr>
      in if ge_expired E (al_checks l) then (Inl (PipelineFailure TIMEOUT), l')
         else (Inr (), l'\<lparr>al_events := al_events l @ [Poll]\<rparr>))"

definition tickA :: "unit agentm" where
  "tickA l = (Inr (), l\<lparr>al_ticks := al_ticks l + 1, al_events := al_events l @ [Done_count (al_ticks l + 1)]\<rparr>)"

fun wait_each :: "agent_env \<Rightarrow> (pipeline_error + 'a) list \<Rightarrow> 'a list agentm" where
  "wait_each E [] = retA []"
| "wait_each E (r # rs) =
     bindA (liftA r) (\<lambda>x. bindA tickA (\<lambda>_. bindA (checkA E) (\<lambda>_. bindA (wait_each E rs) (\<lambda>xs. retA (x # xs)))))"

definition wait_many :: "agent_env \<Rightarrow> (pipeline_error + 'a) list \<Rightarrow> 'a list agentm" where
  "wait_many E rs = bindA (checkA E) (\<lambda>_. wait_each E rs)"

definition wait_one :: "agent_env \<Rightarrow> (pipeline_error + 'a) \<Rightarrow> 'a agentm" where
  "wait_one E r = bindA (wait_many E [r]) (\<lambda>xs. retA (hd xs))"

section \<open>The graph\<close>

definition MAX_ROUNDS :: nat where
  "MAX_ROUNDS = 5"

definition RECURSION_LIMIT :: nat where
  "RECURSION_LIMIT = 64"

datatype graph_node = Select | Estimate | Aggregate | Merge | End_node

record graph_state =
  gs_round :: nat
  gs_final :: bool
  gs_proposals :: "proposal list"
  gs_changed :: nat
  gs_trip :: trip_view
  gs_estimates :: nat

definition estimate_call :: "agent_env \<Rightarrow> graph_state \<Rightarrow> photo \<Rightarrow> pipeline_error + proposal" where
  "estimate_call E s p =
     bindE (ge_decide E (gs_estimates s) (gs_trip s) p) (\<lambda>(final, candidates).
       Inr (estimate_proposal (gs_trip s) (ge_in_region E) (ph_id p) final candidates))"

definition aggregate_call :: "agent_env \<Rightarrow> graph_state \<Rightarrow> pipeline_error + proposal list" where
  "aggregate_call E s =
     (let high = high_proposals (gs_proposals s)
      in if high = [] then Inr []
         else bindE (ge_finalize E (gs_estimates s) (gs_trip s) high) (\<lambda>accept.
           Inr (accepted_proposals high accept)))"

fun graph_step :: "agent_env \<Rightarrow> graph_node \<Rightarrow> graph_state \<Rightarrow> (graph_node \<times> graph_state) agentm" where
  "graph_step E Select s =
     (let s' = s\<lparr>gs_round := gs_round s + 1, gs_proposals := [], gs_changed := 0\<rparr>
      in retA (if targets (gs_trip s) \<noteq> [] then Estimate else if gs_final s then End_node else Merge, s'))"
| "graph_step E Estimate s =
     (let s' = s\<lparr>gs_estimates := gs_estimates s + 1\<rparr>
      in bindA (wait_many E (map (estimate_call E s') (targets (gs_trip s)))) (\<lambda>ps.
           retA (Aggregate, s'\<lparr>gs_proposals := ps\<rparr>)))"
| "graph_step E Aggregate s =
     bindA (if list_ex (\<lambda>p. pp_conf p = High) (gs_proposals s)
            then wait_one E (aggregate_call E s) else retA []) (\<lambda>accepted.
     bindA (liftA (apply_proposals (ge_normalize E) accepted (gs_trip s))) (\<lambda>(t, changed).
       retA (if gs_final s then End_node
             else if changed \<noteq> 0 \<and> gs_round s < MAX_ROUNDS then Select else Merge,
             s\<lparr>gs_trip := t, gs_changed := changed\<rparr>)))"
| "graph_step E Merge s =
     bindA (if length (places (gs_trip s)) \<ge> 2
            then wait_one E (bindE (ge_merge E (gs_trip s)) (\<lambda>raw. Inr (merge_groups (gs_trip s) raw)))
            else retA []) (\<lambda>groups.
       retA (Select, s\<lparr>gs_trip := apply_groups groups (gs_trip s), gs_final := True\<rparr>))"
| "graph_step E End_node s = retA (End_node, s)"

text \<open>\<open>invoke\<close> with the recursion limit as fuel; running out is LangGraph's recursion error.\<close>

fun run_graph :: "nat \<Rightarrow> agent_env \<Rightarrow> graph_node \<Rightarrow> graph_state \<Rightarrow> graph_state agentm" where
  "run_graph 0 E nd s = liftA (if nd = End_node then Inr s else Inl pipeline_error_default)"
| "run_graph (Suc n) E nd s =
     (if nd = End_node then retA s else bindA (graph_step E nd s) (\<lambda>(nd', s'). run_graph n E nd' s'))"

definition start_state :: "trip_view \<Rightarrow> graph_state" where
  "start_state t = \<lparr>gs_round = 0, gs_final = False, gs_proposals = [], gs_changed = 0,
     gs_trip = t, gs_estimates = 0\<rparr>"

definition agent_body :: "agent_env \<Rightarrow> trip_view \<Rightarrow> trip_view agentm" where
  "agent_body E t =
     bindA (wait_one E (ge_regions E)) (\<lambda>_.
     bindA (run_graph RECURSION_LIMIT E Select (start_state t)) (\<lambda>s.
       retA (finish_trip (gs_trip s))))"

definition run_agent ::
  "agent_env \<Rightarrow> (string, threshold) pydict \<Rightarrow> process_request \<Rightarrow> photo list \<Rightarrow> agent_run" where
  "run_agent E ths rq ps =
     (if map_of ths ''agent_same_photo_min_sim'' = None \<or> rq_regions rq = []
      then ([], Inl pipeline_error_default)
      else
        let t = trip_view_of ps (rq_period rq) (hd (rq_regions rq))
        in if targets t = [] \<and> length (places t) < 2 then ([], Inr ps)
           else (case agent_body E t \<lparr>al_ticks = 0, al_checks = 0, al_events = []\<rparr> of
                   (Inl e, l) \<Rightarrow> (al_events l, Inl e)
                 | (Inr t', l) \<Rightarrow> (al_events l, Inr (write_back ps t'))))"

end
