(* ===== verification/PyText.thy ===== *)
theory PyText
  imports Errors
begin

text \<open>
  Text as code points: the \<open>str\<close> methods the program uses, and reading a name the model wrote as
  an identifier.  \<open>unicodedata\<close> is not modelled; where it matters it is a parameter.
\<close>

definition space_points :: "nat list" where
  "space_points = [9, 10, 11, 12, 13, 28, 29, 30, 31, 32, 133, 160, 5760, 8192, 8193, 8194, 8195, 8196,
     8197, 8198, 8199, 8200, 8201, 8202, 8232, 8233, 8239, 8287, 12288]"

definition is_space :: "nat \<Rightarrow> bool" where
  "is_space c \<longleftrightarrow> c \<in> set space_points"

definition ustrip :: "utext \<Rightarrow> utext" where
  "ustrip u = rev (dropWhile is_space (rev (dropWhile is_space u)))"

text \<open>\<open>str.split()\<close>: the words between runs of white space.\<close>

fun uwords_aux :: "utext \<Rightarrow> utext \<Rightarrow> utext list" where
  "uwords_aux w [] = (if w = [] then [] else [rev w])"
| "uwords_aux w (c # u) =
     (if is_space c then (if w = [] then uwords_aux [] u else rev w # uwords_aux [] u)
      else uwords_aux (c # w) u)"

definition uwords :: "utext \<Rightarrow> utext list" where
  "uwords u = uwords_aux [] u"

definition of_ascii :: "string \<Rightarrow> utext" where
  "of_ascii s = map of_char s"

text \<open>Every identifier of the program is ASCII; a text with other characters names none of them.\<close>

definition id_text :: "utext \<Rightarrow> string" where
  "id_text u = (if list_all (\<lambda>c. c < 128) u then map char_of u else ''?'')"

lemma id_text_of_ascii: "list_all (\<lambda>c. of_char c < (128 :: nat)) s \<Longrightarrow> id_text (of_ascii s) = s"
  by (simp add: id_text_def of_ascii_def list_all_iff comp_def)

text \<open>\<open>int(text)\<close>: blanks around, a sign, ASCII digits with single underscores between them, at
  most 4300 of them.\<close>

definition udigit :: "nat \<Rightarrow> bool" where
  "udigit c \<longleftrightarrow> 48 \<le> c \<and> c \<le> 57"

fun udigits :: "nat \<Rightarrow> utext \<Rightarrow> nat option" where
  "udigits acc [] = Some acc"
| "udigits acc (c # u) =
     (if udigit c then udigits (10 * acc + (c - 48)) u
      else if c = 95 then (case u of d # v \<Rightarrow> if udigit d then udigits (10 * acc + (d - 48)) v else None | [] \<Rightarrow> None)
      else None)"

definition unat_of :: "utext \<Rightarrow> nat option" where
  "unat_of u = (case u of [] \<Rightarrow> None
     | c # v \<Rightarrow> if udigit c \<and> length (filter udigit u) \<le> 4300 then udigits 0 u else None)"

definition uint_of :: "utext \<Rightarrow> int option" where
  "uint_of u0 =
     (let u = ustrip u0
      in case u of [] \<Rightarrow> None
         | c # v \<Rightarrow> if c = 45 then map_option (\<lambda>n. - int n) (unat_of v)
                    else map_option int (unat_of (if c = 43 then v else u)))"

text \<open>\<open>str.startswith\<close> and \<open>part in whole\<close>.\<close>

definition ustarts :: "utext \<Rightarrow> utext \<Rightarrow> bool" where
  "ustarts w u \<longleftrightarrow> take (length w) u = w"

fun uinfix :: "utext \<Rightarrow> utext \<Rightarrow> bool" where
  "uinfix w [] = (w = [])"
| "uinfix w (c # u) = (ustarts w (c # u) \<or> uinfix w u)"

text \<open>The truth value of a JSON value.\<close>

fun truthy_json :: "json \<Rightarrow> bool" where
  "truthy_json JNull = False"
| "truthy_json (JBool b) = b"
| "truthy_json (JInt i) = (i \<noteq> 0)"
| "truthy_json (JNum r) = (r \<noteq> 0)"
| "truthy_json (JStr u) = (u \<noteq> [])"
| "truthy_json (JArr xs) = (xs \<noteq> [])"
| "truthy_json (JObj kvs) = (kvs \<noteq> [])"

lemma ustrip_Nil [simp]: "ustrip [] = []"
  by (simp add: ustrip_def)

lemma ustrip_ends: "ustrip u \<noteq> [] \<Longrightarrow> \<not> is_space (hd (ustrip u)) \<and> \<not> is_space (last (ustrip u))"
proof -
  let ?v = "dropWhile is_space u"
  assume ne: "ustrip u \<noteq> []"
  then have r: "dropWhile is_space (rev ?v) \<noteq> []" by (simp add: ustrip_def)
  then have v: "?v \<noteq> []" by (metis dropWhile.simps(1) rev.simps(1))
  have l: "\<not> is_space (last (ustrip u))"
    using hd_dropWhile[OF r] r by (simp add: ustrip_def last_rev)
  obtain p where p: "rev ?v = p @ dropWhile is_space (rev ?v)"
    by (metis takeWhile_dropWhile_id)
  then have "?v = ustrip u @ rev p" unfolding ustrip_def by (metis rev_append rev_rev_ident)
  then have "hd ?v = hd (ustrip u)" using ne by (metis hd_append2)
  with hd_dropWhile[OF v] l show ?thesis by simp
qed

lemma ustarts_append: "ustarts w u \<longleftrightarrow> (\<exists>v. u = w @ v)"
  by (auto simp: ustarts_def) (metis append_take_drop_id)

lemma uinfix_append: "uinfix w u \<longleftrightarrow> (\<exists>a b. u = a @ w @ b)"
proof (induction u)
  case (Cons c u)
  have "(\<exists>a b. c # u = a @ w @ b) \<longleftrightarrow> (\<exists>b. c # u = w @ b) \<or> (\<exists>a b. u = a @ w @ b)"
    by (metis append_Cons append_Nil list.exhaust list.sel(3) list.inject)
  with Cons show ?case by (simp add: ustarts_append)
qed auto

end
