(* ===== verification/Kakao.thy ===== *)
theory Kakao
  imports PyText Prelude
begin

text \<open>
  \<open>src/app/infra/kakao_local.py\<close>: keyword search and region lookup under a call budget.  What the
  HTTP client answers is the parameter \<open>get\<close>; a document's fields are given as far as the code can
  read them: a missing field, or one of the wrong form, is \<open>None\<close>.
\<close>

record kakao_budget =
  kb_limit :: nat
  kb_used :: nat

definition budget_take :: "kakao_budget \<Rightarrow> bool \<times> kakao_budget" where
  "budget_take b = (if kb_limit b \<le> kb_used b then (False, b) else (True, b\<lparr>kb_used := kb_used b + 1\<rparr>))"

record kakao_place =
  kp_id :: string
  kp_name :: utext
  kp_category :: utext
  kp_address :: utext
  kp_lat :: rat
  kp_lon :: rat
  kp_distance :: "int option"

text \<open>\<open>kd_distance\<close>: no text, or the number it reads as, if any.\<close>

record kakao_doc =
  kd_id :: "string option"
  kd_name :: "utext option"
  kd_category :: "utext option"
  kd_road :: "utext option"
  kd_address :: "utext option"
  kd_y :: "rat option"
  kd_x :: "rat option"
  kd_distance :: "int option option"

record region_doc =
  rd_type :: "string option"
  rd_sido :: "utext option"
  rd_sigungu :: "utext option"

datatype kakao_error = Kakao_unavailable | Kakao_timeout

text \<open>\<open>_get\<close>: the answer holds the documents, or none when it is not the expected object.\<close>

datatype 'd http_answer = Http_timeout | Http_status nat | Http_broken | Http_data "'d list option"

fun kakao_get :: "'d http_answer \<Rightarrow> kakao_error + 'd list" where
  "kakao_get Http_timeout = Inl Kakao_timeout"
| "kakao_get (Http_status n) = Inl Kakao_unavailable"
| "kakao_get Http_broken = Inl Kakao_unavailable"
| "kakao_get (Http_data None) = Inl Kakao_unavailable"
| "kakao_get (Http_data (Some ds)) = Inr ds"

definition MAX_KEYWORD_RADIUS_M :: int where
  "MAX_KEYWORD_RADIUS_M = 20000"

definition MAX_KEYWORD_SIZE :: int where
  "MAX_KEYWORD_SIZE = 15"

record keyword_params =
  kq_query :: utext
  kq_x :: rat
  kq_y :: rat
  kq_radius :: int
  kq_size :: int

definition keyword_request :: "utext \<Rightarrow> rat \<Rightarrow> rat \<Rightarrow> int \<Rightarrow> int \<Rightarrow> keyword_params" where
  "keyword_request q lat lon radius n = \<lparr>kq_query = q, kq_x = lon, kq_y = lat,
     kq_radius = max 0 (min radius MAX_KEYWORD_RADIUS_M), kq_size = max 1 (min n MAX_KEYWORD_SIZE)\<rparr>"

definition or_text :: "utext option \<Rightarrow> utext option" where
  "or_text u = (if u = Some [] then None else u)"

definition first_text :: "utext option list \<Rightarrow> utext" where
  "first_text us = (case filter (\<lambda>u. u \<noteq> None) (map or_text us) of Some u # _ \<Rightarrow> u | _ \<Rightarrow> [])"

definition kakao_place_of :: "kakao_doc \<Rightarrow> kakao_error + kakao_place" where
  "kakao_place_of d =
     (case (kd_id d, kd_name d, kd_y d, kd_x d, kd_distance d) of
        (Some i, Some n, Some y, Some x, ds) \<Rightarrow>
          if ds = Some None then Inl Kakao_unavailable
          else Inr \<lparr>kp_id = ''kakao:'' @ i, kp_name = n, kp_category = first_text [kd_category d],
                    kp_address = first_text [kd_road d, kd_address d], kp_lat = y, kp_lon = x,
                    kp_distance = (case ds of None \<Rightarrow> None | Some v \<Rightarrow> v)\<rparr>
      | _ \<Rightarrow> Inl Kakao_unavailable)"

text \<open>\<open>keyword\<close>: \<open>None\<close> is a refused call (the budget is used up).\<close>

definition keyword ::
  "(keyword_params \<Rightarrow> kakao_doc http_answer) \<Rightarrow> utext \<Rightarrow> rat \<Rightarrow> rat \<Rightarrow> int \<Rightarrow> int \<Rightarrow>
   (kakao_budget, kakao_error, kakao_place list option) sem" where
  "keyword get q lat lon radius n b =
     (if ustrip q = [] then (Inr (Some []), b)
      else case budget_take b of
             (False, b') \<Rightarrow> (Inr None, b')
           | (True, b') \<Rightarrow>
               (bindE (kakao_get (get (keyword_request q lat lon radius n))) (\<lambda>ds.
                bindE (mapE kakao_place_of ds) (\<lambda>ps. Inr (Some ps))), b'))"

text \<open>The first document of type B; a type B document without names is a broken answer.\<close>

fun first_region :: "region_doc list \<Rightarrow> kakao_error + (utext \<times> utext) option" where
  "first_region [] = Inr None"
| "first_region (d # ds) =
     (if rd_type d = Some ''B'' then
        (case (rd_sido d, rd_sigungu d) of (Some a, Some b) \<Rightarrow> Inr (Some (a, b)) | _ \<Rightarrow> Inl Kakao_unavailable)
      else first_region ds)"

definition kakao_region ::
  "(rat \<times> rat \<Rightarrow> region_doc http_answer) \<Rightarrow> rat \<Rightarrow> rat \<Rightarrow>
   (kakao_budget, kakao_error, (utext \<times> utext) option) sem" where
  "kakao_region get lat lon b =
     (case budget_take b of
        (False, b') \<Rightarrow> (Inr None, b')
      | (True, b') \<Rightarrow> (bindE (kakao_get (get (lon, lat))) first_region, b'))"

section \<open>The budget\<close>

definition within_budget :: "kakao_budget \<Rightarrow> bool" where
  "within_budget b \<longleftrightarrow> kb_used b \<le> kb_limit b"

lemma budget_take_within: "budget_take b = (ok, b') \<Longrightarrow> within_budget b \<Longrightarrow>
    within_budget b' \<and> kb_limit b' = kb_limit b \<and> kb_used b' = kb_used b + (if ok then 1 else 0)"
  by (auto simp: budget_take_def within_budget_def split: if_splits)

lemma keyword_budget:
  assumes "keyword get q lat lon r n b = (x, b')" "within_budget b"
  shows "within_budget b' \<and> kb_limit b' = kb_limit b \<and> kb_used b \<le> kb_used b' \<and> kb_used b' \<le> kb_used b + 1"
proof -
  obtain ok c where t: "budget_take b = (ok, c)" by (cases "budget_take b")
  have "b' = b \<or> b' = c" using assms(1) by (cases ok) (auto simp: keyword_def t split: if_splits)
  with budget_take_within[OF t assms(2)] assms(2) show ?thesis by (auto split: if_splits)
qed

lemma region_budget:
  assumes "kakao_region get lat lon b = (x, b')" "within_budget b"
  shows "within_budget b' \<and> kb_limit b' = kb_limit b \<and> kb_used b \<le> kb_used b' \<and> kb_used b' \<le> kb_used b + 1"
proof -
  obtain ok c where t: "budget_take b = (ok, c)" by (cases "budget_take b")
  have "b' = c" using assms(1) by (cases ok) (auto simp: kakao_region_def t)
  with budget_take_within[OF t assms(2)] show ?thesis by (auto split: if_splits)
qed

lemma keyword_request_bounds:
  "0 \<le> kq_radius (keyword_request q lat lon r n) \<and> kq_radius (keyword_request q lat lon r n) \<le> 20000 \<and>
   1 \<le> kq_size (keyword_request q lat lon r n) \<and> kq_size (keyword_request q lat lon r n) \<le> 15"
  by (simp add: keyword_request_def MAX_KEYWORD_RADIUS_M_def MAX_KEYWORD_SIZE_def)

end
