(* ===== verification/AgentTalk.thy ===== *)
theory AgentTalk
  imports AgentGraph Kakao
begin

text \<open>
  \<open>src/app/pipeline/agent/model.py\<close>: the conversation that leads to an answer.  \<open>session\<close> is
  \<open>Session\<close>: the call counters, the Kakao budget and cache, the trip's regions, and two records of
  what happened: the requests sent so far (\<open>ss_sent\<close>: message list and photo keys of each call) and the
  place searches the tools made with what they found (\<open>ss_searches\<close>).  \<open>talk\<close> is one conversation:
  its \<open>Tools\<close> object, messages and photo keys.  Message texts are not modelled: a message is its
  role, the number of photos in it and the ids of the tool calls it makes or answers.
  What the generation server, the photo resolver, the vector store, the place index and Kakao
  answer are fields of \<open>talk_env\<close>.  The model's arguments are JSON; \<open>Infinite\<close> and \<open>Not_a_number\<close>
  are the constants Python's decoder also accepts.
\<close>

section \<open>Arguments\<close>

datatype arg_value = Json json | Infinite | Not_a_number

record tool_call =
  tc_id :: string
  tc_name :: string
  tc_args :: "(string, arg_value) pydict option"

text \<open>\<open>_args\<close>: arguments that are no JSON object are empty.\<close>

definition args_of :: "tool_call \<Rightarrow> (string, arg_value) pydict" where
  "args_of c = (case tc_args c of Some a \<Rightarrow> a | None \<Rightarrow> [])"

text \<open>\<open>str(value or "")\<close>; \<open>repr\<close> writes what is no text, integer or truth value.\<close>

definition arg_text :: "(arg_value \<Rightarrow> utext) \<Rightarrow> arg_value option \<Rightarrow> utext" where
  "arg_text repr v =
     (case v of
        None \<Rightarrow> []
      | Some (Json j) \<Rightarrow>
          if \<not> truthy_json j then []
          else (case j of JStr u \<Rightarrow> u | JInt i \<Rightarrow> of_ascii (int_str i) | JBool b \<Rightarrow> of_ascii ''True''
                | _ \<Rightarrow> repr (Json j))
      | Some w \<Rightarrow> repr w)"

text \<open>\<open>int(value)\<close>: \<open>Inl True\<close> is the \<open>OverflowError\<close> of an infinite number, \<open>Inl False\<close> a
  \<open>TypeError\<close> or \<open>ValueError\<close>.\<close>

definition py_int :: "arg_value option \<Rightarrow> bool + int" where
  "py_int v =
     (case v of
        Some (Json (JInt i)) \<Rightarrow> Inr i
      | Some (Json (JBool b)) \<Rightarrow> Inr (if b then 1 else 0)
      | Some (Json (JNum r)) \<Rightarrow> Inr (if 0 \<le> r then \<lfloor>r\<rfloor> else - \<lfloor>- r\<rfloor>)
      | Some (Json (JStr u)) \<Rightarrow> (case uint_of u of Some i \<Rightarrow> Inr i | None \<Rightarrow> Inl False)
      | Some Infinite \<Rightarrow> Inl True
      | _ \<Rightarrow> Inl False)"

text \<open>\<open>_int\<close> catches the latter two only.\<close>

definition arg_int :: "arg_value option \<Rightarrow> int \<Rightarrow> int \<Rightarrow> int \<Rightarrow> pipeline_error + int" where
  "arg_int v deflt low high =
     (case py_int v of
        Inl True \<Rightarrow> Inl pipeline_error_default
      | Inl False \<Rightarrow> Inr (max low (min high deflt))
      | Inr i \<Rightarrow> Inr (max low (min high i)))"

definition arg_ref :: "(arg_value \<Rightarrow> utext) \<Rightarrow> arg_value option \<Rightarrow> string" where
  "arg_ref repr v = ref_of (id_text (ustrip (arg_text repr v)))"

definition arg_list :: "arg_value option \<Rightarrow> json list option" where
  "arg_list v = (case v of Some (Json (JArr xs)) \<Rightarrow> Some xs | _ \<Rightarrow> None)"

section \<open>State\<close>

text \<open>What a tool answers; the text the model reads is made from it.\<close>

datatype tool_output =
  No_photo
| No_place
| Images_used_up
| Attached "int list"
| Similar "(int \<times> string option \<times> rat) list"
| Empty_query
| Public_down
| Kakao_down
| Kakao_used_up
| Found "rat \<times> rat" "candidate list"
| Unknown_tool

datatype talk_message =
  System_msg
| User_msg nat
| Assistant_msg "string list"
| Tool_msg string tool_output

text \<open>A place search of a tool and what it found: in the public place index, asked of Kakao, or read
  from the job's Kakao results.\<close>

datatype place_search =
  Public_search utext "rat \<times> rat" int "candidate list"
| Kakao_asked utext "rat \<times> rat" int "kakao_place list"
| Kakao_reused utext "rat \<times> rat" int "kakao_place list"

type_synonym kakao_key = "utext \<times> rat \<times> rat \<times> int"

record session =
  ss_budget :: kakao_budget
  ss_cache :: "(kakao_key, kakao_place list) pydict"
  ss_regions :: "(string, (utext \<times> utext) option) pydict"
  ss_region_keys :: "(utext \<times> utext) list"
  ss_calls :: nat
  ss_retries :: nat
  ss_waits :: "rat list"
  ss_no_final :: nat
  ss_sent :: "(talk_message list \<times> string list) list"
  ss_searches :: "place_search list"

text \<open>\<open>Session(...)\<close>, with its budget of Kakao calls.\<close>

definition new_session :: "nat \<Rightarrow> session" where
  "new_session n = \<lparr>ss_budget = \<lparr>kb_limit = n, kb_used = 0\<rparr>, ss_cache = [], ss_regions = [], ss_region_keys = [],
     ss_calls = 0, ss_retries = 0, ss_waits = [], ss_no_final = 0, ss_sent = [], ss_searches = []\<rparr>"

record talk =
  tk_images :: nat
  tk_cands :: "(string, candidate) pydict"
  tk_keys :: "string list"
  tk_msgs :: "talk_message list"
  tk_session :: session

datatype chat_reply =
  Reply "tool_call list"
| Transient_failure
| Call_timeout
| Call_failure

record talk_env =
  te_trip :: trip_view
  te_retries :: int
  te_reply :: "nat \<Rightarrow> chat_reply"
  te_resolve :: "nat \<Rightarrow> string list \<Rightarrow> bool"
  te_search :: "photo \<Rightarrow> int list \<Rightarrow> nat \<Rightarrow> (int \<times> rat) list"
  te_public :: "utext \<Rightarrow> rat \<times> rat \<Rightarrow> int \<Rightarrow> candidate list option"
  te_keyword :: "keyword_params \<Rightarrow> kakao_doc http_answer"
  te_region :: "rat \<times> rat \<Rightarrow> region_doc http_answer"
  te_repr :: "arg_value \<Rightarrow> utext"

type_synonym 'a sessionm = "(session, pipeline_error, 'a) sem"
type_synonym 'a talkm = "(talk, pipeline_error, 'a) sem"

definition in_session :: "'a sessionm \<Rightarrow> 'a talkm" where
  "in_session m k = (case m (tk_session k) of (r, s) \<Rightarrow> (r, k\<lparr>tk_session := s\<rparr>))"

section \<open>One call, with its retries\<close>

definition RETRY_WAIT_SEC :: rat where
  "RETRY_WAIT_SEC = 5"

text \<open>\<open>Session.chat\<close>: \<open>left\<close> attempts are left, \<open>attempt\<close> is the number of the next one.\<close>

fun chat_attempts ::
  "talk_env \<Rightarrow> talk_message list \<Rightarrow> string list \<Rightarrow> nat \<Rightarrow> nat \<Rightarrow> tool_call list sessionm" where
  "chat_attempts E ms ks 0 attempt = failS pipeline_error_default"
| "chat_attempts E ms ks (Suc left) attempt =
     bindS (modS (\<lambda>s. if attempt = 0 then s
        else s\<lparr>ss_waits := ss_waits s @ [RETRY_WAIT_SEC * of_nat attempt], ss_retries := ss_retries s + 1\<rparr>)) (\<lambda>_.
     bindS (getS ss_calls) (\<lambda>n.
     if \<not> te_resolve E n ks then failS (PipelineFailure MODEL_NOT_READY)
     else bindS (modS (\<lambda>s. s\<lparr>ss_calls := n + 1, ss_sent := ss_sent s @ [(ms, ks)]\<rparr>)) (\<lambda>_.
       case te_reply E n of
         Reply calls \<Rightarrow> retS calls
       | Transient_failure \<Rightarrow>
           if left = 0 then failS (PipelineFailure MODEL_NOT_READY) else chat_attempts E ms ks left (attempt + 1)
       | Call_timeout \<Rightarrow>
           if left = 0 then failS (PipelineFailure TIMEOUT) else chat_attempts E ms ks left (attempt + 1)
       | Call_failure \<Rightarrow> failS (PipelineFailure MODEL_NOT_READY))))"

definition chat :: "talk_env \<Rightarrow> talk_message list \<Rightarrow> string list \<Rightarrow> tool_call list sessionm" where
  "chat E ms ks = chat_attempts E ms ks (nat (max 0 (te_retries E)) + 1) 0"

section \<open>Regions of the trip\<close>

definition region_key :: "utext \<times> utext \<Rightarrow> utext \<times> utext" where
  "region_key r = (ustrip (fst r), (case uwords (snd r) of [] \<Rightarrow> [] | w # _ \<Rightarrow> w))"

text \<open>\<open>_region\<close>: a failing lookup counts as an unknown region.\<close>

definition session_region :: "talk_env \<Rightarrow> rat \<Rightarrow> rat \<Rightarrow> (utext \<times> utext) option sessionm" where
  "session_region E lat lon s =
     (case kakao_region (te_region E) lat lon (ss_budget s) of
        (r, b) \<Rightarrow> (Inr (case r of Inr x \<Rightarrow> x | Inl _ \<Rightarrow> None), s\<lparr>ss_budget := b\<rparr>))"

fun load_regions :: "talk_env \<Rightarrow> (rat \<times> rat) list \<Rightarrow> unit sessionm" where
  "load_regions E [] = retS ()"
| "load_regions E ((lat, lon) # rs) =
     bindS (session_region E lat lon) (\<lambda>found.
     bindS (modS (\<lambda>s. case found of None \<Rightarrow> s
       | Some f \<Rightarrow> s\<lparr>ss_region_keys := (if region_key f \<in> set (ss_region_keys s) then ss_region_keys s
                                        else ss_region_keys s @ [region_key f])\<rparr>)) (\<lambda>_.
     load_regions E rs))"

definition in_region :: "talk_env \<Rightarrow> candidate \<Rightarrow> bool sessionm" where
  "in_region E c =
     bindS (getS (\<lambda>s. map_of (ss_regions s) (ca_id c))) (\<lambda>known.
     bindS (case known of Some f \<Rightarrow> retS f
            | None \<Rightarrow> bindS (session_region E (ca_lat c) (ca_lon c)) (\<lambda>f.
                bindS (modS (\<lambda>s. s\<lparr>ss_regions := dict_set (ca_id c) f (ss_regions s)\<rparr>)) (\<lambda>_. retS f))) (\<lambda>found.
     getS (\<lambda>s. case found of None \<Rightarrow> False | Some f \<Rightarrow> region_key f \<in> set (ss_region_keys s))))"

section \<open>Tools\<close>

definition MAX_IMAGES :: nat where
  "MAX_IMAGES = 30"

definition READ_LIMIT :: nat where
  "READ_LIMIT = 4"

type_synonym tool_result = "tool_output \<times> nat option \<times> string list"

text \<open>\<open>_read\<close>: at most four photos at once and thirty in one conversation.\<close>

definition tool_read :: "trip_view \<Rightarrow> string list \<Rightarrow> tool_result talkm" where
  "tool_read t refs =
     (let photos = take READ_LIMIT (concat (map (\<lambda>r. case by_ref t r of Some p \<Rightarrow> [p] | None \<Rightarrow> []) (dedup refs)))
      in if photos = [] then retS (No_photo, None, [])
         else bindS (getS tk_images) (\<lambda>used.
           if MAX_IMAGES \<le> used then retS (Images_used_up, None, [])
           else let shown = take (MAX_IMAGES - used) photos in
             bindS (modS (\<lambda>k. k\<lparr>tk_images := used + length shown\<rparr>)) (\<lambda>_.
             retS (Attached (map ph_id shown), Some (length shown), map (\<lambda>p. ps_key (ph_src p)) shown))))"

fun every :: "nat \<Rightarrow> nat \<Rightarrow> 'a list \<Rightarrow> 'a list" where
  "every step skip [] = []"
| "every step 0 (x # xs) = x # every step (step - 1) xs"
| "every step (Suc n) (x # xs) = every step n xs"

text \<open>\<open>similar\<close>: \<open>by_id\<close> raises when the store names a photo it was not asked about.\<close>

definition similar_photos :: "talk_env \<Rightarrow> photo \<Rightarrow> nat \<Rightarrow> pipeline_error + (photo \<times> rat) list" where
  "similar_photos E p k =
     (let ps = tv_photos (te_trip E);
          hits = filter (\<lambda>(i, s). i \<noteq> ph_id p) (te_search E p (map ph_id ps) (k + 1))
      in bindE (mapE (\<lambda>(i, s). case by_id ps i of Some q \<Rightarrow> Inr (q, s) | None \<Rightarrow> Inl pipeline_error_default) hits)
           (\<lambda>found. Inr (take k found)))"

definition round3 :: "rat \<Rightarrow> rat" where
  "round3 x = of_int (py_round (x * 1000)) / 1000"

definition round4 :: "rat \<Rightarrow> rat" where
  "round4 x = of_int (py_round (x * 10000)) / 10000"

definition kakao_candidate :: "kakao_place \<Rightarrow> candidate" where
  "kakao_candidate p = \<lparr>ca_id = kp_id p, ca_name = kp_name p, ca_lat = kp_lat p, ca_lon = kp_lon p\<rparr>"

definition add_candidates :: "candidate list \<Rightarrow> (string, candidate) pydict \<Rightarrow> (string, candidate) pydict" where
  "add_candidates cs d = fold (\<lambda>c. dict_set (ca_id c) c) cs d"

definition found_rows :: "rat \<times> rat \<Rightarrow> candidate list \<Rightarrow> tool_output talkm" where
  "found_rows center cs =
     bindS (modS (\<lambda>k. k\<lparr>tk_cands := add_candidates cs (tk_cands k)\<rparr>)) (\<lambda>_.
     retS (Found (round5 (fst center), round5 (snd center)) cs))"

definition note_search :: "place_search \<Rightarrow> unit sessionm" where
  "note_search e = modS (\<lambda>s. s\<lparr>ss_searches := ss_searches s @ [e]\<rparr>)"

definition kakao_search :: "talk_env \<Rightarrow> utext \<Rightarrow> rat \<times> rat \<Rightarrow> int \<Rightarrow> (kakao_error + kakao_place list option) sessionm" where
  "kakao_search E q c radius =
     (let key = (q, round4 (fst c), round4 (snd c), radius) in
      bindS (getS (\<lambda>s. map_of (ss_cache s) key)) (\<lambda>cached.
        case cached of
          Some ps \<Rightarrow> bindS (note_search (Kakao_reused q c radius ps)) (\<lambda>_. retS (Inr (Some ps)))
        | None \<Rightarrow> (\<lambda>s. case keyword (te_keyword E) q (fst c) (snd c) radius 10 (ss_budget s) of
            (r, b) \<Rightarrow> (Inr r, (case r of
               Inr (Some ps) \<Rightarrow> s\<lparr>ss_budget := b, ss_cache := dict_set key ps (ss_cache s),
                 ss_searches := ss_searches s @ [Kakao_asked q c radius ps]\<rparr>
             | _ \<Rightarrow> s\<lparr>ss_budget := b\<rparr>)))))"

definition tool_search :: "talk_env \<Rightarrow> bool \<Rightarrow> (string, arg_value) pydict \<Rightarrow> tool_output talkm" where
  "tool_search E public a =
     (let q = ustrip (arg_text (te_repr E) (map_of a ''query''));
          nr = (case map_of a ''near'' of Some (Json (JStr u)) \<Rightarrow> id_text (ustrip u) | _ \<Rightarrow> []);
          c = anchor_of (te_trip E) nr
      in if q = [] then retS Empty_query
         else if public then
           bindS (liftS (arg_int (map_of a ''radius_m'') 2000 100 30000)) (\<lambda>radius.
             case te_public E q c radius of
               None \<Rightarrow> retS Public_down
             | Some cs \<Rightarrow> bindS (in_session (note_search (Public_search q c radius cs))) (\<lambda>_. found_rows c cs))
         else
           bindS (liftS (arg_int (map_of a ''radius_m'') 2000 100 20000)) (\<lambda>radius.
           bindS (in_session (kakao_search E q c radius)) (\<lambda>r.
             case r of
               Inl _ \<Rightarrow> retS Kakao_down
             | Inr None \<Rightarrow> retS Kakao_used_up
             | Inr (Some ps) \<Rightarrow> found_rows c (map kakao_candidate ps))))"

definition tool_run :: "talk_env \<Rightarrow> string \<Rightarrow> (string, arg_value) pydict \<Rightarrow> tool_result talkm" where
  "tool_run E nm a =
     (let t = te_trip E in
      if nm = ''read_photo'' then
        tool_read t (case arg_list (map_of a ''photo_ids'') of
          Some rs \<Rightarrow> map (\<lambda>r. arg_ref (te_repr E) (Some (Json r))) rs | None \<Rightarrow> [])
      else if nm = ''read_place_photos'' then
        let ms = members_of t (canon t (id_text (ustrip (arg_text (te_repr E) (map_of a ''place_id''))))) in
        if ms = [] then retS (No_place, None, [])
        else bindS (liftS (arg_int (map_of a ''n'') 2 1 (int READ_LIMIT))) (\<lambda>n.
          tool_read t (map photo_ref (take (nat n) (every (max 1 (length ms div nat n)) 0 ms))))
      else if nm = ''find_similar'' then
        (case by_ref t (arg_ref (te_repr E) (map_of a ''photo_id'')) of
           None \<Rightarrow> retS (No_photo, None, [])
         | Some p \<Rightarrow>
             bindS (liftS (arg_int (map_of a ''k'') 6 1 10)) (\<lambda>k.
             bindS (liftS (similar_photos E p (nat k))) (\<lambda>hits.
             retS (Similar (map (\<lambda>(q, s). (ph_id q, place_of t q, round3 s)) hits), None, []))))
      else if nm = ''search_public_places'' \<or> nm = ''kakao_keyword_search'' then
        bindS (tool_search E (nm = ''search_public_places'') a) (\<lambda>out. retS (out, None, []))
      else retS (Unknown_tool, None, []))"

section \<open>The conversation\<close>

definition push :: "talk_message \<Rightarrow> unit talkm" where
  "push m = modS (\<lambda>k. k\<lparr>tk_msgs := tk_msgs k @ [m]\<rparr>)"

text \<open>The tool calls of one turn: a call of the final tool ends the conversation at once; photos
  are attached after the answers of all the calls.\<close>

fun run_calls :: "talk_env \<Rightarrow> string \<Rightarrow> tool_call list \<Rightarrow> nat list \<Rightarrow> (string, arg_value) pydict option talkm" where
  "run_calls E final [] extra = bindS (modS (\<lambda>k. k\<lparr>tk_msgs := tk_msgs k @ map User_msg extra\<rparr>)) (\<lambda>_. retS None)"
| "run_calls E final (c # cs) extra =
     (if tc_name c = final then retS (Some (args_of c))
      else bindS (tool_run E (tc_name c) (args_of c)) (\<lambda>(out, img, ks).
        bindS (push (Tool_msg (tc_id c) out)) (\<lambda>_.
        bindS (modS (\<lambda>k. k\<lparr>tk_keys := tk_keys k @ (if img = None then [] else ks)\<rparr>)) (\<lambda>_.
        run_calls E final cs (extra @ (case img of Some n \<Rightarrow> [n] | None \<Rightarrow> []))))))"

text \<open>\<open>episode\<close>: \<open>left\<close> turns are left.\<close>

fun episode_loop :: "talk_env \<Rightarrow> string \<Rightarrow> nat \<Rightarrow> (string, arg_value) pydict option talkm" where
  "episode_loop E final 0 = bindS (in_session (modS (\<lambda>s. s\<lparr>ss_no_final := ss_no_final s + 1\<rparr>))) (\<lambda>_. retS None)"
| "episode_loop E final (Suc left) =
     bindS (getS (\<lambda>k. (tk_msgs k, tk_keys k))) (\<lambda>(ms, ks).
     bindS (in_session (chat E ms ks)) (\<lambda>calls.
     bindS (push (Assistant_msg (map tc_id calls))) (\<lambda>_.
     if calls = [] then bindS (push (User_msg 0)) (\<lambda>_. episode_loop E final left)
     else bindS (run_calls E final calls []) (\<lambda>r.
       case r of
         Some a \<Rightarrow> retS (Some a)
       | None \<Rightarrow> bindS (if left = 1 then push (User_msg 0) else retS ()) (\<lambda>_. episode_loop E final left)))))"

definition start_talk :: "string list \<Rightarrow> session \<Rightarrow> talk" where
  "start_talk ks s = \<lparr>tk_images = length ks, tk_cands = [], tk_keys = ks,
     tk_msgs = [System_msg, User_msg (length ks)], tk_session = s\<rparr>"

definition episode ::
  "talk_env \<Rightarrow> string \<Rightarrow> nat \<Rightarrow> string list \<Rightarrow>
   ((string, arg_value) pydict option \<times> (string, candidate) pydict) sessionm" where
  "episode E final max_calls ks s =
     (case episode_loop E final max_calls (start_talk ks s) of
        (Inl e, k) \<Rightarrow> (Inl e, tk_session k)
      | (Inr r, k) \<Rightarrow> (Inr (r, tk_cands k), tk_session k))"

end
