(* ===== verification/AgentModel.thy ===== *)
theory AgentModel
  imports AgentTalk
begin

text \<open>
  \<open>src/app/pipeline/agent/model.py\<close>: the three questions put to the model, \<open>estimate\<close>,
  \<open>aggregate\<close> and \<open>merge\<close>: the photos shown first, the conversation, and the reading of the final
  arguments, which the checks of theory \<open>AgentGraph\<close> turn into proposals, accepted proposals and groups.
\<close>

definition MAX_CALLS :: nat where
  "MAX_CALLS = 12"

definition MAX_MERGE_CALLS :: nat where
  "MAX_MERGE_CALLS = 24"

definition opt_list :: "'a option \<Rightarrow> 'a list" where
  "opt_list x = (case x of Some y \<Rightarrow> [y] | None \<Rightarrow> [])"

text \<open>The photos of the first message: the target, its neighbours in time, then the best of each
  place while there is room.\<close>

definition estimate_photos :: "trip_view \<Rightarrow> photo \<Rightarrow> photo list" where
  "estimate_photos t p =
     (let (earlier, later) = neighbors t p;
          fixed = p # opt_list earlier @ opt_list later
      in fixed @ take (MAX_IMAGES - length fixed) (map (\<lambda>(pl, s, q). q) (best_per_place t p)))"

definition photo_keys :: "photo list \<Rightarrow> string list" where
  "photo_keys ps = map (\<lambda>p. ps_key (ph_src p)) ps"

definition arg_str :: "arg_value option \<Rightarrow> string option" where
  "arg_str v = (case v of Some (Json (JStr u)) \<Rightarrow> Some (id_text u) | _ \<Rightarrow> None)"

definition decide_of :: "(arg_value \<Rightarrow> utext) \<Rightarrow> (string, arg_value) pydict \<Rightarrow> decide_answer" where
  "decide_of repr a =
     \<lparr>da_decision = arg_str (map_of a ''decision''), da_confidence = arg_str (map_of a ''confidence''),
      da_place = id_text (ustrip (arg_text repr (map_of a ''place_id''))),
      da_candidate = id_text (ustrip (arg_text repr (map_of a ''candidate_id''))),
      da_name = arg_text repr (map_of a ''new_place_name'')\<rparr>"

text \<open>The region of a new place is only asked for when the answer is confident.\<close>

definition confident_new :: "decide_answer option \<Rightarrow> (string, candidate) pydict \<Rightarrow> candidate option" where
  "confident_new final cs =
     (case final of
        None \<Rightarrow> None
      | Some f \<Rightarrow> if da_decision f = Some ''new'' \<and> confidence_of (da_confidence f) = High
                  then map_of cs (da_candidate f) else None)"

definition estimate :: "talk_env \<Rightarrow> photo \<Rightarrow> proposal sessionm" where
  "estimate E p =
     bindS (episode E ''decide'' MAX_CALLS (photo_keys (estimate_photos (te_trip E) p))) (\<lambda>(a, cs).
     let final = map_option (decide_of (te_repr E)) a in
     bindS (case confident_new final cs of Some c \<Rightarrow> in_region E c | None \<Rightarrow> retS False) (\<lambda>ok.
     retS (estimate_proposal (te_trip E) (\<lambda>c. ok) (ph_id p) final cs)))"

text \<open>What \<open>aggregate\<close> points out: nearly equal photos proposed for different places, and new
  places proposed for several photos.\<close>

definition proposal_target :: "proposal \<Rightarrow> string option" where
  "proposal_target p = (case pp_place p of
     Some (x # xs) \<Rightarrow> Some (x # xs)
   | _ \<Rightarrow> (case pp_new p of Some c \<Rightarrow> Some (ca_id c) | None \<Rightarrow> None))"

definition conflicting :: "trip_view \<Rightarrow> rat \<Rightarrow> proposal \<times> proposal \<Rightarrow> bool" where
  "conflicting t min_sim ab =
     (let (a, b) = ab in case (by_id (tv_photos t) (pp_photo a), by_id (tv_photos t) (pp_photo b)) of
        (Some p, Some q) \<Rightarrow> min_sim \<le> sim p q \<and> proposal_target a \<noteq> proposal_target b
      | _ \<Rightarrow> False)"

definition conflicts :: "trip_view \<Rightarrow> rat \<Rightarrow> proposal list \<Rightarrow> (int \<times> int) list" where
  "conflicts t min_sim high =
     map (\<lambda>(a, b). (pp_photo a, pp_photo b)) (filter (conflicting t min_sim) (pairs_of high))"

definition new_groups :: "(utext \<Rightarrow> string) \<Rightarrow> proposal list \<Rightarrow> (string, int list) pydict" where
  "new_groups norm_text high =
     fold (\<lambda>p d. case pp_new p of Some c \<Rightarrow> dict_append (new_key norm_text c) (pp_photo p) d | None \<Rightarrow> d)
       (filter (\<lambda>p. pp_decision p = Some New_place) high) []"

definition ref_list :: "(arg_value \<Rightarrow> utext) \<Rightarrow> arg_value option \<Rightarrow> string list option" where
  "ref_list repr v = map_option (map (\<lambda>r. arg_ref repr (Some (Json r)))) (arg_list v)"

definition aggregate :: "talk_env \<Rightarrow> proposal list \<Rightarrow> proposal list sessionm" where
  "aggregate E ps =
     (let high = high_proposals ps in
      if high = [] then retS []
      else bindS (episode E ''finalize'' MAX_CALLS []) (\<lambda>(a, cs).
        retS (accepted_proposals high
          (case a of None \<Rightarrow> None | Some r \<Rightarrow> ref_list (te_repr E) (map_of r ''accept'')))))"

text \<open>\<open>str(value)\<close>.\<close>

definition py_str :: "(arg_value \<Rightarrow> utext) \<Rightarrow> json \<Rightarrow> utext" where
  "py_str repr j =
     (case j of JStr u \<Rightarrow> u | JInt i \<Rightarrow> of_ascii (int_str i) | JBool b \<Rightarrow> of_ascii (if b then ''True'' else ''False'')
      | JNull \<Rightarrow> of_ascii ''None'' | _ \<Rightarrow> repr (Json j))"

text \<open>A group of the answer: confidence and place ids; what is no group is left out.\<close>

definition group_of :: "(arg_value \<Rightarrow> utext) \<Rightarrow> json \<Rightarrow> (string \<times> string list) list" where
  "group_of repr g =
     (case g of
        JObj kvs \<Rightarrow>
          (case (map_of kvs ''confidence'', map_of kvs ''place_ids'') of
             (Some (JStr c), Some (JArr xs)) \<Rightarrow>
               [(id_text c, map (\<lambda>x. id_text (ustrip (py_str repr x))) xs)]
           | _ \<Rightarrow> [])
      | _ \<Rightarrow> [])"

definition merge :: "talk_env \<Rightarrow> string list list sessionm" where
  "merge E =
     bindS (episode E ''merge'' MAX_MERGE_CALLS []) (\<lambda>(a, cs).
     retS (merge_groups (te_trip E)
       (case a of None \<Rightarrow> []
        | Some r \<Rightarrow> (case arg_list (map_of r ''groups'') of
            None \<Rightarrow> [] | Some gs \<Rightarrow> concat (map (group_of (te_repr E)) gs)))))"

section \<open>The agent with its conversations\<close>

text \<open>The calls of the agent's graph (theory \<open>AgentGraph\<close>) are these conversations: \<open>S\<close> gives the session each
  of them starts from, \<open>A\<close> the rest of the graph's environment (time, text normalisation, regions).\<close>

record agent_sessions =
  as_regions :: session
  as_decide :: "nat \<Rightarrow> photo \<Rightarrow> session"
  as_finalize :: "nat \<Rightarrow> session"
  as_merge :: session

definition decide_talk :: "talk_env \<Rightarrow> photo \<Rightarrow> session \<Rightarrow> pipeline_error + (decide_answer option \<times> (string, candidate) pydict)" where
  "decide_talk E p s =
     bindE (fst (episode E ''decide'' MAX_CALLS (photo_keys (estimate_photos (te_trip E) p)) s)) (\<lambda>(a, cs).
       Inr (map_option (decide_of (te_repr E)) a, cs))"

definition finalize_talk :: "talk_env \<Rightarrow> session \<Rightarrow> pipeline_error + string list option" where
  "finalize_talk E s =
     bindE (fst (episode E ''finalize'' MAX_CALLS [] s)) (\<lambda>(a, cs).
       Inr (case a of None \<Rightarrow> None | Some r \<Rightarrow> ref_list (te_repr E) (map_of r ''accept'')))"

definition merge_talk :: "talk_env \<Rightarrow> session \<Rightarrow> pipeline_error + (string \<times> string list) list" where
  "merge_talk E s =
     bindE (fst (episode E ''merge'' MAX_MERGE_CALLS [] s)) (\<lambda>(a, cs).
       Inr (case a of None \<Rightarrow> []
        | Some r \<Rightarrow> (case arg_list (map_of r ''groups'') of
            None \<Rightarrow> [] | Some gs \<Rightarrow> concat (map (group_of (te_repr E)) gs))))"

definition talking_agent :: "talk_env \<Rightarrow> agent_sessions \<Rightarrow> process_request \<Rightarrow> agent_env \<Rightarrow> agent_env" where
  "talking_agent E S rq A = A\<lparr>
     ge_regions := fst (load_regions E (rq_regions rq) (as_regions S)),
     ge_decide := (\<lambda>n t p. decide_talk (E\<lparr>te_trip := t\<rparr>) p (as_decide S n p)),
     ge_finalize := (\<lambda>n t ps. finalize_talk (E\<lparr>te_trip := t\<rparr>) (as_finalize S n)),
     ge_merge := (\<lambda>t. merge_talk (E\<lparr>te_trip := t\<rparr>) (as_merge S))\<rparr>"

section \<open>The conversations of a job\<close>

text \<open>The sessions of a job, with the environments its conversations had, latest first: the trip changes
  from conversation to conversation, and so may what the services answer.  The conversations of one round
  run at the same time in the code; here they follow each other in any order.\<close>

inductive job_session :: "talk_env list \<Rightarrow> session \<Rightarrow> bool" where
  js_new: "job_session [] (new_session n)"
| js_regions: "job_session Es s \<Longrightarrow> job_session (E # Es) (snd (load_regions E rs s))"
| js_estimate: "job_session Es s \<Longrightarrow> job_session (E # Es) (snd (estimate E p s))"
| js_aggregate: "job_session Es s \<Longrightarrow> job_session (E # Es) (snd (aggregate E ps s))"
| js_merge: "job_session Es s \<Longrightarrow> job_session (E # Es) (snd (merge E s))"

end
