(* ===== verification/TalkLemmas.thy ===== *)
theory TalkLemmas
  imports AgentModel
begin

text \<open>
  Every request of a conversation is well formed, their number is bounded, and candidates only
  come from the searches.
\<close>

section \<open>Well-formed requests\<close>

fun photos_in :: "talk_message list \<Rightarrow> nat" where
  "photos_in [] = 0"
| "photos_in (User_msg n # ms) = n + photos_in ms"
| "photos_in (m # ms) = photos_in ms"

text \<open>The tool calls still to be found_answer; \<open>None\<close> when an answer is missing or misplaced.\<close>

fun unanswered :: "string list \<Rightarrow> talk_message list \<Rightarrow> string list option" where
  "unanswered ids [] = Some ids"
| "unanswered [] (Assistant_msg is # ms) = unanswered is ms"
| "unanswered [] (Tool_msg j w # ms) = None"
| "unanswered [] (User_msg n # ms) = unanswered [] ms"
| "unanswered [] (System_msg # ms) = unanswered [] ms"
| "unanswered (i # is) (Tool_msg j w # ms) = (if i = j then unanswered is ms else None)"
| "unanswered (i # is) (m # ms) = None"

definition request_ok :: "talk_message list \<times> string list \<Rightarrow> bool" where
  "request_ok q \<longleftrightarrow> fst q \<noteq> [] \<and> photos_in (fst q) = length (snd q) \<and> length (snd q) \<le> MAX_IMAGES \<and>
     unanswered [] (fst q) = Some []"

definition sent_ok :: "session \<Rightarrow> bool" where
  "sent_ok s \<longleftrightarrow> list_all request_ok (ss_sent s)"

lemma photos_in_append [simp]: "photos_in (a @ b) = photos_in a + photos_in b"
  by (induction a rule: photos_in.induct) simp_all

lemma photos_in_users [simp]: "photos_in (map User_msg ns) = sum_list ns"
  by (induction ns) simp_all

lemma unanswered_append:
  "unanswered is a = Some js \<Longrightarrow> unanswered is (a @ b) = unanswered js b"
  by (induction "is" a rule: unanswered.induct) (auto split: if_splits)

lemma unanswered_users [simp]: "unanswered [] (map User_msg ns) = Some []"
  by (induction ns) simp_all

section \<open>Calls\<close>

lemma chat_attempts_sent:
  assumes "chat_attempts E ms ks left attempt s = (r, s')" "sent_ok s" "request_ok (ms, ks)"
  shows "sent_ok s' \<and> length (ss_sent s') \<le> length (ss_sent s) + left \<and> ss_cache s' = ss_cache s"
  using assms
proof (induction left arbitrary: attempt s)
  case 0
  then show ?case by (auto simp: failS_def)
next
  case (Suc left)
  define s1 where "s1 = (if attempt = 0 then s
        else s\<lparr>ss_waits := ss_waits s @ [RETRY_WAIT_SEC * of_nat attempt], ss_retries := ss_retries s + 1\<rparr>)"
  define s2 where "s2 = s1\<lparr>ss_calls := ss_calls s1 + 1, ss_sent := ss_sent s1 @ [(ms, ks)]\<rparr>"
  have s1: "sent_ok s1" "ss_sent s1 = ss_sent s" "ss_cache s1 = ss_cache s"
    using Suc.prems(2) by (simp_all add: sent_ok_def s1_def)
  have s2: "sent_ok s2" "length (ss_sent s2) = length (ss_sent s) + 1" "ss_cache s2 = ss_cache s"
    using s1 Suc.prems(3) by (simp_all add: sent_ok_def s2_def)
  have m: "modS (\<lambda>s. if attempt = 0 then s
        else s\<lparr>ss_waits := ss_waits s @ [RETRY_WAIT_SEC * of_nat attempt], ss_retries := ss_retries s + 1\<rparr>) s = (Inr (), s1)"
    by (simp add: s1_def)
  have "s' = s1 \<or> s' = s2 \<or> chat_attempts E ms ks left (attempt + 1) s2 = (r, s')"
    using Suc.prems(1) unfolding chat_attempts.simps bindS_def m
    by (auto simp: modS_def getS_def failS_def retS_def s2_def split: if_splits chat_reply.splits)
  then show ?case
  proof (elim disjE)
    assume c: "chat_attempts E ms ks left (attempt + 1) s2 = (r, s')"
    from Suc.IH[OF c s2(1) Suc.prems(3)] s2 show ?thesis by simp
  qed (use s1 s2 in simp_all)
qed

definition max_attempts :: "talk_env \<Rightarrow> nat" where
  "max_attempts E = nat (max 0 (te_retries E)) + 1"

lemma chat_sent:
  assumes "chat E ms ks s = (r, s')" "sent_ok s" "request_ok (ms, ks)"
  shows "sent_ok s' \<and> length (ss_sent s') \<le> length (ss_sent s) + max_attempts E \<and> ss_cache s' = ss_cache s"
  using chat_attempts_sent assms unfolding chat_def max_attempts_def by blast

section \<open>Tools\<close>

text \<open>Tools leave the messages, the photo keys and the log of requests alone; they count the photos
  they attach.\<close>

definition tool_kept :: "talk \<Rightarrow> talk \<Rightarrow> bool" where
  "tool_kept k k' \<longleftrightarrow> tk_msgs k' = tk_msgs k \<and> tk_keys k' = tk_keys k \<and>
     ss_sent (tk_session k') = ss_sent (tk_session k)"

lemma tool_read_photos:
  assumes "tool_read t refs k = (r, k')" "tk_images k \<le> MAX_IMAGES"
  shows "tool_kept k k' \<and> tk_images k' \<le> MAX_IMAGES \<and> tk_session k' = tk_session k \<and> tk_cands k' = tk_cands k \<and>
    (case r of Inl e \<Rightarrow> False | Inr (out, img, ks) \<Rightarrow> tk_images k' = tk_images k + length ks \<and>
       length ks \<le> READ_LIMIT \<and> img = (if ks = [] then None else Some (length ks)))"
proof -
  define ps where "ps = take READ_LIMIT (concat (map (\<lambda>r. case by_ref t r of Some p \<Rightarrow> [p] | None \<Rightarrow> []) (dedup refs)))"
  have "length ps \<le> READ_LIMIT" by (simp add: ps_def)
  moreover have "take (MAX_IMAGES - tk_images k) ps \<noteq> []" if "ps \<noteq> []" "\<not> MAX_IMAGES \<le> tk_images k"
    using that by simp
  ultimately show ?thesis
    using assms unfolding tool_read_def Let_def ps_def[symmetric]
    by (auto simp: bindS_def getS_def retS_def modS_def tool_kept_def min_def split: if_splits)
qed

lemma in_session_kept:
  assumes "in_session m k = (r, k')" shows "\<exists>s'. m (tk_session k) = (r, s') \<and> k' = k\<lparr>tk_session := s'\<rparr>"
  using assms by (auto simp: in_session_def split: prod.splits)

lemma note_in_session: "in_session (note_search e) k =
    (Inr (), k\<lparr>tk_session := (tk_session k)\<lparr>ss_searches := ss_searches (tk_session k) @ [e]\<rparr>\<rparr>)"
  by (simp add: in_session_def note_search_def modS_def)

lemma kakao_search_sent: "kakao_search E q c radius s = (r, s') \<Longrightarrow> ss_sent s' = ss_sent s"
  by (auto simp: kakao_search_def note_search_def modS_def Let_def bindS_def getS_def retS_def
      split: option.splits prod.splits sum.splits)

lemma found_rows_kept: "found_rows c cs k = (r, k') \<Longrightarrow> tool_kept k k' \<and> tk_images k' = tk_images k"
  by (auto simp: found_rows_def bindS_def modS_def retS_def tool_kept_def)

lemma tool_search_kept:
  assumes "tool_search E public a k = (r, k')"
  shows "tool_kept k k' \<and> tk_images k' = tk_images k"
  using assms
  by (auto simp: tool_search_def Let_def bindS_def liftS_def retS_def note_in_session tool_kept_def
      dest!: found_rows_kept in_session_kept kakao_search_sent
      split: if_splits prod.splits sum.splits option.splits)

lemma tool_run_kept:
  assumes "tool_run E nm a k = (r, k')" "tk_images k \<le> MAX_IMAGES"
  shows "tool_kept k k' \<and> tk_images k' \<le> MAX_IMAGES \<and>
    (case r of Inl e \<Rightarrow> True | Inr (out, img, ks) \<Rightarrow> tk_images k' = tk_images k + length ks \<and>
       img = (if ks = [] then None else Some (length ks)))"
proof -
  have rd: ?thesis if "tool_read t refs k = (r, k')" for t refs
    using tool_read_photos[OF that assms(2)] by (auto split: sum.splits)
  have stay: ?thesis if "k' = k" "case r of Inl e \<Rightarrow> True | Inr (out, img, ks) \<Rightarrow> ks = [] \<and> img = None"
    using that assms(2) by (auto simp: tool_kept_def split: sum.splits)
  have se: ?thesis if "tool_search E b a k = (r0, k')" "case r of Inl e \<Rightarrow> True | Inr (out, img, ks) \<Rightarrow> ks = [] \<and> img = None" for b r0
      proof -
    from tool_search_kept[OF that(1)] have k: "tool_kept k k'" "tk_images k' = tk_images k" by blast+
    show ?thesis
    proof (cases r)
      case (Inl e)
      with k assms(2) show ?thesis by simp
    next
      case (Inr x)
      with k assms(2) that(2) show ?thesis by (cases x) simp
    qed
  qed
  consider "nm = ''read_photo''" | "nm = ''read_place_photos''" | "nm = ''find_similar''"
    | "nm = ''search_public_places'' \<or> nm = ''kakao_keyword_search''"
    | "nm \<notin> {''read_photo'', ''read_place_photos'', ''find_similar'', ''search_public_places'', ''kakao_keyword_search''}"
    unfolding insert_iff empty_iff by argo
  then show ?thesis
  proof cases
    case 1
    show ?thesis by (rule rd) (use assms(1) in \<open>simp add: tool_run_def Let_def 1\<close>)
  next
    case 2
    let ?ms = "members_of (te_trip E) (canon (te_trip E) (id_text (ustrip (arg_text (te_repr E) (map_of a ''place_id'')))))"
    have un: "tool_run E nm a k = (if ?ms = [] then retS (No_place, None, [])
        else bindS (liftS (arg_int (map_of a ''n'') 2 1 (int READ_LIMIT))) (\<lambda>n.
          tool_read (te_trip E) (map photo_ref (take (nat n) (every (max 1 (length ?ms div nat n)) 0 ?ms))))) k"
      by (simp add: tool_run_def Let_def 2)
    show ?thesis
    proof (cases "?ms = []")
      case True
      show ?thesis by (rule stay) (use assms(1) un True in \<open>auto simp: retS_def split: sum.split\<close>)
    next
      case False
      show ?thesis
      proof (cases "arg_int (map_of a ''n'') 2 1 (int READ_LIMIT)")
        case (Inl e)
        show ?thesis by (rule stay) (use assms(1) un False Inl in \<open>auto simp: bindS_def liftS_def\<close>)
      next
        case (Inr n)
        show ?thesis by (rule rd) (use assms(1) un False Inr in \<open>simp add: bindS_def liftS_def\<close>)
      qed
    qed
  next
    case 3
    have "k' = k \<and> (case r of Inl e \<Rightarrow> True | Inr (out, img, ks) \<Rightarrow> ks = [] \<and> img = None)"
      using assms(1) by (auto simp: tool_run_def Let_def bindS_def liftS_def retS_def 3
          split: if_splits sum.splits option.splits)
    then show ?thesis using stay by blast
  next
    case 4
    obtain r0 k0 where s: "tool_search E (nm = ''search_public_places'') a k = (r0, k0)"
      by (cases "tool_search E (nm = ''search_public_places'') a k")
    have "tool_run E nm a k = bindS (tool_search E (nm = ''search_public_places'') a) (\<lambda>out. retS (out, None, [])) k"
      using 4 by (auto simp: tool_run_def Let_def)
    then have r: "k' = k0" "case r of Inl e \<Rightarrow> True | Inr (out, img, ks) \<Rightarrow> ks = [] \<and> img = None"
      using assms(1) s by (auto simp: bindS_def retS_def split: sum.splits)
    show ?thesis by (rule se[OF s[folded r(1)] r(2)])
  next
    case 5
    show ?thesis by (rule stay) (use assms(1) 5 in \<open>auto simp: tool_run_def Let_def retS_def\<close>)
  qed
qed

section \<open>The conversation\<close>

text \<open>\<open>talk_ok is n k\<close>: the photos of the messages, and \<open>n\<close> more to attach, are the photo keys; the
  tool calls \<open>is\<close> of the last turn are still to be found_answer.\<close>

definition talk_ok :: "string list \<Rightarrow> nat \<Rightarrow> talk \<Rightarrow> bool" where
  "talk_ok is n k \<longleftrightarrow> tk_msgs k \<noteq> [] \<and> photos_in (tk_msgs k) + n = length (tk_keys k) \<and> tk_images k = length (tk_keys k) \<and>
     length (tk_keys k) \<le> MAX_IMAGES \<and> unanswered [] (tk_msgs k) = Some is \<and> sent_ok (tk_session k)"

lemma talk_ok_request: "talk_ok [] 0 k \<Longrightarrow> request_ok (tk_msgs k, tk_keys k)"
  by (simp add: talk_ok_def request_ok_def)

lemma talk_ok_user: "talk_ok [] 0 k \<Longrightarrow> talk_ok [] 0 (k\<lparr>tk_msgs := tk_msgs k @ [User_msg 0]\<rparr>)"
  by (simp add: talk_ok_def unanswered_append)

lemma talk_ok_turn: "talk_ok [] 0 k \<Longrightarrow> talk_ok is 0 (k\<lparr>tk_msgs := tk_msgs k @ [Assistant_msg is]\<rparr>)"
  by (simp add: talk_ok_def unanswered_append)

lemma talk_ok_attach:
  "talk_ok [] (sum_list extra) k \<Longrightarrow> talk_ok [] 0 (k\<lparr>tk_msgs := tk_msgs k @ map User_msg extra\<rparr>)"
  by (simp add: talk_ok_def unanswered_append)

lemma tool_step_ok:
  assumes run: "tool_run E nm a k = (Inr (out, img, ks), k1)"
    and ok: "talk_ok (i # is) n k"
  shows "talk_ok is (n + (case img of Some m \<Rightarrow> m | None \<Rightarrow> 0))
    (k1\<lparr>tk_msgs := tk_msgs k1 @ [Tool_msg i out], tk_keys := tk_keys k1 @ (if img = None then [] else ks)\<rparr>)"
proof -
  from ok have le: "tk_images k \<le> MAX_IMAGES" by (simp add: talk_ok_def)
  from tool_run_kept[OF run le] have k: "tool_kept k k1" "tk_images k1 \<le> MAX_IMAGES"
    "tk_images k1 = tk_images k + length ks" "img = (if ks = [] then None else Some (length ks))" by simp_all
  with ok show ?thesis by (auto simp: talk_ok_def tool_kept_def unanswered_append sent_ok_def)
qed

lemma run_calls_ok:
  assumes "run_calls E final cs extra k = (r, k')" "talk_ok (map tc_id cs) (sum_list extra) k"
  shows "ss_sent (tk_session k') = ss_sent (tk_session k) \<and> (r = Inr None \<longrightarrow> talk_ok [] 0 k')"
  using assms
proof (induction cs arbitrary: extra k)
  case Nil
  with talk_ok_attach show ?case by (auto simp: bindS_def modS_def retS_def)
next
  case (Cons c cs)
  have le: "tk_images k \<le> MAX_IMAGES" using Cons.prems(2) by (simp add: talk_ok_def)
  show ?case
  proof (cases "tc_name c = final")
    case True
    with Cons.prems show ?thesis by (auto simp: retS_def)
  next
    case False
    obtain x k1 where t: "tool_run E (tc_name c) (args_of c) k = (x, k1)"
      by (cases "tool_run E (tc_name c) (args_of c) k")
    from tool_run_kept[OF t le] have sent: "ss_sent (tk_session k1) = ss_sent (tk_session k)"
      by (simp add: tool_kept_def)
    show ?thesis
    proof (cases x)
      case (Inl e)
      with Cons.prems(1) False t sent show ?thesis by (auto simp: bindS_def)
    next
      case (Inr y)
      obtain out img ks where y: "y = (out, img, ks)" by (cases y)
      define k2 where "k2 = k1\<lparr>tk_msgs := tk_msgs k1 @ [Tool_msg (tc_id c) out],
        tk_keys := tk_keys k1 @ (if img = None then [] else ks)\<rparr>"
      let ?ex = "extra @ (case img of Some n \<Rightarrow> [n] | None \<Rightarrow> [])"
      have "run_calls E final cs ?ex k2 = (r, k')"
        using Cons.prems(1) False t by (simp add: bindS_def push_def modS_def Inr y k2_def)
      moreover have "talk_ok (map tc_id cs) (sum_list ?ex) k2"
        using tool_step_ok[OF t[unfolded Inr y], of "tc_id c" "map tc_id cs" "sum_list extra"] Cons.prems(2)
        by (cases img) (simp_all add: k2_def)
      ultimately show ?thesis using Cons.IH sent by (auto simp: k2_def)
    qed
  qed
qed

lemma episode_loop_ok:
  assumes "episode_loop E final n k = (r, k')" "talk_ok [] 0 k"
  shows "sent_ok (tk_session k') \<and>
    length (ss_sent (tk_session k')) \<le> length (ss_sent (tk_session k)) + n * max_attempts E"
  using assms
proof (induction n arbitrary: k)
  case 0
  then show ?case by (auto simp: bindS_def in_session_def modS_def retS_def talk_ok_def sent_ok_def)
next
  case (Suc n)
  have so: "sent_ok (tk_session k)" using Suc.prems(2) by (simp add: talk_ok_def)
  obtain x s1 where c: "chat E (tk_msgs k) (tk_keys k) (tk_session k) = (x, s1)"
    by (cases "chat E (tk_msgs k) (tk_keys k) (tk_session k)")
  note cs = chat_sent[OF c so talk_ok_request[OF Suc.prems(2)]]
  show ?case
  proof (cases x)
    case (Inl e)
    with Suc.prems(1) c cs show ?thesis by (auto simp: bindS_def getS_def in_session_def)
  next
    case (Inr calls)
    define k1 where "k1 = k\<lparr>tk_session := s1, tk_msgs := tk_msgs k @ [Assistant_msg (map tc_id calls)]\<rparr>"
    have ok1: "talk_ok (map tc_id calls) 0 k1"
      using talk_ok_turn[of "k\<lparr>tk_session := s1\<rparr>"] Suc.prems(2) cs by (simp add: talk_ok_def k1_def)
    have l1: "length (ss_sent (tk_session k1)) \<le> length (ss_sent (tk_session k)) + max_attempts E"
      using cs by (simp add: k1_def)
    have st: "(if calls = [] then bindS (push (User_msg 0)) (\<lambda>_. episode_loop E final n)
     else bindS (run_calls E final calls []) (\<lambda>r.
       case r of
         Some a \<Rightarrow> retS (Some a)
       | None \<Rightarrow> bindS (if n = 1 then push (User_msg 0) else retS ()) (\<lambda>_. episode_loop E final n))) k1 = (r, k')"
      using Suc.prems(1) c by (simp add: bindS_def getS_def in_session_def push_def modS_def Inr k1_def)
    have later: "sent_ok (tk_session k') \<and>
        length (ss_sent (tk_session k')) \<le> length (ss_sent (tk_session k)) + Suc n * max_attempts E"
      if "episode_loop E final n k2 = (r, k')" "talk_ok [] 0 k2"
         "length (ss_sent (tk_session k2)) = length (ss_sent (tk_session k1))" for k2
      using Suc.IH[OF that(1,2)] that(3) l1 by simp
    show ?thesis
    proof (cases "calls = []")
      case True
      let ?k2 = "k1\<lparr>tk_msgs := tk_msgs k1 @ [User_msg 0]\<rparr>"
      have "episode_loop E final n ?k2 = (r, k')" using st True by (simp add: bindS_def push_def modS_def)
      moreover have "talk_ok [] 0 ?k2" using ok1 True talk_ok_user by simp
      ultimately show ?thesis using later by simp
    next
      case False
      obtain y k2 where rc: "run_calls E final calls [] k1 = (y, k2)" by (cases "run_calls E final calls [] k1")
      from run_calls_ok[OF rc] ok1 have s2: "ss_sent (tk_session k2) = ss_sent (tk_session k1)"
        and n2: "y = Inr None \<Longrightarrow> talk_ok [] 0 k2" by simp_all
      show ?thesis
      proof (cases "y = Inr None")
        case True
        define k3 where "k3 = (if n = 1 then k2\<lparr>tk_msgs := tk_msgs k2 @ [User_msg 0]\<rparr> else k2)"
        have "(if n = 1 then push (User_msg 0) else retS ()) k2 = (Inr (), k3)"
          by (simp add: push_def k3_def modS_def retS_def)
        then have "episode_loop E final n k3 = (r, k')"
          using st False rc True by (simp add: bindS_def)
        moreover have "talk_ok [] 0 k3" using n2[OF True] talk_ok_user by (simp add: k3_def)
        moreover have "length (ss_sent (tk_session k3)) = length (ss_sent (tk_session k1))" by (simp add: k3_def s2)
        ultimately show ?thesis by (rule later)
      next
        case 2: False
        then have "(\<exists>e. y = Inl e) \<or> (\<exists>a. y = Inr (Some a))" by (cases y) auto
        then have "k' = k2" using st False rc by (elim disjE exE) (simp_all add: bindS_def retS_def)
        then have "sent_ok (tk_session k') \<and> ss_sent (tk_session k') = ss_sent (tk_session k1)"
          using s2 ok1 unfolding talk_ok_def sent_ok_def by simp
        with l1 show ?thesis by (metis add.assoc add_leD1 mult_Suc nat_le_iff_add)
      qed
    qed
  qed
qed

lemma start_talk_ok:
  "length ks \<le> MAX_IMAGES \<Longrightarrow> sent_ok s \<Longrightarrow> talk_ok [] 0 (start_talk ks s)"
  by (simp add: talk_ok_def start_talk_def)

lemma episode_ok:
  assumes "episode E final n ks s = (r, s')" "length ks \<le> MAX_IMAGES" "sent_ok s"
  shows "sent_ok s' \<and> length (ss_sent s') \<le> length (ss_sent s) + n * max_attempts E"
proof -
  obtain x k where l: "episode_loop E final n (start_talk ks s) = (x, k)" by (cases "episode_loop E final n (start_talk ks s)")
  have "s' = tk_session k" using assms(1) l by (auto simp: episode_def split: sum.splits)
  with episode_loop_ok[OF l start_talk_ok[OF assms(2,3)]] show ?thesis by (simp add: start_talk_def)
qed

lemma estimate_photos_max: "length (estimate_photos t p) \<le> MAX_IMAGES"
  by (auto simp: estimate_photos_def opt_list_def MAX_IMAGES_def Let_def split: prod.splits option.splits)

section \<open>Where candidates come from\<close>

fun found_by :: "place_search \<Rightarrow> candidate list" where
  "found_by (Public_search q c r cs) = cs"
| "found_by (Kakao_asked q c r ps) = map kakao_candidate ps"
| "found_by (Kakao_reused q c r ps) = map kakao_candidate ps"

text \<open>\<open>d\<close> is in the answer the service gives to the search of the log.\<close>

fun found_answer :: "talk_env \<Rightarrow> place_search \<Rightarrow> candidate \<Rightarrow> bool" where
  "found_answer E (Public_search q c r cs) d \<longleftrightarrow> te_public E q c r = Some cs \<and> d \<in> set cs"
| "found_answer E (Kakao_asked q c r ps) d \<longleftrightarrow>
     (\<exists>ds doc p. te_keyword E (keyword_request q (fst c) (snd c) r 10) = Http_data (Some ds) \<and> doc \<in> set ds \<and>
        kakao_place_of doc = Inr p \<and> p \<in> set ps \<and> d = kakao_candidate p)"
| "found_answer E (Kakao_reused q c r ps) d \<longleftrightarrow> False"

definition same_spot :: "rat \<times> rat \<Rightarrow> rat \<times> rat \<Rightarrow> bool" where
  "same_spot c x \<longleftrightarrow> round4 (fst c) = round4 (fst x) \<and> round4 (snd c) = round4 (snd x)"

text \<open>Where a candidate of a search comes from: the service answered the search with it, or, for results
  read again, Kakao answered with it when a conversation of the job asked for the same words, radius and
  rounded place.\<close>

definition asked_before :: "talk_env list \<Rightarrow> place_search list \<Rightarrow> utext \<Rightarrow> rat \<times> rat \<Rightarrow> int \<Rightarrow> kakao_place list \<Rightarrow>
    candidate \<Rightarrow> bool" where
  "asked_before Es l q c r ps d \<longleftrightarrow>
     (\<exists>E \<in> set Es. \<exists>x. same_spot c x \<and> Kakao_asked q x r ps \<in> set l \<and> found_answer E (Kakao_asked q x r ps) d)"

definition search_backed :: "talk_env list \<Rightarrow> talk_env \<Rightarrow> place_search list \<Rightarrow> place_search \<Rightarrow> candidate \<Rightarrow> bool" where
  "search_backed Es E l e d \<longleftrightarrow> (case e of Kakao_reused q c r ps \<Rightarrow> asked_before Es l q c r ps d | _ \<Rightarrow> found_answer E e d)"

lemma asked_before_mono:
  "asked_before Es l q c r ps d \<Longrightarrow> set Es \<subseteq> set Fs \<Longrightarrow> set l \<subseteq> set k \<Longrightarrow> asked_before Fs k q c r ps d"
  unfolding asked_before_def by blast

lemma search_backed_mono: "search_backed Es E l e d \<Longrightarrow> set l \<subseteq> set k \<Longrightarrow> search_backed Es E k e d"
  unfolding search_backed_def by (cases e) (auto intro: asked_before_mono)

text \<open>The Kakao results kept for the job, and the searches made since \<open>l\<close>.\<close>

definition cache_backed :: "talk_env list \<Rightarrow> session \<Rightarrow> bool" where
  "cache_backed Es s \<longleftrightarrow> (\<forall>q x y r ps d. ((q, x, y, r), ps) \<in> set (ss_cache s) \<and> d \<in> set (map kakao_candidate ps) \<longrightarrow>
     (\<exists>E \<in> set Es. \<exists>c. round4 (fst c) = x \<and> round4 (snd c) = y \<and> Kakao_asked q c r ps \<in> set (ss_searches s) \<and>
        found_answer E (Kakao_asked q c r ps) d))"

definition searches_backed :: "talk_env list \<Rightarrow> talk_env \<Rightarrow> place_search list \<Rightarrow> session \<Rightarrow> bool" where
  "searches_backed Es E l s \<longleftrightarrow> E \<in> set Es \<and> cache_backed Es s \<and> (\<exists>k. ss_searches s = l @ k) \<and>
     (\<forall>e \<in> set (drop (length l) (ss_searches s)). \<forall>d \<in> set (found_by e). search_backed Es E (ss_searches s) e d)"

definition cands_backed :: "talk_env list \<Rightarrow> talk_env \<Rightarrow> place_search list \<Rightarrow> talk \<Rightarrow> bool" where
  "cands_backed Es E l k \<longleftrightarrow> searches_backed Es E l (tk_session k) \<and>
     (\<forall>(i, c) \<in> set (tk_cands k). ca_id c = i \<and>
        (\<exists>e \<in> set (drop (length l) (ss_searches (tk_session k))). c \<in> set (found_by e)))"

lemma dict_set_mem: "set (dict_set k v d) \<subseteq> insert (k, v) (set d)"
  by (induction k v d rule: dict_set.induct) auto

lemma list_all2_right_mem: "list_all2 P xs ys \<Longrightarrow> y \<in> set ys \<Longrightarrow> \<exists>x \<in> set xs. P x y"
  by (induction rule: list_all2_induct) auto

lemma cache_backed_later:
  assumes "cache_backed Es s" "ss_cache s' = ss_cache s" "set (ss_searches s) \<subseteq> set (ss_searches s')"
  shows "cache_backed Es s'"
  using assms unfolding cache_backed_def by (metis subsetD)

lemma searches_backed_same:
  "ss_searches s' = ss_searches s \<Longrightarrow> ss_cache s' = ss_cache s \<Longrightarrow> searches_backed Es E l s \<Longrightarrow> searches_backed Es E l s'"
  unfolding searches_backed_def cache_backed_def by simp

lemma searches_backed_note:
  assumes "searches_backed Es E l s" "\<And>d. d \<in> set (found_by e) \<Longrightarrow> search_backed Es E (ss_searches s @ [e]) e d"
    and "cache_backed Es s'" "ss_searches s' = ss_searches s @ [e]"
  shows "searches_backed Es E l s' \<and> e \<in> set (drop (length l) (ss_searches s'))"
proof -
  from assms(1) obtain k where k: "ss_searches s = l @ k" and E: "E \<in> set Es" unfolding searches_backed_def by blast
  have old: "\<And>f d. f \<in> set k \<Longrightarrow> d \<in> set (found_by f) \<Longrightarrow> search_backed Es E (ss_searches s') f d"
    using assms(1) k search_backed_mono[of Es E "ss_searches s" _ _ "ss_searches s'"] assms(4)
    unfolding searches_backed_def by auto
  have "\<forall>f \<in> set (k @ [e]). \<forall>d \<in> set (found_by f). search_backed Es E (ss_searches s') f d"
    using old assms(2,4) by auto
  then show ?thesis using assms(3,4) k E by (simp add: searches_backed_def)
qed

lemma keyword_answered:
  assumes "keyword (te_keyword E) q x y r 10 b = (Inr (Some ps), b')" "p \<in> set ps"
  shows "found_answer E (Kakao_asked q (x, y) r ps) (kakao_candidate p)"
proof -
  obtain ok c where t: "budget_take b = (ok, c)" by (cases "budget_take b")
  from assms have ne: "ustrip q \<noteq> []" by (auto simp: keyword_def)
  then have "ok" using assms(1) by (cases ok) (auto simp: keyword_def t)
  let ?rq = "keyword_request q x y r 10"
  from assms(1) ne \<open>ok\<close> obtain ds where d: "kakao_get (te_keyword E ?rq) = Inr ds" "mapE kakao_place_of ds = Inr ps"
    by (auto simp: keyword_def t)
  from d(1) have "te_keyword E ?rq = Http_data (Some ds)"
    by (cases "te_keyword E ?rq" rule: kakao_get.cases) auto
  moreover have "list_all2 (\<lambda>d p. kakao_place_of d = Inr p) ds ps" using d(2) by (simp add: mapE_Inr)
  from list_all2_right_mem[OF this assms(2)] obtain doc where "doc \<in> set ds" "kakao_place_of doc = Inr p"
    by blast
  ultimately show ?thesis using assms(2) by auto
qed

text \<open>A Kakao search leaves an entry of the log with what it found.\<close>

lemma kakao_search_backed:
  assumes "kakao_search E q c r s = (Inr x, s')" "searches_backed Es E l s"
  shows "searches_backed Es E l s' \<and> (\<forall>ps. x = Inr (Some ps) \<longrightarrow>
     (\<exists>e \<in> set (drop (length l) (ss_searches s')). found_by e = map kakao_candidate ps))"
proof (cases "map_of (ss_cache s) (q, round4 (fst c), round4 (snd c), r)")
  case (Some ps)
  let ?e = "Kakao_reused q c r ps"
  have s': "s' = s\<lparr>ss_searches := ss_searches s @ [?e]\<rparr>" "x = Inr (Some ps)"
    using assms(1) Some by (simp_all add: kakao_search_def note_search_def modS_def Let_def bindS_def getS_def retS_def)
  have "cache_backed Es s" using assms(2) by (simp add: searches_backed_def)
  then have "search_backed Es E (ss_searches s @ [?e]) ?e d" if "d \<in> set (found_by ?e)" for d
    using map_of_SomeD[OF Some] that
    unfolding cache_backed_def search_backed_def asked_before_def same_spot_def by simp metis
  moreover have "cache_backed Es s'"
    by (rule cache_backed_later[OF \<open>cache_backed Es s\<close>]) (auto simp: s'(1))
  ultimately have "searches_backed Es E l s' \<and> ?e \<in> set (drop (length l) (ss_searches s'))"
    by (intro searches_backed_note[OF assms(2)]) (simp_all add: s'(1))
  then show ?thesis by (intro conjI allI impI bexI[of _ ?e]) (simp_all add: s'(2))
next
  case None
  obtain y b where k: "keyword (te_keyword E) q (fst c) (snd c) r 10 (ss_budget s) = (y, b)"
    by (cases "keyword (te_keyword E) q (fst c) (snd c) r 10 (ss_budget s)")
  have x: "x = y" using assms(1) None k by (simp add: kakao_search_def Let_def bindS_def getS_def)
  show ?thesis
  proof (cases "\<exists>ps. y = Inr (Some ps)")
    case False
    then have "s' = s\<lparr>ss_budget := b\<rparr>" using assms(1) None k
      by (auto simp: kakao_search_def Let_def bindS_def getS_def split: sum.splits option.splits)
    with assms(2) False x show ?thesis using searches_backed_same[of s' s] by auto
  next
    case True
    then obtain ps where y: "y = Inr (Some ps)" by blast
    let ?e = "Kakao_asked q c r ps" and ?key = "(q, round4 (fst c), round4 (snd c), r)"
    have s': "s' = s\<lparr>ss_budget := b, ss_cache := dict_set ?key ps (ss_cache s), ss_searches := ss_searches s @ [?e]\<rparr>"
      using assms(1) None k y by (simp add: kakao_search_def Let_def bindS_def getS_def)
    have a: "found_answer E ?e d" if "d \<in> set (map kakao_candidate ps)" for d
      using that keyword_answered[OF k[unfolded y]] by auto
    have E: "E \<in> set Es" "cache_backed Es s" using assms(2) by (simp_all add: searches_backed_def)
    have "cache_backed Es s'"
      unfolding cache_backed_def
    proof (intro allI impI, elim conjE)
      fix q' x' y' r' ps' d assume m: "((q', x', y', r'), ps') \<in> set (ss_cache s')" "d \<in> set (map kakao_candidate ps')"
      then consider "((q', x', y', r'), ps') = (?key, ps)" | "((q', x', y', r'), ps') \<in> set (ss_cache s)"
        using dict_set_mem[of ?key ps "ss_cache s"] by (auto simp: s')
      then show "\<exists>E \<in> set Es. \<exists>c. round4 (fst c) = x' \<and> round4 (snd c) = y' \<and>
          Kakao_asked q' c r' ps' \<in> set (ss_searches s') \<and> found_answer E (Kakao_asked q' c r' ps') d"
      proof cases
        case 1
        then have e: "q' = q" "x' = round4 (fst c)" "y' = round4 (snd c)" "r' = r" "ps' = ps" by simp_all
        have "Kakao_asked q c r ps \<in> set (ss_searches s')" by (simp add: s')
        then show ?thesis unfolding e using E(1) a[OF m(2)[unfolded e]] by blast
      next
        case 2
        then show ?thesis using E(2) m(2) unfolding cache_backed_def s' by fastforce
      qed
    qed
    then have "searches_backed Es E l s' \<and> ?e \<in> set (drop (length l) (ss_searches s'))"
      using a by (intro searches_backed_note[OF assms(2)]) (simp_all add: s' search_backed_def)
    then show ?thesis by (intro conjI allI impI bexI[of _ ?e]) (simp_all add: x y)
  qed
qed

lemma always_bind_post:
  assumes "always P m" "\<And>s x t. P s \<Longrightarrow> m s = (Inr x, t) \<Longrightarrow> P t \<Longrightarrow> P (snd (f x t))"
  shows "always P (bindS m f)"
  unfolding always_def
proof (intro allI impI)
  fix s assume s: "P s"
  obtain r t where m: "m s = (r, t)" by (cases "m s")
  have t: "P t" using alwaysD[OF assms(1) m s] .
  show "P (snd (bindS m f s))" using assms(2)[OF s _ t] m t by (cases r) (simp_all add: bindS_def)
qed

text \<open>What happens in a session between two states of it.\<close>

lemma searches_backed_start: "searches_backed Es E l s \<Longrightarrow> searches_backed Es E (ss_searches s) s"
  by (simp add: searches_backed_def)

lemma cands_backed_later:
  assumes "cands_backed Es E l k" "searches_backed Es E l s'" "searches_backed Es E (ss_searches (tk_session k)) s'"
  shows "cands_backed Es E l (k\<lparr>tk_session := s'\<rparr>)"
proof -
  from assms(3) obtain m where "ss_searches s' = ss_searches (tk_session k) @ m" unfolding searches_backed_def by blast
  then have "set (drop (length l) (ss_searches (tk_session k))) \<subseteq> set (drop (length l) (ss_searches s'))" by auto
  with assms(1,2) show ?thesis unfolding cands_backed_def by fastforce
qed

lemma always_in_session:
  assumes "\<And>l. always (searches_backed Es E l) m"
  shows "always (cands_backed Es E l) (in_session m)"
  unfolding always_def
proof (intro allI impI)
  fix k assume k: "cands_backed Es E l k"
  obtain r s' where m: "m (tk_session k) = (r, s')" by (cases "m (tk_session k)")
  have s: "searches_backed Es E l (tk_session k)" using k by (simp add: cands_backed_def)
  from cands_backed_later[OF k alwaysD[OF assms m s] alwaysD[OF assms m searches_backed_start[OF s]]]
  show "cands_backed Es E l (snd (in_session m k))" by (simp add: in_session_def m)
qed

lemma always_same_searches:
  "(\<And>s. ss_searches (f s) = ss_searches s \<and> ss_cache (f s) = ss_cache s) \<Longrightarrow> always (searches_backed Es E l) (modS f)"
  using searches_backed_same by (intro always_mod) blast

lemma add_candidates_mem: "set (add_candidates cs d) \<subseteq> (\<lambda>c. (ca_id c, c)) ` set cs \<union> set d"
  unfolding add_candidates_def
  by (induction cs arbitrary: d) (auto dest!: subsetD[OF dict_set_mem] intro: subset_trans)

lemma found_rows_backed:
  assumes "cands_backed Es E l k" "e \<in> set (drop (length l) (ss_searches (tk_session k)))" "found_by e = cs"
  shows "cands_backed Es E l (snd (found_rows c cs k))"
  using assms add_candidates_mem[of cs "tk_cands k"]
  by (fastforce simp: found_rows_def bindS_def modS_def retS_def cands_backed_def)

lemma always_kakao_search: "always (searches_backed Es E l) (kakao_search E q c r)"
  unfolding always_def
proof (intro allI impI)
  fix s assume s: "searches_backed Es E l s"
  obtain x s' where k: "kakao_search E q c r s = (x, s')" by (cases "kakao_search E q c r s")
  have "\<exists>y. x = Inr y" using k
    by (auto simp: kakao_search_def note_search_def modS_def Let_def bindS_def getS_def retS_def
        split: option.splits prod.splits)
  then obtain y where "x = Inr y" by blast
  with kakao_search_backed[OF _ s, of q c r y s'] k show "searches_backed Es E l (snd (kakao_search E q c r s))" by simp
qed

lemma public_search_backed:
  assumes "cands_backed Es E l k" "te_public E q c r = Some cs"
  shows "cands_backed Es E l (snd (bindS (in_session (note_search (Public_search q c r cs))) (\<lambda>_. found_rows x cs) k))"
proof -
  let ?e = "Public_search q c r cs" and ?s = "tk_session k"
  let ?s' = "?s\<lparr>ss_searches := ss_searches ?s @ [?e]\<rparr>"
  have s: "searches_backed Es E l ?s" using assms(1) by (simp add: cands_backed_def)
  have b: "\<And>d. d \<in> set (found_by ?e) \<Longrightarrow> search_backed Es E (ss_searches ?s @ [?e]) ?e d" using assms(2) by (simp add: search_backed_def)
  have c: "cache_backed Es ?s'"
    by (rule cache_backed_later[of _ ?s]) (use s in \<open>auto simp: searches_backed_def\<close>)
  have 1: "searches_backed Es E l ?s' \<and> ?e \<in> set (drop (length l) (ss_searches ?s'))"
    by (rule searches_backed_note[OF s b c]) simp_all
  have "searches_backed Es E (ss_searches ?s) ?s'"
    using searches_backed_note[OF searches_backed_start[OF s] b c] by simp
  from cands_backed_later[OF assms(1) conjunct1[OF 1] this]
  have "cands_backed Es E l (k\<lparr>tk_session := ?s'\<rparr>)" .
  from found_rows_backed[OF this, of ?e cs x] 1 show ?thesis by (simp add: bindS_def note_in_session)
qed

lemma always_tool_search: "always (cands_backed Es E l) (tool_search E public a)"
proof -
  let ?q = "ustrip (arg_text (te_repr E) (map_of a ''query''))"
  define c where "c = anchor_of (te_trip E)
    (case map_of a ''near'' of Some (Json (JStr u)) \<Rightarrow> id_text (ustrip u) | _ \<Rightarrow> [])"
  have pub: "always (cands_backed Es E l) (case te_public E ?q c r of
      None \<Rightarrow> retS Public_down
    | Some cs \<Rightarrow> bindS (in_session (note_search (Public_search ?q c r cs))) (\<lambda>_. found_rows c cs))" for r
  proof (cases "te_public E ?q c r")
    case (Some cs)
    then show ?thesis using public_search_backed[OF _ Some] by (simp add: always_def)
  qed (simp add: always_ret)
  have kak: "always (cands_backed Es E l) (bindS (in_session (kakao_search E ?q c r)) (\<lambda>x.
             case x of
               Inl _ \<Rightarrow> retS Kakao_down
             | Inr None \<Rightarrow> retS Kakao_used_up
             | Inr (Some ps) \<Rightarrow> found_rows c (map kakao_candidate ps)))" for r
  proof (rule always_bind_post)
    show "always (cands_backed Es E l) (in_session (kakao_search E ?q c r))"
      by (rule always_in_session[OF always_kakao_search])
    fix k x k' assume k: "cands_backed Es E l k" "in_session (kakao_search E ?q c r) k = (Inr x, k')" "cands_backed Es E l k'"
    from in_session_kept[OF k(2)] obtain s' where
      s: "kakao_search E ?q c r (tk_session k) = (Inr x, s')" "k' = k\<lparr>tk_session := s'\<rparr>" by blast
    have cs: "searches_backed Es E l (tk_session k)" using k(1) by (simp add: cands_backed_def)
    note b = conjunct2[OF kakao_search_backed[OF s(1) cs]]
    have "cands_backed Es E l (snd (found_rows c (map kakao_candidate ps) k'))" if p: "x = Inr (Some ps)" for ps
    proof -
      from b p obtain e where "e \<in> set (drop (length l) (ss_searches s'))" "found_by e = map kakao_candidate ps" by blast
      then show ?thesis by (intro found_rows_backed[OF k(3), of e]) (simp_all add: s(2))
    qed
    then show "cands_backed Es E l (snd ((case x of Inl _ \<Rightarrow> retS Kakao_down | Inr None \<Rightarrow> retS Kakao_used_up
             | Inr (Some ps) \<Rightarrow> found_rows c (map kakao_candidate ps)) k'))"
      using k(3) by (auto simp: retS_def split: sum.split option.split)
  qed
  show ?thesis
    unfolding tool_search_def Let_def c_def[symmetric]
    by (auto intro!: always_ret always_bind always_lift pub kak)
qed

lemma always_tool_read: "always (cands_backed Es E l) (tool_read t refs)"
  unfolding tool_read_def Let_def
  by (auto intro!: always_intro always_mod simp: cands_backed_def)

lemma always_tool_run: "always (cands_backed Es E l) (tool_run E nm a)"
  unfolding tool_run_def Let_def
  by (intro always_intro always_tool_read always_tool_search)

lemma always_push: "always (cands_backed Es E l) (push m)"
  unfolding push_def by (intro always_mod) (simp add: cands_backed_def)

lemma always_msgs: "always (cands_backed Es E l) (modS (\<lambda>k. k\<lparr>tk_msgs := f k\<rparr>))"
  by (intro always_mod) (simp add: cands_backed_def)

lemma always_keys: "always (cands_backed Es E l) (modS (\<lambda>k. k\<lparr>tk_keys := f k\<rparr>))"
  by (intro always_mod) (simp add: cands_backed_def)

lemma always_run_calls: "always (cands_backed Es E l) (run_calls E final cs extra)"
proof (induction cs arbitrary: extra)
  case Nil
  show ?case unfolding run_calls.simps by (intro always_intro always_msgs)
next
  case (Cons c cs)
  show ?case
    unfolding run_calls.simps
    by (intro always_intro always_tool_run always_push always_keys Cons.IH)
qed

lemma chat_searches: "always (searches_backed Es E l) (chat E' ms ks)"
proof -
  have "always (searches_backed Es E l) (chat_attempts E' ms ks n m)" for n m
    by (induction n arbitrary: m)
      (auto intro!: always_intro always_same_searches split: chat_reply.split)
  then show ?thesis unfolding chat_def by blast
qed

lemma always_episode_loop: "always (cands_backed Es E l) (episode_loop E final n)"
proof (induction n)
  case 0
  show ?case by (auto intro!: always_intro always_in_session always_same_searches)
next
  case (Suc n)
  show ?case
    unfolding episode_loop.simps
    by (intro always_intro always_in_session chat_searches always_run_calls always_push Suc.IH)
qed

lemma episode_backed:
  assumes "episode E final n ks s = (r, s')" "searches_backed Es E l s"
  shows "searches_backed Es E l s'"
    and "r = Inr (a, cs) \<Longrightarrow> l = ss_searches s \<Longrightarrow> map_of cs i = Some c \<Longrightarrow>
      ca_id c = i \<and> (\<exists>e \<in> set (drop (length l) (ss_searches s')). c \<in> set (found_by e))"
proof -
  obtain x k where l: "episode_loop E final n (start_talk ks s) = (x, k)" by (cases "episode_loop E final n (start_talk ks s)")
  have "cands_backed Es E l (start_talk ks s)" using assms(2) by (simp add: cands_backed_def start_talk_def)
  from alwaysD[OF always_episode_loop l this] have k: "cands_backed Es E l k" .
  have s': "s' = tk_session k" using assms(1) l by (auto simp: episode_def split: sum.splits)
  show "searches_backed Es E l s'" using k by (simp add: s' cands_backed_def)
  assume r: "r = Inr (a, cs)" "map_of cs i = Some c"
  then have "cs = tk_cands k" using assms(1) l by (auto simp: episode_def split: sum.splits)
  with k map_of_SomeD[OF r(2)] show "ca_id c = i \<and> (\<exists>e \<in> set (drop (length l) (ss_searches s')). c \<in> set (found_by e))"
    unfolding cands_backed_def s' by blast
qed

text \<open>The conversations and lookups of a job keep its log and its results in order.\<close>

lemma always_session_region: "always (searches_backed Es E l) (session_region E' x y)"
  unfolding always_def session_region_def
  by (auto split: prod.split intro: searches_backed_same)

lemma always_region_searches: "always (searches_backed Es E l) (in_region E' c)"
  unfolding in_region_def
  by (intro always_intro always_session_region always_same_searches) simp

lemma always_load_regions: "always (searches_backed Es E l) (load_regions E' rs)"
proof (induction rs)
  case (Cons r rs)
  then show ?case
    by (cases r) (auto intro!: always_intro always_session_region always_same_searches split: option.split)
qed (simp add: always_ret)

lemma always_episode: "always (searches_backed Es E l) (episode E final n ks)"
  unfolding always_def using episode_backed(1) by (metis prod.collapse)

lemma always_estimate: "always (searches_backed Es E l) (estimate E p)"
  unfolding estimate_def Let_def
  by (intro always_intro always_episode always_region_searches)

lemma always_aggregate: "always (searches_backed Es E l) (aggregate E ps)"
  unfolding aggregate_def Let_def by (intro always_intro always_episode)

lemma always_merge: "always (searches_backed Es E l) (merge E)"
  unfolding merge_def by (intro always_intro always_episode)

lemma cache_backed_env:
  assumes "cache_backed Es s" shows "searches_backed (E # Es) E (ss_searches s) s"
proof -
  have "cache_backed (E # Es) s" using assms unfolding cache_backed_def by (metis list.set_intros(2))
  then show ?thesis by (simp add: searches_backed_def)
qed

lemma always_cache_backed:
  assumes "\<And>l. always (searches_backed (E # Es) E l) m" "cache_backed Es s"
  shows "cache_backed (E # Es) (snd (m s))"
proof -
  have "searches_backed (E # Es) E (ss_searches s) (snd (m s))"
    using assms(1) cache_backed_env[OF assms(2), of E] unfolding always_def by blast
  then show ?thesis by (simp add: searches_backed_def)
qed

lemma job_session_backed: "job_session Es s \<Longrightarrow> cache_backed Es s"
proof (induction rule: job_session.induct)
  case (js_new n)
  show ?case by (simp add: cache_backed_def new_session_def)
next
  case (js_regions Es s E rs)
  show ?case by (rule always_cache_backed[OF always_load_regions js_regions.IH])
next
  case (js_estimate Es s E p)
  show ?case by (rule always_cache_backed[OF always_estimate js_estimate.IH])
next
  case (js_aggregate Es s E ps)
  show ?case by (rule always_cache_backed[OF always_aggregate js_aggregate.IH])
next
  case (js_merge Es s E)
  show ?case by (rule always_cache_backed[OF always_merge js_merge.IH])
qed

lemma estimate_proposal_new:
  assumes "pp_new (estimate_proposal t ir i final cs) = Some c"
  shows "\<exists>f d. final = Some f \<and> map_of cs (da_candidate f) = Some d \<and>
    ca_id c = ca_id d \<and> ca_lat c = ca_lat d \<and> ca_lon c = ca_lon d"
  using assms by (auto simp: estimate_proposal_def Let_def split: option.splits if_splits)

lemma estimate_new_backed:
  assumes "estimate E p s = (Inr pr, s')" "cache_backed Es s" "pp_new pr = Some c"
  shows "\<exists>e d. e \<in> set (drop (length (ss_searches s)) (ss_searches s')) \<and> d \<in> set (found_by e) \<and>
    search_backed (E # Es) E (ss_searches s') e d \<and> ca_id c = ca_id d \<and> ca_lat c = ca_lat d \<and> ca_lon c = ca_lon d"
proof -
  let ?l = "ss_searches s"
  note start = cache_backed_env[OF assms(2), of E]
  from assms(1) obtain a cs s1 ok where e: "episode E ''decide'' MAX_CALLS
      (photo_keys (estimate_photos (te_trip E) p)) s = (Inr (a, cs), s1)"
    and g: "(case confident_new (map_option (decide_of (te_repr E)) a) cs of Some c \<Rightarrow> in_region E c | None \<Rightarrow> retS False) s1 =
      (Inr ok, s')"
    and p: "pr = estimate_proposal (te_trip E) (\<lambda>c. ok) (ph_id p) (map_option (decide_of (te_repr E)) a) cs"
    by (fastforce simp: estimate_def bindS_Inr Let_def retS_def split: prod.splits)
  note e1 = episode_backed[OF e start]
  have reg: "always (searches_backed (E # Es) E l)
      (case confident_new (map_option (decide_of (te_repr E)) a) cs of Some c \<Rightarrow> in_region E c | None \<Rightarrow> retS False)" for l
    by (intro always_intro always_region_searches)
  have s': "searches_backed (E # Es) E ?l s'" by (rule alwaysD[OF reg g e1(1)])
  have "searches_backed (E # Es) E (ss_searches s1) s'" by (rule alwaysD[OF reg g searches_backed_start[OF e1(1)]])
  then obtain m where m: "ss_searches s' = ss_searches s1 @ m" unfolding searches_backed_def by blast
  from estimate_proposal_new[OF assms(3)[unfolded p]] obtain f d where
    f: "map_option (decide_of (te_repr E)) a = Some f" "map_of cs (da_candidate f) = Some d" "ca_id c = ca_id d"
       "ca_lat c = ca_lat d" "ca_lon c = ca_lon d" by blast
  from e1(2)[OF refl refl f(2)] obtain v where v: "v \<in> set (drop (length ?l) (ss_searches s1))" "d \<in> set (found_by v)" by blast
  have v': "v \<in> set (drop (length ?l) (ss_searches s'))" using v(1) by (simp add: m)
  moreover have "search_backed (E # Es) E (ss_searches s') v d" using s' v' v(2) unfolding searches_backed_def by blast
  ultimately show ?thesis using v(2) f(3-5) by blast
qed

section \<open>The agent's graph talks to the model\<close>

text \<open>What the graph takes for the outcome of its calls is what \<open>aggregate\<close>, \<open>merge\<close> and \<open>estimate\<close> return,
  the last when the lookups of regions say what \<open>ge_in_region\<close> says.\<close>

lemma aggregate_call_talks:
  "aggregate_call (talking_agent E S rq A) g =
     fst (aggregate (E\<lparr>te_trip := gs_trip g\<rparr>) (gs_proposals g) (as_finalize S (gs_estimates g)))"
  by (auto simp: aggregate_call_def aggregate_def Let_def talking_agent_def finalize_talk_def bindS_def retS_def
      split: prod.split sum.split)

lemma merge_call_talks:
  "bindE (ge_merge (talking_agent E S rq A) t) (\<lambda>raw. Inr (merge_groups t raw)) =
     fst (merge (E\<lparr>te_trip := t\<rparr>) (as_merge S))"
  by (auto simp: merge_def Let_def talking_agent_def merge_talk_def bindS_def retS_def split: prod.split sum.split)

lemma estimate_proposal_region:
  assumes "\<And>c. confident_new final cs = Some c \<Longrightarrow> f c = g c"
  shows "estimate_proposal t f i final cs = estimate_proposal t g i final cs"
  using assms
  by (auto simp: estimate_proposal_def confident_new_def Let_def split: option.split if_splits)

lemma estimate_call_talks:
  assumes "\<And>c s. fst (in_region (E\<lparr>te_trip := gs_trip g\<rparr>) c s) = Inr (ge_in_region A c)"
  shows "estimate_call (talking_agent E S rq A) g p =
     fst (estimate (E\<lparr>te_trip := gs_trip g\<rparr>) p (as_decide S (gs_estimates g) p))"
proof -
  let ?E = "E\<lparr>te_trip := gs_trip g\<rparr>"
  let ?ep = "episode ?E ''decide'' MAX_CALLS (photo_keys (estimate_photos (gs_trip g) p)) (as_decide S (gs_estimates g) p)"
  obtain r s where e: "?ep = (r, s)" by (cases ?ep)
  show ?thesis
  proof (cases r)
    case (Inl x)
    then show ?thesis using e by (simp add: estimate_call_def estimate_def talking_agent_def decide_talk_def bindS_def)
  next
    case (Inr y)
    obtain a cs where y: "y = (a, cs)" by (cases y)
    let ?f = "map_option (decide_of (te_repr E)) a"
    have "fst ((case confident_new ?f cs of Some c \<Rightarrow> in_region ?E c | None \<Rightarrow> retS False) s) =
        Inr (case confident_new ?f cs of Some c \<Rightarrow> ge_in_region A c | None \<Rightarrow> False)"
      using assms by (auto simp: retS_def split: option.split)
    then obtain u where "(case confident_new ?f cs of Some c \<Rightarrow> in_region ?E c | None \<Rightarrow> retS False) s =
        (Inr (case confident_new ?f cs of Some c \<Rightarrow> ge_in_region A c | None \<Rightarrow> False), u)" by (metis prod.collapse)
    moreover have "estimate_proposal (gs_trip g) (ge_in_region A) (ph_id p) ?f cs = estimate_proposal (gs_trip g)
        (\<lambda>c. case confident_new ?f cs of Some c \<Rightarrow> ge_in_region A c | None \<Rightarrow> False) (ph_id p) ?f cs"
      by (rule estimate_proposal_region) simp
    ultimately show ?thesis using e
      by (simp add: estimate_call_def estimate_def talking_agent_def decide_talk_def bindS_def Inr y Let_def retS_def)
  qed
qed

section \<open>Conversations that end\<close>

text \<open>\<open>succeeds m\<close>: \<open>m\<close> does not fail, from any state.\<close>

definition succeeds :: "('s, 'e, 'a) sem \<Rightarrow> bool" where
  "succeeds m \<longleftrightarrow> (\<forall>s. \<exists>x t. m s = (Inr x, t))"

named_theorems succeeds_intro

lemma succeeds_ret [succeeds_intro]: "succeeds (retS x)"
  by (simp add: succeeds_def retS_def)

lemma succeeds_get [succeeds_intro]: "succeeds (getS f)"
  by (simp add: succeeds_def getS_def)

lemma succeeds_mod [succeeds_intro]: "succeeds (modS f)"
  by (simp add: succeeds_def modS_def)

lemma succeeds_lift: "r = Inr x \<Longrightarrow> succeeds (liftS r)"
  by (simp add: succeeds_def liftS_def)

lemma succeeds_bind_post:
  assumes "succeeds m" "\<And>s x t. m s = (Inr x, t) \<Longrightarrow> Q x" "\<And>x. Q x \<Longrightarrow> succeeds (f x)"
  shows "succeeds (bindS m f)"
  unfolding succeeds_def
proof
  fix s
  from assms(1) obtain x t where m: "m s = (Inr x, t)" unfolding succeeds_def by blast
  with assms(3)[OF assms(2)[OF m]] show "\<exists>y u. bindS m f s = (Inr y, u)"
    unfolding succeeds_def by (simp add: bindS_def)
qed

lemma succeeds_bind [succeeds_intro]: "succeeds m \<Longrightarrow> (\<And>x. succeeds (f x)) \<Longrightarrow> succeeds (bindS m f)"
  by (rule succeeds_bind_post[where Q = "\<lambda>x. True"]) simp_all

lemma succeeds_if [succeeds_intro]: "succeeds m \<Longrightarrow> succeeds n \<Longrightarrow> succeeds (if b then m else n)"
  by simp

lemma succeeds_case_option [succeeds_intro]:
  "succeeds m \<Longrightarrow> (\<And>x. succeeds (f x)) \<Longrightarrow> succeeds (case r of None \<Rightarrow> m | Some x \<Rightarrow> f x)"
  by (simp split: option.split)

lemma succeeds_case_sum [succeeds_intro]:
  "(\<And>e. succeeds (g e)) \<Longrightarrow> (\<And>x. succeeds (f x)) \<Longrightarrow> succeeds (case r of Inl e \<Rightarrow> g e | Inr x \<Rightarrow> f x)"
  by (simp split: sum.split)

lemma succeeds_case_prod [succeeds_intro]: "(\<And>x y. succeeds (f x y)) \<Longrightarrow> succeeds (case r of (x, y) \<Rightarrow> f x y)"
  by (simp split: prod.split)

lemma succeeds_in_session [succeeds_intro]: "succeeds m \<Longrightarrow> succeeds (in_session m)"
  unfolding succeeds_def in_session_def by (metis case_prod_conv)

text \<open>The services answer: the photos' URLs are resolved, the vector store only names photos it was asked about,
  and every call of the generation server is answered within its retries, with tool calls whose numbers are
  finite.\<close>

definition finite_numbers :: "tool_call list \<Rightarrow> bool" where
  "finite_numbers calls \<longleftrightarrow>
     list_all (\<lambda>c. \<forall>key \<in> {''n'', ''k'', ''radius_m''}. map_of (args_of c) key \<noteq> Some Infinite) calls"

definition reply_within :: "talk_env \<Rightarrow> nat \<Rightarrow> nat \<Rightarrow> bool" where
  "reply_within E n left \<longleftrightarrow> (\<exists>i < left. (\<forall>j < i. te_reply E (n + j) \<in> {Transient_failure, Call_timeout}) \<and>
     (\<exists>calls. te_reply E (n + i) = Reply calls \<and> finite_numbers calls))"

definition services_answer :: "talk_env \<Rightarrow> bool" where
  "services_answer E \<longleftrightarrow> (\<forall>n ks. te_resolve E n ks) \<and> (\<forall>n. reply_within E n (max_attempts E)) \<and>
     (\<forall>p ids k. \<forall>h \<in> set (te_search E p ids k). fst h \<in> set ids)"

lemma chat_attempts_answers:
  assumes "\<forall>n ks. te_resolve E n ks" "reply_within E (ss_calls s) left"
  shows "\<exists>calls s'. chat_attempts E ms ks left attempt s = (Inr calls, s') \<and> finite_numbers calls"
  using assms(2)
proof (induction left arbitrary: attempt s)
  case 0
  then show ?case by (simp add: reply_within_def)
next
  case (Suc left)
  define s1 where "s1 = (if attempt = 0 then s
        else s\<lparr>ss_waits := ss_waits s @ [RETRY_WAIT_SEC * of_nat attempt], ss_retries := ss_retries s + 1\<rparr>)"
  define s2 where "s2 = s1\<lparr>ss_calls := ss_calls s1 + 1, ss_sent := ss_sent s1 @ [(ms, ks)]\<rparr>"
  have m: "modS (\<lambda>s. if attempt = 0 then s
        else s\<lparr>ss_waits := ss_waits s @ [RETRY_WAIT_SEC * of_nat attempt], ss_retries := ss_retries s + 1\<rparr>) s = (Inr (), s1)"
    by (simp add: s1_def)
  have c: "ss_calls s1 = ss_calls s" by (simp add: s1_def)
  from Suc.prems obtain i calls where i: "i < Suc left" "\<forall>j < i. te_reply E (ss_calls s + j) \<in> {Transient_failure, Call_timeout}"
    "te_reply E (ss_calls s + i) = Reply calls" "finite_numbers calls" unfolding reply_within_def by blast
  show ?case
  proof (cases i)
    case 0
    with i c assms(1) show ?thesis
      unfolding chat_attempts.simps bindS_def m by (simp add: getS_def modS_def retS_def)
  next
    case (Suc j)
    then have r: "te_reply E (ss_calls s) = Transient_failure \<or> te_reply E (ss_calls s) = Call_timeout" and l: "left \<noteq> 0"
      using i(1,2) by fastforce+
    have "te_reply E (ss_calls s2 + m) \<in> {Transient_failure, Call_timeout}" if "m < j" for m
      using i(2)[rule_format, of "Suc m"] that Suc by (simp add: s2_def c)
    moreover have "te_reply E (ss_calls s2 + j) = Reply calls" using i(3) Suc by (simp add: s2_def c)
    ultimately have "reply_within E (ss_calls s2) left"
      unfolding reply_within_def using i(1,4) Suc by (intro exI[of _ j]) simp
    from Suc.IH[OF this] have "\<exists>calls s'. chat_attempts E ms ks left (attempt + 1) s2 = (Inr calls, s') \<and> finite_numbers calls" .
    moreover have "chat_attempts E ms ks (Suc left) attempt s = chat_attempts E ms ks left (attempt + 1) s2"
      unfolding chat_attempts.simps bindS_def m using r l assms(1)
      by (auto simp: getS_def modS_def s2_def c)
    ultimately show ?thesis by simp
  qed
qed

lemma chat_answers:
  assumes "services_answer E"
  shows "succeeds (chat E ms ks)" "chat E ms ks s = (Inr calls, s') \<Longrightarrow> finite_numbers calls"
proof -
  have "\<exists>calls s'. chat E ms ks s = (Inr calls, s') \<and> finite_numbers calls" for s
    using chat_attempts_answers[of E s "max_attempts E"] assms
    unfolding services_answer_def chat_def max_attempts_def by blast
  then show "succeeds (chat E ms ks)" "chat E ms ks s = (Inr calls, s') \<Longrightarrow> finite_numbers calls"
    unfolding succeeds_def by (metis prod.inject sum.inject(2))+
qed

lemma arg_int_finite: "v \<noteq> Some Infinite \<Longrightarrow> \<exists>i. arg_int v d lo hi = Inr i"
  by (auto simp: arg_int_def py_int_def split: option.split arg_value.split json.split sum.split bool.split)

lemma succeeds_arg: "v \<noteq> Some Infinite \<Longrightarrow> succeeds (liftS (arg_int v d lo hi))"
  using arg_int_finite succeeds_lift by metis

lemma succeeds_kakao: "succeeds (kakao_search E q c r)"
  unfolding kakao_search_def Let_def note_search_def
  by (intro succeeds_intro) (auto simp: succeeds_def split: prod.split)

lemma succeeds_tool_search:
  "map_of a ''radius_m'' \<noteq> Some Infinite \<Longrightarrow> succeeds (tool_search E public a)"
  unfolding tool_search_def Let_def found_rows_def note_search_def
  by (intro succeeds_intro succeeds_arg succeeds_kakao)

lemma succeeds_tool_read: "succeeds (tool_read t refs)"
  unfolding tool_read_def Let_def by (intro succeeds_intro)

lemma mapE_succeeds: "\<forall>x \<in> set xs. \<exists>y. f x = Inr y \<Longrightarrow> \<exists>ys. mapE f xs = Inr ys"
  by (induction xs) auto

lemma similar_photos_ok:
  assumes "services_answer E" shows "\<exists>x. similar_photos E p k = Inr x"
proof -
  let ?ps = "tv_photos (te_trip E)"
  let ?hits = "filter (\<lambda>(i, s). i \<noteq> ph_id p) (te_search E p (map ph_id ?ps) (k + 1))"
  let ?f = "\<lambda>(i, s). case by_id ?ps i of Some q \<Rightarrow> Inr (q, s) | None \<Rightarrow> Inl pipeline_error_default"
  have "\<exists>y. ?f h = Inr y" if "h \<in> set ?hits" for h
  proof -
    obtain i s where h: "h = (i, s)" by (cases h)
    have "i \<in> ph_id ` set ?ps" using that assms unfolding services_answer_def h by fastforce
    then obtain q where "by_id ?ps i = Some q" using by_id_None by (metis option.exhaust)
    then show ?thesis by (simp add: h)
  qed
  then have "\<exists>xs. mapE ?f ?hits = Inr xs" by (intro mapE_succeeds ballI)
  then obtain xs where "mapE ?f ?hits = Inr xs" by (rule exE)
  then show ?thesis by (simp add: similar_photos_def Let_def)
qed

lemma succeeds_tool_run:
  assumes "services_answer E" "\<forall>key \<in> {''n'', ''k'', ''radius_m''}. map_of a key \<noteq> Some Infinite"
  shows "succeeds (tool_run E nm a)"
proof -
  have similar: "succeeds (liftS (similar_photos E p k))" for p k
    using similar_photos_ok[OF assms(1)] succeeds_lift by metis
  have arg: "succeeds (liftS (arg_int (map_of a key) d lo hi))" if "key \<in> {''n'', ''k'', ''radius_m''}" for key d lo hi
    by (rule succeeds_arg) (use assms(2) that in blast)
  have n: "succeeds (liftS (arg_int (map_of a ''n'') d lo hi))" and k: "succeeds (liftS (arg_int (map_of a ''k'') d lo hi))"
    for d lo hi by (intro arg; blast)+
  have s: "succeeds (tool_search E public a)" for public
    by (rule succeeds_tool_search) (use assms(2) in blast)
  show ?thesis
    unfolding tool_run_def Let_def
    by (intro succeeds_if succeeds_bind succeeds_ret succeeds_case_option n k s similar succeeds_tool_read)
qed

lemma succeeds_run_calls:
  assumes "services_answer E" "finite_numbers cs" shows "succeeds (run_calls E final cs extra)"
  using assms(2)
proof (induction cs arbitrary: extra)
  case Nil
  show ?case unfolding run_calls.simps by (intro succeeds_intro)
next
  case (Cons c cs)
  then have "\<forall>key \<in> {''n'', ''k'', ''radius_m''}. map_of (args_of c) key \<noteq> Some Infinite" "finite_numbers cs"
    by (simp_all add: finite_numbers_def)
  then show ?case
    unfolding run_calls.simps push_def
    by (intro succeeds_intro succeeds_tool_run[OF assms(1)] Cons.IH)
qed

lemma succeeds_episode_loop:
  assumes "services_answer E" shows "succeeds (episode_loop E final n)"
proof (induction n)
  case 0
  show ?case unfolding episode_loop.simps by (intro succeeds_intro)
next
  case (Suc n)
  have turn: "succeeds (bindS (in_session (chat E ms ks)) (\<lambda>calls.
     bindS (push (Assistant_msg (map tc_id calls))) (\<lambda>_.
     if calls = [] then bindS (push (User_msg 0)) (\<lambda>_. episode_loop E final n)
     else bindS (run_calls E final calls []) (\<lambda>r.
       case r of
         Some a \<Rightarrow> retS (Some a)
       | None \<Rightarrow> bindS (if n = 1 then push (User_msg 0) else retS ()) (\<lambda>_. episode_loop E final n)))))" for ms ks
  proof (rule succeeds_bind_post[where Q = finite_numbers])
    show "succeeds (in_session (chat E ms ks))" by (intro succeeds_in_session chat_answers assms)
    fix s x t assume "in_session (chat E ms ks) s = (Inr x, t)"
    with chat_answers(2)[OF assms] in_session_kept show "finite_numbers x" by blast
  next
    fix calls assume "finite_numbers calls"
    from succeeds_run_calls[OF assms this] show "succeeds (bindS (push (Assistant_msg (map tc_id calls))) (\<lambda>_.
     if calls = [] then bindS (push (User_msg 0)) (\<lambda>_. episode_loop E final n)
     else bindS (run_calls E final calls []) (\<lambda>r.
       case r of
         Some a \<Rightarrow> retS (Some a)
       | None \<Rightarrow> bindS (if n = 1 then push (User_msg 0) else retS ()) (\<lambda>_. episode_loop E final n))))"
      unfolding push_def by (intro succeeds_intro Suc.IH)
  qed
  show ?case unfolding episode_loop.simps by (intro succeeds_bind succeeds_get succeeds_case_prod turn)
qed

lemma episode_succeeds:
  assumes "services_answer E" shows "\<exists>x. fst (episode E final n ks s) = Inr x"
proof -
  from succeeds_episode_loop[OF assms] obtain x k where "episode_loop E final n (start_talk ks s) = (Inr x, k)"
    unfolding succeeds_def by blast
  then show ?thesis by (simp add: episode_def)
qed

lemma load_regions_succeeds: "\<exists>x. fst (load_regions E rs s) = Inr x"
proof -
  have "succeeds (session_region E x y)" for x y
    by (auto simp: succeeds_def session_region_def split: prod.split)
  then have "succeeds (load_regions E rs)"
  proof (induction rs)
    case (Cons r rs)
    then show ?case by (cases r) (auto intro!: succeeds_intro)
  qed (simp add: succeeds_ret)
  then show ?thesis unfolding succeeds_def by (metis fst_conv)
qed

lemma services_answer_trip: "services_answer (E\<lparr>te_trip := t\<rparr>) \<longleftrightarrow> services_answer E"
  by (simp add: services_answer_def reply_within_def max_attempts_def)

lemma talks_answer:
  assumes "services_answer E"
  shows "\<exists>x. ge_regions (talking_agent E S rq A) = Inr x" "\<exists>x. ge_decide (talking_agent E S rq A) n t p = Inr x"
    "\<exists>x. ge_finalize (talking_agent E S rq A) n t ps = Inr x" "\<exists>x. ge_merge (talking_agent E S rq A) t = Inr x"
proof -
  have e: "\<exists>x. fst (episode (E\<lparr>te_trip := t\<rparr>) final m ks s) = Inr x" for t final m ks s
    by (rule episode_succeeds) (simp add: services_answer_trip assms)
  show "\<exists>x. ge_regions (talking_agent E S rq A) = Inr x" using load_regions_succeeds by (simp add: talking_agent_def)
  show "\<exists>x. ge_decide (talking_agent E S rq A) n t p = Inr x"
    using e[of t "''decide''" MAX_CALLS "photo_keys (estimate_photos t p)" "as_decide S n p"]
    by (auto simp: talking_agent_def decide_talk_def)
  show "\<exists>x. ge_finalize (talking_agent E S rq A) n t ps = Inr x"
    using e[of t "''finalize''" MAX_CALLS "[]" "as_finalize S n"] by (auto simp: talking_agent_def finalize_talk_def)
  show "\<exists>x. ge_merge (talking_agent E S rq A) t = Inr x"
    using e[of t "''merge''" MAX_MERGE_CALLS "[]" "as_merge S"] by (auto simp: talking_agent_def merge_talk_def)
qed

end
