(* ===== verification/AgentLemmas.thy ===== *)
theory AgentLemmas
  imports AgentGraph
begin

text \<open>
  The agent's graph ends within nineteen steps, far below the recursion limit; the agent only
  places photos it was asked about and otherwise only renames places.
\<close>

section \<open>The graph ends\<close>

lemma bindA_Inr: "bindA m f l = (Inr y, k) \<longleftrightarrow> (\<exists>x j. m l = (Inr x, j) \<and> f x j = (Inr y, k))"
  by (auto simp: bindA_def split: prod.split sum.split)

lemma retA_Inr [simp]: "retA x l = (Inr y, k) \<longleftrightarrow> y = x \<and> k = l"
  unfolding retA_def by auto

lemma liftA_Inr [simp]: "liftA r l = (Inr y, k) \<longleftrightarrow> r = Inr y \<and> k = l"
  by (auto simp: liftA_def)

fun steps_left :: "graph_node \<Rightarrow> graph_state \<Rightarrow> nat" where
  "steps_left End_node s = 0"
| "steps_left Aggregate s = (if gs_final s then 1 else if gs_round s < MAX_ROUNDS then 8 + 3 * (4 - gs_round s) else 5)"
| "steps_left Estimate s = Suc (if gs_final s then 1 else if gs_round s < MAX_ROUNDS then 8 + 3 * (4 - gs_round s) else 5)"
| "steps_left Select s = (if gs_final s then 3 else 7 + 3 * (4 - gs_round s))"
| "steps_left Merge s = 4"

definition on_schedule :: "graph_node \<Rightarrow> graph_state \<Rightarrow> bool" where
  "on_schedule nd s \<longleftrightarrow> (nd = Select \<and> \<not> gs_final s \<longrightarrow> gs_round s < MAX_ROUNDS) \<and>
     (nd \<in> {Estimate, Aggregate} \<and> \<not> gs_final s \<longrightarrow> 0 < gs_round s \<and> gs_round s \<le> MAX_ROUNDS) \<and>
     (nd = Merge \<longrightarrow> \<not> gs_final s)"

lemma graph_step_schedule:
  assumes "graph_step E nd s l = (Inr (nd', s'), l')" "on_schedule nd s" "nd \<noteq> End_node"
  shows "steps_left nd' s' < steps_left nd s \<and> on_schedule nd' s'"
proof (cases nd)
  case Select
  with assms show ?thesis
    by (auto simp: on_schedule_def Let_def MAX_ROUNDS_def split: if_splits)
next
  case Estimate
  with assms show ?thesis by (auto simp: on_schedule_def Let_def bindA_Inr)
next
  case Aggregate
  with assms show ?thesis
    by (auto simp: on_schedule_def bindA_Inr MAX_ROUNDS_def split: prod.splits if_splits)
next
  case Merge
  with assms show ?thesis by (auto simp: on_schedule_def bindA_Inr)
qed (use assms in simp)

lemma run_graph_enough:
  assumes "steps_left nd s \<le> n" "on_schedule nd s"
  shows "run_graph (n + k) E nd s l = run_graph n E nd s l"
  using assms
proof (induction n arbitrary: nd s l)
  case 0
  then have "nd = End_node" by (cases nd) (auto split: if_splits)
  then show ?case by (cases k) (simp_all add: liftA_def retA_def)
next
  case (Suc n)
  show ?case
  proof (cases "nd = End_node")
    case False
    obtain r l' where st: "graph_step E nd s l = (r, l')" by (cases "graph_step E nd s l")
    show ?thesis
    proof (cases r)
      case (Inl e)
      with st False show ?thesis by (simp add: bindA_def)
    next
      case (Inr a)
      obtain nd' s' where a: "a = (nd', s')" by (cases a)
      from graph_step_schedule[OF st[unfolded Inr a] Suc.prems(2) False] Suc.prems(1)
      have "run_graph (n + k) E nd' s' l' = run_graph n E nd' s' l'"
        by (intro Suc.IH) auto
      with st False Inr a show ?thesis by (simp add: bindA_def)
    qed
  qed simp
qed

text \<open>At most five estimates in the loop, one more after merging.\<close>

definition rounds_ok :: "graph_node \<Rightarrow> graph_state \<Rightarrow> bool" where
  "rounds_ok nd s \<longleftrightarrow> on_schedule nd s \<and>
     (if gs_final s then gs_estimates s \<le> (if nd \<in> {Select, Estimate} then 5 else 6)
      else gs_round s \<le> 5 \<and> (if nd = Estimate then gs_estimates s < gs_round s else gs_estimates s \<le> gs_round s))"

lemma graph_step_rounds:
  assumes "graph_step E nd s l = (Inr (nd', s'), l')" "rounds_ok nd s"
  shows "rounds_ok nd' s'"
proof (cases "nd = End_node")
  case False
  with graph_step_schedule[OF assms(1)] assms(2) have "on_schedule nd' s'" by (simp add: rounds_ok_def)
  with assms False show ?thesis
    by (cases nd) (auto simp: rounds_ok_def on_schedule_def bindA_Inr Let_def MAX_ROUNDS_def
        split: prod.splits if_splits)
qed (use assms in simp)

lemma run_graph_rounds:
  "run_graph n E nd s l = (Inr s', l') \<Longrightarrow> rounds_ok nd s \<Longrightarrow> gs_estimates s' \<le> 6"
proof (induction n arbitrary: nd s l)
  case 0
  then show ?case by (auto simp: rounds_ok_def split: if_splits)
next
  case (Suc n)
  show ?case
  proof (cases "nd = End_node")
    case True
    with Suc.prems show ?thesis by (auto simp: rounds_ok_def split: if_splits)
  next
    case False
    with Suc.prems(1) obtain nd1 s1 k where "graph_step E nd s l = (Inr (nd1, s1), k)"
      "run_graph n E nd1 s1 k = (Inr s', l')" by (auto simp: bindA_Inr)
    with Suc.IH graph_step_rounds Suc.prems(2) show ?thesis by blast
  qed
qed

section \<open>What the agent does to photos\<close>

definition same_photo :: "photo \<Rightarrow> photo \<Rightarrow> bool" where
  "same_photo p q \<longleftrightarrow> ph_src q = ph_src p \<and> ph_taken q = ph_taken p \<and> ph_time q = ph_time p \<and>
     ph_emb q = ph_emb p \<and> ph_dup q = ph_dup p \<and> ph_eval q = ph_eval p"

definition agent_moved :: "photo \<Rightarrow> photo \<Rightarrow> bool" where
  "agent_moved p q \<longleftrightarrow> same_photo p q \<and>
     (if ph_place p = None \<and> ph_place q \<noteq> None
      then agent_target p \<and> ph_origin q = INFERRED \<and> ph_issue q = None
      else (ph_place p = None \<longleftrightarrow> ph_place q = None) \<and> ph_lat q = ph_lat p \<and> ph_lon q = ph_lon p \<and>
        ph_origin q = ph_origin p \<and> ph_issue q = ph_issue p)"

lemma agent_moved_refl [simp]: "agent_moved p p"
  by (auto simp: agent_moved_def same_photo_def)

lemma agent_moved_trans:
  assumes "agent_moved p q" "agent_moved q r" shows "agent_moved p r"
proof -
  have "agent_target q \<Longrightarrow> ph_place p = None \<Longrightarrow> ph_place q = None \<Longrightarrow> agent_target p"
    using assms(1) by (auto simp: agent_moved_def same_photo_def agent_target_def)
  with assms show ?thesis
    by (cases "ph_place p"; cases "ph_place q"; cases "ph_place r")
      (auto simp: agent_moved_def same_photo_def)
qed

lemma agent_moved_list_refl: "list_all2 agent_moved ps ps"
  by (simp add: list_all2_same)

lemma agent_moved_list_trans:
  "list_all2 agent_moved ps qs \<Longrightarrow> list_all2 agent_moved qs rs \<Longrightarrow> list_all2 agent_moved ps rs"
  by (rule list_all2_trans[OF agent_moved_trans])

lemma agent_moved_src: "list_all2 agent_moved ps qs \<Longrightarrow> map ph_src qs = map ph_src ps"
  by (induction rule: list_all2_induct) (simp_all add: agent_moved_def same_photo_def)

lemma assign_photo_result:
  "assign_photo t i pl = Inr t' \<Longrightarrow>
   \<exists>la lo. t' = t\<lparr>tv_photos := update_id i (put_photo (canon t pl) la lo) (tv_photos t)\<rparr>"
  by (auto simp: assign_photo_def Let_def split: option.splits list.splits)

lemma update_moved_agent:
  assumes "by_id ps i = Some p" "agent_target p" "distinct (map ph_id ps)"
  shows "list_all2 agent_moved ps (update_id i (put_photo pl la lo) ps)"
  unfolding update_id_def list_all2_map2 list_all2_same
proof
  fix q assume q: "q \<in> set ps"
  show "agent_moved q (if ph_id q = i then put_photo pl la lo q else q)"
  proof (cases "ph_id q = i")
    case True
    with by_id_distinct[OF assms(3) q] assms(1) have "q = p" by simp
    with assms(2) True show ?thesis
      by (simp add: agent_moved_def same_photo_def put_photo_def agent_target_def)
  qed simp
qed

text \<open>Proposals are about photos that are placed by now or still targets.\<close>

definition placed_or_target :: "int list \<Rightarrow> trip_view \<Rightarrow> bool" where
  "placed_or_target ids t \<longleftrightarrow> distinct (map ph_id (tv_photos t)) \<and>
     (\<forall>i \<in> set ids. \<forall>p. by_id (tv_photos t) i = Some p \<longrightarrow> ph_place p \<noteq> None \<or> agent_target p)"

lemma add_new_place_photos:
  "add_new_place t n = (t', pl) \<Longrightarrow> tv_photos t' = tv_photos t \<and> tv_merged t' = tv_merged t"
  by (auto simp: add_new_place_def Let_def split: option.splits prod.splits)

lemma apply_proposal_photos:
  assumes "apply_proposal nt p (t, ids, n) = Inr (t', ids', n')"
  shows "tv_photos t' = tv_photos t \<or>
    (\<exists>q pl la lo. by_id (tv_photos t) (pp_photo p) = Some q \<and> ph_place q = None \<and>
       tv_photos t' = update_id (pp_photo p) (put_photo pl la lo) (tv_photos t))"
proof -
  from assms obtain q where q: "by_id (tv_photos t) (pp_photo p) = Some q"
    by (auto simp: apply_proposal_def split: option.splits)
  show ?thesis
  proof (cases "ph_place q")
    case (Some x)
    with assms q show ?thesis by (auto simp: apply_proposal_def)
  next
    case None
    have "\<exists>t1 pl. tv_photos t1 = tv_photos t \<and> assign_photo t1 (pp_photo p) pl = Inr t'"
      using assms q None
      by (auto simp: apply_proposal_def Let_def dest: add_new_place_photos
          split: option.splits decision.splits prod.splits)
    then show ?thesis using assign_photo_result q None by fastforce
  qed
qed

lemma put_photo_src [simp]: "ph_src (put_photo pl la lo p) = ph_src p"
  by (simp add: put_photo_def)

lemma apply_proposal_keeps:
  assumes a: "apply_proposal nt p (t, ids, n) = Inr (t', ids', n')"
    and inv: "placed_or_target all t" and p: "pp_photo p \<in> set all"
  shows "list_all2 agent_moved (tv_photos t) (tv_photos t') \<and> placed_or_target all t'"
  using apply_proposal_photos[OF a]
proof
  assume "tv_photos t' = tv_photos t"
  with inv show ?thesis by (simp add: placed_or_target_def agent_moved_list_refl)
next
  assume "\<exists>q pl la lo. by_id (tv_photos t) (pp_photo p) = Some q \<and> ph_place q = None \<and>
       tv_photos t' = update_id (pp_photo p) (put_photo pl la lo) (tv_photos t)"
  then obtain q pl la lo where q: "by_id (tv_photos t) (pp_photo p) = Some q" "ph_place q = None"
    and t': "tv_photos t' = update_id (pp_photo p) (put_photo pl la lo) (tv_photos t)" by blast
  from inv p q have tq: "agent_target q" and d: "distinct (map ph_id (tv_photos t))"
    by (auto simp: placed_or_target_def)
  have "map ph_id (tv_photos t') = map ph_id (tv_photos t)"
    unfolding t' by (auto simp: update_id_def)
  moreover have "ph_place r \<noteq> None \<or> agent_target r"
    if "i \<in> set all" "by_id (tv_photos t') i = Some r" for i r
    using that inv q(1) by_id_update[of "put_photo pl la lo" "pp_photo p" "tv_photos t" i]
    unfolding t' by (auto simp: placed_or_target_def put_photo_def split: if_splits)
  ultimately show ?thesis
    using update_moved_agent[OF q(1) tq d] d t' by (simp add: placed_or_target_def)
qed

lemma apply_proposals_keeps:
  assumes "apply_proposals nt ps t = Inr (t', n)" "placed_or_target (map pp_photo ps) t"
  shows "list_all2 agent_moved (tv_photos t) (tv_photos t')"
proof -
  let ?P = "\<lambda>st. list_all2 agent_moved (tv_photos t) (tv_photos (fst st)) \<and>
      placed_or_target (map pp_photo ps) (fst st)"
  from assms(1) obtain ids where f: "foldE (apply_proposal nt) ps (t, [], 0) = Inr (t', ids, n)"
    by (auto simp: apply_proposals_def)
  have "?P (t', ids, n)"
  proof (rule foldE_invariant[OF f, where P = ?P])
    show "?P (t, [], 0)" using assms(2) by (simp add: agent_moved_list_refl)
    fix p s s' assume p: "p \<in> set ps" "apply_proposal nt p s = Inr s'" "?P s"
    obtain u i m u' i' m' where s: "s = (u, i, m)" "s' = (u', i', m')" by (cases s; cases s')
    from apply_proposal_keeps[OF p(2)[unfolded s]] p(1,3) s show "?P s'"
      using agent_moved_list_trans by fastforce
  qed
  then show ?thesis by simp
qed

lemma merge_into_photos [simp]: "tv_photos (merge_into h x t) = tv_photos t"
  by (simp add: merge_into_def)

lemma fold_merge_photos [simp]: "tv_photos (fold (merge_into h) xs t) = tv_photos t"
  by (induction xs arbitrary: t) simp_all

lemma apply_group_photos [simp]: "tv_photos (apply_group g t) = tv_photos t"
  by (simp add: apply_group_def split: list.split)

lemma apply_groups_photos [simp]: "tv_photos (apply_groups gs t) = tv_photos t"
  unfolding apply_groups_def by (induction gs arbitrary: t) simp_all

section \<open>The whole agent\<close>

lemma wait_each_Inr: "wait_each E rs l = (Inr xs, k) \<Longrightarrow> rs = map Inr xs"
  by (induction E rs arbitrary: l xs rule: wait_each.induct) (auto simp: bindA_Inr)

lemma wait_many_Inr: "wait_many E rs l = (Inr xs, k) \<Longrightarrow> rs = map Inr xs"
  by (auto simp: wait_many_def bindA_Inr dest: wait_each_Inr)

lemma wait_one_Inr: "wait_one E r l = (Inr x, k) \<Longrightarrow> r = Inr x"
  by (auto simp: wait_one_def bindA_Inr dest!: wait_many_Inr)

lemma estimate_proposal_photo [simp]: "pp_photo (estimate_proposal t ir i f cs) = i"
  by (simp add: estimate_proposal_def Let_def split: option.split)

lemma estimate_call_photo: "estimate_call E s p = Inr pp \<Longrightarrow> pp_photo pp = ph_id p"
  by (auto simp: estimate_call_def split: prod.splits)

lemma estimates_photos:
  "map (estimate_call E s) ps = map Inr pps \<Longrightarrow> map pp_photo pps = map ph_id ps"
proof (induction ps arbitrary: pps)
  case (Cons p ps)
  then obtain pp pps' where "pps = pp # pps'" "estimate_call E s p = Inr pp"
    "map (estimate_call E s) ps = map Inr pps'" by (cases pps) auto
  with Cons.IH estimate_call_photo show ?case by simp
qed simp

lemma aggregate_call_subset: "aggregate_call E s = Inr ps \<Longrightarrow> set ps \<subseteq> set (gs_proposals s)"
  by (auto simp: aggregate_call_def Let_def accepted_proposals_def high_proposals_def split: if_splits)

lemma placed_or_target_subset:
  "placed_or_target ids t \<Longrightarrow> set ids' \<subseteq> set ids \<Longrightarrow> placed_or_target ids' t"
  by (auto simp: placed_or_target_def)

definition graph_inv :: "photo list \<Rightarrow> graph_node \<Rightarrow> graph_state \<Rightarrow> bool" where
  "graph_inv ps0 nd s \<longleftrightarrow> list_all2 agent_moved ps0 (tv_photos (gs_trip s)) \<and>
     distinct (map ph_id (tv_photos (gs_trip s))) \<and>
     (nd = Aggregate \<longrightarrow> placed_or_target (map pp_photo (gs_proposals s)) (gs_trip s))"

lemma targets_placed_or_target:
  assumes "distinct (map ph_id (tv_photos t))"
  shows "placed_or_target (map ph_id (targets t)) t"
  unfolding placed_or_target_def
proof (intro conjI ballI allI impI)
  fix i p assume "i \<in> set (map ph_id (targets t))" "by_id (tv_photos t) i = Some p"
  then obtain q where "q \<in> set (tv_photos t)" "agent_target q" "by_id (tv_photos t) (ph_id q) = Some p"
    by (auto simp: targets_def)
  with by_id_distinct[OF assms] show "ph_place p \<noteq> None \<or> agent_target p" by simp
qed (rule assms)

lemma same_ids: "list_all2 agent_moved ps qs \<Longrightarrow> map ph_id qs = map ph_id ps"
  by (induction rule: list_all2_induct) (simp_all add: agent_moved_def same_photo_def)

lemma graph_step_inv:
  assumes "graph_step E nd s l = (Inr (nd', s'), l')" "graph_inv ps0 nd s"
  shows "graph_inv ps0 nd' s'"
proof (cases nd)
  case Select
  with assms show ?thesis by (auto simp: graph_inv_def Let_def)
next
  case Estimate
  with assms(1) obtain pps k where
    w: "wait_many E (map (estimate_call E (s\<lparr>gs_estimates := gs_estimates s + 1\<rparr>)) (targets (gs_trip s))) l = (Inr pps, k)"
    and n: "nd' = Aggregate" "s' = s\<lparr>gs_estimates := gs_estimates s + 1, gs_proposals := pps\<rparr>"
    by (auto simp: Let_def bindA_Inr)
  have "map pp_photo pps = map ph_id (targets (gs_trip s))"
    by (rule estimates_photos[OF wait_many_Inr[OF w]])
  with n assms(2) targets_placed_or_target[of "gs_trip s"] show ?thesis by (simp add: graph_inv_def)
next
  case Aggregate
  with assms(1) obtain acc k t changed where
    c: "(if list_ex (\<lambda>p. pp_conf p = High) (gs_proposals s)
            then wait_one E (aggregate_call E s) else retA []) l = (Inr acc, k)"
    and a: "apply_proposals (ge_normalize E) acc (gs_trip s) = Inr (t, changed)"
    and n: "s' = s\<lparr>gs_trip := t, gs_changed := changed\<rparr>" "nd' \<noteq> Aggregate"
    by (auto simp: bindA_Inr split: prod.splits)
  from c have "set acc \<subseteq> set (gs_proposals s)"
    by (auto split: if_splits dest!: wait_one_Inr aggregate_call_subset)
  then have sub: "set (map pp_photo acc) \<subseteq> set (map pp_photo (gs_proposals s))" by auto
  from assms(2) Aggregate have "placed_or_target (map pp_photo (gs_proposals s)) (gs_trip s)"
    by (simp add: graph_inv_def)
  from placed_or_target_subset[OF this sub] have p: "placed_or_target (map pp_photo acc) (gs_trip s)" .
  note k = apply_proposals_keeps[OF a p]
  from assms(2) have m: "list_all2 agent_moved ps0 (tv_photos (gs_trip s))"
    and d: "distinct (map ph_id (tv_photos (gs_trip s)))" by (simp_all add: graph_inv_def)
  show ?thesis
    using agent_moved_list_trans[OF m k] d same_ids[OF k] n by (simp add: graph_inv_def)
next
  case Merge
  with assms show ?thesis by (auto simp: graph_inv_def bindA_Inr)
next
  case End_node
  with assms show ?thesis by simp
qed

lemma run_graph_inv:
  "run_graph n E nd s l = (Inr s', l') \<Longrightarrow> graph_inv ps0 nd s \<Longrightarrow> graph_inv ps0 End_node s'"
proof (induction n arbitrary: nd s l)
  case 0
  then show ?case by (auto simp: split: if_splits)
next
  case (Suc n)
  show ?case
  proof (cases "nd = End_node")
    case True
    with Suc.prems show ?thesis by simp
  next
    case False
    with Suc.prems(1) obtain nd1 s1 k where st: "graph_step E nd s l = (Inr (nd1, s1), k)"
      and r: "run_graph n E nd1 s1 k = (Inr s', l')" by (auto simp: bindA_Inr)
    from Suc.IH[OF r graph_step_inv[OF st Suc.prems(2)]] show ?thesis .
  qed
qed

lemma finish_trip_moved: "list_all2 agent_moved (tv_photos t) (tv_photos (finish_trip t))"
  by (auto simp: finish_trip_def Let_def list_all2_map2 list_all2_same agent_moved_def same_photo_def
      has_place_def split: option.splits)

lemma agent_body_moved:
  assumes "agent_body E t l = (Inr t', k)" "distinct (map ph_id (tv_photos t))"
  shows "list_all2 agent_moved (tv_photos t) (tv_photos t')"
proof -
  from assms(1) obtain s j where r: "run_graph RECURSION_LIMIT E Select (start_state t) j = (Inr s, k)"
    and t': "t' = finish_trip (gs_trip s)" by (auto simp: agent_body_def bindA_Inr)
  have "graph_inv (tv_photos t) Select (start_state t)"
    using assms(2) by (simp add: graph_inv_def start_state_def agent_moved_list_refl)
  from run_graph_inv[OF r this] finish_trip_moved[of "gs_trip s"] show ?thesis
    unfolding t' graph_inv_def using agent_moved_list_trans by blast
qed

lemma write_back_moved:
  assumes "list_all2 agent_moved (tv_photos t0) (tv_photos t)" "distinct (map ph_id ps)"
    and sub: "set (tv_photos t0) \<subseteq> set ps" and d: "distinct (map ph_id (tv_photos t0))"
  shows "list_all2 agent_moved ps (write_back ps t)"
  unfolding write_back_def list_all2_map2 list_all2_same
proof
  fix p assume p: "p \<in> set ps"
  show "agent_moved p (case by_id (tv_photos t) (ph_id p) of Some q \<Rightarrow> q | None \<Rightarrow> p)"
  proof (cases "p \<in> set (tv_photos t0)")
    case True
    from list_all2_by_id[OF assms(1) same_ids[OF assms(1)] d True] show ?thesis by auto
  next
    case False
    have "ph_id p \<notin> ph_id ` set (tv_photos t0)"
    proof
      assume "ph_id p \<in> ph_id ` set (tv_photos t0)"
      then obtain q where q: "q \<in> set (tv_photos t0)" "ph_id q = ph_id p" by auto
      with sub p assms(2) have "q = p" by (metis distinct_map inj_onD subsetD)
      with q False show False by simp
    qed
    then have "by_id (tv_photos t) (ph_id p) = None"
      using arg_cong[OF same_ids[OF assms(1)], of set] by (simp add: by_id_None)
    then show ?thesis by simp
  qed
qed

lemma trip_view_photos:
  "distinct (map ph_id ps) \<Longrightarrow>
   set (tv_photos (trip_view_of ps pd c)) \<subseteq> set ps \<and> distinct (map ph_id (tv_photos (trip_view_of ps pd c)))"
  by (auto simp: trip_view_of_def distinct_sort_id distinct_map_filter)

lemma run_agent_moved:
  assumes "snd (run_agent E ths rq ps) = Inr qs" "distinct (map ph_id ps)"
  shows "list_all2 agent_moved ps qs"
proof -
  let ?t = "trip_view_of ps (rq_period rq) (hd (rq_regions rq))"
  note tv = trip_view_photos[OF assms(2), of "rq_period rq" "hd (rq_regions rq)"]
  show ?thesis
  proof (cases "qs = ps")
    case False
    with assms(1) obtain t' l where b: "agent_body E ?t \<lparr>al_ticks = 0, al_checks = 0, al_events = []\<rparr> = (Inr t', l)"
      and q: "qs = write_back ps t'"
      by (auto simp: run_agent_def Let_def split: if_splits prod.splits sum.splits)
    from write_back_moved[OF agent_body_moved[OF b] assms(2)] tv q show ?thesis by blast
  qed (simp add: agent_moved_list_refl)
qed

end
