(* ===== verification/AgentSound.thy ===== *)
theory AgentSound
  imports AgentLemmas
begin

text \<open>
  The agent's bookkeeping: the merge map is a forest, so \<open>canon\<close> always ends; every place a photo
  or a new place can lead to has coordinates to give, so assigning never fails.
\<close>

section \<open>The merge map is a forest\<close>

fun forest_rev :: "(string \<times> string) list \<Rightarrow> bool" where
  "forest_rev [] = True"
| "forest_rev ((k, v) # m) \<longleftrightarrow> forest_rev m \<and> k \<notin> fst ` set m \<and> v \<notin> fst ` set m \<and> v \<noteq> k"

definition forest :: "(string, string) pydict \<Rightarrow> bool" where
  "forest m \<longleftrightarrow> forest_rev (rev m)"

lemma forest_Nil [simp]: "forest []"
  by (simp add: forest_def)

lemma forest_snoc: "forest (m @ [(k, v)]) \<longleftrightarrow> forest m \<and> map_of m k = None \<and> map_of m v = None \<and> v \<noteq> k"
  by (auto simp: forest_def map_of_eq_None_iff)

lemma canon_loop_root: "canon_loop n m pl = Some q \<Longrightarrow> map_of m q = None"
  by (induction n m pl rule: canon_loop.induct) (auto split: option.splits)

lemma canon_loop_snoc:
  assumes "canon_loop n m pl = Some q" "map_of m k = None" "map_of m v = None" "v \<noteq> k"
  shows "canon_loop (Suc n) (m @ [(k, v)]) pl = Some (if q = k then v else q)"
  using assms
proof (induction n m pl rule: canon_loop.induct)
  case (2 n m pl)
  show ?case
  proof (cases "map_of m pl")
    case None
    with 2 show ?thesis by (auto simp: map_of_snoc simp del: map_of_append)
  next
    case (Some r)
    with 2 show ?thesis by (auto simp: map_of_snoc simp del: map_of_append)
  qed
qed simp

lemma canon_loop_ends: "forest m \<Longrightarrow> canon_loop (length m + 1) m pl \<noteq> None"
proof (induction m rule: rev_induct)
  case (snoc x m)
  obtain k v where x: "x = (k, v)" by (cases x)
  with snoc.prems have f: "forest m" "map_of m k = None" "map_of m v = None" "v \<noteq> k"
    by (auto simp: forest_snoc)
  from snoc.IH[OF f(1)] obtain q where "canon_loop (length m + 1) m pl = Some q" by blast
  from canon_loop_snoc[OF this f(2-4)] show ?case by (simp add: x)
qed simp

lemma canon_root: "forest (tv_merged t) \<Longrightarrow> map_of (tv_merged t) (canon t pl) = None"
  using canon_loop_ends[of "tv_merged t" pl] canon_loop_root
  by (auto simp: canon_def split: option.splits)

lemma canon_id: "map_of (tv_merged t) pl = None \<Longrightarrow> canon t pl = pl"
  by (simp add: canon_def)

lemma canon_canon: "forest (tv_merged t) \<Longrightarrow> canon t (canon t pl) = canon t pl"
  by (simp add: canon_id canon_root)

lemma canon_snoc:
  assumes "tv_merged t' = tv_merged t @ [(k, v)]" "forest (tv_merged t')"
  shows "canon t' pl = (if canon t pl = k then v else canon t pl)"
proof -
  from assms have f: "forest (tv_merged t)" "map_of (tv_merged t) k = None" "map_of (tv_merged t) v = None" "v \<noteq> k"
    by (simp_all add: forest_snoc)
  from canon_loop_ends[OF f(1)] obtain q where q: "canon_loop (length (tv_merged t) + 1) (tv_merged t) pl = Some q"
    by blast
  from canon_loop_snoc[OF q f(2-4)] q assms(1) show ?thesis by (simp add: canon_def)
qed

lemma canon_cong: "tv_merged t' = tv_merged t \<Longrightarrow> canon t' pl = canon t pl"
  by (simp add: canon_def)

lemma canon_loop_values: "canon_loop n m pl = Some q \<Longrightarrow> q = pl \<or> q \<in> snd ` set m"
proof (induction n m pl rule: canon_loop.induct)
  case (2 n m pl)
  then show ?case by (force split: option.splits dest: map_of_SomeD)
qed simp

lemma canon_values: "canon t pl = pl \<or> canon t pl \<in> snd ` set (tv_merged t)"
  unfolding canon_def
  using canon_loop_values[of "length (tv_merged t) + 1" "tv_merged t" pl]
  by (cases "canon_loop (length (tv_merged t) + 1) (tv_merged t) pl") (simp_all del: canon_loop.simps)

lemma dict_set_fresh: "map_of d k = None \<Longrightarrow> dict_set k v d = d @ [(k, v)]"
  by (induction k v d rule: dict_set.induct) (auto split: if_splits)

lemma dict_set_same: "map_of d k = Some v \<Longrightarrow> dict_set k v d = d"
  by (induction k v d rule: dict_set.induct) (auto split: if_splits)

text \<open>Merging the roots \<open>xs\<close> into the root \<open>h\<close>.\<close>

lemma fold_merge:
  assumes "forest (tv_merged t)" "map_of (tv_merged t) h = None"
    and "\<forall>x \<in> set xs. map_of (tv_merged t) x = None \<or> map_of (tv_merged t) x = Some h"
  shows "let t' = fold (merge_into h) xs t in forest (tv_merged t') \<and>
    (\<forall>pl. canon t' pl = (if canon t pl \<in> set xs then h else canon t pl)) \<and> tv_new t' = tv_new t \<and>
    set (tv_merged t') \<subseteq> set (tv_merged t) \<union> set xs \<times> {h}"
  using assms
proof (induction xs arbitrary: t)
  case (Cons x xs)
  have h: "canon t h = h" using Cons.prems(2) by (rule canon_id)
  let ?t = "merge_into h x t"
  show ?case
  proof (cases "x = h \<or> map_of (tv_merged t) x = Some h")
    case True
    then have "?t = t" using h dict_set_same[of "tv_merged t" x h] by (auto simp: merge_into_def)
    moreover have "canon t pl = x \<Longrightarrow> x = h" for pl
      using True canon_root[OF Cons.prems(1), of pl] by auto
    ultimately show ?thesis using Cons.IH[of t] Cons.prems by (fastforce simp: Let_def)
  next
    case False
    with Cons.prems have x: "map_of (tv_merged t) x = None" "x \<noteq> h" by auto
    then have m: "tv_merged ?t = tv_merged t @ [(x, h)]" and n: "tv_new ?t = tv_new t"
      using h by (simp_all add: merge_into_def dict_set_fresh)
    have f: "forest (tv_merged ?t)"
      using Cons.prems x by (simp add: m forest_snoc)
    have "map_of (tv_merged ?t) h = None" using Cons.prems(2) x m by (simp add: map_of_snoc del: map_of_append)
    moreover have "\<forall>y \<in> set xs. map_of (tv_merged ?t) y = None \<or> map_of (tv_merged ?t) y = Some h"
      using Cons.prems(3) x m by (auto simp: map_of_snoc simp del: map_of_append)
    ultimately have ih: "let t' = fold (merge_into h) xs ?t in forest (tv_merged t') \<and>
        (\<forall>pl. canon t' pl = (if canon ?t pl \<in> set xs then h else canon ?t pl)) \<and> tv_new t' = tv_new ?t \<and>
        set (tv_merged t') \<subseteq> set (tv_merged ?t) \<union> set xs \<times> {h}"
      using Cons.IH[OF f] by blast
    have c: "canon ?t pl = (if canon t pl = x then h else canon t pl)" for pl
      using canon_snoc[OF m f, of pl] by simp
    show ?thesis
      unfolding Let_def fold.simps comp_def
    proof (intro conjI)
      show "forest (tv_merged (fold (merge_into h) xs ?t))" using ih by (simp add: Let_def)
      show "tv_new (fold (merge_into h) xs ?t) = tv_new t" using ih n by (simp add: Let_def)
      show "\<forall>pl. canon (fold (merge_into h) xs ?t) pl = (if canon t pl \<in> set (x # xs) then h else canon t pl)"
        using ih c unfolding Let_def by auto
      show "set (tv_merged (fold (merge_into h) xs ?t)) \<subseteq> set (tv_merged t) \<union> set (x # xs) \<times> {h}"
        using ih m unfolding Let_def by auto
    qed
  qed
qed simp

section \<open>Places that can give coordinates\<close>

definition good_name :: "trip_view \<Rightarrow> string \<Rightarrow> bool" where
  "good_name t x \<longleftrightarrow> x \<noteq> [] \<and> (x \<in> fst ` set (tv_new t) \<or> hd x \<noteq> CHR ''n'')"

definition trip_names :: "trip_view \<Rightarrow> string set" where
  "trip_names t = {pl. pl \<noteq> [] \<and> (\<exists>p \<in> set (tv_photos t). ph_place p = Some pl)} \<union> fst ` set (tv_new t)"

definition coord_ok :: "trip_view \<Rightarrow> string \<Rightarrow> bool" where
  "coord_ok t x \<longleftrightarrow> x \<in> fst ` set (tv_new t) \<or>
     (\<exists>p \<in> set (tv_photos t). \<exists>pl. pl \<noteq> [] \<and> ph_place p = Some pl \<and> canon t pl = x \<and> ph_origin p = EXIF)"

definition trip_sound :: "trip_view \<Rightarrow> bool" where
  "trip_sound t \<longleftrightarrow> forest (tv_merged t) \<and> distinct (map ph_id (tv_photos t)) \<and>
     map fst (tv_new t) = map new_name [1..<length (tv_new t) + 1] \<and>
     (\<forall>x \<in> trip_names t. good_name t x \<and> coord_ok t (canon t x)) \<and>
     (\<forall>(k, v) \<in> set (tv_merged t). good_name t k \<and> good_name t v)"

lemma good_canon: "trip_sound t \<Longrightarrow> good_name t x \<Longrightarrow> good_name t (canon t x)"
  using canon_values[of t x] by (auto simp: trip_sound_def)

lemma new_name_inject [simp]: "new_name m = new_name n \<longleftrightarrow> m = n"
  by (simp add: new_name_def)

lemma members_of_eq:
  "members_of t x = filter (\<lambda>p. placed t p \<and> the (place_of t p) = x) (tv_photos t)"
  by (simp add: members_of_def dict_get_def places_def map_of_group_by filter_filter
      cong: conj_cong)

lemma coord_ok_assigns:
  assumes "coord_ok t (canon t pl)" "canon t pl \<noteq> []" "by_id (tv_photos t) i = Some p"
  shows "\<exists>t'. assign_photo t i pl = Inr t'"
proof (cases "gps_photos (members_of t (canon t pl))")
  case Nil
  have "canon t pl \<in> fst ` set (tv_new t)"
  proof (rule ccontr)
    assume "canon t pl \<notin> fst ` set (tv_new t)"
    with assms(1) obtain q x where "q \<in> set (tv_photos t)" "x \<noteq> []" "ph_place q = Some x"
      "canon t x = canon t pl" "ph_origin q = EXIF" by (auto simp: coord_ok_def)
    with assms(2) have "q \<in> set (gps_photos (members_of t (canon t pl)))"
      by (simp add: gps_photos_def members_of_eq placed_def place_of_def)
    with Nil show False by simp
  qed
  then obtain n where "map_of (tv_new t) (canon t pl) = Some n"
    using map_of_eq_None_iff[of "tv_new t" "canon t pl"] by (cases "map_of (tv_new t) (canon t pl)") auto
  with Nil assms(3) show ?thesis by (simp add: assign_photo_def Let_def)
next
  case (Cons a as)
  with assms(3) show ?thesis by (simp add: assign_photo_def Let_def)
qed

text \<open>A name a proposal may use: a canonical one.\<close>

definition usable :: "trip_view \<Rightarrow> string \<Rightarrow> bool" where
  "usable t x \<longleftrightarrow> (\<exists>pl \<in> trip_names t. canon t pl = x)"

lemma usable_canon: "trip_sound t \<Longrightarrow> usable t x \<Longrightarrow> canon t x = x \<and> coord_ok t x \<and> good_name t x"
  using canon_canon good_canon by (auto simp: usable_def trip_sound_def)

lemma update_placed_members:
  assumes "by_id ps i = Some p" "distinct (map ph_id ps)" "ph_place p = None"
  shows "q \<in> set ps \<and> ph_place q \<noteq> None \<Longrightarrow> q \<in> set (update_id i f ps)"
  using by_id_distinct[OF assms(2), of q] assms(1,3) by (force simp: update_id_def)

lemma assign_sound:
  assumes s: "trip_sound t" and u: "usable t pl" and p: "by_id (tv_photos t) i = Some p" "ph_place p = None"
    and a: "assign_photo t i pl = Inr t'"
  shows "trip_sound t' \<and> tv_merged t' = tv_merged t \<and> tv_new t' = tv_new t \<and>
    trip_names t \<subseteq> trip_names t' \<and> map ph_id (tv_photos t') = map ph_id (tv_photos t)"
proof -
  from assign_photo_result[OF a] obtain la lo where
    t': "t' = t\<lparr>tv_photos := update_id i (put_photo (canon t pl) la lo) (tv_photos t)\<rparr>" by blast
  from usable_canon[OF s u] have c: "canon t pl = pl" "coord_ok t pl" "good_name t pl" by simp_all
  have m: "tv_merged t' = tv_merged t" "tv_new t' = tv_new t" by (simp_all add: t')
  have cn: "canon t' x = canon t x" for x by (rule canon_cong[OF m(1)])
  have d: "distinct (map ph_id (tv_photos t))" using s by (simp add: trip_sound_def)
  have keep: "q \<in> set (tv_photos t')" if "q \<in> set (tv_photos t)" "ph_place q \<noteq> None" for q
    using update_placed_members[OF p(1) d p(2)] that by (simp add: t')
  have co: "coord_ok t' x" if "coord_ok t x" for x
    using that keep unfolding coord_ok_def m cn by fastforce
  have sub: "trip_names t \<subseteq> trip_names t'"
    using keep unfolding trip_names_def m by fastforce
  have names: "trip_names t' \<subseteq> trip_names t \<union> {pl}"
    unfolding trip_names_def m using c(1) by (auto simp: t' update_id_def put_photo_def)
  have gn: "good_name t' x = good_name t x" for x by (simp add: good_name_def m)
  have ids: "map ph_id (tv_photos t') = map ph_id (tv_photos t)" by (simp add: t' update_id_def)
  have "\<forall>x \<in> trip_names t'. good_name t' x \<and> coord_ok t' (canon t' x)"
    using names s c co unfolding gn cn trip_sound_def by auto
  with s sub ids d m show ?thesis by (simp add: trip_sound_def gn)
qed

lemma add_new_sound:
  assumes s: "trip_sound t" and a: "add_new_place t n = (t', pl)"
  shows "trip_sound t' \<and> usable t' pl \<and> tv_photos t' = tv_photos t \<and> tv_merged t' = tv_merged t \<and>
    trip_names t \<subseteq> trip_names t'"
proof (cases "find (\<lambda>(pl, m). np_cand m = np_cand n) (tv_new t)")
  case (Some r)
  obtain q m where r: "r = (q, m)" by (cases r)
  with Some a have t': "t' = t" "pl = canon t q" by (auto simp: add_new_place_def)
  from Some r have "(q, m) \<in> set (tv_new t)" by (auto simp: find_Some_iff in_set_conv_nth)
  then have "q \<in> fst ` set (tv_new t)" by force
  then have "q \<in> trip_names t" by (simp add: trip_names_def)
  with s t' show ?thesis by (auto simp: usable_def)
next
  case None
  let ?x = "new_name (length (tv_new t) + 1)"
  from None a have t': "t' = t\<lparr>tv_new := tv_new t @ [(?x, n)]\<rparr>" "pl = ?x"
    by (auto simp: add_new_place_def Let_def)
  have names: "map fst (tv_new t) = map new_name [1..<length (tv_new t) + 1]"
    using s by (simp add: trip_sound_def)
  have fresh: "?x \<notin> fst ` set (tv_new t)"
    using arg_cong[OF names, of set] by auto
  have gn: "good_name t x \<Longrightarrow> good_name t' x" for x by (auto simp: good_name_def t')
  have cn: "canon t' x = canon t x" for x by (rule canon_cong) (simp add: t')
  have "\<not> good_name t ?x" using fresh by (simp add: good_name_def new_name_def)
  then have "map_of (tv_merged t) ?x = None"
    using s by (fastforce simp: map_of_eq_None_iff trip_sound_def)
  then have cx: "canon t ?x = ?x" by (rule canon_id)
  have co: "coord_ok t x \<Longrightarrow> coord_ok t' x" for x by (auto simp: coord_ok_def t' cn canon_def)
  have tn: "trip_names t' = trip_names t \<union> {?x}" by (auto simp: trip_names_def t')
  have gx: "good_name t' ?x \<and> coord_ok t' ?x" by (auto simp: good_name_def coord_ok_def t' new_name_def)
  have "\<forall>x \<in> trip_names t'. good_name t' x \<and> coord_ok t' (canon t' x)"
    using s gn co gx cx unfolding tn cn trip_sound_def by auto
  moreover have "\<forall>(k, v) \<in> set (tv_merged t'). good_name t' k \<and> good_name t' v"
    using s gn by (auto simp: trip_sound_def t')
  moreover have "map fst (tv_new t') = map new_name [1..<length (tv_new t') + 1]"
    using names by (simp add: t')
  ultimately have "trip_sound t'" using s by (simp add: trip_sound_def t')
  moreover have "usable t' pl" unfolding usable_def tn cn using cx t' by auto
  moreover have "tv_photos t' = tv_photos t \<and> tv_merged t' = tv_merged t" by (simp add: t')
  ultimately show ?thesis using tn by blast
qed

section \<open>Applying proposals and groups never fails\<close>

definition ready :: "trip_view \<Rightarrow> proposal \<Rightarrow> bool" where
  "ready t p \<longleftrightarrow> by_id (tv_photos t) (pp_photo p) \<noteq> None \<and>
     (case (pp_decision p, pp_place p, pp_new p) of
        (Some Existing, Some pl, _) \<Rightarrow> usable t pl
      | (Some New_place, _, Some c) \<Rightarrow> True
      | _ \<Rightarrow> False)"

definition trip_grows :: "trip_view \<Rightarrow> trip_view \<Rightarrow> bool" where
  "trip_grows t t' \<longleftrightarrow> trip_sound t' \<and> (\<forall>x. usable t x \<longrightarrow> usable t' x) \<and>
     map ph_id (tv_photos t') = map ph_id (tv_photos t)"

lemma by_id_same: "map ph_id ps = map ph_id qs \<Longrightarrow> by_id ps i = None \<longleftrightarrow> by_id qs i = None"
  by (metis by_id_None image_set)

lemma ready_grows:
  assumes "ready t p" "trip_grows t t'" shows "ready t' p"
proof -
  have "by_id (tv_photos t') (pp_photo p) = None \<longleftrightarrow> by_id (tv_photos t) (pp_photo p) = None"
    using assms(2) by (intro by_id_same) (simp add: trip_grows_def)
  with assms show ?thesis
    unfolding ready_def trip_grows_def by (auto split: option.splits decision.splits)
qed

lemma trip_grows_trans: "trip_grows t u \<Longrightarrow> trip_grows u v \<Longrightarrow> trip_grows t v"
  by (simp add: trip_grows_def)

lemma usable_same_merged:
  "tv_merged t' = tv_merged t \<Longrightarrow> trip_names t \<subseteq> trip_names t' \<Longrightarrow> usable t x \<Longrightarrow> usable t' x"
  unfolding usable_def using canon_cong by blast

lemma assign_ready:
  assumes "trip_sound t" "usable t pl" "by_id (tv_photos t) i = Some p" "ph_place p = None"
  shows "\<exists>t'. assign_photo t i pl = Inr t' \<and> trip_grows t t'"
proof -
  from usable_canon[OF assms(1,2)] have "coord_ok t (canon t pl)" "canon t pl \<noteq> []"
    by (auto simp: good_name_def)
  from coord_ok_assigns[OF this assms(3)] obtain t' where a: "assign_photo t i pl = Inr t'" ..
  note s = assign_sound[OF assms a]
  then have "trip_grows t t'"
    unfolding trip_grows_def using usable_same_merged[of t' t] by blast
  with a show ?thesis by blast
qed

lemma add_new_grows:
  assumes "trip_sound t" "add_new_place t n = (t', pl)"
  shows "trip_grows t t' \<and> usable t' pl \<and> tv_photos t' = tv_photos t"
  using add_new_sound[OF assms] usable_same_merged[of t' t] unfolding trip_grows_def by simp

definition accept_sound :: "accept_state \<Rightarrow> bool" where
  "accept_sound st \<longleftrightarrow> trip_sound (fst st) \<and> (\<forall>(k, pl) \<in> set (fst (snd st)). usable (fst st) pl)"

lemma accept_grows:
  "accept_sound (t, ids, n) \<Longrightarrow> trip_grows t t' \<Longrightarrow> accept_sound (t', ids, m)"
  by (auto simp: accept_sound_def trip_grows_def)

lemma apply_proposal_ok:
  assumes s: "accept_sound (t, ids, n)" and r: "ready t p"
  shows "\<exists>t' ids' n'. apply_proposal nt p (t, ids, n) = Inr (t', ids', n') \<and>
    accept_sound (t', ids', n') \<and> trip_grows t t'"
proof -
  from r obtain q where q: "by_id (tv_photos t) (pp_photo p) = Some q" by (auto simp: ready_def)
  have ts: "trip_sound t" using s by (simp add: accept_sound_def)
  show ?thesis
  proof (cases "ph_place q")
    case (Some x)
    have "trip_grows t t" using ts by (simp add: trip_grows_def)
    with Some q s show ?thesis by (simp add: apply_proposal_def)
  next
    case None
    show ?thesis
    proof (cases "pp_decision p = Some Existing")
      case True
      with r obtain pl where pl: "pp_place p = Some pl" "usable t pl"
        by (auto simp: ready_def split: option.splits)
      from assign_ready[OF ts pl(2) q None] obtain t' where
        "assign_photo t (pp_photo p) pl = Inr t'" "trip_grows t t'" by blast
      with accept_grows[OF s] True pl q None show ?thesis by (auto simp: apply_proposal_def)
    next
      case False
      with r obtain c where d: "pp_decision p = Some New_place" "pp_new p = Some c"
        by (auto simp: ready_def split: option.splits decision.splits)
      let ?key = "new_key nt c"
      show ?thesis
      proof (cases "map_of ids ?key")
        case (Some pl)
        then have "usable t pl" using s by (auto simp: accept_sound_def dest: map_of_SomeD)
        from assign_ready[OF ts this q None] obtain t' where
          "assign_photo t (pp_photo p) pl = Inr t'" "trip_grows t t'" by blast
        with accept_grows[OF s] d q None Some show ?thesis by (auto simp: apply_proposal_def Let_def)
      next
        case miss: None
        obtain t1 pl where a: "add_new_place t \<lparr>np_name = ca_name c, np_lat = ca_lat c,
            np_lon = ca_lon c, np_cand = ?key\<rparr> = (t1, pl)" by (cases "add_new_place t
            \<lparr>np_name = ca_name c, np_lat = ca_lat c, np_lon = ca_lon c, np_cand = ?key\<rparr>")
        note g = add_new_grows[OF ts a]
        then have "trip_sound t1" by (simp add: trip_grows_def)
        moreover have "by_id (tv_photos t1) (pp_photo p) = Some q" using g q by simp
        ultimately obtain t' where t': "assign_photo t1 (pp_photo p) pl = Inr t'" "trip_grows t1 t'"
          using assign_ready[of t1 pl] g None by blast
        have gr: "trip_grows t t'" using trip_grows_trans g t'(2) by blast
        have "usable t' pl" using g t'(2) by (simp add: trip_grows_def)
        then have "accept_sound (t', ids @ [(?key, pl)], n + 1)"
          using accept_grows[OF s gr] by (simp add: accept_sound_def)
        with a t' gr d q None miss show ?thesis by (simp add: apply_proposal_def Let_def)
      qed
    qed
  qed
qed

lemma foldE_proposals_ok:
  "accept_sound (t, ids, n) \<Longrightarrow> \<forall>p \<in> set ps. ready t p \<Longrightarrow>
   \<exists>t' ids' n'. foldE (apply_proposal nt) ps (t, ids, n) = Inr (t', ids', n') \<and>
     accept_sound (t', ids', n') \<and> trip_grows t t'"
proof (induction ps arbitrary: t ids n)
  case Nil
  then show ?case by (simp add: trip_grows_def accept_sound_def)
next
  case (Cons p ps)
  then have "ready t p" by simp
  from apply_proposal_ok[OF Cons.prems(1) this] obtain t1 ids1 n1 where
    1: "apply_proposal nt p (t, ids, n) = Inr (t1, ids1, n1)" "accept_sound (t1, ids1, n1)" "trip_grows t t1"
    by blast
  have "\<forall>q \<in> set ps. ready t1 q" using Cons.prems(2) ready_grows[OF _ 1(3)] by auto
  from Cons.IH[OF 1(2) this] obtain t2 ids2 n2 where
    2: "foldE (apply_proposal nt) ps (t1, ids1, n1) = Inr (t2, ids2, n2)" "accept_sound (t2, ids2, n2)"
    "trip_grows t1 t2" by blast
  from 2 trip_grows_trans[OF 1(3) 2(3)] show ?case by (simp add: 1(1))
qed

lemma apply_proposals_ok:
  assumes "trip_sound t" "\<forall>p \<in> set ps. ready t p"
  shows "\<exists>t' n. apply_proposals nt ps t = Inr (t', n) \<and> trip_sound t'"
  using foldE_proposals_ok[of t "[]" 0 ps nt] assms
  by (auto simp: apply_proposals_def accept_sound_def)

section \<open>Merging keeps the trip sound\<close>

lemma apply_group_sound:
  assumes s: "trip_sound t" and g: "\<forall>x \<in> set g. usable t (canon t x)"
  shows "trip_sound (apply_group g t) \<and>
    (\<forall>x. usable t (canon t x) \<longrightarrow> usable (apply_group g t) (canon (apply_group g t) x))"
proof (cases "map (canon t) g")
  case Nil
  with s show ?thesis by (simp add: apply_group_def)
next
  case (Cons h xs)
  let ?t = "apply_group g t"
  have f: "forest (tv_merged t)" using s by (simp add: trip_sound_def)
  have "set (h # xs) = canon t ` set g" using Cons by (metis image_set)
  then have im: "\<exists>y \<in> set g. x = canon t y" if "x \<in> set (h # xs)" for x
    using that by blast
  have us: "usable t x" if "x \<in> set (h # xs)" for x
    using im[OF that] g by blast
  have roots: "map_of (tv_merged t) x = None" if "x \<in> set (h # xs)" for x
    using im[OF that] canon_root[OF f] by auto
  have "let t' = fold (merge_into h) xs t in forest (tv_merged t') \<and>
    (\<forall>pl. canon t' pl = (if canon t pl \<in> set xs then h else canon t pl)) \<and> tv_new t' = tv_new t \<and>
    set (tv_merged t') \<subseteq> set (tv_merged t) \<union> set xs \<times> {h}"
    using roots by (intro fold_merge[OF f]) auto
  then have f': "forest (tv_merged ?t)" and new: "tv_new ?t = tv_new t"
    and cn: "\<And>pl. canon ?t pl = (if canon t pl \<in> set xs then h else canon t pl)"
    and mg: "set (tv_merged ?t) \<subseteq> set (tv_merged t) \<union> set xs \<times> {h}"
    using Cons by (simp_all add: apply_group_def Let_def)
  have gn: "good_name ?t x = good_name t x" for x by (simp add: good_name_def new)
  have tn: "trip_names ?t = trip_names t" by (simp add: trip_names_def new)
  have gx: "good_name t x" if "x \<in> set (h # xs)" for x
    using usable_canon[OF s us[OF that]] by blast
  have co: "coord_ok ?t y" if "coord_ok t y" "y \<in> set xs \<Longrightarrow> y = h" for y
    using that unfolding coord_ok_def new cn by (auto; metis)
  have ch: "coord_ok t h" using usable_canon[OF s us[of h]] by simp
  have "\<forall>x \<in> trip_names ?t. good_name ?t x \<and> coord_ok ?t (canon ?t x)"
    unfolding gn tn cn using s co ch by (auto simp: trip_sound_def)
  moreover have "\<forall>(k, v) \<in> set (tv_merged ?t). good_name ?t k \<and> good_name ?t v"
  proof -
    have "good_name t k \<and> good_name t v" if "(k, v) \<in> set (tv_merged ?t)" for k v
    proof (cases "(k, v) \<in> set (tv_merged t)")
      case True
      with s show ?thesis by (auto simp: trip_sound_def)
    next
      case False
      with mg that have "k \<in> set xs" "v = h" by blast+
      with gx show ?thesis by simp
    qed
    then show ?thesis unfolding gn by blast
  qed
  ultimately have "trip_sound ?t" using s f' new by (simp add: trip_sound_def)
  moreover have "usable ?t (canon ?t x)" if "usable t (canon t x)" for x
  proof -
    from that obtain pl where "pl \<in> trip_names t" "canon t pl = canon t x" by (auto simp: usable_def)
    then have "canon ?t pl = canon ?t x" "pl \<in> trip_names ?t" by (simp_all add: cn tn)
    then show ?thesis unfolding usable_def by blast
  qed
  ultimately show ?thesis by blast
qed

lemma apply_groups_sound:
  "trip_sound t \<Longrightarrow> \<forall>g \<in> set gs. \<forall>x \<in> set g. usable t (canon t x) \<Longrightarrow> trip_sound (apply_groups gs t)"
  unfolding apply_groups_def
proof (induction gs arbitrary: t)
  case (Cons g gs)
  then have "\<forall>x \<in> set g. usable t (canon t x)" by simp
  from apply_group_sound[OF Cons.prems(1) this] Cons show ?case by simp
qed simp

lemma places_usable:
  assumes "map_of (places t) x = Some ms" shows "usable t x"
proof -
  from assms obtain p where "p \<in> set (tv_photos t)" "placed t p" "the (place_of t p) = x"
    by (auto simp: places_def map_of_group_by filter_empty_conv split: if_splits)
  then show ?thesis
    unfolding usable_def trip_names_def
    by (auto simp: placed_def place_of_def split: option.splits if_splits)
qed

lemma merge_groups_usable:
  assumes "trip_sound t" "g \<in> set (merge_groups t raw)" "x \<in> set g"
  shows "usable t (canon t x)"
proof -
  have "usable t x" using assms(2,3) places_usable
    by (auto simp: merge_groups_def merge_group_def split: if_splits)
  with usable_canon[OF assms(1)] show ?thesis by simp
qed

section \<open>The graph never fails by itself\<close>

text \<open>Every call answers and the time budget does not expire.\<close>

definition calls_answer :: "agent_env \<Rightarrow> bool" where
  "calls_answer E \<longleftrightarrow> (\<exists>u. ge_regions E = Inr u) \<and> (\<forall>n t p. \<exists>x. ge_decide E n t p = Inr x) \<and>
     (\<forall>n t ps. \<exists>x. ge_finalize E n t ps = Inr x) \<and> (\<forall>t. \<exists>x. ge_merge E t = Inr x) \<and>
     (\<forall>n. \<not> ge_expired E n)"

lemma bindA_ok: "m l = (Inr x, k) \<Longrightarrow> bindA m f l = f x k" for m :: "'a agentm"
  by (simp add: bindA_def)

lemma wait_each_ok: "calls_answer E \<Longrightarrow> \<exists>k. wait_each E (map Inr xs) l = (Inr xs, k)"
proof (induction xs arbitrary: l)
  case (Cons x xs)
  let ?l = "l\<lparr>al_ticks := Suc (al_ticks l), al_checks := Suc (al_checks l),
    al_events := al_events l @ [Done_count (Suc (al_ticks l)), Poll]\<rparr>"
  from Cons obtain k where "wait_each E (map Inr xs) ?l = (Inr xs, k)" by blast
  with Cons.prems show ?case
    by (simp add: bindA_def liftA_def tickA_def checkA_def retA_def calls_answer_def)
qed (simp add: retA_def)

lemma wait_many_ok:
  assumes "calls_answer E" shows "\<exists>k. wait_many E (map Inr xs) l = (Inr xs, k)"
proof -
  have "checkA E l = (Inr (), l\<lparr>al_checks := al_checks l + 1, al_events := al_events l @ [Poll]\<rparr>)"
    using assms by (simp add: checkA_def calls_answer_def)
  with wait_each_ok[OF assms] show ?thesis by (simp add: wait_many_def bindA_def)
qed

lemma wait_one_ok:
  assumes "calls_answer E" shows "\<exists>k. wait_one E (Inr x) l = (Inr x, k)"
proof -
  from wait_many_ok[OF assms, of "[x]" l] obtain k where "wait_many E [Inr x] l = (Inr [x], k)" by auto
  then show ?thesis by (simp add: wait_one_def bindA_def retA_def)
qed

definition graph_ok :: "graph_node \<Rightarrow> graph_state \<Rightarrow> bool" where
  "graph_ok nd s \<longleftrightarrow> trip_sound (gs_trip s) \<and>
     (nd = Aggregate \<longrightarrow> (\<forall>p \<in> set (high_proposals (gs_proposals s)). ready (gs_trip s) p))"

lemma estimate_call_ready:
  assumes "estimate_call E s p = Inr pp" "p \<in> set (tv_photos (gs_trip s))"
    "pp_conf pp = High" "pp_decision pp \<noteq> None"
  shows "ready (gs_trip s) pp"
proof -
  from assms(1) obtain final cs where
    pp: "pp = estimate_proposal (gs_trip s) (ge_in_region E) (ph_id p) final cs"
    by (auto simp: estimate_call_def)
  have "by_id (tv_photos (gs_trip s)) (ph_id p) \<noteq> None" using assms(2) by (simp add: by_id_None)
  with assms(3,4) show ?thesis
    unfolding pp ready_def
    by (auto simp: estimate_proposal_def Let_def split: option.splits if_splits dest: places_usable)
qed

lemma map_Inr_ok: "(\<And>x. x \<in> set xs \<Longrightarrow> \<exists>y. f x = Inr y) \<Longrightarrow> \<exists>ys. map f xs = map Inr ys"
proof (induction xs)
  case (Cons x xs)
  have "\<exists>ys. map f xs = map Inr ys" using Cons.prems by (intro Cons.IH) simp
  with Cons.prems[of x] obtain y ys where "f x = Inr y" "map f xs = map Inr ys" by auto
  then have "map f (x # xs) = map Inr (y # ys)" by simp
  then show ?case by blast
qed simp

lemma map_Inr_mem: "map f xs = map Inr ys \<Longrightarrow> y \<in> set ys \<Longrightarrow> \<exists>x \<in> set xs. f x = Inr y"
  by (induction xs arbitrary: ys) (auto simp: Cons_eq_map_conv)

lemma graph_step_ok:
  assumes E: "calls_answer E" and s: "graph_ok nd s"
  shows "\<exists>nd' s' k. graph_step E nd s l = (Inr (nd', s'), k) \<and> graph_ok nd' s'"
proof (cases nd)
  case Select
  with s show ?thesis by (auto simp: Let_def retA_def graph_ok_def)
next
  case Estimate
  let ?s = "s\<lparr>gs_estimates := gs_estimates s + 1\<rparr>"
  have "\<exists>pp. estimate_call E ?s p = Inr pp" for p
  proof -
    from E obtain x where "ge_decide E (gs_estimates ?s) (gs_trip ?s) p = Inr x"
      unfolding calls_answer_def by blast
    then show ?thesis by (simp add: estimate_call_def split: prod.split)
  qed
  then obtain pps where m: "map (estimate_call E ?s) (targets (gs_trip s)) = map Inr pps"
    using map_Inr_ok[of "targets (gs_trip s)" "estimate_call E ?s"] by blast
  obtain k where w: "wait_many E (map (estimate_call E ?s) (targets (gs_trip s))) l = (Inr pps, k)"
    using wait_many_ok[OF E, of pps l] unfolding m by blast
  have "ready (gs_trip s) pp" if "pp \<in> set (high_proposals pps)" for pp
  proof -
    from that have h: "pp \<in> set pps" "pp_conf pp = High" "pp_decision pp \<noteq> None"
      by (simp_all add: high_proposals_def)
    from map_Inr_mem[OF m h(1)] obtain p where "p \<in> set (targets (gs_trip s))"
      "estimate_call E ?s p = Inr pp" by blast
    with estimate_call_ready[of E ?s p pp] h show ?thesis by (simp add: targets_def)
  qed
  then have ok: "graph_ok Aggregate (?s\<lparr>gs_proposals := pps\<rparr>)" using s by (simp add: graph_ok_def)
  have "graph_step E nd s l = (Inr (Aggregate, ?s\<lparr>gs_proposals := pps\<rparr>), k)"
    unfolding Estimate graph_step.simps Let_def bindA_def w by (simp add: retA_def)
  with ok show ?thesis by blast
next
  case Aggregate
  have "\<exists>acc k. (if list_ex (\<lambda>p. pp_conf p = High) (gs_proposals s)
      then wait_one E (aggregate_call E s) else retA []) l = (Inr acc, k) \<and>
      set acc \<subseteq> set (high_proposals (gs_proposals s))"
  proof (cases "list_ex (\<lambda>p. pp_conf p = High) (gs_proposals s)")
    case True
    have "\<exists>acc. aggregate_call E s = Inr acc \<and> set acc \<subseteq> set (high_proposals (gs_proposals s))"
    proof -
      from E obtain x where "ge_finalize E (gs_estimates s) (gs_trip s) (high_proposals (gs_proposals s)) = Inr x"
        unfolding calls_answer_def by blast
      then show ?thesis by (auto simp: aggregate_call_def Let_def accepted_proposals_def)
    qed
    then obtain acc where "aggregate_call E s = Inr acc" "set acc \<subseteq> set (high_proposals (gs_proposals s))" by blast
    with True wait_one_ok[OF E, of acc l] show ?thesis by auto
  qed (simp add: retA_def)
  then obtain acc k where a: "(if list_ex (\<lambda>p. pp_conf p = High) (gs_proposals s)
      then wait_one E (aggregate_call E s) else retA []) l = (Inr acc, k)"
    and sub: "set acc \<subseteq> set (high_proposals (gs_proposals s))" by blast
  have "\<forall>p \<in> set acc. ready (gs_trip s) p" using sub s Aggregate by (auto simp: graph_ok_def)
  then obtain t n where p: "apply_proposals (ge_normalize E) acc (gs_trip s) = Inr (t, n)" "trip_sound t"
    using apply_proposals_ok s unfolding graph_ok_def by blast
  show ?thesis
    using p(2) unfolding Aggregate graph_step.simps bindA_def a
    by (auto simp: liftA_def retA_def p(1) graph_ok_def)
next
  case Merge
  have "\<exists>gs k. (if length (places (gs_trip s)) \<ge> 2
      then wait_one E (bindE (ge_merge E (gs_trip s)) (\<lambda>raw. Inr (merge_groups (gs_trip s) raw)))
      else retA []) l = (Inr gs, k) \<and> (\<forall>g \<in> set gs. \<forall>x \<in> set g. usable (gs_trip s) (canon (gs_trip s) x))"
  proof (cases "length (places (gs_trip s)) \<ge> 2")
    case True
    from E obtain raw where "ge_merge E (gs_trip s) = Inr raw" unfolding calls_answer_def by blast
    with True wait_one_ok[OF E, of "merge_groups (gs_trip s) raw" l] s merge_groups_usable show ?thesis
      by (auto simp: graph_ok_def)
  qed (simp add: retA_def)
  then obtain gs k where g: "(if length (places (gs_trip s)) \<ge> 2
      then wait_one E (bindE (ge_merge E (gs_trip s)) (\<lambda>raw. Inr (merge_groups (gs_trip s) raw)))
      else retA []) l = (Inr gs, k)" "\<forall>g \<in> set gs. \<forall>x \<in> set g. usable (gs_trip s) (canon (gs_trip s) x)"
    by blast
  have "trip_sound (apply_groups gs (gs_trip s))"
    using s g(2) by (intro apply_groups_sound) (auto simp: graph_ok_def)
  then show ?thesis
    unfolding Merge graph_step.simps bindA_def g(1) by (simp add: retA_def graph_ok_def)
next
  case End_node
  with s show ?thesis by (simp add: retA_def graph_ok_def)
qed

lemma run_graph_ok:
  "calls_answer E \<Longrightarrow> graph_ok nd s \<Longrightarrow> on_schedule nd s \<Longrightarrow> steps_left nd s \<le> n \<Longrightarrow>
   \<exists>s' k. run_graph n E nd s l = (Inr s', k)"
proof (induction n arbitrary: nd s l)
  case 0
  then have "nd = End_node" by (cases nd) (auto split: if_splits)
  then show ?case by (simp add: liftA_def)
next
  case (Suc n)
  show ?case
  proof (cases "nd = End_node")
    case False
    from graph_step_ok[OF Suc.prems(1,2)] obtain nd' s' k where
      st: "graph_step E nd s l = (Inr (nd', s'), k)" "graph_ok nd' s'" by blast
    from graph_step_schedule[OF st(1) Suc.prems(3) False] Suc.prems(4)
    have "on_schedule nd' s'" "steps_left nd' s' \<le> n" by auto
    from Suc.IH[OF Suc.prems(1) st(2) this] False show ?thesis
      by (simp add: bindA_ok[of "graph_step E nd s", OF st(1)])
  qed (simp add: retA_def)
qed

text \<open>What the pipeline hands over: no name of an agent place, and a GPS photo at every place.\<close>

definition places_grounded :: "photo list \<Rightarrow> bool" where
  "places_grounded ps \<longleftrightarrow> (\<forall>p \<in> set ps. \<forall>pl. ph_place p = Some pl \<longrightarrow> pl \<noteq> [] \<longrightarrow>
     hd pl \<noteq> CHR ''n'' \<and> (\<exists>q \<in> set ps. ph_place q = Some pl \<and> ph_origin q = EXIF))"

lemma start_sound:
  assumes "distinct (map ph_id ps)" "places_grounded (filter (agent_in_period pd) ps)"
  shows "trip_sound (trip_view_of ps pd c)"
proof -
  let ?t = "trip_view_of ps pd c"
  have m: "tv_merged ?t = []" "tv_new ?t = []" by (simp_all add: trip_view_of_def)
  have cn: "canon ?t x = x" for x by (rule canon_id) (simp add: m)
  have ph: "set (tv_photos ?t) = set (filter (agent_in_period pd) ps)" by (simp add: trip_view_of_def)
  have "\<forall>x \<in> trip_names ?t. good_name ?t x \<and> coord_ok ?t x"
    using assms(2) unfolding trip_names_def good_name_def coord_ok_def places_grounded_def m cn ph by fastforce
  with m trip_view_photos[OF assms(1), of pd c] show ?thesis by (simp add: trip_sound_def cn)
qed

lemma run_agent_ok:
  assumes E: "calls_answer E" and th: "map_of ths ''agent_same_photo_min_sim'' \<noteq> None"
    and rg: "rq_regions rq \<noteq> []" and d: "distinct (map ph_id ps)"
    and g: "places_grounded (filter (agent_in_period (rq_period rq)) ps)"
  shows "\<exists>qs. snd (run_agent E ths rq ps) = Inr qs"
proof -
  let ?t = "trip_view_of ps (rq_period rq) (hd (rq_regions rq))"
  let ?l = "\<lparr>al_ticks = 0, al_checks = 0, al_events = []\<rparr>"
  have "graph_ok Select (start_state ?t)" using start_sound[OF d g] by (simp add: graph_ok_def start_state_def)
  moreover have "on_schedule Select (start_state ?t)" by (simp add: on_schedule_def start_state_def MAX_ROUNDS_def)
  moreover have "steps_left Select (start_state ?t) \<le> RECURSION_LIMIT"
    by (simp add: start_state_def RECURSION_LIMIT_def)
  ultimately have r: "\<exists>s k. run_graph RECURSION_LIMIT E Select (start_state ?t) l = (Inr s, k)" for l
    by (rule run_graph_ok[OF E])
  from E obtain u where "ge_regions E = Inr u" by (auto simp: calls_answer_def)
  with wait_one_ok[OF E, of u ?l] obtain k where w: "wait_one E (ge_regions E) ?l = (Inr u, k)" by auto
  from r obtain s j where "run_graph RECURSION_LIMIT E Select (start_state ?t) k = (Inr s, j)" by blast
  then have "agent_body E ?t ?l = (Inr (finish_trip (gs_trip s)), j)"
    unfolding agent_body_def bindA_ok[of "wait_one E (ge_regions E)", OF w] by (simp add: bindA_def retA_def)
  with th rg show ?thesis by (simp add: run_agent_def Let_def)
qed

end
