(* ===== verification/AgentTheorems.thy ===== *)
theory AgentTheorems
  imports AgentSound RunExample
begin

text \<open>
  The properties of the agent stage, and the example trip their witnesses run on.
\<close>

section \<open>An example\<close>

text \<open>A GPS photo at \<open>p1\<close> and a photo the agent is asked about; the model answers \<open>p1\<close>.\<close>

definition ag_photo :: "int \<Rightarrow> photo" where
  "ag_photo i =
     \<lparr>ph_src = \<lparr>ps_id = i, ps_key = [], ps_taken = None, ps_lat = (if i = 1 then Some 37 else None),
        ps_lon = (if i = 1 then Some 127 else None), ps_device = None\<rparr>,
      ph_taken = None, ph_time = UNKNOWN_TIME,
      ph_lat = (if i = 1 then Some 37 else None), ph_lon = (if i = 1 then Some 127 else None),
      ph_origin = (if i = 1 then EXIF else UNKNOWN_REGION), ph_emb = Some [1, 0],
      ph_place = (if i = 1 then Some ''p1'' else None),
      ph_issue = (if i = 1 then None else Some UNCLEAR_LOCATION), ph_dup = None, ph_eval = None\<rparr>"

definition ag_env :: agent_env where
  "ag_env = \<lparr>ge_regions = Inr (),
     ge_decide = (\<lambda>n t p. Inr (Some \<lparr>da_decision = Some ''existing'', da_confidence = Some ''high'',
        da_place = ''p1'', da_candidate = [], da_name = []\<rparr>, [])),
     ge_in_region = (\<lambda>c. False), ge_finalize = (\<lambda>n t ps. Inr (Some [''2''])),
     ge_merge = (\<lambda>t. Inr []), ge_normalize = (\<lambda>u. []), ge_expired = (\<lambda>n. False)\<rparr>"

definition ag_thresholds :: "(string, threshold) pydict" where
  "ag_thresholds = [(''agent_same_photo_min_sim'', TFloat (9 / 10))]"

definition ag_request :: process_request where
  "ag_request = \<lparr>rq_exec = None, rq_name = [], rq_period = \<lparr>pd_start = 0, pd_end = 1\<rparr>,
     rq_regions = [(37, 127)], rq_attachments = []\<rparr>"

definition ag_placed :: photo where
  "ag_placed = put_photo ''p1'' (Some 37) (Some 127) (ag_photo 2)"

definition ag_events :: "agent_event list" where
  "ag_events = [Poll, Done_count 1, Poll, Poll, Done_count 2, Poll, Poll, Done_count 3, Poll]"

lemma ag_run: "run_agent ag_env ag_thresholds ag_request [ag_photo 2, ag_photo 1] =
    (ag_events, Inr [ag_placed, ag_photo 1])"
  by code_simp

section \<open>Properties\<close>

text \<open>The agent only moves the photos it is asked about.  A photo that gains a place had none,
  had an unclear location and no GPS; it gets inferred coordinates and loses its issue.  Every
  other photo keeps its coordinates, origin and issue, a placed photo stays placed, and no photo
  changes its source, times, embedding, duplicate or score.\<close>

theorem agent_only_places_targets:
  assumes "snd (run_agent E ths rq ps) = Inr qs" "distinct (map ph_id ps)"
  shows "list_all2 (\<lambda>p q. ph_src q = ph_src p \<and> ph_taken q = ph_taken p \<and> ph_time q = ph_time p \<and>
      ph_emb q = ph_emb p \<and> ph_dup q = ph_dup p \<and> ph_eval q = ph_eval p \<and>
      (if ph_place p = None \<and> ph_place q \<noteq> None
       then ph_issue p = Some UNCLEAR_LOCATION \<and> \<not> ph_gps p \<and> ph_origin q = INFERRED \<and> ph_issue q = None
       else (ph_place p = None \<longleftrightarrow> ph_place q = None) \<and> ph_lat q = ph_lat p \<and> ph_lon q = ph_lon p \<and>
         ph_origin q = ph_origin p \<and> ph_issue q = ph_issue p)) ps qs"
  by (rule list_all2_mono[OF run_agent_moved[OF assms]])
    (auto simp: agent_moved_def same_photo_def agent_target_def)

lemma ag_result: "snd (run_agent ag_env ag_thresholds ag_request [ag_photo 2, ag_photo 1]) = Inr [ag_placed, ag_photo 1]"
  by (simp add: ag_run)

lemma ag_distinct: "distinct (map ph_id [ag_photo 2, ag_photo 1])"
  by (simp add: ag_photo_def)

lemma agent_only_places_targets_witness:
  "list_all2 (\<lambda>p q. ph_src q = ph_src p \<and> (ph_place q \<noteq> None \<longrightarrow> ph_place p \<noteq> None \<or> ph_origin q = INFERRED))
     [ag_photo 2, ag_photo 1] [ag_placed, ag_photo 1]"
  by (rule list_all2_mono[OF agent_only_places_targets[OF ag_result ag_distinct]]) (auto split: if_splits)

text \<open>The agent's graph ends within nineteen steps, so the recursion limit of LangGraph is never
  what stops it, and it estimates at most six times: five rounds and one after merging.\<close>

theorem agent_graph_bounded:
  assumes "19 \<le> n" "run_graph n E Select (start_state t) l = (Inr s, k)"
  shows "run_graph 19 E Select (start_state t) l = (Inr s, k) \<and> gs_estimates s \<le> 6"
proof -
  have sched: "on_schedule Select (start_state t)" by (simp add: on_schedule_def start_state_def MAX_ROUNDS_def)
  have "run_graph (19 + (n - 19)) E Select (start_state t) l = run_graph 19 E Select (start_state t) l"
    by (rule run_graph_enough[OF _ sched]) (simp add: start_state_def)
  moreover have "gs_estimates s \<le> 6"
    by (rule run_graph_rounds[OF assms(2)]) (use sched in \<open>simp add: rounds_ok_def start_state_def\<close>)
  ultimately show ?thesis using assms by simp
qed

definition ag_log :: agent_log where
  "ag_log = \<lparr>al_ticks = 0, al_checks = 0, al_events = []\<rparr>"

lemma agent_graph_bounded_witness:
  "\<exists>s k. run_graph 19 ag_env Select (start_state (trip_view_of [] (rq_period ag_request) (0, 0))) ag_log = (Inr s, k) \<and>
     gs_estimates s \<le> 6"
proof -
  let ?t = "trip_view_of [] (rq_period ag_request) (0, 0)"
  have "case run_graph 64 ag_env Select (start_state ?t) ag_log of (Inr _, _) \<Rightarrow> True | (Inl _, _) \<Rightarrow> False"
    by code_simp
  then obtain s k where "run_graph 64 ag_env Select (start_state ?t) ag_log = (Inr s, k)"
    by (auto split: prod.splits sum.splits)
  from agent_graph_bounded[OF _ this] show ?thesis by simp
qed

section \<open>The agent in the pipeline\<close>

lemma run_agent_keeps: "re_agent E = Some (run_agent G ths rq) \<Longrightarrow> agent_ok E"
  using agent_moved_src[OF run_agent_moved] by (auto simp: agent_ok_def)

lemma run_with_agent_ids:
  assumes "run E rq s = (Inr r, t)" "re_agent E = Some (run_agent G ths rq)"
  shows "mset (result_ids r) = mset (map at_id (rq_attachments rq)) \<and> distinct (result_ids r)"
  using run_ids[OF assms(1) run_agent_keeps[OF assms(2)]] by blast

text \<open>Every run of the agent polls before its calls and after each of them.\<close>

definition polls_first :: "'a agentm \<Rightarrow> bool" where
  "polls_first m \<longleftrightarrow> (\<forall>l. \<exists>es. al_events (snd (m l)) = al_events l @ es \<and> agent_polls es)"

lemma agent_next_Poll [simp]: "agent_next e Poll"
  by (cases e) simp_all

lemma agent_polls_append: "agent_polls a \<Longrightarrow> agent_polls b \<Longrightarrow> agent_polls (a @ b)"
  unfolding agent_polls_def
  by (cases a; cases b) (auto simp: successively_append_iff successively_Cons)

lemma polls_first_quiet: "(\<And>l. snd (m l) = l) \<Longrightarrow> polls_first m"
  unfolding polls_first_def by (intro allI exI[of _ "[]"]) (simp add: agent_polls_def)

lemma polls_first_basic: "polls_first (retA x)" "polls_first (liftA r)"
  by (rule polls_first_quiet; simp add: retA_def liftA_def)+

lemma polls_first_bindA:
  fixes m :: "'a agentm"
  assumes "polls_first m" "\<And>x. polls_first (f x)" shows "polls_first (bindA m f)"
  unfolding polls_first_def
proof
  fix l
  obtain r k where m: "m l = (r, k)" by (cases "m l")
  with assms(1) obtain es where e: "al_events k = al_events l @ es" "agent_polls es"
    unfolding polls_first_def by (metis snd_conv)
  show "\<exists>es. al_events (snd (bindA m f l)) = al_events l @ es \<and> agent_polls es"
  proof (cases r)
    case (Inl x)
    with m e show ?thesis by (intro exI[of _ es]) (simp add: bindA_def)
  next
    case (Inr x)
    from assms(2)[of x] obtain fs where "al_events (snd (f x k)) = al_events k @ fs" "agent_polls fs"
      unfolding polls_first_def by blast
    with m e Inr show ?thesis by (intro exI[of _ "es @ fs"]) (simp add: bindA_def agent_polls_append)
  qed
qed

lemma wait_each_events:
  "\<exists>es. al_events (snd (wait_each E rs l)) = al_events l @ es \<and> successively agent_next (Poll # es)"
proof (induction rs arbitrary: l)
  case Nil
  show ?case by (simp add: retA_def)
next
  case (Cons r rs)
  define k where "k = l\<lparr>al_ticks := al_ticks l + 1, al_events := al_events l @ [Done_count (al_ticks l + 1)],
    al_checks := al_checks l + 1\<rparr>"
  define k' where "k' = k\<lparr>al_events := al_events k @ [Poll]\<rparr>"
  show ?case
  proof (cases r)
    case (Inl e)
    then show ?thesis by (simp add: bindA_def liftA_def)
  next
    case (Inr x)
    show ?thesis
    proof (cases "ge_expired E (al_checks l)")
      case True
      have "snd (wait_each E (r # rs) l) = k"
        using True Inr by (simp add: bindA_def liftA_def tickA_def checkA_def k_def)
      then show ?thesis by (intro exI[of _ "[Done_count (al_ticks l + 1)]"]) (simp add: k_def)
    next
      case False
      have "snd (wait_each E (r # rs) l) = snd (wait_each E rs k')"
        using False Inr by (simp add: bindA_def liftA_def tickA_def checkA_def k_def k'_def retA_def split: prod.split sum.split)
      moreover from Cons.IH[of k'] obtain es where
        "al_events (snd (wait_each E rs k')) = al_events k' @ es" "successively agent_next (Poll # es)" by blast
      ultimately show ?thesis
        by (intro exI[of _ "Done_count (al_ticks l + 1) # Poll # es"]) (simp add: k_def k'_def)
    qed
  qed
qed

lemma polls_first_wait_many: "polls_first (wait_many E rs)"
  unfolding polls_first_def
proof
  fix l
  obtain es where e: "al_events (snd (wait_each E rs (snd (checkA E l)))) = al_events (snd (checkA E l)) @ es"
    "successively agent_next (Poll # es)" using wait_each_events by blast
  show "\<exists>es. al_events (snd (wait_many E rs l)) = al_events l @ es \<and> agent_polls es"
  proof (cases "ge_expired E (al_checks l)")
    case True
    then show ?thesis by (intro exI[of _ "[]"]) (simp add: wait_many_def bindA_def checkA_def agent_polls_def)
  next
    case False
    with e show ?thesis
      by (intro exI[of _ "Poll # es"]) (simp add: wait_many_def bindA_def checkA_def agent_polls_def)
  qed
qed

lemma polls_first_wait_one: "polls_first (wait_one E r)"
  unfolding wait_one_def by (intro polls_first_bindA polls_first_wait_many polls_first_basic)

lemma polls_first_graph_step: "polls_first (graph_step E nd s)"
proof (cases nd)
  case Aggregate
  have "polls_first (if b then wait_one E r else retA [])" for b and r :: "pipeline_error + proposal list"
    by (simp add: polls_first_wait_one polls_first_basic)
  then show ?thesis
    unfolding Aggregate graph_step.simps
    by (intro polls_first_bindA) (auto intro: polls_first_bindA polls_first_basic split: prod.split)
next
  case Merge
  have "polls_first (if b then wait_one E r else retA [])" for b and r :: "pipeline_error + string list list"
    by (simp add: polls_first_wait_one polls_first_basic)
  then show ?thesis unfolding Merge graph_step.simps by (intro polls_first_bindA polls_first_basic)
qed (auto simp: Let_def intro: polls_first_bindA polls_first_basic polls_first_wait_many)

lemma polls_first_run_graph: "polls_first (run_graph n E nd s)"
proof (induction n arbitrary: nd s)
  case (Suc n)
  then show ?case
    by (auto intro!: polls_first_basic polls_first_bindA polls_first_graph_step split: prod.split)
qed (simp add: polls_first_basic)

lemma run_agent_polls: "agent_polls (fst (run_agent E ths rq ps))"
proof -
  let ?t = "trip_view_of ps (rq_period rq) (hd (rq_regions rq))"
  let ?l = "\<lparr>al_ticks = 0, al_checks = 0, al_events = []\<rparr>"
  have "polls_first (agent_body E t)" for t
    unfolding agent_body_def by (intro polls_first_bindA polls_first_wait_one polls_first_run_graph polls_first_basic)
  then obtain es where "al_events (snd (agent_body E ?t ?l)) = [] @ es" "agent_polls es"
    unfolding polls_first_def by (metis agent_log.select_convs(3))
  then have "agent_polls (al_events (snd (agent_body E ?t ?l)))" by simp
  moreover have "agent_polls []" by (simp add: agent_polls_def)
  ultimately show ?thesis
    unfolding run_agent_def Let_def by (auto split: prod.split sum.split)
qed

text \<open>C20. A run polls for cancellation wherever it promises to, and honours it at once.  It polls before it
  does anything, between any two pieces of work (every chunk loaded, every batch encoded and stored, every stage,
  every call of the agent), between two stages and before it returns: the events of a run follow each other as
  \<open>next_ok\<close> says.  The polls get the answers of \<open>is_cancelled\<close> in order; when one says cancelled it is the last
  thing the run does and the run ends with the cancellation error.  A run that returns was told after all its
  stages, each done once and in order, that it is not cancelled.  The agent, when configured, is the one of theory
  \<open>AgentGraph\<close>.\<close>

theorem cancelled_run_stops:
  assumes "run E rq s = (res, t)"
    and "\<forall>agent. re_agent E = Some agent \<longrightarrow> (\<exists>G. agent = run_agent G (re_thresholds E) rq)"
  shows "\<exists>new. t = s @ new \<and> (\<exists>b es. new = Polled b # es) \<and> successively next_ok new \<and>
    polls_of new = map (re_cancelled E) [length (polls_of s) ..< length (polls_of t)] \<and>
    (Polled True \<in> set new \<longrightarrow> last new = Polled True \<and> res = Inl PipelineCancelled) \<and>
    (\<forall>r. res = Inr r \<longrightarrow> last new = Polled False \<and> judged_of new = judging_steps)"
  by (rule run_polled[OF assms(1)]) (use assms(2) run_agent_polls in blast)

definition pe_cancelling :: "nat run_env" where
  "pe_cancelling = pe_env\<lparr>re_cancelled := (\<lambda>n. n = 2),
     re_agent := Some (run_agent ag_env (re_thresholds pe_env) (pe_rq\<lparr>rq_attachments := [pe_att 1]\<rparr>))\<rparr>"

lemma cancelled_run_stops_witness:
  "run pe_cancelling (pe_rq\<lparr>rq_attachments := [pe_att 1]\<rparr>) pe_start =
     (Inl PipelineCancelled, [Polled False, Reported DOWNLOADING 0, Polled False, Worked (Load [1]), Polled True])"
proof -
  let ?rq = "pe_rq\<lparr>rq_attachments := [pe_att 1]\<rparr>"
  have d: "download_stage pe_cancelling 1 [pe_att 1] [Polled False] = (Inl (Pipeline_exn PipelineCancelled),
      [Polled False, Reported DOWNLOADING 0, Polled False, Worked (Load [1]), Polled True])"
    by code_simp
  have c: "check_cancel pe_cancelling pe_start = (Inr (), [Polled False])" by code_simp
  have g: "length (dedup (map ph_id (build_photo_states ?rq))) = 1"
    "(pd_start (rq_period ?rq) > pd_end (rq_period ?rq)) = False"
    "list_ex (\<lambda>k. map_of (re_thresholds pe_cancelling) k = None) required = False" by code_simp+
  obtain res t where r: "run pe_cancelling ?rq pe_start = (res, t)" by (cases "run pe_cancelling ?rq pe_start")
  have "snd (run_body pe_cancelling ?rq pe_start) =
      [Polled False, Reported DOWNLOADING 0, Polled False, Worked (Load [1]), Polled True]"
    using d unfolding run_body_def Let_def bindR_step[of "check_cancel pe_cancelling", OF c] g
    by (simp add: bindR_def)
  then have t: "t = [Polled False, Reported DOWNLOADING 0, Polled False, Worked (Load [1]), Polled True]"
    using run_state[of pe_cancelling ?rq pe_start] r by simp
  have "\<forall>agent. re_agent pe_cancelling = Some agent \<longrightarrow> (\<exists>G. agent = run_agent G (re_thresholds pe_cancelling) ?rq)"
    by (auto simp: pe_cancelling_def)
  from cancelled_run_stops[OF r this] t have "res = Inl PipelineCancelled" by (simp add: pe_start_def)
  with r t show ?thesis by simp
qed

end
