(* ===== verification/TalkTheorems.thy ===== *)
theory TalkTheorems
  imports TalkLemmas AgentTheorems
begin

text \<open>
  The properties of the conversations with the model, and an example conversation.
\<close>

section \<open>An example\<close>

text \<open>The model first searches a public place and looks at a photo, then proposes the place.\<close>

definition tt_candidate :: candidate where
  "tt_candidate = \<lparr>ca_id = ''kb:a:1'', ca_name = [65], ca_lat = 37, ca_lon = 127\<rparr>"

definition tt_calls :: "tool_call list" where
  "tt_calls =
     [\<lparr>tc_id = ''a'', tc_name = ''search_public_places'', tc_args = Some [(''query'', Json (JStr [65]))]\<rparr>,
      \<lparr>tc_id = ''b'', tc_name = ''read_photo'', tc_args = Some [(''photo_ids'', Json (JArr [JStr (of_ascii ''S1'')]))]\<rparr>]"

definition tt_decide :: tool_call where
  "tt_decide = \<lparr>tc_id = ''c'', tc_name = ''decide'', tc_args = Some
     [(''decision'', Json (JStr (of_ascii ''new''))), (''confidence'', Json (JStr (of_ascii ''medium''))),
      (''candidate_id'', Json (JStr (of_ascii ''kb:a:1'')))]\<rparr>"

definition tt_env :: talk_env where
  "tt_env = \<lparr>te_trip = trip_view_of [ag_photo 2, ag_photo 1] (rq_period ag_request) (37, 127), te_retries = 3,
     te_reply = (\<lambda>n. if n = 0 then Transient_failure else if n = 1 then Reply tt_calls else Reply [tt_decide]),
     te_resolve = (\<lambda>n ks. True), te_search = (\<lambda>p ids k. []),
     te_public = (\<lambda>q c r. Some [tt_candidate]), te_keyword = (\<lambda>rq. Http_timeout),
     te_region = (\<lambda>c. Http_timeout), te_repr = (\<lambda>v. [])\<rparr>"

definition tt_session :: session where
  "tt_session = new_session 200"

lemma tt_keys: "photo_keys (estimate_photos (te_trip tt_env) (ag_photo 2)) = [[], []]"
  by code_simp

lemma tt_chat:
  "ss_calls s = 0 \<Longrightarrow> \<exists>s'. chat tt_env ms ks s = (Inr tt_calls, s') \<and> ss_calls s' = 2 \<and>
     ss_sent s' = ss_sent s @ [(ms, ks), (ms, ks)]"
  "2 \<le> ss_calls s \<Longrightarrow> \<exists>s'. chat tt_env ms ks s = (Inr [tt_decide], s') \<and> 
     ss_sent s' = ss_sent s @ [(ms, ks)]"
  by (simp_all add: chat_def tt_env_def bindS_def modS_def getS_def retS_def failS_def eval_nat_numeral)

lemma tt_ref: "arg_list (map_of (args_of (tt_calls ! 1)) ''photo_ids'') = Some [JStr (of_ascii ''S1'')]"
  "by_ref (te_trip tt_env) (arg_ref (te_repr tt_env) (Some (Json (JStr (of_ascii ''S1''))))) = Some (ag_photo 1)"
proof -
  show "arg_list (map_of (args_of (tt_calls ! 1)) ''photo_ids'') = Some [JStr (of_ascii ''S1'')]"
    by (simp add: tt_calls_def args_of_def arg_list_def)
  have "arg_text (te_repr tt_env) (Some (Json (JStr (of_ascii ''S1'')))) = of_ascii ''S1''"
    by (simp add: arg_text_def of_ascii_def)
  moreover have "ustrip (of_ascii ''S1'') = of_ascii ''S1''"
    by (simp add: ustrip_def is_space_def space_points_def of_ascii_def)
  moreover have "id_text (of_ascii ''S1'') = ''S1''" by (rule id_text_of_ascii) simp
  ultimately have "arg_ref (te_repr tt_env) (Some (Json (JStr (of_ascii ''S1'')))) = ''S1''"
    by (simp add: arg_ref_def ref_of_def all_digits_def)
  moreover have "by_ref (te_trip tt_env) ''S1'' = Some (ag_photo 1)" by code_simp
  ultimately show "by_ref (te_trip tt_env) (arg_ref (te_repr tt_env) (Some (Json (JStr (of_ascii ''S1''))))) = Some (ag_photo 1)"
    by simp
qed

lemma tt_query: "ustrip (arg_text (te_repr tt_env) (map_of (args_of (tt_calls ! 0)) ''query'')) = [65]"
  "arg_int (map_of (args_of (tt_calls ! 0)) ''radius_m'') 2000 100 30000 = Inr 2000"
  by (simp_all add: tt_calls_def args_of_def arg_text_def ustrip_def is_space_def space_points_def arg_int_def py_int_def)

definition tt_entry :: place_search where
  "tt_entry = Public_search [65] (anchor_of (te_trip tt_env) []) 2000 [tt_candidate]"

lemma tt_search: "\<exists>out. tool_run tt_env ''search_public_places'' (args_of (tt_calls ! 0)) k =
    (Inr (out, None, []), k\<lparr>tk_cands := dict_set ''kb:a:1'' tt_candidate (tk_cands k),
       tk_session := (tk_session k)\<lparr>ss_searches := ss_searches (tk_session k) @ [tt_entry]\<rparr>\<rparr>)"
proof -
  have "map_of (args_of (tt_calls ! 0)) ''near'' = None" by (simp add: tt_calls_def args_of_def)
  moreover have "te_public tt_env q c r = Some [tt_candidate]" for q c r by (simp add: tt_env_def)
  ultimately show ?thesis
    using tt_query
    by (simp add: tool_run_def tool_search_def Let_def bindS_def liftS_def retS_def found_rows_def modS_def
        note_in_session tt_entry_def add_candidates_def tt_candidate_def)
qed

lemma tt_read: "tk_images k = 2 \<Longrightarrow> tool_run tt_env ''read_photo'' (args_of (tt_calls ! 1)) k =
    (Inr (Attached [1], Some 1, [[]]), k\<lparr>tk_images := 3\<rparr>)"
  using tt_ref
  by (simp add: tool_run_def tool_read_def Let_def bindS_def getS_def retS_def modS_def MAX_IMAGES_def READ_LIMIT_def
      ag_photo_def)

lemma tt_tools:
  assumes "tk_images k = 2"
  shows "\<exists>k'. run_calls tt_env ''decide'' tt_calls [] k = (Inr None, k') \<and>
     tk_cands k' = dict_set ''kb:a:1'' tt_candidate (tk_cands k) \<and>
     tk_session k' = (tk_session k)\<lparr>ss_searches := ss_searches (tk_session k) @ [tt_entry]\<rparr>"
proof -
  obtain out where s: "tool_run tt_env ''search_public_places'' (args_of (tt_calls ! 0)) k =
    (Inr (out, None, []), k\<lparr>tk_cands := dict_set ''kb:a:1'' tt_candidate (tk_cands k),
       tk_session := (tk_session k)\<lparr>ss_searches := ss_searches (tk_session k) @ [tt_entry]\<rparr>\<rparr>)" using tt_search by blast
  have c: "tt_calls = [tt_calls ! 0, tt_calls ! 1]" "tc_name (tt_calls ! 0) = ''search_public_places''"
    "tc_name (tt_calls ! 1) = ''read_photo''" by (simp_all add: tt_calls_def)
  show ?thesis
    by (subst c(1)) (simp add: c(2,3) s bindS_def push_def modS_def retS_def tt_read assms del: nth_Cons_0 One_nat_def)
qed

lemma tt_episode: "\<exists>s'. episode tt_env ''decide'' MAX_CALLS [[], []] tt_session =
    (Inr (Some (args_of tt_decide), [(''kb:a:1'', tt_candidate)]), s') \<and> length (ss_sent s') = 3 \<and>
    hd (ss_sent s') = ([System_msg, User_msg 2], [[], []])"
proof -
  let ?k0 = "start_talk [[], []] tt_session"
  have "ss_calls tt_session = 0" "ss_sent tt_session = []" by (simp_all add: tt_session_def new_session_def)
  from tt_chat(1)[OF this(1), of "tk_msgs ?k0" "tk_keys ?k0"] this(2) obtain s1 where
    1: "chat tt_env (tk_msgs ?k0) (tk_keys ?k0) tt_session = (Inr tt_calls, s1)" "ss_calls s1 = 2" "length (ss_sent s1) = 2"
      "hd (ss_sent s1) = ([System_msg, User_msg 2], [[], []])"
    by (auto simp: start_talk_def)
  let ?k1 = "?k0\<lparr>tk_session := s1, tk_msgs := tk_msgs ?k0 @ [Assistant_msg (map tc_id tt_calls)]\<rparr>"
  from tt_tools[of ?k1] obtain k2 where 2: "run_calls tt_env ''decide'' tt_calls [] ?k1 = (Inr None, k2)"
    "tk_cands k2 = [(''kb:a:1'', tt_candidate)]" "tk_session k2 = s1\<lparr>ss_searches := ss_searches s1 @ [tt_entry]\<rparr>" by (auto simp: start_talk_def)
  let ?s2 = "s1\<lparr>ss_searches := ss_searches s1 @ [tt_entry]\<rparr>"
  have "2 \<le> ss_calls ?s2" by (simp add: 1(2))
  from tt_chat(2)[OF this, of "tk_msgs k2" "tk_keys k2"] 1(3) obtain s3 where
    3: "chat tt_env (tk_msgs k2) (tk_keys k2) ?s2 = (Inr [tt_decide], s3)" "length (ss_sent s3) = 3"
      "hd (ss_sent s3) = ([System_msg, User_msg 2], [[], []])"
    using 1(4) by (auto simp: hd_append simp flip: length_0_conv)
  let ?k3 = "k2\<lparr>tk_session := s3, tk_msgs := tk_msgs k2 @ [Assistant_msg [tc_id tt_decide]]\<rparr>"
  have 4: "episode_loop tt_env ''decide'' (Suc n) k2 = (Inr (Some (args_of tt_decide)), ?k3)" for n
    using 3 2(3) by (simp add: bindS_def getS_def in_session_def push_def modS_def retS_def tt_decide_def)
  have tk0: "tk_session ?k0 = tt_session" by (simp add: start_talk_def)
  have ne: "tt_calls \<noteq> []" by (simp add: tt_calls_def)
  have 5: "episode_loop tt_env ''decide'' (Suc (Suc (Suc n))) ?k0 = (Inr (Some (args_of tt_decide)), ?k3)" for n
    apply (subst episode_loop.simps(2))
    using 1(1) 2(1) 4[of "Suc n"] tk0 ne
    by (simp add: bindS_def getS_def in_session_def push_def modS_def retS_def del: episode_loop.simps run_calls.simps)
  have "MAX_CALLS = Suc (Suc (Suc 9))" by (simp add: MAX_CALLS_def)
  then show ?thesis unfolding episode_def using 5[of 9] 2(2) 3(2,3) by simp
qed

lemma tt_answer: "decide_of (te_repr tt_env) (args_of tt_decide) =
    \<lparr>da_decision = Some ''new'', da_confidence = Some ''medium'', da_place = [], da_candidate = ''kb:a:1'', da_name = []\<rparr>"
proof -
  have "ustrip (of_ascii ''kb:a:1'') = of_ascii ''kb:a:1''"
    by (simp add: ustrip_def is_space_def space_points_def of_ascii_def)
  moreover have "of_ascii ''kb:a:1'' \<noteq> []" by (simp add: of_ascii_def)
  moreover have "id_text [] = []" by (simp add: id_text_def)
  ultimately show ?thesis
    by (simp add: decide_of_def tt_decide_def args_of_def arg_str_def arg_text_def id_text_of_ascii)
qed

lemma tt_estimate: "\<exists>s'. estimate tt_env (ag_photo 2) tt_session =
    (Inr \<lparr>pp_photo = 2, pp_decision = Some New_place, pp_conf = Medium, pp_place = None, pp_new = Some tt_candidate\<rparr>, s') \<and>
    length (ss_sent s') = 3 \<and> hd (ss_sent s') = ([System_msg, User_msg 2], [[], []])"
proof -
  from tt_episode obtain s' where e: "episode tt_env ''decide'' MAX_CALLS [[], []] tt_session =
    (Inr (Some (args_of tt_decide), [(''kb:a:1'', tt_candidate)]), s')" "length (ss_sent s') = 3" "hd (ss_sent s') = ([System_msg, User_msg 2], [[], []])" by blast
  then show ?thesis
    unfolding estimate_def tt_keys
    by (simp add: bindS_def Let_def tt_answer confident_new_def confidence_of_def retS_def estimate_proposal_def ag_photo_def)
qed

section \<open>Properties\<close>

lemma always_region: "always (\<lambda>s. ss_sent s = l) (in_region E c)"
  unfolding in_region_def
  by (intro always_intro always_mod)
    (simp_all add: always_def session_region_def split: prod.split)

lemma bind_episode_sent:
  assumes "sent_ok s" "length ks \<le> MAX_IMAGES" "\<And>x l. always (\<lambda>s. ss_sent s = l) (f x)"
  shows "sent_ok (snd (bindS (episode E final n ks) f s)) \<and>
    length (ss_sent (snd (bindS (episode E final n ks) f s))) \<le> length (ss_sent s) + n * max_attempts E"
proof -
  obtain x u where u: "episode E final n ks s = (x, u)" by (cases "episode E final n ks s")
  have "ss_sent (snd (f y u)) = ss_sent u" for y using assms(3)[of "ss_sent u" y] by (simp add: always_def)
  with episode_ok[OF u assms(2,1)] show ?thesis
    by (cases x) (simp_all add: bindS_def u sent_ok_def)
qed

lemma estimate_sent:
  assumes "sent_ok s"
  shows "sent_ok (snd (estimate E p s)) \<and>
    length (ss_sent (snd (estimate E p s))) \<le> length (ss_sent s) + 12 * max_attempts E"
proof -
  have k: "length (photo_keys (estimate_photos (te_trip E) p)) \<le> MAX_IMAGES"
    using estimate_photos_max by (simp add: photo_keys_def)
  show ?thesis
    unfolding estimate_def MAX_CALLS_def Let_def
    by (rule bind_episode_sent[OF assms k]) (intro always_intro always_region)
qed

lemma aggregate_sent:
  assumes "sent_ok s"
  shows "sent_ok (snd (aggregate E ps s)) \<and>
    length (ss_sent (snd (aggregate E ps s))) \<le> length (ss_sent s) + 12 * max_attempts E"
proof (cases "high_proposals ps = []")
  case True
  with assms show ?thesis by (simp add: aggregate_def retS_def)
next
  case False
  show ?thesis
    unfolding aggregate_def Let_def MAX_CALLS_def using False
    by (simp, intro bind_episode_sent[OF assms] always_intro) simp
qed

lemma merge_sent:
  assumes "sent_ok s"
  shows "sent_ok (snd (merge E s)) \<and>
    length (ss_sent (snd (merge E s))) \<le> length (ss_sent s) + 24 * max_attempts E"
  unfolding merge_def MAX_MERGE_CALLS_def
  by (intro bind_episode_sent[OF assms] always_intro) simp

text \<open>Every request of a conversation is well formed, whatever the model answers: as many photo
  keys as photo places in its messages, never more than thirty, and every tool call of an earlier
  turn found_answer, in order.  Estimating one photo sends at most twelve requests, each at most once
  and for every retry again; aggregating as many, merging twice as many.\<close>

theorem model_requests_well_formed:
  assumes "sent_ok s"
  shows "sent_ok (snd (estimate E p s)) \<and>
    length (ss_sent (snd (estimate E p s))) \<le> length (ss_sent s) + 12 * max_attempts E \<and>
    sent_ok (snd (aggregate E ps s)) \<and>
    length (ss_sent (snd (aggregate E ps s))) \<le> length (ss_sent s) + 12 * max_attempts E \<and>
    sent_ok (snd (merge E s)) \<and>
    length (ss_sent (snd (merge E s))) \<le> length (ss_sent s) + 24 * max_attempts E"
  using estimate_sent[OF assms] aggregate_sent[OF assms] merge_sent[OF assms] by blast

lemma model_requests_well_formed_witness:
  "sent_ok (snd (estimate tt_env (ag_photo 2) tt_session)) \<and>
   length (ss_sent (snd (estimate tt_env (ag_photo 2) tt_session))) = 3"
proof -
  have "sent_ok tt_session" by (simp add: sent_ok_def tt_session_def new_session_def)
  from model_requests_well_formed[OF this, of tt_env "ag_photo 2"] tt_estimate show ?thesis by auto
qed

text \<open>A second example: every conversation searches with Kakao, then proposes what was found.  The second
  conversation of the job reads the results of the first again.\<close>

definition tk_place :: kakao_place where
  "tk_place = \<lparr>kp_id = ''kakao:7'', kp_name = [65], kp_category = [], kp_address = [], kp_lat = 37, kp_lon = 127,
     kp_distance = None\<rparr>"

definition tk_ask :: tool_call where
  "tk_ask = \<lparr>tc_id = ''a'', tc_name = ''kakao_keyword_search'', tc_args = Some [(''query'', Json (JStr [65]))]\<rparr>"

definition tk_decide :: tool_call where
  "tk_decide = \<lparr>tc_id = ''c'', tc_name = ''decide'', tc_args = Some
     [(''decision'', Json (JStr (of_ascii ''new''))), (''confidence'', Json (JStr (of_ascii ''medium''))),
      (''candidate_id'', Json (JStr (of_ascii ''kakao:7'')))]\<rparr>"

definition tk_env :: talk_env where
  "tk_env = tt_env\<lparr>te_reply := (\<lambda>n. if even n then Reply [tk_ask] else Reply [tk_decide]),
     te_keyword := (\<lambda>rq. Http_data (Some [\<lparr>kd_id = Some ''7'', kd_name = Some [65], kd_category = None, kd_road = None,
       kd_address = None, kd_y = Some 37, kd_x = Some 127, kd_distance = None\<rparr>]))\<rparr>"

definition tk_center :: "rat \<times> rat" where
  "tk_center = anchor_of (te_trip tk_env) []"

definition tk_proposal :: proposal where
  "tk_proposal = \<lparr>pp_photo = 2, pp_decision = Some New_place, pp_conf = Medium, pp_place = None,
     pp_new = Some (kakao_candidate tk_place)\<rparr>"

lemma tk_chat: "chat tk_env ms ks s =
    (Inr [if even (ss_calls s) then tk_ask else tk_decide],
     s\<lparr>ss_calls := ss_calls s + 1, ss_sent := ss_sent s @ [(ms, ks)]\<rparr>)"
  by (simp add: chat_def tk_env_def tt_env_def bindS_def modS_def getS_def retS_def eval_nat_numeral)

lemma tk_args: "ustrip (arg_text repr (map_of (args_of tk_ask) ''query'')) = [65]"
  "map_of (args_of tk_ask) ''near'' = None" "arg_int (map_of (args_of tk_ask) ''radius_m'') 2000 100 20000 = Inr 2000"
  by (simp_all add: tk_ask_def args_of_def arg_text_def ustrip_def is_space_def space_points_def arg_int_def py_int_def)

lemma tk_tool:
  assumes "kakao_search tk_env [65] tk_center 2000 (tk_session k) = (Inr (Inr (Some [tk_place])), s')"
  shows "\<exists>out. run_calls tk_env ''decide'' [tk_ask] [] k = (Inr None, k\<lparr>tk_session := s',
    tk_cands := dict_set ''kakao:7'' (kakao_candidate tk_place) (tk_cands k), tk_msgs := tk_msgs k @ [Tool_msg ''a'' out]\<rparr>)"
proof -
  have n: "tc_name tk_ask = ''kakao_keyword_search''" "tc_id tk_ask = ''a''" by (simp_all add: tk_ask_def)
  have c: "ca_id (kakao_candidate tk_place) = ''kakao:7''" by (simp add: kakao_candidate_def tk_place_def)
  show ?thesis
    by (intro exI[of _ "Found (round5 (fst tk_center), round5 (snd tk_center)) [kakao_candidate tk_place]"])
      (simp add: n c tk_args tk_center_def[symmetric] assms in_session_def tool_run_def tool_search_def Let_def bindS_def
        liftS_def retS_def found_rows_def modS_def push_def add_candidates_def del: One_nat_def)
qed

lemma tk_decide_of: "decide_of (te_repr tk_env) (args_of tk_decide) =
    \<lparr>da_decision = Some ''new'', da_confidence = Some ''medium'', da_place = [], da_candidate = ''kakao:7'', da_name = []\<rparr>"
proof -
  have "ustrip (of_ascii ''kakao:7'') = of_ascii ''kakao:7''"
    by (simp add: ustrip_def is_space_def space_points_def of_ascii_def)
  moreover have "of_ascii ''kakao:7'' \<noteq> []" by (simp add: of_ascii_def)
  moreover have "id_text [] = []" by (simp add: id_text_def)
  ultimately show ?thesis
    by (simp add: decide_of_def tk_decide_def args_of_def arg_str_def arg_text_def id_text_of_ascii)
qed

lemma tk_estimate:
  assumes "even (ss_calls s)"
    and "\<And>n l. kakao_search tk_env [65] tk_center 2000 (s\<lparr>ss_calls := n, ss_sent := l\<rparr>) =
      (Inr (Inr (Some [tk_place])), s\<lparr>ss_calls := n, ss_sent := l, ss_budget := b, ss_cache := C, ss_searches := L\<rparr>)"
  shows "\<exists>n l. estimate tk_env (ag_photo 2) s =
    (Inr tk_proposal, s\<lparr>ss_calls := n, ss_sent := l, ss_budget := b, ss_cache := C, ss_searches := L\<rparr>) \<and> even n"
proof -
  let ?ks = "photo_keys (estimate_photos (te_trip tk_env) (ag_photo 2))"
  let ?k0 = "start_talk ?ks s"
  let ?s1 = "s\<lparr>ss_calls := ss_calls s + 1, ss_sent := ss_sent s @ [(tk_msgs ?k0, tk_keys ?k0)]\<rparr>"
  let ?k1 = "?k0\<lparr>tk_session := ?s1, tk_msgs := tk_msgs ?k0 @ [Assistant_msg [tc_id tk_ask]]\<rparr>"
  let ?s2 = "s\<lparr>ss_calls := ss_calls s + 1, ss_sent := ss_sent s @ [(tk_msgs ?k0, tk_keys ?k0)], ss_budget := b,
    ss_cache := C, ss_searches := L\<rparr>"
  have "kakao_search tk_env [65] tk_center 2000 (tk_session ?k1) = (Inr (Inr (Some [tk_place])), ?s2)"
    using assms(2) by simp
  from tk_tool[OF this] obtain k2 where k2: "run_calls tk_env ''decide'' [tk_ask] [] ?k1 = (Inr None, k2)"
    "tk_session k2 = ?s2" "tk_cands k2 = [(''kakao:7'', kakao_candidate tk_place)]" by (auto simp: start_talk_def)
  let ?s3 = "?s2\<lparr>ss_calls := ss_calls s + 2, ss_sent := ss_sent ?s2 @ [(tk_msgs k2, tk_keys k2)]\<rparr>"
  let ?k3 = "k2\<lparr>tk_session := ?s3, tk_msgs := tk_msgs k2 @ [Assistant_msg [tc_id tk_decide]]\<rparr>"
  have d: "tc_name tk_decide = ''decide''" by (simp add: tk_decide_def)
  have 4: "episode_loop tk_env ''decide'' (Suc n) k2 = (Inr (Some (args_of tk_decide)), ?k3)" for n
    using assms(1) by (simp add: bindS_def getS_def in_session_def push_def modS_def retS_def tk_chat k2(2) d)
  have 5: "episode_loop tk_env ''decide'' (Suc (Suc (Suc n))) ?k0 = (Inr (Some (args_of tk_decide)), ?k3)" for n
    apply (subst episode_loop.simps(2))
    using assms(1) k2(1) 4[of "Suc n"]
    by (simp add: bindS_def getS_def in_session_def push_def modS_def retS_def tk_chat start_talk_def
        del: episode_loop.simps run_calls.simps)
  have "MAX_CALLS = Suc (Suc (Suc 9))" by (simp add: MAX_CALLS_def)
  then have "episode tk_env ''decide'' MAX_CALLS ?ks s =
      (Inr (Some (args_of tk_decide), [(''kakao:7'', kakao_candidate tk_place)]), ?s3)"
    unfolding episode_def using 5[of 9] k2(3) by simp
  then have "estimate tk_env (ag_photo 2) s = (Inr tk_proposal, ?s3)"
    unfolding estimate_def
    by (simp add: bindS_def Let_def tk_decide_of confident_new_def confidence_of_def retS_def estimate_proposal_def
        ag_photo_def tk_proposal_def)
  with assms(1) show ?thesis by (intro exI[of _ "ss_calls s + 2"] exI[of _ "ss_sent ?s3"] conjI) (cases s; simp)+
qed

lemma tk_fresh:
  assumes "ss_cache s = []" "kb_used (ss_budget s) < kb_limit (ss_budget s)"
  shows "kakao_search tk_env [65] tk_center 2000 s = (Inr (Inr (Some [tk_place])),
    s\<lparr>ss_budget := (ss_budget s)\<lparr>kb_used := kb_used (ss_budget s) + 1\<rparr>,
      ss_cache := [(([65], round4 (fst tk_center), round4 (snd tk_center), 2000), [tk_place])],
      ss_searches := ss_searches s @ [Kakao_asked [65] tk_center 2000 [tk_place]]\<rparr>)"
proof -
  have u: "ustrip [65] = [65]" by (simp add: ustrip_def is_space_def space_points_def)
  have "te_keyword tk_env rq = Http_data (Some [\<lparr>kd_id = Some ''7'', kd_name = Some [65], kd_category = None, kd_road = None,
       kd_address = None, kd_y = Some 37, kd_x = Some 127, kd_distance = None\<rparr>])" for rq by (simp add: tk_env_def)
  then show ?thesis using assms
    by (simp add: kakao_search_def Let_def bindS_def getS_def keyword_def u budget_take_def kakao_place_of_def tk_place_def
        first_text_def or_text_def)
qed

lemma tk_again:
  assumes "ss_cache s = [(([65], round4 (fst tk_center), round4 (snd tk_center), 2000), [tk_place])]"
  shows "kakao_search tk_env [65] tk_center 2000 s = (Inr (Inr (Some [tk_place])),
    s\<lparr>ss_searches := ss_searches s @ [Kakao_reused [65] tk_center 2000 [tk_place]]\<rparr>)"
  using assms by (simp add: kakao_search_def note_search_def modS_def Let_def bindS_def getS_def retS_def)

lemma tk_job: "\<exists>s s'. job_session [tk_env] s \<and> estimate tk_env (ag_photo 2) s = (Inr tk_proposal, s') \<and>
    ss_searches s = [Kakao_asked [65] tk_center 2000 [tk_place]] \<and>
    ss_searches s' = ss_searches s @ [Kakao_reused [65] tk_center 2000 [tk_place]]"
proof -
  let ?b = "(ss_budget tt_session)\<lparr>kb_used := kb_used (ss_budget tt_session) + 1\<rparr>"
  let ?C = "[(([65], round4 (fst tk_center), round4 (snd tk_center), 2000 :: int), [tk_place])]"
  let ?L = "[Kakao_asked [65] tk_center 2000 [tk_place]]"
  have i: "ss_cache tt_session = []" "ss_searches tt_session = []" "ss_calls tt_session = 0"
    "ss_budget tt_session = \<lparr>kb_limit = 200, kb_used = 0\<rparr>" by (simp_all add: tt_session_def new_session_def)
  have "kakao_search tk_env [65] tk_center 2000 (tt_session\<lparr>ss_calls := n, ss_sent := l\<rparr>) = (Inr (Inr (Some [tk_place])),
      tt_session\<lparr>ss_calls := n, ss_sent := l, ss_budget := ?b, ss_cache := ?C, ss_searches := ?L\<rparr>)" for n l
    using tk_fresh[of "tt_session\<lparr>ss_calls := n, ss_sent := l\<rparr>"] by (simp add: i)
  from tk_estimate[OF _ this] obtain n l where
    1: "estimate tk_env (ag_photo 2) tt_session = (Inr tk_proposal,
      tt_session\<lparr>ss_calls := n, ss_sent := l, ss_budget := ?b, ss_cache := ?C, ss_searches := ?L\<rparr>)" "even n"
    by (auto simp: i)
  let ?s = "tt_session\<lparr>ss_calls := n, ss_sent := l, ss_budget := ?b, ss_cache := ?C, ss_searches := ?L\<rparr>"
  have j: "job_session [tk_env] ?s"
    using js_estimate[OF js_new[of 200], of tk_env "ag_photo 2"] 1(1) by (simp add: tt_session_def)
  have "kakao_search tk_env [65] tk_center 2000 (?s\<lparr>ss_calls := m, ss_sent := k\<rparr>) = (Inr (Inr (Some [tk_place])),
      ?s\<lparr>ss_calls := m, ss_sent := k, ss_budget := ?b, ss_cache := ?C,
        ss_searches := ?L @ [Kakao_reused [65] tk_center 2000 [tk_place]]\<rparr>)" for m k
    using tk_again[of "?s\<lparr>ss_calls := m, ss_sent := k\<rparr>"] by simp
  from tk_estimate[OF _ this] 1(2) obtain s' where
    "estimate tk_env (ag_photo 2) ?s = (Inr tk_proposal, s')"
    "ss_searches s' = ?L @ [Kakao_reused [65] tk_center 2000 [tk_place]]" by auto
  with j show ?thesis by (intro exI[of _ ?s] exI[of _ s']) simp
qed

text \<open>C27. A new place is never invented by the model.  In any conversation of a job, when the answer for a
  photo proposes a new place, its id and coordinates are those of a candidate found by a search the tools made
  in this conversation: the public place index or Kakao answered that very search with it, or the search read
  again the Kakao results of the job, and Kakao had answered with it when a conversation of the job asked for
  the same words and radius at the same rounded place.\<close>

theorem new_places_come_from_searches:
  assumes "job_session Es s" "estimate E p s = (Inr pr, s')" "pp_new pr = Some c"
  shows "\<exists>e d. e \<in> set (drop (length (ss_searches s)) (ss_searches s')) \<and> d \<in> set (found_by e) \<and>
    ca_id c = ca_id d \<and> ca_lat c = ca_lat d \<and> ca_lon c = ca_lon d \<and>
    (case e of
       Kakao_reused q x r ps \<Rightarrow>
         (\<exists>E' \<in> set (E # Es). \<exists>y. same_spot x y \<and> Kakao_asked q y r ps \<in> set (ss_searches s') \<and>
            found_answer E' (Kakao_asked q y r ps) d)
     | _ \<Rightarrow> found_answer E e d)"
  using estimate_new_backed[OF assms(2) job_session_backed[OF assms(1)] assms(3)]
  unfolding search_backed_def asked_before_def by blast

lemma new_places_come_from_searches_witness:
  "\<exists>s s'. job_session [tk_env] s \<and> estimate tk_env (ag_photo 2) s = (Inr tk_proposal, s') \<and>
     (\<exists>y. same_spot tk_center y \<and> Kakao_asked [65] y 2000 [tk_place] \<in> set (ss_searches s') \<and>
        found_answer tk_env (Kakao_asked [65] y 2000 [tk_place]) (kakao_candidate tk_place))"
proof -
  from tk_job obtain s s' where j: "job_session [tk_env] s" "estimate tk_env (ag_photo 2) s = (Inr tk_proposal, s')"
    "ss_searches s' = ss_searches s @ [Kakao_reused [65] tk_center 2000 [tk_place]]" by blast
  have "pp_new tk_proposal = Some (kakao_candidate tk_place)" by (simp add: tk_proposal_def)
  from new_places_come_from_searches[OF j(1,2) this]
  have "\<exists>y. same_spot tk_center y \<and> Kakao_asked [65] y 2000 [tk_place] \<in> set (ss_searches s') \<and>
        found_answer tk_env (Kakao_asked [65] y 2000 [tk_place]) (kakao_candidate tk_place)"
    by (simp add: j(3) del: found_answer.simps)
  with j show ?thesis by blast
qed





text \<open>A number the model gives a tool is clamped to the tool's range, and text or a missing
  value falls back to the default; only an infinite number escapes the check and fails the agent.\<close>

theorem tool_numbers_clamped:
  assumes "low \<le> high"
  shows "(v \<noteq> Some Infinite \<longleftrightarrow> (\<exists>i. arg_int v deflt low high = Inr i)) \<and>
    (\<forall>i. arg_int v deflt low high = Inr i \<longrightarrow> low \<le> i \<and> i \<le> high) \<and>
    (low \<le> deflt \<and> deflt \<le> high \<longrightarrow> arg_int None deflt low high = Inr deflt)"
  using assms by (auto simp: arg_int_def py_int_def split: option.splits arg_value.splits json.splits sum.splits bool.splits)

lemma tool_numbers_clamped_witness:
  "(\<nexists>i. arg_int (Some Infinite) 6 1 10 = Inr i) \<and> arg_int None 6 1 10 = Inr 6"
  using tool_numbers_clamped[of 1 10 "Some Infinite" 6] by simp

text \<open>An infinite number ends the conversation with an error, although every service answers.\<close>

definition tt_infinite :: talk_env where
  "tt_infinite = tt_env\<lparr>te_reply := (\<lambda>n. Reply [\<lparr>tc_id = ''a'', tc_name = ''search_public_places'',
     tc_args = Some [(''query'', Json (JStr [65])), (''radius_m'', Infinite)]\<rparr>])\<rparr>"

lemma infinite_number_fails: "fst (estimate tt_infinite p s) = Inl pipeline_error_default"
proof -
  let ?c = "\<lparr>tc_id = ''a'', tc_name = ''search_public_places'',
     tc_args = Some [(''query'', Json (JStr [65])), (''radius_m'', Infinite)]\<rparr>"
  have chat: "chat tt_infinite ms ks s = (Inr [?c], s\<lparr>ss_calls := ss_calls s + 1, ss_sent := ss_sent s @ [(ms, ks)]\<rparr>)"
    for ms ks s
    by (simp add: chat_def tt_infinite_def tt_env_def bindS_def modS_def getS_def retS_def eval_nat_numeral)
  have "ustrip (arg_text (te_repr tt_infinite) (map_of (args_of ?c) ''query'')) = [65]"
    by (simp add: args_of_def arg_text_def ustrip_def is_space_def space_points_def)
  moreover have "arg_int (map_of (args_of ?c) ''radius_m'') d lo hi = Inl pipeline_error_default" for d lo hi
    by (simp add: args_of_def arg_int_def py_int_def)
  ultimately have "tool_run tt_infinite ''search_public_places'' (args_of ?c) k = (Inl pipeline_error_default, k)" for k
    by (simp add: tool_run_def tool_search_def Let_def bindS_def liftS_def)
  then have calls: "run_calls tt_infinite ''decide'' [?c] [] k = (Inl pipeline_error_default, k)" for k
    by (simp add: bindS_def)
  have loop: "\<exists>k'. episode_loop tt_infinite ''decide'' (Suc n) k = (Inl pipeline_error_default, k')" for n k
    unfolding episode_loop.simps
    by (simp add: bindS_def getS_def in_session_def push_def modS_def chat calls del: run_calls.simps)
  have "\<exists>u. episode tt_infinite ''decide'' (Suc 11) ks s = (Inl pipeline_error_default, u)" for ks
  proof -
    from loop[of 11 "start_talk ks s"] obtain k' where
      "episode_loop tt_infinite ''decide'' (Suc 11) (start_talk ks s) = (Inl pipeline_error_default, k')" by (rule exE)
    then show ?thesis by (simp add: episode_def del: episode_loop.simps)
  qed
  moreover have "MAX_CALLS = Suc 11" by (simp add: MAX_CALLS_def)
  ultimately obtain u where "episode tt_infinite ''decide'' MAX_CALLS
      (photo_keys (estimate_photos (te_trip tt_infinite) p)) s = (Inl pipeline_error_default, u)" by metis
  then show ?thesis by (simp add: estimate_def bindS_def)
qed

end
