(* ===== verification/ModelClient.thy ===== *)
theory ModelClient
  imports TalkTheorems
begin

text \<open>
  The client of the generation server: \<open>src/app/infra/vllm_client.py\<close> and the message types of
  \<open>src/app/infra/vlm.py\<close>.  A call is checked, its messages are put into the wire format with the image URLs
  at their places, sent once, and the answer is read.  What becomes of the request is a \<open>post_fate\<close>; a body
  that is no JSON is \<open>None\<close>.

  What the generation server is sent: every image of a call at its place and in order, and every call of the
  agent, of a story and of a search is one the client accepts.
\<close>

section \<open>Messages\<close>

datatype content_part = Text_part utext | Image_part

datatype content = Plain utext | Parts "content_part list"

datatype chat_role = R_system | R_user | R_assistant | R_tool

record wire_call =
  wc_id :: utext
  wc_name :: utext
  wc_args :: utext

text \<open>An absent list of calls is the empty one.\<close>

record chat_message =
  cm_role :: chat_role
  cm_content :: content
  cm_calls :: "wire_call list"
  cm_answers :: "utext option"

text \<open>In the wire format an image is its URL; \<open>W_slot\<close> is a place that was not filled.\<close>

datatype wire_part = W_text utext | W_image string | W_slot

datatype wire_content = W_plain utext | W_parts "wire_part list"

record wire_message =
  wm_role :: chat_role
  wm_content :: wire_content
  wm_calls :: "wire_call list"
  wm_answers :: "utext option"

fun wired_part :: "content_part \<Rightarrow> wire_part" where
  "wired_part (Text_part u) = W_text u"
| "wired_part Image_part = W_slot"

fun wired_content :: "content \<Rightarrow> wire_content" where
  "wired_content (Plain u) = W_plain u"
| "wired_content (Parts ps) = W_parts (map wired_part ps)"

definition wire_item :: "chat_message \<Rightarrow> wire_message" where
  "wire_item m = \<lparr>wm_role = cm_role m, wm_content = wired_content (cm_content m), wm_calls = cm_calls m,
     wm_answers = cm_answers m\<rparr>"

section \<open>\<open>_wire_messages\<close>\<close>

definition users :: "chat_message list \<Rightarrow> nat list" where
  "users ms = filter (\<lambda>i. cm_role (ms ! i) = R_user) [0..<length ms]"

fun image_parts :: "content \<Rightarrow> content_part list" where
  "image_parts (Plain u) = []"
| "image_parts (Parts ps) = filter (\<lambda>p. p = Image_part) ps"

text \<open>The index of a message once for each of its images.\<close>

definition slots :: "chat_message list \<Rightarrow> nat list" where
  "slots ms = concat (map (\<lambda>i. map (\<lambda>p. i) (image_parts (cm_content (ms ! i)))) [0..<length ms])"

text \<open>The list of one message's parts, with \<open>next(urls)\<close> at each image; \<open>None\<close> when the URLs run out.\<close>

fun fill_parts :: "content_part list \<Rightarrow> string list \<Rightarrow> (wire_part list \<times> string list) option" where
  "fill_parts [] us = Some ([], us)"
| "fill_parts (Text_part t # ps) us = map_option (\<lambda>(ws, vs). (W_text t # ws, vs)) (fill_parts ps us)"
| "fill_parts (Image_part # ps) [] = None"
| "fill_parts (Image_part # ps) (u # us) = map_option (\<lambda>(ws, vs). (W_image u # ws, vs)) (fill_parts ps us)"

fun fill_slots :: "chat_message list \<Rightarrow> nat list \<Rightarrow> string list \<Rightarrow> wire_message list \<Rightarrow> wire_message list option" where
  "fill_slots ms [] us wire = Some wire"
| "fill_slots ms (i # is) us wire =
     (case cm_content (ms ! i) of
        Plain u \<Rightarrow> None
      | Parts ps \<Rightarrow>
          (case fill_parts ps us of
             None \<Rightarrow> None
           | Some (ws, vs) \<Rightarrow> fill_slots ms is vs (wire[i := (wire ! i)\<lparr>wm_content := W_parts ws\<rparr>])))"

text \<open>\<open>None\<close> is the \<open>ValueError\<close> (and would be the error of \<open>next\<close>, which never happens).\<close>

definition wire_messages :: "chat_message list \<Rightarrow> string list \<Rightarrow> wire_message list option" where
  "wire_messages ms urls =
     (let wire = map wire_item ms; us = users ms; sl = slots ms
      in if sl \<noteq> [] then
           (if (\<exists>i \<in> set sl. i \<notin> set us) \<or> length sl \<noteq> length urls then None
            else fill_slots ms (sorted_list_of_set (set sl)) urls wire)
         else if urls \<noteq> [] then
           (if us = [] then None
            else case cm_content (ms ! last us) of
                   Parts ps \<Rightarrow> None
                 | Plain t \<Rightarrow>
                     Some (wire[last us := (wire ! last us)\<lparr>wm_content := W_parts (W_text t # map W_image urls)\<rparr>]))
         else Some wire)"

section \<open>The request\<close>

text \<open>\<open>None\<close> for a parameter is the Python value \<open>None\<close>.\<close>

record chat_args =
  ca_messages :: "chat_message list"
  ca_urls :: "string list"
  ca_max_tokens :: arg_value
  ca_format :: "json option"
  ca_tools :: "json list option"
  ca_choice :: "json option"
  ca_temperature :: "arg_value option"

record chat_body =
  cb_model :: utext
  cb_messages :: "wire_message list"
  cb_max_tokens :: int
  cb_stream :: bool
  cb_temperature :: "arg_value option"
  cb_format :: "json option"
  cb_tools :: "(json list \<times> json) option"

definition positive_int :: "arg_value \<Rightarrow> int option" where
  "positive_int v = (case v of Json (JInt i) \<Rightarrow> if i < 1 then None else Some i | _ \<Rightarrow> None)"

definition temperature_ok :: "arg_value option \<Rightarrow> bool" where
  "temperature_ok t =
     (case t of
        None \<Rightarrow> True
      | Some (Json (JInt i)) \<Rightarrow> 0 \<le> i \<and> i \<le> 2
      | Some (Json (JNum r)) \<Rightarrow> 0 \<le> r \<and> r \<le> 2
      | _ \<Rightarrow> False)"

text \<open>The checks of \<open>chat\<close> and \<open>_request\<close> and the body they make.\<close>

definition chat_request :: "utext \<Rightarrow> chat_args \<Rightarrow> chat_body option" where
  "chat_request mdl a =
     (if ca_tools a = None \<and> ca_choice a \<noteq> None then None
      else if ca_tools a = Some [] then None
      else if ca_messages a = [] then None
      else case positive_int (ca_max_tokens a) of
             None \<Rightarrow> None
           | Some n \<Rightarrow>
               if \<not> temperature_ok (ca_temperature a) then None
               else (case wire_messages (ca_messages a) (ca_urls a) of
                       None \<Rightarrow> None
                     | Some ws \<Rightarrow>
                         Some \<lparr>cb_model = mdl, cb_messages = ws, cb_max_tokens = n, cb_stream = False,
                           cb_temperature = ca_temperature a, cb_format = ca_format a,
                           cb_tools = (case ca_tools a of None \<Rightarrow> None
                             | Some ts \<Rightarrow> Some (ts, case ca_choice a of None \<Rightarrow> JStr (of_ascii ''auto'') | Some c \<Rightarrow> c))\<rparr>))"

section \<open>The answer\<close>

datatype chat_error = Bad_request | Vlm_timeout | Vlm_transient | Vlm_unavailable | Vlm_cancelled

datatype post_fate =
  Http_answer int "json option"
| Post_timed_out
| Post_cancelled
| Transport_failed
| Http_failed

text \<open>\<open>_post\<close>: \<open>raise_for_status\<close> refuses whatever is no success, redirections too.\<close>

definition post_result :: "post_fate \<Rightarrow> chat_error + json option" where
  "post_result f =
     (case f of
        Http_answer st body \<Rightarrow>
          if 200 \<le> st \<and> st < 300 then Inr body
          else if st = 408 \<or> st = 429 \<or> 500 \<le> st then Inl Vlm_transient
          else Inl Vlm_unavailable
      | Post_timed_out \<Rightarrow> Inl Vlm_timeout
      | Post_cancelled \<Rightarrow> Inl Vlm_cancelled
      | Transport_failed \<Rightarrow> Inl Vlm_transient
      | Http_failed \<Rightarrow> Inl Vlm_unavailable)"

record chat_turn =
  ct_content :: utext
  ct_calls :: "wire_call list"
  ct_finish :: utext

text \<open>Indexing raises on what is no object, no list or empty; every error of reading means the same.\<close>

definition json_field :: "string \<Rightarrow> json \<Rightarrow> json option" where
  "json_field f j = (case j of JObj kvs \<Rightarrow> map_of kvs f | _ \<Rightarrow> None)"

definition json_first :: "json \<Rightarrow> json option" where
  "json_first j = (case j of JArr (x # xs) \<Rightarrow> Some x | _ \<Rightarrow> None)"

text \<open>\<open>_text\<close>.\<close>

definition text_value :: "bool \<Rightarrow> json \<Rightarrow> utext option" where
  "text_value allow_empty j = (case j of JStr u \<Rightarrow> if allow_empty \<or> u \<noteq> [] then Some u else None | _ \<Rightarrow> None)"

definition read_tool_call :: "json \<Rightarrow> wire_call option" where
  "read_tool_call j =
     (case (Option.bind (json_field ''id'' j) (text_value False),
            Option.bind (Option.bind (json_field ''function'' j) (json_field ''name'')) (text_value False),
            Option.bind (Option.bind (json_field ''function'' j) (json_field ''arguments'')) (text_value True)) of
        (Some i, Some n, Some a) \<Rightarrow> Some \<lparr>wc_id = i, wc_name = n, wc_args = a\<rparr>
      | _ \<Rightarrow> None)"

text \<open>\<open>message.get("tool_calls") or []\<close>: what is neither a list nor false cannot be read.\<close>

definition read_calls :: "json option \<Rightarrow> wire_call list option" where
  "read_calls v =
     (case v of
        None \<Rightarrow> Some []
      | Some j \<Rightarrow> if \<not> truthy_json j then Some []
                  else (case j of JArr xs \<Rightarrow> all_some (map read_tool_call xs) | _ \<Rightarrow> None))"

definition read_content :: "bool \<Rightarrow> json option \<Rightarrow> utext option" where
  "read_content tools v =
     (case v of
        None \<Rightarrow> if tools then Some [] else None
      | Some j \<Rightarrow> if tools \<and> \<not> truthy_json j then Some [] else text_value True j)"

text \<open>The answer must be finished: with tool calls by \<open>stop\<close> or \<open>tool_calls\<close>, without by \<open>stop\<close> and a text.\<close>

definition finished :: "json option \<Rightarrow> wire_call list \<Rightarrow> utext \<Rightarrow> utext option" where
  "finished fin calls content =
     (if fin = Some (JStr (of_ascii ''stop'')) \<and> (calls \<noteq> [] \<or> ustrip content \<noteq> []) then Some (of_ascii ''stop'')
      else if fin = Some (JStr (of_ascii ''tool_calls'')) \<and> calls \<noteq> [] then Some (of_ascii ''tool_calls'')
      else None)"

definition read_turn :: "bool \<Rightarrow> json \<Rightarrow> chat_turn option" where
  "read_turn tools j =
     Option.bind (Option.bind (json_field ''choices'' j) json_first) (\<lambda>choice.
     Option.bind (json_field ''message'' choice) (\<lambda>m.
     case m of
       JObj kvs \<Rightarrow>
         Option.bind (read_content tools (map_of kvs ''content'')) (\<lambda>content.
         Option.bind (if tools then read_calls (map_of kvs ''tool_calls'') else Some []) (\<lambda>calls.
         Option.bind (finished (json_field ''finish_reason'' choice) calls content) (\<lambda>fin.
           Some \<lparr>ct_content = content, ct_calls = calls, ct_finish = fin\<rparr>)))
     | _ \<Rightarrow> None))"

text \<open>\<open>chat\<close>: \<open>serve\<close> is what becomes of a body that is sent.\<close>

definition chat_call :: "utext \<Rightarrow> (chat_body \<Rightarrow> post_fate) \<Rightarrow> chat_args \<Rightarrow> chat_error + chat_turn" where
  "chat_call mdl serve a =
     (case chat_request mdl a of
        None \<Rightarrow> Inl Bad_request
      | Some b \<Rightarrow> bindE (post_result (serve b)) (\<lambda>body.
          case Option.bind body (read_turn (ca_tools a \<noteq> None)) of
            None \<Rightarrow> Inl Vlm_unavailable
          | Some t \<Rightarrow> Inr t))"

section \<open>The callers\<close>

text \<open>What a conversation of the agent gets (\<open>Session.chat\<close>); \<open>loads\<close> reads the arguments of a call.\<close>

definition chat_reply_of :: "(utext \<Rightarrow> (string, arg_value) pydict option) \<Rightarrow> chat_error + chat_turn \<Rightarrow> chat_reply" where
  "chat_reply_of loads r =
     (case r of
        Inr t \<Rightarrow> Reply (map (\<lambda>c. \<lparr>tc_id = id_text (wc_id c), tc_name = id_text (wc_name c), tc_args = loads (wc_args c)\<rparr>)
                          (ct_calls t))
      | Inl Vlm_transient \<Rightarrow> Transient_failure
      | Inl Vlm_timeout \<Rightarrow> Call_timeout
      | Inl _ \<Rightarrow> Call_failure)"

text \<open>The story's messages (\<open>src/app/story/prompts.py\<close>): a label before each image, then the data as text.\<close>

definition image_label :: "nat \<Rightarrow> int \<Rightarrow> utext" where
  "image_label n i = of_ascii (''image_number '' @ nat_str n @ '', trip_attachment_id '' @ int_str i @ '':'')"

definition labeled_images :: "int list \<Rightarrow> content_part list" where
  "labeled_images is = concat (map (\<lambda>(n, i). [Text_part (image_label n i), Image_part]) (enumerate 1 is))"

definition plain_message :: "chat_role \<Rightarrow> utext \<Rightarrow> chat_message" where
  "plain_message r u = \<lparr>cm_role = r, cm_content = Plain u, cm_calls = [], cm_answers = None\<rparr>"

definition story_messages :: "utext \<Rightarrow> utext \<Rightarrow> int list \<Rightarrow> chat_message list" where
  "story_messages system data is =
     [plain_message R_system system,
      \<lparr>cm_role = R_user, cm_content = Parts (labeled_images is @ [Text_part data]), cm_calls = [], cm_answers = None\<rparr>]"

text \<open>The messages of a search (\<open>src/app/search/prompts.py\<close>): its images follow the text.\<close>

definition search_messages :: "utext \<Rightarrow> utext \<Rightarrow> chat_message list" where
  "search_messages system data = [plain_message R_system system, plain_message R_user data]"

section \<open>Reading the wire format back\<close>

fun part_urls :: "wire_part list \<Rightarrow> string list" where
  "part_urls [] = []"
| "part_urls (W_image u # ws) = u # part_urls ws"
| "part_urls (w # ws) = part_urls ws"

fun content_urls :: "wire_content \<Rightarrow> string list" where
  "content_urls (W_plain u) = []"
| "content_urls (W_parts ws) = part_urls ws"

definition wire_urls :: "wire_message list \<Rightarrow> string list" where
  "wire_urls ws = concat (map (content_urls \<circ> wm_content) ws)"

fun unfilled :: "wire_content \<Rightarrow> bool" where
  "unfilled (W_plain u) = False"
| "unfilled (W_parts ws) = (W_slot \<in> set ws)"

text \<open>A message without its URLs.\<close>

fun forget_part :: "wire_part \<Rightarrow> content_part" where
  "forget_part (W_text u) = Text_part u"
| "forget_part w = Image_part"

fun forget_content :: "wire_content \<Rightarrow> content" where
  "forget_content (W_plain u) = Plain u"
| "forget_content (W_parts ws) = Parts (map forget_part ws)"

definition forget_urls :: "wire_message \<Rightarrow> chat_message" where
  "forget_urls w = \<lparr>cm_role = wm_role w, cm_content = forget_content (wm_content w), cm_calls = wm_calls w,
     cm_answers = wm_answers w\<rparr>"

definition images_of :: "chat_message \<Rightarrow> nat" where
  "images_of m = length (image_parts (cm_content m))"

text \<open>Where the images go: to their places, if there are any, and behind the last question of the user else.\<close>

definition with_images :: "nat \<Rightarrow> chat_message \<Rightarrow> chat_message" where
  "with_images n m = m\<lparr>cm_content := (case cm_content m of
     Plain t \<Rightarrow> Parts (Text_part t # replicate n Image_part) | Parts ps \<Rightarrow> Parts ps)\<rparr>"

definition placed_images :: "chat_message list \<Rightarrow> nat \<Rightarrow> chat_message list" where
  "placed_images ms n =
     (if n = 0 \<or> (\<exists>m \<in> set ms. images_of m \<noteq> 0) then ms
      else ms[last (users ms) := with_images n (ms ! last (users ms))])"

definition placeable :: "chat_message list \<Rightarrow> nat \<Rightarrow> bool" where
  "placeable ms n \<longleftrightarrow>
     (if \<exists>m \<in> set ms. images_of m \<noteq> 0 then
        sum_list (map images_of ms) = n \<and> (\<forall>m \<in> set ms. images_of m \<noteq> 0 \<longrightarrow> cm_role m = R_user)
      else n = 0 \<or> (users ms \<noteq> [] \<and> (\<exists>t. cm_content (ms ! last (users ms)) = Plain t)))"

lemma part_urls_append [simp]: "part_urls (a @ b) = part_urls a @ part_urls b"
  by (induction a rule: part_urls.induct) simp_all

lemma part_urls_images [simp]: "part_urls (map W_image us) = us"
  by (induction us) simp_all

lemma forget_images [simp]: "map forget_part (map W_image us) = replicate (length us) Image_part"
  "map (forget_part \<circ> W_image) us = replicate (length us) Image_part"
  by (induction us) simp_all

lemma wired_part_simps [simp]:
  "part_urls (map wired_part ps) = []" "map forget_part (map wired_part ps) = ps"
  "W_slot \<in> set (map wired_part ps) \<longleftrightarrow> Image_part \<in> set ps"
proof -
  show "part_urls (map wired_part ps) = []"
  proof (induction ps)
    case (Cons p ps)
    then show ?case by (cases p) simp_all
  qed simp
  have "forget_part (wired_part p) = p" "wired_part p = W_slot \<longleftrightarrow> p = Image_part" for p by (cases p; simp)+
  then show "map forget_part (map wired_part ps) = ps" "W_slot \<in> set (map wired_part ps) \<longleftrightarrow> Image_part \<in> set ps"
    by (simp_all add: comp_def image_iff) (metis)
qed

lemma wired_content_simps [simp]:
  "content_urls (wired_content c) = []" "forget_content (wired_content c) = c"
  "unfilled (wired_content c) \<longleftrightarrow> image_parts c \<noteq> []"
  using wired_part_simps by (cases c; force simp: filter_empty_conv)+

lemma wire_item_simps [simp]:
  "forget_urls (wire_item m) = m" "content_urls (wm_content (wire_item m)) = []"
  "unfilled (wm_content (wire_item m)) \<longleftrightarrow> images_of m \<noteq> 0"
  by (simp_all add: forget_urls_def wire_item_def images_of_def)

section \<open>Filling the places\<close>

lemma fill_parts_spec:
  "length (filter (\<lambda>p. p = Image_part) ps) \<le> length us \<Longrightarrow>
    \<exists>ws. fill_parts ps us = Some (ws, drop (length (filter (\<lambda>p. p = Image_part) ps)) us) \<and>
      part_urls ws = take (length (filter (\<lambda>p. p = Image_part) ps)) us \<and> map forget_part ws = ps \<and> W_slot \<notin> set ws"
proof (induction ps us rule: fill_parts.induct)
  case (2 t ps us)
  then obtain ws where "fill_parts ps us = Some (ws, drop (length (filter (\<lambda>p. p = Image_part) ps)) us)"
    "part_urls ws = take (length (filter (\<lambda>p. p = Image_part) ps)) us" "map forget_part ws = ps" "W_slot \<notin> set ws" by auto
  then show ?case by simp
next
  case (4 ps u us)
  then obtain ws where "fill_parts ps us = Some (ws, drop (length (filter (\<lambda>p. p = Image_part) ps)) us)"
    "part_urls ws = take (length (filter (\<lambda>p. p = Image_part) ps)) us" "map forget_part ws = ps" "W_slot \<notin> set ws" by auto
  then show ?case by simp
qed simp_all

lemma image_parts_length: "cm_content m = Parts ps \<Longrightarrow> images_of m = length (filter (\<lambda>p. p = Image_part) ps)"
  by (simp add: images_of_def)

text \<open>\<open>filled m w\<close>: the message \<open>m\<close> with a URL at each image.\<close>

definition filled :: "chat_message \<Rightarrow> wire_message \<Rightarrow> bool" where
  "filled m w \<longleftrightarrow> forget_urls w = m \<and> \<not> unfilled (wm_content w)"

lemma fill_slots_spec:
  assumes "distinct is" "\<forall>i \<in> set is. i < length ms \<and> images_of (ms ! i) \<noteq> 0 \<and> forget_urls (wire ! i) = ms ! i"
    and "length wire = length ms" "sum_list (map (\<lambda>i. images_of (ms ! i)) is) = length us"
  shows "\<exists>ws. fill_slots ms is us wire = Some ws \<and> length ws = length ms \<and>
    (\<forall>j. j \<notin> set is \<longrightarrow> ws ! j = wire ! j) \<and> (\<forall>i \<in> set is. filled (ms ! i) (ws ! i)) \<and>
    concat (map (\<lambda>i. content_urls (wm_content (ws ! i))) is) = us"
  using assms
proof (induction "is" arbitrary: us wire)
  case (Cons i js)
  let ?n = "images_of (ms ! i)"
  from Cons.prems have i: "i < length wire" "i \<notin> set js" "?n \<noteq> 0" "forget_urls (wire ! i) = ms ! i" by auto
  then obtain ps where ps: "cm_content (ms ! i) = Parts ps" by (cases "cm_content (ms ! i)") (auto simp: images_of_def)
  have n: "?n \<le> length us" using Cons.prems(4) by simp
  from fill_parts_spec[of ps us] n image_parts_length[OF ps] obtain ws where
    ws: "fill_parts ps us = Some (ws, drop ?n us)" "part_urls ws = take ?n us" "map forget_part ws = ps" "W_slot \<notin> set ws"
    by auto
  let ?wire = "wire[i := (wire ! i)\<lparr>wm_content := W_parts ws\<rparr>]"
  have "\<forall>j \<in> set js. j < length ms \<and> images_of (ms ! j) \<noteq> 0 \<and> forget_urls (?wire ! j) = ms ! j"
    using Cons.prems(2) i(2) by (metis list.set_intros(2) nth_list_update_neq)
  moreover have "sum_list (map (\<lambda>i. images_of (ms ! i)) js) = length (drop ?n us)" using Cons.prems(4) by simp
  moreover have "distinct js" "length ?wire = length ms" using Cons.prems(1,3) by simp_all
  ultimately obtain vs where
    vs: "fill_slots ms js (drop ?n us) ?wire = Some vs" "length vs = length ms" "\<forall>j. j \<notin> set js \<longrightarrow> vs ! j = ?wire ! j"
      "\<forall>j \<in> set js. filled (ms ! j) (vs ! j)" "concat (map (\<lambda>j. content_urls (wm_content (vs ! j))) js) = drop ?n us"
    using Cons.IH[of ?wire "drop ?n us"] by blast
  have vi: "vs ! i = (wire ! i)\<lparr>wm_content := W_parts ws\<rparr>" using vs(3) i by simp
  have "filled (ms ! i) (vs ! i)"
  proof -
    have "forget_urls (vs ! i) = (forget_urls (wire ! i))\<lparr>cm_content := Parts ps\<rparr>"
      by (simp add: vi forget_urls_def ws(3))
    also have "\<dots> = ms ! i" using ps i(4) by (cases "ms ! i") simp
    finally show ?thesis using ws(4) by (simp add: filled_def vi)
  qed
  moreover have "concat (map (\<lambda>j. content_urls (wm_content (vs ! j))) (i # js)) = us"
    using ws(2) vs(5) by (simp add: vi)
  moreover have "\<forall>j. j \<notin> set (i # js) \<longrightarrow> vs ! j = wire ! j" using vs(3) by simp
  ultimately show ?case using ps ws vs by auto
qed simp

lemma slots_set: "set (slots ms) = set (filter (\<lambda>i. images_of (ms ! i) \<noteq> 0) [0..<length ms])"
  by (auto simp: slots_def images_of_def image_constant_conv split: if_splits)

lemma slots_sorted: "sorted_list_of_set (set (slots ms)) = filter (\<lambda>i. images_of (ms ! i) \<noteq> 0) [0..<length ms]"
  unfolding slots_set by (intro sorted_list_of_set.idem_if_sorted_distinct) (simp_all add: sorted_wrt_filter)

lemma map_over_index: "map (\<lambda>i. f (xs ! i)) [0..<length xs] = map f xs"
  by (rule nth_equalityI) simp_all

lemma slots_length: "length (slots ms) = sum_list (map images_of ms)"
proof -
  have "length (slots ms) = sum_list (map (\<lambda>i. images_of (ms ! i)) [0..<length ms])"
    by (simp add: slots_def length_concat comp_def images_of_def)
  then show ?thesis by (simp add: map_over_index)
qed

lemma slots_none: "slots ms = [] \<longleftrightarrow> (\<forall>m \<in> set ms. images_of m = 0)"
proof -
  have "slots ms = [] \<longleftrightarrow> length (slots ms) = 0" by simp
  then show ?thesis unfolding slots_length sum_list_eq_0_iff by auto
qed

lemma slots_users: "(\<forall>i \<in> set (slots ms). i \<in> set (users ms)) \<longleftrightarrow> (\<forall>m \<in> set ms. images_of m \<noteq> 0 \<longrightarrow> cm_role m = R_user)"
proof -
  have "(\<forall>m \<in> set ms. images_of m \<noteq> 0 \<longrightarrow> cm_role m = R_user) \<longleftrightarrow>
      (\<forall>i < length ms. images_of (ms ! i) \<noteq> 0 \<longrightarrow> cm_role (ms ! i) = R_user)" by (rule all_set_conv_all_nth)
  then show ?thesis unfolding slots_set users_def by auto
qed

lemma sum_list_nonzero: "sum_list (map f (filter (\<lambda>i. f i \<noteq> (0::nat)) xs)) = sum_list (map f xs)"
  by (induction xs) simp_all

lemma concat_nothing [simp]: "concat (map (\<lambda>x. []) xs) = []"
  by (induction xs) simp_all

lemma concat_nonempty: "(\<And>i. i \<in> set xs \<Longrightarrow> \<not> P i \<Longrightarrow> f i = []) \<Longrightarrow> concat (map f (filter P xs)) = concat (map f xs)"
  by (induction xs) auto

text \<open>What the messages are when the images are at their places.\<close>

definition images_placed :: "chat_message list \<Rightarrow> string list \<Rightarrow> wire_message list \<Rightarrow> bool" where
  "images_placed ms urls ws \<longleftrightarrow> wire_urls ws = urls \<and> map forget_urls ws = placed_images ms (length urls) \<and>
     list_all (\<lambda>w. \<not> unfilled (wm_content w)) ws"

lemma marked_places:
  assumes "slots ms \<noteq> []" "placeable ms (length urls)"
  shows "\<exists>ws. wire_messages ms urls = Some ws \<and> images_placed ms urls ws"
proof -
  let ?Q = "\<lambda>i. images_of (ms ! i) \<noteq> 0" and ?wire = "map wire_item ms"
  let ?is = "filter ?Q [0..<length ms]"
  have some: "\<exists>m \<in> set ms. images_of m \<noteq> 0" using assms(1) by (simp add: slots_none)
  with assms(2) have total: "sum_list (map images_of ms) = length urls"
    and user: "\<forall>m \<in> set ms. images_of m \<noteq> 0 \<longrightarrow> cm_role m = R_user" by (simp_all add: placeable_def)
  have marked: "\<forall>i \<in> set ?is. i < length ms \<and> images_of (ms ! i) \<noteq> 0 \<and> forget_urls (?wire ! i) = ms ! i" by simp
  have "sum_list (map (\<lambda>i. images_of (ms ! i)) ?is) = length urls"
    unfolding sum_list_nonzero map_over_index by (rule total)
  moreover have "distinct ?is" "length ?wire = length ms" by simp_all
  ultimately obtain ws where ws: "fill_slots ms ?is urls ?wire = Some ws" "length ws = length ms"
    "\<forall>j. j \<notin> set ?is \<longrightarrow> ws ! j = ?wire ! j" "\<forall>i \<in> set ?is. filled (ms ! i) (ws ! i)"
    "concat (map (\<lambda>i. content_urls (wm_content (ws ! i))) ?is) = urls"
    using fill_slots_spec[of ?is ms ?wire urls] marked by blast
  have each: "filled (ms ! i) (ws ! i)" if "i < length ms" for i
  proof (cases "?Q i")
    case True
    with ws(4) that show ?thesis by simp
  next
    case False
    with ws(3) that show ?thesis by (simp add: filled_def)
  qed
  have "concat (map (\<lambda>i. content_urls (wm_content (ws ! i))) [0..<length ms]) = urls"
    using ws(5) ws(3) by (subst (asm) concat_nonempty) auto
  then have "wire_urls ws = urls"
    unfolding wire_urls_def comp_def using map_over_index[of "\<lambda>w. content_urls (wm_content w)" ws] ws(2) by simp
  moreover have "map forget_urls ws = ms"
    using each ws(2) by (intro nth_equalityI) (simp_all add: filled_def)
  moreover have "list_all (\<lambda>w. \<not> unfilled (wm_content w)) ws"
    using each ws(2) by (simp add: list_all_length filled_def)
  moreover have "wire_messages ms urls = Some ws"
    using assms(1) user total ws(1)
    unfolding wire_messages_def Let_def slots_sorted slots_users[symmetric] slots_length by auto
  ultimately show ?thesis using some by (simp add: images_placed_def placed_images_def)
qed

lemma unmarked_places:
  assumes "slots ms = []" "placeable ms (length urls)"
  shows "\<exists>ws. wire_messages ms urls = Some ws \<and> images_placed ms urls ws"
proof -
  let ?wire = "map wire_item ms"
  have none: "\<forall>m \<in> set ms. images_of m = 0" using assms(1) by (simp add: slots_none)
  have clean: "map forget_urls ?wire = ms" "list_all (\<lambda>w. \<not> unfilled (wm_content w)) ?wire" "wire_urls ?wire = []"
    using none by (simp_all add: comp_def list_all_iff wire_urls_def)
  show ?thesis
  proof (cases "urls = []")
    case True
    with assms(1) clean show ?thesis by (simp add: wire_messages_def images_placed_def placed_images_def)
  next
    case False
    then have "length urls \<noteq> 0" by simp
    with assms(2) none obtain t where u: "users ms \<noteq> []" "cm_content (ms ! last (users ms)) = Plain t"
      by (auto simp: placeable_def)
    let ?i = "last (users ms)"
    have i: "?i < length ms" using u(1) last_in_set[OF u(1)] by (auto simp: users_def)
    let ?new = "(?wire ! ?i)\<lparr>wm_content := W_parts (W_text t # map W_image urls)\<rparr>"
    have new: "content_urls (wm_content ?new) = urls" "forget_urls ?new = with_images (length urls) (ms ! ?i)"
      using u(2) i by (simp, cases "ms ! ?i") (simp add: forget_urls_def with_images_def wire_item_def)
    have "map forget_urls (?wire[?i := ?new]) = ms[?i := with_images (length urls) (ms ! ?i)]"
      by (simp add: map_update new comp_def)
    moreover have "wire_urls (?wire[?i := ?new]) = urls"
    proof -
      have "wire_urls (?wire[?i := ?new]) = concat (map (content_urls \<circ> wm_content) (take ?i ?wire)) @ urls @
          concat (map (content_urls \<circ> wm_content) (drop (Suc ?i) ?wire))"
        using i new(1) by (simp add: wire_urls_def upd_conv_take_nth_drop)
      then show ?thesis by (simp add: comp_def take_map drop_map)
    qed
    moreover have "list_all (\<lambda>w. \<not> unfilled (wm_content w)) (?wire[?i := ?new])"
      using clean(2) i by (auto simp: list_all_length nth_list_update)
    ultimately show ?thesis
      using assms(1) False u none by (auto simp: wire_messages_def Let_def images_placed_def placed_images_def)
  qed
qed

lemma refused_images:
  assumes "\<not> placeable ms (length urls)"
  shows "wire_messages ms urls = None"
proof (cases "slots ms = []")
  case True
  then have "\<forall>m \<in> set ms. images_of m = 0" by (simp add: slots_none)
  with True assms show ?thesis
    by (auto simp: wire_messages_def Let_def placeable_def split: content.split)
next
  case False
  then have "\<exists>m \<in> set ms. images_of m \<noteq> 0" by (simp add: slots_none)
  with False assms show ?thesis
    unfolding wire_messages_def Let_def placeable_def slots_length slots_users[symmetric] by auto
qed

text \<open>C28. Every image of a model call goes to the place its caller gave it.  The client accepts a call exactly
  when its images can be placed: when there are as many marked places as images, all in questions of the user,
  or, without marked places, when there is no image or the last question of the user is plain text.  What it
  then sends has exactly these images, in order, at the marked places or behind that question, leaves no place
  open, and is otherwise, message for message and text for text, what the caller wrote.\<close>

theorem images_reach_their_places:
  "(case wire_messages ms urls of
      None \<Rightarrow> \<not> placeable ms (length urls)
    | Some ws \<Rightarrow> placeable ms (length urls) \<and> wire_urls ws = urls \<and>
        map forget_urls ws = placed_images ms (length urls) \<and> list_all (\<lambda>w. \<not> unfilled (wm_content w)) ws)"
  using refused_images[of ms urls] marked_places[of ms urls] unmarked_places[of ms urls]
  by (cases "placeable ms (length urls)"; cases "slots ms = []") (auto simp: images_placed_def)

section \<open>The callers\<close>

text \<open>A message of a conversation and the message the agent sends for it, whatever its texts.\<close>

fun sent_as :: "talk_message \<Rightarrow> chat_message \<Rightarrow> bool" where
  "sent_as System_msg m \<longleftrightarrow> cm_role m = R_system \<and> images_of m = 0"
| "sent_as (User_msg n) m \<longleftrightarrow> cm_role m = R_user \<and> images_of m = n"
| "sent_as (Assistant_msg is) m \<longleftrightarrow> cm_role m = R_assistant \<and> images_of m = 0 \<and> map (id_text \<circ> wc_id) (cm_calls m) = is"
| "sent_as (Tool_msg i out) m \<longleftrightarrow> cm_role m = R_tool \<and> images_of m = 0 \<and> map_option id_text (cm_answers m) = Some i"

lemma sent_as_images: "list_all2 sent_as ts ms \<Longrightarrow> sum_list (map images_of ms) = photos_in ts"
proof (induction rule: list_all2_induct)
  case (Cons t ts m ms)
  then show ?case by (cases t) simp_all
qed simp

lemma sent_as_users: "list_all2 sent_as ts ms \<Longrightarrow> m \<in> set ms \<Longrightarrow> images_of m \<noteq> 0 \<Longrightarrow> cm_role m = R_user"
proof (induction rule: list_all2_induct)
  case (Cons t ts x xs)
  then show ?case by (cases t) auto
qed simp

lemma conversation_placeable:
  assumes "list_all2 sent_as ts ms" "photos_in ts = n"
  shows "placeable ms n" "placed_images ms n = ms"
proof -
  have total: "sum_list (map images_of ms) = n" using sent_as_images[OF assms(1)] assms(2) by simp
  then have "(\<exists>m \<in> set ms. images_of m \<noteq> 0) \<longleftrightarrow> n \<noteq> 0" using sum_list_eq_0_iff[of "map images_of ms"] by auto
  with total sent_as_users[OF assms(1)] show "placeable ms n" "placed_images ms n = ms"
    by (auto simp: placeable_def placed_images_def)
qed

text \<open>\<open>Session.chat\<close>: the arguments of a call of the agent.\<close>

definition agent_args :: "chat_message list \<Rightarrow> string list \<Rightarrow> json list \<Rightarrow> int \<Rightarrow> chat_args" where
  "agent_args ms urls tools n = \<lparr>ca_messages = ms, ca_urls = urls, ca_max_tokens = Json (JInt n), ca_format = None,
     ca_tools = Some tools, ca_choice = None, ca_temperature = Some (Json (JInt 0))\<rparr>"

lemma agent_request_accepted:
  assumes "request_ok (ts, ks)" "list_all2 sent_as ts ms" "length urls = length ks" "tools \<noteq> []" "0 < n"
  shows "\<exists>b. chat_request mdl (agent_args ms urls tools n) = Some b \<and> wire_urls (cb_messages b) = urls \<and>
    map forget_urls (cb_messages b) = ms"
proof -
  have ts: "ts \<noteq> []" "photos_in ts = length urls" using assms(1,3) by (simp_all add: request_ok_def)
  note place = conversation_placeable[OF assms(2) ts(2)]
  have ms: "ms \<noteq> []" using ts(1) assms(2) by auto
  obtain ws where "wire_messages ms urls = Some ws" "images_placed ms urls ws"
    using marked_places[OF _ place(1)] unmarked_places[OF _ place(1)] by blast
  then show ?thesis
    using ms assms(4,5) place(2)
    by (auto simp: chat_request_def agent_args_def positive_int_def temperature_ok_def images_placed_def)
qed

text \<open>C26. No conversation of the agent asks the generation server for something it refuses.  Every request of
  every conversation, on its first attempt and on every later one, passes the checks of the client whatever
  texts the messages carry, and goes out as the conversation has it, with each photo's URL at the photo's
  place.\<close>

theorem conversations_are_accepted:
  assumes "sent_ok s"
    and "(ts, ks) \<in> set (ss_sent (snd (estimate E p s)) @ ss_sent (snd (aggregate E ps s)) @ ss_sent (snd (merge E s)))"
    and "list_all2 sent_as ts ms" "length urls = length ks" "tools \<noteq> []" "0 < n"
  shows "\<exists>b. chat_request mdl (agent_args ms urls tools n) = Some b \<and> wire_urls (cb_messages b) = urls \<and>
    map forget_urls (cb_messages b) = ms"
proof -
  have "request_ok (ts, ks)"
    using assms(1,2) estimate_sent[of s E p] aggregate_sent[of s E ps] merge_sent[of s E]
    by (auto simp: sent_ok_def list_all_iff)
  then show ?thesis by (rule agent_request_accepted[OF _ assms(3-6)])
qed

definition ce_user :: chat_message where
  "ce_user = \<lparr>cm_role = R_user, cm_content = Parts [Text_part [65], Image_part, Image_part], cm_calls = [], cm_answers = None\<rparr>"

lemma tt_first_request:
  "([System_msg, User_msg 2], [[], []]) \<in> set (ss_sent (snd (estimate tt_env (ag_photo 2) tt_session)))"
  using tt_estimate hd_in_set by (metis length_0_conv snd_conv zero_neq_numeral)

lemma conversations_are_accepted_witness:
  "\<exists>b. chat_request [71] (agent_args [plain_message R_system [66], ce_user] [''u'', ''v''] [JNull] 1200) = Some b \<and>
     wire_urls (cb_messages b) = [''u'', ''v'']"
proof -
  have "sent_ok tt_session" by (simp add: sent_ok_def tt_session_def new_session_def)
  moreover have "list_all2 sent_as [System_msg, User_msg 2] [plain_message R_system [66], ce_user]"
    by (simp add: ce_user_def plain_message_def images_of_def)
  ultimately show ?thesis
    using conversations_are_accepted[of tt_session "[System_msg, User_msg 2]" "[[], []]" tt_env "ag_photo 2" "[]"
        "[plain_message R_system [66], ce_user]" "[''u'', ''v'']" "[JNull]" 1200 "[71]"] tt_first_request by auto
qed

section \<open>Stories and searches\<close>

lemma story_request:
  assumes "length urls = length ids"
  shows "\<exists>ws. wire_messages (story_messages system data ids) urls = Some ws \<and> wire_urls ws = urls \<and>
    map forget_urls ws = story_messages system data ids"
proof -
  let ?ms = "story_messages system data ids"
  have "length (filter (\<lambda>p. p = Image_part) (concat (map (\<lambda>(n, i). [Text_part (image_label n i), Image_part]) ps))) = length ps"
    for ps by (induction ps) auto
  then have images: "map images_of ?ms = [0, length ids]"
    by (simp add: story_messages_def plain_message_def images_of_def labeled_images_def)
  have "placeable ?ms (length urls)" "placed_images ?ms (length urls) = ?ms"
    using images assms by (auto simp: placeable_def placed_images_def story_messages_def plain_message_def)
  then show ?thesis
    using marked_places[of ?ms urls] unmarked_places[of ?ms urls] by (auto simp: images_placed_def)
qed

lemma search_request:
  "\<exists>ws. wire_messages (search_messages system data) urls = Some ws \<and> wire_urls ws = urls"
proof -
  have "users (search_messages system data) = [1]" by (simp add: users_def search_messages_def plain_message_def)
  then have "placeable (search_messages system data) (length urls)"
    by (auto simp: placeable_def search_messages_def plain_message_def images_of_def)
  then show ?thesis
    using marked_places[of "search_messages system data" urls] unmarked_places[of "search_messages system data" urls]
    by (auto simp: images_placed_def)
qed

section \<open>Answers\<close>

text \<open>What a call ends with: a finished answer, or the kind of failure that says whether to try again.\<close>

lemma json_object_Some:
  "(case m of JObj kvs \<Rightarrow> f kvs | _ \<Rightarrow> None) = Some t \<longleftrightarrow> (\<exists>kvs. m = JObj kvs \<and> f kvs = Some t)"
  by (cases m) simp_all

lemma read_tool_call_named: "read_tool_call j = Some c \<Longrightarrow> wc_id c \<noteq> [] \<and> wc_name c \<noteq> []"
  by (auto simp: read_tool_call_def text_value_def bind_eq_Some_conv split: option.splits json.splits if_splits)

lemma read_calls_named: "read_calls v = Some cs \<Longrightarrow> \<forall>c \<in> set cs. wc_id c \<noteq> [] \<and> wc_name c \<noteq> []"
proof -
  have "all_some (map read_tool_call xs) = Some ys \<Longrightarrow> \<forall>c \<in> set ys. wc_id c \<noteq> [] \<and> wc_name c \<noteq> []" for xs ys
  proof (induction xs arbitrary: ys)
    case (Cons x xs)
    then show ?case using read_tool_call_named by (auto split: option.splits)
  qed simp
  then show "read_calls v = Some cs \<Longrightarrow> \<forall>c \<in> set cs. wc_id c \<noteq> [] \<and> wc_name c \<noteq> []"
    by (auto simp: read_calls_def split: option.splits json.splits if_splits)
qed

lemma turn_finished:
  assumes "read_turn tools j = Some t"
  shows "(\<forall>c \<in> set (ct_calls t). wc_id c \<noteq> [] \<and> wc_name c \<noteq> []) \<and> (\<not> tools \<longrightarrow> ct_calls t = []) \<and>
    (ct_calls t = [] \<longrightarrow> ct_finish t = of_ascii ''stop'' \<and> ustrip (ct_content t) \<noteq> [])"
proof -
  from assms obtain fin v where c: "(if tools then read_calls v else Some []) = Some (ct_calls t)"
    and f: "finished fin (ct_calls t) (ct_content t) = Some (ct_finish t)"
    by (auto simp: read_turn_def bind_eq_Some_conv json_object_Some)
  from c read_calls_named[of v] have "(\<forall>x \<in> set (ct_calls t). wc_id x \<noteq> [] \<and> wc_name x \<noteq> []) \<and> (\<not> tools \<longrightarrow> ct_calls t = [])"
    by (auto split: if_splits)
  with f show ?thesis by (auto simp: finished_def split: if_splits)
qed

lemma chat_answer_finished:
  assumes "chat_call mdl serve a = Inr t"
  shows "(\<exists>b st body. chat_request mdl a = Some b \<and> serve b = Http_answer st (Some body) \<and> 200 \<le> st \<and> st < 300) \<and>
    (\<forall>c \<in> set (ct_calls t). wc_id c \<noteq> [] \<and> wc_name c \<noteq> []) \<and> (ca_tools a = None \<longrightarrow> ct_calls t = []) \<and>
    (ct_calls t = [] \<longrightarrow> ct_finish t = of_ascii ''stop'' \<and> ustrip (ct_content t) \<noteq> [])"
proof -
  from assms obtain b body where b: "chat_request mdl a = Some b" "post_result (serve b) = Inr (Some body)"
    and t: "read_turn (ca_tools a \<noteq> None) body = Some t"
    by (auto simp: chat_call_def bind_eq_Some_conv split: option.splits)
  from b(2) obtain st where "serve b = Http_answer st (Some body)" "200 \<le> st" "st < 300"
    by (auto simp: post_result_def split: post_fate.splits if_splits)
  with b(1) turn_finished[OF t] show ?thesis by auto
qed

lemma chat_failure_kind:
  assumes "chat_call mdl serve a = Inl e" "e \<noteq> Bad_request"
  shows "\<exists>b. chat_request mdl a = Some b \<and>
    (e = Vlm_transient \<longleftrightarrow> serve b = Transport_failed \<or> (\<exists>st body. serve b = Http_answer st body \<and> (st \<in> {408, 429} \<or> 500 \<le> st)))"
  using assms by (auto simp: chat_call_def bindE_Inl_conv post_result_def split: option.splits post_fate.splits if_splits)

end
