(* ===== verification/Calendar.thy ===== *)
theory Calendar
  imports PyText
begin

text \<open>
  Python's \<open>datetime.date\<close>: proleptic Gregorian dates from year 1 to 9999 and their ordinals
  (\<open>toordinal\<close>: 1 is 1 January of year 1).  Date arithmetic works on ordinals; leaving the range is
  Python's \<open>OverflowError\<close> or \<open>ValueError\<close>.
\<close>

definition is_leap :: "int \<Rightarrow> bool" where
  "is_leap y \<longleftrightarrow> y mod 4 = 0 \<and> (y mod 100 \<noteq> 0 \<or> y mod 400 = 0)"

definition days_in_month :: "int \<Rightarrow> int \<Rightarrow> int" where
  "days_in_month y m = (if m = 2 then (if is_leap y then 29 else 28) else if m \<in> {4, 6, 9, 11} then 30 else 31)"

definition days_before_year :: "int \<Rightarrow> int" where
  "days_before_year y = (y - 1) * 365 + (y - 1) div 4 - (y - 1) div 100 + (y - 1) div 400"

fun days_before_month :: "int \<Rightarrow> nat \<Rightarrow> int" where
  "days_before_month y 0 = 0"
| "days_before_month y (Suc m) = (if m = 0 then 0 else days_before_month y m + days_in_month y (int m))"

record cdate =
  cd_year :: int
  cd_month :: nat
  cd_day :: int

definition valid_date :: "cdate \<Rightarrow> bool" where
  "valid_date d \<longleftrightarrow> 1 \<le> cd_year d \<and> cd_year d \<le> 9999 \<and> 1 \<le> cd_month d \<and> cd_month d \<le> 12 \<and>
     1 \<le> cd_day d \<and> cd_day d \<le> days_in_month (cd_year d) (int (cd_month d))"

definition ordinal :: "cdate \<Rightarrow> int" where
  "ordinal d = days_before_year (cd_year d) + days_before_month (cd_year d) (cd_month d) + cd_day d"

definition MAX_ORDINAL :: int where
  "MAX_ORDINAL = 3652059"

definition in_calendar :: "int \<Rightarrow> bool" where
  "in_calendar n \<longleftrightarrow> 1 \<le> n \<and> n \<le> MAX_ORDINAL"

text \<open>\<open>date.weekday()\<close>: Monday is 0.\<close>

definition weekday :: "int \<Rightarrow> int" where
  "weekday n = (n + 6) mod 7"

lemma leap_rule:
  fixes a4 :: int
  assumes "c4 = a4 + (if p4 then 1 else 0)" "c100 = a100 + (if p100 then 1 else 0)"
    "c400 = a400 + (if p400 then 1 else 0)" "p400 \<Longrightarrow> p100" "p100 \<Longrightarrow> p4"
  shows "c4 - c100 + c400 = a4 - a100 + a400 + (if p4 \<and> (\<not> p100 \<or> p400) then 1 else 0)"
  using assms by (cases p4; cases p100; cases p400) simp_all

lemma year_sum:
  fixes a b c :: int
  assumes "a - b + c = a' - b' + c' + t"
  shows "(z + 1) * 365 + a - b + c = z * 365 + a' - b' + c' + 365 + t"
  using assms by simp

lemma days_before_year_step: "days_before_year (y + 1) = days_before_year y + 365 + (if is_leap y then 1 else 0)"
proof -
  define z where "z = y - 1"
  have y: "y = z + 1" by (simp add: z_def)
  have d: "(z + 1) div k = z div k + (if (z + 1) mod k = 0 then 1 else 0)" if "0 < k" for k :: int
  proof (cases "(z + 1) mod k = 0")
    case True
    then obtain q where q: "z + 1 = k * q" by auto
    then have z: "z = k * (q - 1) + (k - 1)" by (simp add: algebra_simps)
    have "z div k = q - 1"
      by (rule int_div_pos_eq[OF z]) (use that in auto)
    with q that show ?thesis by simp
  next
    case False
    have "z + 1 = k * (z div k) + (z mod k + 1)" by simp
    moreover have "z mod k + 1 < k"
    proof (rule ccontr)
      assume "\<not> z mod k + 1 < k"
      with that have "z mod k = k - 1" using pos_mod_bound[of k z] by linarith
      then have "(z + 1) mod k = 0" by (metis add.commute diff_add_cancel mod_add_left_eq mod_self)
      with False show False by simp
    qed
    ultimately have "(z + 1) div k = z div k"
      using that pos_mod_sign[of k z] by (intro int_div_pos_eq[of "z + 1" k "z div k" "z mod k + 1"]) auto
    with False show ?thesis by simp
  qed
  have e: "is_leap (z + 1) \<longleftrightarrow> (z + 1) mod 4 = 0 \<and> ((z + 1) mod 100 \<noteq> 0 \<or> (z + 1) mod 400 = 0)"
    by (simp add: is_leap_def)
  have m: "(z + 1) mod 400 = 0 \<Longrightarrow> (z + 1) mod 100 = 0" "(z + 1) mod 100 = 0 \<Longrightarrow> (z + 1) mod 4 = 0"
    by (auto simp: mod_eq_0_iff_dvd intro: dvd_trans[of 100 400] dvd_trans[of 4 100])
  have "(z + 1) div 4 - (z + 1) div 100 + (z + 1) div 400 =
      z div 4 - z div 100 + z div 400 + (if is_leap (z + 1) then 1 else 0)"
    unfolding e by (rule leap_rule[OF d d d m]) simp_all
  then have "(z + 1) * 365 + (z + 1) div 4 - (z + 1) div 100 + (z + 1) div 400 =
      z * 365 + z div 4 - z div 100 + z div 400 + 365 + (if is_leap (z + 1) then 1 else 0)"
    by (rule year_sum)
  moreover have "y + 1 - 1 = z + 1" "y - 1 = z" "y = z + 1" by (simp_all add: z_def)
  ultimately show ?thesis unfolding days_before_year_def by metis
qed

lemma days_before_year_mono: "y \<le> y' \<Longrightarrow> days_before_year y \<le> days_before_year y'"
proof (induction y' rule: int_ge_induct)
  case (step i)
  then show ?case using days_before_year_step[of i] by simp
qed simp

text \<open>The first day of a month and the first day of the next one.\<close>

lemma days_in_month_bounds: "28 \<le> days_in_month y m \<and> days_in_month y m \<le> 31"
  by (simp add: days_in_month_def)

lemma days_in_year: "days_before_month y 12 + days_in_month y 12 = 365 + (if is_leap y then 1 else 0)"
  by (simp add: eval_nat_numeral days_in_month_def)

definition first_of :: "int \<Rightarrow> nat \<Rightarrow> int" where
  "first_of y m = ordinal \<lparr>cd_year = y, cd_month = m, cd_day = 1\<rparr>"

lemma first_of_next:
  assumes "1 \<le> m" "m \<le> 12"
  shows "(if m = 12 then first_of (y + 1) 1 else first_of y (m + 1)) = first_of y m + days_in_month y (int m)"
proof (cases "m = 12")
  case True
  have "days_before_month (y + 1) 1 = 0" by (simp add: eval_nat_numeral)
  with True days_in_year[of y] days_before_year_step[of y] show ?thesis
    by (simp add: first_of_def ordinal_def)
next
  case False
  with assms show ?thesis by (simp add: first_of_def ordinal_def)
qed

section \<open>Back from ordinals\<close>

text \<open>\<open>date.fromordinal\<close>: the year by searching upwards from a lower bound, the month likewise.\<close>

function year_from :: "int \<Rightarrow> int \<Rightarrow> int" where
  "year_from y n = (if n \<le> days_before_year (y + 1) then y else year_from (y + 1) n)"
  by pat_completeness auto
termination
proof (relation "measure (\<lambda>(y, n). nat (n - days_before_year (y + 1)))")
  fix y n :: int assume "\<not> n \<le> days_before_year (y + 1)"
  then show "((y + 1, n), (y, n)) \<in> measure (\<lambda>(y, n). nat (n - days_before_year (y + 1)))"
    using days_before_year_step[of "y + 1"] by (auto split: if_splits)
qed simp

declare year_from.simps [simp del]

fun month_from :: "int \<Rightarrow> nat \<Rightarrow> nat \<Rightarrow> int \<Rightarrow> nat \<times> int" where
  "month_from y 0 m r = (m, r)"
| "month_from y (Suc k) m r =
     (if r \<le> days_in_month y (int m) then (m, r) else month_from y k (m + 1) (r - days_in_month y (int m)))"

definition from_ordinal :: "int \<Rightarrow> cdate" where
  "from_ordinal n =
     (let y = year_from ((n - 1) div 366 + 1) n; (m, d) = month_from y 11 1 (n - days_before_year y)
      in \<lparr>cd_year = y, cd_month = m, cd_day = d\<rparr>)"

lemma year_from_upper: "n \<le> days_before_year (year_from y n + 1)"
  by (induction y n rule: year_from.induct) (subst year_from.simps, simp)

lemma year_from_lower: "days_before_year y < n \<Longrightarrow> days_before_year (year_from y n) < n"
  by (induction y n rule: year_from.induct) (subst year_from.simps, auto)

lemma month_from_spec:
  assumes "month_from y k m r = (m', d)" "1 \<le> m" "m + k = 12" "1 \<le> r"
    "r \<le> days_before_month y 12 + days_in_month y 12 - days_before_month y m"
  shows "1 \<le> m' \<and> m' \<le> 12 \<and> 1 \<le> d \<and> d \<le> days_in_month y (int m') \<and>
    days_before_month y m' + d = days_before_month y m + r"
  using assms
proof (induction k arbitrary: m r)
  case 0
  then show ?case by simp
next
  case (Suc k)
  show ?case
  proof (cases "r \<le> days_in_month y (int m)")
    case True
    with Suc.prems show ?thesis by simp
  next
    case False
    from Suc.prems(2) obtain j where j: "m = Suc j" by (cases m) auto
    have s: "days_before_month y (m + 1) = days_before_month y m + days_in_month y (int m)"
      using j by simp
    have "1 \<le> m' \<and> m' \<le> 12 \<and> 1 \<le> d \<and> d \<le> days_in_month y (int m') \<and>
        days_before_month y m' + d = days_before_month y (m + 1) + (r - days_in_month y (int m))"
      by (rule Suc.IH) (use Suc.prems False s in auto)
    with s show ?thesis by simp
  qed
qed

lemma days_before_year_low: "1 \<le> n \<Longrightarrow> days_before_year ((n - 1) div 366 + 1) < n"
proof -
  assume n: "1 \<le> n"
  define q where "q = (n - 1) div 366"
  have q: "0 \<le> q" "366 * q \<le> n - 1" using n minus_mod_eq_mult_div[of "n - 1" 366] pos_mod_sign[of 366 "n - 1"]
    by (simp_all add: q_def pos_imp_zdiv_nonneg_iff)
  have "q div 400 \<le> q div 100" using q(1) by (intro zdiv_mono2) auto
  moreover have "q div 4 \<le> q div 1" using q(1) by (intro zdiv_mono2) auto
  ultimately have "q div 4 - q div 100 + q div 400 \<le> q" by simp
  then have "days_before_year (q + 1) \<le> 366 * q" by (simp add: days_before_year_def)
  with q(2) show ?thesis unfolding q_def by linarith
qed

lemma from_ordinal_correct:
  assumes "in_calendar n" shows "valid_date (from_ordinal n) \<and> ordinal (from_ordinal n) = n"
proof -
  define y where "y = year_from ((n - 1) div 366 + 1) n"
  have n: "1 \<le> n" "n \<le> 3652059" using assms by (simp_all add: in_calendar_def MAX_ORDINAL_def)
  have lo: "days_before_year y < n" and hi: "n \<le> days_before_year (y + 1)"
    using year_from_lower[OF days_before_year_low[OF n(1)]] year_from_upper by (simp_all add: y_def)
  obtain m d where md: "month_from y 11 1 (n - days_before_year y) = (m, d)"
    by (cases "month_from y 11 1 (n - days_before_year y)")
  have b1: "days_before_month y 1 = 0" by (simp add: eval_nat_numeral)
  have ms: "1 \<le> m \<and> m \<le> 12 \<and> 1 \<le> d \<and> d \<le> days_in_month y (int m) \<and>
      days_before_month y m + d = days_before_month y 1 + (n - days_before_year y)"
    by (rule month_from_spec[OF md]) (use lo hi b1 days_in_year[of y] days_before_year_step[of y] in auto)
  have "1 \<le> y"
  proof (rule ccontr)
    assume "\<not> 1 \<le> y"
    then have "days_before_year (y + 1) \<le> days_before_year 1" by (intro days_before_year_mono) simp
    then have "days_before_year (y + 1) \<le> 0" by (simp add: days_before_year_def)
    with hi n(1) show False by simp
  qed
  moreover have "y \<le> 9999"
  proof (rule ccontr)
    assume "\<not> y \<le> 9999"
    then have "days_before_year 10000 \<le> days_before_year y" by (intro days_before_year_mono) simp
    then have "3652059 \<le> days_before_year y" by (simp add: days_before_year_def)
    with lo n(2) show False by simp
  qed
  moreover have "from_ordinal n = \<lparr>cd_year = y, cd_month = m, cd_day = d\<rparr>"
    unfolding from_ordinal_def Let_def y_def[symmetric] md by simp
  ultimately show ?thesis using ms b1 by (simp add: valid_date_def ordinal_def)
qed

text \<open>\<open>date.isoformat\<close>, and the days of the epoch the times of a trip are counted in.\<close>

definition EPOCH_ORDINAL :: int where
  "EPOCH_ORDINAL = 719163"

definition pad :: "nat \<Rightarrow> string \<Rightarrow> string" where
  "pad k s = replicate (k - length s) (CHR ''0'') @ s"

definition iso_date :: "int \<Rightarrow> string" where
  "iso_date n = (let d = from_ordinal n in
     pad 4 (int_str (cd_year d)) @ ''-'' @ pad 2 (nat_str (cd_month d)) @ ''-'' @ pad 2 (int_str (cd_day d)))"

end
