(* ===== verification/StorySelect.thy ===== *)
theory StorySelect
  imports PipelineRun Calendar Prelude
begin

text \<open>
  \<open>src/app/story/selection.py\<close> and the story messages of \<open>src/app/jobs/models.py\<close>: blurred and
  repeated photos are left out, the photo budget is shared among the places, and each place keeps
  the photos nearest to its average without repeating a scene.  The norm of a vector and the
  standard deviation (square roots) are parameters; the images come through the environment of the
  photo pipeline.
\<close>

section \<open>Messages\<close>

record story_photo =
  so_id :: int
  so_key :: string
  so_taken :: dtime
  so_eval :: "int option"

record story_place =
  sp_id :: int
  sp_name :: utext
  sp_photos :: "story_photo list"

datatype mood = PLAIN | EMOTIONAL | HUMOROUS | CALM | LITERARY

record story_message =
  sm_trip :: int
  sm_exec :: utext
  sm_name :: utext
  sm_period :: period
  sm_mood :: mood
  sm_places :: "story_place list"

definition valid_story_photo :: "story_photo \<Rightarrow> bool" where
  "valid_story_photo p \<longleftrightarrow> 0 < so_id p \<and> so_key p \<noteq> [] \<and> dt_off (so_taken p) \<noteq> None \<and>
     (case so_eval p of None \<Rightarrow> True | Some e \<Rightarrow> 0 \<le> e \<and> e \<le> 100)"

definition valid_story_place :: "story_place \<Rightarrow> bool" where
  "valid_story_place p \<longleftrightarrow> 0 < sp_id p \<and> sp_photos p \<noteq> [] \<and> length (sp_photos p) \<le> 200 \<and>
     list_all valid_story_photo (sp_photos p)"

definition valid_story_message :: "story_message \<Rightarrow> bool" where
  "valid_story_message m \<longleftrightarrow> 0 < sm_trip m \<and> sm_exec m \<noteq> [] \<and> length (sm_exec m) \<le> 128 \<and>
     sm_name m \<noteq> [] \<and> length (sm_name m) \<le> 10 \<and> sm_places m \<noteq> [] \<and> length (sm_places m) \<le> 10 \<and>
     list_all valid_story_place (sm_places m)"

section \<open>Leaving photos out\<close>

record 'i story_env =
  se_images :: "'i run_env"
  se_norm :: "vec \<Rightarrow> rat"
  se_sd :: "rat list \<Rightarrow> rat"
  se_cancelled :: "nat \<Rightarrow> bool"
  se_reported :: "nat \<Rightarrow> bool"

record story_state =
  st_polls :: nat
  st_reports :: "(string \<times> nat \<times> nat) list"

type_synonym 'a storym = "(story_state, pipeline_error, 'a) sem"

definition story_poll :: "'i story_env \<Rightarrow> unit storym" where
  "story_poll E s =
     (let s' = s\<lparr>st_polls := st_polls s + 1\<rparr>
      in if se_cancelled E (st_polls s) then (Inl PipelineCancelled, s') else (Inr (), s'))"

definition as_attachment :: "story_photo \<Rightarrow> attachment" where
  "as_attachment p = \<lparr>at_id = so_id p, at_key = so_key p, at_taken = Some (so_taken p), at_lat = None,
     at_lon = None, at_device = None\<rparr>"

fun keep_sharp ::
  "'i story_env \<Rightarrow> rat \<Rightarrow> nat \<Rightarrow> (int, 'i) pydict \<Rightarrow> story_photo list \<Rightarrow>
   (story_photo \<times> string) list \<Rightarrow> (story_photo \<times> string) list storym" where
  "keep_sharp E blur md imgs [] kept = retS kept"
| "keep_sharp E blur md imgs (p # ps) kept =
     bindS (story_poll E) (\<lambda>_.
     bindS (liftS (case map_of imgs (so_id p) of None \<Rightarrow> Inl pipeline_error_default
              | Some img \<Rightarrow> (case re_measure (se_images E) img of None \<Rightarrow> Inl pipeline_error_default | Some m \<Rightarrow> Inr m))) (\<lambda>m.
     keep_sharp E blur md imgs ps
       (if pmt_variance m < blur \<or> list_ex (\<lambda>(q, h). re_hdist (se_images E) (pmt_phash m) h \<le> md) kept
        then kept else kept @ [(p, pmt_phash m)])))"

fun keep_chunks ::
  "'i story_env \<Rightarrow> rat \<Rightarrow> nat \<Rightarrow> story_photo list list \<Rightarrow> (story_photo \<times> string) list \<Rightarrow>
   (story_photo \<times> string) list storym" where
  "keep_chunks E blur md [] kept = retS kept"
| "keep_chunks E blur md (c # cs) kept =
     bindS (story_poll E) (\<lambda>_.
     bindS (liftS (load_images (se_images E) (map as_attachment c))) (\<lambda>(raw, imgs).
     bindS (keep_sharp E blur md imgs c kept) (\<lambda>kept'.
     keep_chunks E blur md cs kept')))"

definition by_time :: "story_photo list \<Rightarrow> story_photo list" where
  "by_time ps = sort_key (\<lambda>p. (instant (so_taken p), so_id p)) ps"

type_synonym groups = "(int, story_photo list) pydict"

fun filter_candidates ::
  "'i story_env \<Rightarrow> rat \<Rightarrow> nat \<Rightarrow> story_place list \<Rightarrow> groups storym" where
  "filter_candidates E blur md [] = retS []"
| "filter_candidates E blur md (pl # pls) =
     bindS (keep_chunks E blur md (chunks16 (by_time (sp_photos pl))) []) (\<lambda>kept.
     if kept = [] then failS (PipelineFailure INVALID_REQUEST)
     else bindS (filter_candidates E blur md pls) (\<lambda>rest. retS ((sp_id pl, map fst kept) # rest)))"

section \<open>The budget\<close>

text \<open>One photo for every place, the rest in proportion to what the places have left, by largest
  remainders; \<open>None\<close> is the \<open>ValueError\<close>.\<close>

definition allocate :: "nat list \<Rightarrow> nat \<Rightarrow> nat list option" where
  "allocate counts budget =
     (if counts = [] \<or> list_ex (\<lambda>c. c < 1) counts \<or> budget < length counts then None
      else
        let n = length counts; remaining = min budget (sum_list counts) - n;
            capacity = map (\<lambda>c. c - 1) counts
        in if remaining = 0 then Some (replicate n 1)
           else
             let tot = sum_list capacity;
                 shares = map (\<lambda>c. remaining * c div tot) capacity;
                 left = remaining - sum_list shares;
                 order = sort_key (\<lambda>i. - int (remaining * capacity ! i mod tot)) [0..<n]
             in Some (map (\<lambda>i. shares ! i + (if i \<in> set (take left order) then 1 else 0) + 1) [0..<n]))"

section \<open>Vectors\<close>

definition unit_vectors ::
  "'i story_env \<Rightarrow> groups \<Rightarrow> (int, vec) pydict \<Rightarrow> pipeline_error + (int, vec list) pydict" where
  "unit_vectors E groups vectors =
     (if list_ex (\<lambda>(pl, ps). list_ex (\<lambda>p. map_of vectors (so_id p) = None) ps) groups
      then Inl (PipelineFailure MODEL_NOT_READY)
      else mapE (\<lambda>(pl, ps).
        let m = map (\<lambda>p. the (map_of vectors (so_id p))) ps
        in if list_ex (\<lambda>v. length v \<noteq> length (hd m)) m then Inl pipeline_error_default
           else if list_ex (\<lambda>v. se_norm E v = 0) m then Inl (PipelineFailure MODEL_NOT_READY)
           else Inr (pl, map (\<lambda>v. map (\<lambda>x. x / se_norm E v) v) m)) groups)"

text \<open>The symmetrised Gram matrix of each place.\<close>

definition similarities :: "(int, vec list) pydict \<Rightarrow> (int, rat list list) pydict" where
  "similarities units =
     map (\<lambda>(pl, m). (pl, map (\<lambda>u. map (\<lambda>v. (dot u v + dot v u) / 2) m) m)) units"

definition upper_pairs :: "rat list list \<Rightarrow> rat list" where
  "upper_pairs m = concat (map (\<lambda>i. map (\<lambda>j. m ! i ! j) [i + 1..<length m]) [0..<length m])"

definition duplicate_threshold :: "'i story_env \<Rightarrow> (int, rat list list) pydict \<Rightarrow> rat \<Rightarrow> rat option" where
  "duplicate_threshold E sims z =
     (let values = concat (map (\<lambda>(pl, m). if length m > 1 then upper_pairs m else []) sims)
      in if list_all (\<lambda>(pl, m). length m \<le> 1) sims then None
         else Some (sum_list values / of_nat (length values) + z * se_sd E values))"

section \<open>Choosing\<close>

fun pick_photos :: "rat list list \<Rightarrow> rat option \<Rightarrow> nat \<Rightarrow> nat list \<Rightarrow> nat list \<Rightarrow> nat list" where
  "pick_photos similar threshold quota [] chosen = chosen"
| "pick_photos similar threshold quota (i # order) chosen =
     (if length chosen = quota then chosen
      else if (case threshold of None \<Rightarrow> False | Some th \<Rightarrow> list_ex (\<lambda>j. th \<le> similar ! i ! j) chosen)
        then pick_photos similar threshold quota order chosen
      else pick_photos similar threshold quota order (chosen @ [i]))"

definition pick_order :: "vec list \<Rightarrow> story_photo list \<Rightarrow> nat list" where
  "pick_order m ps =
     sort_key (\<lambda>i. (- dot (m ! i) (mean_vec m), instant (so_taken (ps ! i)), so_id (ps ! i))) [0..<length ps]"

definition pick_place ::
  "rat option \<Rightarrow> (int \<times> story_photo list) \<times> vec list \<times> rat list list \<times> nat \<Rightarrow> (int \<times> story_photo) list" where
  "pick_place threshold x =
     (case x of ((pl, ps), m, similar, quota) \<Rightarrow>
        map (\<lambda>i. (pl, ps ! i)) (pick_photos similar threshold quota (pick_order m ps) []))"

definition select_photos ::
  "groups \<Rightarrow> (int, vec list) pydict \<Rightarrow> (int, rat list list) pydict \<Rightarrow> nat \<Rightarrow> rat option \<Rightarrow>
   pipeline_error + (int \<times> story_photo) list" where
  "select_photos groups units sims budget threshold =
     (case allocate (map (\<lambda>(pl, ps). length ps) groups) budget of
        None \<Rightarrow> Inl pipeline_error_default
      | Some allocations \<Rightarrow>
          Inr (sort_key (\<lambda>(pl, p). (instant (so_taken p), so_id p))
            (concat (map (pick_place threshold)
              (zip groups (zip (map snd units) (zip (map snd sims) allocations)))))))"

end
