(* ===== verification/StoryRun.thy ===== *)
theory StoryRun
  imports StorySelect
begin

text \<open>
  \<open>src/app/story/pipeline.py\<close> and the output contract of \<open>story/prompts.py\<close>: check the request,
  select the photos, let the model write, check what it wrote and number the blocks.  The vector
  store, the URL resolver and the generation server answer through \<open>story_ctx\<close>; the model's text
  is given as the JSON value it parses to.  \<open>JobReporter\<close> polls for cancellation and reports;
  a report the job store refuses cancels the run.  Of two photos or places with one
  id the later one is looked up, as in the dictionaries of the code.  Taken times within nine hours
  of the end of the year 9999, which the time zone conversion refuses, are not treated apart.
\<close>

section \<open>Request\<close>

definition story_request_ok :: "story_message \<Rightarrow> bool" where
  "story_request_ok m \<longleftrightarrow> valid_story_message m \<and> distinct (map sp_id (sm_places m)) \<and>
     distinct (map so_id (concat (map sp_photos (sm_places m)))) \<and>
     pd_start (sm_period m) \<le> pd_end (sm_period m)"

definition validate_request :: "story_message option \<Rightarrow> pipeline_error + story_message" where
  "validate_request r =
     (case r of Some m \<Rightarrow> if story_request_ok m then Inr m else Inl (PipelineFailure INVALID_REQUEST)
      | None \<Rightarrow> Inl (PipelineFailure INVALID_REQUEST))"

section \<open>What the model wrote\<close>

record draft_block =
  db_photo :: int
  db_summary :: utext
  db_memo :: utext

record story_draft =
  dr_summary :: utext
  dr_blocks :: "draft_block list"

definition draft_text :: "nat \<Rightarrow> json option \<Rightarrow> utext option" where
  "draft_text n v = (case v of Some (JStr u) \<Rightarrow> if u \<noteq> [] \<and> length u \<le> n then Some u else None | _ \<Rightarrow> None)"

definition draft_block_of :: "json \<Rightarrow> draft_block option" where
  "draft_block_of j =
     (case j of
        JObj kvs \<Rightarrow>
          if set (map fst kvs) \<noteq> {''trip_attachment_id'', ''detail_summary'', ''memo''} then None
          else (case (map_of kvs ''trip_attachment_id'', draft_text 40 (map_of kvs ''detail_summary''),
                      draft_text 125 (map_of kvs ''memo'')) of
                  (Some (JInt i), Some a, Some b) \<Rightarrow> Some \<lparr>db_photo = i, db_summary = a, db_memo = b\<rparr>
                | _ \<Rightarrow> None)
      | _ \<Rightarrow> None)"

definition draft_of :: "json \<Rightarrow> story_draft option" where
  "draft_of j =
     (case j of
        JObj kvs \<Rightarrow>
          if set (map fst kvs) \<noteq> {''story_summary'', ''blocks''} then None
          else (case (draft_text 40 (map_of kvs ''story_summary''), map_of kvs ''blocks'') of
                  (Some u, Some (JArr bs)) \<Rightarrow>
                    if bs = [] \<or> length bs > 30 then None
                    else map_option (\<lambda>ds. \<lparr>dr_summary = u, dr_blocks = ds\<rparr>) (all_some (map draft_block_of bs))
                | _ \<Rightarrow> None)
      | _ \<Rightarrow> None)"

section \<open>Result\<close>

record story_block =
  sb_order :: nat
  sb_place :: int
  sb_photo :: int
  sb_label :: utext
  sb_summary :: utext
  sb_memo :: utext

record story_result =
  sr_summary :: utext
  sr_blocks :: "story_block list"

definition valid_story_block :: "story_block \<Rightarrow> bool" where
  "valid_story_block b \<longleftrightarrow> 1 \<le> sb_order b \<and> length (sb_label b) \<le> 40 \<and> length (sb_summary b) \<le> 40 \<and>
     length (sb_memo b) \<le> 125"

definition valid_story_result :: "story_result \<Rightarrow> bool" where
  "valid_story_result r \<longleftrightarrow> length (sr_summary r) \<le> 40 \<and> sr_blocks r \<noteq> [] \<and> length (sr_blocks r) \<le> 30 \<and>
     list_all valid_story_block (sr_blocks r)"

text \<open>The label of a block: the day of the trip (written with the Korean words for nth day), or the
  date when the photo is older than the trip; then the name of the place.\<close>

definition day_label :: "period \<Rightarrow> dtime \<Rightarrow> utext \<Rightarrow> utext" where
  "day_label pd t name =
     (let day = kst_day t - pd_start pd + 1;
          label = (if day < 1 then of_ascii (iso_date (kst_day t + EPOCH_ORDINAL))
                   else of_ascii (nat_str (nat day)) @ [51068, 52264])
      in take 40 (label @ of_ascii '', '' @ name))"

definition invalid_output :: pipeline_error where
  "invalid_output = PipelineFailure INTERNAL_ERROR"

definition ordered_blocks :: "(int \<times> story_photo) list \<Rightarrow> draft_block list \<Rightarrow> draft_block list" where
  "ordered_blocks selected bs =
     sort_key (\<lambda>b. case find (\<lambda>(pl, p). so_id p = db_photo b) (rev selected) of
        Some (pl, p) \<Rightarrow> (instant (so_taken p), db_photo b) | None \<Rightarrow> (0, db_photo b)) bs"

definition story_block_of ::
  "story_message \<Rightarrow> (int \<times> story_photo) list \<Rightarrow> nat \<Rightarrow> draft_block \<Rightarrow> pipeline_error + story_block" where
  "story_block_of m selected order b =
     (case find (\<lambda>(pl, p). so_id p = db_photo b) (rev selected) of
        None \<Rightarrow> Inl invalid_output
      | Some (pl, p) \<Rightarrow>
          (case find (\<lambda>q. sp_id q = pl) (rev (sm_places m)) of
             None \<Rightarrow> Inl invalid_output
           | Some q \<Rightarrow>
               Inr \<lparr>sb_order = order, sb_place = pl, sb_photo = db_photo b,
                    sb_label = day_label (sm_period m) (so_taken p) (sp_name q),
                    sb_summary = db_summary b, sb_memo = db_memo b\<rparr>))"

definition finalize_story ::
  "story_message \<Rightarrow> (int \<times> story_photo) list \<Rightarrow> json option \<Rightarrow> pipeline_error + story_result" where
  "finalize_story m selected raw =
     (case (case raw of None \<Rightarrow> None | Some j \<Rightarrow> draft_of j) of
        None \<Rightarrow> Inl invalid_output
      | Some d \<Rightarrow>
          let ids = map db_photo (dr_blocks d)
          in if \<not> distinct ids then Inl invalid_output
             else if set ids \<noteq> set (map (\<lambda>(pl, p). so_id p) selected) then Inl invalid_output
             else if set (map fst (filter (\<lambda>(pl, p). so_id p \<in> set ids) selected)) \<noteq> set (map sp_id (sm_places m))
               then Inl invalid_output
             else bindE (mapE (\<lambda>(i, b). story_block_of m selected i b)
                      (enumerate 1 (ordered_blocks selected (dr_blocks d)))) (\<lambda>blocks.
               let r = \<lparr>sr_summary = dr_summary d, sr_blocks = blocks\<rparr>
               in if valid_story_result r then Inr r else Inl invalid_output))"

section \<open>The run\<close>

datatype service_fault = Svc_timeout | Svc_model | Svc_vlm

fun fault_error :: "service_fault \<Rightarrow> pipeline_error" where
  "fault_error Svc_timeout = PipelineFailure TIMEOUT"
| "fault_error Svc_model = PipelineFailure MODEL_NOT_READY"
| "fault_error Svc_vlm = PipelineFailure VLM_UNAVAILABLE"

definition served_by :: "service_fault + 'a \<Rightarrow> 'a storym" where
  "served_by r = liftS (case r of Inl f \<Rightarrow> Inl (fault_error f) | Inr x \<Rightarrow> Inr x)"

record 'i story_ctx =
  sx_env :: "'i story_env"
  sx_fetch :: "int list \<Rightarrow> service_fault + (int, vec) pydict"
  sx_url :: "string \<Rightarrow> service_fault + string"
  sx_chat :: "story_message \<Rightarrow> (int \<times> story_photo) list \<Rightarrow> string list \<Rightarrow> service_fault + json option"

record story_options =
  op_budget :: nat
  op_blur :: rat
  op_phash :: nat
  op_z :: rat

definition story_report :: "'i story_env \<Rightarrow> string \<Rightarrow> nat \<Rightarrow> nat \<Rightarrow> unit storym" where
  "story_report E step k n s =
     (let s' = s\<lparr>st_reports := st_reports s @ [(step, k, n)]\<rparr>
      in if se_reported E (length (st_reports s)) then (Inr (), s') else (Inl PipelineCancelled, s'))"

definition resolve_urls :: "'i story_ctx \<Rightarrow> (int \<times> story_photo) list \<Rightarrow> string list storym" where
  "resolve_urls C selected =
     mapS (\<lambda>(pl, p). bindS (story_poll (sx_env C)) (\<lambda>_. served_by (sx_url C (so_key p)))) selected"

definition select_stage ::
  "'i story_ctx \<Rightarrow> story_options \<Rightarrow> groups \<Rightarrow> (int \<times> story_photo) list storym" where
  "select_stage C opts groups =
     bindS (story_poll (sx_env C)) (\<lambda>_.
     bindS (served_by (sx_fetch C (map so_id (concat (map snd groups))))) (\<lambda>vectors.
     bindS (liftS (unit_vectors (sx_env C) groups vectors)) (\<lambda>units.
     let sims = similarities units in
     liftS (select_photos groups units sims (op_budget opts) (duplicate_threshold (sx_env C) sims (op_z opts))))))"

definition story_work :: "'i story_ctx \<Rightarrow> story_options \<Rightarrow> story_message \<Rightarrow> story_result storym" where
  "story_work C opts m =
     (let E = sx_env C in
      bindS (story_poll E) (\<lambda>_.
      bindS (story_report E ''SELECTING'' 0 4) (\<lambda>_.
      bindS (filter_candidates E (op_blur opts) (op_phash opts) (sm_places m)) (\<lambda>groups.
      bindS (story_report E ''SELECTING'' 1 4) (\<lambda>_.
      bindS (select_stage C opts groups) (\<lambda>selected.
      bindS (story_poll E) (\<lambda>_.
      bindS (resolve_urls C selected) (\<lambda>urls.
      bindS (story_report E ''WRITING'' 2 4) (\<lambda>_.
      bindS (story_poll E) (\<lambda>_.
      bindS (served_by (sx_chat C m selected urls)) (\<lambda>raw.
      bindS (story_poll E) (\<lambda>_.
      bindS (story_report E ''VERIFYING'' 3 4) (\<lambda>_.
      bindS (liftS (finalize_story m selected raw)) (\<lambda>result.
      bindS (story_report E ''VERIFYING'' 4 4) (\<lambda>_.
      bindS (story_poll E) (\<lambda>_.
      retS result))))))))))))))))"

definition run_story :: "'i story_ctx \<Rightarrow> story_options \<Rightarrow> story_message option \<Rightarrow> story_result storym" where
  "run_story C opts r =
     bindS (liftS (validate_request r)) (\<lambda>m.
     if op_budget opts < length (sm_places m) then failS (PipelineFailure INVALID_REQUEST)
     else story_work C opts m)"

end
