(* ===== verification/StoryTheorems.thy ===== *)
theory StoryTheorems
  imports StoryRun "HOL-Library.Sublist" RunExample
begin

text \<open>
  Sharing the photo budget by largest remainders, and what choosing and checking keep.

  The properties of the story job, and an example its witness runs on.
\<close>

section \<open>Largest remainders\<close>

lemma sum_list_div_mod:
  fixes xs :: "nat list"
  shows "sum_list xs = t * sum_list (map (\<lambda>x. x div t) xs) + sum_list (map (\<lambda>x. x mod t) xs)"
  by (induction xs) (simp_all add: algebra_simps)

lemma sum_list_le_length: "(\<And>x. x \<in> set xs \<Longrightarrow> f x \<le> (t :: nat)) \<Longrightarrow> sum_list (map f xs) \<le> length xs * t"
  by (induction xs) (auto intro: add_mono)

lemma sum_list_lt_length:
  "(\<And>x. x \<in> set xs \<Longrightarrow> f x < (t :: nat)) \<Longrightarrow> xs \<noteq> [] \<Longrightarrow> sum_list (map f xs) < length xs * t"
proof (induction xs)
  case (Cons x xs)
  then show ?case by (cases "xs = []") (auto intro: add_less_mono)
qed simp

lemma prefix_positive:
  fixes f :: "'a \<Rightarrow> nat"
  assumes srt: "sorted_wrt (\<lambda>x y. f y \<le> f x) xs" and sum: "sum_list (map f xs) = t * k"
    and lt: "\<And>x. x \<in> set xs \<Longrightarrow> f x < t" and t: "0 < t"
  shows "k \<le> length xs \<and> (\<forall>x \<in> set (take k xs). 0 < f x)"
proof
  show le: "k \<le> length xs"
  proof (rule ccontr)
    assume "\<not> k \<le> length xs"
    then have "length xs * t < t * k" using t by (simp add: mult.commute)
    moreover have "sum_list (map f xs) \<le> length xs * t" using lt by (intro sum_list_le_length) (simp add: less_imp_le)
    ultimately show False using sum by simp
  qed
  show "\<forall>x \<in> set (take k xs). 0 < f x"
  proof (rule ccontr)
    assume "\<not> (\<forall>x \<in> set (take k xs). 0 < f x)"
    then obtain j where j: "j < k" "f (xs ! j) = 0" using le by (auto simp: in_set_conv_nth)
    have "f y = 0" if "y \<in> set (drop j xs)" for y
    proof -
      from that obtain i where i: "i < length (drop j xs)" "y = drop j xs ! i" by (auto simp: in_set_conv_nth)
      have "f (xs ! (j + i)) \<le> f (xs ! j)"
      proof (cases "i = 0")
        case False
        with i srt show ?thesis by (intro sorted_wrt_nth_less[OF srt]) auto
      qed simp
      with i j show ?thesis by simp
    qed
    then have "sum_list (map f (drop j xs)) = 0" by (simp add: sum_list_nonneg_eq_0_iff)
    moreover have "sum_list (map f xs) = sum_list (map f (take j xs)) + sum_list (map f (drop j xs))"
      by (metis append_take_drop_id map_append sum_list.append)
    moreover have "sum_list (map f (take j xs)) \<le> length (take j xs) * t"
      using lt by (intro sum_list_le_length) (meson in_set_takeD less_imp_le)
    ultimately have "sum_list (map f xs) \<le> length (take j xs) * t" by linarith
    then have "t * k \<le> j * t" using sum j le by simp
    with j t show False by (simp add: mult.commute)
  qed
qed

lemma sort_key_neg_sorted:
  "sorted_wrt (\<lambda>x y. (f y :: nat) \<le> f x) (sort_key (\<lambda>x. - int (f x)) xs)"
proof -
  have "sorted (map (\<lambda>x. - int (f x)) (sort_key (\<lambda>x. - int (f x)) xs))" by simp
  then show ?thesis by (simp add: sorted_map)
qed

lemma sum_list_indicator:
  assumes "distinct ys" "set ys \<subseteq> set xs" "distinct xs"
  shows "sum_list (map (\<lambda>x. if x \<in> set ys then 1 else 0 :: nat) xs) = length ys"
proof -
  have "sum_list (map (\<lambda>x. if x \<in> set ys then 1 else 0 :: nat) xs) = length (filter (\<lambda>x. x \<in> set ys) xs)"
    by (induction xs) simp_all
  also have "\<dots> = card (set (filter (\<lambda>x. x \<in> set ys) xs))"
    by (rule distinct_card[symmetric]) (simp add: assms(3))
  also have "set (filter (\<lambda>x. x \<in> set ys) xs) = set ys" using assms(2) by auto
  finally show ?thesis using assms(1) by (simp add: distinct_card)
qed

lemma sum_list_three:
  "sum_list (map (\<lambda>i. a i + b i + 1 :: nat) xs) = sum_list (map a xs) + sum_list (map b xs) + length xs"
  by (induction xs) simp_all

lemma allocate_Some:
  "allocate counts budget \<noteq> None \<longleftrightarrow> counts \<noteq> [] \<and> (\<forall>c \<in> set counts. 1 \<le> c) \<and> length counts \<le> budget"
proof -
  have "(\<forall>c \<in> set counts. 1 \<le> c) \<longleftrightarrow> \<not> list_ex (\<lambda>c. c < 1) counts" unfolding list_ex_iff by (meson not_less)
  then show ?thesis by (auto simp: allocate_def Let_def simp del: One_nat_def)
qed

lemma allocate_spec:
  assumes "allocate counts budget = Some ns"
  shows "length ns = length counts \<and> (\<forall>i < length counts. 1 \<le> ns ! i \<and> ns ! i \<le> counts ! i) \<and>
    sum_list ns = min budget (sum_list counts)"
proof -
  have ok: "counts \<noteq> []" "\<forall>c \<in> set counts. 1 \<le> c" "length counts \<le> budget"
    using allocate_Some[of counts budget] assms by simp_all
  define n where "n = length counts"
  define r where "r = min budget (sum_list counts) - n"
  define cap where "cap = map (\<lambda>c. c - 1) counts"
  define t where "t = sum_list cap"
  have sc: "sum_list counts = t + n"
    using ok(2) unfolding t_def cap_def n_def by (induction counts) auto
  have nb: "n \<le> min budget (sum_list counts)" using ok(3) sc by (simp add: n_def)
  have pos: "1 \<le> counts ! i" if "i < n" for i using ok(2) that by (simp add: n_def)
  show ?thesis
  proof (cases "r = 0")
    case True
    then have ns: "ns = replicate n 1" using assms ok by (auto simp: allocate_def Let_def n_def r_def list_ex_iff)
    moreover have "n = min budget (sum_list counts)" using True nb by (simp add: r_def)
    ultimately show ?thesis using pos by (simp add: n_def sum_list_replicate)
  next
    case False
    define f where "f = (\<lambda>i. r * cap ! i mod t)"
    define sh where "sh = (\<lambda>i. r * cap ! i div t)"
    define k where "k = r - sum_list (map sh [0..<n])"
    define order where "order = sort_key (\<lambda>i. - int (f i)) [0..<n]"
    have lc: "length cap = n" by (simp add: cap_def n_def)
    have shares: "map (\<lambda>c. r * c div t) cap = map sh [0..<n]"
      unfolding sh_def using lc by (auto intro: nth_equalityI)
    have ns: "ns = map (\<lambda>i. sh i + (if i \<in> set (take k order) then 1 else 0) + 1) [0..<n]"
    proof -
      have "ns = map (\<lambda>i. map (\<lambda>c. r * c div t) cap ! i +
          (if i \<in> set (take (r - sum_list (map (\<lambda>c. r * c div t) cap)) order) then 1 else 0) + 1) [0..<n]"
        using assms ok False
        unfolding allocate_def Let_def n_def[symmetric] r_def[symmetric] cap_def[symmetric] t_def[symmetric]
          order_def f_def
        by (auto simp: list_ex_iff)
      then show ?thesis using shares by (auto simp: k_def)
    qed
    have rt: "r \<le> t" using sc by (simp add: r_def)
    with False have t: "0 < t" by simp
    have "sum_list (map (\<lambda>i. r * cap ! i) [0..<n]) = r * t"
    proof -
      have "map (\<lambda>i. r * cap ! i) [0..<n] = map ((*) r) cap" using lc by (auto intro: nth_equalityI)
      then show ?thesis by (simp add: sum_list_const_mult t_def)
    qed
    then have total: "r * t = t * sum_list (map sh [0..<n]) + sum_list (map f [0..<n])"
      using sum_list_div_mod[of "map (\<lambda>i. r * cap ! i) [0..<n]" t] by (simp add: comp_def sh_def f_def)
    then have "t * sum_list (map sh [0..<n]) \<le> t * r" by (simp add: mult.commute)
    then have shr: "sum_list (map sh [0..<n]) \<le> r" using t by simp
    have so: "set order = {..<n}" "distinct order" by (auto simp: order_def atLeast0LessThan)
    have "mset (map f order) = mset (map f [0..<n])" by (simp add: order_def)
    then have "sum_list (map f order) = sum_list (map f [0..<n])" by (metis sum_mset_sum_list)
    with total have "sum_list (map f order) = t * k"
      using shr by (simp add: k_def diff_mult_distrib2 mult.commute)
    then have pp: "k \<le> length order \<and> (\<forall>x \<in> set (take k order). 0 < f x)"
      using t by (intro prefix_positive) (auto simp: order_def f_def sort_key_neg_sorted)
    have bound: "sh i + (if i \<in> set (take k order) then 1 else 0) \<le> cap ! i" if i: "i < n" for i
    proof -
      have e: "t * sh i + f i = r * cap ! i" by (simp add: sh_def f_def)
      also have "\<dots> \<le> t * cap ! i" using rt by simp
      finally have le: "t * sh i + f i \<le> t * cap ! i" .
      show ?thesis
      proof (cases "i \<in> set (take k order)")
        case True
        with pp have "0 < f i" by blast
        with le have "t * sh i < t * cap ! i" by linarith
        then have "sh i < cap ! i" by (rule mult_left_less_imp_less) simp
        with True show ?thesis by simp
      next
        case False
        have "t * sh i \<le> t * cap ! i" using le by linarith
        with False t show ?thesis by simp
      qed
    qed
    have "sum_list ns = sum_list (map sh [0..<n]) +
        sum_list (map (\<lambda>i. if i \<in> set (take k order) then 1 else 0) [0..<n]) + n"
      unfolding ns sum_list_three by simp
    also have "sum_list (map (\<lambda>i. if i \<in> set (take k order) then 1 else 0) [0..<n]) = length (take k order)"
    proof (rule sum_list_indicator)
      show "set (take k order) \<subseteq> set [0..<n]" using so(1) set_take_subset[of k order] by auto
    qed (simp_all add: so(2))
    also have "length (take k order) = k" using pp by simp
    finally have "sum_list ns = sum_list (map sh [0..<n]) + k + n" .
    then have "sum_list ns = r + n" using shr unfolding k_def by linarith
    then have "sum_list ns = min budget (sum_list counts)" using nb by (simp add: r_def)
    moreover have "1 \<le> ns ! i \<and> ns ! i \<le> counts ! i" if "i < n" for i
      using bound[OF that] that pos[OF that] unfolding ns by (simp add: cap_def n_def)
    ultimately show ?thesis by (simp add: ns n_def)
  qed
qed

section \<open>Choosing\<close>

definition apart :: "rat list list \<Rightarrow> rat option \<Rightarrow> nat list \<Rightarrow> bool" where
  "apart similar threshold xs \<longleftrightarrow> (\<forall>th. threshold = Some th \<longrightarrow>
     (\<forall>a b. a < b \<longrightarrow> b < length xs \<longrightarrow> similar ! (xs ! b) ! (xs ! a) < th))"

lemma apart_snoc:
  assumes "apart similar threshold xs" "threshold = Some th \<longrightarrow> (\<forall>j \<in> set xs. similar ! i ! j < th)"
    "threshold = None \<or> threshold = Some th"
  shows "apart similar threshold (xs @ [i])"
  using assms by (auto simp: apart_def nth_append less_Suc_eq)

lemma pick_spec:
  assumes "pick_photos similar threshold quota order chosen = res" "distinct (chosen @ order)"
    "apart similar threshold chosen" "length chosen \<le> quota"
  shows "distinct res \<and> set res \<subseteq> set (chosen @ order) \<and> length res \<le> quota \<and> set chosen \<subseteq> set res \<and>
    apart similar threshold res"
  using assms
proof (induction order arbitrary: chosen)
  case Nil
  then show ?case by auto
next
  case (Cons i order)
  show ?case
  proof (cases "length chosen = quota")
    case True
    with Cons.prems show ?thesis by auto
  next
    case False
    note no = this
    show ?thesis
    proof (cases "case threshold of None \<Rightarrow> False | Some th \<Rightarrow> list_ex (\<lambda>j. th \<le> similar ! i ! j) chosen")
      case True
      with Cons.prems(1) no have "pick_photos similar threshold quota order chosen = res" by simp
      from Cons.IH[OF this] Cons.prems(2-4) show ?thesis by auto
    next
      case False
      with Cons.prems(1) no have p: "pick_photos similar threshold quota order (chosen @ [i]) = res" by simp
      have "apart similar threshold (chosen @ [i])"
        using False by (intro apart_snoc[OF Cons.prems(3), of "case threshold of Some th \<Rightarrow> th | None \<Rightarrow> 0"])
          (auto simp: list_ex_iff not_le split: option.splits)
      from Cons.IH[OF p _ this] Cons.prems(2,4) no show ?thesis by auto
    qed
  qed
qed

lemma pick_keeps: "set xs \<subseteq> set (pick_photos similar threshold quota ys xs)"
proof (induction ys arbitrary: xs)
  case (Cons y ys)
  from Cons[of "xs @ [y]"] Cons[of xs] show ?case by (auto split: option.split)
qed simp

lemma pick_nonempty:
  assumes "order \<noteq> []" "0 < quota" shows "pick_photos similar threshold quota order [] \<noteq> []"
proof -
  obtain i js where o: "order = i # js" using assms(1) by (cases order) auto
  have "pick_photos similar threshold quota order [] = pick_photos similar threshold quota js [i]"
    using assms(2) by (simp add: o split: option.split)
  with pick_keeps[of "[i]" similar threshold quota js] show ?thesis by auto
qed

text \<open>What one place contributes.\<close>

lemma pick_place_spec:
  assumes "1 \<le> quota" "ps \<noteq> []" "distinct (map so_id ps)"
  shows "let sel = pick_place threshold ((pl, ps), m, similar, quota) in
    sel \<noteq> [] \<and> length sel \<le> quota \<and> distinct (map (\<lambda>(pl, p). so_id p) sel) \<and>
    (\<forall>(q, p) \<in> set sel. q = pl \<and> p \<in> set ps)"
proof -
  let ?is = "pick_photos similar threshold quota (pick_order m ps) []"
  have o: "set (pick_order m ps) = {..<length ps}" "distinct (pick_order m ps)"
    by (auto simp: pick_order_def atLeast0LessThan)
  have s: "distinct ?is" "set ?is \<subseteq> {..<length ps}" "length ?is \<le> quota"
    using pick_spec[OF refl, of "[]" "pick_order m ps" similar threshold quota] o by (auto simp: apart_def)
  have "pick_order m ps \<noteq> []" using assms(2) o(1) by (metis empty_iff empty_set lessThan_iff length_greater_0_conv)
  then have ne: "?is \<noteq> []" using assms(1) by (intro pick_nonempty) auto
  have "distinct (map (\<lambda>i. so_id (ps ! i)) ?is)"
  proof -
    have "inj_on (\<lambda>i. so_id (ps ! i)) (set ?is)"
      using s(2) assms(3) by (auto intro!: inj_onI simp: distinct_conv_nth subset_iff)
    then show ?thesis using s(1) by (simp add: distinct_map)
  qed
  then show ?thesis using s ne by (auto simp: pick_place_def Let_def comp_def)
qed

section \<open>What filtering keeps\<close>

lemma keep_sharp_subseq:
  "keep_sharp E blur md imgs ps kept s = (Inr kept', t) \<Longrightarrow>
   \<exists>new. kept' = kept @ new \<and> subseq (map fst new) ps"
proof (induction ps arbitrary: kept s)
  case (Cons p ps)
  have "\<exists>(m :: photo_metrics) u. keep_sharp E blur md imgs ps
      (if pmt_variance m < blur \<or> list_ex (\<lambda>(q, h). re_hdist (se_images E) (pmt_phash m) h \<le> md) kept
        then kept else kept @ [(p, pmt_phash m)]) u = (Inr kept', t)"
    using Cons.prems unfolding keep_sharp.simps(2) bindS_Inr by blast
  then obtain m :: photo_metrics and u where r: "keep_sharp E blur md imgs ps
      (if pmt_variance m < blur \<or> list_ex (\<lambda>(q, h). re_hdist (se_images E) (pmt_phash m) h \<le> md) kept
        then kept else kept @ [(p, pmt_phash m)]) u = (Inr kept', t)" by blast
  from Cons.IH[OF r] obtain new where n: "kept' = (if pmt_variance m < blur \<or>
      list_ex (\<lambda>(q, h). re_hdist (se_images E) (pmt_phash m) h \<le> md) kept
      then kept else kept @ [(p, pmt_phash m)]) @ new" "subseq (map fst new) ps" by blast
  show ?case
  proof (cases "pmt_variance m < blur \<or> list_ex (\<lambda>(q, h). re_hdist (se_images E) (pmt_phash m) h \<le> md) kept")
    case True
    with n show ?thesis by auto
  next
    case False
    with n show ?thesis by (intro exI[of _ "(p, pmt_phash m) # new"]) auto
  qed
qed simp

lemma keep_chunks_subseq:
  "keep_chunks E blur md cs kept s = (Inr kept', t) \<Longrightarrow>
   \<exists>new. kept' = kept @ new \<and> subseq (map fst new) (concat cs)"
proof (induction cs arbitrary: kept s)
  case (Cons c cs)
  from Cons.prems obtain imgs u kept1 v where k: "keep_sharp E blur md imgs c kept u = (Inr kept1, v)"
    and r: "keep_chunks E blur md cs kept1 v = (Inr kept', t)"
    by (fastforce simp: bindS_Inr)
  from keep_sharp_subseq[OF k] Cons.IH[OF r] obtain a b where
    "kept1 = kept @ a" "subseq (map fst a) c" "kept' = kept1 @ b" "subseq (map fst b) (concat cs)" by blast
  then show ?case by (intro exI[of _ "a @ b"]) (auto intro: list_emb_append_mono)
qed simp

lemma filter_candidates_spec:
  "filter_candidates E blur md pls s = (Inr groups, t) \<Longrightarrow>
   list_all2 (\<lambda>pl (i, ps). i = sp_id pl \<and> ps \<noteq> [] \<and> subseq ps (by_time (sp_photos pl))) pls groups"
proof (induction pls arbitrary: groups s)
  case (Cons pl pls)
  from Cons.prems obtain kept u rest where
    k: "keep_chunks E blur md (chunks16 (by_time (sp_photos pl))) [] s = (Inr kept, u)" "kept \<noteq> []"
    and r: "filter_candidates E blur md pls u = (Inr rest, t)" "groups = (sp_id pl, map fst kept) # rest"
    by (auto simp: bindS_Inr split: if_splits)
  from keep_chunks_subseq[OF k(1)] have "subseq (map fst kept) (by_time (sp_photos pl))" by simp
  with k(2) r(2) Cons.IH[OF r(1)] show ?case by simp
qed simp

section \<open>The selection\<close>

definition sel_ids :: "(int \<times> story_photo) list \<Rightarrow> int list" where
  "sel_ids sel = map (\<lambda>(pl, p). so_id p) sel"

lemma picks_spec:
  assumes "length ms = length gs" "length ss = length gs" "length qs = length gs" "\<forall>q \<in> set qs. 1 \<le> q"
    "\<forall>(pl, ps) \<in> set gs. ps \<noteq> []" "distinct (map so_id (concat (map snd gs)))"
  shows "let sel = concat (map (pick_place th) (zip gs (zip ms (zip ss qs)))) in
    length sel \<le> sum_list qs \<and> distinct (sel_ids sel) \<and> fst ` set sel = fst ` set gs \<and>
    (\<forall>(pl, p) \<in> set sel. \<exists>ps. (pl, ps) \<in> set gs \<and> p \<in> set ps)"
  using assms
proof (induction gs arbitrary: ms ss qs)
  case (Cons g gs)
  obtain pl ps where g: "g = (pl, ps)" by (cases g)
  obtain m ms' sm ss' q qs' where l: "ms = m # ms'" "ss = sm # ss'" "qs = q # qs'"
    using Cons.prems(1-3) by (cases ms; cases ss; cases qs) auto
  let ?a = "pick_place th ((pl, ps), m, sm, q)"
  let ?b = "concat (map (pick_place th) (zip gs (zip ms' (zip ss' qs'))))"
  have "1 \<le> q" "ps \<noteq> []" "distinct (map so_id ps)" using Cons.prems(4-6) l g by auto
  from pick_place_spec[OF this, of th pl m sm] have a: "?a \<noteq> []" "length ?a \<le> q" "distinct (sel_ids ?a)"
    "\<forall>(q, p) \<in> set ?a. q = pl \<and> p \<in> set ps" by (auto simp: Let_def sel_ids_def)
  have b: "length ?b \<le> sum_list qs'" "distinct (sel_ids ?b)" "fst ` set ?b = fst ` set gs"
    "\<forall>(pl, p) \<in> set ?b. \<exists>ps. (pl, ps) \<in> set gs \<and> p \<in> set ps"
    using Cons.IH[of ms' ss' qs'] Cons.prems l by (auto simp: Let_def)
  have d: "set (sel_ids ?a) \<inter> set (sel_ids ?b) = {}"
  proof -
    have "set (sel_ids ?a) \<subseteq> so_id ` set ps" using a(4) by (auto simp: sel_ids_def)
    moreover have "set (sel_ids ?b) \<subseteq> so_id ` set (concat (map snd gs))" using b(4) by (force simp: sel_ids_def)
    moreover have "so_id ` set ps \<inter> so_id ` set (concat (map snd gs)) = {}" using Cons.prems(6) g by auto
    ultimately show ?thesis by blast
  qed
  have f: "fst ` set ?a = {pl}" using a(1,4) by (cases ?a) force+
  have len: "length (?a @ ?b) \<le> sum_list qs" using a(2) b(1) l by simp
  have dist: "distinct (sel_ids (?a @ ?b))" using a(3) b(2) d by (simp add: sel_ids_def)
  have img: "fst ` set (?a @ ?b) = fst ` set ((pl, ps) # gs)" using f b(3) by (simp add: image_Un)
  have mem: "\<forall>(x, p) \<in> set (?a @ ?b). \<exists>ys. (x, ys) \<in> set ((pl, ps) # gs) \<and> p \<in> set ys" using a(4) b(4) by fastforce
  have "let sel = ?a @ ?b in length sel \<le> sum_list qs \<and> distinct (sel_ids sel) \<and>
      fst ` set sel = fst ` set ((pl, ps) # gs) \<and>
      (\<forall>(x, p) \<in> set sel. \<exists>ys. (x, ys) \<in> set ((pl, ps) # gs) \<and> p \<in> set ys)"
    unfolding Let_def using len dist img mem by blast
  then show ?case unfolding l g by (simp only: zip_Cons_Cons list.map concat.simps)
qed (simp add: sel_ids_def)

lemma select_spec:
  assumes "select_photos gs units sims budget th = Inr sel" "length units = length gs" "length sims = length gs"
    "\<forall>(pl, ps) \<in> set gs. ps \<noteq> []" "distinct (map so_id (concat (map snd gs)))"
  shows "length sel \<le> budget \<and> distinct (sel_ids sel) \<and> fst ` set sel = fst ` set gs \<and>
    (\<forall>(pl, p) \<in> set sel. \<exists>ps. (pl, ps) \<in> set gs \<and> p \<in> set ps)"
proof -
  let ?counts = "map (\<lambda>(pl, ps). length ps) gs"
  from assms(1) obtain qs where a: "allocate ?counts budget = Some qs"
    and s: "sel = sort_key (\<lambda>(pl, p). (instant (so_taken p), so_id p))
            (concat (map (pick_place th) (zip gs (zip (map snd units) (zip (map snd sims) qs)))))"
    by (auto simp: select_photos_def split: option.splits)
  note q = allocate_spec[OF a]
  have "\<forall>x \<in> set qs. 1 \<le> x" using q by (auto simp: in_set_conv_nth simp del: One_nat_def)
  with q assms have p: "let sel = concat (map (pick_place th) (zip gs (zip (map snd units) (zip (map snd sims) qs)))) in
    length sel \<le> sum_list qs \<and> distinct (sel_ids sel) \<and> fst ` set sel = fst ` set gs \<and>
    (\<forall>(pl, p) \<in> set sel. \<exists>ps. (pl, ps) \<in> set gs \<and> p \<in> set ps)"
    by (intro picks_spec) simp_all
  have "sum_list qs \<le> budget" using q by simp
  moreover have "distinct (sel_ids (sort_key f xs)) = distinct (sel_ids xs)" for f :: "int \<times> story_photo \<Rightarrow> int \<times> int" and xs
    unfolding sel_ids_def by (metis mset_eq_imp_distinct_iff mset_map mset_sort)
  ultimately show ?thesis using p unfolding s Let_def by auto
qed

lemma find_in: "find P xs = Some x \<Longrightarrow> x \<in> set xs \<and> P x"
  by (auto simp: find_Some_iff)

lemma finalize_spec:
  assumes "finalize_story m sel raw = Inr r"
  shows "map sb_order (sr_blocks r) = [1..<length (sr_blocks r) + 1] \<and> distinct (map sb_photo (sr_blocks r)) \<and>
    set (map sb_photo (sr_blocks r)) = set (sel_ids sel) \<and>
    (\<forall>b \<in> set (sr_blocks r). \<exists>p. (sb_place b, p) \<in> set sel \<and> so_id p = sb_photo b) \<and>
    sb_place ` set (sr_blocks r) \<subseteq> set (map sp_id (sm_places m)) \<and> valid_story_result r"
proof -
  from assms obtain d where dr: "(case raw of None \<Rightarrow> None | Some j \<Rightarrow> draft_of j) = Some d"
    by (cases "case raw of None \<Rightarrow> None | Some j \<Rightarrow> draft_of j") (auto simp: finalize_story_def)
  have d: "distinct (map db_photo (dr_blocks d))" "set (map db_photo (dr_blocks d)) = set (sel_ids sel)"
    and mp: "mapE (\<lambda>(i, b). story_block_of m sel i b) (enumerate 1 (ordered_blocks sel (dr_blocks d))) = Inr (sr_blocks r)"
    and v: "valid_story_result r"
    using assms unfolding finalize_story_def dr option.case Let_def sel_ids_def
    by (simp_all only: split: if_splits) (auto split: if_splits)
  let ?bs = "ordered_blocks sel (dr_blocks d)"
  have l: "list_all2 (\<lambda>(i, b) x. story_block_of m sel i b = Inr x) (enumerate 1 ?bs) (sr_blocks r)"
    using mp by (simp add: mapE_Inr case_prod_beta')
  have blk: "sb_order x = i \<and> sb_photo x = db_photo b \<and> (\<exists>p. (sb_place x, p) \<in> set sel \<and> so_id p = sb_photo x) \<and>
      sb_place x \<in> set (map sp_id (sm_places m))"
    if s: "story_block_of m sel i b = Inr x" for i b x
  proof -
    obtain pl p q where f: "find (\<lambda>(pl, p). so_id p = db_photo b) (rev sel) = Some (pl, p)"
        "find (\<lambda>q. sp_id q = pl) (rev (sm_places m)) = Some q"
        "x = \<lparr>sb_order = i, sb_place = pl, sb_photo = db_photo b,
              sb_label = day_label (sm_period m) (so_taken p) (sp_name q),
              sb_summary = db_summary b, sb_memo = db_memo b\<rparr>"
      using s unfolding story_block_of_def by (auto split: option.splits)
    from find_in[OF f(1)] find_in[OF f(2)] f(3) show ?thesis by auto
  qed
  have len: "length (sr_blocks r) = length ?bs" using list_all2_lengthD[OF l] by simp
  have o: "map sb_order (sr_blocks r) = map fst (enumerate 1 ?bs)"
    and p: "map sb_photo (sr_blocks r) = map db_photo (map snd (enumerate 1 ?bs))"
    using l by (induction rule: list_all2_induct) (auto dest: blk)
  have "mset (map db_photo ?bs) = mset (map db_photo (dr_blocks d))" by (simp add: ordered_blocks_def)
  then have "distinct (map db_photo ?bs)" "set (map db_photo ?bs) = set (map db_photo (dr_blocks d))"
    using d(1) mset_eq_imp_distinct_iff mset_eq_setD by blast+
  moreover have "(\<exists>p. (sb_place b, p) \<in> set sel \<and> so_id p = sb_photo b) \<and> sb_place b \<in> set (map sp_id (sm_places m))"
    if "b \<in> set (sr_blocks r)" for b
  proof -
    from that obtain k where k: "k < length (sr_blocks r)" "sr_blocks r ! k = b" by (auto simp: in_set_conv_nth)
    obtain i c where e: "enumerate 1 ?bs ! k = (i, c)" by force
    from list_all2_nthD2[OF l k(1)] have "story_block_of m sel i c = Inr b" unfolding e k(2) by simp
    from blk[OF this] show ?thesis by blast
  qed
  ultimately show ?thesis using o p len d(2) v by (auto simp: map_snd_enumerate map_fst_enumerate)
qed

lemma unit_vectors_length: "unit_vectors E groups vs = Inr units \<Longrightarrow> length units = length groups"
  by (auto simp: unit_vectors_def mapE_Inr dest: list_all2_lengthD split: if_splits)

lemma select_stage_select:
  assumes "select_stage C opts groups s = (Inr sel, t)"
  shows "\<exists>units sims th. select_photos groups units sims (op_budget opts) th = Inr sel \<and>
    length units = length groups \<and> length sims = length groups"
  using assms unfolding select_stage_def bindS_Inr Let_def sem_Inr
  by (fastforce dest: unit_vectors_length simp: similarities_def)

lemma bindS_InrE:
  assumes "bindS m f s = (Inr y, u)"
  obtains x t where "m s = (Inr x, t)" "f x t = (Inr y, u)"
  using assms unfolding bindS_Inr by blast

lemma run_story_stages:
  assumes "run_story C opts r s = (Inr res, t)"
  shows "\<exists>m groups sel raw s1 t1 s2 t2. r = Some m \<and> story_request_ok m \<and>
    filter_candidates (sx_env C) (op_blur opts) (op_phash opts) (sm_places m) s1 = (Inr groups, t1) \<and>
    select_stage C opts groups s2 = (Inr sel, t2) \<and> finalize_story m sel raw = Inr res"
proof -
  from assms obtain m u where m: "validate_request r = Inr m" "r = Some m" "story_request_ok m"
    and run: "(if op_budget opts < length (sm_places m) then failS (PipelineFailure INVALID_REQUEST)
      else story_work C opts m) u = (Inr res, t)"
    unfolding run_story_def Let_def
    by (auto elim!: bindS_InrE simp: validate_request_def story_work_def Let_def split: option.splits if_splits)
  from run have "story_work C opts m u = (Inr res, t)" by (auto split: if_splits)
  then show ?thesis using m(2,3) unfolding story_work_def Let_def by (elim bindS_InrE) (simp, blast)
qed


section \<open>An example\<close>

text \<open>One place with two photos of one scene, on the first day of the trip; the vectors are equal, so
  the second photo repeats the first.\<close>

definition st_photo :: "int \<Rightarrow> story_photo" where
  "st_photo i = \<lparr>so_id = i, so_key = ''k'', so_taken = \<lparr>dt_local = i, dt_off = Some 0\<rparr>, so_eval = None\<rparr>"

definition st_request :: story_message where
  "st_request = \<lparr>sm_trip = 1, sm_exec = [49], sm_name = [65], sm_period = \<lparr>pd_start = 0, pd_end = 0\<rparr>,
     sm_mood = PLAIN, sm_places = [\<lparr>sp_id = 7, sp_name = [66], sp_photos = [st_photo 1, st_photo 2]\<rparr>]\<rparr>"

definition st_env :: "nat story_env" where
  "st_env = \<lparr>se_images = pe_env, se_norm = (\<lambda>_. 1), se_sd = (\<lambda>_. 0), se_cancelled = (\<lambda>_. False),
     se_reported = (\<lambda>_. True)\<rparr>"

definition st_draft :: json where
  "st_draft = JObj [(''story_summary'', JStr [65]), (''blocks'', JArr [JObj
     [(''trip_attachment_id'', JInt 1), (''detail_summary'', JStr [66]), (''memo'', JStr [67])]])]"

definition st_ctx :: "nat story_ctx" where
  "st_ctx = \<lparr>sx_env = st_env, sx_fetch = (\<lambda>ids. Inr (map (\<lambda>i. (i, [1])) ids)), sx_url = Inr,
     sx_chat = (\<lambda>_ _ _. Inr (Some st_draft))\<rparr>"

definition st_options :: story_options where
  "st_options = \<lparr>op_budget = 30, op_blur = 50, op_phash = 6, op_z = 0\<rparr>"

definition st_result :: story_result where
  "st_result = \<lparr>sr_summary = [65], sr_blocks = [\<lparr>sb_order = 1, sb_place = 7, sb_photo = 1,
     sb_label = [49, 51068, 52264, 44, 32, 66], sb_summary = [66], sb_memo = [67]\<rparr>]\<rparr>"

lemma st_valid: "story_request_ok st_request"
  by code_simp

lemma st_filter: "filter_candidates st_env 50 6 (sm_places st_request) \<lparr>st_polls = 1, st_reports = r\<rparr> =
  (Inr [(7, [st_photo 1, st_photo 2])], \<lparr>st_polls = 4, st_reports = r\<rparr>)"
  by code_simp

lemma day_label_trip:
  "pd_start pd \<le> kst_day t \<Longrightarrow> day_label pd t name =
     take 40 ((of_ascii (nat_str (nat (kst_day t - pd_start pd + 1))) @ [51068, 52264]) @ of_ascii '', '' @ name)"
  unfolding day_label_def Let_def by (subst if_not_P) (simp, rule refl)

lemma st_label: "day_label (sm_period st_request) \<lparr>dt_local = 1, dt_off = Some 0\<rparr> [66] = [49, 51068, 52264, 44, 32, 66]"
proof -
  have "kst_day \<lparr>dt_local = 1, dt_off = Some 0\<rparr> = 0" by (simp add: kst_day_def DAY_US_def instant_def)
  moreover have "of_ascii (nat_str (nat (0 - 0 + 1))) = [49]" "of_ascii '', '' = [44, 32]" by code_simp+
  ultimately show ?thesis
    using day_label_trip[of "sm_period st_request" "\<lparr>dt_local = 1, dt_off = Some 0\<rparr>" "[66]"]
    by (simp add: st_request_def)
qed

lemma st_block: "story_block_of st_request [(7, st_photo 1)] 1 \<lparr>db_photo = 1, db_summary = [66], db_memo = [67]\<rparr> =
    Inr (hd (sr_blocks st_result))"
  using st_label by (simp add: story_block_of_def st_photo_def st_result_def st_request_def)

lemma st_draft_of: "draft_of st_draft =
    Some \<lparr>dr_summary = [65], dr_blocks = [\<lparr>db_photo = 1, db_summary = [66], db_memo = [67]\<rparr>]\<rparr>"
  by code_simp

lemma st_finalize: "finalize_story st_request [(7, st_photo 1)] (Some st_draft) = Inr st_result"
proof -
  have "valid_story_result st_result" by (simp add: valid_story_result_def valid_story_block_def st_result_def)
  then show ?thesis using st_block
    by (simp add: finalize_story_def st_draft_of ordered_blocks_def st_photo_def st_request_def st_result_def)
qed

lemma st_select: "select_stage st_ctx st_options [(7, [st_photo 1, st_photo 2])] \<lparr>st_polls = 4, st_reports = r\<rparr> =
  (Inr [(7, st_photo 1)], \<lparr>st_polls = 5, st_reports = r\<rparr>)"
  by code_simp

lemma st_runs: "run_story st_ctx st_options (Some st_request) \<lparr>st_polls = 0, st_reports = []\<rparr> = (Inr st_result,
    \<lparr>st_polls = 10, st_reports = [(''SELECTING'', 0, 4), (''SELECTING'', 1, 4), (''WRITING'', 2, 4),
       (''VERIFYING'', 3, 4), (''VERIFYING'', 4, 4)]\<rparr>)"
proof -
  have b: "op_budget st_options = 30" "op_blur st_options = 50" "op_phash st_options = 6"
    "\<not> 30 < length (sm_places st_request)" by (simp_all add: st_options_def st_request_def)
  have v: "validate_request (Some st_request) = Inr st_request" using st_valid by (simp add: validate_request_def)
  have p: "story_poll st_env \<lparr>st_polls = n, st_reports = r\<rparr> = (Inr (), \<lparr>st_polls = n + 1, st_reports = r\<rparr>)"
    "story_report st_env k a c \<lparr>st_polls = n, st_reports = r\<rparr> = (Inr (), \<lparr>st_polls = n, st_reports = r @ [(k, a, c)]\<rparr>)"
    for n r k a c by (simp_all add: story_poll_def story_report_def st_env_def)
  have u: "resolve_urls st_ctx [(7, st_photo 1)] \<lparr>st_polls = n, st_reports = r\<rparr> =
      (Inr [''k''], \<lparr>st_polls = n + 1, st_reports = r\<rparr>)" for n r
    by (simp add: resolve_urls_def bindS_def p st_ctx_def served_by_def liftS_def retS_def st_photo_def)
  have c: "sx_env st_ctx = st_env" "served_by (sx_chat st_ctx m l us) t = (Inr (Some st_draft), t)" for m l us t
    by (simp_all add: st_ctx_def served_by_def liftS_def)
  show ?thesis
    by (simp add: run_story_def story_work_def Let_def bindS_def v b c p u st_select st_finalize st_filter[simplified] liftS_def retS_def)
qed

section \<open>Properties\<close>

lemma distinct_ids_place:
  assumes "distinct (sel_ids sel)" "(a, p) \<in> set sel" "(b, q) \<in> set sel" "so_id p = so_id q"
  shows "a = b \<and> p = q"
proof -
  have "inj_on (\<lambda>(pl, p). so_id p) (set sel)" using assms(1) by (simp add: sel_ids_def distinct_map)
  from inj_onD[OF this, of "(a, p)" "(b, q)"] assms(2-4) show ?thesis by simp
qed

lemma groups_of_request:
  assumes "list_all2 (\<lambda>pl (i, ps). i = sp_id pl \<and> ps \<noteq> [] \<and> subseq ps (by_time (sp_photos pl))) pls groups"
    "distinct (map so_id (concat (map sp_photos pls)))"
  shows "distinct (map so_id (concat (map snd groups)))" "fst ` set groups = sp_id ` set pls"
    "\<forall>(i, ps) \<in> set groups. ps \<noteq> [] \<and> (\<exists>pl \<in> set pls. i = sp_id pl \<and> set ps \<subseteq> set (sp_photos pl))"
proof -
  have sub: "set ps \<subseteq> set (sp_photos pl) \<and> (distinct (map so_id (sp_photos pl)) \<longrightarrow> distinct (map so_id ps))"
    if "subseq ps (by_time (sp_photos pl))" for ps pl
  proof -
    have e: "mset (map so_id (by_time (sp_photos pl))) = mset (map so_id (sp_photos pl))" by (simp add: by_time_def)
    have "set ps \<subseteq> set (by_time (sp_photos pl))" using that by (auto simp: subseq_conv_nths dest: in_set_nthsD)
    moreover have "set (by_time (sp_photos pl)) = set (sp_photos pl)" by (simp add: by_time_def)
    moreover have "distinct (map so_id (by_time (sp_photos pl))) \<Longrightarrow> distinct (map so_id ps)"
      using subseq_map[OF that, of so_id] by (auto simp: subseq_conv_nths)
    ultimately show ?thesis using mset_eq_imp_distinct_iff[OF e] by auto
  qed
  from assms have "distinct (map so_id (concat (map snd groups))) \<and> fst ` set groups = sp_id ` set pls \<and>
    set (concat (map snd groups)) \<subseteq> set (concat (map sp_photos pls)) \<and>
    (\<forall>(i, ps) \<in> set groups. ps \<noteq> [] \<and> (\<exists>pl \<in> set pls. i = sp_id pl \<and> set ps \<subseteq> set (sp_photos pl)))"
  proof (induction rule: list_all2_induct)
    case (Cons pl pls g groups)
    obtain i ps where g: "g = (i, ps)" by (cases g)
    from Cons.hyps(1) g have h: "i = sp_id pl" "ps \<noteq> []" "subseq ps (by_time (sp_photos pl))" by auto
    note sp = sub[OF h(3)]
    have IH: "distinct (map so_id (concat (map snd groups)))" "fst ` set groups = sp_id ` set pls"
      "set (concat (map snd groups)) \<subseteq> set (concat (map sp_photos pls))"
      "\<forall>(i, ps) \<in> set groups. ps \<noteq> [] \<and> (\<exists>pl \<in> set pls. i = sp_id pl \<and> set ps \<subseteq> set (sp_photos pl))"
      using Cons.IH Cons.prems by auto
    have "so_id ` set ps \<inter> so_id ` set (concat (map snd groups)) = {}"
    proof -
      have "so_id ` set (sp_photos pl) \<inter> so_id ` set (concat (map sp_photos pls)) = {}" using Cons.prems by auto
      with sp IH(3) show ?thesis by blast
    qed
    moreover have "distinct (map so_id ps)" using sp Cons.prems by simp
    ultimately have "distinct (map so_id (concat (map snd (g # groups))))" using IH(1) by (simp add: g)
    moreover have "set (concat (map snd (g # groups))) \<subseteq> set (concat (map sp_photos (pl # pls)))"
      using sp IH(3) by (auto simp: g)
    ultimately show ?case using IH(2,4) h(1,2) sp by (auto simp: g)
  qed simp
  then show "distinct (map so_id (concat (map snd groups)))" "fst ` set groups = sp_id ` set pls"
    "\<forall>(i, ps) \<in> set groups. ps \<noteq> [] \<and> (\<exists>pl \<in> set pls. i = sp_id pl \<and> set ps \<subseteq> set (sp_photos pl))"
    by blast+
qed

text \<open>C29. A story covers the trip: when the job succeeds, the request it worked on was well formed, and
  the blocks of the story are numbered 1, 2, ... in order, show no photo twice, belong to the places
  of the request, reach every one of these places, each with a photo that the request filed under
  that place, and are no more than the photo budget; the result satisfies its own schema.  Whatever
  the model wrote, and whatever the services answered.\<close>

theorem story_covers_every_place:
  assumes "run_story C opts r s = (Inr res, t)"
  shows "\<exists>m. r = Some m \<and> story_request_ok m \<and> valid_story_result res \<and>
    map sb_order (sr_blocks res) = [1..<length (sr_blocks res) + 1] \<and>
    distinct (map sb_photo (sr_blocks res)) \<and> length (sr_blocks res) \<le> op_budget opts \<and>
    sb_place ` set (sr_blocks res) = sp_id ` set (sm_places m) \<and>
    (\<forall>b \<in> set (sr_blocks res). \<exists>pl \<in> set (sm_places m).
       sp_id pl = sb_place b \<and> sb_photo b \<in> so_id ` set (sp_photos pl))"
proof -
  from run_story_stages[OF assms] obtain m groups sel raw s1 t1 s2 t2 where m: "r = Some m" "story_request_ok m"
    and f: "filter_candidates (sx_env C) (op_blur opts) (op_phash opts) (sm_places m) s1 = (Inr groups, t1)"
    and st: "select_stage C opts groups s2 = (Inr sel, t2)" and fin: "finalize_story m sel raw = Inr res" by blast
  have ids: "distinct (map so_id (concat (map sp_photos (sm_places m))))" using m(2) by (simp add: story_request_ok_def)
  note g = groups_of_request[OF filter_candidates_spec[OF f] ids]
  from select_stage_select[OF st] obtain units sims th where
    "select_photos groups units sims (op_budget opts) th = Inr sel" "length units = length groups" "length sims = length groups"
    by blast
  moreover have "\<forall>(pl, ps) \<in> set groups. ps \<noteq> []" using g(3) by auto
  ultimately have "length sel \<le> op_budget opts \<and> distinct (sel_ids sel) \<and> fst ` set sel = fst ` set groups \<and>
    (\<forall>(pl, p) \<in> set sel. \<exists>ps. (pl, ps) \<in> set groups \<and> p \<in> set ps)"
    using g(1) by (rule select_spec)
  then have sel: "length sel \<le> op_budget opts" "distinct (sel_ids sel)" "fst ` set sel = sp_id ` set (sm_places m)"
    "\<forall>(pl, p) \<in> set sel. \<exists>ps. (pl, ps) \<in> set groups \<and> p \<in> set ps" using g(2) by simp_all
  note F = finalize_spec[OF fin]
  have len: "length (sr_blocks res) = length sel"
    using F sel(2) by (metis distinct_card length_map sel_ids_def)
  have here: "\<exists>pl \<in> set (sm_places m). sp_id pl = sb_place b \<and> sb_photo b \<in> so_id ` set (sp_photos pl)"
    if "b \<in> set (sr_blocks res)" for b
  proof -
    from that F obtain p where p: "(sb_place b, p) \<in> set sel" "so_id p = sb_photo b" by blast
    from bspec[OF sel(4) p(1)] obtain ps where ps: "(sb_place b, ps) \<in> set groups" "p \<in> set ps" by auto
    from bspec[OF g(3) ps(1)] ps(2) obtain pl where "pl \<in> set (sm_places m)" "sb_place b = sp_id pl" "p \<in> set (sp_photos pl)"
      by auto
    with p(2) show ?thesis by (metis imageI)
  qed
  have "x \<in> sb_place ` set (sr_blocks res)" if "x \<in> fst ` set sel" for x
  proof -
    from that obtain p where p: "(x, p) \<in> set sel" by auto
    then have "(\<lambda>(pl, p). so_id p) (x, p) \<in> set (sel_ids sel)" unfolding sel_ids_def list.set_map by (rule imageI)
    then have "so_id p \<in> set (map sb_photo (sr_blocks res))" using F by (simp only: prod.case)
    then obtain b where b: "b \<in> set (sr_blocks res)" "sb_photo b = so_id p" unfolding list.set_map by (metis imageE)
    with F obtain q where q: "(sb_place b, q) \<in> set sel" "so_id q = sb_photo b" by blast
    from distinct_ids_place[OF sel(2) q(1) p] q(2) b show ?thesis by force
  qed
  then have "sb_place ` set (sr_blocks res) = sp_id ` set (sm_places m)" using F sel(3) by auto
  with F m here len sel(1) show ?thesis by simp
qed

theorem story_covers_every_place_witness:
  "run_story st_ctx st_options (Some st_request) \<lparr>st_polls = 0, st_reports = []\<rparr> = (Inr st_result,
     \<lparr>st_polls = 10, st_reports = [(''SELECTING'', 0, 4), (''SELECTING'', 1, 4), (''WRITING'', 2, 4),
       (''VERIFYING'', 3, 4), (''VERIFYING'', 4, 4)]\<rparr>) \<and>
   sb_place ` set (sr_blocks st_result) = sp_id ` set (sm_places st_request)"
  using story_covers_every_place[OF st_runs] st_runs by auto

text \<open>The photo budget is shared out exactly: when every place has a photo and the budget reaches one
  photo a place, every place gets at least one and no more than it has, and together they get the
  whole budget, or everything there is when that is less; in every other case the routine refuses.\<close>

theorem budget_shared_exactly:
  "case allocate counts budget of
     None \<Rightarrow> counts = [] \<or> 0 \<in> set counts \<or> budget < length counts
   | Some ns \<Rightarrow> length ns = length counts \<and> (\<forall>i. i < length counts \<longrightarrow> 1 \<le> ns ! i \<and> ns ! i \<le> counts ! i) \<and>
       sum_list ns = min budget (sum_list counts)"
proof (cases "allocate counts budget")
  case None
  have "(\<forall>c \<in> set counts. 1 \<le> c) \<longleftrightarrow> 0 \<notin> set counts" by (metis not_one_le_zero less_one not_le)
  then have "counts = [] \<or> 0 \<in> set counts \<or> budget < length counts"
    using allocate_Some[of counts budget] None by auto
  with None show ?thesis by simp
next
  case (Some ns)
  with allocate_spec[OF Some] show ?thesis by simp
qed

theorem budget_shared_exactly_witness:
  "allocate [5, 1, 3] 6 = Some [3, 1, 2] \<and> sum_list [3, 1, 2 :: nat] = min 6 (sum_list [5, 1, 3])"
proof -
  have a: "allocate [5, 1, 3] 6 = Some [3, 1, 2]" by code_simp
  with budget_shared_exactly[of "[5, 1, 3]" 6] show ?thesis by simp
qed

end
