(* ===== verification/SearchDates.thy ===== *)
theory SearchDates
  imports Calendar
begin

text \<open>
  \<open>src/app/search/dates.py\<close>: the model only classifies a relative date, the calendar is computed
  here.  A date is its ordinal; leaving the calendar raises in Python and gives \<open>None\<close> here, as
  \<open>resolve_relative_date\<close> does.
\<close>

datatype date_unit = U_none | U_day | U_week | U_weekday | U_month | U_year | U_season

datatype week_day = MON | TUE | WED | THU | FRI | SAT | SUN

datatype season = SPRING | SUMMER | FALL | WINTER

record relative_date =
  rd_unit :: date_unit
  rd_offset :: "int option"
  rd_weekday :: "week_day option"
  rd_season :: "season option"

fun weekday_index :: "week_day \<Rightarrow> int" where
  "weekday_index MON = 0"
| "weekday_index TUE = 1"
| "weekday_index WED = 2"
| "weekday_index THU = 3"
| "weekday_index FRI = 4"
| "weekday_index SAT = 5"
| "weekday_index SUN = 6"

fun season_start :: "season \<Rightarrow> int" where
  "season_start SPRING = 3"
| "season_start SUMMER = 6"
| "season_start FALL = 9"
| "season_start WINTER = 12"

text \<open>\<open>date(y, m, d)\<close> and adding days; both may leave the calendar.\<close>

definition mk_date :: "int \<Rightarrow> int \<Rightarrow> int \<Rightarrow> int option" where
  "mk_date y m d =
     (let c = \<lparr>cd_year = y, cd_month = nat m, cd_day = d\<rparr> in if valid_date c then Some (ordinal c) else None)"

definition add_days :: "int \<Rightarrow> int \<Rightarrow> int option" where
  "add_days n k = (if in_calendar (n + k) then Some (n + k) else None)"

definition both :: "int option \<Rightarrow> int option \<Rightarrow> (int \<times> int) option" where
  "both a b = (case (a, b) of (Some x, Some y) \<Rightarrow> Some (x, y) | _ \<Rightarrow> None)"

definition month_range :: "int \<Rightarrow> int \<Rightarrow> int \<Rightarrow> (int \<times> int) option" where
  "month_range year month months =
     (let s = year * 12 + month - 1; e = year * 12 + month - 1 + months - 1;
          end_month = e mod 12 + 1
      in both (mk_date (s div 12) (s mod 12 + 1) 1)
           (mk_date (e div 12) end_month (days_in_month (e div 12) end_month)))"

definition same_day :: "int option \<Rightarrow> (int \<times> int) option" where
  "same_day d = both d d"

definition resolve_relative_date :: "relative_date \<Rightarrow> int \<Rightarrow> (int \<times> int) option" where
  "resolve_relative_date e today =
     (case rd_unit e of
        U_none \<Rightarrow> None
      | U_day \<Rightarrow> (case rd_offset e of None \<Rightarrow> None | Some k \<Rightarrow> same_day (add_days today k))
      | U_week \<Rightarrow>
          (case rd_offset e of None \<Rightarrow> None
           | Some k \<Rightarrow>
               (case Option.bind (add_days today (- weekday today)) (\<lambda>m. add_days m (7 * k)) of
                  None \<Rightarrow> None
                | Some monday \<Rightarrow>
                    (case rd_weekday e of
                       None \<Rightarrow> both (Some monday) (add_days monday 6)
                     | Some w \<Rightarrow> same_day (add_days monday (weekday_index w)))))
      | U_weekday \<Rightarrow>
          (case rd_weekday e of None \<Rightarrow> None
           | Some w \<Rightarrow> same_day (add_days today (- ((weekday today - weekday_index w) mod 7))))
      | U_month \<Rightarrow>
          (case rd_offset e of None \<Rightarrow> None
           | Some k \<Rightarrow> let t = from_ordinal today in month_range (cd_year t) (int (cd_month t) + k) 1)
      | U_year \<Rightarrow>
          (case rd_offset e of None \<Rightarrow> None
           | Some k \<Rightarrow> let y = cd_year (from_ordinal today) + k in both (mk_date y 1 1) (mk_date y 12 31))
      | U_season \<Rightarrow>
          (case rd_season e of None \<Rightarrow> None
           | Some s \<Rightarrow>
               let y0 = cd_year (from_ordinal today)
               in month_range
                    (case rd_offset e of
                       Some k \<Rightarrow> y0 + k
                     | None \<Rightarrow> (case mk_date y0 (season_start s) 1 of
                         Some d \<Rightarrow> if d \<le> today then y0 else y0 - 1 | None \<Rightarrow> y0))
                    (season_start s) 3))"

section \<open>Months and years as intervals\<close>

definition month_index :: "cdate \<Rightarrow> int" where
  "month_index c = cd_year c * 12 + int (cd_month c) - 1"

text \<open>The first day of the month with a given index.\<close>

definition month_first :: "int \<Rightarrow> int" where
  "month_first k = first_of (k div 12) (nat (k mod 12 + 1))"

lemma month_first_next: "month_first (k + 1) = month_first k + days_in_month (k div 12) (k mod 12 + 1)"
proof -
  have n: "nat (k mod 12 + 1) \<ge> 1" "nat (k mod 12 + 1) \<le> 12" by (simp_all add: nat_le_iff Suc_le_eq)
  have e: "int (nat (k mod 12 + 1)) = k mod 12 + 1" by simp
  show ?thesis
  proof (cases "k mod 12 = 11")
    case True
    then have "k + 1 = 12 * (k div 12 + 1)" by (simp add: minus_mod_eq_mult_div[symmetric])
    then have "(k + 1) mod 12 = 0" "(k + 1) div 12 = k div 12 + 1" by (metis mod_mult_self1_is_0, metis nonzero_mult_div_cancel_left zero_neq_numeral)
    with True first_of_next[OF n, of "k div 12"] show ?thesis by (simp add: month_first_def)
  next
    case False
    define r where "r = k mod 12"
    have r: "0 \<le> r" "r < 11" using False pos_mod_bound[of 12 k] unfolding r_def by (simp, linarith)
    have "k + 1 = (r + 1) + 12 * (k div 12)" by (simp add: r_def)
    then have "(k + 1) mod 12 = (r + 1) mod 12" "(k + 1) div 12 = (r + 1) div 12 + k div 12"
      by (metis mod_mult_self2, metis div_mult_self2 zero_neq_numeral add.commute)
    with r have "(k + 1) mod 12 = k mod 12 + 1" "(k + 1) div 12 = k div 12" by (simp_all add: r_def)
    moreover have "nat (k mod 12 + 1) \<noteq> 12" using False by simp
    moreover have "nat (k mod 12 + 1 + 1) = nat (k mod 12 + 1) + 1" by (simp add: nat_add_distrib)
    ultimately show ?thesis using first_of_next[OF n, of "k div 12"] unfolding month_first_def e by simp
  qed
qed

lemma month_first_less: "j < k \<Longrightarrow> month_first j < month_first k"
proof (induction k rule: int_gr_induct)
  case base
  then show ?case using month_first_next[of j] days_in_month_bounds[of "j div 12" "j mod 12 + 1"] by simp
next
  case (step i)
  then show ?case using month_first_next[of i] days_in_month_bounds[of "i div 12" "i mod 12 + 1"] by simp
qed

lemma month_index_div:
  assumes "1 \<le> cd_month c" "cd_month c \<le> 12"
  shows "month_index c div 12 = cd_year c" "month_index c mod 12 = int (cd_month c) - 1"
proof -
  have e: "month_index c = int (cd_month c) - 1 + 12 * cd_year c" by (simp add: month_index_def)
  have "0 \<le> int (cd_month c) - 1" "int (cd_month c) - 1 < 12" using assms by simp_all
  then show "month_index c div 12 = cd_year c" "month_index c mod 12 = int (cd_month c) - 1"
    unfolding e by simp_all
qed

lemma month_of_date:
  assumes "valid_date c"
  shows "month_first (month_index c) + cd_day c - 1 = ordinal c"
    "month_first (month_index c) \<le> ordinal c" "ordinal c < month_first (month_index c + 1)"
proof -
  have v: "1 \<le> cd_month c" "cd_month c \<le> 12" "1 \<le> cd_day c" "cd_day c \<le> days_in_month (cd_year c) (int (cd_month c))"
    using assms by (simp_all add: valid_date_def)
  show "month_first (month_index c) + cd_day c - 1 = ordinal c"
    unfolding month_first_def month_index_div[OF v(1,2)] by (simp add: first_of_def ordinal_def)
  then show "month_first (month_index c) \<le> ordinal c" "ordinal c < month_first (month_index c + 1)"
    using v(3,4) unfolding month_first_next month_index_div[OF v(1,2)] by simp_all
qed

lemma valid_in_calendar:
  assumes "valid_date c" shows "in_calendar (ordinal c)"
proof -
  have v: "1 \<le> cd_year c" "cd_year c \<le> 9999" "1 \<le> cd_month c" "cd_month c \<le> 12" using assms by (simp_all add: valid_date_def)
  have "month_first (12 * 1) \<le> month_first (month_index c)"
    using v month_first_less[of 12 "month_index c"] by (cases "month_index c = 12") (simp_all add: month_index_def)
  moreover have "month_first (month_index c + 1) \<le> month_first (12 * 10000)"
    using v month_first_less[of "month_index c + 1" "120000"]
    by (cases "month_index c + 1 = 120000") (simp_all add: month_index_def)
  moreover have "month_first (12 * 1) = 1" "month_first (12 * 10000) = 3652060" by code_simp+
  ultimately show ?thesis using month_of_date[OF assms] by (simp add: in_calendar_def MAX_ORDINAL_def)
qed

text \<open>The days of a range of months are those whose date has its month in the range.\<close>

definition month_of :: "int \<Rightarrow> int" where
  "month_of n = month_index (from_ordinal n)"

definition year_of :: "int \<Rightarrow> int" where
  "year_of n = cd_year (from_ordinal n)"

lemma month_of_ge: "in_calendar n \<Longrightarrow> month_first k \<le> n \<longleftrightarrow> k \<le> month_of n"
proof -
  assume n: "in_calendar n"
  let ?c = "from_ordinal n"
  have c: "valid_date ?c" "ordinal ?c = n" using from_ordinal_correct[OF n] by simp_all
  note m = month_of_date(2,3)[OF c(1), unfolded c(2)]
  show ?thesis
  proof (cases "k \<le> month_of n")
    case True
    then have "month_first k \<le> month_first (month_index ?c)"
      using month_first_less[of k "month_index ?c"] by (cases "k = month_index ?c") (simp_all add: month_of_def)
    with m(1) True show ?thesis by simp
  next
    case False
    then have "month_first (month_index ?c + 1) \<le> month_first k"
      using month_first_less[of "month_index ?c + 1" k] by (cases "k = month_index ?c + 1") (simp_all add: month_of_def)
    with m(2) False show ?thesis by simp
  qed
qed

lemma year_of_month: "in_calendar n \<Longrightarrow> year_of n = month_of n div 12"
  using from_ordinal_correct[of n] month_index_div(1)[of "from_ordinal n"]
  by (simp add: year_of_def month_of_def valid_date_def)

lemma mk_date_Some:
  "mk_date y m d = Some n \<Longrightarrow> in_calendar n \<and> 1 \<le> m \<and> m \<le> 12 \<and> n = month_first (12 * y + m - 1) + d - 1 \<and> 1 \<le> y \<and> y \<le> 9999"
proof -
  let ?c = "\<lparr>cd_year = y, cd_month = nat m, cd_day = d\<rparr>"
  assume "mk_date y m d = Some n"
  then have c: "valid_date ?c" "ordinal ?c = n"
    by (auto simp: mk_date_def Let_def split: if_splits)
  have "1 \<le> nat m" "nat m \<le> 12" using c(1) by (simp_all add: valid_date_def)
  then have m: "1 \<le> m" "m \<le> 12" by linarith+
  moreover have "month_index ?c = 12 * y + m - 1" using m by (simp add: month_index_def)
  ultimately show ?thesis
    using month_of_date(1)[OF c(1)] valid_in_calendar[OF c(1)] c by (simp add: valid_date_def)
qed

lemma month_range_Some:
  assumes "month_range y m k = Some (a, b)" "1 \<le> k"
  shows "in_calendar a \<and> in_calendar b \<and> a \<le> b \<and>
    month_of a = 12 * y + m - 1 \<and> month_of b = 12 * y + m - 1 + k - 1 \<and>
    (\<forall>n. in_calendar n \<longrightarrow> (a \<le> n \<and> n \<le> b \<longleftrightarrow> 12 * y + m - 1 \<le> month_of n \<and> month_of n < 12 * y + m - 1 + k))"
proof -
  define s where "s = y * 12 + m - 1"
  define e where "e = s + k - 1"
  have A: "mk_date (s div 12) (s mod 12 + 1) 1 = Some a"
    and B: "mk_date (e div 12) (e mod 12 + 1) (days_in_month (e div 12) (e mod 12 + 1)) = Some b"
    using assms(1) by (auto simp: month_range_def both_def Let_def s_def e_def algebra_simps split: option.splits)
  have sd: "12 * (j div 12) + (j mod 12 + 1) - 1 = j" for j :: int by simp
  have a: "in_calendar a" "a = month_first s" using mk_date_Some[OF A, unfolded sd] by auto
  have b: "in_calendar b" "b = month_first (e + 1) - 1"
    using mk_date_Some[OF B, unfolded sd] month_first_next[of e] by auto
  have "month_first s < month_first (e + 1)" using assms(2) by (intro month_first_less) (simp add: e_def)
  moreover have "a \<le> n \<and> n \<le> b \<longleftrightarrow> s \<le> month_of n \<and> month_of n < s + k" if "in_calendar n" for n
    using month_of_ge[OF that, of s] month_of_ge[OF that, of "e + 1"] unfolding a(2) b(2) by (auto simp: e_def)
  moreover have "month_of a = s"
    using month_of_ge[OF a(1), of s] month_of_ge[OF a(1), of "s + 1"] month_first_less[of s "s + 1"] unfolding a(2) by simp
  moreover have "month_of b = e"
    using month_of_ge[OF b(1), of e] month_of_ge[OF b(1), of "e + 1"] month_first_less[of e "e + 1"] unfolding b(2) by simp
  ultimately show ?thesis using a b by (simp add: s_def e_def mult.commute)
qed

lemma month_of_range: "in_calendar n \<Longrightarrow> 12 \<le> month_of n \<and> month_of n < 120000"
  using from_ordinal_correct[of n] by (auto simp: month_of_def month_index_def valid_date_def)

lemma mk_date_exists:
  assumes "1 \<le> y" "y \<le> 9999" "1 \<le> m" "m \<le> 12" "1 \<le> d" "d \<le> days_in_month y m"
  shows "\<exists>n. mk_date y m d = Some n"
proof -
  have "1 \<le> nat m" "nat m \<le> 12" "int (nat m) = m" using assms(3,4) by linarith+
  with assms show ?thesis by (simp add: mk_date_def valid_date_def)
qed

lemma month_range_exists:
  assumes "12 \<le> 12 * y + m - 1" "12 * y + m - 1 + k - 1 < 120000" "1 \<le> k"
  shows "\<exists>p. month_range y m k = Some p"
proof -
  define s where "s = y * 12 + m - 1"
  define e where "e = s + k - 1"
  have r: "1 \<le> j div 12 \<and> j div 12 \<le> 9999 \<and> 1 \<le> j mod 12 + 1 \<and> j mod 12 + 1 \<le> 12" if "12 \<le> j" "j < 120000" for j :: int
    using that pos_mod_bound[of 12 j] by auto
  have j: "12 \<le> s" "s < 120000" "12 \<le> e" "e < 120000" using assms by (simp_all add: s_def e_def)
  have d: "1 \<le> days_in_month y' m'" for y' m' using days_in_month_bounds[of y' m'] by linarith
  obtain x where x: "mk_date (s div 12) (s mod 12 + 1) 1 = Some x"
    using mk_date_exists[of "s div 12" "s mod 12 + 1" 1] r[OF j(1,2)] d by blast
  obtain z where z: "mk_date (e div 12) (e mod 12 + 1) (days_in_month (e div 12) (e mod 12 + 1)) = Some z"
    using mk_date_exists[of "e div 12" "e mod 12 + 1" "days_in_month (e div 12) (e mod 12 + 1)"] r[OF j(3,4)] d by blast
  show ?thesis using x z by (simp add: month_range_def both_def Let_def s_def e_def)
qed


section \<open>Properties\<close>

definition week_of :: "int \<Rightarrow> int" where
  "week_of n = (n + 6) div 7"

text \<open>What the fields of an expression say of an interval.\<close>

definition means :: "relative_date \<Rightarrow> int \<Rightarrow> int \<Rightarrow> int \<Rightarrow> bool" where
  "means e today a b \<longleftrightarrow>
     (case rd_unit e of
        U_none \<Rightarrow> False
      | U_day \<Rightarrow> (\<exists>k. rd_offset e = Some k \<and> a = today + k \<and> b = a)
      | U_week \<Rightarrow> (\<exists>k. rd_offset e = Some k \<and> week_of a = week_of today + k \<and>
          (case rd_weekday e of None \<Rightarrow> weekday a = 0 \<and> b = a + 6 | Some w \<Rightarrow> weekday a = weekday_index w \<and> b = a))
      | U_weekday \<Rightarrow> (\<exists>w. rd_weekday e = Some w \<and> weekday a = weekday_index w \<and> b = a \<and> today - 7 < a \<and> a \<le> today)
      | U_month \<Rightarrow> (\<exists>k. rd_offset e = Some k \<and>
          (\<forall>n. in_calendar n \<longrightarrow> (a \<le> n \<and> n \<le> b \<longleftrightarrow> month_of n = month_of today + k)))
      | U_year \<Rightarrow> (\<exists>k. rd_offset e = Some k \<and>
          (\<forall>n. in_calendar n \<longrightarrow> (a \<le> n \<and> n \<le> b \<longleftrightarrow> year_of n = year_of today + k)))
      | U_season \<Rightarrow> (\<exists>s y. rd_season e = Some s \<and>
          month_of a = 12 * y + season_start s - 1 \<and> month_of b = 12 * y + season_start s + 1 \<and>
          (\<forall>n. in_calendar n \<longrightarrow> (a \<le> n \<and> n \<le> b \<longleftrightarrow>
             month_of n \<in> {12 * y + season_start s - 1 .. 12 * y + season_start s + 1})) \<and>
          (case rd_offset e of
             Some k \<Rightarrow> y = year_of today + k
           | None \<Rightarrow> 12 * y + season_start s - 1 \<le> month_of today \<and> month_of today < 12 * y + season_start s + 11)))"

lemma add_days_Some: "add_days n k = Some m \<longleftrightarrow> in_calendar m \<and> m = n + k"
  by (auto simp: add_days_def)

lemma both_Some: "both x y = Some (a, b) \<longleftrightarrow> x = Some a \<and> y = Some b"
  by (auto simp: both_def split: option.splits)

lemma weekday_index_range: "0 \<le> weekday_index w \<and> weekday_index w < 7"
  by (cases w) simp_all

lemma season_start_range: "3 \<le> season_start s \<and> season_start s \<le> 12"
  by (cases s) simp_all

lemma week_day_split:
  assumes "0 \<le> d" "d < 7"
  shows "weekday (7 * q - 6 + d) = d" "week_of (7 * q - 6 + d) = q"
  using assms by (simp_all add: weekday_def week_of_def)

lemma monday_of: "n - weekday n = 7 * week_of n - 6"
  unfolding weekday_def week_of_def using mult_div_mod_eq[of 7 "n + 6"] by linarith

lemma unit_day:
  assumes "rd_unit e = U_day" "resolve_relative_date e today = Some (a, b)"
  shows "in_calendar a \<and> in_calendar b \<and> a \<le> b \<and> means e today a b"
  using assms by (auto simp: resolve_relative_date_def means_def same_day_def both_Some add_days_Some split: option.splits)

lemma unit_week:
  assumes u: "rd_unit e = U_week" and r: "resolve_relative_date e today = Some (a, b)"
  shows "in_calendar a \<and> in_calendar b \<and> a \<le> b \<and> means e today a b"
proof -
  from r u obtain k monday where k: "rd_offset e = Some k"
    and mo: "Option.bind (add_days today (- weekday today)) (\<lambda>m. add_days m (7 * k)) = Some monday"
    by (auto simp: resolve_relative_date_def split: option.splits)
  then have m: "in_calendar monday" "monday = 7 * (week_of today + k) - 6"
    using monday_of[of today] by (auto simp: bind_eq_Some_conv add_days_Some)
  show ?thesis
  proof (cases "rd_weekday e")
    case None
    with r u k mo have "a = monday" "b = monday + 6" "in_calendar b"
      by (auto simp: resolve_relative_date_def both_Some add_days_Some)
    with None u k m week_day_split[of 0 "week_of today + k"] show ?thesis by (simp add: means_def)
  next
    case (Some w)
    with r u k mo have "a = monday + weekday_index w" "b = a" "in_calendar a"
      by (auto simp: resolve_relative_date_def same_day_def both_Some add_days_Some)
    with Some u k m week_day_split[of "weekday_index w" "week_of today + k"] weekday_index_range[of w]
    show ?thesis by (simp add: means_def)
  qed
qed

lemma latest_weekday:
  fixes today :: int and w :: week_day
  defines "d \<equiv> today - (weekday today - weekday_index w) mod 7"
  shows "weekday d = weekday_index w" "today - 7 < d" "d \<le> today"
proof -
  let ?m = "(weekday today - weekday_index w) mod 7"
  have "weekday d = (today + 6 - ?m) mod 7" by (simp add: weekday_def d_def algebra_simps)
  also have "\<dots> = ((today + 6) mod 7 - ?m) mod 7" by (simp add: mod_diff_left_eq)
  also have "\<dots> = (weekday today - (weekday today - weekday_index w)) mod 7"
    unfolding weekday_def by (rule mod_diff_right_eq)
  also have "\<dots> = weekday_index w" using weekday_index_range[of w] by simp
  finally show "weekday d = weekday_index w" .
  show "today - 7 < d" "d \<le> today" using pos_mod_bound[of 7 "weekday today - weekday_index w"] by (simp_all add: d_def)
qed

lemma unit_weekday:
  assumes u: "rd_unit e = U_weekday" and r: "resolve_relative_date e today = Some (a, b)"
  shows "in_calendar a \<and> in_calendar b \<and> a \<le> b \<and> means e today a b"
proof -
  from r u obtain w where w: "rd_weekday e = Some w"
    and a: "a = today - (weekday today - weekday_index w) mod 7" "b = a" "in_calendar a"
    by (auto simp: resolve_relative_date_def same_day_def both_Some add_days_Some split: option.splits)
  then show ?thesis using latest_weekday[where today = today and w = w] w u by (simp add: means_def)
qed

lemma month_of_year: "in_calendar n \<Longrightarrow> month_of n = 12 * year_of n + int (cd_month (from_ordinal n)) - 1"
  by (simp add: month_of_def year_of_def month_index_def)

lemma unit_month:
  assumes u: "rd_unit e = U_month" and r: "resolve_relative_date e today = Some (a, b)" and t: "in_calendar today"
  shows "in_calendar a \<and> in_calendar b \<and> a \<le> b \<and> means e today a b"
proof -
  from r u obtain k where k: "rd_offset e = Some k"
    and m: "month_range (year_of today) (int (cd_month (from_ordinal today)) + k) 1 = Some (a, b)"
    by (auto simp: resolve_relative_date_def year_of_def Let_def split: option.splits)
  have "12 * year_of today + (int (cd_month (from_ordinal today)) + k) - 1 = month_of today + k"
    using month_of_year[OF t] by simp
  from month_range_Some[OF m, unfolded this] k u show ?thesis by (auto simp: means_def)
qed

lemma december: "month_first (12 * y + 12) = month_first (12 * y + 11) + 31"
proof -
  have "(12 * y + 11) mod 12 = 11" by presburger
  then show ?thesis using month_first_next[of "12 * y + 11"] by (simp add: days_in_month_def add.assoc)
qed

lemma unit_year:
  assumes u: "rd_unit e = U_year" and r: "resolve_relative_date e today = Some (a, b)"
  shows "in_calendar a \<and> in_calendar b \<and> a \<le> b \<and> means e today a b"
proof -
  from r u obtain k where k: "rd_offset e = Some k"
    and m: "mk_date (year_of today + k) 1 1 = Some a" "mk_date (year_of today + k) 12 31 = Some b"
    by (auto simp: resolve_relative_date_def year_of_def Let_def both_Some split: option.splits)
  let ?y = "year_of today + k"
  have a: "in_calendar a" "a = month_first (12 * ?y)" using mk_date_Some[OF m(1)] by auto
  have b: "in_calendar b" "b = month_first (12 * ?y + 12) - 1"
  proof -
    have e: "12 * ?y + 12 - 1 = 12 * ?y + 11" by simp
    from mk_date_Some[OF m(2), unfolded e] have "in_calendar b" "b = month_first (12 * ?y + 11) + 31 - 1" by blast+
    then show "in_calendar b" "b = month_first (12 * ?y + 12) - 1" unfolding december[of ?y] by simp_all
  qed
  have "a \<le> n \<and> n \<le> b \<longleftrightarrow> year_of n = ?y" if "in_calendar n" for n
    using month_of_ge[OF that, of "12 * ?y"] month_of_ge[OF that, of "12 * ?y + 12"] year_of_month[OF that]
    unfolding a(2) b(2) by auto
  moreover have "month_first (12 * ?y) < month_first (12 * ?y + 12)" by (intro month_first_less) simp
  ultimately show ?thesis using a b k u by (simp add: means_def)
qed

lemma season_first:
  assumes "in_calendar today" obtains d where "mk_date (year_of today) (season_start s) 1 = Some d"
proof -
  have "valid_date (from_ordinal today)" using from_ordinal_correct[OF assms] by simp
  moreover have "1 \<le> days_in_month y m" for y m using days_in_month_bounds[of y m] by linarith
  ultimately have "\<exists>d. mk_date (year_of today) (season_start s) 1 = Some d"
    using season_start_range[of s] by (intro mk_date_exists) (simp_all add: valid_date_def year_of_def)
  then show thesis using that by blast
qed

lemma unit_season:
  assumes u: "rd_unit e = U_season" and r: "resolve_relative_date e today = Some (a, b)" and t: "in_calendar today"
  shows "in_calendar a \<and> in_calendar b \<and> a \<le> b \<and> means e today a b"
proof -
  from r u obtain s where s: "rd_season e = Some s" by (auto simp: resolve_relative_date_def split: option.splits)
  define y where "y = (case rd_offset e of Some k \<Rightarrow> year_of today + k
      | None \<Rightarrow> (case mk_date (year_of today) (season_start s) 1 of
          Some d \<Rightarrow> if d \<le> today then year_of today else year_of today - 1 | None \<Rightarrow> year_of today))"
  have m: "month_range y (season_start s) 3 = Some (a, b)"
    using r u s unfolding y_def resolve_relative_date_def year_of_def Let_def by simp
  note M = month_range_Some[OF m]
  have v: "valid_date (from_ordinal today)" using from_ordinal_correct[OF t] by simp
  obtain d where d: "mk_date (year_of today) (season_start s) 1 = Some d" by (rule season_first[OF t])
  have di: "d = month_first (12 * year_of today + season_start s - 1)" using mk_date_Some[OF d] by simp
  have latest: "12 * y + season_start s - 1 \<le> month_of today \<and> month_of today < 12 * y + season_start s + 11"
    if "rd_offset e = None"
    using that month_of_ge[OF t, of "12 * year_of today + season_start s - 1"] season_start_range[of s]
      month_of_year[OF t] v unfolding y_def di d by (auto simp: valid_date_def di)
  have "y = year_of today + k" if "rd_offset e = Some k" for k using that by (simp add: y_def)
  with M s u latest show ?thesis
    by (auto simp: means_def intro!: exI[of _ y] split: option.split)
qed

section \<open>Every interval that is meant is found\<close>

lemma days_agree:
  assumes "weekday a = weekday b" "week_of a = week_of b" shows "a = (b :: int)"
  using monday_of[of a] monday_of[of b] assms by simp

lemma weekday_window:
  assumes "weekday a = weekday b" "today - 7 < a" "a \<le> today" "today - 7 < b" "b \<le> today" shows "a = b"
proof -
  have "(a - b) mod 7 = 0" using assms(1) mod_diff_cong[of "a + 6" 7 "b + 6" "b + 6" "b + 6"] by (simp add: weekday_def)
  then obtain q where "a - b = 7 * q" by (metis mod_0_imp_dvd dvdE)
  then have "q < 1" "- 1 < q" "a - b = 7 * q" using assms(2-5) by linarith+
  then show ?thesis by simp
qed

text \<open>Two intervals of the calendar with the same days are one.\<close>

lemma intervals_agree:
  assumes "\<And>n. in_calendar n \<Longrightarrow> a \<le> n \<and> n \<le> b \<longleftrightarrow> P n" "\<And>n. in_calendar n \<Longrightarrow> a' \<le> n \<and> n \<le> b' \<longleftrightarrow> P n"
    "in_calendar a" "in_calendar b" "in_calendar a'" "in_calendar b'" "a \<le> b" "a' \<le> b'"
  shows "a = a' \<and> b = b'"
  using assms(1)[OF assms(3)] assms(1)[OF assms(4)] assms(1)[OF assms(5)] assms(1)[OF assms(6)]
    assms(2)[OF assms(3)] assms(2)[OF assms(4)] assms(2)[OF assms(5)] assms(2)[OF assms(6)] assms(7,8) by auto

definition fits :: "relative_date \<Rightarrow> int \<Rightarrow> int \<Rightarrow> int \<Rightarrow> bool" where
  "fits e today a b \<longleftrightarrow> in_calendar a \<and> in_calendar b \<and> a \<le> b \<and> means e today a b"

lemma fits_unique:
  assumes "fits e today a b" "fits e today a' b'"
  shows "a = a' \<and> b = b'"
proof (cases "rd_unit e")
  case U_week
  then show ?thesis using assms days_agree[of a a'] by (auto simp: fits_def means_def split: option.splits)
next
  case U_weekday
  then show ?thesis using assms weekday_window[of a a' today] by (auto simp: fits_def means_def)
next
  case U_month
  then show ?thesis
    using assms intervals_agree[of a b "\<lambda>n. month_of n = month_of today + the (rd_offset e)" a' b'] by (auto simp: fits_def means_def)
next
  case U_year
  then show ?thesis
    using assms intervals_agree[of a b "\<lambda>n. year_of n = year_of today + the (rd_offset e)" a' b'] by (auto simp: fits_def means_def)
next
  case U_season
  from assms(1) U_season obtain s y where y: "rd_season e = Some s"
    "\<And>n. in_calendar n \<Longrightarrow> a \<le> n \<and> n \<le> b \<longleftrightarrow> month_of n \<in> {12 * y + season_start s - 1 .. 12 * y + season_start s + 1}"
    "case rd_offset e of Some k \<Rightarrow> y = year_of today + k
       | None \<Rightarrow> 12 * y + season_start s - 1 \<le> month_of today \<and> month_of today < 12 * y + season_start s + 11"
    by (auto simp: fits_def means_def)
  from assms(2) U_season y(1) obtain y' where y': "\<And>n. in_calendar n \<Longrightarrow> a' \<le> n \<and> n \<le> b' \<longleftrightarrow>
      month_of n \<in> {12 * y' + season_start s - 1 .. 12 * y' + season_start s + 1}"
    "case rd_offset e of Some k \<Rightarrow> y' = year_of today + k
       | None \<Rightarrow> 12 * y' + season_start s - 1 \<le> month_of today \<and> month_of today < 12 * y' + season_start s + 11"
    by (auto simp: fits_def means_def)
  have "y = y'" using y(3) y'(2) by (auto split: option.splits)
  with y(2) y'(1) assms show ?thesis
    using intervals_agree[of a b "\<lambda>n. month_of n \<in> {12 * y + season_start s - 1 .. 12 * y + season_start s + 1}" a' b']
    by (simp add: fits_def)
qed (use assms in \<open>auto simp: fits_def means_def\<close>)

lemma monday_in_calendar: "in_calendar n \<Longrightarrow> in_calendar (7 * week_of n - 6)"
proof -
  assume n: "in_calendar n"
  then have "1 \<le> n" by (simp add: in_calendar_def)
  then have "1 \<le> week_of n" unfolding week_of_def by presburger
  moreover have "7 * week_of n - 6 \<le> n" using monday_of[of n] pos_mod_sign[of 7 "n + 6"] by (simp add: weekday_def)
  ultimately show ?thesis using n by (simp add: in_calendar_def)
qed

lemma meant_day: "rd_unit e = U_day \<Longrightarrow> fits e today a b \<Longrightarrow> \<exists>p. resolve_relative_date e today = Some p"
  by (auto simp: fits_def means_def resolve_relative_date_def same_day_def both_def add_days_def)

lemma meant_week:
  assumes u: "rd_unit e = U_week" and f: "fits e today a b" and t: "in_calendar today"
  shows "\<exists>p. resolve_relative_date e today = Some p"
proof -
  from f u obtain k where k: "rd_offset e = Some k" "week_of a = week_of today + k"
    and w: "case rd_weekday e of None \<Rightarrow> weekday a = 0 \<and> b = a + 6 | Some w \<Rightarrow> weekday a = weekday_index w \<and> b = a"
    and ab: "in_calendar a" "in_calendar b"
    by (auto simp: fits_def means_def)
  define monday where "monday = 7 * week_of a - 6"
  have a: "a = monday + weekday a" using monday_of[of a] by (simp add: monday_def)
  have "Option.bind (add_days today (- weekday today)) (\<lambda>m. add_days m (7 * k)) = Some monday"
    using monday_in_calendar[OF t] monday_in_calendar[OF ab(1)] monday_of[of today] k(2)
    by (simp add: bind_eq_Some_conv add_days_Some monday_def)
  then have r: "resolve_relative_date e today = (case rd_weekday e of
      None \<Rightarrow> both (Some monday) (add_days monday 6) | Some w \<Rightarrow> same_day (add_days monday (weekday_index w)))"
    using k(1) u by (simp add: resolve_relative_date_def)
  show ?thesis
  proof (cases "rd_weekday e")
    case None
    then have "in_calendar (monday + 6)" using w a ab(2) by simp
    with None show ?thesis unfolding r by (simp add: both_def add_days_def)
  next
    case (Some x)
    then have "in_calendar (monday + weekday_index x)" using w a ab(1) by simp
    with Some show ?thesis unfolding r by (simp add: same_day_def both_def add_days_def)
  qed
qed

lemma meant_weekday:
  assumes u: "rd_unit e = U_weekday" and f: "fits e today a b"
  shows "\<exists>p. resolve_relative_date e today = Some p"
proof -
  from f u obtain w where w: "rd_weekday e = Some w" "weekday a = weekday_index w" "today - 7 < a" "a \<le> today" "in_calendar a"
    by (auto simp: fits_def means_def)
  have "a = today - (weekday today - weekday_index w) mod 7"
    by (rule weekday_window[OF _ w(3,4) latest_weekday(2,3)]) (simp only: w(2) latest_weekday(1))
  then have "add_days today (- ((weekday today - weekday_index w) mod 7)) = Some a" using w(5) by (simp add: add_days_Some)
  with w(1) u show ?thesis by (simp only: resolve_relative_date_def same_day_def both_def date_unit.case option.case prod.case) simp
qed

lemma meant_month:
  assumes u: "rd_unit e = U_month" and f: "fits e today a b" and t: "in_calendar today"
  shows "\<exists>p. resolve_relative_date e today = Some p"
proof -
  from f u obtain k where k: "rd_offset e = Some k" "month_of a = month_of today + k" "in_calendar a"
    by (auto simp: fits_def means_def)
  have "12 * year_of today + (int (cd_month (from_ordinal today)) + k) - 1 = month_of a"
    using month_of_year[OF t] k(2) by simp
  then have "\<exists>p. month_range (year_of today) (int (cd_month (from_ordinal today)) + k) 1 = Some p"
    using month_of_range[OF k(3)] by (intro month_range_exists) simp_all
  with k u show ?thesis by (simp add: resolve_relative_date_def year_of_def Let_def)
qed

lemma meant_year:
  assumes u: "rd_unit e = U_year" and f: "fits e today a b"
  shows "\<exists>p. resolve_relative_date e today = Some p"
proof -
  from f u obtain k where k: "rd_offset e = Some k" "year_of a = year_of today + k" "in_calendar a"
    by (auto simp: fits_def means_def)
  have y: "1 \<le> year_of a" "year_of a \<le> 9999" using from_ordinal_correct[OF k(3)] by (simp_all add: year_of_def valid_date_def)
  have "days_in_month y 1 = 31" "days_in_month y 12 = 31" for y by (simp_all add: days_in_month_def)
  then obtain p q where "mk_date (year_of a) 1 1 = Some p" "mk_date (year_of a) 12 31 = Some q"
    using mk_date_exists[OF y, of 1 1] mk_date_exists[OF y, of 12 31] by auto
  with k u show ?thesis by (simp add: resolve_relative_date_def year_of_def Let_def both_def)
qed

lemma meant_season:
  assumes u: "rd_unit e = U_season" and f: "fits e today a b" and t: "in_calendar today"
  shows "\<exists>p. resolve_relative_date e today = Some p"
proof -
  from f u obtain s y where s: "rd_season e = Some s" and ab: "in_calendar a" "in_calendar b"
    and m: "month_of a = 12 * y + season_start s - 1" "month_of b = 12 * y + season_start s + 1"
    and y: "case rd_offset e of Some k \<Rightarrow> y = year_of today + k
       | None \<Rightarrow> 12 * y + season_start s - 1 \<le> month_of today \<and> month_of today < 12 * y + season_start s + 11"
    by (auto simp: fits_def means_def)
  have e: "\<exists>p. month_range y (season_start s) 3 = Some p"
    using month_of_range[OF ab(1)] month_of_range[OF ab(2)] m by (intro month_range_exists) simp_all
  have "(case rd_offset e of Some k \<Rightarrow> year_of today + k
      | None \<Rightarrow> (case mk_date (year_of today) (season_start s) 1 of
          Some d \<Rightarrow> if d \<le> today then year_of today else year_of today - 1 | None \<Rightarrow> year_of today)) = y"
  proof (cases "rd_offset e")
    case None
    obtain d where d: "mk_date (year_of today) (season_start s) 1 = Some d" by (rule season_first[OF t])
    have di: "d = month_first (12 * year_of today + season_start s - 1)" using mk_date_Some[OF d] by simp
    have "valid_date (from_ordinal today)" using from_ordinal_correct[OF t] by simp
    then have "0 \<le> month_of today - 12 * year_of today" "month_of today - 12 * year_of today < 12"
      using month_of_year[OF t] by (simp_all add: valid_date_def)
    with None y d month_of_ge[OF t, of "12 * year_of today + season_start s - 1"] season_start_range[of s]
    show ?thesis unfolding di by auto
  qed (use y in simp)
  with e s u show ?thesis unfolding resolve_relative_date_def year_of_def Let_def by simp
qed

text \<open>C33. A relative date means exactly what its fields say: it resolves to an interval when, and only when, the
  interval lies in the calendar, its first day is not after its last, and it is the one meant: a day is that
  many days away; a week starts on a Monday that many weeks away, or is the named day of that week; a weekday
  is the latest such day up to today; a month, a year and a season are exactly the days of the calendar whose
  date lies in that month, that year and those three months, all three in the calendar; a season without a year
  is the latest that has begun.  Leap years, the change of year and the ends of the calendar included: it is
  unresolved only when the calendar has no such interval.\<close>

theorem relative_dates_mean_what_they_say:
  assumes "in_calendar today"
  shows "resolve_relative_date e today = Some (a, b) \<longleftrightarrow>
    in_calendar a \<and> in_calendar b \<and> a \<le> b \<and> means e today a b"
proof -
  have forward: "fits e today x y" if "resolve_relative_date e today = Some (x, y)" for x y
    using that assms unit_day unit_week unit_weekday unit_month unit_year unit_season
    by (cases "rd_unit e") (auto simp: resolve_relative_date_def fits_def)
  have meant: "\<exists>p. resolve_relative_date e today = Some p" if f: "fits e today a b"
  proof (cases "rd_unit e")
    case U_none
    then show ?thesis using f by (simp add: fits_def means_def)
  next
    case U_day
    from meant_day[OF this f] show ?thesis .
  next
    case U_week
    from meant_week[OF this f assms] show ?thesis .
  next
    case U_weekday
    from meant_weekday[OF this f] show ?thesis .
  next
    case U_month
    from meant_month[OF this f assms] show ?thesis .
  next
    case U_year
    from meant_year[OF this f] show ?thesis .
  next
    case U_season
    from meant_season[OF this f assms] show ?thesis .
  qed
  have "resolve_relative_date e today = Some (a, b)" if f: "fits e today a b"
  proof -
    from meant[OF f] obtain x y where r: "resolve_relative_date e today = Some (x, y)" by auto
    with fits_unique[OF f forward[OF r]] show ?thesis by simp
  qed
  with forward have "resolve_relative_date e today = Some (a, b) \<longleftrightarrow> fits e today a b" by blast
  then show ?thesis unfolding fits_def .
qed

theorem relative_dates_mean_what_they_say_witness:
  "means \<lparr>rd_unit = U_season, rd_offset = None, rd_weekday = None, rd_season = Some WINTER\<rparr> 738885 738855 738945 \<and>
   iso_date 738885 = ''2023-12-31'' \<and> iso_date 738855 = ''2023-12-01'' \<and> iso_date 738945 = ''2024-02-29'' \<and>
   resolve_relative_date \<lparr>rd_unit = U_weekday, rd_offset = None, rd_weekday = Some THU, rd_season = None\<rparr> 3 = None \<and>
   \<not> means \<lparr>rd_unit = U_weekday, rd_offset = None, rd_weekday = Some THU, rd_season = None\<rparr> 3 1 1"
proof -
  let ?winter = "\<lparr>rd_unit = U_season, rd_offset = None, rd_weekday = None, rd_season = Some WINTER\<rparr>"
  let ?thursday = "\<lparr>rd_unit = U_weekday, rd_offset = None, rd_weekday = Some THU, rd_season = None\<rparr>"
  have r: "resolve_relative_date ?winter 738885 = Some (738855, 738945)" "resolve_relative_date ?thursday 3 = None" by code_simp+
  have "iso_date 738885 = ''2023-12-31''" "iso_date 738855 = ''2023-12-01''" "iso_date 738945 = ''2024-02-29''" by code_simp+
  moreover have "in_calendar 738885" "in_calendar 3" "in_calendar 1" by code_simp+
  ultimately show ?thesis
    using relative_dates_mean_what_they_say[of 738885 ?winter 738855 738945] relative_dates_mean_what_they_say[of 3 ?thursday 1 1] r
    by simp
qed

end
