(* ===== verification/SearchText.thy ===== *)
theory SearchText
  imports Photos PyText
begin

text \<open>
  \<open>src/app/search/times.py\<close> and \<open>search/regions.py\<close>: the words for a time of day in a question, and
  the names of regions of the catalogue.  Korean words are lists of code points; the catalogue
  (\<open>region_catalog.json\<close>) is an argument.
\<close>

section \<open>Times of day\<close>

definition HOUR_US :: int where
  "HOUR_US = 3600 * 1000000"

text \<open>Morning, forenoon, noon, afternoon, evening, night and dawn.\<close>

definition TIME_WINDOWS :: "(utext \<times> int \<times> int) list" where
  "TIME_WINDOWS =
    [([50500, 52840], (6 * HOUR_US, 11 * HOUR_US)), ([50724, 51204], (6 * HOUR_US, 12 * HOUR_US)),
     ([51216, 49900], (11 * HOUR_US, 14 * HOUR_US)),
     ([50724, 54980], (14 * HOUR_US, 18 * HOUR_US)),
     ([51200, 45377], (18 * HOUR_US, 22 * HOUR_US)), ([48164], (22 * HOUR_US, 6 * HOUR_US)),
     ([49352, 48317], (22 * HOUR_US, 6 * HOUR_US))]"

definition NOUN_SUFFIXES :: "utext list" where
  "NOUN_SUFFIXES =
    [[49884, 44036], [49885, 49324], [47924, 47157], [46412], [52196], [48165]]"

definition PARTICLES :: "utext list" where
  "PARTICLES =
    [[50640, 45716], [50640, 46020], [48512, 53552], [44620, 51648], [51060, 46993],
     [51060, 45208], [54616, 44256], [50640], [50644], [51032], [51008], [45716], [46020], [51060],
     [44032], [51012], [47484], [44284], [50752], [46993], [45208]]"

text \<open>The class of Hangul syllables, and the texts of which a text starts with one of some words: the
  rest after each, in the order the alternatives are tried; an optional group tries no word last.\<close>

definition hangul :: "nat \<Rightarrow> bool" where
  "hangul c \<longleftrightarrow> 44032 \<le> c \<and> c \<le> 55203"

definition after_one :: "utext list \<Rightarrow> utext \<Rightarrow> utext list" where
  "after_one ws u = map (\<lambda>w. drop (length w) u) (filter (\<lambda>w. ustarts w u) ws)"

definition after_opt :: "utext list \<Rightarrow> utext \<Rightarrow> utext list" where
  "after_opt ws u = after_one ws u @ [u]"

definition word_ends :: "utext \<Rightarrow> bool" where
  "word_ends u \<longleftrightarrow> (case u of [] \<Rightarrow> True | c # _ \<Rightarrow> \<not> hangul c)"

text \<open>\<open>_PATTERN\<close> at a position: the first way through the alternatives that ends before something other
  than a Hangul syllable, as the word and what follows the match.\<close>

definition match_paths :: "utext \<Rightarrow> (utext \<times> utext) list" where
  "match_paths u =
     concat (map (\<lambda>w. map (\<lambda>r. (w, r))
         (concat (map (after_opt PARTICLES) (after_opt NOUN_SUFFIXES (drop (length w) u)))))
       (filter (\<lambda>w. ustarts w u) (map fst TIME_WINDOWS)))"

definition match_here :: "utext \<Rightarrow> (utext \<times> utext) option" where
  "match_here u = (case filter (\<lambda>(w, r). word_ends r) (match_paths u) of [] \<Rightarrow> None | m # _ \<Rightarrow> Some m)"

lemma after_opt_length: "r \<in> set (after_opt ws u) \<Longrightarrow> length r \<le> length u"
  by (auto simp: after_opt_def after_one_def)

lemma match_here_spec:
  assumes "match_here u = Some (w, r)"
  shows "w \<in> set (map fst TIME_WINDOWS) \<and> length r < length u \<and> word_ends r \<and> ustarts w u"
proof -
  have "(w, r) \<in> set (filter (\<lambda>(w, r). word_ends r) (match_paths u))"
    using assms unfolding match_here_def by (cases "filter (\<lambda>(w, r). word_ends r) (match_paths u)") auto
  then have "(w, r) \<in> set (match_paths u)" and e: "word_ends r" by auto
  then obtain v where v: "w \<in> set (map fst TIME_WINDOWS)" "ustarts w u"
    "v \<in> set (after_opt NOUN_SUFFIXES (drop (length w) u))" "r \<in> set (after_opt PARTICLES v)"
    by (auto simp: match_paths_def)
  have "length r \<le> length u - length w"
    using after_opt_length[OF v(3)] after_opt_length[OF v(4)] by simp
  moreover have "0 < length w \<and> length w \<le> length u"
  proof -
    have "length (take (length w) u) = length w" using v(2) by (simp add: ustarts_def)
    then have "length w \<le> length u" by simp
    moreover have "\<forall>w \<in> set (map fst TIME_WINDOWS). 0 < length w" by (simp add: TIME_WINDOWS_def)
    ultimately show ?thesis using v(1) by blast
  qed
  ultimately show ?thesis using v e by linarith
qed

text \<open>\<open>finditer\<close> and \<open>sub\<close>: the words matched, and the text left, from a position whose previous character
  is given.  A match ends in a Hangul syllable.\<close>

function scan :: "nat option \<Rightarrow> utext \<Rightarrow> utext list \<times> utext" where
  "scan prev [] = ([], [])"
| "scan prev (c # u) =
     (case (if (case prev of None \<Rightarrow> True | Some p \<Rightarrow> \<not> hangul p) then match_here (c # u) else None) of
        Some (w, r) \<Rightarrow> (let (ws, t) = scan (Some ((c # u) ! (length u - length r))) r in (w # ws, t))
      | None \<Rightarrow> (let (ws, t) = scan (Some c) u in (ws, c # t)))"
  by pat_completeness auto
termination
  by (relation "measure (\<lambda>(p, u). length u)")
    (auto split: if_splits dest: match_here_spec)

definition time_words :: "utext \<Rightarrow> utext list" where
  "time_words query = dedup (fst (scan None query))"

definition strip_time_words :: "utext \<Rightarrow> utext" where
  "strip_time_words u = snd (scan None u)"

definition in_window :: "int \<times> int \<Rightarrow> int \<Rightarrow> bool" where
  "in_window w clock = (case w of (start, stop) \<Rightarrow>
     if start < stop then start \<le> clock \<and> clock < stop else start \<le> clock \<or> clock < stop)"

text \<open>\<open>astimezone\<close> to Korean time refuses times that leave the calendar; \<open>None\<close> is that
  \<open>OverflowError\<close>.\<close>

definition in_time_windows :: "dtime option \<Rightarrow> utext list \<Rightarrow> bool option" where
  "in_time_windows taken words =
     (case taken of None \<Rightarrow> Some False
      | Some d \<Rightarrow>
          let local = instant d + 9 * HOUR_US
          in if local < MIN_LOCAL \<or> MAX_LOCAL < local then None
             else Some (list_ex (\<lambda>w. case map_of TIME_WINDOWS w of
               Some win \<Rightarrow> in_window win (local mod DAY_US) | None \<Rightarrow> False) words))"

lemma scan_words: "set (fst (scan p u)) \<subseteq> set (map fst TIME_WINDOWS)"
proof (induction p u rule: scan.induct)
  case (2 p c u)
  let ?m = "if (case p of None \<Rightarrow> True | Some q \<Rightarrow> \<not> hangul q) then match_here (c # u) else None"
  show ?case
  proof (cases ?m)
    case None
    have "set (fst (scan (Some c) u)) \<subseteq> set (map fst TIME_WINDOWS)" by (rule 2(1)) (rule None)
    with None show ?thesis by (simp add: case_prod_beta' Let_def)
  next
    case (Some m)
    obtain w r where m: "m = (w, r)" by (cases m)
    then have "w \<in> set (map fst TIME_WINDOWS)" using Some match_here_spec[of "c # u" w r] by (auto split: if_splits)
    moreover have "set (fst (scan (Some ((c # u) ! (length u - length r))) r)) \<subseteq> set (map fst TIME_WINDOWS)"
      by (rule 2(2)) (use Some m in auto)
    ultimately show ?thesis using Some m by (simp add: case_prod_beta' Let_def)
  qed
qed simp

text \<open>A window that may pass midnight holds the times less than its length after its start.\<close>

lemma in_window_modular:
  assumes "0 \<le> start" "start < DAY_US" "0 \<le> stop" "stop < DAY_US" "start \<noteq> stop" "0 \<le> clock" "clock < DAY_US"
  shows "in_window (start, stop) clock \<longleftrightarrow> (clock - start) mod DAY_US < (stop - start) mod DAY_US"
proof -
  have m: "(x - start) mod DAY_US = (if start \<le> x then x - start else x - start + DAY_US)" if "0 \<le> x" "x < DAY_US" for x
  proof (cases "start \<le> x")
    case False
    have "(x - start) mod DAY_US = (x - start + DAY_US) mod DAY_US" by simp
    also have "\<dots> = x - start + DAY_US" using False that assms by (intro mod_pos_pos_trivial) auto
    finally show ?thesis using False by simp
  qed (use that assms in simp)
  show ?thesis unfolding m[OF assms(6,7)] m[OF assms(3,4)] in_window_def using assms by auto
qed

section \<open>Regions\<close>

definition ALIASES :: "(utext \<times> utext list) list" where
  "ALIASES =
    [([44221, 48513], [[44221, 49345, 48513, 46020]]),
     ([44221, 45224], [[44221, 49345, 45224, 46020]]),
     ([52649, 48513], [[52649, 52397, 48513, 46020]]),
     ([52649, 45224], [[52649, 52397, 45224, 46020]]),
     ([51204, 48513], [[51204, 48513, 53945, 48324, 51088, 52824, 46020]]),
     ([51204, 46972, 48513, 46020], [[51204, 48513, 53945, 48324, 51088, 52824, 46020]]),
     ([51204, 46972, 45224, 46020], [[51204, 45224, 44305, 51452, 53685, 54633, 53945, 48324, 49884]]),
     ([51204, 45224], [[51204, 45224, 44305, 51452, 53685, 54633, 53945, 48324, 49884]]),
     ([44305, 51452, 44305, 50669, 49884], [[51204, 45224, 44305, 51452, 53685, 54633, 53945, 48324, 49884]]),
     ([51204, 46972, 46020], [[51204, 48513, 53945, 48324, 51088, 52824, 46020], [51204, 45224, 44305, 51452, 53685, 54633, 53945, 48324, 49884]])]"

definition UNIT_SUFFIXES :: "utext list" where
  "UNIT_SUFFIXES = [[49884], [46020], [44400], [44396]]"

definition DISTRICTS :: "(utext \<times> utext list) list" where
  "DISTRICTS =
    [([49436, 50872, 53945, 48324, 49884],
       [[51333, 47196], [51473], [50857, 49328], [49457, 46041], [44305, 51652],
       [46041, 45824, 47928], [51473, 46993], [49457, 48513], [44053, 48513], [46020, 48393],
       [45432, 50896], [51008, 54217], [49436, 45824, 47928], [47560, 54252], [50577, 52380],
       [44053, 49436], [44396, 47196], [44552, 52380], [50689, 46321, 54252], [46041, 51089],
       [44288, 50501], [49436, 52488], [44053, 45224], [49569, 54028], [44053, 46041]]),
     ([48512, 49328, 44305, 50669, 49884],
       [[51473], [49436], [46041], [50689, 46020], [48512, 49328, 51652], [46041, 47000], [45224],
       [48513], [54644, 50868, 45824], [49324, 54616], [44552, 51221], [44053, 49436],
       [50672, 51228], [49688, 50689], [49324, 49345]]),
     ([45824, 44396, 44305, 50669, 49884],
       [[51473], [46041], [49436], [45224], [48513], [49688, 49457], [45804, 49436]]),
     ([51064, 52380, 44305, 50669, 49884],
       [[51473], [46041], [49436], [48120, 52628, 54848], [50672, 49688], [45224, 46041],
       [48512, 54217], [44228, 50577], [51228, 47932, 54252], [50689, 51333], [44160, 45800],
       [49436, 54644]]),
     ([51204, 45224, 44305, 51452, 53685, 54633, 53945, 48324, 49884],
       [[46041], [49436], [45224], [48513], [44305, 49328]]),
     ([45824, 51204, 44305, 50669, 49884],
       [[46041], [51473], [49436], [50976, 49457], [45824, 45909]]),
     ([50872, 49328, 44305, 50669, 49884],
       [[51473], [45224], [46041], [48513]])]"

definition DISTRICT_ONLY_WITH_SUFFIX :: "utext list" where
  "DISTRICT_ONLY_WITH_SUFFIX = [[49436, 54644], [49688, 50689]]"

text \<open>\<open>str.split(' ')\<close> and \<open>replace(' ', '')\<close>.\<close>

fun usplit :: "utext \<Rightarrow> utext list" where
  "usplit [] = [[]]"
| "usplit (c # u) = (if c = 32 then [] # usplit u else (c # hd (usplit u)) # tl (usplit u))"

definition no_blanks :: "utext \<Rightarrow> utext" where
  "no_blanks u = filter (\<lambda>c. c \<noteq> 32) u"

definition uends :: "utext \<Rightarrow> utext \<Rightarrow> bool" where
  "uends w u = ustarts (rev w) (rev u)"

text \<open>\<open>_districts()\<close> looked up: the cities that have a district of this name.\<close>

definition GU :: utext where
  "GU = [44396]"

definition district_cities :: "utext \<Rightarrow> utext list" where
  "district_cities key =
     concat (map (\<lambda>(city, bases). map (\<lambda>_. city) (filter (\<lambda>base. key = base @ GU \<or>
       length base \<ge> 2 \<and> base \<notin> set DISTRICT_ONLY_WITH_SUFFIX \<and> key = base) bases)) DISTRICTS)"

definition contains_key :: "utext \<Rightarrow> utext \<Rightarrow> bool" where
  "contains_key region key =
     (list_ex (ustarts key) (usplit region) \<or> uinfix key (last (usplit region)))"

definition region_matches :: "utext list \<Rightarrow> utext \<Rightarrow> utext list" where
  "region_matches catalog name =
     (let key = no_blanks name in
      case map_of ALIASES key of
        Some parents \<Rightarrow> filter (\<lambda>region. hd (usplit region) \<in> set parents) catalog
      | None \<Rightarrow>
          let exact = filter (\<lambda>region. key = no_blanks region \<or> key \<in> set (usplit region)) catalog
          in if exact \<noteq> [] then exact
             else
               let keys = filter (\<lambda>k. 2 \<le> length k)
                     (dedup [key, if list_ex (\<lambda>s. uends s key) UNIT_SUFFIXES then butlast key else key]);
                   found = filter (\<lambda>region. list_ex (contains_key region) keys) catalog
               in if found \<noteq> [] then found
                  else (case filter (\<lambda>cities. cities \<noteq> []) (map district_cities (key # keys)) of
                          [] \<Rightarrow> [] | cities # _ \<Rightarrow> filter (\<lambda>region. region \<in> set cities) catalog))"

definition region_parent :: "utext list \<Rightarrow> utext \<Rightarrow> utext option" where
  "region_parent catalog region =
     (let head = takeWhile (\<lambda>c. c \<noteq> 32) region; rest = drop (length head + 1) region
      in if rest \<noteq> [] \<and> head \<in> set catalog \<and> head \<noteq> [] then Some head else None)"

definition name_matches :: "utext list \<Rightarrow> utext \<Rightarrow> utext list" where
  "name_matches catalog name =
     (let found = region_matches catalog name
      in if found = [] \<and> 32 \<in> set (ustrip name) then concat (map (region_matches catalog) (uwords name)) else found)"

definition to_catalog_names :: "utext list \<Rightarrow> utext list \<Rightarrow> utext list option" where
  "to_catalog_names catalog names =
     (let matched = concat (map (name_matches catalog) names);
          parents = concat (map (\<lambda>r. case region_parent catalog r of Some p \<Rightarrow> [p] | None \<Rightarrow> []) matched);
          result = dedup (matched @ parents)
      in if result = [] then None else Some result)"

lemma region_matches_catalog: "set (region_matches catalog name) \<subseteq> set catalog"
  by (auto simp: region_matches_def Let_def split: option.splits list.splits)

lemma to_catalog_names_spec:
  assumes "to_catalog_names catalog names = Some rs"
  shows "rs \<noteq> [] \<and> distinct rs \<and> set rs \<subseteq> set catalog \<and>
    (\<forall>r \<in> set rs. \<forall>p. region_parent catalog r = Some p \<longrightarrow> p \<in> set rs)"
proof -
  let ?m = "concat (map (name_matches catalog) names)"
  let ?p = "concat (map (\<lambda>r. case region_parent catalog r of Some p \<Rightarrow> [p] | None \<Rightarrow> []) ?m)"
  have rs: "rs = dedup (?m @ ?p)" "rs \<noteq> []" using assms by (auto simp: to_catalog_names_def Let_def split: if_splits)
  have pc: "p \<in> set catalog \<and> region_parent catalog p = None" if "region_parent catalog r = Some p" for r p
  proof -
    from that have p: "p = takeWhile (\<lambda>c. c \<noteq> 32) r" "p \<in> set catalog"
      by (auto simp: region_parent_def Let_def split: if_splits)
    have "takeWhile (\<lambda>c. c \<noteq> 32) p = p" unfolding p(1) by (simp only: takeWhile_idem)
    then have "region_parent catalog p = None" unfolding region_parent_def Let_def by (simp only: length_drop) simp
    then show ?thesis using p(2) by simp
  qed
  have nm: "set (name_matches catalog name) \<subseteq> set catalog" for name
    using region_matches_catalog by (fastforce simp: name_matches_def Let_def split: if_splits)
  have "set rs = set ?m \<union> set ?p" using rs by simp
  moreover have "set ?m \<subseteq> set catalog" using nm by fastforce
  moreover have sp: "set ?p = {p. \<exists>r \<in> set ?m. region_parent catalog r = Some p}" by (force split: option.splits)
  ultimately show ?thesis using rs pc by (auto simp: distinct_dedup)
qed

end
