(* ===== verification/SearchRun.thy ===== *)
theory SearchRun
  imports SearchDates SearchText
begin

text \<open>
  \<open>src/app/schemas/query.py\<close>, \<open>search/prompts.py\<close>, \<open>search/context.py\<close>, \<open>search/pipeline.py\<close> and
  \<open>api/services/query_service.py\<close>: reading a question and finding the photos that answer it.  The
  services answer through \<open>query_env\<close>; a text of the model is the JSON value it parses to, an object
  having one entry for every key.  The conversions of pydantic from text to numbers and truth values,
  and the digits of its patterns, are fields of the environment.
\<close>

section \<open>Schemas\<close>

datatype intent = SEARCH | QUESTION

record parse_request =
  pq_query :: utext
  pq_today :: int

definition valid_query_text :: "utext \<Rightarrow> bool" where
  "valid_query_text u \<longleftrightarrow> 2 \<le> length u \<and> length u \<le> 100"

definition valid_parse_request :: "parse_request \<Rightarrow> bool" where
  "valid_parse_request r \<longleftrightarrow> valid_query_text (pq_query r) \<and> in_calendar (pq_today r)"

record parse_response =
  pr_intent :: intent
  pr_from :: "int option"
  pr_to :: "int option"
  pr_regions :: "utext list option"
  pr_visual :: "utext option"
  pr_parsed :: bool

definition ordered_dates :: "parse_response \<Rightarrow> bool" where
  "ordered_dates r = (case (pr_from r, pr_to r) of (Some a, Some b) \<Rightarrow> a \<le> b | _ \<Rightarrow> True)"

record search_candidate =
  sc_id :: int
  sc_key :: string
  sc_taken :: "dtime option"
  sc_place :: "utext option"
  sc_trip :: "utext option"

record search_request =
  sq_query :: utext
  sq_intent :: intent
  sq_visual :: "utext option"
  sq_candidates :: "search_candidate list"
  sq_limit :: nat

definition valid_candidate :: "search_candidate \<Rightarrow> bool" where
  "valid_candidate c \<longleftrightarrow> 0 < sc_id c \<and> sc_key c \<noteq> [] \<and> (case sc_taken c of None \<Rightarrow> True | Some d \<Rightarrow> dt_off d \<noteq> None)"

definition valid_search_request :: "search_request \<Rightarrow> bool" where
  "valid_search_request r \<longleftrightarrow> valid_query_text (sq_query r) \<and> list_all valid_candidate (sq_candidates r) \<and>
     1 \<le> sq_limit r \<and> sq_limit r \<le> 50 \<and> distinct (map sc_id (sq_candidates r))"

record search_hit =
  hit_id :: int
  hit_score :: rat

datatype answer_error = A_VLM_UNAVAILABLE | A_TIMEOUT | A_NO_EVIDENCE

record search_response =
  sr_hits :: "search_hit list"
  sr_answer :: "utext option"
  sr_error :: "answer_error option"

definition consistent_answer :: "search_response \<Rightarrow> bool" where
  "consistent_answer r \<longleftrightarrow> (case sr_answer r of None \<Rightarrow> True | Some a \<Rightarrow> ustrip a \<noteq> [] \<and> sr_error r = None)"

definition MAX_EVIDENCE_IMAGES :: nat where
  "MAX_EVIDENCE_IMAGES = 5"

record search_options =
  so_question_k :: nat
  so_min_score :: rat
  so_ratio :: rat
  so_timeouts :: "rat list"

definition valid_search_options :: "search_options \<Rightarrow> bool" where
  "valid_search_options opts \<longleftrightarrow> 1 \<le> so_question_k opts \<and> so_question_k opts \<le> MAX_EVIDENCE_IMAGES \<and>
     0 \<le> so_min_score opts \<and> so_min_score opts \<le> 1 \<and> 0 < so_ratio opts \<and> so_ratio opts \<le> 1 \<and>
     \<not> list_ex (\<lambda>v. v \<le> 0) (so_timeouts opts)"

section \<open>Services\<close>

text \<open>What a call may raise: the time limit of its block, that of the whole request, the exceptions of
  the clients, an error of the API, anything else; or the request is cancelled.\<close>

datatype query_fault =
  Q_timeout | Q_request_timeout | Q_vlm | Q_model | Q_invalid | Q_app app_error | Q_other | Q_cancelled

record query_env =
  qe_catalog :: "utext list"
  qe_digit :: "nat \<Rightarrow> bool"
  qe_int :: "utext \<Rightarrow> int option"
  qe_bool :: "utext \<Rightarrow> bool option"
  qe_parse :: "utext \<Rightarrow> int \<Rightarrow> query_fault + json option"
  qe_encode :: "utext \<Rightarrow> query_fault + vec"
  qe_search :: "vec \<Rightarrow> int list \<Rightarrow> nat \<Rightarrow> query_fault + search_hit list"
  qe_resolve :: "string \<Rightarrow> query_fault + string"
  qe_answer :: "utext \<Rightarrow> (search_candidate \<times> string) list \<Rightarrow> query_fault + json option"

section \<open>What the model wrote\<close>

definition lax_int :: "query_env \<Rightarrow> json \<Rightarrow> int option" where
  "lax_int E j = (case j of JInt i \<Rightarrow> Some i | JBool b \<Rightarrow> Some (of_bool b)
     | JNum r \<Rightarrow> if r = of_int \<lfloor>r\<rfloor> then Some \<lfloor>r\<rfloor> else None | JStr u \<Rightarrow> qe_int E u | _ \<Rightarrow> None)"

definition lax_bool :: "query_env \<Rightarrow> json \<Rightarrow> bool option" where
  "lax_bool E j = (case j of JBool b \<Rightarrow> Some b
     | JInt i \<Rightarrow> if i = 0 then Some False else if i = 1 then Some True else None
     | JNum r \<Rightarrow> if r = 0 then Some False else if r = 1 then Some True else None
     | JStr u \<Rightarrow> qe_bool E u | _ \<Rightarrow> None)"

definition json_text :: "json \<Rightarrow> utext option" where
  "json_text j = (case j of JStr u \<Rightarrow> Some u | _ \<Rightarrow> None)"

definition literal :: "(string \<times> 'a) list \<Rightarrow> json \<Rightarrow> 'a option" where
  "literal vs j = (case j of JStr u \<Rightarrow> map_of (map (\<lambda>(s, v). (of_ascii s, v)) vs) u | _ \<Rightarrow> None)"

text \<open>A required field, and one that may be null.\<close>

definition field :: "(json \<Rightarrow> 'a option) \<Rightarrow> json option \<Rightarrow> 'a option" where
  "field f v = Option.bind v f"

definition nullable :: "(json \<Rightarrow> 'a option) \<Rightarrow> json \<Rightarrow> 'a option option" where
  "nullable f j = (case j of JNull \<Rightarrow> Some None | _ \<Rightarrow> map_option Some (f j))"

fun all_texts :: "json list \<Rightarrow> utext list option" where
  "all_texts [] = Some []"
| "all_texts (j # js) = (case (j, all_texts js) of (JStr u, Some us) \<Rightarrow> Some (u # us) | _ \<Rightarrow> None)"

definition text_list :: "json \<Rightarrow> utext list option" where
  "text_list j = (case j of JArr js \<Rightarrow> all_texts js | _ \<Rightarrow> None)"

definition date_text :: "query_env \<Rightarrow> json \<Rightarrow> utext option" where
  "date_text E j =
     (case j of JStr u \<Rightarrow>
        if length u = 10 \<and> u ! 4 = 45 \<and> u ! 7 = 45 \<and>
           list_all (\<lambda>i. qe_digit E (u ! i)) [0, 1, 2, 3, 5, 6, 8, 9] then Some u else None
      | _ \<Rightarrow> None)"

definition units :: "(string \<times> date_unit) list" where
  "units = [(''none'', U_none), (''day'', U_day), (''week'', U_week), (''weekday'', U_weekday),
     (''month'', U_month), (''year'', U_year), (''season'', U_season)]"

definition weekdays :: "(string \<times> week_day) list" where
  "weekdays = [(''MON'', MON), (''TUE'', TUE), (''WED'', WED), (''THU'', THU), (''FRI'', FRI), (''SAT'', SAT), (''SUN'', SUN)]"

definition seasons :: "(string \<times> season) list" where
  "seasons = [(''SPRING'', SPRING), (''SUMMER'', SUMMER), (''FALL'', FALL), (''WINTER'', WINTER)]"

definition relative_date_of :: "query_env \<Rightarrow> json \<Rightarrow> relative_date option" where
  "relative_date_of E j =
     (case j of
        JObj kvs \<Rightarrow>
          if set (map fst kvs) \<noteq> {''unit'', ''offset'', ''weekday'', ''season''} then None
          else (case (field (literal units) (map_of kvs ''unit''), field (nullable (lax_int E)) (map_of kvs ''offset''),
                      field (nullable (literal weekdays)) (map_of kvs ''weekday''),
                      field (nullable (literal seasons)) (map_of kvs ''season'')) of
                  (Some u, Some k, Some w, Some s) \<Rightarrow>
                    Some \<lparr>rd_unit = u, rd_offset = k, rd_weekday = w, rd_season = s\<rparr>
                | _ \<Rightarrow> None)
      | _ \<Rightarrow> None)"

record parse_output =
  po_intent :: intent
  po_from :: "utext option"
  po_to :: "utext option"
  po_relative :: relative_date
  po_regions :: "utext list option"
  po_visual :: "utext option"

definition parse_output_of :: "query_env \<Rightarrow> json \<Rightarrow> parse_output option" where
  "parse_output_of E j =
     (case j of
        JObj kvs \<Rightarrow>
          if set (map fst kvs) \<noteq> {''intent'', ''date_from'', ''date_to'', ''relative_date'', ''region_names'', ''visual_query''}
          then None
          else (case (field (literal [(''SEARCH'', SEARCH), (''QUESTION'', QUESTION)]) (map_of kvs ''intent''),
                      field (nullable (date_text E)) (map_of kvs ''date_from''),
                      field (nullable (date_text E)) (map_of kvs ''date_to''),
                      field (relative_date_of E) (map_of kvs ''relative_date''),
                      field (nullable text_list) (map_of kvs ''region_names''),
                      field (nullable json_text) (map_of kvs ''visual_query'')) of
                  (Some i, Some a, Some b, Some r, Some n, Some v) \<Rightarrow>
                    Some \<lparr>po_intent = i, po_from = a, po_to = b, po_relative = r, po_regions = n, po_visual = v\<rparr>
                | _ \<Rightarrow> None)
      | _ \<Rightarrow> None)"

text \<open>\<open>date.fromisoformat\<close> of a text of the pattern.\<close>

definition number_of :: "utext \<Rightarrow> int" where
  "number_of u = fold (\<lambda>c n. 10 * n + (int c - 48)) u 0"

definition date_fromiso :: "utext \<Rightarrow> int option" where
  "date_fromiso u =
     (if list_all (\<lambda>i. udigit (u ! i)) [0, 1, 2, 3, 5, 6, 8, 9]
      then mk_date (number_of (take 4 u)) (number_of (take 2 (drop 5 u))) (number_of (take 2 (drop 8 u)))
      else None)"

definition written_date :: "utext option \<Rightarrow> int option option" where
  "written_date v = (case v of None \<Rightarrow> Some None
     | Some u \<Rightarrow> if u = [] then Some None else map_option Some (date_fromiso u))"

definition clip_dates :: "int option \<Rightarrow> int option \<Rightarrow> int \<Rightarrow> int option \<times> int option" where
  "clip_dates start stop today =
     (let stop' = map_option (\<lambda>e. min e today) stop
      in case start of
           Some s \<Rightarrow> if s > (case stop' of Some e \<Rightarrow> e | None \<Rightarrow> today) then (None, None) else (Some s, stop')
         | None \<Rightarrow> (None, stop'))"

definition date_range :: "parse_output \<Rightarrow> int \<Rightarrow> int option \<times> int option" where
  "date_range out today =
     (if rd_unit (po_relative out) \<noteq> U_none
      then (case resolve_relative_date (po_relative out) today of
              None \<Rightarrow> (None, None) | Some (s, e) \<Rightarrow> clip_dates (Some s) (Some e) today)
      else (case (written_date (po_from out), written_date (po_to out)) of
              (Some s, Some e) \<Rightarrow> clip_dates s e today | _ \<Rightarrow> (None, None)))"

definition or_empty :: "utext option \<Rightarrow> utext" where
  "or_empty v = (case v of Some u \<Rightarrow> u | None \<Rightarrow> [])"

definition read_query :: "query_env \<Rightarrow> json option \<Rightarrow> int \<Rightarrow> query_fault + parse_response" where
  "read_query E raw today =
     (case Option.bind raw (parse_output_of E) of
        None \<Rightarrow> Inl Q_invalid
      | Some out \<Rightarrow>
          let (a, b) = date_range out today;
              names = filter (\<lambda>u. u \<noteq> []) (map ustrip (case po_regions out of Some ns \<Rightarrow> ns | None \<Rightarrow> []));
              visual = ustrip (or_empty (po_visual out));
              r = \<lparr>pr_intent = po_intent out, pr_from = a, pr_to = b, pr_regions = to_catalog_names (qe_catalog E) names,
                   pr_visual = (if visual = [] then None else Some visual), pr_parsed = True\<rparr>
          in if ordered_dates r then Inr r else Inl Q_other)"

definition read_answer :: "query_env \<Rightarrow> json option \<Rightarrow> query_fault + utext option" where
  "read_answer E raw =
     (case raw of
        Some (JObj kvs) \<Rightarrow>
          if set (map fst kvs) \<noteq> {''answerable'', ''answer''} then Inl Q_invalid
          else (case (field (lax_bool E) (map_of kvs ''answerable''), field (nullable json_text) (map_of kvs ''answer'')) of
                  (Some ok, Some a) \<Rightarrow>
                    if \<not> ok then Inr None
                    else let t = ustrip (or_empty a) in if t = [] then Inl Q_invalid else Inr (Some t)
                | _ \<Rightarrow> Inl Q_invalid)
      | _ \<Rightarrow> Inl Q_invalid)"

end
