(* ===== verification/SearchFlow.thy ===== *)
theory SearchFlow
  imports SearchRun
begin

text \<open>
  \<open>src/app/search/pipeline.py\<close> and \<open>api/services/query_service.py\<close>: \<open>parse\<close>, \<open>search\<close> and the service
  around them.  The measurements and the log record of the service are not modelled, except the outcome
  it counts.
\<close>

section \<open>Pipeline\<close>

definition parse_fallback :: "parse_request \<Rightarrow> parse_response" where
  "parse_fallback r = \<lparr>pr_intent = SEARCH, pr_from = None, pr_to = None, pr_regions = None,
     pr_visual = Some (pq_query r), pr_parsed = False\<rparr>"

definition parse_query :: "query_env \<Rightarrow> parse_request \<Rightarrow> query_fault + parse_response" where
  "parse_query E r =
     (case bindE (qe_parse E (pq_query r) (pq_today r)) (\<lambda>raw. read_query E raw (pq_today r)) of
        Inl Q_vlm \<Rightarrow> Inr (parse_fallback r)
      | Inl Q_invalid \<Rightarrow> Inr (parse_fallback r)
      | Inl Q_timeout \<Rightarrow> Inr (parse_fallback r)
      | x \<Rightarrow> x)"

definition apply_cutoff :: "search_options \<Rightarrow> search_hit list \<Rightarrow> search_hit list" where
  "apply_cutoff opts ranked =
     (case ranked of [] \<Rightarrow> []
      | best # _ \<Rightarrow> filter (\<lambda>h. max (so_min_score opts) (hit_score best * so_ratio opts) \<le> hit_score h) ranked)"

definition has_visual_query :: "search_request \<Rightarrow> bool" where
  "has_visual_query r =
     (let v = ustrip (or_empty (sq_visual r))
      in if ustrip (strip_time_words v) = [] then False else v \<noteq> ustrip (sq_query r))"

text \<open>Only called on photos that have a time.\<close>

definition order_by_taken_at :: "search_candidate list \<Rightarrow> nat \<Rightarrow> search_hit list" where
  "order_by_taken_at cs limit =
     (let ordered = take limit (sort_key (\<lambda>c. (case sc_taken c of Some d \<Rightarrow> instant d | None \<Rightarrow> 0, sc_id c)) cs)
      in map (\<lambda>(rank, c). \<lparr>hit_id = sc_id c,
             hit_score = (of_nat (length ordered) - of_nat rank) / of_nat (length ordered)\<rparr>)
           (enumerate 0 ordered))"

definition hit_order :: "search_hit \<Rightarrow> rat \<times> int" where
  "hit_order h = (- hit_score h, hit_id h)"

text \<open>\<open>{hit.trip_attachment_id: hit for hit in reversed(ranked)}\<close>: the best hit of every photo.\<close>

definition best_hits :: "search_hit list \<Rightarrow> search_hit list" where
  "best_hits hits =
     sort_key hit_order (map snd (fold (\<lambda>h. dict_set (hit_id h) h) (rev (sort_key hit_order hits)) []))"

definition mk_response :: "search_hit list \<Rightarrow> utext option \<Rightarrow> answer_error option \<Rightarrow> query_fault + search_response" where
  "mk_response hits answer err =
     (let r = \<lparr>sr_hits = hits, sr_answer = answer, sr_error = err\<rparr>
      in if consistent_answer r then Inr r else Inl Q_other)"

definition in_time :: "utext list \<Rightarrow> search_candidate \<Rightarrow> query_fault + search_candidate list" where
  "in_time words c =
     (case in_time_windows (sc_taken c) words of
        None \<Rightarrow> Inl Q_other | Some b \<Rightarrow> Inr (if b then [c] else []))"

definition time_candidates :: "utext list \<Rightarrow> search_candidate list \<Rightarrow> query_fault + search_candidate list" where
  "time_candidates words cs =
     (if words = [] then Inr cs else bindE (mapE (in_time words) cs) (\<lambda>xs. Inr (concat xs)))"

definition write_answer :: "query_env \<Rightarrow> search_request \<Rightarrow> search_candidate list \<Rightarrow> search_hit list \<Rightarrow>
    query_fault + search_response" where
  "write_answer E r cs selected =
     (case bindE (mapE (\<lambda>h. case find (\<lambda>c. sc_id c = hit_id h) cs of
               None \<Rightarrow> Inl Q_other
             | Some c \<Rightarrow> bindE (qe_resolve E (sc_key c)) (\<lambda>url. Inr (c, url))) selected) (\<lambda>evidence.
           bindE (qe_answer E (sq_query r) evidence) (\<lambda>raw. read_answer E raw)) of
        Inr None \<Rightarrow> mk_response selected None (Some A_NO_EVIDENCE)
      | Inr (Some a) \<Rightarrow> mk_response selected (Some a) None
      | Inl Q_timeout \<Rightarrow> mk_response selected None (Some A_TIMEOUT)
      | Inl Q_vlm \<Rightarrow> mk_response selected None (Some A_VLM_UNAVAILABLE)
      | Inl Q_invalid \<Rightarrow> mk_response selected None (Some A_VLM_UNAVAILABLE)
      | Inl e \<Rightarrow> Inl e)"

definition hit_limit :: "search_options \<Rightarrow> search_request \<Rightarrow> nat" where
  "hit_limit opts r = (if sq_intent r = SEARCH then sq_limit r else so_question_k opts)"

definition candidate_dict :: "search_request \<Rightarrow> search_candidate list" where
  "candidate_dict r = map snd (fold (\<lambda>c. dict_set (sc_id c) c) (sq_candidates r) [])"

definition search_photos :: "query_env \<Rightarrow> search_options \<Rightarrow> search_request \<Rightarrow> query_fault + search_response" where
  "search_photos E opts r =
     (let words = time_words (sq_query r); limit = hit_limit opts r in
      bindE (time_candidates words (candidate_dict r)) (\<lambda>cs.
      if cs = [] then mk_response [] None (if sq_intent r = QUESTION then Some A_NO_EVIDENCE else None)
      else if words \<noteq> [] \<and> sq_intent r = SEARCH \<and> \<not> has_visual_query r
        then mk_response (order_by_taken_at cs limit) None None
      else
        bindE (qe_encode E (case sq_visual r of Some v \<Rightarrow> v | None \<Rightarrow> sq_query r)) (\<lambda>vector.
        bindE (qe_search E vector (map sc_id cs) limit) (\<lambda>hits.
        if list_ex (\<lambda>h. hit_id h \<notin> set (map sc_id cs)) hits then Inl Q_other
        else
          let selected = take limit (apply_cutoff opts (best_hits hits))
          in if sq_intent r = SEARCH then mk_response selected None None
             else if selected = [] then mk_response [] None (Some A_NO_EVIDENCE)
             else write_answer E r cs selected))))"

section \<open>Service\<close>

datatype query_error = QE_error app_error | QE_cancelled

fun query_error_of :: "query_fault \<Rightarrow> query_error" where
  "query_error_of Q_cancelled = QE_cancelled"
| "query_error_of (Q_app e) = QE_error e"
| "query_error_of Q_model = QE_error (mk_app_error MODEL_NOT_READY None None)"
| "query_error_of Q_timeout = QE_error (mk_app_error TIMEOUT None (Some 504))"
| "query_error_of Q_request_timeout = QE_error (mk_app_error TIMEOUT None (Some 504))"
| "query_error_of Q_vlm = QE_error (mk_app_error INTERNAL_ERROR None None)"
| "query_error_of Q_invalid = QE_error (mk_app_error INTERNAL_ERROR None None)"
| "query_error_of Q_other = QE_error (mk_app_error INTERNAL_ERROR None None)"

definition valid_search_result :: "search_options \<Rightarrow> search_request \<Rightarrow> search_response \<Rightarrow> bool" where
  "valid_search_result opts r resp \<longleftrightarrow>
     set (map hit_id (sr_hits resp)) \<subseteq> set (map sc_id (sq_candidates r)) \<and> distinct (map hit_id (sr_hits resp)) \<and>
     length (sr_hits resp) \<le> hit_limit opts r \<and>
     \<not> (sq_intent r = SEARCH \<and> (or_empty (sr_answer resp) \<noteq> [] \<or> sr_error resp \<noteq> None))"

definition serve :: "query_fault + 'a \<Rightarrow> query_error + 'a" where
  "serve x = (case x of Inr r \<Rightarrow> Inr r | Inl f \<Rightarrow> Inl (query_error_of f))"

definition service_parse :: "query_env \<Rightarrow> parse_request \<Rightarrow> query_error + parse_response" where
  "service_parse E r =
     serve (bindE (parse_query E r) (\<lambda>resp. if ordered_dates resp then Inr resp else Inl Q_other))"

definition service_search :: "query_env \<Rightarrow> search_options \<Rightarrow> search_request \<Rightarrow> query_error + search_response" where
  "service_search E opts r =
     serve (bindE (search_photos E opts r) (\<lambda>resp.
       if consistent_answer resp \<and> valid_search_result opts r resp then Inr resp else Inl Q_other))"

definition parse_outcome :: "query_error + parse_response \<Rightarrow> string" where
  "parse_outcome x = (case x of Inl _ \<Rightarrow> ''error'' | Inr r \<Rightarrow> if pr_parsed r then ''success'' else ''fallback'')"

definition search_outcome :: "query_error + search_response \<Rightarrow> string" where
  "search_outcome x = (case x of Inl _ \<Rightarrow> ''error'' | Inr r \<Rightarrow> if sr_error r = None then ''success'' else ''partial'')"

end
