(* ===== verification/SearchTheorems.thy ===== *)
theory SearchTheorems
  imports SearchFlow
begin

text \<open>
  What reading a question and searching the photos promise.
\<close>

section \<open>Reading a question\<close>

definition query_dates_ok :: "int \<Rightarrow> parse_response \<Rightarrow> bool" where
  "query_dates_ok today p \<longleftrightarrow> (\<forall>x. pr_from p = Some x \<longrightarrow> x \<le> today) \<and> (\<forall>y. pr_to p = Some y \<longrightarrow> y \<le> today) \<and>
     (\<forall>x y. pr_from p = Some x \<longrightarrow> pr_to p = Some y \<longrightarrow> x \<le> y)"

lemma date_range_ok:
  "date_range out today = (a, b) \<Longrightarrow>
   (\<forall>x. a = Some x \<longrightarrow> x \<le> today) \<and> (\<forall>y. b = Some y \<longrightarrow> y \<le> today) \<and> (\<forall>x y. a = Some x \<longrightarrow> b = Some y \<longrightarrow> x \<le> y)"
  by (auto simp: date_range_def clip_dates_def Let_def split: option.splits if_splits prod.splits)

lemma read_query_cases:
  "read_query E raw today = Inl Q_invalid \<or>
   (\<exists>p. read_query E raw today = Inr p \<and> pr_parsed p \<and> query_dates_ok today p \<and>
     (\<forall>rs. pr_regions p = Some rs \<longrightarrow> rs \<noteq> [] \<and> distinct rs \<and> set rs \<subseteq> set (qe_catalog E) \<and>
        (\<forall>r \<in> set rs. \<forall>q. region_parent (qe_catalog E) r = Some q \<longrightarrow> q \<in> set rs)) \<and>
     (\<forall>v. pr_visual p = Some v \<longrightarrow> v \<noteq> []))"
proof (cases "Option.bind raw (parse_output_of E)")
  case (Some out)
  obtain a b where ab: "date_range out today = (a, b)" by force
  define visual where "visual = ustrip (or_empty (po_visual out))"
  define p where "p = \<lparr>pr_intent = po_intent out, pr_from = a, pr_to = b,
      pr_regions = to_catalog_names (qe_catalog E)
        (filter (\<lambda>u. u \<noteq> []) (map ustrip (case po_regions out of Some ns \<Rightarrow> ns | None \<Rightarrow> []))),
      pr_visual = (if visual = [] then None else Some visual), pr_parsed = True\<rparr>"
  have d: "query_dates_ok today p" using date_range_ok[OF ab] by (simp add: query_dates_ok_def p_def)
  then have "ordered_dates p" by (auto simp: query_dates_ok_def ordered_dates_def split: option.split)
  then have "read_query E raw today = Inr p"
    unfolding read_query_def Some option.case ab prod.case Let_def visual_def[symmetric] p_def[symmetric] by simp
  moreover have "pr_parsed p" "\<forall>v. pr_visual p = Some v \<longrightarrow> v \<noteq> []" by (auto simp: p_def)
  moreover have "\<forall>rs. pr_regions p = Some rs \<longrightarrow> rs \<noteq> [] \<and> distinct rs \<and> set rs \<subseteq> set (qe_catalog E) \<and>
        (\<forall>r \<in> set rs. \<forall>q. region_parent (qe_catalog E) r = Some q \<longrightarrow> q \<in> set rs)"
    unfolding p_def by (simp only: parse_response.simps) (intro allI impI to_catalog_names_spec)
  ultimately show ?thesis using d by blast
qed (simp add: read_query_def)

text \<open>C32. A question is always read: unless the client of the model fails in an unforeseen way, parsing a
  question gives a response, whatever the model wrote.  Either the model's reading was taken, and then no
  date lies after today and the first is not after the last, the regions are names of the catalogue without
  repetition, together with the name of their parent region, and what is looked for in the photos is not
  empty; or it was not usable and the whole question is searched for.\<close>

theorem every_question_is_read:
  assumes "qe_parse E (pq_query r) (pq_today r) \<in> {Inl Q_timeout, Inl Q_vlm, Inl Q_invalid} \<union> range Inr"
  shows "\<exists>p. service_parse E r = Inr p \<and>
    (if pr_parsed p
     then query_dates_ok (pq_today r) p \<and>
       (\<forall>rs. pr_regions p = Some rs \<longrightarrow> rs \<noteq> [] \<and> distinct rs \<and> set rs \<subseteq> set (qe_catalog E) \<and>
          (\<forall>x \<in> set rs. \<forall>q. region_parent (qe_catalog E) x = Some q \<longrightarrow> q \<in> set rs)) \<and>
       (\<forall>v. pr_visual p = Some v \<longrightarrow> v \<noteq> [])
     else p = parse_fallback r)"
proof -
  have f: "service_parse E r = Inr (parse_fallback r)" if "parse_query E r = Inr (parse_fallback r)"
    using that by (simp add: service_parse_def serve_def ordered_dates_def parse_fallback_def)
  have nf: "\<not> pr_parsed (parse_fallback r)" by (simp add: parse_fallback_def)
  consider (fault) e where "qe_parse E (pq_query r) (pq_today r) = Inl e" "e \<in> {Q_timeout, Q_vlm, Q_invalid}"
    | (raw) raw where "qe_parse E (pq_query r) (pq_today r) = Inr raw"
    using assms by auto
  then show ?thesis
  proof cases
    case fault
    then have "parse_query E r = Inr (parse_fallback r)" by (auto simp: parse_query_def)
    with f nf show ?thesis by auto
  next
    case raw
    then have b: "bindE (qe_parse E (pq_query r) (pq_today r)) (\<lambda>raw. read_query E raw (pq_today r)) =
        read_query E raw (pq_today r)" by simp
    from read_query_cases[of E raw "pq_today r"] show ?thesis
    proof
      assume "read_query E raw (pq_today r) = Inl Q_invalid"
      then have "parse_query E r = Inr (parse_fallback r)" by (simp add: parse_query_def b)
      with f nf show ?thesis by auto
    next
      assume "\<exists>p. read_query E raw (pq_today r) = Inr p \<and> pr_parsed p \<and> query_dates_ok (pq_today r) p \<and>
        (\<forall>rs. pr_regions p = Some rs \<longrightarrow> rs \<noteq> [] \<and> distinct rs \<and> set rs \<subseteq> set (qe_catalog E) \<and>
          (\<forall>r \<in> set rs. \<forall>q. region_parent (qe_catalog E) r = Some q \<longrightarrow> q \<in> set rs)) \<and>
        (\<forall>v. pr_visual p = Some v \<longrightarrow> v \<noteq> [])"
      then obtain p where p: "read_query E raw (pq_today r) = Inr p" "pr_parsed p" "query_dates_ok (pq_today r) p"
        "\<forall>rs. pr_regions p = Some rs \<longrightarrow> rs \<noteq> [] \<and> distinct rs \<and> set rs \<subseteq> set (qe_catalog E) \<and>
          (\<forall>r \<in> set rs. \<forall>q. region_parent (qe_catalog E) r = Some q \<longrightarrow> q \<in> set rs)"
        "\<forall>v. pr_visual p = Some v \<longrightarrow> v \<noteq> []" by blast
      have "ordered_dates p" using p(3) by (auto simp: ordered_dates_def query_dates_ok_def split: option.split)
      then have "service_parse E r = Inr p" by (simp add: service_parse_def serve_def parse_query_def b p(1))
      with p show ?thesis by auto
    qed
  qed
qed

section \<open>Searching\<close>

definition keyed :: "('v \<Rightarrow> 'k) \<Rightarrow> ('k, 'v) pydict \<Rightarrow> bool" where
  "keyed key d \<longleftrightarrow> distinct (map fst d) \<and> (\<forall>(k, v) \<in> set d. key v = k)"

lemma dict_set_values: "set (dict_set k v d) \<subseteq> insert (k, v) (set d)"
  by (induction k v d rule: dict_set.induct) auto

lemma keyed_fold:
  "keyed key d \<Longrightarrow> keyed key (fold (\<lambda>x. dict_set (key x) x) xs d) \<and>
   snd ` set (fold (\<lambda>x. dict_set (key x) x) xs d) \<subseteq> set xs \<union> snd ` set d"
proof (induction xs arbitrary: d)
  case (Cons x xs)
  have "keyed key (dict_set (key x) x d)"
    using Cons.prems dict_set_values[of "key x" x d] by (auto simp: keyed_def intro: distinct_dict_set)
  note IH = Cons.IH[OF this]
  have "snd ` set (dict_set (key x) x d) \<subseteq> insert x (snd ` set d)" using dict_set_values[of "key x" x d] by force
  with IH show ?case by (simp, blast)
qed simp

lemma keyed_values: "keyed key d \<Longrightarrow> distinct (map key (map snd d))"
proof -
  assume k: "keyed key d"
  have e: "map key (map snd d) = map fst d" using k by (auto simp: keyed_def)
  show ?thesis unfolding e using k by (simp add: keyed_def)
qed

lemma best_hits_spec:
  "distinct (map hit_id (best_hits hits)) \<and> set (best_hits hits) \<subseteq> set hits \<and>
   sorted_wrt (\<lambda>x y. hit_score y \<le> hit_score x) (best_hits hits)"
proof -
  let ?d = "fold (\<lambda>h. dict_set (hit_id h) h) (rev (sort_key hit_order hits)) []"
  have k: "keyed hit_id ?d" "snd ` set ?d \<subseteq> set hits"
    using keyed_fold[of hit_id "[]" "rev (sort_key hit_order hits)"] by (simp_all add: keyed_def)
  have "mset (map hit_id (best_hits hits)) = mset (map hit_id (map snd ?d))"
    by (simp only: best_hits_def mset_map mset_sort)
  then have "distinct (map hit_id (best_hits hits))"
    using keyed_values[OF k(1)] mset_eq_imp_distinct_iff by blast
  moreover have "set (best_hits hits) \<subseteq> set hits" using k(2) by (simp add: best_hits_def)
  moreover have "sorted (map hit_order (best_hits hits))" by (simp add: best_hits_def)
  then have "sorted_wrt (\<lambda>x y. hit_order x \<le> hit_order y) (best_hits hits)" by (simp add: sorted_map)
  then have "sorted_wrt (\<lambda>x y. hit_score y \<le> hit_score x) (best_hits hits)"
    by (rule sorted_wrt_mono_rel[rotated]) (auto simp: hit_order_def less_eq_prod_def)
  ultimately show ?thesis by blast
qed

lemma candidate_dict_distinct:
  "distinct (map sc_id (sq_candidates r)) \<Longrightarrow> distinct (map sc_id (candidate_dict r)) \<and> set (candidate_dict r) \<subseteq> set (sq_candidates r)"
  using keyed_fold[of sc_id "[]" "sq_candidates r"] keyed_values[of sc_id "fold (\<lambda>c. dict_set (sc_id c) c) (sq_candidates r) []"]
  by (simp add: candidate_dict_def keyed_def)

lemma order_by_taken_at_spec:
  assumes "distinct (map sc_id cs)"
  shows "distinct (map hit_id (order_by_taken_at cs n)) \<and> hit_id ` set (order_by_taken_at cs n) \<subseteq> sc_id ` set cs \<and>
    length (order_by_taken_at cs n) \<le> n \<and> sorted_wrt (\<lambda>x y. hit_score y \<le> hit_score x) (order_by_taken_at cs n)"
proof -
  define f :: "search_candidate \<Rightarrow> int \<times> int" where "f c = (case sc_taken c of Some d \<Rightarrow> instant d | None \<Rightarrow> 0, sc_id c)" for c
  define ys where "ys = take n (sort_key f cs)"
  have o: "order_by_taken_at cs n = map (\<lambda>(rank, c). \<lparr>hit_id = sc_id c,
      hit_score = (of_nat (length ys) - of_nat rank) / of_nat (length ys)\<rparr>) (enumerate 0 ys)"
    by (simp add: order_by_taken_at_def Let_def ys_def f_def[abs_def])
  have "map hit_id (order_by_taken_at cs n) = map (\<lambda>x. sc_id (snd x)) (enumerate 0 ys)"
    unfolding o by (simp add: comp_def case_prod_beta')
  also have "\<dots> = map sc_id (map snd (enumerate 0 ys))" unfolding map_map comp_def ..
  finally have m: "map hit_id (order_by_taken_at cs n) = map sc_id ys" by (simp only: map_snd_enumerate)
  have "mset (map sc_id (sort_key f cs)) = mset (map sc_id cs)" by simp
  then have "distinct (map sc_id (sort_key f cs))" using assms mset_eq_imp_distinct_iff by blast
  then have d: "distinct (map sc_id ys)" by (simp add: ys_def take_map[symmetric] distinct_take)
  have s: "set ys \<subseteq> set cs" unfolding ys_def by (metis set_sort set_take_subset)
  have "sorted_wrt (\<lambda>x y. hit_score y \<le> hit_score x) (order_by_taken_at cs n)"
    unfolding sorted_wrt_iff_nth_less o
    by (auto simp: nth_enumerate_eq divide_right_mono)
  moreover have "length (order_by_taken_at cs n) \<le> n" unfolding o by (simp add: ys_def)
  moreover have "hit_id ` set (order_by_taken_at cs n) \<subseteq> sc_id ` set cs"
    using s m by (metis image_mono list.set_map)
  ultimately show ?thesis using d m by simp
qed

lemma in_time_filter:
  "mapE (in_time words) cs = Inr xs \<Longrightarrow>
   concat xs = filter (\<lambda>c. in_time_windows (sc_taken c) words = Some True) cs"
  by (induction cs arbitrary: xs) (auto simp: in_time_def bindE_Inr_conv split: option.splits if_splits)

lemma time_candidates_spec:
  assumes "time_candidates words cs = Inr cs'" "distinct (map sc_id cs)"
  shows "distinct (map sc_id cs') \<and> set cs' \<subseteq> set cs \<and>
    (words \<noteq> [] \<longrightarrow> (\<forall>c \<in> set cs'. in_time_windows (sc_taken c) words = Some True))"
proof (cases "words = []")
  case False
  then obtain xs where xs: "mapE (in_time words) cs = Inr xs" "cs' = concat xs"
    using assms(1) by (auto simp: time_candidates_def bindE_Inr_conv)
  show ?thesis using assms(2) False unfolding xs(2) in_time_filter[OF xs(1)] by (simp add: distinct_map_filter)
qed (use assms in \<open>simp add: time_candidates_def\<close>)

lemma mk_response_Inr:
  "mk_response hits a e = Inr resp \<longleftrightarrow> resp = \<lparr>sr_hits = hits, sr_answer = a, sr_error = e\<rparr> \<and> consistent_answer resp"
  by (auto simp: mk_response_def Let_def)

lemma write_answer_hits:
  "write_answer E r cs selected = Inr resp \<Longrightarrow> sr_hits resp = selected \<and> consistent_answer resp"
  unfolding write_answer_def by (auto simp: mk_response_Inr split: sum.splits option.splits query_fault.splits)

text \<open>Whenever a photo passes the cutoff the best one does, and it comes first in the answer.\<close>

definition above_cutoff :: "search_options \<Rightarrow> search_hit list \<Rightarrow> bool" where
  "above_cutoff opts hits \<longleftrightarrow>
     (\<forall>h \<in> set hits. max (so_min_score opts) (hit_score (hd hits) * so_ratio opts) \<le> hit_score h)"

lemma cutoff_subset: "set (take n (apply_cutoff opts hits)) \<subseteq> set hits"
  using set_take_subset[of n "apply_cutoff opts hits"] by (cases hits) (auto simp: apply_cutoff_def)

lemma cutoff_spec:
  assumes "sorted_wrt (\<lambda>x y. hit_score y \<le> hit_score x) hits"
  shows "above_cutoff opts (take n (apply_cutoff opts hits))"
  unfolding above_cutoff_def
proof
  fix h assume h: "h \<in> set (take n (apply_cutoff opts hits))"
  then have "h \<in> set (apply_cutoff opts hits)" by (rule in_set_takeD)
  then obtain b bs where hits: "hits = b # bs" and h_hits: "h \<in> set hits"
    and passes: "max (so_min_score opts) (hit_score b * so_ratio opts) \<le> hit_score h"
    by (cases hits) (auto simp: apply_cutoff_def split: if_splits)
  have "hit_score h \<le> hit_score b" using assms h_hits unfolding hits by auto
  with passes have "hd (apply_cutoff opts hits) = b" by (simp add: apply_cutoff_def hits)
  moreover have "n \<noteq> 0" using h by (cases n) auto
  ultimately have "hd (take n (apply_cutoff opts hits)) = b" by simp
  with passes show "max (so_min_score opts) (hit_score (hd (take n (apply_cutoff opts hits))) * so_ratio opts) \<le> hit_score h"
    by simp
qed

lemma cutoff_sublist:
  "distinct (map hit_id hits) \<and> sorted_wrt P hits \<Longrightarrow>
   distinct (map hit_id (take n (apply_cutoff opts hits))) \<and> sorted_wrt P (take n (apply_cutoff opts hits))"
proof -
  assume a: "distinct (map hit_id hits) \<and> sorted_wrt P hits"
  have "distinct (map hit_id (apply_cutoff opts hits)) \<and> sorted_wrt P (apply_cutoff opts hits)"
    using a by (auto simp: apply_cutoff_def distinct_map_filter sorted_wrt_filter split: list.split)
  then show ?thesis by (simp add: take_map[symmetric] sorted_wrt_take)
qed

text \<open>What the answers to a search satisfy.\<close>

definition search_ok :: "search_options \<Rightarrow> search_request \<Rightarrow> search_response \<Rightarrow> bool" where
  "search_ok opts r resp \<longleftrightarrow>
     valid_search_result opts r resp \<and> consistent_answer resp \<and>
     sorted_wrt (\<lambda>x y. hit_score y \<le> hit_score x) (sr_hits resp) \<and>
     (time_words (sq_query r) \<noteq> [] \<longrightarrow> (\<forall>h \<in> set (sr_hits resp). \<exists>c \<in> set (sq_candidates r).
        sc_id c = hit_id h \<and> in_time_windows (sc_taken c) (time_words (sq_query r)) = Some True)) \<and>
     (time_words (sq_query r) = [] \<or> sq_intent r = QUESTION \<or> has_visual_query r \<longrightarrow>
        above_cutoff opts (sr_hits resp)) \<and>
     (sr_answer resp \<noteq> None \<longrightarrow> sq_intent r = QUESTION \<and> sr_hits resp \<noteq> [])"

lemma search_photos_ok:
  assumes "distinct (map sc_id (sq_candidates r))" "search_photos E opts r = Inr resp"
  shows "search_ok opts r resp"
proof -
  define words where "words = time_words (sq_query r)"
  define n where "n = hit_limit opts r"
  from assms(2) obtain cs where cs: "time_candidates words (candidate_dict r) = Inr cs"
    and rest: "(if cs = [] then mk_response [] None (if sq_intent r = QUESTION then Some A_NO_EVIDENCE else None)
      else if words \<noteq> [] \<and> sq_intent r = SEARCH \<and> \<not> has_visual_query r
        then mk_response (order_by_taken_at cs n) None None
      else
        bindE (qe_encode E (case sq_visual r of Some v \<Rightarrow> v | None \<Rightarrow> sq_query r)) (\<lambda>vector.
        bindE (qe_search E vector (map sc_id cs) n) (\<lambda>hits.
        if list_ex (\<lambda>h. hit_id h \<notin> set (map sc_id cs)) hits then Inl Q_other
        else
          let selected = take n (apply_cutoff opts (best_hits hits))
          in if sq_intent r = SEARCH then mk_response selected None None
             else if selected = [] then mk_response [] None (Some A_NO_EVIDENCE)
             else write_answer E r cs selected))) = Inr resp"
    unfolding search_photos_def Let_def bindE_Inr_conv words_def n_def by blast
  note t = time_candidates_spec[OF cs] candidate_dict_distinct[OF assms(1)]
  have c: "distinct (map sc_id cs)" "set cs \<subseteq> set (sq_candidates r)"
    "words \<noteq> [] \<Longrightarrow> c \<in> set cs \<Longrightarrow> in_time_windows (sc_taken c) words = Some True" for c using t by auto
  have ok: "search_ok opts r resp"
    if "hit_id ` set (sr_hits resp) \<subseteq> sc_id ` set cs" "distinct (map hit_id (sr_hits resp))" "length (sr_hits resp) \<le> n"
      "sorted_wrt (\<lambda>x y. hit_score y \<le> hit_score x) (sr_hits resp)" "consistent_answer resp"
      "sq_intent r = SEARCH \<Longrightarrow> sr_answer resp = None \<and> sr_error resp = None"
      "sr_answer resp \<noteq> None \<Longrightarrow> sr_hits resp \<noteq> []"
      "words = [] \<or> sq_intent r = QUESTION \<or> has_visual_query r \<Longrightarrow> above_cutoff opts (sr_hits resp)"
  proof -
    have "\<exists>c \<in> set (sq_candidates r). sc_id c = hit_id h \<and> in_time_windows (sc_taken c) words = Some True"
      if "words \<noteq> []" "h \<in> set (sr_hits resp)" for h
    proof -
      have "hit_id h \<in> sc_id ` set cs" using that(2) \<open>hit_id ` set (sr_hits resp) \<subseteq> sc_id ` set cs\<close> by blast
      then obtain c0 where "c0 \<in> set cs" "sc_id c0 = hit_id h" by auto
      with c that(1) show ?thesis by blast
    qed
    moreover have "valid_search_result opts r resp"
      using that(1-3,6) c(2) by (auto simp: valid_search_result_def or_empty_def n_def)
    moreover have "sr_answer resp \<noteq> None \<Longrightarrow> sq_intent r = QUESTION" using that(6) by (cases "sq_intent r") auto
    ultimately show ?thesis using that(4,5,7,8) by (simp add: search_ok_def words_def)
  qed
  show ?thesis
  proof (cases "cs = []")
    case True
    with rest have r: "resp = \<lparr>sr_hits = [], sr_answer = None, sr_error = if sq_intent r = QUESTION then Some A_NO_EVIDENCE else None\<rparr>"
      by (simp add: mk_response_Inr)
    show ?thesis by (rule ok) (simp_all add: r consistent_answer_def above_cutoff_def)
  next
    case False
    show ?thesis
    proof (cases "words \<noteq> [] \<and> sq_intent r = SEARCH \<and> \<not> has_visual_query r")
      case True
      with rest False have r: "resp = \<lparr>sr_hits = order_by_taken_at cs n, sr_answer = None, sr_error = None\<rparr>"
        by (simp add: mk_response_Inr)
      show ?thesis
        by (rule ok) (use order_by_taken_at_spec[OF c(1), of n] True in \<open>simp_all add: r consistent_answer_def\<close>)
    next
      case no: False
      with rest False obtain hits where h: "\<not> list_ex (\<lambda>h. hit_id h \<notin> set (map sc_id cs)) hits"
        and s: "(let selected = take n (apply_cutoff opts (best_hits hits))
          in if sq_intent r = SEARCH then mk_response selected None None
             else if selected = [] then mk_response [] None (Some A_NO_EVIDENCE)
             else write_answer E r cs selected) = Inr resp"
        by (auto simp: bindE_Inr_conv split: if_splits)
      define sel where "sel = take n (apply_cutoff opts (best_hits hits))"
      have hs: "sr_hits resp = sel \<and> consistent_answer resp \<and> (sq_intent r = SEARCH \<longrightarrow> sr_answer resp = None \<and> sr_error resp = None) \<and>
          (sr_answer resp \<noteq> None \<longrightarrow> sel \<noteq> [])"
        using s write_answer_hits[of E r cs sel resp] unfolding Let_def sel_def[symmetric]
        by (auto simp: mk_response_Inr split: if_splits)
      have d: "distinct (map hit_id sel) \<and> sorted_wrt (\<lambda>x y. hit_score y \<le> hit_score x) sel"
        unfolding sel_def using best_hits_spec[of hits] by (intro cutoff_sublist) blast
      have m: "\<forall>h \<in> set sel. hit_id h \<in> sc_id ` set cs"
        using cutoff_subset[of n opts "best_hits hits"] best_hits_spec[of hits] h
        unfolding sel_def by (fastforce simp: list_ex_iff)
      have c: "above_cutoff opts sel" unfolding sel_def using best_hits_spec[of hits] by (intro cutoff_spec) blast
      show ?thesis by (rule ok) (use hs d m c in \<open>auto simp: sel_def\<close>)
    qed
  qed
qed

text \<open>C30. Every answer to a search meets the contract the service checks, so the check never turns an answer
  into an internal error: the photos are candidates of the request, none twice, no more than asked for, best
  first; a question with a word for a time of day only gets photos taken at that time; unless such a word is
  all that was asked, every photo reaches the cutoff, the larger of the lowest score allowed and the
  configured share of the best photo's score, which is the first one's; a written answer only comes with a QUESTION and with
  photos it rests on, is not blank and excludes an error.  The search fails only with the failure of one
  of its services, of a conversion of time, or of the range check on the photos found.\<close>

theorem search_meets_its_contract:
  assumes "valid_search_request r"
  shows "case search_photos E opts r of
      Inr resp \<Rightarrow> service_search E opts r = Inr resp \<and> search_ok opts r resp
    | Inl f \<Rightarrow> service_search E opts r = Inl (query_error_of f)"
proof (cases "search_photos E opts r")
  case (Inr resp)
  have "distinct (map sc_id (sq_candidates r))" using assms by (simp add: valid_search_request_def)
  from search_photos_ok[OF this Inr] Inr show ?thesis by (simp add: service_search_def serve_def search_ok_def)
qed (simp add: service_search_def serve_def)

section \<open>An example\<close>

text \<open>"yesterday, a dog", on the last day of 2023, and a search among two photos of which one scores low.\<close>

definition qx_output :: json where
  "qx_output = JObj [(''intent'', JStr (of_ascii ''SEARCH'')), (''date_from'', JNull), (''date_to'', JNull),
     (''relative_date'', JObj [(''unit'', JStr (of_ascii ''day'')), (''offset'', JInt (- 1)), (''weekday'', JNull), (''season'', JNull)]),
     (''region_names'', JNull), (''visual_query'', JStr (of_ascii '' dog ''))]"

definition qx_env :: query_env where
  "qx_env = \<lparr>qe_catalog = [], qe_digit = udigit, qe_int = uint_of, qe_bool = (\<lambda>_. None),
     qe_parse = (\<lambda>_ _. Inr (Some qx_output)), qe_encode = (\<lambda>_. Inr [1]),
     qe_search = (\<lambda>_ _ _. Inr [\<lparr>hit_id = 2, hit_score = 1 / 10\<rparr>, \<lparr>hit_id = 1, hit_score = 1 / 2\<rparr>]),
     qe_resolve = Inr, qe_answer = (\<lambda>_ _. Inl Q_vlm)\<rparr>"

definition qx_question :: parse_request where
  "qx_question = \<lparr>pq_query = of_ascii ''dog?'', pq_today = 738885\<rparr>"

definition qx_search :: search_request where
  "qx_search = \<lparr>sq_query = of_ascii ''dog'', sq_intent = QUESTION, sq_visual = Some (of_ascii ''dog''),
     sq_candidates = map (\<lambda>i. \<lparr>sc_id = i, sc_key = ''k'', sc_taken = None, sc_place = None, sc_trip = None\<rparr>) [1, 2], sq_limit = 30\<rparr>"

definition qx_options :: search_options where
  "qx_options = \<lparr>so_question_k = 5, so_min_score = 1 / 4, so_ratio = 4 / 5, so_timeouts = [15, 5, 20, 30]\<rparr>"

lemma qx_texts: "of_ascii ''dog'' = [100, 111, 103]" "of_ascii '' dog '' = [32, 100, 111, 103, 32]"
  by code_simp+

lemma qx_strip: "ustrip [100, 111, 103] = [100, 111, 103]" "ustrip [32, 100, 111, 103, 32] = [100, 111, 103]"
  by (simp_all add: ustrip_def is_space_def space_points_def)

lemma qx_parsed: "parse_output_of qx_env qx_output = Some \<lparr>po_intent = SEARCH, po_from = None, po_to = None,
    po_relative = \<lparr>rd_unit = U_day, rd_offset = Some (- 1), rd_weekday = None, rd_season = None\<rparr>,
    po_regions = None, po_visual = Some (of_ascii '' dog '')\<rparr>"
  by code_simp

lemma qx_reads: "service_parse qx_env qx_question = Inr \<lparr>pr_intent = SEARCH, pr_from = Some 738884, pr_to = Some 738884,
   pr_regions = None, pr_visual = Some (of_ascii ''dog''), pr_parsed = True\<rparr>"
proof -
  have "resolve_relative_date \<lparr>rd_unit = U_day, rd_offset = Some (- 1), rd_weekday = None, rd_season = None\<rparr> 738885 =
      Some (738884, 738884)" by code_simp
  moreover have "to_catalog_names [] [] = None" by (simp add: to_catalog_names_def)
  moreover have "qe_parse qx_env q t = Inr (Some qx_output)" "qe_catalog qx_env = []" for q t by (simp_all add: qx_env_def)
  ultimately show ?thesis
    by (simp add: service_parse_def parse_query_def read_query_def qx_parsed date_range_def clip_dates_def serve_def
        ordered_dates_def or_empty_def qx_texts qx_strip qx_question_def)
qed

lemma qx_words: "time_words [100, 111, 103] = []"
proof -
  have "match_here u = None" if ne: "u \<noteq> []" "hd u < 44032" for u
  proof -
    obtain c v where u: "u = c # v" "c < 44032" using ne by (cases u) auto
    then have "filter (\<lambda>w. ustarts w u) (map fst TIME_WINDOWS) = []" by (simp add: TIME_WINDOWS_def ustarts_def)
    then show ?thesis by (simp add: match_here_def match_paths_def)
  qed
  then show ?thesis by (simp add: time_words_def hangul_def)
qed

theorem every_question_is_read_witness:
  "\<exists>p. service_parse qx_env qx_question = Inr p \<and> pr_parsed p \<and> query_dates_ok 738885 p \<and> pr_from p = Some 738884"
  using every_question_is_read[of qx_env qx_question] qx_reads
  by (auto simp: qx_env_def qx_question_def)

lemma qx_finds: "search_photos qx_env qx_options qx_search =
   Inr \<lparr>sr_hits = [\<lparr>hit_id = 1, hit_score = 1 / 2\<rparr>], sr_answer = None, sr_error = Some A_VLM_UNAVAILABLE\<rparr>"
proof -
  have "best_hits [\<lparr>hit_id = 2, hit_score = 1 / 10\<rparr>, \<lparr>hit_id = 1, hit_score = 1 / 2\<rparr>] =
      [\<lparr>hit_id = 1, hit_score = 1 / 2\<rparr>, \<lparr>hit_id = 2, hit_score = 1 / 10\<rparr>]" by code_simp
  moreover have "candidate_dict qx_search = sq_candidates qx_search" by (simp add: candidate_dict_def qx_search_def)
  ultimately show ?thesis
    by (simp add: search_photos_def qx_search_def qx_texts qx_words time_candidates_def qx_env_def apply_cutoff_def
        qx_options_def hit_limit_def write_answer_def mk_response_def consistent_answer_def)
qed

theorem search_meets_its_contract_witness:
  "search_photos qx_env qx_options qx_search =
     Inr \<lparr>sr_hits = [\<lparr>hit_id = 1, hit_score = 1 / 2\<rparr>], sr_answer = None, sr_error = Some A_VLM_UNAVAILABLE\<rparr> \<and>
   service_search qx_env qx_options qx_search =
     Inr \<lparr>sr_hits = [\<lparr>hit_id = 1, hit_score = 1 / 2\<rparr>], sr_answer = None, sr_error = Some A_VLM_UNAVAILABLE\<rparr>"
proof -
  have "valid_search_request qx_search"
    by (simp add: valid_search_request_def qx_search_def valid_query_text_def valid_candidate_def qx_texts)
  from search_meets_its_contract[OF this, of qx_env qx_options] qx_finds show ?thesis by simp
qed

end
