(* ===== verification/TaskService.thy ===== *)
theory TaskService
  imports JobModels PipelineRun
begin

text \<open>
  \<open>src/app/jobs/task_store.py\<close> and \<open>jobs/task_service.py\<close>: the tasks of the first API version.  A task is
  an object other code may still hold after the store has replaced it, so tasks live on a heap and the
  store maps trips to them.  The code of a method between two \<open>await\<close>s runs without interruption and is
  one step; what a coroutine keeps while it waits is part of the state: the submissions waiting for the
  worker's readiness, the number of coroutines waiting for the dispatch lock, and the task its holder has
  sent to the worker.  The clock is read once in a step.
\<close>

section \<open>Tasks and their store\<close>

record task =
  tk_trip :: int
  tk_request :: process_request
  tk_total :: nat
  tk_created :: rat
  tk_status :: task_status
  tk_done :: int
  tk_step :: "process_step option"
  tk_result :: "process_result option"
  tk_error :: "error_body option"
  tk_started :: "rat option"
  tk_last :: "rat option"
  tk_finished :: "rat option"

record task_response =
  tr_trip :: int
  tr_exec :: "utext option"
  tr_status :: task_status
  tr_done :: int
  tr_total :: int
  tr_step :: "process_step option"
  tr_result :: "process_result option"
  tr_error :: "error_body option"

definition to_response :: "task \<Rightarrow> task_response" where
  "to_response t = \<lparr>tr_trip = tk_trip t, tr_exec = rq_exec (tk_request t), tr_status = tk_status t,
     tr_done = (if tk_status t = COMPLETED then int (tk_total t) else tk_done t), tr_total = int (tk_total t),
     tr_step = tk_step t, tr_result = tk_result t, tr_error = tk_error t\<rparr>"

definition valid_response :: "task_response \<Rightarrow> bool" where
  "valid_response r \<longleftrightarrow> (tr_status r = COMPLETED \<longleftrightarrow> tr_result r \<noteq> None) \<and> (tr_status r = FAILED \<longleftrightarrow> tr_error r \<noteq> None) \<and>
     0 \<le> tr_done r \<and> 0 \<le> tr_total r"

record task_settings =
  ts_concurrent :: nat
  ts_queue :: nat
  ts_dead :: rat
  ts_timeout :: rat

record svc =
  sv_heap :: "task list"
  sv_store :: "(int, nat) pydict"
  sv_last :: "rat option"
  sv_waiters :: "(int, nat) pydict"
  sv_events :: "bool list"
  sv_asking :: "(int \<times> process_request) list"
  sv_locked :: nat
  sv_sending :: "nat option"
  sv_asserts :: bool

definition svc_init :: svc where
  "svc_init = \<lparr>sv_heap = [], sv_store = [], sv_last = None, sv_waiters = [], sv_events = [], sv_asking = [],
     sv_locked = 0, sv_sending = None, sv_asserts = True\<rparr>"

definition task_get :: "svc \<Rightarrow> int \<Rightarrow> nat option" where
  "task_get s trip = map_of (sv_store s) trip"

definition task_all :: "svc \<Rightarrow> nat list" where
  "task_all s = map snd (sv_store s)"

definition status_of :: "svc \<Rightarrow> nat \<Rightarrow> task_status" where
  "status_of s i = tk_status (sv_heap s ! i)"

definition task_count :: "svc \<Rightarrow> task_status \<Rightarrow> nat" where
  "task_count s st = length (filter (\<lambda>i. status_of s i = st) (task_all s))"

definition task_put :: "task \<Rightarrow> svc \<Rightarrow> svc" where
  "task_put t s = s\<lparr>sv_heap := sv_heap s @ [t], sv_store := dict_set (tk_trip t) (length (sv_heap s)) (sv_store s)\<rparr>"

definition set_task :: "nat \<Rightarrow> (task \<Rightarrow> task) \<Rightarrow> svc \<Rightarrow> svc" where
  "set_task i f s = s\<lparr>sv_heap := (sv_heap s)[i := f (sv_heap s ! i)]\<rparr>"

section \<open>Ending a task\<close>

definition finish_task :: "task_status \<Rightarrow> process_result option \<Rightarrow> error_body option \<Rightarrow> rat \<Rightarrow> task \<Rightarrow> task" where
  "finish_task st res err now t =
     t\<lparr>tk_status := st, tk_result := res, tk_error := err, tk_step := None, tk_finished := Some now\<rparr>"

definition task_finish ::
  "nat \<Rightarrow> task_status \<Rightarrow> process_result option \<Rightarrow> error_body option \<Rightarrow> rat \<Rightarrow> svc \<Rightarrow> svc" where
  "task_finish i st res err now s =
     (let s1 = (set_task i (finish_task st res err now) s)\<lparr>sv_last := Some now\<rparr>
      in case map_of (sv_waiters s) (tk_trip (sv_heap s ! i)) of
           None \<Rightarrow> s1
         | Some e \<Rightarrow> s1\<lparr>sv_events := (sv_events s1)[e := True]\<rparr>)"

definition own_error :: "error_code \<Rightarrow> error_body" where
  "own_error c = \<lparr>eb_code = c, eb_detail = []\<rparr>"

section \<open>Dispatching\<close>

datatype submit_answer = W_accepted | W_busy | W_not_ready | W_unavailable "(string \<times> json) list"

definition queued_tasks :: "svc \<Rightarrow> nat list" where
  "queued_tasks s = filter (\<lambda>i. status_of s i = QUEUED) (task_all s)"

definition oldest_queued :: "svc \<Rightarrow> nat option" where
  "oldest_queued s = (case sort_key (\<lambda>i. tk_created (sv_heap s ! i)) (queued_tasks s) of [] \<Rightarrow> None | i # _ \<Rightarrow> Some i)"

text \<open>The head of the loop, holding the lock: send the oldest task, or give the lock back.\<close>

definition dispatch_head :: "task_settings \<Rightarrow> svc \<Rightarrow> svc" where
  "dispatch_head cfg s =
     (if task_count s PROCESSING < ts_concurrent cfg then s\<lparr>sv_sending := oldest_queued s\<rparr>
      else s\<lparr>sv_sending := None\<rparr>)"

text \<open>\<open>async with self._dispatch_lock\<close>: a free lock nobody waits for is taken without waiting.\<close>

definition dispatch_next :: "task_settings \<Rightarrow> svc \<Rightarrow> svc" where
  "dispatch_next cfg s =
     (if sv_sending s = None \<and> sv_locked s = 0 then dispatch_head cfg s
      else s\<lparr>sv_locked := sv_locked s + 1\<rparr>)"

definition lock_wakes :: "task_settings \<Rightarrow> svc \<Rightarrow> svc" where
  "lock_wakes cfg s = dispatch_head cfg (s\<lparr>sv_locked := sv_locked s - 1\<rparr>)"

definition start_task :: "rat \<Rightarrow> task \<Rightarrow> task" where
  "start_task now t = t\<lparr>tk_status := PROCESSING, tk_started := Some now, tk_last := Some now\<rparr>"

definition worker_answers :: "task_settings \<Rightarrow> submit_answer \<Rightarrow> rat \<Rightarrow> nat \<Rightarrow> svc \<Rightarrow> svc" where
  "worker_answers cfg a now i s =
     (case a of
        W_accepted \<Rightarrow> dispatch_head cfg (set_task i (start_task now) s)
      | W_unavailable d \<Rightarrow> dispatch_head cfg (task_finish i FAILED None (Some \<lparr>eb_code = WORKER_DEAD, eb_detail = d\<rparr>) now s)
      | W_busy \<Rightarrow> s\<lparr>sv_sending := None\<rparr>
      | W_not_ready \<Rightarrow> s\<lparr>sv_sending := None\<rparr>)"

section \<open>Submitting\<close>

definition new_task :: "int \<Rightarrow> process_request \<Rightarrow> rat \<Rightarrow> task" where
  "new_task trip rq now = \<lparr>tk_trip = trip, tk_request = rq, tk_total = length (rq_attachments rq), tk_created = now,
     tk_status = QUEUED, tk_done = 0, tk_step = None, tk_result = None, tk_error = None, tk_started = None,
     tk_last = None, tk_finished = None\<rparr>"

definition accept_task :: "task_settings \<Rightarrow> int \<Rightarrow> process_request \<Rightarrow> rat \<Rightarrow> svc \<Rightarrow> svc" where
  "accept_task cfg trip rq now s =
     (let s1 = task_put (new_task trip rq now) s
      in dispatch_next cfg (s1\<lparr>sv_waiters := dict_set trip (length (sv_events s)) (sv_waiters s1),
                               sv_events := sv_events s1 @ [False]\<rparr>))"

definition task_submit :: "task_settings \<Rightarrow> int \<Rightarrow> process_request \<Rightarrow> rat \<Rightarrow> svc \<Rightarrow> (app_error + unit) \<times> svc" where
  "task_submit cfg trip rq now s =
     (if (case task_get s trip of None \<Rightarrow> False | Some i \<Rightarrow> \<not> terminal (status_of s i))
      then (Inl (mk_app_error DUPLICATE_TASK None None), s)
      else
        let slot_free = task_count s PROCESSING < ts_concurrent cfg
        in if \<not> slot_free \<and> ts_queue cfg \<le> task_count s QUEUED then (Inl (mk_app_error RATE_LIMITED None None), s)
           else if slot_free then (Inr (), s\<lparr>sv_asking := sv_asking s @ [(trip, rq)]\<rparr>)
           else (Inr (), accept_task cfg trip rq now s))"

text \<open>The worker's readiness arrives for one of the submissions waiting for it.\<close>

definition worker_ready :: "task_settings \<Rightarrow> nat \<Rightarrow> bool option \<Rightarrow> rat \<Rightarrow> svc \<Rightarrow> (app_error + unit) \<times> svc" where
  "worker_ready cfg k ready now s =
     (case sv_asking s ! k of (trip, rq) \<Rightarrow>
        let s1 = s\<lparr>sv_asking := take k (sv_asking s) @ drop (k + 1) (sv_asking s)\<rparr>
        in if ready = Some True then (Inr (), accept_task cfg trip rq now s1)
           else (Inl (mk_app_error MODEL_NOT_READY None None), s1))"

section \<open>Callbacks, cancelling and watching\<close>

definition task_require :: "int \<Rightarrow> svc \<Rightarrow> app_error + nat" where
  "task_require trip s =
     (case task_get s trip of None \<Rightarrow> Inl (mk_app_error TASK_NOT_FOUND None None) | Some i \<Rightarrow> Inr i)"

definition task_progress :: "int \<Rightarrow> process_step \<Rightarrow> int \<Rightarrow> rat \<Rightarrow> svc \<Rightarrow> (app_error + unit) \<times> svc" where
  "task_progress trip st n now s =
     (case task_require trip s of
        Inl e \<Rightarrow> (Inl e, s)
      | Inr i \<Rightarrow>
          if status_of s i \<noteq> PROCESSING then (Inr (), s)
          else (Inr (), set_task i (\<lambda>t. t\<lparr>tk_done := n, tk_step := Some st, tk_last := Some now\<rparr>) s))"

definition task_complete :: "task_settings \<Rightarrow> int \<Rightarrow> process_result \<Rightarrow> rat \<Rightarrow> svc \<Rightarrow> (app_error + unit) \<times> svc" where
  "task_complete cfg trip res now s =
     (case task_require trip s of
        Inl e \<Rightarrow> (Inl e, s)
      | Inr i \<Rightarrow>
          if status_of s i \<noteq> PROCESSING then (Inr (), s)
          else (Inr (), dispatch_next cfg (task_finish i COMPLETED (Some res) None now s)))"

definition task_fail :: "task_settings \<Rightarrow> int \<Rightarrow> error_body \<Rightarrow> rat \<Rightarrow> svc \<Rightarrow> (app_error + unit) \<times> svc" where
  "task_fail cfg trip err now s =
     (case task_require trip s of
        Inl e \<Rightarrow> (Inl e, s)
      | Inr i \<Rightarrow>
          if status_of s i \<noteq> PROCESSING then (Inr (), s)
          else (Inr (), dispatch_next cfg
            (if eb_code err = CODE_CANCELED then task_finish i CANCELED None None now s
             else task_finish i FAILED None (Some err) now s)))"

text \<open>Cancelling a running task only asks the worker and changes nothing here.\<close>

definition task_cancel :: "int \<Rightarrow> rat \<Rightarrow> svc \<Rightarrow> (app_error + unit) \<times> svc" where
  "task_cancel trip now s =
     (case task_require trip s of
        Inl e \<Rightarrow> (Inl e, s)
      | Inr i \<Rightarrow>
          if terminal (status_of s i) then (Inl (mk_app_error TASK_NOT_CANCELABLE None None), s)
          else if status_of s i = QUEUED then (Inr (), task_finish i CANCELED None None now s)
          else (Inr (), s))"

definition tick_task :: "task_settings \<Rightarrow> rat \<Rightarrow> nat \<Rightarrow> svc \<Rightarrow> svc" where
  "tick_task cfg now i s =
     (if status_of s i \<noteq> PROCESSING then s
      else
        (case (tk_last (sv_heap s ! i), tk_started (sv_heap s ! i)) of
           (Some l, Some st) \<Rightarrow>
             if now - l > ts_dead cfg then task_finish i FAILED None (Some (own_error WORKER_DEAD)) now s
             else if now - st > ts_timeout cfg then task_finish i FAILED None (Some (own_error TIMEOUT)) now s
             else s
         | _ \<Rightarrow> s\<lparr>sv_asserts := False\<rparr>))"

definition task_tick :: "task_settings \<Rightarrow> rat \<Rightarrow> svc \<Rightarrow> svc" where
  "task_tick cfg now s = dispatch_next cfg (fold (tick_task cfg now) (task_all s) s)"

text \<open>Every task of memory that runs, whether or not the store still knows it.\<close>

definition running_tasks :: "svc \<Rightarrow> nat list" where
  "running_tasks s = filter (\<lambda>i. status_of s i = PROCESSING) [0..<length (sv_heap s)]"

text \<open>What \<open>wait_done\<close> waits for: the event of the trip, when there is one.\<close>

definition may_return :: "svc \<Rightarrow> int \<Rightarrow> bool" where
  "may_return s trip = (case map_of (sv_waiters s) trip of None \<Rightarrow> True | Some e \<Rightarrow> sv_events s ! e)"

definition idle_seconds :: "rat \<Rightarrow> rat \<Rightarrow> svc \<Rightarrow> int" where
  "idle_seconds boot now s =
     (if task_count s PROCESSING > 0 \<or> task_count s QUEUED > 0 then 0
      else let d = now - (case sv_last s of None \<Rightarrow> boot | Some t \<Rightarrow> t) in if 0 \<le> d then \<lfloor>d\<rfloor> else \<lceil>d\<rceil>)"

section \<open>Steps\<close>

inductive svc_step :: "task_settings \<Rightarrow> svc \<Rightarrow> svc \<Rightarrow> bool" for cfg where
  submits: "svc_step cfg s (snd (task_submit cfg trip rq now s))"
| ready: "k < length (sv_asking s) \<Longrightarrow> svc_step cfg s (snd (worker_ready cfg k r now s))"
| wakes: "sv_sending s = None \<Longrightarrow> 0 < sv_locked s \<Longrightarrow> svc_step cfg s (lock_wakes cfg s)"
| answers: "sv_sending s = Some i \<Longrightarrow> svc_step cfg s (worker_answers cfg a now i s)"
| progresses: "0 \<le> n \<Longrightarrow> svc_step cfg s (snd (task_progress trip st n now s))"
| completes: "svc_step cfg s (snd (task_complete cfg trip res now s))"
| fails: "svc_step cfg s (snd (task_fail cfg trip err now s))"
| cancels: "svc_step cfg s (snd (task_cancel trip now s))"
| ticks: "svc_step cfg s (task_tick cfg now s)"

inductive svc_reach :: "task_settings \<Rightarrow> svc \<Rightarrow> bool" for cfg where
  init: "svc_reach cfg svc_init"
| step: "svc_reach cfg s \<Longrightarrow> svc_step cfg s t \<Longrightarrow> svc_reach cfg t"

text \<open>No trip has two submissions under way: none waits for the worker's readiness while another of its trip waits or
  has an unfinished task, and the task being sent has not been replaced.\<close>

definition one_at_a_time :: "svc \<Rightarrow> bool" where
  "one_at_a_time s \<longleftrightarrow> distinct (map fst (sv_asking s)) \<and>
     list_all (\<lambda>(trip, rq). case task_get s trip of None \<Rightarrow> True | Some i \<Rightarrow> terminal (status_of s i)) (sv_asking s) \<and>
     (case sv_sending s of None \<Rightarrow> True | Some i \<Rightarrow> task_get s (tk_trip (sv_heap s ! i)) = Some i)"

text \<open>The runs in which that is so all along.\<close>

inductive svc_orderly :: "task_settings \<Rightarrow> svc \<Rightarrow> bool" for cfg where
  init: "svc_orderly cfg svc_init"
| step: "svc_orderly cfg s \<Longrightarrow> svc_step cfg s t \<Longrightarrow> one_at_a_time t \<Longrightarrow> svc_orderly cfg t"

inductive_cases svc_stepE: "svc_step cfg s t"

end
