(* ===== verification/TaskTheorems.thy ===== *)
theory TaskTheorems
  imports TaskService
begin

text \<open>
  The invariant of the task service, and that every piece of its methods keeps it.
  What every interleaving of the methods of the task service keeps, which statuses follow which, and the
  runs in which a cancelled task starts again, an accepted task is lost, and the lost task runs beyond the limit.
\<close>

section \<open>The invariant\<close>

definition task_ok :: "task \<Rightarrow> bool" where
  "task_ok t \<longleftrightarrow> (tk_status t = COMPLETED \<longleftrightarrow> tk_result t \<noteq> None) \<and> (tk_status t = FAILED \<longleftrightarrow> tk_error t \<noteq> None) \<and>
     (tk_status t = PROCESSING \<longrightarrow> tk_started t \<noteq> None \<and> tk_last t \<noteq> None) \<and> 0 \<le> tk_done t"

definition refs_ok :: "svc \<Rightarrow> bool" where
  "refs_ok s \<longleftrightarrow> distinct (map fst (sv_store s)) \<and> distinct (map snd (sv_store s)) \<and>
     (\<forall>(k, i) \<in> set (sv_store s). i < length (sv_heap s) \<and> tk_trip (sv_heap s ! i) = k) \<and>
     (\<forall>(k, e) \<in> set (sv_waiters s). e < length (sv_events s))"

text \<open>Whoever waits for a finished task of the store may return.\<close>

definition waits_ok :: "svc \<Rightarrow> bool" where
  "waits_ok s \<longleftrightarrow> (\<forall>(k, i) \<in> set (sv_store s). terminal (status_of s i) \<longrightarrow> may_return s k)"

definition core_ok :: "task_settings \<Rightarrow> svc \<Rightarrow> bool" where
  "core_ok cfg s \<longleftrightarrow> list_all task_ok (sv_heap s) \<and> refs_ok s \<and> waits_ok s \<and> sv_asserts s \<and>
     task_count s PROCESSING \<le> ts_concurrent cfg"

text \<open>The task sent to the worker was queued when it was chosen; it may have been cancelled since.\<close>

definition sending_ok :: "task_settings \<Rightarrow> svc \<Rightarrow> bool" where
  "sending_ok cfg s \<longleftrightarrow> (\<forall>i. sv_sending s = Some i \<longrightarrow>
     i < length (sv_heap s) \<and> status_of s i \<in> {QUEUED, CANCELED} \<and> task_count s PROCESSING < ts_concurrent cfg)"

definition svc_ok :: "task_settings \<Rightarrow> svc \<Rightarrow> bool" where
  "svc_ok cfg s \<longleftrightarrow> core_ok cfg s \<and> sending_ok cfg s"

section \<open>Changing one task\<close>

lemma set_task_fields [simp]:
  "sv_store (set_task i f s) = sv_store s" "sv_waiters (set_task i f s) = sv_waiters s"
  "sv_events (set_task i f s) = sv_events s" "sv_sending (set_task i f s) = sv_sending s"
  "sv_locked (set_task i f s) = sv_locked s" "sv_asking (set_task i f s) = sv_asking s"
  "length (sv_heap (set_task i f s)) = length (sv_heap s)" "sv_asserts (set_task i f s) = sv_asserts s"
  "task_all (set_task i f s) = task_all s"
  by (simp_all add: set_task_def task_all_def)

lemma status_set_task:
  "i < length (sv_heap s) \<Longrightarrow> status_of (set_task i f s) j = (if j = i then tk_status (f (sv_heap s ! i)) else status_of s j)"
  by (simp add: status_of_def set_task_def)

lemma length_filter_one:
  "distinct xs \<Longrightarrow> (\<And>x. x \<in> set xs \<Longrightarrow> x \<noteq> i \<Longrightarrow> Q x \<Longrightarrow> P x) \<Longrightarrow>
   length (filter Q xs) \<le> length (filter P xs) + (if Q i then 1 else 0)"
proof (induction xs)
  case (Cons x xs)
  then have "length (filter Q xs) \<le> length (filter P xs) + (if Q i then 1 else 0)" by simp
  moreover have "length (filter Q xs) \<le> length (filter P xs)" if "x = i"
  proof -
    have "filter Q xs = filter (\<lambda>y. Q y \<and> P y) xs" using Cons.prems that by (intro filter_cong) auto
    also have "length \<dots> \<le> length (filter P xs)" by (induction xs) auto
    finally show ?thesis .
  qed
  ultimately show ?case using Cons.prems(2)[of x] by (cases "x = i") auto
qed simp

lemma count_set_task:
  assumes "refs_ok s" "i < length (sv_heap s)"
  shows "task_count (set_task i f s) PROCESSING \<le>
    task_count s PROCESSING + (if tk_status (f (sv_heap s ! i)) = PROCESSING then 1 else 0)"
proof -
  have "distinct (task_all s)" using assms(1) by (simp add: refs_ok_def task_all_def)
  then show ?thesis
    unfolding task_count_def set_task_fields
    using length_filter_one[of "task_all s" i "\<lambda>j. status_of (set_task i f s) j = PROCESSING" "\<lambda>j. status_of s j = PROCESSING"]
    by (simp add: status_set_task[OF assms(2)])
qed

lemma heap_set_task: "list_all task_ok (sv_heap s) \<Longrightarrow> task_ok (f (sv_heap s ! i)) \<Longrightarrow> list_all task_ok (sv_heap (set_task i f s))"
  by (auto simp: set_task_def list_all_iff dest: set_update_subset_insert[THEN subsetD])

lemma may_return_set_task [simp]: "may_return (set_task i f s) k = may_return s k"
  by (simp add: may_return_def set_task_def split: option.split)

lemma refs_set_task:
  assumes "refs_ok s" "i < length (sv_heap s)" "tk_trip (f (sv_heap s ! i)) = tk_trip (sv_heap s ! i)"
  shows "refs_ok (set_task i f s)"
  using assms by (auto simp: refs_ok_def set_task_def nth_list_update)

text \<open>Ending a task.\<close>

lemma finish_fields [simp]:
  "sv_store (task_finish i st r e now s) = sv_store s" "sv_waiters (task_finish i st r e now s) = sv_waiters s"
  "sv_sending (task_finish i st r e now s) = sv_sending s" "sv_locked (task_finish i st r e now s) = sv_locked s"
  "sv_heap (task_finish i st r e now s) = sv_heap (set_task i (finish_task st r e now) s)"
  "length (sv_events (task_finish i st r e now s)) = length (sv_events s)"
  "sv_asserts (task_finish i st r e now s) = sv_asserts s" "task_all (task_finish i st r e now s) = task_all s"
  "task_count (task_finish i st r e now s) = task_count (set_task i (finish_task st r e now) s)"
  "status_of (task_finish i st r e now s) = status_of (set_task i (finish_task st r e now) s)"
  by (auto simp: task_finish_def Let_def set_task_def task_all_def task_count_def status_of_def split: option.split)

lemma finish_wakes:
  "refs_ok s \<Longrightarrow> may_return (task_finish i st r e now s) (tk_trip (sv_heap s ! i))"
  by (auto simp: task_finish_def Let_def may_return_def refs_ok_def split: option.split dest!: map_of_SomeD)

lemma update_True: "xs ! j \<Longrightarrow> xs[i := True] ! j"
  by (cases "i < length xs") (auto simp: nth_list_update list_update_beyond)

lemma finish_keeps_returns: "may_return s k \<Longrightarrow> may_return (task_finish i st r e now s) k"
  by (auto simp: task_finish_def Let_def may_return_def set_task_def intro: update_True split: option.splits)

lemma finish_core:
  assumes c: "core_ok cfg s" and i: "i < length (sv_heap s)"
    and t: "terminal st" "st = COMPLETED \<longleftrightarrow> r \<noteq> None" "st = FAILED \<longleftrightarrow> e \<noteq> None"
  shows "core_ok cfg (task_finish i st r e now s) \<and>
    task_count (task_finish i st r e now s) PROCESSING \<le> task_count s PROCESSING"
proof -
  let ?f = "finish_task st r e now"
  let ?s = "task_finish i st r e now s"
  have R: "refs_ok s" and H: "list_all task_ok (sv_heap s)" and W: "waits_ok s" using c by (simp_all add: core_ok_def)
  have np: "st \<noteq> PROCESSING" using t(1) by auto
  have cnt: "task_count ?s PROCESSING \<le> task_count s PROCESSING"
    using count_set_task[OF R i, of ?f] np by (simp add: finish_task_def)
  have "task_ok (sv_heap s ! i)" using H i by (simp add: list_all_length)
  then have "task_ok (?f (sv_heap s ! i))" using t by (auto simp: task_ok_def finish_task_def)
  then have h: "list_all task_ok (sv_heap ?s)" using heap_set_task[OF H] by simp
  have "refs_ok (set_task i ?f s)" by (rule refs_set_task[OF R i]) (simp add: finish_task_def)
  then have r: "refs_ok ?s" by (simp add: refs_ok_def)
  have "may_return ?s k" if ki: "(k, j) \<in> set (sv_store s)" "terminal (status_of ?s j)" for k j
  proof (cases "j = i")
    case True
    then have "tk_trip (sv_heap s ! i) = k" using R ki(1) by (auto simp: refs_ok_def)
    then show ?thesis using finish_wakes[OF R, of i st r e now] by simp
  next
    case False
    then have "terminal (status_of s j)" using ki(2) i by (simp add: status_set_task)
    with W ki(1) have "may_return s k" by (auto simp: waits_ok_def)
    then show ?thesis by (rule finish_keeps_returns)
  qed
  then have "waits_ok ?s" by (auto simp: waits_ok_def)
  with h r cnt c show ?thesis by (simp add: core_ok_def)
qed

text \<open>Starting one, and hearing of its progress.\<close>

lemma waits_set_task:
  assumes "waits_ok s" "i < length (sv_heap s)" "\<not> terminal (tk_status (f (sv_heap s ! i)))"
  shows "waits_ok (set_task i f s)"
  using assms by (auto simp: waits_ok_def status_set_task split: if_splits)

lemma start_core:
  assumes "core_ok cfg s" "sending_ok cfg s" "sv_sending s = Some i"
  shows "core_ok cfg (set_task i (start_task now) s)"
proof -
  have i: "i < length (sv_heap s)" "status_of s i \<in> {QUEUED, CANCELED}" "task_count s PROCESSING < ts_concurrent cfg"
    using assms(2,3) by (simp_all add: sending_ok_def)
  have R: "refs_ok s" and H: "list_all task_ok (sv_heap s)" and W: "waits_ok s" using assms(1) by (simp_all add: core_ok_def)
  have "task_ok (sv_heap s ! i)" using H i by (simp add: list_all_length)
  then have "task_ok (start_task now (sv_heap s ! i))"
    using i(2) by (auto simp: task_ok_def start_task_def status_of_def)
  with heap_set_task[OF H] have "list_all task_ok (sv_heap (set_task i (start_task now) s))" by blast
  moreover have "refs_ok (set_task i (start_task now) s)" by (rule refs_set_task[OF R i(1)]) (simp add: start_task_def)
  moreover have "waits_ok (set_task i (start_task now) s)" by (rule waits_set_task[OF W i(1)]) (simp add: start_task_def)
  moreover have "task_count (set_task i (start_task now) s) PROCESSING \<le> ts_concurrent cfg"
    using count_set_task[OF R i(1), of "start_task now"] i(3) by (simp split: if_splits)
  ultimately show ?thesis using assms(1) by (simp add: core_ok_def)
qed

lemma progress_ok:
  assumes "svc_ok cfg s" "i < length (sv_heap s)" "status_of s i = PROCESSING" "0 \<le> n"
  shows "svc_ok cfg (set_task i (\<lambda>t. t\<lparr>tk_done := n, tk_step := Some st, tk_last := Some now\<rparr>) s)"
    (is "svc_ok cfg (set_task i ?f s)")
proof -
  have c: "core_ok cfg s" "sending_ok cfg s" using assms(1) by (simp_all add: svc_ok_def)
  have R: "refs_ok s" and H: "list_all task_ok (sv_heap s)" and W: "waits_ok s" using c by (simp_all add: core_ok_def)
  have st: "status_of (set_task i ?f s) j = status_of s j" for j
    using status_set_task[OF assms(2), of ?f j] by (simp add: status_of_def)
  then have cnt: "task_count (set_task i ?f s) = task_count s" by (simp add: task_count_def fun_eq_iff)
  have "task_ok (sv_heap s ! i)" using H assms(2) by (simp add: list_all_length)
  then have "task_ok (?f (sv_heap s ! i))" using assms(4) by (simp add: task_ok_def)
  with heap_set_task[OF H, of ?f i] have "list_all task_ok (sv_heap (set_task i ?f s))" by blast
  moreover have "refs_ok (set_task i ?f s)" by (rule refs_set_task[OF R assms(2)]) simp
  moreover have "waits_ok (set_task i ?f s)" using W by (simp add: waits_ok_def st)
  ultimately show ?thesis using c by (simp add: svc_ok_def core_ok_def sending_ok_def cnt st)
qed

section \<open>Dispatching and accepting\<close>

lemma head_fields [simp]:
  "sv_store (dispatch_head cfg s) = sv_store s" "sv_heap (dispatch_head cfg s) = sv_heap s"
  "sv_waiters (dispatch_head cfg s) = sv_waiters s" "sv_events (dispatch_head cfg s) = sv_events s"
  "sv_asserts (dispatch_head cfg s) = sv_asserts s" "status_of (dispatch_head cfg s) = status_of s"
  "task_count (dispatch_head cfg s) = task_count s" "task_all (dispatch_head cfg s) = task_all s"
  "may_return (dispatch_head cfg s) = may_return s"
  by (auto simp: dispatch_head_def task_count_def status_of_def task_all_def may_return_def fun_eq_iff split: option.split)

text \<open>The invariant does not look at who waits for the lock or for the worker.\<close>

lemma same_core:
  assumes "sv_store t = sv_store s" "sv_heap t = sv_heap s" "sv_waiters t = sv_waiters s" "sv_events t = sv_events s"
    "sv_asserts t = sv_asserts s"
  shows "core_ok cfg t = core_ok cfg s" "task_count t = task_count s" "status_of t = status_of s"
proof -
  have st: "status_of t = status_of s" by (simp add: status_of_def assms fun_eq_iff)
  then show c: "task_count t = task_count s" by (simp add: task_count_def task_all_def assms fun_eq_iff)
  have m: "may_return t = may_return s" by (auto simp: may_return_def assms fun_eq_iff split: option.split)
  show "core_ok cfg t = core_ok cfg s" by (simp add: core_ok_def refs_ok_def waits_ok_def m c st assms)
  show "status_of t = status_of s" by (rule st)
qed

lemma oldest_queued_spec: "oldest_queued s = Some i \<Longrightarrow> i \<in> set (task_all s) \<and> status_of s i = QUEUED"
proof -
  assume "oldest_queued s = Some i"
  then obtain js where "sort_key (\<lambda>i. tk_created (sv_heap s ! i)) (queued_tasks s) = i # js"
    unfolding oldest_queued_def by (auto split: list.splits)
  then have "i \<in> set (sort_key (\<lambda>i. tk_created (sv_heap s ! i)) (queued_tasks s))" by (simp only: list.set_intros)
  then show ?thesis by (auto simp: queued_tasks_def)
qed

lemma head_ok: "core_ok cfg s \<Longrightarrow> svc_ok cfg (dispatch_head cfg s)"
proof -
  assume c: "core_ok cfg s"
  then have "core_ok cfg (dispatch_head cfg s)" by (subst same_core(1)[of _ s]) simp_all
  moreover have "sending_ok cfg (dispatch_head cfg s)"
    using c oldest_queued_spec[of s]
    by (fastforce simp: sending_ok_def dispatch_head_def core_ok_def refs_ok_def task_all_def task_count_def status_of_def)
  ultimately show ?thesis by (simp add: svc_ok_def)
qed

lemma next_ok: "svc_ok cfg s \<Longrightarrow> svc_ok cfg (dispatch_next cfg s)"
  using head_ok[of cfg s] same_core[of "s\<lparr>sv_locked := sv_locked s + 1\<rparr>" s]
  by (auto simp: dispatch_next_def svc_ok_def sending_ok_def)

lemma wake_ok: "svc_ok cfg s \<Longrightarrow> svc_ok cfg (lock_wakes cfg s)"
  using head_ok[of cfg "s\<lparr>sv_locked := sv_locked s - 1\<rparr>"] same_core(1)[of "s\<lparr>sv_locked := sv_locked s - 1\<rparr>" s]
  by (simp add: lock_wakes_def svc_ok_def)

text \<open>Ending a running task leaves the one being sent alone.\<close>

lemma finish_ok:
  assumes "svc_ok cfg s" "i < length (sv_heap s)" "terminal st" "st = COMPLETED \<longleftrightarrow> r \<noteq> None" "st = FAILED \<longleftrightarrow> e \<noteq> None"
    "status_of s i = PROCESSING \<or> st = CANCELED"
  shows "svc_ok cfg (task_finish i st r e now s)"
proof -
  let ?s = "task_finish i st r e now s"
  have c: "core_ok cfg s" and sd: "sending_ok cfg s" using assms(1) by (simp_all add: svc_ok_def)
  note F = finish_core[OF c assms(2-5), of now]
  have "sending_ok cfg ?s" unfolding sending_ok_def
  proof (intro allI impI)
    fix j assume "sv_sending ?s = Some j"
    then have j: "j < length (sv_heap s)" "status_of s j \<in> {QUEUED, CANCELED}" "task_count s PROCESSING < ts_concurrent cfg"
      using sd by (simp_all add: sending_ok_def)
    have "status_of ?s j \<in> {QUEUED, CANCELED}"
      using assms(6) j(2) by (auto simp: status_set_task[OF assms(2)] finish_task_def)
    with j F show "j < length (sv_heap ?s) \<and> status_of ?s j \<in> {QUEUED, CANCELED} \<and> task_count ?s PROCESSING < ts_concurrent cfg"
      by simp
  qed
  with F show ?thesis by (simp add: svc_ok_def)
qed

lemma answer_ok:
  assumes "svc_ok cfg s" "sv_sending s = Some i"
  shows "svc_ok cfg (worker_answers cfg a now i s)"
proof (cases a)
  case W_accepted
  from assms have "core_ok cfg (set_task i (start_task now) s)" by (intro start_core) (simp_all add: svc_ok_def)
  with W_accepted head_ok show ?thesis by (simp add: worker_answers_def)
next
  case (W_unavailable d)
  have "i < length (sv_heap s)" "core_ok cfg s" using assms by (simp_all add: svc_ok_def sending_ok_def)
  then have "core_ok cfg (task_finish i FAILED None (Some \<lparr>eb_code = WORKER_DEAD, eb_detail = d\<rparr>) now s)"
    by (intro finish_core[THEN conjunct1]) simp_all
  with W_unavailable head_ok show ?thesis by (simp add: worker_answers_def)
qed (use assms same_core(1)[of "s\<lparr>sv_sending := None\<rparr>" s] in \<open>simp_all add: worker_answers_def svc_ok_def sending_ok_def\<close>)

lemma refs_of_store: "refs_ok s \<Longrightarrow> (k, i) \<in> set (sv_store s) \<Longrightarrow> i < length (sv_heap s) \<and> tk_trip (sv_heap s ! i) = k"
  by (auto simp: refs_ok_def)

lemma dict_set_entries: "(a, b) \<in> set (dict_set k v d) \<Longrightarrow> distinct (map fst d) \<Longrightarrow> (a = k \<and> b = v) \<or> (a \<noteq> k \<and> (a, b) \<in> set d)"
  by (induction k v d rule: dict_set.induct) (auto split: if_splits dest: image_eqI[of _ fst, rotated])

lemma dict_set_values_sub: "set (dict_set k v d) \<subseteq> insert (k, v) (set d)"
  by (induction k v d rule: dict_set.induct) auto

lemma distinct_dict_values:
  "distinct (map snd d) \<Longrightarrow> v \<notin> set (map snd d) \<Longrightarrow> distinct (map snd (dict_set k v d))"
proof (induction k v d rule: dict_set.induct)
  case (2 k v k' v' d)
  have "set (map snd (dict_set k v d)) \<subseteq> insert v (set (map snd d))"
    by (induction k v d rule: dict_set.induct) auto
  with 2 show ?case by auto
qed simp

lemma accept_ok:
  assumes "svc_ok cfg s" shows "svc_ok cfg (accept_task cfg trip rq now s)"
proof -
  define u where "u = (task_put (new_task trip rq now) s)\<lparr>sv_waiters := dict_set trip (length (sv_events s)) (sv_waiters s),
      sv_events := sv_events s @ [False]\<rparr>"
  let ?n = "length (sv_heap s)"
  have c: "core_ok cfg s" and sd: "sending_ok cfg s" using assms by (simp_all add: svc_ok_def)
  have R: "refs_ok s" and W: "waits_ok s" using c by (simp_all add: core_ok_def)
  have f: "sv_store u = dict_set trip ?n (sv_store s)" "sv_heap u = sv_heap s @ [new_task trip rq now]"
    "sv_waiters u = dict_set trip (length (sv_events s)) (sv_waiters s)" "sv_events u = sv_events s @ [False]"
    "sv_asserts u = sv_asserts s" "sv_sending u = sv_sending s"
    by (simp_all add: u_def task_put_def new_task_def)
  have st: "status_of u i = (if i = ?n then QUEUED else status_of s i)" if "i \<le> ?n" for i
    using that by (auto simp: status_of_def f nth_append new_task_def)
  have dk: "distinct (map fst (sv_store s))" "distinct (map snd (sv_store s))" "?n \<notin> set (map snd (sv_store s))"
    using R by (auto simp: refs_ok_def)
  have ent: "k = trip \<and> i = ?n \<or> k \<noteq> trip \<and> (k, i) \<in> set (sv_store s)" if "(k, i) \<in> set (sv_store u)" for k i
    using dict_set_entries[OF that[unfolded f]] dk by blast
  have went: "e < length (sv_events u)" if "(k, e) \<in> set (sv_waiters u)" for k e
  proof -
    from that dict_set_values_sub[of trip "length (sv_events s)" "sv_waiters s"] have
      "e = length (sv_events s) \<or> (k, e) \<in> set (sv_waiters s)" by (auto simp: f)
    with R show ?thesis by (auto simp: f refs_ok_def)
  qed
  have r: "refs_ok u" unfolding refs_ok_def
  proof (intro conjI)
    show "distinct (map fst (sv_store u))" using dk(1) by (simp add: f distinct_dict_set)
    show "distinct (map snd (sv_store u))" using dk(2,3) by (simp add: f distinct_dict_values)
    show "\<forall>(k, i) \<in> set (sv_store u). i < length (sv_heap u) \<and> tk_trip (sv_heap u ! i) = k"
      using ent refs_of_store[OF R] by (fastforce simp: f(2) nth_append new_task_def)
    show "\<forall>(k, e) \<in> set (sv_waiters u). e < length (sv_events u)" using went by blast
  qed
  have "may_return u k" if ki: "(k, i) \<in> set (sv_store u)" "terminal (status_of u i)" for k i
  proof -
    from ent[OF ki(1)] ki(2) st[of i] have k: "k \<noteq> trip" "(k, i) \<in> set (sv_store s)" by auto
    then have "i < ?n" using refs_of_store[OF R] by blast
    with ki(2) st[of i] have "terminal (status_of s i)" by simp
    with W k(2) have "may_return s k" by (auto simp: waits_ok_def)
    moreover have "map_of (sv_waiters u) k = map_of (sv_waiters s) k" using k(1) by (simp add: f)
    ultimately show ?thesis using R
      by (auto simp: may_return_def f(4) nth_append refs_ok_def split: option.splits dest!: map_of_SomeD)
  qed
  then have w: "waits_ok u" by (auto simp: waits_ok_def)
  have cnt: "task_count u PROCESSING \<le> task_count s PROCESSING"
  proof -
    let ?p = "\<lambda>t. filter (\<lambda>i. status_of t i = PROCESSING) (task_all t)"
    have "set (?p u) \<subseteq> set (?p s)"
    proof
      fix i assume "i \<in> set (?p u)"
      then obtain k where k: "(k, i) \<in> set (sv_store u)" "status_of u i = PROCESSING" by (auto simp: task_all_def)
      with ent[OF k(1)] st[of i] have "(k, i) \<in> set (sv_store s)" by auto
      moreover then have "i < ?n" using refs_of_store[OF R] by blast
      ultimately show "i \<in> set (?p s)" using st[of i] k(2) by (force simp: task_all_def)
    qed
    then have "card (set (?p u)) \<le> card (set (?p s))" by (intro card_mono) simp_all
    moreover have "distinct (?p u)" "distinct (?p s)" using r R by (simp_all add: refs_ok_def task_all_def)
    ultimately show ?thesis unfolding task_count_def by (simp only: distinct_card)
  qed
  have "core_ok cfg u" using c r w cnt by (simp add: core_ok_def f(2,5) new_task_def task_ok_def)
  moreover have "sending_ok cfg u" unfolding sending_ok_def
  proof (intro allI impI)
    fix i assume "sv_sending u = Some i"
    then have i: "i < ?n" "status_of s i \<in> {QUEUED, CANCELED}" "task_count s PROCESSING < ts_concurrent cfg"
      using sd by (simp_all add: sending_ok_def f)
    then show "i < length (sv_heap u) \<and> status_of u i \<in> {QUEUED, CANCELED} \<and> task_count u PROCESSING < ts_concurrent cfg"
      using cnt st[of i] by (simp add: f(2))
  qed
  ultimately have "svc_ok cfg (dispatch_next cfg u)" by (intro next_ok) (simp add: svc_ok_def)
  then show ?thesis by (simp add: accept_task_def u_def Let_def task_put_def)
qed

section \<open>Every step keeps the invariant\<close>

lemma require_ok: "svc_ok cfg s \<Longrightarrow> task_require trip s = Inr i \<Longrightarrow> i < length (sv_heap s) \<and> (trip, i) \<in> set (sv_store s)"
  by (auto simp: svc_ok_def core_ok_def refs_ok_def task_require_def task_get_def split: option.splits dest: map_of_SomeD)

lemma tick_loop_ok:
  "svc_ok cfg s \<Longrightarrow> \<forall>i \<in> set is. i < length (sv_heap s) \<Longrightarrow> svc_ok cfg (fold (tick_task cfg now) is s)"
proof (induction "is" arbitrary: s)
  case (Cons i "is")
  have i: "i < length (sv_heap s)" using Cons.prems(2) by simp
  have "task_ok (sv_heap s ! i)" using Cons.prems(1) i by (simp add: svc_ok_def core_ok_def list_all_length)
  then have as: "status_of s i = PROCESSING \<Longrightarrow> \<exists>l st. tk_last (sv_heap s ! i) = Some l \<and> tk_started (sv_heap s ! i) = Some st"
    by (auto simp: task_ok_def status_of_def)
  have "svc_ok cfg (tick_task cfg now i s)"
  proof (cases "status_of s i = PROCESSING")
    case True
    with as obtain l st where "tk_last (sv_heap s ! i) = Some l" "tk_started (sv_heap s ! i) = Some st" by blast
    with True Cons.prems(1) i show ?thesis by (auto simp: tick_task_def intro!: finish_ok)
  qed (simp add: tick_task_def Cons.prems(1))
  moreover have "length (sv_heap (tick_task cfg now i s)) = length (sv_heap s)"
    by (simp add: tick_task_def split: option.split)
  ultimately show ?case using Cons by simp
qed simp

lemma asking_ok: "svc_ok cfg s \<Longrightarrow> svc_ok cfg (s\<lparr>sv_asking := x\<rparr>)"
  using same_core[of "s\<lparr>sv_asking := x\<rparr>" s] by (simp add: svc_ok_def sending_ok_def)

lemma svc_step_ok:
  assumes "svc_step cfg s t" "svc_ok cfg s" shows "svc_ok cfg t"
  using assms
proof (cases rule: svc_step.cases)
  case (submits trip rq now)
  then show ?thesis using assms(2) asking_ok accept_ok by (simp add: task_submit_def Let_def)
next
  case (ready k r now)
  then show ?thesis using assms(2) asking_ok accept_ok by (auto simp: worker_ready_def Let_def split: prod.split)
next
  case (progresses n trip st now)
  show ?thesis
  proof (cases "task_require trip s")
    case (Inr i)
    with require_ok[OF assms(2) Inr] assms(2) progresses show ?thesis
      using progress_ok[OF assms(2)] by (auto simp: task_progress_def)
  qed (simp add: progresses task_progress_def assms(2))
next
  case (completes trip res now)
  show ?thesis
  proof (cases "task_require trip s")
    case (Inr i)
    with require_ok[OF assms(2) Inr] assms(2) completes show ?thesis
      by (auto simp: task_complete_def intro!: next_ok finish_ok)
  qed (simp add: completes task_complete_def assms(2))
next
  case (fails trip err now)
  show ?thesis
  proof (cases "task_require trip s")
    case (Inr i)
    with require_ok[OF assms(2) Inr] assms(2) fails show ?thesis
      by (auto simp: task_fail_def intro!: next_ok finish_ok)
  qed (simp add: fails task_fail_def assms(2))
next
  case (cancels trip now)
  show ?thesis
  proof (cases "task_require trip s")
    case (Inr i)
    with require_ok[OF assms(2) Inr] assms(2) cancels show ?thesis
      by (auto simp: task_cancel_def intro!: finish_ok)
  qed (simp add: cancels task_cancel_def assms(2))
next
  case (ticks now)
  have "\<forall>i \<in> set (task_all s). i < length (sv_heap s)"
    using assms(2) by (auto simp: svc_ok_def core_ok_def refs_ok_def task_all_def)
  from next_ok[OF tick_loop_ok[OF assms(2) this]] show ?thesis by (simp add: ticks task_tick_def)
qed (simp_all add: wake_ok answer_ok)

lemma svc_reach_ok: "svc_reach cfg s \<Longrightarrow> svc_ok cfg s"
proof (induction rule: svc_reach.induct)
  case init
  show ?case by (simp add: svc_ok_def core_ok_def refs_ok_def waits_ok_def sending_ok_def svc_init_def task_count_def task_all_def)
qed (rule svc_step_ok)

section \<open>Transitions\<close>

text \<open>The moves the module documents.\<close>

definition documented_moves :: "(task_status \<times> task_status) set" where
  "documented_moves = {(QUEUED, PROCESSING), (QUEUED, CANCELED), (QUEUED, FAILED), (PROCESSING, COMPLETED),
     (PROCESSING, FAILED), (PROCESSING, CANCELED)}"

definition moves :: "svc \<Rightarrow> svc \<Rightarrow> bool" where
  "moves s t \<longleftrightarrow> (\<forall>i < length (sv_heap s). i < length (sv_heap t) \<and>
     (status_of t i = status_of s i \<or> (status_of s i, status_of t i) \<in> documented_moves \<or>
      sv_sending s = Some i \<and> status_of s i = CANCELED \<and> status_of t i \<in> {PROCESSING, FAILED}))"

lemma moves_same: "sv_heap t = sv_heap s \<Longrightarrow> moves s t"
  by (simp add: moves_def status_of_def)

lemma heap_next [simp]: "sv_heap (dispatch_next cfg s) = sv_heap s" "status_of (dispatch_next cfg s) = status_of s"
  by (auto simp: dispatch_next_def status_of_def fun_eq_iff)

lemma moves_finish:
  assumes "i < length (sv_heap s)" "(status_of s i, st) \<in> documented_moves"
  shows "moves s (task_finish i st r e now s)"
  using assms by (auto simp: moves_def status_set_task finish_task_def)

lemma moves_next: "moves s t \<Longrightarrow> moves s (dispatch_next cfg t)"
  by (simp add: moves_def)

lemma moves_progress:
  "i < length (sv_heap s) \<Longrightarrow> moves s (set_task i (\<lambda>t. t\<lparr>tk_done := n, tk_step := x, tk_last := y\<rparr>) s)"
  by (simp add: moves_def status_set_task) (simp add: status_of_def)

lemma moves_accept: "moves s (accept_task cfg trip rq now s)"
  by (simp add: moves_def accept_task_def Let_def task_put_def) (simp add: status_of_def nth_append)

lemma tick_task_cases:
  "tick_task cfg now i s = s \<or> tick_task cfg now i s = s\<lparr>sv_asserts := False\<rparr> \<or>
   status_of s i = PROCESSING \<and> (\<exists>e. tick_task cfg now i s = task_finish i FAILED None (Some e) now s)"
  by (auto simp: tick_task_def split: option.split)

lemma moves_head: "moves s t \<Longrightarrow> moves s (dispatch_head cfg t)"
  by (simp add: moves_def)

lemma moves_tick:
  assumes "\<forall>i \<in> set is. i < length (sv_heap s)" "distinct is"
  shows "length (sv_heap (fold (tick_task cfg now) is s)) = length (sv_heap s) \<and>
    (\<forall>i. status_of (fold (tick_task cfg now) is s) i = status_of s i \<or>
      i \<in> set is \<and> status_of s i = PROCESSING \<and> status_of (fold (tick_task cfg now) is s) i = FAILED)"
  using assms
proof (induction "is" arbitrary: s)
  case (Cons i "is")
  have i: "i < length (sv_heap s)" using Cons.prems(1) by simp
  let ?u = "tick_task cfg now i s"
  have l: "length (sv_heap ?u) = length (sv_heap s)" by (simp add: tick_task_def split: option.split)
  have u: "status_of ?u j = status_of s j \<or> j = i \<and> status_of s j = PROCESSING \<and> status_of ?u j = FAILED" for j
    using tick_task_cases[of cfg now i s] i
    by (cases "j = i"; elim disjE) (auto simp: status_set_task finish_task_def, simp_all add: status_of_def)
  from Cons.IH[of ?u] Cons.prems l have "length (sv_heap (fold (tick_task cfg now) is ?u)) = length (sv_heap ?u) \<and>
    (\<forall>i. status_of (fold (tick_task cfg now) is ?u) i = status_of ?u i \<or>
      i \<in> set is \<and> status_of ?u i = PROCESSING \<and> status_of (fold (tick_task cfg now) is ?u) i = FAILED)" by simp
  with u l show ?case by (simp, metis task_status.distinct)
qed simp

lemma step_moves:
  assumes "svc_reach cfg s" "svc_step cfg s t"
  shows "moves s t"
  using assms(2)
proof (cases rule: svc_step.cases)
  case (submits trip rq now)
  then show ?thesis by (auto simp: task_submit_def Let_def moves_accept intro: moves_same)
next
  case (ready k r now)
  show ?thesis using moves_accept[of "s\<lparr>sv_asking := x\<rparr>" for x] unfolding ready
    by (auto simp: worker_ready_def Let_def moves_def status_of_def split: prod.split)
next
  case wakes
  then show ?thesis by (intro moves_same) (simp add: lock_wakes_def)
next
  case (answers i a now)
  have "i < length (sv_heap s)" "status_of s i \<in> {QUEUED, CANCELED}"
    using svc_reach_ok[OF assms(1)] answers by (auto simp: svc_ok_def sending_ok_def)
  with answers have "moves s (set_task i (start_task now) s)"
      "moves s (task_finish i FAILED None (Some e) now s)" for e
    by (auto simp: moves_def status_set_task start_task_def finish_task_def documented_moves_def)
  then show ?thesis unfolding answers(1) by (cases a) (simp_all add: worker_answers_def moves_head moves_same)
next
  case (progresses n trip st now)
  note ok = svc_reach_ok[OF assms(1)]
  show ?thesis unfolding progresses using require_ok[OF ok, of trip]
    by (auto simp: task_progress_def intro: moves_progress moves_same split: sum.split)
next
  case (completes trip res now)
  show ?thesis unfolding completes using require_ok[OF svc_reach_ok[OF assms(1)], of trip]
    by (auto simp: task_complete_def documented_moves_def intro!: moves_next intro: moves_finish moves_same split: sum.split)
next
  case (fails trip err now)
  show ?thesis unfolding fails using require_ok[OF svc_reach_ok[OF assms(1)], of trip]
    by (auto simp: task_fail_def documented_moves_def intro!: moves_next intro: moves_finish moves_same split: sum.split)
next
  case (cancels trip now)
  show ?thesis unfolding cancels using require_ok[OF svc_reach_ok[OF assms(1)], of trip]
    by (auto simp: task_cancel_def documented_moves_def intro: moves_finish moves_same split: sum.split)
next
  case (ticks now)
  have "\<forall>i \<in> set (task_all s). i < length (sv_heap s)" "distinct (task_all s)"
    using svc_reach_ok[OF assms(1)] by (auto simp: svc_ok_def core_ok_def refs_ok_def task_all_def)
  from moves_tick[OF this, of cfg now] show ?thesis
    unfolding ticks by (simp add: task_tick_def moves_def documented_moves_def) metis
qed

section \<open>Every running task is counted in an orderly run\<close>


















section \<open>Properties\<close>


text \<open>C36. The status of a task only moves along the documented transitions, with one exception: a task that is
  cancelled while it is being sent to the worker is started, or failed, by the worker's answer.  A task is
  never dropped from memory while a coroutine holds it.\<close>

theorem statuses_move_as_documented:
  assumes "svc_reach cfg s" "svc_step cfg s t"
  shows "moves s t"
  using step_moves[OF assms] .

section \<open>Runs\<close>

definition tx_cfg :: task_settings where
  "tx_cfg = \<lparr>ts_concurrent = 1, ts_queue = 20, ts_dead = 120, ts_timeout = 1800\<rparr>"

definition tx_rq :: process_request where
  "tx_rq = \<lparr>rq_exec = None, rq_name = [], rq_period = \<lparr>pd_start = 0, pd_end = 0\<rparr>, rq_regions = [], rq_attachments = []\<rparr>"

text \<open>A submission whose worker is ready, and is then asked to take the task.\<close>

definition tx_asked :: svc where
  "tx_asked = snd (task_submit tx_cfg 7 tx_rq 1 svc_init)"

definition tx_sent :: svc where
  "tx_sent = snd (worker_ready tx_cfg 0 (Some True) 2 tx_asked)"

definition tx_cancelled :: svc where
  "tx_cancelled = snd (task_cancel 7 3 tx_sent)"

definition tx_restarted :: svc where
  "tx_restarted = worker_answers tx_cfg W_accepted 4 0 tx_cancelled"

lemma tx_states:
  "sv_asking tx_asked = [(7, tx_rq)]" "sv_sending tx_sent = Some 0" "task_get tx_sent 7 = Some 0"
  "sv_sending tx_cancelled = Some 0" "status_of tx_cancelled 0 = CANCELED" "may_return tx_cancelled 7"
  "status_of tx_restarted 0 = PROCESSING" "length (sv_heap tx_cancelled) = 1" "task_count tx_restarted PROCESSING = 1"
  by code_simp+

lemma tx_reach: "svc_reach tx_cfg tx_sent" "svc_reach tx_cfg tx_cancelled" "svc_reach tx_cfg tx_restarted"
proof -
  have "svc_reach tx_cfg tx_asked" unfolding tx_asked_def by (intro svc_reach.step[OF svc_reach.init] submits)
  then show s: "svc_reach tx_cfg tx_sent" unfolding tx_sent_def
    by (rule svc_reach.step) (intro ready, simp add: tx_states)
  then show c: "svc_reach tx_cfg tx_cancelled" unfolding tx_cancelled_def by (rule svc_reach.step) (rule cancels)
  show "svc_reach tx_cfg tx_restarted" unfolding tx_restarted_def
    by (rule svc_reach.step[OF c]) (intro answers, simp add: tx_states)
qed



text \<open>The exception of the documented transitions occurs: a task whose caller has been told it is cancelled is
  started all the same.\<close>

theorem statuses_move_as_documented_witness:
  "moves tx_cancelled tx_restarted \<and> status_of tx_cancelled 0 = CANCELED \<and> may_return tx_cancelled 7 \<and>
   status_of tx_restarted 0 = PROCESSING"
proof -
  have "svc_step tx_cfg tx_cancelled tx_restarted" unfolding tx_restarted_def by (intro answers) (simp add: tx_states)
  from statuses_move_as_documented[OF tx_reach(2) this] show ?thesis by (simp add: tx_states)
qed

text \<open>Two submissions of one trip that both wait for the worker's readiness are both accepted; the second
  replaces the first, whose task is no longer in the store although the worker has been asked to run it.\<close>

definition tx_twice :: svc where
  "tx_twice = snd (worker_ready tx_cfg 0 (Some True) 3 (snd (worker_ready tx_cfg 0 (Some True) 2
     (snd (task_submit tx_cfg 7 tx_rq 1 tx_asked)))))"

lemma tx_twice_reach: "svc_reach tx_cfg tx_twice"
proof -
  have "svc_reach tx_cfg tx_asked" unfolding tx_asked_def by (intro svc_reach.step[OF svc_reach.init] submits)
  then have "svc_reach tx_cfg (snd (task_submit tx_cfg 7 tx_rq 1 tx_asked))" (is "svc_reach _ ?a")
    by (rule svc_reach.step) (rule submits)
  moreover have "length (sv_asking ?a) = 2" by code_simp
  ultimately have "svc_reach tx_cfg (snd (worker_ready tx_cfg 0 (Some True) 2 ?a))" (is "svc_reach _ ?b")
    by (elim svc_reach.step) (intro ready, simp)
  moreover have "length (sv_asking ?b) = 1" by code_simp
  ultimately show ?thesis unfolding tx_twice_def by (elim svc_reach.step) (intro ready, simp)
qed

text \<open>When the worker takes both, two tasks run although the limit is one: the store does not count the first.\<close>

definition tx_both :: svc where
  "tx_both = worker_answers tx_cfg W_accepted 5 1 (worker_answers tx_cfg W_accepted 4 0 tx_twice)"

lemma second_submission_replaces_first:
  "\<exists>s. svc_reach tx_cfg s \<and> sv_sending s = Some 0 \<and> \<not> terminal (status_of s 0) \<and> tk_trip (sv_heap s ! 0) = 7 \<and>
     task_get s 7 = Some 1"
proof -
  have "sv_sending tx_twice = Some 0" "\<not> terminal (status_of tx_twice 0)" "tk_trip (sv_heap tx_twice ! 0) = 7"
    "task_get tx_twice 7 = Some 1" by code_simp+
  with tx_twice_reach show ?thesis by blast
qed

lemma a_replaced_task_runs_uncounted:
  "svc_reach tx_cfg tx_both \<and> ts_concurrent tx_cfg = 1 \<and> running_tasks tx_both = [0, 1] \<and> task_count tx_both PROCESSING = 1"
proof -
  have "sv_sending tx_twice = Some 0" "sv_sending (worker_answers tx_cfg W_accepted 4 0 tx_twice) = Some 1" by code_simp+
  then have "svc_reach tx_cfg tx_both" unfolding tx_both_def
    by (intro svc_reach.step[OF _ answers] tx_twice_reach)
  moreover have "running_tasks tx_both = [0, 1]" "task_count tx_both PROCESSING = 1" "ts_concurrent tx_cfg = 1" by code_simp+
  ultimately show ?thesis by blast
qed

end
