(* ===== verification/Worker.thy ===== *)
theory Worker
  imports TaskService
begin

text \<open>
  The worker process of the first API version: \<open>src/app/worker/runner.py\<close>, \<open>callback.py\<close> and
  \<open>routers/jobs.py\<close>.  Two threads share \<open>_current\<close> and \<open>_cancel_flags\<close> under a lock: the event loop, which
  runs the routes, and the one thread of the executor, which runs a job after the other.  A step is what one
  thread does between two points where the other may act; the cancel flags are objects, found again by
  their position in \<open>wk_events\<close>.  The pipeline is an unknown function of the request: what it reports and
  polls, and what it returns or raises.  The last three fields record what happened.
\<close>

section \<open>A run of the pipeline\<close>

datatype pipeline_run =
  Run_reports process_step nat nat pipeline_run
| Run_polls "bool \<Rightarrow> pipeline_run"
| Run_returns process_result
| Run_raises error_code "(string \<times> json) list"
| Run_breaks "(string \<times> json) list"

datatype callback = Progress_in process_step nat nat | Result_in process_result | Failed_in error_body

fun final_callback :: "callback \<Rightarrow> bool" where
  "final_callback (Progress_in st n m) = False"
| "final_callback _ = True"

section \<open>The callback client\<close>

text \<open>An attempt of \<open>_post\<close>: whether the request arrives, and the status of the answer, if there is one.\<close>

record attempt_fate =
  af_arrives :: bool
  af_status :: "nat option"

definition answered :: "attempt_fate \<Rightarrow> bool" where
  "answered a = (case af_status a of Some st \<Rightarrow> st < 500 | None \<Rightarrow> False)"

text \<open>\<open>None\<close>: the loop is over, delivered or given up.\<close>

definition post_attempt :: "nat \<Rightarrow> nat \<Rightarrow> attempt_fate \<Rightarrow> nat option" where
  "post_attempt retries n a =
     (if answered a then None
      else if n + 1 < max retries 1 then Some (n + 1) else None)"

section \<open>The state\<close>

text \<open>\<open>wj_no\<close> numbers the accepted jobs.\<close>

record worker_job =
  wj_no :: nat
  wj_trip :: int
  wj_request :: process_request

text \<open>Where the runner thread is: waiting for work, at the start of \<open>_execute\<close>, in \<open>run_fn\<close>, in the progress
  callback (with the number of the attempt), before the \<open>finally\<close> block, in the final callback, or gone.\<close>

datatype runner_thread =
  Th_idle
| Th_taken worker_job
| Th_inside worker_job nat pipeline_run
| Th_reporting worker_job nat pipeline_run callback nat
| Th_ended worker_job callback
| Th_answering worker_job callback nat
| Th_gone

datatype route_point = Lp_free | Lp_submitting worker_job | Lp_cancelling nat

record worker =
  wk_loaded :: bool
  wk_current :: "int option"
  wk_flags :: "(int, nat) pydict"
  wk_events :: "bool list"
  wk_queue :: "worker_job list"
  wk_thread :: runner_thread
  wk_loop :: route_point
  wk_accepted :: "worker_job list"
  wk_attempts :: "(worker_job \<times> callback \<times> attempt_fate) list"
  wk_ended :: "(worker_job \<times> callback) list"

definition worker_init :: worker where
  "worker_init = \<lparr>wk_loaded = False, wk_current = None, wk_flags = [], wk_events = [], wk_queue = [],
     wk_thread = Th_idle, wk_loop = Lp_free, wk_accepted = [], wk_attempts = [], wk_ended = []\<rparr>"

section \<open>The routes\<close>

definition runner_busy :: "worker \<Rightarrow> bool" where
  "runner_busy w \<longleftrightarrow> wk_current w \<noteq> None"

text \<open>\<open>submit\<close> up to the end of the lock, and handing the job to the executor.\<close>

definition runner_submit :: "int \<Rightarrow> process_request \<Rightarrow> worker \<Rightarrow> bool \<times> worker" where
  "runner_submit trip rq w =
     (if wk_current w \<noteq> None then (False, w)
      else let j = \<lparr>wj_no = length (wk_accepted w), wj_trip = trip, wj_request = rq\<rparr>
           in (True, w\<lparr>wk_current := Some trip, wk_flags := dict_set trip (length (wk_events w)) (wk_flags w),
                wk_events := wk_events w @ [False], wk_loop := Lp_submitting j,
                wk_accepted := wk_accepted w @ [j]\<rparr>))"

definition hand_over :: "worker \<Rightarrow> worker" where
  "hand_over w =
     (case wk_loop w of
        Lp_submitting j \<Rightarrow> w\<lparr>wk_queue := wk_queue w @ [j], wk_loop := Lp_free\<rparr>
      | _ \<Rightarrow> w)"

text \<open>\<open>cancel\<close>: the flag is found under the lock and set after it.\<close>

definition runner_cancel :: "int \<Rightarrow> worker \<Rightarrow> bool \<times> worker" where
  "runner_cancel trip w =
     (case map_of (wk_flags w) trip of
        None \<Rightarrow> (False, w)
      | Some e \<Rightarrow> (True, w\<lparr>wk_loop := Lp_cancelling e\<rparr>))"

definition set_flag :: "worker \<Rightarrow> worker" where
  "set_flag w =
     (case wk_loop w of
        Lp_cancelling e \<Rightarrow> w\<lparr>wk_events := (wk_events w)[e := True], wk_loop := Lp_free\<rparr>
      | _ \<Rightarrow> w)"

definition submit_job :: "int \<Rightarrow> process_request \<Rightarrow> worker \<Rightarrow> (app_error + unit) \<times> worker" where
  "submit_job trip rq w =
     (if \<not> wk_loaded w then (Inl (mk_app_error MODEL_NOT_READY None None), w)
      else case runner_submit trip rq w of
             (True, w') \<Rightarrow> (Inr (), w')
           | (False, w') \<Rightarrow> (Inl (mk_app_error WORKER_BUSY None None), w'))"

definition cancel_job :: "int \<Rightarrow> worker \<Rightarrow> (app_error + unit) \<times> worker" where
  "cancel_job trip w =
     (case runner_cancel trip w of
        (True, w') \<Rightarrow> (Inr (), w')
      | (False, w') \<Rightarrow> (Inl (mk_app_error TASK_NOT_FOUND None None), w'))"

definition worker_ready_answer :: "worker \<Rightarrow> bool \<times> bool" where
  "worker_ready_answer w = (wk_loaded w, if wk_loaded w then runner_busy w else False)"

section \<open>The runner thread\<close>

definition note_attempt :: "worker_job \<Rightarrow> callback \<Rightarrow> attempt_fate \<Rightarrow> worker \<Rightarrow> worker" where
  "note_attempt j c a w = w\<lparr>wk_attempts := wk_attempts w @ [(j, c, a)]\<rparr>"

definition internal_error :: "(string \<times> json) list \<Rightarrow> error_body" where
  "internal_error d = \<lparr>eb_code = INTERNAL_ERROR, eb_detail = d\<rparr>"

definition end_run :: "worker_job \<Rightarrow> callback \<Rightarrow> worker \<Rightarrow> worker" where
  "end_run j c w = w\<lparr>wk_thread := Th_ended j c, wk_ended := wk_ended w @ [(j, c)]\<rparr>"

text \<open>One step of \<open>_execute\<close>; \<open>run_fn\<close> gives the run of a request.  The attempt only matters while a callback
  is posted.  A flag that is not there is a \<open>KeyError\<close>, which ends the job without a callback.\<close>

definition execute_step :: "(process_request \<Rightarrow> pipeline_run) \<Rightarrow> nat \<Rightarrow> attempt_fate \<Rightarrow> worker \<Rightarrow> worker" where
  "execute_step run_fn retries a w =
     (case wk_thread w of
        Th_idle \<Rightarrow> (case wk_queue w of [] \<Rightarrow> w | j # js \<Rightarrow> w\<lparr>wk_queue := js, wk_thread := Th_taken j\<rparr>)
      | Th_taken j \<Rightarrow>
          (case map_of (wk_flags w) (wj_trip j) of
             None \<Rightarrow> w\<lparr>wk_thread := Th_gone\<rparr>
           | Some e \<Rightarrow> w\<lparr>wk_thread := Th_inside j e (run_fn (wj_request j))\<rparr>)
      | Th_inside j e pr \<Rightarrow>
          (case pr of
             Run_reports st n m rest \<Rightarrow> w\<lparr>wk_thread := Th_reporting j e rest (Progress_in st n m) 0\<rparr>
           | Run_polls k \<Rightarrow> w\<lparr>wk_thread := Th_inside j e (k (wk_events w ! e))\<rparr>
           | Run_returns res \<Rightarrow> end_run j (Result_in res) w
           | Run_raises code d \<Rightarrow> end_run j (Failed_in \<lparr>eb_code = code, eb_detail = d\<rparr>) w
           | Run_breaks d \<Rightarrow> end_run j (Failed_in (internal_error d)) w)
      | Th_reporting j e rest c n \<Rightarrow>
          (case post_attempt retries n a of
             None \<Rightarrow> (note_attempt j c a w)\<lparr>wk_thread := Th_inside j e rest\<rparr>
           | Some n' \<Rightarrow> (note_attempt j c a w)\<lparr>wk_thread := Th_reporting j e rest c n'\<rparr>)
      | Th_ended j c \<Rightarrow>
          w\<lparr>wk_current := None, wk_flags := filter (\<lambda>f. fst f \<noteq> wj_trip j) (wk_flags w),
            wk_thread := Th_answering j c 0\<rparr>
      | Th_answering j c n \<Rightarrow>
          (case post_attempt retries n a of
             None \<Rightarrow> (note_attempt j c a w)\<lparr>wk_thread := Th_idle\<rparr>
           | Some n' \<Rightarrow> (note_attempt j c a w)\<lparr>wk_thread := Th_answering j c n'\<rparr>)
      | Th_gone \<Rightarrow> w)"

section \<open>Steps\<close>

text \<open>A route runs only when the event loop is free; the model is loaded once.\<close>

inductive worker_step :: "(process_request \<Rightarrow> pipeline_run) \<Rightarrow> nat \<Rightarrow> worker \<Rightarrow> worker \<Rightarrow> bool" for run_fn retries where
  loads: "worker_step run_fn retries w (w\<lparr>wk_loaded := True\<rparr>)"
| submits: "wk_loop w = Lp_free \<Longrightarrow> worker_step run_fn retries w (snd (submit_job trip rq w))"
| hands_over: "worker_step run_fn retries w (hand_over w)"
| cancels: "wk_loop w = Lp_free \<Longrightarrow> worker_step run_fn retries w (snd (cancel_job trip w))"
| sets_flag: "worker_step run_fn retries w (set_flag w)"
| executes: "worker_step run_fn retries w (execute_step run_fn retries a w)"

inductive worker_reach :: "(process_request \<Rightarrow> pipeline_run) \<Rightarrow> nat \<Rightarrow> worker \<Rightarrow> bool" for run_fn retries where
  init: "worker_reach run_fn retries worker_init"
| step: "worker_reach run_fn retries w \<Longrightarrow> worker_step run_fn retries w v \<Longrightarrow> worker_reach run_fn retries v"

inductive_cases worker_stepE: "worker_step run_fn retries w v"

section \<open>The client of the API\<close>

text \<open>\<open>WorkerClient.submit\<close>: what the status of the answer means; \<open>d\<close> is the detail of the exception.\<close>

definition submit_status :: "app_error + unit \<Rightarrow> nat" where
  "submit_status r = (case r of Inr _ \<Rightarrow> 202 | Inl e \<Rightarrow> ae_http_status e)"

definition submit_result :: "(string \<times> json) list \<Rightarrow> nat \<Rightarrow> submit_answer" where
  "submit_result d st =
     (if st = 202 then W_accepted else if st = 409 then W_busy else if st = 503 then W_not_ready
      else W_unavailable d)"

end
