(* ===== verification/WorkerTheorems.thy ===== *)
theory WorkerTheorems
  imports Worker
begin

text \<open>
  The worker process: one job at a time in the order of acceptance, each with the outcome of its own run and
  answered by one final callback after its slot is free.
\<close>

section \<open>What a run may end with\<close>

inductive run_ends :: "pipeline_run \<Rightarrow> callback \<Rightarrow> bool" where
  reports: "run_ends r c \<Longrightarrow> run_ends (Run_reports st n m r) c"
| polls: "run_ends (k b) c \<Longrightarrow> run_ends (Run_polls k) c"
| returns: "run_ends (Run_returns res) (Result_in res)"
| raises: "run_ends (Run_raises code d) (Failed_in \<lparr>eb_code = code, eb_detail = d\<rparr>)"
| breaks: "run_ends (Run_breaks d) (Failed_in (internal_error d))"

text \<open>The run nobody cancels.\<close>

primrec undisturbed :: "pipeline_run \<Rightarrow> callback" where
  "undisturbed (Run_reports st n m r) = undisturbed r"
| "undisturbed (Run_polls k) = undisturbed (k False)"
| "undisturbed (Run_returns res) = Result_in res"
| "undisturbed (Run_raises code d) = Failed_in \<lparr>eb_code = code, eb_detail = d\<rparr>"
| "undisturbed (Run_breaks d) = Failed_in (internal_error d)"

lemma run_ends_final: "run_ends r c \<Longrightarrow> final_callback c"
  by (induction rule: run_ends.induct) auto

section \<open>Who has the slot\<close>

fun thread_job :: "runner_thread \<Rightarrow> worker_job list" where
  "thread_job (Th_taken j) = [j]"
| "thread_job (Th_inside j e r) = [j]"
| "thread_job (Th_reporting j e r c n) = [j]"
| "thread_job _ = []"

fun ended_job :: "runner_thread \<Rightarrow> worker_job list" where
  "ended_job (Th_ended j c) = [j]"
| "ended_job _ = []"

fun loop_job :: "route_point \<Rightarrow> worker_job list" where
  "loop_job (Lp_submitting j) = [j]"
| "loop_job _ = []"

text \<open>The jobs that have not ended, and the jobs that hold the slot.\<close>

definition unfinished :: "worker \<Rightarrow> worker_job list" where
  "unfinished w = thread_job (wk_thread w) @ wk_queue w @ loop_job (wk_loop w)"

definition holding :: "worker \<Rightarrow> worker_job list" where
  "holding w = ended_job (wk_thread w) @ unfinished w"

fun slot_ok :: "worker_job list \<Rightarrow> int option \<Rightarrow> (int, nat) pydict \<Rightarrow> bool" where
  "slot_ok [] cur flags = (cur = None \<and> flags = [])"
| "slot_ok [j] cur flags = (cur = Some (wj_trip j) \<and> flags = [(wj_trip j, wj_no j)])"
| "slot_ok _ cur flags = False"

lemma slot_ok_length: "slot_ok js cur flags \<Longrightarrow> length js \<le> 1 \<and> (cur \<noteq> None \<longleftrightarrow> js \<noteq> [])"
  by (induction js cur flags rule: slot_ok.induct) auto

definition slot_inv :: "worker \<Rightarrow> bool" where
  "slot_inv w \<longleftrightarrow>
     slot_ok (holding w) (wk_current w) (wk_flags w) \<and>
     map fst (wk_ended w) @ unfinished w = wk_accepted w \<and>
     map wj_no (wk_accepted w) = [0..<length (wk_accepted w)] \<and>
     length (wk_events w) = length (wk_accepted w) \<and>
     wk_thread w \<noteq> Th_gone"

section \<open>What the thread is doing\<close>

definition follows :: "(process_request \<Rightarrow> pipeline_run) \<Rightarrow> worker \<Rightarrow> worker_job \<Rightarrow> pipeline_run \<Rightarrow> bool" where
  "follows run_fn w j r \<longleftrightarrow>
     (\<forall>c. run_ends r c \<longrightarrow> run_ends (run_fn (wj_request j)) c) \<and>
     (\<not> wk_events w ! wj_no j \<longrightarrow> undisturbed r = undisturbed (run_fn (wj_request j)))"

definition outcome_ok :: "(process_request \<Rightarrow> pipeline_run) \<Rightarrow> bool list \<Rightarrow> worker_job \<times> callback \<Rightarrow> bool" where
  "outcome_ok run_fn events jc \<longleftrightarrow>
     (case jc of (j, c) \<Rightarrow>
        run_ends (run_fn (wj_request j)) c \<and> (\<not> events ! wj_no j \<longrightarrow> c = undisturbed (run_fn (wj_request j))))"

fun thread_ok :: "(process_request \<Rightarrow> pipeline_run) \<Rightarrow> worker \<Rightarrow> runner_thread \<Rightarrow> bool" where
  "thread_ok run_fn w (Th_inside j e r) = (e = wj_no j \<and> follows run_fn w j r)"
| "thread_ok run_fn w (Th_reporting j e r c n) = (e = wj_no j \<and> follows run_fn w j r \<and> \<not> final_callback c)"
| "thread_ok run_fn w (Th_ended j c) = (wk_ended w \<noteq> [] \<and> last (wk_ended w) = (j, c))"
| "thread_ok run_fn w (Th_answering j c n) = (wk_ended w \<noteq> [] \<and> last (wk_ended w) = (j, c))"
| "thread_ok run_fn w _ = True"

definition run_inv :: "(process_request \<Rightarrow> pipeline_run) \<Rightarrow> worker \<Rightarrow> bool" where
  "run_inv run_fn w \<longleftrightarrow>
     thread_ok run_fn w (wk_thread w) \<and> (\<forall>jc \<in> set (wk_ended w). outcome_ok run_fn (wk_events w) jc)"

text \<open>Setting a flag only weakens what is known.\<close>

lemma flag_keeps: "\<not> xs[e := True] ! i \<Longrightarrow> \<not> xs ! i"
  by (cases "e < length xs") (auto simp: nth_list_update list_update_beyond split: if_splits)

definition flagged :: "worker \<Rightarrow> worker \<Rightarrow> bool" where
  "flagged w v \<longleftrightarrow> (\<exists>e. wk_events v = (wk_events w)[e := True]) \<or> wk_events v = wk_events w"

lemma flagged_keeps: "flagged w v \<Longrightarrow> \<not> wk_events v ! i \<Longrightarrow> \<not> wk_events w ! i"
  by (auto simp: flagged_def dest: flag_keeps)

lemma flag_follows: "flagged w v \<Longrightarrow> follows run_fn w j r \<Longrightarrow> follows run_fn v j r"
  unfolding follows_def using flagged_keeps by blast

lemma flag_outcome: "flagged w v \<Longrightarrow> outcome_ok run_fn (wk_events w) jc \<Longrightarrow> outcome_ok run_fn (wk_events v) jc"
  unfolding outcome_ok_def using flagged_keeps by (cases jc) auto

lemma numbered_mem: "map wj_no js = [0..<length js] \<Longrightarrow> j \<in> set js \<Longrightarrow> wj_no j < length js"
  by (metis atLeastLessThan_iff image_eqI list.set_map set_upt)

lemma slot_take: "slot_inv w \<Longrightarrow> holding w = [j] \<Longrightarrow> map_of (wk_flags w) (wj_trip j) = Some (wj_no j)"
  by (simp add: slot_inv_def)

section \<open>The slot is kept right\<close>

lemma submit_keeps_slot:
  assumes "slot_inv w" "wk_loop w = Lp_free"
  shows "slot_inv (snd (submit_job trip rq w))"
proof (cases "wk_loaded w \<and> wk_current w = None")
  case True
  then have "holding w = []" using assms(1) slot_ok_length by (auto simp: slot_inv_def)
  then have "wk_queue w = []" "thread_job (wk_thread w) = []" "ended_job (wk_thread w) = []" "wk_flags w = []"
    using assms(1) by (auto simp: slot_inv_def holding_def unfinished_def)
  with True assms show ?thesis
    by (auto simp: submit_job_def runner_submit_def slot_inv_def holding_def unfinished_def Let_def)
next
  case False
  then have "snd (submit_job trip rq w) = w" by (auto simp: submit_job_def runner_submit_def)
  with assms(1) show ?thesis by simp
qed

lemma slot_same:
  assumes "slot_inv w" "holding v = holding w" "unfinished v = unfinished w" "wk_current v = wk_current w"
    "wk_flags v = wk_flags w" "wk_ended v = wk_ended w" "wk_accepted v = wk_accepted w"
    "length (wk_events v) = length (wk_events w)" "wk_thread v \<noteq> Th_gone"
  shows "slot_inv v"
  using assms by (simp add: slot_inv_def)

lemma hand_over_keeps_slot: "slot_inv w \<Longrightarrow> slot_inv (hand_over w)"
  by (rule slot_same[of w]) (auto simp: hand_over_def holding_def unfinished_def slot_inv_def split: route_point.split)

lemma set_flag_keeps_slot: "slot_inv w \<Longrightarrow> slot_inv (set_flag w)"
  by (rule slot_same[of w]) (auto simp: set_flag_def holding_def unfinished_def slot_inv_def split: route_point.split)

lemma cancel_keeps_slot: "slot_inv w \<Longrightarrow> wk_loop w = Lp_free \<Longrightarrow> slot_inv (snd (cancel_job trip w))"
  by (rule slot_same[of w])
     (auto simp: cancel_job_def runner_cancel_def holding_def unfinished_def slot_inv_def split: option.split)

lemma execute_keeps_slot:
  assumes "slot_inv w"
  shows "slot_inv (execute_step run_fn retries a w)"
proof (cases "wk_thread w")
  case Th_idle
  then show ?thesis
    by (intro slot_same[OF assms]) (auto simp: execute_step_def holding_def unfinished_def split: list.split)
next
  case (Th_taken j)
  then have "holding w = [j]" using assms slot_ok_length[of "holding w"]
    by (auto simp: slot_inv_def holding_def unfinished_def)
  then have "map_of (wk_flags w) (wj_trip j) = Some (wj_no j)" by (rule slot_take[OF assms])
  with Th_taken show ?thesis by (intro slot_same[OF assms]) (auto simp: execute_step_def holding_def unfinished_def)
next
  case (Th_inside j e r)
  then have "holding w = [j]" using assms slot_ok_length[of "holding w"]
    by (auto simp: slot_inv_def holding_def unfinished_def)
  then show ?thesis
  proof (cases r)
    case (Run_reports st n m rest)
    with Th_inside show ?thesis by (intro slot_same[OF assms]) (auto simp: execute_step_def holding_def unfinished_def)
  next
    case (Run_polls k)
    with Th_inside show ?thesis by (intro slot_same[OF assms]) (auto simp: execute_step_def holding_def unfinished_def)
  qed (use assms Th_inside in \<open>auto simp: execute_step_def end_run_def slot_inv_def holding_def unfinished_def\<close>)
next
  case (Th_reporting j e r c n)
  then show ?thesis
    by (intro slot_same[OF assms])
       (auto simp: execute_step_def holding_def unfinished_def note_attempt_def split: option.split)
next
  case (Th_ended j c)
  then have "holding w = [j]" "unfinished w = []" using assms slot_ok_length[of "holding w"]
    by (auto simp: slot_inv_def holding_def)
  with Th_ended assms show ?thesis
    by (auto simp: execute_step_def slot_inv_def holding_def unfinished_def)
next
  case (Th_answering j c n)
  then show ?thesis
    by (intro slot_same[OF assms])
       (auto simp: execute_step_def holding_def unfinished_def note_attempt_def split: option.split)
next
  case Th_gone
  with assms show ?thesis by (simp add: slot_inv_def)
qed

lemma step_keeps_slot: "worker_step run_fn retries w v \<Longrightarrow> slot_inv w \<Longrightarrow> slot_inv v"
proof (induction rule: worker_step.induct)
  case (loads w)
  have "wk_thread w \<noteq> Th_gone" using loads by (simp add: slot_inv_def)
  with loads show ?case by (elim slot_same) (auto simp: holding_def unfinished_def)
qed (simp_all add: submit_keeps_slot hand_over_keeps_slot cancel_keeps_slot set_flag_keeps_slot execute_keeps_slot)

section \<open>Runs and outcomes\<close>

lemma run_same:
  assumes "run_inv run_fn w" "wk_thread v = wk_thread w" "wk_ended v = wk_ended w" "flagged w v"
  shows "run_inv run_fn v"
proof -
  have "thread_ok run_fn w (wk_thread w)" using assms(1) by (simp add: run_inv_def)
  then have "thread_ok run_fn v (wk_thread w)"
    using assms(3) flag_follows[OF assms(4)] by (cases "wk_thread w") auto
  moreover have "\<forall>jc \<in> set (wk_ended w). outcome_ok run_fn (wk_events v) jc"
    using assms(1) flag_outcome[OF assms(4)] by (auto simp: run_inv_def)
  ultimately show ?thesis using assms(2,3) by (simp add: run_inv_def)
qed

lemma submit_keeps_run:
  assumes "run_inv run_fn w" "slot_inv w" "wk_loop w = Lp_free"
  shows "run_inv run_fn (snd (submit_job trip rq w))"
proof (cases "wk_loaded w \<and> wk_current w = None")
  case True
  let ?v = "snd (submit_job trip rq w)"
  have v: "wk_thread ?v = wk_thread w" "wk_ended ?v = wk_ended w" "wk_events ?v = wk_events w @ [False]"
    using True by (auto simp: submit_job_def runner_submit_def Let_def)
  have "thread_job (wk_thread w) = []" "ended_job (wk_thread w) = []"
    using True assms(2) slot_ok_length[of "holding w"] by (auto simp: slot_inv_def holding_def unfinished_def)
  then have "thread_ok run_fn ?v (wk_thread w)" using assms(1) v by (cases "wk_thread w") (auto simp: run_inv_def)
  moreover have "outcome_ok run_fn (wk_events w @ [False]) jc" if jc: "jc \<in> set (wk_ended w)" for jc
  proof -
    have "wk_accepted w = map fst (wk_ended w) @ unfinished w" using assms(2) by (simp add: slot_inv_def)
    then have "fst jc \<in> set (wk_accepted w)" using jc by simp
    then have "wj_no (fst jc) < length (wk_accepted w)"
      using assms(2) by (intro numbered_mem) (simp_all add: slot_inv_def)
    then have "wj_no (fst jc) < length (wk_events w)" using assms(2) by (simp add: slot_inv_def)
    with assms(1) jc show ?thesis by (auto simp: run_inv_def outcome_ok_def nth_append)
  qed
  ultimately show ?thesis using v by (simp add: run_inv_def)
next
  case False
  then have "snd (submit_job trip rq w) = w" by (auto simp: submit_job_def runner_submit_def)
  with assms(1) show ?thesis by simp
qed

lemma execute_keeps_run:
  assumes inv: "run_inv run_fn w" and slot: "slot_inv w"
  shows "run_inv run_fn (execute_step run_fn retries a w)"
proof (cases "wk_thread w")
  case Th_idle
  with inv show ?thesis by (auto simp: run_inv_def execute_step_def split: list.split)
next
  case (Th_taken j)
  then have "holding w = [j]" using slot slot_ok_length[of "holding w"]
    by (auto simp: slot_inv_def holding_def unfinished_def)
  then have "map_of (wk_flags w) (wj_trip j) = Some (wj_no j)" by (rule slot_take[OF slot])
  with Th_taken inv show ?thesis by (auto simp: run_inv_def execute_step_def follows_def)
next
  case (Th_inside j e r)
  then have ok: "e = wj_no j" "follows run_fn w j r" using inv by (auto simp: run_inv_def)
  have outs: "\<forall>jc \<in> set (wk_ended w). outcome_ok run_fn (wk_events w) jc" using inv by (simp add: run_inv_def)
  show ?thesis
  proof (cases r)
    case (Run_polls k)
    have "follows run_fn v j (k (wk_events w ! e))" if "wk_events v = wk_events w" for v
      using ok that unfolding Run_polls follows_def by (auto intro: run_ends.polls)
    with Th_inside Run_polls ok outs show ?thesis by (auto simp: run_inv_def execute_step_def)
  next
    case (Run_reports st n m rest)
    have "follows run_fn v j rest" if "wk_events v = wk_events w" for v
      using ok that unfolding Run_reports follows_def by (auto intro: run_ends.reports)
    with Th_inside Run_reports ok outs show ?thesis by (auto simp: run_inv_def execute_step_def)
  qed (use Th_inside ok outs in \<open>auto simp: run_inv_def execute_step_def end_run_def outcome_ok_def follows_def
        intro: run_ends.intros\<close>)
next
  case (Th_reporting j e r c n)
  have "follows run_fn v j r" if "follows run_fn w j r" "wk_events v = wk_events w" for v
    using that by (simp add: follows_def)
  with Th_reporting inv show ?thesis
    by (auto simp: run_inv_def execute_step_def note_attempt_def split: option.split)
next
  case (Th_ended j c)
  with inv show ?thesis by (auto simp: run_inv_def execute_step_def)
next
  case (Th_answering j c n)
  with inv show ?thesis by (auto simp: run_inv_def execute_step_def note_attempt_def split: option.split)
next
  case Th_gone
  with inv show ?thesis by (simp add: execute_step_def)
qed

lemma step_keeps_run:
  "worker_step run_fn retries w v \<Longrightarrow> slot_inv w \<Longrightarrow> run_inv run_fn w \<Longrightarrow> run_inv run_fn v"
proof (induction rule: worker_step.induct)
  case (submits w trip rq)
  then show ?case by (simp add: submit_keeps_run)
next
  case (executes w a)
  then show ?case by (simp add: execute_keeps_run)
next
  case (loads w)
  then show ?case by (elim run_same) (auto simp: flagged_def)
next
  case (hands_over w)
  then show ?case by (elim run_same) (auto simp: hand_over_def flagged_def split: route_point.split)
next
  case (cancels w trip)
  then show ?case
    by (elim run_same) (auto simp: cancel_job_def runner_cancel_def flagged_def split: option.split)
next
  case (sets_flag w)
  then show ?case by (elim run_same) (auto simp: set_flag_def flagged_def split: route_point.split)
qed


section \<open>Callbacks\<close>

text \<open>Callbacks are posted in the order of this key: the progress of a job, then its final callback.\<close>

fun callback_key :: "worker_job \<times> callback \<times> attempt_fate \<Rightarrow> nat" where
  "callback_key (j, c, a) = 2 * wj_no j + (if final_callback c then 1 else 0)"

text \<open>The attempts at the final callback of a job.\<close>

definition final_fates :: "worker \<Rightarrow> worker_job \<Rightarrow> attempt_fate list" where
  "final_fates w j = map (snd \<circ> snd) (filter (\<lambda>(j', c, a). j' = j \<and> final_callback c) (wk_attempts w))"

text \<open>What \<open>_post\<close> promises: attempts until one is answered with a status below 500, at most \<open>retries\<close>.\<close>

definition posted_well :: "nat \<Rightarrow> attempt_fate list \<Rightarrow> bool" where
  "posted_well retries fs \<longleftrightarrow>
     fs \<noteq> [] \<and> length fs \<le> max retries 1 \<and> (\<forall>f \<in> set (butlast fs). \<not> answered f) \<and>
     (answered (last fs) \<or> length fs = max retries 1)"

fun keys_bound :: "runner_thread \<Rightarrow> nat \<Rightarrow> nat \<Rightarrow> bool" where
  "keys_bound (Th_inside j e r) n k = (k \<le> 2 * n)"
| "keys_bound (Th_reporting j e r c i) n k = (k \<le> 2 * n)"
| "keys_bound (Th_ended j c) n k = (k + 1 < 2 * n)"
| "keys_bound _ n k = (k < 2 * n)"

text \<open>The final callback of the job that ended last may still be on its way.\<close>

fun answering_ok :: "runner_thread \<Rightarrow> nat \<Rightarrow> worker_job \<Rightarrow> attempt_fate list \<Rightarrow> bool" where
  "answering_ok (Th_ended i c) retries j fs = (if i = j then fs = [] else posted_well retries fs)"
| "answering_ok (Th_answering i c n) retries j fs =
     (if i = j then length fs = n \<and> n < max retries 1 \<and> (\<forall>f \<in> set fs. \<not> answered f) else posted_well retries fs)"
| "answering_ok _ retries j fs = posted_well retries fs"

definition post_inv :: "nat \<Rightarrow> worker \<Rightarrow> bool" where
  "post_inv retries w \<longleftrightarrow>
     sorted (map callback_key (wk_attempts w)) \<and>
     (\<forall>x \<in> set (wk_attempts w). keys_bound (wk_thread w) (length (wk_ended w)) (callback_key x)) \<and>
     (\<forall>(j, c, a) \<in> set (wk_attempts w). final_callback c \<longrightarrow> (j, c) \<in> set (wk_ended w)) \<and>
     (\<forall>j \<in> fst ` set (wk_ended w). answering_ok (wk_thread w) retries j (final_fates w j))"

lemma ended_numbers:
  assumes "slot_inv w"
  shows "map wj_no (map fst (wk_ended w)) = [0..<length (wk_ended w)]"
    "thread_job (wk_thread w) = [j] \<Longrightarrow> wj_no j = length (wk_ended w)"
proof -
  let ?n = "length (wk_ended w)"
  have acc: "wk_accepted w = map fst (wk_ended w) @ unfinished w" "map wj_no (wk_accepted w) = [0..<length (wk_accepted w)]"
    using assms by (auto simp: slot_inv_def)
  have "take ?n (map wj_no (wk_accepted w)) = map wj_no (map fst (wk_ended w))" by (simp add: acc(1))
  moreover have "take ?n [0..<length (wk_accepted w)] = [0..<?n]" using acc(1) by (simp add: take_upt)
  ultimately show "map wj_no (map fst (wk_ended w)) = [0..<?n]" using acc(2) by simp
  assume "thread_job (wk_thread w) = [j]"
  then have "wk_accepted w ! ?n = j" "?n < length (wk_accepted w)" by (simp_all add: acc(1) unfinished_def nth_append)
  then show "wj_no j = ?n" using acc(2) by (metis add_0 nth_map nth_upt)
qed

lemma ended_inj:
  assumes "slot_inv w" "j \<in> fst ` set (wk_ended w)" "i \<in> fst ` set (wk_ended w)" "wj_no i = wj_no j"
  shows "i = j"
proof -
  have "distinct (map wj_no (map fst (wk_ended w)))" using ended_numbers(1)[OF assms(1)] by simp
  then have "inj_on wj_no (set (map fst (wk_ended w)))" using distinct_map[of wj_no "map fst (wk_ended w)"] by blast
  with assms(2-4) show ?thesis by (auto dest: inj_onD)
qed

lemma last_number:
  assumes "slot_inv w" "wk_ended w \<noteq> []" "last (wk_ended w) = (j, c)"
  shows "wj_no j = length (wk_ended w) - 1"
proof -
  have "last (map wj_no (map fst (wk_ended w))) = wj_no j" using assms(2,3) by (simp add: last_map)
  then show ?thesis using ended_numbers(1)[OF assms(1)] assms(2) by (simp add: last_upt)
qed

lemma final_fates_attempt:
  "final_fates (note_attempt i c a w) j = final_fates w j @ (if i = j \<and> final_callback c then [a] else [])"
  by (simp add: final_fates_def note_attempt_def)

lemma post_same:
  assumes "post_inv retries w" "wk_attempts v = wk_attempts w" "wk_ended v = wk_ended w"
    "\<And>k. keys_bound (wk_thread w) (length (wk_ended w)) k \<Longrightarrow> keys_bound (wk_thread v) (length (wk_ended w)) k"
    "\<And>j fs. j \<in> fst ` set (wk_ended w) \<Longrightarrow> answering_ok (wk_thread w) retries j fs \<Longrightarrow> answering_ok (wk_thread v) retries j fs"
  shows "post_inv retries v"
  using assms by (auto simp: post_inv_def final_fates_def)

lemma end_keeps_post:
  assumes inv: "post_inv retries w" and slot: "slot_inv w" and th: "wk_thread w = Th_inside j e r"
  shows "post_inv retries (end_run j c w)"
proof -
  have no: "wj_no j = length (wk_ended w)" using ended_numbers(2)[OF slot] th by simp
  have bound: "k \<le> 2 * length (wk_ended w)" if "(i, d, a) \<in> set (wk_attempts w)" "k = callback_key (i, d, a)" for i d a k
    using inv that by (auto simp: post_inv_def th)
  have none: "final_fates w j = []"
  proof -
    have "\<not> (i = j \<and> final_callback d)" if "(i, d, a) \<in> set (wk_attempts w)" for i d a
      using bound[OF that] no by auto
    then show ?thesis by (force simp: final_fates_def filter_empty_conv)
  qed
  have "i \<noteq> j" if "i \<in> fst ` set (wk_ended w)" for i
    using that no numbered_mem[of "map fst (wk_ended w)" i] ended_numbers(1)[OF slot] by auto
  with inv none show ?thesis
    by (auto simp: post_inv_def th end_run_def final_fates_def)
qed

lemma report_keeps_post:
  assumes inv: "post_inv retries w" and slot: "slot_inv w" and th: "wk_thread w = Th_reporting j e r c n"
    and c: "\<not> final_callback c" and v: "v = (note_attempt j c a w)\<lparr>wk_thread := th'\<rparr>"
    and th': "th' = Th_inside j e r \<or> th' = Th_reporting j e r c n'"
  shows "post_inv retries v"
proof -
  have no: "wj_no j = length (wk_ended w)" using ended_numbers(2)[OF slot] th by simp
  have key: "callback_key (j, c, a) = 2 * length (wk_ended w)" using c no by simp
  have bound: "keys_bound th' m = keys_bound (Th_inside j e r) m" "answering_ok th' = answering_ok (Th_inside j e r)" for m
    using th' by (auto simp: fun_eq_iff)
  have fates: "final_fates v i = final_fates w i" for i
    using final_fates_attempt[of j c a w i] c by (simp add: v final_fates_def)
  have ats: "wk_attempts v = wk_attempts w @ [(j, c, a)]" and en: "wk_ended v = wk_ended w" and t: "wk_thread v = th'"
    by (simp_all add: v note_attempt_def)
  show ?thesis
    using inv c unfolding post_inv_def ats en t fates bound th by (auto simp: sorted_append key no simp del: callback_key.simps)
qed

lemma answer_keeps_post:
  assumes inv: "post_inv retries w" and slot: "slot_inv w" and th: "wk_thread w = Th_answering j c n"
    and last: "wk_ended w \<noteq> []" "last (wk_ended w) = (j, c)" and c: "final_callback c"
    and v: "v = (note_attempt j c a w)\<lparr>wk_thread := th'\<rparr>"
    and th': "th' = (case post_attempt retries n a of None \<Rightarrow> Th_idle | Some n' \<Rightarrow> Th_answering j c n')"
  shows "post_inv retries v"
proof -
  let ?m = "length (wk_ended w)"
  have m: "0 < ?m" using last(1) by simp
  have no: "wj_no j = ?m - 1" by (rule last_number[OF slot last])
  have mem: "(j, c) \<in> set (wk_ended w)" using last by (metis last_in_set)
  have key: "callback_key (j, c, a) = 2 * ?m - 1" using c no m by (cases ?m) auto
  have bound: "keys_bound th' ?m k \<longleftrightarrow> k < 2 * ?m" for k
    using th' by (auto split: option.split)
  have fates: "final_fates v i = final_fates w i @ (if i = j then [a] else [])" for i
    using final_fates_attempt[of j c a w i] c by (auto simp: v final_fates_def)
  have ats: "wk_attempts v = wk_attempts w @ [(j, c, a)]" and en: "wk_ended v = wk_ended w" and t: "wk_thread v = th'"
    by (simp_all add: v note_attempt_def)
  have old: "\<forall>x \<in> set (wk_attempts w). callback_key x < 2 * ?m" using inv by (simp add: post_inv_def th)
  have "sorted (map callback_key (wk_attempts v))"
    using inv old unfolding ats by (auto simp: post_inv_def sorted_append key simp del: callback_key.simps) fastforce?
  moreover have "\<forall>x \<in> set (wk_attempts v). keys_bound (wk_thread v) (length (wk_ended v)) (callback_key x)"
    using old m unfolding ats en t by (auto simp: bound key simp del: callback_key.simps)
  moreover have "\<forall>(i, d, b) \<in> set (wk_attempts v). final_callback d \<longrightarrow> (i, d) \<in> set (wk_ended v)"
    using inv mem unfolding ats en post_inv_def by auto
  moreover have "answering_ok (wk_thread v) retries i (final_fates v i)" if i: "i \<in> fst ` set (wk_ended v)" for i
  proof -
    have ok: "answering_ok (Th_answering j c n) retries i (final_fates w i)"
      using inv i unfolding post_inv_def th en by blast
    show ?thesis
    proof (cases "i = j")
      case True
      then have "length (final_fates w j) = n" "n < max retries 1" "\<forall>f \<in> set (final_fates w j). \<not> answered f"
        using ok by auto
      with True show ?thesis
        by (auto simp: t th' fates post_attempt_def posted_well_def butlast_append split: if_splits)
    next
      case False
      with ok show ?thesis by (auto simp: t th' fates post_attempt_def)
    qed
  qed
  ultimately show ?thesis by (simp add: post_inv_def)
qed


lemma execute_keeps_post:
  assumes inv: "post_inv retries w" and slot: "slot_inv w" and run: "run_inv run_fn w"
  shows "post_inv retries (execute_step run_fn retries a w)" (is "post_inv retries ?v")
proof (cases "wk_thread w")
  case Th_idle
  then show ?thesis by (intro post_same[OF inv]) (auto simp: execute_step_def split: list.split)
next
  case (Th_taken j)
  then show ?thesis by (intro post_same[OF inv]) (auto simp: execute_step_def split: option.split)
next
  case (Th_inside j e r)
  show ?thesis
  proof (cases r)
    case (Run_reports st n m rest)
    with Th_inside show ?thesis by (intro post_same[OF inv]) (auto simp: execute_step_def)
  next
    case (Run_polls k)
    with Th_inside show ?thesis by (intro post_same[OF inv]) (auto simp: execute_step_def)
  qed (use end_keeps_post[OF inv slot Th_inside] Th_inside in \<open>simp_all add: execute_step_def\<close>)
next
  case (Th_reporting j e r c n)
  then have "\<not> final_callback c" using run by (simp add: run_inv_def)
  then show ?thesis
    using Th_reporting
    by (intro report_keeps_post[OF inv slot Th_reporting, where a = a and th' = "wk_thread ?v" and n' = "n + 1"])
       (auto simp: execute_step_def post_attempt_def split: option.split)
next
  case (Th_ended j c)
  then show ?thesis by (intro post_same[OF inv]) (auto simp: execute_step_def)
next
  case (Th_answering j c n)
  then have last: "wk_ended w \<noteq> []" "last (wk_ended w) = (j, c)" using run by (auto simp: run_inv_def)
  then have "(j, c) \<in> set (wk_ended w)" by (metis last_in_set)
  then have "final_callback c" using run by (auto simp: run_inv_def outcome_ok_def intro: run_ends_final)
  then show ?thesis
    using Th_answering
    by (intro answer_keeps_post[OF inv slot Th_answering last, where a = a and th' = "wk_thread ?v"])
       (auto simp: execute_step_def split: option.split)
next
  case Th_gone
  with inv show ?thesis by (simp add: execute_step_def)
qed

lemma step_keeps_post:
  "worker_step run_fn retries w v \<Longrightarrow> slot_inv w \<Longrightarrow> run_inv run_fn w \<Longrightarrow> post_inv retries w \<Longrightarrow> post_inv retries v"
proof (induction rule: worker_step.induct)
  case (executes w a)
  then show ?case by (simp add: execute_keeps_post)
next
  case (submits w trip rq)
  then show ?case
    by (elim post_same) (auto simp: submit_job_def runner_submit_def Let_def)
qed (elim post_same; auto simp: hand_over_def set_flag_def cancel_job_def runner_cancel_def
      split: route_point.split option.split)+

lemma reach_inv: "worker_reach run_fn retries w \<Longrightarrow> slot_inv w \<and> run_inv run_fn w \<and> post_inv retries w"
proof (induction rule: worker_reach.induct)
  case init
  show ?case by (simp add: worker_init_def slot_inv_def run_inv_def post_inv_def holding_def unfinished_def)
next
  case (step w v)
  then show ?case using step_keeps_slot step_keeps_run step_keeps_post by blast
qed

section \<open>The thread gets everything done\<close>

fun thread_run ::
  "(process_request \<Rightarrow> pipeline_run) \<Rightarrow> nat \<Rightarrow> (nat \<Rightarrow> attempt_fate) \<Rightarrow> nat \<Rightarrow> worker \<Rightarrow> worker" where
  "thread_run run_fn retries fates 0 w = w"
| "thread_run run_fn retries fates (Suc n) w =
     thread_run run_fn retries (fates \<circ> Suc) n (execute_step run_fn retries (fates 0) w)"

definition comes_to :: "(process_request \<Rightarrow> pipeline_run) \<Rightarrow> nat \<Rightarrow> (worker \<Rightarrow> bool) \<Rightarrow> worker \<Rightarrow> bool" where
  "comes_to run_fn retries P w \<longleftrightarrow> (\<forall>fates. \<exists>n. P (thread_run run_fn retries fates n w))"

lemma comes_now: "P w \<Longrightarrow> comes_to run_fn retries P w"
  unfolding comes_to_def by (metis thread_run.simps(1))

lemma comes_later: "(\<And>a. comes_to run_fn retries P (execute_step run_fn retries a w)) \<Longrightarrow> comes_to run_fn retries P w"
  unfolding comes_to_def by (metis thread_run.simps(2))

lemma post_attempt_cases: "post_attempt retries n a = None \<or> post_attempt retries n a = Some (n + 1) \<and> n + 1 < max retries 1"
  by (auto simp: post_attempt_def)

lemma answering_comes:
  assumes "\<And>v. slot_inv v \<Longrightarrow> wk_thread v = Th_idle \<Longrightarrow> wk_queue v = wk_queue w \<Longrightarrow> wk_loop v = wk_loop w \<Longrightarrow>
      comes_to run_fn retries P v"
    and "slot_inv w" "wk_thread w = Th_answering j c n"
  shows "comes_to run_fn retries P w"
  using assms
proof (induction "max retries 1 - n" arbitrary: w n rule: less_induct)
  case less
  show ?case
  proof (rule comes_later)
    fix a
    let ?v = "execute_step run_fn retries a w"
    have v: "slot_inv ?v" "wk_queue ?v = wk_queue w" "wk_loop ?v = wk_loop w"
      using execute_keeps_slot[OF less.prems(2)] less.prems(3)
      by (auto simp: execute_step_def note_attempt_def split: option.split)
    consider "wk_thread ?v = Th_idle" | "wk_thread ?v = Th_answering j c (n + 1)" "n + 1 < max retries 1"
      using less.prems(3) post_attempt_cases[of retries n a] by (fastforce simp: execute_step_def)
    then show "comes_to run_fn retries P ?v"
    proof cases
      case 1
      then show ?thesis using less.prems(1) v by simp
    next
      case 2
      have "max retries 1 - (n + 1) < max retries 1 - n" using 2(2) by linarith
      from less.hyps[OF this _ v(1) 2(1)] less.prems(1) v show ?thesis by simp
    qed
  qed
qed

lemma reporting_comes:
  assumes "\<And>v. slot_inv v \<Longrightarrow> wk_thread v = Th_inside j e r \<Longrightarrow> wk_queue v = wk_queue w \<Longrightarrow> wk_loop v = wk_loop w \<Longrightarrow>
      comes_to run_fn retries P v"
    and "slot_inv w" "wk_thread w = Th_reporting j e r c n"
  shows "comes_to run_fn retries P w"
  using assms
proof (induction "max retries 1 - n" arbitrary: w n rule: less_induct)
  case less
  show ?case
  proof (rule comes_later)
    fix a
    let ?v = "execute_step run_fn retries a w"
    have v: "slot_inv ?v" "wk_queue ?v = wk_queue w" "wk_loop ?v = wk_loop w"
      using execute_keeps_slot[OF less.prems(2)] less.prems(3)
      by (auto simp: execute_step_def note_attempt_def split: option.split)
    consider "wk_thread ?v = Th_inside j e r" | "wk_thread ?v = Th_reporting j e r c (n + 1)" "n + 1 < max retries 1"
      using less.prems(3) post_attempt_cases[of retries n a] by (fastforce simp: execute_step_def)
    then show "comes_to run_fn retries P ?v"
    proof cases
      case 1
      then show ?thesis using less.prems(1) v by simp
    next
      case 2
      have "max retries 1 - (n + 1) < max retries 1 - n" using 2(2) by linarith
      from less.hyps[OF this _ v(1) 2(1)] less.prems(1) v show ?thesis by simp
    qed
  qed
qed

lemma ended_comes:
  assumes "\<And>v. slot_inv v \<Longrightarrow> wk_thread v = Th_idle \<Longrightarrow> wk_queue v = wk_queue w \<Longrightarrow> wk_loop v = wk_loop w \<Longrightarrow>
      comes_to run_fn retries P v"
    and "slot_inv w" "wk_thread w = Th_ended j c"
  shows "comes_to run_fn retries P w"
proof (rule comes_later)
  fix a
  let ?v = "execute_step run_fn retries a w"
  have "wk_queue ?v = wk_queue w" "wk_loop ?v = wk_loop w" "wk_thread ?v = Th_answering j c 0"
    using assms(3) by (auto simp: execute_step_def)
  with assms(1) execute_keeps_slot[OF assms(2)] show "comes_to run_fn retries P ?v"
    by (intro answering_comes[of ?v]) auto
qed

lemma inside_comes:
  assumes "\<And>v. slot_inv v \<Longrightarrow> wk_thread v = Th_idle \<Longrightarrow> wk_queue v = wk_queue w \<Longrightarrow> wk_loop v = wk_loop w \<Longrightarrow>
      comes_to run_fn retries P v"
    and "slot_inv w" "wk_thread w = Th_inside j e r"
  shows "comes_to run_fn retries P w"
  using assms
proof (induction r arbitrary: w)
  case (Run_reports st n m rest)
  show ?case
  proof (rule comes_later)
    fix a
    let ?v = "execute_step run_fn retries a w"
    have v: "wk_queue ?v = wk_queue w" "wk_loop ?v = wk_loop w" "wk_thread ?v = Th_reporting j e rest (Progress_in st n m) 0"
      using Run_reports.prems(3) by (auto simp: execute_step_def)
    show "comes_to run_fn retries P ?v"
      using Run_reports.IH Run_reports.prems(1) v execute_keeps_slot[OF Run_reports.prems(2)]
      by (intro reporting_comes[of j e rest ?v]) auto
  qed
next
  case (Run_polls k)
  show ?case
  proof (rule comes_later)
    fix a
    let ?v = "execute_step run_fn retries a w"
    have v: "wk_queue ?v = wk_queue w" "wk_loop ?v = wk_loop w" "wk_thread ?v = Th_inside j e (k (wk_events w ! e))"
      using Run_polls.prems(3) by (auto simp: execute_step_def)
    show "comes_to run_fn retries P ?v"
      using Run_polls.IH[OF rangeI _ execute_keeps_slot[OF Run_polls.prems(2)] v(3)] Run_polls.prems(1) v by simp
  qed
qed (rule comes_later, rule ended_comes, auto simp: execute_step_def end_run_def dest: execute_keeps_slot)+


lemma taken_step:
  "wk_thread w = Th_taken j \<Longrightarrow> map_of (wk_flags w) (wj_trip j) = Some e \<Longrightarrow>
    execute_step run_fn retries a w = w\<lparr>wk_thread := Th_inside j e (run_fn (wj_request j))\<rparr>"
  by (simp add: execute_step_def)

lemma idle_comes:
  assumes "slot_inv w" "wk_thread w = Th_idle" "wk_loop w = Lp_free"
    and "\<And>v. slot_inv v \<Longrightarrow> unfinished v = [] \<Longrightarrow> wk_thread v = Th_idle \<Longrightarrow> P v"
  shows "comes_to run_fn retries P w"
proof (cases "wk_queue w")
  case Nil
  with assms show ?thesis by (intro comes_now) (simp add: unfinished_def)
next
  case (Cons j js)
  then have hold: "holding w = [j]" "js = []"
    using assms(1,2) slot_ok_length[of "holding w"] by (auto simp: slot_inv_def holding_def unfinished_def)
  show ?thesis
  proof (rule comes_later, rule comes_later)
    fix a b
    let ?v = "execute_step run_fn retries a w" and ?u = "execute_step run_fn retries b (execute_step run_fn retries a w)"
    have v: "wk_thread ?v = Th_taken j" "wk_queue ?v = []" "wk_loop ?v = Lp_free" "wk_flags ?v = wk_flags w"
      using assms(2,3) Cons hold(2) by (auto simp: execute_step_def)
    have "map_of (wk_flags ?v) (wj_trip j) = Some (wj_no j)" using slot_take[OF assms(1) hold(1)] v(4) by simp
    note u_eq = taken_step[OF v(1) this, of run_fn retries b]
    have "slot_inv ?u" by (intro execute_keeps_slot assms(1))
    moreover have u: "wk_thread ?u = Th_inside j (wj_no j) (run_fn (wj_request j))" "wk_queue ?u = []" "wk_loop ?u = Lp_free"
      using v by (simp_all add: u_eq)
    ultimately show "comes_to run_fn retries P ?u"
      using u assms(4) by (intro inside_comes[of ?u]) (auto intro!: comes_now simp: unfinished_def)
  qed
qed

lemma thread_finishes:
  assumes slot: "slot_inv w" and free: "wk_loop w = Lp_free"
  shows "comes_to run_fn retries (\<lambda>v. unfinished v = [] \<and> wk_thread v = Th_idle) w" (is "comes_to _ _ ?P w")
proof -
  have idle: "comes_to run_fn retries ?P v" if "slot_inv v" "wk_thread v = Th_idle" "wk_loop v = wk_loop w" for v
    using that free by (intro idle_comes) auto
  show ?thesis
  proof (cases "wk_thread w")
    case Th_idle
    with slot idle show ?thesis by blast
  next
    case (Th_taken j)
    then have "holding w = [j]" using slot slot_ok_length[of "holding w"]
      by (auto simp: slot_inv_def holding_def unfinished_def)
    note flag = slot_take[OF slot this]
    show ?thesis
    proof (rule comes_later)
      fix a
      have "wk_thread (execute_step run_fn retries a w) = Th_inside j (wj_no j) (run_fn (wj_request j))"
        "wk_loop (execute_step run_fn retries a w) = wk_loop w"
        using Th_taken flag by (auto simp: execute_step_def)
      then show "comes_to run_fn retries ?P (execute_step run_fn retries a w)"
        using idle by (intro inside_comes[OF _ execute_keeps_slot[OF slot]]) auto
    qed
  next
    case (Th_inside j e r)
    then show ?thesis using idle by (intro inside_comes[OF _ slot Th_inside]) auto
  next
    case (Th_reporting j e r c n)
    have "comes_to run_fn retries ?P v" if "slot_inv v" "wk_thread v = Th_inside j e r" "wk_loop v = wk_loop w" for v
      using that idle by (intro inside_comes[OF _ that(1,2)]) auto
    then show ?thesis by (intro reporting_comes[OF _ slot Th_reporting]) auto
  next
    case (Th_ended j c)
    then show ?thesis using idle by (intro ended_comes[OF _ slot Th_ended]) auto
  next
    case (Th_answering j c n)
    then show ?thesis using idle by (intro answering_comes[OF _ slot Th_answering]) auto
  next
    case Th_gone
    with slot show ?thesis by (simp add: slot_inv_def)
  qed
qed

section \<open>The worker\<close>

lemma unfinished_not_ended:
  assumes "slot_inv w" "j \<in> set (unfinished w)" "i \<in> fst ` set (wk_ended w)"
  shows "i \<noteq> j"
proof -
  have "map wj_no (map fst (wk_ended w) @ unfinished w) = [0..<length (map fst (wk_ended w) @ unfinished w)]"
    using assms(1) by (auto simp: slot_inv_def)
  then have "distinct (map fst (wk_ended w) @ unfinished w)" by (metis distinct_map distinct_upt)
  with assms(2,3) show ?thesis by auto
qed

lemma final_after_slot:
  assumes slot: "slot_inv w" and run: "run_inv run_fn w" and post: "post_inv retries w"
    and at: "(j, c, a) \<in> set (wk_attempts w)" "final_callback c"
  shows "(j, c) \<in> set (wk_ended w) \<and> j \<notin> set (holding w)"
proof
  show ended: "(j, c) \<in> set (wk_ended w)" using post at by (auto simp: post_inv_def)
  have fates: "final_fates w j \<noteq> []" using at by (force simp: final_fates_def filter_empty_conv)
  have "answering_ok (wk_thread w) retries j (final_fates w j)" using post ended by (force simp: post_inv_def)
  with fates have "j \<notin> set (ended_job (wk_thread w))" by (cases "wk_thread w") auto
  moreover have "j \<notin> set (unfinished w)" using unfinished_not_ended[OF slot] ended by force
  ultimately show "j \<notin> set (holding w)" by (simp add: holding_def)
qed

lemma ended_posted_well:
  assumes slot: "slot_inv w" and run: "run_inv run_fn w" and post: "post_inv retries w"
    and j: "(j, c) \<in> set (wk_ended w)" "wk_thread w \<noteq> Th_ended j c" "\<forall>n. wk_thread w \<noteq> Th_answering j c n"
  shows "posted_well retries (final_fates w j)"
proof -
  have ok: "answering_ok (wk_thread w) retries j (final_fates w j)" using post j(1) by (force simp: post_inv_def)
  have same: "d = c" if "(j, d) \<in> set (wk_ended w)" for d
  proof -
    have "distinct (map wj_no (map fst (wk_ended w)))" using ended_numbers(1)[OF slot] by simp
    then have "distinct (map fst (wk_ended w))" by (metis distinct_map)
    with that j(1) show ?thesis by (metis eq_key_imp_eq_value)
  qed
  have "thread_ok run_fn w (wk_thread w)" using run by (simp add: run_inv_def)
  moreover have "wk_ended w \<noteq> [] \<Longrightarrow> last (wk_ended w) = (j, d) \<Longrightarrow> d = c" for d
    using same by (metis last_in_set)
  ultimately have "wk_thread w = Th_ended j d \<or> (\<exists>n. wk_thread w = Th_answering j d n) \<Longrightarrow> d = c" for d
    by (elim disjE exE) simp_all
  with ok j(2,3) show ?thesis by (cases "wk_thread w") (auto split: if_splits)
qed

text \<open>C15. The worker answers every job.  However routes, cancellations and the runner thread interleave, jobs
  run one at a time in the order in which they were accepted, the worker is busy exactly while one holds the
  slot, and the thread never dies.  A job ends with an outcome of its own run, the undisturbed one unless its
  own flag was set.  Callbacks are posted in order, a job's final one only after its slot is free, with the
  job's outcome, and until an attempt is answered or all attempts are used.  If the thread keeps running,
  whatever becomes of its posts, every job handed over is ended and answered.\<close>

theorem worker_answers_every_job:
  assumes "worker_reach run_fn retries w"
  shows "wk_accepted w = map fst (wk_ended w) @ unfinished w \<and>
    length (holding w) \<le> 1 \<and> (runner_busy w \<longleftrightarrow> holding w \<noteq> []) \<and> wk_thread w \<noteq> Th_gone \<and>
    (\<forall>(j, c) \<in> set (wk_ended w). run_ends (run_fn (wj_request j)) c \<and>
       (\<not> wk_events w ! wj_no j \<longrightarrow> c = undisturbed (run_fn (wj_request j)))) \<and>
    sorted (map callback_key (wk_attempts w)) \<and>
    (\<forall>(j, c, a) \<in> set (wk_attempts w). final_callback c \<longrightarrow> (j, c) \<in> set (wk_ended w) \<and> j \<notin> set (holding w)) \<and>
    (\<forall>(j, c) \<in> set (wk_ended w). wk_thread w \<noteq> Th_ended j c \<and> (\<forall>n. wk_thread w \<noteq> Th_answering j c n) \<longrightarrow>
       posted_well retries (final_fates w j)) \<and>
    (wk_loop w = Lp_free \<longrightarrow> (\<forall>fates. \<exists>n. unfinished (thread_run run_fn retries fates n w) = [] \<and>
       wk_thread (thread_run run_fn retries fates n w) = Th_idle))"
proof -
  from reach_inv[OF assms] have slot: "slot_inv w" and run: "run_inv run_fn w" and post: "post_inv retries w" by auto
  have "wk_accepted w = map fst (wk_ended w) @ unfinished w" "sorted (map callback_key (wk_attempts w))"
    using slot post by (simp_all add: slot_inv_def post_inv_def)
  moreover have "length (holding w) \<le> 1 \<and> (runner_busy w \<longleftrightarrow> holding w \<noteq> []) \<and> wk_thread w \<noteq> Th_gone"
    using slot slot_ok_length[of "holding w"] by (auto simp: slot_inv_def runner_busy_def)
  moreover have "\<forall>(j, c) \<in> set (wk_ended w). run_ends (run_fn (wj_request j)) c \<and>
       (\<not> wk_events w ! wj_no j \<longrightarrow> c = undisturbed (run_fn (wj_request j)))"
    using run by (auto simp: run_inv_def outcome_ok_def)
  moreover have "\<forall>(j, c, a) \<in> set (wk_attempts w). final_callback c \<longrightarrow> (j, c) \<in> set (wk_ended w) \<and> j \<notin> set (holding w)"
    using final_after_slot[OF slot run post] by blast
  moreover have "\<forall>(j, c) \<in> set (wk_ended w). wk_thread w \<noteq> Th_ended j c \<and> (\<forall>n. wk_thread w \<noteq> Th_answering j c n) \<longrightarrow>
       posted_well retries (final_fates w j)"
    using ended_posted_well[OF slot run post] by blast
  moreover have "wk_loop w = Lp_free \<longrightarrow> (\<forall>fates. \<exists>n. unfinished (thread_run run_fn retries fates n w) = [] \<and>
       wk_thread (thread_run run_fn retries fates n w) = Th_idle)"
    using thread_finishes[OF slot, of run_fn retries] by (simp add: comes_to_def)
  ultimately show ?thesis by blast
qed


section \<open>An example: a job is cancelled, and the first attempt to say so meets a server error\<close>

definition wx_run :: "process_request \<Rightarrow> pipeline_run" where
  "wx_run rq = Run_polls (\<lambda>b. if b then Run_raises CODE_CANCELED [] else Run_breaks [])"

definition wx_rq :: process_request where
  "wx_rq = \<lparr>rq_exec = None, rq_name = [], rq_period = \<lparr>pd_start = 0, pd_end = 0\<rparr>, rq_regions = [], rq_attachments = []\<rparr>"

definition wx_fate :: "nat \<Rightarrow> attempt_fate" where
  "wx_fate n = \<lparr>af_arrives = True, af_status = Some (if n < 4 then 500 else 204)\<rparr>"

definition wx_inside :: worker where
  "wx_inside = thread_run wx_run 3 wx_fate 2 (hand_over (snd (submit_job 7 wx_rq (worker_init\<lparr>wk_loaded := True\<rparr>))))"

definition wx_end :: worker where
  "wx_end = thread_run wx_run 3 wx_fate 6 (set_flag (snd (cancel_job 7 wx_inside)))"

lemma thread_run_reach: "worker_reach run_fn retries w \<Longrightarrow> worker_reach run_fn retries (thread_run run_fn retries fates n w)"
proof (induction n arbitrary: w fates)
  case (Suc n)
  from Suc.IH[OF worker_reach.step[OF Suc.prems executes]] show ?case by simp
qed simp

lemma wx_reach: "worker_reach wx_run 3 wx_end"
proof -
  have "worker_reach wx_run 3 (worker_init\<lparr>wk_loaded := True\<rparr>)" by (rule worker_reach.step[OF worker_reach.init loads])
  moreover have "wk_loop (worker_init\<lparr>wk_loaded := True\<rparr>) = Lp_free" by (simp add: worker_init_def)
  ultimately have "worker_reach wx_run 3 (hand_over (snd (submit_job 7 wx_rq (worker_init\<lparr>wk_loaded := True\<rparr>))))"
    by (intro worker_reach.step[OF worker_reach.step[OF _ submits] hands_over])
  then have "worker_reach wx_run 3 wx_inside" unfolding wx_inside_def by (rule thread_run_reach)
  moreover have "wk_loop wx_inside = Lp_free" by code_simp
  ultimately have "worker_reach wx_run 3 (set_flag (snd (cancel_job 7 wx_inside)))"
    by (intro worker_reach.step[OF worker_reach.step[OF _ cancels] sets_flag])
  then show ?thesis unfolding wx_end_def by (rule thread_run_reach)
qed

lemma wx_ended: "map snd (wk_ended wx_end) = [Failed_in \<lparr>eb_code = CODE_CANCELED, eb_detail = []\<rparr>]"
  "wk_thread wx_end = Th_idle" "holding wx_end = []" "length (wk_attempts wx_end) = 2"
  by code_simp+

lemma worker_answers_every_job_witness:
  "\<exists>j c. wk_ended wx_end = [(j, c)] \<and> c = Failed_in \<lparr>eb_code = CODE_CANCELED, eb_detail = []\<rparr> \<and>
     wk_accepted wx_end = [j] \<and> posted_well 3 (final_fates wx_end j)"
proof -
  obtain j c where jc: "wk_ended wx_end = [(j, c)]" "c = Failed_in \<lparr>eb_code = CODE_CANCELED, eb_detail = []\<rparr>"
    using wx_ended(1) by auto
  have "unfinished wx_end = []" using wx_ended(3) by (simp add: holding_def)
  with jc worker_answers_every_job[OF wx_reach] wx_ended(2) show ?thesis by auto
qed

end
