(* ===== verification/WorkerSystem.thy ===== *)
theory WorkerSystem
  imports TaskTheorems WorkerTheorems
begin

text \<open>
  The first API version as a whole: the task service, the worker process and the two HTTP connections between
  them (\<open>src/app/jobs/worker_client.py\<close>, \<open>src/app/worker/callback.py\<close>).  The service sends a task and waits for
  the answer, or gives up, and then the request may still reach the worker.  A callback that arrives is
  handled by the service some time later.

  The first API version end to end: a completed task holds a result that the pipeline returned for a request
  of its trip; and the run in which that request is not the task's own.
\<close>

section \<open>What a step does to the tasks\<close>

text \<open>\<open>may r\<close> are the results a task may be completed with; everything else keeps trips, requests and results.\<close>

definition keeps_tasks :: "(int \<Rightarrow> process_result \<Rightarrow> bool) \<Rightarrow> svc \<Rightarrow> svc \<Rightarrow> bool" where
  "keeps_tasks may s t \<longleftrightarrow> length (sv_heap s) \<le> length (sv_heap t) \<and>
     (\<forall>i < length (sv_heap s).
        tk_trip (sv_heap t ! i) = tk_trip (sv_heap s ! i) \<and> tk_request (sv_heap t ! i) = tk_request (sv_heap s ! i)) \<and>
     (\<forall>i < length (sv_heap t). tk_status (sv_heap t ! i) = COMPLETED \<longrightarrow>
        (i < length (sv_heap s) \<and> tk_status (sv_heap s ! i) = COMPLETED \<and> tk_result (sv_heap t ! i) = tk_result (sv_heap s ! i)) \<or>
        (\<exists>r. tk_result (sv_heap t ! i) = Some r \<and> may (tk_trip (sv_heap t ! i)) r))"

lemma keeps_same: "sv_heap t = sv_heap s \<Longrightarrow> keeps_tasks may s t"
  by (simp add: keeps_tasks_def)

lemma keeps_heap: "sv_heap u = sv_heap t \<Longrightarrow> keeps_tasks may s t \<Longrightarrow> keeps_tasks may s u"
  unfolding keeps_tasks_def by metis

lemma keeps_trans:
  assumes a: "keeps_tasks may s t" and b: "keeps_tasks may t u"
  shows "keeps_tasks may s u"
proof -
  have "length (sv_heap s) \<le> length (sv_heap u)" using a b by (auto simp: keeps_tasks_def)
  moreover have "tk_trip (sv_heap u ! i) = tk_trip (sv_heap s ! i) \<and> tk_request (sv_heap u ! i) = tk_request (sv_heap s ! i)"
    if "i < length (sv_heap s)" for i
    using a b that unfolding keeps_tasks_def by (metis order_less_le_trans)
  moreover have "(i < length (sv_heap s) \<and> tk_status (sv_heap s ! i) = COMPLETED \<and> tk_result (sv_heap u ! i) = tk_result (sv_heap s ! i)) \<or>
        (\<exists>r. tk_result (sv_heap u ! i) = Some r \<and> may (tk_trip (sv_heap u ! i)) r)"
    if i: "i < length (sv_heap u)" "tk_status (sv_heap u ! i) = COMPLETED" for i
  proof -
    consider "i < length (sv_heap t)" "tk_status (sv_heap t ! i) = COMPLETED" "tk_result (sv_heap u ! i) = tk_result (sv_heap t ! i)"
        "tk_trip (sv_heap u ! i) = tk_trip (sv_heap t ! i)"
      | "\<exists>r. tk_result (sv_heap u ! i) = Some r \<and> may (tk_trip (sv_heap u ! i)) r"
      using b i unfolding keeps_tasks_def by blast
    then show ?thesis
    proof cases
      case 1
      with a show ?thesis unfolding keeps_tasks_def by metis
    qed blast
  qed
  ultimately show ?thesis unfolding keeps_tasks_def by blast
qed

lemma keeps_set_task:
  assumes "i < length (sv_heap s)" "tk_trip (f (sv_heap s ! i)) = tk_trip (sv_heap s ! i)"
    "tk_request (f (sv_heap s ! i)) = tk_request (sv_heap s ! i)"
    "tk_status (f (sv_heap s ! i)) = COMPLETED \<Longrightarrow>
       tk_status (sv_heap s ! i) = COMPLETED \<and> tk_result (f (sv_heap s ! i)) = tk_result (sv_heap s ! i) \<or>
       (\<exists>r. tk_result (f (sv_heap s ! i)) = Some r \<and> may (tk_trip (sv_heap s ! i)) r)"
  shows "keeps_tasks may s (set_task i f s)"
  using assms by (auto simp: keeps_tasks_def set_task_def nth_list_update)

lemma keeps_finish:
  assumes "i < length (sv_heap s)" "st = COMPLETED \<Longrightarrow> \<exists>r. res = Some r \<and> may (tk_trip (sv_heap s ! i)) r"
  shows "keeps_tasks may s (task_finish i st res e now s)"
proof -
  have "keeps_tasks may s (set_task i (finish_task st res e now) s)"
    using assms by (intro keeps_set_task) (auto simp: finish_task_def)
  then show ?thesis by (rule keeps_heap[OF finish_fields(5)])
qed

lemma keeps_accept: "keeps_tasks may s (accept_task cfg trip rq now s)"
  by (auto simp: keeps_tasks_def accept_task_def Let_def task_put_def nth_append new_task_def)

lemma keeps_next: "keeps_tasks may s t \<Longrightarrow> keeps_tasks may s (dispatch_next cfg t)"
  by (simp add: keeps_tasks_def)

lemma keeps_head: "keeps_tasks may s t \<Longrightarrow> keeps_tasks may s (dispatch_head cfg t)"
  by (simp add: keeps_tasks_def)

lemma keeps_tick: "\<forall>i \<in> set is. i < length (sv_heap s) \<Longrightarrow> keeps_tasks may s (fold (tick_task cfg now) is s)"
proof (induction "is" arbitrary: s)
  case (Cons i "is")
  have "keeps_tasks may s (tick_task cfg now i s)"
    using tick_task_cases[of cfg now i s] Cons.prems by (elim disjE) (auto intro: keeps_same keeps_finish)
  moreover have "length (sv_heap (tick_task cfg now i s)) = length (sv_heap s)"
    by (simp add: tick_task_def split: option.split)
  ultimately show ?case using Cons.IH Cons.prems keeps_trans by simp
qed (simp add: keeps_same)

lemma keeps_answers:
  assumes "svc_ok cfg s" "sv_sending s = Some i"
  shows "keeps_tasks may s (worker_answers cfg a now i s)"
proof -
  have i: "i < length (sv_heap s)" using assms by (simp add: svc_ok_def sending_ok_def)
  have "keeps_tasks may s (set_task i (start_task now) s)" using i by (intro keeps_set_task) (auto simp: start_task_def)
  moreover have "keeps_tasks may s (task_finish i FAILED None e now s)" for e using i by (intro keeps_finish) auto
  ultimately show ?thesis by (cases a) (auto simp: worker_answers_def intro: keeps_head keeps_same)
qed

lemma keeps_own_steps:
  assumes ok: "svc_ok cfg s"
  shows "keeps_tasks may s (snd (task_submit cfg trip rq now s))"
    "keeps_tasks may s (snd (worker_ready cfg k r now s))"
    "keeps_tasks may s (lock_wakes cfg s)"
    "keeps_tasks may s (snd (task_cancel trip now s))"
    "keeps_tasks may s (task_tick cfg now s)"
proof -
  have ask: "keeps_tasks may s (accept_task cfg t q now (s\<lparr>sv_asking := x\<rparr>))" for t q x
    using keeps_accept[of may "s\<lparr>sv_asking := x\<rparr>"] by (simp add: keeps_tasks_def)
  show "keeps_tasks may s (snd (task_submit cfg trip rq now s))"
    by (auto simp: task_submit_def Let_def keeps_accept intro: keeps_same)
  show "keeps_tasks may s (snd (worker_ready cfg k r now s))"
    using ask by (auto simp: worker_ready_def Let_def intro: keeps_same split: prod.split)
  show "keeps_tasks may s (lock_wakes cfg s)" by (simp add: lock_wakes_def keeps_same)
  show "keeps_tasks may s (snd (task_cancel trip now s))"
    using require_ok[OF ok, of trip] by (auto simp: task_cancel_def intro: keeps_same keeps_finish split: sum.split)
  have "\<forall>i \<in> set (task_all s). i < length (sv_heap s)"
    using ok by (auto simp: svc_ok_def core_ok_def refs_ok_def task_all_def)
  then show "keeps_tasks may s (task_tick cfg now s)" unfolding task_tick_def by (intro keeps_next keeps_tick)
qed

section \<open>The system\<close>

datatype worker_call = No_call | Request_out int process_request | Answer_back submit_answer

record v1_system =
  vs_api :: svc
  vs_worker :: worker
  vs_call :: worker_call
  vs_abandoned :: "(int \<times> process_request) list"
  vs_inbox :: "(worker_job \<times> callback) list"

definition v1_init :: v1_system where
  "v1_init = \<lparr>vs_api = svc_init, vs_worker = worker_init, vs_call = No_call, vs_abandoned = [], vs_inbox = []\<rparr>"

text \<open>The callback the thread is posting.\<close>

fun posting :: "runner_thread \<Rightarrow> (worker_job \<times> callback) option" where
  "posting (Th_reporting j e r c n) = Some (j, c)"
| "posting (Th_answering j c n) = Some (j, c)"
| "posting _ = None"

text \<open>The internal routes hand a callback to the service.\<close>

definition handle_callback :: "task_settings \<Rightarrow> int \<Rightarrow> callback \<Rightarrow> rat \<Rightarrow> svc \<Rightarrow> svc" where
  "handle_callback cfg trip c now s =
     (case c of
        Progress_in st n m \<Rightarrow> snd (task_progress trip st (int n) now s)
      | Result_in r \<Rightarrow> snd (task_complete cfg trip r now s)
      | Failed_in e \<Rightarrow> snd (task_fail cfg trip e now s))"

definition thread_turn ::
  "(process_request \<Rightarrow> pipeline_run) \<Rightarrow> nat \<Rightarrow> attempt_fate \<Rightarrow> v1_system \<Rightarrow> v1_system" where
  "thread_turn run_fn retries a y =
     y\<lparr>vs_worker := execute_step run_fn retries a (vs_worker y),
       vs_inbox := vs_inbox y @ (case posting (wk_thread (vs_worker y)) of
                     Some jc \<Rightarrow> if af_arrives a then [jc] else []
                   | None \<Rightarrow> [])\<rparr>"

inductive api_move :: "task_settings \<Rightarrow> svc \<Rightarrow> svc \<Rightarrow> bool" for cfg where
  submits: "api_move cfg s (snd (task_submit cfg trip rq now s))"
| ready: "k < length (sv_asking s) \<Longrightarrow> api_move cfg s (snd (worker_ready cfg k r now s))"
| wakes: "sv_sending s = None \<Longrightarrow> 0 < sv_locked s \<Longrightarrow> api_move cfg s (lock_wakes cfg s)"
| cancels: "api_move cfg s (snd (task_cancel trip now s))"
| ticks: "api_move cfg s (task_tick cfg now s)"

inductive worker_move :: "worker \<Rightarrow> worker \<Rightarrow> bool" where
  loads: "worker_move w (w\<lparr>wk_loaded := True\<rparr>)"
| hands_over: "worker_move w (hand_over w)"
| cancels: "wk_loop w = Lp_free \<Longrightarrow> worker_move w (snd (cancel_job trip w))"
| sets_flag: "worker_move w (set_flag w)"

inductive v1_step ::
  "task_settings \<Rightarrow> (process_request \<Rightarrow> pipeline_run) \<Rightarrow> nat \<Rightarrow> v1_system \<Rightarrow> v1_system \<Rightarrow> bool"
  for cfg run_fn retries where
  api: "api_move cfg (vs_api y) s \<Longrightarrow> v1_step cfg run_fn retries y (y\<lparr>vs_api := s\<rparr>)"
| worker: "worker_move (vs_worker y) w \<Longrightarrow> v1_step cfg run_fn retries y (y\<lparr>vs_worker := w\<rparr>)"
| thread: "v1_step cfg run_fn retries y (thread_turn run_fn retries a y)"
| calls: "sv_sending (vs_api y) = Some i \<Longrightarrow> vs_call y = No_call \<Longrightarrow>
    v1_step cfg run_fn retries y
      (y\<lparr>vs_call := Request_out (tk_trip (sv_heap (vs_api y) ! i)) (tk_request (sv_heap (vs_api y) ! i))\<rparr>)"
| arrives: "vs_call y = Request_out trip rq \<Longrightarrow> wk_loop (vs_worker y) = Lp_free \<Longrightarrow>
    submit_job trip rq (vs_worker y) = (ans, w) \<Longrightarrow>
    v1_step cfg run_fn retries y (y\<lparr>vs_worker := w, vs_call := Answer_back (submit_result d (submit_status ans))\<rparr>)"
| hears: "vs_call y = Answer_back ans \<Longrightarrow> sv_sending (vs_api y) = Some i \<Longrightarrow>
    v1_step cfg run_fn retries y (y\<lparr>vs_api := worker_answers cfg ans now i (vs_api y), vs_call := No_call\<rparr>)"
| gives_up: "vs_call y \<noteq> No_call \<Longrightarrow> sv_sending (vs_api y) = Some i \<Longrightarrow>
    v1_step cfg run_fn retries y
      (y\<lparr>vs_api := worker_answers cfg (W_unavailable d) now i (vs_api y), vs_call := No_call,
         vs_abandoned := (case vs_call y of Request_out trip rq \<Rightarrow> [(trip, rq)] | _ \<Rightarrow> []) @ vs_abandoned y\<rparr>)"
| arrives_late: "vs_abandoned y = xs @ (trip, rq) # ys \<Longrightarrow> wk_loop (vs_worker y) = Lp_free \<Longrightarrow>
    v1_step cfg run_fn retries y (y\<lparr>vs_worker := snd (submit_job trip rq (vs_worker y)), vs_abandoned := xs @ ys\<rparr>)"
| delivers: "vs_inbox y = xs @ (j, c) # ys \<Longrightarrow>
    v1_step cfg run_fn retries y
      (y\<lparr>vs_api := handle_callback cfg (wj_trip j) c now (vs_api y), vs_inbox := xs @ ys\<rparr>)"

inductive v1_reach ::
  "task_settings \<Rightarrow> (process_request \<Rightarrow> pipeline_run) \<Rightarrow> nat \<Rightarrow> v1_system \<Rightarrow> bool" for cfg run_fn retries where
  init: "v1_reach cfg run_fn retries v1_init"
| step: "v1_reach cfg run_fn retries y \<Longrightarrow> v1_step cfg run_fn retries y z \<Longrightarrow> v1_reach cfg run_fn retries z"

section \<open>What every interleaving keeps\<close>

definition asked_for :: "svc \<Rightarrow> int \<Rightarrow> process_request \<Rightarrow> bool" where
  "asked_for s trip rq \<longleftrightarrow> (\<exists>k < length (sv_heap s). tk_trip (sv_heap s ! k) = trip \<and> tk_request (sv_heap s ! k) = rq)"

definition gave_result :: "worker \<Rightarrow> int \<Rightarrow> process_result \<Rightarrow> bool" where
  "gave_result w trip r \<longleftrightarrow> (\<exists>j. (j, Result_in r) \<in> set (wk_ended w) \<and> wj_trip j = trip)"

definition calls_ok :: "v1_system \<Rightarrow> bool" where
  "calls_ok y \<longleftrightarrow>
     (\<forall>trip rq. vs_call y = Request_out trip rq \<longrightarrow> asked_for (vs_api y) trip rq) \<and>
     (\<forall>(trip, rq) \<in> set (vs_abandoned y). asked_for (vs_api y) trip rq) \<and>
     (\<forall>j \<in> set (wk_accepted (vs_worker y)). asked_for (vs_api y) (wj_trip j) (wj_request j))"

definition inbox_ok :: "v1_system \<Rightarrow> bool" where
  "inbox_ok y \<longleftrightarrow> (\<forall>(j, c) \<in> set (vs_inbox y). final_callback c \<longrightarrow> (j, c) \<in> set (wk_ended (vs_worker y)))"

definition completed_ok :: "v1_system \<Rightarrow> bool" where
  "completed_ok y \<longleftrightarrow> (\<forall>i < length (sv_heap (vs_api y)). tk_status (sv_heap (vs_api y) ! i) = COMPLETED \<longrightarrow>
     (\<exists>r. tk_result (sv_heap (vs_api y) ! i) = Some r \<and> gave_result (vs_worker y) (tk_trip (sv_heap (vs_api y) ! i)) r))"

definition v1_inv ::
  "task_settings \<Rightarrow> (process_request \<Rightarrow> pipeline_run) \<Rightarrow> nat \<Rightarrow> v1_system \<Rightarrow> bool" where
  "v1_inv cfg run_fn retries y \<longleftrightarrow> svc_reach cfg (vs_api y) \<and> worker_reach run_fn retries (vs_worker y) \<and>
     calls_ok y \<and> inbox_ok y \<and> completed_ok y"

lemma asked_later: "keeps_tasks may s t \<Longrightarrow> asked_for s trip rq \<Longrightarrow> asked_for t trip rq"
  unfolding keeps_tasks_def asked_for_def by (metis order_less_le_trans)

text \<open>The worker forgets nothing.\<close>

definition worker_grows :: "worker \<Rightarrow> worker \<Rightarrow> bool" where
  "worker_grows w v \<longleftrightarrow> set (wk_ended w) \<subseteq> set (wk_ended v)"

lemma gave_result_later: "worker_grows w v \<Longrightarrow> gave_result w trip r \<Longrightarrow> gave_result v trip r"
  unfolding worker_grows_def gave_result_def by blast

lemma api_change:
  assumes inv: "v1_inv cfg run_fn retries y" and reach: "svc_reach cfg s"
    and keeps: "keeps_tasks (gave_result (vs_worker y)) (vs_api y) s"
    and z: "vs_api z = s" "vs_worker z = vs_worker y" "set (vs_inbox z) \<subseteq> set (vs_inbox y)"
      "\<And>trip rq. vs_call z = Request_out trip rq \<Longrightarrow> vs_call y = Request_out trip rq"
      "\<And>trip rq. (trip, rq) \<in> set (vs_abandoned z) \<Longrightarrow> (trip, rq) \<in> set (vs_abandoned y) \<or> vs_call y = Request_out trip rq"
  shows "v1_inv cfg run_fn retries z"
proof -
  have "calls_ok z"
    using inv z asked_later[OF keeps] unfolding v1_inv_def calls_ok_def by (auto, blast+)
  moreover have "inbox_ok z" using inv z unfolding v1_inv_def inbox_ok_def by auto
  moreover have "completed_ok z"
    unfolding completed_ok_def z(1,2)
  proof (intro allI impI)
    fix i
    assume i: "i < length (sv_heap s)" "tk_status (sv_heap s ! i) = COMPLETED"
    have old: "\<exists>r. tk_result (sv_heap (vs_api y) ! i) = Some r \<and> gave_result (vs_worker y) (tk_trip (sv_heap (vs_api y) ! i)) r"
      if "i < length (sv_heap (vs_api y))" "tk_status (sv_heap (vs_api y) ! i) = COMPLETED"
      using inv that by (simp add: v1_inv_def completed_ok_def)
    from keeps i consider "i < length (sv_heap (vs_api y))" "tk_status (sv_heap (vs_api y) ! i) = COMPLETED"
        "tk_result (sv_heap s ! i) = tk_result (sv_heap (vs_api y) ! i)" "tk_trip (sv_heap s ! i) = tk_trip (sv_heap (vs_api y) ! i)"
      | "\<exists>r. tk_result (sv_heap s ! i) = Some r \<and> gave_result (vs_worker y) (tk_trip (sv_heap s ! i)) r"
      unfolding keeps_tasks_def by blast
    then show "\<exists>r. tk_result (sv_heap s ! i) = Some r \<and> gave_result (vs_worker y) (tk_trip (sv_heap s ! i)) r"
      using old by cases auto
  qed
  ultimately show ?thesis using inv reach z by (simp add: v1_inv_def)
qed

lemma worker_change:
  assumes inv: "v1_inv cfg run_fn retries y" and step: "worker_step run_fn retries (vs_worker y) w"
    and grows: "worker_grows (vs_worker y) w"
    and z: "vs_api z = vs_api y" "vs_worker z = w"
      "\<And>j c. (j, c) \<in> set (vs_inbox z) \<Longrightarrow> (j, c) \<in> set (vs_inbox y) \<or> (final_callback c \<longrightarrow> (j, c) \<in> set (wk_ended w))"
      "\<And>trip rq. vs_call z = Request_out trip rq \<Longrightarrow> vs_call y = Request_out trip rq"
      "set (vs_abandoned z) \<subseteq> set (vs_abandoned y)"
    and acc: "\<And>j. j \<in> set (wk_accepted w) \<Longrightarrow> j \<in> set (wk_accepted (vs_worker y)) \<or> asked_for (vs_api y) (wj_trip j) (wj_request j)"
  shows "v1_inv cfg run_fn retries z"
proof -
  have "calls_ok z" using inv z acc unfolding v1_inv_def calls_ok_def by (auto, blast+)
  moreover have "inbox_ok z" using inv z(2,3) grows unfolding v1_inv_def inbox_ok_def worker_grows_def by fast
  moreover have "completed_ok z" using inv z(1,2) gave_result_later[OF grows] unfolding v1_inv_def completed_ok_def by auto
  moreover have "worker_reach run_fn retries w" using inv step by (auto simp: v1_inv_def intro: worker_reach.step)
  ultimately show ?thesis using inv z(1,2) by (simp add: v1_inv_def)
qed

section \<open>Every step keeps it\<close>

lemma api_move_step: "api_move cfg s t \<Longrightarrow> svc_step cfg s t"
  by (induction rule: api_move.induct) (auto intro: svc_step.intros)

lemma api_move_keeps: "api_move cfg s t \<Longrightarrow> svc_ok cfg s \<Longrightarrow> keeps_tasks may s t"
  by (induction rule: api_move.induct) (auto intro: keeps_own_steps)

lemma worker_move_step: "worker_move w v \<Longrightarrow> worker_step run_fn retries w v"
  by (induction rule: worker_move.induct) (auto intro: worker_step.intros)

lemma worker_move_fields: "worker_move w v \<Longrightarrow> wk_ended v = wk_ended w \<and> wk_accepted v = wk_accepted w"
  by (induction rule: worker_move.induct)
     (auto simp: hand_over_def set_flag_def cancel_job_def runner_cancel_def split: route_point.split option.split)

lemma submit_fields:
  "wk_ended (snd (submit_job trip rq w)) = wk_ended w"
  "j \<in> set (wk_accepted (snd (submit_job trip rq w))) \<Longrightarrow> j \<in> set (wk_accepted w) \<or> wj_trip j = trip \<and> wj_request j = rq"
  by (auto simp: submit_job_def runner_submit_def Let_def split: if_splits)

lemma thread_fields:
  "set (wk_ended w) \<subseteq> set (wk_ended (execute_step run_fn retries a w))"
  "wk_accepted (execute_step run_fn retries a w) = wk_accepted w"
  by (auto simp: execute_step_def end_run_def note_attempt_def
      split: runner_thread.split pipeline_run.split option.split list.split)

lemma posting_final:
  assumes "run_inv run_fn w" "posting (wk_thread w) = Some (j, c)" "final_callback c"
  shows "(j, c) \<in> set (wk_ended w)"
proof (cases "wk_thread w")
  case (Th_answering i d n)
  with assms have "wk_ended w \<noteq> []" "last (wk_ended w) = (j, c)" by (auto simp: run_inv_def)
  then show ?thesis by (metis last_in_set)
qed (use assms in \<open>auto simp: run_inv_def\<close>)

lemma keeps_handle:
  assumes ok: "svc_ok cfg s" and may: "\<And>r. c = Result_in r \<Longrightarrow> may trip r"
  shows "keeps_tasks may s (handle_callback cfg trip c now s)"
proof (cases "task_require trip s")
  case (Inl e)
  then show ?thesis
    by (cases c) (auto simp: handle_callback_def task_progress_def task_complete_def task_fail_def intro: keeps_same)
next
  case (Inr i)
  note r = require_ok[OF ok Inr]
  then have trip: "tk_trip (sv_heap s ! i) = trip" using ok refs_of_store by (auto simp: svc_ok_def core_ok_def)
  show ?thesis
  proof (cases c)
    case (Progress_in st n m)
    have "keeps_tasks may s (set_task i (\<lambda>t. t\<lparr>tk_done := int n, tk_step := Some st, tk_last := Some now\<rparr>) s)"
      using r by (intro keeps_set_task) auto
    with Inr Progress_in show ?thesis by (auto simp: handle_callback_def task_progress_def intro: keeps_same)
  next
    case (Result_in r')
    have "keeps_tasks may s (task_finish i COMPLETED (Some r') None now s)"
      using r may[OF Result_in] trip by (intro keeps_finish) auto
    with Inr Result_in show ?thesis by (auto simp: handle_callback_def task_complete_def intro: keeps_same keeps_next)
  next
    case (Failed_in e)
    have "keeps_tasks may s (task_finish i st None x now s)" if "st \<noteq> COMPLETED" for st x
      using r that by (intro keeps_finish) auto
    with Inr Failed_in show ?thesis by (auto simp: handle_callback_def task_fail_def intro: keeps_same keeps_next)
  qed
qed

lemma handle_step: "svc_reach cfg s \<Longrightarrow> svc_reach cfg (handle_callback cfg trip c now s)"
proof (cases c)
  case (Progress_in st n m)
  assume "svc_reach cfg s"
  then have "svc_reach cfg (snd (task_progress trip st (int n) now s))" by (rule svc_reach.step) (simp add: svc_step.progresses)
  then show ?thesis by (simp add: handle_callback_def Progress_in)
qed (auto simp: handle_callback_def intro: svc_reach.step svc_step.completes svc_step.fails)

lemma v1_step_keeps:
  assumes "v1_step cfg run_fn retries y z" and inv: "v1_inv cfg run_fn retries y"
  shows "v1_inv cfg run_fn retries z"
proof -
  have api: "svc_reach cfg (vs_api y)" and ok: "svc_ok cfg (vs_api y)" and run: "run_inv run_fn (vs_worker y)"
    using inv svc_reach_ok reach_inv by (auto simp: v1_inv_def)
  show ?thesis
    using assms(1)
  proof (cases rule: v1_step.cases)
    case (api s)
    then show ?thesis
      using \<open>svc_reach cfg (vs_api y)\<close> ok
      by (intro api_change[OF inv, of s]) (auto intro: svc_reach.step api_move_step api_move_keeps)
  next
    case (worker w)
    then show ?thesis
      using worker_move_fields[of "vs_worker y" w]
      by (intro worker_change[OF inv worker_move_step[OF worker(2)]]) (auto simp: worker_grows_def)
  next
    case (thread a)
    have "(j, c) \<in> set (wk_ended (execute_step run_fn retries a (vs_worker y)))"
      if "posting (wk_thread (vs_worker y)) = Some (j, c)" "final_callback c" for j c
      using posting_final[OF run that] thread_fields(1) by blast
    then show ?thesis
      using thread_fields(1)[of "vs_worker y" run_fn retries a] unfolding thread
      by (intro worker_change[OF inv worker_step.executes[of run_fn retries "vs_worker y" a]])
         (auto simp: thread_turn_def worker_grows_def thread_fields(2) split: option.splits if_splits)
  next
    case (calls i)
    then have "i < length (sv_heap (vs_api y))" using ok by (auto simp: svc_ok_def sending_ok_def)
    then have "asked_for (vs_api y) (tk_trip (sv_heap (vs_api y) ! i)) (tk_request (sv_heap (vs_api y) ! i))"
      unfolding asked_for_def by blast
    with inv calls show ?thesis by (auto simp: v1_inv_def calls_ok_def inbox_ok_def completed_ok_def)
  next
    case (arrives trip rq ans w d)
    then have w: "w = snd (submit_job trip rq (vs_worker y))" by simp
    have "asked_for (vs_api y) trip rq" using inv arrives by (simp add: v1_inv_def calls_ok_def)
    then show ?thesis
      using submit_fields(1)[of trip rq "vs_worker y"] arrives unfolding w
      by (intro worker_change[OF inv worker_step.submits[of "vs_worker y" run_fn retries trip rq]])
         (auto simp: worker_grows_def dest: submit_fields(2))
  next
    case (hears ans i now)
    then show ?thesis
      using api ok by (intro api_change[OF inv svc_reach.step[OF api svc_step.answers] keeps_answers]) auto
  next
    case (gives_up i d now)
    then show ?thesis
      using api ok
      by (intro api_change[OF inv svc_reach.step[OF api svc_step.answers] keeps_answers])
         (auto split: worker_call.splits)
  next
    case (arrives_late xs trip rq ys)
    have "asked_for (vs_api y) trip rq" using inv arrives_late by (simp add: v1_inv_def calls_ok_def)
    then show ?thesis
      using submit_fields(1)[of trip rq "vs_worker y"] arrives_late
      by (intro worker_change[OF inv worker_step.submits[of "vs_worker y" run_fn retries trip rq]])
         (auto simp: worker_grows_def dest: submit_fields(2))
  next
    case (delivers xs j c ys now)
    have "gave_result (vs_worker y) (wj_trip j) r" if "c = Result_in r" for r
      using inv delivers that by (auto simp: v1_inv_def inbox_ok_def gave_result_def)
    then show ?thesis
      using delivers by (intro api_change[OF inv handle_step[OF api] keeps_handle[OF ok]]) auto
  qed
qed

lemma v1_reach_inv: "v1_reach cfg run_fn retries y \<Longrightarrow> v1_inv cfg run_fn retries y"
proof (induction rule: v1_reach.induct)
  case init
  show ?case
    by (simp add: v1_inv_def v1_init_def calls_ok_def inbox_ok_def completed_ok_def svc_init_def worker_init_def
        svc_reach.init[unfolded svc_init_def] worker_reach.init[unfolded worker_init_def])
next
  case (step y z)
  show ?case by (rule v1_step_keeps[OF step(2,3)])
qed


section \<open>The system\<close>

text \<open>C16. From end to end the first API version reports only results of its pipeline.  However the service,
  the worker, cancellations, the watchdog, given up requests and repeated or late callbacks interleave, the
  result of a completed task was returned by a run of the pipeline for a request that was submitted for the
  task's trip.  It is the task's own request if the trip was submitted only once.\<close>

theorem completed_tasks_hold_a_run_of_their_trip:
  assumes "v1_reach cfg run_fn retries y"
    and "i < length (sv_heap (vs_api y))" "tk_status (sv_heap (vs_api y) ! i) = COMPLETED"
  shows "\<exists>r k. tk_result (sv_heap (vs_api y) ! i) = Some r \<and> k < length (sv_heap (vs_api y)) \<and>
    tk_trip (sv_heap (vs_api y) ! k) = tk_trip (sv_heap (vs_api y) ! i) \<and>
    run_ends (run_fn (tk_request (sv_heap (vs_api y) ! k))) (Result_in r) \<and>
    ((\<forall>m < length (sv_heap (vs_api y)). tk_trip (sv_heap (vs_api y) ! m) = tk_trip (sv_heap (vs_api y) ! i) \<longrightarrow> m = i) \<longrightarrow> k = i)"
proof -
  have inv: "v1_inv cfg run_fn retries y" using assms(1) by (rule v1_reach_inv)
  then obtain r j where r: "tk_result (sv_heap (vs_api y) ! i) = Some r"
    and j: "(j, Result_in r) \<in> set (wk_ended (vs_worker y))" "wj_trip j = tk_trip (sv_heap (vs_api y) ! i)"
    using assms(2,3) unfolding v1_inv_def completed_ok_def gave_result_def by blast
  have w: "slot_inv (vs_worker y)" "run_inv run_fn (vs_worker y)" using inv reach_inv by (auto simp: v1_inv_def)
  then have ran: "run_ends (run_fn (wj_request j)) (Result_in r)" using j(1) by (auto simp: run_inv_def outcome_ok_def)
  have "wk_accepted (vs_worker y) = map fst (wk_ended (vs_worker y)) @ unfinished (vs_worker y)"
    using w(1) by (simp add: slot_inv_def)
  then have "j \<in> set (wk_accepted (vs_worker y))" using j(1) by force
  then obtain k where "k < length (sv_heap (vs_api y))" "tk_trip (sv_heap (vs_api y) ! k) = wj_trip j"
    "tk_request (sv_heap (vs_api y) ! k) = wj_request j"
    using inv unfolding v1_inv_def calls_ok_def asked_for_def by blast
  with r ran j(2) show ?thesis by (metis (no_types, lifting))
qed

section \<open>A result that belongs to the task before\<close>

text \<open>Trip 7 is processed for so long that the watchdog gives it up; its user submits it again with another
  request, which waits while the worker is busy.  The worker ends the first run and frees its slot; before it
  posts the result, the second task is sent to it and started; the result of the first run completes it.\<close>

definition sx_rq :: "nat \<Rightarrow> process_request" where
  "sx_rq n = \<lparr>rq_exec = None, rq_name = [n], rq_period = \<lparr>pd_start = 0, pd_end = 0\<rparr>, rq_regions = [], rq_attachments = []\<rparr>"

definition sx_result :: "nat \<Rightarrow> process_result" where
  "sx_result n = \<lparr>res_places = [], res_unclassified = [], res_failed = [int n], res_offsets = []\<rparr>"

definition sx_run :: "process_request \<Rightarrow> pipeline_run" where
  "sx_run rq = Run_returns (sx_result (hd (rq_name rq)))"

definition sx_fate :: attempt_fate where
  "sx_fate = \<lparr>af_arrives = True, af_status = Some 204\<rparr>"

text \<open>The functions the rules of the system apply, on a system in the state they need.\<close>

definition sx_api :: "(svc \<Rightarrow> svc) \<Rightarrow> v1_system \<Rightarrow> v1_system" where
  "sx_api f y = y\<lparr>vs_api := f (vs_api y)\<rparr>"

definition sx_send :: "v1_system \<Rightarrow> v1_system" where
  "sx_send y =
     (let i = the (sv_sending (vs_api y)); t = sv_heap (vs_api y) ! i;
          (ans, w) = submit_job (tk_trip t) (tk_request t) (vs_worker y);
          a = submit_result [] (submit_status ans)
      in y\<lparr>vs_worker := w, vs_api := worker_answers tx_cfg a 0 i (vs_api y), vs_call := No_call\<rparr>)"

definition sx_turn :: "v1_system \<Rightarrow> v1_system" where
  "sx_turn y = thread_turn sx_run 3 sx_fate y"

definition sx_start :: v1_system where
  "sx_start = v1_init\<lparr>vs_worker := (vs_worker v1_init)\<lparr>wk_loaded := True\<rparr>\<rparr>"

definition sx_submit :: "nat \<Rightarrow> v1_system \<Rightarrow> v1_system" where
  "sx_submit n y = sx_api (\<lambda>s. snd (worker_ready tx_cfg 0 (Some True) 0 s)) (sx_api (\<lambda>s. snd (task_submit tx_cfg 7 (sx_rq n) 0 s)) y)"

definition sx_hand :: "v1_system \<Rightarrow> v1_system" where
  "sx_hand y = y\<lparr>vs_worker := hand_over (vs_worker y)\<rparr>"

definition sx_tick :: "rat \<Rightarrow> v1_system \<Rightarrow> v1_system" where
  "sx_tick now y = sx_api (task_tick tx_cfg now) y"

definition sx_deliver :: "v1_system \<Rightarrow> v1_system" where
  "sx_deliver y = (case vs_inbox y of [] \<Rightarrow> y | (j, c) # ys \<Rightarrow>
     y\<lparr>vs_api := handle_callback tx_cfg (wj_trip j) c 200 (vs_api y), vs_inbox := ys\<rparr>)"

lemma sx_api_reach:
  "v1_reach tx_cfg sx_run 3 y \<Longrightarrow> api_move tx_cfg (vs_api y) (f (vs_api y)) \<Longrightarrow> v1_reach tx_cfg sx_run 3 (sx_api f y)"
  unfolding sx_api_def by (rule v1_reach.step[OF _ v1_step.api])

lemma sx_submit_reach:
  assumes "v1_reach tx_cfg sx_run 3 y"
    and "sv_asking (snd (task_submit tx_cfg 7 (sx_rq n) 0 (vs_api y))) \<noteq> []"
  shows "v1_reach tx_cfg sx_run 3 (sx_submit n y)"
  unfolding sx_submit_def
  using assms by (intro sx_api_reach api_move.submits api_move.ready) (simp_all add: sx_api_def)

lemma sx_hand_reach: "v1_reach tx_cfg sx_run 3 y \<Longrightarrow> v1_reach tx_cfg sx_run 3 (sx_hand y)"
  unfolding sx_hand_def by (rule v1_reach.step[OF _ v1_step.worker[OF worker_move.hands_over]])

lemma sx_turn_reach: "v1_reach tx_cfg sx_run 3 y \<Longrightarrow> v1_reach tx_cfg sx_run 3 (sx_turn y)"
  unfolding sx_turn_def by (rule v1_reach.step[OF _ v1_step.thread])

lemma sx_tick_reach: "v1_reach tx_cfg sx_run 3 y \<Longrightarrow> v1_reach tx_cfg sx_run 3 (sx_tick now y)"
  unfolding sx_tick_def by (erule sx_api_reach) (rule api_move.ticks)

lemma sx_deliver_reach:
  assumes "v1_reach tx_cfg sx_run 3 y"
  shows "v1_reach tx_cfg sx_run 3 (sx_deliver y)"
proof (cases "vs_inbox y")
  case (Cons x ys)
  obtain j c where x: "x = (j, c)" by (cases x)
  have "vs_inbox y = [] @ (j, c) # ys" by (simp add: Cons x)
  from v1_reach.step[OF assms v1_step.delivers[OF this, of _ _ _ 200]] show ?thesis
    by (simp add: sx_deliver_def Cons x)
qed (simp add: sx_deliver_def assms)

lemma sx_send_reach:
  assumes y: "v1_reach tx_cfg sx_run 3 y" and ready: "sv_sending (vs_api y) = Some i" "vs_call y = No_call"
    "wk_loop (vs_worker y) = Lp_free"
  shows "v1_reach tx_cfg sx_run 3 (sx_send y)"
proof -
  let ?t = "sv_heap (vs_api y) ! i"
  obtain ans w where sub: "submit_job (tk_trip ?t) (tk_request ?t) (vs_worker y) = (ans, w)" by fastforce
  let ?a = "y\<lparr>vs_call := Request_out (tk_trip ?t) (tk_request ?t)\<rparr>"
  let ?b = "?a\<lparr>vs_worker := w, vs_call := Answer_back (submit_result [] (submit_status ans))\<rparr>"
  have "v1_reach tx_cfg sx_run 3 ?a" by (rule v1_reach.step[OF y v1_step.calls[OF ready(1,2)]])
  then have "v1_reach tx_cfg sx_run 3 ?b"
  proof (rule v1_reach.step)
    have "v1_step tx_cfg sx_run 3 ?a (?a\<lparr>vs_worker := w, vs_call := Answer_back (submit_result [] (submit_status ans))\<rparr>)"
      using sub ready(3) by (intro v1_step.arrives) auto
    then show "v1_step tx_cfg sx_run 3 ?a ?b" .
  qed
  moreover have "v1_step tx_cfg sx_run 3 ?b
      (?b\<lparr>vs_api := worker_answers tx_cfg (submit_result [] (submit_status ans)) 0 i (vs_api ?b), vs_call := No_call\<rparr>)"
    by (rule v1_step.hears) (simp_all add: ready)
  ultimately have "v1_reach tx_cfg sx_run 3
      (?b\<lparr>vs_api := worker_answers tx_cfg (submit_result [] (submit_status ans)) 0 i (vs_api ?b), vs_call := No_call\<rparr>)"
    by (rule v1_reach.step)
  moreover have "sx_send y =
      ?b\<lparr>vs_api := worker_answers tx_cfg (submit_result [] (submit_status ans)) 0 i (vs_api ?b), vs_call := No_call\<rparr>"
    by (simp add: sx_send_def ready sub)
  ultimately show ?thesis by simp
qed

text \<open>The first task is started and its run returns; the watchdog gives the task up; the second is refused.\<close>

definition sx_first :: v1_system where
  "sx_first = sx_turn (sx_turn (sx_hand (sx_send (sx_submit 1 sx_start))))"

definition sx_again :: v1_system where
  "sx_again = sx_send (sx_submit 2 (sx_tick 150 sx_first))"

text \<open>The run ends and the slot is free; the second task is sent and started; then the first result arrives.\<close>

definition sx_second :: v1_system where
  "sx_second = sx_send (sx_tick 160 (sx_turn (sx_turn sx_again)))"

definition sx_stale :: v1_system where
  "sx_stale = sx_deliver (sx_turn sx_second)"


definition sx_ready :: "v1_system \<Rightarrow> bool" where
  "sx_ready y \<longleftrightarrow> vs_call y = No_call \<and> wk_loop (vs_worker y) = Lp_free"

lemma sx_guards:
  "sv_asking (snd (task_submit tx_cfg 7 (sx_rq 1) 0 (vs_api sx_start))) \<noteq> []"
  "sv_sending (vs_api (sx_submit 1 sx_start)) = Some 0" "sx_ready (sx_submit 1 sx_start)"
  "sv_asking (snd (task_submit tx_cfg 7 (sx_rq 2) 0 (vs_api (sx_tick 150 sx_first)))) \<noteq> []"
  "sv_sending (vs_api (sx_submit 2 (sx_tick 150 sx_first))) = Some 1" "sx_ready (sx_submit 2 (sx_tick 150 sx_first))"
  "sv_sending (vs_api (sx_tick 160 (sx_turn (sx_turn sx_again)))) = Some 1"
  "sx_ready (sx_tick 160 (sx_turn (sx_turn sx_again)))"
  by code_simp+

lemma sx_states:
  "status_of (vs_api sx_first) 0 = PROCESSING" "status_of (vs_api sx_again) 0 = FAILED"
  "status_of (vs_api sx_again) 1 = QUEUED" "status_of (vs_api sx_second) 1 = PROCESSING"
  "status_of (vs_api sx_stale) 1 = COMPLETED" "tk_request (sv_heap (vs_api sx_stale) ! 1) = sx_rq 2"
  "tk_result (sv_heap (vs_api sx_stale) ! 1) = Some (sx_result 1)" "length (sv_heap (vs_api sx_stale)) = 2"
  by code_simp+


lemma sx_reach: "v1_reach tx_cfg sx_run 3 sx_first" "v1_reach tx_cfg sx_run 3 sx_second" "v1_reach tx_cfg sx_run 3 sx_stale"
proof -
  have send: "v1_reach tx_cfg sx_run 3 (sx_send y)"
    if "v1_reach tx_cfg sx_run 3 y" "sv_sending (vs_api y) = Some i" "sx_ready y" for y i
    using that by (intro sx_send_reach) (auto simp: sx_ready_def)
  have "v1_reach tx_cfg sx_run 3 sx_start" unfolding sx_start_def
    by (rule v1_reach.step[OF v1_reach.init v1_step.worker[OF worker_move.loads]])
  then have "v1_reach tx_cfg sx_run 3 (sx_send (sx_submit 1 sx_start))"
    by (rule send[OF sx_submit_reach[OF _ sx_guards(1)] sx_guards(2,3)])
  then show first: "v1_reach tx_cfg sx_run 3 sx_first"
    unfolding sx_first_def by (intro sx_turn_reach sx_hand_reach)
  then have "v1_reach tx_cfg sx_run 3 sx_again"
    unfolding sx_again_def by (rule send[OF sx_submit_reach[OF sx_tick_reach sx_guards(4)] sx_guards(5,6)])
  then show "v1_reach tx_cfg sx_run 3 sx_second"
    unfolding sx_second_def by (rule send[OF sx_tick_reach[OF sx_turn_reach[OF sx_turn_reach]] sx_guards(7,8)])
  then show "v1_reach tx_cfg sx_run 3 sx_stale"
    unfolding sx_stale_def by (intro sx_deliver_reach sx_turn_reach)
qed

lemma completed_tasks_hold_a_run_of_their_trip_witness:
  "\<exists>k < 2. tk_trip (sv_heap (vs_api sx_stale) ! k) = tk_trip (sv_heap (vs_api sx_stale) ! 1) \<and>
     run_ends (sx_run (tk_request (sv_heap (vs_api sx_stale) ! k))) (Result_in (sx_result 1))"
proof -
  have "1 < length (sv_heap (vs_api sx_stale))" "tk_status (sv_heap (vs_api sx_stale) ! 1) = COMPLETED"
    using sx_states by (simp_all add: status_of_def)
  from completed_tasks_hold_a_run_of_their_trip[OF sx_reach(3) this] show ?thesis
    unfolding sx_states(7,8) by blast
qed

lemma stale_result_completes_next_task:
  "\<exists>y i r. v1_reach tx_cfg sx_run 3 y \<and> tk_status (sv_heap (vs_api y) ! i) = COMPLETED \<and>
     tk_result (sv_heap (vs_api y) ! i) = Some r \<and> \<not> run_ends (sx_run (tk_request (sv_heap (vs_api y) ! i))) (Result_in r)"
proof -
  have "\<not> run_ends (sx_run (sx_rq 2)) (Result_in (sx_result 1))"
    by (auto simp: sx_run_def sx_rq_def sx_result_def elim: run_ends.cases)
  then have "v1_reach tx_cfg sx_run 3 sx_stale \<and> tk_status (sv_heap (vs_api sx_stale) ! 1) = COMPLETED \<and>
     tk_result (sv_heap (vs_api sx_stale) ! 1) = Some (sx_result 1) \<and>
     \<not> run_ends (sx_run (tk_request (sv_heap (vs_api sx_stale) ! 1))) (Result_in (sx_result 1))"
    using sx_reach(3) sx_states(5-7) unfolding status_of_def by metis
  then show ?thesis by blast
qed

end
