(* ===== verification/GpuGate.thy ===== *)
theory GpuGate
  imports RedisCore SearchRun
begin

text \<open>
  \<open>src/app/jobs/gpu_requests.py\<close>: the slots that all replicas share for their calls of a GPU server, a
  sorted set of tokens scored by the time their lease ends.  \<open>_claim\<close> watches the set, reads the time and
  the set, and commits only if nobody wrote the set since; reading, committing and getting the reply are separate
  steps of the callers.  Time advances between steps, as far as the two time limits of \<open>run\<close> let it: a
  caller waits for its slot no longer than its own limit, and its call runs no longer than its time-out and five
  seconds.  Every caller has its own two limits, for the search, the stories and the organising job share one set with
  different ones.  Nothing else bounds how long a claim takes once it has read the time.
\<close>

section \<open>Slots\<close>

definition live_slots :: "zset \<Rightarrow> rat \<Rightarrow> zset" where
  "live_slots z now = filter (\<lambda>(s, t). now < s) z"

text \<open>One pass of \<open>_claim\<close> over the set it read; \<open>None\<close> is no free slot.\<close>

definition gate_pass :: "nat \<Rightarrow> rat \<Rightarrow> string \<Rightarrow> rat \<Rightarrow> zset \<Rightarrow> zset option" where
  "gate_pass limit lease token now z =
     (if limit \<le> length (live_slots z now) then None else Some (zadd token (now + lease) (live_slots z now)))"

text \<open>Committing: a set written since the read fails the transaction, and the claim answers no.\<close>

definition gate_commit :: "nat \<Rightarrow> rat \<Rightarrow> string \<Rightarrow> rat \<Rightarrow> zset \<Rightarrow> zset \<Rightarrow> bool \<times> zset" where
  "gate_commit limit lease token now seen z =
     (if z \<noteq> seen then (False, z)
      else (case gate_pass limit lease token now z of None \<Rightarrow> (False, z) | Some z' \<Rightarrow> (True, z')))"

section \<open>Callers\<close>

text \<open>The limits a caller is made with: how long it waits for a slot, and the time-out of its call.\<close>

record call_limits =
  cl_wait :: rat
  cl_timeout :: rat

text \<open>A caller that entered \<open>run\<close> at some time waits, has read the time and the set, or gets the reply to its
  transaction; then its call runs, which keeps the time the claim read and the time the call started.  A caller that
  gives up may leave its transaction on its way.\<close>

datatype call_phase = Waiting rat | Read rat rat zset | Replied rat rat bool | Running rat rat | Adrift rat zset | Over

record gate =
  ga_clock :: rat
  ga_slots :: zset
  ga_calls :: "string \<Rightarrow> call_phase option"

definition gate_init :: gate where
  "gate_init = \<lparr>ga_clock = 0, ga_slots = [], ga_calls = (\<lambda>_. None)\<rparr>"

definition to_phase :: "string \<Rightarrow> call_phase \<Rightarrow> gate \<Rightarrow> gate" where
  "to_phase token p g = g\<lparr>ga_calls := (ga_calls g)(token \<mapsto> p)\<rparr>"

definition lease_of :: "call_limits \<Rightarrow> rat" where
  "lease_of l = cl_timeout l + 10"

definition CALL_TIMEOUT_GRACE_SEC :: rat where
  "CALL_TIMEOUT_GRACE_SEC = 5"

text \<open>The transaction reaches Redis; \<open>nxt\<close> is what becomes of its caller.\<close>

definition claim_step :: "nat \<Rightarrow> call_limits \<Rightarrow> string \<Rightarrow> rat \<Rightarrow> zset \<Rightarrow> (bool \<Rightarrow> call_phase) \<Rightarrow> gate \<Rightarrow> gate" where
  "claim_step limit l token now seen nxt g =
     (let (ok, z) = gate_commit limit (lease_of l) token now seen (ga_slots g)
      in to_phase token (nxt ok) (g\<lparr>ga_slots := z\<rparr>))"

text \<open>The two blocks of \<open>asyncio.timeout\<close>.\<close>

definition may_pass :: "(string \<Rightarrow> call_limits) \<Rightarrow> rat \<Rightarrow> gate \<Rightarrow> bool" where
  "may_pass limits d g \<longleftrightarrow> 0 \<le> d \<and> (\<forall>token.
     (case ga_calls g token of
        Some (Waiting entered) \<Rightarrow> ga_clock g + d \<le> entered + cl_wait (limits token)
      | Some (Read entered now seen) \<Rightarrow> ga_clock g + d \<le> entered + cl_wait (limits token)
      | Some (Replied entered now ok) \<Rightarrow> ga_clock g + d \<le> entered + cl_wait (limits token)
      | Some (Running now start) \<Rightarrow> ga_clock g + d \<le> start + (cl_timeout (limits token) + CALL_TIMEOUT_GRACE_SEC)
      | _ \<Rightarrow> True))"

text \<open>\<open>run\<close>: a new token waits; it claims until a slot is granted, and its call starts at once; or it gives up,
  for its time is up, Redis fails it or it is cancelled.  The call ends, and in the end the token is taken out of the set,
  or the lease is left to expire.  A transaction whose reply is lost may still take effect.\<close>

inductive gate_step :: "nat \<Rightarrow> (string \<Rightarrow> call_limits) \<Rightarrow> gate \<Rightarrow> gate \<Rightarrow> bool" for limit limits where
  enters: "ga_calls g token = None \<Longrightarrow> 0 < cl_wait (limits token) \<Longrightarrow>
    gate_step limit limits g (to_phase token (Waiting (ga_clock g)) g)"
| reads: "ga_calls g token = Some (Waiting entered) \<Longrightarrow>
    gate_step limit limits g (to_phase token (Read entered (ga_clock g) (ga_slots g)) g)"
| claims: "ga_calls g token = Some (Read entered now seen) \<Longrightarrow>
    gate_step limit limits g (claim_step limit (limits token) token now seen (Replied entered now) g)"
| refused: "ga_calls g token = Some (Replied entered now False) \<Longrightarrow>
    gate_step limit limits g (to_phase token (Waiting entered) g)"
| starts: "ga_calls g token = Some (Replied entered now True) \<Longrightarrow>
    gate_step limit limits g (to_phase token (Running now (ga_clock g)) g)"
| gives_up: "ga_calls g token = Some p \<Longrightarrow> gate_step limit limits g
    (to_phase token (case p of Read entered now seen \<Rightarrow> Adrift now seen | Adrift now seen \<Rightarrow> p | _ \<Rightarrow> Over) g)"
| arrives: "ga_calls g token = Some (Adrift now seen) \<Longrightarrow>
    gate_step limit limits g (claim_step limit (limits token) token now seen (\<lambda>_. Over) g)"
| releases: "ga_calls g token = Some p \<Longrightarrow> p = Over \<or> (\<exists>now seen. p = Adrift now seen) \<Longrightarrow>
    gate_step limit limits g (g\<lparr>ga_slots := zrem token (ga_slots g)\<rparr>)"
| passes: "may_pass limits d g \<Longrightarrow> gate_step limit limits g (g\<lparr>ga_clock := ga_clock g + d\<rparr>)"

inductive gate_reach :: "nat \<Rightarrow> (string \<Rightarrow> call_limits) \<Rightarrow> gate \<Rightarrow> bool" for limit limits where
  init: "gate_reach limit limits gate_init"
| step: "gate_reach limit limits g \<Longrightarrow> gate_step limit limits g h \<Longrightarrow> gate_reach limit limits h"

definition running_calls :: "gate \<Rightarrow> string set" where
  "running_calls g = {t. \<exists>n s. ga_calls g t = Some (Running n s)}"


text \<open>\<open>GatedVlm\<close> and \<open>GatedEmbedder\<close>: what failing to get a slot raises; \<open>None\<close> is \<open>GateUnavailable\<close>.\<close>

definition gated_vlm :: "(query_fault + 'a) option \<Rightarrow> query_fault + 'a" where
  "gated_vlm r = (case r of None \<Rightarrow> Inl Q_vlm | Some x \<Rightarrow> x)"

definition gated_embedder :: "(query_fault + 'a) option \<Rightarrow> query_fault + 'a" where
  "gated_embedder r = (case r of None \<Rightarrow> Inl Q_model | Some x \<Rightarrow> x)"

section \<open>The limit holds\<close>

















section \<open>Examples\<close>





text \<open>The organising job waits up to 60 seconds by default.  When the replies to its claim take eight, its lease ends
  before its call may: at 191 seconds another caller gets the only slot.\<close>

definition gy_limits :: "string \<Rightarrow> call_limits" where
  "gy_limits t = \<lparr>cl_wait = 60, cl_timeout = 180\<rparr>"

definition gy_last :: gate where
  "gy_last = \<lparr>ga_clock = 191, ga_slots = [(381, ''b'')], ga_calls = [''a'' \<mapsto> Running 0 8, ''b'' \<mapsto> Running 191 191]\<rparr>"

lemma a_slow_claim_outlives_its_slot:
  "gate_reach 1 gy_limits gy_last \<and> running_calls gy_last = {''a'', ''b''}"
proof
  let ?r = "gate_reach 1 gy_limits"
  let ?g = "\<lambda>t z f. \<lparr>ga_clock = t, ga_slots = z, ga_calls = f\<rparr> :: gate"
  have l: "0 < cl_wait (gy_limits t)" for t by (simp add: gy_limits_def)
  have "?r (?g 0 [] Map.empty)" using gate_reach.init by (simp add: gate_init_def)
  then have "?r (?g 0 [] [''a'' \<mapsto> Waiting 0])"
    using gate_reach.step[OF _ enters, of 1 gy_limits "?g 0 [] Map.empty" "''a''"] l by (simp add: to_phase_def)
  then have "?r (?g 0 [] [''a'' \<mapsto> Read 0 0 []])"
    using gate_reach.step[OF _ reads, of 1 gy_limits "?g 0 [] [''a'' \<mapsto> Waiting 0]" "''a''" 0] by (simp add: to_phase_def)
  then have "?r (?g 4 [] [''a'' \<mapsto> Read 0 0 []])"
    using gate_reach.step[OF _ passes[where d = 4], of 1 gy_limits "?g 0 [] [''a'' \<mapsto> Read 0 0 []]"]
    by (simp add: may_pass_def gy_limits_def split: option.split)
  then have "?r (?g 4 [(190, ''a'')] [''a'' \<mapsto> Replied 0 0 True])"
    using gate_reach.step[OF _ claims, of 1 gy_limits "?g 4 [] [''a'' \<mapsto> Read 0 0 []]" "''a''" 0 0 "[]"]
    by (simp add: to_phase_def claim_step_def gate_commit_def gate_pass_def live_slots_def zadd_def zrem_def lease_of_def gy_limits_def)
  then have "?r (?g 8 [(190, ''a'')] [''a'' \<mapsto> Replied 0 0 True])"
    using gate_reach.step[OF _ passes[where d = 4], of 1 gy_limits "?g 4 [(190, ''a'')] [''a'' \<mapsto> Replied 0 0 True]"]
    by (simp add: may_pass_def gy_limits_def split: option.split)
  then have "?r (?g 8 [(190, ''a'')] [''a'' \<mapsto> Running 0 8])"
    using gate_reach.step[OF _ starts, of 1 gy_limits "?g 8 [(190, ''a'')] [''a'' \<mapsto> Replied 0 0 True]" "''a''" 0 0]
    by (simp add: to_phase_def)
  then have "?r (?g 191 [(190, ''a'')] [''a'' \<mapsto> Running 0 8])"
    using gate_reach.step[OF _ passes[where d = 183], of 1 gy_limits "?g 8 [(190, ''a'')] [''a'' \<mapsto> Running 0 8]"]
    by (simp add: may_pass_def gy_limits_def CALL_TIMEOUT_GRACE_SEC_def split: option.split)
  then have "?r (?g 191 [(190, ''a'')] [''a'' \<mapsto> Running 0 8, ''b'' \<mapsto> Waiting 191])"
    using gate_reach.step[OF _ enters, of 1 gy_limits "?g 191 [(190, ''a'')] [''a'' \<mapsto> Running 0 8]" "''b''"] l
    by (simp add: to_phase_def)
  then have "?r (?g 191 [(190, ''a'')] [''a'' \<mapsto> Running 0 8, ''b'' \<mapsto> Read 191 191 [(190, ''a'')]])"
    using gate_reach.step[OF _ reads, of 1 gy_limits "?g 191 [(190, ''a'')] [''a'' \<mapsto> Running 0 8, ''b'' \<mapsto> Waiting 191]" "''b''" 191]
    by (simp add: to_phase_def)
  then have "?r (?g 191 [(381, ''b'')] [''a'' \<mapsto> Running 0 8, ''b'' \<mapsto> Replied 191 191 True])"
    using gate_reach.step[OF _ claims, of 1 gy_limits
        "?g 191 [(190, ''a'')] [''a'' \<mapsto> Running 0 8, ''b'' \<mapsto> Read 191 191 [(190, ''a'')]]" "''b''" 191 191 "[(190, ''a'')]"]
    by (simp add: to_phase_def claim_step_def gate_commit_def gate_pass_def live_slots_def zadd_def zrem_def lease_of_def gy_limits_def)
  then show "?r gy_last"
    using gate_reach.step[OF _ starts, of 1 gy_limits
        "?g 191 [(381, ''b'')] [''a'' \<mapsto> Running 0 8, ''b'' \<mapsto> Replied 191 191 True]" "''b''" 191 191]
    by (simp add: to_phase_def gy_last_def)
  show "running_calls gy_last = {''a'', ''b''}" by (auto simp: running_calls_def gy_last_def split: if_splits)
qed

end
