(* ===== verification/StoreHistory.thy ===== *)
theory StoreHistory
  imports StorePhotos
begin

text \<open>
  What the store never forgets: an execution it has registered or ignored stays known, and a record only
  becomes published by an acknowledgement.  These are the facts the message bus relies on, whatever the
  other clients of the store do in between.
\<close>

section \<open>Known executions\<close>

definition known :: "redis \<Rightarrow> string \<Rightarrow> bool" where
  "known s i \<longleftrightarrow> key_exists s (KJob i) \<or> key_exists s (KIgnored i)"

fun spares_ignored :: "rcmd \<Rightarrow> bool" where
  "spares_ignored (DELc (KIgnored i)) = False"
| "spares_ignored c = True"

lemma spares_ignored_key [simp]: "\<not> (\<exists>i. cmd_key c = KIgnored i) \<Longrightarrow> spares_ignored c"
  by (cases c rule: spares_ignored.cases) simp_all

lemma exec_spares:
  "list_all spares_ignored cs \<Longrightarrow> s (KIgnored i) \<noteq> None \<Longrightarrow> exec cs s (KIgnored i) \<noteq> None"
proof (induction cs arbitrary: s)
  case (Cons c cs)
  then have "exec1 c s (KIgnored i) \<noteq> None" by (cases c rule: spares_ignored.cases) auto
  with Cons show ?case by simp
qed simp

lemma metrics_spare: "terminal_commands r now = Inr ms \<Longrightarrow> list_all spares_ignored ms"
  using terminal_commands_keys by (fastforce simp: list_all_iff)

lemma slot_spares [simp]: "key \<in> set (slot_keys k) \<Longrightarrow> spares_ignored (DELc key)"
  by (auto dest!: slot_keys_are_slots)

lemma change_spares: "list_all spares_ignored (attempt_cmds (change_attempt E i upd score now s))"
proof (cases "attempt_cmds (change_attempt E i upd score now s) = []")
  case False
  then obtain old r' cs where c: "change_commands E i old r' score now s = Inr cs"
    and a: "attempt_cmds (change_attempt E i upd score now s) = cs"
    by (auto simp: change_attempt_def split: option.splits sum.splits)
  show ?thesis
  proof (cases "terminal (j_status r')")
    case True
    with c obtain ms where "(if terminal old then Inr [] else terminal_commands r' now) = Inr ms"
      and cs: "cs = SETc (KJob i) (VJob r') # ms @ tl (finish_cmds E i r' now s)"
      by (auto simp: change_commands_def Let_def finish_cmds_def)
    then have "list_all spares_ignored ms" using metrics_spare by (auto split: if_splits)
    then show ?thesis by (auto simp: a cs finish_cmds_def list_all_iff)
  next
    case False
    with c show ?thesis
      by (auto simp: a change_commands_def Let_def list_all_iff split: if_splits option.splits)
  qed
qed simp

lemma claim_spares: "list_all spares_ignored (attempt_cmds (claim_attempt E k w stop now s))"
proof (cases "\<exists>x cs. claim_attempt E k w stop now s = Done x cs \<and> cs \<noteq> []")
  case True
  then obtain x cs where "claim_attempt E k w stop now s = Done x cs" "cs \<noteq> []" by blast
  from claim_success[OF this] this obtain slot r i q where
    "slot \<in> set (slot_keys k)"
    "attempt_cmds (claim_attempt E k w stop now s) = [ZREMc (KQueue k) i, SETc slot (VStr i),
       SETc (KJob i) (VJob (claimed_job r w now)), ZADDc KRunning i q]" by auto
  then show ?thesis by simp
next
  case False
  then show ?thesis
    unfolding claim_attempt_def
    by (auto simp: list_all_iff stale_slots_def split: if_splits list.splits option.splits prod.splits)
qed

lemma register_spares: "list_all spares_ignored (attempt_cmds (register E r now s))"
proof (cases rule: register_cases[of s E r _ now])
  case closed
  from register_closed[OF this] show ?thesis by simp
next
  case busy
  from register_busy[OF this, of now] show ?thesis by (auto simp: list_all_iff)
next
  case (raises e)
  from register_raises[OF this] show ?thesis by simp
next
  case (ok ms)
  then have "list_all spares_ignored ms" by (cases "j_event r") (auto dest: metrics_spare)
  with register_accepts[OF ok] show ?thesis by (auto simp: list_all_iff)
qed

lemma op_pass_spares: "op_ok E op \<Longrightarrow> list_all spares_ignored (op_pass E op s)"
proof (cases op)
  case (OpAcknowledge i p)
  then show ?thesis by (simp add: acknowledge_attempt_def split: option.split)
next
  case (OpStage m topic now)
  then show ?thesis by (simp add: stage_photos_def Let_def split: option.split)
next
  case (OpSaveMetrics recs)
  then show ?thesis by (auto simp: list_all_iff)
next
  case (OpCount h)
  then show ?thesis by (simp add: count_invalid_def Let_def)
next
  case (OpExpire key)
  moreover assume "op_ok E op"
  ultimately show ?thesis by (cases key) simp_all
next
  case (OpMetrics cs)
  moreover assume "op_ok E op"
  ultimately show ?thesis by (auto simp: list_all_iff elim!: metrics_key.elims)
qed (simp_all add: change_spares claim_spares register_spares)

lemma claim_batch_ignored: "snd (claim_batch_loop z s) (KIgnored i) = s (KIgnored i)"
  by (induction z arbitrary: s) (auto simp: Let_def split: option.split)

lemma op_run_known:
  assumes "store_inv E s" "op_ok E op" "known s i"
  shows "known (op_run E op s) i"
proof (cases "key_exists s (KJob i)")
  case True
  then obtain j where "get_job s i = Some j"
    using job_key_iff[OF assms(1), of i] by (auto simp: key_exists_def)
  from op_run_evolves[OF assms(2) this] obtain j' where "get_job (op_run E op s) i = Some j'" by blast
  then show ?thesis using get_job_key by (fastforce simp: known_def key_exists_def)
next
  case False
  with assms(3) have k: "s (KIgnored i) \<noteq> None" by (simp add: known_def key_exists_def)
  have "op_run E op s (KIgnored i) \<noteq> None"
  proof (cases "op = OpClaimBatch")
    case True
    with k show ?thesis by (simp add: claim_batch_def claim_batch_ignored)
  next
    case False
    with exec_spares[where cs = "op_pass E op s" and s = s and i = i] op_pass_spares[OF assms(2)] k
    show ?thesis by (simp add: op_run_pass)
  qed
  then show ?thesis by (simp add: known_def key_exists_def)
qed

text \<open>Registration makes an execution known, or raises.\<close>

lemma register_known:
  assumes "register E r now s = Done (Inr x) cs"
  shows "known (exec cs s) (job_identity E r)"
proof (cases rule: register_cases[of s E r _ now])
  case closed
  with assms register_closed[OF this, of now] show ?thesis by (auto simp: known_def key_exists_def)
next
  case busy
  with assms register_busy[OF this, of now] show ?thesis by (auto simp: known_def key_exists_def)
next
  case (raises e)
  with assms register_raises[OF this] show ?thesis by simp
next
  case (ok ms)
  let ?i = "job_identity E r"
  from ok have "list_all spares_ignored ms" "\<forall>c \<in> set ms. \<not> job_key (cmd_key c)"
    by (cases "j_event r"; auto dest: metrics_spare terminal_commands_not_job)+
  then have m: "KJob ?i \<notin> cmd_key ` set ms" using not_job_keys by blast
  from register_accepts[OF ok] assms have "exec cs s (KJob ?i) = Some (VJob (r\<lparr>j_created := now\<rparr>))"
    using exec_other[OF m] by auto
  then show ?thesis by (simp add: known_def key_exists_def)
qed

section \<open>New records\<close>

lemma change_new:
  "get_job s x = None \<Longrightarrow> get_job (exec (attempt_cmds (change_attempt E i upd score now s)) s) x = None"
  by (auto simp: change_attempt_def get_job_after_change split: option.split sum.split)

lemma claim_new:
  assumes "get_job s x = None"
  shows "get_job (exec (attempt_cmds (claim_attempt E k w stop now s)) s) x = None"
proof (cases "\<exists>o' cs. claim_attempt E k w stop now s = Done o' cs \<and> cs \<noteq> []")
  case True
  then obtain o' cs where "claim_attempt E k w stop now s = Done o' cs" "cs \<noteq> []" by blast
  from claim_success[OF this] this obtain slot r i q where
    "slot \<in> set (slot_keys k)" "get_job s i = Some r"
    "attempt_cmds (claim_attempt E k w stop now s) = [ZREMc (KQueue k) i, SETc slot (VStr i),
       SETc (KJob i) (VJob (claimed_job r w now)), ZADDc KRunning i q]" by auto
  with assms show ?thesis by (auto simp: view_simps dest!: slot_keys_are_slots)
next
  case False
  have "KJob x \<notin> cmd_key ` set (attempt_cmds (claim_attempt E k w stop now s))"
    using False unfolding claim_attempt_def
    by (auto split: if_splits list.splits option.splits prod.splits)
  with assms show ?thesis by (simp add: get_job_exec_other)
qed

lemma noise_new: "\<forall>c \<in> set cs. \<not> core_key (cmd_key c) \<Longrightarrow> get_job s x = None \<Longrightarrow> get_job (exec cs s) x = None"
  using core_eq_views(1)[OF core_eq_noise, of cs s x] by simp

lemma acknowledge_new:
  "get_job s x = None \<Longrightarrow> get_job (exec (attempt_cmds (acknowledge_attempt i p s)) s) x = None"
  by (auto simp: acknowledge_attempt_def view_simps split: option.split)

lemma op_run_new:
  assumes ok: "op_ok E op" and none: "get_job s x = None" and some: "get_job (op_run E op s) x = Some j"
  shows "\<exists>r now. op = OpRegister r now \<and> fresh_job E r \<and> j = r\<lparr>j_created := now\<rparr>"
proof (cases op)
  case (OpRegister r now)
  have "j = r\<lparr>j_created := now\<rparr>"
  proof (cases rule: register_cases[of s E r _ now])
    case closed
    from register_closed[OF this, of now] some none OpRegister show ?thesis by simp
  next
    case busy
    then have "KJob x \<notin> cmd_key ` set (attempt_cmds (register E r now s))"
      using register_busy[of s E r now] by auto
    from get_job_exec_other[OF this, of s] some none OpRegister show ?thesis by simp
  next
    case (raises e)
    from register_raises[OF this] some none OpRegister show ?thesis by simp
  next
    case (ok ms)
    then have "\<forall>c \<in> set ms. \<not> job_key (cmd_key c)"
      by (cases "j_event r") (auto dest: terminal_commands_not_job)
    note m = not_job_keys[OF this, of x]
    have d: "KJob x \<notin> cmd_key ` set (map (ZREMc KBatchQueue) ds)" for ds by auto
    from register_accepts[OF ok] some none OpRegister show ?thesis
      by (auto simp: get_job_exec_other[OF m] get_job_exec_other[OF d] view_simps split: if_splits)
  qed
  with OpRegister assms(1) show ?thesis by simp
next
  case (OpStage m topic now)
  with noise_new[OF stage_noise none] some show ?thesis by simp
next
  case OpClaimBatch
  with core_eq_views(1)[OF claim_batch_core, of "get_zset s KBatchQueue" s x] none some show ?thesis
    by (simp add: claim_batch_def)
next
  case (OpSaveMetrics recs)
  have "\<forall>c \<in> set (map (\<lambda>(p, m). SETc (KPhoto p) (VMetrics m)) recs). \<not> core_key (cmd_key c)" by auto
  from noise_new[OF this none] OpSaveMetrics some show ?thesis by simp
next
  case (OpExpire key)
  with ok have "\<forall>c \<in> set [DELc key]. \<not> core_key (cmd_key c)" by (cases key) simp_all
  from noise_new[OF this none] OpExpire some show ?thesis by simp
next
  case (OpCount h)
  have "\<forall>c \<in> set (attempt_cmds (count_invalid h s)). \<not> core_key (cmd_key c)"
    by (simp add: count_invalid_def Let_def)
  from noise_new[OF this none] OpCount some show ?thesis by simp
next
  case (OpMetrics cs)
  with ok have "\<forall>c \<in> set cs. \<not> core_key (cmd_key c)" by (auto simp: list_all_iff dest!: metrics_not_core)
  from noise_new[OF this none] OpMetrics some show ?thesis by simp
qed (use some none in \<open>simp_all add: change_new claim_new acknowledge_new\<close>)

end
