(* ===== verification/Intake.thy ===== *)
theory Intake
  imports RedisStore PyText
begin

text \<open>
  \<open>src/app/jobs/kafka.py\<close>, the receiver of requests: what one Kafka message asks for.  Everything
  \<open>accept\<close> decides before its first wait is the pure \<open>intake_plan\<close>; its transactions are the
  operations of the job store and the counter \<open>count_invalid\<close>.  Bytes are characters.  \<open>intake_env\<close>
  holds what comes from outside: reading JSON (with the check that it can be written again), and the
  coercions of pydantic; the validators of \<open>PhotosReadyMessage\<close> are \<open>valid_photos_ready\<close>.
\<close>

section \<open>Messages and topics\<close>

record incoming =
  in_topic :: string
  in_partition :: nat
  in_offset :: nat
  in_key :: "string option"
  in_value :: "string option"

record intake_env =
  ie_jobs :: jobs_env
  ie_json :: "string \<Rightarrow> json option"
  ie_photos_ready :: "json \<Rightarrow> photos_ready option"
  ie_message :: "json \<Rightarrow> json option"

text \<open>\<open>JobsSettings.topics\<close>: the settings list requests and results of creating a trip, updating it and
  writing its story; a dictionary keeps the last of equal keys.\<close>

definition topics :: "jobs_cfg \<Rightarrow> (string, job_kind \<times> string) pydict" where
  "topics c =
     (case cfg_topics c of
        [create, created, update, updated, story, written] \<Rightarrow>
          dict_set story (Story, written) (dict_set update (Process, updated)
            (dict_set create (Process, created) []))
      | _ \<Rightarrow> [])"

definition consumer_groups :: "jobs_cfg \<Rightarrow> (string, string) pydict" where
  "consumer_groups c =
     (case cfg_topics c of
        [create, created, update, updated, story, written] \<Rightarrow>
          dict_set story ''yeodam-ai-story-create'' (dict_set update ''yeodam-ai-trip-update''
            (dict_set create ''yeodam-ai-trip-create'' []))
      | _ \<Rightarrow> [])"

section \<open>Reading a request\<close>

definition allowed_types :: "job_kind \<Rightarrow> utext list" where
  "allowed_types k =
     (if k = Process then [of_ascii ''process'', of_ascii ''photos_ready''] else [of_ascii ''story''])"

definition read_identity ::
  "job_kind \<Rightarrow> (string \<times> json) list \<Rightarrow> string option \<Rightarrow> (int \<times> utext \<times> utext) option" where
  "read_identity k d key =
     (case (map_of d ''trip_id'', map_of d ''execution_id'', map_of d ''type'') of
        (Some (JInt trip), Some (JStr ex), Some (JStr ty)) \<Rightarrow>
          if trip \<le> 0 \<or> \<not> (1 \<le> length ex \<and> length ex \<le> 128) \<or> ty \<notin> set (allowed_types k) \<or>
             key \<noteq> Some (int_str trip)
          then None else Some (trip, ex, ty)
      | _ \<Rightarrow> None)"

definition step_total :: "job_kind \<Rightarrow> json \<Rightarrow> int" where
  "step_total k data =
     (if k = Story then 4
      else case data of
             JObj d \<Rightarrow> (case map_of d ''attachments'' of Some (JArr xs) \<Rightarrow> int (length xs) | _ \<Rightarrow> 0)
           | _ \<Rightarrow> 0)"

definition new_record ::
  "job_kind \<Rightarrow> int \<Rightarrow> utext \<Rightarrow> json \<Rightarrow> string \<Rightarrow> string \<Rightarrow> job" where
  "new_record k trip ex data topic result_topic =
     \<lparr>j_trip = trip, j_kind = k, j_exec = ex, j_request = data, j_request_topic = topic,
      j_result_topic = result_topic, j_created = 0, j_status = QUEUED,
      j_progress = \<lparr>pr_done = 0, pr_total = step_total k data\<rparr>, j_step = None, j_owner = None,
      j_heartbeat = None, j_started = None, j_cancel = False, j_event = None, j_pub_owner = None,
      j_pub_until = 0, j_published = False\<rparr>"

text \<open>A body that does not validate is registered as a failed job: its identity is known.\<close>

definition intake_record ::
  "intake_env \<Rightarrow> job_kind \<Rightarrow> int \<Rightarrow> utext \<Rightarrow> json \<Rightarrow> string \<Rightarrow> string \<Rightarrow> job_exn + job" where
  "intake_record IE k trip ex data topic result_topic =
     (case ie_message IE data of
        Some request \<Rightarrow> Inr (new_record k trip ex request topic result_topic)
      | None \<Rightarrow> terminate (ie_jobs IE) (new_record k trip ex data topic result_topic) FAILED None
                  (Some \<lparr>eb_code = INVALID_REQUEST, eb_detail = []\<rparr>))"

datatype intake_decision =
  Unroutable | Refuse string | StageHint photos_ready | Submit "job_exn + job"

definition intake_plan :: "intake_env \<Rightarrow> incoming \<Rightarrow> intake_decision" where
  "intake_plan IE m =
     (case map_of (topics (env_cfg (ie_jobs IE))) (in_topic m) of
        None \<Rightarrow> Unroutable
      | Some (k, result_topic) \<Rightarrow>
          (case ie_json IE (case in_value m of Some v \<Rightarrow> v | None \<Rightarrow> []) of
             None \<Rightarrow> Refuse ''invalid_json''
           | Some (JObj d) \<Rightarrow>
               (case read_identity k d (in_key m) of
                  None \<Rightarrow> Refuse ''invalid_identity_or_route''
                | Some (trip, ex, ty) \<Rightarrow>
                    if ty = of_ascii ''photos_ready'' then
                      (case ie_photos_ready IE (JObj d) of
                         Some h \<Rightarrow> if valid_photos_ready h then StageHint h else Refuse ''invalid_photos_ready''
                       | None \<Rightarrow> Refuse ''invalid_photos_ready'')
                    else Submit (intake_record IE k trip ex (JObj d) (in_topic m) result_topic))
           | Some _ \<Rightarrow> Refuse ''invalid_envelope''))"

section \<open>Rejected messages\<close>

text \<open>\<open>reject\<close> counts under the digest of the message's coordinates; \<open>quarantine\<close> sends the original
  bytes to the dead letter topic.\<close>

definition invalid_digest :: "jobs_env \<Rightarrow> incoming \<Rightarrow> string" where
  "invalid_digest E m = sha256_hex E (of_ascii
     (in_topic m @ '':'' @ nat_str (in_partition m) @ '':'' @ nat_str (in_offset m)))"

record dead_letter =
  dl_topic :: string
  dl_value :: string
  dl_key :: "string option"
  dl_headers :: "(string \<times> string) list"

definition quarantine_letter :: "incoming \<Rightarrow> string \<Rightarrow> dead_letter" where
  "quarantine_letter m reason =
     \<lparr>dl_topic = in_topic m @ ''-dlt'', dl_value = (case in_value m of Some v \<Rightarrow> v | None \<Rightarrow> []),
      dl_key = in_key m,
      dl_headers = [(''ai-error'', reason), (''original-topic'', in_topic m),
        (''original-partition'', nat_str (in_partition m)), (''original-offset'', nat_str (in_offset m)),
        (''failure'', ''ValueError''), (''attempts'', ''3'')]\<rparr>"

section \<open>What the plan registers\<close>

lemma new_record_wf: "job_identity E (new_record k trip ex d t rt) = identity E trip k ex"
  by (simp add: job_identity_def new_record_def)

lemma step_total_nonneg [simp]: "0 \<le> step_total k d"
  by (simp add: step_total_def split: json.split option.split)

lemma plan_submit:
  assumes "intake_plan IE m = Submit r"
  shows "\<exists>k trip ex d rt. 0 < trip \<and> in_key m = Some (int_str trip) \<and>
    map_of (topics (env_cfg (ie_jobs IE))) (in_topic m) = Some (k, rt) \<and>
    r = intake_record IE k trip ex (JObj d) (in_topic m) rt"
  using assms
  by (fastforce simp: intake_plan_def read_identity_def split: option.splits prod.splits if_splits json.splits)

lemma plan_stage: "intake_plan IE m = StageHint h \<Longrightarrow> valid_photos_ready h"
  by (auto simp: intake_plan_def split: option.splits prod.splits if_splits json.splits)

end
