(* ===== verification/Bus.thy ===== *)
theory Bus
  imports StoreHistory Intake
begin

text \<open>
  \<open>src/app/jobs/kafka.py\<close> as a system: consumers of the request topics, publishers of the results, the
  job store they share with every other process, and the broker.  Each coroutine is cut at its waits: a
  step is what happens between two of them.  A transaction takes effect at once (\<open>commits_are_atomic\<close>);
  a lost reply of Redis or Kafka is a step of its own, with or without the effect.  Rebalances, restarts
  and the operations of the other processes may come between any two steps.  The msgs of a partition is
  the parameter \<open>msgs\<close>: what it holds in the end, whenever it arrives; offsets may have gaps.  A partition
  without a committed offset is read from its start (\<open>auto_offset_reset\<close>).
\<close>

section \<open>State\<close>

type_synonym tpart = "string \<times> nat"

datatype phase =
  Idle | Accepting incoming | Rejecting incoming string | Quarantining incoming string
| Committing incoming

record consumer =
  co_phase :: phase
  co_position :: "tpart \<Rightarrow> nat option"
  co_paused :: "tpart set"

datatype pub_phase = Resting | Holding string job | Delivered string

text \<open>\<open>bu_hints\<close> records the photo batches \<open>stage_photos\<close> answered for: they leave no lasting trace in
  Redis, where they expire.  A result is its topic, its event and its key.\<close>

record bus =
  bu_redis :: redis
  bu_committed :: "tpart \<Rightarrow> nat"
  bu_consumers :: "string \<Rightarrow> consumer"
  bu_dead :: "dead_letter list"
  bu_hints :: "(tpart \<times> nat) set"
  bu_results :: "(string \<times> result_event \<times> string) list"
  bu_publishers :: "string \<Rightarrow> pub_phase"

definition new_consumer :: consumer where
  "new_consumer = \<lparr>co_phase = Idle, co_position = (\<lambda>_. None), co_paused = {}\<rparr>"

definition bus_init :: bus where
  "bus_init = \<lparr>bu_redis = Map.empty, bu_committed = (\<lambda>_. 0), bu_consumers = (\<lambda>_. new_consumer),
     bu_dead = [], bu_hints = {}, bu_results = [], bu_publishers = (\<lambda>_. Resting)\<rparr>"

type_synonym partition_log = "tpart \<Rightarrow> nat \<Rightarrow> (string option \<times> string option) option"

definition incoming_at :: "partition_log \<Rightarrow> tpart \<Rightarrow> nat \<Rightarrow> incoming option" where
  "incoming_at msgs tp k =
     map_option (\<lambda>(key, val). \<lparr>in_topic = fst tp, in_partition = snd tp, in_offset = k, in_key = key,
       in_value = val\<rparr>) (msgs tp k)"

definition tpart_of :: "incoming \<Rightarrow> tpart" where
  "tpart_of m = (in_topic m, in_partition m)"

definition upd_consumer :: "string \<Rightarrow> consumer \<Rightarrow> bus \<Rightarrow> bus" where
  "upd_consumer c v b = b\<lparr>bu_consumers := (bu_consumers b)(c := v)\<rparr>"

definition set_phase :: "string \<Rightarrow> phase \<Rightarrow> bus \<Rightarrow> bus" where
  "set_phase c p b = upd_consumer c ((bu_consumers b c)\<lparr>co_phase := p\<rparr>) b"

abbreviation phase_of :: "bus \<Rightarrow> string \<Rightarrow> phase" where
  "phase_of b c \<equiv> co_phase (bu_consumers b c)"

section \<open>The consumer\<close>

text \<open>\<open>getone\<close>: the next message at or after the position of a partition that is not paused.\<close>

definition poll :: "string \<Rightarrow> incoming \<Rightarrow> bus \<Rightarrow> bus" where
  "poll c m b =
     (let v = bu_consumers b c
      in upd_consumer c (v\<lparr>co_phase := Accepting m,
           co_position := (co_position v)(tpart_of m \<mapsto> in_offset m + 1)\<rparr>) b)"

definition can_poll :: "partition_log \<Rightarrow> string \<Rightarrow> tpart \<Rightarrow> nat \<Rightarrow> incoming \<Rightarrow> bus \<Rightarrow> bool" where
  "can_poll msgs c tp k m b \<longleftrightarrow> phase_of b c = Idle \<and> tp \<notin> co_paused (bu_consumers b c) \<and>
     incoming_at msgs tp k = Some m \<and>
     (\<exists>p \<le> k. co_position (bu_consumers b c) tp = Some p \<and> (\<forall>n. p \<le> n \<and> n < k \<longrightarrow> incoming_at msgs tp n = None))"

text \<open>The store operation of \<open>accept\<close>, and where its answer leads.  An exception that is not caught ends
  the consumer: it starts again without partitions.\<close>

definition accept_op :: "intake_env \<Rightarrow> incoming \<Rightarrow> rat \<Rightarrow> store_op option" where
  "accept_op IE m now =
     (case intake_plan IE m of
        StageHint h \<Rightarrow> Some (OpStage h (in_topic m) now)
      | Submit (Inr r) \<Rightarrow> Some (OpRegister r now)
      | _ \<Rightarrow> None)"

definition accept_next :: "intake_env \<Rightarrow> incoming \<Rightarrow> rat \<Rightarrow> redis \<Rightarrow> phase option" where
  "accept_next IE m now s =
     (case intake_plan IE m of
        Unroutable \<Rightarrow> None
      | Refuse reason \<Rightarrow> Some (Rejecting m reason)
      | StageHint h \<Rightarrow>
          (case stage_photos (ie_jobs IE) h (in_topic m) now s of
             Done (Inr x) cs \<Rightarrow> Some (Committing m)
           | _ \<Rightarrow> Some (Rejecting m ''invalid_photos_ready''))
      | Submit (Inl e) \<Rightarrow> None
      | Submit (Inr r) \<Rightarrow>
          (case register (ie_jobs IE) r now s of
             Done (Inr x) cs \<Rightarrow> Some (Committing m) | _ \<Rightarrow> None))"

definition run_op :: "intake_env \<Rightarrow> store_op option \<Rightarrow> redis \<Rightarrow> redis" where
  "run_op IE op s = (case op of None \<Rightarrow> s | Some o' \<Rightarrow> op_run (ie_jobs IE) o' s)"

definition accept_step :: "intake_env \<Rightarrow> string \<Rightarrow> incoming \<Rightarrow> rat \<Rightarrow> bus \<Rightarrow> bus" where
  "accept_step IE c m now b =
     (let next = accept_next IE m now (bu_redis b);
          b' = b\<lparr>bu_redis := run_op IE (accept_op IE m now) (bu_redis b)\<rparr>
      in case next of
           None \<Rightarrow> upd_consumer c new_consumer b'
         | Some p \<Rightarrow> set_phase c p
             (case (intake_plan IE m, p) of
                (StageHint h, Committing m') \<Rightarrow>
                  b'\<lparr>bu_hints := insert (tpart_of m, in_offset m) (bu_hints b')\<rparr>
              | _ \<Rightarrow> b'))"

text \<open>Losing Redis: the message is accepted again, whether the transaction arrived or not.\<close>

definition accept_lost :: "intake_env \<Rightarrow> incoming \<Rightarrow> rat \<Rightarrow> bool \<Rightarrow> bus \<Rightarrow> bus" where
  "accept_lost IE m now arrived b =
     b\<lparr>bu_redis := (if arrived then run_op IE (accept_op IE m now) (bu_redis b) else bu_redis b)\<rparr>"

datatype reply = Replied | Lost bool

definition reject_step :: "intake_env \<Rightarrow> string \<Rightarrow> incoming \<Rightarrow> string \<Rightarrow> reply \<Rightarrow> bus \<Rightarrow> bus" where
  "reject_step IE c m reason answer b =
     (let a = count_invalid (invalid_digest (ie_jobs IE) m) (bu_redis b);
          b' = b\<lparr>bu_redis := run_attempt a (bu_redis b)\<rparr>;
          attempts = (case a of Done n cs \<Rightarrow> n | Again cs \<Rightarrow> 0)
      in case answer of
           Replied \<Rightarrow> set_phase c (if attempts < 3 then Accepting m else Quarantining m reason) b'
         | Lost arrived \<Rightarrow> set_phase c (Accepting m) (if arrived then b' else b))"

datatype send_answer = Sent | Too_large | Send_lost bool

definition quarantine_step :: "string \<Rightarrow> incoming \<Rightarrow> string \<Rightarrow> send_answer \<Rightarrow> bus \<Rightarrow> bus" where
  "quarantine_step c m reason answer b =
     (let kept = b\<lparr>bu_dead := bu_dead b @ [quarantine_letter m reason]\<rparr>; v = bu_consumers b c;
          tp = tpart_of m
      in case answer of
           Sent \<Rightarrow> set_phase c (Committing m) kept
         | Send_lost arrived \<Rightarrow> set_phase c (Accepting m) (if arrived then kept else b)
         | Too_large \<Rightarrow>
             if co_position v tp = None then set_phase c Idle b
             else upd_consumer c (v\<lparr>co_phase := Idle, co_position := (co_position v)(tp \<mapsto> in_offset m),
                    co_paused := insert tp (co_paused v)\<rparr>) b)"

datatype commit_answer = Committed | Fenced | Commit_lost bool

definition commit_step :: "string \<Rightarrow> incoming \<Rightarrow> commit_answer \<Rightarrow> bus \<Rightarrow> bus" where
  "commit_step c m answer b =
     (let b' = b\<lparr>bu_committed := (bu_committed b)(tpart_of m := in_offset m + 1)\<rparr>
      in case answer of
           Committed \<Rightarrow> set_phase c Idle b'
         | Fenced \<Rightarrow> set_phase c Idle b
         | Commit_lost arrived \<Rightarrow> set_phase c (Accepting m) (if arrived then b' else b))"

definition assign_step :: "string \<Rightarrow> tpart \<Rightarrow> bus \<Rightarrow> bus" where
  "assign_step c tp b =
     (let v = bu_consumers b c
      in upd_consumer c (v\<lparr>co_position := (co_position v)(tp \<mapsto> bu_committed b tp),
           co_paused := co_paused v - {tp}\<rparr>) b)"

definition revoke_step :: "string \<Rightarrow> tpart \<Rightarrow> bus \<Rightarrow> bus" where
  "revoke_step c tp b =
     (let v = bu_consumers b c in upd_consumer c (v\<lparr>co_position := (co_position v)(tp := None)\<rparr>) b)"

section \<open>The publisher\<close>

definition to_pub :: "string \<Rightarrow> pub_phase \<Rightarrow> bus \<Rightarrow> bus" where
  "to_pub p ph b = b\<lparr>bu_publishers := (bu_publishers b)(p := ph)\<rparr>"

definition result_message :: "job \<Rightarrow> (string \<times> result_event \<times> string) option" where
  "result_message r = map_option (\<lambda>e. (j_result_topic r, e, int_str (j_trip r))) (j_event r)"

definition claim_result_step :: "intake_env \<Rightarrow> string \<Rightarrow> string \<Rightarrow> rat \<Rightarrow> bus \<Rightarrow> bus" where
  "claim_result_step IE p i now b =
     (let a = claim_result (ie_jobs IE) i p now (bu_redis b)
      in to_pub p (case a of Done (Inr (Some r)) cs \<Rightarrow> Holding i r | _ \<Rightarrow> Resting)
           (b\<lparr>bu_redis := run_attempt a (bu_redis b)\<rparr>))"

definition publish_step :: "string \<Rightarrow> string \<Rightarrow> job \<Rightarrow> send_answer \<Rightarrow> bus \<Rightarrow> bus" where
  "publish_step p i r answer b =
     (case result_message r of
        None \<Rightarrow> to_pub p Resting b
      | Some x \<Rightarrow>
          (let kept = b\<lparr>bu_results := bu_results b @ [x]\<rparr>
           in case answer of
                Sent \<Rightarrow> to_pub p (Delivered i) kept
              | Too_large \<Rightarrow> to_pub p Resting b
              | Send_lost arrived \<Rightarrow> to_pub p Resting (if arrived then kept else b)))"

definition acknowledge_step :: "intake_env \<Rightarrow> string \<Rightarrow> string \<Rightarrow> bool \<Rightarrow> bus \<Rightarrow> bus" where
  "acknowledge_step IE p i arrived b =
     to_pub p Resting
       (b\<lparr>bu_redis := (if arrived then op_run (ie_jobs IE) (OpAcknowledge i p) (bu_redis b) else bu_redis b)\<rparr>)"

section \<open>All of it\<close>

inductive bus_step :: "intake_env \<Rightarrow> partition_log \<Rightarrow> bus \<Rightarrow> bus \<Rightarrow> bool" for IE msgs where
  others: "store_step (ie_jobs IE) op (bu_redis b) s \<Longrightarrow> (\<And>i p. op \<noteq> OpAcknowledge i p) \<Longrightarrow>
     bus_step IE msgs b (b\<lparr>bu_redis := s\<rparr>)"
| polls: "can_poll msgs c tp k m b \<Longrightarrow> bus_step IE msgs b (poll c m b)"
| accepts: "phase_of b c = Accepting m \<Longrightarrow> bus_step IE msgs b (accept_step IE c m now b)"
| loses: "phase_of b c = Accepting m \<Longrightarrow> bus_step IE msgs b (accept_lost IE m now arrived b)"
| rejects: "phase_of b c = Rejecting m reason \<Longrightarrow> bus_step IE msgs b (reject_step IE c m reason answer b)"
| quarantines: "phase_of b c = Quarantining m reason \<Longrightarrow>
     bus_step IE msgs b (quarantine_step c m reason answer b)"
| commits: "phase_of b c = Committing m \<Longrightarrow>
     (answer = Committed \<Longrightarrow> co_position (bu_consumers b c) (tpart_of m) \<noteq> None) \<Longrightarrow>
     bus_step IE msgs b (commit_step c m answer b)"
| assigns: "bus_step IE msgs b (assign_step c tp b)"
| revokes: "bus_step IE msgs b (revoke_step c tp b)"
| restarts: "bus_step IE msgs b (upd_consumer c new_consumer b)"
| claims: "bu_publishers b p = Resting \<Longrightarrow> bus_step IE msgs b (claim_result_step IE p i now b)"
| publishes: "bu_publishers b p = Holding i r \<Longrightarrow> bus_step IE msgs b (publish_step p i r answer b)"
| acknowledges: "bu_publishers b p = Delivered i \<Longrightarrow> bus_step IE msgs b (acknowledge_step IE p i arrived b)"
| pub_restarts: "bus_step IE msgs b (to_pub p Resting b)"

inductive bus_reach :: "intake_env \<Rightarrow> partition_log \<Rightarrow> bus \<Rightarrow> bool" for IE msgs where
  init: "bus_reach IE msgs bus_init"
| step: "bus_reach IE msgs b \<Longrightarrow> bus_step IE msgs b b' \<Longrightarrow> bus_reach IE msgs b'"

end
