(* ===== verification/BusInvariant.thy ===== *)
theory BusInvariant
  imports Bus
begin

text \<open>
  The invariant of the message bus: what is below a committed offset, or below a consumer's position and
  not in its hand, is settled; and what a publisher holds is what the store says.

  The publishers' half of the bus's invariant, and that every step of the bus keeps it.
\<close>

declare split_paired_All [simp del] split_paired_Ex [simp del]

section \<open>Settled messages\<close>

definition settled :: "intake_env \<Rightarrow> bus \<Rightarrow> incoming \<Rightarrow> bool" where
  "settled IE b m \<longleftrightarrow>
     (\<exists>reason. quarantine_letter m reason \<in> set (bu_dead b)) \<or>
     (case intake_plan IE m of
        Submit (Inr r) \<Rightarrow> known (bu_redis b) (job_identity (ie_jobs IE) r)
      | StageHint h \<Rightarrow> (tpart_of m, in_offset m) \<in> bu_hints b
      | _ \<Rightarrow> False)"

definition grows :: "bus \<Rightarrow> bus \<Rightarrow> bool" where
  "grows b b' \<longleftrightarrow> set (bu_dead b) \<subseteq> set (bu_dead b') \<and> bu_hints b \<subseteq> bu_hints b' \<and>
     (\<forall>i. known (bu_redis b) i \<longrightarrow> known (bu_redis b') i)"

lemma grows_refl [simp]: "grows b b"
  by (simp add: grows_def)

lemma settled_grows: "grows b b' \<Longrightarrow> settled IE b m \<Longrightarrow> settled IE b' m"
  unfolding settled_def grows_def
  by (cases "intake_plan IE m") (auto split: sum.splits)

lemma settled_cong:
  "bu_dead b = bu_dead b' \<Longrightarrow> bu_hints b = bu_hints b' \<Longrightarrow> bu_redis b = bu_redis b' \<Longrightarrow>
   settled IE b m = settled IE b' m"
  by (simp only: settled_def)

definition below :: "intake_env \<Rightarrow> partition_log \<Rightarrow> bus \<Rightarrow> tpart \<Rightarrow> nat \<Rightarrow> bool" where
  "below IE msgs b tp n \<longleftrightarrow> (\<forall>k < n. \<forall>m. incoming_at msgs tp k = Some m \<longrightarrow> settled IE b m)"

lemma below_grows: "grows b b' \<Longrightarrow> below IE msgs b tp n \<Longrightarrow> below IE msgs b' tp n"
  using settled_grows unfolding below_def by blast

lemma incoming_at_coords: "incoming_at msgs tp k = Some m \<Longrightarrow> tpart_of m = tp \<and> in_offset m = k"
  by (auto simp: incoming_at_def tpart_of_def)

lemma below_Suc:
  "below IE msgs b tp (Suc n) \<longleftrightarrow>
     below IE msgs b tp n \<and> (\<forall>m. incoming_at msgs tp n = Some m \<longrightarrow> settled IE b m)"
  unfolding below_def by (auto simp: less_Suc_eq)

lemma below_gap: "below IE msgs b tp p \<Longrightarrow> p \<le> k \<Longrightarrow> (\<And>n. p \<le> n \<Longrightarrow> n < k \<Longrightarrow> incoming_at msgs tp n = None) \<Longrightarrow>
   below IE msgs b tp k"
  unfolding below_def by (metis linorder_not_le option.distinct(1))

section \<open>Consumers\<close>

fun in_hand :: "phase \<Rightarrow> incoming option" where
  "in_hand Idle = None"
| "in_hand (Accepting m) = Some m"
| "in_hand (Rejecting m r) = Some m"
| "in_hand (Quarantining m r) = Some m"
| "in_hand (Committing m) = Some m"

fun phase_ok :: "intake_env \<Rightarrow> bus \<Rightarrow> phase \<Rightarrow> bool" where
  "phase_ok IE b (Committing m) = settled IE b m"
| "phase_ok IE b p = True"

definition consumer_ok :: "intake_env \<Rightarrow> partition_log \<Rightarrow> bus \<Rightarrow> consumer \<Rightarrow> bool" where
  "consumer_ok IE msgs b v \<longleftrightarrow>
     (\<forall>m. in_hand (co_phase v) = Some m \<longrightarrow>
        incoming_at msgs (tpart_of m) (in_offset m) = Some m \<and> below IE msgs b (tpart_of m) (in_offset m)) \<and>
     phase_ok IE b (co_phase v) \<and>
     (\<forall>tp p k m. co_position v tp = Some p \<longrightarrow> k < p \<longrightarrow> incoming_at msgs tp k = Some m \<longrightarrow>
        settled IE b m \<or> in_hand (co_phase v) = Some m)"

lemma consumer_okI:
  assumes "\<And>m. in_hand (co_phase v) = Some m \<Longrightarrow>
      incoming_at msgs (tpart_of m) (in_offset m) = Some m \<and> below IE msgs b (tpart_of m) (in_offset m)"
    "phase_ok IE b (co_phase v)"
    "\<And>tp p k m. co_position v tp = Some p \<Longrightarrow> k < p \<Longrightarrow> incoming_at msgs tp k = Some m \<Longrightarrow>
      settled IE b m \<or> in_hand (co_phase v) = Some m"
  shows "consumer_ok IE msgs b v"
  using assms unfolding consumer_ok_def by blast

lemma consumer_ok_grows: "grows b b' \<Longrightarrow> consumer_ok IE msgs b v \<Longrightarrow> consumer_ok IE msgs b' v"
proof -
  assume g: "grows b b'" and ok: "consumer_ok IE msgs b v"
  have "phase_ok IE b' (co_phase v)"
    using ok settled_grows[OF g] unfolding consumer_ok_def by (cases "co_phase v") auto
  with ok show ?thesis unfolding consumer_ok_def using settled_grows[OF g] below_grows[OF g] by blast
qed

lemma new_consumer_ok [simp]: "consumer_ok IE msgs b new_consumer"
  by (simp add: consumer_ok_def new_consumer_def)

definition intake_ok :: "intake_env \<Rightarrow> partition_log \<Rightarrow> bus \<Rightarrow> bool" where
  "intake_ok IE msgs b \<longleftrightarrow> (\<forall>tp. below IE msgs b tp (bu_committed b tp)) \<and>
     (\<forall>c. consumer_ok IE msgs b (bu_consumers b c))"

text \<open>A step changes one consumer, and what was settled stays settled.\<close>

lemma intake_ok_step:
  assumes "intake_ok IE msgs b" "grows b b'" "bu_consumers b' = (bu_consumers b)(c := v)"
    "consumer_ok IE msgs b' v"
    "\<And>tp. bu_committed b' tp = bu_committed b tp \<or> below IE msgs b' tp (bu_committed b' tp)"
  shows "intake_ok IE msgs b'"
proof -
  have "below IE msgs b' tp (bu_committed b' tp)" for tp
    using assms(5)[of tp] assms(1) below_grows[OF assms(2)] unfolding intake_ok_def by metis
  moreover have "consumer_ok IE msgs b' (bu_consumers b' x)" for x
    using assms(1,3,4) consumer_ok_grows[OF assms(2)] unfolding intake_ok_def by (cases "x = c") simp_all
  ultimately show ?thesis by (simp add: intake_ok_def)
qed

lemma intake_ok_phase:
  assumes ok: "intake_ok IE msgs b" and g: "grows b b'" and cs: "bu_consumers b' = bu_consumers b"
    and cm: "\<And>tp. bu_committed b' tp = bu_committed b tp \<or> below IE msgs b' tp (bu_committed b' tp)"
    and h: "in_hand p = in_hand (phase_of b c) \<or> (\<exists>m. in_hand p = None \<and> in_hand (phase_of b c) = Some m \<and>
      (settled IE b' m \<or> co_position (bu_consumers b c) (tpart_of m) = None))"
    and p: "phase_ok IE b' p"
  shows "intake_ok IE msgs (set_phase c p b')"
proof (rule intake_ok_step[OF ok])
  let ?v = "(bu_consumers b c)\<lparr>co_phase := p\<rparr>"
  show "grows b (set_phase c p b')" using g by (simp add: grows_def set_phase_def upd_consumer_def)
  show "bu_consumers (set_phase c p b') = (bu_consumers b)(c := ?v)"
    using cs by (simp add: set_phase_def upd_consumer_def)
  have s: "settled IE (set_phase c p b') m = settled IE b' m" for m
    by (rule settled_cong) (simp_all add: set_phase_def upd_consumer_def)
  have bl: "below IE msgs (set_phase c p b') tp n = below IE msgs b' tp n" for tp n
    by (simp add: below_def s)
  show "bu_committed (set_phase c p b') tp = bu_committed b tp \<or>
      below IE msgs (set_phase c p b') tp (bu_committed (set_phase c p b') tp)" for tp
    using cm[of tp] unfolding bl by (simp add: set_phase_def upd_consumer_def)
  have ok': "consumer_ok IE msgs b' (bu_consumers b c)"
    using ok consumer_ok_grows[OF g] by (simp add: intake_ok_def)
  have ph: "phase_ok IE (set_phase c p b') q = phase_ok IE b' q" for q by (cases q) (simp_all add: s)
  have "settled IE b' m \<or> in_hand p = Some m"
    if "co_position (bu_consumers b c) tp = Some q" "k < q" "incoming_at msgs tp k = Some m" for tp q k m
  proof -
    from ok' that have "settled IE b' m \<or> in_hand (phase_of b c) = Some m" unfolding consumer_ok_def by blast
    with h that(1) incoming_at_coords[OF that(3)] show ?thesis by auto
  qed
  with ok' h p show "consumer_ok IE msgs (set_phase c p b') ?v"
    unfolding consumer_ok_def s bl ph by auto
qed

section \<open>The store operations of the bus\<close>

lemma intake_record_total: "\<exists>r. intake_record IE k trip ex d t rt = Inr r"
proof (cases "ie_message IE d")
  case None
  let ?r = "new_record k trip ex d t rt"
  let ?e = "\<lparr>ev_kind = j_kind ?r, ev_trip = j_trip ?r, ev_exec = j_exec ?r, ev_status = FAILED,
               ev_result = None, ev_error = Some \<lparr>eb_code = INVALID_REQUEST, eb_detail = []\<rparr>\<rparr>"
  have "check_payload (ie_jobs IE) ?e = Inr ?e" by (simp add: check_payload_def)
  moreover have "event_consistent ?e" by (simp add: event_consistent_def)
  ultimately show ?thesis
    using None enforce_size_limit_total[of ?e "ie_jobs IE"] by (auto simp: intake_record_def terminate_def Let_def)
qed (simp add: intake_record_def)

lemma intake_record_fresh:
  assumes "intake_record IE k trip ex d t rt = Inr r"
  shows "fresh_job (ie_jobs IE) r \<and> job_identity (ie_jobs IE) r = identity (ie_jobs IE) trip k ex \<and>
    j_result_topic r = rt \<and> j_status r \<noteq> COMPLETED"
proof (cases "ie_message IE d")
  case None
  let ?r = "new_record k trip ex d t rt"
  from None assms have t: "terminate (ie_jobs IE) ?r FAILED None (Some \<lparr>eb_code = INVALID_REQUEST, eb_detail = []\<rparr>) = Inr r"
    by (simp add: intake_record_def)
  note sp = terminate_spec[OF t, simplified]
  have "job_identity (ie_jobs IE) r = job_identity (ie_jobs IE) ?r" using sp by (simp add: job_identity_def)
  moreover have "job_wf (ie_jobs IE) (job_identity (ie_jobs IE) ?r) r"
    by (rule terminate_wf[OF t]) (simp_all add: new_record_def)
  moreover have "j_status r = FAILED" using sp by auto
  ultimately show ?thesis using sp by (auto simp: fresh_job_def new_record_wf) (simp_all add: new_record_def)
next
  case (Some x)
  with assms have "r = new_record k trip ex x t rt" by (simp add: intake_record_def)
  then show ?thesis
    by (simp add: fresh_job_def job_wf_def new_record_wf) (simp add: new_record_def)
qed

lemma accept_op_ok:
  assumes "accept_op IE m now = Some op"
  shows "op_ok (ie_jobs IE) op \<and> (\<forall>i p. op \<noteq> OpAcknowledge i p)"
proof (cases "intake_plan IE m")
  case (StageHint h)
  with assms plan_stage[OF this] show ?thesis by (auto simp: accept_op_def)
next
  case (Submit x)
  with assms obtain r where x: "x = Inr r" "op = OpRegister r now" by (auto simp: accept_op_def split: sum.splits)
  from plan_submit[OF Submit] x(1) obtain k trip ex d rt where
    "intake_record IE k trip ex (JObj d) (in_topic m) rt = Inr r" by metis
  from intake_record_fresh[OF this] x(2) show ?thesis by simp
qed (use assms in \<open>simp_all add: accept_op_def\<close>)

text \<open>No message of a request topic ends the consumer.\<close>

lemma accept_next_total:
  assumes "intake_plan IE m \<noteq> Unroutable"
  shows "accept_next IE m now s \<noteq> None"
proof (cases "intake_plan IE m")
  case (Submit x)
  from plan_submit[OF this] obtain k trip ex d rt where
    x: "x = intake_record IE k trip ex (JObj d) (in_topic m) rt" by blast
  obtain r where r: "x = Inr r" using intake_record_total x by metis
  then have f: "j_status r \<noteq> COMPLETED" using intake_record_fresh x by metis
  have "\<exists>y cs. register (ie_jobs IE) r now s = Done (Inr y) cs"
  proof (cases rule: register_cases[of s "ie_jobs IE" r _ now])
    case closed
    from register_closed[OF this] show ?thesis by simp
  next
    case busy
    from register_busy[OF this, of now] show ?thesis by blast
  next
    case (raises e)
    with f show ?thesis by (auto simp: terminal_commands_def Let_def split: option.splits if_splits)
  next
    case (ok ms)
    from register_accepts[OF ok] show ?thesis by blast
  qed
  with Submit r show ?thesis by (auto simp: accept_next_def)
qed (use assms in \<open>auto simp: accept_next_def split: attempt.split sum.split\<close>)

section \<open>Publishing\<close>

definition holds_result :: "bus \<Rightarrow> string \<Rightarrow> (string \<times> result_event \<times> string) \<Rightarrow> bool" where
  "holds_result b i x \<longleftrightarrow>
     (\<exists>j. get_job (bu_redis b) i = Some j \<and> terminal (j_status j) \<and> result_message j = Some x)"

fun pub_ok :: "bus \<Rightarrow> pub_phase \<Rightarrow> bool" where
  "pub_ok b Resting = True"
| "pub_ok b (Holding i r) = (\<exists>x. result_message r = Some x \<and> holds_result b i x)"
| "pub_ok b (Delivered i) = (\<exists>x \<in> set (bu_results b). holds_result b i x)"

definition publish_ok :: "bus \<Rightarrow> bool" where
  "publish_ok b \<longleftrightarrow> (\<forall>p. pub_ok b (bu_publishers b p)) \<and>
     (\<forall>i j. get_job (bu_redis b) i = Some j \<longrightarrow> j_published j \<longrightarrow>
        (\<exists>x \<in> set (bu_results b). result_message j = Some x))"

lemma stays_message:
  "stays j j' \<Longrightarrow> terminal (j_status j) \<Longrightarrow> terminal (j_status j') \<and> result_message j' = result_message j"
  by (auto simp: stays_def result_message_def)

lemma holds_result_run:
  assumes "holds_result b i x" "op_ok E op" "\<And>i p. op \<noteq> OpAcknowledge i p"
    "bu_redis b' = op_run E op (bu_redis b)"
  shows "holds_result b' i x"
proof -
  from assms(1) obtain j where j: "get_job (bu_redis b) i = Some j" "terminal (j_status j)"
    "result_message j = Some x" by (auto simp: holds_result_def)
  from op_run_stays[OF assms(2) j(1) assms(3)] obtain j' where
    "get_job (op_run E op (bu_redis b)) i = Some j'" "stays j j'" by blast
  with stays_message[OF this(2) j(2)] j(3) assms(4) show ?thesis by (auto simp: holds_result_def)
qed

lemma holds_result_ack:
  assumes "holds_result b i x" "bu_redis b' = op_run E (OpAcknowledge y p) (bu_redis b)"
  shows "holds_result b' i x"
proof -
  from assms(1) obtain j where j: "get_job (bu_redis b) i = Some j" "terminal (j_status j)"
    "result_message j = Some x" by (auto simp: holds_result_def)
  then show ?thesis
    using assms(2)
    by (auto simp: holds_result_def acknowledge_attempt_def view_simps result_message_def split: option.split)
qed

lemma pub_ok_mono:
  assumes "pub_ok b ph" "\<And>i x. holds_result b i x \<Longrightarrow> holds_result b' i x" "set (bu_results b) \<subseteq> set (bu_results b')"
  shows "pub_ok b' ph"
proof (cases ph)
  case (Delivered i)
  with assms(1) obtain x where "x \<in> set (bu_results b)" "holds_result b i x" by auto
  with assms(2,3) Delivered show ?thesis by (simp only: pub_ok.simps) blast
qed (use assms in auto)

text \<open>Any store operation but an acknowledgement.\<close>

lemma publish_ok_run:
  assumes ok: "publish_ok b" and inv: "store_inv E (bu_redis b)" and op: "op_ok E op" "\<And>i p. op \<noteq> OpAcknowledge i p"
    and s: "bu_redis b' = op_run E op (bu_redis b)" "bu_results b' = bu_results b"
    and p: "\<And>q. bu_publishers b' q = bu_publishers b q \<or> pub_ok b' (bu_publishers b' q)"
  shows "publish_ok b'"
proof -
  have "pub_ok b' (bu_publishers b' q)" for q
  proof (cases "bu_publishers b' q = bu_publishers b q")
    case True
    have "pub_ok b' (bu_publishers b q)"
    proof (rule pub_ok_mono)
      show "pub_ok b (bu_publishers b q)" using ok by (simp add: publish_ok_def)
    qed (use holds_result_run[OF _ op s(1)] s(2) in auto)
    with True show ?thesis by simp
  qed (use p in blast)
  moreover have "\<exists>x \<in> set (bu_results b'). result_message j' = Some x"
    if "get_job (bu_redis b') i = Some j'" "j_published j'" for i j'
  proof (cases "get_job (bu_redis b) i")
    case None
    from op_run_new[OF op(1) None] that s(1) show ?thesis by (auto simp: fresh_job_def)
  next
    case (Some j)
    from op_run_stays[OF op(1) Some op(2)] that s(1) have st: "stays j j'" by auto
    with that(2) have "j_published j" by (simp add: stays_def)
    with get_job_wf[OF inv Some] have "terminal (j_status j)" by (simp add: job_wf_def)
    with stays_message[OF st] have "result_message j' = result_message j" by simp
    moreover have "\<exists>x \<in> set (bu_results b). result_message j = Some x"
      using ok Some \<open>j_published j\<close> unfolding publish_ok_def by blast
    ultimately show ?thesis using s(2) by simp
  qed
  ultimately show ?thesis by (simp add: publish_ok_def)
qed

lemma publish_ok_same:
  "publish_ok b \<Longrightarrow> bu_redis b' = bu_redis b \<Longrightarrow> bu_publishers b' = bu_publishers b \<Longrightarrow>
   bu_results b' = bu_results b \<Longrightarrow> publish_ok b'"
  unfolding publish_ok_def using pub_ok_mono[of b _ b'] by (simp add: holds_result_def)

section \<open>Every step keeps the invariant\<close>

definition bus_ok :: "intake_env \<Rightarrow> partition_log \<Rightarrow> bus \<Rightarrow> bool" where
  "bus_ok IE msgs b \<longleftrightarrow> reachable (ie_jobs IE) (bu_redis b) \<and> intake_ok IE msgs b \<and> publish_ok b"

lemma reachable_run: "reachable E s \<Longrightarrow> op_ok E op \<Longrightarrow> reachable E (op_run E op s)"
  by (rule reachable.step[OF _ store_step_op_run])

lemma grows_run: "store_inv E (bu_redis b) \<Longrightarrow> op_ok E op \<Longrightarrow> bu_redis b' = op_run E op (bu_redis b) \<Longrightarrow>
   bu_dead b' = bu_dead b \<Longrightarrow> bu_hints b \<subseteq> bu_hints b' \<Longrightarrow> grows b b'"
  using op_run_known by (auto simp: grows_def)

lemma intake_ok_grow:
  assumes "intake_ok IE msgs b" "grows b b'" "bu_consumers b' = bu_consumers b" "bu_committed b' = bu_committed b"
  shows "intake_ok IE msgs b'"
  using assms intake_ok_step[OF assms(1,2), of undefined "bu_consumers b undefined"] consumer_ok_grows[OF assms(2)]
  by (simp add: intake_ok_def)

text \<open>A store operation of anybody, with the phase of at most one publisher.\<close>

lemma bus_ok_run:
  assumes ok: "bus_ok IE msgs b" and op: "op_ok (ie_jobs IE) op" "\<And>i p. op \<noteq> OpAcknowledge i p"
    and b': "bu_redis b' = op_run (ie_jobs IE) op (bu_redis b)" "bu_dead b' = bu_dead b" "bu_hints b' = bu_hints b"
      "bu_consumers b' = bu_consumers b" "bu_committed b' = bu_committed b" "bu_results b' = bu_results b"
    and p: "\<And>q. bu_publishers b' q = bu_publishers b q \<or> pub_ok b' (bu_publishers b' q)"
  shows "bus_ok IE msgs b'"
proof -
  have r: "reachable (ie_jobs IE) (bu_redis b)" using ok by (simp add: bus_ok_def)
  note inv = reachable_inv[OF r]
  have "intake_ok IE msgs b'"
    by (rule intake_ok_grow[of _ _ b]) (use ok grows_run[OF inv op(1)] in \<open>simp_all add: bus_ok_def b'\<close>)
  moreover have "publish_ok b'"
    by (rule publish_ok_run[of b, OF _ inv op]) (use ok p b' in \<open>simp_all add: bus_ok_def\<close>)
  ultimately show ?thesis using reachable_run[OF r op(1)] by (simp add: bus_ok_def b')
qed

lemma bus_ok_intake:
  "bus_ok IE msgs b \<Longrightarrow> bu_redis b' = bu_redis b \<Longrightarrow> bu_publishers b' = bu_publishers b \<Longrightarrow>
   bu_results b' = bu_results b \<Longrightarrow> intake_ok IE msgs b' \<Longrightarrow> bus_ok IE msgs b'"
  unfolding bus_ok_def using publish_ok_same[of b b'] by simp

lemma poll_ok:
  assumes ok: "intake_ok IE msgs b" and p: "can_poll msgs c tp k m b"
  shows "intake_ok IE msgs (poll c m b)"
proof -
  let ?v = "bu_consumers b c"
  from p obtain n where n: "n \<le> k" "co_position ?v tp = Some n" and gap: "\<And>i. n \<le> i \<Longrightarrow> i < k \<Longrightarrow> incoming_at msgs tp i = None"
    and idle: "co_phase ?v = Idle" and m: "incoming_at msgs tp k = Some m" by (auto simp: can_poll_def)
  note co = incoming_at_coords[OF m]
  have v: "consumer_ok IE msgs b ?v" using ok by (simp add: intake_ok_def)
  have set: "settled IE b x" if "co_position ?v t = Some q" "i < q" "incoming_at msgs t i = Some x" for t q i x
    using v that idle unfolding consumer_ok_def by fastforce
  then have "below IE msgs b tp n" using n(2) by (simp add: below_def)
  then have bk: "below IE msgs b tp k" using below_gap[OF _ n(1) gap] by blast
  have g: "grows b (poll c m b)" "bu_committed (poll c m b) = bu_committed b"
    by (simp_all add: grows_def poll_def upd_consumer_def Let_def)
  let ?v' = "?v\<lparr>co_phase := Accepting m, co_position := (co_position ?v)(tpart_of m \<mapsto> in_offset m + 1)\<rparr>"
  show ?thesis
  proof (rule intake_ok_step[OF ok g(1)])
    show "bu_consumers (poll c m b) = (bu_consumers b)(c := ?v')" by (simp add: poll_def upd_consumer_def Let_def)
    have s: "settled IE (poll c m b) x = settled IE b x" for x
      by (rule settled_cong) (simp_all add: poll_def upd_consumer_def Let_def)
    have "settled IE b x \<or> x = m"
      if "((co_position ?v)(tp \<mapsto> k + 1)) t = Some q" "i < q" "incoming_at msgs t i = Some x" for t q i x
    proof (cases "t = tp")
      case True
      with that bk m show ?thesis unfolding below_def by (cases "i = k") (auto simp: less_Suc_eq)
    next
      case False
      with that set show ?thesis by simp
    qed
    moreover have "below IE msgs (poll c m b) tp k" using bk by (simp add: below_def s)
    ultimately show "consumer_ok IE msgs (poll c m b) ?v'"
      using co m by (intro consumer_okI) (simp_all add: s, blast)
  qed (simp add: g(2))
qed

lemma publish_ok_bus:
  assumes "bus_ok IE msgs b" "op_ok (ie_jobs IE) op" "\<And>i p. op \<noteq> OpAcknowledge i p"
    "bu_redis b' = op_run (ie_jobs IE) op (bu_redis b)" "bu_results b' = bu_results b" "bu_publishers b' = bu_publishers b"
  shows "publish_ok b'"
  using assms reachable_inv publish_ok_run[of b "ie_jobs IE" op b'] by (simp add: bus_ok_def)

lemma accept_step_ok:
  assumes ok: "bus_ok IE msgs b" and ph: "phase_of b c = Accepting m"
  shows "bus_ok IE msgs (accept_step IE c m now b)"
proof -
  have r: "reachable (ie_jobs IE) (bu_redis b)" and i: "intake_ok IE msgs b" using ok by (simp_all add: bus_ok_def)
  let ?s = "run_op IE (accept_op IE m now) (bu_redis b)" and ?b = "accept_step IE c m now b"
  have s: "bu_redis ?b = ?s" "bu_dead ?b = bu_dead b" "bu_results ?b = bu_results b" "bu_publishers ?b = bu_publishers b"
    "bu_committed ?b = bu_committed b" "bu_hints b \<subseteq> bu_hints ?b"
    by (auto simp: accept_step_def Let_def set_phase_def upd_consumer_def split: option.split phase.split intake_decision.split)
  have k: "reachable (ie_jobs IE) ?s \<and> publish_ok ?b \<and> (\<forall>i. known (bu_redis b) i \<longrightarrow> known ?s i)"
  proof (cases "accept_op IE m now")
    case None
    with ok s show ?thesis using publish_ok_same[of b ?b] by (simp add: run_op_def bus_ok_def)
  next
    case (Some op)
    from accept_op_ok[OF this] have op: "op_ok (ie_jobs IE) op" "\<And>i p. op \<noteq> OpAcknowledge i p" by blast+
    with Some r s ok show ?thesis
      using reachable_run publish_ok_bus[OF ok op, of ?b] op_run_known[OF reachable_inv[OF r] op(1)] by (simp add: run_op_def)
  qed
  then have g: "grows b ?b" using s by (simp add: grows_def)
  have "intake_ok IE msgs ?b"
  proof (cases "accept_next IE m now (bu_redis b)")
    case None
    show ?thesis
      by (rule intake_ok_step[OF i g, of c new_consumer]) (use None s in \<open>simp_all add: accept_step_def Let_def upd_consumer_def\<close>)
  next
    case (Some p)
    have hand: "in_hand p = Some m"
      using Some by (auto simp: accept_next_def split: intake_decision.splits sum.splits attempt.splits)
    define b1 where "b1 = (case (intake_plan IE m, p) of
                (StageHint h, Committing m') \<Rightarrow>
                  (b\<lparr>bu_redis := ?s\<rparr>)\<lparr>bu_hints := insert (tpart_of m, in_offset m) (bu_hints b)\<rparr>
              | _ \<Rightarrow> b\<lparr>bu_redis := ?s\<rparr>)"
    have b1: "?b = set_phase c p b1" using Some by (simp add: accept_step_def Let_def b1_def split: intake_decision.split phase.split)
    have f: "bu_consumers b1 = bu_consumers b" "bu_committed b1 = bu_committed b" "bu_redis b1 = ?s"
      by (simp_all add: b1_def split: intake_decision.split phase.split)
    have "grows b b1" using g unfolding b1 by (simp add: grows_def set_phase_def upd_consumer_def)
    moreover have "phase_ok IE b1 p"
    proof (cases "p = Committing m")
      case True
      from Some True show ?thesis
        by (auto simp: accept_next_def settled_def b1_def run_op_def accept_op_def
            dest: register_known split: intake_decision.splits sum.splits attempt.splits)
    next
      case False
      with Some show ?thesis by (auto simp: accept_next_def split: intake_decision.splits sum.splits attempt.splits)
    qed
    ultimately show ?thesis unfolding b1
      by (intro intake_ok_phase[OF i]) (use f hand ph in simp_all)
  qed
  with k s show ?thesis by (simp add: bus_ok_def)
qed

lemma lost_ok:
  assumes ok: "bus_ok IE msgs b"
  shows "bus_ok IE msgs (accept_lost IE m now arrived b)"
proof (cases "arrived \<and> accept_op IE m now \<noteq> None")
  case True
  then obtain op where op: "accept_op IE m now = Some op" by blast
  show ?thesis
    by (rule bus_ok_run[OF ok, of op]) (use True op accept_op_ok[OF op] in \<open>auto simp: accept_lost_def run_op_def\<close>)
next
  case False
  then have "accept_lost IE m now arrived b = b" by (auto simp: accept_lost_def run_op_def)
  with ok show ?thesis by simp
qed

lemma reject_ok:
  assumes ok: "bus_ok IE msgs b" and ph: "phase_of b c = Rejecting m reason"
  shows "bus_ok IE msgs (reject_step IE c m reason answer b)"
proof -
  let ?op = "OpCount (invalid_digest (ie_jobs IE) m)"
  let ?b = "b\<lparr>bu_redis := op_run (ie_jobs IE) ?op (bu_redis b)\<rparr>"
  have ok': "bus_ok IE msgs ?b" by (rule bus_ok_run[OF ok, of ?op]) simp_all
  have set: "bus_ok IE msgs (set_phase c p x)"
    if "bus_ok IE msgs x" "in_hand p = Some m" "phase_ok IE x p" "phase_of x c = Rejecting m reason" for p x
  proof (rule bus_ok_intake[OF that(1)])
    show "intake_ok IE msgs (set_phase c p x)"
      by (rule intake_ok_phase[of _ _ x x]) (use that in \<open>simp_all add: bus_ok_def\<close>)
  qed (simp_all add: set_phase_def upd_consumer_def)
  have "reject_step IE c m reason answer b = set_phase c (Accepting m) b \<or>
      (\<exists>p \<in> {Accepting m, Quarantining m reason}. reject_step IE c m reason answer b = set_phase c p ?b)"
    by (auto simp: reject_step_def Let_def count_invalid_def run_attempt_def split: reply.split)
  with set[OF ok] set[OF ok'] ph show ?thesis by auto
qed

lemma quarantine_ok:
  assumes ok: "bus_ok IE msgs b" and ph: "phase_of b c = Quarantining m reason"
  shows "bus_ok IE msgs (quarantine_step c m reason answer b)"
proof (cases "answer = Too_large \<and> co_position (bu_consumers b c) (tpart_of m) \<noteq> None")
  case True
  let ?v = "bu_consumers b c" and ?b = "quarantine_step c m reason answer b"
  let ?v' = "?v\<lparr>co_phase := Idle, co_position := (co_position ?v)(tpart_of m \<mapsto> in_offset m),
               co_paused := insert (tpart_of m) (co_paused ?v)\<rparr>"
  have i: "intake_ok IE msgs b" using ok by (simp add: bus_ok_def)
  have b: "?b = upd_consumer c ?v' b" using True by (auto simp: quarantine_step_def Let_def)
  have s: "settled IE ?b x = settled IE b x" for x unfolding b by (rule settled_cong) (simp_all add: upd_consumer_def)
  have v: "consumer_ok IE msgs b ?v" using i by (simp add: intake_ok_def)
  with ph have bm: "below IE msgs b (tpart_of m) (in_offset m)" by (simp add: consumer_ok_def)
  have "settled IE b x"
    if "((co_position ?v)(tpart_of m \<mapsto> in_offset m)) t = Some q" "k < q" "incoming_at msgs t k = Some x" for t q k x
  proof (cases "t = tpart_of m")
    case True
    with that bm show ?thesis by (simp add: below_def)
  next
    case False
    with that v ph have "settled IE b x \<or> x = m" unfolding consumer_ok_def by fastforce
    with False incoming_at_coords[OF that(3)] show ?thesis by auto
  qed
  then have "consumer_ok IE msgs ?b ?v'" unfolding consumer_ok_def s by simp
  moreover have "grows b ?b" unfolding b by (simp add: grows_def upd_consumer_def)
  ultimately have "intake_ok IE msgs ?b"
    by (intro intake_ok_step[OF i, of ?b c ?v']) (simp_all add: b upd_consumer_def)
  with ok show ?thesis by (intro bus_ok_intake[OF ok]) (simp_all add: b upd_consumer_def)
next
  case False
  have i: "intake_ok IE msgs b" using ok by (simp add: bus_ok_def)
  have v: "consumer_ok IE msgs b (bu_consumers b c)" using i by (simp add: intake_ok_def)
  let ?k = "b\<lparr>bu_dead := bu_dead b @ [quarantine_letter m reason]\<rparr>"
  have g: "grows b ?k" by (auto simp: grows_def)
  have d: "settled IE ?k m" by (auto simp: settled_def)
  have set: "bus_ok IE msgs (set_phase c p x)"
    if "x = b \<or> x = ?k" "phase_ok IE x p" "in_hand p = Some m \<or> in_hand p = None \<and> co_position (bu_consumers b c) (tpart_of m) = None" for p x
  proof (rule bus_ok_intake[OF ok])
    show "intake_ok IE msgs (set_phase c p x)"
      by (rule intake_ok_phase[OF i]) (use that g ph in auto)
  qed (use that(1) in \<open>auto simp: set_phase_def upd_consumer_def\<close>)
  show ?thesis
  proof (cases answer)
    case Sent
    with set[of ?k "Committing m"] d show ?thesis by (simp add: quarantine_step_def Let_def)
  next
    case (Send_lost arrived)
    with set[of ?k "Accepting m"] set[of b "Accepting m"] show ?thesis by (simp add: quarantine_step_def Let_def)
  next
    case Too_large
    with False set[of b Idle] show ?thesis by (simp add: quarantine_step_def Let_def)
  qed
qed

lemma commit_ok:
  assumes ok: "bus_ok IE msgs b" and ph: "phase_of b c = Committing m"
  shows "bus_ok IE msgs (commit_step c m answer b)"
proof -
  let ?k = "b\<lparr>bu_committed := (bu_committed b)(tpart_of m := in_offset m + 1)\<rparr>"
  have i: "intake_ok IE msgs b" using ok by (simp add: bus_ok_def)
  then have v: "consumer_ok IE msgs b (bu_consumers b c)" by (simp add: intake_ok_def)
  then have m: "settled IE b m" "incoming_at msgs (tpart_of m) (in_offset m) = Some m"
    "below IE msgs b (tpart_of m) (in_offset m)" using ph by (auto simp: consumer_ok_def)
  have s: "settled IE ?k x = settled IE b x" for x by (rule settled_cong) simp_all
  have "below IE msgs b (tpart_of m) (Suc (in_offset m))" using m by (simp add: below_Suc)
  then have "below IE msgs ?k (tpart_of m) (Suc (in_offset m))" unfolding below_def s .
  then have c: "bu_committed ?k tp = bu_committed b tp \<or> below IE msgs ?k tp (bu_committed ?k tp)" for tp
    by simp
  have set: "bus_ok IE msgs (set_phase c p b) \<and> bus_ok IE msgs (set_phase c p ?k)"
    if "p = Idle \<or> p = Accepting m" for p
  proof (intro conjI bus_ok_intake[OF ok])
    show "intake_ok IE msgs (set_phase c p b)"
      by (rule intake_ok_phase[OF i]) (use that ph m(1) in auto)
    show "intake_ok IE msgs (set_phase c p ?k)"
    proof (rule intake_ok_phase[OF i])
      show "bu_committed ?k tp = bu_committed b tp \<or> below IE msgs ?k tp (bu_committed ?k tp)" for tp by (rule c)
    qed (use that ph m(1) s in \<open>auto simp: grows_def\<close>)
  qed (simp_all add: set_phase_def upd_consumer_def)
  from set[of Idle] set[of "Accepting m"] show ?thesis by (cases answer) (simp_all add: commit_step_def Let_def)
qed

lemma assign_ok:
  assumes ok: "bus_ok IE msgs b"
  shows "bus_ok IE msgs (assign_step c tp b) \<and> bus_ok IE msgs (revoke_step c tp b) \<and>
    bus_ok IE msgs (upd_consumer c new_consumer b)"
proof -
  have i: "intake_ok IE msgs b" using ok by (simp add: bus_ok_def)
  then have v: "consumer_ok IE msgs b (bu_consumers b c)" and bl: "below IE msgs b tp (bu_committed b tp)"
    by (simp_all add: intake_ok_def)
  have u: "bus_ok IE msgs (upd_consumer c v b)" if "consumer_ok IE msgs b v" for v
  proof (rule bus_ok_intake[OF ok])
    have g: "grows b (upd_consumer c v b)" by (simp add: grows_def upd_consumer_def)
    show "intake_ok IE msgs (upd_consumer c v b)"
      by (rule intake_ok_step[OF i g, of c v]) (use consumer_ok_grows[OF g that] in \<open>simp_all add: upd_consumer_def\<close>)
  qed (simp_all add: upd_consumer_def)
  have "consumer_ok IE msgs b ((bu_consumers b c)\<lparr>co_position := (co_position (bu_consumers b c))(tp := None)\<rparr>)"
    using v unfolding consumer_ok_def by auto
  moreover have "consumer_ok IE msgs b ((bu_consumers b c)\<lparr>co_position := (co_position (bu_consumers b c))(tp \<mapsto> bu_committed b tp),
           co_paused := co_paused (bu_consumers b c) - {tp}\<rparr>)"
    using v bl unfolding consumer_ok_def below_def by auto
  ultimately show ?thesis using u by (simp add: assign_step_def revoke_step_def Let_def)
qed

text \<open>The publisher's steps.\<close>

lemma claim_result_holds:
  assumes "claim_result E i p now s = Done (Inr (Some r)) cs" "store_inv E (exec cs s)"
  shows "get_job (exec cs s) i = Some r \<and> terminal (j_status r) \<and> (\<exists>x. result_message r = Some x)"
proof -
  from assms(1) obtain r0 where u: "claim_result_update E p r0 now = Inr (Some r)"
    and c: "change_commands E i (j_status r0) r None now s = Inr cs"
    by (auto simp: claim_result_def change_attempt_def split: option.splits sum.splits)
  have g: "get_job (exec cs s) i = Some r" using get_job_after_change[OF c] by simp
  from u have "j_event r \<noteq> None" by (auto simp: claim_result_update_def split: if_splits)
  with g job_wf_event[OF get_job_wf[OF assms(2) g]] show ?thesis by (auto simp: result_message_def)
qed

lemma claim_ok:
  assumes ok: "bus_ok IE msgs b"
  shows "bus_ok IE msgs (claim_result_step IE p i now b)"
proof (rule bus_ok_run[OF ok, of "OpChange_claim_result i p now"])
  let ?b = "claim_result_step IE p i now b" and ?a = "claim_result (ie_jobs IE) i p now (bu_redis b)"
  have r: "reachable (ie_jobs IE) (bu_redis b)" using ok by (simp add: bus_ok_def)
  from reachable_inv[OF reachable_run[OF r, of "OpChange_claim_result i p now"]]
  have inv: "store_inv (ie_jobs IE) (exec (attempt_cmds ?a) (bu_redis b))" by (simp add: claim_result_def)
  show "bu_publishers ?b q = bu_publishers b q \<or> pub_ok ?b (bu_publishers ?b q)" for q
  proof (cases "q = p \<and> (\<exists>r cs. ?a = Done (Inr (Some r)) cs)")
    case True
    then obtain r cs where a: "?a = Done (Inr (Some r)) cs" by blast
    from claim_result_holds[OF this] inv a have "get_job (exec cs (bu_redis b)) i = Some r \<and>
        terminal (j_status r) \<and> (\<exists>x. result_message r = Some x)" by simp
    then show ?thesis
      using True a by (auto simp: claim_result_step_def to_pub_def holds_result_def run_attempt_def)
  next
    case False
    then show ?thesis
      by (cases "q = p") (auto simp: claim_result_step_def Let_def to_pub_def split: attempt.split sum.split option.split)
  qed
qed (simp_all add: claim_result_step_def claim_result_def to_pub_def run_attempt_def Let_def)

lemma bus_ok_results:
  assumes ok: "bus_ok IE msgs b" and b': "b' = b\<lparr>bu_results := bu_results b @ xs, bu_publishers := (bu_publishers b)(p := ph)\<rparr>"
    and p: "pub_ok b' ph"
  shows "bus_ok IE msgs b'"
proof -
  have "intake_ok IE msgs b'"
    by (rule intake_ok_grow[of _ _ b]) (use ok in \<open>simp_all add: bus_ok_def b' grows_def\<close>)
  moreover have "pub_ok b' (bu_publishers b q)" for q
    by (rule pub_ok_mono[of b]) (use ok in \<open>auto simp: bus_ok_def publish_ok_def b' holds_result_def\<close>)
  then have "pub_ok b' (bu_publishers b' q)" for q
    using p by (cases "q = p") (simp_all add: b')
  moreover have "\<exists>x \<in> set (bu_results b'). result_message j = Some x"
    if "get_job (bu_redis b') i = Some j" "j_published j" for i j
  proof -
    from ok that have "\<exists>x \<in> set (bu_results b). result_message j = Some x"
      unfolding bus_ok_def publish_ok_def b' by simp
    then show ?thesis by (auto simp: b')
  qed
  ultimately show ?thesis using ok by (simp add: bus_ok_def publish_ok_def) (simp add: b')
qed

lemma publish_step_ok:
  assumes ok: "bus_ok IE msgs b" and ph: "bu_publishers b p = Holding i r"
  shows "bus_ok IE msgs (publish_step p i r answer b)"
proof -
  have "pub_ok b (bu_publishers b p)" using ok by (simp add: bus_ok_def publish_ok_def)
  with ph obtain x where x: "result_message r = Some x" "holds_result b i x" by auto
  have rest: "bus_ok IE msgs (to_pub p Resting (b\<lparr>bu_results := bu_results b @ xs\<rparr>))" for xs
    by (rule bus_ok_results[OF ok, where xs = xs and p = p and ph = Resting]) (simp_all add: to_pub_def)
  have "bus_ok IE msgs (to_pub p (Delivered i) (b\<lparr>bu_results := bu_results b @ [x]\<rparr>))"
    by (rule bus_ok_results[OF ok, where xs = "[x]" and p = p and ph = "Delivered i"]) (use x in \<open>simp_all add: to_pub_def holds_result_def\<close>)
  with x(1) rest[of "[]"] rest[of "[x]"] show ?thesis
    by (cases answer) (simp_all add: publish_step_def Let_def)
qed

lemma acknowledge_ok:
  assumes ok: "bus_ok IE msgs b" and ph: "bu_publishers b p = Delivered i"
  shows "bus_ok IE msgs (acknowledge_step IE p i arrived b)"
proof (cases arrived)
  case False
  have "bus_ok IE msgs (b\<lparr>bu_results := bu_results b @ [], bu_publishers := (bu_publishers b)(p := Resting)\<rparr>)"
    by (rule bus_ok_results[OF ok refl]) simp
  with False show ?thesis by (simp add: acknowledge_step_def to_pub_def)
next
  case True
  let ?op = "OpAcknowledge i p" and ?b = "acknowledge_step IE p i arrived b"
  have r: "reachable (ie_jobs IE) (bu_redis b)" and pk: "publish_ok b" using ok by (simp_all add: bus_ok_def)
  have s: "bu_redis ?b = op_run (ie_jobs IE) ?op (bu_redis b)" "bu_results ?b = bu_results b"
    "bu_publishers ?b = (bu_publishers b)(p := Resting)" using True by (simp_all add: acknowledge_step_def to_pub_def)
  have "intake_ok IE msgs ?b"
    by (rule intake_ok_grow[of _ _ b])
      (use ok grows_run[OF reachable_inv[OF r], of ?op ?b] s in \<open>simp_all add: bus_ok_def acknowledge_step_def to_pub_def\<close>)
  moreover have "pub_ok ?b (bu_publishers b q)" for q
    by (rule pub_ok_mono[of b]) (use pk s holds_result_ack[OF _ s(1)] in \<open>auto simp: publish_ok_def\<close>)
  then have "pub_ok ?b (bu_publishers ?b q)" for q by (cases "q = p") (simp_all add: s)
  moreover have "\<exists>x \<in> set (bu_results ?b). result_message j' = Some x"
    if j': "get_job (bu_redis ?b) y = Some j'" "j_published j'" for y j'
  proof -
    from j'(1) s(1) obtain j where j: "get_job (bu_redis b) y = Some j" "result_message j' = result_message j"
      "j_published j \<or> y = i"
      using j'(2) by (auto simp: acknowledge_attempt_def view_simps result_message_def split: option.splits if_splits)
    show ?thesis
    proof (cases "j_published j")
      case True
      with pk j s(2) show ?thesis by (auto simp: publish_ok_def)
    next
      case False
      from pk have "pub_ok b (bu_publishers b p)" by (simp add: publish_ok_def)
      with ph False j s(2) show ?thesis by (auto simp: holds_result_def)
    qed
  qed
  ultimately show ?thesis
    using reachable_run[OF r, of ?op] s(1) by (simp add: bus_ok_def publish_ok_def)
qed

lemma bus_step_ok:
  assumes "bus_step IE msgs b b'" "bus_ok IE msgs b"
  shows "bus_ok IE msgs b'"
  using assms(1)
proof cases
  case (others op s)
  from store_step_run[OF others(2)] others(1,3) show ?thesis
    by (intro bus_ok_run[OF assms(2), of op]) simp_all
next
  case (polls c tp k m)
  with assms(2) poll_ok[OF _ polls(2)] show ?thesis
    by (intro bus_ok_intake[OF assms(2)]) (simp_all add: bus_ok_def poll_def upd_consumer_def Let_def)
next
  case (pub_restarts p)
  have "bus_ok IE msgs (b\<lparr>bu_results := bu_results b @ [], bu_publishers := (bu_publishers b)(p := Resting)\<rparr>)"
    by (rule bus_ok_results[OF assms(2) refl]) simp
  with pub_restarts show ?thesis by (simp add: to_pub_def)
qed (use assms(2) in \<open>simp_all add: accept_step_ok lost_ok reject_ok quarantine_ok commit_ok assign_ok claim_ok
    publish_step_ok acknowledge_ok\<close>)

lemma bus_reach_ok: "bus_reach IE msgs b \<Longrightarrow> bus_ok IE msgs b"
proof (induction rule: bus_reach.induct)
  case init
  show ?case
    by (simp add: bus_ok_def bus_init_def reachable.start intake_ok_def below_def publish_ok_def get_job_def)
qed (rule bus_step_ok)

end
