(* ===== verification/BusTheorems.thy ===== *)
theory BusTheorems
  imports BusInvariant
begin

text \<open>
  What the message bus promises: a committed request is never lost, a published result has reached its
  topic, and a message of a request topic is settled after at most three refusals.
\<close>

section \<open>The inner loop\<close>

text \<open>The \<open>while True\<close> around \<open>accept\<close> and \<open>commit\<close> when nothing is lost, up to the commit; fuel counts
  the steps between its waits.\<close>

fun intake_run :: "nat \<Rightarrow> intake_env \<Rightarrow> string \<Rightarrow> rat \<Rightarrow> bus \<Rightarrow> bus option" where
  "intake_run 0 IE c now b = None"
| "intake_run (Suc n) IE c now b =
     (case phase_of b c of
        Idle \<Rightarrow> None
      | Accepting m \<Rightarrow> intake_run n IE c now (accept_step IE c m now b)
      | Rejecting m reason \<Rightarrow> intake_run n IE c now (reject_step IE c m reason Replied b)
      | Quarantining m reason \<Rightarrow> intake_run n IE c now (quarantine_step c m reason Sent b)
      | Committing m \<Rightarrow> Some b)"

definition refusals :: "intake_env \<Rightarrow> incoming \<Rightarrow> bus \<Rightarrow> int" where
  "refusals IE m b = get_int (bu_redis b) (KInvalid (invalid_digest (ie_jobs IE) m))"

lemma get_int_other: "KInvalid h \<notin> cmd_key ` set cs \<Longrightarrow> get_int (exec cs s) (KInvalid h) = get_int s (KInvalid h)"
  using exec_other[of "KInvalid h" cs s] by (simp add: get_int_def)

lemma run_op_refusals: "get_int (run_op IE (accept_op IE m now) s) (KInvalid h) = get_int s (KInvalid h)"
proof -
  have 1: "KInvalid h \<notin> cmd_key ` set (attempt_cmds (stage_photos E x topic now s))" for E x topic
    by (auto simp: stage_photos_def Let_def split: option.split)
  have 2: "KInvalid h \<notin> cmd_key ` set (attempt_cmds (register E r now s))" for E r
  proof (cases rule: register_cases[of s E r _ now])
    case closed
    from register_closed[OF this] show ?thesis by simp
  next
    case busy
    from register_busy[OF this, of now] show ?thesis by auto
  next
    case (raises e)
    from register_raises[OF this] show ?thesis by simp
  next
    case (ok ms)
    then have "KInvalid h \<notin> cmd_key ` set ms" by (cases "j_event r") (auto dest!: terminal_commands_keys)
    with register_accepts[OF ok] show ?thesis by (auto split: if_splits)
  qed
  show ?thesis
    by (auto simp: run_op_def accept_op_def get_int_other[OF 1] get_int_other[OF 2] split: intake_decision.split sum.split)
qed

lemma accept_phase:
  assumes "intake_plan IE m \<noteq> Unroutable"
  shows "(phase_of (accept_step IE c m now b) c = Committing m \<or>
      (\<exists>reason. phase_of (accept_step IE c m now b) c = Rejecting m reason)) \<and>
    refusals IE m (accept_step IE c m now b) = refusals IE m b"
proof -
  obtain p where p: "accept_next IE m now (bu_redis b) = Some p"
    using accept_next_total[OF assms, of now "bu_redis b"] by blast
  have "phase_of (accept_step IE c m now b) c = p"
    using p by (simp add: accept_step_def Let_def set_phase_def upd_consumer_def split: phase.split intake_decision.split)
  moreover have "p = Committing m \<or> (\<exists>reason. p = Rejecting m reason)"
    using p by (auto simp: accept_next_def split: intake_decision.splits sum.splits attempt.splits)
  moreover have "bu_redis (accept_step IE c m now b) = run_op IE (accept_op IE m now) (bu_redis b)"
    using p by (auto simp: accept_step_def Let_def set_phase_def upd_consumer_def split: phase.split intake_decision.split)
  ultimately show ?thesis by (auto simp: refusals_def run_op_refusals)
qed

lemma reject_phase:
  "phase_of (reject_step IE c m reason Replied b) c =
     (if refusals IE m b < 2 then Accepting m else Quarantining m reason) \<and>
   refusals IE m (reject_step IE c m reason Replied b) = min 3 (refusals IE m b + 1)"
  by (simp add: reject_step_def count_invalid_def Let_def run_attempt_def set_phase_def upd_consumer_def refusals_def
      get_int_def)

lemma settles_in:
  assumes "bus_reach IE msgs b" "phase_of b c = Accepting m" "intake_plan IE m \<noteq> Unroutable"
    "0 \<le> refusals IE m b" "2 - refusals IE m b \<le> int d"
  shows "\<exists>b'. intake_run (2 * d + 5) IE c now b = Some b' \<and> bus_reach IE msgs b' \<and> phase_of b' c = Committing m"
  using assms
proof (induction d arbitrary: b)
  case (0 b)
  let ?b1 = "accept_step IE c m now b"
  have r1: "bus_reach IE msgs ?b1" by (rule bus_reach.step[OF 0(1) accepts[OF 0(2)]])
  note a = accept_phase[OF 0(3), of c now b]
  show ?case
  proof (cases "phase_of ?b1 c = Committing m")
    case True
    with 0(2) r1 show ?thesis by (simp add: numeral_eq_Suc)
  next
    case False
    with a obtain reason where p1: "phase_of ?b1 c = Rejecting m reason" by blast
    let ?b2 = "reject_step IE c m reason Replied ?b1" and ?b3 = "quarantine_step c m reason Sent (reject_step IE c m reason Replied ?b1)"
    from reject_phase[of IE c m reason ?b1] a 0(5) have p2: "phase_of ?b2 c = Quarantining m reason" by simp
    have r2: "bus_reach IE msgs ?b2" by (rule bus_reach.step[OF r1 rejects[OF p1]])
    have r3: "bus_reach IE msgs ?b3" by (rule bus_reach.step[OF r2 quarantines[OF p2]])
    have "phase_of ?b3 c = Committing m" by (simp add: quarantine_step_def Let_def set_phase_def upd_consumer_def)
    with r3 0(2) p1 p2 show ?thesis by (simp add: numeral_eq_Suc)
  qed
next
  case (Suc d b)
  let ?b1 = "accept_step IE c m now b"
  have r1: "bus_reach IE msgs ?b1" by (rule bus_reach.step[OF Suc(2) accepts[OF Suc(3)]])
  note a = accept_phase[OF Suc(4), of c now b]
  show ?case
  proof (cases "phase_of ?b1 c = Committing m")
    case True
    with Suc(3) r1 show ?thesis by (simp add: numeral_eq_Suc)
  next
    case False
    with a obtain reason where p1: "phase_of ?b1 c = Rejecting m reason" by blast
    let ?b2 = "reject_step IE c m reason Replied ?b1"
    have r2: "bus_reach IE msgs ?b2" by (rule bus_reach.step[OF r1 rejects[OF p1]])
    note q = reject_phase[of IE c m reason ?b1]
    show ?thesis
    proof (cases "refusals IE m ?b1 < 2")
      case True
      with Suc.IH[OF r2 _ Suc(4)] q a Suc(5,6) Suc(3) p1 show ?thesis by (simp add: numeral_eq_Suc)
    next
      case f: False
      let ?b3 = "quarantine_step c m reason Sent ?b2"
      from f q have p2: "phase_of ?b2 c = Quarantining m reason" by simp
      have r3: "bus_reach IE msgs ?b3" by (rule bus_reach.step[OF r2 quarantines[OF p2]])
      have "phase_of ?b3 c = Committing m" by (simp add: quarantine_step_def Let_def set_phase_def upd_consumer_def)
      with r3 Suc(3) p1 p2 show ?thesis by (simp add: numeral_eq_Suc)
    qed
  qed
qed

section \<open>A concrete run\<close>

text \<open>A message whose body does not validate: it is registered as failed, its offset is committed, and
  the failure is published and acknowledged.\<close>

definition ix_env :: intake_env where
  "ix_env = \<lparr>ie_jobs = ex_env, ie_json = (\<lambda>v. if v = ''p'' then Some (JObj
       [(''type'', JStr (of_ascii ''process'')), (''trip_id'', JInt 7), (''execution_id'', JStr [101])]) else None),
     ie_photos_ready = (\<lambda>_. None), ie_message = (\<lambda>_. None)\<rparr>"

definition ix_msgs :: partition_log where
  "ix_msgs tp k = (if tp = (''a'', 0) \<and> k = 0 then Some (Some ''7'', Some ''p'') else None)"

definition ix_msg :: incoming where
  "ix_msg = \<lparr>in_topic = ''a'', in_partition = 0, in_offset = 0, in_key = Some ''7'', in_value = Some ''p''\<rparr>"

definition ix1 :: bus where "ix1 = poll ''c'' ix_msg (assign_step ''c'' (''a'', 0) bus_init)"
definition ix2 :: bus where "ix2 = accept_step ix_env ''c'' ix_msg 1 ix1"
definition ix3 :: bus where "ix3 = commit_step ''c'' ix_msg Committed ix2"
definition ix4 :: bus where "ix4 = claim_result_step ix_env ''p'' ex_id 2 ix3"

definition ix_data :: "(string \<times> json) list" where
  "ix_data = [(''type'', JStr (of_ascii ''process'')), (''trip_id'', JInt 7), (''execution_id'', JStr [101])]"

definition ix_failed :: job where
  "ix_failed = (new_record Process 7 [101] (JObj ix_data) ''a'' ''b'')\<lparr>j_event := Some \<lparr>ev_kind = Process,
       ev_trip = 7, ev_exec = [101], ev_status = FAILED, ev_result = None,
       ev_error = Some \<lparr>eb_code = INVALID_REQUEST, eb_detail = []\<rparr>\<rparr>, j_status := FAILED\<rparr>"

lemma ix_failed_sel [simp]:
  "j_trip ix_failed = 7" "j_kind ix_failed = Process" "j_exec ix_failed = [101]" "j_status ix_failed = FAILED"
  "j_published ix_failed = False" "j_pub_until ix_failed = 0" "j_event ix_failed \<noteq> None"
  "\<exists>y. j_event ix_failed = Some y" "j_result_topic ix_failed = ''b''"
  by (simp_all add: ix_failed_def new_record_def)

lemma ix_id: "job_identity ex_env ix_failed = ex_id"
  by (simp add: job_identity_def ex_id_def ex_job_def)

lemma ix_record: "intake_record ix_env Process 7 [101] (JObj ix_data) ''a'' ''b'' = Inr ix_failed"
  by (simp add: intake_record_def ix_env_def terminate_def check_payload_def enforce_size_limit_def
      RESULT_MAX_BYTES_def ix_failed_def new_record_def)

lemma ix_plan: "intake_plan ix_env ix_msg = Submit (Inr ix_failed)"
proof -
  have t: "map_of (topics (env_cfg (ie_jobs ix_env))) (in_topic ix_msg) = Some (Process, ''b'')"
    by (simp add: topics_def ix_env_def ex_env_def ex_cfg_def ix_msg_def)
  have j: "ie_json ix_env (case in_value ix_msg of Some v \<Rightarrow> v | None \<Rightarrow> []) = Some (JObj ix_data)"
    by (simp add: ix_env_def ix_msg_def ix_data_def)
  have "int_str 7 = ''7''" "of_ascii ''process'' \<noteq> of_ascii ''photos_ready''" by code_simp+
  then have "read_identity Process ix_data (in_key ix_msg) = Some (7, [101], of_ascii ''process'') \<and>
      of_ascii ''process'' \<noteq> of_ascii ''photos_ready''"
    by (simp add: read_identity_def ix_data_def allowed_types_def ix_msg_def)
  then show ?thesis
    using ix_record unfolding intake_plan_def t j by (simp add: ix_msg_def)
qed

lemma ix_register:
  "\<exists>cs. register ex_env ix_failed 1 Map.empty = Done (Inr Accepted) cs \<and>
     get_job (exec cs Map.empty) ex_id = Some (ix_failed\<lparr>j_created := 1\<rparr>)"
proof -
  obtain ms where ms: "terminal_commands (ix_failed\<lparr>j_created := 1\<rparr>) 1 = Inr ms"
    by (simp add: terminal_commands_def Let_def)
  then have "\<forall>c \<in> set ms. \<not> job_key (cmd_key c)" by (auto dest: terminal_commands_not_job)
  note other = get_job_exec_other[OF not_job_keys[OF this]]
  have "(case j_event ix_failed of Some _ \<Rightarrow> terminal_commands (ix_failed\<lparr>j_created := 1\<rparr>) 1 | None \<Rightarrow> Inr []) = Inr ms"
    using ms ix_failed_sel(7) by (cases "j_event ix_failed") simp_all
  from register_accepts[OF _ _ _ this, of Map.empty ex_env] obtain ds where
    r: "register ex_env ix_failed 1 Map.empty = Done (Inr Accepted) ((map (ZREMc KBatchQueue) ds @
      [SETc KSequence (VInt (get_int Map.empty KSequence + 1)), SETc (KJob ex_id) (VJob (ix_failed\<lparr>j_created := 1\<rparr>)),
       SETc (KLatest Process 7) (VStr ex_id), DELc (KBatches ex_id), ZADDc KPending ex_id 1]) @ ms)" (is "_ = Done _ (?cs @ ms)")
    by (auto simp: previous_active_def get_str_def ix_id)
  have "get_job (exec ?cs Map.empty) ex_id = Some (ix_failed\<lparr>j_created := 1\<rparr>)" by (simp add: view_simps)
  with r have "register ex_env ix_failed 1 Map.empty = Done (Inr Accepted) (?cs @ ms) \<and>
      get_job (exec ?cs Map.empty) ex_id = Some (ix_failed\<lparr>j_created := 1\<rparr>)" by simp
  then show ?thesis using other by (metis exec_append)
qed

lemma ix_accepts:
  "\<exists>s. ix2 = set_phase ''c'' (Committing ix_msg) (ix1\<lparr>bu_redis := s\<rparr>) \<and>
     get_job s ex_id = Some (ix_failed\<lparr>j_created := 1\<rparr>)"
proof -
  have e: "bu_redis ix1 = Map.empty" by (simp add: ix1_def poll_def assign_step_def upd_consumer_def Let_def bus_init_def)
  have J: "ie_jobs ix_env = ex_env" by (simp add: ix_env_def)
  from ix_register show ?thesis
    by (auto simp: ix2_def accept_step_def accept_next_def accept_op_def run_op_def ix_plan e J Let_def)
qed

lemma ix_accepted: "phase_of ix2 ''c'' = Committing ix_msg \<and> get_job (bu_redis ix2) ex_id = Some (ix_failed\<lparr>j_created := 1\<rparr>) \<and>
   co_position (bu_consumers ix2 ''c'') (tpart_of ix_msg) = Some 1 \<and> bu_publishers ix2 = (\<lambda>_. Resting)"
proof -
  from ix_accepts obtain s where s: "ix2 = set_phase ''c'' (Committing ix_msg) (ix1\<lparr>bu_redis := s\<rparr>)"
    "get_job s ex_id = Some (ix_failed\<lparr>j_created := 1\<rparr>)" by blast
  have "co_position (bu_consumers ix1 ''c'') (tpart_of ix_msg) = Some 1" "bu_publishers ix1 = (\<lambda>_. Resting)"
    by (simp_all add: ix1_def poll_def assign_step_def upd_consumer_def Let_def bus_init_def ix_msg_def)
  with s(2) show ?thesis unfolding s(1) by (simp add: set_phase_def upd_consumer_def)
qed

lemma ix_committed: "bu_committed ix3 (''a'', 0) = 1 \<and> bu_redis ix3 = bu_redis ix2 \<and> bu_publishers ix3 = (\<lambda>_. Resting)"
  using ix_accepted by (simp add: ix3_def commit_step_def set_phase_def upd_consumer_def tpart_of_def Let_def)
    (simp add: ix_msg_def)

definition ix_result :: job where
  "ix_result = ix_failed\<lparr>j_created := 1, j_pub_owner := Some ''p'', j_pub_until := 32\<rparr>"

definition ix5 :: bus where "ix5 = publish_step ''p'' ex_id ix_result Sent ix4"
definition ix6 :: bus where "ix6 = acknowledge_step ix_env ''p'' ex_id True ix5"

lemma ix_claimed: "bu_publishers ix4 ''p'' = Holding ex_id ix_result \<and> get_job (bu_redis ix4) ex_id = Some ix_result"
proof -
  let ?s = "bu_redis ix3" and ?r = "ix_failed\<lparr>j_created := 1\<rparr>"
  have g: "get_job ?s ex_id = Some ?r" using ix_accepted ix_committed by simp
  have u: "claim_result_update ex_env ''p'' ?r 2 = Inr (Some ix_result)"
    by (simp add: claim_result_update_def ix_result_def)
  obtain cs where c: "change_commands ex_env ex_id FAILED ix_result None 2 ?s = Inr cs"
    by (simp add: change_commands_def ix_result_def Let_def)
  have a: "claim_result ex_env ex_id ''p'' 2 ?s = Done (Inr (Some ix_result)) cs"
    using g u c by (simp add: claim_result_def change_attempt_def)
  moreover have "ie_jobs ix_env = ex_env" by (simp add: ix_env_def)
  ultimately show ?thesis
    using get_job_after_change[OF c] by (simp add: ix4_def claim_result_step_def to_pub_def run_attempt_def)
qed

definition ix_event :: "string \<times> result_event \<times> string" where
  "ix_event = (''b'', the (j_event ix_failed), int_str 7)"

lemma ix_message: "result_message ix_result = Some ix_event"
  by (simp add: result_message_def ix_result_def ix_event_def)

lemma ix_sent: "bu_publishers ix5 ''p'' = Delivered ex_id \<and> bu_redis ix5 = bu_redis ix4"
  by (simp add: ix5_def publish_step_def ix_message to_pub_def Let_def)

lemma ix_acknowledged: "\<exists>j. get_job (bu_redis ix6) ex_id = Some j \<and> j_published j \<and> result_message j = Some ix_event"
proof -
  have "get_job (bu_redis ix5) ex_id = Some ix_result" using ix_sent ix_claimed by simp
  then have "get_job (bu_redis ix6) ex_id = Some (ix_result\<lparr>j_published := True\<rparr>)"
    by (simp add: ix6_def acknowledge_step_def to_pub_def acknowledge_attempt_def view_simps)
      (simp add: ix_result_def)
  then show ?thesis using ix_message by (simp add: result_message_def)
qed

lemma ix_reach1: "bus_reach ix_env ix_msgs ix1"
proof -
  let ?b = "assign_step ''c'' (''a'', 0) bus_init"
  have "can_poll ix_msgs ''c'' (''a'', 0) 0 ix_msg ?b"
    by (simp add: can_poll_def assign_step_def upd_consumer_def bus_init_def new_consumer_def Let_def incoming_at_def
        ix_msgs_def ix_msg_def)
  from bus_reach.step[OF bus_reach.step[OF bus_reach.init assigns] polls[OF this]]
  show ?thesis by (simp add: ix1_def)
qed

lemma ix_hand1: "phase_of ix1 ''c'' = Accepting ix_msg"
  by (simp add: ix1_def poll_def upd_consumer_def Let_def)

lemma ix_reach3: "bus_reach ix_env ix_msgs ix3"
proof -
  have r2: "bus_reach ix_env ix_msgs ix2"
    unfolding ix2_def by (rule bus_reach.step[OF ix_reach1 accepts[OF ix_hand1]])
  show ?thesis
    unfolding ix3_def using ix_accepted by (intro bus_reach.step[OF r2 commits]) simp_all
qed

lemma ix_reach6: "bus_reach ix_env ix_msgs ix6"
proof -
  have r4: "bus_reach ix_env ix_msgs ix4"
    unfolding ix4_def using ix_committed by (intro bus_reach.step[OF ix_reach3 claims]) simp
  have "bus_reach ix_env ix_msgs (publish_step ''p'' ex_id ix_result Sent ix4)"
    using ix_claimed by (intro bus_reach.step[OF r4 publishes]) simp
  then have r5: "bus_reach ix_env ix_msgs ix5" by (simp add: ix5_def)
  show ?thesis
    unfolding ix6_def using ix_sent by (intro bus_reach.step[OF r5 acknowledges]) simp
qed

section \<open>Properties\<close>

text \<open>C6. A request is never lost: whatever replies get lost and however consumers are restarted and
  rebalanced, every message below the committed offset of its partition has been settled: its execution is
  known to the job store, its photo batch was answered for, or its original bytes are in the dead letter
  topic.\<close>

theorem committed_requests_are_settled:
  assumes "bus_reach IE msgs b" "k < bu_committed b tp" "incoming_at msgs tp k = Some m"
  shows "settled IE b m"
  using bus_reach_ok[OF assms(1)] assms(2,3) by (auto simp: bus_ok_def intake_ok_def below_def)

lemma committed_requests_are_settled_witness:
  "bus_reach ix_env ix_msgs ix3 \<and> bu_committed ix3 (''a'', 0) = 1 \<and> settled ix_env ix3 ix_msg"
proof -
  have "incoming_at ix_msgs (''a'', 0) 0 = Some ix_msg" by (simp add: incoming_at_def ix_msgs_def ix_msg_def)
  with committed_requests_are_settled[OF ix_reach3, of 0 "(''a'', 0)" ix_msg] ix_committed ix_reach3 show ?thesis by simp
qed

text \<open>C7. A result is only marked published when its final event is on the result topic of the request,
  under the key of its trip.\<close>

theorem published_results_are_delivered:
  assumes "bus_reach IE msgs b" "get_job (bu_redis b) i = Some j" "j_published j"
  shows "\<exists>e. j_event j = Some e \<and> (j_result_topic j, e, int_str (j_trip j)) \<in> set (bu_results b)"
proof -
  have "publish_ok b" using bus_reach_ok[OF assms(1)] by (simp add: bus_ok_def)
  with assms(2,3) obtain x where "x \<in> set (bu_results b)" "result_message j = Some x"
    unfolding publish_ok_def by blast
  then show ?thesis by (auto simp: result_message_def)
qed

lemma published_results_are_delivered_witness:
  "bus_reach ix_env ix_msgs ix6 \<and> ix_event \<in> set (bu_results ix6)"
proof -
  from ix_acknowledged obtain j where j: "get_job (bu_redis ix6) ex_id = Some j" "j_published j"
    "result_message j = Some ix_event" by blast
  from published_results_are_delivered[OF ix_reach6 j(1,2)] j(3) ix_reach6 show ?thesis
    by (auto simp: result_message_def)
qed

text \<open>No message of a request topic can stop the receiver: when nothing is lost, it is accepted, or
  refused at most three times and put into the dead letter topic, and then committed.\<close>

theorem every_message_settles:
  assumes "bus_reach IE msgs b" "phase_of b c = Accepting m" "intake_plan IE m \<noteq> Unroutable" "0 \<le> refusals IE m b"
  shows "\<exists>b'. intake_run 9 IE c now b = Some b' \<and> phase_of b' c = Committing m \<and> settled IE b' m"
proof -
  have "\<exists>b'. intake_run (2 * 2 + 5) IE c now b = Some b' \<and> bus_reach IE msgs b' \<and> phase_of b' c = Committing m"
    using assms by (intro settles_in) simp_all
  then obtain b' where b': "intake_run 9 IE c now b = Some b'" "bus_reach IE msgs b'" "phase_of b' c = Committing m" by auto
  have "consumer_ok IE msgs b' (bu_consumers b' c)"
    using bus_reach_ok[OF b'(2)] by (simp add: bus_ok_def intake_ok_def)
  with b' show ?thesis by (simp add: consumer_ok_def)
qed

lemma every_message_settles_witness:
  "\<exists>b'. intake_run 9 ix_env ''c'' 1 ix1 = Some b' \<and> settled ix_env b' ix_msg"
proof -
  have "0 \<le> refusals ix_env ix_msg ix1"
    by (simp add: refusals_def get_int_def ix1_def poll_def assign_step_def upd_consumer_def Let_def bus_init_def)
  with every_message_settles[OF ix_reach1 ix_hand1, of 1] ix_plan show ?thesis by auto
qed

end
