(* ===== verification/Evaluation.thy ===== *)
theory Evaluation
  imports RedisStore PyText
begin

text \<open>
  Scoring against known answers: \<open>src/app/observability/quality.py\<close> (\<open>evaluate\<close>, \<open>publish\<close>) and
  \<open>src/app/observability/datasets.py\<close> (recognising a test trip by the fingerprints of its photos).
  Ratios of counts are exact rationals.  The adjusted Rand index of scikit-learn and the perceptual hash
  of a picture are parameters; the labels given to the former are renamed to numbers in the code, which the
  parameter is free to do.
\<close>

section \<open>Items and reports\<close>

datatype feature = F_process | F_search | F_story
datatype policy = Singleton | Exclude

type_synonym item = "(string \<times> json) list"

record evaluation_input =
  el_feature :: feature
  el_dataset :: string
  el_model :: string
  el_items :: "item list"
  el_policy :: "policy option"

record report =
  rp_feature :: feature
  rp_dataset :: string
  rp_samples :: nat
  rp_total :: nat
  rp_policy :: "policy option"
  rp_k :: "json option"
  rp_at :: rat
  rp_metrics :: "(string \<times> rat) list"
  rp_matched :: "nat option"
  rp_photos :: "nat option"
  rp_dashboard :: bool

text \<open>\<open>EvaluationInput\<close>.\<close>

definition valid_evaluation :: "evaluation_input \<Rightarrow> bool" where
  "valid_evaluation d \<longleftrightarrow> 1 \<le> length (el_dataset d) \<and> length (el_dataset d) \<le> 128 \<and>
     CHR ''|'' \<notin> set (el_dataset d) \<and> 1 \<le> length (el_model d) \<and> length (el_model d) \<le> 128 \<and> el_items d \<noteq> []"

definition field :: "string \<Rightarrow> item \<Rightarrow> job_exn + json" where
  "field f i = (case map_of i f of Some v \<Rightarrow> Inr v | None \<Rightarrow> Inl KeyErr)"

section \<open>B-cubed scores of a partition\<close>

text \<open>\<open>Counter(xs)[x]\<close>; sums of shares over the samples, divided by their number.\<close>

definition tally :: "'a list \<Rightarrow> 'a \<Rightarrow> nat" where
  "tally xs x = length (filter (\<lambda>y. y = x) xs)"

definition share_sum :: "'a list \<Rightarrow> 'b list \<Rightarrow> ('a \<times> 'b \<Rightarrow> nat) \<Rightarrow> rat" where
  "share_sum ts ps sz =
     sum_list (map (\<lambda>tp. of_nat (tally (zip ts ps) tp) / of_nat (sz tp)) (zip ts ps)) / of_nat (length ts)"

definition bcubed_precision :: "'a list \<Rightarrow> 'b list \<Rightarrow> rat" where
  "bcubed_precision ts ps = share_sum ts ps (\<lambda>(t, p). tally ps p)"

definition bcubed_recall :: "'a list \<Rightarrow> 'b list \<Rightarrow> rat" where
  "bcubed_recall ts ps = share_sum ts ps (\<lambda>(t, p). tally ts t)"

definition bcubed_f1 :: "'a list \<Rightarrow> 'b list \<Rightarrow> rat" where
  "bcubed_f1 ts ps = 2 * bcubed_precision ts ps * bcubed_recall ts ps / (bcubed_precision ts ps + bcubed_recall ts ps)"

text \<open>A photo without a predicted place is a cluster of its own, named by its position.\<close>

datatype plabel = Named json | Lone nat

definition predicted_labels :: "json list \<Rightarrow> plabel list" where
  "predicted_labels vs = map (\<lambda>(i, v). if v = JNull then Lone i else Named v) (zip [0..<length vs] vs)"

fun is_label :: "json \<Rightarrow> bool" where
  "is_label (JStr u) = (u \<noteq> [])"
| "is_label _ = False"

fun is_name :: "json \<Rightarrow> bool" where
  "is_name (JStr u) = True"
| "is_name v = (v = JNull)"

record eval_env =
  ee_ari :: "json list \<Rightarrow> plabel list \<Rightarrow> rat"
  ee_now :: rat

definition process_scores ::
  "eval_env \<Rightarrow> policy option \<Rightarrow> item list \<Rightarrow> job_exn + (string \<times> rat) list \<times> item list" where
  "process_scores V pol items =
     bindE (mapE (field ''predicted_place'') items) (\<lambda>vs.
     let missing = length (filter (\<lambda>v. v = JNull) vs); coverage = 1 - of_nat missing / of_nat (length items)
     in if missing \<noteq> 0 \<and> pol = None then Inl ValueErr
        else
          let kept = (if pol = Some Exclude
                      then map fst (filter (\<lambda>(i, v). v \<noteq> JNull) (zip items vs)) else items)
          in if kept = [] then Inl ValueErr
             else
               bindE (mapE (field ''expected_place'') kept) (\<lambda>truth.
               bindE (mapE (field ''predicted_place'') kept) (\<lambda>ws.
               let predicted = predicted_labels ws
               in if list_ex (\<lambda>t. \<not> is_label t) truth then Inl ValueErr
                  else if list_ex (\<lambda>v. \<not> is_name v) ws then Inl ValueErr
                  else Inr ([(''bcubed_precision'', bcubed_precision truth predicted),
                             (''bcubed_recall'', bcubed_recall truth predicted),
                             (''bcubed_f1'', bcubed_f1 truth predicted),
                             (''ari'', ee_ari V truth predicted), (''coverage'', coverage)], kept))))"

section \<open>Search and story scores\<close>

definition mean :: "rat list \<Rightarrow> rat" where
  "mean xs = sum_list xs / of_nat (length xs)"

text \<open>The places of the relevant photos among the first \<open>k\<close>, counted from one.\<close>

definition found_at :: "nat \<Rightarrow> json list \<Rightarrow> json list \<Rightarrow> nat list" where
  "found_at k relevant retrieved =
     map (\<lambda>(i, p). i + 1) (filter (\<lambda>(i, p). p \<in> set relevant) (zip [0..<min k (length retrieved)] (take k retrieved)))"

definition search_row :: "item \<Rightarrow> job_exn + rat \<times> rat \<times> rat" where
  "search_row it =
     bindE (field ''k'' it) (\<lambda>kv. bindE (bindE (field ''relevant_ids'' it) jitems) (\<lambda>relevant.
     bindE (bindE (field ''retrieved_ids'' it) jitems) (\<lambda>retrieved.
       case kv of
         JInt k \<Rightarrow>
           if k < 1 \<or> relevant = [] then Inl ValueErr
           else if \<not> distinct relevant \<or> \<not> distinct retrieved then Inl ValueErr
           else
             let found = found_at (nat k) relevant retrieved
             in Inr (of_nat (length found) / of_int k, of_nat (length found) / of_nat (length relevant),
                     (case found of [] \<Rightarrow> 0 | f # _ \<Rightarrow> 1 / of_nat f))
       | _ \<Rightarrow> Inl ValueErr)))"

definition search_scores :: "item list \<Rightarrow> job_exn + (string \<times> rat) list" where
  "search_scores items =
     bindE (mapE (field ''k'') items) (\<lambda>ks.
     if card (set ks) \<noteq> 1 then Inl ValueErr
     else bindE (mapE search_row items) (\<lambda>rows.
       Inr [(''precision_at_k'', mean (map fst rows)), (''recall_at_k'', mean (map (fst \<circ> snd) rows)),
            (''mrr_at_k'', mean (map (snd \<circ> snd) rows))]))"

definition STORY_FIELDS :: "string list" where
  "STORY_FIELDS = [''factual'', ''all_places_present'', ''mood_matched'']"

definition story_rate :: "item list \<Rightarrow> string \<Rightarrow> rat" where
  "story_rate items f = of_nat (length (filter (\<lambda>i. map_of i f = Some (JBool True)) items)) / of_nat (length items)"

definition story_scores :: "item list \<Rightarrow> job_exn + (string \<times> rat) list" where
  "story_scores items =
     bindE (mapE (\<lambda>i. mapE (\<lambda>f. field f i) STORY_FIELDS) items) (\<lambda>vss.
     if list_ex (list_ex (\<lambda>v. \<nexists>b. v = JBool b)) vss then Inl ValueErr
     else Inr (map (\<lambda>f. (f @ ''_rate'', story_rate items f)) STORY_FIELDS))"

definition evaluate :: "eval_env \<Rightarrow> evaluation_input \<Rightarrow> job_exn + report" where
  "evaluate V d =
     (let items = el_items d; tot = length items;
          rep = (\<lambda>kept k scores. \<lparr>rp_feature = el_feature d, rp_dataset = el_dataset d, rp_samples = length kept,
                  rp_total = tot, rp_policy = el_policy d, rp_k = k, rp_at = ee_now V, rp_metrics = scores,
                  rp_matched = None, rp_photos = None, rp_dashboard = True\<rparr>)
      in case el_feature d of
           F_process \<Rightarrow>
             bindE (process_scores V (el_policy d) items) (\<lambda>(scores, kept). Inr (rep kept None scores))
         | F_search \<Rightarrow>
             bindE (search_scores items) (\<lambda>scores. Inr (rep items (map_of (hd items) ''k'') scores))
         | F_story \<Rightarrow> bindE (story_scores items) (\<lambda>scores. Inr (rep items None scores)))"

section \<open>Publishing a report\<close>

definition feature_name :: "feature \<Rightarrow> string" where
  "feature_name f = (case f of F_process \<Rightarrow> ''process'' | F_search \<Rightarrow> ''search'' | F_story \<Rightarrow> ''story'')"

definition policy_name :: "policy option \<Rightarrow> string" where
  "policy_name p = (case p of None \<Rightarrow> ''none'' | Some Singleton \<Rightarrow> ''singleton'' | Some Exclude \<Rightarrow> ''exclude'')"

definition series_key :: "report \<Rightarrow> string" where
  "series_key r = feature_name (rp_feature r) @ ''|'' @ rp_dataset r @ ''|'' @ policy_name (rp_policy r)"

text \<open>The numbers of the report; the hash of its conditions (model, k, release, source) is not modelled.\<close>

definition publish_commands :: "report \<Rightarrow> rcmd list" where
  "publish_commands r =
     (let key = KMetrics ''quality_v2''; put = (\<lambda>name v. HSETc key (series_key r @ ''|'' @ name) v);
          opt = (\<lambda>name x. case x of Some n \<Rightarrow> [put name (of_nat n)] | None \<Rightarrow> [])
      in map (\<lambda>(name, v). put name v) (rp_metrics r) @ [put ''samples'' (of_nat (rp_samples r)),
           put ''timestamp'' (rp_at r)] @ opt ''matched_photos'' (rp_matched r) @ opt ''dataset_photos'' (rp_photos r))"

section \<open>Recognising a data set (\<open>datasets.py\<close>)\<close>

fun bit_count :: "nat \<Rightarrow> nat" where
  "bit_count n = (if n = 0 then 0 else n mod 2 + bit_count (n div 2))"

declare bit_count.simps [simp del]

definition hamming :: "nat \<Rightarrow> nat \<Rightarrow> nat" where
  "hamming a b = bit_count (Bit_Operations.xor a b)"

definition MAX_DISTANCE :: nat where "MAX_DISTANCE = 8"
definition MIN_MATCHED :: nat where "MIN_MATCHED = 10"
definition MIN_MATCH_RATIO :: rat where "MIN_MATCH_RATIO = 9/10"
definition MIN_DATASET_COVERAGE :: rat where "MIN_DATASET_COVERAGE = 9/10"

record reference_set =
  rs_dataset :: string
  rs_photos :: nat
  rs_hashes :: "nat list"
  rs_labels :: "utext option list"

text \<open>\<open>candidates\<close>: the hash of the pixels as they are, and turned upright when that differs.\<close>

definition candidates_of :: "nat \<Rightarrow> nat option \<Rightarrow> nat list" where
  "candidates_of raw upright = (case upright of Some u \<Rightarrow> if u = raw then [raw] else [raw, u] | None \<Rightarrow> [raw])"

text \<open>\<open>nearest\<close>: the least pair of distance and position; \<open>min\<close> of nothing raises.\<close>

definition nearest :: "reference_set \<Rightarrow> nat list \<Rightarrow> job_exn + nat \<times> nat" where
  "nearest r values =
     (let ds = concat (map (\<lambda>v. map (\<lambda>(i, ref). (hamming v ref, i)) (zip [0..<length (rs_hashes r)] (rs_hashes r))) values)
      in case ds of [] \<Rightarrow> Inl ValueErr | d # rest \<Rightarrow> Inr (fold min rest d))"

record dataset_match =
  dm_dataset :: string
  dm_photos :: nat
  dm_truth :: "(int \<times> utext option) list"
  dm_unmatched :: nat
  dm_distance :: nat
  dm_accepted :: bool

definition match_ratio :: "dataset_match \<Rightarrow> rat" where
  "match_ratio m = of_nat (length (dm_truth m)) / of_nat (length (dm_truth m) + dm_unmatched m)"

fun match_photos ::
  "reference_set \<Rightarrow> (int \<times> nat list option) list \<Rightarrow> job_exn + ((int \<times> utext option) \<times> nat) list" where
  "match_photos r [] = Inr []"
| "match_photos r ((photo, None) # rest) = match_photos r rest"
| "match_photos r ((photo, Some values) # rest) =
     bindE (nearest r values) (\<lambda>(d, i). bindE (match_photos r rest) (\<lambda>found.
       Inr (if d \<le> MAX_DISTANCE then ((photo, rs_labels r ! i), d) # found else found)))"

definition match_set :: "(int \<times> nat list option) list \<Rightarrow> reference_set \<Rightarrow> job_exn + dataset_match" where
  "match_set hashes r =
     bindE (match_photos r hashes) (\<lambda>found.
       let truth = map fst found
       in Inr \<lparr>dm_dataset = rs_dataset r, dm_photos = rs_photos r, dm_truth = truth,
            dm_unmatched = length hashes - length truth, dm_distance = fold max (map snd found) 0,
            dm_accepted = (MIN_MATCHED \<le> length truth \<and>
              MIN_MATCH_RATIO \<le> of_nat (length truth) / of_nat (length hashes))\<rparr>)"

definition better :: "dataset_match option \<Rightarrow> dataset_match \<Rightarrow> dataset_match option" where
  "better best m = (case best of None \<Rightarrow> Some m
     | Some b \<Rightarrow> if length (dm_truth b) < length (dm_truth m) then Some m else Some b)"

definition closest :: "(int \<times> nat list option) list \<Rightarrow> reference_set list \<Rightarrow> job_exn + dataset_match option" where
  "closest hashes sets =
     (if hashes = [] then Inr None
      else foldE (\<lambda>r best. bindE (match_set hashes r) (\<lambda>m. Inr (better best m))) sets None)"

definition detect :: "(int \<times> nat list option) list \<Rightarrow> reference_set list \<Rightarrow> job_exn + dataset_match option" where
  "detect hashes sets =
     bindE (closest hashes sets) (\<lambda>m. Inr (case m of Some x \<Rightarrow> if dm_accepted x then Some x else None | None \<Rightarrow> None))"

text \<open>\<open>score\<close>: photos of unclear quality keep their place, photos whose answer is no place are alone.\<close>

definition QUALITY_ISSUES :: "utext list" where
  "QUALITY_ISSUES = [of_ascii ''BLURRY'', of_ascii ''DUPLICATED'']"

definition place_photos :: "json \<Rightarrow> job_exn + (json \<times> json) list" where
  "place_photos place =
     bindE (bindE (jget ''attachments'' place) jitems) (mapE (\<lambda>photo.
       bindE (jget ''trip_attachment_id'' photo) (\<lambda>i. bindE (jget ''place_id'' place) (\<lambda>p. Inr (i, p)))))"

fun jget_opt :: "string \<Rightarrow> json \<Rightarrow> json" where
  "jget_opt f (JObj kvs) = (case map_of kvs f of Some v \<Rightarrow> v | None \<Rightarrow> JNull)"
| "jget_opt f _ = JNull"

definition issue_place :: "json \<Rightarrow> json" where
  "issue_place photo =
     (case jget_opt ''issue'' photo of
        JStr u \<Rightarrow> if u \<in> set QUALITY_ISSUES then jget_opt ''place_id'' photo else JNull
      | _ \<Rightarrow> JNull)"

definition predicted_places :: "json \<Rightarrow> job_exn + (json, json) pydict" where
  "predicted_places res =
     bindE (bindE (jget ''places'' res) jitems) (\<lambda>places. bindE (mapE place_photos places) (\<lambda>pss.
     bindE (bindE (jget ''unclassified'' res) jitems) (\<lambda>us.
     bindE (mapE (\<lambda>photo. bindE (jget ''trip_attachment_id'' photo) (\<lambda>i. Inr (i, issue_place photo))) us) (\<lambda>un.
       Inr (fold (\<lambda>(i, p). dict_set i p) (concat pss @ un) [])))))"

definition score_items :: "dataset_match \<Rightarrow> (json, json) pydict \<Rightarrow> item list" where
  "score_items m predicted =
     map (\<lambda>(photo, label). [(''expected_place'', JStr (case label of Some u \<Rightarrow> u
              | None \<Rightarrow> of_ascii (''unclassified:'' @ int_str photo))),
            (''predicted_place'', (case map_of predicted (JInt photo) of Some v \<Rightarrow> v | None \<Rightarrow> JNull))])
       (filter (\<lambda>(photo, label). map_of predicted (JInt photo) \<noteq> None) (sort_key fst (dm_truth m)))"

definition POLICIES :: "policy list" where
  "POLICIES = [Singleton, Exclude]"

definition score_policy :: "eval_env \<Rightarrow> dataset_match \<Rightarrow> string \<Rightarrow> item list \<Rightarrow> policy \<Rightarrow> job_exn + report list" where
  "score_policy V m model items pol =
     (if pol = Exclude \<and> list_all (\<lambda>i. map_of i ''predicted_place'' = Some JNull) items then Inr []
      else
        let d = \<lparr>el_feature = F_process, el_dataset = dm_dataset m, el_model = model, el_items = items, el_policy = Some pol\<rparr>
        in if \<not> valid_evaluation d then Inl ValidationErr
           else bindE (evaluate V d) (\<lambda>r.
             let coverage = (if dm_photos m = 0 then 0 else of_nat (length (dm_truth m)) / of_nat (dm_photos m))
             in Inr [r\<lparr>rp_matched := Some (length (dm_truth m)), rp_photos := Some (dm_photos m),
                       rp_dashboard := (MIN_DATASET_COVERAGE \<le> coverage)\<rparr>]))"

definition score :: "eval_env \<Rightarrow> dataset_match \<Rightarrow> json \<Rightarrow> string \<Rightarrow> job_exn + report list" where
  "score V m res model =
     bindE (predicted_places res) (\<lambda>predicted.
     bindE (mapE (score_policy V m model (score_items m predicted)) POLICIES) (\<lambda>rs. Inr (concat rs)))"

end
