(* ===== verification/EvaluationTheorems.thy ===== *)
theory EvaluationTheorems
  imports Evaluation
begin

text \<open>
  What the B-cubed scores say: they are ratios, and they are one exactly when the predicted places refine
  the true ones, or are refined by them.
\<close>

section \<open>Shares\<close>

lemma tally_pos: "x \<in> set xs \<Longrightarrow> 0 < tally xs x"
  by (auto simp: tally_def filter_empty_conv)

lemma tally_map: "tally (map g zs) y = length (filter (\<lambda>z. g z = y) zs)"
  by (induction zs) (auto simp: tally_def)

lemma tally_le: "tally zs z \<le> tally (map g zs) (g z)"
  unfolding tally_map tally_def by (induction zs) auto

lemma tally_eq:
  "z \<in> set zs \<Longrightarrow> tally zs z = tally (map g zs) (g z) \<longleftrightarrow> (\<forall>z' \<in> set zs. g z' = g z \<longrightarrow> z' = z)"
proof -
  have e: "tally zs z = length (filter (\<lambda>y. y = z) (filter (\<lambda>y. g y = g z) zs))"
    unfolding tally_def filter_filter by (rule arg_cong[of _ _ length], rule filter_cong) auto
  have "length (filter P xs) = length xs \<longleftrightarrow> (\<forall>x \<in> set xs. P x)" for P :: "'a \<Rightarrow> bool" and xs
    by (metis filter_True length_filter_less nat_less_le)
  from this[of "\<lambda>y. y = z" "filter (\<lambda>y. g y = g z) zs"] show ?thesis
    unfolding e tally_map by auto
qed

lemma sum_list_shares:
  assumes "\<And>x. x \<in> set xs \<Longrightarrow> 0 < f x \<and> f x \<le> (1 :: rat)" "xs \<noteq> []"
  shows "0 < sum_list (map f xs) \<and> sum_list (map f xs) \<le> of_nat (length xs) \<and>
    (sum_list (map f xs) = of_nat (length xs) \<longleftrightarrow> (\<forall>x \<in> set xs. f x = 1))"
  using assms
proof (induction xs)
  case (Cons x xs)
  show ?case
  proof (cases "xs = []")
    case False
    with Cons show ?thesis by fastforce
  qed (use Cons in auto)
qed simp

text \<open>The share of a sample's pair among the samples that agree with it on one side.\<close>

lemma shares:
  fixes g :: "'a \<times> 'b \<Rightarrow> 'c"
  assumes len: "length ts = length ps" and ne: "ts \<noteq> []"
    and sz: "\<And>z. z \<in> set (zip ts ps) \<Longrightarrow> sz z = tally (map g (zip ts ps)) (g z)"
  shows "0 < share_sum ts ps sz \<and> share_sum ts ps sz \<le> 1 \<and>
    (share_sum ts ps sz = 1 \<longleftrightarrow> (\<forall>z \<in> set (zip ts ps). \<forall>z' \<in> set (zip ts ps). g z' = g z \<longrightarrow> z' = z))"
proof -
  let ?zs = "zip ts ps" and ?f = "\<lambda>z. of_nat (tally (zip ts ps) z) / of_nat (sz z) :: rat"
  have zs: "?zs \<noteq> []" "length ?zs = length ts" using len ne by (cases ts; cases ps; simp)+
  have f: "0 < ?f z \<and> ?f z \<le> 1 \<and> (?f z = 1 \<longleftrightarrow> (\<forall>z' \<in> set ?zs. g z' = g z \<longrightarrow> z' = z))" if z: "z \<in> set ?zs" for z
  proof -
    have "0 < tally ?zs z" "tally ?zs z \<le> sz z" using tally_pos[OF z] tally_le[of ?zs z g] sz[OF z] by simp_all
    with tally_eq[OF z, of g] sz[OF z] show ?thesis by (auto simp: divide_le_eq_1)
  qed
  let ?S = "sum_list (map ?f ?zs)"
  have s: "0 < ?S \<and> ?S \<le> of_nat (length ?zs) \<and> (?S = of_nat (length ?zs) \<longleftrightarrow> (\<forall>z \<in> set ?zs. ?f z = 1))"
    by (rule sum_list_shares) (use f zs in auto)
  have n: "(0 :: rat) < of_nat (length ts)" using ne by simp
  have e: "share_sum ts ps sz = ?S / of_nat (length ts)" by (simp add: share_sum_def)
  have "0 < share_sum ts ps sz" "share_sum ts ps sz \<le> 1" using s n zs unfolding e by simp_all
  moreover have "share_sum ts ps sz = 1 \<longleftrightarrow> ?S = of_nat (length ?zs)" using n zs unfolding e by (simp add: divide_eq_eq)
  ultimately show ?thesis using s f by auto
qed

lemma zip_pairs:
  "length ts = length ps \<Longrightarrow>
   (\<forall>z \<in> set (zip ts ps). \<forall>z' \<in> set (zip ts ps). g z' = g z \<longrightarrow> z' = z) \<longleftrightarrow>
   (\<forall>i < length ts. \<forall>j < length ts. g (ts ! j, ps ! j) = g (ts ! i, ps ! i) \<longrightarrow> (ts ! j, ps ! j) = (ts ! i, ps ! i))"
  unfolding all_set_conv_all_nth by (simp add: all_set_conv_all_nth)

lemma bcubed_precision_props:
  assumes "length ts = length ps" "ts \<noteq> []"
  shows "0 < bcubed_precision ts ps \<and> bcubed_precision ts ps \<le> 1 \<and> (bcubed_precision ts ps = 1 \<longleftrightarrow>
    (\<forall>i < length ts. \<forall>j < length ts. ps ! i = ps ! j \<longrightarrow> ts ! i = ts ! j))"
proof -
  have "map snd (zip ts ps) = ps" using assms(1) by simp
  then have "0 < bcubed_precision ts ps \<and> bcubed_precision ts ps \<le> 1 \<and> (bcubed_precision ts ps = 1 \<longleftrightarrow>
      (\<forall>z \<in> set (zip ts ps). \<forall>z' \<in> set (zip ts ps). snd z' = snd z \<longrightarrow> z' = z))"
    unfolding bcubed_precision_def using assms by (intro shares) auto
  then show ?thesis unfolding zip_pairs[OF assms(1)] by auto
qed

lemma bcubed_recall_props:
  assumes "length ts = length ps" "ts \<noteq> []"
  shows "0 < bcubed_recall ts ps \<and> bcubed_recall ts ps \<le> 1 \<and> (bcubed_recall ts ps = 1 \<longleftrightarrow>
    (\<forall>i < length ts. \<forall>j < length ts. ts ! i = ts ! j \<longrightarrow> ps ! i = ps ! j))"
proof -
  have "map fst (zip ts ps) = ts" using assms(1) by simp
  then have "0 < bcubed_recall ts ps \<and> bcubed_recall ts ps \<le> 1 \<and> (bcubed_recall ts ps = 1 \<longleftrightarrow>
      (\<forall>z \<in> set (zip ts ps). \<forall>z' \<in> set (zip ts ps). fst z' = fst z \<longrightarrow> z' = z))"
    unfolding bcubed_recall_def using assms by (intro shares) auto
  then show ?thesis unfolding zip_pairs[OF assms(1)] by auto
qed

lemma harmonic:
  fixes p r :: rat
  assumes "0 < p" "p \<le> 1" "0 < r" "r \<le> 1"
  shows "0 < 2 * p * r / (p + r) \<and> 2 * p * r / (p + r) \<le> 1 \<and> (2 * p * r / (p + r) = 1 \<longleftrightarrow> p = 1 \<and> r = 1)"
proof -
  have s: "0 < p + r" using assms by simp
  have a: "p * r \<le> p" "p * r \<le> r" using assms by (simp_all add: mult_le_cancel_left1 mult_le_cancel_right1)
  have "p + r = 2 * p * r \<longleftrightarrow> p = 1 \<and> r = 1"
  proof
    assume e: "p + r = 2 * p * r"
    with a have "p * r = p" "p * r = r" by linarith+
    with assms show "p = 1 \<and> r = 1" by simp
  qed simp
  moreover have "2 * p * r \<le> p + r" using a by linarith
  ultimately show ?thesis using s assms by (simp add: divide_le_eq_1 divide_eq_1_iff)
qed

section \<open>Scores of a test trip\<close>

text \<open>Two photos are predicted together when they are named the same place; a photo without a place is alone.\<close>

definition predicted_together :: "item list \<Rightarrow> nat \<Rightarrow> nat \<Rightarrow> bool" where
  "predicted_together items i j \<longleftrightarrow> i = j \<or>
     map_of (items ! i) ''predicted_place'' = map_of (items ! j) ''predicted_place'' \<and>
     map_of (items ! i) ''predicted_place'' \<noteq> Some JNull"

definition truly_together :: "item list \<Rightarrow> nat \<Rightarrow> nat \<Rightarrow> bool" where
  "truly_together items i j \<longleftrightarrow>
     map_of (items ! i) ''expected_place'' = map_of (items ! j) ''expected_place''"

lemma mapE_field: "mapE (field f) items = Inr vs \<Longrightarrow> length vs = length items \<and> (\<forall>i < length items. map_of (items ! i) f = Some (vs ! i))"
  unfolding mapE_Inr list_all2_conv_all_nth by (auto simp: field_def split: option.splits)

lemma predicted_labels_nth:
  "i < length vs \<Longrightarrow> predicted_labels vs ! i = (if vs ! i = JNull then Lone i else Named (vs ! i))"
  by (simp add: predicted_labels_def)

lemma length_predicted [simp]: "length (predicted_labels vs) = length vs"
  by (simp add: predicted_labels_def)

text \<open>C34. The scores of a test trip compare two partitions: each is above zero and at most one; the precision
  is one exactly when photos predicted together belong together, the recall exactly when photos that belong
  together are predicted together, and the F1 score exactly when the partitions are the same.\<close>

theorem scores_compare_partitions:
  assumes "process_scores V pol items = Inr (scores, kept)"
  shows "\<exists>p r f. map_of scores ''bcubed_precision'' = Some p \<and> map_of scores ''bcubed_recall'' = Some r \<and>
    map_of scores ''bcubed_f1'' = Some f \<and> 0 < p \<and> p \<le> 1 \<and> 0 < r \<and> r \<le> 1 \<and> 0 < f \<and> f \<le> 1 \<and>
    (p = 1 \<longleftrightarrow> (\<forall>i < length kept. \<forall>j < length kept. predicted_together kept i j \<longrightarrow> truly_together kept i j)) \<and>
    (r = 1 \<longleftrightarrow> (\<forall>i < length kept. \<forall>j < length kept. truly_together kept i j \<longrightarrow> predicted_together kept i j)) \<and>
    (f = 1 \<longleftrightarrow> (\<forall>i < length kept. \<forall>j < length kept. predicted_together kept i j = truly_together kept i j))"
proof -
  from assms obtain truth ws rest where k: "kept \<noteq> []" and t: "mapE (field ''expected_place'') kept = Inr truth"
    and w: "mapE (field ''predicted_place'') kept = Inr ws"
    and sc: "scores = (''bcubed_precision'', bcubed_precision truth (predicted_labels ws)) #
                (''bcubed_recall'', bcubed_recall truth (predicted_labels ws)) #
                (''bcubed_f1'', bcubed_f1 truth (predicted_labels ws)) # rest"
    by (auto simp: process_scores_def Let_def split: if_splits)
  note T = mapE_field[OF t] and W = mapE_field[OF w]
  let ?ps = "predicted_labels ws"
  have n: "length truth = length ?ps" "truth \<noteq> []" "length truth = length kept" using T W k by auto
  have pt: "?ps ! i = ?ps ! j \<longleftrightarrow> predicted_together kept i j" if "i < length kept" "j < length kept" for i j
    using that W by (auto simp: predicted_labels_nth predicted_together_def)
  have tt: "truth ! i = truth ! j \<longleftrightarrow> truly_together kept i j" if "i < length kept" "j < length kept" for i j
    using that T by (auto simp: truly_together_def)
  note P = bcubed_precision_props[OF n(1,2)] and R = bcubed_recall_props[OF n(1,2)]
  let ?p = "bcubed_precision truth ?ps" and ?r = "bcubed_recall truth ?ps" and ?f = "bcubed_f1 truth ?ps"
  have F: "0 < ?f \<and> ?f \<le> 1 \<and> (?f = 1 \<longleftrightarrow> ?p = 1 \<and> ?r = 1)"
    unfolding bcubed_f1_def by (rule harmonic) (use P R in auto)
  have p1: "?p = 1 \<longleftrightarrow> (\<forall>i < length kept. \<forall>j < length kept. predicted_together kept i j \<longrightarrow> truly_together kept i j)"
    using P pt tt unfolding n(3) by blast
  have r1: "?r = 1 \<longleftrightarrow> (\<forall>i < length kept. \<forall>j < length kept. truly_together kept i j \<longrightarrow> predicted_together kept i j)"
    using R pt tt unfolding n(3) by blast
  have f1: "?f = 1 \<longleftrightarrow> (\<forall>i < length kept. \<forall>j < length kept. predicted_together kept i j = truly_together kept i j)"
    using F p1 r1 by blast
  have m: "map_of scores ''bcubed_precision'' = Some ?p" "map_of scores ''bcubed_recall'' = Some ?r"
    "map_of scores ''bcubed_f1'' = Some ?f" unfolding sc by simp_all
  have b: "0 < ?p" "?p \<le> 1" "0 < ?r" "?r \<le> 1" "0 < ?f" "?f \<le> 1" using P R F by blast+
  show ?thesis
    by (intro exI[of _ ?p] exI[of _ ?r] exI[of _ ?f] conjI m b p1 r1 f1)
qed

text \<open>Three photos of two places, of which one was not placed.\<close>

definition ev_env :: eval_env where
  "ev_env = \<lparr>ee_ari = (\<lambda>ts ps. 0), ee_now = 0\<rparr>"

definition ev_item :: "nat \<Rightarrow> json \<Rightarrow> item" where
  "ev_item t p = [(''expected_place'', JStr [t]), (''predicted_place'', p)]"

definition ev_items :: "item list" where
  "ev_items = [ev_item 1 (JStr [7]), ev_item 1 (JStr [7]), ev_item 2 JNull]"

lemma scores_compare_partitions_witness:
  "\<exists>scores f. process_scores ev_env (Some Singleton) ev_items = Inr (scores, ev_items) \<and>
     map_of scores ''bcubed_f1'' = Some f \<and> f = 1"
proof -
  have "\<exists>scores. process_scores ev_env (Some Singleton) ev_items = Inr (scores, ev_items)"
    by (simp add: process_scores_def ev_items_def ev_item_def field_def Let_def)
  then obtain scores where s: "process_scores ev_env (Some Singleton) ev_items = Inr (scores, ev_items)" ..
  have "\<forall>i < length ev_items. \<forall>j < length ev_items. predicted_together ev_items i j = truly_together ev_items i j"
    by (simp add: ev_items_def ev_item_def predicted_together_def truly_together_def less_Suc_eq numeral_eq_Suc)
  with scores_compare_partitions[OF s] s show ?thesis by metis
qed

end
