(* ===== verification/StoreTenure.thy ===== *)
theory StoreTenure
  imports StoreHistory
begin

text \<open>
  The lease of a run.  An owner that has lost its job never gets it back: only its own heartbeat or a new
  claim under its own name, which no other process makes, could renew the lease.  \<open>tenured\<close> is what the
  updates of the other operations promise about the run that is going on.
\<close>

section \<open>Runs\<close>

definition same_run :: "string \<Rightarrow> job \<Rightarrow> job \<Rightarrow> bool" where
  "same_run w j j' \<longleftrightarrow> (j_status j' = PROCESSING \<longrightarrow> j_owner j' = Some w \<longrightarrow>
     j_status j = PROCESSING \<and> j_owner j = Some w \<and> j_started j' = j_started j \<and>
     j_heartbeat j' = j_heartbeat j \<and> j_kind j' = j_kind j)"

lemma same_run_refl [simp]: "same_run w j j"
  by (simp add: same_run_def)

definition owned :: "jobs_env \<Rightarrow> redis \<Rightarrow> string \<Rightarrow> string \<Rightarrow> rat \<Rightarrow> bool" where
  "owned E s i w t \<longleftrightarrow> (\<exists>j. get_job s i = Some j \<and> owns E j w t = Inr True)"

lemma owns_expires: "owns E j w t' = Inr True \<Longrightarrow> t \<le> t' \<Longrightarrow> owns E j w t = Inr True"
  by (auto simp: owns_def split: if_splits option.splits)

lemma owned_earlier: "owned E s i w t' \<Longrightarrow> t \<le> t' \<Longrightarrow> owned E s i w t"
  using owns_expires by (fastforce simp: owned_def)

lemma owns_same_run: "same_run w j j' \<Longrightarrow> owns E j' w t = Inr True \<Longrightarrow> owns E j w t = Inr True"
  by (auto simp: owns_def same_run_def split: if_splits option.splits)

lemma terminal_not_owned: "get_job s i = Some j \<Longrightarrow> terminal (j_status j) \<Longrightarrow> \<not> owned E s i w t"
  by (auto simp: owned_def dest!: owns_processing)

section \<open>The other operations\<close>

locale tenured =
  fixes w :: string and upd :: update
  assumes keeps_run: "upd r now = Inr (Some r') \<Longrightarrow> same_run w r r'"
begin

lemma gives_no_lease: "upd r now = Inr (Some r') \<Longrightarrow> owns E r' w t = Inr True \<Longrightarrow> owns E r w t = Inr True"
  by (rule owns_same_run[OF keeps_run])

end

lemma heartbeat_tenured: "v \<noteq> w \<Longrightarrow> tenured w (heartbeat_update E v)"
  by unfold_locales
    (auto simp: heartbeat_update_def same_run_def owns_def split: if_splits option.splits)

interpretation progress_run: tenured w "progress_update E v step dn tot" for w E v step dn tot
  by unfold_locales (auto simp: progress_update_def same_run_def split: if_splits)

lemma terminal_run: "terminal (j_status j') \<Longrightarrow> same_run w j j'"
  by (auto simp: same_run_def)

lemma finish_tenured: "terminal st \<Longrightarrow> tenured w (finish_update E v st res err)"
  by unfold_locales (metis finish_update_cases terminal_run terminal_simps(3) terminate_terminal)

interpretation cancel_run: tenured w "cancel_update E" for w E
proof
  fix r now r'
  assume "cancel_update E r now = Inr (Some r')"
  from cancel_terminate[OF this] show "same_run w r r'"
    using terminate_terminal[of E "r\<lparr>j_cancel := True\<rparr>" CANCELED None None r'] terminal_run
    by (auto simp: same_run_def)
qed

interpretation return_run: tenured w "return_update E v" for w E v
proof
  fix r now r'
  assume "return_update E v r now = Inr (Some r')"
  from return_cases[OF this] show "same_run w r r'"
    using terminate_terminal[of E r CANCELED None None r'] terminal_run by (auto simp: same_run_def)
qed

interpretation recover_run: tenured w "recover_update E" for w E
proof
  fix r now r'
  assume "recover_update E r now = Inr (Some r')"
  from recover_cases[OF this] show "same_run w r r'"
    using terminate_terminal[of E r FAILED] terminal_run by auto
qed

interpretation claim_result_run: tenured w "claim_result_update E p" for w E p
  by unfold_locales (auto simp: claim_result_update_def same_run_def split: if_splits)

section \<open>Losing a job for good\<close>

text \<open>The operations that renew the lease of \<open>w\<close> on \<open>i\<close>.\<close>

fun renews :: "string \<Rightarrow> string \<Rightarrow> store_op \<Rightarrow> bool" where
  "renews i w (OpClaim k v stop now) = (v = w)"
| "renews i w (OpChange_heartbeat x v now) = (x = i \<and> v = w)"
| "renews i w _ = False"

text \<open>What one operation can do to one record, once for all relations between the record and its successor:
  the updates of \<open>change\<close>, a claim, an acknowledgement, or nothing.\<close>

fun op_update :: "jobs_env \<Rightarrow> store_op \<Rightarrow> (string \<times> update \<times> rat option \<times> rat) option" where
  "op_update E (OpChange_heartbeat i w now) = Some (i, heartbeat_update E w, None, now)"
| "op_update E (OpChange_progress i w step dn tot now) = Some (i, progress_update E w step dn tot, None, now)"
| "op_update E (OpChange_finish i w st res err now) = Some (i, finish_update E w st res err, None, now)"
| "op_update E (OpChange_cancel i now) = Some (i, cancel_update E, None, now)"
| "op_update E (OpChange_return i w q now) = Some (i, return_update E w, Some q, now)"
| "op_update E (OpChange_recover i now) = Some (i, recover_update E, None, now)"
| "op_update E (OpChange_claim_result i p now) = Some (i, claim_result_update E p, None, now)"
| "op_update E _ = None"

lemma op_update_run:
  "op_update E op = Some (x, upd, sc, now) \<Longrightarrow>
   op_run E op s = exec (attempt_cmds (change_attempt E x upd sc now s)) s"
  by (cases op) auto

lemma change_related:
  assumes "get_job s i = Some j" "R j j" "\<And>j'. x = i \<Longrightarrow> upd j now = Inr (Some j') \<Longrightarrow> R j j'"
  shows "\<exists>j'. get_job (exec (attempt_cmds (change_attempt E x upd sc now s)) s) i = Some j' \<and> R j j'"
  using assms
  by (auto simp: change_attempt_def get_job_after_change[where x = i] split: option.split sum.split)

lemma noise_related:
  assumes "\<forall>c \<in> set cs. \<not> core_key (cmd_key c)" "get_job s x = Some j" "R j j"
  shows "\<exists>j'. get_job (exec cs s) x = Some j' \<and> R j j'"
  using core_eq_views(1)[OF core_eq_noise[OF assms(1), of s], of x] assms(2,3) by simp

lemma claim_related:
  assumes "get_job s x = Some j" "R j j" "j_status j = QUEUED \<Longrightarrow> R j (claimed_job j v now)"
  shows "\<exists>j'. get_job (exec (attempt_cmds (claim_attempt E k v stop now s)) s) x = Some j' \<and> R j j'"
proof (cases "\<exists>o' cs. claim_attempt E k v stop now s = Done o' cs \<and> cs \<noteq> []")
  case True
  then obtain o' cs where "claim_attempt E k v stop now s = Done o' cs" "cs \<noteq> []" by blast
  from claim_success[OF this] this obtain slot r i q where
    "slot \<in> set (slot_keys k)" "get_job s i = Some r" "j_status r = QUEUED"
    "attempt_cmds (claim_attempt E k v stop now s) = [ZREMc (KQueue k) i, SETc slot (VStr i),
       SETc (KJob i) (VJob (claimed_job r v now)), ZADDc KRunning i q]" by auto
  with assms show ?thesis by (auto simp: view_simps dest!: slot_keys_are_slots)
next
  case False
  have "KJob x \<notin> cmd_key ` set (attempt_cmds (claim_attempt E k v stop now s))"
    using False unfolding claim_attempt_def
    by (auto split: if_splits list.splits option.splits prod.splits)
  with assms show ?thesis by (simp add: get_job_exec_other)
qed

lemma op_run_related:
  assumes ok: "op_ok E op" and j: "get_job s i = Some j" and R: "R j j" "R j (j\<lparr>j_published := True\<rparr>)"
    and upd: "\<And>upd sc now j'. op_update E op = Some (i, upd, sc, now) \<Longrightarrow> upd j now = Inr (Some j') \<Longrightarrow> R j j'"
    and claim: "\<And>k v stop now. op = OpClaim k v stop now \<Longrightarrow> j_status j = QUEUED \<Longrightarrow> R j (claimed_job j v now)"
  shows "\<exists>j'. get_job (op_run E op s) i = Some j' \<and> R j j'"
proof (cases "op_update E op")
  case (Some u)
  then obtain x f sc now where u: "op_update E op = Some (x, f, sc, now)" by (cases u) auto
  show ?thesis
    unfolding op_update_run[OF u] by (rule change_related[where R = R, OF j R(1)]) (use upd u in blast)
next
  case None
  show ?thesis
  proof (cases op)
    case (OpRegister r now)
    with register_stays[OF j] R(1) show ?thesis by simp
  next
    case (OpClaim k v stop now)
    then have "\<exists>j'. get_job (exec (attempt_cmds (claim_attempt E k v stop now s)) s) i = Some j' \<and> R j j'"
      by (intro claim_related[where R = R, OF j R(1)] claim)
    with OpClaim show ?thesis by simp
  next
    case (OpAcknowledge x p)
    with j R show ?thesis by (auto simp: acknowledge_attempt_def view_simps split: option.split)
  next
    case (OpStage m topic now)
    with noise_related[where R = R, OF stage_noise j R(1)] show ?thesis by simp
  next
    case OpClaimBatch
    with core_eq_views(1)[OF claim_batch_core, of "get_zset s KBatchQueue" s i] j R(1) show ?thesis
      by (simp add: claim_batch_def)
  next
    case (OpSaveMetrics recs)
    have "\<forall>c \<in> set (map (\<lambda>(p, m). SETc (KPhoto p) (VMetrics m)) recs). \<not> core_key (cmd_key c)" by auto
    from noise_related[where R = R, OF this j R(1)] OpSaveMetrics show ?thesis by simp
  next
    case (OpExpire key)
    with ok have "\<forall>c \<in> set [DELc key]. \<not> core_key (cmd_key c)" by (cases key) simp_all
    from noise_related[where R = R, OF this j R(1)] OpExpire show ?thesis by simp
  next
    case (OpCount h)
    have "\<forall>c \<in> set (attempt_cmds (count_invalid h s)). \<not> core_key (cmd_key c)"
      by (simp add: count_invalid_def Let_def)
    from noise_related[where R = R, OF this j R(1)] OpCount show ?thesis by simp
  next
    case (OpMetrics cs)
    with ok have "\<forall>c \<in> set cs. \<not> core_key (cmd_key c)" by (auto simp: list_all_iff dest!: metrics_not_core)
    from noise_related[where R = R, OF this j R(1)] OpMetrics show ?thesis by simp
  qed (use None in simp_all)
qed

lemma op_run_same:
  assumes ok: "op_ok E op" and n: "\<not> renews i w op" and j: "get_job s i = Some j"
  shows "\<exists>j'. get_job (op_run E op s) i = Some j' \<and> same_run w j j'"
proof (rule op_run_related[where R = "same_run w", OF ok j])
  show "same_run w j (j\<lparr>j_published := True\<rparr>)" by (simp add: same_run_def)
  show "same_run w j (claimed_job j v now)" if "op = OpClaim k v stop now" for k v stop now
    using n that by (simp add: same_run_def claimed_job_def)
  show "same_run w j j'" if "op_update E op = Some (i, upd, sc, now)" "upd j now = Inr (Some j')" for upd sc now j'
    using that ok n
    by (cases op) (auto dest: tenured.keeps_run[OF heartbeat_tenured] tenured.keeps_run[OF finish_tenured]
        progress_run.keeps_run cancel_run.keeps_run return_run.keeps_run recover_run.keeps_run claim_result_run.keeps_run)
qed simp

lemma lost_stays_lost:
  assumes "op_ok E op" "\<not> renews i w op" "\<not> owned E s i w t"
  shows "\<not> owned E (op_run E op s) i w t"
proof
  assume "owned E (op_run E op s) i w t"
  then obtain j' where j': "get_job (op_run E op s) i = Some j'" "owns E j' w t = Inr True" by (auto simp: owned_def)
  show False
  proof (cases "get_job s i")
    case None
    from op_run_new[OF assms(1) None j'(1)] j'(2) show False
      by (auto simp: fresh_job_def dest!: owns_processing)
  next
    case (Some j)
    from op_run_same[OF assms(1,2) Some] j'(1) have "same_run w j j'" by auto
    from owns_same_run[OF this j'(2)] Some assms(3) show False by (simp add: owned_def)
  qed
qed

end
