(* ===== verification/Execution.thy ===== *)
theory Execution
  imports StoreTenure Evaluation Prelude
begin

text \<open>
  \<open>src/app/jobs/execution.py\<close>: one job in its own process.  The store is shared: before each of its
  operations the other processes may have run any others (\<open>xe_others\<close>), the connection may fail, with or
  without the operation having arrived, and the task may be cancelled at that wait (\<open>xe_link\<close>).  The
  handler is an unknown coroutine: what it returns or raises, and the reports, polls and reads of the store
  it makes before, each with what it does when the call raises.  Log records are not modelled.
\<close>

section \<open>The store as a running process sees it\<close>

datatype link = Through | Down bool | Cut bool

record xenv =
  xe_jobs :: jobs_env
  xe_now :: "nat \<Rightarrow> rat"
  xe_mono :: "nat \<Rightarrow> rat"
  xe_others :: "nat \<Rightarrow> store_op list"
  xe_link :: "nat \<Rightarrow> link"
  xe_memory :: int

text \<open>\<open>w_step\<close>, \<open>w_open\<close> and \<open>w_since\<close> are the reporter's step and its start; \<open>w_stages\<close> and \<open>w_reports\<close>
  belong to the trace.\<close>

record world =
  w_redis :: redis
  w_tick :: nat
  w_step :: "string option"
  w_open :: bool
  w_since :: rat
  w_stages :: "(string \<times> string \<times> rat) list"
  w_reports :: "report list"

datatype exn =
  Cancelled_error | Pipeline pipeline_error "(string \<times> json) list" | Store_error | Raised job_exn | Foreign

type_synonym 'a run = "(world, exn, 'a) sem"

fun run_ops :: "jobs_env \<Rightarrow> store_op list \<Rightarrow> redis \<Rightarrow> redis" where
  "run_ops E [] s = s"
| "run_ops E (op # ops) s = run_ops E ops (op_run E op s)"

definition advance :: "xenv \<Rightarrow> world \<Rightarrow> world" where
  "advance X w = w\<lparr>w_redis := run_ops (xe_jobs X) (xe_others X (w_tick w)) (w_redis w), w_tick := w_tick w + 1\<rparr>"

definition store_call :: "xenv \<Rightarrow> (rat \<Rightarrow> redis \<Rightarrow> 'o attempt) \<Rightarrow> 'o run" where
  "store_call X op w =
     (let v = advance X w; a = op (xe_now X (w_tick w)) (w_redis v);
          d = v\<lparr>w_redis := run_attempt a (w_redis v)\<rparr>
      in case xe_link X (w_tick w) of
           Through \<Rightarrow> (case a of Done x cs \<Rightarrow> (Inr x, d) | Again cs \<Rightarrow> (Inl Store_error, d))
         | Down arrived \<Rightarrow> (Inl Store_error, if arrived then d else v)
         | Cut arrived \<Rightarrow> (Inl Cancelled_error, if arrived then d else v))"

definition raising :: "(job_exn + 'a) run \<Rightarrow> 'a run" where
  "raising m = bindS m (\<lambda>r. case r of Inl e \<Rightarrow> failS (Raised e) | Inr x \<Rightarrow> retS x)"

definition read_call :: "xenv \<Rightarrow> (rat \<Rightarrow> redis \<Rightarrow> 'a) \<Rightarrow> 'a run" where
  "read_call X f = store_call X (\<lambda>now s. Done (f now s) [])"

definition cancelled :: exn where
  "cancelled = Pipeline PipelineCancelled []"

section \<open>The reporter\<close>

definition STEP_NAMES :: "(string \<times> string) list" where
  "STEP_NAMES = [(''DOWNLOADING'', ''download''), (''EMBEDDING'', ''embedding''), (''CLOCK'', ''clock_correction''),
     (''LOCATING'', ''locating''), (''CLUSTERING'', ''clustering''), (''FILTERING'', ''filtering''),
     (''FINALIZING'', ''finalizing'')]"

definition lower_char :: "char \<Rightarrow> char" where
  "lower_char c = (let n = (of_char c :: nat) in if 65 \<le> n \<and> n \<le> 90 then char_of (n + 32) else c)"

definition stage_name :: "string \<Rightarrow> string" where
  "stage_name step = (case map_of STEP_NAMES step of Some n \<Rightarrow> n | None \<Rightarrow> map lower_char step)"

definition close_step :: "xenv \<Rightarrow> string \<Rightarrow> world \<Rightarrow> world" where
  "close_step X result w =
     (case w_step w of
        None \<Rightarrow> w
      | Some step \<Rightarrow>
          if w_open w
          then w\<lparr>w_stages := w_stages w @ [(result, stage_name step, xe_mono X (w_tick w) - w_since w)], w_open := False\<rparr>
          else w)"

definition enter_step :: "xenv \<Rightarrow> string \<Rightarrow> world \<Rightarrow> world" where
  "enter_step X step w =
     (if w_step w = Some step then w
      else (close_step X ''success'' w)\<lparr>w_step := Some step, w_open := True, w_since := xe_mono X (w_tick w)\<rparr>)"

definition report_step :: "xenv \<Rightarrow> string \<Rightarrow> string \<Rightarrow> string \<Rightarrow> int \<Rightarrow> int \<Rightarrow> unit run" where
  "report_step X i owner step dn tot w =
     bindS (raising (store_call X (progress_op (xe_jobs X) i owner step dn tot)))
       (\<lambda>r. if r = None then failS cancelled else retS ()) (enter_step X step w)"

definition check_cancel_run :: "xenv \<Rightarrow> string \<Rightarrow> string \<Rightarrow> unit run" where
  "check_cancel_run X i owner =
     bindS (read_call X (\<lambda>now s. get_job s i)) (\<lambda>r. case r of
       None \<Rightarrow> failS cancelled
     | Some j \<Rightarrow>
         if j_cancel j then failS cancelled
         else bindS (read_call X (\<lambda>now s. now)) (\<lambda>now.
           case owns (xe_jobs X) j owner now of
             Inl e \<Rightarrow> failS (Raised e)
           | Inr b \<Rightarrow> if b then retS () else failS cancelled))"

section \<open>The handler\<close>

datatype handler =
  Returns json | Raises exn | Reports string int int handler "exn \<Rightarrow> handler"
| Polls handler "exn \<Rightarrow> handler" | Notes "report list" handler | Asks "redis \<Rightarrow> handler" "exn \<Rightarrow> handler"

primrec run_handler :: "handler \<Rightarrow> xenv \<Rightarrow> string \<Rightarrow> string \<Rightarrow> json run" where
  "run_handler (Returns r) X i owner = retS r"
| "run_handler (Raises e) X i owner = failS e"
| "run_handler (Reports step dn tot h f) X i owner = (\<lambda>w.
     case report_step X i owner step dn tot w of
       (Inr u, v) \<Rightarrow> run_handler h X i owner v
     | (Inl e, v) \<Rightarrow> run_handler (f e) X i owner v)"
| "run_handler (Polls h f) X i owner = (\<lambda>w.
     case check_cancel_run X i owner w of
       (Inr u, v) \<Rightarrow> run_handler h X i owner v
     | (Inl e, v) \<Rightarrow> run_handler (f e) X i owner v)"
| "run_handler (Notes rs h) X i owner = (\<lambda>w.
     run_handler h X i owner (w\<lparr>w_reports := w_reports w @ rs\<rparr>))"
| "run_handler (Asks g f) X i owner = (\<lambda>w.
     case read_call X (\<lambda>now s. s) w of
       (Inr s, v) \<Rightarrow> run_handler (g s) X i owner v
     | (Inl e, v) \<Rightarrow> run_handler (f e) X i owner v)"

section \<open>\<open>execute\<close>\<close>

definition finish_call ::
  "xenv \<Rightarrow> string \<Rightarrow> string \<Rightarrow> task_status \<Rightarrow> json option \<Rightarrow> error_body option \<Rightarrow> job option run" where
  "finish_call X i owner st result err = raising (store_call X (finish (xe_jobs X) i owner st result err))"

text \<open>What the \<open>except\<close> clauses save: a cancellation, the error of the pipeline, or an internal error that
  says nothing of its cause.\<close>

definition save_failure :: "xenv \<Rightarrow> string \<Rightarrow> string \<Rightarrow> exn \<Rightarrow> task_status run" where
  "save_failure X i owner e w =
     (case e of
        Cancelled_error \<Rightarrow> (Inl e, w)
      | Pipeline PipelineCancelled d \<Rightarrow>
          bindS (finish_call X i owner CANCELED None None) (\<lambda>_. retS CANCELED) (close_step X ''cancelled'' w)
      | Pipeline pe d \<Rightarrow>
          bindS (finish_call X i owner FAILED None (Some \<lparr>eb_code = pe_code pe, eb_detail = d\<rparr>)) (\<lambda>_. retS FAILED)
            (close_step X ''error'' w)
      | _ \<Rightarrow>
          bindS (finish_call X i owner FAILED None (Some \<lparr>eb_code = INTERNAL_ERROR, eb_detail = []\<rparr>)) (\<lambda>_. retS FAILED)
            (close_step X ''error'' w))"

definition save_result :: "xenv \<Rightarrow> string \<Rightarrow> string \<Rightarrow> json \<Rightarrow> task_status run" where
  "save_result X i owner r w =
     (case finish_call X i owner COMPLETED (Some r) None (close_step X ''success'' w) of
        (Inr j, v) \<Rightarrow> (Inr COMPLETED, v)
      | (Inl e, v) \<Rightarrow> save_failure X i owner e v)"

definition attempt_job :: "xenv \<Rightarrow> string \<Rightarrow> string \<Rightarrow> handler \<Rightarrow> json run" where
  "attempt_job X i owner h = bindS (check_cancel_run X i owner) (\<lambda>_. run_handler h X i owner)"

definition work_job :: "xenv \<Rightarrow> string \<Rightarrow> string \<Rightarrow> handler \<Rightarrow> task_status run" where
  "work_job X i owner h w =
     (let (o1, v) = attempt_job X i owner h w;
          (o2, v2) = (case o1 of Inr r \<Rightarrow> save_result X i owner r v | Inl e \<Rightarrow> save_failure X i owner e v)
      in (o2, close_step X ''cancelled'' v2))"

text \<open>The observation after the result is saved: only a cancellation escapes from it.\<close>

definition stored_status :: "task_status \<Rightarrow> job option \<Rightarrow> task_status" where
  "stored_status st stored =
     (case stored of Some j \<Rightarrow> if j_event j = None then st else j_status j | None \<Rightarrow> st)"

definition record_evaluations :: "xenv \<Rightarrow> task_status \<Rightarrow> report list \<Rightarrow> unit run" where
  "record_evaluations X st rs =
     (if rs = [] \<or> st \<noteq> COMPLETED then retS ()
      else bindS (mapS (\<lambda>r. store_call X (\<lambda>now s. Done () (publish_commands r))) (filter rp_dashboard rs)) (\<lambda>_. retS ()))"

definition observation :: "xenv \<Rightarrow> string \<Rightarrow> job_kind \<Rightarrow> task_status \<Rightarrow> unit run" where
  "observation X i k st =
     bindS (read_call X (\<lambda>now s. get_job s i)) (\<lambda>stored.
     bindS (getS w_stages) (\<lambda>stages.
     bindS (if stages = [] then retS () else store_call X (\<lambda>now s. Done () (observe_stages k stages))) (\<lambda>_.
     bindS (store_call X (\<lambda>now s. Done () (record_peak_memory k (xe_memory X)))) (\<lambda>_.
     bindS (getS w_reports) (record_evaluations X (stored_status st stored))))))"

definition observe_job :: "xenv \<Rightarrow> string \<Rightarrow> job_kind \<Rightarrow> task_status \<Rightarrow> unit run" where
  "observe_job X i k st w =
     (case observation X i k st w of
        (Inl Cancelled_error, v) \<Rightarrow> (Inl Cancelled_error, v)
      | (_, v) \<Rightarrow> (Inr (), v))"

definition execute :: "xenv \<Rightarrow> string \<Rightarrow> string \<Rightarrow> handler \<Rightarrow> unit run" where
  "execute X i owner h =
     bindS (read_call X (\<lambda>now s. get_job s i)) (\<lambda>r. case r of
       None \<Rightarrow> retS ()
     | Some j \<Rightarrow>
         bindS (read_call X (\<lambda>now s. now)) (\<lambda>now.
         case owns (xe_jobs X) j owner now of
           Inl e \<Rightarrow> failS (Raised e)
         | Inr False \<Rightarrow> retS ()
         | Inr True \<Rightarrow> bindS (work_job X i owner h) (observe_job X i (j_kind j))))"

section \<open>Photo batches\<close>

text \<open>\<open>run_batch\<close>: a batch only writes photo metrics; a failing handler leaves nothing but a log record.\<close>

definition run_batch ::
  "xenv \<Rightarrow> string \<Rightarrow> int \<Rightarrow> (ready_attachment list \<Rightarrow> exn + (int, photo_metrics_record) pydict) \<Rightarrow> unit run" where
  "run_batch X i no embed_photos =
     bindS (read_call X (\<lambda>now s. photo_batch i no s)) (\<lambda>photos. case photos of
       None \<Rightarrow> retS ()
     | Some ps \<Rightarrow>
         (case embed_photos ps of
            Inl Cancelled_error \<Rightarrow> failS Cancelled_error
          | Inl e \<Rightarrow> retS ()
          | Inr recs \<Rightarrow> (\<lambda>w.
              case store_call X (\<lambda>now s. Done () (map (\<lambda>(p, m). SETc (KPhoto p) (VMetrics m)) recs)) w of
                (Inl Cancelled_error, v) \<Rightarrow> (Inl Cancelled_error, v)
              | (_, v) \<Rightarrow> (Inr (), v))))"

end
