(* ===== verification/ExecutionTheorems.thy ===== *)
theory ExecutionTheorems
  imports Execution StoreTheorems
begin

text \<open>
  What a job's process leaves behind.  \<open>verdict\<close> is the event the outcome of the handler calls for;
  the record of an owned job ends with it.  Nothing else than a returned result that its schema accepts
  completes a job, whatever the connection and the other clients do.
\<close>

section \<open>What the waits keep\<close>

definition others_keep :: "xenv \<Rightarrow> (redis \<Rightarrow> bool) \<Rightarrow> bool" where
  "others_keep X P \<longleftrightarrow> (\<forall>n. \<forall>op \<in> set (xe_others X n). \<forall>s. P s \<longrightarrow> P (op_run (xe_jobs X) op s))"

definition others_ok :: "xenv \<Rightarrow> bool" where
  "others_ok X \<longleftrightarrow> (\<forall>n. list_all (op_ok (xe_jobs X)) (xe_others X n))"

lemma run_ops_keeps:
  "\<forall>op \<in> set ops. \<forall>s. P s \<longrightarrow> P (op_run E op s) \<Longrightarrow> P s \<Longrightarrow> P (run_ops E ops s)"
  by (induction ops arbitrary: s) simp_all

lemma advance_keeps: "others_keep X P \<Longrightarrow> P (w_redis w) \<Longrightarrow> P (w_redis (advance X w))"
  using run_ops_keeps[of "xe_others X (w_tick w)" P] by (simp add: others_keep_def advance_def)

lemma store_call_keeps:
  assumes "others_keep X P" "\<And>now s. P s \<Longrightarrow> P (run_attempt (op now s) s)"
  shows "always (\<lambda>w. P (w_redis w)) (store_call X op)"
  unfolding always_def
proof (intro allI impI)
  fix w :: world assume "P (w_redis w)"
  then have a: "P (w_redis (advance X w))" by (rule advance_keeps[OF assms(1)])
  then have "P (run_attempt (op (xe_now X (w_tick w)) (w_redis (advance X w))) (w_redis (advance X w)))"
    by (rule assms(2))
  with a show "P (w_redis (snd (store_call X op w)))"
    by (auto simp: store_call_def Let_def split: link.split attempt.split)
qed

lemma read_call_keeps: "others_keep X P \<Longrightarrow> always (\<lambda>w. P (w_redis w)) (read_call X f)"
  unfolding read_call_def by (rule store_call_keeps) (simp_all add: run_attempt_def)

lemma raising_keeps: "always P m \<Longrightarrow> always P (raising m)"
  unfolding raising_def by (intro always_intro)

lemma close_step_redis [simp]: "w_redis (close_step X res w) = w_redis w" "w_tick (close_step X res w) = w_tick w"
  by (simp_all add: close_step_def split: option.split)

lemma enter_step_redis [simp]: "w_redis (enter_step X step w) = w_redis w"
  by (simp add: enter_step_def)

lemma advance_close [simp]: "w_redis (advance X (close_step X res w)) = w_redis (advance X w)"
  by (simp add: advance_def)

text \<open>A call that goes through.\<close>

lemma store_call_through:
  "xe_link X (w_tick w) = Through \<Longrightarrow> op (xe_now X (w_tick w)) (w_redis (advance X w)) = Done x cs \<Longrightarrow>
   store_call X op w = (Inr x, (advance X w)\<lparr>w_redis := exec cs (w_redis (advance X w))\<rparr>)"
  by (simp add: store_call_def Let_def run_attempt_def)

lemma read_call_through:
  "xe_link X (w_tick w) = Through \<Longrightarrow>
   read_call X f w = (Inr (f (xe_now X (w_tick w)) (w_redis (advance X w))), advance X w)"
  by (simp add: read_call_def store_call_through)

section \<open>Ended jobs\<close>

definition ended :: "string \<Rightarrow> result_event \<Rightarrow> redis \<Rightarrow> bool" where
  "ended i e s \<longleftrightarrow> (\<exists>j. get_job s i = Some j \<and> terminal (j_status j) \<and> j_status j = ev_status e \<and> j_event j = Some e)"

lemma op_run_ended: "op_ok E op \<Longrightarrow> ended i e s \<Longrightarrow> ended i e (op_run E op s)"
proof -
  assume ok: "op_ok E op" and "ended i e s"
  then obtain j where j: "get_job s i = Some j" "terminal (j_status j)" "j_status j = ev_status e" "j_event j = Some e"
    by (auto simp: ended_def)
  from op_run_evolves[OF ok j(1)] j(2-) show ?thesis by (auto simp: ended_def evolves_def)
qed

lemma others_keep_ended: "others_ok X \<Longrightarrow> others_keep X (ended i e)"
  by (auto simp: others_keep_def others_ok_def list_all_iff intro: op_run_ended)

lemma metrics_ended:
  "list_all (metrics_key \<circ> cmd_key) cs \<Longrightarrow> ended i e s \<Longrightarrow> ended i e (exec cs s)"
  using op_run_ended[where op = "OpMetrics cs"] by simp

lemma observe_stages_keys: "list_all (metrics_key \<circ> cmd_key) (observe_stages k stages)"
  by (auto simp: observe_stages_def observe_commands_def Let_def list_all_iff)

lemma peak_memory_keys: "list_all (metrics_key \<circ> cmd_key) (record_peak_memory k m)"
  by (simp add: record_peak_memory_def)

lemma publish_keys: "list_all (metrics_key \<circ> cmd_key) (publish_commands r)"
  by (auto simp: publish_commands_def Let_def list_all_iff split: option.split)

lemma metrics_call_keeps:
  assumes "others_ok X" "list_all (metrics_key \<circ> cmd_key) cs"
  shows "always (\<lambda>w. ended i e (w_redis w)) (store_call X (\<lambda>now s. Done () cs))"
  by (rule store_call_keeps[OF others_keep_ended[OF assms(1)]]) (simp add: run_attempt_def metrics_ended[OF assms(2)])

lemma record_evaluations_keeps:
  "others_ok X \<Longrightarrow> always (\<lambda>w. ended i e (w_redis w)) (record_evaluations X st rs)"
  unfolding record_evaluations_def
  by (intro always_intro always_mapS metrics_call_keeps publish_keys)

lemma observation_keeps: "others_ok X \<Longrightarrow> always (\<lambda>w. ended i e (w_redis w)) (observation X i' k st)"
  unfolding observation_def
  by (intro always_intro read_call_keeps others_keep_ended metrics_call_keeps observe_stages_keys peak_memory_keys
      record_evaluations_keeps)

lemma observe_job_redis: "w_redis (snd (observe_job X i k st w)) = w_redis (snd (observation X i k st w))"
  by (simp add: observe_job_def split: prod.split sum.split exn.split)

lemma observe_keeps: "others_ok X \<Longrightarrow> ended i e (w_redis w) \<Longrightarrow> ended i e (w_redis (snd (observe_job X i' k st w)))"
  using observation_keeps by (simp add: observe_job_redis always_def)

text \<open>With a store that answers, the observation is silent.\<close>

definition runs :: "'a run \<Rightarrow> bool" where
  "runs m \<longleftrightarrow> (\<forall>w. \<exists>x v. m w = (Inr x, v))"

lemma runs_simps: "runs (retS x)" "runs (getS f)"
  by (simp_all add: runs_def retS_def getS_def)

lemma runs_bind: "runs m \<Longrightarrow> (\<And>x. runs (f x)) \<Longrightarrow> runs (bindS m f)"
proof -
  assume m: "runs m" and f: "\<And>x. runs (f x)"
  have "\<exists>y u. bindS m f w = (Inr y, u)" for w
  proof -
    from m obtain x v where "m w = (Inr x, v)" unfolding runs_def by blast
    moreover from f obtain y u where "f x v = (Inr y, u)" unfolding runs_def by blast
    ultimately show ?thesis by (simp add: bindS_def)
  qed
  then show ?thesis unfolding runs_def by blast
qed

lemma runs_mapS: "(\<And>x. x \<in> set xs \<Longrightarrow> runs (f x)) \<Longrightarrow> runs (mapS f xs)"
  by (induction xs) (auto intro!: runs_simps runs_bind)

lemma runs_done: "(\<And>n. xe_link X n = Through) \<Longrightarrow> runs (store_call X (\<lambda>now s. Done (f now s) (g now s)))"
  by (simp add: runs_def store_call_def Let_def)

lemma runs_if: "runs m \<Longrightarrow> runs m' \<Longrightarrow> runs (if b then m else m')"
  by simp

lemma observation_runs: "(\<And>n. xe_link X n = Through) \<Longrightarrow> runs (observation X i k st)"
  unfolding observation_def record_evaluations_def read_call_def
  by (intro runs_bind runs_simps runs_if runs_done runs_mapS)

lemma observe_through: "(\<And>n. xe_link X n = Through) \<Longrightarrow> \<exists>v. observe_job X i k st w = (Inr (), v)"
proof -
  assume "\<And>n. xe_link X n = Through"
  then have "runs (observation X i k st)" by (rule observation_runs)
  then obtain x v where "observation X i k st w = (Inr x, v)" unfolding runs_def by blast
  then show ?thesis by (simp add: observe_job_def)
qed

section \<open>Termination of an owned record\<close>

definition within_limit :: "jobs_env \<Rightarrow> result_event \<Rightarrow> result_event" where
  "within_limit E e =
     (if event_bytes E e \<le> RESULT_MAX_BYTES then e
      else e\<lparr>ev_status := FAILED, ev_result := None,
             ev_error := Some \<lparr>eb_code = RESULT_TOO_LARGE,
               eb_detail = [(''max_bytes'', JInt RESULT_MAX_BYTES), (''actual_bytes'', JInt (event_bytes E e))]\<rparr>\<rparr>)"

lemma enforce_within: "enforce_size_limit E e = Inr (within_limit E e)"
  by (simp add: enforce_size_limit_def within_limit_def check_payload_def Let_def)

definition event_for :: "job \<Rightarrow> task_status \<Rightarrow> json option \<Rightarrow> error_body option \<Rightarrow> result_event" where
  "event_for j st res err =
     \<lparr>ev_kind = j_kind j, ev_trip = j_trip j, ev_exec = j_exec j, ev_status = st, ev_result = res, ev_error = err\<rparr>"

lemma terminate_event:
  assumes "check_payload E (event_for j st res err) = Inr e"
  shows "\<exists>j'. terminate E j st res err = Inr j' \<and> j_event j' = Some (within_limit E e) \<and>
    j_status j' = ev_status (within_limit E e) \<and> j_kind j' = j_kind j"
  using assms by (simp add: terminate_def event_for_def enforce_within Let_def)

text \<open>The dump of a result has the fields the metrics read.\<close>

definition dumps_complete :: "jobs_env \<Rightarrow> bool" where
  "dumps_complete E \<longleftrightarrow> (\<forall>k x r key. result_schema E k x = Some r \<longrightarrow> (\<exists>cs. result_commands key k r = Inr cs))"

lemma metrics_total:
  assumes "j_status j = COMPLETED \<Longrightarrow> \<exists>e r. j_event j = Some e \<and> ev_result e = Some r \<and>
    (\<forall>key. \<exists>cs. result_commands key (j_kind j) r = Inr cs)"
  shows "\<exists>cs. terminal_commands j now = Inr cs"
proof (cases "j_status j = COMPLETED")
  case True
  from assms[OF this] obtain e r where e: "j_event j = Some e" "ev_result e = Some r" by blast
  from assms[OF True] e obtain cs where "result_commands (KMetrics ''operations'') (j_kind j) r = Inr cs" by auto
  with True e show ?thesis by (simp add: terminal_commands_def Let_def)
qed (simp add: terminal_commands_def Let_def)

lemma finish_ends:
  assumes j: "get_job s i = Some j" "owns E j owner now = Inr True"
    and e: "check_payload E (if j_cancel j then event_for j CANCELED None None else event_for j st res err) = Inr e"
    and t: "terminal (ev_status e)"
    and d: "ev_status e = COMPLETED \<Longrightarrow> \<exists>r. ev_result e = Some r \<and> (\<forall>key. \<exists>cs. result_commands key (j_kind j) r = Inr cs)"
  shows "\<exists>j' cs. finish E i owner st res err now s = Done (Inr (Some j')) cs \<and> ended i (within_limit E e) (exec cs s)"
proof -
  obtain j' where
    u: "(if j_cancel j then terminate E j CANCELED None None else terminate E j st res err) = Inr j'"
    and j': "j_event j' = Some (within_limit E e)" "j_status j' = ev_status (within_limit E e)" "j_kind j' = j_kind j"
    using terminate_event[of E j] e by (cases "j_cancel j") (simp_all, metis+)
  from j'(2) t have t': "terminal (j_status j')" by (simp add: within_limit_def)
  have "\<exists>ms. terminal_commands j' now = Inr ms"
    by (rule metrics_total) (use j' d in \<open>auto simp: within_limit_def split: if_splits\<close>)
  then obtain ms where ms: "(if terminal (j_status j) then Inr [] else terminal_commands j' now) = Inr ms"
    by (cases "terminal (j_status j)") auto
  obtain cs where c: "change_commands E i (j_status j) j' None now s = Inr cs"
    unfolding change_commands_def Let_def ms using t' by simp
  have "finish_update E owner st res err j now = Inr (Some j')" using j u by (simp add: finish_update_def)
  then have "finish E i owner st res err now s = Done (Inr (Some j')) cs"
    using j(1) c by (simp add: finish_def change_attempt_def)
  moreover have "ended i (within_limit E e) (exec cs s)"
    using get_job_after_change[OF c, of i] j' t' by (simp add: ended_def)
  ultimately show ?thesis by blast
qed

section \<open>The verdict\<close>

definition outcome_event :: "jobs_env \<Rightarrow> job \<Rightarrow> exn + json \<Rightarrow> result_event" where
  "outcome_event E j r =
     (if j_cancel j then event_for j CANCELED None None
      else case r of
        Inr x \<Rightarrow> event_for j COMPLETED (result_schema E (j_kind j) x) None
      | Inl (Pipeline PipelineCancelled d) \<Rightarrow> event_for j CANCELED None None
      | Inl (Pipeline pe d) \<Rightarrow> event_for j FAILED None (Some \<lparr>eb_code = pe_code pe, eb_detail = d\<rparr>)
      | Inl e \<Rightarrow> event_for j FAILED None (Some \<lparr>eb_code = INTERNAL_ERROR, eb_detail = []\<rparr>))"

definition verdict :: "jobs_env \<Rightarrow> job \<Rightarrow> exn + json \<Rightarrow> result_event" where
  "verdict E j r = within_limit E (outcome_event E j r)"

lemma check_simple [simp]:
  "check_payload E (event_for j CANCELED None None) = Inr (event_for j CANCELED None None)"
  "check_payload E (event_for j FAILED None (Some b)) = Inr (event_for j FAILED None (Some b))"
  "check_payload E (event_for j COMPLETED (Some x) None) =
     (case result_schema E (j_kind j) x of None \<Rightarrow> Inl ValidationErr | Some y \<Rightarrow> Inr (event_for j COMPLETED (Some y) None))"
  by (simp_all add: check_payload_def event_for_def split: option.split)

lemma event_for_simps [simp]:
  "ev_status (event_for j st res err) = st" "ev_result (event_for j st res err) = res"
  "ev_error (event_for j st res err) = err" "ev_kind (event_for j st res err) = j_kind j"
  by (simp_all add: event_for_def)

lemma finish_call_ends:
  assumes "xe_link X (w_tick w) = Through"
    and "get_job (w_redis (advance X w)) i = Some j" "owns (xe_jobs X) j owner (xe_now X (w_tick w)) = Inr True"
    and "check_payload (xe_jobs X) (if j_cancel j then event_for j CANCELED None None else event_for j st res err) = Inr e"
    and "terminal (ev_status e)"
    and "ev_status e = COMPLETED \<Longrightarrow> \<exists>r. ev_result e = Some r \<and> (\<forall>key. \<exists>cs. result_commands key (j_kind j) r = Inr cs)"
  shows "\<exists>j' v. finish_call X i owner st res err w = (Inr (Some j'), v) \<and> ended i (within_limit (xe_jobs X) e) (w_redis v)"
proof -
  from finish_ends[OF assms(2-6)] obtain j' cs where
    f: "finish (xe_jobs X) i owner st res err (xe_now X (w_tick w)) (w_redis (advance X w)) = Done (Inr (Some j')) cs"
    and e: "ended i (within_limit (xe_jobs X) e) (exec cs (w_redis (advance X w)))" by blast
  from store_call_through[OF assms(1), where op = "finish (xe_jobs X) i owner st res err", OF f] e show ?thesis
    by (simp add: finish_call_def raising_def bindS_def retS_def)
qed

text \<open>A result that the schema of the job's kind does not accept: saving it raises.\<close>

definition refused :: "jobs_env \<Rightarrow> job \<Rightarrow> exn + json \<Rightarrow> bool" where
  "refused E j r \<longleftrightarrow> (case r of Inr x \<Rightarrow> \<not> j_cancel j \<and> result_schema E (j_kind j) x = None | Inl e \<Rightarrow> False)"

text \<open>The verdict when \<open>j\<close> is the record at the attempt to save, and \<open>jr\<close> at the second, if the first raised.\<close>

definition final_verdict :: "jobs_env \<Rightarrow> job \<Rightarrow> job \<Rightarrow> exn + json \<Rightarrow> result_event" where
  "final_verdict E j jr r = (if refused E j r then verdict E jr (Inl (Raised ValidationErr)) else verdict E j r)"

lemma finish_saves:
  assumes link: "\<And>n. xe_link X n = Through" and dumps: "dumps_complete (xe_jobs X)"
    and own: "get_job (w_redis (advance X w)) i = Some j" "owns (xe_jobs X) j owner (xe_now X (w_tick w)) = Inr True"
    and nr: "\<not> refused (xe_jobs X) j r"
    and c: "check_payload (xe_jobs X) (if j_cancel j then event_for j CANCELED None None else event_for j st res err) =
      Inr (outcome_event (xe_jobs X) j r)"
  shows "\<exists>j' u. finish_call X i owner st res err w = (Inr (Some j'), u) \<and> ended i (verdict (xe_jobs X) j r) (w_redis u)"
  unfolding verdict_def
proof (rule finish_call_ends[OF link own c])
  show "terminal (ev_status (outcome_event (xe_jobs X) j r))"
    by (simp add: outcome_event_def split: sum.split exn.split pipeline_error.split)
  show "\<exists>rr. ev_result (outcome_event (xe_jobs X) j r) = Some rr \<and> (\<forall>key. \<exists>cs. result_commands key (j_kind j) rr = Inr cs)"
    if "ev_status (outcome_event (xe_jobs X) j r) = COMPLETED"
    using that nr dumps
    by (auto simp: outcome_event_def refused_def dumps_complete_def split: sum.splits exn.splits pipeline_error.splits if_splits)
qed

lemma save_failure_saves:
  assumes link: "\<And>n. xe_link X n = Through" and dumps: "dumps_complete (xe_jobs X)"
    and own: "get_job (w_redis (advance X w)) i = Some j" "owns (xe_jobs X) j owner (xe_now X (w_tick w)) = Inr True"
    and e: "e \<noteq> Cancelled_error"
  shows "\<exists>st u. save_failure X i owner e w = (Inr st, u) \<and> ended i (verdict (xe_jobs X) j (Inl e)) (w_redis u)"
proof -
  have F: "\<exists>j' u. finish_call X i owner st res err (close_step X o' w) = (Inr (Some j'), u) \<and>
      ended i (verdict (xe_jobs X) j (Inl e)) (w_redis u)"
    if "check_payload (xe_jobs X) (if j_cancel j then event_for j CANCELED None None else event_for j st res err) =
      Inr (outcome_event (xe_jobs X) j (Inl e))" for st res err o'
    by (rule finish_saves[OF link dumps _ _ _ that]) (use own in \<open>simp_all add: refused_def\<close>)
  show ?thesis
  proof (cases "\<exists>d. e = Pipeline PipelineCancelled d")
    case True
    then obtain d where d: "e = Pipeline PipelineCancelled d" by blast
    have "\<exists>j' u. finish_call X i owner CANCELED None None (close_step X ''cancelled'' w) = (Inr (Some j'), u) \<and>
      ended i (verdict (xe_jobs X) j (Inl e)) (w_redis u)"
      by (rule F) (simp add: d outcome_event_def)
    then show ?thesis by (auto simp: save_failure_def d bindS_def retS_def)
  next
    case False
    let ?b = "case e of Pipeline pe d \<Rightarrow> \<lparr>eb_code = pe_code pe, eb_detail = d\<rparr>
      | _ \<Rightarrow> \<lparr>eb_code = INTERNAL_ERROR, eb_detail = []\<rparr>"
    have "\<exists>j' u. finish_call X i owner FAILED None (Some ?b) (close_step X ''error'' w) = (Inr (Some j'), u) \<and>
      ended i (verdict (xe_jobs X) j (Inl e)) (w_redis u)"
      by (rule F) (use False e in \<open>auto simp: outcome_event_def split: exn.split pipeline_error.split\<close>)
    then show ?thesis
      using False e
      by (cases e) (auto simp: save_failure_def bindS_def retS_def split: pipeline_error.split)
  qed
qed

text \<open>Saving a refused result raises, and nothing is written.\<close>

lemma refused_finish:
  assumes link: "\<And>n. xe_link X n = Through"
    and own: "get_job (w_redis (advance X w)) i = Some j" "owns (xe_jobs X) j owner (xe_now X (w_tick w)) = Inr True"
    and r: "refused (xe_jobs X) j (Inr x)"
  shows "finish_call X i owner COMPLETED (Some x) None w = (Inl (Raised ValidationErr), advance X w)"
proof -
  have "finish_update (xe_jobs X) owner COMPLETED (Some x) None j (xe_now X (w_tick w)) = Inl ValidationErr"
    using own(2) r by (simp add: finish_update_def terminate_def check_payload_def refused_def)
  then have "finish (xe_jobs X) i owner COMPLETED (Some x) None (xe_now X (w_tick w)) (w_redis (advance X w)) =
      Done (Inl ValidationErr) []"
    using own(1) by (simp add: finish_def change_attempt_def)
  from store_call_through[OF link, where op = "finish (xe_jobs X) i owner COMPLETED (Some x) None", OF this]
  show ?thesis by (simp add: finish_call_def raising_def bindS_def failS_def)
qed

lemma advance_twice_close: "w_redis (advance X (advance X (close_step X o' w))) = w_redis (advance X (advance X w))"
  by (simp add: advance_def)

lemma advance_ticks: "w_tick (advance X w) = w_tick w + 1"
  by (simp add: advance_def)

lemma work_job_saves:
  assumes link: "\<And>n. xe_link X n = Through" and dumps: "dumps_complete (xe_jobs X)"
    and att: "attempt_job X i owner h w = (r, v)" "r \<noteq> Inl Cancelled_error"
    and own: "get_job (w_redis (advance X v)) i = Some j" "owns (xe_jobs X) j owner (xe_now X (w_tick v)) = Inr True"
    and again: "refused (xe_jobs X) j r \<Longrightarrow> get_job (w_redis (advance X (advance X v))) i = Some jr \<and>
      owns (xe_jobs X) jr owner (xe_now X (w_tick v + 1)) = Inr True"
  shows "\<exists>st u. work_job X i owner h w = (Inr st, u) \<and> ended i (final_verdict (xe_jobs X) j jr r) (w_redis u)"
proof (cases r)
  case (Inr x)
  let ?v = "close_step X ''success'' v"
  have own': "get_job (w_redis (advance X ?v)) i = Some j" "owns (xe_jobs X) j owner (xe_now X (w_tick ?v)) = Inr True"
    using own by simp_all
  show ?thesis
  proof (cases "refused (xe_jobs X) j r")
    case True
    have f: "finish_call X i owner COMPLETED (Some x) None ?v = (Inl (Raised ValidationErr), advance X ?v)"
      by (rule refused_finish[OF link own']) (use True Inr in simp)
    have "\<exists>st u. save_failure X i owner (Raised ValidationErr) (advance X ?v) = (Inr st, u) \<and>
        ended i (verdict (xe_jobs X) jr (Inl (Raised ValidationErr))) (w_redis u)"
      by (rule save_failure_saves[OF link dumps])
        (use again[OF True] in \<open>simp_all add: advance_twice_close advance_ticks\<close>)
    with att(1) Inr f True show ?thesis by (auto simp: work_job_def save_result_def final_verdict_def)
  next
    case False
    have "\<exists>j' u. finish_call X i owner COMPLETED (Some x) None ?v = (Inr (Some j'), u) \<and> ended i (verdict (xe_jobs X) j r) (w_redis u)"
      by (rule finish_saves[OF link dumps own' False])
        (use Inr False in \<open>cases "j_cancel j"; auto simp: outcome_event_def refused_def split: option.split\<close>)
    with att(1) Inr False show ?thesis by (auto simp: work_job_def save_result_def final_verdict_def)
  qed
next
  case (Inl e)
  from save_failure_saves[OF link dumps own, of e] att Inl show ?thesis
    by (auto simp: work_job_def final_verdict_def refused_def)
qed

lemma execute_ends:
  assumes link: "\<And>n. xe_link X n = Through" and ok: "others_ok X"
    and start: "get_job (w_redis (advance X w)) i = Some j0"
      "owns (xe_jobs X) j0 owner (xe_now X (w_tick w + 1)) = Inr True"
    and u: "work_job X i owner h (advance X (advance X w)) = (Inr st, u)" "ended i e (w_redis u)"
  shows "\<exists>u'. execute X i owner h w = (Inr (), u') \<and> ended i e (w_redis u')"
proof -
  have "execute X i owner h w = observe_job X i (j_kind j0) st u"
    using u(1) start by (simp add: execute_def bindS_def read_call_through[OF link] advance_def[of X w])
  moreover have "ended i e (w_redis (snd (observe_job X i (j_kind j0) st u)))" by (rule observe_keeps[OF ok u(2)])
  ultimately show ?thesis
    using observe_through[where X = X and i = i and k = "j_kind j0" and st = st and w = u, OF link] by auto
qed

text \<open>C9. A job's own process ends the job with what happened.  Suppose the store answers, the dump of a result that a
  schema accepts has the fields the metrics read, and the process owns the job when it starts and when it saves.  The
  handler does what it likes: whatever it returns or raises, whatever it reports, whatever the other processes do in
  between.  Then the record ends with the event that outcome calls for: canceled when a cancellation was requested by
  then or the handler stopped for one; completed with the dump of its result; failed with the code and the detail
  of a pipeline error; and failed with an internal error that tells nothing of the cause for anything
  else, a result that the schema of its kind refuses included: then saving it raises, and the failure is saved in a
  second attempt, at which the process owns the job too.  An event over the size limit is replaced by
  RESULT_TOO_LARGE.  Neither the observation that follows nor any later operation of the others changes it, and the
  process ends without an error.\<close>

theorem execute_saves_what_happened:
  assumes link: "\<And>n. xe_link X n = Through" and ok: "others_ok X" and dumps: "dumps_complete (xe_jobs X)"
    and start: "get_job (w_redis (advance X w)) i = Some j0"
      "owns (xe_jobs X) j0 owner (xe_now X (w_tick w + 1)) = Inr True"
    and att: "attempt_job X i owner h (advance X (advance X w)) = (r, v)" "r \<noteq> Inl Cancelled_error"
    and own: "get_job (w_redis (advance X v)) i = Some j" "owns (xe_jobs X) j owner (xe_now X (w_tick v)) = Inr True"
    and again: "refused (xe_jobs X) j r \<Longrightarrow> get_job (w_redis (advance X (advance X v))) i = Some jr \<and>
      owns (xe_jobs X) jr owner (xe_now X (w_tick v + 1)) = Inr True"
  shows "\<exists>u j'. execute X i owner h w = (Inr (), u) \<and> get_job (w_redis u) i = Some j' \<and>
    j_event j' = Some (final_verdict (xe_jobs X) j jr r) \<and> j_status j' = ev_status (final_verdict (xe_jobs X) j jr r) \<and>
    terminal (j_status j')"
proof -
  from work_job_saves[where X = X and h = h, OF link dumps att own again] obtain st u where
    "work_job X i owner h (advance X (advance X w)) = (Inr st, u)" "ended i (final_verdict (xe_jobs X) j jr r) (w_redis u)"
    by blast
  from execute_ends[where X = X and h = h, OF link ok start this] show ?thesis by (auto simp: ended_def)
qed

section \<open>Nothing else completes a job\<close>

fun completes :: "string \<Rightarrow> store_op \<Rightarrow> bool" where
  "completes i (OpChange_finish x v st res err now) = (x = i \<and> st = COMPLETED)"
| "completes i _ = False"

lemma terminate_status: "terminate E j st res err = Inr j' \<Longrightarrow> j_status j' = COMPLETED \<Longrightarrow> st = COMPLETED"
  by (auto simp: terminate_def enforce_within check_payload_def within_limit_def Let_def
      split: if_splits option.splits)

lemma updates_complete:
  "finish_update E v st res err j now = Inr (Some j') \<Longrightarrow> j_status j' = COMPLETED \<Longrightarrow> st = COMPLETED"
  "cancel_update E j now = Inr (Some j') \<Longrightarrow> j_status j' \<noteq> COMPLETED"
  "return_update E v j now = Inr (Some j') \<Longrightarrow> j_status j' \<noteq> COMPLETED"
  "recover_update E j now = Inr (Some j') \<Longrightarrow> j_status j' \<noteq> COMPLETED"
  by (auto dest!: finish_update_cases cancel_terminate return_cases recover_cases dest: terminate_status)

lemma update_completes:
  assumes "op_update E op = Some (i, upd, sc, now)" "upd j now = Inr (Some j')" "\<not> completes i op"
    "j_status j' = COMPLETED"
  shows "j_status j = COMPLETED"
proof (cases op)
  case (OpChange_finish x v st res err t)
  with assms updates_complete(1) show ?thesis by fastforce
qed (use assms updates_complete(2-4) in \<open>fastforce simp: heartbeat_update_def progress_update_def claim_result_update_def
    split: if_splits\<close>)+

text \<open>\<open>backed E i A s\<close>: if the job is completed, then with the dump of one of the results \<open>A\<close>.\<close>

definition justified :: "jobs_env \<Rightarrow> json set \<Rightarrow> job \<Rightarrow> bool" where
  "justified E A j \<longleftrightarrow> (j_status j = COMPLETED \<longrightarrow>
     (\<exists>x \<in> A. \<exists>y e. result_schema E (j_kind j) x = Some y \<and> j_event j = Some e \<and> ev_result e = Some y))"

definition backed :: "jobs_env \<Rightarrow> string \<Rightarrow> json set \<Rightarrow> redis \<Rightarrow> bool" where
  "backed E i A s \<longleftrightarrow> (\<exists>j. get_job s i = Some j \<and> justified E A j)"

lemma justified_mono: "justified E A j \<Longrightarrow> A \<subseteq> B \<Longrightarrow> justified E B j"
  by (auto simp: justified_def)

lemma backed_mono: "backed E i A s \<Longrightarrow> A \<subseteq> B \<Longrightarrow> backed E i B s"
  using justified_mono by (fastforce simp: backed_def)

lemma op_run_backed:
  assumes ok: "op_ok E op" "\<not> completes i op" and b: "backed E i A s"
  shows "backed E i A (op_run E op s)"
proof -
  from b obtain j where j: "get_job s i = Some j" "justified E A j" by (auto simp: backed_def)
  have "\<exists>j'. get_job (op_run E op s) i = Some j' \<and> (j_status j' = COMPLETED \<longrightarrow> j_status j = COMPLETED)"
    by (rule op_run_related[where R = "\<lambda>j j'. j_status j' = COMPLETED \<longrightarrow> j_status j = COMPLETED", OF ok(1) j(1)])
      (auto simp: claimed_job_def dest: update_completes[OF _ _ ok(2)])
  moreover obtain j' where "get_job (op_run E op s) i = Some j'" "evolves j j'"
    using op_run_evolves[OF ok(1) j(1)] by blast
  ultimately show ?thesis using j(2) by (auto simp: backed_def justified_def evolves_def)
qed

lemma terminate_justified:
  assumes "terminate E j COMPLETED (Some x) None = Inr j'" "x \<in> A"
  shows "justified E A j'"
  using assms by (auto simp: justified_def terminate_def enforce_within check_payload_def within_limit_def Let_def
      split: if_splits option.splits)

lemma finish_backed:
  assumes b: "backed E i A s" and x: "x \<in> A"
  shows "backed E i A (op_run E (OpChange_finish i v COMPLETED (Some x) None now) s)"
proof -
  from b obtain j where j: "get_job s i = Some j" "justified E A j" by (auto simp: backed_def)
  have "\<exists>j'. get_job (op_run E (OpChange_finish i v COMPLETED (Some x) None now) s) i = Some j' \<and>
      (justified E A j \<longrightarrow> justified E A j')"
  proof (rule op_run_related[where R = "\<lambda>j j'. justified E A j \<longrightarrow> justified E A j'", OF _ j(1)])
    fix upd sc t j'
    assume "op_update E (OpChange_finish i v COMPLETED (Some x) None now) = Some (i, upd, sc, t)" "upd j t = Inr (Some j')"
    then have "terminate E j CANCELED None None = Inr j' \<or> terminate E j COMPLETED (Some x) None = Inr j'"
      by (auto simp: finish_update_def split: if_splits)
    then show "justified E A j \<longrightarrow> justified E A j'"
    proof
      assume "terminate E j CANCELED None None = Inr j'"
      from terminate_status[OF this] show ?thesis by (auto simp: justified_def)
    qed (simp add: terminate_justified[OF _ x])
  qed (simp_all add: justified_def)
  with j(2) show ?thesis by (auto simp: backed_def)
qed

text \<open>Its own calls and those of the others.\<close>

definition no_rival :: "xenv \<Rightarrow> string \<Rightarrow> bool" where
  "no_rival X i \<longleftrightarrow> (\<forall>n. list_all (\<lambda>op. op_ok (xe_jobs X) op \<and> \<not> completes i op) (xe_others X n))"

lemma others_keep_backed: "no_rival X i \<Longrightarrow> others_keep X (backed (xe_jobs X) i A)"
  by (auto simp: others_keep_def no_rival_def list_all_iff intro!: op_run_backed)

abbreviation backs :: "xenv \<Rightarrow> string \<Rightarrow> json set \<Rightarrow> world \<Rightarrow> bool" where
  "backs X i A \<equiv> \<lambda>w. backed (xe_jobs X) i A (w_redis w)"

lemma op_call_backed:
  assumes "no_rival X i" "\<And>now. op_ok (xe_jobs X) (f now) \<and> \<not> completes i (f now)"
    and "\<And>now s. run_attempt (op now s) s = op_run (xe_jobs X) (f now) s"
  shows "always (backs X i A) (store_call X op)"
  by (rule store_call_keeps[OF others_keep_backed[OF assms(1)]]) (simp add: assms(2,3) op_run_backed)

lemma report_backed:
  assumes "no_rival X i"
  shows "always (backs X i A) (report_step X i owner step dn tot)"
proof -
  have "always (backs X i A) (store_call X (progress_op (xe_jobs X) i owner step dn tot))"
    by (rule op_call_backed[OF assms, where f = "OpChange_progress i owner step dn tot"])
      (simp_all add: run_attempt_def progress_op_def)
  then have "always (backs X i A) (bindS (raising (store_call X (progress_op (xe_jobs X) i owner step dn tot)))
       (\<lambda>r. if r = None then failS cancelled else retS ()))"
    by (intro always_intro raising_keeps)
  then show ?thesis by (simp add: always_def report_step_def)
qed

lemma check_backed: "no_rival X i \<Longrightarrow> always (backs X i A) (check_cancel_run X i owner)"
  unfolding check_cancel_run_def
  by (intro always_intro read_call_keeps[OF others_keep_backed])

lemma handler_backed: "no_rival X i \<Longrightarrow> always (backs X i A) (run_handler h X i owner)"
proof (induction h)
  case (Reports step dn tot h f)
  show ?case
    unfolding always_def
  proof (intro allI impI)
    fix w assume w: "backs X i A w"
    obtain r v where r: "report_step X i owner step dn tot w = (r, v)" by (cases "report_step X i owner step dn tot w")
    from alwaysD[OF report_backed[OF Reports.prems] r w] have v: "backs X i A v" .
    have "always (backs X i A) (run_handler h X i owner)" "always (backs X i A) (run_handler (f e) X i owner)" for e
      using Reports by auto
    with v show "backs X i A (snd (run_handler (Reports step dn tot h f) X i owner w))"
      by (simp add: r always_def split: sum.split)
  qed
next
  case (Polls h f)
  show ?case
    unfolding always_def
  proof (intro allI impI)
    fix w assume w: "backs X i A w"
    obtain r v where r: "check_cancel_run X i owner w = (r, v)" by (cases "check_cancel_run X i owner w")
    from alwaysD[OF check_backed[OF Polls.prems] r w] have v: "backs X i A v" .
    have "always (backs X i A) (run_handler h X i owner)" "always (backs X i A) (run_handler (f e) X i owner)" for e
      using Polls by auto
    with v show "backs X i A (snd (run_handler (Polls h f) X i owner w))"
      by (simp add: r always_def split: sum.split)
  qed
next
  case (Asks g f)
  show ?case
    unfolding always_def
  proof (intro allI impI)
    fix w assume w: "backs X i A w"
    obtain r v where r: "read_call X (\<lambda>now s. s) w = (r, v)" by (cases "read_call X (\<lambda>now s. s) w")
    from alwaysD[OF read_call_keeps[OF others_keep_backed[OF Asks.prems]] r w] have v: "backs X i A v" .
    have "always (backs X i A) (run_handler (g s) X i owner)" "always (backs X i A) (run_handler (f e) X i owner)" for s e
      using Asks by auto
    with v show "backs X i A (snd (run_handler (Asks g f) X i owner w))"
      by (simp add: r always_def split: sum.split)
  qed
qed (simp_all add: always_def retS_def failS_def)

lemma finish_call_backed:
  assumes "no_rival X i" "terminal st" "st \<noteq> COMPLETED"
  shows "always (backs X i A) (finish_call X i owner st res err)"
  unfolding finish_call_def
  by (intro raising_keeps op_call_backed[OF assms(1), where f = "OpChange_finish i owner st res err"])
    (use assms in \<open>simp_all add: run_attempt_def finish_def\<close>)

lemma complete_call_backed:
  assumes "no_rival X i" "x \<in> A"
  shows "always (backs X i A) (finish_call X i owner COMPLETED (Some x) None)"
  unfolding finish_call_def
  by (intro raising_keeps store_call_keeps[OF others_keep_backed[OF assms(1)]])
    (use finish_backed[OF _ assms(2)] in \<open>simp add: run_attempt_def finish_def\<close>)

lemma save_failure_backed:
  assumes "no_rival X i" "backs X i A w"
  shows "backs X i A (snd (save_failure X i owner e w))"
proof -
  have f: "backs X i A (snd (bindS (finish_call X i owner st res err) (\<lambda>_. retS st') (close_step X o' w)))"
    if "terminal st" "st \<noteq> COMPLETED" for st res err o' st'
  proof -
    have "always (backs X i A) (bindS (finish_call X i owner st res err) (\<lambda>_. retS st'))"
      by (intro always_intro finish_call_backed[OF assms(1) that])
    with assms(2) show ?thesis by (simp add: always_def)
  qed
  show ?thesis
    using f[of CANCELED None None CANCELED "''cancelled''"] f[of FAILED None _ FAILED "''error''"] assms(2)
    by (cases e) (auto simp: save_failure_def split: pipeline_error.split)
qed

lemma save_result_backed:
  assumes "no_rival X i" "x \<in> A" "backs X i A w"
  shows "backs X i A (snd (save_result X i owner x w))"
proof -
  obtain r v where r: "finish_call X i owner COMPLETED (Some x) None (close_step X ''success'' w) = (r, v)"
    by (cases "finish_call X i owner COMPLETED (Some x) None (close_step X ''success'' w)")
  have "backs X i A v"
    by (rule alwaysD[OF complete_call_backed[OF assms(1,2)] r]) (simp add: assms(3))
  then show ?thesis using save_failure_backed[OF assms(1)] by (simp add: save_result_def r split: sum.split)
qed

lemma observation_backed: "no_rival X i \<Longrightarrow> always (backs X i A) (observation X i k st)"
proof -
  assume n: "no_rival X i"
  have m: "always (backs X i A) (store_call X (\<lambda>now s. Done () cs))" if "list_all (metrics_key \<circ> cmd_key) cs" for cs
    by (rule op_call_backed[OF n, where f = "\<lambda>_. OpMetrics cs"]) (use that in \<open>simp_all add: run_attempt_def\<close>)
  show ?thesis
    unfolding observation_def record_evaluations_def
    by (intro always_intro always_mapS read_call_keeps[OF others_keep_backed[OF n]] m observe_stages_keys
        peak_memory_keys publish_keys)
qed

definition returned :: "exn + json \<Rightarrow> json set" where
  "returned r = (case r of Inr x \<Rightarrow> {x} | Inl e \<Rightarrow> {})"

lemma work_job_backed:
  assumes n: "no_rival X i" and w: "backs X i {} w" and att: "attempt_job X i owner h w = (r, v)"
  shows "backs X i (returned r) (snd (work_job X i owner h w))"
proof -
  have "always (backs X i {}) (attempt_job X i owner h)"
    unfolding attempt_job_def by (intro always_intro check_backed[OF n] handler_backed[OF n])
  from alwaysD[OF this att w] have v: "backs X i (returned r) v" by (rule backed_mono) simp
  show ?thesis
  proof (cases r)
    case (Inr x)
    have "backs X i (returned r) (snd (save_result X i owner x v))"
      by (rule save_result_backed[OF n _ v]) (simp add: Inr returned_def)
    then show ?thesis using att Inr by (simp add: work_job_def case_prod_beta)
  next
    case (Inl e)
    from save_failure_backed[OF n v, of owner e] show ?thesis
      using att Inl by (simp add: work_job_def case_prod_beta)
  qed
qed

lemma execute_backed:
  assumes n: "no_rival X i"
    and start: "get_job (w_redis w) i = Some j0" "j_status j0 \<noteq> COMPLETED"
    and run: "execute X i owner h w = (r, u)"
  shows "backs X i (returned (fst (attempt_job X i owner h (advance X (advance X w))))) u"
proof -
  have w: "backs X i {} w" using start by (simp add: backed_def justified_def)
  note k = advance_keeps[OF others_keep_backed[OF n]]
  obtain q v where att: "attempt_job X i owner h (advance X (advance X w)) = (q, v)"
    by (cases "attempt_job X i owner h (advance X (advance X w))")
  have wk: "backs X i (returned q) (snd (work_job X i owner h (advance X (advance X w))))"
    by (rule work_job_backed[OF n k[OF k[OF w]] att])
  have rd: "read_call X f w' = (o', w'') \<Longrightarrow> w'' = advance X w'" for f :: "rat \<Rightarrow> redis \<Rightarrow> 'x" and w' o' w''
    by (auto simp: read_call_def store_call_def Let_def run_attempt_def split: link.splits)
  have "backs X i (returned q) u"
  proof -
    have e: "backs X i (returned q) (advance X w)" "backs X i (returned q) (advance X (advance X w))"
      using k[OF w] k[OF k[OF w]] by (auto elim: backed_mono)
    have ob: "backs X i (returned q) u''" if "observe_job X i kk st u' = (o', u'')" "backs X i (returned q) u'" for kk st u' o' u''
      using observation_backed[OF n, of "returned q" kk st] that observe_job_redis[of X i kk st u'] by (simp add: always_def)
    show ?thesis
      using run e wk
      by (auto simp: execute_def bindS_def retS_def failS_def dest!: rd dest: ob split: prod.splits sum.splits option.splits bool.splits)
  qed
  with att show ?thesis by simp
qed

text \<open>C10. A job is never completed by accident.  Whatever the connection does (calls that are lost before
  or after they arrived, the task cancelled at any wait), whatever the other clients of the store do short
  of finishing this job themselves, and whatever the handler does: when the record of a job that was not
  completed is completed after its process has run, the handler returned a result, the schema of the job's
  kind accepted it, and the event holds the dump of just this result.\<close>

theorem completed_only_with_its_result:
  assumes n: "no_rival X i"
    and start: "get_job (w_redis w) i = Some j0" "j_status j0 \<noteq> COMPLETED"
    and run: "execute X i owner h w = (r, u)"
    and fin: "get_job (w_redis u) i = Some j" "j_status j = COMPLETED"
  shows "\<exists>x v e. attempt_job X i owner h (advance X (advance X w)) = (Inr x, v) \<and>
    j_event j = Some e \<and> result_schema (xe_jobs X) (j_kind j) x = ev_result e \<and> ev_result e \<noteq> None"
proof -
  obtain q v where att: "attempt_job X i owner h (advance X (advance X w)) = (q, v)"
    by (cases "attempt_job X i owner h (advance X (advance X w))")
  with execute_backed[OF n start run] fin show ?thesis
    by (cases q) (auto simp: backed_def justified_def returned_def)
qed

section \<open>A concrete run\<close>

text \<open>The worker of the example runs a handler that polls once and returns a result with no photos.\<close>

definition ex_result :: json where
  "ex_result = JObj [(''places'', JArr []), (''unclassified'', JArr []), (''blocks'', JArr [])]"

definition ex_world :: world where
  "ex_world = \<lparr>w_redis = ex_db2, w_tick = 0, w_step = None, w_open = False, w_since = 0, w_stages = [], w_reports = []\<rparr>"

definition ex_xenv :: xenv where
  "ex_xenv = \<lparr>xe_jobs = ex_env\<lparr>result_schema := (\<lambda>k r. if r = ex_result then Some r else None)\<rparr>, xe_now = (\<lambda>n. 3),
     xe_mono = (\<lambda>n. 3), xe_others = (\<lambda>n. []), xe_link = (\<lambda>n. Through), xe_memory = 100\<rparr>"

definition ex_handler :: handler where
  "ex_handler = Polls (Returns ex_result) Raises"

lemma ex_xenv_sel [simp]:
  "xe_link ex_xenv n = Through" "xe_now ex_xenv n = 3" "xe_others ex_xenv n = []" "w_redis ex_world = ex_db2"
  "result_schema (xe_jobs ex_xenv) k r = (if r = ex_result then Some r else None)"
  "event_bytes (xe_jobs ex_xenv) e = 100"
  by (simp_all add: ex_xenv_def ex_world_def)

lemma ex_advance [simp]: "advance ex_xenv w = w\<lparr>w_tick := w_tick w + 1\<rparr>"
  by (simp add: advance_def)

lemma ex_owns [simp]: "owns (xe_jobs ex_xenv) ex_running ''w'' 3 = Inr True"
  by (simp add: owns_def ex_running_def claimed_job_def ex_job_def ex_xenv_def ex_env_def ex_cfg_def job_timeout_def)

lemma ex_dumps: "dumps_complete (xe_jobs ex_xenv)"
  by (simp add: dumps_complete_def ex_result_def result_commands_def)

lemma ex_poll: "w_redis w = ex_db2 \<Longrightarrow> check_cancel_run ex_xenv ex_id ''w'' w = (Inr (), w\<lparr>w_tick := w_tick w + 2\<rparr>)"
  by (simp add: check_cancel_run_def bindS_def read_call_through retS_def ex_db2_views)
    (simp add: ex_running_def claimed_job_def ex_job_def)

lemma ex_attempt: "w_redis w = ex_db2 \<Longrightarrow>
   attempt_job ex_xenv ex_id ''w'' ex_handler w = (Inr ex_result, w\<lparr>w_tick := w_tick w + 4\<rparr>)"
  by (simp add: attempt_job_def bindS_def ex_handler_def ex_poll retS_def)

lemma ex_work: "\<exists>st u. work_job ex_xenv ex_id ''w'' ex_handler (advance ex_xenv (advance ex_xenv ex_world)) = (Inr st, u) \<and>
   ended ex_id (verdict (xe_jobs ex_xenv) ex_running (Inr ex_result)) (w_redis u)"
proof -
  have "\<not> refused (xe_jobs ex_xenv) ex_running (Inr ex_result)" by (simp add: refused_def)
  with work_job_saves[where j = ex_running and jr = ex_running, OF _ ex_dumps ex_attempt] show ?thesis
    by (simp add: ex_db2_views final_verdict_def)
qed

lemma ex_verdict: "ev_status (verdict (xe_jobs ex_xenv) ex_running (Inr ex_result)) = COMPLETED"
  by (simp add: verdict_def within_limit_def outcome_event_def RESULT_MAX_BYTES_def)
    (simp add: ex_running_def claimed_job_def ex_job_def)

text \<open>A handler whose result the schema refuses.\<close>

definition ex_bad_handler :: handler where
  "ex_bad_handler = Polls (Returns JNull) Raises"

lemma ex_bad_attempt: "w_redis w = ex_db2 \<Longrightarrow>
   attempt_job ex_xenv ex_id ''w'' ex_bad_handler w = (Inr JNull, w\<lparr>w_tick := w_tick w + 4\<rparr>)"
  by (simp add: attempt_job_def bindS_def ex_bad_handler_def ex_poll retS_def)

lemma ex_bad_verdict:
  "final_verdict (xe_jobs ex_xenv) ex_running ex_running (Inr JNull) =
     event_for ex_running FAILED None (Some \<lparr>eb_code = INTERNAL_ERROR, eb_detail = []\<rparr>)"
proof -
  have "\<not> j_cancel ex_running" by (simp add: ex_running_def claimed_job_def ex_job_def)
  then show ?thesis
    by (simp add: final_verdict_def refused_def ex_result_def verdict_def within_limit_def outcome_event_def RESULT_MAX_BYTES_def)
qed

lemma execute_saves_what_happened_witness:
  "(\<exists>u j'. execute ex_xenv ex_id ''w'' ex_handler ex_world = (Inr (), u) \<and> get_job (w_redis u) ex_id = Some j' \<and>
     j_status j' = COMPLETED) \<and>
   (\<exists>u j'. execute ex_xenv ex_id ''w'' ex_bad_handler ex_world = (Inr (), u) \<and> get_job (w_redis u) ex_id = Some j' \<and>
     j_status j' = FAILED)"
proof
  have ok: "others_ok ex_xenv" by (simp add: others_ok_def)
  have "\<not> refused (xe_jobs ex_xenv) ex_running (Inr ex_result)" by (simp add: refused_def)
  with execute_saves_what_happened[where X = ex_xenv and w = ex_world and i = ex_id and j0 = ex_running
      and j = ex_running and jr = ex_running, OF _ ok ex_dumps _ _ ex_attempt]
  show "\<exists>u j'. execute ex_xenv ex_id ''w'' ex_handler ex_world = (Inr (), u) \<and> get_job (w_redis u) ex_id = Some j' \<and>
     j_status j' = COMPLETED"
    using ex_verdict by (fastforce simp: ex_db2_views final_verdict_def)
  from execute_saves_what_happened[where X = ex_xenv and w = ex_world and i = ex_id and j0 = ex_running
      and j = ex_running and jr = ex_running, OF _ ok ex_dumps _ _ ex_bad_attempt]
  show "\<exists>u j'. execute ex_xenv ex_id ''w'' ex_bad_handler ex_world = (Inr (), u) \<and> get_job (w_redis u) ex_id = Some j' \<and>
     j_status j' = FAILED"
    by (fastforce simp: ex_db2_views ex_bad_verdict)
qed

lemma completed_only_with_its_result_witness:
  "\<exists>u j e. execute ex_xenv ex_id ''w'' ex_handler ex_world = (Inr (), u) \<and> get_job (w_redis u) ex_id = Some j \<and>
     j_event j = Some e \<and> ev_result e = Some ex_result"
proof -
  obtain st u where "work_job ex_xenv ex_id ''w'' ex_handler (advance ex_xenv (advance ex_xenv ex_world)) = (Inr st, u)"
    "ended ex_id (verdict (xe_jobs ex_xenv) ex_running (Inr ex_result)) (w_redis u)"
    using ex_work by blast
  from execute_ends[OF _ _ _ _ this, of ex_running] obtain u' where
    x: "execute ex_xenv ex_id ''w'' ex_handler ex_world = (Inr (), u')"
    and e: "ended ex_id (verdict (xe_jobs ex_xenv) ex_running (Inr ex_result)) (w_redis u')"
    by (auto simp: ex_db2_views others_ok_def)
  from e obtain j where j: "get_job (w_redis u') ex_id = Some j" "j_status j = COMPLETED"
    using ex_verdict by (auto simp: ended_def)
  have "no_rival ex_xenv ex_id" by (simp add: no_rival_def)
  moreover have "get_job (w_redis ex_world) ex_id = Some ex_running" by (simp add: ex_db2_views)
  moreover have "j_status ex_running \<noteq> COMPLETED" by (simp add: ex_running_def claimed_job_def)
  ultimately obtain y v ev where "attempt_job ex_xenv ex_id ''w'' ex_handler (advance ex_xenv (advance ex_xenv ex_world)) = (Inr y, v)"
    "j_event j = Some ev" "result_schema (xe_jobs ex_xenv) (j_kind j) y = ev_result ev" "ev_result ev \<noteq> None"
    using completed_only_with_its_result[OF _ _ _ x j] by blast
  with x j show ?thesis by (auto simp: ex_attempt split: if_splits)
qed

end
