(* ===== verification/Runner.thy ===== *)
theory Runner
  imports Execution
begin

text \<open>
  \<open>src/app/jobs/runner.py\<close>: the loop that claims jobs and runs each in a child process, and the pool of
  children started in advance.  A child is a number.  What the system does is given per tick of the same
  clock the store calls use (\<open>renv\<close>): whether a child ends within a wait or was seen to have ended,
  whether a signal finds no process, whether a start succeeds and a line is taken.  A tick whose link is
  \<open>Cut\<close> cancels the task at that wait.  \<open>Store_error\<close> stands for \<open>RedisError\<close> and \<open>OSError\<close>.  A start
  that is cancelled leaves no process: \<open>asyncio\<close> closes its transport.  Writing one line to a pipe does
  not wait.
\<close>

section \<open>Children and the system\<close>

datatype handed = Job_line string string | Batch_line string int int

record renv =
  re_x :: xenv
  re_wait :: "nat \<Rightarrow> nat \<Rightarrow> int option"
  re_seen :: "nat \<Rightarrow> nat \<Rightarrow> int option"
  re_gone :: "nat \<Rightarrow> nat \<Rightarrow> bool"
  re_starts :: "nat \<Rightarrow> bool"
  re_takes :: "nat \<Rightarrow> nat \<Rightarrow> bool"
  re_stop :: "nat \<Rightarrow> bool"
  re_uuid :: "nat \<Rightarrow> string"
  re_standby :: nat
  re_embed :: bool

text \<open>\<open>r_codes\<close> are the return codes seen, \<open>r_told\<close> the children that got a signal or were found gone,
  \<open>r_idle\<close> is \<open>StandbyChildren.children\<close>, \<open>r_lines\<close> what each child was told to run.\<close>

record rworld =
  r_world :: world
  r_codes :: "nat \<Rightarrow> int option"
  r_told :: "nat set"
  r_spawned :: nat
  r_idle :: "nat list"
  r_lines :: "(nat \<times> handed) list"

type_synonym 'a act = "(rworld, exn, 'a) sem"

definition on_store :: "'a run \<Rightarrow> 'a act" where
  "on_store m w = (case m (r_world w) of (x, v) \<Rightarrow> (x, w\<lparr>r_world := v\<rparr>))"

abbreviation r_tick :: "rworld \<Rightarrow> nat" where
  "r_tick w \<equiv> w_tick (r_world w)"

definition stopping :: "renv \<Rightarrow> rworld \<Rightarrow> bool" where
  "stopping R w = re_stop R (2 * r_tick w)"

text \<open>A wait: others run, and the task may be cancelled.\<close>

definition pause :: "renv \<Rightarrow> unit act" where
  "pause R w =
     (let v = w\<lparr>r_world := advance (re_x R) (r_world w)\<rparr>
      in case xe_link (re_x R) (r_tick w) of Cut b \<Rightarrow> (Inl Cancelled_error, v) | _ \<Rightarrow> (Inr (), v))"

definition returncode :: "renv \<Rightarrow> nat \<Rightarrow> int option act" where
  "returncode R p w =
     (case r_codes w p of
        Some c \<Rightarrow> (Inr (Some c), w)
      | None \<Rightarrow>
          (case re_seen R p (r_tick w) of
             Some c \<Rightarrow> (Inr (Some c), w\<lparr>r_codes := (r_codes w)(p \<mapsto> c)\<rparr>)
           | None \<Rightarrow> (Inr None, w)))"

text \<open>\<open>wait_for(process.wait(), \<dots>)\<close>: whether the child ended in time.\<close>

definition wait_child :: "renv \<Rightarrow> nat \<Rightarrow> bool act" where
  "wait_child R p w =
     bindS (pause R) (\<lambda>_ v.
       case r_codes v p of
         Some c \<Rightarrow> (Inr True, v)
       | None \<Rightarrow>
           (case re_wait R p (r_tick w) of
              Some c \<Rightarrow> (Inr True, v\<lparr>r_codes := (r_codes v)(p \<mapsto> c)\<rparr>)
            | None \<Rightarrow> (Inr False, v))) w"

section \<open>\<open>stop_child\<close>\<close>

definition kill_child :: "renv \<Rightarrow> nat \<Rightarrow> unit act" where
  "kill_child R p w =
     (if re_gone R p (r_tick w) then (Inl Store_error, w)
      else bindS (pause R) (\<lambda>_. modS (\<lambda>v. v\<lparr>r_codes := (r_codes v)(p \<mapsto> -9)\<rparr>)) w)"

definition terminate_child :: "renv \<Rightarrow> nat \<Rightarrow> unit act" where
  "terminate_child R p w =
     (let v = w\<lparr>r_told := insert p (r_told w)\<rparr>
      in if re_gone R p (r_tick w) then (Inr (), v)
         else bindS (wait_child R p) (\<lambda>ended. if ended then retS () else kill_child R p) v)"

definition stop_child :: "renv \<Rightarrow> nat \<Rightarrow> unit act" where
  "stop_child R p = bindS (returncode R p) (\<lambda>c. if c = None then terminate_child R p else retS ())"

section \<open>Starting children\<close>

definition spawn :: "renv \<Rightarrow> nat act" where
  "spawn R w =
     bindS (pause R) (\<lambda>_ v.
       if re_starts R (r_tick w) then (Inr (r_spawned v), v\<lparr>r_spawned := r_spawned v + 1\<rparr>)
       else (Inl Store_error, v)) w"

definition give :: "nat \<Rightarrow> handed \<Rightarrow> unit act" where
  "give p h = modS (\<lambda>w. w\<lparr>r_lines := r_lines w @ [(p, h)]\<rparr>)"

definition spawn_child :: "renv \<Rightarrow> handed \<Rightarrow> nat act" where
  "spawn_child R h = bindS (spawn R) (\<lambda>p. bindS (give p h) (\<lambda>_. retS p))"

definition handoff :: "renv \<Rightarrow> nat \<Rightarrow> handed \<Rightarrow> bool act" where
  "handoff R p h w =
     (if re_takes R p (r_tick w) then bindS (give p h) (\<lambda>_. retS True) w else (Inr False, w))"

section \<open>\<open>StandbyChildren\<close>\<close>

definition set_idle :: "nat list \<Rightarrow> unit act" where
  "set_idle ps = modS (\<lambda>w. w\<lparr>r_idle := ps\<rparr>)"

primrec keep_alive :: "renv \<Rightarrow> nat list \<Rightarrow> nat list act" where
  "keep_alive R [] = retS []"
| "keep_alive R (p # ps) =
     bindS (returncode R p) (\<lambda>c. bindS (keep_alive R ps) (\<lambda>qs. retS (if c = None then p # qs else qs)))"

primrec fill_more :: "renv \<Rightarrow> nat \<Rightarrow> unit act" where
  "fill_more R 0 = retS ()"
| "fill_more R (Suc n) =
     bindS (spawn R) (\<lambda>p. bindS (modS (\<lambda>w. w\<lparr>r_idle := r_idle w @ [p]\<rparr>)) (\<lambda>_. fill_more R n))"

definition swallow :: "unit act \<Rightarrow> unit act" where
  "swallow m w = (case m w of (Inl Store_error, v) \<Rightarrow> (Inr (), v) | r \<Rightarrow> r)"

definition fill :: "renv \<Rightarrow> unit act" where
  "fill R =
     bindS (getS r_idle) (\<lambda>ps. bindS (keep_alive R ps) (\<lambda>qs. bindS (set_idle qs) (\<lambda>_.
       swallow (fill_more R (re_standby R - length qs)))))"

primrec take_from :: "renv \<Rightarrow> nat list \<Rightarrow> nat option act" where
  "take_from R [] = retS None"
| "take_from R (p # ps) =
     bindS (set_idle ps) (\<lambda>_. bindS (returncode R p) (\<lambda>c. if c = None then retS (Some p) else take_from R ps))"

definition take_child :: "renv \<Rightarrow> nat option act" where
  "take_child R = bindS (getS r_idle) (take_from R)"

definition offer :: "renv \<Rightarrow> handed \<Rightarrow> nat option \<Rightarrow> nat option act" where
  "offer R h q =
     (case q of
        None \<Rightarrow> retS None
      | Some p \<Rightarrow> bindS (handoff R p h) (\<lambda>taken.
          if taken then retS (Some p) else bindS (stop_child R p) (\<lambda>_. retS None)))"

definition refill :: "renv \<Rightarrow> nat \<Rightarrow> nat act" where
  "refill R p w =
     (case fill R w of
        (Inl Cancelled_error, v) \<Rightarrow> bindS (stop_child R p) (\<lambda>_. failS Cancelled_error) v
      | (Inl e, v) \<Rightarrow> (Inl e, v)
      | (Inr u, v) \<Rightarrow> (Inr p, v))"

definition start :: "renv \<Rightarrow> handed \<Rightarrow> nat act" where
  "start R h =
     bindS (take_child R) (\<lambda>q. bindS (offer R h q) (\<lambda>q'.
     bindS (case q' of Some p \<Rightarrow> retS p | None \<Rightarrow> spawn_child R h) (refill R)))"

text \<open>\<open>close\<close> pops from the end; the list is given in that order.\<close>

primrec close_from :: "renv \<Rightarrow> nat list \<Rightarrow> unit act" where
  "close_from R [] = retS ()"
| "close_from R (p # ps) = bindS (set_idle (rev ps)) (\<lambda>_. bindS (stop_child R p) (\<lambda>_. close_from R ps))"

definition close_children :: "renv \<Rightarrow> unit act" where
  "close_children R = bindS (getS r_idle) (\<lambda>ps. close_from R (rev ps))"

section \<open>\<open>supervise\<close>\<close>

definition recover_run :: "xenv \<Rightarrow> unit run" where
  "recover_run X =
     bindS (read_call X (\<lambda>now s. now)) (\<lambda>t.
     bindS (read_call X (\<lambda>now s. zrange_upto t (get_zset s KRunning))) (\<lambda>ids.
     bindS (mapS (\<lambda>i. raising (store_call X (change_attempt (xe_jobs X) i (recover_update (xe_jobs X)) None))) ids)
       (\<lambda>_. retS ())))"

definition fail_run :: "xenv \<Rightarrow> string \<Rightarrow> string \<Rightarrow> job option run" where
  "fail_run X i owner = finish_call X i owner FAILED None (Some \<lparr>eb_code = WORKER_DEAD, eb_detail = []\<rparr>)"

definition lease_lost :: "renv \<Rightarrow> string \<Rightarrow> nat \<Rightarrow> unit act" where
  "lease_lost R i p =
     bindS (on_store (read_call (re_x R) (\<lambda>now s. get_job s i))) (\<lambda>cur.
     bindS (case cur of
              Some j \<Rightarrow> if terminal (j_status j) then bindS (wait_child R p) (\<lambda>_. retS ()) else retS ()
            | None \<Rightarrow> retS ()) (\<lambda>_.
     bindS (stop_child R p) (\<lambda>_. on_store (recover_run (re_x R)))))"

text \<open>The loop gives \<open>False\<close> when its fuel is used up.\<close>

primrec supervise_loop :: "nat \<Rightarrow> renv \<Rightarrow> string \<Rightarrow> string \<Rightarrow> nat \<Rightarrow> bool act" where
  "supervise_loop 0 R i owner p = retS False"
| "supervise_loop (Suc n) R i owner p =
     bindS (returncode R p) (\<lambda>c.
       if c \<noteq> None then bindS (on_store (fail_run (re_x R) i owner)) (\<lambda>_. retS True)
       else bindS (wait_child R p) (\<lambda>ended.
         if ended then supervise_loop n R i owner p
         else bindS (on_store (raising (store_call (re_x R) (heartbeat (xe_jobs (re_x R)) i owner)))) (\<lambda>r.
           if r \<noteq> None then supervise_loop n R i owner p
           else bindS (lease_lost R i p) (\<lambda>_. retS True))))"

text \<open>\<open>try: \<dots> finally: await stop_child(process)\<close>\<close>

definition finally_stop :: "renv \<Rightarrow> nat \<Rightarrow> bool act \<Rightarrow> bool act" where
  "finally_stop R p m w =
     (case m w of
        (Inr False, v) \<Rightarrow> (Inr False, v)
      | (r, v) \<Rightarrow> (case stop_child R p v of (Inl e, u) \<Rightarrow> (Inl e, u) | (Inr x, u) \<Rightarrow> (r, u)))"

definition supervise :: "nat \<Rightarrow> renv \<Rightarrow> string \<Rightarrow> string \<Rightarrow> nat \<Rightarrow> bool act" where
  "supervise n R i owner p = finally_stop R p (supervise_loop n R i owner p)"

section \<open>The runner\<close>

definition pass_call :: "xenv \<Rightarrow> (rat \<Rightarrow> redis \<Rightarrow> 'o attempt) \<Rightarrow> 'o option run" where
  "pass_call X op =
     store_call X (\<lambda>now s. case op now s of Done x cs \<Rightarrow> Done (Some x) cs | Again cs \<Rightarrow> Done None cs)"

text \<open>\<open>claim\<close> with its three polls of \<open>stop\<close>; \<open>None\<close> when the fuel is used up.\<close>

primrec claim_run :: "nat \<Rightarrow> renv \<Rightarrow> job_kind \<Rightarrow> string \<Rightarrow> job option option act" where
  "claim_run 0 R k worker = retS None"
| "claim_run (Suc n) R k worker = (\<lambda>w.
     if stopping R w then (Inr (Some None), w)
     else bindS (on_store (pass_call (re_x R)
            (claim_attempt (xe_jobs (re_x R)) k (worker @ '':'' @ re_uuid R (r_tick w)) (re_stop R (2 * r_tick w + 1)))))
       (\<lambda>r. case r of
          None \<Rightarrow> claim_run n R k worker
        | Some (Inl e) \<Rightarrow> failS (Raised e)
        | Some (Inr None) \<Rightarrow> retS (Some None)
        | Some (Inr (Some (j, q))) \<Rightarrow> (\<lambda>v.
            if stopping R v
            then bindS (on_store (raising (store_call (re_x R) (return_unstarted (xe_jobs (re_x R)) j q))))
                   (\<lambda>_. retS (Some None)) v
            else (Inr (Some (Some j)), v))) w)"

definition owner_of :: "job \<Rightarrow> string" where
  "owner_of j = (case j_owner j of Some w \<Rightarrow> w | None \<Rightarrow> [])"

definition pooled :: "renv \<Rightarrow> job_kind \<Rightarrow> bool" where
  "pooled R k \<longleftrightarrow> k = Process \<and> re_standby R > 0"

definition run_claimed :: "nat \<Rightarrow> renv \<Rightarrow> job_kind \<Rightarrow> job \<Rightarrow> bool act" where
  "run_claimed n R k j =
     (let i = job_identity (xe_jobs (re_x R)) j; h = Job_line i (owner_of j)
      in bindS (if pooled R k then start R h else spawn_child R h) (supervise n R i (owner_of j)))"

definition pop_batch :: "xenv \<Rightarrow> photo_batch_claim option run" where
  "pop_batch X w =
     (let v = advance X w; (r, s) = claim_batch (w_redis v); d = v\<lparr>w_redis := s\<rparr>
      in case xe_link X (w_tick w) of
           Through \<Rightarrow> (case r of Inl e \<Rightarrow> (Inl (Raised e), d) | Inr c \<Rightarrow> (Inr c, d))
         | Down arrived \<Rightarrow> (Inl Store_error, if arrived then d else v)
         | Cut arrived \<Rightarrow> (Inl Cancelled_error, if arrived then d else v))"

definition run_photo_batch :: "renv \<Rightarrow> photo_batch_claim \<Rightarrow> bool act" where
  "run_photo_batch R c =
     (case claim_trip_id c of
        None \<Rightarrow> failS (Raised ValueErr)
      | Some trip \<Rightarrow>
          (let h = Batch_line (bc_identity c) trip (bc_batch c)
           in bindS (on_store (read_call (re_x R) (\<lambda>now s. now))) (\<lambda>_.
              bindS (if pooled R Process then start R h else spawn_child R h) (\<lambda>p.
                finally_stop R p (bindS (wait_child R p) (\<lambda>_. retS True))))))"

datatype turn = Leave | Rest | Onward | Busy_still

definition work :: "nat \<Rightarrow> renv \<Rightarrow> job_kind \<Rightarrow> job option \<Rightarrow> turn act" where
  "work n R k r =
     (case r of
        Some j \<Rightarrow> bindS (run_claimed n R k j) (\<lambda>d. retS (if \<not> d then Busy_still else if k = Process then Onward else Rest))
      | None \<Rightarrow> (\<lambda>w.
          if k = Process \<and> re_embed R \<and> \<not> stopping R w
          then bindS (on_store (pop_batch (re_x R))) (\<lambda>b. case b of
                 None \<Rightarrow> retS Rest
               | Some c \<Rightarrow> bindS (run_photo_batch R c) (\<lambda>_. retS Onward)) w
          else (Inr Rest, w)))"

text \<open>The \<open>except\<close> clauses of the loop: a cancelled run is failed, a lost connection ends the turn.\<close>

definition guarded :: "renv \<Rightarrow> job option \<Rightarrow> turn act \<Rightarrow> turn act" where
  "guarded R r m w =
     (case m w of
        (Inl Cancelled_error, v) \<Rightarrow>
          (case r of
             None \<Rightarrow> (Inl Cancelled_error, v)
           | Some j \<Rightarrow> bindS (on_store (fail_run (re_x R) (job_identity (xe_jobs (re_x R)) j) (owner_of j)))
                         (\<lambda>_. failS Cancelled_error) v)
      | (Inl Store_error, v) \<Rightarrow> (Inr Rest, v)
      | x \<Rightarrow> x)"

definition turn_once :: "nat \<Rightarrow> renv \<Rightarrow> job_kind \<Rightarrow> string \<Rightarrow> turn act" where
  "turn_once n R k worker w =
     (case bindS (on_store (recover_run (re_x R))) (\<lambda>_ v.
             if stopping R v then (Inr None, v) else bindS (claim_run n R k worker) (\<lambda>c. retS (Some c)) v) w of
        (Inl e, v) \<Rightarrow> guarded R None (failS e) v
      | (Inr None, v) \<Rightarrow> (Inr Leave, v)
      | (Inr (Some None), v) \<Rightarrow> (Inr Busy_still, v)
      | (Inr (Some (Some r)), v) \<Rightarrow> guarded R r (work n R k r) v)"

primrec turns :: "nat \<Rightarrow> nat \<Rightarrow> renv \<Rightarrow> job_kind \<Rightarrow> string \<Rightarrow> bool act" where
  "turns 0 n R k worker = retS False"
| "turns (Suc m) n R k worker = (\<lambda>w.
     if stopping R w then (Inr True, w)
     else bindS (turn_once n R k worker) (\<lambda>t. case t of
            Leave \<Rightarrow> retS True
          | Busy_still \<Rightarrow> retS False
          | Onward \<Rightarrow> turns m n R k worker
          | Rest \<Rightarrow> bindS (pause R) (\<lambda>_. turns m n R k worker)) w)"

definition runner_loop :: "nat \<Rightarrow> nat \<Rightarrow> renv \<Rightarrow> job_kind \<Rightarrow> string \<Rightarrow> bool act" where
  "runner_loop m n R k worker w =
     (if pooled R k then
        (case bindS (fill R) (\<lambda>_. turns m n R k worker) w of
           (Inr False, v) \<Rightarrow> (Inr False, v)
         | (r, v) \<Rightarrow> (case close_children R v of (Inl e, u) \<Rightarrow> (Inl e, u) | (Inr x, u) \<Rightarrow> (r, u)))
      else turns m n R k worker w)"

end
