(* ===== verification/RunnerTheorems.thy ===== *)
theory RunnerTheorems
  imports Runner ExecutionTheorems
begin

text \<open>
  What the runner does with its children and its jobs: whatever the store, the system and the children
  do, no child is left running behind the runner's back and none is given two jobs; a supervised job is
  released; and supervision ends, because the lease of a run does.
\<close>

section \<open>Operations that start no child\<close>

definition stopped :: "rworld \<Rightarrow> nat \<Rightarrow> bool" where
  "stopped w p \<longleftrightarrow> r_codes w p \<noteq> None \<or> p \<in> r_told w"

definition calm :: "rworld \<Rightarrow> rworld \<Rightarrow> bool" where
  "calm w v \<longleftrightarrow> r_spawned v = r_spawned w \<and> r_idle v = r_idle w \<and> r_lines v = r_lines w \<and>
     (\<forall>p. stopped w p \<longrightarrow> stopped v p)"

lemma calm_refl [simp]: "calm w w"
  by (simp add: calm_def)

lemma calm_trans: "calm u v \<Longrightarrow> calm v w \<Longrightarrow> calm u w"
  by (simp add: calm_def)

lemma calm_updates [simp]:
  "calm w (w\<lparr>r_world := x\<rparr>)" "calm w (w\<lparr>r_codes := (r_codes w)(p \<mapsto> c)\<rparr>)" "calm w (w\<lparr>r_told := insert p (r_told w)\<rparr>)"
  by (auto simp: calm_def stopped_def)

definition quiet :: "'a act \<Rightarrow> bool" where
  "quiet m \<longleftrightarrow> (\<forall>w. calm w (snd (m w)))"

named_theorems quiet_intro

lemma quietD: "quiet m \<Longrightarrow> m w = (r, v) \<Longrightarrow> calm w v"
  unfolding quiet_def by (metis snd_conv)

lemma quiet_units [quiet_intro]: "quiet (retS x)" "quiet (failS e)" "quiet (getS f)" "quiet (on_store m)"
  by (simp_all add: quiet_def retS_def failS_def getS_def on_store_def split: prod.split)

lemma quiet_bind [quiet_intro]:
  assumes "quiet m" "\<And>x. quiet (f x)"
  shows "quiet (bindS m f)"
  unfolding quiet_def
proof
  fix w
  obtain r v where m: "m w = (r, v)" by (cases "m w")
  from quietD[OF assms(1) m] have "calm w v" .
  then show "calm w (snd (bindS m f w))"
    using assms(2) m by (auto simp: bindS_def quiet_def split: sum.split intro: calm_trans)
qed

lemma quiet_if [quiet_intro]: "quiet m \<Longrightarrow> quiet m' \<Longrightarrow> quiet (if b then m else m')"
  by simp

lemma quiet_option [quiet_intro]:
  "quiet m \<Longrightarrow> (\<And>x. quiet (f x)) \<Longrightarrow> quiet (case r of None \<Rightarrow> m | Some x \<Rightarrow> f x)"
  by (simp split: option.split)

lemma quiet_pause [quiet_intro]: "quiet (pause R)"
  by (simp add: quiet_def pause_def Let_def split: link.split)

lemma quiet_returncode [quiet_intro]: "quiet (returncode R p)"
  by (simp add: quiet_def returncode_def split: option.split)

lemma quiet_wait [quiet_intro]: "quiet (wait_child R p)"
  unfolding quiet_def
proof
  fix w :: rworld
  obtain r v where m: "pause R w = (r, v)" by (cases "pause R w")
  from quietD[OF quiet_pause m] have "calm w v" .
  then show "calm w (snd (wait_child R p w))"
    by (auto simp: wait_child_def bindS_def m split: sum.split option.split intro: calm_trans)
qed

lemma quiet_kill [quiet_intro]: "quiet (kill_child R p)"
proof -
  have "quiet (bindS (pause R) (\<lambda>_. modS (\<lambda>v. v\<lparr>r_codes := (r_codes v)(p \<mapsto> -9)\<rparr>)))"
    by (intro quiet_intro) (simp add: quiet_def modS_def)
  then show ?thesis by (simp add: quiet_def kill_child_def)
qed

lemma quiet_terminate [quiet_intro]: "quiet (terminate_child R p)"
proof -
  have "quiet (bindS (wait_child R p) (\<lambda>ended. if ended then retS () else kill_child R p))"
    by (intro quiet_intro)
  then have "calm v (snd (bindS (wait_child R p) (\<lambda>ended. if ended then retS () else kill_child R p) v))" for v
    by (simp add: quiet_def)
  then show ?thesis
    unfolding quiet_def terminate_child_def Let_def by (auto intro: calm_trans[OF calm_updates(3)])
qed

lemma quiet_stop [quiet_intro]: "quiet (stop_child R p)"
  unfolding stop_child_def by (intro quiet_intro)

lemma quiet_lease_lost [quiet_intro]: "quiet (lease_lost R i p)"
  unfolding lease_lost_def by (intro quiet_intro)

lemma quiet_supervise_loop [quiet_intro]: "quiet (supervise_loop n R i owner p)"
  by (induction n) (auto intro!: quiet_intro)

text \<open>However \<open>stop_child\<close> ends, the child has ended, or has its signal.\<close>

lemma terminate_stops: "stopped (snd (terminate_child R p w)) p"
proof -
  let ?v = "w\<lparr>r_told := insert p (r_told w)\<rparr>"
  have "quiet (bindS (wait_child R p) (\<lambda>ended. if ended then retS () else kill_child R p))"
    by (intro quiet_intro)
  then have "calm ?v (snd (bindS (wait_child R p) (\<lambda>ended. if ended then retS () else kill_child R p) ?v))"
    by (simp add: quiet_def)
  moreover have "stopped ?v p" by (simp add: stopped_def)
  ultimately show ?thesis by (simp add: terminate_child_def Let_def calm_def)
qed

lemma returncode_shape:
  "\<exists>c v. returncode R p w = (Inr c, v) \<and> calm w v \<and> (c \<noteq> None \<longrightarrow> stopped v p) \<and> r_world v = r_world w"
  by (auto simp: returncode_def stopped_def split: option.split)

lemma stop_child_stops: "stopped (snd (stop_child R p w)) p"
proof -
  obtain c v where "returncode R p w = (Inr c, v)" "c \<noteq> None \<longrightarrow> stopped v p"
    using returncode_shape[of R p w] by blast
  then show ?thesis
    using terminate_stops[of R p v] by (auto simp: stop_child_def bindS_def retS_def)
qed

lemma finally_stops:
  assumes "quiet m" "finally_stop R p m w = (r, v)"
  shows "calm w v \<and> (r \<noteq> Inr False \<longrightarrow> stopped v p)"
proof -
  obtain q u where m: "m w = (q, u)" by (cases "m w")
  from quietD[OF assms(1) m] have u: "calm w u" .
  obtain q' u' where s: "stop_child R p u = (q', u')" by (cases "stop_child R p u")
  have "calm u u'" "stopped u' p" using quietD[OF quiet_stop s] stop_child_stops[of R p u] s by simp_all
  with assms(2) m s u show ?thesis
    by (auto simp: finally_stop_def split: sum.splits bool.splits intro: calm_trans)
qed

section \<open>The pool\<close>

text \<open>Every child is waiting for a job, stopped, or one of the busy ones \<open>A\<close>.\<close>

definition pool_ok :: "nat \<Rightarrow> nat set \<Rightarrow> rworld \<Rightarrow> bool" where
  "pool_ok N A w \<longleftrightarrow>
     distinct (r_idle w) \<and> set (r_idle w) \<subseteq> {..<r_spawned w} \<and> length (r_idle w) \<le> N \<and>
     distinct (map fst (r_lines w)) \<and> fst ` set (r_lines w) \<subseteq> {..<r_spawned w} \<and>
     set (r_idle w) \<inter> fst ` set (r_lines w) = {} \<and>
     (\<forall>p < r_spawned w. p \<in> set (r_idle w) \<or> stopped w p \<or> p \<in> A)"

lemma pool_calm: "pool_ok N A w \<Longrightarrow> calm w v \<Longrightarrow> pool_ok N A v"
  by (auto simp: pool_ok_def calm_def)

lemma pool_quiet: "quiet m \<Longrightarrow> m w = (r, v) \<Longrightarrow> pool_ok N A w \<Longrightarrow> pool_ok N A v"
  using pool_calm quietD by blast

lemma pool_stop: "pool_ok N (insert p A) w \<Longrightarrow> stopped w p \<Longrightarrow> pool_ok N A w"
  by (auto simp: pool_ok_def)

lemma pool_mono: "pool_ok N A w \<Longrightarrow> A \<subseteq> B \<Longrightarrow> pool_ok N B w"
  by (auto simp: pool_ok_def)

lemma finally_pool:
  assumes "quiet m" "finally_stop R p m w = (r, v)" "pool_ok N {p} w"
  shows "pool_ok N {p} v \<and> (r \<noteq> Inr False \<longrightarrow> pool_ok N {} v)"
  using finally_stops[OF assms(1,2)] pool_calm[OF assms(3)] pool_stop[of N p "{}" v] by blast

lemma supervise_pool:
  "supervise n R i owner p w = (r, v) \<Longrightarrow> pool_ok N {p} w \<Longrightarrow> pool_ok N {p} v \<and> (r \<noteq> Inr False \<longrightarrow> pool_ok N {} v)"
  unfolding supervise_def by (rule finally_pool[OF quiet_supervise_loop])

section \<open>Starting and giving\<close>

text \<open>\<open>gives P m Q F\<close>: from \<open>P\<close>, a result satisfies \<open>Q\<close> and a failure leaves \<open>F\<close>.\<close>

definition gives :: "(rworld \<Rightarrow> bool) \<Rightarrow> 'a act \<Rightarrow> ('a \<Rightarrow> rworld \<Rightarrow> bool) \<Rightarrow> (rworld \<Rightarrow> bool) \<Rightarrow> bool" where
  "gives P m Q F \<longleftrightarrow> (\<forall>w. P w \<longrightarrow> (case m w of (Inr x, v) \<Rightarrow> Q x v | (Inl e, v) \<Rightarrow> F v))"

lemma givesD: "gives P m Q F \<Longrightarrow> P w \<Longrightarrow> m w = (r, v) \<Longrightarrow> (case r of Inr x \<Rightarrow> Q x v | Inl e \<Rightarrow> F v)"
  by (auto simp: gives_def split: sum.split)

lemma givesI: "(\<And>w r v. P w \<Longrightarrow> m w = (r, v) \<Longrightarrow> (case r of Inr x \<Rightarrow> Q x v | Inl e \<Rightarrow> F v)) \<Longrightarrow> gives P m Q F"
  unfolding gives_def by (fastforce split: prod.split sum.split)

lemma gives_bind: "gives P m Q F \<Longrightarrow> (\<And>x. gives (Q x) (f x) Q' F) \<Longrightarrow> gives P (bindS m f) Q' F"
proof -
  assume m: "gives P m Q F" and f: "\<And>x. gives (Q x) (f x) Q' F"
  have "case bindS m f w of (Inr x, v) \<Rightarrow> Q' x v | (Inl e, v) \<Rightarrow> F v" if "P w" for w
  proof -
    obtain r v where r: "m w = (r, v)" by (cases "m w")
    from givesD[OF m that r] f show ?thesis
      by (cases r) (simp_all add: bindS_def r gives_def)
  qed
  then show ?thesis by (simp add: gives_def)
qed

lemma gives_ret: "(\<And>w. P w \<Longrightarrow> Q x w) \<Longrightarrow> gives P (retS x) Q F"
  by (simp add: gives_def retS_def)

lemma gives_conseq:
  "gives P m Q F \<Longrightarrow> (\<And>w. P' w \<Longrightarrow> P w) \<Longrightarrow> (\<And>x w. Q x w \<Longrightarrow> Q' x w) \<Longrightarrow> gives P' m Q' F"
  unfolding gives_def by (fastforce split: prod.split sum.split)

lemma gives_quiet: "quiet m \<Longrightarrow> gives (pool_ok N A) m (\<lambda>_. pool_ok N A) (pool_ok N A)"
  by (rule givesI) (auto dest: pool_quiet split: sum.split)

lemma gives_option:
  "gives (P None) m Q F \<Longrightarrow> (\<And>x. gives (P (Some x)) (f x) Q F) \<Longrightarrow> gives (P r) (case r of None \<Rightarrow> m | Some x \<Rightarrow> f x) Q F"
  by (cases r) simp_all

definition fresh_child :: "rworld \<Rightarrow> nat \<Rightarrow> bool" where
  "fresh_child w p \<longleftrightarrow> p < r_spawned w \<and> p \<notin> set (r_idle w) \<and> p \<notin> fst ` set (r_lines w)"

lemma fresh_calm: "fresh_child w p \<Longrightarrow> calm w v \<Longrightarrow> fresh_child v p"
  by (auto simp: fresh_child_def calm_def)

lemma spawn_pool:
  assumes "pool_ok N A w" "spawn R w = (r, v)"
  shows "(\<exists>p. r = Inr p \<and> pool_ok N (insert p A) v \<and> fresh_child v p \<and> r_idle v = r_idle w) \<or>
    (r \<in> {Inl Store_error, Inl Cancelled_error} \<and> pool_ok N A v)"
proof -
  obtain q u where m: "pause R w = (q, u)" by (cases "pause R w")
  from quietD[OF quiet_pause m] have u: "calm w u" .
  from pool_calm[OF assms(1) u] have p: "pool_ok N A u" .
  have "pool_ok N (insert (r_spawned u) A) (u\<lparr>r_spawned := r_spawned u + 1\<rparr>)"
    using p by (auto simp: pool_ok_def stopped_def less_Suc_eq)
  moreover from p have "fresh_child (u\<lparr>r_spawned := r_spawned u + 1\<rparr>) (r_spawned u)"
    by (auto simp: pool_ok_def fresh_child_def)
  moreover have i: "r_idle u = r_idle w" using u by (simp add: calm_def)
  moreover have "q \<in> {Inr (), Inl Cancelled_error}" using m by (auto simp: pause_def Let_def split: link.splits)
  moreover have "spawn R w = (case q of Inl e \<Rightarrow> (Inl e, u) | Inr _ \<Rightarrow>
      if re_starts R (r_tick w) then (Inr (r_spawned u), u\<lparr>r_spawned := r_spawned u + 1\<rparr>) else (Inl Store_error, u))"
    by (simp add: spawn_def bindS_def m)
  ultimately show ?thesis
    using assms(2) p by (cases "re_starts R (r_tick w)") (force split: sum.splits)+
qed

lemma give_pool: "pool_ok N A w \<Longrightarrow> fresh_child w p \<Longrightarrow> pool_ok N A (w\<lparr>r_lines := r_lines w @ [(p, h)]\<rparr>)"
  by (auto simp: pool_ok_def fresh_child_def stopped_def)

lemma idle_pool:
  "pool_ok N (insert p A) w \<Longrightarrow> fresh_child w p \<Longrightarrow> length (r_idle w) < N \<Longrightarrow>
   pool_ok N A (w\<lparr>r_idle := r_idle w @ [p]\<rparr>)"
  by (auto simp: pool_ok_def fresh_child_def stopped_def)

lemma fill_more_pool:
  "pool_ok N A w \<Longrightarrow> length (r_idle w) + n \<le> N \<Longrightarrow> fill_more R n w = (r, v) \<Longrightarrow>
   pool_ok N A v \<and> r \<in> {Inr (), Inl Store_error, Inl Cancelled_error}"
proof (induction n arbitrary: w)
  case (Suc n)
  obtain q u where m: "spawn R w = (q, u)" by (cases "spawn R w")
  from spawn_pool[OF Suc.prems(1) m] show ?case
  proof
    assume "\<exists>p. q = Inr p \<and> pool_ok N (insert p A) u \<and> fresh_child u p \<and> r_idle u = r_idle w"
    then obtain p where p: "q = Inr p" "pool_ok N (insert p A) u" "fresh_child u p" "r_idle u = r_idle w" by blast
    with Suc.prems(2) have "pool_ok N A (u\<lparr>r_idle := r_idle u @ [p]\<rparr>)" by (intro idle_pool) simp_all
    with Suc.IH[OF this] Suc.prems(2,3) m p show ?thesis by (simp add: bindS_def modS_def)
  qed (use Suc.prems m in \<open>auto simp: bindS_def\<close>)
qed (simp add: retS_def)

lemma keep_alive_shape:
  "\<exists>qs v. keep_alive R ps w = (Inr qs, v) \<and> calm w v \<and> set qs \<subseteq> set ps \<and> (distinct ps \<longrightarrow> distinct qs) \<and>
     length qs \<le> length ps \<and> (\<forall>p \<in> set ps - set qs. stopped v p)"
proof (induction ps arbitrary: w)
  case (Cons p ps)
  obtain c u where c: "returncode R p w = (Inr c, u)" "calm w u" "c \<noteq> None \<longrightarrow> stopped u p"
    using returncode_shape[of R p w] by blast
  from Cons[of u] obtain qs v where q: "keep_alive R ps u = (Inr qs, v)" "calm u v" "set qs \<subseteq> set ps"
    "distinct ps \<longrightarrow> distinct qs" "length qs \<le> length ps" "\<forall>p \<in> set ps - set qs. stopped v p" by blast
  have "calm w v" using calm_trans[OF c(2) q(2)] .
  moreover have "c \<noteq> None \<longrightarrow> stopped v p" using c(3) q(2) by (simp add: calm_def)
  ultimately show ?case
    using c(1) q by (cases c) (auto simp: bindS_def retS_def)
qed (simp add: retS_def)

lemma fill_pool:
  assumes "N = re_standby R" "pool_ok N A w" "fill R w = (r, v)"
  shows "pool_ok N A v \<and> r \<in> {Inr (), Inl Cancelled_error}"
proof -
  obtain qs u where q: "keep_alive R (r_idle w) w = (Inr qs, u)" "calm w u" "set qs \<subseteq> set (r_idle w)"
    "distinct (r_idle w) \<longrightarrow> distinct qs" "length qs \<le> length (r_idle w)" "\<forall>p \<in> set (r_idle w) - set qs. stopped u p"
    using keep_alive_shape[of R "r_idle w" w] by blast
  let ?u = "u\<lparr>r_idle := qs\<rparr>"
  from pool_calm[OF assms(2) q(2)] have u: "pool_ok N A u" .
  have i: "r_idle u = r_idle w" using q(2) by (simp add: calm_def)
  have "pool_ok N A ?u"
    using u q(3-6) by (auto simp: pool_ok_def i stopped_def)
  moreover have "length (r_idle ?u) + (re_standby R - length qs) \<le> N"
    using u q(5) assms(1) by (simp add: pool_ok_def i)
  moreover obtain r' v' where f: "fill_more R (re_standby R - length qs) ?u = (r', v')" by (cases "fill_more R (re_standby R - length qs) ?u")
  ultimately have "pool_ok N A v' \<and> r' \<in> {Inr (), Inl Store_error, Inl Cancelled_error}" by (rule fill_more_pool)
  then show ?thesis
    using assms(3) q(1) f by (auto simp: fill_def bindS_def getS_def set_idle_def modS_def swallow_def)
qed

lemma take_from_pool:
  "pool_ok N A w \<Longrightarrow> r_idle w = ps \<Longrightarrow> take_from R ps w = (r, v) \<Longrightarrow>
   (\<exists>q. r = Inr q \<and> pool_ok N (set_option q \<union> A) v \<and> (\<forall>p \<in> set_option q. fresh_child v p))"
proof (induction ps arbitrary: w)
  case (Cons p ps)
  let ?w = "w\<lparr>r_idle := ps\<rparr>"
  have p: "pool_ok N (insert p A) ?w" "fresh_child ?w p"
    using Cons.prems(1,2) by (auto simp: pool_ok_def fresh_child_def stopped_def)
  obtain c u where c: "returncode R p ?w = (Inr c, u)" "calm ?w u" "c \<noteq> None \<longrightarrow> stopped u p"
    using returncode_shape[of R p ?w] by blast
  from pool_calm[OF p(1) c(2)] fresh_calm[OF p(2) c(2)] have u: "pool_ok N (insert p A) u" "fresh_child u p" .
  show ?case
  proof (cases c)
    case None
    with c(1) Cons.prems(3) u show ?thesis by (auto simp: bindS_def set_idle_def modS_def retS_def)
  next
    case (Some x)
    with c(3) pool_stop[OF u(1)] have "pool_ok N A u" by simp
    moreover have "r_idle u = ps" using c(2) by (simp add: calm_def)
    ultimately show ?thesis
      using Cons.IH[of u] Cons.prems(3) c(1) Some by (simp add: bindS_def set_idle_def modS_def)
  qed
qed (auto simp: retS_def)

abbreviation idle_or :: "nat \<Rightarrow> nat option \<Rightarrow> rworld \<Rightarrow> bool" where
  "idle_or N q w \<equiv> pool_ok N (set_option q) w \<and> (\<forall>p \<in> set_option q. fresh_child w p)"

abbreviation calmly :: "nat \<Rightarrow> rworld \<Rightarrow> bool" where
  "calmly N \<equiv> pool_ok N {}"

lemma take_gives: "gives (calmly N) (take_child R) (idle_or N) (calmly N)"
proof (rule givesI)
  fix w r v assume "calmly N w" "take_child R w = (r, v)"
  then show "case r of Inr q \<Rightarrow> idle_or N q v | Inl e \<Rightarrow> calmly N v"
    using take_from_pool[of N "{}" w "r_idle w" R r v] by (auto simp: take_child_def bindS_def getS_def)
qed

lemma handoff_gives:
  "gives (\<lambda>w. pool_ok N {p} w \<and> fresh_child w p) (handoff R p h) (\<lambda>_. pool_ok N {p}) (calmly N)"
  by (rule givesI) (auto simp: handoff_def bindS_def give_def modS_def retS_def give_pool split: if_splits)

lemma stop_gives: "gives (pool_ok N {p}) (stop_child R p) (\<lambda>_. calmly N) (calmly N)"
proof (rule givesI)
  fix w r v assume w: "pool_ok N {p} w" and m: "stop_child R p w = (r, v)"
  from pool_quiet[OF quiet_stop m w] have "pool_ok N (insert p {}) v" .
  moreover have "stopped v p" using stop_child_stops[of R p w] m by simp
  ultimately have "calmly N v" by (rule pool_stop)
  then show "case r of Inr x \<Rightarrow> calmly N v | Inl e \<Rightarrow> calmly N v" by (simp split: sum.split)
qed

lemma offer_gives: "gives (idle_or N q) (offer R h q) (\<lambda>q'. pool_ok N (set_option q')) (calmly N)"
proof (cases q)
  case (Some p)
  have "gives (pool_ok N {p}) (if taken then retS (Some p) else bindS (stop_child R p) (\<lambda>_. retS None))
      (\<lambda>q'. pool_ok N (set_option q')) (calmly N)" for taken
  proof (cases taken)
    case True
    then show ?thesis by (auto intro: gives_ret)
  next
    case False
    have "gives (pool_ok N {p}) (bindS (stop_child R p) (\<lambda>_. retS None)) (\<lambda>q'. pool_ok N (set_option q')) (calmly N)"
      by (rule gives_bind[OF stop_gives]) (auto intro: gives_ret)
    with False show ?thesis by simp
  qed
  from gives_bind[OF handoff_gives this] Some show ?thesis by (simp add: offer_def)
qed (auto simp: offer_def intro: gives_ret)

lemma spawn_child_gives: "gives (calmly N) (spawn_child R h) (\<lambda>p. pool_ok N {p}) (calmly N)"
proof -
  have 1: "gives (calmly N) (spawn R) (\<lambda>p w. pool_ok N {p} w \<and> fresh_child w p) (calmly N)"
  proof (rule givesI)
    fix w r v assume "calmly N w" "spawn R w = (r, v)"
    from spawn_pool[OF this] show "case r of Inr p \<Rightarrow> pool_ok N {p} v \<and> fresh_child v p | Inl e \<Rightarrow> calmly N v" by auto
  qed
  have 2: "gives (\<lambda>w. pool_ok N {p} w \<and> fresh_child w p) (give p h) (\<lambda>_. pool_ok N {p}) (calmly N)" for p
    by (rule givesI) (auto simp: give_def modS_def give_pool)
  show ?thesis
    unfolding spawn_child_def by (rule gives_bind[OF 1 gives_bind[OF 2]]) (rule gives_ret, assumption)
qed

lemma refill_gives:
  assumes "N = re_standby R"
  shows "gives (pool_ok N {p}) (refill R p) (\<lambda>q. pool_ok N {q}) (calmly N)"
proof (rule givesI)
  fix w r v assume w: "pool_ok N {p} w" and m: "refill R p w = (r, v)"
  obtain q u where f: "fill R w = (q, u)" by (cases "fill R w")
  from fill_pool[OF assms w f] have u: "pool_ok N {p} u" "q = Inr () \<or> q = Inl Cancelled_error" by auto
  obtain q' u' where s: "stop_child R p u = (q', u')" by (cases "stop_child R p u")
  from givesD[OF stop_gives u(1) s] have "calmly N u'" by (simp split: sum.splits)
  with u m f s show "case r of Inr q \<Rightarrow> pool_ok N {q} v | Inl e \<Rightarrow> calmly N v"
    by (cases q') (auto simp: refill_def bindS_def failS_def)
qed

lemma start_gives:
  assumes "N = re_standby R"
  shows "gives (calmly N) (start R h) (\<lambda>p. pool_ok N {p}) (calmly N)"
proof -
  have "gives (pool_ok N (set_option q)) (case q of Some p \<Rightarrow> retS p | None \<Rightarrow> spawn_child R h) (\<lambda>p. pool_ok N {p}) (calmly N)" for q
    by (cases q) (auto intro: gives_ret spawn_child_gives)
  from gives_bind[OF take_gives gives_bind[OF offer_gives gives_bind[OF this refill_gives[OF assms]]]] show ?thesis
    unfolding start_def .
qed

section \<open>Turns\<close>

abbreviation settled_if :: "nat \<Rightarrow> bool \<Rightarrow> rworld \<Rightarrow> bool" where
  "settled_if N d w \<equiv> (d \<longrightarrow> calmly N w)"

lemma finally_gives: "quiet m \<Longrightarrow> gives (pool_ok N {p}) (finally_stop R p m) (settled_if N) (calmly N)"
  by (rule givesI) (auto dest!: finally_pool split: sum.split)

lemma child_gives:
  "(b \<Longrightarrow> N = re_standby R) \<Longrightarrow>
   gives (calmly N) (if b then start R h else spawn_child R h) (\<lambda>p. pool_ok N {p}) (calmly N)"
  by (simp add: start_gives spawn_child_gives)

lemma run_claimed_gives: "(pooled R k \<Longrightarrow> N = re_standby R) \<Longrightarrow> gives (calmly N) (run_claimed n R k j) (settled_if N) (calmly N)"
  unfolding run_claimed_def Let_def
  by (rule gives_bind[OF child_gives]) (auto simp: supervise_def intro!: finally_gives quiet_intro)

lemma run_photo_batch_gives:
  assumes N: "pooled R Process \<Longrightarrow> N = re_standby R"
  shows "gives (calmly N) (run_photo_batch R c) (\<lambda>_. calmly N) (calmly N)"
proof (cases "claim_trip_id c")
  case None
  have "gives (calmly N) (failS e :: bool act) (\<lambda>_. calmly N) (calmly N)" for e
    by (rule gives_quiet) (intro quiet_intro)
  with None show ?thesis by (simp add: run_photo_batch_def)
next
  case (Some trip)
  have q: "quiet (bindS (wait_child R p) (\<lambda>_. retS True))" for p by (intro quiet_intro)
  have d: "gives (pool_ok N {p}) (finally_stop R p (bindS (wait_child R p) (\<lambda>_. retS True))) (\<lambda>_. calmly N) (calmly N)" for p
  proof (rule givesI)
    fix w r v assume w: "pool_ok N {p} w" and f: "finally_stop R p (bindS (wait_child R p) (\<lambda>_. retS True)) w = (r, v)"
    then have "r \<noteq> Inr False"
      by (auto simp: finally_stop_def bindS_def retS_def split: prod.splits sum.splits bool.splits)
    with finally_pool[OF q f w] show "case r of Inr x \<Rightarrow> calmly N v | Inl e \<Rightarrow> calmly N v" by (simp split: sum.split)
  qed
  have "gives (calmly N) (on_store (read_call (re_x R) (\<lambda>now s. now))) (\<lambda>_. calmly N) (calmly N)"
    by (rule gives_quiet) (intro quiet_intro)
  from gives_bind[OF this gives_bind[OF child_gives[OF N] d]] Some show ?thesis
    by (simp add: run_photo_batch_def Let_def)
qed

lemma work_gives:
  assumes N: "pooled R k \<Longrightarrow> N = re_standby R"
  shows "gives (calmly N) (work n R k r) (\<lambda>t w. t \<noteq> Busy_still \<longrightarrow> calmly N w) (calmly N)"
proof (cases r)
  case (Some j)
  have "gives (settled_if N d) (retS (if \<not> d then Busy_still else if k = Process then Onward else Rest))
      (\<lambda>t w. t \<noteq> Busy_still \<longrightarrow> calmly N w) (calmly N)" for d
    by (auto intro: gives_ret)
  from gives_bind[OF run_claimed_gives[OF N] this] Some show ?thesis by (simp add: work_def)
next
  case None
  have p: "gives (calmly N) (on_store (pop_batch (re_x R))) (\<lambda>_. calmly N) (calmly N)"
    by (rule gives_quiet) (intro quiet_intro)
  have c: "gives (calmly N) (case b of None \<Rightarrow> retS Rest | Some c \<Rightarrow> bindS (run_photo_batch R c) (\<lambda>_. retS Onward))
      (\<lambda>t w. t \<noteq> Busy_still \<longrightarrow> calmly N w) (calmly N)" if "k = Process" for b
    using N that by (cases b) (auto intro: gives_ret gives_bind[OF run_photo_batch_gives])
  from gives_bind[OF p c] None show ?thesis by (auto simp: work_def gives_def)
qed

lemma guarded_gives:
  assumes "gives (calmly N) m Q (calmly N)" "\<And>w. calmly N w \<Longrightarrow> Q Rest w"
  shows "gives (calmly N) (guarded R r m) Q (calmly N)"
proof (rule givesI)
  fix w q v assume w: "calmly N w" and g: "guarded R r m w = (q, v)"
  obtain x u where m: "m w = (x, u)" by (cases "m w")
  note u = givesD[OF assms(1) w m]
  show "case q of Inr t \<Rightarrow> Q t v | Inl e \<Rightarrow> calmly N v"
  proof (cases "\<exists>j. x = Inl Cancelled_error \<and> r = Some j")
    case True
    then obtain j where j: "x = Inl Cancelled_error" "r = Some j" by blast
    have "gives (calmly N) (bindS (on_store (fail_run (re_x R) (job_identity (xe_jobs (re_x R)) j) (owner_of j)))
        (\<lambda>_. failS Cancelled_error :: turn act)) Q (calmly N)"
      by (rule gives_bind[where Q = "\<lambda>_. calmly N", OF gives_quiet])
        (auto simp: gives_def failS_def intro: quiet_intro)
    moreover have "calmly N u" using u j by simp
    moreover have "bindS (on_store (fail_run (re_x R) (job_identity (xe_jobs (re_x R)) j) (owner_of j)))
        (\<lambda>_. failS Cancelled_error) u = (q, v)"
      using g m j by (simp add: guarded_def)
    ultimately show ?thesis by (rule givesD)
  next
    case False
    then show ?thesis
      using g m u assms(2) by (auto simp: guarded_def split: sum.splits exn.splits option.splits)
  qed
qed

lemma quiet_claim: "quiet (claim_run n R k worker)"
proof (induction n)
  case (Suc n)
  have h: "quiet (\<lambda>v. if stopping R v
      then bindS (on_store (raising (store_call (re_x R) (return_unstarted (xe_jobs (re_x R)) j q)))) (\<lambda>_. retS (Some None)) v
      else (Inr (Some (Some j)), v))" for j q
  proof -
    have "quiet (bindS (on_store (raising (store_call (re_x R) (return_unstarted (xe_jobs (re_x R)) j q)))) (\<lambda>_. retS (Some (None :: job option))))"
      by (intro quiet_intro)
    then show ?thesis by (simp add: quiet_def)
  qed
  have "quiet (bindS (on_store (pass_call (re_x R) (claim_attempt (xe_jobs (re_x R)) k u b)))
       (\<lambda>r. case r of
          None \<Rightarrow> claim_run n R k worker
        | Some (Inl e) \<Rightarrow> failS (Raised e)
        | Some (Inr None) \<Rightarrow> retS (Some None)
        | Some (Inr (Some (j, q))) \<Rightarrow> (\<lambda>v.
            if stopping R v
            then bindS (on_store (raising (store_call (re_x R) (return_unstarted (xe_jobs (re_x R)) j q))))
                   (\<lambda>_. retS (Some None)) v
            else (Inr (Some (Some j)), v))))" for u b
    by (intro quiet_bind quiet_units) (auto split: option.split sum.split intro!: quiet_units Suc h)
  then show ?case by (simp add: quiet_def)
qed (simp add: quiet_units)

lemma turn_gives:
  assumes N: "pooled R k \<Longrightarrow> N = re_standby R"
  shows "gives (calmly N) (turn_once n R k worker) (\<lambda>t w. t \<noteq> Busy_still \<longrightarrow> calmly N w) (calmly N)"
proof (rule givesI)
  fix w r v assume w: "calmly N w" and t: "turn_once n R k worker w = (r, v)"
  let ?m = "bindS (on_store (recover_run (re_x R))) (\<lambda>_ v.
             if stopping R v then (Inr None, v) else bindS (claim_run n R k worker) (\<lambda>c. retS (Some c)) v)"
  obtain x u where m: "?m w = (x, u)" by (cases "?m w")
  have "quiet (bindS (claim_run n R k worker) (\<lambda>c. retS (Some c)))" by (intro quiet_intro quiet_claim)
  then have "quiet (\<lambda>v. if stopping R v then (Inr None, v) else bindS (claim_run n R k worker) (\<lambda>c. retS (Some c)) v)"
    by (simp add: quiet_def)
  then have "quiet ?m" by (intro quiet_intro)
  from pool_quiet[OF this m w] have u: "calmly N u" .
  have f: "gives (calmly N) (failS e) (\<lambda>t w. t \<noteq> Busy_still \<longrightarrow> calmly N w) (calmly N)" for e
    by (simp add: gives_def failS_def)
  show "case r of Inr t \<Rightarrow> t \<noteq> Busy_still \<longrightarrow> calmly N v | Inl e \<Rightarrow> calmly N v"
  proof (cases x)
    case (Inl e)
    with t m have "guarded R None (failS e) u = (r, v)" by (simp add: turn_once_def)
    from givesD[OF guarded_gives[OF f] u this] show ?thesis by simp
  next
    case (Inr c)
    show ?thesis
    proof (cases "\<exists>r'. c = Some (Some r')")
      case True
      then obtain r' where "c = Some (Some r')" by blast
      with t m Inr have "guarded R r' (work n R k r') u = (r, v)" by (simp add: turn_once_def)
      from givesD[OF guarded_gives[OF work_gives[OF N]] u this] show ?thesis by simp
    next
      case False
      with t m Inr u show ?thesis by (auto simp: turn_once_def split: option.splits)
    qed
  qed
qed

lemma turns_gives:
  assumes N: "pooled R k \<Longrightarrow> N = re_standby R"
  shows "gives (calmly N) (turns m n R k worker) (settled_if N) (calmly N)"
proof (induction m)
  case (Suc m)
  have p: "gives (calmly N) (pause R) (\<lambda>_. calmly N) (calmly N)" by (rule gives_quiet) (rule quiet_pause)
  have "gives (\<lambda>w. t \<noteq> Busy_still \<longrightarrow> calmly N w) (case t of
            Leave \<Rightarrow> retS True
          | Busy_still \<Rightarrow> retS False
          | Onward \<Rightarrow> turns m n R k worker
          | Rest \<Rightarrow> bindS (pause R) (\<lambda>_. turns m n R k worker)) (settled_if N) (calmly N)" for t
    using Suc gives_bind[OF p Suc] by (cases t) (simp_all add: gives_ret)
  from gives_bind[OF turn_gives[OF N] this] show ?case by (auto simp: gives_def)
qed (simp add: gives_ret)

lemma close_from_shape:
  "calmly N w \<Longrightarrow> r_idle w = rev ps \<Longrightarrow> close_from R ps w = (r, v) \<Longrightarrow>
   calmly N v \<and> (r = Inr () \<longrightarrow> r_idle v = [])"
proof (induction ps arbitrary: w)
  case (Cons p ps)
  let ?w = "w\<lparr>r_idle := rev ps\<rparr>"
  have w: "pool_ok N {p} ?w" using Cons.prems(1,2) by (auto simp: pool_ok_def stopped_def)
  obtain q u where s: "stop_child R p ?w = (q, u)" by (cases "stop_child R p ?w")
  from givesD[OF stop_gives w s] have u: "calmly N u" by (simp split: sum.splits)
  have "r_idle u = rev ps" using quietD[OF quiet_stop s] by (simp add: calm_def)
  from Cons.IH[OF u this] Cons.prems(3) s u show ?case
    by (auto simp: bindS_def set_idle_def modS_def split: sum.splits)
qed (simp add: retS_def)

text \<open>C14. The runner leaves no child behind and gives none two jobs.  Start a runner with no children,
  and let it run any number of turns, whatever the store does, however children end or refuse their line,
  whatever starts fail, wherever the task is cancelled.  When it has ended, whether by its stop flag, by
  cancellation or by an error, every child it ever started has ended or got its signal, except those still
  in the pool when closing the pool itself was cut short; the pool is never larger than configured; and
  every child was told to run at most one job.\<close>

theorem runner_leaves_no_child:
  assumes start: "r_spawned w = 0" "r_idle w = []" "r_lines w = []"
    and run: "runner_loop m n R k worker w = (r, v)" "r \<noteq> Inr False"
  shows "(\<forall>p < r_spawned v. stopped v p \<or> p \<in> set (r_idle v)) \<and> length (r_idle v) \<le> (if pooled R k then re_standby R else 0) \<and>
    distinct (map fst (r_lines v)) \<and>
    (pooled R k \<longrightarrow> (\<exists>q u. bindS (fill R) (\<lambda>_. turns m n R k worker) w = (q, u) \<and>
       (fst (close_children R u) = Inr () \<longrightarrow> r = q \<and> r_idle v = [])))"
proof -
  define N where "N = (if pooled R k then re_standby R else 0)"
  have N: "pooled R k \<Longrightarrow> N = re_standby R" by (simp add: N_def)
  have w: "calmly N w" using start by (simp add: pool_ok_def)
  have "calmly N v \<and> (pooled R k \<longrightarrow> (\<exists>q u. bindS (fill R) (\<lambda>_. turns m n R k worker) w = (q, u) \<and>
       (fst (close_children R u) = Inr () \<longrightarrow> r = q \<and> r_idle v = [])))"
  proof (cases "pooled R k")
    case True
    have "gives (calmly N) (fill R) (\<lambda>_. calmly N) (calmly N)"
    proof (rule givesI)
      fix w' r' v' assume "calmly N w'" "fill R w' = (r', v')"
      from fill_pool[OF N[OF True] this] show "case r' of Inr x \<Rightarrow> calmly N v' | Inl e \<Rightarrow> calmly N v'" by (simp split: sum.split)
    qed
    from gives_bind[OF this turns_gives[OF N]] have g: "gives (calmly N) (bindS (fill R) (\<lambda>_. turns m n R k worker)) (settled_if N) (calmly N)" .
    obtain q u where m: "bindS (fill R) (\<lambda>_. turns m n R k worker) w = (q, u)" by (cases "bindS (fill R) (\<lambda>_. turns m n R k worker) w")
    have nf: "q \<noteq> Inr False" using run m True by (auto simp: runner_loop_def)
    with givesD[OF g w m] have u: "calmly N u" by (auto split: sum.splits)
    obtain x u' where c: "close_children R u = (x, u')" by (cases "close_children R u")
    then have "close_from R (rev (r_idle u)) u = (x, u')" by (simp add: close_children_def bindS_def getS_def)
    from close_from_shape[OF u _ this] have c': "calmly N u'" "x = Inr () \<longrightarrow> r_idle u' = []" by simp_all
    have "(r, v) = (case x of Inl e \<Rightarrow> (Inl e, u') | Inr _ \<Rightarrow> (q, u'))"
      using run(1) m c nf True by (auto simp: runner_loop_def split: sum.splits bool.splits)
    with c c' m show ?thesis by (auto split: sum.splits)
  next
    case False
    with run have "turns m n R k worker w = (r, v)" by (simp add: runner_loop_def)
    from givesD[OF turns_gives[OF N] w this] run(2) False show ?thesis by (auto split: sum.splits)
  qed
  then show ?thesis by (auto simp: pool_ok_def N_def[symmetric])
qed

section \<open>Losing a job\<close>

definition no_renewal :: "xenv \<Rightarrow> string \<Rightarrow> string \<Rightarrow> bool" where
  "no_renewal X i owner \<longleftrightarrow> (\<forall>n. list_all (\<lambda>op. op_ok (xe_jobs X) op \<and> \<not> renews i owner op) (xe_others X n))"

text \<open>At some reading of the clock so far the owner had lost the job.\<close>

definition lost :: "xenv \<Rightarrow> string \<Rightarrow> string \<Rightarrow> world \<Rightarrow> bool" where
  "lost X i owner w \<longleftrightarrow> (\<exists>m \<le> w_tick w. \<not> owned (xe_jobs X) (w_redis w) i owner (xe_now X m))"

lemma advance_tick [simp]: "w_tick (advance X w) = w_tick w + 1"
  by (simp add: advance_def)

lemma advance_lost:
  assumes "no_renewal X i owner" "\<not> owned (xe_jobs X) (w_redis w) i owner t"
  shows "\<not> owned (xe_jobs X) (w_redis (advance X w)) i owner t"
  by (rule advance_keeps[where P = "\<lambda>s. \<not> owned (xe_jobs X) s i owner t", OF _ assms(2)])
    (use assms(1) lost_stays_lost in \<open>auto simp: others_keep_def no_renewal_def list_all_iff\<close>)

lemma lost_advance: "no_renewal X i owner \<Longrightarrow> lost X i owner w \<Longrightarrow> lost X i owner (advance X w)"
proof -
  assume n: "no_renewal X i owner" and "lost X i owner w"
  then obtain m where m: "m \<le> w_tick w" "\<not> owned (xe_jobs X) (w_redis w) i owner (xe_now X m)" by (auto simp: lost_def)
  from advance_lost[OF n m(2)] m(1) show ?thesis by (auto simp: lost_def intro!: exI[of _ m])
qed

lemma store_call_lost:
  assumes n: "no_renewal X i owner"
    and op: "\<And>now s t. \<not> owned (xe_jobs X) s i owner t \<Longrightarrow> \<not> owned (xe_jobs X) (run_attempt (op now s) s) i owner t"
  shows "always (lost X i owner) (store_call X op)"
  unfolding always_def
proof (intro allI impI)
  fix w assume "lost X i owner w"
  from lost_advance[OF n this] obtain m where
    m: "m \<le> w_tick w + 1" "\<not> owned (xe_jobs X) (w_redis (advance X w)) i owner (xe_now X m)"
    by (auto simp: lost_def)
  have "\<not> owned (xe_jobs X) (run_attempt (op now (w_redis (advance X w))) (w_redis (advance X w))) i owner (xe_now X m)" for now
    by (rule op[OF m(2)])
  note r = this[of "xe_now X (w_tick w)"]
  have "snd (store_call X op w) \<in> {advance X w, (advance X w)\<lparr>w_redis := run_attempt (op (xe_now X (w_tick w)) (w_redis (advance X w))) (w_redis (advance X w))\<rparr>}"
    by (auto simp: store_call_def Let_def split: link.split attempt.split)
  with m r show "lost X i owner (snd (store_call X op w))" by (auto simp: lost_def)
qed

lemma read_lost: "no_renewal X i owner \<Longrightarrow> always (lost X i owner) (read_call X f)"
  unfolding read_call_def by (rule store_call_lost) (simp_all add: run_attempt_def)

lemma recover_lost: "no_renewal X i owner \<Longrightarrow> always (lost X i owner) (recover_run X)"
proof -
  assume n: "no_renewal X i owner"
  have "always (lost X i owner) (store_call X (change_attempt (xe_jobs X) x (recover_update (xe_jobs X)) None))" for x
    by (rule store_call_lost[OF n])
      (use lost_stays_lost[where op = "OpChange_recover x now" for now] in \<open>simp add: run_attempt_def\<close>)
  then show ?thesis
    unfolding recover_run_def
    by (intro always_intro always_mapS raising_keeps read_lost[OF n])
qed

abbreviation out :: "renv \<Rightarrow> string \<Rightarrow> string \<Rightarrow> rworld \<Rightarrow> bool" where
  "out R i owner \<equiv> \<lambda>w. lost (re_x R) i owner (r_world w)"

lemma on_store_keeps: "always P m \<Longrightarrow> always (\<lambda>w. P (r_world w)) (on_store m)"
  unfolding always_def on_store_def by (simp add: case_prod_beta)

lemma pause_out: "no_renewal (re_x R) i owner \<Longrightarrow> always (out R i owner) (pause R)"
  using lost_advance by (simp add: always_def pause_def Let_def split: link.split)

lemma same_world: "(\<And>w. r_world (snd (m w)) = r_world w) \<Longrightarrow> always (\<lambda>w. P (r_world w)) m"
  by (simp add: always_def)

lemma returncode_world: "r_world (snd (returncode R p w)) = r_world w"
  using returncode_shape[of R p w] by auto

lemma wait_out: "no_renewal (re_x R) i owner \<Longrightarrow> always (out R i owner) (wait_child R p)"
  unfolding always_def
proof (intro allI impI)
  fix w assume n: "no_renewal (re_x R) i owner" and w: "out R i owner w"
  obtain r v where m: "pause R w = (r, v)" by (cases "pause R w")
  from alwaysD[OF pause_out[OF n] m w] show "out R i owner (snd (wait_child R p w))"
    by (auto simp: wait_child_def bindS_def m split: sum.split option.split)
qed

lemma stop_out: "no_renewal (re_x R) i owner \<Longrightarrow> always (out R i owner) (stop_child R p)"
proof -
  assume n: "no_renewal (re_x R) i owner"
  have k: "always (out R i owner) (kill_child R p)"
  proof -
    have "always (out R i owner) (bindS (pause R) (\<lambda>_. modS (\<lambda>v. v\<lparr>r_codes := (r_codes v)(p \<mapsto> -9)\<rparr>)))"
      by (intro always_intro pause_out[OF n] always_mod) simp
    then show ?thesis by (simp add: always_def kill_child_def)
  qed
  have "always (out R i owner) (bindS (wait_child R p) (\<lambda>ended. if ended then retS () else kill_child R p))"
    by (intro always_intro wait_out[OF n] k)
  then have t: "always (out R i owner) (terminate_child R p)"
    by (simp add: always_def terminate_child_def Let_def)
  have r: "always (out R i owner) (returncode R p)" by (rule same_world) (rule returncode_world)
  show ?thesis unfolding stop_child_def by (intro always_intro r t)
qed

lemma lease_lost_out: "no_renewal (re_x R) i owner \<Longrightarrow> always (out R i owner) (lease_lost R i' p)"
  unfolding lease_lost_def
  by (intro always_intro on_store_keeps read_lost wait_out stop_out recover_lost)

text \<open>A heartbeat that is refused, and a final \<open>finish\<close> that got its answer, leave the job lost.\<close>

lemma update_none:
  assumes "change_attempt E i upd sc now s = Done (Inr None) cs" "\<And>j. upd j now = Inr None \<Longrightarrow> owns E j owner now = Inr False"
  shows "cs = [] \<and> \<not> owned E s i owner now"
  using assms by (auto simp: change_attempt_def owned_def split: option.splits sum.splits)

lemma raising_Inr: "raising m w = (Inr x, v) \<longleftrightarrow> m w = (Inr (Inr x), v)"
  by (auto simp: raising_def bindS_def failS_def retS_def split: prod.splits sum.splits)

lemma heartbeat_refused:
  assumes "raising (store_call X (heartbeat (xe_jobs X) i owner)) w = (Inr None, v)"
  shows "lost X i owner v"
proof -
  from assms have d: "store_call X (heartbeat (xe_jobs X) i owner) w = (Inr (Inr None), v)"
    by (simp add: raising_Inr)
  then obtain cs where h: "heartbeat (xe_jobs X) i owner (xe_now X (w_tick w)) (w_redis (advance X w)) = Done (Inr None) cs"
    and v: "v = (advance X w)\<lparr>w_redis := exec cs (w_redis (advance X w))\<rparr>"
    by (auto simp: store_call_def Let_def run_attempt_def split: link.splits attempt.splits)
  have "heartbeat_update (xe_jobs X) owner j now = Inr None \<Longrightarrow> owns (xe_jobs X) j owner now = Inr False" for j now
    by (auto simp: heartbeat_update_def split: if_splits)
  from update_none[OF h[unfolded heartbeat_def] this] v show ?thesis
    by (auto simp: lost_def intro!: exI[of _ "w_tick w"])
qed

lemma finish_answered:
  assumes "finish_call X i owner st res err w = (Inr r, v)" "terminal st"
  shows "lost X i owner v"
proof -
  from assms(1) have d: "store_call X (finish (xe_jobs X) i owner st res err) w = (Inr (Inr r), v)"
    by (simp add: finish_call_def raising_Inr)
  then obtain cs where h: "finish (xe_jobs X) i owner st res err (xe_now X (w_tick w)) (w_redis (advance X w)) = Done (Inr r) cs"
    and v: "v = (advance X w)\<lparr>w_redis := exec cs (w_redis (advance X w))\<rparr>"
    by (auto simp: store_call_def Let_def run_attempt_def split: link.splits attempt.splits)
  show ?thesis
  proof (cases r)
    case None
    have "finish_update (xe_jobs X) owner st res err j now = Inr None \<Longrightarrow> owns (xe_jobs X) j owner now = Inr False" for j now
      by (auto simp: finish_update_def split: if_splits)
    from update_none[OF h[unfolded finish_def None] this] v show ?thesis
      by (auto simp: lost_def intro!: exI[of _ "w_tick w"])
  next
    case (Some j')
    with h obtain j where j: "finish_update (xe_jobs X) owner st res err j (xe_now X (w_tick w)) = Inr (Some j')"
      and c: "change_commands (xe_jobs X) i (j_status j) j' None (xe_now X (w_tick w)) (w_redis (advance X w)) = Inr cs"
      by (auto simp: finish_def change_attempt_def split: option.splits sum.splits)
    from finish_update_cases[OF j] assms(2) have "terminal (j_status j')"
      by (auto dest: terminate_terminal)
    then show ?thesis
      using terminal_not_owned get_job_after_change[OF c, of i] v by (auto simp: lost_def)
  qed
qed

lemma supervise_loop_loses:
  assumes n: "no_renewal (re_x R) i owner"
  shows "supervise_loop f R i owner p w = (Inr True, v) \<Longrightarrow> out R i owner v"
proof (induction f arbitrary: w)
  case (Suc f)
  from Suc.prems obtain c u where u: "returncode R p w = (Inr c, u)"
    and rest: "(if c \<noteq> None then bindS (on_store (fail_run (re_x R) i owner)) (\<lambda>_. retS True)
       else bindS (wait_child R p) (\<lambda>ended.
         if ended then supervise_loop f R i owner p
         else bindS (on_store (raising (store_call (re_x R) (heartbeat (xe_jobs (re_x R)) i owner)))) (\<lambda>r.
           if r \<noteq> None then supervise_loop f R i owner p
           else bindS (lease_lost R i p) (\<lambda>_. retS True)))) u = (Inr True, v)"
    by (auto simp: bindS_Inr)
  show ?case
  proof (cases c)
    case (Some x)
    with rest show ?thesis
      by (auto simp: bindS_Inr on_store_def fail_run_def split: prod.splits dest!: finish_answered)
  next
    case None
    with rest obtain e u' where e: "wait_child R p u = (Inr e, u')"
      and rest': "(if e then supervise_loop f R i owner p
         else bindS (on_store (raising (store_call (re_x R) (heartbeat (xe_jobs (re_x R)) i owner)))) (\<lambda>r.
           if r \<noteq> None then supervise_loop f R i owner p
           else bindS (lease_lost R i p) (\<lambda>_. retS True))) u' = (Inr True, v)"
      by (auto simp: bindS_Inr)
    show ?thesis
    proof (cases e)
      case True
      with rest' Suc.IH show ?thesis by simp
    next
      case False
      with rest' obtain r t where t: "on_store (raising (store_call (re_x R) (heartbeat (xe_jobs (re_x R)) i owner))) u' = (Inr r, t)"
        and last: "(if r \<noteq> None then supervise_loop f R i owner p
           else bindS (lease_lost R i p) (\<lambda>_. retS True)) t = (Inr True, v)"
        by (auto simp: bindS_Inr)
      show ?thesis
      proof (cases r)
        case None
        with t have "out R i owner t" by (auto simp: on_store_def split: prod.splits dest!: heartbeat_refused)
        with last None show ?thesis by (auto simp: bindS_Inr dest: alwaysD[OF lease_lost_out[OF n]])
      qed (use last Suc.IH in simp)
    qed
  qed
qed (simp add: retS_def)

section \<open>Supervision ends\<close>

text \<open>While \<open>owner\<close> runs the job, the run is the one that began at \<open>st\<close>.\<close>

definition begun :: "string \<Rightarrow> string \<Rightarrow> rat \<Rightarrow> job_kind \<Rightarrow> redis \<Rightarrow> bool" where
  "begun i owner st k s \<longleftrightarrow> (\<forall>j. get_job s i = Some j \<longrightarrow> j_status j = PROCESSING \<longrightarrow> j_owner j = Some owner \<longrightarrow>
     j_started j = Some st \<and> j_kind j = k)"

lemma op_run_begun:
  assumes "op_ok E op" "\<not> renews i owner op" "begun i owner st k s"
  shows "begun i owner st k (op_run E op s)"
proof (cases "get_job s i")
  case None
  from op_run_new[OF assms(1) None] show ?thesis by (auto simp: begun_def fresh_job_def)
next
  case (Some j)
  from op_run_same[OF assms(1,2) Some] assms(3) Some show ?thesis by (auto simp: begun_def same_run_def)
qed

lemma heartbeat_begun:
  assumes "begun i owner st k s"
  shows "begun i owner st k (op_run E (OpChange_heartbeat i owner now) s)"
proof (cases "get_job s i")
  case None
  with op_run_new[of E "OpChange_heartbeat i owner now" s i] show ?thesis by (fastforce simp: begun_def)
next
  case (Some j)
  have "\<exists>j'. get_job (op_run E (OpChange_heartbeat i owner now) s) i = Some j' \<and>
    (j_status j' = j_status j \<and> j_owner j' = j_owner j \<and> j_started j' = j_started j \<and> j_kind j' = j_kind j)"
    by (rule op_run_related[where R = "\<lambda>j j'. j_status j' = j_status j \<and> j_owner j' = j_owner j \<and>
        j_started j' = j_started j \<and> j_kind j' = j_kind j", OF _ Some])
      (auto simp: heartbeat_update_def split: if_splits)
  with assms Some show ?thesis by (auto simp: begun_def)
qed

lemma advance_begun:
  assumes "no_renewal X i owner" "begun i owner st k (w_redis w)"
  shows "begun i owner st k (w_redis (advance X w))"
  by (rule advance_keeps[where P = "begun i owner st k", OF _ assms(2)])
    (use assms(1) op_run_begun in \<open>auto simp: others_keep_def no_renewal_def list_all_iff\<close>)

lemma wait_shape:
  assumes "wait_child R p u = (r, v)"
  shows "r_world v = advance (re_x R) (r_world u) \<and> (r = Inr False \<longrightarrow> re_wait R p (r_tick u) = None) \<and>
    (r = Inr True \<longrightarrow> r_codes v p \<noteq> None)"
  using assms
  by (auto simp: wait_child_def bindS_def pause_def Let_def split: link.splits option.splits)

lemma heartbeat_accepted:
  assumes "raising (store_call X (heartbeat (xe_jobs X) i owner)) w = (Inr (Some j'), v)"
  shows "owned (xe_jobs X) (w_redis (advance X w)) i owner (xe_now X (w_tick w)) \<and> w_tick v = w_tick w + 1 \<and>
    w_redis v = op_run (xe_jobs X) (OpChange_heartbeat i owner (xe_now X (w_tick w))) (w_redis (advance X w))"
proof -
  from assms have d: "store_call X (heartbeat (xe_jobs X) i owner) w = (Inr (Inr (Some j')), v)"
    by (simp add: raising_Inr)
  then obtain cs where h: "heartbeat (xe_jobs X) i owner (xe_now X (w_tick w)) (w_redis (advance X w)) = Done (Inr (Some j')) cs"
    and v: "v = (advance X w)\<lparr>w_redis := exec cs (w_redis (advance X w))\<rparr>"
    by (auto simp: store_call_def Let_def run_attempt_def split: link.splits attempt.splits)
  from h have "owned (xe_jobs X) (w_redis (advance X w)) i owner (xe_now X (w_tick w))"
    by (auto simp: heartbeat_def change_attempt_def owned_def heartbeat_update_def split: option.splits sum.splits if_splits)
  with v h show ?thesis by (simp add: heartbeat_def)
qed

lemma owned_begun:
  "owned E s i owner t \<Longrightarrow> begun i owner st k s \<Longrightarrow> t < st + job_timeout (env_cfg E) k"
  by (auto simp: owned_def begun_def owns_def split: if_splits option.splits)

lemma bind_true: "fst (bindS m (\<lambda>_. retS True) y) \<noteq> Inr False"
  by (auto simp: bindS_def retS_def split: prod.split sum.split)

lemma loop_with_code: "r_codes w p \<noteq> None \<Longrightarrow> fst (supervise_loop (Suc f) R i owner p w) \<noteq> Inr False"
  by (auto simp: bindS_def returncode_def retS_def split: prod.split sum.split)

lemma supervise_loop_ends:
  assumes n: "no_renewal (re_x R) i owner" and mono: "\<And>m. xe_now (re_x R) m \<le> xe_now (re_x R) (Suc m)"
    and beat: "\<And>m. re_wait R p m = None \<Longrightarrow>
      xe_now (re_x R) m + cfg_heartbeat (env_cfg (xe_jobs (re_x R))) \<le> xe_now (re_x R) (Suc m)"
  shows "begun i owner st k (w_redis (r_world w)) \<Longrightarrow>
    st + job_timeout (env_cfg (xe_jobs (re_x R))) k \<le>
      xe_now (re_x R) (r_tick w) + of_nat f * cfg_heartbeat (env_cfg (xe_jobs (re_x R))) \<Longrightarrow>
    fst (supervise_loop (Suc (Suc f)) R i owner p w) \<noteq> Inr False"
proof (induction f arbitrary: w)
  let ?X = "re_x R"
  let ?hb = "cfg_heartbeat (env_cfg (xe_jobs ?X))" and ?to = "job_timeout (env_cfg (xe_jobs ?X)) k"
  have step: "fst (supervise_loop (Suc (Suc f)) R i owner p w) \<noteq> Inr False"
    if b: "begun i owner st k (w_redis (r_world w))"
      and go: "\<And>t. begun i owner st k (w_redis (r_world t)) \<Longrightarrow> r_tick t = r_tick w + 2 \<Longrightarrow>
        xe_now ?X (r_tick w + 1) < st + ?to \<Longrightarrow> xe_now ?X (r_tick w) + ?hb \<le> xe_now ?X (r_tick w + 1) \<Longrightarrow>
        fst (supervise_loop (Suc f) R i owner p t) \<noteq> Inr False" for f w
  proof -
    obtain c u where u: "returncode R p w = (Inr c, u)" "r_world u = r_world w"
      using returncode_shape[of R p w] by blast
    obtain e u' where e: "wait_child R p u = (e, u')" by (cases "wait_child R p u")
    note ws = wait_shape[OF e]
    obtain r t where t: "on_store (raising (store_call ?X (heartbeat (xe_jobs ?X) i owner))) u' = (r, t)"
      by (cases "on_store (raising (store_call ?X (heartbeat (xe_jobs ?X) i owner))) u'")
    have "fst (supervise_loop (Suc f) R i owner p t) \<noteq> Inr False" if ef: "e = Inr False" and rj: "r = Inr (Some j)" for j
    proof -
      obtain x where x: "raising (store_call ?X (heartbeat (xe_jobs ?X) i owner)) (r_world u') = (Inr (Some j), x)" "r_world t = x"
        using t rj by (auto simp: on_store_def split: prod.splits)
      note h = heartbeat_accepted[OF x(1)]
      have b': "begun i owner st k (w_redis (advance ?X (r_world u')))"
        using ws u b by (simp add: advance_begun[OF n])
      from h owned_begun[OF _ b'] have "xe_now ?X (r_tick u') < st + ?to" by blast
      moreover have "r_tick u' = r_tick w + 1" using ws u by simp
      moreover have "xe_now ?X (r_tick w) + ?hb \<le> xe_now ?X (r_tick w + 1)"
        using beat[of "r_tick w"] ws u ef by simp
      ultimately show ?thesis using go[of t] h b' x heartbeat_begun by simp
    qed
    moreover have "fst (supervise_loop (Suc f) R i owner p u') \<noteq> Inr False" if "e = Inr True"
      using loop_with_code ws that by blast
    ultimately show ?thesis
      using u e t by (cases c; cases e; cases r) (auto simp: bind_true bindS_def[of "returncode R p"] bindS_def[of "wait_child R p"]
          bindS_def[of "on_store (raising (store_call ?X (heartbeat (xe_jobs ?X) i owner)))"] split: option.splits bool.splits)
  qed
  {
    case 0
    show ?case
    proof (rule step[OF 0(1)])
      fix t assume "xe_now ?X (r_tick w + 1) < st + ?to"
      with 0(2) mono[of "r_tick w"] show "fst (supervise_loop (Suc 0) R i owner p t) \<noteq> Inr False" by simp
    qed
  next
    case (Suc f)
    show ?case
    proof (rule step[OF Suc(2)])
      fix t assume t: "begun i owner st k (w_redis (r_world t))" "r_tick t = r_tick w + 2"
        "xe_now ?X (r_tick w) + ?hb \<le> xe_now ?X (r_tick w + 1)"
      from t(2,3) mono[of "r_tick w + 1"] Suc(3) have
        "st + ?to \<le> xe_now ?X (r_tick t) + of_nat f * ?hb" by (simp add: algebra_simps)
      from Suc(1)[OF t(1) this] show "fst (supervise_loop (Suc (Suc f)) R i owner p t) \<noteq> Inr False" .
    qed
  }
qed

lemma clock_mono: "(\<And>m. (f :: nat \<Rightarrow> rat) m \<le> f (Suc m)) \<Longrightarrow> m \<le> n \<Longrightarrow> f m \<le> f n"
  by (rule lift_Suc_mono_le)

text \<open>C13. A supervised job is let go.  The runner watches a child that runs a job, and no other process
  renews the lease of this owner.  If the clock of the store never goes back and moves by at least the
  heartbeat interval over a wait that was not cut short, then supervision ends, after at most as many
  rounds as heartbeats fit into the time the run has left, plus two.  Whatever happened to the child, to the
  store and to the connection, the child has then ended or has its signal; and when supervision ended
  without an exception, the owner no longer owns the job and never will again.\<close>

theorem supervised_job_is_released:
  assumes n: "no_renewal (re_x R) i owner" and mono: "\<And>m. xe_now (re_x R) m \<le> xe_now (re_x R) (Suc m)"
    and beat: "\<And>m. re_wait R p m = None \<Longrightarrow>
      xe_now (re_x R) m + cfg_heartbeat (env_cfg (xe_jobs (re_x R))) \<le> xe_now (re_x R) (Suc m)"
    and run: "begun i owner st k (w_redis (r_world w))"
      "st + job_timeout (env_cfg (xe_jobs (re_x R))) k \<le>
         xe_now (re_x R) (r_tick w) + of_nat f * cfg_heartbeat (env_cfg (xe_jobs (re_x R)))"
      "supervise (f + 2) R i owner p w = (r, v)"
  shows "r \<noteq> Inr False \<and> stopped v p \<and>
    (r = Inr True \<longrightarrow> (\<forall>t \<ge> xe_now (re_x R) (r_tick v). \<not> owned (xe_jobs (re_x R)) (w_redis (r_world v)) i owner t))"
proof -
  obtain q u where m: "supervise_loop (f + 2) R i owner p w = (q, u)" by (cases "supervise_loop (f + 2) R i owner p w")
  have "fst (supervise_loop (Suc (Suc f)) R i owner p w) \<noteq> Inr False"
    by (rule supervise_loop_ends[OF n mono beat run(1,2)])
  with m have q: "q \<noteq> Inr False" by simp
  obtain x u' where s: "stop_child R p u = (x, u')" by (cases "stop_child R p u")
  have rv: "(r, v) = (case x of Inl e \<Rightarrow> (Inl e, u') | Inr _ \<Rightarrow> (q, u'))"
    using run(3) m s q by (auto simp: supervise_def finally_stop_def split: sum.splits bool.splits)
  then have r: "r \<noteq> Inr False" "v = u'" "r = Inr True \<longrightarrow> q = Inr True" using q by (auto split: sum.splits)
  have "stopped v p" using stop_child_stops[of R p u] s r by simp
  moreover have "\<not> owned (xe_jobs (re_x R)) (w_redis (r_world v)) i owner t"
    if t: "r = Inr True" "xe_now (re_x R) (r_tick v) \<le> t" for t
  proof -
    from t r m have "out R i owner u" using supervise_loop_loses[OF n] by blast
    from alwaysD[OF stop_out[OF n] s this] r obtain l where
      l: "l \<le> r_tick v" "\<not> owned (xe_jobs (re_x R)) (w_redis (r_world v)) i owner (xe_now (re_x R) l)"
      by (auto simp: lost_def)
    from clock_mono[where f = "xe_now (re_x R)", OF mono l(1)] t(2) have "xe_now (re_x R) l \<le> t" by simp
    with l(2) owned_earlier show ?thesis by blast
  qed
  ultimately show ?thesis using r by blast
qed

section \<open>Concrete runs\<close>

text \<open>A process runner with one child in advance, asked to stop at once; and the worker of the example,
  whose child ends without having saved a result.\<close>

definition ex_renv :: renv where
  "ex_renv = \<lparr>re_x = ex_xenv, re_wait = (\<lambda>p n. Some 0), re_seen = (\<lambda>p n. None), re_gone = (\<lambda>p n. False),
     re_starts = (\<lambda>n. True), re_takes = (\<lambda>p n. True), re_stop = (\<lambda>n. True), re_uuid = (\<lambda>n. ''u''),
     re_standby = 1, re_embed = False\<rparr>"

definition ex_rworld :: rworld where
  "ex_rworld = \<lparr>r_world = ex_world, r_codes = Map.empty, r_told = {}, r_spawned = 0, r_idle = [], r_lines = []\<rparr>"

lemma ex_begun: "begun ex_id ''w'' 2 Process ex_db2"
  by (simp add: begun_def ex_db2_views) (simp add: ex_running_def claimed_job_def ex_job_def)

lemma supervised_job_is_released_witness:
  "\<exists>r v. supervise 182 ex_renv ex_id ''w'' 0 ex_rworld = (r, v) \<and> r \<noteq> Inr False \<and> stopped v 0"
proof -
  obtain r v where run: "supervise (180 + 2) ex_renv ex_id ''w'' 0 ex_rworld = (r, v)"
    by (cases "supervise (180 + 2) ex_renv ex_id ''w'' 0 ex_rworld")
  have x: "re_x ex_renv = ex_xenv" by (simp add: ex_renv_def)
  have c: "cfg_heartbeat (env_cfg (xe_jobs ex_xenv)) = 10" "job_timeout (env_cfg (xe_jobs ex_xenv)) Process = 1800"
    by (simp_all add: ex_xenv_def ex_env_def ex_cfg_def job_timeout_def)
  have "r \<noteq> Inr False \<and> stopped v 0 \<and>
    (r = Inr True \<longrightarrow> (\<forall>t \<ge> xe_now (re_x ex_renv) (r_tick v). \<not> owned (xe_jobs (re_x ex_renv)) (w_redis (r_world v)) ex_id ''w'' t))"
  proof (rule supervised_job_is_released[OF _ _ _ _ _ run])
    show "no_renewal (re_x ex_renv) ex_id ''w''" by (simp add: no_renewal_def x)
    show "begun ex_id ''w'' 2 Process (w_redis (r_world ex_rworld))" by (simp add: ex_rworld_def ex_begun)
    show "2 + job_timeout (env_cfg (xe_jobs (re_x ex_renv))) Process
      \<le> xe_now (re_x ex_renv) (r_tick ex_rworld) + of_nat 180 * cfg_heartbeat (env_cfg (xe_jobs (re_x ex_renv)))"
      by (simp add: x c)
  qed (simp_all add: x, simp add: ex_renv_def)
  with run show ?thesis by auto
qed

lemma ex_runner: "\<exists>v. runner_loop 5 5 ex_renv Process ''w'' ex_rworld = (Inr True, v) \<and> r_spawned v = 1"
proof -
  have f: "fill ex_renv ex_rworld = (Inr (), ex_rworld\<lparr>r_world := advance ex_xenv ex_world, r_spawned := 1, r_idle := [0]\<rparr>)"
    by (simp add: fill_def bindS_def getS_def retS_def set_idle_def modS_def swallow_def spawn_def pause_def Let_def
        ex_renv_def ex_rworld_def)
  have t: "turns 5 5 ex_renv Process ''w'' w = (Inr True, w)" for w
    by (simp add: numeral_eq_Suc stopping_def ex_renv_def)
  show ?thesis
    by (simp add: runner_loop_def pooled_def bindS_def f t)
      (simp add: ex_renv_def ex_rworld_def close_children_def bindS_def getS_def set_idle_def modS_def stop_child_def returncode_def
        terminate_child_def Let_def wait_child_def pause_def retS_def)
qed

lemma runner_leaves_no_child_witness:
  "\<exists>v. runner_loop 5 5 ex_renv Process ''w'' ex_rworld = (Inr True, v) \<and> r_spawned v = 1 \<and>
     (stopped v 0 \<or> 0 \<in> set (r_idle v))"
proof -
  obtain v where v: "runner_loop 5 5 ex_renv Process ''w'' ex_rworld = (Inr True, v)" "r_spawned v = 1"
    using ex_runner by blast
  from runner_leaves_no_child[OF _ _ _ v(1)] v show ?thesis by (auto simp: ex_rworld_def)
qed

end
