(* ===== verification/ProcessHandler.thy ===== *)
theory ProcessHandler
  imports Execution PipelineRun
begin

text \<open>
  \<open>src/app/jobs/process_handler.py\<close>: the handler of a process job.  It checks the request and the settings,
  opens what the run needs, runs the pipeline in a thread, names the cause of a failure, and scores the
  result when the trip is a test set.  Exceptions are numbered objects that point at each other
  (\<open>__cause__\<close>, \<open>__context__\<close>, \<open>source\<close>); the pipeline is a parameter that ends in one of two continuations,
  a raised exception or a result with the photos it downloaded.  Log records are not modelled.

  Why a process job failed.  The search through the causes of an exception visits every exception that can
  be reached, each once, although they may point at each other in circles; the error of the job is decided
  by what is among them.
\<close>

section \<open>Exceptions and their causes\<close>

record fault =
  fa_exn :: exn
  fa_timeout :: bool
  fa_embedding :: bool
  fa_agent :: bool
  fa_links :: "nat list"

type_synonym faults = "nat \<Rightarrow> fault"

text \<open>The loop over \<open>pending\<close>, which is popped from its end; \<open>seen\<close> are the causes found so far.\<close>

fun gather :: "nat \<Rightarrow> faults \<Rightarrow> nat list \<Rightarrow> nat list \<Rightarrow> nat list option" where
  "gather 0 G todo causes = None"
| "gather (Suc n) G [] causes = Some causes"
| "gather (Suc n) G (p # ps) causes =
     (let c = last (p # ps); rest = butlast (p # ps)
      in if c \<in> set causes then gather n G rest causes else gather n G (rest @ fa_links (G c)) (causes @ [c]))"

definition failure :: "error_code \<Rightarrow> exn" where
  "failure c = Pipeline (PipelineFailure c) []"

definition dependency_error :: "faults \<Rightarrow> nat \<Rightarrow> nat list \<Rightarrow> exn" where
  "dependency_error G x causes =
     (if fa_agent (G x) then fa_exn (G x)
      else if list_ex (\<lambda>c. fa_timeout (G c)) causes then failure TIMEOUT
      else if list_ex (\<lambda>c. fa_embedding (G c)) causes then failure MODEL_NOT_READY
      else fa_exn (G x))"

section \<open>Fingerprints and automatic evaluation\<close>

text \<open>\<open>FingerprintingImages.get_many\<close> on the copies it got; \<open>None\<close> is a fingerprint that failed.\<close>

definition fingerprint_blobs ::
  "(bytes \<Rightarrow> nat list option) \<Rightarrow> (string \<times> int) list \<Rightarrow> (string \<times> bytes) list \<Rightarrow> (int, nat list option) pydict
    \<Rightarrow> (int, nat list option) pydict" where
  "fingerprint_blobs cand ids blobs hashes =
     fold (\<lambda>(key, data) h. case map_of ids key of Some i \<Rightarrow> dict_set i (cand data) h | None \<Rightarrow> h) blobs hashes"

text \<open>The settings, and what is taken from outside.\<close>

record penv =
  hp_parse :: "json \<Rightarrow> process_request option"
  hp_fake :: bool
  hp_model_ok :: bool
  hp_reuse :: bool
  hp_agent :: bool
  hp_setting :: "string \<Rightarrow> bool"
  hp_places :: bool
  hp_clients :: "nat option"
  hp_clients_bad :: bool
  hp_detect :: bool
  hp_references :: "reference_set list option"
  hp_candidates :: "bytes \<Rightarrow> nat list option"
  hp_eval :: eval_env
  hp_model :: string
  hp_faults :: faults
  hp_objects :: nat
  hp_object :: "exn \<Rightarrow> nat"
  hp_opens :: "string \<Rightarrow> nat option"
  hp_pipeline :: "process_request \<Rightarrow> (int, photo_metrics_record) pydict \<Rightarrow> bool \<Rightarrow> (nat \<Rightarrow> handler) \<Rightarrow>
                  (json \<Rightarrow> (string \<times> bytes) list \<Rightarrow> handler) \<Rightarrow> handler"

definition evaluation_enabled :: "penv \<Rightarrow> bool" where
  "evaluation_enabled P \<longleftrightarrow> hp_detect P \<and> (case hp_references P of Some rs \<Rightarrow> rs \<noteq> [] | None \<Rightarrow> False)"

definition auto_evaluate :: "penv \<Rightarrow> json \<Rightarrow> (int, nat list option) pydict \<Rightarrow> report list" where
  "auto_evaluate P result hashes =
     (case closest hashes (case hp_references P of Some rs \<Rightarrow> rs | None \<Rightarrow> []) of
        Inr (Some m) \<Rightarrow>
          if dm_accepted m then (case score (hp_eval P) m result (hp_model P) of Inr rs \<Rightarrow> rs | Inl e \<Rightarrow> [])
          else []
      | _ \<Rightarrow> [])"

text \<open>The fingerprints the upload batches stored, for photos this run does not download.\<close>

definition stored_hashes :: "(int, photo_metrics_record) pydict \<Rightarrow> (int, nat list option) pydict" where
  "stored_hashes stored =
     concat (map (\<lambda>(i, m). case pm_fingerprint m of Some f \<Rightarrow> [(i, Some (map nat f))] | None \<Rightarrow> []) stored)"

section \<open>Opening resources\<close>

definition AGENT_SETTINGS :: "string list" where
  "AGENT_SETTINGS = [''VLM_BASE_URL'', ''VLM_MODEL'', ''PLACE_INDEX_PATH'', ''KAKAO_REST_API_KEY'']"

text \<open>\<open>agent_resources\<close>: nothing when the agent is off; a missing or unusable setting fails the job rather
  than running without the agent.\<close>

definition agent_resources :: "penv \<Rightarrow> exn + bool" where
  "agent_resources P =
     (if \<not> hp_agent P then Inr False
      else if list_ex (\<lambda>n. \<not> hp_setting P n) AGENT_SETTINGS then Inl (failure MODEL_NOT_READY)
      else if \<not> hp_places P then Inl (failure MODEL_NOT_READY)
      else if hp_clients_bad P then Inl (failure MODEL_NOT_READY)
      else case hp_clients P of Some x \<Rightarrow> Inl (fa_exn (hp_faults P x)) | None \<Rightarrow> Inr True)"

text \<open>\<open>check\<close>: a poll; a raised \<open>PipelineCancelled\<close> becomes \<open>True\<close> in \<open>cancelled\<close> and is raised anew.
  The cancellation of the task is no \<open>Exception\<close>.\<close>

definition checked :: "penv \<Rightarrow> (nat \<Rightarrow> handler) \<Rightarrow> handler \<Rightarrow> handler" where
  "checked P raise h = Polls h (\<lambda>e. if e = Cancelled_error then Raises e else raise (hp_object P e))"

definition acquire :: "penv \<Rightarrow> (nat \<Rightarrow> handler) \<Rightarrow> string \<Rightarrow> handler \<Rightarrow> handler" where
  "acquire P raise what h = (case hp_opens P what of Some x \<Rightarrow> raise x | None \<Rightarrow> h)"

definition open_context :: "penv \<Rightarrow> (nat \<Rightarrow> handler) \<Rightarrow> handler \<Rightarrow> handler" where
  "open_context P raise h =
     acquire P raise ''engine'' (checked P raise (acquire P raise ''images'' (acquire P raise ''qdrant''
       (checked P raise (acquire P raise ''vectors'' h)))))"

section \<open>\<open>_run\<close> and \<open>run\<close>\<close>

definition name_failure :: "penv \<Rightarrow> nat \<Rightarrow> handler" where
  "name_failure P x =
     (case gather (4 * hp_objects P + 2) (hp_faults P) [x] [] of
        Some causes \<Rightarrow> Raises (dependency_error (hp_faults P) x causes)
      | None \<Rightarrow> Raises (fa_exn (hp_faults P x)))"

definition photo_keys_of :: "process_request \<Rightarrow> (string \<times> int) list" where
  "photo_keys_of rq = fold (\<lambda>a. dict_set (at_key a) (at_id a)) (rq_attachments rq) []"

definition run_pipeline_job :: "penv \<Rightarrow> process_request \<Rightarrow> (int, photo_metrics_record) pydict \<Rightarrow> bool \<Rightarrow> handler" where
  "run_pipeline_job P rq stored agent =
     (let evaluating = evaluation_enabled P; hashes = (if evaluating then stored_hashes stored else []);
          raise = name_failure P
      in checked P raise (open_context P raise (hp_pipeline P rq stored agent raise (\<lambda>result blobs.
           let hs = (if evaluating then fingerprint_blobs (hp_candidates P) (photo_keys_of rq) blobs hashes else hashes)
           in if hs = [] then Returns result else Notes (auto_evaluate P result hs) (Returns result)))))"

definition request_ok :: "process_request \<Rightarrow> bool" where
  "request_ok rq \<longleftrightarrow> pd_start (rq_period rq) \<le> pd_end (rq_period rq) \<and>
     distinct (map at_id (rq_attachments rq)) \<and> list_all (\<lambda>a. 0 < at_id a) (rq_attachments rq)"

definition process_handler :: "penv \<Rightarrow> json \<Rightarrow> handler" where
  "process_handler P request =
     (case hp_parse P request of
        None \<Rightarrow> Raises (failure INVALID_REQUEST)
      | Some rq \<Rightarrow>
          if \<not> request_ok rq then Raises (failure INVALID_REQUEST)
          else if hp_fake P \<or> \<not> hp_model_ok P then Raises (failure MODEL_NOT_READY)
          else
            let go = (\<lambda>stored. case agent_resources P of
                  Inl e \<Rightarrow> Raises e | Inr agent \<Rightarrow> run_pipeline_job P rq stored agent)
            in Polls (if hp_reuse P
                      then Asks (\<lambda>s. go (photo_metrics (map at_id (rq_attachments rq)) s)) Raises
                      else go []) Raises)"

section \<open>Upload batches\<close>

text \<open>\<open>embed_batch\<close> (\<open>src/app/pipeline/batch.py\<close>): photos that cannot be decoded are left out; the vectors
  it stored come with the metrics.\<close>

definition batch_metrics :: "'i run_env \<Rightarrow> (string, bytes) pydict \<Rightarrow> (int \<times> string) list \<Rightarrow> pipeline_error + (int \<times> photo_metrics) list" where
  "batch_metrics E blobs photos =
     bindE (mapE (\<lambda>(i, key). case map_of blobs key of
              None \<Rightarrow> Inl pipeline_error_default
            | Some b \<Rightarrow> (case re_decode E b of
                  None \<Rightarrow> Inr []
                | Some img \<Rightarrow> (case re_measure E img of
                      None \<Rightarrow> Inl pipeline_error_default | Some m \<Rightarrow> Inr [(i, m)]))) photos) (\<lambda>ms. Inr (concat ms))"

definition embed_batch :: "'i run_env \<Rightarrow> (int, string) pydict \<Rightarrow> pipeline_error + (int \<times> photo_metrics) list \<times> (int \<times> vec) list" where
  "embed_batch E photos =
     bindE (re_get_many E (map snd photos)) (\<lambda>blobs.
     bindE (batch_metrics E blobs photos) (\<lambda>ms.
       if ms = [] then Inr (ms, [])
       else bindE (encode_checked E (map (\<lambda>(i, m). the (map_of blobs (the (map_of photos i)))) ms)) (\<lambda>vs.
              Inr (ms, zip (map fst ms) vs))))"

definition batch_records ::
  "(int, nat list option) pydict \<Rightarrow> (int \<times> photo_metrics) list \<Rightarrow> (int, photo_metrics_record) pydict" where
  "batch_records hashes ms =
     map (\<lambda>(i, m). (i, \<lparr>pm_variance = pmt_variance m, pm_phash = pmt_phash m,
            pm_fingerprint = (case map_of hashes i of Some (Some f) \<Rightarrow> Some (map int f) | _ \<Rightarrow> None)\<rparr>)) ms"

section \<open>The causes of an exception\<close>

definition points_to :: "faults \<Rightarrow> (nat \<times> nat) set" where
  "points_to G = {(a, b). b \<in> set (fa_links (G a))}"

definition causes_of :: "faults \<Rightarrow> nat \<Rightarrow> nat set" where
  "causes_of G x = (points_to G)\<^sup>* `` {x}"

lemma causes_closed: "y \<in> causes_of G x \<Longrightarrow> z \<in> set (fa_links (G y)) \<Longrightarrow> z \<in> causes_of G x"
  by (auto simp: causes_of_def points_to_def intro: rtrancl_into_rtrancl)

lemma causes_least:
  assumes "x \<in> A" "\<And>y z. y \<in> A \<Longrightarrow> z \<in> set (fa_links (G y)) \<Longrightarrow> z \<in> A"
  shows "causes_of G x \<subseteq> A"
proof
  fix y assume "y \<in> causes_of G x"
  then have "(x, y) \<in> (points_to G)\<^sup>*" by (simp add: causes_of_def)
  then show "y \<in> A"
    by (induction rule: rtrancl_induct) (use assms in \<open>auto simp: points_to_def\<close>)
qed

lemma gather_finds:
  assumes few: "\<And>y. length (fa_links (G y)) \<le> 3" and fin: "causes_of G x \<subseteq> {..<N}"
  shows "set todo \<union> set causes \<subseteq> causes_of G x \<Longrightarrow> distinct causes \<Longrightarrow> x \<in> set todo \<union> set causes \<Longrightarrow>
    (\<And>y z. y \<in> set causes \<Longrightarrow> z \<in> set (fa_links (G y)) \<Longrightarrow> z \<in> set todo \<union> set causes) \<Longrightarrow>
    4 * (N - length causes) + length todo < n \<Longrightarrow>
    \<exists>cs. gather n G todo causes = Some cs \<and> distinct cs \<and> set cs = causes_of G x"
proof (induction n arbitrary: todo causes)
  case (Suc n)
  show ?case
  proof (cases todo)
    case Nil
    with causes_least[of x "set causes" G] Suc.prems(1,3,4) have "set causes = causes_of G x" by auto
    with Nil Suc.prems(2) show ?thesis by simp
  next
    case (Cons p ps)
    define c rest where "c = last todo" and "rest = butlast todo"
    have t: "todo = rest @ [c]" using Cons by (simp add: c_def rest_def)
    then have s: "set todo = insert c (set rest)" "length todo = Suc (length rest)" by auto
    show ?thesis
    proof (cases "c \<in> set causes")
      case True
      have "\<exists>cs. gather n G rest causes = Some cs \<and> distinct cs \<and> set cs = causes_of G x"
        by (rule Suc.IH) (use Suc.prems True s in auto)
      then show ?thesis using True Cons by (simp add: c_def rest_def)
    next
      case False
      have c: "c \<in> causes_of G x" using Suc.prems(1) s by auto
      have "length (causes @ [c]) = card (set (causes @ [c]))"
        using False Suc.prems(2) by (intro distinct_card[symmetric]) simp
      also have "\<dots> \<le> card {..<N}"
        using c Suc.prems(1) fin by (intro card_mono) auto
      finally have l: "Suc (length causes) \<le> N" by simp
      have "\<exists>cs. gather n G (rest @ fa_links (G c)) (causes @ [c]) = Some cs \<and> distinct cs \<and> set cs = causes_of G x"
      proof (rule Suc.IH)
        show "set (rest @ fa_links (G c)) \<union> set (causes @ [c]) \<subseteq> causes_of G x"
          using Suc.prems(1) c s causes_closed[OF c] by auto
        show "4 * (N - length (causes @ [c])) + length (rest @ fa_links (G c)) < n"
          using Suc.prems(5) few[of c] l s by simp
        show "y \<in> set (causes @ [c]) \<Longrightarrow> z \<in> set (fa_links (G y)) \<Longrightarrow>
            z \<in> set (rest @ fa_links (G c)) \<union> set (causes @ [c])" for y z
          using Suc.prems(4)[of y z] s by auto
      qed (use Suc.prems False s in auto)
      then show ?thesis using False Cons by (simp add: c_def rest_def Let_def)
    qed
  qed
qed simp

text \<open>C25. A failed process job says why.  Take any exception of the pipeline thread, with the exceptions it
  points at as cause, context or source, and those they point at, in circles or not.  The search for causes
  ends and finds exactly the exceptions that can be reached, each once.  The job then fails with the
  agent's own error when the agent raised it; else with TIMEOUT when a timeout is anywhere among the causes;
  else with MODEL_NOT_READY when the embedding server's failure is; else with the exception as it is.\<close>

theorem failures_named_by_their_cause:
  assumes few: "\<And>y. length (fa_links (hp_faults P y)) \<le> 3"
    and fin: "\<And>y. (x, y) \<in> (points_to (hp_faults P))\<^sup>* \<Longrightarrow> y < hp_objects P"
  shows "(\<exists>cs. gather (4 * hp_objects P + 2) (hp_faults P) [x] [] = Some cs \<and> distinct cs \<and>
       set cs = {y. (x, y) \<in> (points_to (hp_faults P))\<^sup>*}) \<and>
     name_failure P x = Raises
       (if fa_agent (hp_faults P x) then fa_exn (hp_faults P x)
        else if \<exists>y. (x, y) \<in> (points_to (hp_faults P))\<^sup>* \<and> fa_timeout (hp_faults P y) then failure TIMEOUT
        else if \<exists>y. (x, y) \<in> (points_to (hp_faults P))\<^sup>* \<and> fa_embedding (hp_faults P y) then failure MODEL_NOT_READY
        else fa_exn (hp_faults P x))"
proof -
  have f: "causes_of (hp_faults P) x \<subseteq> {..<hp_objects P}" using fin by (auto simp: causes_of_def)
  have x: "x \<in> causes_of (hp_faults P) x" by (simp add: causes_of_def)
  obtain cs where cs: "gather (4 * hp_objects P + 2) (hp_faults P) [x] [] = Some cs" "distinct cs"
    "set cs = causes_of (hp_faults P) x"
    using gather_finds[OF few f, of "[x]" "[]" "4 * hp_objects P + 2"] x by auto
  have r: "causes_of (hp_faults P) x = {y. (x, y) \<in> (points_to (hp_faults P))\<^sup>*}" by (auto simp: causes_of_def)
  have n: "name_failure P x = Raises (dependency_error (hp_faults P) x cs)" by (simp only: name_failure_def cs(1) option.case)
  show ?thesis
    using cs unfolding n r by (auto simp: dependency_error_def list_ex_iff)
qed

text \<open>A timeout that the wrapping exception hides behind a circle of contexts.\<close>

definition ex_faults :: faults where
  "ex_faults x = (if x = 0 then \<lparr>fa_exn = failure INTERNAL_ERROR, fa_timeout = False, fa_embedding = False, fa_agent = False, fa_links = [1]\<rparr>
     else \<lparr>fa_exn = Foreign, fa_timeout = True, fa_embedding = False, fa_agent = False, fa_links = [0]\<rparr>)"

definition ex_penv :: penv where
  "ex_penv = \<lparr>hp_parse = (\<lambda>r. None), hp_fake = False, hp_model_ok = True, hp_reuse = False, hp_agent = False,
     hp_setting = (\<lambda>n. True), hp_places = True, hp_clients = None, hp_clients_bad = False, hp_detect = False,
     hp_references = None, hp_candidates = (\<lambda>b. None), hp_eval = \<lparr>ee_ari = (\<lambda>t p. 0), ee_now = 0\<rparr>,
     hp_model = ''m'', hp_faults = ex_faults, hp_objects = 2, hp_object = (\<lambda>e. 0), hp_opens = (\<lambda>n. None),
     hp_pipeline = (\<lambda>rq stored agent raise ret. raise 0)\<rparr>"

lemma ex_reaches: "(0, y) \<in> (points_to ex_faults)\<^sup>* \<longleftrightarrow> y < 2"
proof
  have s: "causes_of ex_faults 0 \<subseteq> {0, 1}"
    by (rule causes_least) (auto simp: ex_faults_def split: if_splits)
  show "(0, y) \<in> (points_to ex_faults)\<^sup>* \<Longrightarrow> y < 2" using s by (auto simp: causes_of_def)
next
  assume "y < 2"
  moreover have "(0, 1) \<in> points_to ex_faults" by (simp add: points_to_def ex_faults_def)
  ultimately show "(0, y) \<in> (points_to ex_faults)\<^sup>*" by (auto simp: less_2_cases_iff)
qed

lemma failures_named_by_their_cause_witness: "name_failure ex_penv 0 = Raises (failure TIMEOUT)"
proof -
  have e: "hp_faults ex_penv = ex_faults" "hp_objects ex_penv = 2" by (simp_all add: ex_penv_def)
  have few: "length (fa_links (ex_faults y)) \<le> 3" for y by (simp add: ex_faults_def)
  have "\<exists>y. (0, y) \<in> (points_to ex_faults)\<^sup>* \<and> fa_timeout (ex_faults y)"
    by (rule exI[of _ 1]) (simp add: ex_reaches, simp add: ex_faults_def)
  then show ?thesis
    using failures_named_by_their_cause[of ex_penv 0] few by (simp add: e ex_reaches) (simp add: ex_faults_def)
qed

end
