(* ===== verification/PlaceIndex.thy ===== *)
theory PlaceIndex
  imports PyText
begin

text \<open>
  \<open>src/app/infra/place_index.py\<close>: the search of the public place index.  Coordinates and distances are
  reals (the code's floats, without their rounding), so that the bounding box and the great-circle
  distance can be compared.  Of Python's library, \<open>unicodedata\<close> and \<open>str.lower\<close> are the record \<open>unicode\<close>;
  SQLite is a list of rows per table, and what it decides itself (the order in which it returns rows,
  the trigram match and the folding of case it compares by, the rounding of an R-tree's 32-bit bounds) the
  record \<open>sqlite\<close>.
\<close>

section \<open>Names and distances\<close>

record unicode =
  un_nfkc :: "utext \<Rightarrow> utext"
  un_lower :: "utext \<Rightarrow> utext"
  un_category :: "nat \<Rightarrow> string"

definition word_point :: "unicode \<Rightarrow> nat \<Rightarrow> bool" where
  "word_point U c \<longleftrightarrow> take 1 (un_category U c) \<in> {''L'', ''N''}"

definition normalize_name :: "unicode \<Rightarrow> utext option \<Rightarrow> utext" where
  "normalize_name U name =
     filter (word_point U) (un_lower U (un_nfkc U (case name of Some t \<Rightarrow> t | None \<Rightarrow> [])))"

definition GLOBE_RADIUS_M :: real where
  "GLOBE_RADIUS_M = 6371000"

definition radians :: "real \<Rightarrow> real" where
  "radians x = x * pi / 180"

definition degrees :: "real \<Rightarrow> real" where
  "degrees x = x * 180 / pi"

definition haversine_m :: "real \<Rightarrow> real \<Rightarrow> real \<Rightarrow> real \<Rightarrow> real" where
  "haversine_m lat1 lon1 lat2 lon2 =
     (let p1 = radians lat1; p2 = radians lat2; dp = p2 - p1; dl = radians (lon2 - lon1);
          a = sin (dp / 2) ^ 2 + cos p1 * cos p2 * sin (dl / 2) ^ 2
      in 2 * GLOBE_RADIUS_M * arcsin (sqrt a))"

section \<open>The tables\<close>

text \<open>Of the rows of \<open>place_rtree\<close> the columns after the id are the two ends of each side.\<close>

record place_row =
  pr_id :: nat
  pr_source :: string
  pr_source_id :: utext
  pr_name :: utext
  pr_category :: utext
  pr_lat :: real
  pr_lon :: real
  pr_norms :: utext

record rtree_row =
  rt_id :: nat
  rt_min_lat :: real
  rt_max_lat :: real
  rt_min_lon :: real
  rt_max_lon :: real

record place_db =
  db_version :: string
  db_place :: "place_row list"
  db_name :: "(utext \<times> nat) list"
  db_rtree :: "rtree_row list"
  db_fts :: "(utext \<times> nat) list"

record sqlite =
  sq_order :: "place_row list \<Rightarrow> place_row list"
  sq_match :: "utext \<Rightarrow> utext \<Rightarrow> bool"
  sq_fold :: "nat \<Rightarrow> nat"
  sq_down :: "real \<Rightarrow> real"
  sq_up :: "real \<Rightarrow> real"

definition SCHEMA_VERSION :: string where
  "SCHEMA_VERSION = ''2''"

section \<open>Queries\<close>

definition quote_point :: nat where
  "quote_point = 34"

definition fts_phrase :: "utext \<Rightarrow> utext" where
  "fts_phrase t =
     [quote_point] @ concat (map (\<lambda>c. if c = quote_point then [quote_point, quote_point] else [c]) t) @ [quote_point]"

text \<open>The joins and conditions \<open>search\<close> passes to \<open>_query\<close>.\<close>

datatype name_condition = Name_is utext | Name_matches utext | Norms_contain utext

fun joined_rows :: "sqlite \<Rightarrow> place_db \<Rightarrow> name_condition \<Rightarrow> place_row \<Rightarrow> place_row list" where
  "joined_rows S db (Name_is v) p = map (\<lambda>_. p) (filter (\<lambda>(n, i). i = pr_id p \<and> n = v) (db_name db))"
| "joined_rows S db (Name_matches v) p =
     map (\<lambda>_. p) (filter (\<lambda>(n, i). i = pr_id p \<and> sq_match S v n) (db_fts db))"
| "joined_rows S db (Norms_contain v) p = (if uinfix v (pr_norms p) then [p] else [])"

type_synonym box = "real \<times> real \<times> real \<times> real"

definition in_box :: "box \<Rightarrow> rtree_row \<Rightarrow> bool" where
  "in_box b r \<longleftrightarrow>
     (case b of (lat_lo, lat_hi, lon_lo, lon_hi) \<Rightarrow>
        lat_lo \<le> rt_max_lat r \<and> rt_min_lat r \<le> lat_hi \<and> lon_lo \<le> rt_max_lon r \<and> rt_min_lon r \<le> lon_hi)"

definition index_query :: "sqlite \<Rightarrow> place_db \<Rightarrow> name_condition \<Rightarrow> box \<Rightarrow> place_row list" where
  "index_query S db c b =
     sq_order S [x. r \<leftarrow> db_rtree db, p \<leftarrow> db_place db, pr_id p = rt_id r, in_box b r, x \<leftarrow> joined_rows S db c p]"

section \<open>The search\<close>

definition MAX_RADIUS_M :: int where
  "MAX_RADIUS_M = 30000"

definition MAX_TWO_CHAR_RADIUS_M :: int where
  "MAX_TWO_CHAR_RADIUS_M = 5000"

definition MAX_QUERY_CHARS :: nat where
  "MAX_QUERY_CHARS = 64"

record place_candidate =
  pc_id :: utext
  pc_name :: utext
  pc_category :: utext
  pc_source :: string
  pc_lat :: real
  pc_lon :: real
  pc_distance_m :: int

text \<open>An entry of \<open>best\<close>: the negated score, the distance and the row.\<close>

type_synonym hit = "int \<times> real \<times> place_row"

definition collect_row ::
  "real \<Rightarrow> real \<Rightarrow> int \<Rightarrow> int \<Rightarrow> place_row \<Rightarrow> (nat, hit) pydict \<Rightarrow> (nat, hit) pydict" where
  "collect_row lat lon radius sc p best =
     (if (case map_of best (pr_id p) of Some h \<Rightarrow> fst h \<le> - sc | None \<Rightarrow> False) then best
      else let d = haversine_m lat lon (pr_lat p) (pr_lon p)
           in if d \<le> of_int radius then dict_set (pr_id p) (- sc, d, p) best else best)"

definition collect_rows ::
  "real \<Rightarrow> real \<Rightarrow> int \<Rightarrow> int \<times> place_row list \<Rightarrow> (nat, hit) pydict \<Rightarrow> (nat, hit) pydict" where
  "collect_rows lat lon radius srows best = fold (collect_row lat lon radius (fst srows)) (snd srows) best"

definition search_radius :: "utext \<Rightarrow> int \<Rightarrow> int" where
  "search_radius q radius =
     (let cap = if length q = 2 then MAX_TWO_CHAR_RADIUS_M else MAX_RADIUS_M in max 1 (min radius cap))"

definition search_box :: "real \<Rightarrow> real \<Rightarrow> int \<Rightarrow> box" where
  "search_box lat lon radius =
     (let dlat = degrees (of_int radius / GLOBE_RADIUS_M) * (101 / 100);
          dlon = dlat / max (cos (radians (min (\<bar>lat\<bar> + dlat) 89))) (1 / 100)
      in (lat - dlat, lat + dlat, lon - dlon, lon + dlon))"

text \<open>\<open>sorted({q[i:j] ...} - {q})\<close>: the parts of at least three characters, without the query itself.\<close>

definition query_parts :: "utext \<Rightarrow> utext list" where
  "query_parts q =
     sort (filter (\<lambda>t. t \<noteq> q)
       (dedup [take (j - i) (drop i q). i \<leftarrow> [0..<length q], j \<leftarrow> [i + 3..<length q + 1]]))"

definition search_stages :: "sqlite \<Rightarrow> place_db \<Rightarrow> utext \<Rightarrow> box \<Rightarrow> (int \<times> place_row list) list" where
  "search_stages S db q b =
     [(3, index_query S db (Name_is q) b)] @
     (if 3 \<le> length q then [(2, index_query S db (Name_matches (fts_phrase q)) b)]
      else if length q = 2 then [(2, index_query S db (Norms_contain q) b)] else []) @
     map (\<lambda>t. (1, index_query S db (Name_is t) b)) (query_parts q)"

definition hit_key :: "hit \<Rightarrow> int \<times> real \<times> utext \<times> utext" where
  "hit_key h = (case h of (r, d, p) \<Rightarrow> (r, d, of_ascii (pr_source p), pr_source_id p))"

definition round_real :: "real \<Rightarrow> int" where
  "round_real x =
     (let f = \<lfloor>x\<rfloor>; d = x - of_int f
      in if d < 1/2 then f else if 1/2 < d then f + 1 else if even f then f else f + 1)"

definition candidate_of :: "hit \<Rightarrow> place_candidate" where
  "candidate_of h =
     (case h of (r, d, p) \<Rightarrow>
        \<lparr>pc_id = of_ascii ''kb:'' @ of_ascii (pr_source p) @ of_ascii '':'' @ pr_source_id p,
         pc_name = pr_name p, pc_category = pr_category p, pc_source = pr_source p,
         pc_lat = pr_lat p, pc_lon = pr_lon p, pc_distance_m = round_real d\<rparr>)"

text \<open>A Python float; the search refuses all but finite ones.\<close>

datatype pyfloat = Finite real | Infinity | Minus_infinity | Not_a_number

datatype index_error = Not_finite | Wrong_schema

text \<open>\<open>PlaceIndex(path)\<close> on a file that is there.\<close>

definition open_index :: "place_db \<Rightarrow> index_error + place_db" where
  "open_index db = (if db_version db \<noteq> SCHEMA_VERSION then Inl Wrong_schema else Inr db)"

definition index_search ::
  "unicode \<Rightarrow> sqlite \<Rightarrow> place_db \<Rightarrow> utext \<Rightarrow> pyfloat \<Rightarrow> pyfloat \<Rightarrow> int \<Rightarrow> int \<Rightarrow> index_error + place_candidate list" where
  "index_search U S db query lat lon radius limit =
     (let q = take MAX_QUERY_CHARS (normalize_name U (Some query))
      in if q = [] \<or> limit < 1 then Inr []
         else case (lat, lon) of
                (Finite y, Finite x) \<Rightarrow>
                  (let r = search_radius q radius;
                       best = fold (collect_rows y x r) (search_stages S db q (search_box y x r)) []
                   in Inr (map candidate_of (take (nat limit) (sort_key hit_key (map snd best)))))
              | _ \<Rightarrow> Inl Not_finite)"

section \<open>What a search should find\<close>

definition names_of :: "place_db \<Rightarrow> nat \<Rightarrow> utext list" where
  "names_of db i = map fst (filter (\<lambda>(n, j). j = i) (db_name db))"

text \<open>A name contains a query of two characters as it is, and a longer one up to case, as the trigram table
  compares.\<close>

definition name_contains :: "(nat \<Rightarrow> nat) \<Rightarrow> utext \<Rightarrow> utext \<Rightarrow> bool" where
  "name_contains F q n =
     (if 3 \<le> length q then uinfix (map F q) (map F n) else length q = 2 \<and> uinfix q n)"

definition name_score :: "(nat \<Rightarrow> nat) \<Rightarrow> utext \<Rightarrow> utext list \<Rightarrow> int" where
  "name_score F q ns =
     (if q \<in> set ns then 3
      else if list_ex (name_contains F q) ns then 2
      else if list_ex (\<lambda>n. 3 \<le> length n \<and> uinfix n q) ns then 1 else 0)"

definition matching_hits :: "(nat \<Rightarrow> nat) \<Rightarrow> place_db \<Rightarrow> utext \<Rightarrow> real \<Rightarrow> real \<Rightarrow> int \<Rightarrow> hit list" where
  "matching_hits F db q lat lon radius =
     [(- name_score F q (names_of db (pr_id p)), haversine_m lat lon (pr_lat p) (pr_lon p), p).
        p \<leftarrow> db_place db, 0 < name_score F q (names_of db (pr_id p)),
        haversine_m lat lon (pr_lat p) (pr_lon p) \<le> of_int radius]"

end
