(* ===== verification/PlaceBox.thy ===== *)
theory PlaceBox
  imports PlaceIndex
begin

text \<open>
  The geometry of the search: a point within the radius lies in the bounding box.  The box is one per
  cent wider than the radius; the longitude side needs that margin, because the sine of half the
  difference is bounded, not the difference.
\<close>

section \<open>Angles\<close>

lemma radians_diff: "radians x - radians y = radians (x - y)"
  by (simp add: radians_def algebra_simps diff_divide_distrib)

lemma radians_mono [simp]: "radians x \<le> radians y \<longleftrightarrow> x \<le> y"
  by (simp add: radians_def divide_le_cancel)

lemma radians_abs: "\<bar>radians x\<bar> = radians \<bar>x\<bar>"
  by (simp add: radians_def abs_mult)

lemma radians_degrees [simp]: "radians (degrees x) = x"
  by (simp add: radians_def degrees_def)

lemma radians_bounds: "radians 90 = pi / 2" "radians 60 = pi / 3" "radians 180 = pi"
  by (simp_all add: radians_def)

lemma sin_lower: "0 \<le> x \<Longrightarrow> x - x ^ 3 / 6 \<le> sin x" for x :: real
proof -
  assume x: "0 \<le> x"
  have "\<bar>sin x - (\<Sum>m<3. sin_coeff m * x ^ m)\<bar> \<le> inverse (fact 3) * \<bar>x\<bar> ^ 3"
    by (rule Maclaurin_sin_bound)
  moreover have "(\<Sum>m<3. sin_coeff m * x ^ m) = x"
    by (simp add: eval_nat_numeral sin_coeff_def)
  moreover have "inverse (fact 3) * \<bar>x\<bar> ^ 3 = x ^ 3 / 6"
    using x by (simp add: eval_nat_numeral field_simps)
  ultimately show ?thesis by linarith
qed

lemma cos_product_bound: "sin ((b - a) / 2) ^ 2 + cos a * cos b \<le> (1 :: real)"
proof -
  have "cos (2 * ((b - a) / 2)) = 1 - 2 * sin ((b - a) / 2) ^ 2" by (rule cos_double_sin)
  then have "cos (b - a) = 1 - 2 * sin ((b - a) / 2) ^ 2" by (simp only: nonzero_mult_div_cancel_left times_divide_eq_right zero_neq_numeral)
  moreover have "2 * (cos a * cos b) = cos (b - a) + cos (a + b)" by (simp add: cos_add cos_diff)
  moreover have "cos (a + b) \<le> 1" by simp
  ultimately show ?thesis by linarith
qed

section \<open>What a small distance says\<close>

text \<open>The term under the root, for points on the globe.\<close>

definition hav_term :: "real \<Rightarrow> real \<Rightarrow> real \<Rightarrow> real" where
  "hav_term a b l = sin ((b - a) / 2) ^ 2 + cos a * cos b * sin (l / 2) ^ 2"

lemma haversine_term:
  "haversine_m lat1 lon1 lat2 lon2 =
     2 * GLOBE_RADIUS_M * arcsin (sqrt (hav_term (radians lat1) (radians lat2) (radians (lon2 - lon1))))"
  by (simp add: haversine_m_def hav_term_def Let_def)

lemma cos_ge_0: "\<bar>a\<bar> \<le> pi / 2 \<Longrightarrow> 0 \<le> cos a"
  by (rule cos_ge_zero) auto

lemma hav_term_range:
  assumes "\<bar>a\<bar> \<le> pi / 2" "\<bar>b\<bar> \<le> pi / 2"
  shows "0 \<le> hav_term a b l" "hav_term a b l \<le> 1" "sin ((b - a) / 2) ^ 2 \<le> hav_term a b l"
    "cos a * cos b * sin (l / 2) ^ 2 \<le> hav_term a b l"
proof -
  have c: "0 \<le> cos a * cos b" using assms by (simp add: cos_ge_0)
  then have "0 \<le> cos a * cos b * sin (l / 2) ^ 2" by simp
  moreover have "cos a * cos b * sin (l / 2) ^ 2 \<le> cos a * cos b"
    using mult_left_mono[OF _ c, of "sin (l / 2) ^ 2" 1] by (simp add: abs_square_le_1)
  ultimately show "0 \<le> hav_term a b l" "hav_term a b l \<le> 1" "sin ((b - a) / 2) ^ 2 \<le> hav_term a b l"
    "cos a * cos b * sin (l / 2) ^ 2 \<le> hav_term a b l"
    using cos_product_bound[of b a] unfolding hav_term_def by auto
qed

lemma hav_term_le:
  assumes "\<bar>a\<bar> \<le> pi / 2" "\<bar>b\<bar> \<le> pi / 2" and h: "0 \<le> h" "h \<le> pi / 2"
    and "arcsin (sqrt (hav_term a b l)) \<le> h"
  shows "hav_term a b l \<le> sin h ^ 2"
proof -
  have r: "0 \<le> sqrt (hav_term a b l)" "sqrt (hav_term a b l) \<le> 1"
    using hav_term_range[OF assms(1,2), of l] by (auto simp: real_sqrt_le_1_iff)
  then have "- 1 \<le> sqrt (hav_term a b l)" by linarith
  then have "- (pi / 2) \<le> arcsin (sqrt (hav_term a b l))" using r(2) by (rule arcsin_lbound)
  have "sin (arcsin (sqrt (hav_term a b l))) \<le> sin h"
    using h assms(5) \<open>- (pi / 2) \<le> arcsin _\<close> by (intro sin_monotone_2pi_le) auto
  then have "sqrt (hav_term a b l) \<le> sin h"
    by (simp only: sin_arcsin[OF \<open>- 1 \<le> sqrt (hav_term a b l)\<close> r(2)])
  then have "sqrt (hav_term a b l) ^ 2 \<le> sin h ^ 2" using r(1) by (rule power_mono)
  then show ?thesis using hav_term_range(1)[OF assms(1,2), of l] by simp
qed

lemma even_sine: "sin (\<bar>x\<bar> / 2) ^ 2 = sin (x / 2) ^ 2" for x :: real
  by (cases "0 \<le> x") (simp_all add: abs_if)

lemma latitude_close:
  assumes "\<bar>a\<bar> \<le> pi / 2" "\<bar>b\<bar> \<le> pi / 2" and h: "0 \<le> h" "h \<le> pi / 2" and "hav_term a b l \<le> sin h ^ 2"
  shows "\<bar>b - a\<bar> \<le> 2 * h"
proof (rule ccontr)
  assume "\<not> \<bar>b - a\<bar> \<le> 2 * h"
  then have "h < \<bar>b - a\<bar> / 2" "\<bar>b - a\<bar> / 2 \<le> pi / 2" using assms(1,2) by auto
  then have "sin h < sin (\<bar>b - a\<bar> / 2)" using h by (intro sin_monotone_2pi) auto
  moreover have "0 \<le> sin h" using h by (intro sin_ge_zero) auto
  ultimately have "sin h ^ 2 < sin (\<bar>b - a\<bar> / 2) ^ 2" by (intro power_strict_mono) auto
  also have "sin (\<bar>b - a\<bar> / 2) ^ 2 = sin ((b - a) / 2) ^ 2"
    by (rule even_sine)
  also have "\<dots> \<le> hav_term a b l" by (rule hav_term_range(3)[OF assms(1,2)])
  finally show False using assms(5) by simp
qed


lemma small_angle:
  assumes x: "0 \<le> x" "x \<le> 13 * pi / 15" and k: "sin x \<le> k" "k \<le> 48 / 10000"
  shows "x \<le> (101 / 100) * k"
proof -
  have pi: "2 \<le> pi" by (rule pi_ge_two)
  have tenth: "99 / 10000 \<le> sin (1 / 100 :: real)"
    using sin_lower[of "1 / 100"] by (simp add: eval_nat_numeral)
  have "x < 1 / 100"
  proof (rule ccontr)
    assume "\<not> x < 1 / 100"
    then have big: "1 / 100 \<le> x" by simp
    have "sin (1 / 100) \<le> sin x"
    proof (cases "x \<le> pi / 2")
      case True
      then show ?thesis using big pi by (intro sin_monotone_2pi_le) auto
    next
      case False
      then have "sin (1 / 100) \<le> sin (pi - x)" using x pi by (intro sin_monotone_2pi_le) auto
      then show ?thesis by simp
    qed
    with tenth k show False by linarith
  qed
  then have "x ^ 2 \<le> (1 / 100) ^ 2" using x(1) by (intro power_mono) auto
  then have "x * x ^ 2 \<le> x * (1 / 100) ^ 2" using x(1) by (intro mult_left_mono)
  then have "x ^ 3 / 6 \<le> x / 60000" by (simp add: eval_nat_numeral)
  with sin_lower[OF x(1)] k(1) have "x - x / 60000 \<le> k" by linarith
  then show ?thesis using x(1) by linarith
qed

lemma longitude_close:
  assumes "\<bar>a\<bar> \<le> pi / 2" "\<bar>b\<bar> \<le> pi / 2" and h: "0 \<le> h" "h \<le> 24 / 10000"
    and le: "hav_term a b l \<le> sin h ^ 2"
    and c: "1 / 2 \<le> c" "c \<le> cos a" "c \<le> cos b" and l: "\<bar>l\<bar> \<le> 26 * pi / 15"
  shows "\<bar>l\<bar> \<le> 2 * ((101 / 100) * (h / c))"
proof -
  define s where "s = sin (\<bar>l\<bar> / 2)"
  have "c * c \<le> cos a * cos b" using c by (intro mult_mono) auto
  then have "c * c * s ^ 2 \<le> cos a * cos b * s ^ 2" by (rule mult_right_mono) simp
  also have "\<dots> \<le> hav_term a b l"
    using hav_term_range(4)[OF assms(1,2), of l] by (simp add: s_def even_sine)
  finally have "(c * s) ^ 2 \<le> sin h ^ 2" using le by (simp add: power2_eq_square mult_ac)
  moreover have "0 \<le> sin h" "sin h \<le> h" using h pi_ge_two by (auto intro: sin_ge_zero sin_x_le_x)
  ultimately have "c * s \<le> h" by (meson order_trans power2_le_imp_le)
  then have "s \<le> h / c" using c(1) by (simp add: field_simps)
  moreover have "h / c \<le> 48 / 10000"
  proof -
    have "h / c \<le> h / (1 / 2)" using h c(1) by (intro divide_left_mono) auto
    also have "\<dots> \<le> 48 / 10000" using h(2) by simp
    finally show ?thesis .
  qed
  ultimately have "\<bar>l\<bar> / 2 \<le> (101 / 100) * (h / c)"
    using l unfolding s_def by (intro small_angle) auto
  then show ?thesis by linarith
qed

section \<open>The box holds the circle\<close>

text \<open>The rectangle \<open>build_place_index.py\<close> keeps places of.\<close>

definition in_korea :: "real \<Rightarrow> real \<Rightarrow> bool" where
  "in_korea lat lon \<longleftrightarrow> 33 \<le> lat \<and> lat \<le> 387 / 10 \<and> 1245 / 10 \<le> lon \<and> lon \<le> 1319 / 10"

lemma near_in_box:
  assumes globe: "\<bar>lat\<bar> \<le> 90" "\<bar>lon\<bar> \<le> 180" and p: "in_korea plat plon"
    and r: "1 \<le> r" "r \<le> 30000" and near: "haversine_m lat lon plat plon \<le> of_int r"
    and box: "search_box lat lon r = (lat_lo, lat_hi, lon_lo, lon_hi)"
  shows "lat_lo \<le> plat \<and> plat \<le> lat_hi \<and> lon_lo \<le> plon \<and> plon \<le> lon_hi"
proof -
  define h where "h = of_int r / (2 * GLOBE_RADIUS_M)"
  define D where "D = degrees (2 * h) * (101 / 100)"
  define c where "c = cos (radians (\<bar>lat\<bar> + D))"
  let ?a = "radians lat" and ?b = "radians plat" and ?l = "radians (plon - lon)"
  have h: "0 \<le> h" "h \<le> 24 / 10000" using r by (auto simp: h_def GLOBE_RADIUS_M_def)
  have pi: "2 \<le> pi" by (rule pi_ge_two)
  have ab: "\<bar>?a\<bar> \<le> pi / 2" "\<bar>?b\<bar> \<le> pi / 2"
    using globe(1) p by (auto simp: radians_abs in_korea_def simp flip: radians_bounds(1))
  have "arcsin (sqrt (hav_term ?a ?b ?l)) \<le> h"
    using near by (simp add: haversine_term h_def GLOBE_RADIUS_M_def field_simps)
  then have le: "hav_term ?a ?b ?l \<le> sin h ^ 2" using ab h pi by (intro hav_term_le) auto
  have D: "radians D = 2 * h * (101 / 100)" "0 \<le> D"
    using h by (simp_all add: D_def radians_def degrees_def)
  have lat: "\<bar>plat - lat\<bar> \<le> D"
  proof -
    have "\<bar>?b - ?a\<bar> \<le> 2 * h" using ab h pi le by (intro latitude_close) auto
    also have "\<dots> \<le> radians D" using h D by simp
    finally show ?thesis by (simp add: radians_diff radians_abs)
  qed
  have "D \<le> 1" using h pi by (simp add: D_def degrees_def field_simps)
  with lat p have small: "\<bar>lat\<bar> + D \<le> 60" by (auto simp: in_korea_def)
  have "\<bar>plat\<bar> \<le> \<bar>lat\<bar> + D" using lat by linarith
  have "cos (radians 60) \<le> c" unfolding c_def
    using small D(2) pi by (intro cos_monotone_0_pi_le) (auto simp: radians_def)
  then have c2: "1 / 2 \<le> c" by (simp add: radians_bounds cos_60)
  have cmono: "c \<le> cos (radians x)" if "\<bar>x\<bar> \<le> \<bar>lat\<bar> + D" for x
  proof -
    have "c \<le> cos \<bar>radians x\<bar>" unfolding c_def radians_abs
      using that small pi by (intro cos_monotone_0_pi_le) (auto simp: radians_def)
    then show ?thesis by simp
  qed
  have "\<bar>?l\<bar> \<le> 26 * pi / 15"
  proof -
    have "\<bar>plon - lon\<bar> \<le> 312" using globe(2) p by (auto simp: in_korea_def)
    then have "radians \<bar>plon - lon\<bar> \<le> radians 312" by simp
    then have "\<bar>?l\<bar> \<le> radians 312" by (simp only: radians_abs)
    then show ?thesis by (simp add: radians_def)
  qed
  then have "\<bar>?l\<bar> \<le> 2 * ((101 / 100) * (h / c))"
    using c2 cmono[of lat] cmono[of plat] D(2) \<open>\<bar>plat\<bar> \<le> \<bar>lat\<bar> + D\<close>
    by (intro longitude_close[OF ab h le]) auto
  also have "\<dots> = radians (D / c)" by (simp add: D_def radians_def degrees_def)
  finally have lon: "\<bar>plon - lon\<bar> \<le> D / c" by (simp add: radians_abs)
  have "min (\<bar>lat\<bar> + D) 89 = \<bar>lat\<bar> + D" "max c (1 / 100) = c" using small c2 by auto
  then have "search_box lat lon r = (lat - D, lat + D, lon - D / c, lon + D / c)"
    by (simp add: search_box_def Let_def D_def h_def c_def GLOBE_RADIUS_M_def)
  with box lat lon show ?thesis by auto
qed

end
