(* ===== verification/PlaceBuild.thy ===== *)
theory PlaceBuild
  imports PlaceBox
begin

text \<open>
  \<open>src/scripts/build_place_index.py\<close>: the tables of the index from the collected files.  A row of a JSON
  file is an object, a row of a CSV file a dictionary whose values are texts, or \<open>None\<close> in a short row.
  \<open>float(value)\<close> and \<open>json.loads\<close> are parameters (\<open>None\<close> is a \<open>TypeError\<close> or \<open>ValueError\<close>).  The script
  stops on a missing column or a value of another type than the files have: then the result is \<open>None\<close>.
\<close>

type_synonym json_row = "(string \<times> json) list"
type_synonym csv_row = "(utext \<times> utext option) list"

text \<open>What a reader yields: the id, the coordinates, the names and the category.\<close>

record raw_place =
  rp_id :: utext
  rp_lat :: json
  rp_lon :: json
  rp_names :: "json list"
  rp_category :: json

section \<open>Reading values\<close>

definition json_get :: "json_row \<Rightarrow> string \<Rightarrow> json" where
  "json_get x k = (case map_of x k of Some v \<Rightarrow> v | None \<Rightarrow> JNull)"

fun cell_json :: "utext option \<Rightarrow> json" where
  "cell_json None = JNull"
| "cell_json (Some u) = JStr u"

definition csv_get :: "csv_row \<Rightarrow> utext \<Rightarrow> json" where
  "csv_get x k = (case map_of x k of Some v \<Rightarrow> cell_json v | None \<Rightarrow> JNull)"

definition csv_item :: "csv_row \<Rightarrow> utext \<Rightarrow> json option" where
  "csv_item x k = map_option cell_json (map_of x k)"

fun text_of :: "json \<Rightarrow> utext option" where
  "text_of (JStr u) = Some u"
| "text_of _ = None"

text \<open>A text in an f-string; \<open>None\<close> is written out.\<close>

fun format_text :: "json \<Rightarrow> utext option" where
  "format_text (JStr u) = Some u"
| "format_text JNull = Some (of_ascii ''None'')"
| "format_text _ = None"

definition bar_point :: nat where
  "bar_point = 124"

fun values_of :: "json \<Rightarrow> json list option" where
  "values_of (JObj kvs) = Some (map snd kvs)"
| "values_of _ = None"

section \<open>The readers\<close>

abbreviation ascii :: "string \<Rightarrow> utext" where
  "ascii \<equiv> of_ascii"

definition tourapi_row :: "json_row \<Rightarrow> raw_place option" where
  "tourapi_row x =
     Option.bind (Option.bind (map_of x ''contentid'') text_of) (\<lambda>i.
     Option.bind (Option.bind (map_of x ''contenttypeid'') format_text) (\<lambda>t.
       Some \<lparr>rp_id = i, rp_lat = json_get x ''mapy'', rp_lon = json_get x ''mapx'',
             rp_names = [json_get x ''title''], rp_category = JStr (ascii ''type='' @ t)\<rparr>))"

definition LATITUDE :: utext where "LATITUDE = [50948, 46020]"
definition LONGITUDE :: utext where "LONGITUDE = [44221, 46020]"

definition std_tourist_rows :: "utext \<times> csv_row list \<Rightarrow> raw_place list" where
  "std_tourist_rows file =
     (case file of (stem, rows) \<Rightarrow>
        map (\<lambda>(i, x). \<lparr>rp_id = stem @ ascii ''#'' @ ascii (nat_str i),
               rp_lat = csv_get x LATITUDE, rp_lon = csv_get x LONGITUDE,
               rp_names = [csv_get x [44288, 44305, 51648, 47749]],
               rp_category = csv_get x [44288, 44305, 51648, 44396, 48516]\<rparr>) (List.enumerate 0 rows))"

text \<open>\<open>sorted(glob('*.csv'))\<close>: by the file names.\<close>

definition std_tourist :: "(utext \<times> csv_row list) list \<Rightarrow> raw_place list" where
  "std_tourist files = concat (map std_tourist_rows (sort_key (\<lambda>f. fst f @ ascii ''.csv'') files))"

definition semas_row :: "csv_row \<Rightarrow> raw_place option" where
  "semas_row x =
     Option.bind (csv_item x [49345, 54840, 47749]) (\<lambda>name.
     Option.bind (csv_item x [51648, 51216, 47749]) (\<lambda>branch.
     Option.bind (if truthy_json branch
                  then Option.bind (format_text name) (\<lambda>n. Option.bind (format_text branch) (\<lambda>b.
                         Some [name, JStr (n @ ascii '' '' @ b)]))
                  else Some [name]) (\<lambda>names.
     Option.bind (Option.bind (csv_item x [49345, 44032, 50629, 49548, 48264, 54840]) text_of) (\<lambda>i.
     Option.bind (csv_item x LATITUDE) (\<lambda>lat.
     Option.bind (csv_item x LONGITUDE) (\<lambda>lon.
     Option.bind (csv_item x [49345, 44428, 50629, 51333, 49548, 48516, 47448, 47749]) (\<lambda>c.
       Some \<lparr>rp_id = i, rp_lat = lat, rp_lon = lon, rp_names = names, rp_category = c\<rparr>)))))))"

definition wikidata_row :: "json_row \<Rightarrow> raw_place option" where
  "wikidata_row x =
     Option.bind (map_of x ''label_ko'') (\<lambda>ko.
     Option.bind (case map_of x ''alias_ko'' of None \<Rightarrow> Some [] | Some a \<Rightarrow> text_of a) (\<lambda>alias.
     Option.bind (Option.bind (map_of x ''qid'') text_of) (\<lambda>i.
     Option.bind (map_of x ''lat'') (\<lambda>lat.
     Option.bind (map_of x ''lon'') (\<lambda>lon.
       Some \<lparr>rp_id = i, rp_lat = lat, rp_lon = lon,
             rp_names = [ko, json_get x ''label_en''] @ map JStr (split_at bar_point alias),
             rp_category = json_get x ''p31_ko''\<rparr>)))))"

definition overture_row :: "(utext \<Rightarrow> json option) \<Rightarrow> csv_row \<Rightarrow> raw_place option" where
  "overture_row loads x =
     Option.bind (csv_item x (ascii ''name_primary'')) (\<lambda>n.
     Option.bind (csv_item x (ascii ''names_common'')) (\<lambda>common.
     Option.bind (case common of JStr (c # u) \<Rightarrow> Option.bind (loads (c # u)) values_of | _ \<Rightarrow> Some []) (\<lambda>vs.
     Option.bind (Option.bind (csv_item x (ascii ''names_rules'')) text_of) (\<lambda>rules.
     Option.bind (csv_item x (ascii ''brand_primary'')) (\<lambda>brand.
     Option.bind (Option.bind (csv_item x (ascii ''id'')) text_of) (\<lambda>i.
     Option.bind (csv_item x (ascii ''lat'')) (\<lambda>lat.
     Option.bind (csv_item x (ascii ''lon'')) (\<lambda>lon.
     Option.bind (csv_item x (ascii ''basic_category'')) (\<lambda>c.
       Some \<lparr>rp_id = i, rp_lat = lat, rp_lon = lon,
             rp_names = [n] @ vs @ map JStr (split_at bar_point rules) @ [brand], rp_category = c\<rparr>)))))))))"

definition OSM_NAME_FIELDS :: "utext list" where
  "OSM_NAME_FIELDS = map ascii [''name'', ''name_ko'', ''name_en'', ''name_ko-Latn'', ''alt_name'',
     ''alt_name_ko'', ''old_name'', ''official_name'', ''short_name'', ''loc_name'', ''brand'', ''brand_ko'']"

text \<open>The names of branches: base and branch, where the base does not say the branch already.\<close>

definition branch_names :: "csv_row \<Rightarrow> json list" where
  "branch_names x =
     (case csv_get x (ascii ''branch'') of
        JStr (c # u) \<Rightarrow>
          [JStr (b @ ascii '' '' @ c # u). base \<leftarrow> [ascii ''name'', ascii ''brand''],
             JStr b \<leftarrow> [csv_get x base], b \<noteq> [], \<not> uinfix (c # u) b]
      | _ \<Rightarrow> [])"

definition other_names :: "(utext \<Rightarrow> json option) \<Rightarrow> json \<Rightarrow> json list option" where
  "other_names loads v =
     (case v of
        JStr (c # u) \<Rightarrow>
          Option.bind (Option.bind (loads (c # u)) values_of) (\<lambda>vs.
          Option.bind (all_some (map text_of vs)) (\<lambda>us. Some (map JStr (concat (map (split_at 59) us)))))
      | _ \<Rightarrow> Some [])"

definition osm_row :: "(utext \<Rightarrow> json option) \<Rightarrow> csv_row \<Rightarrow> raw_place option" where
  "osm_row loads x =
     Option.bind (Option.bind (csv_item x (ascii ''other_names'')) (other_names loads)) (\<lambda>others.
     Option.bind (Option.bind (csv_item x (ascii ''osm_type'')) format_text) (\<lambda>t.
     Option.bind (Option.bind (csv_item x (ascii ''osm_id'')) format_text) (\<lambda>i.
     Option.bind (csv_item x (ascii ''lat'')) (\<lambda>lat.
     Option.bind (csv_item x (ascii ''lon'')) (\<lambda>lon.
     Option.bind (csv_item x (ascii ''main_tag'')) (\<lambda>tag.
       Some \<lparr>rp_id = t @ ascii ''/'' @ i, rp_lat = lat, rp_lon = lon,
             rp_names = map (csv_get x) OSM_NAME_FIELDS @ branch_names x @ others, rp_category = tag\<rparr>))))))"

section \<open>Keeping a place\<close>

definition coordinate :: "(json \<Rightarrow> pyfloat option) \<Rightarrow> json \<Rightarrow> pyfloat option" where
  "coordinate to_float v =
     (case to_float v of Some f \<Rightarrow> if f = Not_a_number then None else Some f | None \<Rightarrow> None)"

definition kept_point :: "pyfloat option \<Rightarrow> pyfloat option \<Rightarrow> (real \<times> real) option" where
  "kept_point lat lon =
     (case (lat, lon) of
        (Some (Finite y), Some (Finite x)) \<Rightarrow> if in_korea y x then Some (y, x) else None
      | _ \<Rightarrow> None)"

text \<open>\<open>n.strip() for n in names if n and n.strip()\<close>.\<close>

fun stripped :: "json list \<Rightarrow> utext list option" where
  "stripped [] = Some []"
| "stripped (n # ns) =
     (case n of
        JStr u \<Rightarrow> map_option (\<lambda>ls. if ustrip u = [] then ls else ustrip u # ls) (stripped ns)
      | _ \<Rightarrow> if truthy_json n then None else stripped ns)"

fun category_text :: "json \<Rightarrow> utext option" where
  "category_text (JStr u) = Some u"
| "category_text j = (if truthy_json j then None else Some [])"

definition join_names :: "utext list \<Rightarrow> utext" where
  "join_names ns = (case ns of [] \<Rightarrow> [] | n # ms \<Rightarrow> n @ concat (map (\<lambda>m. bar_point # m) ms))"

record build_state =
  bs_db :: place_db
  bs_pid :: nat
  bs_kept :: "(string, nat) pydict"
  bs_dropped :: "(string, nat) pydict"

definition count_up :: "string \<Rightarrow> (string, nat) pydict \<Rightarrow> (string, nat) pydict" where
  "count_up k d = dict_set k (dict_get 0 d k + 1) d"

definition insert_place ::
  "sqlite \<Rightarrow> string \<Rightarrow> utext \<Rightarrow> utext list \<Rightarrow> utext list \<Rightarrow> utext \<Rightarrow> real \<times> real \<Rightarrow> nat \<Rightarrow> place_db \<Rightarrow> place_db" where
  "insert_place S source i labels norms c pt pid db =
     (case pt of (y, x) \<Rightarrow> db\<lparr>
        db_place := db_place db @ [\<lparr>pr_id = pid, pr_source = source, pr_source_id = i, pr_name = hd labels,
           pr_category = c, pr_lat = y, pr_lon = x, pr_norms = join_names norms\<rparr>],
        db_rtree := db_rtree db @ [\<lparr>rt_id = pid, rt_min_lat = sq_down S y, rt_max_lat = sq_up S y,
           rt_min_lon = sq_down S x, rt_max_lon = sq_up S x\<rparr>],
        db_name := db_name db @ map (\<lambda>n. (n, pid)) norms,
        db_fts := db_fts db @ map (\<lambda>n. (n, pid)) (filter (\<lambda>n. 3 \<le> length n) norms)\<rparr>)"

definition normal_names :: "unicode \<Rightarrow> utext list \<Rightarrow> utext list" where
  "normal_names U labels = filter (\<lambda>n. n \<noteq> []) (dedup (map (\<lambda>l. normalize_name U (Some l)) labels))"

definition add_place ::
  "unicode \<Rightarrow> sqlite \<Rightarrow> (json \<Rightarrow> pyfloat option) \<Rightarrow> string \<Rightarrow> raw_place \<Rightarrow> utext list \<times> build_state \<Rightarrow>
   (utext list \<times> build_state) option" where
  "add_place U S to_float source rp acc =
     (case acc of (seen, st) \<Rightarrow>
        case kept_point (coordinate to_float (rp_lat rp)) (coordinate to_float (rp_lon rp)) of
          None \<Rightarrow> Some (seen, st\<lparr>bs_dropped := count_up (source @ '':coordinate'') (bs_dropped st)\<rparr>)
        | Some pt \<Rightarrow>
            Option.bind (stripped (rp_names rp)) (\<lambda>ls.
              let labels = dedup ls; norms = normal_names U labels
              in if norms = []
                 then Some (seen, st\<lparr>bs_dropped := count_up (source @ '':name'') (bs_dropped st)\<rparr>)
                 else if rp_id rp \<in> set seen
                 then Some (seen, st\<lparr>bs_dropped := count_up (source @ '':duplicate'') (bs_dropped st)\<rparr>)
                 else Option.bind (category_text (rp_category rp)) (\<lambda>c.
                        Some (rp_id rp # seen,
                          st\<lparr>bs_pid := bs_pid st + 1,
                             bs_db := insert_place S source (rp_id rp) labels norms c pt (bs_pid st + 1) (bs_db st),
                             bs_kept := count_up source (bs_kept st)\<rparr>))))"

fun add_places ::
  "unicode \<Rightarrow> sqlite \<Rightarrow> (json \<Rightarrow> pyfloat option) \<Rightarrow> string \<Rightarrow> raw_place list \<Rightarrow> utext list \<times> build_state \<Rightarrow>
   (utext list \<times> build_state) option" where
  "add_places U S to_float source [] acc = Some acc"
| "add_places U S to_float source (rp # rps) acc =
     Option.bind (add_place U S to_float source rp acc) (add_places U S to_float source rps)"

fun add_sources ::
  "unicode \<Rightarrow> sqlite \<Rightarrow> (json \<Rightarrow> pyfloat option) \<Rightarrow> (string \<times> raw_place list) list \<Rightarrow> build_state \<Rightarrow>
   build_state option" where
  "add_sources U S to_float [] st = Some st"
| "add_sources U S to_float ((source, rps) # more_sources) st =
     Option.bind (add_places U S to_float source rps ([], st)) (\<lambda>(seen, st').
       add_sources U S to_float more_sources st')"

section \<open>The script\<close>

record raw_files =
  rf_tourapi :: "json_row list"
  rf_std_tourist :: "(utext \<times> csv_row list) list"
  rf_semas :: "csv_row list"
  rf_wikidata :: "json_row list"
  rf_overture :: "csv_row list"
  rf_osm :: "csv_row list"

definition read_sources :: "(utext \<Rightarrow> json option) \<Rightarrow> raw_files \<Rightarrow> (string \<times> raw_place list) list option" where
  "read_sources loads raw =
     Option.bind (all_some (map tourapi_row (rf_tourapi raw))) (\<lambda>a.
     Option.bind (all_some (map semas_row (rf_semas raw))) (\<lambda>c.
     Option.bind (all_some (map wikidata_row (rf_wikidata raw))) (\<lambda>d.
     Option.bind (all_some (map (overture_row loads) (rf_overture raw))) (\<lambda>e.
     Option.bind (all_some (map (osm_row loads) (rf_osm raw))) (\<lambda>f.
       Some [(''tourapi'', a), (''std_tourist'', std_tourist (rf_std_tourist raw)), (''semas'', c),
             (''wikidata'', d), (''overture'', e), (''osm'', f)])))))"

definition empty_db :: place_db where
  "empty_db = \<lparr>db_version = '''', db_place = [], db_name = [], db_rtree = [], db_fts = []\<rparr>"

definition build_index ::
  "unicode \<Rightarrow> sqlite \<Rightarrow> (json \<Rightarrow> pyfloat option) \<Rightarrow> (utext \<Rightarrow> json option) \<Rightarrow> raw_files \<Rightarrow> build_state option" where
  "build_index U S to_float loads raw =
     Option.bind (read_sources loads raw) (\<lambda>sources.
     Option.bind (add_sources U S to_float sources \<lparr>bs_db = empty_db, bs_pid = 0, bs_kept = [], bs_dropped = []\<rparr>) (\<lambda>st.
       Some (st\<lparr>bs_db := (bs_db st)\<lparr>db_version := SCHEMA_VERSION\<rparr>\<rparr>)))"

end
