(* ===== verification/PlaceLemmas.thy ===== *)
theory PlaceLemmas
  imports PlaceBuild
begin

text \<open>
  What the tables of a built index agree on (\<open>index_ok\<close>, which \<open>build_index\<close> establishes), and what the
  queries return on such tables.  \<open>unicode_ok\<close> and \<open>sqlite_ok\<close> are what the code relies on: the bar is
  neither letter nor digit; SQLite returns every row, rounds the bounds of an R-tree outwards, and
  its trigram table (\<open>tokenize = 'trigram'\<close>, which is not case sensitive) finds a phrase of at least three characters in
  the names that contain it when every character of both is folded (\<open>sq_fold\<close>).
\<close>

definition unicode_ok :: "unicode \<Rightarrow> bool" where
  "unicode_ok U \<longleftrightarrow> \<not> word_point U bar_point"

definition word_text :: "unicode \<Rightarrow> utext \<Rightarrow> bool" where
  "word_text U t \<longleftrightarrow> list_all (word_point U) t"

definition sqlite_ok :: "unicode \<Rightarrow> sqlite \<Rightarrow> bool" where
  "sqlite_ok U S \<longleftrightarrow>
     (\<forall>rows. mset (sq_order S rows) = mset rows) \<and>
     (\<forall>x. sq_down S x \<le> x \<and> x \<le> sq_up S x) \<and>
     (\<forall>t n. word_text U t \<longrightarrow> word_text U n \<longrightarrow> 3 \<le> length t \<longrightarrow> 
        sq_match S (fts_phrase t) n = uinfix (map (sq_fold S) t) (map (sq_fold S) n))"

definition index_ok :: "unicode \<Rightarrow> sqlite \<Rightarrow> place_db \<Rightarrow> bool" where
  "index_ok U S db \<longleftrightarrow>
     distinct (map pr_id (db_place db)) \<and>
     inj_on (\<lambda>p. (pr_source p, pr_source_id p)) (set (db_place db)) \<and>
     (\<forall>p \<in> set (db_place db). in_korea (pr_lat p) (pr_lon p) \<and>
        pr_norms p = join_names (names_of db (pr_id p)) \<and>
        (\<exists>r \<in> set (db_rtree db). rt_id r = pr_id p \<and> rt_min_lat r \<le> pr_lat p \<and> pr_lat p \<le> rt_max_lat r \<and>
           rt_min_lon r \<le> pr_lon p \<and> pr_lon p \<le> rt_max_lon r)) \<and>
     (\<forall>(n, i) \<in> set (db_name db). n \<noteq> [] \<and> word_text U n) \<and>
     set (db_fts db) = {(n, i) \<in> set (db_name db). 3 \<le> length n}"

section \<open>Names\<close>

lemma normalize_word_text: "word_text U (normalize_name U t)"
  by (simp add: word_text_def normalize_name_def list_all_iff)

lemma word_text_take: "word_text U t \<Longrightarrow> word_text U (take n t)"
  by (auto simp: word_text_def list_all_iff dest: in_set_takeD)

lemma in_names_of [simp]: "n \<in> set (names_of db i) \<longleftrightarrow> (n, i) \<in> set (db_name db)"
  by (auto simp: names_of_def image_iff)

text \<open>A text without bars does not cross the boundaries of joined names.\<close>

lemma uinfix_bar:
  assumes "t \<noteq> []" "bar_point \<notin> set t"
  shows "uinfix t (u @ bar_point # v) \<longleftrightarrow> uinfix t u \<or> uinfix t v"
proof
  assume "uinfix t u \<or> uinfix t v"
  then show "uinfix t (u @ bar_point # v)"
    unfolding uinfix_append by (metis append.assoc append_Cons)
next
  assume "uinfix t (u @ bar_point # v)"
  then obtain a b where e: "u @ bar_point # v = a @ t @ b" by (auto simp: uinfix_append)
  then consider w where "u @ w = a" "bar_point # v = w @ t @ b" | w where "u = a @ w" "w @ bar_point # v = t @ b"
    by (auto simp: append_eq_append_conv2)
  then show "uinfix t u \<or> uinfix t v"
  proof cases
    case 1
    show ?thesis
    proof (cases w)
      case Nil
      with 1(2) assms show ?thesis by (cases t) auto
    next
      case (Cons c w')
      with 1(2) show ?thesis by (auto simp: uinfix_append)
    qed
  next
    case 2
    then obtain x where "w = t @ x \<and> x @ bar_point # v = b \<or> w @ x = t \<and> bar_point # v = x @ b"
      by (auto simp: append_eq_append_conv2)
    then show ?thesis
    proof (elim disjE conjE)
      assume "w = t @ x"
      with 2(1) show ?thesis by (auto simp: uinfix_append)
    next
      assume x: "w @ x = t" "bar_point # v = x @ b"
      then have "x = []" using assms(2) by (cases x) auto
      with x 2(1) have "u = a @ t @ []" by simp
      then show ?thesis unfolding uinfix_append by blast
    qed
  qed
qed

lemma uinfix_join:
  assumes "t \<noteq> []" "bar_point \<notin> set t"
  shows "uinfix t (join_names ns) \<longleftrightarrow> (\<exists>n \<in> set ns. uinfix t n)"
proof -
  have "uinfix t (n @ concat (map (\<lambda>m. bar_point # m) ms)) \<longleftrightarrow> uinfix t n \<or> (\<exists>m \<in> set ms. uinfix t m)" for n ms
  proof (induction ms arbitrary: n)
    case (Cons m ms)
    have "uinfix t (n @ bar_point # (m @ concat (map (\<lambda>m. bar_point # m) ms))) \<longleftrightarrow>
        uinfix t n \<or> uinfix t m \<or> (\<exists>m \<in> set ms. uinfix t m)"
      by (simp only: uinfix_bar[OF assms] Cons.IH)
    then show ?case by simp
  qed simp
  then show ?thesis using assms(1) by (cases ns) (simp_all add: join_names_def)
qed

lemma query_parts_set:
  "set (query_parts q) = {t. 3 \<le> length t \<and> uinfix t q \<and> t \<noteq> q}"
proof -
  have "(\<exists>i \<in> {0..<length q}. \<exists>j \<in> {i + 3..<length q + 1}. t = take (j - i) (drop i q)) \<longleftrightarrow>
      3 \<le> length t \<and> uinfix t q" for t
  proof
    assume "\<exists>i \<in> {0..<length q}. \<exists>j \<in> {i + 3..<length q + 1}. t = take (j - i) (drop i q)"
    then obtain i j where ij: "i + 3 \<le> j" "j \<le> length q" "t = take (j - i) (drop i q)" by auto
    have "q = take i q @ t @ drop (j - i) (drop i q)" unfolding ij(3) by (metis append_take_drop_id)
    then have "uinfix t q" unfolding uinfix_append by blast
    then show "3 \<le> length t \<and> uinfix t q" using ij by simp
  next
    assume t: "3 \<le> length t \<and> uinfix t q"
    then obtain a b where "q = a @ t @ b" by (auto simp: uinfix_append)
    with t show "\<exists>i \<in> {0..<length q}. \<exists>j \<in> {i + 3..<length q + 1}. t = take (j - i) (drop i q)"
      by (intro bexI[of _ "length a"] bexI[of _ "length a + length t"]) auto
  qed
  note parts = this
  have "set (query_parts q) = {t. (\<exists>i \<in> {0..<length q}. \<exists>j \<in> {i + 3..<length q + 1}. t = take (j - i) (drop i q)) \<and> t \<noteq> q}"
    by (auto simp: query_parts_def simp del: upt_Suc)
  then show ?thesis unfolding parts by simp
qed

section \<open>Queries\<close>

fun row_matches :: "unicode \<Rightarrow> sqlite \<Rightarrow> place_db \<Rightarrow> name_condition \<Rightarrow> place_row \<Rightarrow> bool" where
  "row_matches U S db (Name_is v) p = (v \<in> set (names_of db (pr_id p)))"
| "row_matches U S db (Name_matches v) p =
     (\<exists>n \<in> set (names_of db (pr_id p)). 3 \<le> length n \<and> sq_match S v n)"
| "row_matches U S db (Norms_contain v) p = uinfix v (pr_norms p)"

lemma joined_rows_set:
  "index_ok U S db \<Longrightarrow> set (joined_rows S db c p) = (if row_matches U S db c p then {p} else {})"
proof (cases c)
  case (Name_matches v)
  assume "index_ok U S db"
  then have "set (db_fts db) = {(n, i) \<in> set (db_name db). 3 \<le> length n}" by (simp add: index_ok_def)
  then have "(\<exists>x \<in> set (db_fts db). snd x = pr_id p \<and> sq_match S v (fst x)) \<longleftrightarrow> row_matches U S db c p"
    unfolding Name_matches by fastforce
  then show ?thesis unfolding Name_matches by (force simp: case_prod_beta)
qed auto

lemma index_query_set:
  assumes "index_ok U S db" "sqlite_ok U S"
  shows "set (index_query S db c b) = {p \<in> set (db_place db). row_matches U S db c p \<and>
           (\<exists>r \<in> set (db_rtree db). rt_id r = pr_id p \<and> in_box b r)}"
proof -
  have "set (sq_order S rows) = set rows" for rows
    using assms(2) by (metis sqlite_ok_def set_mset_mset)
  moreover have "set [x. r \<leftarrow> db_rtree db, p \<leftarrow> db_place db, pr_id p = rt_id r, in_box b r, x \<leftarrow> joined_rows S db c p] =
      {p \<in> set (db_place db). row_matches U S db c p \<and>
         (\<exists>r \<in> set (db_rtree db). rt_id r = pr_id p \<and> in_box b r)}"
    by (auto simp: joined_rows_set[OF assms(1)] split: if_splits)
  ultimately show ?thesis by (simp add: index_query_def)
qed

lemma near_in_query:
  assumes ok: "index_ok U S db" "sqlite_ok U S" and p: "p \<in> set (db_place db)"
    and globe: "\<bar>lat\<bar> \<le> 90" "\<bar>lon\<bar> \<le> 180" and r: "1 \<le> r" "r \<le> 30000"
    and near: "haversine_m lat lon (pr_lat p) (pr_lon p) \<le> of_int r"
  shows "p \<in> set (index_query S db c (search_box lat lon r)) \<longleftrightarrow> row_matches U S db c p"
proof -
  obtain a b c' d where box: "search_box lat lon r = (a, b, c', d)" by (metis prod_cases4)
  have "in_korea (pr_lat p) (pr_lon p)" using ok(1) p by (auto simp: index_ok_def)
  note in_box = near_in_box[OF globe this r near box]
  obtain t where "t \<in> set (db_rtree db)" "rt_id t = pr_id p" "rt_min_lat t \<le> pr_lat p" "pr_lat p \<le> rt_max_lat t"
    "rt_min_lon t \<le> pr_lon p" "pr_lon p \<le> rt_max_lon t" using ok(1) p unfolding index_ok_def by blast
  then show ?thesis using in_box p
    by (auto simp: index_query_set[OF ok] box in_box_def intro!: bexI[of _ t])
qed

end
