(* ===== verification/PlaceTables.thy ===== *)
theory PlaceTables
  imports PlaceLemmas
begin

text \<open>Building the index: every table agrees with every other after each place, each source and the script.\<close>

definition tables_ok :: "unicode \<Rightarrow> sqlite \<Rightarrow> build_state \<Rightarrow> bool" where
  "tables_ok U S st \<longleftrightarrow> index_ok U S (bs_db st) \<and>
     (\<forall>p \<in> set (db_place (bs_db st)). pr_id p \<le> bs_pid st) \<and> (\<forall>(n, i) \<in> set (db_name (bs_db st)). i \<le> bs_pid st)"

text \<open>The ids of the current source that are in the index have been seen.\<close>

definition seen_ok :: "string \<Rightarrow> utext list \<Rightarrow> build_state \<Rightarrow> bool" where
  "seen_ok source seen st \<longleftrightarrow>
     (\<forall>p \<in> set (db_place (bs_db st)). pr_source p = source \<longrightarrow> pr_source_id p \<in> set seen)"

definition sources_of :: "build_state \<Rightarrow> string set" where
  "sources_of st = pr_source ` set (db_place (bs_db st))"

section \<open>One place\<close>

lemma names_of_insert:
  "names_of (insert_place S source i labels norms c pt pid db) j = names_of db j @ (if j = pid then norms else [])"
proof -
  have "map fst (filter (\<lambda>(n, j'). j' = j) (map (\<lambda>n. (n, pid)) norms)) = (if j = pid then norms else [])"
    by (induction norms) auto
  then show ?thesis by (cases pt) (simp add: names_of_def insert_place_def)
qed

lemma insert_index_ok:
  assumes ok: "index_ok U S db" and S: "sqlite_ok U S"
    and fresh: "\<forall>p \<in> set (db_place db). pr_id p < pid" "\<forall>(n, j) \<in> set (db_name db). j < pid"
    and new: "(source, i) \<notin> (\<lambda>p. (pr_source p, pr_source_id p)) ` set (db_place db)"
    and norms: "\<forall>n \<in> set norms. n \<noteq> [] \<and> word_text U n" and pt: "in_korea (fst pt) (snd pt)"
  shows "index_ok U S (insert_place S source i labels norms c pt pid db)" (is "index_ok U S ?db")
proof -
  obtain y x where yx: "pt = (y, x)" by (cases pt)
  let ?row = "\<lparr>pr_id = pid, pr_source = source, pr_source_id = i, pr_name = hd labels,
     pr_category = c, pr_lat = y, pr_lon = x, pr_norms = join_names norms\<rparr>"
  have place: "db_place ?db = db_place db @ [?row]" and name: "db_name ?db = db_name db @ map (\<lambda>n. (n, pid)) norms"
    and rtree: "db_rtree ?db = db_rtree db @ [\<lparr>rt_id = pid, rt_min_lat = sq_down S y, rt_max_lat = sq_up S y,
       rt_min_lon = sq_down S x, rt_max_lon = sq_up S x\<rparr>]"
    and fts: "db_fts ?db = db_fts db @ map (\<lambda>n. (n, pid)) (filter (\<lambda>n. 3 \<le> length n) norms)"
    by (simp_all add: yx insert_place_def)
  have ids: "distinct (map pr_id (db_place ?db))"
    using ok fresh(1) unfolding place index_ok_def by auto
  have keys: "inj_on (\<lambda>p. (pr_source p, pr_source_id p)) (set (db_place ?db))"
    using ok new unfolding place index_ok_def by (auto simp: inj_on_def)
  have none: "names_of db pid = []"
    using fresh(2) by (force simp: names_of_def filter_empty_conv)
  have names: "names_of ?db (pr_id p) = names_of db (pr_id p)" if "p \<in> set (db_place db)" for p
    using fresh(1) that by (auto simp: names_of_insert)
  have S': "sq_down S z \<le> z \<and> z \<le> sq_up S z" for z using S by (simp add: sqlite_ok_def)
  have rows: "\<forall>p \<in> set (db_place ?db). in_korea (pr_lat p) (pr_lon p) \<and>
        pr_norms p = join_names (names_of ?db (pr_id p)) \<and>
        (\<exists>r \<in> set (db_rtree ?db). rt_id r = pr_id p \<and> rt_min_lat r \<le> pr_lat p \<and> pr_lat p \<le> rt_max_lat r \<and>
           rt_min_lon r \<le> pr_lon p \<and> pr_lon p \<le> rt_max_lon r)"
  proof
    fix p
    assume "p \<in> set (db_place ?db)"
    then consider "p \<in> set (db_place db)" | "p = ?row" unfolding place by auto
    then show "in_korea (pr_lat p) (pr_lon p) \<and> pr_norms p = join_names (names_of ?db (pr_id p)) \<and>
        (\<exists>r \<in> set (db_rtree ?db). rt_id r = pr_id p \<and> rt_min_lat r \<le> pr_lat p \<and> pr_lat p \<le> rt_max_lat r \<and>
           rt_min_lon r \<le> pr_lon p \<and> pr_lon p \<le> rt_max_lon r)"
    proof cases
      case 1
      then show ?thesis using ok unfolding rtree index_ok_def by (auto simp: names)
    next
      case 2
      then show ?thesis using pt S' unfolding 2 rtree by (simp add: names_of_insert none yx)
    qed
  qed
  have "\<forall>(n, j) \<in> set (db_name ?db). n \<noteq> [] \<and> word_text U n"
    using ok norms unfolding name index_ok_def by auto
  moreover have "set (db_fts ?db) = {(n, j) \<in> set (db_name ?db). 3 \<le> length n}"
    using ok unfolding name fts index_ok_def by auto
  ultimately show ?thesis using ids keys rows unfolding index_ok_def by blast
qed

lemma normal_names_ok: "n \<in> set (normal_names U labels) \<Longrightarrow> n \<noteq> [] \<and> word_text U n"
  by (auto simp: normal_names_def normalize_word_text)

lemma kept_point_korea: "kept_point a b = Some pt \<Longrightarrow> in_korea (fst pt) (snd pt)"
  by (auto simp: kept_point_def split: option.splits pyfloat.splits if_splits)

text \<open>A row is left out, or inserted under the next id.\<close>

lemma add_place_cases:
  assumes "add_place U S to_float source rp (seen, st) = Some (seen', st')"
  obtains (out) d where "seen' = seen" "st' = st\<lparr>bs_dropped := d\<rparr>"
  | (new) labels norms c pt k where "seen' = rp_id rp # seen" "rp_id rp \<notin> set seen"
      "st' = st\<lparr>bs_pid := bs_pid st + 1,
         bs_db := insert_place S source (rp_id rp) labels norms c pt (bs_pid st + 1) (bs_db st), bs_kept := k\<rparr>"
      "\<forall>n \<in> set norms. n \<noteq> [] \<and> word_text U n" "norms \<noteq> []" "in_korea (fst pt) (snd pt)"
proof (cases "kept_point (coordinate to_float (rp_lat rp)) (coordinate to_float (rp_lon rp))")
  case None
  then show ?thesis using assms that(1) by (auto simp: add_place_def)
next
  case (Some pt)
  then obtain ls where ls: "stripped (rp_names rp) = Some ls" using assms by (auto simp: add_place_def bind_eq_Some_conv)
  let ?norms = "normal_names U (dedup ls)"
  show ?thesis
  proof (cases "?norms = [] \<or> rp_id rp \<in> set seen")
    case True
    then show ?thesis using assms Some ls that(1) by (auto simp: add_place_def Let_def split: if_splits)
  next
    case False
    then obtain c where "category_text (rp_category rp) = Some c"
      using assms Some ls by (auto simp: add_place_def Let_def bind_eq_Some_conv)
    with False show ?thesis
      using assms Some ls normal_names_ok[of _ U "dedup ls"] kept_point_korea[OF Some]
      by (intro that(2)[where labels = "dedup ls" and norms = ?norms and c = c and pt = pt]) (auto simp: add_place_def Let_def)
  qed
qed

lemma insert_place_rows:
  "db_place (insert_place S source i labels norms c pt pid db) =
     db_place db @ [\<lparr>pr_id = pid, pr_source = source, pr_source_id = i, pr_name = hd labels,
       pr_category = c, pr_lat = fst pt, pr_lon = snd pt, pr_norms = join_names norms\<rparr>]"
  "db_name (insert_place S source i labels norms c pt pid db) = db_name db @ map (\<lambda>n. (n, pid)) norms"
  by (simp_all add: insert_place_def split: prod.splits)

lemma add_place_ok:
  assumes "add_place U S to_float source rp (seen, st) = Some (seen', st')"
    and ok: "tables_ok U S st" "seen_ok source seen st" and S: "sqlite_ok U S"
  shows "tables_ok U S st' \<and> seen_ok source seen' st' \<and> sources_of st' \<subseteq> insert source (sources_of st)"
  using assms(1)
proof (cases rule: add_place_cases)
  case (new labels norms c pt k)
  have fresh: "\<forall>p \<in> set (db_place (bs_db st)). pr_id p < bs_pid st + 1"
    "\<forall>(n, j) \<in> set (db_name (bs_db st)). j < bs_pid st + 1"
    using ok(1) by (auto simp: tables_ok_def less_Suc_eq_le)
  have key: "(source, rp_id rp) \<notin> (\<lambda>p. (pr_source p, pr_source_id p)) ` set (db_place (bs_db st))"
    using ok(2) new(2) by (auto simp: seen_ok_def)
  have "index_ok U S (bs_db st)" using ok(1) by (simp add: tables_ok_def)
  from insert_index_ok[OF this S fresh key new(4,6), of labels c]
  have "index_ok U S (bs_db st')" by (simp add: new(3))
  then show ?thesis
    using ok fresh by (auto simp: new(1,3) tables_ok_def seen_ok_def sources_of_def insert_place_rows)
qed (use ok in \<open>auto simp: tables_ok_def seen_ok_def sources_of_def\<close>)

section \<open>The script\<close>

lemma add_places_ok:
  assumes "add_places U S to_float source rps (seen, st) = Some (seen', st')"
    and "tables_ok U S st" "seen_ok source seen st" and "sqlite_ok U S"
  shows "tables_ok U S st' \<and> sources_of st' \<subseteq> insert source (sources_of st)"
  using assms(1-3)
proof (induction rps arbitrary: seen st)
  case (Cons rp rps)
  then obtain seen1 st1 where 1: "add_place U S to_float source rp (seen, st) = Some (seen1, st1)"
    and 2: "add_places U S to_float source rps (seen1, st1) = Some (seen', st')"
    by (auto simp: bind_eq_Some_conv)
  from add_place_ok[OF 1 Cons.prems(2,3) assms(4)] Cons.IH[OF 2] show ?case by blast
qed auto

lemma add_sources_ok:
  assumes "add_sources U S to_float srcs st = Some st'" and "tables_ok U S st" and "sqlite_ok U S"
    and "distinct (map fst srcs)" "sources_of st \<inter> fst ` set srcs = {}"
  shows "tables_ok U S st'"
  using assms(1,2,4,5)
proof (induction srcs arbitrary: st)
  case (Cons x srcs)
  obtain source rps where x: "x = (source, rps)" by (cases x)
  with Cons.prems obtain seen1 st1 where 1: "add_places U S to_float source rps ([], st) = Some (seen1, st1)"
    and 2: "add_sources U S to_float srcs st1 = Some st'"
    by (auto simp: bind_eq_Some_conv)
  have "seen_ok source [] st" using Cons.prems(4) by (auto simp: x seen_ok_def sources_of_def)
  from add_places_ok[OF 1 Cons.prems(2) this assms(3)]
  have st1: "tables_ok U S st1" "sources_of st1 \<subseteq> insert source (sources_of st)" by auto
  moreover have "sources_of st1 \<inter> fst ` set srcs = {}" using st1(2) Cons.prems(3,4) by (auto simp: x)
  ultimately show ?case using Cons.IH[OF 2] Cons.prems(3) by simp
qed simp

lemma build_index_ok:
  assumes "build_index U S to_float loads raw = Some st" and "sqlite_ok U S"
  shows "index_ok U S (bs_db st) \<and> open_index (bs_db st) = Inr (bs_db st)"
proof -
  let ?st0 = "\<lparr>bs_db = empty_db, bs_pid = 0, bs_kept = [], bs_dropped = []\<rparr>"
  obtain srcs st1 where srcs: "read_sources loads raw = Some srcs"
    and st1: "add_sources U S to_float srcs ?st0 = Some st1"
    and st: "st = st1\<lparr>bs_db := (bs_db st1)\<lparr>db_version := SCHEMA_VERSION\<rparr>\<rparr>"
    using assms(1) unfolding build_index_def by (auto simp: bind_eq_Some_conv simp del: all_some.simps)
  have "map fst srcs = [''tourapi'', ''std_tourist'', ''semas'', ''wikidata'', ''overture'', ''osm'']"
    using srcs by (auto simp: read_sources_def bind_eq_Some_conv)
  then have "distinct (map fst srcs)" by simp
  moreover have "tables_ok U S ?st0" by (simp add: tables_ok_def index_ok_def empty_db_def)
  moreover have "sources_of ?st0 = {}" by (simp add: sources_of_def empty_db_def)
  ultimately have "tables_ok U S st1" using add_sources_ok[OF st1 _ assms(2)] by simp
  then have "index_ok U S (bs_db st1)" by (simp add: tables_ok_def)
  moreover have "names_of (bs_db st) = names_of (bs_db st1)" by (simp add: st names_of_def fun_eq_iff)
  ultimately show ?thesis by (simp add: st index_ok_def open_index_def)
qed

end
