(* ===== verification/PlaceTheorems.thy ===== *)
theory PlaceTheorems
  imports PlaceTables
begin

text \<open>
  The search of the place index against its specification: what it returns are the first candidates, best
  score and nearest first, of all places within the radius whose names match, as if there were neither
  index tables nor a bounding box.
\<close>

section \<open>Collecting the best hits\<close>

text \<open>\<open>scored\<close> are the pairs of score and row in the order in which \<open>search\<close> collects them.\<close>

definition best_of ::
  "real \<Rightarrow> real \<Rightarrow> int \<Rightarrow> (int \<times> place_row) list \<Rightarrow> nat \<Rightarrow> hit \<Rightarrow> bool" where
  "best_of lat lon radius scored i h \<longleftrightarrow>
     (\<exists>p s. h = (- s, haversine_m lat lon (pr_lat p) (pr_lon p), p) \<and> i = pr_id p \<and>
        haversine_m lat lon (pr_lat p) (pr_lon p) \<le> of_int radius \<and>
        (s, p) \<in> set scored \<and> (\<forall>s'. (s', p) \<in> set scored \<longrightarrow> s' \<le> s))"

definition collects ::
  "real \<Rightarrow> real \<Rightarrow> int \<Rightarrow> (int \<times> place_row) list \<Rightarrow> (nat, hit) pydict \<Rightarrow> bool" where
  "collects lat lon radius scored best \<longleftrightarrow>
     distinct (map fst best) \<and> (\<forall>i h. map_of best i = Some h \<longleftrightarrow> best_of lat lon radius scored i h)"

lemma collects_iff: "collects lat lon radius scored best \<Longrightarrow> map_of best i = Some h \<longleftrightarrow> best_of lat lon radius scored i h"
  unfolding collects_def by blast

lemma collects_mem: "collects lat lon radius scored best \<Longrightarrow> (i, h) \<in> set best \<longleftrightarrow> best_of lat lon radius scored i h"
  by (metis collects_def collects_iff map_of_eq_Some_iff)

lemma collect_row_step:
  assumes c: "collects lat lon radius scored best"
    and ids: "\<And>s' p'. (s', p') \<in> set scored \<Longrightarrow> pr_id p' = pr_id p \<Longrightarrow> p' = p"
  shows "collects lat lon radius (scored @ [(s, p)]) (collect_row lat lon radius s p best)"
proof -
  let ?d = "haversine_m lat lon (pr_lat p) (pr_lon p)"
  have other: "best_of lat lon radius (scored @ [(s, p)]) i h \<longleftrightarrow> best_of lat lon radius scored i h"
    if "i \<noteq> pr_id p" for i h
    using that by (auto simp: best_of_def)
  have here: "best_of lat lon radius scored (pr_id p) h \<longleftrightarrow>
      (\<exists>s'. h = (- s', ?d, p) \<and> ?d \<le> of_int radius \<and> (s', p) \<in> set scored \<and> (\<forall>t. (t, p) \<in> set scored \<longrightarrow> t \<le> s'))" for h
    using ids by (auto simp: best_of_def)
  have new: "best_of lat lon radius (scored @ [(s, p)]) (pr_id p) h \<longleftrightarrow>
      (\<exists>s'. h = (- s', ?d, p) \<and> ?d \<le> of_int radius \<and> ((s', p) \<in> set scored \<or> s' = s) \<and> s \<le> s' \<and>
         (\<forall>t. (t, p) \<in> set scored \<longrightarrow> t \<le> s'))" for h
    using ids by (auto simp: best_of_def)
  have dist: "distinct (map fst (collect_row lat lon radius s p best))"
    using c by (auto simp: collects_def collect_row_def Let_def distinct_dict_set)
  consider (far) "\<not> ?d \<le> of_int radius"
    | (first) "?d \<le> of_int radius" "map_of best (pr_id p) = None"
    | (seen) s' where "?d \<le> of_int radius" "map_of best (pr_id p) = Some (- s', ?d, p)" "(s', p) \<in> set scored"
        "\<forall>t. (t, p) \<in> set scored \<longrightarrow> t \<le> s'"
  proof (cases "map_of best (pr_id p)")
    case (Some h)
    then have "best_of lat lon radius scored (pr_id p) h" by (simp add: collects_iff[OF c])
    then show ?thesis using seen Some unfolding here by blast
  qed (use far first in blast)
  then have "map_of (collect_row lat lon radius s p best) (pr_id p) = Some h \<longleftrightarrow>
      best_of lat lon radius (scored @ [(s, p)]) (pr_id p) h" for h
  proof cases
    case far
    then have "map_of best (pr_id p) \<noteq> Some h" for h by (simp add: collects_iff[OF c] here)
    then have "map_of best (pr_id p) = None" by (metis not_Some_eq)
    with far show ?thesis by (simp add: collect_row_def Let_def new)
  next
    case first
    have none: "(t, p) \<notin> set scored" for t
    proof
      assume m: "(t, p) \<in> set scored"
      let ?T = "{t. (t, p) \<in> set scored}"
      have fin: "finite ?T" by (rule finite_subset[of _ "fst ` set scored"]) force+
      have "Max ?T \<in> ?T" using fin m by (intro Max_in) auto
      then have "best_of lat lon radius scored (pr_id p) (- Max ?T, ?d, p)"
        unfolding here using fin first(1) by (auto intro!: exI[of _ "Max ?T"])
      then show False using first(2) by (simp flip: collects_iff[OF c])
    qed
    with first show ?thesis by (auto simp: collect_row_def Let_def new)
  next
    case (seen s')
    show ?thesis
    proof (cases "s \<le> s'")
      case True
      then have "collect_row lat lon radius s p best = best" using seen by (simp add: collect_row_def)
      with True seen show ?thesis by (auto simp: new intro: antisym)
    next
      case False
      then have "collect_row lat lon radius s p best = dict_set (pr_id p) (- s, ?d, p) best"
        using seen by (simp add: collect_row_def Let_def)
      with False seen show ?thesis by (fastforce simp: new)
    qed
  qed
  moreover have "map_of (collect_row lat lon radius s p best) i = map_of best i" if "i \<noteq> pr_id p" for i
    using that by (simp add: collect_row_def Let_def)
  ultimately show ?thesis
    using dist c other unfolding collects_def by metis
qed

lemma collect_all:
  assumes "\<And>s p s' p'. (s, p) \<in> set scored \<Longrightarrow> (s', p') \<in> set scored \<Longrightarrow> pr_id p = pr_id p' \<Longrightarrow> p = p'"
  shows "collects lat lon radius scored (fold (\<lambda>(s, p). collect_row lat lon radius s p) scored [])"
  using assms
proof (induction scored rule: rev_induct)
  case Nil
  then show ?case by (simp add: collects_def best_of_def)
next
  case (snoc x xs)
  obtain s p where x: "x = (s, p)" by (cases x)
  have "collects lat lon radius xs (fold (\<lambda>(s, p). collect_row lat lon radius s p) xs [])"
    using snoc.prems by (intro snoc.IH) auto
  then have "collects lat lon radius (xs @ [(s, p)])
      (collect_row lat lon radius s p (fold (\<lambda>(s, p). collect_row lat lon radius s p) xs []))"
    using snoc.prems unfolding x by (intro collect_row_step) auto
  then show ?case by (simp add: x)
qed

definition flat_stages :: "(int \<times> place_row list) list \<Rightarrow> (int \<times> place_row) list" where
  "flat_stages stages = concat (map (\<lambda>(s, rows). map (Pair s) rows) stages)"

lemma collect_stages:
  "fold (collect_rows lat lon radius) stages best =
     fold (\<lambda>(s, p). collect_row lat lon radius s p) (flat_stages stages) best"
proof (induction stages arbitrary: best)
  case (Cons x stages)
  obtain s rows where x: "x = (s, rows)" by (cases x)
  have "fold (\<lambda>(s, p). collect_row lat lon radius s p) (map (Pair s) rows) b = fold (collect_row lat lon radius s) rows b" for b
    by (induction rows arbitrary: b) auto
  with Cons show ?case by (simp add: x flat_stages_def collect_rows_def)
qed (simp add: flat_stages_def)


section \<open>Scores\<close>

lemma flat_stages_mem: "(s, p) \<in> set (flat_stages stages) \<longleftrightarrow> (\<exists>rows. (s, rows) \<in> set stages \<and> p \<in> set rows)"
  by (auto simp: flat_stages_def)

lemma names_word_text:
  "index_ok U S db \<Longrightarrow> n \<in> set (names_of db i) \<Longrightarrow> word_text U n \<and> n \<noteq> []"
  by (auto simp: index_ok_def)

lemma stage_rows:
  assumes ok: "index_ok U S db" "sqlite_ok U S" "unicode_ok U" and p: "p \<in> set (db_place db)"
    and globe: "\<bar>lat\<bar> \<le> 90" "\<bar>lon\<bar> \<le> 180" and r: "1 \<le> r" "r \<le> 30000"
    and near: "haversine_m lat lon (pr_lat p) (pr_lon p) \<le> of_int r"
    and q: "q \<noteq> []" "word_text U q"
  shows "(s, p) \<in> set (flat_stages (search_stages S db q (search_box lat lon r))) \<longleftrightarrow>
    (let ns = names_of db (pr_id p)
     in s = 3 \<and> q \<in> set ns \<or> s = 2 \<and> list_ex (name_contains (sq_fold S) q) ns \<or>
        s = 1 \<and> list_ex (\<lambda>n. 3 \<le> length n \<and> uinfix n q \<and> n \<noteq> q) ns)"
proof -
  let ?ns = "names_of db (pr_id p)"
  note query = near_in_query[OF ok(1,2) p globe r near]
  have long: "(\<exists>n \<in> set ?ns. 3 \<le> length n \<and> sq_match S (fts_phrase q) n) \<longleftrightarrow> list_ex (name_contains (sq_fold S) q) ?ns"
    if "3 \<le> length q"
  proof -
    have "3 \<le> length n" if "name_contains (sq_fold S) q n" for n
    proof -
      from that \<open>3 \<le> length q\<close> obtain a b where "map (sq_fold S) n = a @ map (sq_fold S) q @ b"
        by (auto simp: name_contains_def uinfix_append)
      then have "length n = length a + length q + length b" by (metis add.assoc length_append length_map)
      with \<open>3 \<le> length q\<close> show ?thesis by simp
    qed
    moreover have "sq_match S (fts_phrase q) n = name_contains (sq_fold S) q n" if "n \<in> set ?ns" for n
      using ok(2) q(2) names_word_text[OF ok(1) that] \<open>3 \<le> length q\<close> by (simp add: sqlite_ok_def name_contains_def)
    ultimately show ?thesis by (auto simp: list_ex_iff)
  qed
  have short: "uinfix q (pr_norms p) \<longleftrightarrow> list_ex (name_contains (sq_fold S) q) ?ns" if "length q = 2"
  proof -
    have "name_contains (sq_fold S) q = uinfix q" using that by (simp add: name_contains_def fun_eq_iff)
    moreover
    have "pr_norms p = join_names ?ns" using ok(1) p by (simp add: index_ok_def)
    moreover have "bar_point \<notin> set q" using q(2) ok(3) by (auto simp: word_text_def unicode_ok_def list_all_iff)
    ultimately show ?thesis using uinfix_join[OF q(1)] by (simp add: list_ex_iff)
  qed
  have none: "\<not> list_ex (name_contains (sq_fold S) q) ?ns" if "length q < 2"
    using that by (simp add: name_contains_def list_ex_iff)
  have parts: "(\<exists>t \<in> set (query_parts q). t \<in> set ?ns) \<longleftrightarrow> list_ex (\<lambda>n. 3 \<le> length n \<and> uinfix n q \<and> n \<noteq> q) ?ns"
    by (auto simp: query_parts_set list_ex_iff)
  have len: "length q \<noteq> 0" using q(1) by simp
  show ?thesis
  proof -
    have two: "(\<exists>rows. (2, rows) \<in> set (search_stages S db q (search_box lat lon r)) \<and> p \<in> set rows) \<longleftrightarrow>
        list_ex (name_contains (sq_fold S) q) ?ns"
    proof -
      consider "length q < 2" | "length q = 2" | "3 \<le> length q" by linarith
      then show ?thesis
        by cases (use long short none in \<open>simp_all add: search_stages_def query image_iff del: in_names_of\<close>)
    qed
    have three: "(\<exists>rows. (3, rows) \<in> set (search_stages S db q (search_box lat lon r)) \<and> p \<in> set rows) \<longleftrightarrow> q \<in> set ?ns"
      by (auto simp: search_stages_def query simp del: in_names_of)
    have one: "(\<exists>rows. (1, rows) \<in> set (search_stages S db q (search_box lat lon r)) \<and> p \<in> set rows) \<longleftrightarrow>
        list_ex (\<lambda>n. 3 \<le> length n \<and> uinfix n q \<and> n \<noteq> q) ?ns"
      unfolding parts[symmetric] by (auto simp: search_stages_def query simp del: in_names_of)
    have only: "s \<in> {1, 2, 3}" if "(s, rows) \<in> set (search_stages S db q (search_box lat lon r))" for rows
      using that by (auto simp: search_stages_def split: if_splits)
    show ?thesis unfolding flat_stages_mem Let_def using one two three only by blast
  qed
qed

lemma best_score:
  assumes "p \<in> set (db_place db)" and "index_ok U S db" "sqlite_ok U S" "unicode_ok U"
    and "\<bar>lat\<bar> \<le> 90" "\<bar>lon\<bar> \<le> 180" and "1 \<le> r" "r \<le> 30000"
    and "haversine_m lat lon (pr_lat p) (pr_lon p) \<le> of_int r" and "q \<noteq> []" "word_text U q"
  defines "F \<equiv> set (flat_stages (search_stages S db q (search_box lat lon r)))"
  shows "(s, p) \<in> F \<and> (\<forall>s'. (s', p) \<in> F \<longrightarrow> s' \<le> s) \<longleftrightarrow>
    s = name_score (sq_fold S) q (names_of db (pr_id p)) \<and> 0 < s"
proof -
  have "(\<exists>n \<in> set ns. 3 \<le> length n \<and> uinfix n q) \<longleftrightarrow> (\<exists>n \<in> set ns. 3 \<le> length n \<and> uinfix n q \<and> n \<noteq> q)"
    if "q \<notin> set ns" for ns
    using that by blast
  then show ?thesis
    unfolding F_def stage_rows[OF assms(2-4,1,5-11)] Let_def name_score_def list_ex_iff
    by (auto simp del: in_names_of)
qed

section \<open>The search\<close>

lemma sort_key_unique:
  assumes "set xs = set ys" "distinct xs" "distinct ys" "inj_on f (set xs)"
  shows "sort_key f xs = sort_key f ys"
proof (rule map_inj_on)
  show "map f (sort_key f xs) = map f (sort_key f ys)"
    using assms by (intro sorted_distinct_set_unique) (auto simp: distinct_map inj_on_def)
  show "inj_on f (set (sort_key f xs) \<union> set (sort_key f ys))" using assms by simp
qed

lemma of_ascii_inject: "of_ascii a = of_ascii b \<longleftrightarrow> a = b"
  unfolding of_ascii_def by (rule inj_map_eq_map) (simp add: inj_on_def)

lemma matching_hits_set:
  "set (matching_hits F db q lat lon r) =
     {(- s, haversine_m lat lon (pr_lat p) (pr_lon p), p) | s p. p \<in> set (db_place db) \<and>
        s = name_score F q (names_of db (pr_id p)) \<and> 0 < s \<and> haversine_m lat lon (pr_lat p) (pr_lon p) \<le> of_int r}"
  by (auto simp: matching_hits_def split: if_splits)

lemma matching_hits_distinct: "distinct (db_place db) \<Longrightarrow> distinct (matching_hits F db q lat lon r)"
proof -
  let ?row = "\<lambda>p. (- name_score F q (names_of db (pr_id p)), haversine_m lat lon (pr_lat p) (pr_lon p), p)"
  have "matching_hits F db q lat lon r =
      map ?row (filter (\<lambda>p. 0 < name_score F q (names_of db (pr_id p)) \<and>
        haversine_m lat lon (pr_lat p) (pr_lon p) \<le> of_int r) (db_place db))" (is "_ = map _ (filter ?P _)")
  proof -
    have "concat (map (\<lambda>p. if 0 < name_score F q (names_of db (pr_id p))
        then if haversine_m lat lon (pr_lat p) (pr_lon p) \<le> of_int r then [?row p] else [] else []) ps) =
      map ?row (filter ?P ps)" for ps by (induction ps) auto
    then show ?thesis by (simp add: matching_hits_def)
  qed
  moreover assume "distinct (db_place db)"
  ultimately show ?thesis by (simp add: distinct_map inj_on_def)
qed

lemma hit_key_inj:
  "inj_on (\<lambda>p. (pr_source p, pr_source_id p)) P \<Longrightarrow> (\<And>h. h \<in> H \<Longrightarrow> snd (snd h) \<in> P) \<Longrightarrow> inj_on hit_key H"
  by (fastforce simp: inj_on_def hit_key_def of_ascii_inject)

lemma snd_image_iff: "h \<in> snd ` A \<longleftrightarrow> (\<exists>i. (i, h) \<in> A)"
  by force

lemma search_best:
  assumes ok: "index_ok U S db" "sqlite_ok U S" "unicode_ok U"
    and globe: "\<bar>lat\<bar> \<le> 90" "\<bar>lon\<bar> \<le> 180" and r: "1 \<le> r" "r \<le> 30000" and q: "q \<noteq> []" "word_text U q"
  shows "sort_key hit_key (map snd (fold (collect_rows lat lon r) (search_stages S db q (search_box lat lon r)) [])) =
    sort_key hit_key (matching_hits (sq_fold S) db q lat lon r)"
proof -
  let ?F = "flat_stages (search_stages S db q (search_box lat lon r))"
  let ?best = "fold (\<lambda>(s, p). collect_row lat lon r s p) ?F []"
  have rows: "p \<in> set (db_place db)" if "(s, p) \<in> set ?F" for s p
    using that by (auto simp: flat_stages_mem search_stages_def index_query_set[OF ok(1,2)] split: if_splits)
  have ids: "p = p'" if "(s, p) \<in> set ?F" "(s', p') \<in> set ?F" "pr_id p = pr_id p'" for s p s' p'
    using rows[OF that(1)] rows[OF that(2)] that(3) ok(1) by (auto simp: index_ok_def distinct_map dest: inj_onD)
  have c: "collects lat lon r ?F ?best" by (rule collect_all) (rule ids)
  have hits: "h \<in> snd ` set ?best \<longleftrightarrow> (\<exists>i. best_of lat lon r ?F i h)" for h
    unfolding collects_mem[OF c, symmetric] by (rule snd_image_iff)
  have "snd ` set ?best = set (matching_hits (sq_fold S) db q lat lon r)"
  proof (intro set_eqI)
    fix h
    have "h \<in> snd ` set ?best \<longleftrightarrow> (\<exists>p s. h = (- s, haversine_m lat lon (pr_lat p) (pr_lon p), p) \<and>
        haversine_m lat lon (pr_lat p) (pr_lon p) \<le> of_int r \<and> p \<in> set (db_place db) \<and>
        ((s, p) \<in> set ?F \<and> (\<forall>s'. (s', p) \<in> set ?F \<longrightarrow> s' \<le> s)))"
      unfolding hits best_of_def using rows by blast
    also have "\<dots> \<longleftrightarrow> (\<exists>p s. h = (- s, haversine_m lat lon (pr_lat p) (pr_lon p), p) \<and>
        haversine_m lat lon (pr_lat p) (pr_lon p) \<le> of_int r \<and> p \<in> set (db_place db) \<and>
        s = name_score (sq_fold S) q (names_of db (pr_id p)) \<and> 0 < s)"
      using best_score[OF _ ok globe r _ q] by (intro ex_cong1) (auto cong: conj_cong)
    finally show "h \<in> snd ` set ?best \<longleftrightarrow> h \<in> set (matching_hits (sq_fold S) db q lat lon r)"
      unfolding matching_hits_set by blast
  qed
  moreover have "distinct (map snd ?best)"
  proof -
    have "distinct ?best" using c by (simp add: collects_def distinct_map)
    moreover have "inj_on snd (set ?best)"
    proof (rule inj_onI)
      fix x y
      assume xy: "x \<in> set ?best" "y \<in> set ?best" "snd x = snd y"
      then have "best_of lat lon r ?F (fst x) (snd x)" "best_of lat lon r ?F (fst y) (snd y)"
        using collects_mem[OF c] by (metis prod.collapse)+
      with xy(3) show "x = y" by (auto simp: best_of_def prod_eq_iff)
    qed
    ultimately show ?thesis by (simp add: distinct_map)
  qed
  moreover have "distinct (matching_hits (sq_fold S) db q lat lon r)"
    using ok(1) by (intro matching_hits_distinct) (simp add: index_ok_def distinct_map)
  moreover have "inj_on hit_key (set (map snd ?best))"
    using ok(1) calculation(1) by (intro hit_key_inj[of "set (db_place db)"]) (auto simp: index_ok_def matching_hits_set)
  ultimately show ?thesis unfolding collect_stages by (intro sort_key_unique) auto
qed


lemma search_radius_bounds: "1 \<le> search_radius q radius \<and> search_radius q radius \<le> 30000"
  by (auto simp: search_radius_def Let_def MAX_RADIUS_M_def MAX_TWO_CHAR_RADIUS_M_def)

lemma index_search_spec:
  assumes ok: "index_ok U S db" "sqlite_ok U S" "unicode_ok U" and globe: "\<bar>lat\<bar> \<le> 90" "\<bar>lon\<bar> \<le> 180"
  shows "index_search U S db query (Finite lat) (Finite lon) radius limit =
    (let q = take MAX_QUERY_CHARS (normalize_name U (Some query))
     in Inr (if q = [] then []
             else map candidate_of (take (nat limit) (sort_key hit_key
                    (matching_hits (sq_fold S) db q lat lon (search_radius q radius))))))"
proof -
  let ?q = "take MAX_QUERY_CHARS (normalize_name U (Some query))"
  have "word_text U ?q" by (intro word_text_take normalize_word_text)
  then have "sort_key hit_key (map snd (fold (collect_rows lat lon (search_radius ?q radius))
      (search_stages S db ?q (search_box lat lon (search_radius ?q radius))) [])) =
    sort_key hit_key (matching_hits (sq_fold S) db ?q lat lon (search_radius ?q radius))" if "?q \<noteq> []"
    using that search_radius_bounds by (intro search_best[OF ok globe]) auto
  then show ?thesis by (auto simp: index_search_def Let_def)
qed

text \<open>C17. The place index keeps its promise.  On an index the build script made, whatever order SQLite returns
  rows in, a search from a point on the globe returns exactly the first \<open>limit\<close> of all places within the
  radius whose names match the query, best match first (equal, then containing the query, then contained in
  it) and nearest first among equals: a query of three characters or more is contained up to case, one of two exactly,
  as the two tables compare.  Neither the bounding box nor the split into name tables, joined names
  and substring index loses or adds a place.\<close>

theorem search_finds_what_matches:
  assumes "build_index U S to_float loads raw = Some st"
    and "sqlite_ok U S" "unicode_ok U" and "\<bar>lat\<bar> \<le> 90" "\<bar>lon\<bar> \<le> 180"
  shows "index_search U S (bs_db st) query (Finite lat) (Finite lon) radius limit =
    (let q = take MAX_QUERY_CHARS (normalize_name U (Some query))
     in Inr (if q = [] then []
             else map candidate_of (take (nat limit) (sort_key hit_key
                    (matching_hits (sq_fold S) (bs_db st) q lat lon (search_radius q radius))))))"
  using build_index_ok[OF assms(1,2)] assms by (intro index_search_spec) auto

section \<open>An example\<close>

definition lower_point :: "nat \<Rightarrow> nat" where
  "lower_point c = (if 65 \<le> c \<and> c \<le> 90 then c + 32 else c)"

definition ex_unicode :: unicode where
  "ex_unicode = \<lparr>un_nfkc = id, un_lower = map lower_point,
     un_category = (\<lambda>c. if 97 \<le> c \<and> c \<le> 122 then ''Ll'' else if 65 \<le> c \<and> c \<le> 90 then ''Lu''
       else if 48 \<le> c \<and> c \<le> 57 then ''Nd'' else ''Sm'')\<rparr>"

text \<open>A table that folds the case of ASCII letters, as SQLite's does, and rounds bounds by up to a hundredth.\<close>

definition ex_sqlite :: sqlite where
  "ex_sqlite = \<lparr>sq_order = rev,
     sq_match = (\<lambda>p n. uinfix (map lower_point (butlast (tl p))) (map lower_point n)), sq_fold = lower_point,
     sq_down = (\<lambda>x. x - 1 / 100), sq_up = (\<lambda>x. x + 1 / 100)\<rparr>"

definition ex_float :: "json \<Rightarrow> pyfloat option" where
  "ex_float v = (case v of JInt i \<Rightarrow> Some (Finite (of_int i)) | _ \<Rightarrow> None)"

definition ex_files :: raw_files where
  "ex_files = \<lparr>rf_tourapi = [[(''contentid'', JStr (of_ascii ''7'')), (''mapy'', JInt 37), (''mapx'', JInt 127),
       (''title'', JStr (of_ascii ''Cave'')), (''contenttypeid'', JStr (of_ascii ''12''))]],
     rf_std_tourist = [], rf_semas = [], rf_wikidata = [], rf_overture = [], rf_osm = []\<rparr>"

definition ex_place :: place_row where
  "ex_place = \<lparr>pr_id = 1, pr_source = ''tourapi'', pr_source_id = of_ascii ''7'', pr_name = of_ascii ''Cave'',
     pr_category = of_ascii ''type=12'', pr_lat = 37, pr_lon = 127, pr_norms = of_ascii ''cave''\<rparr>"

lemma ex_unicode_ok: "unicode_ok ex_unicode"
  by (simp add: unicode_ok_def word_point_def ex_unicode_def bar_point_def)

lemma ex_sqlite_ok: "sqlite_ok ex_unicode ex_sqlite"
proof -
  have "\<not> word_point ex_unicode quote_point" by code_simp
  then have "concat (map (\<lambda>c. if c = quote_point then [quote_point, quote_point] else [c]) t) = t"
    if "word_text ex_unicode t" for t
    using that by (induction t) (auto simp: word_text_def)
  then have "fts_phrase t = [quote_point] @ t @ [quote_point]" if "word_text ex_unicode t" for t
    using that by (simp add: fts_phrase_def)
  then show ?thesis by (auto simp: sqlite_ok_def ex_sqlite_def)
qed

lemma ex_normal: "normalize_name ex_unicode (Some (of_ascii ''Cave'')) = of_ascii ''cave''"
  "normalize_name ex_unicode (Some (of_ascii ''CAVE'')) = of_ascii ''cave''"
  by code_simp+

lemma ex_build:
  "\<exists>st. build_index ex_unicode ex_sqlite ex_float (\<lambda>_. None) ex_files = Some st \<and>
     db_place (bs_db st) = [ex_place] \<and> db_name (bs_db st) = [(of_ascii ''cave'', 1)]"
proof -
  have n: "normalize_name ex_unicode (Some [67, 97, 118, 101]) = [99, 97, 118, 101]" by code_simp
  show ?thesis
    by (simp add: build_index_def read_sources_def ex_files_def tourapi_row_def std_tourist_def json_get_def
      add_place_def kept_point_def coordinate_def ex_float_def in_korea_def Let_def normal_names_def
      n insert_place_def empty_db_def join_names_def
      ex_place_def of_ascii_def ustrip_def is_space_def space_points_def)
qed

lemma search_finds_what_matches_witness:
  "\<exists>st. build_index ex_unicode ex_sqlite ex_float (\<lambda>_. None) ex_files = Some st \<and>
     index_search ex_unicode ex_sqlite (bs_db st) (of_ascii ''CAVE'') (Finite 37) (Finite 127) 500 3 =
       Inr [candidate_of (- 3, 0, ex_place)]"
proof -
  obtain st where st: "build_index ex_unicode ex_sqlite ex_float (\<lambda>_. None) ex_files = Some st"
    and db: "db_place (bs_db st) = [ex_place]" "db_name (bs_db st) = [(of_ascii ''cave'', 1)]"
    using ex_build by blast
  have q: "take MAX_QUERY_CHARS (normalize_name ex_unicode (Some (of_ascii ''CAVE''))) = of_ascii ''cave''"
    unfolding ex_normal by code_simp
  have "matching_hits (sq_fold ex_sqlite) (bs_db st) (of_ascii ''cave'') 37 127 (search_radius (of_ascii ''cave'') 500) =
      [(- 3, 0, ex_place)]"
    by (simp add: matching_hits_def db names_of_def name_score_def ex_place_def haversine_m_def Let_def radians_def
        search_radius_def MAX_RADIUS_M_def MAX_TWO_CHAR_RADIUS_M_def)
  moreover have "of_ascii ''cave'' \<noteq> []" by (simp add: of_ascii_def)
  ultimately show ?thesis
    using search_finds_what_matches[OF st ex_sqlite_ok ex_unicode_ok, of 37 127 "of_ascii ''CAVE''" 500 3] st
    by (simp add: q)
qed

end
