(* ===== verification/PlaceFile.thy ===== *)
theory PlaceFile
  imports PlaceIndex
begin

text \<open>
  \<open>ensure_local_index\<close> and \<open>prepare_place_index\<close> of \<open>src/app/infra/place_index.py\<close>: the local copy of the index,
  the stamp beside it, and what a process that dies in between leaves behind.  A process holds the file lock
  while it works, so runs follow one another; a dead process loses the lock, so a run may end after any of
  its changes.  SHA-256 is the parameter \<open>sha\<close>, what the download writes an argument.
\<close>

record index_file =
  if_data :: "nat list"
  if_mtime :: nat

record index_dir =
  id_index :: "index_file option"
  id_stamp :: "string option"
  id_partial :: "index_file option"
  id_now :: nat

text \<open>What \<open>download(partial)\<close> does: the contents the file has in turn, and whether the call returns.\<close>

record download =
  dl_writes :: "nat list list"
  dl_returns :: bool

datatype ensure_error = Download_raised | No_partial | Wrong_hash

definition stamp_of :: "index_file \<Rightarrow> string \<Rightarrow> string" where
  "stamp_of f h = h @ '' '' @ nat_str (length (if_data f)) @ '' '' @ nat_str (if_mtime f)"

text \<open>The states of the directory after each write of the download, the last one last.\<close>

fun downloading :: "nat list list \<Rightarrow> index_dir \<Rightarrow> index_dir list" where
  "downloading [] d = []"
| "downloading (c # cs) d =
     (let d' = d\<lparr>id_now := id_now d + 1, id_partial := Some \<lparr>if_data = c, if_mtime = id_now d + 1\<rparr>\<rparr>
      in d' # downloading cs d')"

text \<open>The stamp goes before the file is replaced; writing it empties it first.\<close>

definition install :: "index_file \<Rightarrow> string \<Rightarrow> index_dir \<Rightarrow> index_dir list" where
  "install p h d =
     (let d1 = d\<lparr>id_stamp := None\<rparr>;
          d2 = d1\<lparr>id_index := Some p, id_partial := None\<rparr>;
          d3 = d2\<lparr>id_stamp := Some ''''\<rparr>
      in [d1, d2, d3, d3\<lparr>id_stamp := Some (stamp_of p h)\<rparr>])"

text \<open>The states in order after each change, and the outcome.\<close>

definition ensure_local_index ::
  "(nat list \<Rightarrow> string) \<Rightarrow> string \<Rightarrow> download \<Rightarrow> index_dir \<Rightarrow> index_dir list \<times> (ensure_error + unit)" where
  "ensure_local_index sha h dl d =
     (if (case (id_index d, id_stamp d) of (Some f, Some s) \<Rightarrow> s = stamp_of f h | _ \<Rightarrow> False) then ([], Inr ())
      else let ds = downloading (dl_writes dl) d; d1 = last (d # ds)
           in if \<not> dl_returns dl then (ds, Inl Download_raised)
              else case id_partial d1 of
                     None \<Rightarrow> (ds, Inl No_partial)
                   | Some p \<Rightarrow>
                       if sha (if_data p) \<noteq> h then (ds @ [d1\<lparr>id_partial := None\<rparr>], Inl Wrong_hash)
                       else (ds @ install p h d1, Inr ()))"

text \<open>The settings of the index (\<open>JobsSettings\<close> checks that a hash comes with a path and has 64 characters).\<close>

record index_settings =
  ix_path :: "string option"
  ix_s3 :: bool
  ix_sha :: string

datatype prepare_error = Not_fetched ensure_error | Not_found | Not_opened index_error | Broken_file

text \<open>\<open>load\<close> is what SQLite reads from the bytes of the file.\<close>

definition prepare_place_index ::
  "(nat list \<Rightarrow> string) \<Rightarrow> (nat list \<Rightarrow> place_db option) \<Rightarrow> index_settings \<Rightarrow> download \<Rightarrow> index_dir \<Rightarrow>
   index_dir list \<times> (prepare_error + string option)" where
  "prepare_place_index sha load cfg dl d =
     (case ix_path cfg of
        None \<Rightarrow> ([], Inr None)
      | Some path \<Rightarrow>
          if path = [] then ([], Inr None)
          else let (ds, r) = (if ix_s3 cfg then ensure_local_index sha (ix_sha cfg) dl d else ([], Inr ()))
               in case r of
                    Inl e \<Rightarrow> (ds, Inl (Not_fetched e))
                  | Inr _ \<Rightarrow>
                      (ds, case id_index (last (d # ds)) of
                             None \<Rightarrow> Inl Not_found
                           | Some f \<Rightarrow>
                               (case load (if_data f) of
                                  None \<Rightarrow> Inl Broken_file
                                | Some db \<Rightarrow> (case open_index db of Inl e \<Rightarrow> Inl (Not_opened e) | Inr _ \<Rightarrow> Inr (Some path)))))"

text \<open>
  The directory over time: a run of any process, cut off anywhere or complete, or somebody else writing the
  index file (which gives it a modification time of its own).
\<close>

inductive dir_reachable :: "(nat list \<Rightarrow> string) \<Rightarrow> index_dir \<Rightarrow> bool" for sha where
  fresh: "id_stamp d = None \<Longrightarrow> (\<forall>p. id_partial d = Some p \<longrightarrow> if_mtime p \<le> id_now d) \<Longrightarrow> dir_reachable sha d"
| run: "dir_reachable sha d \<Longrightarrow> length h = 64 \<Longrightarrow> ensure_local_index sha h dl d = (ds, r) \<Longrightarrow> d' \<in> set ds \<Longrightarrow>
    dir_reachable sha d'"
| written: "dir_reachable sha d \<Longrightarrow>
    dir_reachable sha (d\<lparr>id_now := id_now d + 1, id_index := Some \<lparr>if_data = c, if_mtime = id_now d + 1\<rparr>\<rparr>)"

section \<open>The stamp vouches for the file\<close>

lemma digits_no_blank: "CHR '' '' \<notin> set (nat_str n)"
  using nat_str_digits[of n] by (auto simp: list_all_iff is_digit_def)

lemma stamp_of_inject:
  assumes "stamp_of f g = stamp_of f0 h" "length g = length h"
  shows "g = h \<and> if_mtime f = if_mtime f0"
  using assms by (auto simp: stamp_of_def append_sep_inject digits_no_blank)

definition vouched :: "(nat list \<Rightarrow> string) \<Rightarrow> nat \<Rightarrow> index_file option \<Rightarrow> string \<Rightarrow> bool" where
  "vouched sha now_ns ix s \<longleftrightarrow> s = '''' \<or>
     (\<exists>f0 h. s = stamp_of f0 h \<and> length h = 64 \<and> sha (if_data f0) = h \<and> if_mtime f0 \<le> now_ns \<and>
        (\<forall>f. ix = Some f \<longrightarrow> f = f0 \<or> if_mtime f0 < if_mtime f))"

definition stamp_true :: "(nat list \<Rightarrow> string) \<Rightarrow> index_dir \<Rightarrow> bool" where
  "stamp_true sha d \<longleftrightarrow>
     (\<forall>p. id_partial d = Some p \<longrightarrow> if_mtime p \<le> id_now d) \<and>
     (\<forall>s. id_stamp d = Some s \<longrightarrow> vouched sha (id_now d) (id_index d) s)"

lemma vouched_empty [simp]: "vouched sha now_ns ix ''''"
  by (simp add: vouched_def)

lemma vouched_own: "sha (if_data p) = h \<Longrightarrow> length h = 64 \<Longrightarrow> if_mtime p \<le> now_ns \<Longrightarrow>
    vouched sha now_ns (Some p) (stamp_of p h)"
  unfolding vouched_def by blast

lemma vouched_later:
  assumes "vouched sha now_ns ix s" "now_ns \<le> now2" "ix2 = ix \<or> (\<exists>f. ix2 = Some f \<and> now_ns < if_mtime f)"
  shows "vouched sha now2 ix2 s"
proof (cases "s = ''''")
  case False
  then obtain f0 h where f0: "s = stamp_of f0 h" "length h = 64" "sha (if_data f0) = h" "if_mtime f0 \<le> now_ns"
    "\<forall>f. ix = Some f \<longrightarrow> f = f0 \<or> if_mtime f0 < if_mtime f"
    using assms(1) unfolding vouched_def by blast
  moreover have "if_mtime f0 \<le> now2" "\<forall>f. ix2 = Some f \<longrightarrow> f = f0 \<or> if_mtime f0 < if_mtime f"
    using f0(4,5) assms(2,3) by auto
  ultimately show ?thesis unfolding vouched_def by blast
qed simp

lemma stamp_not_empty: "stamp_of f h \<noteq> ''''"
  by (simp add: stamp_of_def)

lemma downloading_true:
  "stamp_true sha d \<Longrightarrow> d' \<in> set (downloading cs d) \<Longrightarrow> stamp_true sha d'"
proof (induction cs arbitrary: d)
  case (Cons c cs)
  have "stamp_true sha (d\<lparr>id_now := id_now d + 1, id_partial := Some \<lparr>if_data = c, if_mtime = id_now d + 1\<rparr>\<rparr>)"
    using Cons.prems(1) vouched_later[of sha "id_now d" "id_index d" _ "id_now d + 1" "id_index d"]
    unfolding stamp_true_def by simp
  with Cons show ?case by (auto simp: Let_def)
qed simp

lemma install_true:
  assumes "stamp_true sha d" "id_partial d = Some p" "sha (if_data p) = h" "length h = 64" "d' \<in> set (install p h d)"
  shows "stamp_true sha d'"
  using assms vouched_own[of sha p h "id_now d"] by (auto simp: install_def Let_def stamp_true_def)

lemma ensure_states:
  assumes "ensure_local_index sha h dl d = (ds, r)" "d' \<in> set ds"
  defines "d1 \<equiv> last (d # downloading (dl_writes dl) d)"
  shows "d' \<in> set (downloading (dl_writes dl) d) \<or> d' = d1\<lparr>id_partial := None\<rparr> \<or>
    (\<exists>p. id_partial d1 = Some p \<and> sha (if_data p) = h \<and> d' \<in> set (install p h d1))"
proof (cases "id_partial d1")
  case None
  then show ?thesis
    using assms(1,2) unfolding ensure_local_index_def Let_def d1_def[symmetric] by (auto split: if_splits)
next
  case (Some p)
  then show ?thesis
    using assms(1,2) unfolding ensure_local_index_def Let_def d1_def[symmetric] by (auto split: if_splits)
qed

lemma ensure_true:
  assumes "stamp_true sha d" "length h = 64" "ensure_local_index sha h dl d = (ds, r)" "d' \<in> set ds"
  shows "stamp_true sha d'"
proof -
  let ?ds = "downloading (dl_writes dl) d"
  define d1 where "d1 = last (d # ?ds)"
  have ds: "stamp_true sha x" if "x \<in> set ?ds" for x using downloading_true[OF assms(1) that] .
  have d1: "stamp_true sha d1" using ds assms(1) unfolding d1_def by (cases "?ds = []") auto
  have "stamp_true sha (d1\<lparr>id_partial := None\<rparr>)" using d1 by (simp add: stamp_true_def)
  moreover have "stamp_true sha x" if "id_partial d1 = Some p" "sha (if_data p) = h" "x \<in> set (install p h d1)" for x p
    using install_true[OF d1 that(1,2) assms(2) that(3)] .
  ultimately show ?thesis using ensure_states[OF assms(3,4)] ds unfolding d1_def[symmetric] by blast
qed

lemma reachable_true: "dir_reachable sha d \<Longrightarrow> stamp_true sha d"
proof (induction rule: dir_reachable.induct)
  case (fresh d)
  then show ?case by (simp add: stamp_true_def)
next
  case (run d h dl ds r d')
  then show ?case using ensure_true by blast
next
  case (written d c)
  have "vouched sha (id_now d + 1) (Some \<lparr>if_data = c, if_mtime = id_now d + 1\<rparr>) s" if "id_stamp d = Some s" for s
  proof (rule vouched_later)
    show "vouched sha (id_now d) (id_index d) s" using written.IH that by (simp add: stamp_true_def)
  qed simp_all
  moreover have "if_mtime p \<le> id_now d + 1" if "id_partial d = Some p" for p
    using written.IH that by (auto simp: stamp_true_def intro: le_SucI)
  ultimately show ?case by (simp add: stamp_true_def)
qed

lemma ensure_gives:
  assumes true: "stamp_true sha d" and h: "length h = 64" and run: "ensure_local_index sha h dl d = (ds, Inr ())"
  shows "\<exists>f. id_index (last (d # ds)) = Some f \<and> sha (if_data f) = h"
proof (cases "case (id_index d, id_stamp d) of (Some f, Some s) \<Rightarrow> s = stamp_of f h | _ \<Rightarrow> False")
  case True
  then obtain f where f: "id_index d = Some f" "id_stamp d = Some (stamp_of f h)" by (auto split: option.splits)
  then obtain f0 g where f0: "stamp_of f h = stamp_of f0 g" "length g = 64" "sha (if_data f0) = g"
    "f = f0 \<or> if_mtime f0 < if_mtime f" using true stamp_not_empty[of f h] unfolding stamp_true_def vouched_def by blast
  then have "g = h" "if_mtime f = if_mtime f0" using stamp_of_inject[of f h f0 g] h by auto
  with f0 f run True show ?thesis by (auto simp: ensure_local_index_def)
next
  case False
  then obtain p where "id_partial (last (d # downloading (dl_writes dl) d)) = Some p" "sha (if_data p) = h"
    and ds: "ds = downloading (dl_writes dl) d @ install p h (last (d # downloading (dl_writes dl) d))"
    using run by (auto simp: ensure_local_index_def Let_def split: if_splits option.splits simp del: last.simps)
  then show ?thesis by (simp add: install_def Let_def)
qed


lemma last_downloading:
  "cs \<noteq> [] \<Longrightarrow> \<exists>t. id_partial (last (d # downloading cs d)) = Some \<lparr>if_data = last cs, if_mtime = t\<rparr>"
proof (induction cs arbitrary: d)
  case (Cons c cs)
  show ?case
  proof (cases cs)
    case Nil
    then show ?thesis by (simp add: Let_def)
  next
    case (Cons c2 cs2)
    then have "cs \<noteq> []" by simp
    from Cons.IH[OF this] \<open>cs \<noteq> []\<close> show ?thesis by (simp add: Let_def)
  qed
qed simp

lemma ensure_progress:
  assumes "dl_returns dl" "dl_writes dl \<noteq> []" "sha (last (dl_writes dl)) = h"
  shows "snd (ensure_local_index sha h dl d) = Inr ()"
proof -
  obtain t where "id_partial (last (d # downloading (dl_writes dl) d)) = Some \<lparr>if_data = last (dl_writes dl), if_mtime = t\<rparr>"
    using last_downloading[OF assms(2), of d] by blast
  then show ?thesis using assms(1,3) by (simp add: ensure_local_index_def Let_def del: last.simps)
qed

text \<open>C22. The local copy of the index is the one asked for.  Whatever earlier runs of any process left behind
  when they were cut off, and whoever wrote over the file meanwhile: when \<open>ensure_local_index\<close> returns, the
  file has the configured hash; and it does return when the download delivers that content.\<close>

theorem index_file_is_the_one_asked_for:
  assumes "dir_reachable sha d" "length h = 64" and "ensure_local_index sha h dl d = (ds, r)"
  shows "(r = Inr () \<longrightarrow> (\<exists>f. id_index (last (d # ds)) = Some f \<and> sha (if_data f) = h)) \<and>
    (dl_returns dl \<and> dl_writes dl \<noteq> [] \<and> sha (last (dl_writes dl)) = h \<longrightarrow> r = Inr ())"
  using ensure_gives[OF reachable_true[OF assms(1)] assms(2), of dl ds] ensure_progress[of dl sha h d] assms(3) by auto

section \<open>An example: a run dies after it has replaced the file, the next one finishes\<close>

definition ex_sha :: "nat list \<Rightarrow> string" where
  "ex_sha c = replicate 64 (if c = [1] then CHR ''a'' else CHR ''b'')"

definition ex_dir :: index_dir where
  "ex_dir = \<lparr>id_index = None, id_stamp = None, id_partial = None, id_now = 0\<rparr>"

definition ex_dl :: download where
  "ex_dl = \<lparr>dl_writes = [[0], [1]], dl_returns = True\<rparr>"

definition ex_cut :: index_dir where
  "ex_cut = \<lparr>id_index = Some \<lparr>if_data = [1], if_mtime = 2\<rparr>, id_stamp = None, id_partial = None, id_now = 2\<rparr>"

lemma ex_cut_reachable: "dir_reachable ex_sha ex_cut"
proof (rule dir_reachable.run[of _ ex_dir "ex_sha [1]" ex_dl])
  show "dir_reachable ex_sha ex_dir" by (rule dir_reachable.fresh) (simp_all add: ex_dir_def)
  show "length (ex_sha [1]) = 64" by (simp add: ex_sha_def)
  show "ensure_local_index ex_sha (ex_sha [1]) ex_dl ex_dir =
    (fst (ensure_local_index ex_sha (ex_sha [1]) ex_dl ex_dir), snd (ensure_local_index ex_sha (ex_sha [1]) ex_dl ex_dir))"
    by simp
  show "ex_cut \<in> set (fst (ensure_local_index ex_sha (ex_sha [1]) ex_dl ex_dir))"
    by (simp add: ensure_local_index_def ex_dl_def ex_dir_def install_def Let_def ex_cut_def)
qed

lemma index_file_is_the_one_asked_for_witness:
  "\<exists>ds. ensure_local_index ex_sha (ex_sha [1]) ex_dl ex_cut = (ds, Inr ()) \<and>
     (\<exists>f. id_index (last (ex_cut # ds)) = Some f \<and> ex_sha (if_data f) = ex_sha [1])"
proof -
  obtain ds r where run: "ensure_local_index ex_sha (ex_sha [1]) ex_dl ex_cut = (ds, r)" by fastforce
  have "length (ex_sha [1]) = 64" by (simp add: ex_sha_def)
  from index_file_is_the_one_asked_for[OF ex_cut_reachable this run] run show ?thesis by (auto simp: ex_dl_def)
qed

end
