(* ===== verification/Metrics.thy ===== *)
theory Metrics
  imports RedisStore
begin

text \<open>
  The metrics page: \<open>Metrics\<close> of \<open>src/app/observability/metrics.py\<close>.  Searches add their observations to the
  hash the job store writes to (\<open>observe_commands\<close>, \<open>terminal_commands\<close>); the page is made from what one
  transaction reads.  A sample is its labels and its number, a histogram its buckets and their sum.  Left out
  are the conditions of an evaluation and the numbers of the process itself.

  What the metrics page shows is what happened: the counters add up over everything the processes wrote.
\<close>

section \<open>Searches\<close>

text \<open>\<open>query\<close>: a transaction that is not finished in time or fails is dropped; it may have arrived.\<close>

definition query_commands :: "string \<Rightarrow> string \<Rightarrow> rat \<Rightarrow> (string \<times> string \<times> rat) list \<Rightarrow> rcmd list" where
  "query_commands operation outcome seconds stages =
     observe_commands (KMetrics ''operations'') operation outcome ''request'' seconds @
     concat (map (\<lambda>(result, name, x). observe_commands (KMetrics ''operations'') operation result name x) stages)"

definition metrics_query ::
  "bool \<Rightarrow> string \<Rightarrow> string \<Rightarrow> rat \<Rightarrow> (string \<times> string \<times> rat) list \<Rightarrow> redis \<Rightarrow> redis" where
  "metrics_query arrives operation outcome seconds stages s =
     (if arrives then exec (query_commands operation outcome seconds stages) s else s)"

section \<open>Who writes, and what\<close>

type_synonym labels = "string \<times> string \<times> string"

text \<open>Everything that writes to the operations hash: a job that ends, the stages of a job, a search.\<close>

datatype metric_writer =
  Job_ends job rat
| Job_stages job_kind "(string \<times> string \<times> rat) list"
| Search_done string string rat "(string \<times> string \<times> rat) list"

fun writer_commands :: "metric_writer \<Rightarrow> job_exn + rcmd list" where
  "writer_commands (Job_ends j now) = terminal_commands j now"
| "writer_commands (Job_stages k stages) = Inr (observe_stages k stages)"
| "writer_commands (Search_done operation outcome seconds stages) =
     Inr (query_commands operation outcome seconds stages)"

text \<open>The times it stands for: a job's from its record, whole, waiting and running.\<close>

definition was_started :: "job \<Rightarrow> rat option" where
  "was_started j = (case j_started j of Some t \<Rightarrow> if t = 0 then None else Some t | None \<Rightarrow> None)"

fun writer_times :: "metric_writer \<Rightarrow> (labels \<times> rat) list" where
  "writer_times (Job_ends j now) =
     (let l = (\<lambda>phase. (kind_name (j_kind j), status_name (j_status j), phase)) in
      [(l ''total'', now - j_created j),
       (l ''queue'', (case was_started j of Some t \<Rightarrow> t | None \<Rightarrow> now) - j_created j),
       (l ''execution'', (case was_started j of Some t \<Rightarrow> now - t | None \<Rightarrow> 0))])"
| "writer_times (Job_stages k stages) = map (\<lambda>(result, name, x). ((kind_name k, result, name), x)) stages"
| "writer_times (Search_done operation outcome seconds stages) =
     ((operation, outcome, ''request''), seconds) # map (\<lambda>(result, name, x). ((operation, result, name), x)) stages"

definition times_under :: "labels \<Rightarrow> metric_writer list \<Rightarrow> rat list" where
  "times_under l ws = map (\<lambda>p. max 0 (snd p)) (filter (\<lambda>p. fst p = l) (concat (map writer_times ws)))"

text \<open>The photos and the blocks of the result of a completed job.\<close>

definition body_field :: "string \<Rightarrow> json \<Rightarrow> json" where
  "body_field f j = (case j of JObj kvs \<Rightarrow> (case map_of kvs f of Some v \<Rightarrow> v | None \<Rightarrow> JNull) | _ \<Rightarrow> JNull)"

fun json_size :: "json \<Rightarrow> nat" where
  "json_size (JArr xs) = length xs"
| "json_size (JObj kvs) = length kvs"
| "json_size (JStr u) = length u"
| "json_size _ = 0"

definition placed_in :: "json \<Rightarrow> nat" where
  "placed_in res = (case body_field ''places'' res of
      JArr places \<Rightarrow> (\<Sum>p\<leftarrow>places. json_size (body_field ''attachments'' p)) | _ \<Rightarrow> 0)"

definition unplaced_in :: "json \<Rightarrow> nat" where
  "unplaced_in res = json_size (body_field ''unclassified'' res)"

definition blocks_in :: "json \<Rightarrow> nat" where
  "blocks_in res = json_size (body_field ''blocks'' res)"

text \<open>The results that completed jobs of a kind returned.\<close>

fun completed_result :: "job_kind \<Rightarrow> metric_writer \<Rightarrow> json option" where
  "completed_result k (Job_ends j now) =
     (if j_kind j = k \<and> j_status j = COMPLETED then Option.bind (j_event j) ev_result else None)"
| "completed_result k _ = None"

definition results_of :: "job_kind \<Rightarrow> metric_writer list \<Rightarrow> json list" where
  "results_of k ws = List.map_filter (completed_result k) ws"

section \<open>The page\<close>

type_synonym stats = "(string, rat) pydict"

record metrics_page =
  mp_operations :: "(labels \<times> (string \<times> rat) list \<times> rat) list"
  mp_jobs :: "(string \<times> nat) list"
  mp_photos :: "(string \<times> rat) list"
  mp_blocks :: rat
  mp_quality :: "(string list \<times> rat) list"
  mp_memory :: "(string \<times> rat) list"

text \<open>The labels that are shown although nothing was observed yet.\<close>

definition known_labels :: "labels list" where
  "known_labels =
     [(a, b, c). a \<leftarrow> [''process'', ''story''], b \<leftarrow> [''COMPLETED'', ''FAILED'', ''CANCELED''],
        c \<leftarrow> [''total'', ''queue'', ''execution'']] @
     [(a, b, ''request''). a \<leftarrow> [''parse'', ''search''], b \<leftarrow> [''success'', ''fallback'', ''partial'', ''error'']]"

text \<open>\<open>groups[tuple(parts[:3])][parts[3]] = float(value)\<close> on a \<open>defaultdict(dict)\<close>.\<close>

definition put_stat :: "string \<times> rat \<Rightarrow> (labels, stats) pydict \<Rightarrow> (labels, stats) pydict" where
  "put_stat fv groups =
     (case split_at (CHR ''|'') (fst fv) of
        [a, b, c, d] \<Rightarrow> dict_set (a, b, c) (dict_set d (snd fv) (dict_get [] groups (a, b, c))) groups
      | _ \<Rightarrow> groups)"

definition stat_groups :: "(string, rat) pydict \<Rightarrow> (labels, stats) pydict" where
  "stat_groups found = fold put_stat found (map (\<lambda>l. (l, [])) known_labels)"

definition bucket_label :: "string \<times> rat option \<Rightarrow> string" where
  "bucket_label b = (case snd b of None \<Rightarrow> ''+Inf'' | Some u \<Rightarrow> fst b)"

definition histogram_of :: "labels \<times> stats \<Rightarrow> labels \<times> (string \<times> rat) list \<times> rat" where
  "histogram_of g =
     (fst g, map (\<lambda>b. (bucket_label b, dict_get 0 (snd g) (fst b))) BUCKETS, dict_get 0 (snd g) ''sum'')"

definition photo_count :: "(string, rat) pydict \<Rightarrow> string \<Rightarrow> rat" where
  "photo_count found name = dict_get 0 found (''photos|'' @ name)"

definition quality_rows :: "(string, rat) pydict \<Rightarrow> (string list \<times> rat) list" where
  "quality_rows found =
     filter (\<lambda>(parts, v). length parts = 4) (map (\<lambda>(f, v). (split_at (CHR ''|'') f, v)) found)"

text \<open>\<open>field.split("|", 1)\<close> unpacked: a field without a bar raises.\<close>

definition memory_row :: "string \<times> rat \<Rightarrow> (string \<times> string \<times> rat) option" where
  "memory_row fv =
     (case dropWhile (\<lambda>c. c \<noteq> CHR ''|'') (fst fv) of
        [] \<Rightarrow> None
      | c # rest \<Rightarrow> Some (takeWhile (\<lambda>c. c \<noteq> CHR ''|'') (fst fv), rest, snd fv))"

definition memory_rows :: "(string, rat) pydict \<Rightarrow> (string \<times> rat) list option" where
  "memory_rows found =
     map_option (\<lambda>rows. map (\<lambda>(operation, name, v). (operation, v))
         (filter (\<lambda>(operation, name, v). name = ''peak_memory_bytes'') rows))
       (all_some (map memory_row found))"

definition render :: "redis \<Rightarrow> metrics_page option" where
  "render s =
     (let found = get_hash s (KMetrics ''operations'') in
      map_option (\<lambda>memory.
        \<lparr>mp_operations = map histogram_of (stat_groups found),
         mp_jobs = [(''queued_process'', length (get_zset s (KQueue Process))),
                    (''queued_story'', length (get_zset s (KQueue Story))),
                    (''running'', length (get_zset s KRunning)), (''pending_result'', length (get_zset s KPending))],
         mp_photos = map (\<lambda>n. (n, photo_count found n)) [''classified'', ''unclassified''],
         mp_blocks = dict_get 0 found ''story|blocks'',
         mp_quality = quality_rows (get_hash s (KMetrics ''quality_v2'')),
         mp_memory = memory\<rparr>)
       (memory_rows (get_hash s (KMetrics ''resources''))))"

section \<open>Field names\<close>

definition plain :: "string \<Rightarrow> bool" where
  "plain w \<longleftrightarrow> CHR ''|'' \<notin> set w"

definition field_of :: "labels \<Rightarrow> string \<Rightarrow> string" where
  "field_of l nm = join_with (CHR ''|'') [fst l, fst (snd l), snd (snd l), nm]"

definition plain_labels :: "labels \<Rightarrow> bool" where
  "plain_labels l \<longleftrightarrow> plain (fst l) \<and> plain (fst (snd l)) \<and> plain (snd (snd l))"

lemma split_field:
  assumes "plain_labels l" "plain nm"
  shows "split_at (CHR ''|'') (field_of l nm) = [fst l, fst (snd l), snd (snd l), nm]"
  using assms unfolding field_of_def plain_labels_def plain_def by (subst split_join) auto

lemma field_inject:
  "plain_labels l \<Longrightarrow> plain nm \<Longrightarrow> plain_labels l' \<Longrightarrow> plain nm' \<Longrightarrow> field_of l nm = field_of l' nm' \<longleftrightarrow> l = l' \<and> nm = nm'"
proof -
  assume "plain_labels l" "plain nm" "plain_labels l'" "plain nm'"
  then have "field_of l nm = field_of l' nm' \<Longrightarrow>
      [fst l, fst (snd l), snd (snd l), nm] = [fst l', fst (snd l'), snd (snd l'), nm']"
    using split_field by metis
  then show ?thesis by (cases l; cases l') auto
qed

lemma split_four:
  assumes "split_at (CHR ''|'') f = [a, b, c, d]"
  shows "f = field_of (a, b, c) d \<and> plain_labels (a, b, c) \<and> plain d"
proof -
  have "w \<in> {a, b, c, d} \<Longrightarrow> plain w" for w using split_no_sep[of w "CHR ''|''" f] assms by (auto simp: plain_def)
  moreover have "f = field_of (a, b, c) d"
    using join_split[of "CHR ''|''" f] assms by (simp add: field_of_def)
  ultimately show ?thesis by (auto simp: plain_labels_def)
qed

section \<open>Counters\<close>

text \<open>What a list of increments adds to a field.\<close>

definition added :: "(string \<times> rat) list \<Rightarrow> string \<Rightarrow> rat" where
  "added incs f = sum_list (map snd (filter (\<lambda>i. fst i = f) incs))"

lemma added_append [simp]: "added (a @ b) f = added a f + added b f"
  by (simp add: added_def)

lemma added_simps [simp]: "added [] f = 0" "added (i # incs) f = (if fst i = f then snd i else 0) + added incs f"
  by (simp_all add: added_def)

lemma exec_increments:
  "dict_get 0 (get_hash (exec (map (\<lambda>(f, d). HINCRc k f d) incs) s) k) f = dict_get 0 (get_hash s k) f + added incs f \<and>
   fst ` set (get_hash (exec (map (\<lambda>(f, d). HINCRc k f d) incs) s) k) = fst ` set (get_hash s k) \<union> fst ` set incs \<and>
   (distinct (map fst (get_hash s k)) \<longrightarrow> distinct (map fst (get_hash (exec (map (\<lambda>(f, d). HINCRc k f d) incs) s) k)))"
proof (induction incs arbitrary: s)
  case (Cons i incs)
  obtain g d where i: "i = (g, d)" by (cases i)
  define t where "t = exec1 (HINCRc k g d) s"
  have h: "get_hash t k = dict_set g (dict_get 0 (get_hash s k) g + d) (get_hash s k)"
    by (simp add: t_def get_hash_def)
  have "dict_get 0 (get_hash t k) f = dict_get 0 (get_hash s k) f + (if g = f then d else 0)"
    unfolding h by (simp add: dict_get_def)
  moreover have "fst ` set (get_hash t k) = insert g (fst ` set (get_hash s k))" unfolding h by (rule dom_dict_set)
  moreover have "distinct (map fst (get_hash s k)) \<longrightarrow> distinct (map fst (get_hash t k))"
    unfolding h by (simp add: distinct_dict_set)
  moreover have "exec (map (\<lambda>(f, d). HINCRc k f d) (i # incs)) s = exec (map (\<lambda>(f, d). HINCRc k f d) incs) t"
    by (simp add: i t_def)
  ultimately show ?case using Cons[of t] by (simp add: i)
qed simp

text \<open>Only the commands on a key matter to its hash.\<close>

lemma exec_on_key: "exec cs s k = exec (filter (\<lambda>c. cmd_key c = k) cs) s k"
proof -
  have one: "cmd_key c = k \<Longrightarrow> s k = t k \<Longrightarrow> exec1 c s k = exec1 c t k" for c s t
    by (cases c) (simp_all add: get_zset_def get_hash_def)
  have "s k = t k \<Longrightarrow> exec cs s k = exec (filter (\<lambda>c. cmd_key c = k) cs) t k" for s t
  proof (induction cs arbitrary: s t)
    case (Cons c cs)
    show ?case
    proof (cases "cmd_key c = k")
      case True
      with Cons one[of c s t] show ?thesis by simp
    next
      case False
      with Cons exec1_other[of k c s] show ?thesis by auto
    qed
  qed simp
  then show ?thesis by simp
qed

section \<open>Groups\<close>

lemma put_stat_get:
  assumes "plain_labels l" "plain nm"
  shows "map_of (dict_get [] (put_stat (f, v) g) l) nm =
    (if f = field_of l nm then Some v else map_of (dict_get [] g l) nm)"
proof (cases "\<exists>a b c d. split_at (CHR ''|'') f = [a, b, c, d]")
  case True
  then obtain a b c d where s: "split_at (CHR ''|'') f = [a, b, c, d]" by blast
  have f: "f = field_of (a, b, c) d" "plain_labels (a, b, c)" "plain d" using split_four[OF s] by auto
  have "f = field_of l nm \<longleftrightarrow> l = (a, b, c) \<and> nm = d"
    using field_inject[OF f(2,3) assms] f(1) by auto
  then show ?thesis by (auto simp: put_stat_def s dict_get_def)
next
  case False
  then have "put_stat (f, v) g = g" by (auto simp: put_stat_def split: list.split)
  moreover have "f \<noteq> field_of l nm" using False split_field[OF assms] by auto
  ultimately show ?thesis by simp
qed

lemma fold_put_stat:
  assumes "plain_labels l" "plain nm" "distinct (map fst found)"
  shows "map_of (dict_get [] (fold put_stat found g) l) nm =
    (case map_of found (field_of l nm) of Some v \<Rightarrow> Some v | None \<Rightarrow> map_of (dict_get [] g l) nm)"
  using assms(3)
proof (induction found arbitrary: g)
  case (Cons fv found)
  obtain f v where fv: "fv = (f, v)" by (cases fv)
  with Cons.prems have "f \<notin> dom (map_of found)" by (auto simp: dom_map_of_conv_image_fst)
  then show ?case
    using Cons put_stat_get[OF assms(1,2), of f v g] by (auto simp: fv split: option.split)
qed simp

lemma put_stat_keys:
  "set (map fst g) \<subseteq> set (map fst (put_stat fv g)) \<and> (distinct (map fst g) \<longrightarrow> distinct (map fst (put_stat fv g)))"
proof (cases "\<exists>a b c d. split_at (CHR ''|'') (fst fv) = [a, b, c, d]")
  case True
  then obtain l x where "put_stat fv g = dict_set l x g" by (auto simp: put_stat_def)
  then show ?thesis using set_fst_dict_set[of l x g] distinct_dict_set[of g l x] by auto
next
  case False
  then have "put_stat fv g = g" by (auto simp: put_stat_def split: list.split)
  then show ?thesis by simp
qed

lemma put_stat_label: "plain_labels l \<Longrightarrow> plain nm \<Longrightarrow> l \<in> set (map fst (put_stat (field_of l nm, v) g))"
  by (cases l) (simp add: put_stat_def split_field dom_dict_set)

lemma fold_put_keys:
  "set (map fst g) \<subseteq> set (map fst (fold put_stat found g)) \<and>
   (distinct (map fst g) \<longrightarrow> distinct (map fst (fold put_stat found g)))"
proof (induction found arbitrary: g)
  case (Cons fv found)
  from Cons[of "put_stat fv g"] put_stat_keys[of g fv] show ?case by simp (meson order_trans)
qed simp

lemma fold_put_label:
  assumes "plain_labels l" "plain nm" "(field_of l nm, v) \<in> set found"
  shows "l \<in> set (map fst (fold put_stat found g))"
  using assms(3)
proof (induction found arbitrary: g)
  case (Cons fv found)
  show ?case
  proof (cases "fv = (field_of l nm, v)")
    case True
    then show ?thesis
      using put_stat_label[OF assms(1,2), of v g] fold_put_keys[of "put_stat fv g" found] by auto
  qed (use Cons in auto)
qed simp

lemma stat_groups_plain: "l \<in> set (map fst (stat_groups found)) \<Longrightarrow> plain_labels l"
proof -
  have "\<forall>l \<in> set (map fst g). plain_labels l \<Longrightarrow> \<forall>l \<in> set (map fst (fold put_stat found g)). plain_labels l" for g
  proof (induction found arbitrary: g)
    case (Cons fv found)
    have "\<forall>l \<in> set (map fst (put_stat fv g)). plain_labels l"
    proof (cases "\<exists>a b c d. split_at (CHR ''|'') (fst fv) = [a, b, c, d]")
      case True
      then obtain a b c d where s: "split_at (CHR ''|'') (fst fv) = [a, b, c, d]" by blast
      then show ?thesis using Cons.prems split_four[OF s] by (auto simp: put_stat_def s set_fst_dict_set simp del: set_map)
    next
      case False
      then have "put_stat fv g = g" by (auto simp: put_stat_def split: list.split)
      with Cons.prems show ?thesis by simp
    qed
    with Cons.IH show ?case by simp
  qed simp
  moreover have "\<forall>l \<in> set (map fst (map (\<lambda>l. (l, [])) known_labels)). plain_labels l"
    by (simp add: known_labels_def plain_labels_def plain_def)
  ultimately show "l \<in> set (map fst (stat_groups found)) \<Longrightarrow> plain_labels l" unfolding stat_groups_def by blast
qed

lemma stat_groups_distinct: "distinct (map fst (stat_groups found))"
proof -
  have "distinct (map fst (map (\<lambda>l. (l, [] :: stats)) known_labels))" by (simp add: known_labels_def)
  then show ?thesis using fold_put_keys unfolding stat_groups_def by blast
qed

text \<open>A number of a group is the number of its field.\<close>

lemma stat_groups_get:
  assumes "(l, st) \<in> set (stat_groups found)" "plain nm" "distinct (map fst found)"
  shows "dict_get 0 st nm = dict_get 0 found (field_of l nm)"
proof -
  have l: "plain_labels l" using stat_groups_plain[of l found] assms(1) by force
  have "dict_get [] (stat_groups found) l = st"
    using map_of_is_SomeI[OF stat_groups_distinct assms(1)] by (simp add: dict_get_def)
  moreover have "map_of (dict_get [] (map (\<lambda>l. (l, [])) known_labels) l) nm = None"
    by (auto simp: dict_get_def split: option.split dest!: map_of_SomeD)
  ultimately have "map_of st nm = map_of found (field_of l nm)"
    using fold_put_stat[OF l assms(2,3), of "map (\<lambda>l. (l, [])) known_labels"]
    by (simp add: stat_groups_def split: option.splits)
  then show ?thesis by (simp add: dict_get_def)
qed

section \<open>Events\<close>

datatype metric_event = Observed labels rat | Photos_done nat nat | Blocks_done nat

fun event_incs :: "metric_event \<Rightarrow> (string \<times> rat) list" where
  "event_incs (Observed l x) =
     [(field_of l ''count'', 1), (field_of l ''sum'', max 0 x)] @
     map (\<lambda>(nm, b). (field_of l nm, 1)) (filter (\<lambda>(nm, b). in_bucket (max 0 x) b) BUCKETS)"
| "event_incs (Photos_done c u) = [(''photos|classified'', of_nat c), (''photos|unclassified'', of_nat u)]"
| "event_incs (Blocks_done b) = [(''story|blocks'', of_nat b)]"

definition event_commands :: "metric_event \<Rightarrow> rcmd list" where
  "event_commands e = map (\<lambda>(f, d). HINCRc (KMetrics ''operations'') f d) (event_incs e)"

fun plain_event :: "metric_event \<Rightarrow> bool" where
  "plain_event (Observed l x) = plain_labels l"
| "plain_event _ = True"

text \<open>The times observed under a label, and the photos and blocks counted.\<close>

definition observed :: "labels \<Rightarrow> metric_event list \<Rightarrow> rat list" where
  "observed l evs = concat (map (\<lambda>e. case e of Observed l' x \<Rightarrow> if l' = l then [max 0 x] else [] | _ \<Rightarrow> []) evs)"

definition classified :: "metric_event list \<Rightarrow> nat" where
  "classified evs = sum_list (map (\<lambda>e. case e of Photos_done c u \<Rightarrow> c | _ \<Rightarrow> 0) evs)"

definition unclassified :: "metric_event list \<Rightarrow> nat" where
  "unclassified evs = sum_list (map (\<lambda>e. case e of Photos_done c u \<Rightarrow> u | _ \<Rightarrow> 0) evs)"

definition blocks :: "metric_event list \<Rightarrow> nat" where
  "blocks evs = sum_list (map (\<lambda>e. case e of Blocks_done b \<Rightarrow> b | _ \<Rightarrow> 0) evs)"

lemma observe_events: "observe_commands (KMetrics ''operations'') a b c x = event_commands (Observed (a, b, c) x)"
  by (simp add: observe_commands_def event_commands_def Let_def field_of_def comp_def case_prod_unfold)

lemma observed_simps [simp]:
  "observed l [] = []" "observed l (Observed l' x # evs) = (if l' = l then [max 0 x] else []) @ observed l evs"
  "observed l (Photos_done c u # evs) = observed l evs" "observed l (Blocks_done n # evs) = observed l evs"
  by (simp_all add: observed_def)

lemma observed_mem: "observed l evs \<noteq> [] \<Longrightarrow> \<exists>x. Observed l x \<in> set evs"
proof (induction evs)
  case (Cons e evs)
  then show ?case by (cases e) (auto split: if_splits)
qed simp

lemma two_parts:
  assumes "plain_labels l" "plain nm"
  shows "field_of l nm \<noteq> ''photos|classified''" "field_of l nm \<noteq> ''photos|unclassified''" "field_of l nm \<noteq> ''story|blocks''"
  using split_field[OF assms] by auto

lemma bucket_names: "(nm, b) \<in> set BUCKETS \<Longrightarrow> plain nm \<and> nm \<noteq> ''count'' \<and> nm \<noteq> ''sum''"
  by (auto simp: BUCKETS_def plain_def)

lemma bucket_unique: "(nm, b) \<in> set BUCKETS \<Longrightarrow> (nm, b') \<in> set BUCKETS \<Longrightarrow> b = b'"
  by (auto simp: BUCKETS_def)

lemma added_none: "f \<notin> fst ` set incs \<Longrightarrow> added incs f = 0"
  by (induction incs) auto

lemma added_ones: "added (map (\<lambda>p. (F p, 1)) xs) f = of_nat (length (filter (\<lambda>p. F p = f) xs))"
  by (induction xs) auto

lemma filter_one_key: "distinct (map fst xs) \<Longrightarrow> (k, v) \<in> set xs \<Longrightarrow> filter (\<lambda>p. fst p = k) xs = [(k, v)]"
proof (induction xs)
  case (Cons x xs)
  show ?case
  proof (cases "fst x = k")
    case True
    then have none: "k \<notin> fst ` set xs" using Cons.prems(1) by auto
    then have "filter (\<lambda>p. fst p = k) xs = []" by (auto simp: filter_empty_conv)
    moreover have "x = (k, v)" using Cons.prems(2) none by force
    ultimately show ?thesis by simp
  next
    case False
    with Cons show ?thesis by auto
  qed
qed simp

lemma added_buckets:
  assumes "plain_labels l" "plain_labels l'" "(nm, b) \<in> set BUCKETS"
  shows "added (map (\<lambda>(nm, b). (field_of l' nm, 1)) (filter (\<lambda>(nm, b). in_bucket x b) BUCKETS)) (field_of l nm) =
    (if l' = l \<and> in_bucket x b then 1 else 0)"
proof -
  have eq: "field_of l' m = field_of l nm \<longleftrightarrow> l' = l \<and> m = nm" if "(m, c) \<in> set BUCKETS" for m c
    using field_inject[OF assms(2) _ assms(1)] bucket_names[OF that] bucket_names[OF assms(3)] by blast
  let ?here = "filter (\<lambda>(m, c). in_bucket x c) BUCKETS"
  have "filter (\<lambda>p. field_of l' (fst p) = field_of l nm) ?here = filter (\<lambda>p. l' = l \<and> fst p = nm) ?here"
    using eq by (intro filter_cong) auto
  then have "added (map (\<lambda>(nm, b). (field_of l' nm, 1)) ?here) (field_of l nm) =
      of_nat (length (filter (\<lambda>p. l' = l \<and> fst p = nm) ?here))"
    by (simp add: case_prod_unfold added_ones)
  also have "\<dots> = (if l' = l \<and> in_bucket x b then 1 else 0)"
  proof -
    have "distinct (map fst BUCKETS)" by (simp add: BUCKETS_def)
    from filter_one_key[OF this assms(3)] have "filter (\<lambda>p. fst p = nm) ?here = filter (\<lambda>(m, c). in_bucket x c) [(nm, b)]"
      by (metis (no_types, lifting) filter_filter conj_commute filter_cong)
    then show ?thesis by (cases "l' = l") simp_all
  qed
  finally show ?thesis .
qed

text \<open>What all events add to the fields the page reads.\<close>

lemma added_events:
  assumes "list_all plain_event evs" "plain_labels l"
  shows "(nm, b) \<in> set BUCKETS \<Longrightarrow> added (concat (map event_incs evs)) (field_of l nm) =
      of_nat (length (filter (\<lambda>x. in_bucket x b) (observed l evs)))"
    and "added (concat (map event_incs evs)) (field_of l ''sum'') = sum_list (observed l evs)"
proof -
  have pl: "plain ''sum''" "plain ''count''" by (simp_all add: plain_def)
  have other: "added (map (\<lambda>(nm, b). (field_of l' nm, 1)) (filter P BUCKETS)) (field_of l nm) = 0"
    if a: "nm \<notin> set (map fst BUCKETS)" "plain nm" "plain_labels l'" for nm l' P
  proof (rule added_none)
    have "field_of l nm \<noteq> field_of l' m" if "(m, c) \<in> set BUCKETS" for m c
      using field_inject[OF assms(2) a(2,3), of m] bucket_names[OF that] a(1) that by force
    then show "field_of l nm \<notin> fst ` set (map (\<lambda>(nm, b). (field_of l' nm, 1)) (filter P BUCKETS))" by fastforce
  qed
  have sum: "''sum'' \<notin> set (map fst BUCKETS)" by (simp add: BUCKETS_def)
  show "added (concat (map event_incs evs)) (field_of l nm) = of_nat (length (filter (\<lambda>x. in_bucket x b) (observed l evs)))"
    if b: "(nm, b) \<in> set BUCKETS" for nm b
    using assms(1)
  proof (induction evs)
    case (Cons e evs)
    note bn = bucket_names[OF b]
    show ?case
    proof (cases e)
      case (Observed l' x)
      with Cons.prems have l': "plain_labels l'" by simp
      have "field_of l' ''count'' \<noteq> field_of l nm" "field_of l' ''sum'' \<noteq> field_of l nm"
        using field_inject[OF l' pl(2) assms(2)] field_inject[OF l' pl(1) assms(2)] bn by auto
      with Cons Observed added_buckets[OF assms(2) l' b, of "max 0 x"] show ?thesis by simp
    qed (use Cons two_parts[OF assms(2), of nm] bn in auto)
  qed simp
  show "added (concat (map event_incs evs)) (field_of l ''sum'') = sum_list (observed l evs)"
    using assms(1)
  proof (induction evs)
    case (Cons e evs)
    show ?case
    proof (cases e)
      case (Observed l' x)
      with Cons.prems have l': "plain_labels l'" by simp
      have "field_of l' ''count'' \<noteq> field_of l ''sum''" "field_of l' ''sum'' = field_of l ''sum'' \<longleftrightarrow> l' = l"
        using field_inject[OF l' pl(2) assms(2) pl(1)] field_inject[OF l' pl(1) assms(2) pl(1)] by auto
      with Cons Observed other[OF sum pl(1) l'] show ?thesis by simp
    qed (use Cons two_parts[OF assms(2) pl(1)] in auto)
  qed simp
qed

lemma not_a_field:
  assumes "f \<in> {''photos|classified'', ''photos|unclassified'', ''story|blocks''}" "plain_labels l"
  shows "added (event_incs (Observed l x)) f = 0"
proof (rule added_none)
  have "plain ''sum''" "plain ''count''" by (simp_all add: plain_def)
  then show "f \<notin> fst ` set (event_incs (Observed l x))"
    using two_parts[OF assms(2)] bucket_names assms(1) by (auto simp: image_iff) (metis)+
qed

lemma added_results:
  assumes "list_all plain_event evs"
  shows "added (concat (map event_incs evs)) ''photos|classified'' = of_nat (classified evs) \<and>
    added (concat (map event_incs evs)) ''photos|unclassified'' = of_nat (unclassified evs) \<and>
    added (concat (map event_incs evs)) ''story|blocks'' = of_nat (blocks evs)"
  using assms
proof (induction evs)
  case (Cons e evs)
  then show ?case
    by (cases e) (simp_all add: not_a_field classified_def unclassified_def blocks_def del: event_incs.simps(1))
qed (simp add: classified_def unclassified_def blocks_def)

lemma page_counts_events:
  assumes "filter (\<lambda>c. cmd_key c = KMetrics ''operations'') cs = concat (map event_commands evs)"
    and "list_all plain_event evs" and "get_hash s (KMetrics ''operations'') = []"
    and "render (exec cs s) = Some page"
  shows "distinct (map fst (mp_operations page)) \<and>
    (\<forall>l. observed l evs \<noteq> [] \<longrightarrow> l \<in> set (map fst (mp_operations page))) \<and>
    (\<forall>(l, bs, total) \<in> set (mp_operations page). total = sum_list (observed l evs) \<and>
       bs = map (\<lambda>b. (bucket_label b, of_nat (length (filter (\<lambda>x. in_bucket x (snd b)) (observed l evs))))) BUCKETS) \<and>
    mp_photos page = [(''classified'', of_nat (classified evs)), (''unclassified'', of_nat (unclassified evs))] \<and>
    mp_blocks page = of_nat (blocks evs)"
proof -
  let ?k = "KMetrics ''operations''" and ?incs = "concat (map event_incs evs)"
  define found where "found = get_hash (exec cs s) ?k"
  have cmds: "concat (map event_commands evs) = map (\<lambda>(f, d). HINCRc ?k f d) ?incs"
    by (induction evs) (simp_all add: event_commands_def)
  have "exec cs s ?k = exec (map (\<lambda>(f, d). HINCRc ?k f d) ?incs) s ?k"
    using exec_on_key[of cs s ?k] assms(1) cmds by simp
  then have "found = get_hash (exec (map (\<lambda>(f, d). HINCRc ?k f d) ?incs) s) ?k" by (simp add: found_def get_hash_def)
  with exec_increments[of ?k ?incs s] assms(3) have get: "\<And>f. dict_get 0 found f = added ?incs f"
    and keys: "fst ` set found = fst ` set ?incs" and dist: "distinct (map fst found)"
    by (auto simp: dict_get_def)
  from assms(4) have page: "mp_operations page = map histogram_of (stat_groups found)"
    "mp_photos page = map (\<lambda>n. (n, photo_count found n)) [''classified'', ''unclassified'']"
    "mp_blocks page = dict_get 0 found ''story|blocks''"
    by (auto simp: render_def Let_def found_def)
  have fst_h: "map fst (mp_operations page) = map fst (stat_groups found)" by (simp add: page histogram_of_def comp_def)
  have "l \<in> set (map fst (stat_groups found))" if "observed l evs \<noteq> []" for l
  proof -
    from that obtain x where x: "Observed l x \<in> set evs" using observed_mem by blast
    with assms(2) have l: "plain_labels l" "plain ''sum''" by (auto simp: list_all_iff plain_def)
    have "(field_of l ''sum'', max 0 x) \<in> set (event_incs (Observed l x))" by simp
    then have "(field_of l ''sum'', max 0 x) \<in> set ?incs" using x unfolding set_concat set_map by blast
    then have "field_of l ''sum'' \<in> fst ` set ?incs" by (rule rev_image_eqI) simp
    then have "field_of l ''sum'' \<in> fst ` set found" unfolding keys .
    then obtain fv where fv: "fv \<in> set found" "fst fv = field_of l ''sum''" by (elim imageE) simp
    then have "(field_of l ''sum'', snd fv) \<in> set found" by (metis prod.collapse)
    from fold_put_label[OF l this] show ?thesis unfolding stat_groups_def .
  qed
  moreover have "snd (snd h) = sum_list (observed (fst h) evs) \<and>
      fst (snd h) = map (\<lambda>b. (bucket_label b, of_nat (length (filter (\<lambda>x. in_bucket x (snd b)) (observed (fst h) evs))))) BUCKETS"
    if "h \<in> set (mp_operations page)" for h
  proof -
    from that obtain l st where h: "h = histogram_of (l, st)" "(l, st) \<in> set (stat_groups found)" unfolding page by force
    have l: "plain_labels l" using stat_groups_plain[of l found] h(2) by force
    have "plain ''sum''" by (simp add: plain_def)
    note get' = stat_groups_get[OF h(2) _ dist] added_events[OF assms(2) l]
    show ?thesis
      unfolding h(1) histogram_of_def using get'(1)[OF \<open>plain ''sum''\<close>] get'(1) get'(2,3) bucket_names get by auto
  qed
  moreover have "mp_photos page = [(''classified'', of_nat (classified evs)), (''unclassified'', of_nat (unclassified evs))]"
    "mp_blocks page = of_nat (blocks evs)"
    using added_results[OF assms(2)] by (simp_all add: page photo_count_def get)
  ultimately show ?thesis unfolding fst_h using stat_groups_distinct by (auto simp: case_prod_unfold)
qed

section \<open>Every writer writes events\<close>

lemma status_plain: "plain (status_name st)"
  by (cases st) (simp_all add: plain_def)

lemma kind_plain: "plain (kind_name k)"
  by (cases k) (simp_all add: plain_def kind_name_def)

lemma jget_field: "jget f j = Inr v \<Longrightarrow> body_field f j = v"
  by (cases j) (auto simp: body_field_def split: option.splits)

lemma jlen_size: "jlen j = Inr n \<Longrightarrow> json_size j = n"
  by (cases j) auto

lemma attachments_sizes:
  "mapE (\<lambda>p. bindE (jget ''attachments'' p) jlen) places = Inr ns \<Longrightarrow>
   ns = map (\<lambda>p. json_size (body_field ''attachments'' p)) places"
  by (induction places arbitrary: ns) (auto simp: bindE_Inr_conv dest: jget_field jlen_size)

text \<open>What a result counts for.\<close>

definition event_of_result :: "job_kind \<Rightarrow> json \<Rightarrow> metric_event" where
  "event_of_result k res = (if k = Process then Photos_done (placed_in res) (unplaced_in res) else Blocks_done (blocks_in res))"

lemma result_events:
  assumes "result_commands (KMetrics ''operations'') k res = Inr cs"
  shows "cs = event_commands (event_of_result k res)"
proof (cases "k = Process")
  case True
  with assms obtain ps places ns us u where r: "jget ''places'' res = Inr ps" "jitems ps = Inr places"
    "mapE (\<lambda>p. bindE (jget ''attachments'' p) jlen) places = Inr ns" "jget ''unclassified'' res = Inr us" "jlen us = Inr u"
    and cs: "cs = [HINCRc (KMetrics ''operations'') ''photos|classified'' (of_nat (sum_list ns)),
      HINCRc (KMetrics ''operations'') ''photos|unclassified'' (of_nat u)]"
    by (auto simp: result_commands_def bindE_Inr_conv)
  have "ps = JArr places" using r(2) by (cases ps) auto
  then have "placed_in res = sum_list ns" using jget_field[OF r(1)] attachments_sizes[OF r(3)] by (simp add: placed_in_def)
  moreover have "unplaced_in res = u" using jget_field[OF r(4)] jlen_size[OF r(5)] by (simp add: unplaced_in_def)
  ultimately show ?thesis using True cs by (simp add: event_of_result_def event_commands_def)
next
  case False
  with assms obtain bs b where "jget ''blocks'' res = Inr bs" "jlen bs = Inr b"
    "cs = [HINCRc (KMetrics ''operations'') ''story|blocks'' (of_nat b)]"
    by (auto simp: result_commands_def bindE_Inr_conv)
  with False show ?thesis
    using jget_field[of "''blocks''" res] jlen_size by (simp add: event_of_result_def event_commands_def blocks_in_def)
qed

fun writer_events :: "metric_writer \<Rightarrow> metric_event list" where
  "writer_events w = map (\<lambda>(l, x). Observed l x) (writer_times w) @
     (case (completed_result Process w, completed_result Story w) of
        (Some res, _) \<Rightarrow> if res = JObj [] then [] else [event_of_result Process res]
      | (None, Some res) \<Rightarrow> if res = JObj [] then [] else [event_of_result Story res]
      | _ \<Rightarrow> [])"

lemma terminal_events:
  assumes "terminal_commands j now = Inr cs"
  shows "cs = concat (map event_commands (writer_events (Job_ends j now)))"
proof -
  let ?l = "\<lambda>phase. (kind_name (j_kind j), status_name (j_status j), phase)"
  define base where "base = map (\<lambda>(l, x). Observed l x) (writer_times (Job_ends j now))"
  have b: "concat (map event_commands base) =
      observe_commands (KMetrics ''operations'') (kind_name (j_kind j)) (status_name (j_status j)) ''total'' (now - j_created j) @
      observe_commands (KMetrics ''operations'') (kind_name (j_kind j)) (status_name (j_status j)) ''queue''
        (started_or now (j_started j) - j_created j) @
      observe_commands (KMetrics ''operations'') (kind_name (j_kind j)) (status_name (j_status j)) ''execution''
        (now - started_or now (j_started j))"
    unfolding observe_events by (auto simp: base_def Let_def was_started_def started_or_def split: option.split)
  define res where "res = Option.bind (j_event j) ev_result"
  have r: "(case j_event j of Some e \<Rightarrow> ev_result e | None \<Rightarrow> None) = res" by (simp add: res_def split: option.split)
  have cs: "cs = concat (map event_commands base) @
      (if j_status j = COMPLETED then case res of Some v \<Rightarrow> if v = JObj [] then [] else event_commands (event_of_result (j_kind j) v)
         | None \<Rightarrow> [] else [])"
    using assms result_events unfolding b terminal_commands_def Let_def r
    by (auto simp: bindE_Inr_conv split: if_splits option.splits)
  have "j_kind j = Process \<or> j_kind j = Story" by (cases "j_kind j") simp_all
  with cs show ?thesis
    by (auto simp: base_def[symmetric] res_def[symmetric] simp del: writer_times.simps split: option.splits)
qed

lemma writer_commands_events: "writer_commands w = Inr cs \<Longrightarrow> cs = concat (map event_commands (writer_events w))"
proof (cases w)
  case (Job_ends j now)
  assume "writer_commands w = Inr cs"
  with Job_ends show ?thesis by (simp only: writer_commands.simps terminal_events)
next
  case (Job_stages k stages)
  assume "writer_commands w = Inr cs"
  with Job_stages show ?thesis by (simp add: observe_stages_def observe_events comp_def case_prod_unfold)
next
  case (Search_done operation outcome seconds stages)
  assume "writer_commands w = Inr cs"
  with Search_done show ?thesis by (simp add: query_commands_def observe_events comp_def case_prod_unfold)
qed

lemma all_commands_events:
  "mapE writer_commands ws = Inr css \<Longrightarrow> concat css = concat (map event_commands (concat (map writer_events ws)))"
proof (induction ws arbitrary: css)
  case (Cons w ws)
  then obtain cs css' where w: "writer_commands w = Inr cs" "mapE writer_commands ws = Inr css'" "css = cs # css'"
    by (auto simp: bindE_Inr_conv)
  show ?case unfolding w(3) using writer_commands_events[OF w(1)] Cons.IH[OF w(2)] by (simp del: writer_events.simps)
qed simp

text \<open>A name without a bar.  The stages and the searches are given theirs by the code.\<close>

fun plain_writer :: "metric_writer \<Rightarrow> bool" where
  "plain_writer (Job_ends j now) = True"
| "plain_writer (Job_stages k stages) = list_all (\<lambda>(result, name, x). plain result \<and> plain name) stages"
| "plain_writer (Search_done operation outcome seconds stages) =
     (plain operation \<and> plain outcome \<and> list_all (\<lambda>(result, name, x). plain result \<and> plain name) stages)"

lemma plain_times: "plain_writer w \<Longrightarrow> (l, x) \<in> set (writer_times w) \<Longrightarrow> plain_labels l"
  by (cases w) (auto simp: plain_labels_def kind_plain status_plain list_all_iff Let_def, simp_all add: plain_def)

lemma plain_writer_events: "plain_writer w \<Longrightarrow> list_all plain_event (writer_events w)"
  using plain_times[of w] by (auto simp: list_all_iff event_of_result_def split: option.split)

text \<open>The events say what the writers did.\<close>

lemma observed_append [simp]: "observed l (a @ b) = observed l a @ observed l b"
  by (simp add: observed_def)

lemma counts_append [simp]:
  "classified (a @ b) = classified a + classified b" "unclassified (a @ b) = unclassified a + unclassified b"
  "blocks (a @ b) = blocks a + blocks b"
  by (simp_all add: classified_def unclassified_def blocks_def)

lemma observed_map: "observed l (map (\<lambda>(l, x). Observed l x) xs) = map (\<lambda>p. max 0 (snd p)) (filter (\<lambda>p. fst p = l) xs)"
  by (induction xs) auto

lemma counts_map:
  "classified (map (\<lambda>(l, x). Observed l x) xs) = 0" "unclassified (map (\<lambda>(l, x). Observed l x) xs) = 0"
  "blocks (map (\<lambda>(l, x). Observed l x) xs) = 0"
  by (induction xs) (auto simp: classified_def unclassified_def blocks_def)

lemma empty_result: "placed_in (JObj []) = 0" "unplaced_in (JObj []) = 0" "blocks_in (JObj []) = 0"
  by (simp_all add: placed_in_def unplaced_in_def blocks_in_def body_field_def)

lemma one_kind: "completed_result k w = Some res \<Longrightarrow> k' \<noteq> k \<Longrightarrow> completed_result k' w = None"
  by (cases w) (auto split: if_splits)

lemma observed_writers: "observed l (concat (map writer_events ws)) = times_under l ws"
proof (induction ws)
  case (Cons w ws)
  have "observed l (writer_events w) = map (\<lambda>p. max 0 (snd p)) (filter (\<lambda>p. fst p = l) (writer_times w))"
    by (simp add: observed_map event_of_result_def split: option.split)
  with Cons show ?case by (simp add: times_under_def del: writer_events.simps)
qed (simp add: times_under_def)

lemma counted_writers:
  "classified (concat (map writer_events ws)) = (\<Sum>res\<leftarrow>results_of Process ws. placed_in res) \<and>
   unclassified (concat (map writer_events ws)) = (\<Sum>res\<leftarrow>results_of Process ws. unplaced_in res) \<and>
   blocks (concat (map writer_events ws)) = (\<Sum>res\<leftarrow>results_of Story ws. blocks_in res)"
proof (induction ws)
  case (Cons w ws)
  have "classified (writer_events w) = (case completed_result Process w of Some res \<Rightarrow> placed_in res | None \<Rightarrow> 0)"
    "unclassified (writer_events w) = (case completed_result Process w of Some res \<Rightarrow> unplaced_in res | None \<Rightarrow> 0)"
    "blocks (writer_events w) = (case completed_result Story w of Some res \<Rightarrow> blocks_in res | None \<Rightarrow> 0)"
    using one_kind[of Process w _ Story]
    by (auto simp: counts_map event_of_result_def classified_def unclassified_def blocks_def empty_result simp del: map_map
      split: option.split)
  with Cons show ?case
    by (auto simp: results_of_def List.map_filter_simps simp del: writer_events.simps split: option.split)
qed (simp add: classified_def unclassified_def blocks_def results_of_def List.map_filter_simps)

section \<open>The page shows what happened\<close>

text \<open>C37. The metrics page counts everything that was observed, once.  Whatever else happens in the database, if
  the operations hash was empty and what was written to it since are the commands of the writers \<open>ws\<close>, jobs that ended,
  stages of jobs and searches, then a page has each pair of operation, outcome and phase once, has one for every
  time observed, and shows under it how many of the times fit each bucket and their sum; it shows as classified the
  attachments of all places, and as unclassified the photos set aside, in the results of the completed organising jobs,
  and as story blocks those of the completed stories, and counts nothing of a job that failed or was cancelled.\<close>

theorem page_counts_every_observation:
  assumes "mapE writer_commands ws = Inr css" and "list_all plain_writer ws"
    and "filter (\<lambda>c. cmd_key c = KMetrics ''operations'') cs = concat css"
    and "get_hash s (KMetrics ''operations'') = []" and "render (exec cs s) = Some page"
  shows "distinct (map fst (mp_operations page)) \<and>
    (\<forall>l. times_under l ws \<noteq> [] \<longrightarrow> l \<in> set (map fst (mp_operations page))) \<and>
    (\<forall>(l, bs, total) \<in> set (mp_operations page). total = sum_list (times_under l ws) \<and>
       bs = map (\<lambda>b. (bucket_label b, of_nat (length (filter (\<lambda>x. in_bucket x (snd b)) (times_under l ws))))) BUCKETS) \<and>
    mp_photos page = [(''classified'', of_nat (\<Sum>res\<leftarrow>results_of Process ws. placed_in res)),
      (''unclassified'', of_nat (\<Sum>res\<leftarrow>results_of Process ws. unplaced_in res))] \<and>
    mp_blocks page = of_nat (\<Sum>res\<leftarrow>results_of Story ws. blocks_in res)"
proof -
  let ?evs = "concat (map writer_events ws)"
  have "filter (\<lambda>c. cmd_key c = KMetrics ''operations'') cs = concat (map event_commands ?evs)"
    using assms(3) all_commands_events[OF assms(1)] by simp
  moreover have "list_all plain_event ?evs"
    using assms(2) plain_writer_events by (induction ws) (auto simp: list_all_append simp del: writer_events.simps)
  ultimately show ?thesis
    using page_counts_events[OF _ _ assms(4,5), of ?evs] counted_writers[of ws] unfolding observed_writers by simp
qed

text \<open>A search, a completed job of three placed photos and one set aside, and a cancelled one.\<close>

definition mt_result :: json where
  "mt_result = JObj [(''places'', JArr [JObj [(''attachments'', JArr [JInt 1, JInt 2])], JObj [(''attachments'', JArr [JInt 3])]]),
     (''unclassified'', JArr [JInt 4])]"

definition mt_job :: "task_status \<Rightarrow> json option \<Rightarrow> job" where
  "mt_job st res = \<lparr>j_trip = 7, j_kind = Process, j_exec = [101], j_request = JObj [], j_request_topic = ''a'', j_result_topic = ''b'',
     j_created = 10, j_status = st, j_progress = \<lparr>pr_done = 0, pr_total = 4\<rparr>, j_step = None, j_owner = None, j_heartbeat = None,
     j_started = Some 12, j_cancel = False,
     j_event = Some \<lparr>ev_kind = Process, ev_trip = 7, ev_exec = [101], ev_status = st, ev_result = res, ev_error = None\<rparr>,
     j_pub_owner = None, j_pub_until = 0, j_published = False\<rparr>"

definition mt_writers :: "metric_writer list" where
  "mt_writers = [Search_done ''search'' ''success'' 3 [], Job_ends (mt_job COMPLETED (Some mt_result)) 20,
     Job_ends (mt_job CANCELED None) 15]"

lemma page_counts_every_observation_witness:
  "\<exists>css page. mapE writer_commands mt_writers = Inr css \<and> render (exec (concat css) (\<lambda>k. None)) = Some page \<and>
     (''process'', ''CANCELED'', ''total'') \<in> set (map fst (mp_operations page)) \<and>
     mp_photos page = [(''classified'', 3), (''unclassified'', 1)] \<and> mp_blocks page = 0"
proof -
  obtain css where css: "mapE writer_commands mt_writers = Inr css"
    by (simp add: mt_writers_def mt_job_def terminal_commands_def Let_def result_commands_def mt_result_def)
  let ?cs = "concat css"
  have cs: "?cs = concat (map event_commands (concat (map writer_events mt_writers)))" by (rule all_commands_events[OF css])
  have keys: "\<forall>c \<in> set ?cs. cmd_key c = KMetrics ''operations''" unfolding cs by (auto simp: event_commands_def)
  then have on_key: "filter (\<lambda>c. cmd_key c = KMetrics ''operations'') ?cs = ?cs" by (intro filter_True) simp
  from keys have "KMetrics ''resources'' \<notin> cmd_key ` set ?cs" by auto
  from exec_other[OF this, of "\<lambda>k. None"] have "get_hash (exec ?cs (\<lambda>k. None)) (KMetrics ''resources'') = []"
    by (simp add: get_hash_def)
  then obtain page where page: "render (exec ?cs (\<lambda>k. None)) = Some page"
    by (simp add: render_def Let_def memory_rows_def)
  have plain: "list_all plain_writer mt_writers" by (simp add: mt_writers_def plain_def)
  have empty: "get_hash (\<lambda>k. None) (KMetrics ''operations'') = []" by (simp add: get_hash_def)
  have results: "results_of Process mt_writers = [mt_result]" "results_of Story mt_writers = []"
    by (simp_all add: results_of_def mt_writers_def mt_job_def List.map_filter_simps)
  have sizes: "placed_in mt_result = 3" "unplaced_in mt_result = 1"
    by (simp_all add: mt_result_def placed_in_def unplaced_in_def body_field_def)
  have "times_under (''process'', ''CANCELED'', ''total'') mt_writers \<noteq> []"
    by (simp add: times_under_def mt_writers_def mt_job_def kind_name_def Let_def)
  with page_counts_every_observation[OF css plain on_key empty page] css page results sizes show ?thesis by auto
qed

end
