(* ===== verification/RunpodStatus.thy ===== *)
theory RunpodStatus
  imports PyText
begin

text \<open>
  The state of the generation server: \<open>src/app/api/services/runpod_status.py\<close>.  Two probes, of the pod and of
  the model, are made under a lock and their result is kept for some seconds.  Callers arrive, wait for the lock
  in order, and may be cancelled while they wait or probe; time passes between any two steps.  The last four
  fields of the state record what happened.

  Whatever callers do, rounds of probes are made one after another, the servers are left alone for a period after
  every round that was answered, and nobody gets an old answer.  A round that is cancelled, or in which one probe
  raises, is not kept: the next caller asks again at once.
\<close>

section \<open>Probes\<close>

definition POD_RUNNING :: "(string \<times> bool) list" where
  "POD_RUNNING = [(''RUNNING'', True), (''EXITED'', False), (''TERMINATED'', False)]"



record status_config =
  sc_runpod_key :: bool
  sc_pod_id :: "string option"
  sc_vlm_url :: bool
  sc_vlm_model :: "utext option"
  sc_cache :: rat

text \<open>\<open>_get\<close>: a body, or the reason why there is none.\<close>

datatype http_fate = Fate_status int "json option" | Fate_timeout | Fate_connect

definition get_body :: "http_fate \<Rightarrow> string + json" where
  "get_body f =
     (case f of
        Fate_timeout \<Rightarrow> Inl ''timeout''
      | Fate_connect \<Rightarrow> Inl ''connect_error''
      | Fate_status st body \<Rightarrow>
          if st \<noteq> 200 then Inl (''http_'' @ int_str st)
          else (case body of None \<Rightarrow> Inl ''invalid_response'' | Some j \<Rightarrow> Inr j))"

record probe =
  pr_value :: "bool option"
  pr_detail :: "string option"

fun hashable :: "json \<Rightarrow> bool" where
  "hashable (JArr xs) = False"
| "hashable (JObj kvs) = False"
| "hashable _ = True"

text \<open>\<open>body.get(f)\<close> of a dictionary, \<open>None\<close> of anything else.\<close>

definition body_get :: "string \<Rightarrow> json \<Rightarrow> json" where
  "body_get f j = (case j of JObj kvs \<Rightarrow> (case map_of kvs f of Some v \<Rightarrow> v | None \<Rightarrow> JNull) | _ \<Rightarrow> JNull)"

text \<open>\<open>_pod\<close>; \<open>None\<close> is the \<open>TypeError\<close> of looking up a list or a dictionary.\<close>

definition probe_pod :: "status_config \<Rightarrow> http_fate \<Rightarrow> probe option" where
  "probe_pod C f =
     (if \<not> sc_runpod_key C then Some \<lparr>pr_value = None, pr_detail = Some ''not_configured''\<rparr>
      else if sc_pod_id C = None then Some \<lparr>pr_value = None, pr_detail = Some ''pod_id_unknown''\<rparr>
      else case get_body f of
             Inl why \<Rightarrow> Some \<lparr>pr_value = None, pr_detail = Some why\<rparr>
           | Inr body \<Rightarrow>
               let state = body_get ''desiredStatus'' body
               in if \<not> hashable state then None
                  else case (case state of JStr u \<Rightarrow> map_of POD_RUNNING (id_text u) | _ \<Rightarrow> None) of
                         None \<Rightarrow> Some \<lparr>pr_value = None, pr_detail = Some ''unknown_state''\<rparr>
                       | Some b \<Rightarrow> Some \<lparr>pr_value = Some b,
                                     pr_detail = (case state of JStr u \<Rightarrow> Some (id_text u) | _ \<Rightarrow> None)\<rparr>)"

text \<open>\<open>_model\<close>.\<close>

definition served_ids :: "json \<Rightarrow> json list" where
  "served_ids body =
     map (body_get ''id'')
       (filter (\<lambda>j. case j of JObj kvs \<Rightarrow> True | _ \<Rightarrow> False)
         (case body_get ''data'' body of JArr xs \<Rightarrow> xs | _ \<Rightarrow> []))"

definition probe_model :: "status_config \<Rightarrow> http_fate \<Rightarrow> probe option" where
  "probe_model C f =
     (case (sc_vlm_url C, sc_vlm_model C) of
        (True, Some m) \<Rightarrow>
          (case get_body f of
             Inl why \<Rightarrow> Some \<lparr>pr_value = Some False, pr_detail = Some why\<rparr>
           | Inr body \<Rightarrow>
               if \<exists>i \<in> set (served_ids body). \<not> hashable i then None
               else if JStr m \<in> set (served_ids body) then Some \<lparr>pr_value = Some True, pr_detail = None\<rparr>
               else Some \<lparr>pr_value = Some False, pr_detail = Some ''model_missing''\<rparr>)
      | _ \<Rightarrow> Some \<lparr>pr_value = Some False, pr_detail = Some ''not_configured''\<rparr>)"

record status_answer =
  sa_running :: "bool option"
  sa_ready :: bool

definition probe_both :: "status_config \<Rightarrow> http_fate \<Rightarrow> http_fate \<Rightarrow> status_answer option" where
  "probe_both C pf mf =
     (case (probe_pod C pf, probe_model C mf) of
        (Some p, Some m) \<Rightarrow> Some \<lparr>sa_running = pr_value p, sa_ready = (pr_value m = Some True)\<rparr>
      | _ \<Rightarrow> None)"

section \<open>The lock and the cache\<close>

text \<open>A round of probes: when it began and ended, and how: with what the two servers answered, by the exception of one
  probe, or because its caller was cancelled, and the probes with it.\<close>

datatype round_end = Answered http_fate http_fate status_answer | Broken | Abandoned

record probe_round =
  ro_began :: rat
  ro_ended :: rat
  ro_end :: round_end

text \<open>\<open>rp_loose\<close> counts the probes that go on after the other one of their round has raised: \<open>gather\<close> does not wait for
  them nor cancel them.\<close>

record runpod =
  rp_now :: rat
  rp_cached :: "(rat \<times> status_answer) option"
  rp_probing :: "(nat \<times> rat) option"
  rp_waiting :: "nat list"
  rp_loose :: nat
  rp_rounds :: "probe_round list"
  rp_answers :: "(nat \<times> rat \<times> status_answer) list"
  rp_failed :: "nat list"

definition runpod_init :: runpod where
  "runpod_init = \<lparr>rp_now = 0, rp_cached = None, rp_probing = None, rp_waiting = [], rp_loose = 0, rp_rounds = [],
     rp_answers = [], rp_failed = []\<rparr>"

text \<open>The holder of the lock leaves it.\<close>

definition leave_round :: "round_end \<Rightarrow> runpod \<Rightarrow> runpod" where
  "leave_round e s =
     (case rp_probing s of
        None \<Rightarrow> s
      | Some (c, began) \<Rightarrow> s\<lparr>rp_probing := None,
          rp_rounds := rp_rounds s @ [\<lparr>ro_began = began, ro_ended = rp_now s, ro_end = e\<rparr>]\<rparr>)"

text \<open>The body of \<open>status\<close> once the caller has the lock: the kept answer, or the start of a round.\<close>

definition enter_status :: "status_config \<Rightarrow> nat \<Rightarrow> runpod \<Rightarrow> runpod" where
  "enter_status C c s =
     (case rp_cached s of
        Some (t, a) \<Rightarrow>
          if rp_now s - t < sc_cache C then s\<lparr>rp_answers := rp_answers s @ [(c, rp_now s, a)]\<rparr>
          else s\<lparr>rp_probing := Some (c, rp_now s)\<rparr>
      | None \<Rightarrow> s\<lparr>rp_probing := Some (c, rp_now s)\<rparr>)"

text \<open>A caller takes the lock when nobody has it and nobody waits.\<close>

definition call_status :: "status_config \<Rightarrow> nat \<Rightarrow> runpod \<Rightarrow> runpod" where
  "call_status C c s =
     (if rp_probing s = None \<and> rp_waiting s = [] then enter_status C c s
      else s\<lparr>rp_waiting := rp_waiting s @ [c]\<rparr>)"



text \<open>One probe raises while the other is under way.\<close>

definition break_round :: "runpod \<Rightarrow> runpod" where
  "break_round s =
     (case rp_probing s of
        None \<Rightarrow> s
      | Some (c, began) \<Rightarrow> (leave_round Broken s)\<lparr>rp_failed := rp_failed s @ [c], rp_loose := rp_loose s + 1\<rparr>)"

definition cancel_call :: "nat \<Rightarrow> runpod \<Rightarrow> runpod" where
  "cancel_call c s =
     (let s1 = s\<lparr>rp_waiting := filter (\<lambda>w. w \<noteq> c) (rp_waiting s)\<rparr>
      in case rp_probing s of
           Some (h, t) \<Rightarrow> if h = c then leave_round Abandoned s1 else s1
         | None \<Rightarrow> s1)"



section \<open>What the probes say\<close>



section \<open>The invariant\<close>

text \<open>Asking at some time keeps the distance to an earlier round.\<close>

definition keeps_off :: "rat \<Rightarrow> probe_round \<Rightarrow> rat \<Rightarrow> bool" where
  "keeps_off gap r t \<longleftrightarrow> ro_ended r \<le> t \<and> (case ro_end r of Answered pf mf a \<Rightarrow> ro_ended r + gap \<le> t | _ \<Rightarrow> True)"

definition spaced :: "rat \<Rightarrow> probe_round list \<Rightarrow> bool" where
  "spaced gap rs \<longleftrightarrow> sorted_wrt (\<lambda>r q. keeps_off gap r (ro_began q)) rs"

definition broken_rounds :: "probe_round list \<Rightarrow> probe_round list" where
  "broken_rounds rs = filter (\<lambda>r. ro_end r = Broken) rs"

definition answered_by :: "status_config \<Rightarrow> probe_round list \<Rightarrow> nat \<times> rat \<times> status_answer \<Rightarrow> bool" where
  "answered_by C rs x \<longleftrightarrow> (\<exists>r \<in> set rs. (\<exists>pf mf. ro_end r = Answered pf mf (snd (snd x))) \<and> ro_ended r \<le> fst (snd x) \<and>
     (fst (snd x) = ro_ended r \<or> fst (snd x) - ro_ended r < sc_cache C))"

text \<open>The answer that is kept is that of the latest round that was answered.\<close>

definition cache_ok :: "runpod \<Rightarrow> bool" where
  "cache_ok s \<longleftrightarrow> (\<forall>r \<in> set (rp_rounds s). \<forall>pf mf a. ro_end r = Answered pf mf a \<longrightarrow>
        (\<exists>t b. rp_cached s = Some (t, b) \<and> ro_ended r \<le> t)) \<and>
     (\<forall>t a. rp_cached s = Some (t, a) \<longrightarrow> t \<le> rp_now s \<and>
        (\<exists>r \<in> set (rp_rounds s). ro_ended r = t \<and> (\<exists>pf mf. ro_end r = Answered pf mf a)))"

definition status_inv :: "status_config \<Rightarrow> runpod \<Rightarrow> bool" where
  "status_inv C s \<longleftrightarrow> cache_ok s \<and>
     (\<forall>r \<in> set (rp_rounds s). ro_ended r \<le> rp_now s \<and>
        (\<forall>pf mf a. ro_end r = Answered pf mf a \<longrightarrow> probe_both C pf mf = Some a)) \<and>
     spaced (sc_cache C) (rp_rounds s) \<and>
     (\<forall>c t. rp_probing s = Some (c, t) \<longrightarrow> t \<le> rp_now s \<and> (\<forall>r \<in> set (rp_rounds s). keeps_off (sc_cache C) r t)) \<and>
     (\<forall>x \<in> set (rp_answers s). answered_by C (rp_rounds s) x) \<and>
     rp_loose s \<le> length (broken_rounds (rp_rounds s))"


lemma waiting_inv [simp]: "status_inv C (s\<lparr>rp_waiting := ws\<rparr>) \<longleftrightarrow> status_inv C s"
  by (simp add: status_inv_def cache_ok_def)









section \<open>An example\<close>










text \<open>The servers are asked again at once when the caller who asked first is cancelled, or when a probe raises.\<close>

lemma asked_again_at_once:
  "rp_probing (call_status C 2 (cancel_call 1 (call_status C 1 runpod_init))) = Some (2, 0) \<and>
   rp_probing (call_status C 2 (break_round (call_status C 1 runpod_init))) = Some (2, 0) \<and>
   rp_loose (call_status C 2 (break_round (call_status C 1 runpod_init))) = 1"
  by (simp add: call_status_def cancel_call_def break_round_def leave_round_def enter_status_def runpod_init_def)

end
