(* ===== verification/Vectors.thy ===== *)
theory Vectors
  imports ModelClient SearchRun RunExample
begin

text \<open>
  The clients of the embedding server and of the vector store: \<open>src/app/embedding/client.py\<close> and
  \<open>src/app/infra/qdrant.py\<close>.  NumPy's conversion of an answer, its norm and its quotients are fields of
  \<open>numpy\<close>; \<open>numpy_ok\<close> states how exact they are.  What becomes of a request is a \<open>post_fate\<close> or a
  \<open>qdrant_fate\<close>.
\<close>

section \<open>Requests\<close>

datatype embed_content = Jpeg_content bytes | Text_content utext

record embed_request =
  er_model :: utext
  er_instruction :: utext
  er_content :: embed_content

definition IMAGE_INSTRUCTION :: utext where
  "IMAGE_INSTRUCTION = of_ascii ''Represent the user's input.''"

definition QUERY_INSTRUCTION :: utext where
  "QUERY_INSTRUCTION = of_ascii ''Retrieve images relevant to the user's query.''"

definition image_request :: "utext \<Rightarrow> bytes \<Rightarrow> embed_request" where
  "image_request mdl jpeg = \<lparr>er_model = mdl, er_instruction = IMAGE_INSTRUCTION, er_content = Jpeg_content jpeg\<rparr>"

definition text_request :: "utext \<Rightarrow> utext \<Rightarrow> embed_request" where
  "text_request mdl u = \<lparr>er_model = mdl, er_instruction = QUERY_INSTRUCTION, er_content = Text_content u\<rparr>"

section \<open>The answer\<close>

definition DIM :: nat where
  "DIM = 2048"

text \<open>An array of single precision: one dimension, \<open>None\<close> for a value that is not finite, or another shape.\<close>

datatype np_array = Flat "rat option list" | Other_shape

record numpy =
  np_float32 :: "json \<Rightarrow> np_array option"
  np_norm :: "vec \<Rightarrow> rat option"
  np_quotient :: "rat \<Rightarrow> rat \<Rightarrow> rat"

definition parse_vector :: "numpy \<Rightarrow> json option \<Rightarrow> vec option" where
  "parse_vector N body =
     Option.bind (Option.bind (Option.bind body (json_field ''data'')) json_first) (\<lambda>item.
     Option.bind (Option.bind (json_field ''embedding'' item) (np_float32 N)) (\<lambda>a.
     case a of
       Other_shape \<Rightarrow> None
     | Flat xs \<Rightarrow>
         if length xs \<noteq> DIM then None
         else Option.bind (all_some xs) (\<lambda>v.
           case np_norm N v of
             None \<Rightarrow> None
           | Some n \<Rightarrow> if n = 0 then None else Some (map (\<lambda>x. np_quotient N x n) v))))"

definition success_body :: "post_fate \<Rightarrow> json option" where
  "success_body f = (case f of Http_answer st body \<Rightarrow> if 200 \<le> st \<and> st < 300 then body else None | _ \<Rightarrow> None)"

section \<open>The engine of the pipeline\<close>

text \<open>\<open>None\<close> is \<open>EmbeddingUnavailable\<close>.\<close>

definition encode_one :: "numpy \<Rightarrow> utext \<Rightarrow> (embed_request \<Rightarrow> post_fate) \<Rightarrow> bytes \<Rightarrow> vec option" where
  "encode_one N mdl serve jpeg = parse_vector N (success_body (serve (image_request mdl jpeg)))"

text \<open>One request for each image, whatever order they are answered in; \<open>serve i\<close> answers the \<open>i\<close>-th.\<close>

definition encode_images :: "numpy \<Rightarrow> utext \<Rightarrow> (nat \<Rightarrow> embed_request \<Rightarrow> post_fate) \<Rightarrow> bytes list \<Rightarrow> vec list option" where
  "encode_images N mdl serve images =
     (if images = [] then Some []
      else all_some (map (\<lambda>(i, jpeg). encode_one N mdl (serve i) jpeg) (enumerate 0 images)))"

section \<open>The embedder of searches\<close>

definition encode_text :: "numpy \<Rightarrow> utext \<Rightarrow> (embed_request \<Rightarrow> post_fate) \<Rightarrow> utext \<Rightarrow> query_fault + vec" where
  "encode_text N mdl serve u =
     (case serve (text_request mdl u) of
        Post_timed_out \<Rightarrow> Inl Q_timeout
      | Post_cancelled \<Rightarrow> Inl Q_cancelled
      | f \<Rightarrow> (case parse_vector N (success_body f) of None \<Rightarrow> Inl Q_model | Some v \<Rightarrow> Inr v))"

section \<open>The store of the pipeline\<close>

definition collection_name :: "string \<Rightarrow> string" where
  "collection_name version =
     ''vectors_'' @ map (\<lambda>c. if is_digit c \<or> (65 \<le> (of_char c :: nat) \<and> (of_char c :: nat) \<le> 90) \<or>
       (97 \<le> (of_char c :: nat) \<and> (of_char c :: nat) \<le> 122) \<or> c = CHR ''_'' \<or> c = CHR ''-'' then c else CHR ''_'') version"

text \<open>What an upsert sends; \<open>None\<close> is the \<open>ValueError\<close> about the shape.\<close>

definition upsert_points :: "nat \<Rightarrow> int list \<Rightarrow> vec list \<Rightarrow> (int \<times> vec) list option" where
  "upsert_points width ids vs =
     (if length vs \<noteq> length ids \<or> \<not> list_all (\<lambda>v. length v = width) vs then None else Some (zip ids vs))"

text \<open>The dictionary of the records found.\<close>

definition records_dict :: "(int \<times> vec) list \<Rightarrow> (int, vec) pydict" where
  "records_dict rs = fold (\<lambda>(i, v). dict_set i v) rs []"

definition store_search :: "(vec \<Rightarrow> int list \<Rightarrow> int \<Rightarrow> (int \<times> rat) list) \<Rightarrow> vec \<Rightarrow> int list \<Rightarrow> int \<Rightarrow> (int \<times> rat) list" where
  "store_search points v ids limit = (if ids = [] \<or> limit < 1 then [] else points v ids limit)"

section \<open>The reader of searches and stories\<close>

datatype 'a qdrant_fate = Answers 'a | Answer_timed_out | Answer_unusable | Answer_cancelled

definition qdrant_read :: "'a qdrant_fate \<Rightarrow> query_fault + 'a" where
  "qdrant_read f =
     (case f of Answers x \<Rightarrow> Inr x | Answer_timed_out \<Rightarrow> Inl Q_timeout | Answer_unusable \<Rightarrow> Inl Q_model
      | Answer_cancelled \<Rightarrow> Inl Q_cancelled)"

text \<open>The flag \<open>_collection_ready\<close> is passed along.\<close>

definition has_collection :: "bool \<Rightarrow> bool qdrant_fate \<Rightarrow> (query_fault + bool) \<times> bool" where
  "has_collection rdy exists =
     (if rdy then (Inr True, True)
      else case qdrant_read exists of Inl e \<Rightarrow> (Inl e, False) | Inr b \<Rightarrow> (Inr b, b))"

definition vectors_search ::
  "nat \<Rightarrow> bool qdrant_fate \<Rightarrow> (vec \<Rightarrow> int list \<Rightarrow> nat \<Rightarrow> (int \<times> rat) list qdrant_fate) \<Rightarrow> vec \<Rightarrow> int list \<Rightarrow> nat \<Rightarrow>
     bool \<Rightarrow> (query_fault + search_hit list) \<times> bool" where
  "vectors_search width exists points v ids limit rdy =
     (if length v \<noteq> width then (Inl Q_other, rdy)
      else if ids = [] then (Inr [], rdy)
      else case has_collection rdy exists of
             (Inl e, r) \<Rightarrow> (Inl e, r)
           | (Inr False, r) \<Rightarrow> (Inr [], r)
           | (Inr True, r) \<Rightarrow>
               (bindE (qdrant_read (points v ids limit)) (\<lambda>ps. Inr (map (\<lambda>(i, x). \<lparr>hit_id = i, hit_score = x\<rparr>) ps)), r))"

definition vectors_fetch ::
  "bool qdrant_fate \<Rightarrow> (int list \<Rightarrow> (int \<times> vec) list qdrant_fate) \<Rightarrow> int list \<Rightarrow> bool \<Rightarrow>
     (query_fault + (int, vec) pydict) \<times> bool" where
  "vectors_fetch exists records ids rdy =
     (if ids = [] then (Inr [], rdy)
      else case has_collection rdy exists of
             (Inl e, r) \<Rightarrow> (Inl e, r)
           | (Inr False, r) \<Rightarrow> (Inr [], r)
           | (Inr True, r) \<Rightarrow> (bindE (qdrant_read (records ids)) (\<lambda>rs. Inr (records_dict rs)), r))"

section \<open>Every vector is one\<close>

lemma all_some_list: "all_some xs = Some ys \<longleftrightarrow> xs = map Some ys"
proof
  show "all_some xs = Some ys \<Longrightarrow> xs = map Some ys"
    by (induction xs arbitrary: ys) (auto split: option.splits)
  have "all_some (map Some ys) = Some ys" by (induction ys) simp_all
  then show "xs = map Some ys \<Longrightarrow> all_some xs = Some ys" by simp
qed

text \<open>How exact NumPy is: a norm is that of the vector up to a billionth, a single-precision quotient that of the
  numbers up to a millionth, and next to zero up to a tiny amount.  (The true bounds are smaller.)\<close>

definition numpy_ok :: "numpy \<Rightarrow> bool" where
  "numpy_ok N \<longleftrightarrow>
     (\<forall>v n. np_norm N v = Some n \<longrightarrow> 0 \<le> n \<and> \<bar>n * n - dot v v\<bar> \<le> dot v v / 10 ^ 9) \<and>
     (\<forall>x n. n \<noteq> 0 \<longrightarrow> \<bar>np_quotient N x n - x / n\<bar> \<le> \<bar>x / n\<bar> / 10 ^ 6 + 1 / 10 ^ 12)"

lemma dot_self_nonneg: "0 \<le> dot v v"
  by (induction v) (simp_all add: dot_def)

lemma dot_self_elem: "x \<in> set v \<Longrightarrow> x * x \<le> dot v v"
proof (induction v)
  case (Cons y v)
  then show ?case using dot_self_nonneg[of v] by (auto simp: dot_def add_increasing add_increasing2)
qed simp

lemma dot_scale: "dot (map (\<lambda>x. x / n) v) (map (\<lambda>x. x / n) v) = dot v v / (n * n)"
  by (induction v) (simp_all add: dot_def add_divide_distrib)

lemma dot_near:
  assumes "list_all2 (\<lambda>w u. \<bar>w * w - u * u\<bar> \<le> c * (u * u) + e) ws us"
  shows "\<bar>dot ws ws - dot us us\<bar> \<le> c * dot us us + of_nat (length us) * e"
  using assms
proof (induction rule: list_all2_induct)
  case (Cons w ws u us)
  have "\<bar>(w * w - u * u) + (dot ws ws - dot us us)\<bar> \<le> c * (u * u) + e + (c * dot us us + of_nat (length us) * e)"
    using Cons by linarith
  then show ?case by (simp add: dot_def algebra_simps)
qed (simp add: dot_def)

text \<open>The squares of a number and of one close to it.\<close>

lemma square_near:
  fixes w u :: rat
  assumes "\<bar>w - u\<bar> \<le> \<bar>u\<bar> / 10 ^ 6 + 1 / 10 ^ 12" and "\<bar>u\<bar> \<le> 2"
  shows "\<bar>w * w - u * u\<bar> \<le> 3 / 10 ^ 6 * (u * u) + 1 / 10 ^ 11"
proof -
  let ?d = "\<bar>u\<bar> / 10 ^ 6 + 1 / 10 ^ 12"
  have "\<bar>w + u\<bar> \<le> 2 * \<bar>u\<bar> + ?d" using assms(1) by linarith
  then have "\<bar>w - u\<bar> * \<bar>w + u\<bar> \<le> ?d * (2 * \<bar>u\<bar> + ?d)"
    using assms(1) by (intro mult_mono) auto
  moreover have "\<bar>w * w - u * u\<bar> = \<bar>w - u\<bar> * \<bar>w + u\<bar>"
    by (simp add: abs_mult[symmetric] algebra_simps)
  moreover have "?d * (2 * \<bar>u\<bar> + ?d) =
      (2 / 10 ^ 6 + 1 / 10 ^ 12) * (\<bar>u\<bar> * \<bar>u\<bar>) + (2 / 10 ^ 12 + 2 / 10 ^ 18) * \<bar>u\<bar> + 1 / 10 ^ 24"
    by (simp add: field_simps)
  moreover have "\<bar>u\<bar> * \<bar>u\<bar> = u * u" by (simp add: abs_mult_self_eq)
  moreover have "(2 / 10 ^ 6 + 1 / 10 ^ 12) * s + (2 / 10 ^ 12 + 2 / 10 ^ 18) * t + 1 / 10 ^ 24 \<le>
      3 / 10 ^ 6 * s + 1 / 10 ^ 11" if "0 \<le> s" "t \<le> 2" for s t :: rat
    using that by (simp add: field_simps)
  from this[of "u * u" "\<bar>u\<bar>"] have "(2 / 10 ^ 6 + 1 / 10 ^ 12) * (u * u) + (2 / 10 ^ 12 + 2 / 10 ^ 18) * \<bar>u\<bar> + 1 / 10 ^ 24 \<le>
      3 / 10 ^ 6 * (u * u) + 1 / 10 ^ 11" using assms(2) by simp
  ultimately show ?thesis by simp
qed

lemma normalized_unit:
  assumes "numpy_ok N" "np_norm N v = Some n" "n \<noteq> 0" "length v \<le> 10 ^ 4"
  shows "unit_vec (map (\<lambda>x. np_quotient N x n) v)"
proof -
  let ?u = "map (\<lambda>x. x / n) v" and ?w = "map (\<lambda>x. np_quotient N x n) v"
  define d where "d = dot v v"
  from assms(1,2) have n: "0 < n" "\<bar>n * n - d\<bar> \<le> d / 10 ^ 9"
    using assms(3) by (fastforce simp: numpy_ok_def d_def)+
  have nn: "0 < n * n" using n(1) by simp
  have u: "dot ?u ?u = d / (n * n)" by (simp add: dot_scale d_def)
  have "d \<le> (1 + 2 / 10 ^ 9) * q \<and> (1 - 2 / 10 ^ 9) * q \<le> d" if "0 < q" "\<bar>q - d\<bar> \<le> d / 10 ^ 9" for q
  proof -
    have "q - d \<le> d / 10 ^ 9" "d - q \<le> d / 10 ^ 9" using that(2) by linarith+
    then show ?thesis using that(1) by simp
  qed
  from this[OF nn n(2)] have "d \<le> (1 + 2 / 10 ^ 9) * (n * n)" "(1 - 2 / 10 ^ 9) * (n * n) \<le> d" by simp_all
  then have near: "dot ?u ?u \<le> 1 + 2 / 10 ^ 9" "1 - 2 / 10 ^ 9 \<le> dot ?u ?u"
    using nn by (simp_all add: u pos_divide_le_eq pos_le_divide_eq)
  have small: "\<bar>x / n\<bar> \<le> 2" if "x \<in> set v" for x
  proof -
    have "x / n \<in> set ?u" using that by auto
    then have "x / n * (x / n) \<le> 2 * 2" using dot_self_elem[of "x / n" ?u] near(1) by simp
    then show ?thesis using abs_le_square_iff[of "x / n" 2] by (simp add: power2_eq_square)
  qed
  have "list_all2 (\<lambda>w u. \<bar>w * w - u * u\<bar> \<le> 3 / 10 ^ 6 * (u * u) + 1 / 10 ^ 11) ?w ?u"
    unfolding list_all2_map1 list_all2_map2
  proof (rule list_all2_all_nthI)
    fix i assume i: "i < length v"
    have "\<bar>np_quotient N (v ! i) n - v ! i / n\<bar> \<le> \<bar>v ! i / n\<bar> / 10 ^ 6 + 1 / 10 ^ 12"
      using assms(1,3) unfolding numpy_ok_def by blast
    then show "\<bar>np_quotient N (v ! i) n * np_quotient N (v ! i) n - v ! i / n * (v ! i / n)\<bar> \<le>
        3 / 10 ^ 6 * (v ! i / n * (v ! i / n)) + 1 / 10 ^ 11"
      by (rule square_near) (use small i in auto)
  qed simp
  from dot_near[OF this] have "\<bar>dot ?w ?w - dot ?u ?u\<bar> \<le> 3 / 10 ^ 6 * dot ?u ?u + of_nat (length v) / 10 ^ 11" by simp
  moreover have "of_nat (length v) \<le> (10 ^ 4 :: rat)" using assms(4) of_nat_le_iff[of "length v" "10 ^ 4", where ?'a = rat] by simp
  moreover have "\<bar>w - 1\<bar> \<le> 4 / 10 ^ 6"
    if "\<bar>w - e\<bar> \<le> 3 / 10 ^ 6 * e + l / 10 ^ 11" "l \<le> 10 ^ 4" "e \<le> 1 + 2 / 10 ^ 9" "1 - 2 / 10 ^ 9 \<le> e" for w e l :: rat
  proof -
    have "w - e \<le> 3 / 10 ^ 6 * e + l / 10 ^ 11" "e - w \<le> 3 / 10 ^ 6 * e + l / 10 ^ 11" using that(1) by linarith+
    then have "w - 1 \<le> 4 / 10 ^ 6" "1 - w \<le> 4 / 10 ^ 6" using that(2-4) by simp_all
    then show ?thesis by linarith
  qed
  ultimately have "\<bar>dot ?w ?w - 1\<bar> \<le> 4 / 10 ^ 6" using near by blast
  then have "dot ?w ?w \<le> 1 + 4 / 10 ^ 6" "1 - 4 / 10 ^ 6 \<le> dot ?w ?w" by linarith+
  moreover have "v \<noteq> []"
  proof
    assume "v = []"
    then have "d = 0" by (simp add: d_def dot_def)
    with n(2) have "n * n \<le> 0" by simp
    with nn show False by linarith
  qed
  ultimately show ?thesis by (simp add: unit_vec_def power2_eq_square)
qed

lemma parse_vector_Some:
  assumes "parse_vector N body = Some v"
  obtains u n where "length u = DIM" "np_norm N u = Some n" "n \<noteq> 0" "v = map (\<lambda>x. np_quotient N x n) u"
proof -
  from assms obtain a where "(case a of Other_shape \<Rightarrow> None | Flat xs \<Rightarrow> if length xs \<noteq> DIM then None
      else Option.bind (all_some xs) (\<lambda>v. case np_norm N v of None \<Rightarrow> None
        | Some n \<Rightarrow> if n = 0 then None else Some (map (\<lambda>x. np_quotient N x n) v))) = Some v"
    unfolding parse_vector_def bind_eq_Some_conv by blast
  then obtain xs where xs: "length xs = DIM" "Option.bind (all_some xs) (\<lambda>v. case np_norm N v of None \<Rightarrow> None
        | Some n \<Rightarrow> if n = 0 then None else Some (map (\<lambda>x. np_quotient N x n) v)) = Some v"
    by (cases a) (auto split: if_splits)
  then obtain u where u: "all_some xs = Some u" "(case np_norm N u of None \<Rightarrow> None
        | Some n \<Rightarrow> if n = 0 then None else Some (map (\<lambda>x. np_quotient N x n) u)) = Some v"
    unfolding bind_eq_Some_conv by blast
  then obtain n where "np_norm N u = Some n" "n \<noteq> 0" "v = map (\<lambda>x. np_quotient N x n) u"
    by (auto split: option.splits if_splits)
  moreover have "length u = DIM" using xs(1) u(1) by (auto simp: all_some_list)
  ultimately show ?thesis using that by blast
qed

lemma parse_vector_length: "parse_vector N body = Some v \<Longrightarrow> length v = DIM"
  by (auto elim!: parse_vector_Some)

lemma parse_vector_unit: "numpy_ok N \<Longrightarrow> parse_vector N body = Some v \<Longrightarrow> length v = DIM \<and> unit_vec v"
  by (auto elim!: parse_vector_Some intro!: normalized_unit simp: DIM_def)

text \<open>C12. What the embedding server answers either is refused or can be used everywhere.  Whatever bodies, states
  and failures the requests meet, the images of a batch are all refused, or there is one vector for each, in their
  order, each from the answer to its own request, and the pipeline's check of them passes; and a question is refused
  as unavailable or timed out, or its vector has the width the vector store asks for and is a unit vector too.\<close>

theorem embeddings_fit_their_users:
  assumes "numpy_ok N" and "re_encode E images = (case encode_images N mdl serve images of Some vs \<Rightarrow> vs | None \<Rightarrow> [])"
    and "re_dim E = DIM"
  shows "(case encode_images N mdl serve images of
        None \<Rightarrow> images \<noteq> [] \<and> encode_checked E images = Inl pipeline_error_default
      | Some vs \<Rightarrow> encode_checked E images = Inr vs \<and> length vs = length images \<and>
          (\<forall>i < length vs. encode_one N mdl (serve i) (images ! i) = Some (vs ! i))) \<and>
    (case encode_text N mdl (serve k) u of
        Inl e \<Rightarrow> e \<in> {Q_timeout, Q_cancelled, Q_model}
      | Inr v \<Rightarrow> length v = DIM \<and> unit_vec v)"
proof -
  have text_part: "case encode_text N mdl (serve k) u of
        Inl e \<Rightarrow> e \<in> {Q_timeout, Q_cancelled, Q_model} | Inr v \<Rightarrow> length v = DIM \<and> unit_vec v"
    using parse_vector_unit[OF assms(1)] by (auto simp: encode_text_def split: post_fate.splits option.splits)
  show ?thesis
  proof (cases "encode_images N mdl serve images")
    case None
    then have "images \<noteq> []" by (auto simp: encode_images_def)
    moreover have "encode_checked E images = Inl pipeline_error_default"
      using None assms(2) \<open>images \<noteq> []\<close> by (simp add: encode_checked_def)
    ultimately show ?thesis using None text_part by simp
  next
    case (Some vs)
    have each: "map (\<lambda>(i, jpeg). encode_one N mdl (serve i) jpeg) (enumerate 0 images) = map Some vs"
      using Some by (auto simp: encode_images_def all_some_list split: if_splits)
    then have len: "length vs = length images" by (metis length_enumerate length_map)
    have nth: "encode_one N mdl (serve i) (images ! i) = Some (vs ! i)" if "i < length vs" for i
      using arg_cong[OF each, of "\<lambda>xs. xs ! i"] that len by (simp add: nth_enumerate_eq)
    then have "length (vs ! i) = DIM \<and> unit_vec (vs ! i)" if "i < length vs" for i
      using parse_vector_unit[OF assms(1)] that by (auto simp: encode_one_def)
    then have "list_all (\<lambda>v. length v = re_dim E \<and> unit_vec v) vs" by (simp add: list_all_length assms(3))
    then have "encode_checked E images = Inr vs" using Some assms(2) len by (simp add: encode_checked_def)
    then show ?thesis using Some text_part len nth by simp
  qed
qed

text \<open>A server that answers one image with the first unit vector.\<close>

definition vx_vector :: vec where
  "vx_vector = 1 # replicate 2047 0"

definition vx_numpy :: numpy where
  "vx_numpy = \<lparr>np_float32 = (\<lambda>_. Some (Flat (map Some vx_vector))), np_norm = (\<lambda>v. if v = vx_vector then Some 1 else None),
     np_quotient = (\<lambda>x n. x / n)\<rparr>"

definition vx_serve :: "nat \<Rightarrow> embed_request \<Rightarrow> post_fate" where
  "vx_serve i r = (if i = 0 then Http_answer 200 (Some (JObj [(''data'', JArr [JObj [(''embedding'', JNull)]])])) else Post_timed_out)"

definition vx_env :: "nat run_env" where
  "vx_env = pe_env\<lparr>re_encode := (\<lambda>images. case encode_images vx_numpy [] vx_serve images of Some vs \<Rightarrow> vs | None \<Rightarrow> []), re_dim := DIM\<rparr>"

lemma vx_dot: "dot vx_vector vx_vector = 1"
proof -
  have "dot (replicate n 0) (replicate n 0) = 0" for n by (induction n) (simp_all add: dot_def)
  then have "dot (1 # replicate n 0) (1 # replicate n 0) = 1" for n by (simp add: dot_def)
  then show ?thesis unfolding vx_vector_def .
qed

lemma vx_ok: "numpy_ok vx_numpy"
  by (auto simp: numpy_ok_def vx_numpy_def vx_dot split: if_splits)

lemma vx_one: "encode_one vx_numpy mdl (vx_serve 0) b = Some vx_vector"
proof -
  have "length vx_vector = DIM" by (simp add: vx_vector_def DIM_def del: replicate.simps)
  moreover have "all_some (map Some vx_vector) = Some vx_vector" by (simp add: all_some_list)
  ultimately show ?thesis
    by (simp add: encode_one_def parse_vector_def success_body_def vx_serve_def json_field_def json_first_def vx_numpy_def)
qed

lemma embeddings_fit_their_users_witness:
  "encode_images vx_numpy [] vx_serve [[0]] = Some [vx_vector] \<and> encode_checked vx_env [[0]] = Inr [vx_vector]"
proof -
  have e: "encode_images vx_numpy [] vx_serve [[0]] = Some [vx_vector]"
    using vx_one by (simp add: encode_images_def)
  with embeddings_fit_their_users[OF vx_ok, of vx_env "[[0]]" "[]" vx_serve] show ?thesis
    by (simp add: vx_env_def)
qed

end
