(* ===== verification/Storage.thy ===== *)
theory Storage
  imports PipelineRun PyText
begin

text \<open>
  Object storage: \<open>src/app/infra/images.py\<close> downloads the copies of a chunk of photos, all or none;
  \<open>src/app/infra/image_resolver.py\<close> signs URLs.  Its client is created in a thread while the caller may be
  cancelled, so two threads and a lock decide who closes it.  What storage answers to each attempt is an
  argument, and so is what signing gives.

  A chunk of photos is downloaded completely or refused by name, and the client that signs URLs is never lost.
\<close>

section \<open>Downloading\<close>

text \<open>\<open>_get_one\<close>: the bytes or nothing after the last attempt, and the waits in between.\<close>

function get_one_from :: "nat \<Rightarrow> rat \<Rightarrow> (nat \<Rightarrow> bytes option) \<Rightarrow> nat \<Rightarrow> bytes option \<times> rat list" where
  "get_one_from retries backoff answer n =
     (if retries \<le> n then (None, [])
      else case answer n of
             Some b \<Rightarrow> (Some b, [])
           | None \<Rightarrow>
               if n < retries - 1 then
                 (case get_one_from retries backoff answer (n + 1) of (r, ws) \<Rightarrow> (r, backoff * 2 ^ n # ws))
               else (None, []))"
  by pat_completeness auto
termination by (relation "measure (\<lambda>(retries, backoff, answer, n). retries - n)") auto

declare get_one_from.simps [simp del]

definition get_one :: "nat \<Rightarrow> rat \<Rightarrow> (nat \<Rightarrow> bytes option) \<Rightarrow> bytes option \<times> rat list" where
  "get_one retries backoff answer = get_one_from retries backoff answer 0"

text \<open>\<open>get_many\<close> of both sources: the results in the order of the keys, or the keys that failed.\<close>

fun collect_images :: "(string \<times> bytes option) list \<Rightarrow> (string, bytes) pydict \<Rightarrow> string list \<Rightarrow> string list + (string, bytes) pydict" where
  "collect_images [] result failed = (if failed \<noteq> [] then Inl failed else Inr result)"
| "collect_images ((k, None) # xs) result failed = collect_images xs result (failed @ [k])"
| "collect_images ((k, Some b) # xs) result failed = collect_images xs (dict_set k b result) failed"

definition local_get_many :: "(string \<Rightarrow> bytes option) \<Rightarrow> string list \<Rightarrow> string list + (string, bytes) pydict" where
  "local_get_many read ks = collect_images (map (\<lambda>k. (k, read k)) ks) [] []"

text \<open>\<open>answer i n\<close> is the answer to attempt \<open>n\<close> at the key in position \<open>i\<close>.\<close>

definition s3_get_many ::
  "nat \<Rightarrow> rat \<Rightarrow> (nat \<Rightarrow> nat \<Rightarrow> bytes option) \<Rightarrow> string list \<Rightarrow> string list + (string, bytes) pydict" where
  "s3_get_many retries backoff answer ks =
     collect_images (map (\<lambda>(i, k). (k, fst (get_one retries backoff (answer i)))) (enumerate 0 ks)) [] []"

section \<open>Signing\<close>

text \<open>\<open>len(key.encode("utf-8"))\<close>; a surrogate cannot be encoded.\<close>

fun utf8_length :: "utext \<Rightarrow> nat option" where
  "utf8_length [] = Some 0"
| "utf8_length (c # u) =
     (if 55296 \<le> c \<and> c \<le> 57343 then None
      else map_option (\<lambda>n. n + (if c < 128 then 1 else if c < 2048 then 2 else if c < 65536 then 3 else 4)) (utf8_length u))"

datatype sign_fate = Signed string | Sign_error | Sign_breaks

datatype resolve_error = Url_unavailable | Url_broken

definition resolve_url :: "(utext \<Rightarrow> sign_fate) \<Rightarrow> utext \<Rightarrow> resolve_error + string" where
  "resolve_url sign key =
     (if key = [] then Inl Url_unavailable
      else case utf8_length key of
             None \<Rightarrow> Inl Url_unavailable
           | Some n \<Rightarrow>
               if 1024 < n then Inl Url_unavailable
               else (case sign key of Signed u \<Rightarrow> Inr u | Sign_error \<Rightarrow> Inl Url_unavailable | Sign_breaks \<Rightarrow> Inl Url_broken))"

section \<open>Creating the resolver\<close>

text \<open>The thread: not started, building, before the lock with a client, handed over, about to close it, at its
  end without a client, failed, or never run.\<close>

datatype build_thread = Bd_queued | Bd_building | Bd_built | Bd_gave | Bd_dropping | Bd_dropped | Bd_failed | Bd_never

text \<open>The caller: awaiting the thread, in the handler of its cancellation, awaiting the closing, or at its end.\<close>

datatype create_task = Cr_awaiting | Cr_caught | Cr_closing | Cr_cancelled | Cr_returned | Cr_raised

record creation =
  cr_thread :: build_thread
  cr_task :: create_task
  cr_cancel_flag :: bool
  cr_created :: bool
  cr_close_job :: bool
  cr_opened :: nat
  cr_closed :: nat

definition create_init :: creation where
  "create_init = \<lparr>cr_thread = Bd_queued, cr_task = Cr_awaiting, cr_cancel_flag = False, cr_created = False,
     cr_close_job = False, cr_opened = 0, cr_closed = 0\<rparr>"

text \<open>\<open>build\<close>.\<close>

definition thread_moves :: "bool \<Rightarrow> creation \<Rightarrow> creation" where
  "thread_moves builds c =
     (case cr_thread c of
        Bd_queued \<Rightarrow> c\<lparr>cr_thread := Bd_building\<rparr>
      | Bd_building \<Rightarrow> if builds then c\<lparr>cr_thread := Bd_built, cr_opened := cr_opened c + 1\<rparr> else c\<lparr>cr_thread := Bd_failed\<rparr>
      | Bd_built \<Rightarrow> if \<not> cr_cancel_flag c then c\<lparr>cr_thread := Bd_gave, cr_created := True\<rparr> else c\<lparr>cr_thread := Bd_dropping\<rparr>
      | Bd_dropping \<Rightarrow> c\<lparr>cr_thread := Bd_dropped, cr_closed := cr_closed c + 1\<rparr>
      | _ \<Rightarrow> c)"

text \<open>The caller goes on; its handler reads under the lock whether there is a client to close.\<close>

definition caller_moves :: "creation \<Rightarrow> creation" where
  "caller_moves c =
     (case cr_task c of
        Cr_awaiting \<Rightarrow>
          if cr_thread c = Bd_gave then c\<lparr>cr_task := Cr_returned\<rparr>
          else if cr_thread c = Bd_failed then c\<lparr>cr_task := Cr_raised\<rparr>
          else c
      | Cr_caught \<Rightarrow>
          if cr_created c then c\<lparr>cr_cancel_flag := True, cr_task := Cr_closing, cr_close_job := True\<rparr>
          else c\<lparr>cr_cancel_flag := True, cr_task := Cr_cancelled\<rparr>
      | Cr_closing \<Rightarrow> if cr_close_job c then c else c\<lparr>cr_task := Cr_cancelled\<rparr>
      | _ \<Rightarrow> c)"

text \<open>A cancellation reaches the caller at a wait; the closing is shielded from it.\<close>

definition caller_cancelled :: "creation \<Rightarrow> creation" where
  "caller_cancelled c =
     (case cr_task c of
        Cr_awaiting \<Rightarrow> c\<lparr>cr_task := Cr_caught\<rparr>
      | Cr_closing \<Rightarrow> c\<lparr>cr_task := Cr_cancelled\<rparr>
      | _ \<Rightarrow> c)"

text \<open>A call that has not started is dropped by the executor when its caller was cancelled.\<close>

definition never_started :: "creation \<Rightarrow> creation" where
  "never_started c = (if cr_thread c = Bd_queued \<and> cr_task c \<noteq> Cr_awaiting then c\<lparr>cr_thread := Bd_never\<rparr> else c)"

definition close_runs :: "creation \<Rightarrow> creation" where
  "close_runs c = (if cr_close_job c then c\<lparr>cr_close_job := False, cr_closed := cr_closed c + 1\<rparr> else c)"

inductive create_step :: "creation \<Rightarrow> creation \<Rightarrow> bool" where
  thread: "create_step c (thread_moves builds c)"
| caller: "create_step c (caller_moves c)"
| cancelled: "create_step c (caller_cancelled c)"
| unstarted: "create_step c (never_started c)"
| closes: "create_step c (close_runs c)"

inductive create_reach :: "creation \<Rightarrow> bool" where
  init: "create_reach create_init"
| step: "create_reach c \<Longrightarrow> create_step c d \<Longrightarrow> create_reach d"

section \<open>Downloading\<close>

text \<open>What a list of attempts gives: the first answer within the limit.\<close>

lemma get_one_from_first:
  "fst (get_one_from retries backoff answer n) = Some b \<longleftrightarrow>
     (\<exists>i. n \<le> i \<and> i < retries \<and> answer i = Some b \<and> (\<forall>j. n \<le> j \<and> j < i \<longrightarrow> answer j = None))"
proof (induction retries backoff answer n rule: get_one_from.induct)
  case (1 retries backoff answer n)
  show ?case
  proof (cases "retries \<le> n \<or> answer n \<noteq> None")
    case True
    then show ?thesis
      by (subst get_one_from.simps) (auto split: option.splits intro!: exI[of _ n] dest: le_neq_implies_less)
  next
    case False
    then have n: "n < retries" "answer n = None" by auto
    have later: "(\<exists>i. n \<le> i \<and> i < retries \<and> answer i = Some b \<and> (\<forall>j. n \<le> j \<and> j < i \<longrightarrow> answer j = None)) \<longleftrightarrow>
        (\<exists>i. n + 1 \<le> i \<and> i < retries \<and> answer i = Some b \<and> (\<forall>j. n + 1 \<le> j \<and> j < i \<longrightarrow> answer j = None))"
      using n(2) by (metis Suc_eq_plus1 Suc_leI le_antisym not_less option.distinct(1) Suc_leD)
    show ?thesis
    proof (cases "n < retries - 1")
      case True
      then show ?thesis
        using 1 n unfolding later by (subst get_one_from.simps) (simp split: prod.split add: prod_eq_iff)
    next
      case False
      then show ?thesis unfolding later using n by (subst get_one_from.simps) auto
    qed
  qed
qed

text \<open>The keys that failed, in order; or every key with the bytes of its last occurrence.\<close>

lemma collect_images_eq:
  "collect_images xs result failed =
     (if failed @ map fst (filter (\<lambda>x. snd x = None) xs) \<noteq> [] then Inl (failed @ map fst (filter (\<lambda>x. snd x = None) xs))
      else Inr (fold (\<lambda>x. dict_set (fst x) (the (snd x))) xs result))"
  by (induction xs result failed rule: collect_images.induct) auto

lemma fold_dict_mem:
  "k \<in> fst ` set xs \<Longrightarrow> \<exists>b. (k, b) \<in> set xs \<and> map_of (fold (\<lambda>x. dict_set (fst x) (f (snd x))) xs d) k = Some (f b)"
proof (induction xs rule: rev_induct)
  case (snoc x xs)
  obtain k' v where x: "x = (k', v)" by (cases x)
  show ?case
  proof (cases "k' = k")
    case True
    then show ?thesis by (auto simp: x)
  next
    case False
    with snoc show ?thesis by (auto simp: x)
  qed
qed simp

text \<open>The pipeline with its images from storage.\<close>

definition with_s3 :: "nat \<Rightarrow> rat \<Rightarrow> (nat \<Rightarrow> nat \<Rightarrow> bytes option) \<Rightarrow> 'i run_env \<Rightarrow> 'i run_env" where
  "with_s3 retries backoff answer E =
     E\<lparr>re_get_many := (\<lambda>ks. case s3_get_many retries backoff answer ks of
        Inl failed \<Rightarrow> Inl (DownloadFailed failed) | Inr d \<Rightarrow> Inr d)\<rparr>"

definition got :: "nat \<Rightarrow> (nat \<Rightarrow> nat \<Rightarrow> bytes option) \<Rightarrow> nat \<Rightarrow> bytes option" where
  "got retries answer i = fst (get_one retries 1 (answer i))"

lemma get_one_backoff: "fst (get_one retries backoff answer) = fst (get_one retries 1 answer)"
proof -
  have "fst (get_one retries backoff answer) = Some b \<longleftrightarrow> fst (get_one retries 1 answer) = Some b" for b
    unfolding get_one_def get_one_from_first ..
  then show ?thesis by (metis not_None_eq)
qed

lemma s3_keys:
  "s3_get_many retries backoff answer ks = collect_images (map (\<lambda>(i, k). (k, got retries answer i)) (enumerate 0 ks)) [] []"
  unfolding s3_get_many_def got_def by (subst get_one_backoff) (rule refl)

lemma keys_in:
  assumes "k \<in> set ks"
  shows "k \<in> fst ` set (map (\<lambda>(i, k). (k, g i)) (enumerate 0 ks))"
proof -
  from assms obtain i where "i < length ks" "ks ! i = k" by (auto simp: in_set_conv_nth)
  then have "(i, k) \<in> set (enumerate 0 ks)" by (auto simp: in_set_enumerate_eq)
  then have "(k, g i) \<in> set (map (\<lambda>(i, k). (k, g i)) (enumerate 0 ks))" by force
  then show ?thesis by (rule rev_image_eqI) simp
qed

text \<open>A chunk arrives whole or is refused by name: no photo is left without bytes, whatever storage answers.\<close>

lemma chunk_arrives_whole:
  "case load_images (with_s3 retries backoff answer E) atts of
      Inl e \<Rightarrow> (\<exists>ks. e = DownloadFailed ks \<and> ks \<noteq> [] \<and>
                 ks = map snd (filter (\<lambda>(i, k). got retries answer i = None) (enumerate 0 (map at_key atts)))) \<or>
               (\<exists>ids. e = DecodeFailed ids \<and> ids \<noteq> [] \<and> set ids \<subseteq> at_id ` set atts)
    | Inr (raw, imgs) \<Rightarrow> map fst raw = map at_id atts \<and> map fst imgs = map at_id atts \<and>
        (\<forall>j < length atts. \<exists>i < length atts. at_key (atts ! i) = at_key (atts ! j) \<and> Some (snd (raw ! j)) = got retries answer i)"
proof -
  let ?E = "with_s3 retries backoff answer E" and ?ks = "map at_key atts"
  let ?zs = "map (\<lambda>(i, k). (k, got retries answer i)) (enumerate 0 ?ks)"
  let ?bad = "map snd (filter (\<lambda>(i, k). got retries answer i = None) (enumerate 0 ?ks))"
  let ?d = "fold (\<lambda>x. dict_set (fst x) (the (snd x))) ?zs []"
  have bad: "map fst (filter (\<lambda>x. snd x = None) ?zs) = ?bad"
    by (simp add: filter_map comp_def case_prod_unfold)
  have s3: "s3_get_many retries backoff answer ?ks = (if ?bad \<noteq> [] then Inl ?bad else Inr ?d)"
    unfolding s3_keys collect_images_eq append_Nil bad ..
  have many: "re_get_many ?E ?ks = (if ?bad \<noteq> [] then Inl (DownloadFailed ?bad) else Inr ?d)"
    by (cases "?bad = []") (simp_all add: with_s3_def s3 del: map_is_Nil_conv Nil_is_map_conv)
  show ?thesis
  proof (cases "?bad = []")
    case False
    then have "load_images ?E atts = Inl (DownloadFailed ?bad)" unfolding load_images_def many by simp
    with False show ?thesis by simp
  next
    case True
    have got: "\<exists>i b. i < length atts \<and> at_key (atts ! i) = at_key a \<and> got retries answer i = Some b \<and> map_of ?d (at_key a) = Some b"
      if a: "a \<in> set atts" for a
    proof -
      have "at_key a \<in> set ?ks" using a by simp
      from fold_dict_mem[OF keys_in[OF this], of "got retries answer" the "[]"] obtain b where
        b: "(at_key a, b) \<in> set ?zs" "map_of ?d (at_key a) = Some (the b)" by blast
      from b(1) obtain i where i: "(i, at_key a) \<in> set (enumerate 0 ?ks)" "b = got retries answer i" by auto
      moreover have "got retries answer i \<noteq> None" using True i(1) by (auto simp: filter_empty_conv)
      ultimately show ?thesis using b(2) by (intro exI[of _ i]) (auto simp: in_set_enumerate_eq)
    qed
    let ?raw = "map (\<lambda>a. (at_id a, the (map_of ?d (at_key a)))) atts"
    have mapE_all: "mapE f xs = Inr (map g xs)" if "\<And>x. x \<in> set xs \<Longrightarrow> f x = Inr (g x)"
      for f :: "attachment \<Rightarrow> pipeline_error + int \<times> bytes" and g xs
      using that by (simp add: mapE_Inr list_all2_conv_all_nth)
    have "mapE (\<lambda>a. case map_of ?d (at_key a) of Some b \<Rightarrow> Inr (at_id a, b) | None \<Rightarrow> Inl pipeline_error_default) atts = Inr ?raw"
      by (rule mapE_all) (use got in force)
    then have load: "load_images ?E atts =
        (let failed = map fst (filter (\<lambda>(i, b). re_decode ?E b = None) ?raw)
         in if failed \<noteq> [] then Inl (DecodeFailed failed) else Inr (?raw, map (\<lambda>(i, b). (i, the (re_decode ?E b))) ?raw))"
      unfolding load_images_def many using True by simp
    have "\<exists>i < length atts. at_key (atts ! i) = at_key (atts ! j) \<and> Some (snd (?raw ! j)) = got retries answer i"
      if "j < length atts" for j
      using got[of "atts ! j"] that by force
    then show ?thesis unfolding load Let_def by (auto simp: comp_def case_prod_unfold)
  qed
qed

section \<open>Creating the resolver\<close>

definition create_inv :: "creation \<Rightarrow> bool" where
  "create_inv c \<longleftrightarrow>
     cr_opened c = (if cr_thread c \<in> {Bd_built, Bd_gave, Bd_dropping, Bd_dropped} then 1 else 0) \<and>
     cr_closed c + (if cr_close_job c then 1 else 0) = (if cr_thread c = Bd_dropped then 1 else 0) +
       (if cr_thread c = Bd_gave \<and> cr_task c \<in> {Cr_closing, Cr_cancelled} then 1 else 0) \<and>
     (cr_created c \<longleftrightarrow> cr_thread c = Bd_gave) \<and>
     (cr_cancel_flag c \<longleftrightarrow> cr_task c \<in> {Cr_closing, Cr_cancelled}) \<and>
     (cr_thread c \<in> {Bd_dropping, Bd_dropped} \<longrightarrow> cr_task c = Cr_cancelled) \<and>
     (cr_task c \<in> {Cr_closing, Cr_returned} \<longrightarrow> cr_thread c = Bd_gave) \<and>
     (cr_task c = Cr_raised \<longrightarrow> cr_thread c = Bd_failed) \<and>
     (cr_thread c = Bd_never \<longrightarrow> cr_task c \<noteq> Cr_awaiting)"

lemmas create_moves = thread_moves_def caller_moves_def caller_cancelled_def never_started_def close_runs_def

lemma create_step_inv:
  assumes "create_step c d" "create_inv c"
  shows "create_inv d"
  using assms(1)
proof (cases rule: create_step.cases)
  case (thread builds)
  with assms(2) show ?thesis
    by (cases "cr_thread c"; cases "cr_task c"; cases "cr_close_job c"; simp add: create_inv_def create_moves)
next
  case caller
  with assms(2) show ?thesis
    by (cases "cr_thread c"; cases "cr_task c"; cases "cr_close_job c"; simp add: create_inv_def create_moves)
next
  case cancelled
  with assms(2) show ?thesis
    by (cases "cr_thread c"; cases "cr_task c"; cases "cr_close_job c"; simp add: create_inv_def create_moves)
next
  case unstarted
  with assms(2) show ?thesis
    by (cases "cr_thread c"; cases "cr_task c"; cases "cr_close_job c"; simp add: create_inv_def create_moves)
next
  case closes
  with assms(2) show ?thesis
    by (cases "cr_thread c"; cases "cr_task c"; cases "cr_close_job c"; simp add: create_inv_def create_moves)
qed

lemma create_reach_inv: "create_reach c \<Longrightarrow> create_inv c"
proof (induction rule: create_reach.induct)
  case init
  show ?case by (simp add: create_inv_def create_init_def)
next
  case (step c d)
  then show ?case using create_step_inv by blast
qed

text \<open>Every step that changes something brings the end nearer.\<close>

fun thread_rank :: "build_thread \<Rightarrow> nat" where
  "thread_rank Bd_queued = 4" | "thread_rank Bd_building = 3" | "thread_rank Bd_built = 2" | "thread_rank Bd_dropping = 1"
| "thread_rank _ = 0"

fun task_rank :: "create_task \<Rightarrow> nat" where
  "task_rank Cr_awaiting = 3" | "task_rank Cr_caught = 2" | "task_rank Cr_closing = 1" | "task_rank _ = 0"

definition create_weight :: "creation \<Rightarrow> nat" where
  "create_weight c = thread_rank (cr_thread c) + 2 * task_rank (cr_task c) + (if cr_close_job c then 1 else 0)"

lemma create_step_weight:
  assumes "create_step c d"
  shows "d = c \<or> create_weight d < create_weight c"
  using assms
  by (cases rule: create_step.cases; cases "cr_thread c"; cases "cr_task c")
    (auto simp: create_moves create_weight_def)

definition at_rest :: "creation \<Rightarrow> bool" where
  "at_rest c \<longleftrightarrow> (\<forall>d. create_step c d \<longrightarrow> d = c)"

lemma comes_to_rest: "\<exists>d. create_step\<^sup>*\<^sup>* c d \<and> at_rest d"
proof (induction "create_weight c" arbitrary: c rule: less_induct)
  case less
  show ?case
  proof (cases "at_rest c")
    case False
    then obtain d where d: "create_step c d" "d \<noteq> c" by (auto simp: at_rest_def)
    with create_step_weight less obtain e where "create_step\<^sup>*\<^sup>* d e" "at_rest e" by blast
    with d(1) show ?thesis by (meson converse_rtranclp_into_rtranclp)
  qed auto
qed

lemma rest_moves:
  assumes "at_rest c"
  shows "thread_moves True c = c" "caller_moves c = c" "caller_cancelled c = c" "never_started c = c" "close_runs c = c"
  using assms create_step.intros unfolding at_rest_def by blast+

text \<open>C39. The client that signs URLs is never leaked and never closed under its user.  However building it in
  a thread, the cancellations of the caller and the closing interleave, at most one client is opened and never
  more are closed than opened; a caller that gets the resolver has an open one that nobody will close; and every
  run comes to rest, with the caller done and the client, if one was opened, closed or with the caller.\<close>

theorem resolver_is_closed_or_returned:
  assumes "create_reach c"
  shows "cr_opened c \<le> 1 \<and> cr_closed c \<le> cr_opened c \<and>
    (cr_task c = Cr_returned \<longrightarrow> cr_opened c = 1 \<and> cr_closed c = 0 \<and> \<not> cr_close_job c) \<and>
    (at_rest c \<longrightarrow> cr_task c \<in> {Cr_cancelled, Cr_returned, Cr_raised} \<and>
       cr_opened c = cr_closed c + (if cr_task c = Cr_returned then 1 else 0)) \<and>
    (\<exists>d. create_step\<^sup>*\<^sup>* c d \<and> at_rest d)"
proof -
  from create_reach_inv[OF assms] have inv: "create_inv c" .
  have rest: "cr_task c \<in> {Cr_cancelled, Cr_returned, Cr_raised} \<and>
       cr_opened c = cr_closed c + (if cr_task c = Cr_returned then 1 else 0)" if "at_rest c"
  proof -
    note m = rest_moves[OF that]
    have job: "\<not> cr_close_job c" using m(5) by (cases c) (auto simp: close_runs_def)
    have thread: "cr_thread c \<notin> {Bd_queued, Bd_building, Bd_built, Bd_dropping}"
      using m(1) by (cases c) (auto simp: thread_moves_def split: if_splits)
    have task: "cr_task c \<notin> {Cr_awaiting, Cr_caught, Cr_closing}"
      using m(2,3) job by (cases c) (auto simp: caller_moves_def caller_cancelled_def split: if_splits)
    show ?thesis
      using inv job thread task by (cases "cr_thread c"; cases "cr_task c"; simp add: create_inv_def)
  qed
  have "cr_opened c \<le> 1 \<and> cr_closed c \<le> cr_opened c \<and>
    (cr_task c = Cr_returned \<longrightarrow> cr_opened c = 1 \<and> cr_closed c = 0 \<and> \<not> cr_close_job c)"
    using inv by (cases "cr_thread c"; cases "cr_task c"; cases "cr_close_job c"; simp add: create_inv_def)
  with rest comes_to_rest show ?thesis by blast
qed

text \<open>The caller is cancelled while the thread builds: the thread closes what it has built.\<close>

definition st_late :: creation where
  "st_late = thread_moves True (thread_moves True (caller_moves (thread_moves True
     (caller_cancelled (thread_moves True create_init)))))"

lemma st_late_reach: "create_reach st_late"
  unfolding st_late_def
  by (rule create_reach.step[OF create_reach.step[OF create_reach.step[OF create_reach.step[OF create_reach.step[OF
    create_reach.step[OF create_reach.init create_step.thread] create_step.cancelled] create_step.thread]
    create_step.caller] create_step.thread] create_step.thread])

lemma resolver_is_closed_or_returned_witness:
  "cr_task st_late = Cr_cancelled \<and> cr_opened st_late = 1 \<and> cr_closed st_late = 1 \<and> cr_opened st_late \<le> 1"
  using resolver_is_closed_or_returned[OF st_late_reach]
  by (simp add: st_late_def create_init_def create_moves)

end
