(* ===== verification/SearchClients.thy ===== *)
theory SearchClients
  imports Vectors SearchTheorems Storage GpuGate
begin

text \<open>
  The search service as it is assembled (\<open>src/app/api/search_bootstrap.py\<close>): the search over the clients of the
  embedding server, the vector store, object storage and the model, the two GPU servers behind their gates.  What
  the servers answer, and whether a gate gives a slot, are fields of \<open>search_servers\<close>.  So is the call that a time
  limit around several calls strikes: the limit of the phase (\<open>search/pipeline.py\<close>), whose expiry the pipeline handles,
  or that of the whole request (\<open>QueryService._run\<close>), whose expiry passes through the pipeline as a cancellation and
  is a time-out only in the service.
\<close>

section \<open>The service\<close>














section \<open>How the clients fail\<close>










section \<open>How a search fails\<close>




















end
