(* ===== verification/JobProcess.thy ===== *)
theory JobProcess
  imports Runner ExecutionTheorems StoreOpTheorems PyText
begin

text \<open>
  The process a job runs in: the rest of \<open>src/app/jobs/execution.py\<close>.  Which handler runs, the line a waiting
  child receives, and the guard beside the execution, which cancels it when the run is no longer its own.
\<close>

section \<open>The handler of a kind\<close>

record handler_cfg =
  hc_fake :: bool
  hc_process :: "string option"
  hc_story :: "string option"

datatype chosen_handler = Mock_run | Coroutine string string

datatype handler_error = Not_configured | Import_failed | Not_async

text \<open>\<open>load\<close> is the import of a module and the reading of its attribute: whether it is a coroutine function.\<close>

definition handler_for :: "handler_cfg \<Rightarrow> (string \<Rightarrow> string \<Rightarrow> bool option) \<Rightarrow> job_kind \<Rightarrow> handler_error + chosen_handler" where
  "handler_for C load k =
     (if hc_fake C then Inr Mock_run
      else case (if k = Process then hc_process C else hc_story C) of
             None \<Rightarrow> Inl Not_configured
           | Some path \<Rightarrow>
               if CHR '':'' \<notin> set path then Inl Not_configured
               else let m = takeWhile (\<lambda>c. c \<noteq> CHR '':'') path; n = tl (dropWhile (\<lambda>c. c \<noteq> CHR '':'') path)
                    in case load m n of None \<Rightarrow> Inl Import_failed
                       | Some is_async \<Rightarrow> if is_async then Inr (Coroutine m n) else Inl Not_async)"

section \<open>Handing over\<close>

text \<open>\<open>handoff_line\<close>: the object written as one line of JSON.\<close>

definition handoff_json :: "handed \<Rightarrow> rat \<Rightarrow> rat \<Rightarrow> json" where
  "handoff_json h wait_ms sent =
     (case h of
        Job_line i w \<Rightarrow> JObj [(''kind'', JStr (of_ascii ''process'')), (''identity'', JStr (of_ascii i)),
                           (''owner'', JStr (of_ascii w)), (''sent_at'', JNum sent)]
      | Batch_line i trip no \<Rightarrow> JObj [(''kind'', JStr (of_ascii ''photo_batch'')), (''identity'', JStr (of_ascii i)),
                           (''trip_id'', JInt trip), (''batch_no'', JInt no), (''wait_ms'', JNum wait_ms), (''sent_at'', JNum sent)])"

text \<open>What can be subtracted from a float: Python's booleans are integers.\<close>

fun is_number :: "json \<Rightarrow> bool" where
  "is_number (JInt i) = True"
| "is_number (JNum q) = True"
| "is_number (JBool b) = True"
| "is_number _ = False"

datatype standby_act = Sb_ends | Sb_batch json | Sb_job string string

text \<open>\<open>standby\<close>: \<open>None\<close> when the runner closes the pipe without a line.\<close>

definition standby :: "json option \<Rightarrow> job_exn + standby_act" where
  "standby line =
     (case line of
        None \<Rightarrow> Inr Sb_ends
      | Some j \<Rightarrow>
          bindE (jget ''sent_at'' j) (\<lambda>t. if \<not> is_number t then Inl TypeErr else bindE (jget ''kind'' j) (\<lambda>k.
            if k = JStr (of_ascii ''photo_batch'') then Inr (Sb_batch j)
            else bindE (jget ''identity'' j) (\<lambda>i. bindE (jget ''owner'' j) (\<lambda>w.
              case (i, w) of (JStr a, JStr b) \<Rightarrow> Inr (Sb_job (id_text a) (id_text b)) | _ \<Rightarrow> Inl TypeErr)))))"

section \<open>The guard\<close>

text \<open>One check after a heartbeat's sleep: the record is read, then the clock.\<close>

datatype guard_verdict = Goes_on | Stops | Breaks job_exn

definition guard_check :: "jobs_env \<Rightarrow> string \<Rightarrow> job option \<Rightarrow> rat \<Rightarrow> guard_verdict" where
  "guard_check E owner current now =
     (case current of
        None \<Rightarrow> Stops
      | Some j \<Rightarrow>
          if terminal (j_status j) then Goes_on
          else (case owns E j owner now of
                  Inl e \<Rightarrow> Breaks e
                | Inr True \<Rightarrow> Goes_on
                | Inr False \<Rightarrow> Stops))"

section \<open>\<open>run_job\<close>\<close>

text \<open>A record that is gone ends the process.  Otherwise the execution and the guard run until one of them ends,
  and whatever they raise is dropped; a guard that ends first cuts the execution off at the wait it has reached,
  which is one of the ways its environment already goes (\<open>Cut\<close>).\<close>

definition run_job :: "xenv \<Rightarrow> string \<Rightarrow> string \<Rightarrow> handler \<Rightarrow> unit run" where
  "run_job X i owner h w =
     (case read_call X (\<lambda>now s. get_job s i) w of
        (Inl e, v) \<Rightarrow> (Inl e, v)
      | (Inr None, v) \<Rightarrow> (Inr (), v)
      | (Inr (Some j), v) \<Rightarrow> (Inr (), snd (execute X i owner h v)))"

lemma run_job_completes_with_its_result:
  assumes "no_rival X i" "get_job (w_redis w) i = Some j0" "j_status j0 \<noteq> COMPLETED"
    and run: "run_job X i owner h w = (r, u)" and fin: "get_job (w_redis u) i = Some j" "j_status j = COMPLETED"
  shows "\<exists>x v e. attempt_job X i owner h (advance X (advance X (advance X w))) = (Inr x, v) \<and>
    j_event j = Some e \<and> result_schema (xe_jobs X) (j_kind j) x = ev_result e \<and> ev_result e \<noteq> None"
proof -
  have "backs X i {} w" using assms(2,3) by (simp add: backed_def justified_def)
  then have bk: "backs X i {} (advance X w)" by (rule advance_keeps[OF others_keep_backed[OF assms(1)]])
  have not_done: False if "u = advance X w"
    using bk fin that by (auto simp: backed_def justified_def)
  obtain q v where rd: "read_call X (\<lambda>now s. get_job s i) w = (q, v)" by (cases "read_call X (\<lambda>now s. get_job s i) w")
  then have v: "v = advance X w" by (auto simp: read_call_def store_call_def Let_def run_attempt_def split: link.splits)
  from run rd v not_done obtain j1 where j1: "q = Inr (Some j1)" "u = snd (execute X i owner h v)"
    by (auto simp: run_job_def split: sum.splits option.splits)
  then have "get_job (w_redis v) i = Some j1"
    using rd v by (auto simp: read_call_def store_call_def Let_def run_attempt_def split: link.splits)
  moreover from this bk v have "j_status j1 \<noteq> COMPLETED" by (auto simp: backed_def justified_def)
  ultimately have "backs X i (returned (fst (attempt_job X i owner h (advance X (advance X v))))) u"
    using execute_backed[OF assms(1), of v j1 owner h "fst (execute X i owner h v)" u] j1(2) by simp
  with fin v show ?thesis
    by (cases "attempt_job X i owner h (advance X (advance X v))"; cases "fst (attempt_job X i owner h (advance X (advance X v)))")
      (auto simp: backed_def justified_def returned_def)
qed

section \<open>What the guard may stop\<close>

text \<open>What others may do after a time: no new claim under the same name, and heartbeats only with later clocks.\<close>

fun later_op :: "string \<Rightarrow> string \<Rightarrow> rat \<Rightarrow> store_op \<Rightarrow> bool" where
  "later_op i w t (OpClaim k v stop now) \<longleftrightarrow> v \<noteq> w"
| "later_op i w t (OpChange_heartbeat x v now) \<longleftrightarrow> (x = i \<and> v = w \<longrightarrow> t \<le> now)"
| "later_op i w t _ \<longleftrightarrow> True"

lemma heartbeat_lost:
  assumes "\<not> owned E s i w t" "t \<le> now" "store_inv E s"
  shows "heartbeat E i w now s = Done (Inr None) [] \<and> progress_op E i w step dn tot now s = Done (Inr None) [] \<and>
    finish E i w st res err now s = Done (Inr None) []"
proof (cases "get_job s i")
  case None
  then show ?thesis by (simp add: heartbeat_def progress_op_def finish_def change_attempt_def)
next
  case (Some j)
  have "owns E j w now = Inr (holds_lease E j w now)" by (rule owns_holds_lease[OF get_job_wf[OF assms(3) Some]])
  moreover have "owns E j w now \<noteq> Inr True" using assms(1,2) Some owned_earlier by (fastforce simp: owned_def)
  ultimately have "owns E j w now = Inr False" by simp
  with Some show ?thesis
    by (simp add: heartbeat_def progress_op_def finish_def change_attempt_def heartbeat_update_def
      progress_update_def finish_update_def)
qed

lemma later_stays_lost:
  assumes "op_ok E op" "later_op i w t op" "\<not> owned E s i w t" "store_inv E s"
  shows "\<not> owned E (op_run E op s) i w t"
proof (cases "renews i w op")
  case False
  with assms show ?thesis by (intro lost_stays_lost)
next
  case True
  with assms(2) obtain now where op: "op = OpChange_heartbeat i w now" "t \<le> now" by (cases op) auto
  from heartbeat_lost[OF assms(3) op(2) assms(4)] assms(3) op(1) show ?thesis by (simp add: heartbeat_def)
qed

lemma run_ops_lost:
  "list_all (op_ok E) ops \<Longrightarrow> list_all (later_op i w t) ops \<Longrightarrow> \<not> owned E s i w t \<Longrightarrow> store_inv E s \<Longrightarrow>
    \<not> owned E (run_ops E ops s) i w t \<and> store_inv E (run_ops E ops s)"
  by (induction ops arbitrary: s) (simp_all add: later_stays_lost op_run_inv)

text \<open>C11. The guard of a job process stops exactly the runs that are lost, and stopping one loses nothing.  A
  check lets the run go on only when the job is finished or the owner holds its lease; when it stops the run,
  then whatever the other processes do afterwards and however long the run would have gone on, no heartbeat, no
  progress and no result of it would have been accepted.\<close>

theorem guard_stops_only_lost_runs:
  assumes "reachable E s" and "list_all (op_ok E) ops" and "list_all (later_op i w now) ops" and "now \<le> t"
  shows "(case guard_check E w (get_job s i) now of
      Goes_on \<Rightarrow> \<exists>j. get_job s i = Some j \<and> (terminal (j_status j) \<or> holds_lease E j w now)
    | Stops \<Rightarrow> heartbeat E i w t (run_ops E ops s) = Done (Inr None) [] \<and>
        progress_op E i w step dn tot t (run_ops E ops s) = Done (Inr None) [] \<and>
        finish E i w st res err t (run_ops E ops s) = Done (Inr None) []
    | Breaks e \<Rightarrow> False)"
proof -
  have inv: "store_inv E s" by (rule reachable_inv[OF assms(1)])
  have own: "owns E j w now = Inr (holds_lease E j w now)" if "get_job s i = Some j" for j
    by (rule owns_holds_lease[OF get_job_wf[OF inv that]])
  have "\<not> owned E s i w now" if "guard_check E w (get_job s i) now = Stops"
    using that own by (auto simp: guard_check_def owned_def split: option.splits if_splits bool.splits)
  then have "heartbeat E i w t (run_ops E ops s) = Done (Inr None) [] \<and>
        progress_op E i w step dn tot t (run_ops E ops s) = Done (Inr None) [] \<and>
        finish E i w st res err t (run_ops E ops s) = Done (Inr None) []"
    if "guard_check E w (get_job s i) now = Stops"
    using run_ops_lost[OF assms(2,3) _ inv] heartbeat_lost[OF _ assms(4)] that by blast
  moreover have "\<exists>j. get_job s i = Some j \<and> (terminal (j_status j) \<or> holds_lease E j w now)"
    if "guard_check E w (get_job s i) now = Goes_on"
    using that own by (auto simp: guard_check_def split: option.splits if_splits bool.splits)
  moreover have "guard_check E w (get_job s i) now \<noteq> Breaks e" for e
    using own by (auto simp: guard_check_def split: option.splits if_splits bool.splits)
  ultimately show ?thesis by (auto split: guard_verdict.split)
qed

lemma guard_stops_only_lost_runs_witness:
  "guard_check ex_env ''other'' (get_job ex_db2 ex_id) 3 = Stops \<and>
   finish ex_env ex_id ''other'' COMPLETED None None 4 ex_db2 = Done (Inr None) []"
proof -
  have stops: "guard_check ex_env ''other'' (get_job ex_db2 ex_id) 3 = Stops"
    by (simp add: guard_check_def ex_db2_views ex_running_def owns_def claimed_job_def)
  with guard_stops_only_lost_runs[OF ex_reach2, of "[]" ex_id "''other''" 3 4] show ?thesis by simp
qed

section \<open>What a child does with its line\<close>

lemma standby_gets_its_job:
  assumes "list_all (\<lambda>c. of_char c < (128 :: nat)) i" "list_all (\<lambda>c. of_char c < (128 :: nat)) w"
  shows "standby (Some (handoff_json (Job_line i w) wait_ms sent)) = Inr (Sb_job i w)"
proof -
  have "of_ascii ''process'' \<noteq> of_ascii ''photo_batch''" by (simp add: of_ascii_def)
  then show ?thesis using assms by (simp add: standby_def handoff_json_def id_text_of_ascii)
qed

lemma standby_gets_its_batch:
  "standby (Some (handoff_json (Batch_line i trip no) wait_ms sent)) = Inr (Sb_batch (handoff_json (Batch_line i trip no) wait_ms sent))"
  by (simp add: standby_def handoff_json_def)

end
