(* ===== verification/Api.thy ===== *)
theory Api
  imports ExecutionTheorems Metrics RunpodStatus SearchFlow
begin

text \<open>
  The HTTP service (\<open>src/app/v2_main.py\<close>, \<open>app/api/deps.py\<close>, \<open>api/routers/query.py\<close>, \<open>core/http_errors.py\<close>): which
  requests are served, by what, and the replies.  A request reads and writes the job store at most once; FastAPI's
  checks of paths and bodies have been passed.  What the other services gave is part of the request.
\<close>

section \<open>Replies\<close>

datatype api_body =
  Error_body error_code "(string \<times> json) list"
| Plain_error
| Job_body int utext task_status progress "string option"
| Cancel_body int utext task_status
| Runpod_body status_answer
| Metrics_body metrics_page
| Health_body bool nat nat
| Parse_body parse_response
| Search_body search_response

record http_reply =
  hr_status :: nat
  hr_body :: api_body

text \<open>An \<open>AppError\<close> has its own reply; whatever else is raised is the server's error 500.\<close>

definition error_reply :: "app_error \<Rightarrow> http_reply" where
  "error_reply e = \<lparr>hr_status = ae_http_status e, hr_body = Error_body (ae_code e) (ae_detail e)\<rparr>"

definition server_error :: http_reply where
  "server_error = \<lparr>hr_status = 500, hr_body = Plain_error\<rparr>"

definition store_error :: "job_exn \<Rightarrow> http_reply" where
  "store_error e = (case e of AppErr c \<Rightarrow> error_reply (mk_app_error c None None) | _ \<Rightarrow> server_error)"

text \<open>\<open>redis_unavailable\<close>.\<close>

definition redis_reply :: http_reply where
  "redis_reply = \<lparr>hr_status = 503, hr_body = Error_body INTERNAL_ERROR []\<rparr>"

section \<open>Authentication\<close>

text \<open>The absent header is the empty one.\<close>

definition require_api_key :: "utext \<Rightarrow> utext \<Rightarrow> bool" where
  "require_api_key key authorization \<longleftrightarrow> authorization = of_ascii ''Bearer '' @ key"

section \<open>Jobs\<close>

definition v2_status :: "jobs_env \<Rightarrow> int \<Rightarrow> job_kind \<Rightarrow> redis \<Rightarrow> http_reply" where
  "v2_status E trip k s =
     (case latest E trip k s of
        Inl e \<Rightarrow> store_error e
      | Inr r \<Rightarrow> \<lparr>hr_status = 200, hr_body = Job_body (j_trip r) (j_exec r) (j_status r) (j_progress r) (j_step r)\<rparr>)"

text \<open>\<open>s0\<close> is the database when the latest job was looked up, \<open>s\<close> the one the transaction committed on.\<close>

definition v2_cancel :: "jobs_env \<Rightarrow> int \<Rightarrow> job_kind \<Rightarrow> rat \<Rightarrow> redis \<Rightarrow> redis \<Rightarrow> http_reply option \<times> rcmd list" where
  "v2_cancel E trip k now s0 s =
     (case cancel E trip k now s0 s of
        Done (Inl e) cs \<Rightarrow> (Some (store_error e), cs)
      | Done (Inr r) cs \<Rightarrow> (Some \<lparr>hr_status = 200, hr_body = Cancel_body trip (j_exec r) CANCELED\<rparr>, cs)
      | Again cs \<Rightarrow> (None, cs))"

definition v2_health :: "bool \<Rightarrow> bool \<Rightarrow> redis \<Rightarrow> http_reply" where
  "v2_health kafka_ok stories_ok s =
     (let ok = kafka_ok \<and> stories_ok
      in \<lparr>hr_status = (if ok then 200 else 503),
          hr_body = Health_body ok (length (get_zset s KRunning))
            (length (get_zset s (KQueue Process)) + length (get_zset s (KQueue Story)))\<rparr>)"

section \<open>Searches\<close>

text \<open>A cancelled request gets no reply.\<close>

definition query_reply :: "('a \<Rightarrow> api_body) \<Rightarrow> (query_error + 'a) option \<Rightarrow> http_reply option" where
  "query_reply body r =
     (case r of
        None \<Rightarrow> Some (error_reply (mk_app_error MODEL_NOT_READY None None))
      | Some (Inl QE_cancelled) \<Rightarrow> None
      | Some (Inl (QE_error e)) \<Rightarrow> Some (error_reply e)
      | Some (Inr x) \<Rightarrow> Some \<lparr>hr_status = 200, hr_body = body x\<rparr>)"

section \<open>The service\<close>

text \<open>\<open>None\<close> for a query is a service that is not connected, \<open>None\<close> for the status page one that raised.\<close>

datatype v2_request =
  V2_status int job_kind
| V2_cancel int job_kind rat redis
| V2_runpod "status_answer option"
| V2_metrics
| V2_health bool bool
| V2_parse "(query_error + parse_response) option"
| V2_search "(query_error + search_response) option"

definition v2_open :: "v2_request \<Rightarrow> bool" where
  "v2_open rq = (case rq of V2_health a b \<Rightarrow> True | _ \<Rightarrow> False)"

fun uses_redis :: "v2_request \<Rightarrow> bool" where
  "uses_redis (V2_status trip k) = True"
| "uses_redis (V2_cancel trip k now s0) = True"
| "uses_redis V2_metrics = True"
| "uses_redis (V2_health a b) = True"
| "uses_redis _ = False"

fun v2_route :: "jobs_env \<Rightarrow> v2_request \<Rightarrow> redis \<Rightarrow> http_reply option \<times> rcmd list" where
  "v2_route E (V2_status trip k) s = (Some (v2_status E trip k s), [])"
| "v2_route E (V2_cancel trip k now s0) s = v2_cancel E trip k now s0 s"
| "v2_route E (V2_runpod a) s =
     (Some (case a of None \<Rightarrow> server_error | Some x \<Rightarrow> \<lparr>hr_status = 200, hr_body = Runpod_body x\<rparr>), [])"
| "v2_route E V2_metrics s =
     (Some (case render s of None \<Rightarrow> server_error | Some p \<Rightarrow> \<lparr>hr_status = 200, hr_body = Metrics_body p\<rparr>), [])"
| "v2_route E (V2_health kafka_ok stories_ok) s = (Some (v2_health kafka_ok stories_ok s), [])"
| "v2_route E (V2_parse r) s = (query_reply Parse_body r, [])"
| "v2_route E (V2_search r) s = (query_reply Search_body r, [])"

definition v2_serve ::
  "jobs_env \<Rightarrow> utext \<Rightarrow> bool \<Rightarrow> utext \<Rightarrow> v2_request \<Rightarrow> redis \<Rightarrow> http_reply option \<times> rcmd list" where
  "v2_serve E key redis_up authorization rq s =
     (if \<not> v2_open rq \<and> \<not> require_api_key key authorization
      then (Some (error_reply (mk_app_error UNAUTHORIZED None None)), [])
      else if uses_redis rq \<and> \<not> redis_up then (Some redis_reply, [])
      else v2_route E rq s)"

section \<open>Strangers\<close>

lemma strangers_do_nothing:
  assumes "\<not> require_api_key key authorization" "\<not> v2_open rq"
  shows "v2_serve E key redis_up authorization rq s = (Some \<lparr>hr_status = 401, hr_body = Error_body UNAUTHORIZED []\<rparr>, [])"
  using assms by (simp add: v2_serve_def error_reply_def mk_app_error_def)

section \<open>What cancelling means\<close>

text \<open>A cancelled job will not be completed any more, and does not wait for a runner.\<close>

definition doomed :: "job \<Rightarrow> bool" where
  "doomed j \<longleftrightarrow> j_cancel j \<and> j_status j \<in> {PROCESSING, CANCELED, FAILED}"

lemma doomed_not_queued: "doomed j \<Longrightarrow> j_status j \<noteq> QUEUED \<and> j_status j \<noteq> COMPLETED"
  by (auto simp: doomed_def)

lemma terminate_canceled:
  assumes "terminate E j CANCELED None None = Inr j'"
  shows "j_cancel j' = j_cancel j \<and> j_status j' \<in> {CANCELED, FAILED}"
  using assms
  by (auto simp: terminate_def enforce_within check_payload_def within_limit_def Let_def split: if_splits option.splits)

lemma terminate_failed:
  assumes "terminate E j FAILED res err = Inr j'"
  shows "j_cancel j' = j_cancel j \<and> j_status j' = FAILED"
  using assms
  by (auto simp: terminate_def enforce_within check_payload_def within_limit_def Let_def split: if_splits option.splits)

lemma update_doomed:
  assumes "op_ok E op" "op_update E op = Some (i, upd, sc, now)" "upd j now = Inr (Some j')" "doomed j"
  shows "doomed j'"
proof (cases op)
  case (OpChange_heartbeat x v t)
  with assms show ?thesis by (auto simp: heartbeat_update_def doomed_def split: if_splits)
next
  case (OpChange_progress x v step dn tot t)
  with assms show ?thesis by (auto simp: progress_update_def doomed_def split: if_splits)
next
  case (OpChange_finish x v st res err t)
  with assms have "terminate E j CANCELED None None = Inr j'" by (auto simp: finish_update_def doomed_def split: if_splits)
  from terminate_canceled[OF this] assms(4) show ?thesis by (auto simp: doomed_def)
next
  case (OpChange_cancel x t)
  with assms cancel_terminate[of E j now j'] show ?thesis by (auto simp: doomed_def)
next
  case (OpChange_return x v q t)
  with assms have "terminate E j CANCELED None None = Inr j'" by (auto simp: return_update_def doomed_def split: if_splits)
  from terminate_canceled[OF this] assms(4) show ?thesis by (auto simp: doomed_def)
next
  case (OpChange_recover x t)
  with assms(2,3) obtain res err where "terminate E j FAILED res err = Inr j'"
    by (auto simp: recover_update_def Let_def split: if_splits option.splits)
  from terminate_failed[OF this] assms(4) show ?thesis by (auto simp: doomed_def)
next
  case (OpChange_claim_result x q t)
  with assms show ?thesis by (auto simp: claim_result_update_def doomed_def split: if_splits)
qed (use assms in simp_all)

lemma op_run_doomed:
  assumes "op_ok E op" "get_job s i = Some j" "doomed j"
  shows "\<exists>j'. get_job (op_run E op s) i = Some j' \<and> doomed j' \<and> evolves j j'"
proof -
  have "\<exists>j'. get_job (op_run E op s) i = Some j' \<and> doomed j'"
  proof (rule op_run_related[where R = "\<lambda>_. doomed", OF assms(1,2)])
    show "doomed (j\<lparr>j_published := True\<rparr>)" using assms(3) by (simp add: doomed_def)
    show "doomed j'" if "op_update E op = Some (i, upd, sc, now)" "upd j now = Inr (Some j')" for upd sc now j'
      using update_doomed[OF assms(1) that assms(3)] .
    show "doomed (claimed_job j v now)" if "j_status j = QUEUED" for v now
      using that assms(3) by (simp add: doomed_def)
  qed (rule assms(3))
  with op_run_evolves[OF assms(1,2)] show ?thesis by auto
qed

lemma run_ops_doomed:
  assumes "list_all (op_ok E) ops" "get_job s i = Some j" "doomed j"
  shows "\<exists>j'. get_job (run_ops E ops s) i = Some j' \<and> doomed j' \<and> (terminal (j_status j) \<longrightarrow> j_status j' = j_status j)"
  using assms
proof (induction ops arbitrary: s j)
  case (Cons op ops)
  from Cons.prems op_run_doomed[of E op s i j] obtain j1 where
    "get_job (op_run E op s) i = Some j1" "doomed j1" "evolves j j1" by auto
  with Cons.IH[of "op_run E op s" j1] Cons.prems(1) show ?case by (auto simp: evolves_def)
qed auto

lemma run_ops_evolves:
  assumes "list_all (op_ok E) ops" "get_job s i = Some j"
  shows "\<exists>j'. get_job (run_ops E ops s) i = Some j' \<and> j_kind j' = j_kind j \<and> j_trip j' = j_trip j \<and> j_exec j' = j_exec j"
  using assms
proof (induction ops arbitrary: s j)
  case (Cons op ops)
  from Cons.prems op_run_evolves[of E op s i j] obtain j1 where "get_job (op_run E op s) i = Some j1" "evolves j j1" by auto
  with Cons.IH[of "op_run E op s" j1] Cons.prems(1) show ?case by (auto simp: evolves_def)
qed auto

text \<open>A transaction that cancels a job that is not finished always succeeds.\<close>

lemma cancel_succeeds:
  assumes "get_job s i = Some j" "job_wf E i j" "\<not> terminal (j_status j)"
  shows "\<exists>j' cs. change_attempt E i (cancel_update E) None now s = Done (Inr (Some j')) cs \<and> j_exec j' = j_exec j \<and>
    get_job (exec cs s) i = Some j' \<and> doomed j' \<and> (j_status j = QUEUED \<longrightarrow> terminal (j_status j'))"
proof (cases "j_status j = QUEUED")
  case True
  let ?j = "j\<lparr>j_cancel := True\<rparr>"
  have "check_payload E (event_for ?j CANCELED None None) = Inr (event_for ?j CANCELED None None)"
    by (simp add: check_payload_def event_for_def)
  from terminate_event[OF this] obtain j' where t: "terminate E ?j CANCELED None None = Inr j'" by blast
  note st = terminate_canceled[OF t]
  then have ended: "terminal (j_status j')" "j_status j' \<noteq> COMPLETED" by auto
  obtain ms where "terminal_commands j' now = Inr ms" using metrics_total[of j' now] ended(2) by blast
  then obtain cs where c: "change_commands E i (j_status j) j' None now s = Inr cs"
    using ended(1) True by (auto simp: change_commands_def Let_def)
  have "cancel_update E j now = Inr (Some j')" using t True by (simp add: cancel_update_def)
  with c assms(1) have "change_attempt E i (cancel_update E) None now s = Done (Inr (Some j')) cs"
    by (simp add: change_attempt_def)
  moreover have "j_exec j' = j_exec j" using terminate_spec[OF t] by simp
  ultimately show ?thesis
    using get_job_after_change[OF c, of i] st ended(1) by (auto simp: doomed_def)
next
  case False
  with assms(3) have p: "j_status j = PROCESSING" by (cases "j_status j") simp_all
  let ?j = "j\<lparr>j_cancel := True\<rparr>"
  from assms(2) p obtain h st where hs: "j_heartbeat j = Some h" "j_started j = Some st" by (auto simp: job_wf_def)
  then obtain cs where c: "change_commands E i (j_status j) ?j None now s = Inr cs"
    using p by (auto simp: change_commands_def Let_def)
  have "cancel_update E j now = Inr (Some ?j)" using p by (simp add: cancel_update_def)
  with c assms(1) have "change_attempt E i (cancel_update E) None now s = Done (Inr (Some ?j)) cs"
    by (simp add: change_attempt_def)
  then show ?thesis using get_job_after_change[OF c, of i] p by (auto simp: doomed_def)
qed

lemma run_ops_inv: "list_all (op_ok E) ops \<Longrightarrow> store_inv E s \<Longrightarrow> store_inv E (run_ops E ops s)"
  by (induction ops arbitrary: s) (simp_all add: op_run_inv)

lemma latest_record:
  assumes "store_inv E s" "latest E trip k s = Inr j"
  shows "get_job s (job_identity E j) = Some j \<and> j_kind j = k \<and> j_trip j = trip"
proof -
  from assms(2) obtain i where i: "get_str s (KLatest k trip) = Some i" "get_job s i = Some j"
    by (auto simp: latest_def split: option.splits)
  have "has_status s i (\<lambda>j. j_kind j = k \<and> j_trip j = trip)" using assms(1) i(1) by (simp add: store_inv_def inv_latest_def)
  with i(2) get_job_wf[OF assms(1) i(2)] show ?thesis by (auto simp: has_status_def job_wf_def)
qed

lemma v2_cancel_result:
  "latest E trip k s0 = Inr j0 \<Longrightarrow> change_attempt E (job_identity E j0) (cancel_update E) None now s = Done (Inr (Some j)) cs \<Longrightarrow>
   v2_cancel E trip k now s0 s = (Some \<lparr>hr_status = 200, hr_body = Cancel_body trip (j_exec j) CANCELED\<rparr>, cs)"
  "latest E trip k s0 = Inr j0 \<Longrightarrow> change_attempt E (job_identity E j0) (cancel_update E) None now s = Done (Inl e) cs \<Longrightarrow>
   v2_cancel E trip k now s0 s = (Some (store_error e), cs)"
  by (simp_all add: v2_cancel_def cancel_def)

text \<open>C23. An accepted cancellation is kept.  A DELETE of a trip's job is answered 404 when the trip has none, 409 when
  it is finished, and otherwise always 200; refused requests change nothing.  After it was accepted, whatever the
  other processes do, before and after, no status request ever shows that execution waiting or completed: it is
  canceled or failed, or still running until its process notices, and if it had been waiting it is never started.\<close>

theorem accepted_cancellation_sticks:
  assumes "reachable E s0" and "list_all (op_ok E) ops" and "s = run_ops E ops s0"
  shows "case latest E trip k s0 of
      Inl e \<Rightarrow> v2_cancel E trip k now s0 s = (Some (error_reply (mk_app_error TASK_NOT_FOUND None None)), [])
    | Inr j0 \<Rightarrow> \<exists>j. get_job s (job_identity E j0) = Some j \<and>
        (if terminal (j_status j)
         then v2_cancel E trip k now s0 s = (Some (error_reply (mk_app_error TASK_NOT_CANCELABLE None None)), [])
         else \<exists>cs. v2_cancel E trip k now s0 s = (Some \<lparr>hr_status = 200, hr_body = Cancel_body trip (j_exec j0) CANCELED\<rparr>, cs) \<and>
           (\<forall>later st pr step. list_all (op_ok E) later \<longrightarrow>
              hr_body (v2_status E trip k (run_ops E later (exec cs s))) = Job_body trip (j_exec j0) st pr step \<longrightarrow>
              st \<in> {PROCESSING, CANCELED, FAILED} \<and> (j_status j = QUEUED \<longrightarrow> st \<noteq> PROCESSING)))"
proof (cases "latest E trip k s0")
  case (Inl e)
  then have "e = AppErr TASK_NOT_FOUND" by (auto simp: latest_def split: option.splits)
  with Inl show ?thesis by (simp add: v2_cancel_def cancel_def store_error_def)
next
  case (Inr j0)
  let ?i = "job_identity E j0"
  have inv0: "store_inv E s0" by (rule reachable_inv[OF assms(1)])
  have inv: "store_inv E s" unfolding assms(3) by (rule run_ops_inv[OF assms(2) inv0])
  note j0 = latest_record[OF inv0 Inr]
  obtain j where j: "get_job s ?i = Some j" "j_exec j = j_exec j0"
    using run_ops_evolves[OF assms(2), of s0 ?i j0] j0 assms(3) by auto
  show ?thesis
  proof (cases "terminal (j_status j)")
    case True
    then have "change_attempt E ?i (cancel_update E) None now s = Done (Inl (AppErr TASK_NOT_CANCELABLE)) []"
      using j(1) by (simp add: change_attempt_def cancel_update_def)
    from v2_cancel_result(2)[OF Inr this] j(1) True Inr show ?thesis by (simp add: store_error_def)
  next
    case False
    from cancel_succeeds[OF j(1) get_job_wf[OF inv j(1)] False] obtain j' cs where
      c: "change_attempt E ?i (cancel_update E) None now s = Done (Inr (Some j')) cs"
      and j': "j_exec j' = j_exec j" "get_job (exec cs s) ?i = Some j'" "doomed j'" "j_status j = QUEUED \<longrightarrow> terminal (j_status j')"
      by blast
    have ok: "op_ok E (OpChange_cancel ?i now)" by simp
    have inv': "store_inv E (exec cs s)" using op_run_inv[OF inv ok] c by simp
    have kept: "st \<in> {PROCESSING, CANCELED, FAILED} \<and> (j_status j = QUEUED \<longrightarrow> st \<noteq> PROCESSING)"
      if later: "list_all (op_ok E) later"
        and got: "hr_body (v2_status E trip k (run_ops E later (exec cs s))) = Job_body trip (j_exec j0) st pr step" for later st pr step
    proof -
      let ?t = "run_ops E later (exec cs s)"
      from got obtain r where r: "latest E trip k ?t = Inr r" "j_exec r = j_exec j0" "j_status r = st"
        by (auto simp: v2_status_def store_error_def error_reply_def server_error_def split: sum.splits job_exn.splits)
      from latest_record[OF run_ops_inv[OF later inv'] r(1)] r(2) j0 have "get_job ?t ?i = Some r"
        by (auto simp: job_identity_def)
      with run_ops_doomed[OF later j'(2,3)] have "doomed r" "terminal (j_status j') \<longrightarrow> j_status r = j_status j'" by auto
      with r(3) j'(3,4) show ?thesis by (auto simp: doomed_def)
    qed
    have "v2_cancel E trip k now s0 s = (Some \<lparr>hr_status = 200, hr_body = Cancel_body trip (j_exec j0) CANCELED\<rparr>, cs)"
      using v2_cancel_result(1)[OF Inr c] j'(1) j(2) by simp
    with kept j(1) False Inr show ?thesis by auto
  qed
qed

lemma accepted_cancellation_sticks_witness:
  "\<exists>cs. v2_cancel ex_env 7 Process 2 ex_db1 ex_db1 =
     (Some \<lparr>hr_status = 200, hr_body = Cancel_body 7 [101] CANCELED\<rparr>, cs)"
proof -
  have "latest ex_env 7 Process ex_db1 = Inr (ex_job\<lparr>j_created := 1\<rparr>)" by (simp add: latest_def ex_db1_views)
  moreover have "job_identity ex_env (ex_job\<lparr>j_created := 1\<rparr>) = ex_id" by (simp add: job_identity_def ex_id_def)
  ultimately show ?thesis
    using accepted_cancellation_sticks[OF ex_reach1, of "[]" ex_db1 7 Process 2]
    by (auto simp: ex_db1_views ex_job_def)
qed

end
