(* ===== verification/Spec2Isabelle.thy ===== *)
theory Spec2Isabelle
  imports StorePhotos StageTheorems ModelClient StoryTheorems SearchTheorems WorkerSystem GpuGate BusTheorems
    EvaluationTheorems ExecutionTheorems RunnerTheorems ProcessHandler PlaceTheorems PlaceFile Metrics
    RunpodStatus SearchClients JobProcess Api
begin

text \<open>
  The AI server of the trip album service: it receives jobs over Kafka, keeps them in Redis, runs each in a
  child process (sorting the photos of a trip into places, or writing a story about it), and answers
  searches over HTTP.  This development models its own logic and proves what makes it correct.

  \<^bold>\<open>How the parts work together.\<close>  A request message is received (\<open>jobs/kafka.py\<close>) and registered in the job
  store (\<open>jobs/redis_store.py\<close>).  A runner (\<open>jobs/runner.py\<close>) claims it under a lease and supervises a child
  process, which executes a handler (\<open>jobs/execution.py\<close>): the photo pipeline (\<open>jobs/process_handler.py\<close>,
  \<open>pipeline/\<close>) or the story (\<open>story/\<close>).  The child saves the outcome as the job's final event, and a publisher
  (\<open>jobs/kafka.py\<close> again) sends the event.  Calls of the GPU servers from all processes share a gate
  (\<open>jobs/gpu_requests.py\<close>).  Searches (\<open>search/\<close>, \<open>api/services/query_service.py\<close>) and the first version of
  the API (\<open>jobs/task_service.py\<close>) do not use the job store.

  \<^bold>\<open>Conventions.\<close>  A class or dataclass is a record, an enumeration a datatype, an exception a value on the
  left of a sum.  Floats and clock times are exact rationals; text the program looks into is a list of code
  points (\<open>utext\<close>), an identifier or key a string; a dictionary is an association list in insertion order
  (\<open>pydict\<close>).  What the code takes from outside \<open>src/\<close> is a field of an environment record or an argument:
  SHA-256, pydantic's validation, DBSCAN, perceptual hashes, square roots, the answers of the vector store, of
  object storage and of the models.  A coroutine is cut at its waits; what others do at a wait, whether a
  call is lost before or after it arrived, and whether the task is cancelled there are inputs of the model.
  Log records, message texts and measurements of time for the logs are left out.

  \<^bold>\<open>Prelude\<close> (\<open>Prelude\<close>, \<open>PyText\<close>, \<open>Errors\<close>): Python's list, dictionary, rounding and string
  idioms, computations that keep their state when they fail (\<open>bindS\<close>, and \<open>always\<close> for what they keep), and
  \<open>core/errors.py\<close>.

  \<^bold>\<open>Job store.\<close>  \<open>JobModels\<close> holds the records, events and settings (\<open>jobs/models.py\<close>, \<open>jobs/config.py\<close>,
  \<open>schemas/task.py\<close>).  \<open>RedisCore\<close> is the database: typed keys, values, queued commands, and the locale
  \<open>watched_txn\<close>, the contract between the keys an optimistic transaction watches and what it reads.
  \<open>RedisStore\<close> has every operation of \<open>RedisJobStore\<close> as one pass of its transaction: a function from the
  database read to an answer and the commands of \<open>EXEC\<close>.  \<open>StoreInvariant\<close>, \<open>StoreOps\<close> and
  \<open>StoreCommits\<close> prove the invariant \<open>store_inv\<close> (records, queues, running and pending sets, slots and the
  pointer to the latest job agree) for each operation; \<open>job_update\<close> is the contract of the updates passed to
  \<open>change\<close>.  \<open>StoreAtomic\<close> interprets \<open>watched_txn\<close> for every operation, so that a commit whose reads are
  old acts as the whole operation run at once, and defines \<open>reachable\<close>, the databases any interleaving of
  clients leads to, over the operations \<open>store_op\<close>.  \<open>StoreHistory\<close> says what the store never forgets and
  \<open>StoreTenure\<close> (locale \<open>tenured\<close>) that a lost lease does not come back.  \<open>StoreTheorems\<close>, \<open>StoreOpTheorems\<close>
  and \<open>StorePhotos\<close> state the properties: one active job per trip and kind, bounded running jobs, final
  statuses, fencing, recovery, exclusive publication, bounded photo buffers.

  \<^bold>\<open>Messages.\<close>  \<open>Intake\<close> is the receiver's decision about one message; \<open>Bus\<close> is the system of consumers,
  publishers, store and broker as a step relation with lost replies, rebalances and restarts.  \<open>BusInvariant\<close>
  carries its invariant; \<open>BusTheorems\<close> concludes that a message below a committed offset is
  settled, that a published result is on its topic, and that each message is settled after at most three
  refusals.  The fuel of \<open>intake_run\<close> counts steps between waits; the theorem gives the number.

  \<^bold>\<open>Execution.\<close>  \<open>Execution\<close> models one job in its process: the reporter, the handler as an unknown
  coroutine (\<open>handler\<close>: what it reports, polls, reads, returns or raises, and what it does when a call raises),
  and the saving of the outcome.  \<open>ExecutionTheorems\<close> shows that an owned job ends with exactly the event its
  outcome calls for, and that no failure of the connection and no other client completes a job with anything
  but the validated result of its handler.  \<open>Runner\<close> models \<open>StandbyChildren\<close>, \<open>supervise\<close> and \<open>runner_loop\<close>
  over an explicit set of children; \<open>RunnerTheorems\<close> shows that no child is left behind or given two jobs, and
  that supervision ends and releases the job: its fuel is two rounds more than heartbeats fit into the time
  the run has left.  The fuel of \<open>claim_run\<close> and \<open>turns\<close> counts passes and turns of loops that run as long
  as the service does; results for \<open>runner_loop\<close> hold for every fuel that is not used up.
  \<open>JobProcess\<close> is the process around an execution: the choice of the handler, the line a waiting child is given,
  and the guard that stops a run that lost its lease, of which it shows that nothing it stops could still have been
  saved.  \<open>ProcessHandler\<close>: the checks before a pipeline run, and the search through the causes of
  its exception, which is complete and ends on circles too (fuel: four steps per exception and two).
  \<open>Evaluation\<close> and \<open>EvaluationTheorems\<close> (\<open>observability/quality.py\<close>, \<open>datasets.py\<close>): scores against known
  answers.

  \<^bold>\<open>Photo pipeline.\<close>  \<open>Photos\<close> has the photo states and the locale \<open>photo_stage\<close>, what a stage promises to the
  next; it is interpreted for \<open>Clock\<close>, \<open>Locating\<close>, \<open>Clustering\<close>, \<open>Assigning\<close> and \<open>Filtering\<close>
  (\<open>pipeline/steps/\<close>).  \<open>Finalizing\<close> builds the result.  \<open>PipelineRun\<close> is \<open>pipeline/run.py\<close> with its
  downloads, embeddings, polls and reports; \<open>ClusterLemmas\<close> and \<open>RunResults\<close> carry the invariants,
  \<open>RunExample\<close> a concrete trip, \<open>PipelineTheorems\<close> and \<open>StageTheorems\<close> the properties: every photo of the
  request is in the result once, cancellation stops the run, each stage does what it says.  The rounds of
  \<open>assign_loop\<close> are bounded by the unplaced photos, which is its fuel.

  \<^bold>\<open>Agent\<close> (\<open>pipeline/agent/\<close>).  \<open>AgentTrip\<close> is the trip as the agent sees it, \<open>AgentGraph\<close> its graph, \<open>Kakao\<close>
  the place search, \<open>AgentTalk\<close> and \<open>AgentModel\<close> the conversations with the model and their tools.
  \<open>AgentSound\<close>, \<open>AgentLemmas\<close>, \<open>AgentTheorems\<close>, \<open>TalkLemmas\<close>, \<open>TalkTheorems\<close>: the merge map stays a forest, the
  graph ends within nineteen steps, only asked photos move, every request to the model is well formed, and new
  places come from searches.

  \<^bold>\<open>Story\<close> (\<open>StorySelect\<close>, \<open>StoryRun\<close>, \<open>StoryTheorems\<close>): choosing photos within the budget and
  checking what the model wrote.  \<^bold>\<open>Search\<close> (\<open>Calendar\<close>, \<open>SearchDates\<close>, \<open>SearchText\<close>, \<open>SearchRun\<close>,
  \<open>SearchFlow\<close>, \<open>SearchTheorems\<close>): reading a question, dates, times of day, regions, and the answer's contract.
  \<^bold>\<open>GPU gate\<close> (\<open>GpuGate\<close>): at most the configured number of calls run at once.

  \<^bold>\<open>Public places\<close> (\<open>infra/place_index.py\<close>, \<open>scripts/build_place_index.py\<close>).  \<open>PlaceIndex\<close> is the search over
  the tables, with SQLite as an unknown of which \<open>sqlite_ok\<close> states what its documentation
  promises; \<open>PlaceBuild\<close> is the script that fills the tables.  \<open>PlaceBox\<close> shows on real numbers that the
  bounding box holds every point of the circle, \<open>PlaceTables\<close> that the script leaves tables that agree with
  each other, \<open>PlaceLemmas\<close> and \<open>PlaceTheorems\<close> that the search is then the plain definition of what matches.
  \<open>PlaceFile\<close> is the download of the index into a directory in which any run may have been cut off.

  \<^bold>\<open>Model client\<close> (\<open>infra/vllm_client.py\<close>).  \<open>ModelClient\<close> is one call: its checks, the images put to their
  places, the request, the reading of the answer, and the messages of the agent, of a story and of a search as it
  gets them.  It shows that the client sends what its caller wrote with every image at its place, and that no
  request of an agent's conversation is refused by it.

  \<^bold>\<open>Object storage\<close> (\<open>infra/images.py\<close>, \<open>infra/image_resolver.py\<close>).  \<open>Storage\<close> has the downloads of a chunk
  and the creation of the client that signs URLs, in which a thread and a caller that may be cancelled decide under
  a lock who closes it; it shows that a chunk arrives whole or is refused by name, and that the
  client is neither leaked nor closed under its user.

  \<^bold>\<open>Vectors\<close> (\<open>embedding/client.py\<close>, \<open>infra/qdrant.py\<close>).  \<open>Vectors\<close> has the two clients and shows, from how
  exact NumPy is (\<open>numpy_ok\<close>), that a vector that is not refused is a unit vector wherever it is checked.
  \<open>SearchClients\<close> assembles the search with all its clients and gates (\<open>api/search_bootstrap.py\<close>) and shows which
  failures of servers can fail a search.

  \<^bold>\<open>Operation.\<close>  \<open>Metrics\<close> (\<open>observability/metrics.py\<close>): the metrics page and that it
  counts every observation once.  \<open>RunpodStatus\<close> (\<open>api/services/runpod_status.py\<close>): the
  probes of the generation server, their lock and the kept answer, with callers that wait and are cancelled.

  \<^bold>\<open>HTTP service\<close> (\<open>v2_main.py\<close>, \<open>api/deps.py\<close>, \<open>core/http_errors.py\<close>).  \<open>Api\<close> serves one request with the
  operations of the other theories: who is let in, the reply of every route and of every failure.  It shows what an
  accepted cancellation means to those who ask for the status afterwards.

  \<^bold>\<open>First API version.\<close>  \<open>TaskService\<close> and \<open>TaskTheorems\<close> (\<open>jobs/task_service.py\<close>): tasks on a heap,
  methods cut at their waits.  \<open>Worker\<close> and \<open>WorkerTheorems\<close> (\<open>worker/\<close>): the event loop and the runner thread of
  the worker process as one step relation, with the pipeline as an unknown computation (\<open>pipeline_run\<close>), and
  that every accepted job is ended and answered.  \<open>WorkerSystem\<close> puts service and worker
  together over connections that lose, delay and repeat what they carry.

  \<^bold>\<open>What modelling showed.\<close>  In the first API version a task cancelled while it is being sent to the worker
  is started or failed afterwards, although cancelled is documented as final (\<open>statuses_move_as_documented\<close> has
  the exception; \<open>TaskTheorems\<close> the run); two overlapping submissions of one trip are both accepted, because the
  check for an active task precedes a wait.  A tool argument that is infinite ends the agent's job, where the
  reader of arguments means to fall back to its default.  A callback of the worker names only the trip: a task
  that was given up and submitted again can be completed with the result of the first run
  (\<open>stale_result_completes_next_task\<close> in \<open>WorkerSystem\<close>).  A state of the pod or an id of a model that is a
  list or an object ends the status page with an error instead of being reported as unknown.

  \<^bold>\<open>Not modelled.\<close>  FastAPI itself (which matches paths and checks bodies), the order in which the service opens and
  closes its parts, and the routes of the first version; HTTP, the servers behind the clients (whose answers are
  parameters) and the constructors of clients; logging and tracing apart from the step names that reach the metrics; construction of the
  objects the pipeline is given, and the fakes; the watchdog on the parent process; the scripts but the one that
  builds the place index; the shutdown of the worker, which ends its process.  Of the
  modelled parts: the conditions of an evaluation on the metrics page, texts of prompts and messages, measuring an image, the thread that carries the synchronous
  pipeline (\<open>sync_bridge.py\<close>: its calls are the polls and reports of a handler), and the start of several story
  loops in one process, which appear to each other as other clients of the store.
\<close>

end
